(* ===== verification/Prelude.thy ===== *)
theory Prelude
  imports Main "HOL-Library.Word" "HOL-Library.Multiset" "HOL-Library.Monad_Syntax"
begin

text \<open>
  What every component of the WARPED model shares: the machine integer types, the
  vectors of the C++ standard library, and the lemmas about lists that the
  queue components use.

  Undefined behaviour and process abort. An operation of the code that can leave the
  defined part of C++ (an index past the end of a vector, an iterator that does
  not point at an element, a null pointer) or that calls \<open>abort\<close> or fails an
  \<open>ASSERT\<close> returns an \<open>option\<close>: \<open>None\<close> is "the process does not continue".
  The theorems that an operation returns \<open>Some\<close> are then safety theorems.
\<close>

named_theorems vec_simps \<open>equations for the vector accessors\<close>
named_theorems warped_defs \<open>definitions that proofs unfold as a group\<close>

subsection \<open>Machine integers\<close>

type_synonym u32 = "32 word"
type_synonym u64 = "64 word"

text \<open>The range of a C++ \<open>int\<close>.\<close>

definition int_range :: "int \<Rightarrow> bool" where
  "int_range i \<longleftrightarrow> - (2 ^ 31) \<le> i \<and> i < 2 ^ 31"

lemma sint_int_range [simp]: "int_range (sint (w :: u32))"
  using sint_ge [of w] sint_lt [of w] by (simp add: int_range_def)

lemma sint_word_of_int [simp]:
  assumes "int_range i"
  shows "sint (word_of_int i :: u32) = i"
proof -
  have "signed_take_bit (LENGTH(32) - Suc 0) i = i"
    using assms by (intro signed_take_bit_int_eq_self) (simp_all add: int_range_def)
  then show ?thesis
    by (simp add: sint_sbintrunc')
qed

subsection \<open>Vectors\<close>

text \<open>
  \<open>std::vector\<close> indexed with \<open>operator[]\<close>: an index that is out of range is undefined
  behaviour.
\<close>

definition vec_get :: "'a list \<Rightarrow> nat \<Rightarrow> 'a option" where
  "vec_get xs i = (if i < length xs then Some (xs ! i) else None)"

definition vec_set :: "'a list \<Rightarrow> nat \<Rightarrow> 'a \<Rightarrow> 'a list option" where
  "vec_set xs i x = (if i < length xs then Some (xs[i := x]) else None)"

lemma vec_get_in [vec_simps]: "i < length xs \<Longrightarrow> vec_get xs i = Some (xs ! i)"
  by (simp add: vec_get_def)

lemma vec_set_in [vec_simps]: "i < length xs \<Longrightarrow> vec_set xs i x = Some (xs[i := x])"
  by (simp add: vec_set_def)

lemma vec_get_SomeD: "vec_get xs i = Some x \<Longrightarrow> i < length xs \<and> xs ! i = x"
  by (simp add: vec_get_def split: if_splits)

lemma vec_set_SomeD: "vec_set xs i x = Some ys \<Longrightarrow> i < length xs \<and> ys = xs[i := x]"
  by (auto simp: vec_set_def split: if_splits)

subsection \<open>Lists\<close>

lemma nth_list_update_if: "i < length xs \<Longrightarrow> xs[i := x] ! j = (if j = i then x else xs ! j)"
  by simp

lemma dropWhile_hd_not: "dropWhile P xs = y # ys \<Longrightarrow> \<not> P y"
  by (metis hd_dropWhile list.distinct(1) list.sel(1))

text \<open>In a list ordered by a key, a prefix loop selects exactly the elements below the bound.\<close>

lemma takeWhile_eq_filter_sorted:
  assumes "sorted (map k xs)"
  shows "takeWhile (\<lambda>x. k x < (t :: 't :: linorder)) xs = filter (\<lambda>x. k x < t) xs"
  using assms
proof (induction xs)
  case Nil
  then show ?case by simp
next
  case (Cons x xs)
  show ?case
  proof (cases "k x < t")
    case True
    with Cons show ?thesis by simp
  next
    case False
    with Cons.prems have "\<forall>y \<in> set xs. \<not> k y < t" by fastforce
    with False show ?thesis by (simp add: filter_False)
  qed
qed

lemma dropWhile_eq_filter_sorted:
  assumes "sorted (map k xs)"
  shows "dropWhile (\<lambda>x. k x < (t :: 't :: linorder)) xs = filter (\<lambda>x. \<not> k x < t) xs"
  using assms
proof (induction xs)
  case Nil
  then show ?case by simp
next
  case (Cons x xs)
  show ?case
  proof (cases "k x < t")
    case True
    with Cons show ?thesis by simp
  next
    case False
    with Cons.prems have "\<forall>y \<in> set (x # xs). \<not> k y < t" by fastforce
    with False show ?thesis by (metis dropWhile.simps(2) filter_True)
  qed
qed

lemma sorted_map_takeWhile: "sorted (map k xs) \<Longrightarrow> sorted (map k (takeWhile P xs))"
  by (metis sorted_takeWhile sorted_wrt_append map_append takeWhile_dropWhile_id)

lemma sorted_last_max:
  assumes "sorted (map f xs)" and "x \<in> set xs"
  shows "f x \<le> f (last xs)"
  using assms by (cases xs rule: rev_cases) (auto simp: sorted_append)

lemma mset_takeWhile_dropWhile: "mset (takeWhile P xs) + mset (dropWhile P xs) = mset xs"
  by (metis mset_append takeWhile_dropWhile_id)

lemma set_take_drop: "set (take p xs) \<union> set (drop p xs) = set xs"
  by (metis append_take_drop_id set_append)

lemma mset_take_drop: "mset (take p xs) + mset (drop p xs) = mset xs"
  by (metis append_take_drop_id mset_append)

lemma distinct_submset:
  assumes "distinct xs" and "mset ys \<subseteq># mset xs"
  shows "distinct ys"
proof -
  obtain zs where "mset zs = mset xs - mset ys"
    using ex_mset by blast
  then have "mset (ys @ zs) = mset xs"
    using assms(2) by simp
  then have "distinct (ys @ zs)"
    using assms(1) mset_eq_imp_distinct_iff by blast
  then show ?thesis by simp
qed

lemma distinct_insert_at:
  assumes "distinct xs" and "x \<notin> set xs"
  shows "distinct (take p xs @ x # drop p xs)"
  using assms set_take_disj_set_drop_if_distinct [of xs p p]
  by (auto dest: in_set_takeD in_set_dropD)

lemma map_of_filter_fst:
  "map_of (filter (\<lambda>x. fst x \<noteq> n) xs) k = (if k = n then None else map_of xs k)"
  by (induction xs) auto

lemma map_of_take_drop:
  "map_of xs k = (case map_of (take p xs) k of None \<Rightarrow> map_of (drop p xs) k | Some v \<Rightarrow> Some v)"
  by (metis append_take_drop_id map_add_def map_of_append option.case_eq_if option.split_sel_asm)

lemma mset_filter_rest: "A = B + filter_mset P A \<Longrightarrow> B = filter_mset (\<lambda>x. \<not> P x) A"
  by (metis add.commute add_left_cancel multiset_partition)

text \<open>The first element that satisfies a test, removed: a find-and-erase loop.\<close>

fun remove_first :: "('a \<Rightarrow> bool) \<Rightarrow> 'a list \<Rightarrow> 'a list" where
  "remove_first P [] = []"
| "remove_first P (x # xs) = (if P x then xs else x # remove_first P xs)"

lemma remove_first_none [simp]: "\<forall>x \<in> set xs. \<not> P x \<Longrightarrow> remove_first P xs = xs"
  by (induction xs) auto

lemma set_remove_first_subset: "set (remove_first P xs) \<subseteq> set xs"
  by (induction xs) auto

lemma remove_first_submset: "mset (remove_first P xs) \<subseteq># mset xs"
proof (induction xs)
  case (Cons x xs)
  then show ?case by (auto intro: subset_mset.order_trans [OF _ mset_subset_eq_add_right])
qed simp

lemma mset_remove_first:
  "find P xs = Some x \<Longrightarrow> mset xs = add_mset x (mset (remove_first P xs))"
  by (induction xs) (auto split: if_splits)

lemma sorted_remove_first: "sorted_wrt R xs \<Longrightarrow> sorted_wrt R (remove_first P xs)"
proof (induction xs)
  case (Cons x xs)
  then show ?case
    using set_remove_first_subset [of P xs] by auto
qed simp

end
