(* ===== verification/VirtualTime.thy ===== *)
theory VirtualTime
  imports Prelude
begin

text \<open>
  Virtual time: \<open>IntVTime.h\<close>, \<open>IntVTime.cpp\<close> and the limits of \<open>warped.cpp\<close>. The abstract
  class \<open>VTime\<close> is what the rest of the kernel sees: a totally ordered type with a zero and
  a positive infinity. The components of this development are therefore polymorphic in a
  type of class \<open>linorder\<close> (with \<open>order_top\<close> for the infinity and \<open>zero\<close> for the zero
  where the code asks for them), and \<open>IntVTime\<close>, the implementation in the
  repository, is shown to be an instance.
\<close>

subsection \<open>IntVTime\<close>

definition getWarped32Max :: u32 where
  "getWarped32Max = 2147483647"

definition getWarped32Min :: u32 where
  "getWarped32Min = 2147483648"

datatype intvtime = IntVTime (getTime : u32)

text \<open>The two shared instances of the class, its zero and its positive infinity.\<close>

definition getIntVTimeZero :: intvtime where
  "getIntVTimeZero = IntVTime 0"

definition getIntVTimePositiveInfinity :: intvtime where
  "getIntVTimePositiveInfinity = IntVTime getWarped32Max"

text \<open>The private member \<open>myTime\<close> is an \<open>int\<close>, so every comparison is signed.\<close>

definition intvtime_less :: "intvtime \<Rightarrow> intvtime \<Rightarrow> bool" where
  "intvtime_less a right \<longleftrightarrow> sint (getTime a) < sint (getTime right)"

definition intvtime_less_eq :: "intvtime \<Rightarrow> intvtime \<Rightarrow> bool" where
  "intvtime_less_eq a right \<longleftrightarrow> sint (getTime a) \<le> sint (getTime right)"

text \<open>The comparisons and constants of the class are those of the type classes.\<close>

instantiation intvtime :: linorder
begin

definition less_intvtime :: "intvtime \<Rightarrow> intvtime \<Rightarrow> bool" where
  "less_intvtime = intvtime_less"

definition less_eq_intvtime :: "intvtime \<Rightarrow> intvtime \<Rightarrow> bool" where
  "less_eq_intvtime = intvtime_less_eq"

instance
proof
  fix x y :: intvtime
  assume "x \<le> y" and "y \<le> x"
  then have "sint (getTime x) = sint (getTime y)"
    by (simp add: less_eq_intvtime_def intvtime_less_eq_def)
  then show "x = y"
    by (intro intvtime.expand signed_word_eqI)
qed (auto simp: less_intvtime_def less_eq_intvtime_def intvtime_less_def intvtime_less_eq_def)

end

lemma less_intvtime_iff: "a < b \<longleftrightarrow> sint (getTime a) < sint (getTime b)"
  by (simp add: less_intvtime_def intvtime_less_def)

lemma less_eq_intvtime_iff: "a \<le> b \<longleftrightarrow> sint (getTime a) \<le> sint (getTime b)"
  by (simp add: less_eq_intvtime_def intvtime_less_eq_def)

instantiation intvtime :: order_top
begin

definition top_intvtime :: intvtime where
  "top_intvtime = getIntVTimePositiveInfinity"

instance
proof
  fix a :: intvtime
  show "a \<le> top"
    using sint_int_range [of "getTime a"]
    by (simp add: top_intvtime_def getIntVTimePositiveInfinity_def less_eq_intvtime_iff
        getWarped32Max_def int_range_def)
qed

end

instantiation intvtime :: zero
begin

definition zero_intvtime :: intvtime where
  "zero_intvtime = getIntVTimeZero"

instance ..

end

lemmas intvtime_constants = zero_intvtime_def getIntVTimeZero_def
  top_intvtime_def getIntVTimePositiveInfinity_def getWarped32Max_def

text \<open>
  The arithmetic operators. Overflow of an \<open>int\<close> is undefined behaviour, so a sum out of
  range is \<open>None\<close>.
\<close>

definition int_result :: "int \<Rightarrow> intvtime option" where
  "int_result i = (if int_range i then Some (IntVTime (word_of_int i)) else None)"

definition intvtime_plus :: "intvtime \<Rightarrow> intvtime \<Rightarrow> intvtime option" where
  "intvtime_plus a right = int_result (sint (getTime a) + sint (getTime right))"

text \<open>The binary minus of two \<open>IntVTime\<close> values adds, as the source has it.\<close>

definition intvtime_minus :: "intvtime \<Rightarrow> intvtime \<Rightarrow> intvtime option" where
  "intvtime_minus a right = int_result (sint (getTime a) + sint (getTime right))"

definition intvtime_plus_int :: "intvtime \<Rightarrow> u32 \<Rightarrow> intvtime option" where
  "intvtime_plus_int a right = int_result (sint (getTime a) + sint right)"

definition intvtime_minus_int :: "intvtime \<Rightarrow> u32 \<Rightarrow> intvtime option" where
  "intvtime_minus_int a right = int_result (sint (getTime a) - sint right)"

text \<open>\<open>getApproximateIntTime\<close> widens the time to the 64-bit \<open>warped64_t\<close>.\<close>

definition getApproximateIntTime :: "intvtime \<Rightarrow> int" where
  "getApproximateIntTime a = sint (getTime a)"

lemma int_result_SomeD:
  "int_result i = Some c \<Longrightarrow> sint (getTime c) = i"
  by (auto simp: int_result_def split: if_splits)

lemma getApproximateIntTime_less: "getApproximateIntTime a < getApproximateIntTime b \<longleftrightarrow> a < b"
  by (simp add: getApproximateIntTime_def less_intvtime_iff)

text \<open>Adding and then taking away the same \<open>int\<close> gives the time back.\<close>

lemma intvtime_plus_minus_int:
  assumes "intvtime_plus_int a k = Some b"
  shows "intvtime_minus_int b k = Some a"
proof -
  have "sint (getTime b) = sint (getTime a) + sint k"
    using assms by (simp add: intvtime_plus_int_def int_result_SomeD)
  then show ?thesis
    by (simp add: intvtime_minus_int_def int_result_def)
qed

text \<open>The difference of two times is the sum: it never undoes an addition of a nonzero time.\<close>

lemma intvtime_minus_adds:
  assumes "intvtime_plus a b = Some c" and "b \<noteq> 0"
  shows "intvtime_minus c b \<noteq> Some a"
proof
  assume "intvtime_minus c b = Some a"
  then have "sint (getTime a) = sint (getTime c) + sint (getTime b)"
    by (simp add: intvtime_minus_def int_result_SomeD)
  moreover have "sint (getTime c) = sint (getTime a) + sint (getTime b)"
    using assms(1) by (simp add: intvtime_plus_def int_result_SomeD)
  ultimately have "sint (getTime b) = 0" by simp
  then have "getTime b = 0" by (intro signed_word_eqI) simp
  with assms(2) show False
    by (cases b) (simp add: intvtime_constants)
qed

end
