(* ===== verification/OrderedMultiset.thy ===== *)
theory OrderedMultiset
  imports Prelude
begin

text \<open>
  The \<open>std::multiset\<close> of the C++ standard library, as far as the kernel uses it. An element
  lives in a node; an iterator names a node (or is \<open>end()\<close>) and stays valid while other
  nodes come and go, so nodes carry an identity that is never used twice. The list of
  nodes is the in-order traversal. Using an iterator that does not name a node, or
  decrementing \<open>begin()\<close>, is undefined behaviour (\<open>None\<close>).

  The comparison object is a parameter of every operation. What the standard requires of it
  is the locale \<open>strict_weak_order\<close>, in which the container's laws are proved once;
  the comparison functors of the kernel are interpretations.
\<close>

record 'a omset =
  nodes :: "(nat \<times> 'a) list"
  nextNode :: nat

text \<open>An iterator: \<open>None\<close> is \<open>end()\<close>.\<close>

type_synonym iter = "nat option"

definition ms_empty :: "'a omset" where
  "ms_empty = \<lparr>nodes = [], nextNode = 0\<rparr>"

definition ms_vals :: "'a omset \<Rightarrow> 'a list" where
  "ms_vals m = map snd (nodes m)"

definition ms_ids :: "'a omset \<Rightarrow> nat list" where
  "ms_ids m = map fst (nodes m)"

definition ms_isEmpty :: "'a omset \<Rightarrow> bool" where
  "ms_isEmpty m \<longleftrightarrow> (case nodes m of [] \<Rightarrow> True | _ \<Rightarrow> False)"

definition ms_begin :: "'a omset \<Rightarrow> iter" where
  "ms_begin m = (case nodes m of [] \<Rightarrow> None | n # _ \<Rightarrow> Some (fst n))"

definition ms_front :: "'a omset \<Rightarrow> 'a option" where
  "ms_front m = (case nodes m of [] \<Rightarrow> None | n # _ \<Rightarrow> Some (snd n))"

definition ms_deref :: "'a omset \<Rightarrow> iter \<Rightarrow> 'a option" where
  "ms_deref m it = Option.bind it (map_of (nodes m))"

text \<open>The position an iterator stands for, with \<open>end()\<close> past the last node.\<close>

definition ms_pos :: "'a omset \<Rightarrow> iter \<Rightarrow> nat option" where
  "ms_pos m it =
     (case it of None \<Rightarrow> Some (length (nodes m))
      | Some n \<Rightarrow> if List.member (ms_ids m) n then Some (length (takeWhile (\<lambda>i. i \<noteq> n) (ms_ids m)))
                 else None)"

definition ms_iter_at :: "'a omset \<Rightarrow> nat \<Rightarrow> iter" where
  "ms_iter_at m p = vec_get (ms_ids m) p"

definition ms_next :: "'a omset \<Rightarrow> iter \<Rightarrow> iter option" where
  "ms_next m it = do {
     n \<leftarrow> it;
     p \<leftarrow> ms_pos m (Some n);
     Some (ms_iter_at m (Suc p)) }"

definition ms_prev :: "'a omset \<Rightarrow> iter \<Rightarrow> iter option" where
  "ms_prev m it = do {
     p \<leftarrow> ms_pos m it;
     if p = 0 then None else Some (ms_iter_at m (p - 1)) }"

definition ms_insert_at :: "nat \<Rightarrow> 'a \<Rightarrow> 'a omset \<Rightarrow> 'a omset \<times> iter" where
  "ms_insert_at p v m =
     (m\<lparr>nodes := take p (nodes m) @ (nextNode m, v) # drop p (nodes m),
        nextNode := Suc (nextNode m)\<rparr>, Some (nextNode m))"

definition lower_pos :: "('a \<Rightarrow> 'a \<Rightarrow> bool) \<Rightarrow> 'a \<Rightarrow> 'a omset \<Rightarrow> nat" where
  "lower_pos lt v m = length (takeWhile (\<lambda>x. lt x v) (ms_vals m))"

definition upper_pos :: "('a \<Rightarrow> 'a \<Rightarrow> bool) \<Rightarrow> 'a \<Rightarrow> 'a omset \<Rightarrow> nat" where
  "upper_pos lt v m = length (takeWhile (\<lambda>x. \<not> lt v x) (ms_vals m))"

definition ms_lower_bound :: "('a \<Rightarrow> 'a \<Rightarrow> bool) \<Rightarrow> 'a \<Rightarrow> 'a omset \<Rightarrow> iter" where
  "ms_lower_bound lt v m = ms_iter_at m (lower_pos lt v m)"

text \<open>\<open>insert(v)\<close>: after every equivalent element.\<close>

definition ms_insert :: "('a \<Rightarrow> 'a \<Rightarrow> bool) \<Rightarrow> 'a \<Rightarrow> 'a omset \<Rightarrow> 'a omset \<times> iter" where
  "ms_insert lt v m = ms_insert_at (upper_pos lt v m) v m"

text \<open>\<open>insert(hint, v)\<close>: as close to the hint as the order allows.\<close>

definition ms_insert_hint ::
  "('a \<Rightarrow> 'a \<Rightarrow> bool) \<Rightarrow> iter \<Rightarrow> 'a \<Rightarrow> 'a omset \<Rightarrow> ('a omset \<times> iter) option" where
  "ms_insert_hint lt hint v m = do {
     p \<leftarrow> ms_pos m hint;
     Some (ms_insert_at (max (lower_pos lt v m) (min p (upper_pos lt v m))) v m) }"

definition ms_insert_range :: "('a \<Rightarrow> 'a \<Rightarrow> bool) \<Rightarrow> 'a list \<Rightarrow> 'a omset \<Rightarrow> 'a omset" where
  "ms_insert_range lt vs m = foldl (\<lambda>m v. fst (ms_insert lt v m)) m vs"

definition ms_erase :: "iter \<Rightarrow> 'a omset \<Rightarrow> 'a omset option" where
  "ms_erase it m =
     (case it of None \<Rightarrow> None
      | Some n \<Rightarrow> if List.member (ms_ids m) n
                 then Some (m\<lparr>nodes := remove_first (\<lambda>x. fst x = n) (nodes m)\<rparr>) else None)"

definition ms_clear :: "'a omset \<Rightarrow> 'a omset" where
  "ms_clear m = m\<lparr>nodes := []\<rparr>"

subsection \<open>Node identities\<close>

definition ms_ids_ok :: "'a omset \<Rightarrow> bool" where
  "ms_ids_ok m \<longleftrightarrow> distinct (ms_ids m) \<and> (\<forall>n \<in> set (ms_ids m). n < nextNode m)"

lemma ms_vals_empty [simp]: "ms_vals ms_empty = []" "ms_ids ms_empty = []" "ms_ids_ok ms_empty"
  by (simp_all add: ms_vals_def ms_ids_def ms_empty_def ms_ids_ok_def)

lemma length_ms [simp]: "length (ms_vals m) = length (nodes m)" "length (ms_ids m) = length (nodes m)"
  by (simp_all add: ms_vals_def ms_ids_def)

lemma ms_isEmpty_iff: "ms_isEmpty m \<longleftrightarrow> ms_vals m = []"
  by (simp add: ms_isEmpty_def ms_vals_def split: list.splits)

lemma ms_begin_None_iff: "ms_begin m = None \<longleftrightarrow> ms_vals m = []"
  by (simp add: ms_begin_def ms_vals_def split: list.splits)

lemma ms_front_hd: "ms_front m = (case ms_vals m of [] \<Rightarrow> None | x # _ \<Rightarrow> Some x)"
  by (simp add: ms_front_def ms_vals_def split: list.splits)

lemma ms_deref_begin [simp]: "ms_deref m (ms_begin m) = ms_front m"
  by (simp add: ms_deref_def ms_begin_def ms_front_def split: list.splits)

lemma ms_deref_Some: "ms_deref m (Some n) = map_of (nodes m) n"
  by (simp add: ms_deref_def)

lemma ms_deref_end [simp]: "ms_deref m None = None"
  by (simp add: ms_deref_def)

lemma ms_deref_ids: "(\<exists>v. ms_deref m (Some n) = Some v) \<longleftrightarrow> n \<in> set (ms_ids m)"
  by (metis (mono_tags) ms_deref_Some ms_ids_def list.set_map map_of_eq_None_iff option.exhaust
      option.distinct(1))

lemma ms_deref_in_vals: "ms_deref m it = Some v \<Longrightarrow> v \<in> set (ms_vals m)"
  by (force simp: ms_deref_def ms_vals_def dest: map_of_SomeD split: bind_splits)

lemma ms_pos_valid:
  "ms_pos m (Some n) = (if n \<in> set (ms_ids m) then Some (length (takeWhile (\<lambda>i. i \<noteq> n) (ms_ids m)))
                        else None)"
  by (simp add: ms_pos_def)

lemma takeWhile_neq_nth:
  "distinct xs \<Longrightarrow> p < length xs \<Longrightarrow> length (takeWhile (\<lambda>i. i \<noteq> xs ! p) xs) = p"
proof (induction xs arbitrary: p)
  case (Cons x xs)
  then show ?case by (cases p) auto
qed simp

lemma ms_pos_nth:
  "ms_ids_ok m \<Longrightarrow> p < length (nodes m) \<Longrightarrow> ms_pos m (Some (ms_ids m ! p)) = Some p"
  by (simp add: ms_pos_valid ms_ids_ok_def takeWhile_neq_nth)

lemma ms_iter_at_valid: "p < length (nodes m) \<Longrightarrow> ms_iter_at m p = Some (ms_ids m ! p)"
  by (simp add: ms_iter_at_def vec_get_def)

subsection \<open>Insertion\<close>

lemma fst_ms_insert_at [simp]:
  "nodes (fst (ms_insert_at p v m)) = take p (nodes m) @ (nextNode m, v) # drop p (nodes m)"
  "nextNode (fst (ms_insert_at p v m)) = Suc (nextNode m)"
  "snd (ms_insert_at p v m) = Some (nextNode m)"
  by (simp_all add: ms_insert_at_def)

lemma ms_vals_insert_at:
  "ms_vals (fst (ms_insert_at p v m)) = take p (ms_vals m) @ v # drop p (ms_vals m)"
  by (simp add: ms_vals_def take_map drop_map)

lemma ms_ids_insert_at:
  "ms_ids (fst (ms_insert_at p v m)) = take p (ms_ids m) @ nextNode m # drop p (ms_ids m)"
  by (simp add: ms_ids_def take_map drop_map)

lemma mset_ms_insert_at:
  "mset (ms_vals (fst (ms_insert_at p v m))) = add_mset v (mset (ms_vals m))"
  by (simp add: ms_vals_insert_at mset_take_drop)

lemma set_ms_ids_insert_at:
  "set (ms_ids (fst (ms_insert_at p v m))) = insert (nextNode m) (set (ms_ids m))"
  using set_take_drop [of p "ms_ids m"] by (auto simp: ms_ids_insert_at)

lemma ms_ids_ok_insert_at:
  assumes "ms_ids_ok m"
  shows "ms_ids_ok (fst (ms_insert_at p v m))"
proof -
  have fresh: "nextNode m \<notin> set (ms_ids m)"
    using assms by (auto simp: ms_ids_ok_def)
  then have "distinct (ms_ids (fst (ms_insert_at p v m)))"
    using assms distinct_insert_at [of "ms_ids m" "nextNode m" p]
    by (simp only: ms_ids_insert_at ms_ids_ok_def simp_thms)
  moreover have "\<forall>n \<in> set (ms_ids (fst (ms_insert_at p v m))). n < Suc (nextNode m)"
    using assms by (auto simp: set_ms_ids_insert_at ms_ids_ok_def)
  ultimately show ?thesis
    by (simp add: ms_ids_ok_def)
qed

lemma ms_deref_insert_at:
  assumes "ms_ids_ok m"
  shows "ms_deref (fst (ms_insert_at p v m)) (Some k) =
           (if k = nextNode m then Some v else ms_deref m (Some k))"
proof -
  have fresh: "nextNode m \<notin> set (ms_ids m)"
    using assms by (auto simp: ms_ids_ok_def)
  have "map_of (take p (nodes m)) (nextNode m) = None"
    using fresh by (auto simp: map_of_eq_None_iff ms_ids_def dest: in_set_takeD)
  then show ?thesis
    by (auto simp: ms_deref_Some map_add_def map_of_take_drop [of "nodes m" k p] split: option.splits)
qed

lemma ms_insert_hint_SomeD:
  "ms_insert_hint lt hint v m = Some (m', it) \<Longrightarrow>
     (\<exists>p. (m', it) = ms_insert_at p v m \<and> lower_pos lt v m \<le> p
          \<and> (lower_pos lt v m \<le> upper_pos lt v m \<longrightarrow> p \<le> upper_pos lt v m))"
  unfolding ms_insert_hint_def
  by (intro exI [of _ "max (lower_pos lt v m) (min (the (ms_pos m hint)) (upper_pos lt v m))"])
    (auto split: bind_splits)

lemma ms_insert_hint_defined:
  assumes "hint = None \<or> hint \<in> Some ` set (ms_ids m)"
  shows "\<exists>m' it. ms_insert_hint lt hint v m = Some (m', it)"
  using assms by (cases hint) (auto simp: ms_insert_hint_def ms_pos_def ms_insert_at_def)

subsection \<open>Erasure\<close>

lemma ms_erase_Some_iff: "(\<exists>m'. ms_erase it m = Some m') \<longleftrightarrow> it \<in> Some ` set (ms_ids m)"
  by (cases it) (auto simp: ms_erase_def)

lemma ms_erase_SomeD:
  "ms_erase (Some n) m = Some m' \<Longrightarrow>
     n \<in> set (ms_ids m) \<and> nodes m' = remove_first (\<lambda>x. fst x = n) (nodes m) \<and> nextNode m' = nextNode m"
  by (auto simp: ms_erase_def split: if_splits)

lemma map_fst_remove_first:
  "map fst (remove_first (\<lambda>x. fst x = n) xs) = remove1 n (map fst xs)"
  by (induction xs) auto

lemma remove_first_fst_distinct:
  "distinct (map fst xs) \<Longrightarrow> remove_first (\<lambda>x. fst x = n) xs = filter (\<lambda>x. fst x \<noteq> n) xs"
proof (induction xs)
  case (Cons x xs)
  show ?case
  proof (cases "fst x = n")
    case True
    with Cons.prems have "\<forall>y \<in> set xs. fst y \<noteq> n" by (auto simp: image_iff)
    with True show ?thesis by (simp add: filter_id_conv)
  next
    case False
    with Cons show ?thesis by simp
  qed
qed simp

lemma find_fst_map_of: "map_of xs n = Some v \<Longrightarrow> find (\<lambda>x. fst x = n) xs = Some (n, v)"
  by (induction xs) auto

lemma ms_ids_erase: "ms_erase (Some n) m = Some m' \<Longrightarrow> ms_ids m' = remove1 n (ms_ids m)"
  by (drule ms_erase_SomeD) (simp add: ms_ids_def map_fst_remove_first)

lemma ms_ids_erase_nth_other:
  assumes "ms_erase (Some (ms_ids m ! p)) m = Some m'" and "ms_ids_ok m"
    and "p < length (nodes m)" and "q < length (nodes m)" and "q \<noteq> p"
  shows "ms_ids m ! q \<in> set (ms_ids m')"
  using assms(2-) by (simp add: ms_ids_erase [OF assms(1)] ms_ids_ok_def nth_eq_iff_index_eq)

lemma ms_ids_ok_erase:
  assumes "ms_erase it m = Some m'" and "ms_ids_ok m"
  shows "ms_ids_ok m'"
proof -
  from assms(1) obtain n where n: "it = Some n"
    by (cases it) (simp_all add: ms_erase_def)
  from ms_ids_erase [OF assms(1) [unfolded n]] ms_erase_SomeD [OF assms(1) [unfolded n]] assms(2)
  show ?thesis
    by (auto simp: ms_ids_ok_def dest: set_mp [OF set_remove1_subset])
qed

lemma ms_deref_erase:
  assumes "ms_erase (Some n) m = Some m'" and "ms_ids_ok m"
  shows "ms_deref m' (Some k) = (if k = n then None else ms_deref m (Some k))"
proof -
  have d: "distinct (map fst (nodes m))"
    using assms(2) by (simp add: ms_ids_ok_def ms_ids_def)
  have "nodes m' = filter (\<lambda>x. fst x \<noteq> n) (nodes m)"
    using ms_erase_SomeD [OF assms(1)] by (simp add: remove_first_fst_distinct [OF d])
  then show ?thesis
    by (simp add: ms_deref_Some map_of_filter_fst)
qed

lemma mset_ms_erase:
  assumes "ms_erase it m = Some m'" and "ms_deref m it = Some v"
  shows "mset (ms_vals m) = add_mset v (mset (ms_vals m'))"
proof -
  from assms(1) obtain n where n: "it = Some n"
    by (cases it) (simp_all add: ms_erase_def)
  have "map_of (nodes m) n = Some v"
    using assms(2) n by (simp add: ms_deref_Some)
  then have "mset (nodes m) = add_mset (n, v) (mset (nodes m'))"
    using ms_erase_SomeD [OF assms(1) [unfolded n]] mset_remove_first [OF find_fst_map_of]
    by simp
  then have "image_mset snd (mset (nodes m)) = image_mset snd (add_mset (n, v) (mset (nodes m')))"
    by simp
  then show ?thesis
    by (simp add: ms_vals_def)
qed

lemma ms_erase_begin:
  assumes "nodes m = n # ns"
  shows "ms_erase (ms_begin m) m = Some (m\<lparr>nodes := ns\<rparr>)"
  using assms by (simp add: ms_erase_def ms_begin_def ms_ids_def)

subsection \<open>Comparison objects\<close>

text \<open>
  The requirement of the standard on a comparison object: a strict weak order. The laws of
  the container follow from it alone.
\<close>

definition ms_sorted :: "('a \<Rightarrow> 'a \<Rightarrow> bool) \<Rightarrow> 'a omset \<Rightarrow> bool" where
  "ms_sorted lt m \<longleftrightarrow> sorted_wrt (\<lambda>a b. \<not> lt b a) (ms_vals m)"

definition ms_inv :: "('a \<Rightarrow> 'a \<Rightarrow> bool) \<Rightarrow> 'a omset \<Rightarrow> bool" where
  "ms_inv lt m \<longleftrightarrow> ms_sorted lt m \<and> ms_ids_ok m"

lemma ms_inv_empty [simp]: "ms_inv lt ms_empty"
  by (simp add: ms_inv_def ms_sorted_def)

locale strict_weak_order =
  fixes lt :: "'a \<Rightarrow> 'a \<Rightarrow> bool"
  assumes irrefl: "\<not> lt a a"
    and trans: "lt a b \<Longrightarrow> lt b c \<Longrightarrow> lt a c"
    and neg_trans: "\<not> lt a b \<Longrightarrow> \<not> lt b c \<Longrightarrow> \<not> lt a c"
begin

lemma asym: "lt a b \<Longrightarrow> \<not> lt b a"
  using irrefl trans by blast

lemma sorted_insert_between:
  assumes "sorted_wrt (\<lambda>a b. \<not> lt b a) xs"
    and "\<forall>x \<in> set (take p xs). \<not> lt v x" and "\<forall>x \<in> set (drop p xs). \<not> lt x v"
  shows "sorted_wrt (\<lambda>a b. \<not> lt b a) (take p xs @ v # drop p xs)"
proof -
  have "sorted_wrt (\<lambda>a b. \<not> lt b a) (take p xs @ drop p xs)"
    using assms(1) by simp
  then show ?thesis
    using assms(2,3) unfolding sorted_wrt_append by auto
qed

lemma takeWhile_lower_prefix:
  assumes "sorted_wrt (\<lambda>a b. \<not> lt b a) xs" and "x \<in> set (take p xs)"
    and "p \<le> length (takeWhile (\<lambda>x. \<not> lt v x) xs)"
  shows "\<not> lt v x"
proof -
  have "take p xs = take p (takeWhile (\<lambda>x. \<not> lt v x) xs)"
    using assms(3) by (metis min.absorb1 take_take takeWhile_eq_take)
  then have "x \<in> set (takeWhile (\<lambda>x. \<not> lt v x) xs)"
    using assms(2) by (metis in_set_takeD)
  then show ?thesis by (auto dest: set_takeWhileD)
qed

lemma dropWhile_not_below:
  assumes "sorted_wrt (\<lambda>a b. \<not> lt b a) xs" and "y \<in> set (dropWhile (\<lambda>x. lt x v) xs)"
  shows "\<not> lt y v"
  using assms
proof (induction xs)
  case (Cons x xs)
  show ?case
  proof (cases "lt x v")
    case True
    with Cons show ?thesis by simp
  next
    case False
    with Cons.prems have "y = x \<or> \<not> lt y x" by auto
    with False neg_trans show ?thesis by blast
  qed
qed simp

lemma drop_not_below:
  assumes "sorted_wrt (\<lambda>a b. \<not> lt b a) xs" and "length (takeWhile (\<lambda>x. lt x v) xs) \<le> p"
    and "y \<in> set (drop p xs)"
  shows "\<not> lt y v"
proof -
  have "drop p xs = drop (p - length (takeWhile (\<lambda>x. lt x v) xs)) (dropWhile (\<lambda>x. lt x v) xs)"
    using assms(2) by (simp add: dropWhile_eq_drop)
  then have "y \<in> set (dropWhile (\<lambda>x. lt x v) xs)"
    using assms(3) by (metis in_set_dropD)
  with assms(1) show ?thesis by (rule dropWhile_not_below)
qed

lemma lower_le_upper: "lower_pos lt v m \<le> upper_pos lt v m"
proof -
  have "length (takeWhile (\<lambda>x. lt x v) xs) \<le> length (takeWhile (\<lambda>x. \<not> lt v x) xs)" for xs
    using asym by (induction xs) auto
  then show ?thesis by (simp add: lower_pos_def upper_pos_def)
qed

lemma ms_inv_insert_at:
  assumes "ms_inv lt m" and "lower_pos lt v m \<le> p" and "p \<le> upper_pos lt v m"
  shows "ms_inv lt (fst (ms_insert_at p v m))"
proof -
  have s: "sorted_wrt (\<lambda>a b. \<not> lt b a) (ms_vals m)"
    using assms(1) by (simp add: ms_inv_def ms_sorted_def)
  have "sorted_wrt (\<lambda>a b. \<not> lt b a) (take p (ms_vals m) @ v # drop p (ms_vals m))"
    using takeWhile_lower_prefix [OF s _ assms(3) [unfolded upper_pos_def]]
      drop_not_below [OF s assms(2) [unfolded lower_pos_def]]
    by (intro sorted_insert_between [OF s]) blast+
  then show ?thesis
    using assms(1) by (simp add: ms_inv_def ms_sorted_def ms_vals_insert_at ms_ids_ok_insert_at)
qed

lemma ms_inv_insert: "ms_inv lt m \<Longrightarrow> ms_inv lt (fst (ms_insert lt v m))"
  unfolding ms_insert_def by (rule ms_inv_insert_at [OF _ lower_le_upper]) simp_all

lemma ms_inv_insert_hint:
  assumes "ms_inv lt m" and "ms_insert_hint lt hint v m = Some (m', it)"
  shows "ms_inv lt m'"
proof -
  obtain p where "(m', it) = ms_insert_at p v m" "lower_pos lt v m \<le> p" "p \<le> upper_pos lt v m"
    using ms_insert_hint_SomeD [OF assms(2)] lower_le_upper by blast
  with ms_inv_insert_at [OF assms(1)] show ?thesis by (metis fst_conv)
qed

lemma ms_inv_insert_range: "ms_inv lt m \<Longrightarrow> ms_inv lt (ms_insert_range lt vs m)"
  unfolding ms_insert_range_def by (induction vs arbitrary: m) (simp_all add: ms_inv_insert)

lemma ms_inv_erase:
  assumes "ms_inv lt m" and "ms_erase it m = Some m'"
  shows "ms_inv lt m'"
proof -
  from assms(2) obtain n where n: "it = Some n"
    by (cases it) (simp_all add: ms_erase_def)
  have "sorted_wrt (\<lambda>a b. \<not> lt (snd b) (snd a)) (nodes m)"
    using assms(1) by (simp add: ms_inv_def ms_sorted_def ms_vals_def sorted_wrt_map)
  then have "sorted_wrt (\<lambda>a b. \<not> lt (snd b) (snd a)) (nodes m')"
    using ms_erase_SomeD [OF assms(2) [unfolded n]] by (simp add: sorted_remove_first)
  then show ?thesis
    using assms ms_ids_ok_erase [OF assms(2)]
    by (simp add: ms_inv_def ms_sorted_def ms_vals_def sorted_wrt_map)
qed

lemma ms_front_minimal:
  assumes "ms_inv lt m" and "ms_front m = Some v" and "x \<in> set (ms_vals m)"
  shows "\<not> lt x v"
  using assms irrefl by (auto simp: ms_front_hd ms_inv_def ms_sorted_def split: list.splits)

end

lemma mset_ms_insert: "mset (ms_vals (fst (ms_insert lt v m))) = add_mset v (mset (ms_vals m))"
  by (simp add: ms_insert_def mset_ms_insert_at)

lemma mset_ms_insert_range: "mset (ms_vals (ms_insert_range lt vs m)) = mset vs + mset (ms_vals m)"
  unfolding ms_insert_range_def
  by (induction vs arbitrary: m) (simp_all add: mset_ms_insert)

lemma ms_inv_clear [simp]:
  "ms_inv lt (ms_clear m)" "ms_vals (ms_clear m) = []" "ms_ids (ms_clear m) = []"
  by (simp_all add: ms_inv_def ms_sorted_def ms_ids_ok_def ms_ids_def ms_vals_def ms_clear_def)

end
