(* ===== verification/Events.thy ===== *)
theory Events
  imports VirtualTime OrderedMultiset
begin

text \<open>
  Identifiers and events: \<open>ObjectID.h\<close>, \<open>EventId.h\<close>, \<open>Event.cpp\<close>, \<open>NegativeEvent.cpp\<close>,
  \<open>StragglerEvent.cpp\<close> and the comparison functors of \<open>EventFunctors.h\<close>. The functors
  that order the kernel's \<open>std::multiset\<close>s are shown to be strict weak orders, so the
  laws of \<open>OrderedMultiset\<close> apply to every event queue.
\<close>

subsection \<open>ObjectID\<close>

datatype objectID =
  ObjectID (getSimulationObjectID : u32) (getSimulationManagerID : u32)

definition objectID_less :: "objectID \<Rightarrow> objectID \<Rightarrow> bool" where
  "objectID_less a right \<longleftrightarrow>
     (if getSimulationObjectID a < getSimulationObjectID right then True
      else if getSimulationObjectID a = getSimulationObjectID right \<and>
              getSimulationManagerID a < getSimulationManagerID right then True
      else False)"

definition objectID_less_eq :: "objectID \<Rightarrow> objectID \<Rightarrow> bool" where
  "objectID_less_eq a right \<longleftrightarrow> (if objectID_less a right \<or> a = right then True else False)"

text \<open>The comparisons of \<open>ObjectID\<close> order the identifiers linearly.\<close>

instantiation objectID :: linorder
begin

definition less_objectID :: "objectID \<Rightarrow> objectID \<Rightarrow> bool" where
  "less_objectID = objectID_less"

definition less_eq_objectID :: "objectID \<Rightarrow> objectID \<Rightarrow> bool" where
  "less_eq_objectID = objectID_less_eq"

instance
proof
  note order = less_objectID_def less_eq_objectID_def objectID_less_def objectID_less_eq_def
  fix x y z :: objectID
  show "x < y \<longleftrightarrow> x \<le> y \<and> \<not> y \<le> x"
    by (cases x; cases y) (auto simp: order)
  show "x \<le> x" by (simp add: order)
  show "x \<le> y \<Longrightarrow> y \<le> z \<Longrightarrow> x \<le> z"
    by (auto simp: order split: if_splits)
  show "x \<le> y \<Longrightarrow> y \<le> x \<Longrightarrow> x = y"
    by (auto simp: order split: if_splits)
  show "x \<le> y \<or> y \<le> x"
    by (cases x; cases y) (auto simp: order)
qed

end

lemmas less_objectID_iff = less_objectID_def objectID_less_def

definition objectID_plus :: "objectID \<Rightarrow> objectID \<Rightarrow> objectID" where
  "objectID_plus a right =
     ObjectID (getSimulationObjectID a + getSimulationObjectID right)
              (getSimulationManagerID a + getSimulationManagerID right)"

definition objectID_minus :: "objectID \<Rightarrow> objectID \<Rightarrow> objectID" where
  "objectID_minus a right =
     ObjectID (getSimulationObjectID a - getSimulationObjectID right)
              (getSimulationManagerID a - getSimulationManagerID right)"

definition hashObjectID :: "objectID \<Rightarrow> u32" where
  "hashObjectID objId = getSimulationManagerID objId * 10000 + getSimulationObjectID objId"

lemma objectID_plus_minus: "objectID_minus (objectID_plus a b) b = a"
  by (cases a; cases b) (simp add: objectID_minus_def objectID_plus_def)

subsection \<open>Events\<close>

text \<open>
  The interface of class \<open>Event\<close> that the kernel sees, for any \<open>VTime\<close>. The field
  \<open>eventPtr\<close> is the address of the object: some loops of the kernel compare pointers, others
  compare the values they point to. An \<open>EventId\<close> wraps an \<open>unsigned int\<close>.
  A \<open>NegativeEvent\<close> has the same attributes as the positive event it cancels.
\<close>

record 't event =
  eventPtr :: nat
  sender :: objectID
  receiver :: objectID
  sendTime :: 't
  receiveTime :: 't
  eventId :: u32
  eventSize :: u32

type_synonym 't negativeEvent = "'t event"

text \<open>\<open>operator==\<close> identifies an event by its sender and its id.\<close>

definition event_eq :: "'t event \<Rightarrow> 't event \<Rightarrow> bool" where
  "event_eq eve1 eve2 \<longleftrightarrow> sender eve1 = sender eve2 \<and> eventId eve1 = eventId eve2"

text \<open>\<open>Event::compareEvents\<close>; the third test compares the receiver of \<open>a\<close> with itself.\<close>

definition compareEvents :: "'t event \<Rightarrow> 't event \<Rightarrow> bool" where
  "compareEvents a b =
     (if sender a \<noteq> sender b \<or> sendTime a \<noteq> sendTime b \<or> receiver a \<noteq> receiver a \<or>
         receiveTime a \<noteq> receiveTime b then False else True)"

definition NegativeEvent_eventCompare :: "'t negativeEvent \<Rightarrow> 't event \<Rightarrow> bool" where
  "NegativeEvent_eventCompare this a =
     (if sender a \<noteq> sender this \<or> eventId a \<noteq> eventId this then False else True)"

definition StragglerEvent_eventCompare :: "'t event \<Rightarrow> 't event \<Rightarrow> bool" where
  "StragglerEvent_eventCompare this a =
     (if sender a \<noteq> sender this \<or> eventId a \<noteq> eventId this then False else True)"

text \<open>
  The negative event of a positive one, at a new address. Its size is \<open>sizeof(NegativeEvent)\<close>: a virtual table pointer
  and five pointers, on a 64 bit machine.
\<close>

definition NegativeEvent :: "nat \<Rightarrow> 't event \<Rightarrow> 't negativeEvent" where
  "NegativeEvent addr e = \<lparr>eventPtr = addr, sender = sender e, receiver = receiver e, sendTime = sendTime e,
     receiveTime = receiveTime e, eventId = eventId e, eventSize = 48\<rparr>"

subsection \<open>Functors\<close>

definition receiveTimeLessThan :: "('t :: linorder) event \<Rightarrow> 't event \<Rightarrow> bool" where
  "receiveTimeLessThan a b \<longleftrightarrow> receiveTime a < receiveTime b"

definition sendTimeLessThan :: "('t :: linorder) event \<Rightarrow> 't event \<Rightarrow> bool" where
  "sendTimeLessThan a b \<longleftrightarrow> sendTime a < sendTime b"

definition receiveTimeGreaterThanEqual :: "('t :: linorder) \<Rightarrow> 't event \<Rightarrow> bool" where
  "receiveTimeGreaterThanEqual compareTime a \<longleftrightarrow> receiveTime a \<ge> compareTime"

definition sendTimeGreaterThanEqual :: "('t :: linorder) \<Rightarrow> 't event \<Rightarrow> bool" where
  "sendTimeGreaterThanEqual compareTime a \<longleftrightarrow> sendTime a \<ge> compareTime"

definition sendTimeLessThanEqual :: "('t :: linorder) \<Rightarrow> 't event \<Rightarrow> bool" where
  "sendTimeLessThanEqual compareTime a \<longleftrightarrow> sendTime a \<le> compareTime"

definition receiveTimeLessThanEqual :: "('t :: linorder) \<Rightarrow> 't event \<Rightarrow> bool" where
  "receiveTimeLessThanEqual compareTime a \<longleftrightarrow> receiveTime a \<le> compareTime"

definition receiveTimeLessThanEventIdLessThan :: "('t :: linorder) event \<Rightarrow> 't event \<Rightarrow> bool" where
  "receiveTimeLessThanEventIdLessThan a b =
     (if receiveTime a \<noteq> receiveTime b then receiveTime a < receiveTime b
      else if eventId a \<noteq> eventId b then eventId a < eventId b
      else sender a < sender b)"

definition sendTimeLessThanEventIdLessThan :: "('t :: linorder) event \<Rightarrow> 't event \<Rightarrow> bool" where
  "sendTimeLessThanEventIdLessThan a b =
     (if sendTime a \<noteq> sendTime b then sendTime a < sendTime b
      else if eventId a \<noteq> eventId b then eventId a < eventId b
      else sender a < sender b)"

lemmas functor_defs = receiveTimeLessThan_def sendTimeLessThan_def
  receiveTimeGreaterThanEqual_def sendTimeGreaterThanEqual_def sendTimeLessThanEqual_def
  receiveTimeLessThanEqual_def receiveTimeLessThanEventIdLessThan_def
  sendTimeLessThanEventIdLessThan_def

subsection \<open>The functors order the event queues\<close>

interpretation recv_order: strict_weak_order
  "receiveTimeLessThanEventIdLessThan :: ('t :: linorder) event \<Rightarrow> 't event \<Rightarrow> bool"
  by unfold_locales (auto simp: receiveTimeLessThanEventIdLessThan_def split: if_splits)

interpretation send_order: strict_weak_order
  "sendTimeLessThanEventIdLessThan :: ('t :: linorder) event \<Rightarrow> 't event \<Rightarrow> bool"
  by unfold_locales (auto simp: sendTimeLessThanEventIdLessThan_def split: if_splits)

interpretation recv_time_order: strict_weak_order
  "receiveTimeLessThan :: ('t :: linorder) event \<Rightarrow> 't event \<Rightarrow> bool"
  by unfold_locales (auto simp: receiveTimeLessThan_def)

interpretation send_time_order: strict_weak_order
  "sendTimeLessThan :: ('t :: linorder) event \<Rightarrow> 't event \<Rightarrow> bool"
  by unfold_locales (auto simp: sendTimeLessThan_def)

text \<open>Two events that the queue order cannot tell apart are equal by \<open>operator==\<close>.\<close>

lemma recv_order_total:
  assumes "\<not> receiveTimeLessThanEventIdLessThan a b" and "\<not> receiveTimeLessThanEventIdLessThan b a"
  shows "receiveTime a = receiveTime b \<and> event_eq a b"
  using assms by (auto simp: receiveTimeLessThanEventIdLessThan_def event_eq_def split: if_splits)

lemma recv_order_time:
  "\<not> receiveTimeLessThanEventIdLessThan b a \<Longrightarrow> receiveTime a \<le> receiveTime b"
  by (auto simp: receiveTimeLessThanEventIdLessThan_def split: if_splits)

lemma event_eq_refl [simp]: "event_eq e e"
  by (simp add: event_eq_def)

end
