(* ===== verification/EventSet.thy ===== *)
theory EventSet
  imports Events
begin

text \<open>
  The Time Warp event set: \<open>TimeWarpMultiSet.cpp\<close> and \<open>TimeWarpMultiSetOneAntiMsg.cpp\<close>.
  Each simulation object has a multiset of unprocessed events, a vector of
  processed events and a vector of events removed by anti-messages. A further multiset,
  \<open>lowestObjEvents\<close>, holds the lowest unprocessed event of every object; \<open>lowObjPos\<close> points
  into it, and \<open>insertObjPos\<close> is the insertion hint of each object.

  The events that an operation hands to \<open>SimulationObject::reclaimEvent\<close> are returned,
  in the order of the calls.
\<close>

abbreviation "recvLess \<equiv> receiveTimeLessThanEventIdLessThan"

record 't twMultiSet =
  lowestObjEvents :: "'t event omset"
  unprocessedObjEvents :: "'t event omset list"
  lowObjPos :: "iter list"
  insertObjPos :: "iter list"
  processedObjEvents :: "'t event list list"
  removedEvents :: "'t event list list"
  myNumCommittedEvents :: u32
  myNumRolledBackEvents :: u32
  myNumExecutedEvents :: u32

definition TimeWarpMultiSet :: "nat \<Rightarrow> 't twMultiSet" where
  "TimeWarpMultiSet numberOfSimulationObjects =
     \<lparr>lowestObjEvents = ms_empty,
      unprocessedObjEvents = replicate numberOfSimulationObjects ms_empty,
      lowObjPos = replicate numberOfSimulationObjects None,
      insertObjPos = replicate numberOfSimulationObjects None,
      processedObjEvents = replicate numberOfSimulationObjects [],
      removedEvents = replicate numberOfSimulationObjects [],
      myNumCommittedEvents = 0, myNumRolledBackEvents = 0, myNumExecutedEvents = 0\<rparr>"

definition objIdOf :: "objectID \<Rightarrow> nat" where
  "objIdOf oid = unat (getSimulationObjectID oid)"

text \<open>
  Erase the event of an object from \<open>lowestObjEvents\<close> unless its iterator is \<open>end()\<close>, and insert
  the event at the front of the object's multiset.
\<close>

definition eraseLow :: "iter \<Rightarrow> 't event omset \<Rightarrow> 't event omset option" where
  "eraseLow pos low = (if pos \<noteq> None then ms_erase pos low else Some low)"

definition insertLow ::
  "('t :: linorder) event omset \<Rightarrow> 't event omset \<Rightarrow> 't event omset \<times> iter" where
  "insertLow objSet low =
     (case ms_front objSet of
        Some e \<Rightarrow> ms_insert recvLess e low
      | None \<Rightarrow> (low, None))"

definition insert_ev :: "('t :: linorder) event \<Rightarrow> 't twMultiSet \<Rightarrow> ('t twMultiSet \<times> bool) option" where
  "insert_ev event s = do {
     let objId = objIdOf (receiver event);
     objSet \<leftarrow> vec_get (unprocessedObjEvents s) objId;
     hint \<leftarrow> vec_get (insertObjPos s) objId;
     (objSet', pos) \<leftarrow> ms_insert_hint recvLess hint event objSet;
     let s1 = s\<lparr>unprocessedObjEvents := (unprocessedObjEvents s)[objId := objSet'],
                insertObjPos := (insertObjPos s)[objId := pos]\<rparr>;
     first \<leftarrow> ms_deref objSet' (ms_begin objSet');
     if event_eq event first then do {
       lowPos \<leftarrow> vec_get (lowObjPos s) objId;
       low \<leftarrow> eraseLow lowPos (lowestObjEvents s);
       let (low', lowPos') = ms_insert recvLess event low;
       Some (s1\<lparr>lowestObjEvents := low', lowObjPos := (lowObjPos s)[objId := lowPos']\<rparr>, False) }
     else Some (s1, False) }"

text \<open>The insertion hint steps off a node before the node is erased.\<close>

definition stepHint :: "nat \<Rightarrow> iter \<Rightarrow> 't event omset \<Rightarrow> iter option" where
  "stepHint it insPos objSet =
     (if Some it = insPos
      then (if insPos = ms_begin objSet then ms_next objSet insPos else ms_prev objSet insPos)
      else Some insPos)"

definition handleAntiMessage ::
  "objectID \<Rightarrow> ('t :: linorder) negativeEvent \<Rightarrow> 't twMultiSet \<Rightarrow> ('t twMultiSet \<times> bool) option" where
  "handleAntiMessage object event s = do {
     let objId = objIdOf object;
     objSet \<leftarrow> vec_get (unprocessedObjEvents s) objId;
     case find (\<lambda>x. sender (snd x) = sender event \<and> eventId (snd x) = eventId event) (nodes objSet) of
       None \<Rightarrow> Some (s, False)
     | Some (it, eventToRemove) \<Rightarrow> do {
         insPos \<leftarrow> vec_get (insertObjPos s) objId;
         insPos' \<leftarrow> stepHint it insPos objSet;
         objSet' \<leftarrow> ms_erase (Some it) objSet;
         lowPos \<leftarrow> vec_get (lowObjPos s) objId;
         (low', lowPos') \<leftarrow>
           (if lowPos \<noteq> None then do {
              lowEvent \<leftarrow> ms_deref (lowestObjEvents s) lowPos;
              if event_eq eventToRemove lowEvent then do {
                low \<leftarrow> ms_erase lowPos (lowestObjEvents s);
                Some (insertLow objSet' low) }
              else Some (lowestObjEvents s, lowPos) }
            else Some (lowestObjEvents s, lowPos));
         removed \<leftarrow> vec_get (removedEvents s) objId;
         Some (s\<lparr>unprocessedObjEvents := (unprocessedObjEvents s)[objId := objSet'],
                 insertObjPos := (insertObjPos s)[objId := insPos'],
                 lowestObjEvents := low',
                 lowObjPos := (lowObjPos s)[objId := lowPos'],
                 removedEvents := (removedEvents s)[objId := removed @ [eventToRemove]]\<rparr>, True) } }"

definition getEvent :: "objectID \<Rightarrow> ('t :: linorder) twMultiSet \<Rightarrow> ('t twMultiSet \<times> 't event option) option" where
  "getEvent object s = do {
     let objId = objIdOf object;
     objSet \<leftarrow> vec_get (unprocessedObjEvents s) objId;
     insPos \<leftarrow> vec_get (insertObjPos s) objId;
     if \<not> ms_isEmpty objSet then do {
       retval \<leftarrow> ms_deref objSet (ms_begin objSet);
       insEvent \<leftarrow> ms_deref objSet insPos;
       objSet' \<leftarrow> ms_erase (ms_begin objSet) objSet;
       let insPos' = (if event_eq retval insEvent then ms_begin objSet' else insPos);
       processed \<leftarrow> vec_get (processedObjEvents s) objId;
       lowPos \<leftarrow> vec_get (lowObjPos s) objId;
       low \<leftarrow> eraseLow lowPos (lowestObjEvents s);
       let (low', lowPos') = insertLow objSet' low;
       Some (s\<lparr>unprocessedObjEvents := (unprocessedObjEvents s)[objId := objSet'],
               insertObjPos := (insertObjPos s)[objId := insPos'],
               processedObjEvents := (processedObjEvents s)[objId := processed @ [retval]],
               myNumExecutedEvents := myNumExecutedEvents s + 1,
               lowestObjEvents := low',
               lowObjPos := (lowObjPos s)[objId := lowPos']\<rparr>, Some retval) }
     else Some (s\<lparr>insertObjPos := (insertObjPos s)[objId := ms_begin objSet]\<rparr>, None) }"

definition peekEvent :: "objectID option \<Rightarrow> ('t :: linorder) twMultiSet \<Rightarrow> 't event option option" where
  "peekEvent object s =
     (if object = None \<and> ms_begin (lowestObjEvents s) \<noteq> None
      then Some (ms_front (lowestObjEvents s))
      else case object of
             None \<Rightarrow> Some None
           | Some obj \<Rightarrow> do {
               objSet \<leftarrow> vec_get (unprocessedObjEvents s) (objIdOf obj);
               Some (if \<not> ms_isEmpty objSet then ms_front objSet else None) })"

definition peekEvent_before ::
  "objectID option \<Rightarrow> ('t :: linorder) \<Rightarrow> 't twMultiSet \<Rightarrow> 't event option option" where
  "peekEvent_before object minimumTime s = do {
     retval \<leftarrow> peekEvent object s;
     Some (case retval of None \<Rightarrow> None
           | Some e \<Rightarrow> if \<not> receiveTime e < minimumTime then None else Some e) }"

definition getEvent_before ::
  "objectID \<Rightarrow> ('t :: linorder) \<Rightarrow> 't twMultiSet \<Rightarrow> ('t twMultiSet \<times> 't event option) option" where
  "getEvent_before object minimumTime s = do {
     peeked \<leftarrow> peekEvent_before (Some object) minimumTime s;
     case peeked of
       None \<Rightarrow> Some (s, None)
     | Some p \<Rightarrow> do {
         (s', retval) \<leftarrow> getEvent object s;
         if map_option eventPtr retval = Some (eventPtr p) then Some (s', retval) else None } }"

text \<open>The three overloads of \<open>fossilCollect\<close>; \<open>approx\<close> is \<open>VTime::getApproximateIntTime\<close>.\<close>

definition fossilCollect ::
  "objectID \<Rightarrow> ('t :: linorder) \<Rightarrow> 't twMultiSet \<Rightarrow> ('t twMultiSet \<times> 't event list) option" where
  "fossilCollect object fossilCollectTime s = do {
     let objId = objIdOf object;
     processed \<leftarrow> vec_get (processedObjEvents s) objId;
     let reclaimed = takeWhile (\<lambda>e. receiveTime e < fossilCollectTime) processed;
     removed \<leftarrow> vec_get (removedEvents s) objId;
     Some (s\<lparr>processedObjEvents := (processedObjEvents s)[objId := drop (length reclaimed) processed],
             myNumCommittedEvents := myNumCommittedEvents s + of_nat (length reclaimed),
             removedEvents := (removedEvents s)[objId :=
               filter (\<lambda>e. \<not> receiveTime e < fossilCollectTime) removed]\<rparr>,
           reclaimed @ filter (\<lambda>e. receiveTime e < fossilCollectTime) removed) }"

definition fossilCollect_int ::
  "('t :: linorder \<Rightarrow> int) \<Rightarrow> objectID \<Rightarrow> int \<Rightarrow> 't twMultiSet \<Rightarrow> ('t twMultiSet \<times> 't event list) option" where
  "fossilCollect_int approx object fossilCollectTime s = do {
     let objId = objIdOf object;
     processed \<leftarrow> vec_get (processedObjEvents s) objId;
     let reclaimed = takeWhile (\<lambda>e. approx (receiveTime e) < fossilCollectTime) processed;
     removed \<leftarrow> vec_get (removedEvents s) objId;
     Some (s\<lparr>processedObjEvents := (processedObjEvents s)[objId := drop (length reclaimed) processed],
             removedEvents := (removedEvents s)[objId :=
               filter (\<lambda>e. \<not> approx (receiveTime e) < fossilCollectTime) removed]\<rparr>,
           reclaimed @ filter (\<lambda>e. approx (receiveTime e) < fossilCollectTime) removed) }"

definition fossilCollect_event :: "('t :: linorder) event \<Rightarrow> 't twMultiSet \<Rightarrow> 't twMultiSet option" where
  "fossilCollect_event toRemove s = do {
     let objId = objIdOf (receiver toRemove);
     let same = (\<lambda>e. eventId e = eventId toRemove \<and> sender e = sender toRemove);
     processed \<leftarrow> vec_get (processedObjEvents s) objId;
     if list_ex same processed
     then Some (s\<lparr>processedObjEvents := (processedObjEvents s)[objId := remove_first same processed]\<rparr>)
     else do {
       removed \<leftarrow> vec_get (removedEvents s) objId;
       Some (s\<lparr>removedEvents := (removedEvents s)[objId := remove_first same removed]\<rparr>) } }"

definition rollback :: "objectID \<Rightarrow> ('t :: linorder) \<Rightarrow> 't twMultiSet \<Rightarrow> 't twMultiSet option" where
  "rollback object rollbackTime s = do {
     let objId = objIdOf object;
     processed \<leftarrow> vec_get (processedObjEvents s) objId;
     let kept = takeWhile (\<lambda>e. receiveTime e < rollbackTime) processed;
     let undone = drop (length kept) processed;
     objSet \<leftarrow> vec_get (unprocessedObjEvents s) objId;
     let objSet' = ms_insert_range recvLess undone objSet;
     lowPos \<leftarrow> vec_get (lowObjPos s) objId;
     (low', lowPos') \<leftarrow>
       (if lowPos \<noteq> None then do {
          lowEvent \<leftarrow> ms_deref (lowestObjEvents s) lowPos;
          first \<leftarrow> ms_deref objSet' (ms_begin objSet');
          if \<not> event_eq lowEvent first then do {
            low \<leftarrow> ms_erase lowPos (lowestObjEvents s);
            Some (if \<not> ms_isEmpty objSet' then insertLow objSet' low else (low, lowPos)) }
          else Some (lowestObjEvents s, lowPos) }
        else Some (insertLow objSet' (lowestObjEvents s)));
     insPos \<leftarrow> vec_get (insertObjPos s) objId;
     Some (s\<lparr>myNumRolledBackEvents := myNumRolledBackEvents s + of_nat (length undone),
             unprocessedObjEvents := (unprocessedObjEvents s)[objId := objSet'],
             processedObjEvents := (processedObjEvents s)[objId := kept],
             lowestObjEvents := low',
             lowObjPos := (lowObjPos s)[objId := lowPos'],
             insertObjPos := (insertObjPos s)[objId := ms_begin objSet']\<rparr>) }"

definition inThePast :: "('t :: linorder) event \<Rightarrow> 't twMultiSet \<Rightarrow> bool option" where
  "inThePast toCheck s = do {
     processed \<leftarrow> vec_get (processedObjEvents s) (objIdOf (receiver toCheck));
     Some (if processed = [] then False
           else let lastProc = last processed in
             (if receiveTime toCheck \<noteq> receiveTime lastProc
              then receiveTime toCheck < receiveTime lastProc
              else if eventId toCheck \<noteq> eventId lastProc then eventId toCheck < eventId lastProc
              else sender toCheck < sender lastProc)) }"

definition ofcPurge :: "('t :: linorder) twMultiSet \<Rightarrow> 't twMultiSet" where
  "ofcPurge s = s\<lparr>
     lowestObjEvents := ms_clear (lowestObjEvents s),
     unprocessedObjEvents := map ms_clear (unprocessedObjEvents s),
     lowObjPos := map (\<lambda>_. None) (lowObjPos s),
     insertObjPos := map (\<lambda>_. None) (insertObjPos s),
     processedObjEvents := map (\<lambda>_. []) (processedObjEvents s),
     removedEvents := map (\<lambda>_. []) (removedEvents s)\<rparr>"

text \<open>
  \<open>TimeWarpMultiSetOneAntiMsg::handleAntiMessage\<close>: one anti-message cancels every
  unprocessed event of its sender with a send time at or after its own. The first
  argument is what is left of the iteration.
\<close>

fun oneAntiMsg_loop ::
  "(nat \<times> ('t :: linorder) event) list \<Rightarrow> nat \<Rightarrow> 't negativeEvent \<Rightarrow> 't twMultiSet \<Rightarrow> bool \<Rightarrow> bool
   \<Rightarrow> ('t twMultiSet \<times> bool \<times> bool) option" where
  "oneAntiMsg_loop [] objId negEvent s eventWasRemoved updateLowObjIt =
     Some (s, eventWasRemoved, updateLowObjIt)"
| "oneAntiMsg_loop ((it, e) # rest) objId negEvent s eventWasRemoved updateLowObjIt =
     (if sender e = sender negEvent \<and> sendTime e \<ge> sendTime negEvent then do {
        objSet \<leftarrow> vec_get (unprocessedObjEvents s) objId;
        insPos \<leftarrow> vec_get (insertObjPos s) objId;
        insPos' \<leftarrow> stepHint it insPos objSet;
        objSet' \<leftarrow> ms_erase (Some it) objSet;
        lowPos \<leftarrow> vec_get (lowObjPos s) objId;
        (low', lowPos', upd) \<leftarrow>
          (if lowPos \<noteq> None then do {
             lowEvent \<leftarrow> ms_deref (lowestObjEvents s) lowPos;
             if event_eq e lowEvent then do {
               low \<leftarrow> ms_erase lowPos (lowestObjEvents s);
               Some (low, None, True) }
             else Some (lowestObjEvents s, lowPos, updateLowObjIt) }
           else Some (lowestObjEvents s, lowPos, updateLowObjIt));
        removed \<leftarrow> vec_get (removedEvents s) objId;
        oneAntiMsg_loop rest objId negEvent
          (s\<lparr>unprocessedObjEvents := (unprocessedObjEvents s)[objId := objSet'],
             insertObjPos := (insertObjPos s)[objId := insPos'],
             lowestObjEvents := low',
             lowObjPos := (lowObjPos s)[objId := lowPos'],
             removedEvents := (removedEvents s)[objId := removed @ [e]]\<rparr>) True upd }
      else oneAntiMsg_loop rest objId negEvent s eventWasRemoved updateLowObjIt)"

definition handleAntiMessage_one ::
  "objectID \<Rightarrow> ('t :: linorder) negativeEvent \<Rightarrow> 't twMultiSet \<Rightarrow> ('t twMultiSet \<times> bool) option" where
  "handleAntiMessage_one object negEvent s = do {
     let objId = objIdOf object;
     objSet \<leftarrow> vec_get (unprocessedObjEvents s) objId;
     (s', eventWasRemoved, updateLowObjIt) \<leftarrow>
       oneAntiMsg_loop (nodes objSet) objId negEvent s False False;
     if updateLowObjIt then do {
       objSet' \<leftarrow> vec_get (unprocessedObjEvents s') objId;
       let (low', lowPos') = insertLow objSet' (lowestObjEvents s');
       Some (s'\<lparr>lowestObjEvents := low', lowObjPos := (lowObjPos s')[objId := lowPos']\<rparr>,
             eventWasRemoved) }
     else Some (s', eventWasRemoved) }"

subsection \<open>The index of lowest events\<close>

text \<open>
  \<open>low_inv U P L\<close>: the index \<open>L\<close> with the iterators \<open>P\<close> holds the front of every
  multiset in \<open>U\<close>, once, and nothing else. \<open>low_vacant i\<close> is the state between the erasure of
  the entry of object \<open>i\<close> and the insertion of its new one.
\<close>

definition low_slot :: "('t :: linorder) event omset \<Rightarrow> iter \<Rightarrow> 't event omset \<Rightarrow> bool" where
  "low_slot m pos low \<longleftrightarrow> ms_deref low pos = ms_front m \<and> (pos = None \<longleftrightarrow> ms_vals m = [])"

definition low_others ::
  "nat set \<Rightarrow> ('t :: linorder) event omset list \<Rightarrow> iter list \<Rightarrow> 't event omset \<Rightarrow> bool" where
  "low_others X U P L \<longleftrightarrow>
     ms_inv recvLess L \<and> length P = length U \<and>
     (\<forall>i < length U. i \<notin> X \<longrightarrow> low_slot (U ! i) (P ! i) L) \<and>
     (\<forall>i j k. i < length U \<and> j < length U \<and> i \<notin> X \<and> j \<notin> X \<and> P ! i = Some k \<and> P ! j = Some k
        \<longrightarrow> i = j) \<and>
     set (ms_ids L) = {k. \<exists>i < length U. i \<notin> X \<and> P ! i = Some k}"

abbreviation "low_inv \<equiv> low_others {}"
abbreviation "low_vacant i \<equiv> low_others {i}"

lemma low_othersI:
  assumes "ms_inv recvLess L" and "length P = length U"
    and "\<And>i. i < length U \<Longrightarrow> i \<notin> X \<Longrightarrow> low_slot (U ! i) (P ! i) L"
    and "\<And>i j k. i < length U \<Longrightarrow> j < length U \<Longrightarrow> i \<notin> X \<Longrightarrow> j \<notin> X \<Longrightarrow> P ! i = Some k
           \<Longrightarrow> P ! j = Some k \<Longrightarrow> i = j"
    and "\<And>k. k \<in> set (ms_ids L) \<longleftrightarrow> (\<exists>i < length U. i \<notin> X \<and> P ! i = Some k)"
  shows "low_others X U P L"
  unfolding low_others_def using assms(1-4) assms(5) by (intro conjI allI impI) auto

lemma low_othersD:
  assumes "low_others X U P L"
  shows "ms_inv recvLess L" and "length P = length U" and "ms_ids_ok L"
    and "\<And>i. i < length U \<Longrightarrow> i \<notin> X \<Longrightarrow> low_slot (U ! i) (P ! i) L"
    and "\<And>i j k. i < length U \<Longrightarrow> j < length U \<Longrightarrow> i \<notin> X \<Longrightarrow> j \<notin> X \<Longrightarrow> P ! i = Some k
           \<Longrightarrow> P ! j = Some k \<Longrightarrow> i = j"
    and "\<And>k. k \<in> set (ms_ids L) \<longleftrightarrow> (\<exists>i < length U. i \<notin> X \<and> P ! i = Some k)"
  using assms unfolding low_others_def ms_inv_def by blast+

lemma low_slot_front: "low_slot m pos low \<Longrightarrow> ms_front m = Some e \<Longrightarrow> ms_deref low pos = Some e"
  by (simp add: low_slot_def)

lemma ms_front_None_iff: "ms_front m = None \<longleftrightarrow> ms_vals m = []"
  by (simp add: ms_front_hd split: list.splits)

lemma low_inv_vacate_end:
  assumes inv: "low_inv U P L" and e: "P ! i = None"
  shows "low_vacant i U P L"
proof (rule low_othersI)
  fix k
  show "k \<in> set (ms_ids L) \<longleftrightarrow> (\<exists>j < length U. j \<notin> {i} \<and> P ! j = Some k)"
    using low_othersD(6) [OF inv, of k] e by (metis empty_iff option.distinct(1) singletonD)
qed (use low_othersD [OF inv] in auto)

lemma low_inv_vacate_erase:
  assumes inv: "low_inv U P L" and i: "i < length U" and k: "P ! i = Some k"
  shows "\<exists>L'. ms_erase (P ! i) L = Some L' \<and> low_vacant i U P L'"
proof -
  note D = low_othersD [OF inv]
  have "k \<in> set (ms_ids L)" using D(6) i k by blast
  then obtain L' where er: "ms_erase (Some k) L = Some L'"
    using ms_erase_Some_iff [of "Some k" L] by auto
  have set': "set (ms_ids L') = set (ms_ids L) - {k}"
    using ms_ids_erase [OF er] D(3) by (simp add: ms_ids_ok_def)
  have diff: "P ! j \<noteq> Some k" if "j < length U" "j \<noteq> i" for j
    using D(5) [of j i k] that i k by auto
  have slot: "low_slot (U ! j) (P ! j) L'" if "j < length U" "j \<noteq> i" for j
    using D(4) [of j] diff [OF that] that
    by (cases "P ! j") (auto simp: low_slot_def ms_deref_erase [OF er D(3)])
  have "low_vacant i U P L'"
  proof (rule low_othersI)
    fix k'
    show "k' \<in> set (ms_ids L') \<longleftrightarrow> (\<exists>j < length U. j \<notin> {i} \<and> P ! j = Some k')"
      using D(6) [of k'] diff i k unfolding set' by (metis DiffD1 DiffD2 DiffI empty_iff insertI1
          option.inject singletonD)
  next
    fix a b c assume "a < length U" "b < length U" "P ! a = Some c" "P ! b = Some c"
    then show "a = b" using D(5) by blast
  qed (use D(2) slot recv_order.ms_inv_erase [OF D(1) er] in auto)
  with er k show ?thesis by auto
qed

lemma eraseLow_vacates:
  assumes "low_inv U P L" and "i < length U"
  shows "\<exists>L'. eraseLow (P ! i) L = Some L' \<and> low_vacant i U P L'"
  using low_inv_vacate_end [OF assms(1)] low_inv_vacate_erase [OF assms]
  by (cases "P ! i") (auto simp: eraseLow_def)

lemma low_vacant_fill:
  assumes vac: "low_vacant i U P L" and i: "i < length U" and f: "ms_front m = Some e"
    and ins: "ms_insert recvLess e L = (L', pos)"
  shows "low_inv (U[i := m]) (P[i := pos]) L'"
proof -
  let ?n = "nextNode L"
  have ids: "ms_ids_ok L"
    using vac by (simp add: low_others_def ms_inv_def)
  have L': "L' = fst (ms_insert recvLess e L)" and pos: "pos = Some ?n"
    using ins by (auto simp: ms_insert_def dest: arg_cong [of _ _ snd])
  have fresh: "?n \<notin> set (ms_ids L)"
    using ids by (auto simp: ms_ids_ok_def)
  have deref: "ms_deref L' (Some k) = (if k = ?n then Some e else ms_deref L (Some k))" for k
    unfolding L' ms_insert_def by (rule ms_deref_insert_at [OF ids])
  have set': "set (ms_ids L') = insert ?n (set (ms_ids L))"
    unfolding L' ms_insert_def by (rule set_ms_ids_insert_at)
  have inv': "ms_inv recvLess L'"
    using recv_order.ms_inv_insert [OF low_othersD(1) [OF vac]] unfolding L' .
  have other: "P ! j \<noteq> Some ?n" if "j < length U" "j \<noteq> i" for j
    using low_othersD(6) [OF vac, of ?n] that fresh by auto
  have slot: "low_slot (U ! j) (P ! j) L'" if "j < length U" "j \<noteq> i" for j
    using low_othersD(4) [OF vac, of j] that other [OF that] deref
    by (cases "P ! j") (auto simp: low_slot_def)
  have sloti: "low_slot m pos L'"
    using f deref pos ms_front_None_iff [of m] by (auto simp: low_slot_def)
  have len: "length P = length U" by (rule low_othersD(2) [OF vac])
  show ?thesis
  proof (rule low_othersI)
    fix k
    show "k \<in> set (ms_ids L') \<longleftrightarrow>
      (\<exists>j < length (U[i := m]). j \<notin> {} \<and> P[i := pos] ! j = Some k)"
    proof (cases "k = ?n")
      case True
      then show ?thesis using set' i len pos by (auto intro!: exI [of _ i])
    next
      case False
      then show ?thesis
        using low_othersD(6) [OF vac, of k] i len pos unfolding set' by (auto simp: nth_list_update)
    qed
  next
    fix a b c
    assume ab: "a < length (U[i := m])" "b < length (U[i := m])"
      and p: "P[i := pos] ! a = Some c" "P[i := pos] ! b = Some c"
    show "a = b"
      using low_othersD(5) [OF vac, of a b c] ab p other len pos
      by (cases "a = i"; cases "b = i") auto
  next
    fix j assume "j < length (U[i := m])"
    then show "low_slot (U[i := m] ! j) (P[i := pos] ! j) L'"
      using slot [of j] sloti len by (cases "j = i") auto
  qed (use inv' len in auto)
qed

lemma low_vacant_empty:
  assumes vac: "low_vacant i U P L" and i: "i < length U" and e: "ms_vals m = []"
  shows "low_inv (U[i := m]) (P[i := None]) L"
proof (rule low_othersI)
  have len: "length P = length U" by (rule low_othersD(2) [OF vac])
  fix k
  show "k \<in> set (ms_ids L) \<longleftrightarrow>
      (\<exists>j < length (U[i := m]). j \<notin> {} \<and> P[i := None] ! j = Some k)"
    using low_othersD(6) [OF vac, of k] i len by (auto simp: nth_list_update)
next
  fix a b c
  assume "a < length (U[i := m])" "b < length (U[i := m])"
    and "P[i := None] ! a = Some c" "P[i := None] ! b = Some c"
  then show "a = b"
    using low_othersD(5) [OF vac, of a b c] low_othersD(2) [OF vac]
    by (cases "a = i"; cases "b = i") auto
next
  fix j assume "j < length (U[i := m])"
  then show "low_slot (U[i := m] ! j) (P[i := None] ! j) L"
    using low_othersD(4) [OF vac, of j] low_othersD(2) [OF vac] e ms_front_None_iff [of m] i
    by (cases "j = i") (auto simp: low_slot_def)
qed (use low_othersD [OF vac] in auto)

lemma insertLow_fills:
  assumes "low_vacant i U P L" and "i < length U" and "insertLow m L = (L', pos)"
  shows "low_inv (U[i := m]) (P[i := pos]) L'"
  using assms low_vacant_fill [OF assms(1,2)] low_vacant_empty [OF assms(1,2), of m]
  by (auto simp: insertLow_def ms_front_None_iff split: option.splits)

text \<open>An object whose front does not change keeps its entry.\<close>

lemma low_inv_same_front:
  assumes inv: "low_inv U P L" and "i < length U" and "ms_front m = ms_front (U ! i)"
  shows "low_inv (U[i := m]) P L"
proof (rule low_othersI)
  fix j assume "j < length (U[i := m])"
  moreover have "ms_vals m = [] \<longleftrightarrow> ms_vals (U ! i) = []"
    using assms(3) by (simp flip: ms_front_None_iff)
  ultimately show "low_slot (U[i := m] ! j) (P ! j) L"
    using low_othersD(4) [OF inv, of j] assms by (cases "j = i") (auto simp: low_slot_def)
next
  fix a b c
  assume "a < length (U[i := m])" "b < length (U[i := m])" "P ! a = Some c" "P ! b = Some c"
  then show "a = b" using low_othersD(5) [OF inv, of a b c] by simp
qed (use low_othersD [OF inv] in auto)

subsection \<open>The invariant of the event set\<close>

definition evKey :: "'t event \<Rightarrow> objectID \<times> u32" where
  "evKey e = (sender e, eventId e)"

lemma event_eq_key: "event_eq a b \<longleftrightarrow> evKey a = evKey b"
  by (auto simp: event_eq_def evKey_def)

text \<open>
  What holds of one object: its multiset is in order, the insertion hint is \<open>end()\<close> only when
  the multiset is empty and names an element otherwise, the events belong to the object,
  and no two events that the object holds have the same sender and id.
\<close>

definition hint_ok :: "'t event omset \<Rightarrow> iter \<Rightarrow> bool" where
  "hint_ok m pos \<longleftrightarrow> (case pos of None \<Rightarrow> ms_vals m = [] | Some k \<Rightarrow> k \<in> set (ms_ids m))"

definition obj_ok :: "nat \<Rightarrow> ('t :: linorder) event omset \<Rightarrow> iter \<Rightarrow> 't event list \<Rightarrow> bool" where
  "obj_ok i m pos proc \<longleftrightarrow>
     ms_inv recvLess m \<and> hint_ok m pos \<and>
     (\<forall>e \<in> set proc \<union> set (ms_vals m). objIdOf (receiver e) = i) \<and>
     distinct (map evKey (proc @ ms_vals m))"

definition twm_inv :: "('t :: linorder) twMultiSet \<Rightarrow> bool" where
  "twm_inv s \<longleftrightarrow>
     length (insertObjPos s) = length (unprocessedObjEvents s) \<and>
     length (processedObjEvents s) = length (unprocessedObjEvents s) \<and>
     length (removedEvents s) = length (unprocessedObjEvents s) \<and>
     low_inv (unprocessedObjEvents s) (lowObjPos s) (lowestObjEvents s) \<and>
     (\<forall>i < length (unprocessedObjEvents s).
        obj_ok i (unprocessedObjEvents s ! i) (insertObjPos s ! i) (processedObjEvents s ! i))"

abbreviation numObjects :: "'t twMultiSet \<Rightarrow> nat" where
  "numObjects s \<equiv> length (unprocessedObjEvents s)"

lemma twm_invD:
  assumes "twm_inv s"
  shows "length (insertObjPos s) = numObjects s" "length (processedObjEvents s) = numObjects s"
    "length (removedEvents s) = numObjects s" "length (lowObjPos s) = numObjects s"
    "low_inv (unprocessedObjEvents s) (lowObjPos s) (lowestObjEvents s)"
    "\<And>i. i < numObjects s \<Longrightarrow>
       obj_ok i (unprocessedObjEvents s ! i) (insertObjPos s ! i) (processedObjEvents s ! i)"
  using assms low_othersD(2) unfolding twm_inv_def by blast+

text \<open>Replacing what belongs to one object.\<close>

lemma twm_inv_update:
  assumes inv: "twm_inv s" and i: "i < numObjects s"
    and ok: "obj_ok i m pos proc"
    and low: "low_inv ((unprocessedObjEvents s)[i := m]) P L"
    and t: "unprocessedObjEvents t = (unprocessedObjEvents s)[i := m]"
      "insertObjPos t = (insertObjPos s)[i := pos]"
      "processedObjEvents t = (processedObjEvents s)[i := proc]"
      "lowObjPos t = P" "lowestObjEvents t = L" "length (removedEvents t) = numObjects s"
  shows "twm_inv t"
  using twm_invD [OF inv] i ok low t unfolding twm_inv_def
  by (auto simp: nth_list_update)

lemma obj_okD:
  assumes "obj_ok i m pos proc"
  shows "ms_inv recvLess m" "ms_ids_ok m" "hint_ok m pos"
    "\<And>e. e \<in> set (ms_vals m) \<Longrightarrow> objIdOf (receiver e) = i"
    "\<And>e. e \<in> set proc \<Longrightarrow> objIdOf (receiver e) = i"
    "distinct (map evKey (proc @ ms_vals m))"
  using assms by (auto simp: obj_ok_def ms_inv_def)

text \<open>Keys of one object are distinct under any rearrangement of its events.\<close>

lemma distinct_key_mset:
  assumes "distinct (map evKey xs)" and "mset ys = mset xs"
  shows "distinct (map evKey ys)"
  using assms by (metis mset_eq_imp_distinct_iff mset_map)

lemma distinct_key_subset:
  assumes "distinct (map evKey xs)" and "mset ys \<subseteq># mset xs"
  shows "distinct (map evKey ys)"
proof (rule distinct_submset [OF assms(1)])
  show "mset (map evKey ys) \<subseteq># mset (map evKey xs)"
    using assms(2) by (simp add: image_mset_subseteq_mono)
qed

lemma obj_ok_change:
  assumes ok: "obj_ok i m pos proc" and "ms_inv recvLess m'" and "hint_ok m' pos'"
    and sub: "mset (proc' @ ms_vals m') \<subseteq># mset (proc @ ms_vals m)"
  shows "obj_ok i m' pos' proc'"
proof -
  have "set (proc' @ ms_vals m') \<subseteq> set (proc @ ms_vals m)"
    using set_mset_mono [OF sub] by simp
  with obj_okD [OF ok] distinct_key_subset [OF obj_okD(6) [OF ok] sub] assms(2,3) show ?thesis
    unfolding obj_ok_def by auto
qed

lemma hint_ok_begin [simp]: "hint_ok m (ms_begin m)"
  by (auto simp: hint_ok_def ms_begin_def ms_vals_def ms_ids_def split: list.splits)

lemma event_eq_same:
  assumes "distinct (map evKey xs)" and "a \<in> set xs" and "b \<in> set xs" and "event_eq a b"
  shows "a = b"
  using assms by (auto simp: distinct_map event_eq_key inj_on_def)

lemma twm_inv_init: "twm_inv (TimeWarpMultiSet n :: ('t :: linorder) twMultiSet)"
proof -
  have "low_inv (replicate n ms_empty) (replicate n None) (ms_empty :: 't event omset)"
    by (rule low_othersI) (auto simp: low_slot_def ms_front_hd)
  moreover have "hint_ok (ms_empty :: 't event omset) None"
    by (simp add: hint_ok_def)
  ultimately show ?thesis
    by (simp add: twm_inv_def TimeWarpMultiSet_def obj_ok_def)
qed

subsection \<open>Insertion\<close>

text \<open>The events an object holds, and the events the whole set still has to process.\<close>

definition unprocessedOf :: "nat \<Rightarrow> 't twMultiSet \<Rightarrow> 't event multiset" where
  "unprocessedOf i s = mset (ms_vals (unprocessedObjEvents s ! i))"

lemma hint_insert_obj:
  assumes ok: "obj_ok i m pos proc" and i: "i = objIdOf (receiver event)"
    and fresh: "evKey event \<notin> evKey ` (set proc \<union> set (ms_vals m))"
  obtains m' pos' x where "ms_insert_hint recvLess pos event m = Some (m', pos')"
    "obj_ok i m' pos' proc" "mset (ms_vals m') = add_mset event (mset (ms_vals m))"
    "ms_front m' = Some x" "event_eq event x \<Longrightarrow> x = event" "x \<noteq> event \<Longrightarrow> ms_front m = Some x"
proof -
  note O = obj_okD [OF ok]
  have "pos = None \<or> pos \<in> Some ` set (ms_ids m)"
    using O(3) by (auto simp: hint_ok_def split: option.splits)
  from ms_insert_hint_defined [OF this, of recvLess event]
  obtain m' pos' where ins: "ms_insert_hint recvLess pos event m = Some (m', pos')"
    by auto
  from ms_insert_hint_SomeD [OF ins]
  obtain p where "(m', pos') = ms_insert_at p event m"
    by auto
  then have m': "m' = fst (ms_insert_at p event m)" and pos': "pos' = Some (nextNode m)"
    by (simp_all add: ms_insert_at_def)
  have mm: "mset (ms_vals m') = add_mset event (mset (ms_vals m))"
    unfolding m' by (rule mset_ms_insert_at)
  have set': "set (ms_vals m') = insert event (set (ms_vals m))"
    using mm by (metis set_mset_add_mset_insert set_mset_mset)
  have "distinct (map evKey (event # proc @ ms_vals m))"
    using O(6) fresh by auto
  then have keys: "distinct (map evKey (proc @ ms_vals m'))"
    by (rule distinct_key_mset) (simp add: mm)
  have ok': "obj_ok i m' pos' proc"
    using O(4,5) i keys set' recv_order.ms_inv_insert_hint [OF O(1) ins] m' pos'
    by (auto simp: obj_ok_def hint_ok_def set_ms_ids_insert_at)
  obtain x xs where vals: "ms_vals m' = x # xs"
    using set' by (cases "ms_vals m'") auto
  have same: "x = event" if "event_eq event x"
    using event_eq_same [of "ms_vals m'" event x] keys set' vals that by auto
  have "ms_front m = Some x" if "x \<noteq> event"
    using vals that unfolding m' ms_vals_insert_at
    by (cases "ms_vals m"; cases p) (auto simp: ms_front_hd)
  with that [OF ins ok' mm, of x] same vals show thesis by (simp add: ms_front_hd)
qed

lemma insert_ev_ok:
  assumes inv: "twm_inv s" and i: "i = objIdOf (receiver event)" "i < numObjects s"
    and fresh: "evKey event \<notin> evKey ` (set (processedObjEvents s ! i) \<union> set_mset (unprocessedOf i s))"
  shows "\<exists>t. insert_ev event s = Some (t, False) \<and> twm_inv t \<and>
           unprocessedOf i t = add_mset event (unprocessedOf i s) \<and>
           (\<forall>j. j \<noteq> i \<longrightarrow> unprocessedOf j t = unprocessedOf j s) \<and>
           processedObjEvents t = processedObjEvents s"
proof -
  let ?m = "unprocessedObjEvents s ! i" and ?h = "insertObjPos s ! i"
  note D = twm_invD [OF inv]
  obtain m' pos x where ins: "ms_insert_hint recvLess ?h event ?m = Some (m', pos)"
    and ok: "obj_ok i m' pos (processedObjEvents s ! i)"
    and mm: "mset (ms_vals m') = add_mset event (mset (ms_vals ?m))"
    and front: "ms_front m' = Some x"
    and cases: "event_eq event x \<Longrightarrow> x = event" "x \<noteq> event \<Longrightarrow> ms_front ?m = Some x"
    using hint_insert_obj [OF D(6) [OF i(2)] i(1)] fresh by (auto simp: unprocessedOf_def)
  have get: "vec_get (unprocessedObjEvents s) i = Some ?m" "vec_get (insertObjPos s) i = Some ?h"
    "vec_get (lowObjPos s) i = Some (lowObjPos s ! i)"
    using D(1,4) i(2) by (simp_all add: vec_simps)
  note run = get ins front i(1) [symmetric]
  obtain L' P' where low: "low_inv ((unprocessedObjEvents s)[i := m']) P' L'"
    and res: "insert_ev event s = Some (s\<lparr>unprocessedObjEvents := (unprocessedObjEvents s)[i := m'],
                insertObjPos := (insertObjPos s)[i := pos],
                lowestObjEvents := L', lowObjPos := P'\<rparr>, False)"
  proof (cases "event_eq event x")
    case True
    obtain L where L: "eraseLow (lowObjPos s ! i) (lowestObjEvents s) = Some L"
      "low_vacant i (unprocessedObjEvents s) (lowObjPos s) L"
      using eraseLow_vacates [OF D(5) i(2)] by blast
    obtain L' q where q: "ms_insert recvLess event L = (L', q)" by fastforce
    show thesis
    proof (rule that)
      show "low_inv ((unprocessedObjEvents s)[i := m']) ((lowObjPos s)[i := q]) L'"
        using q cases(1) [OF True] by (intro low_vacant_fill [OF L(2) i(2) front]) simp
    qed (unfold insert_ev_def Let_def, use run True L(1) q in simp)
  next
    case False
    then have "x \<noteq> event" by (auto simp: event_eq_def)
    then have "ms_front m' = ms_front ?m" using cases(2) front by simp
    from low_inv_same_front [OF D(5) i(2) this] show thesis
      by (rule that) (unfold insert_ev_def Let_def, use run False in simp)
  qed
  have "twm_inv (fst (the (insert_ev event s)))"
    unfolding res using D(3) by (intro twm_inv_update [OF inv i(2) ok low]) simp_all
  with res show ?thesis
    using i(2) mm by (auto simp: unprocessedOf_def)
qed

subsection \<open>Taking the lowest event of an object\<close>

lemma pop_front_obj:
  assumes ok: "obj_ok i m pos proc" and n: "nodes m = n # ns"
  shows "ms_erase (ms_begin m) m = Some (m\<lparr>nodes := ns\<rparr>)"
    and "ms_front m = Some (snd n)"
    and "\<exists>e. ms_deref m pos = Some e \<and>
           obj_ok i (m\<lparr>nodes := ns\<rparr>) (if event_eq (snd n) e then ms_begin (m\<lparr>nodes := ns\<rparr>) else pos)
             (proc @ [snd n])"
    and "mset (ms_vals m) = add_mset (snd n) (mset (ms_vals (m\<lparr>nodes := ns\<rparr>)))"
proof -
  let ?m' = "m\<lparr>nodes := ns\<rparr>"
  note O = obj_okD [OF ok]
  show er: "ms_erase (ms_begin m) m = Some ?m'" by (rule ms_erase_begin [OF n])
  show "ms_front m = Some (snd n)" using n by (simp add: ms_front_def)
  show mm: "mset (ms_vals m) = add_mset (snd n) (mset (ms_vals ?m'))"
    using n by (simp add: ms_vals_def)
  obtain k where k: "pos = Some k" "k \<in> set (ms_ids m)"
    using O(3) n by (auto simp: hint_ok_def ms_vals_def split: option.splits)
  obtain e where e: "ms_deref m pos = Some e"
    using k ms_deref_ids by metis
  have "hint_ok ?m' (if event_eq (snd n) e then ms_begin ?m' else pos)"
  proof (cases "event_eq (snd n) e")
    case False
    then have "k \<noteq> fst n"
      using e k n by (auto simp: ms_deref_Some)
    then show ?thesis using False k n by (auto simp: hint_ok_def ms_ids_def)
  qed simp
  then have "obj_ok i ?m' (if event_eq (snd n) e then ms_begin ?m' else pos) (proc @ [snd n])"
    using mm by (intro obj_ok_change [OF ok recv_order.ms_inv_erase [OF O(1) er]]) simp_all
  with e show "\<exists>e. ms_deref m pos = Some e \<and>
      obj_ok i ?m' (if event_eq (snd n) e then ms_begin ?m' else pos) (proc @ [snd n])"
    by blast
qed

lemma getEvent_pop:
  assumes inv: "twm_inv s" and i: "i = objIdOf object" "i < numObjects s"
    and Cons: "nodes (unprocessedObjEvents s ! i) = n # ns"
  shows "\<exists>t. getEvent object s = Some (t, Some (snd n)) \<and> twm_inv t \<and>
    unprocessedObjEvents t = (unprocessedObjEvents s)[i := (unprocessedObjEvents s ! i)\<lparr>nodes := ns\<rparr>] \<and>
    processedObjEvents t = (processedObjEvents s)[i := processedObjEvents s ! i @ [snd n]]"
proof -
  let ?m = "unprocessedObjEvents s ! i" and ?m' = "(unprocessedObjEvents s ! i)\<lparr>nodes := ns\<rparr>"
  note D = twm_invD [OF inv] and P = pop_front_obj [OF twm_invD(6) [OF inv i(2)] Cons]
  obtain e where e: "ms_deref ?m (insertObjPos s ! i) = Some e"
    and ok: "obj_ok i ?m' (if event_eq (snd n) e then ms_begin ?m' else insertObjPos s ! i)
               (processedObjEvents s ! i @ [snd n])"
    using P(3) by blast
  obtain L where L: "eraseLow (lowObjPos s ! i) (lowestObjEvents s) = Some L"
    "low_vacant i (unprocessedObjEvents s) (lowObjPos s) L"
    using eraseLow_vacates [OF D(5) i(2)] by blast
  obtain L' q where q: "insertLow ?m' L = (L', q)" by fastforce
  let ?t = "s\<lparr>unprocessedObjEvents := (unprocessedObjEvents s)[i := ?m'],
     insertObjPos := (insertObjPos s)[i := if event_eq (snd n) e then ms_begin ?m' else insertObjPos s ! i],
     processedObjEvents := (processedObjEvents s)[i := processedObjEvents s ! i @ [snd n]],
     myNumExecutedEvents := myNumExecutedEvents s + 1,
     lowestObjEvents := L', lowObjPos := (lowObjPos s)[i := q]\<rparr>"
  have "twm_inv ?t"
    using D(3) by (intro twm_inv_update [OF inv i(2) ok insertLow_fills [OF L(2) i(2) q]]) simp_all
  moreover have "getEvent object s = Some (?t, Some (snd n))"
    unfolding getEvent_def Let_def
    using D(1,2,4) i(2) Cons e L(1) q P(1,2)
    by (simp add: vec_simps ms_isEmpty_def flip: i(1))
  ultimately show ?thesis by simp
qed

lemma getEvent_ok:
  assumes inv: "twm_inv s" and i: "i = objIdOf object" "i < numObjects s"
  shows "\<exists>t. getEvent object s = Some (t, ms_front (unprocessedObjEvents s ! i)) \<and> twm_inv t \<and>
    (case ms_front (unprocessedObjEvents s ! i) of
       None \<Rightarrow> unprocessedObjEvents t = unprocessedObjEvents s \<and> processedObjEvents t = processedObjEvents s
     | Some e \<Rightarrow> unprocessedOf i s = add_mset e (unprocessedOf i t) \<and>
         (\<forall>j. j \<noteq> i \<longrightarrow> unprocessedOf j t = unprocessedOf j s) \<and>
         processedObjEvents t = (processedObjEvents s)[i := processedObjEvents s ! i @ [e]])"
proof (cases "nodes (unprocessedObjEvents s ! i)")
  case Nil
  let ?m = "unprocessedObjEvents s ! i"
  let ?t = "s\<lparr>insertObjPos := (insertObjPos s)[i := ms_begin ?m]\<rparr>"
  note D = twm_invD [OF inv]
  have ok: "obj_ok i ?m (ms_begin ?m) (processedObjEvents s ! i)"
    using D(6) [OF i(2)] by (simp add: obj_ok_def)
  have "twm_inv ?t"
    using D(3,5) by (intro twm_inv_update [OF inv i(2) ok]) (simp_all add: list_update_id)
  moreover have "getEvent object s = Some (?t, None)"
    unfolding getEvent_def using D(1) i Nil by (simp add: vec_simps ms_isEmpty_def flip: i(1))
  ultimately show ?thesis using Nil by (simp add: ms_front_def)
next
  case (Cons n ns)
  note P = pop_front_obj [OF twm_invD(6) [OF inv i(2)] Cons]
  from getEvent_pop [OF inv i Cons] show ?thesis using P(2,4) i(2) by (auto simp: unprocessedOf_def)
qed

subsection \<open>Anti-messages\<close>

lemma stepHint_ok:
  assumes ids: "ms_ids_ok m" and er: "ms_erase (Some it) m = Some m'" and h: "hint_ok m pos"
  shows "\<exists>pos'. stepHint it pos m = Some pos' \<and> hint_ok m' pos'"
proof (cases "Some it = pos")
  case False
  have "it \<in> set (ms_ids m)" and "distinct (ms_ids m)"
    using ms_erase_SomeD [OF er] ids by (auto simp: ms_ids_ok_def)
  with False h ms_ids_erase [OF er] show ?thesis
    by (auto simp: stepHint_def hint_ok_def ms_vals_def ms_ids_def split: option.splits)
next
  case True
  obtain p where p: "p < length (nodes m)" "ms_ids m ! p = it"
    using ms_erase_SomeD [OF er] by (metis in_set_conv_nth length_ms(2))
  have pos_it: "ms_pos m (Some it) = Some p"
    using ms_pos_nth [OF ids p(1)] p(2) by simp
  note other = ms_ids_erase_nth_other [OF er [folded p(2)] ids p(1)]
  have at_begin: "pos = ms_begin m \<longleftrightarrow> p = 0"
  proof -
    have "ms_begin m = Some (ms_ids m ! 0)"
      using p by (cases "nodes m") (simp_all add: ms_begin_def ms_ids_def)
    then show ?thesis
      using True p ids nth_eq_iff_index_eq [of "ms_ids m" p 0]
      by (cases "nodes m") (auto simp: ms_ids_ok_def)
  qed
  show ?thesis
  proof (cases "p = 0")
    case True
    then have "ms_begin m = Some it"
      using \<open>Some it = pos\<close> at_begin by simp
    then have "stepHint it pos m = Some (ms_iter_at m 1)"
      using pos_it True by (simp add: stepHint_def ms_next_def flip: \<open>Some it = pos\<close>)
    moreover have "hint_ok m' (ms_iter_at m 1)"
    proof (cases "1 < length (nodes m)")
      case True
      then show ?thesis using other [of 1] \<open>p = 0\<close> by (simp add: hint_ok_def ms_iter_at_valid)
    next
      case False
      then have "ms_ids m' = []"
        using ms_ids_erase [OF er] p True
        by (cases "nodes m") (auto simp: ms_ids_def)
      then show ?thesis
        using False by (simp add: hint_ok_def ms_iter_at_def vec_get_def ms_ids_def ms_vals_def)
    qed
    ultimately show ?thesis by blast
  next
    case False
    then have "stepHint it pos m = Some (Some (ms_ids m ! (p - 1)))"
      using \<open>Some it = pos\<close> at_begin pos_it p by (auto simp: stepHint_def ms_prev_def ms_iter_at_valid)
    then show ?thesis
      using other [of "p - 1"] False p by (auto simp: hint_ok_def)
  qed
qed

lemma erase_obj:
  assumes ok: "obj_ok i m pos proc" and n: "(it, e) \<in> set (nodes m)"
  obtains m' pos' where "ms_erase (Some it) m = Some m'" "stepHint it pos m = Some pos'"
    "obj_ok i m' pos' proc" "mset (ms_vals m) = add_mset e (mset (ms_vals m'))"
    "ms_front m \<noteq> Some e \<Longrightarrow> ms_front m' = ms_front m"
    "nodes m' = filter (\<lambda>x. fst x \<noteq> it) (nodes m)"
proof -
  note O = obj_okD [OF ok]
  have d: "distinct (map fst (nodes m))"
    using O(2) by (simp add: ms_ids_ok_def ms_ids_def)
  have "it \<in> set (ms_ids m)" using n by (force simp: ms_ids_def)
  then obtain m' where er: "ms_erase (Some it) m = Some m'"
    using ms_erase_Some_iff [of "Some it" m] by auto
  have "ms_deref m (Some it) = Some e"
    using n d by (simp add: ms_deref_Some)
  from mset_ms_erase [OF er this] have mm: "mset (ms_vals m) = add_mset e (mset (ms_vals m'))" .
  have nodes': "nodes m' = filter (\<lambda>x. fst x \<noteq> it) (nodes m)"
    using ms_erase_SomeD [OF er] by (simp add: remove_first_fst_distinct [OF d])
  have fr: "ms_front m' = ms_front m" if "ms_front m \<noteq> Some e"
    using that n d nodes' by (cases "nodes m") (auto simp: ms_front_def image_iff)
  obtain pos' where step: "stepHint it pos m = Some pos'" and h: "hint_ok m' pos'"
    using stepHint_ok [OF O(2) er O(3)] by blast
  have "obj_ok i m' pos' proc"
    using mm by (intro obj_ok_change [OF ok recv_order.ms_inv_erase [OF O(1) er] h]) simp
  with that er step mm fr nodes' show thesis by blast
qed

lemma find_map_snd: "find P (map snd xs) = map_option snd (find (\<lambda>x. P (snd x)) xs)"
  by (induction xs) auto

lemma handleAntiMessage_ok:
  assumes inv: "twm_inv s" and i: "i = objIdOf object" "i < numObjects s"
  shows "case find (\<lambda>x. evKey x = evKey negEvent) (ms_vals (unprocessedObjEvents s ! i)) of
      None \<Rightarrow> handleAntiMessage object negEvent s = Some (s, False)
    | Some e \<Rightarrow> \<exists>t. handleAntiMessage object negEvent s = Some (t, True) \<and> twm_inv t \<and>
        unprocessedOf i s = add_mset e (unprocessedOf i t) \<and>
        (\<forall>j. j \<noteq> i \<longrightarrow> unprocessedOf j t = unprocessedOf j s) \<and>
        processedObjEvents t = processedObjEvents s \<and>
        removedEvents t = (removedEvents s)[i := removedEvents s ! i @ [e]]"
proof (cases "find (\<lambda>x. evKey (snd x) = evKey negEvent) (nodes (unprocessedObjEvents s ! i))")
  case None
  then show ?thesis
    using i by (simp add: ms_vals_def find_map_snd handleAntiMessage_def evKey_def vec_simps)
next
  case (Some n)
  obtain it e where n: "n = (it, e)" by (cases n)
  let ?m = "unprocessedObjEvents s ! i"
  note D = twm_invD [OF inv] and O = obj_okD [OF twm_invD(6) [OF inv i(2)]]
  have inn: "(it, e) \<in> set (nodes ?m)"
    using Some n by (auto simp: find_Some_iff)
  obtain m' pos' where er: "ms_erase (Some it) ?m = Some m'"
    and step: "stepHint it (insertObjPos s ! i) ?m = Some pos'"
    and ok: "obj_ok i m' pos' (processedObjEvents s ! i)"
    and mm: "mset (ms_vals ?m) = add_mset e (mset (ms_vals m'))"
    and fr: "ms_front ?m \<noteq> Some e \<Longrightarrow> ms_front m' = ms_front ?m"
    using erase_obj [OF D(6) [OF i(2)] inn] by blast
  obtain x where x: "ms_front ?m = Some x" and xin: "x \<in> set (ms_vals ?m)"
    using inn by (cases "nodes ?m") (auto simp: ms_front_def ms_vals_def)
  have ein: "e \<in> set (ms_vals ?m)" using inn by (force simp: ms_vals_def)
  have slot: "ms_deref (lowestObjEvents s) (lowObjPos s ! i) = Some x" "lowObjPos s ! i \<noteq> None"
    using low_othersD(4) [OF D(5) i(2)] x xin by (auto simp: low_slot_def)
  have same: "event_eq e x \<longleftrightarrow> x = e"
    using event_eq_same [of "ms_vals ?m" e x] O(6) xin ein by auto
  have run: "vec_get (unprocessedObjEvents s) i = Some ?m"
    "vec_get (insertObjPos s) i = Some (insertObjPos s ! i)"
    "vec_get (lowObjPos s) i = Some (lowObjPos s ! i)"
    "vec_get (removedEvents s) i = Some (removedEvents s ! i)"
    using D(1-4) i(2) by (simp_all add: vec_simps)
  obtain L' P' where low: "low_inv ((unprocessedObjEvents s)[i := m']) P' L'"
    and res: "handleAntiMessage object negEvent s = Some (s\<lparr>
       unprocessedObjEvents := (unprocessedObjEvents s)[i := m'],
       insertObjPos := (insertObjPos s)[i := pos'],
       lowestObjEvents := L', lowObjPos := P',
       removedEvents := (removedEvents s)[i := removedEvents s ! i @ [e]]\<rparr>, True)"
  proof (cases "event_eq e x")
    case True
    obtain L where L: "ms_erase (lowObjPos s ! i) (lowestObjEvents s) = Some L"
      "low_vacant i (unprocessedObjEvents s) (lowObjPos s) L"
      using eraseLow_vacates [OF D(5) i(2)] slot(2) by (auto simp: eraseLow_def)
    obtain L' q where q: "insertLow m' L = (L', q)" by fastforce
    show thesis
      by (rule that [OF insertLow_fills [OF L(2) i(2) q]])
        (use Some n er step run slot True L(1) q in
          \<open>simp add: handleAntiMessage_def evKey_def flip: i(1)\<close>)
  next
    case False
    then have "ms_front m' = ms_front ?m" using fr x same by auto
    from low_inv_same_front [OF D(5) i(2) this] show thesis
      by (rule that) (use Some n er step run slot False in
          \<open>simp add: handleAntiMessage_def evKey_def list_update_id flip: i(1)\<close>)
  qed
  have "twm_inv (fst (the (handleAntiMessage object negEvent s)))"
    unfolding res using D(3) by (intro twm_inv_update [OF inv i(2) ok low]) simp_all
  with res Some n mm i(2) show ?thesis
    by (auto simp: ms_vals_def [of ?m] find_map_snd unprocessedOf_def)
qed

subsection \<open>Rollback, fossil collection and purge\<close>

lemma front_after_range:
  assumes ok: "obj_ok i (ms_insert_range recvLess vs m) pos proc" and x: "ms_front m = Some x"
  obtains y where "ms_front (ms_insert_range recvLess vs m) = Some y"
    "\<not> ms_isEmpty (ms_insert_range recvLess vs m)" "event_eq x y \<Longrightarrow> x = y"
proof -
  let ?m' = "ms_insert_range recvLess vs m"
  have "x \<in> set (ms_vals m)" using x by (auto simp: ms_front_hd split: list.splits)
  then have xin: "x \<in> set (ms_vals ?m')"
    using mset_ms_insert_range [of recvLess vs m] by (metis UnI2 set_mset_mset set_mset_union)
  then obtain y ys where y: "ms_vals ?m' = y # ys"
    by (cases "ms_vals ?m'") auto
  then have "event_eq x y \<Longrightarrow> x = y"
    using event_eq_same [of "ms_vals ?m'" x y] obj_okD(6) [OF ok] xin by auto
  with that y show thesis by (simp add: ms_front_hd ms_isEmpty_iff)
qed

lemma rollback_ok:
  assumes inv: "twm_inv s" and i: "i = objIdOf object" "i < numObjects s"
  shows "\<exists>t. rollback object rollbackTime s = Some t \<and> twm_inv t \<and>
     processedObjEvents t =
       (processedObjEvents s)[i := takeWhile (\<lambda>e. receiveTime e < rollbackTime) (processedObjEvents s ! i)] \<and>
     unprocessedOf i t = unprocessedOf i s +
       mset (dropWhile (\<lambda>e. receiveTime e < rollbackTime) (processedObjEvents s ! i)) \<and>
     (\<forall>j. j \<noteq> i \<longrightarrow> unprocessedOf j t = unprocessedOf j s)"
proof -
  let ?m = "unprocessedObjEvents s ! i" and ?proc = "processedObjEvents s ! i"
  let ?kept = "takeWhile (\<lambda>e. receiveTime e < rollbackTime) ?proc"
  let ?undone = "dropWhile (\<lambda>e. receiveTime e < rollbackTime) ?proc"
  let ?m' = "ms_insert_range recvLess ?undone ?m"
  note D = twm_invD [OF inv] and O = obj_okD [OF twm_invD(6) [OF inv i(2)]]
  have mm: "mset (ms_vals ?m') = mset ?undone + mset (ms_vals ?m)"
    by (rule mset_ms_insert_range)
  have all: "mset (?kept @ ms_vals ?m') = mset (?proc @ ms_vals ?m)"
    using mm mset_takeWhile_dropWhile [of "\<lambda>e. receiveTime e < rollbackTime" ?proc]
    by (simp flip: add.assoc)
  have ok: "obj_ok i ?m' (ms_begin ?m') ?kept"
    using all by (intro obj_ok_change [OF D(6) [OF i(2)] recv_order.ms_inv_insert_range [OF O(1)]])
      simp_all
  have run: "vec_get (unprocessedObjEvents s) i = Some ?m" "vec_get (processedObjEvents s) i = Some ?proc"
    "vec_get (insertObjPos s) i = Some (insertObjPos s ! i)"
    "vec_get (lowObjPos s) i = Some (lowObjPos s ! i)"
    "drop (length ?kept) ?proc = ?undone"
    using D(1-4) i(2) by (simp_all add: vec_simps dropWhile_eq_drop)
  obtain L' P' where low: "low_inv ((unprocessedObjEvents s)[i := ?m']) P' L'"
    and res: "rollback object rollbackTime s = Some (s\<lparr>
       myNumRolledBackEvents := myNumRolledBackEvents s + of_nat (length ?undone),
       unprocessedObjEvents := (unprocessedObjEvents s)[i := ?m'],
       processedObjEvents := (processedObjEvents s)[i := ?kept],
       lowestObjEvents := L', lowObjPos := P',
       insertObjPos := (insertObjPos s)[i := ms_begin ?m']\<rparr>)"
  proof (cases "lowObjPos s ! i = None")
    case True
    obtain L' q where q: "insertLow ?m' (lowestObjEvents s) = (L', q)" by fastforce
    show thesis
      by (rule that [OF insertLow_fills [OF low_inv_vacate_end [OF D(5) True] i(2) q]])
        (use run True q in \<open>simp add: rollback_def Let_def del: length_drop flip: i(1)\<close>)
  next
    case False
    obtain x where x: "ms_front ?m = Some x" "ms_deref (lowestObjEvents s) (lowObjPos s ! i) = Some x"
      using low_othersD(4) [OF D(5) i(2)] False
      by (auto simp: low_slot_def ms_front_hd split: list.splits)
    obtain y where y: "ms_front ?m' = Some y" "\<not> ms_isEmpty ?m'" "event_eq x y \<Longrightarrow> x = y"
      using front_after_range [OF ok x(1)] by blast
    show thesis
    proof (cases "event_eq x y")
      case True
      then have "ms_front ?m' = ms_front ?m" using x(1) y by simp
      from low_inv_same_front [OF D(5) i(2) this] show thesis
        by (rule that) (use run False True x y in
            \<open>simp add: rollback_def Let_def list_update_id del: length_drop flip: i(1)\<close>)
    next
      case diff: False
      obtain L where L: "ms_erase (lowObjPos s ! i) (lowestObjEvents s) = Some L"
        "low_vacant i (unprocessedObjEvents s) (lowObjPos s) L"
        using eraseLow_vacates [OF D(5) i(2)] False by (auto simp: eraseLow_def)
      obtain L' q where q: "insertLow ?m' L = (L', q)" by fastforce
      show thesis
        by (rule that [OF insertLow_fills [OF L(2) i(2) q]])
          (use run False diff x y L(1) q in \<open>simp add: rollback_def Let_def del: length_drop flip: i(1)\<close>)
    qed
  qed
  have "twm_inv (the (rollback object rollbackTime s))"
    unfolding res using D(3) by (intro twm_inv_update [OF inv i(2) ok low]) simp_all
  with res mm i(2) show ?thesis by (auto simp: unprocessedOf_def)
qed

lemma twm_inv_drop_processed:
  assumes inv: "twm_inv s" and i: "i < numObjects s" and sub: "mset proc \<subseteq># mset (processedObjEvents s ! i)"
    and t: "unprocessedObjEvents t = unprocessedObjEvents s" "insertObjPos t = insertObjPos s"
      "processedObjEvents t = (processedObjEvents s)[i := proc]" "lowObjPos t = lowObjPos s"
      "lowestObjEvents t = lowestObjEvents s" "length (removedEvents t) = numObjects s"
  shows "twm_inv t"
proof (rule twm_inv_update [OF inv i])
  note D = twm_invD [OF inv] and O = obj_okD [OF twm_invD(6) [OF inv i]]
  show "obj_ok i (unprocessedObjEvents s ! i) (insertObjPos s ! i) proc"
    by (rule obj_ok_change [OF D(6) [OF i] O(1,3)]) (simp add: sub)
qed (use t twm_invD(5) [OF inv] in \<open>simp_all add: list_update_id\<close>)

lemma fossilCollect_ok:
  assumes inv: "twm_inv s" and i: "i = objIdOf object" "i < numObjects s"
  shows "\<exists>t. fossilCollect object time s =
      Some (t, takeWhile (\<lambda>e. receiveTime e < time) (processedObjEvents s ! i) @
               filter (\<lambda>e. receiveTime e < time) (removedEvents s ! i)) \<and> twm_inv t \<and>
     processedObjEvents t =
       (processedObjEvents s)[i := dropWhile (\<lambda>e. receiveTime e < time) (processedObjEvents s ! i)] \<and>
     removedEvents t = (removedEvents s)[i := filter (\<lambda>e. \<not> receiveTime e < time) (removedEvents s ! i)] \<and>
     unprocessedObjEvents t = unprocessedObjEvents s"
proof -
  note D = twm_invD [OF inv]
  let ?proc = "processedObjEvents s ! i"
  have dW: "drop (length (takeWhile (\<lambda>e. receiveTime e < time) ?proc)) ?proc =
      dropWhile (\<lambda>e. receiveTime e < time) ?proc"
    by (simp add: dropWhile_eq_drop)
  have "mset (dropWhile (\<lambda>e. receiveTime e < time) ?proc) \<subseteq># mset ?proc"
    by (metis mset_subset_eq_add_right mset_takeWhile_dropWhile)
  then have "twm_inv (fst (the (fossilCollect object time s)))"
    using D i(2) dW
    by (intro twm_inv_drop_processed [OF inv i(2)])
      (simp_all add: fossilCollect_def Let_def vec_simps flip: i(1))
  then show ?thesis
    using D i(2) dW by (auto simp: fossilCollect_def Let_def vec_simps simp flip: i(1))
qed

lemma fossilCollect_int_ok:
  assumes inv: "twm_inv s" and i: "i = objIdOf object" "i < numObjects s"
  shows "\<exists>t es. fossilCollect_int approx object time s = Some (t, es) \<and> twm_inv t"
proof -
  note D = twm_invD [OF inv]
  let ?proc = "processedObjEvents s ! i" and ?old = "\<lambda>e. approx (receiveTime e) < time"
  have dW: "drop (length (takeWhile ?old ?proc)) ?proc = dropWhile ?old ?proc"
    by (simp add: dropWhile_eq_drop)
  have "mset (dropWhile ?old ?proc) \<subseteq># mset ?proc"
    by (metis mset_subset_eq_add_right mset_takeWhile_dropWhile)
  then have "twm_inv (fst (the (fossilCollect_int approx object time s)))"
    using D i(2) dW
    by (intro twm_inv_drop_processed [OF inv i(2)])
      (simp_all add: fossilCollect_int_def Let_def vec_simps flip: i(1))
  then show ?thesis
    using D i(2) dW by (auto simp: fossilCollect_int_def Let_def vec_simps simp flip: i(1))
qed

lemma fossilCollect_event_ok:
  assumes inv: "twm_inv s" and i: "i = objIdOf (receiver e)" "i < numObjects s"
  shows "\<exists>t. fossilCollect_event e s = Some t \<and> twm_inv t"
proof -
  note D = twm_invD [OF inv]
  let ?same = "\<lambda>x. eventId x = eventId e \<and> sender x = sender e"
  have sub: "mset (remove_first ?same (processedObjEvents s ! i)) \<subseteq># mset (processedObjEvents s ! i)"
    by (rule remove_first_submset)
  have "twm_inv (s\<lparr>removedEvents := (removedEvents s)[i := x]\<rparr>)" for x
    using D(3) by (intro twm_inv_drop_processed [OF inv i(2) subset_mset.order_refl])
      (simp_all add: list_update_id)
  moreover have "twm_inv (s\<lparr>processedObjEvents := (processedObjEvents s)[i :=
      remove_first ?same (processedObjEvents s ! i)]\<rparr>)"
    using D(3) by (intro twm_inv_drop_processed [OF inv i(2) sub]) simp_all
  ultimately show ?thesis
    using D i(2) by (auto simp: fossilCollect_event_def Let_def vec_simps simp flip: i(1))
qed

lemma twm_inv_ofcPurge: "twm_inv s \<Longrightarrow> twm_inv (ofcPurge s)"
proof -
  assume inv: "twm_inv s"
  have "low_inv (map ms_clear (unprocessedObjEvents s)) (map (\<lambda>_. None) (lowObjPos s))
      (ms_clear (lowestObjEvents s))"
    using twm_invD(4) [OF inv]
    by (intro low_othersI) (auto simp: low_slot_def ms_front_hd)
  then show ?thesis
    using twm_invD [OF inv] by (simp add: twm_inv_def ofcPurge_def obj_ok_def hint_ok_def)
qed

subsection \<open>One anti-message for many events\<close>

text \<open>Inside the loop the entry of the object in the index may be vacant.\<close>

definition low_state ::
  "nat \<Rightarrow> bool \<Rightarrow> ('t :: linorder) event omset list \<Rightarrow> iter list \<Rightarrow> 't event omset \<Rightarrow> bool" where
  "low_state i upd U P L \<longleftrightarrow> (if upd then low_vacant i U P L \<and> P ! i = None else low_inv U P L)"

definition loop_inv :: "nat \<Rightarrow> bool \<Rightarrow> ('t :: linorder) twMultiSet \<Rightarrow> bool" where
  "loop_inv i upd s \<longleftrightarrow>
     length (insertObjPos s) = numObjects s \<and> length (processedObjEvents s) = numObjects s \<and>
     length (removedEvents s) = numObjects s \<and>
     low_state i upd (unprocessedObjEvents s) (lowObjPos s) (lowestObjEvents s) \<and>
     (\<forall>j < numObjects s.
        obj_ok j (unprocessedObjEvents s ! j) (insertObjPos s ! j) (processedObjEvents s ! j))"

lemma loop_inv_False: "loop_inv i False s \<longleftrightarrow> twm_inv s"
  by (simp add: loop_inv_def twm_inv_def low_state_def)

lemma loop_inv_lowObjPos: "loop_inv i upd s \<Longrightarrow> length (lowObjPos s) = numObjects s"
  using low_othersD(2) by (auto simp: loop_inv_def low_state_def split: if_splits)

lemma low_vacant_cong: "low_vacant i (U[i := m]) P L \<longleftrightarrow> low_vacant i U P L"
  unfolding low_others_def by (auto simp: nth_list_update)

lemma low_vacant_clear: "low_vacant i U P L \<Longrightarrow> low_vacant i U (P[i := q]) L"
  unfolding low_others_def by (auto simp: nth_list_update)

text \<open>The update of the index inside the loop, for the event that is being erased.\<close>

lemma loop_low_step:
  assumes st: "low_state i upd U P L" and i: "i < length U"
    and x: "ms_front (U ! i) = Some x" and eq: "event_eq e x \<longleftrightarrow> x = e"
    and fr: "x \<noteq> e \<Longrightarrow> ms_front m' = ms_front (U ! i)"
  shows "\<exists>L' q upd'.
     (if P ! i \<noteq> None then do {
        lowEvent \<leftarrow> ms_deref L (P ! i);
        if event_eq e lowEvent then do { low \<leftarrow> ms_erase (P ! i) L; Some (low, None, True) }
        else Some (L, P ! i, upd) }
      else Some (L, P ! i, upd)) = Some (L', q, upd') \<and>
     low_state i upd' (U[i := m']) (P[i := q]) L'"
proof (cases upd)
  case True
  then show ?thesis
    using st list_update_id [of P i]
    by (intro exI [of _ L] exI [of _ None] exI [of _ True]) (simp add: low_state_def low_vacant_cong)
next
  case False
  then have low: "low_inv U P L" using st by (simp add: low_state_def)
  note len = low_othersD(2) [OF low]
  have slot: "ms_deref L (P ! i) = Some x" "P ! i \<noteq> None"
    using low_othersD(4) [OF low i] x ms_front_None_iff [of "U ! i"] by (auto simp: low_slot_def)
  show ?thesis
  proof (cases "x = e")
    case True
    obtain L' where "ms_erase (P ! i) L = Some L'" "low_vacant i U P L'"
      using eraseLow_vacates [OF low i] slot(2) by (auto simp: eraseLow_def)
    then show ?thesis
      using True slot eq i len
      by (auto simp: low_state_def low_vacant_cong low_vacant_clear)
  next
    case neq: False
    then show ?thesis
      using slot eq False low_inv_same_front [OF low i fr]
      by (auto simp: low_state_def list_update_id)
  qed
qed

abbreviation cancels :: "('t :: linorder) negativeEvent \<Rightarrow> 't event \<Rightarrow> bool" where
  "cancels neg e \<equiv> sender e = sender neg \<and> sendTime e \<ge> sendTime neg"

lemma oneAntiMsg_loop_ok:
  assumes "loop_inv i upd s" and "i < numObjects s"
    and "set rest \<subseteq> set (nodes (unprocessedObjEvents s ! i))" and "distinct (map fst rest)"
  shows "\<exists>t upd'. oneAntiMsg_loop rest i neg s ew upd =
       Some (t, ew \<or> (\<exists>e \<in> set (map snd rest). cancels neg e), upd') \<and> loop_inv i upd' t \<and>
     numObjects t = numObjects s \<and>
     unprocessedOf i s = unprocessedOf i t + mset (filter (cancels neg) (map snd rest)) \<and>
     (\<forall>j. j \<noteq> i \<longrightarrow> unprocessedOf j t = unprocessedOf j s) \<and>
     processedObjEvents t = processedObjEvents s \<and>
     removedEvents t = (removedEvents s)[i := removedEvents s ! i @ filter (cancels neg) (map snd rest)]"
  using assms
proof (induction rest arbitrary: s upd ew)
  case Nil
  then show ?case by (simp add: list_update_id)
next
  case (Cons n rest)
  obtain it e where n: "n = (it, e)" by (cases n)
  show ?case
  proof (cases "cancels neg e")
    case False
    then show ?thesis using Cons.IH [OF Cons.prems(1,2)] Cons.prems(3,4) n by auto
  next
    case True
    let ?m = "unprocessedObjEvents s ! i"
    have inv: "length (insertObjPos s) = numObjects s" "length (removedEvents s) = numObjects s"
      "low_state i upd (unprocessedObjEvents s) (lowObjPos s) (lowestObjEvents s)"
      "obj_ok i ?m (insertObjPos s ! i) (processedObjEvents s ! i)"
      "length (lowObjPos s) = numObjects s"
      using Cons.prems(1,2) loop_inv_lowObjPos by (auto simp: loop_inv_def)
    have inn: "(it, e) \<in> set (nodes ?m)" using Cons.prems(3) n by auto
    obtain m' pos' where er: "ms_erase (Some it) ?m = Some m'"
      and step: "stepHint it (insertObjPos s ! i) ?m = Some pos'"
      and ok: "obj_ok i m' pos' (processedObjEvents s ! i)"
      and mm: "mset (ms_vals ?m) = add_mset e (mset (ms_vals m'))"
      and fr: "ms_front ?m \<noteq> Some e \<Longrightarrow> ms_front m' = ms_front ?m"
      and nodes': "nodes m' = filter (\<lambda>x. fst x \<noteq> it) (nodes ?m)"
      using erase_obj [OF inv(4) inn] by blast
    obtain x where x: "ms_front ?m = Some x" and xin: "x \<in> set (ms_vals ?m)"
      using inn by (cases "nodes ?m") (auto simp: ms_front_def ms_vals_def)
    have "e \<in> set (ms_vals ?m)" using inn by (force simp: ms_vals_def)
    then have same: "event_eq e x \<longleftrightarrow> x = e"
      using event_eq_same [of "ms_vals ?m" e x] obj_okD(6) [OF inv(4)] xin by auto
    obtain L' q upd' where low:
      "(if lowObjPos s ! i \<noteq> None then do {
          lowEvent \<leftarrow> ms_deref (lowestObjEvents s) (lowObjPos s ! i);
          if event_eq e lowEvent then do {
            low \<leftarrow> ms_erase (lowObjPos s ! i) (lowestObjEvents s); Some (low, None, True) }
          else Some (lowestObjEvents s, lowObjPos s ! i, upd) }
        else Some (lowestObjEvents s, lowObjPos s ! i, upd)) = Some (L', q, upd')"
      and st: "low_state i upd' ((unprocessedObjEvents s)[i := m']) ((lowObjPos s)[i := q]) L'"
      using loop_low_step [OF inv(3) Cons.prems(2) x same, of m'] fr x by auto
    let ?s = "s\<lparr>unprocessedObjEvents := (unprocessedObjEvents s)[i := m'],
       insertObjPos := (insertObjPos s)[i := pos'], lowestObjEvents := L',
       lowObjPos := (lowObjPos s)[i := q],
       removedEvents := (removedEvents s)[i := removedEvents s ! i @ [e]]\<rparr>"
    have loop: "loop_inv i upd' ?s"
      using Cons.prems(1,2) st ok by (auto simp: loop_inv_def nth_list_update)
    have rest: "set rest \<subseteq> set (nodes (unprocessedObjEvents ?s ! i))"
      using Cons.prems(2-4) n nodes' by (auto simp: image_iff)
    have run: "oneAntiMsg_loop (n # rest) i neg s ew upd = oneAntiMsg_loop rest i neg ?s True upd'"
      using n True er step inv Cons.prems(2) low by (simp add: vec_simps split: if_splits)
    show ?thesis
      unfolding run
      using Cons.IH [OF loop, of True] rest Cons.prems(2,4) n True mm inv(2)
      by (auto simp: unprocessedOf_def)
  qed
qed

lemma handleAntiMessage_one_ok:
  assumes inv: "twm_inv s" and i: "i = objIdOf object" "i < numObjects s"
  shows "\<exists>t. handleAntiMessage_one object neg s =
       Some (t, \<exists>e \<in># unprocessedOf i s. cancels neg e) \<and> twm_inv t \<and>
     unprocessedOf i t = filter_mset (\<lambda>e. \<not> cancels neg e) (unprocessedOf i s) \<and>
     (\<forall>j. j \<noteq> i \<longrightarrow> unprocessedOf j t = unprocessedOf j s) \<and>
     processedObjEvents t = processedObjEvents s \<and>
     mset (removedEvents t ! i) =
       mset (removedEvents s ! i) + filter_mset (cancels neg) (unprocessedOf i s)"
proof -
  let ?m = "unprocessedObjEvents s ! i"
  have ids: "distinct (map fst (nodes ?m))"
    using obj_okD(2) [OF twm_invD(6) [OF inv i(2)]] by (simp add: ms_ids_ok_def ms_ids_def)
  have vals: "map snd (nodes ?m) = ms_vals ?m" by (simp add: ms_vals_def)
  obtain t upd where loop: "oneAntiMsg_loop (nodes ?m) i neg s False False =
        Some (t, \<exists>e \<in> set (ms_vals ?m). cancels neg e, upd)"
    and li: "loop_inv i upd t" and len: "numObjects t = numObjects s"
    and un: "unprocessedOf i s = unprocessedOf i t + mset (filter (cancels neg) (ms_vals ?m))"
    and fr: "\<forall>j. j \<noteq> i \<longrightarrow> unprocessedOf j t = unprocessedOf j s"
      "processedObjEvents t = processedObjEvents s"
      "removedEvents t = (removedEvents s)[i := removedEvents s ! i @ filter (cancels neg) (ms_vals ?m)]"
    using oneAntiMsg_loop_ok [of i False s "nodes ?m" neg False] inv i(2) ids
    by (auto simp: loop_inv_False vals)
  have parts: "unprocessedOf i t = filter_mset (\<lambda>e. \<not> cancels neg e) (unprocessedOf i s)"
    using un by (intro mset_filter_rest) (simp add: unprocessedOf_def)
  have start: "vec_get (unprocessedObjEvents s) (objIdOf object) = Some ?m"
    using i by (simp add: vec_simps)
  show ?thesis
  proof (cases upd)
    case False
    then have "twm_inv t" using li by (simp add: loop_inv_False)
    then show ?thesis
      using loop start False fr parts i(2) twm_invD(3) [OF inv]
      by (simp add: handleAntiMessage_one_def unprocessedOf_def flip: i(1))
  next
    case True
    obtain L' q where q: "insertLow (unprocessedObjEvents t ! i) (lowestObjEvents t) = (L', q)"
      by fastforce
    let ?t = "t\<lparr>lowestObjEvents := L', lowObjPos := (lowObjPos t)[i := q]\<rparr>"
    have "low_vacant i (unprocessedObjEvents t) (lowObjPos t) (lowestObjEvents t)"
      using li True by (simp add: loop_inv_def low_state_def)
    from insertLow_fills [OF this _ q] have "twm_inv ?t"
      using li i(2) len by (simp add: twm_inv_def loop_inv_def list_update_id)
    moreover have "handleAntiMessage_one object neg s = Some (?t, \<exists>e \<in> set (ms_vals ?m). cancels neg e)"
      using loop start True q i(2) len
      by (simp add: handleAntiMessage_one_def vec_simps flip: i(1))
    ultimately show ?thesis
      using fr parts i(2) twm_invD(3) [OF inv] by (simp add: unprocessedOf_def)
  qed
qed

subsection \<open>Scheduling\<close>

lemma peekEvent_lowest:
  assumes inv: "twm_inv s"
  shows "\<exists>r. peekEvent None s = Some r \<and>
    (case r of
       None \<Rightarrow> \<forall>i < numObjects s. unprocessedOf i s = {#}
     | Some e \<Rightarrow> objIdOf (receiver e) < numObjects s \<and>
         ms_front (unprocessedObjEvents s ! objIdOf (receiver e)) = Some e \<and>
         (\<forall>i < numObjects s. \<forall>x \<in># unprocessedOf i s. \<not> recvLess x e))"
proof (cases "ms_front (lowestObjEvents s)")
  case None
  note D = twm_invD [OF inv] and L = low_othersD [OF twm_invD(5) [OF inv]]
  have e: "ms_vals (lowestObjEvents s) = []" using None by (simp add: ms_front_None_iff)
  then have "lowObjPos s ! i = None" if "i < numObjects s" for i
    using L(6) that by (cases "lowObjPos s ! i") (auto simp: ms_vals_def ms_ids_def)
  then have "\<forall>i < numObjects s. unprocessedOf i s = {#}"
    using L(4) by (auto simp: low_slot_def unprocessedOf_def)
  moreover have "peekEvent None s = Some None"
    using e by (simp add: peekEvent_def ms_begin_None_iff)
  ultimately show ?thesis by (intro exI [of _ None]) simp
next
  case (Some e)
  note D = twm_invD [OF inv] and L = low_othersD [OF twm_invD(5) [OF inv]]
  obtain k where k: "ms_begin (lowestObjEvents s) = Some k" "k \<in> set (ms_ids (lowestObjEvents s))"
    "ms_deref (lowestObjEvents s) (Some k) = Some e"
    using Some by (auto simp: ms_front_def ms_begin_def ms_ids_def ms_deref_def split: list.splits)
  then obtain i where i: "i < numObjects s" "lowObjPos s ! i = Some k"
    using L(6) by auto
  then have fr: "ms_front (unprocessedObjEvents s ! i) = Some e"
    using L(4) [of i] k(3) by (simp add: low_slot_def)
  then have "e \<in> set (ms_vals (unprocessedObjEvents s ! i))"
    by (auto simp: ms_front_hd split: list.splits)
  then have rec: "objIdOf (receiver e) = i" using obj_okD(4) [OF D(6) [OF i(1)]] by blast
  have min: "\<not> recvLess x e" if j: "j < numObjects s" and x: "x \<in># unprocessedOf j s" for j x
  proof -
    obtain y where y: "ms_front (unprocessedObjEvents s ! j) = Some y"
      using x by (cases "ms_vals (unprocessedObjEvents s ! j)") (auto simp: unprocessedOf_def ms_front_hd)
    then have "y \<in> set (ms_vals (lowestObjEvents s))"
      using L(4) [OF j] by (intro ms_deref_in_vals [of _ "lowObjPos s ! j"]) (simp add: low_slot_def)
    then have "\<not> recvLess y e" by (rule recv_order.ms_front_minimal [OF L(1) Some])
    moreover have "\<not> recvLess x y"
      using recv_order.ms_front_minimal [OF obj_okD(1) [OF D(6) [OF j]] y] x
      by (simp add: unprocessedOf_def)
    ultimately show ?thesis using recv_order.neg_trans by blast
  qed
  have "peekEvent None s = Some (Some e)"
    using Some k(1) by (simp add: peekEvent_def)
  with i fr rec min show ?thesis by (intro exI [of _ "Some e"]) auto
qed

subsection \<open>The interface the kernel relies on\<close>

text \<open>
  What the simulation manager needs of an event set: the events of an object that are still
  to be processed, those that were processed (in order), and what insertion, extraction and
  rollback do to them. An insertion also tells whether the event is late, and does not store an event that an
  anti-message is waiting for. The lemma about stragglers is proved from these laws alone.
\<close>

definition in_order :: "('t :: linorder) event multiset \<Rightarrow> 't event list \<Rightarrow> bool" where
  "in_order pend proc \<longleftrightarrow> sorted (map receiveTime proc) \<and>
     (\<forall>p \<in> set proc. \<forall>u \<in># pend. receiveTime p \<le> receiveTime u)"

locale event_set =
  fixes ins :: "('t :: linorder) event \<Rightarrow> 's \<Rightarrow> ('s \<times> bool) option"
    and get :: "objectID \<Rightarrow> 's \<Rightarrow> ('s \<times> 't event option) option"
    and undo :: "objectID \<Rightarrow> 't \<Rightarrow> 's \<Rightarrow> 's option"
    and pend :: "nat \<Rightarrow> 's \<Rightarrow> 't event multiset"
    and proc :: "nat \<Rightarrow> 's \<Rightarrow> 't event list"
    and inv :: "'s \<Rightarrow> bool"
    and size_of :: "'s \<Rightarrow> nat"
    and late :: "'t event \<Rightarrow> 's \<Rightarrow> bool"
    and awaited :: "'t event \<Rightarrow> 's \<Rightarrow> bool"
  assumes ins_law: "inv s \<Longrightarrow> objIdOf (receiver e) < size_of s \<Longrightarrow> \<not> awaited e s \<Longrightarrow>
      evKey e \<notin> evKey ` (set (proc (objIdOf (receiver e)) s) \<union> set_mset (pend (objIdOf (receiver e)) s)) \<Longrightarrow>
      \<exists>t. ins e s = Some (t, late e s) \<and> inv t \<and> size_of t = size_of s \<and>
        pend (objIdOf (receiver e)) t = add_mset e (pend (objIdOf (receiver e)) s) \<and>
        proc (objIdOf (receiver e)) t = proc (objIdOf (receiver e)) s"
    and get_law: "inv s \<Longrightarrow> objIdOf ob < size_of s \<Longrightarrow>
      \<exists>t r. get ob s = Some (t, r) \<and> inv t \<and> size_of t = size_of s \<and>
        (case r of
           None \<Rightarrow> pend (objIdOf ob) s = {#} \<and> pend (objIdOf ob) t = {#} \<and>
             proc (objIdOf ob) t = proc (objIdOf ob) s
         | Some e \<Rightarrow> pend (objIdOf ob) s = add_mset e (pend (objIdOf ob) t) \<and>
             (\<forall>x \<in># pend (objIdOf ob) s. \<not> recvLess x e) \<and>
             proc (objIdOf ob) t = proc (objIdOf ob) s @ [e])"
    and undo_law: "inv s \<Longrightarrow> objIdOf ob < size_of s \<Longrightarrow>
      \<exists>t. undo ob time s = Some t \<and> inv t \<and> size_of t = size_of s \<and> (\<forall>e. awaited e t = awaited e s) \<and>
        proc (objIdOf ob) t = takeWhile (\<lambda>e. receiveTime e < time) (proc (objIdOf ob) s) \<and>
        pend (objIdOf ob) t = pend (objIdOf ob) s +
          mset (dropWhile (\<lambda>e. receiveTime e < time) (proc (objIdOf ob) s))"
begin

lemma get_in_order:
  assumes "inv s" and "objIdOf ob < size_of s" and "in_order (pend (objIdOf ob) s) (proc (objIdOf ob) s)"
    and "get ob s = Some (t, r)"
  shows "in_order (pend (objIdOf ob) t) (proc (objIdOf ob) t)"
proof (cases r)
  case None
  then show ?thesis using get_law [OF assms(1,2)] assms(3,4) by auto
next
  case (Some e)
  then have e: "pend (objIdOf ob) s = add_mset e (pend (objIdOf ob) t)"
    "\<forall>x \<in># pend (objIdOf ob) s. \<not> recvLess x e"
    "proc (objIdOf ob) t = proc (objIdOf ob) s @ [e]"
    using get_law [OF assms(1,2)] assms(4) by auto
  moreover have "receiveTime e \<le> receiveTime x" if "x \<in># pend (objIdOf ob) s" for x
    using e(2) that recv_order_time by blast
  ultimately show ?thesis
    using assms(3) by (auto simp: in_order_def sorted_append)
qed

lemma undo_in_order:
  assumes "inv s" and "objIdOf ob < size_of s" and "in_order (pend (objIdOf ob) s) (proc (objIdOf ob) s)"
    and "undo ob time s = Some t"
  shows "in_order (pend (objIdOf ob) t) (proc (objIdOf ob) t)"
    and "proc (objIdOf ob) t = filter (\<lambda>e. receiveTime e < time) (proc (objIdOf ob) s)"
    and "pend (objIdOf ob) t = pend (objIdOf ob) s +
           mset (filter (\<lambda>e. \<not> receiveTime e < time) (proc (objIdOf ob) s))"
proof -
  let ?p = "proc (objIdOf ob) s"
  have s: "sorted (map receiveTime ?p)" using assms(3) by (simp add: in_order_def)
  show p: "proc (objIdOf ob) t = filter (\<lambda>e. receiveTime e < time) ?p"
    and q: "pend (objIdOf ob) t = pend (objIdOf ob) s + mset (filter (\<lambda>e. \<not> receiveTime e < time) ?p)"
    using undo_law [OF assms(1,2), of time] assms(4)
      takeWhile_eq_filter_sorted [OF s, of time] dropWhile_eq_filter_sorted [OF s, of time] by auto
  show "in_order (pend (objIdOf ob) t) (proc (objIdOf ob) t)"
    using assms(3) unfolding p q by (auto simp: in_order_def sorted_filter)
qed

text \<open>
  Insertion after a rollback to the event's own time: the order of the object is restored,
  whatever the event's receive time.
\<close>

lemma straggler_in_order:
  assumes inv: "inv s" and i: "objIdOf (receiver e) < size_of s"
    and ord: "in_order (pend (objIdOf (receiver e)) s) (proc (objIdOf (receiver e)) s)"
    and time: "time \<le> receiveTime e"
    and fresh: "evKey e \<notin> evKey ` (set (proc (objIdOf (receiver e)) s) \<union> set_mset (pend (objIdOf (receiver e)) s))"
    and new: "\<not> awaited e s"
  shows "\<exists>s1 s2. undo (receiver e) time s = Some s1 \<and> ins e s1 = Some (s2, late e s1) \<and> inv s2 \<and>
           in_order (pend (objIdOf (receiver e)) s2) (proc (objIdOf (receiver e)) s2) \<and>
           mset (proc (objIdOf (receiver e)) s2) + pend (objIdOf (receiver e)) s2 =
             add_mset e (mset (proc (objIdOf (receiver e)) s) + pend (objIdOf (receiver e)) s)"
proof -
  let ?i = "objIdOf (receiver e)"
  obtain s1 where s1: "undo (receiver e) time s = Some s1" "inv s1" "size_of s1 = size_of s" "\<not> awaited e s1"
    using new undo_law [OF inv i, of time] by blast
  note u = undo_in_order [OF inv i ord s1(1)]
  have tot: "mset (proc ?i s1) + pend ?i s1 = mset (proc ?i s) + pend ?i s"
    unfolding u using multiset_partition [of "mset (proc ?i s)" "\<lambda>e. receiveTime e < time"]
    by (simp add: ac_simps)
  then have "set (proc ?i s1) \<union> set_mset (pend ?i s1) = set (proc ?i s) \<union> set_mset (pend ?i s)"
    by (metis set_mset_mset set_mset_union)
  then obtain s2 where s2: "ins e s1 = Some (s2, late e s1)" "inv s2"
    "pend ?i s2 = add_mset e (pend ?i s1)" "proc ?i s2 = proc ?i s1"
    using ins_law [OF s1(2), of e] fresh i s1(3,4) by auto
  have "in_order (pend ?i s2) (proc ?i s2)"
    using u(1) time unfolding s2(3,4) in_order_def u(2) by auto
  with s1 s2 tot show ?thesis by auto
qed

end

interpretation twm: event_set
  "insert_ev :: ('t :: linorder) event \<Rightarrow> 't twMultiSet \<Rightarrow> ('t twMultiSet \<times> bool) option"
  getEvent rollback unprocessedOf
  "\<lambda>i s. processedObjEvents s ! i" twm_inv numObjects "\<lambda>_ _. False" "\<lambda>_ _. False"
proof
  fix s :: "'t twMultiSet" and e :: "'t event"
  assume "twm_inv s" and "objIdOf (receiver e) < numObjects s"
    and "evKey e \<notin> evKey ` (set (processedObjEvents s ! objIdOf (receiver e)) \<union>
      set_mset (unprocessedOf (objIdOf (receiver e)) s))"
  from insert_ev_ok [OF this(1) refl this(2,3)] twm_invD(2)
  show "\<exists>t. insert_ev e s = Some (t, False) \<and> twm_inv t \<and> numObjects t = numObjects s \<and>
      unprocessedOf (objIdOf (receiver e)) t = add_mset e (unprocessedOf (objIdOf (receiver e)) s) \<and>
      processedObjEvents t ! objIdOf (receiver e) = processedObjEvents s ! objIdOf (receiver e)"
    using \<open>twm_inv s\<close> by metis
next
  fix s :: "'t twMultiSet" and ob
  assume inv: "twm_inv s" and i: "objIdOf ob < numObjects s"
  note D = twm_invD [OF inv]
  obtain t where t: "getEvent ob s = Some (t, ms_front (unprocessedObjEvents s ! objIdOf ob))" "twm_inv t"
    and c: "case ms_front (unprocessedObjEvents s ! objIdOf ob) of
       None \<Rightarrow> unprocessedObjEvents t = unprocessedObjEvents s \<and> processedObjEvents t = processedObjEvents s
     | Some e \<Rightarrow> unprocessedOf (objIdOf ob) s = add_mset e (unprocessedOf (objIdOf ob) t) \<and>
         (\<forall>j. j \<noteq> objIdOf ob \<longrightarrow> unprocessedOf j t = unprocessedOf j s) \<and>
         processedObjEvents t =
           (processedObjEvents s)[objIdOf ob := processedObjEvents s ! objIdOf ob @ [e]]"
    using getEvent_ok [OF inv refl i] by blast
  have len: "numObjects t = numObjects s"
    using c D(2) twm_invD(2) [OF t(2)] by (auto split: option.splits)
  have min: "\<forall>x \<in># unprocessedOf (objIdOf ob) s. \<not> recvLess x e"
    if "ms_front (unprocessedObjEvents s ! objIdOf ob) = Some e" for e
    using recv_order.ms_front_minimal [OF obj_okD(1) [OF D(6) [OF i]] that]
    by (simp add: unprocessedOf_def)
  have none: "unprocessedOf (objIdOf ob) s = {#}"
    if "ms_front (unprocessedObjEvents s ! objIdOf ob) = None"
    using that by (simp add: unprocessedOf_def ms_front_None_iff)
  show "\<exists>t r. getEvent ob s = Some (t, r) \<and> twm_inv t \<and> numObjects t = numObjects s \<and>
      (case r of
         None \<Rightarrow> unprocessedOf (objIdOf ob) s = {#} \<and> unprocessedOf (objIdOf ob) t = {#} \<and>
           processedObjEvents t ! objIdOf ob = processedObjEvents s ! objIdOf ob
       | Some e \<Rightarrow> unprocessedOf (objIdOf ob) s = add_mset e (unprocessedOf (objIdOf ob) t) \<and>
           (\<forall>x \<in># unprocessedOf (objIdOf ob) s. \<not> recvLess x e) \<and>
           processedObjEvents t ! objIdOf ob = processedObjEvents s ! objIdOf ob @ [e])"
  proof (cases "ms_front (unprocessedObjEvents s ! objIdOf ob)")
    case None
    with c have "unprocessedOf (objIdOf ob) t = unprocessedOf (objIdOf ob) s"
      by (simp add: unprocessedOf_def)
    with None t len c none [OF None] show ?thesis
      by (intro exI [of _ t] exI [of _ None]) simp
  next
    case (Some e)
    with t len c min [OF Some] i D(2) show ?thesis
      by (intro exI [of _ t] exI [of _ "Some e"]) simp
  qed
next
  fix s :: "'t twMultiSet" and ob time
  assume inv: "twm_inv s" and i: "objIdOf ob < numObjects s"
  from rollback_ok [OF inv refl i, of time] twm_invD(2) i
  show "\<exists>t. rollback ob time s = Some t \<and> twm_inv t \<and> numObjects t = numObjects s \<and> (\<forall>e :: 't event. False = False) \<and>
      processedObjEvents t ! objIdOf ob = takeWhile (\<lambda>e. receiveTime e < time) (processedObjEvents s ! objIdOf ob) \<and>
      unprocessedOf (objIdOf ob) t = unprocessedOf (objIdOf ob) s +
        mset (dropWhile (\<lambda>e. receiveTime e < time) (processedObjEvents s ! objIdOf ob))"
    using inv by (metis length_list_update nth_list_update_eq)
qed

subsection \<open>Runs of the event set\<close>

text \<open>
  One call of the kernel. An insertion brings an event whose sender and id the
  receiving object does not hold yet; nothing else is assumed of the caller.
\<close>

inductive twm_step :: "('t :: linorder) twMultiSet \<Rightarrow> 't twMultiSet \<Rightarrow> bool" where
  step_insert: "objIdOf (receiver e) < numObjects s \<Longrightarrow>
     evKey e \<notin> evKey ` (set (processedObjEvents s ! objIdOf (receiver e)) \<union>
       set_mset (unprocessedOf (objIdOf (receiver e)) s)) \<Longrightarrow>
     insert_ev e s = Some (t, b) \<Longrightarrow> twm_step s t"
| step_anti: "objIdOf ob < numObjects s \<Longrightarrow> handleAntiMessage ob neg s = Some (t, b) \<Longrightarrow> twm_step s t"
| step_anti_one: "objIdOf ob < numObjects s \<Longrightarrow> handleAntiMessage_one ob neg s = Some (t, b) \<Longrightarrow> twm_step s t"
| step_get: "objIdOf ob < numObjects s \<Longrightarrow> getEvent ob s = Some (t, r) \<Longrightarrow> twm_step s t"
| step_rollback: "objIdOf ob < numObjects s \<Longrightarrow> rollback ob time s = Some t \<Longrightarrow> twm_step s t"
| step_fossil: "objIdOf ob < numObjects s \<Longrightarrow> fossilCollect ob time s = Some (t, es) \<Longrightarrow> twm_step s t"
| step_fossil_int: "objIdOf ob < numObjects s \<Longrightarrow> fossilCollect_int approx ob itime s = Some (t, es) \<Longrightarrow>
     twm_step s t"
| step_fossil_event: "objIdOf (receiver e) < numObjects s \<Longrightarrow> fossilCollect_event e s = Some t \<Longrightarrow> twm_step s t"
| step_purge: "twm_step s (ofcPurge s)"

inductive twm_reachable :: "('t :: linorder) twMultiSet \<Rightarrow> bool" where
  reach_init: "twm_reachable (TimeWarpMultiSet n)"
| reach_step: "twm_reachable s \<Longrightarrow> twm_step s t \<Longrightarrow> twm_reachable t"

lemma twm_step_inv: "twm_step s t \<Longrightarrow> twm_inv s \<Longrightarrow> twm_inv t"
proof (induction rule: twm_step.induct)
  case (step_insert e s t b)
  then show ?case using insert_ev_ok [of s _ e] by fastforce
next
  case (step_anti ob s neg t b)
  then show ?case
    using handleAntiMessage_ok [of s "objIdOf ob" ob neg] by (auto split: option.splits)
next
  case (step_anti_one ob s neg t b)
  then show ?case using handleAntiMessage_one_ok [of s "objIdOf ob" ob neg] by auto
next
  case (step_get ob s t r)
  then show ?case using getEvent_ok [of s "objIdOf ob" ob] by auto
next
  case (step_rollback ob s time t)
  then show ?case using rollback_ok [of s "objIdOf ob" ob time] by auto
next
  case (step_fossil ob s time t es)
  then show ?case using fossilCollect_ok [of s "objIdOf ob" ob time] by auto
next
  case (step_fossil_int ob s approx itime t es)
  then show ?case using fossilCollect_int_ok [of s "objIdOf ob" ob approx itime] by auto
next
  case (step_fossil_event e s t)
  then show ?case using fossilCollect_event_ok [of s "objIdOf (receiver e)" e] by auto
next
  case (step_purge s)
  then show ?case by (simp add: twm_inv_ofcPurge)
qed

lemma twm_reachable_inv: "twm_reachable s \<Longrightarrow> twm_inv s"
  by (induction rule: twm_reachable.induct) (auto intro: twm_inv_init twm_step_inv)

lemma handleAntiMessage_defined:
  "twm_inv s \<Longrightarrow> objIdOf ob < numObjects s \<Longrightarrow> handleAntiMessage ob neg s \<noteq> None"
  using handleAntiMessage_ok [of s "objIdOf ob" ob neg] by (auto split: option.splits)

lemma inThePast_last:
  assumes "sorted_wrt (\<lambda>a b. \<not> recvLess b a) proc" and "proc \<noteq> []"
  shows "recvLess e (last proc) \<longleftrightarrow> (\<exists>x \<in> set proc. recvLess e x)"
proof -
  have "\<not> recvLess (last proc) x" if "x \<in> set proc" for x
    using assms that recv_order.irrefl
    by (cases proc rule: rev_cases) (auto simp: sorted_wrt_append)
  then show ?thesis
    using assms(2) recv_order.neg_trans by (metis last_in_set)
qed

subsection \<open>A concrete set\<close>

text \<open>Two objects, three events: the data of the witnesses below.\<close>

definition ex_event :: "nat \<Rightarrow> u32 \<Rightarrow> u32 \<Rightarrow> u32 \<Rightarrow> u32 \<Rightarrow> u32 \<Rightarrow> intvtime event" where
  "ex_event ptr from to st rt eid =
     \<lparr>eventPtr = ptr, sender = ObjectID from 0, receiver = ObjectID to 0,
      sendTime = IntVTime st, receiveTime = IntVTime rt, eventId = eid, eventSize = 64\<rparr>"

definition ex_a :: "intvtime event" where "ex_a = ex_event 1 0 1 2 9 1"
definition ex_b :: "intvtime event" where "ex_b = ex_event 2 1 0 3 5 1"
definition ex_c :: "intvtime event" where "ex_c = ex_event 3 0 1 4 6 2"

definition ex_set1 :: "intvtime twMultiSet" where
  "ex_set1 = fst (the (insert_ev ex_a (TimeWarpMultiSet 2)))"

definition ex_set2 :: "intvtime twMultiSet" where
  "ex_set2 = fst (the (insert_ev ex_b ex_set1))"

definition ex_set :: "intvtime twMultiSet" where
  "ex_set = fst (the (insert_ev ex_c ex_set2))"

definition ex_run :: "intvtime twMultiSet" where
  "ex_run = fst (the (getEvent (ObjectID 1 0) ex_set))"

lemma reach_insert:
  assumes r: "twm_reachable s" and i: "objIdOf (receiver e) < numObjects s"
    and f: "evKey e \<notin> set (map evKey (processedObjEvents s ! objIdOf (receiver e) @
       ms_vals (unprocessedObjEvents s ! objIdOf (receiver e))))"
  shows "twm_reachable (fst (the (insert_ev e s)))"
proof -
  have f': "evKey e \<notin> evKey ` (set (processedObjEvents s ! objIdOf (receiver e)) \<union>
      set_mset (unprocessedOf (objIdOf (receiver e)) s))"
    using f by (auto simp: unprocessedOf_def)
  then obtain t where t: "insert_ev e s = Some (t, False)"
    using insert_ev_ok [OF twm_reachable_inv [OF r] refl i] by blast
  show ?thesis
    using reach_step [OF r step_insert [OF i f' t]] t by simp
qed

lemma reach_get:
  assumes r: "twm_reachable s" and i: "objIdOf ob < numObjects s"
  shows "twm_reachable (fst (the (getEvent ob s)))"
  using getEvent_ok [OF twm_reachable_inv [OF r] refl i] reach_step [OF r step_get [OF i]] by auto

lemma ex_set1_reachable: "twm_reachable ex_set1"
  unfolding ex_set1_def by (rule reach_insert [OF reach_init [of 2], of ex_a]; code_simp)

lemma ex_set2_reachable: "twm_reachable ex_set2"
  unfolding ex_set2_def by (rule reach_insert [OF ex_set1_reachable, of ex_b]; code_simp)

lemma ex_set_reachable: "twm_reachable ex_set"
  unfolding ex_set_def by (rule reach_insert [OF ex_set2_reachable, of ex_c]; code_simp)

lemma ex_run_reachable: "twm_reachable ex_run"
  unfolding ex_run_def by (rule reach_get [OF ex_set_reachable, of "ObjectID 1 0"]; code_simp)

lemma ex_sizes: "numObjects ex_set = 2" "numObjects ex_run = 2" "objIdOf (ObjectID 1 0) = 1"
  by code_simp+

lemma ex_run_lists:
  "processedObjEvents ex_run ! 1 = [ex_c]" "unprocessedOf 1 ex_run = {#ex_a#}"
  "unprocessedOf 1 ex_set = {#ex_c, ex_a#}" "processedObjEvents ex_set ! 1 = []"
  "unprocessedOf 0 ex_run = {#ex_b#}" 
  by code_simp+

end
