(* ===== verification/EventSetProperties.thy ===== *)
theory EventSetProperties
  imports EventSet
begin

text \<open>
  What the event set promises the simulation manager, stated for every state that a sequence
  of its operations can reach from the constructor.
\<close>



text \<open>C12: the event that \<open>peekEvent(0)\<close> shows is a minimum over the unprocessed events of all objects, in the
  order of \<open>receiveTimeLessThanEventIdLessThan\<close>, and it shows none exactly when no object has
  an unprocessed event.\<close>

theorem peekEvent_global_minimum:
  fixes s :: "('t :: linorder) twMultiSet"
  assumes "twm_reachable s" and "peekEvent None s = Some r"
  shows "case r of
      None \<Rightarrow> \<forall>i < numObjects s. unprocessedOf i s = {#}
    | Some e \<Rightarrow> e \<in># unprocessedOf (objIdOf (receiver e)) s \<and>
        (\<forall>i < numObjects s. \<forall>x \<in># unprocessedOf i s. \<not> recvLess x e \<and> receiveTime e \<le> receiveTime x)"
  using peekEvent_lowest [OF twm_reachable_inv [OF assms(1)]] assms(2)
  by (auto simp: unprocessedOf_def ms_front_hd recv_order_time split: option.splits list.splits)

theorem peekEvent_global_minimum_witness:
  "ex_b \<in># unprocessedOf 0 ex_run \<and> receiveTime ex_b \<le> receiveTime ex_a"
proof -
  have "peekEvent None ex_run = Some (Some ex_b)" "objIdOf (receiver ex_b) = 0" by code_simp+
  with peekEvent_global_minimum [OF ex_run_reachable this(1)]
  have "ex_b \<in># unprocessedOf 0 ex_run"
    "\<forall>i < 2. \<forall>x \<in># unprocessedOf i ex_run. receiveTime ex_b \<le> receiveTime x"
    by (simp_all add: ex_sizes)
  moreover have "ex_a \<in># unprocessedOf 1 ex_run" by (simp add: ex_run_lists del: One_nat_def)
  ultimately show ?thesis by (metis one_less_numeral_iff semiring_norm(76))
qed

text \<open>The scheduler's peek and the following extraction agree: when \<open>peekEvent(0)\<close> shows an event, \<open>getEvent\<close>
  on its receiver returns that very event, moves it to the end of the receiver's processed
  events, and leaves every other object as it was.\<close>

theorem peek_then_get:
  fixes s :: "('t :: linorder) twMultiSet"
  assumes "twm_reachable s" and "peekEvent None s = Some (Some e)" and "i = objIdOf (receiver e)"
  shows "\<exists>t. getEvent (receiver e) s = Some (t, Some e) \<and>
    unprocessedOf i s = add_mset e (unprocessedOf i t) \<and>
    processedObjEvents t ! i = processedObjEvents s ! i @ [e] \<and>
    (\<forall>j. j \<noteq> i \<longrightarrow> unprocessedOf j t = unprocessedOf j s \<and>
       processedObjEvents t ! j = processedObjEvents s ! j)"
proof -
  note inv = twm_reachable_inv [OF assms(1)]
  have lt: "i < numObjects s" and front: "ms_front (unprocessedObjEvents s ! i) = Some e"
    using peekEvent_lowest [OF inv] assms(2,3) by auto
  from getEvent_ok [OF inv assms(3) lt] front twm_invD(2) [OF inv] lt show ?thesis by auto
qed

theorem peek_then_get_witness: "\<exists>t. getEvent (ObjectID 0 0) ex_run = Some (t, Some ex_b)"
proof -
  have "peekEvent None ex_run = Some (Some ex_b)" "receiver ex_b = ObjectID 0 0" by code_simp+
  with peek_then_get [OF ex_run_reachable this(1) refl] show ?thesis by auto
qed

text \<open>rollback is exact: on an object whose events were processed in order, \<open>rollback\<close> keeps as
  processed exactly the events received before the rollback time, returns exactly the others to
  the unprocessed events, and the object is in order again.\<close>

theorem rollback_exact:
  fixes s :: "('t :: linorder) twMultiSet"
  assumes "twm_reachable s" and "i = objIdOf ob" and "i < numObjects s"
    and "in_order (unprocessedOf i s) (processedObjEvents s ! i)"
  shows "\<exists>t. rollback ob time s = Some t \<and>
    processedObjEvents t ! i = filter (\<lambda>e. receiveTime e < time) (processedObjEvents s ! i) \<and>
    unprocessedOf i t = unprocessedOf i s +
      mset (filter (\<lambda>e. time \<le> receiveTime e) (processedObjEvents s ! i)) \<and>
    in_order (unprocessedOf i t) (processedObjEvents t ! i) \<and>
    (\<forall>j. j \<noteq> i \<longrightarrow> unprocessedOf j t = unprocessedOf j s \<and>
       processedObjEvents t ! j = processedObjEvents s ! j)"
proof -
  note inv = twm_reachable_inv [OF assms(1)]
  obtain t where t: "rollback ob time s = Some t"
    and fr: "\<forall>j. j \<noteq> i \<longrightarrow> unprocessedOf j t = unprocessedOf j s"
      "processedObjEvents t =
       (processedObjEvents s)[i := takeWhile (\<lambda>e. receiveTime e < time) (processedObjEvents s ! i)]"
    using rollback_ok [OF inv assms(2,3), of time] by blast
  have "processedObjEvents t ! j = processedObjEvents s ! j" if "j \<noteq> i" for j
    using fr(2) that by simp
  then show ?thesis
    using t fr(1) twm.undo_in_order [OF inv _ _ t] assms(2-4) by (simp add: not_less)
qed

theorem rollback_exact_witness:
  "\<exists>t. rollback (ObjectID 1 0) (IntVTime 5) ex_run = Some t \<and> processedObjEvents t ! 1 = [] \<and>
     unprocessedOf 1 t = {#ex_c, ex_a#}"
proof -
  have "in_order {#ex_a#} [ex_c]" "filter (\<lambda>e. receiveTime e < IntVTime 5) [ex_c] = []"
    "filter (\<lambda>e. IntVTime 5 \<le> receiveTime e) [ex_c] = [ex_c]" by code_simp+
  with rollback_exact [OF ex_run_reachable, of 1 "ObjectID 1 0" "IntVTime 5"] show ?thesis
    by (simp add: ex_sizes ex_run_lists del: One_nat_def filter.simps) blast
qed

text \<open>a straggler is absorbed: when an object processed its events in order and an event arrives with a
  sender and id it does not hold, rolling back to the event's receive time or earlier and inserting it leaves
  the object in order, with exactly one event more, whatever the event's receive time.\<close>

theorem straggler_absorbed:
  fixes s :: "('t :: linorder) twMultiSet"
  assumes "twm_reachable s" and "i = objIdOf (receiver e)" and "i < numObjects s"
    and "in_order (unprocessedOf i s) (processedObjEvents s ! i)" and "time \<le> receiveTime e"
    and "evKey e \<notin> evKey ` (set (processedObjEvents s ! i) \<union> set_mset (unprocessedOf i s))"
  shows "\<exists>s1 s2. rollback (receiver e) time s = Some s1 \<and> insert_ev e s1 = Some (s2, False) \<and>
    in_order (unprocessedOf i s2) (processedObjEvents s2 ! i) \<and>
    mset (processedObjEvents s2 ! i) + unprocessedOf i s2 =
      add_mset e (mset (processedObjEvents s ! i) + unprocessedOf i s)"
  using twm.straggler_in_order [OF twm_reachable_inv [OF assms(1)], of e time] assms(2-6) by blast

definition ex_straggler :: "intvtime event" where "ex_straggler = ex_event 4 1 1 1 4 7"

theorem straggler_absorbed_witness:
  "\<exists>s1 s2. rollback (ObjectID 1 0) (IntVTime 4) ex_run = Some s1 \<and>
     insert_ev ex_straggler s1 = Some (s2, False) \<and>
     in_order (unprocessedOf 1 s2) (processedObjEvents s2 ! 1)"
proof -
  have "in_order {#ex_a#} [ex_c]" "IntVTime 4 \<le> receiveTime ex_straggler"
    "receiver ex_straggler = ObjectID 1 0"
    "evKey ex_straggler \<notin> evKey ` (set [ex_c] \<union> set_mset {#ex_a#})" by code_simp+
  with straggler_absorbed [OF ex_run_reachable, of 1 ex_straggler "IntVTime 4"] show ?thesis
    by (simp add: ex_sizes ex_run_lists del: One_nat_def filter.simps) blast
qed

text \<open>an anti-message annihilates exactly its positive event: if the object holds an unprocessed event
  with the anti-message's sender and id, that event and no other leaves the unprocessed events and
  is recorded as removed; otherwise nothing changes and the call reports that.\<close>

theorem antimessage_annihilates:
  fixes s :: "('t :: linorder) twMultiSet"
  assumes "twm_reachable s" and "i = objIdOf ob" and "i < numObjects s"
  shows "(\<exists>e t. e \<in># unprocessedOf i s \<and> evKey e = evKey neg \<and>
      handleAntiMessage ob neg s = Some (t, True) \<and>
      unprocessedOf i t = unprocessedOf i s - {#e#} \<and> (\<forall>x \<in># unprocessedOf i t. evKey x \<noteq> evKey neg) \<and>
      removedEvents t ! i = removedEvents s ! i @ [e] \<and> processedObjEvents t = processedObjEvents s) \<or>
    ((\<forall>e \<in># unprocessedOf i s. evKey e \<noteq> evKey neg) \<and> handleAntiMessage ob neg s = Some (s, False))"
proof (cases "find (\<lambda>x. evKey x = evKey neg) (ms_vals (unprocessedObjEvents s ! i))")
  case None
  then have "handleAntiMessage ob neg s = Some (s, False)"
    using handleAntiMessage_ok [OF twm_reachable_inv [OF assms(1)] assms(2,3), of neg] by simp
  moreover have "\<forall>e \<in># unprocessedOf i s. evKey e \<noteq> evKey neg"
    using None by (auto simp: find_None_iff unprocessedOf_def)
  ultimately show ?thesis by blast
next
  case (Some e)
  note inv = twm_reachable_inv [OF assms(1)]
  let ?m = "unprocessedObjEvents s ! i"
  have e: "e \<in> set (ms_vals ?m)" "evKey e = evKey neg"
    using Some by (auto simp: find_Some_iff)
  obtain t where t: "handleAntiMessage ob neg s = Some (t, True)"
    "unprocessedOf i s = add_mset e (unprocessedOf i t)" "processedObjEvents t = processedObjEvents s"
    "removedEvents t = (removedEvents s)[i := removedEvents s ! i @ [e]]"
    using handleAntiMessage_ok [OF inv assms(2,3), of neg] Some by auto
  have "distinct (map evKey (ms_vals ?m))"
    using obj_okD(6) [OF twm_invD(6) [OF inv assms(3)]] by simp
  then have "distinct (map evKey (e # ms_vals (unprocessedObjEvents t ! i)))"
    by (rule distinct_key_mset) (use t(2) in \<open>simp add: unprocessedOf_def\<close>)
  then have "evKey x \<noteq> evKey neg" if "x \<in># unprocessedOf i t" for x
    using that e by (metis distinct.simps(2) image_eqI list.set_map list.simps(9) set_mset_mset unprocessedOf_def)
  moreover have "removedEvents t ! i = removedEvents s ! i @ [e]"
    using t(4) assms(3) twm_invD(3) [OF inv] by simp
  ultimately show ?thesis
    using t e by (intro disjI1 exI [of _ e] exI [of _ t]) (simp add: unprocessedOf_def)
qed

theorem antimessage_annihilates_witness:
  "\<exists>t. handleAntiMessage (ObjectID 1 0) (NegativeEvent 9 ex_a) ex_run = Some (t, True) \<and> unprocessedOf 1 t = {#}"
proof -
  have "evKey ex_a = evKey (NegativeEvent 9 ex_a)" by code_simp
  with antimessage_annihilates [OF ex_run_reachable, of 1 "ObjectID 1 0" "NegativeEvent 9 ex_a"]
  show ?thesis by (auto simp: ex_sizes ex_run_lists simp del: One_nat_def)
qed

text \<open>In the one-anti-message mode a single anti-message cancels every unprocessed event of its sender with
  a send time at or after its own and no other; the call reports whether there was one, and the
  cancelled events are kept among the removed ones.\<close>

theorem one_antimessage_cancels_all:
  fixes s :: "('t :: linorder) twMultiSet"
  assumes "twm_reachable s" and "i = objIdOf ob" and "i < numObjects s"
  shows "\<exists>t. handleAntiMessage_one ob neg s = Some (t, \<exists>e \<in># unprocessedOf i s. cancels neg e) \<and>
    unprocessedOf i t = {#e \<in># unprocessedOf i s. \<not> (sender e = sender neg \<and> sendTime neg \<le> sendTime e)#} \<and>
    mset (removedEvents t ! i) = mset (removedEvents s ! i) +
      {#e \<in># unprocessedOf i s. sender e = sender neg \<and> sendTime neg \<le> sendTime e#} \<and>
    (\<forall>j. j \<noteq> i \<longrightarrow> unprocessedOf j t = unprocessedOf j s) \<and> processedObjEvents t = processedObjEvents s"
  using handleAntiMessage_one_ok [OF twm_reachable_inv [OF assms(1)] assms(2,3), of neg] by blast

theorem one_antimessage_cancels_all_witness:
  "\<exists>t b. handleAntiMessage_one (ObjectID 1 0) (NegativeEvent 9 ex_a) ex_set = Some (t, b) \<and>
     unprocessedOf 1 t = {#}"
proof -
  have "{#e \<in># {#ex_c, ex_a#}. \<not> (sender e = sender (NegativeEvent 9 ex_a) \<and>
      sendTime (NegativeEvent 9 ex_a) \<le> sendTime e)#} = {#}" by code_simp
  with one_antimessage_cancels_all [OF ex_set_reachable, of 1 "ObjectID 1 0" "NegativeEvent 9 ex_a"]
  show ?thesis
    by (simp add: ex_sizes ex_run_lists del: One_nat_def filter.simps) blast
qed

text \<open>Fossil collection is exact: on an object in order it reclaims exactly the processed and removed events
  received before the given time, keeps all others, and touches no unprocessed event.\<close>

theorem fossilCollect_exact:
  fixes s :: "('t :: linorder) twMultiSet"
  assumes "twm_reachable s" and "i = objIdOf ob" and "i < numObjects s"
    and "in_order (unprocessedOf i s) (processedObjEvents s ! i)"
  shows "\<exists>t es. fossilCollect ob time s = Some (t, es) \<and>
    set es = {e \<in> set (processedObjEvents s ! i) \<union> set (removedEvents s ! i). receiveTime e < time} \<and>
    processedObjEvents t ! i = filter (\<lambda>e. time \<le> receiveTime e) (processedObjEvents s ! i) \<and>
    removedEvents t ! i = filter (\<lambda>e. time \<le> receiveTime e) (removedEvents s ! i) \<and>
    unprocessedObjEvents t = unprocessedObjEvents s \<and> twm_reachable t"
proof -
  note inv = twm_reachable_inv [OF assms(1)] and D = twm_invD [OF twm_reachable_inv [OF assms(1)]]
  have srt: "sorted (map receiveTime (processedObjEvents s ! i))"
    using assms(4) by (simp add: in_order_def)
  obtain t where t: "fossilCollect ob time s =
      Some (t, takeWhile (\<lambda>e. receiveTime e < time) (processedObjEvents s ! i) @
               filter (\<lambda>e. receiveTime e < time) (removedEvents s ! i))"
    and u: "processedObjEvents t =
       (processedObjEvents s)[i := dropWhile (\<lambda>e. receiveTime e < time) (processedObjEvents s ! i)]"
     "removedEvents t = (removedEvents s)[i := filter (\<lambda>e. \<not> receiveTime e < time) (removedEvents s ! i)]"
     "unprocessedObjEvents t = unprocessedObjEvents s"
    using fossilCollect_ok [OF inv assms(2,3), of time] by blast
  have "twm_reachable t"
    using reach_step [OF assms(1) step_fossil [OF _ t]] assms(2,3) by simp
  then show ?thesis
    using t u D(2,3) assms(3)
    by (auto simp: takeWhile_eq_filter_sorted [OF srt] dropWhile_eq_filter_sorted [OF srt] not_less)
qed

theorem fossilCollect_exact_witness:
  "\<exists>t es. fossilCollect (ObjectID 1 0) (IntVTime 8) ex_run = Some (t, es) \<and> processedObjEvents t ! 1 = []"
proof -
  have "in_order {#ex_a#} [ex_c]" "filter (\<lambda>e. IntVTime 8 \<le> receiveTime e) [ex_c] = []" by code_simp+
  with fossilCollect_exact [OF ex_run_reachable, of 1 "ObjectID 1 0" "IntVTime 8"]
  show ?thesis
    by (simp add: ex_sizes ex_run_lists del: One_nat_def filter.simps) blast
qed

text \<open>\<open>inThePast\<close> detects stragglers: when the processed events of the receiver stand in the order of the
  event set, it answers yes exactly if some processed event comes after the given one. It looks at the
  last processed event only.\<close>

theorem inThePast_detects_straggler:
  fixes s :: "('t :: linorder) twMultiSet"
  assumes "twm_reachable s" and "i = objIdOf (receiver e)" and "i < numObjects s"
    and "sorted_wrt (\<lambda>a b. \<not> recvLess b a) (processedObjEvents s ! i)"
  shows "inThePast e s = Some (\<exists>x \<in> set (processedObjEvents s ! i). recvLess e x)"
  using inThePast_last [OF assms(4), of e] assms(2,3) twm_invD(2) [OF twm_reachable_inv [OF assms(1)]]
  by (auto simp: inThePast_def Let_def vec_simps receiveTimeLessThanEventIdLessThan_def
      not_less order.strict_iff_order split: if_splits)

theorem inThePast_detects_straggler_witness: "inThePast ex_straggler ex_run = Some True"
proof -
  have "objIdOf (receiver ex_straggler) = 1" "sorted_wrt (\<lambda>a b. \<not> recvLess b a) [ex_c]"
    "recvLess ex_straggler ex_c" by code_simp+
  with inThePast_detects_straggler [OF ex_run_reachable, of 1 ex_straggler]
  show ?thesis by (simp add: ex_sizes ex_run_lists del: One_nat_def)
qed

end
