(* ===== verification/DefaultEventSet.thy ===== *)
theory DefaultEventSet
  imports EventSet
begin

text \<open>
  The event set with one container per object: \<open>DefaultTimeWarpEventSet.cpp\<close>, \<open>DefaultTimeWarpEventContainer.cpp\<close> and
  \<open>DefaultTimeWarpEventContOneAntiMsg.cpp\<close>. Unprocessed events are sorted only when the next one is asked for, and an anti-message that
  arrives before its event waits for it. The order in which \<open>std::sort\<close> leaves equal events is the argument \<open>srt\<close>.
\<close>

subsection \<open>The container of an object\<close>

record 't eventContainer =
  ec_unprocessed :: "'t event list"
  ec_processed :: "'t event list"
  ec_removed :: "'t event list"
  ec_negative :: "'t negativeEvent list"
  ec_sorted :: bool

definition DefaultTimeWarpEventContainer :: "'t eventContainer" where
  "DefaultTimeWarpEventContainer = \<lparr>ec_unprocessed = [], ec_processed = [], ec_removed = [], ec_negative = [], ec_sorted = True\<rparr>"

definition ec_insert :: "'t event \<Rightarrow> 't eventContainer \<Rightarrow> 't eventContainer" where
  "ec_insert newEvent c =
     (let matches = (\<lambda>n. eventId newEvent = eventId n \<and> sender newEvent = sender n) in
      if list_ex matches (ec_negative c)
      then c\<lparr>ec_removed := ec_removed c @ [newEvent], ec_negative := remove_first matches (ec_negative c)\<rparr>
      else c\<lparr>ec_unprocessed := ec_unprocessed c @ [newEvent], ec_sorted := False\<rparr>)"

definition sortByReceiveTimes :: "('t event list \<Rightarrow> 't event list) \<Rightarrow> 't eventContainer \<Rightarrow> 't eventContainer" where
  "sortByReceiveTimes srt c = c\<lparr>ec_unprocessed := srt (ec_unprocessed c), ec_sorted := True\<rparr>"

definition ec_handleAntiMessage :: "'t negativeEvent \<Rightarrow> 't eventContainer \<Rightarrow> 't eventContainer \<times> bool" where
  "ec_handleAntiMessage eventToRemove c =
     (let matches = (\<lambda>e. eventId eventToRemove = eventId e \<and> sender eventToRemove = sender e) in
      case find matches (ec_unprocessed c) of
        Some e \<Rightarrow> (c\<lparr>ec_removed := ec_removed c @ [e], ec_unprocessed := remove_first matches (ec_unprocessed c)\<rparr>, True)
      | None \<Rightarrow> (c\<lparr>ec_negative := ec_negative c @ [eventToRemove]\<rparr>, False))"

text \<open>\<open>DefaultTimeWarpEventContOneAntiMsg\<close>: one anti-message removes all later events of its sender, and does not wait.\<close>

definition ec_handleAntiMessage_one :: "('t :: linorder) negativeEvent \<Rightarrow> 't eventContainer \<Rightarrow> 't eventContainer \<times> bool" where
  "ec_handleAntiMessage_one eventToRemove c =
     (let matches = (\<lambda>e. sender e = sender eventToRemove \<and> sendTime e \<ge> sendTime eventToRemove) in
      (c\<lparr>ec_removed := ec_removed c @ filter matches (ec_unprocessed c), ec_unprocessed := filter (\<lambda>e. \<not> matches e) (ec_unprocessed c)\<rparr>,
       list_ex matches (ec_unprocessed c)))"

definition ec_rollback :: "('t :: linorder) \<Rightarrow> 't eventContainer \<Rightarrow> 't eventContainer" where
  "ec_rollback rollbackTime c =
     (let kept = takeWhile (\<lambda>e. receiveTime e < rollbackTime) (ec_processed c) in
      c\<lparr>ec_unprocessed := ec_unprocessed c @ drop (length kept) (ec_processed c), ec_processed := kept, ec_sorted := False\<rparr>)"

definition ec_collect :: "('t event list \<Rightarrow> 't event list) \<Rightarrow> ('t event \<Rightarrow> bool) \<Rightarrow> 't eventContainer \<Rightarrow> 't eventContainer \<times> 't event list" where
  "ec_collect srt old c =
     (let c1 = (if \<not> ec_sorted c then sortByReceiveTimes srt c else c);
          reclaimed = takeWhile old (ec_processed c1)
      in (c1\<lparr>ec_processed := drop (length reclaimed) (ec_processed c1), ec_removed := filter (\<lambda>e. \<not> old e) (ec_removed c1)\<rparr>,
          reclaimed @ filter old (ec_removed c1)))"

definition ec_fossilCollect ::
  "('t event list \<Rightarrow> 't event list) \<Rightarrow> ('t :: linorder) \<Rightarrow> 't eventContainer \<Rightarrow> 't eventContainer \<times> 't event list" where
  "ec_fossilCollect srt collectTime = ec_collect srt (\<lambda>e. receiveTime e < collectTime)"

definition ec_fossilCollect_int ::
  "('t \<Rightarrow> int) \<Rightarrow> ('t event list \<Rightarrow> 't event list) \<Rightarrow> int \<Rightarrow> 't eventContainer \<Rightarrow> 't eventContainer \<times> 't event list" where
  "ec_fossilCollect_int approx srt collectTime = ec_collect srt (\<lambda>e. approx (receiveTime e) < collectTime)"

definition ec_fossilCollect_event :: "'t event \<Rightarrow> 't eventContainer \<Rightarrow> 't eventContainer" where
  "ec_fossilCollect_event toRemove c =
     (let same = (\<lambda>e. eventId toRemove = eventId e \<and> sender toRemove = sender e) in
      if list_ex same (ec_processed c) then c\<lparr>ec_processed := remove_first same (ec_processed c)\<rparr>
      else c\<lparr>ec_removed := remove_first same (ec_removed c)\<rparr>)"

definition nextEvent :: "('t event list \<Rightarrow> 't event list) \<Rightarrow> 't eventContainer \<Rightarrow> 't eventContainer \<times> 't event option" where
  "nextEvent srt c =
     (if ec_unprocessed c \<noteq> [] then
        (let c1 = (if \<not> ec_sorted c then sortByReceiveTimes srt c else c) in (c1, Some (hd (ec_unprocessed c1))))
      else (c, None))"

definition getNextEvent :: "('t event list \<Rightarrow> 't event list) \<Rightarrow> 't eventContainer \<Rightarrow> 't eventContainer \<times> 't event option" where
  "getNextEvent srt c =
     (case nextEvent srt c of
        (c1, None) \<Rightarrow> (c1, None)
      | (c1, Some e) \<Rightarrow> (c1\<lparr>ec_unprocessed := tl (ec_unprocessed c1), ec_processed := ec_processed c1 @ [e]\<rparr>, Some e))"

definition isInThePast :: "('t :: linorder) event \<Rightarrow> 't eventContainer \<Rightarrow> bool" where
  "isInThePast toCheck c =
     (if ec_processed c = [] then False
      else let lastProc = last (ec_processed c) in
        (if receiveTime toCheck \<noteq> receiveTime lastProc then receiveTime toCheck < receiveTime lastProc
         else if eventId toCheck \<noteq> eventId lastProc then eventId toCheck < eventId lastProc
         else sender toCheck < sender lastProc))"

definition ec_ofcPurge :: "'t eventContainer \<Rightarrow> 't eventContainer \<times> 't event list \<times> 't negativeEvent list" where
  "ec_ofcPurge c =
     (c\<lparr>ec_unprocessed := [], ec_processed := [], ec_removed := [], ec_negative := []\<rparr>,
      ec_unprocessed c @ ec_processed c @ ec_removed c, ec_negative c)"

subsection \<open>The event set\<close>

type_synonym 't defaultEventSet = "'t eventContainer list"

definition DefaultTimeWarpEventSet :: "nat \<Rightarrow> 't defaultEventSet" where
  "DefaultTimeWarpEventSet numberOfSimulationObjects = replicate numberOfSimulationObjects DefaultTimeWarpEventContainer"

definition onContainer :: "nat \<Rightarrow> ('t eventContainer \<Rightarrow> 't eventContainer \<times> 'r) \<Rightarrow> 't defaultEventSet \<Rightarrow> ('t defaultEventSet \<times> 'r) option" where
  "onContainer i f s = do { c \<leftarrow> vec_get s i; let (c', r) = f c; Some (s[i := c'], r) }"

text \<open>\<open>simTime\<close> gives the simulation times of the objects.\<close>

definition des_insert :: "(nat \<Rightarrow> 't) \<Rightarrow> ('t :: linorder) event \<Rightarrow> 't defaultEventSet \<Rightarrow> ('t defaultEventSet \<times> bool) option" where
  "des_insert simTime event s = (let i = objIdOf (receiver event) in
     onContainer i (\<lambda>c. (ec_insert event c, receiveTime event < simTime i)) s)"

definition des_handleAntiMessage ::
  "bool \<Rightarrow> objectID \<Rightarrow> ('t :: linorder) negativeEvent \<Rightarrow> 't defaultEventSet \<Rightarrow> ('t defaultEventSet \<times> bool) option" where
  "des_handleAntiMessage usingOneAntiMsg eventFor cancelEvent =
     onContainer (objIdOf eventFor) (if usingOneAntiMsg then ec_handleAntiMessage_one cancelEvent else ec_handleAntiMessage cancelEvent)"

definition des_getEvent ::
  "('t event list \<Rightarrow> 't event list) \<Rightarrow> objectID \<Rightarrow> 't defaultEventSet \<Rightarrow> ('t defaultEventSet \<times> 't event option) option" where
  "des_getEvent srt object = onContainer (objIdOf object) (getNextEvent srt)"

definition des_peekEvent ::
  "('t event list \<Rightarrow> 't event list) \<Rightarrow> objectID \<Rightarrow> 't defaultEventSet \<Rightarrow> ('t defaultEventSet \<times> 't event option) option" where
  "des_peekEvent srt object = onContainer (objIdOf object) (nextEvent srt)"

definition des_peekEvent_before ::
  "('t event list \<Rightarrow> 't event list) \<Rightarrow> objectID \<Rightarrow> ('t :: linorder) \<Rightarrow> 't defaultEventSet \<Rightarrow> ('t defaultEventSet \<times> 't event option) option" where
  "des_peekEvent_before srt object minimumTime s = do {
     (s', retval) \<leftarrow> des_peekEvent srt object s;
     Some (s', case retval of None \<Rightarrow> None | Some e \<Rightarrow> if \<not> receiveTime e < minimumTime then None else Some e) }"

definition des_getEvent_before ::
  "('t event list \<Rightarrow> 't event list) \<Rightarrow> objectID \<Rightarrow> ('t :: linorder) \<Rightarrow> 't defaultEventSet \<Rightarrow> ('t defaultEventSet \<times> 't event option) option" where
  "des_getEvent_before srt object minimumTime s = do {
     (s1, peeked) \<leftarrow> des_peekEvent_before srt object minimumTime s;
     case peeked of
       None \<Rightarrow> Some (s1, None)
     | Some p \<Rightarrow> do {
         (s2, retval) \<leftarrow> des_getEvent srt object s1;
         if map_option eventPtr retval = Some (eventPtr p) then Some (s2, retval) else None } }"

definition des_fossilCollect ::
  "('t event list \<Rightarrow> 't event list) \<Rightarrow> objectID \<Rightarrow> ('t :: linorder) \<Rightarrow> 't defaultEventSet \<Rightarrow> ('t defaultEventSet \<times> 't event list) option" where
  "des_fossilCollect srt object collectTime = onContainer (objIdOf object) (ec_fossilCollect srt collectTime)"

definition des_fossilCollect_int ::
  "('t \<Rightarrow> int) \<Rightarrow> ('t event list \<Rightarrow> 't event list) \<Rightarrow> objectID \<Rightarrow> int \<Rightarrow> 't defaultEventSet \<Rightarrow> ('t defaultEventSet \<times> 't event list) option" where
  "des_fossilCollect_int approx srt object collectTime = onContainer (objIdOf object) (ec_fossilCollect_int approx srt collectTime)"

definition des_fossilCollect_event :: "'t event \<Rightarrow> 't defaultEventSet \<Rightarrow> 't defaultEventSet option" where
  "des_fossilCollect_event toRemove s =
     map_option fst (onContainer (objIdOf (receiver toRemove)) (\<lambda>c. (ec_fossilCollect_event toRemove c, ())) s)"

definition des_rollback :: "objectID \<Rightarrow> ('t :: linorder) \<Rightarrow> 't defaultEventSet \<Rightarrow> 't defaultEventSet option" where
  "des_rollback object rollbackTime s = map_option fst (onContainer (objIdOf object) (\<lambda>c. (ec_rollback rollbackTime c, ())) s)"

definition des_inThePast :: "('t :: linorder) event \<Rightarrow> 't defaultEventSet \<Rightarrow> bool option" where
  "des_inThePast toCheck s = do { c \<leftarrow> vec_get s (objIdOf (receiver toCheck)); Some (isInThePast toCheck c) }"

definition des_ofcPurge :: "'t defaultEventSet \<Rightarrow> 't defaultEventSet \<times> ('t event list \<times> 't negativeEvent list) list" where
  "des_ofcPurge s = (map (fst \<circ> ec_ofcPurge) s, map (snd \<circ> ec_ofcPurge) s)"

subsection \<open>Correctness\<close>

text \<open>What \<open>std::sort\<close> promises.\<close>

definition sorts :: "(('t :: linorder) event list \<Rightarrow> 't event list) \<Rightarrow> bool" where
  "sorts srt \<longleftrightarrow> (\<forall>es. mset (srt es) = mset es \<and> sorted_wrt (\<lambda>a b. \<not> recvLess b a) (srt es))"

definition des_inv :: "('t :: linorder) defaultEventSet \<Rightarrow> bool" where
  "des_inv s \<longleftrightarrow> (\<forall>c \<in> set s. ec_sorted c \<longrightarrow> sorted_wrt (\<lambda>a b. \<not> recvLess b a) (ec_unprocessed c))"

abbreviation des_pend :: "nat \<Rightarrow> 't defaultEventSet \<Rightarrow> 't event multiset" where
  "des_pend i s \<equiv> mset (ec_unprocessed (s ! i))"

abbreviation des_proc :: "nat \<Rightarrow> 't defaultEventSet \<Rightarrow> 't event list" where
  "des_proc i s \<equiv> ec_processed (s ! i)"

text \<open>An anti-message that has arrived before the event.\<close>

definition des_awaited :: "'t event \<Rightarrow> 't defaultEventSet \<Rightarrow> bool" where
  "des_awaited e s \<longleftrightarrow> list_ex (\<lambda>n. evKey e = evKey n) (ec_negative (s ! objIdOf (receiver e)))"

lemma des_inv_update:
  assumes "des_inv s" and "i < length s" and "ec_sorted c \<longrightarrow> sorted_wrt (\<lambda>a b. \<not> recvLess b a) (ec_unprocessed c)"
  shows "des_inv (s[i := c])"
  using assms set_update_subset_insert [of s i c] by (auto simp: des_inv_def)

lemma onContainer_in:
  "i < length s \<Longrightarrow> f (s ! i) = (c, r) \<Longrightarrow> onContainer i f s = Some (s[i := c], r)"
  by (simp add: onContainer_def vec_simps)

lemma getNextEvent_ok:
  assumes srt: "sorts srt" and c: "ec_sorted c \<longrightarrow> sorted_wrt (\<lambda>a b. \<not> recvLess b a) (ec_unprocessed c)"
  shows "\<exists>c' r. getNextEvent srt c = (c', r) \<and> (ec_sorted c' \<longrightarrow> sorted_wrt (\<lambda>a b. \<not> recvLess b a) (ec_unprocessed c')) \<and>
    ec_negative c' = ec_negative c \<and>
    (case r of
       None \<Rightarrow> ec_unprocessed c = [] \<and> c' = c
     | Some e \<Rightarrow> mset (ec_unprocessed c) = add_mset e (mset (ec_unprocessed c')) \<and>
         (\<forall>x \<in> set (ec_unprocessed c). \<not> recvLess x e) \<and> ec_processed c' = ec_processed c @ [e])"
proof (cases "ec_unprocessed c")
  case Nil
  then show ?thesis using c by (simp add: getNextEvent_def nextEvent_def)
next
  case (Cons x xs)
  let ?c = "if \<not> ec_sorted c then sortByReceiveTimes srt c else c"
  have m: "mset (ec_unprocessed ?c) = mset (ec_unprocessed c)" "sorted_wrt (\<lambda>a b. \<not> recvLess b a) (ec_unprocessed ?c)"
    "ec_negative ?c = ec_negative c" "ec_processed ?c = ec_processed c"
    using srt c by (auto simp: sorts_def sortByReceiveTimes_def)
  then obtain e es where e: "ec_unprocessed ?c = e # es" using Cons by (cases "ec_unprocessed ?c") auto
  have g: "getNextEvent srt c = (?c\<lparr>ec_unprocessed := es, ec_processed := ec_processed c @ [e]\<rparr>, Some e)"
    using Cons e m(4) by (simp add: getNextEvent_def nextEvent_def Let_def)
  have "set (ec_unprocessed c) = insert e (set es)" using m(1) e by (metis list.simps(15) set_mset_mset)
  moreover have "\<not> recvLess e e" using recv_order.irrefl by blast
  ultimately show ?thesis unfolding g using m e by auto
qed

locale sorting =
  fixes srt :: "('t :: linorder) event list \<Rightarrow> 't event list"
    and simTime :: "nat \<Rightarrow> 't"
  assumes sorts: "sorts srt"

text \<open>The default event set keeps the same contract as the multiset event set.\<close>

sublocale sorting \<subseteq> des: event_set "des_insert simTime" "des_getEvent srt" des_rollback des_pend des_proc des_inv length
  "\<lambda>e s. receiveTime e < simTime (objIdOf (receiver e))" des_awaited
proof
  fix s :: "'t defaultEventSet" and e :: "'t event"
  let ?i = "objIdOf (receiver e)"
  assume inv: "des_inv s" and i: "?i < length s" and a: "\<not> des_awaited e s"
  have "ec_insert e (s ! ?i) = (s ! ?i)\<lparr>ec_unprocessed := ec_unprocessed (s ! ?i) @ [e], ec_sorted := False\<rparr>"
    using a by (auto simp: ec_insert_def des_awaited_def evKey_def list_ex_iff Let_def)
  then show "\<exists>t. des_insert simTime e s = Some (t, receiveTime e < simTime ?i) \<and> des_inv t \<and> length t = length s \<and>
      des_pend ?i t = add_mset e (des_pend ?i s) \<and> des_proc ?i t = des_proc ?i s"
    using i des_inv_update [OF inv i] by (simp add: des_insert_def onContainer_in [OF i] Let_def)
next
  fix s :: "'t defaultEventSet" and ob :: objectID
  let ?i = "objIdOf ob"
  assume inv: "des_inv s" and i: "?i < length s"
  then have "ec_sorted (s ! ?i) \<longrightarrow> sorted_wrt (\<lambda>a b. \<not> recvLess b a) (ec_unprocessed (s ! ?i))" by (simp add: des_inv_def)
  from getNextEvent_ok [OF sorts this] obtain c r where c: "getNextEvent srt (s ! ?i) = (c, r)"
    "ec_sorted c \<longrightarrow> sorted_wrt (\<lambda>a b. \<not> recvLess b a) (ec_unprocessed c)"
    "case r of None \<Rightarrow> ec_unprocessed (s ! ?i) = [] \<and> c = s ! ?i
     | Some e \<Rightarrow> mset (ec_unprocessed (s ! ?i)) = add_mset e (mset (ec_unprocessed c)) \<and>
         (\<forall>x \<in> set (ec_unprocessed (s ! ?i)). \<not> recvLess x e) \<and> ec_processed c = ec_processed (s ! ?i) @ [e]" by blast
  then show "\<exists>t r. des_getEvent srt ob s = Some (t, r) \<and> des_inv t \<and> length t = length s \<and>
      (case r of
         None \<Rightarrow> des_pend ?i s = {#} \<and> des_pend ?i t = {#} \<and> des_proc ?i t = des_proc ?i s
       | Some e \<Rightarrow> des_pend ?i s = add_mset e (des_pend ?i t) \<and> (\<forall>x \<in># des_pend ?i s. \<not> recvLess x e) \<and>
           des_proc ?i t = des_proc ?i s @ [e])"
    using i des_inv_update [OF inv i c(2)]
    by (intro exI [of _ "s[?i := c]"] exI [of _ r]) (auto simp: des_getEvent_def onContainer_in [OF i] split: option.splits)
next
  fix s :: "'t defaultEventSet" and ob :: objectID and time :: 't
  let ?i = "objIdOf ob"
  assume inv: "des_inv s" and i: "?i < length s"
  have "des_awaited e (s[?i := ec_rollback time (s ! ?i)]) = des_awaited e s" for e
    using i by (cases "objIdOf (receiver e) = ?i") (simp_all add: des_awaited_def ec_rollback_def Let_def)
  moreover have "ec_sorted (ec_rollback time (s ! ?i)) = False" by (simp add: ec_rollback_def Let_def)
  ultimately show "\<exists>t. des_rollback ob time s = Some t \<and> des_inv t \<and> length t = length s \<and> (\<forall>e. des_awaited e t = des_awaited e s) \<and>
      des_proc ?i t = takeWhile (\<lambda>e. receiveTime e < time) (des_proc ?i s) \<and>
      des_pend ?i t = des_pend ?i s + mset (dropWhile (\<lambda>e. receiveTime e < time) (des_proc ?i s))"
    using i des_inv_update [OF inv i, of "ec_rollback time (s ! ?i)"]
    by (simp add: des_rollback_def onContainer_in [OF i] ec_rollback_def Let_def dropWhile_eq_drop)
qed

context sorting
begin

lemmas absorbs = des.straggler_in_order

end

text \<open>A sort that satisfies the promise: insertion sort.\<close>

fun insertSorted :: "('t :: linorder) event \<Rightarrow> 't event list \<Rightarrow> 't event list" where
  "insertSorted e [] = [e]"
| "insertSorted e (x # xs) = (if recvLess x e then x # insertSorted e xs else e # x # xs)"

definition insertionSort :: "('t :: linorder) event list \<Rightarrow> 't event list" where
  "insertionSort es = foldr insertSorted es []"

lemma insertSorted_mset: "mset (insertSorted e xs) = add_mset e (mset xs)"
  by (induction xs) auto

lemma insertSorted_sorted:
  "sorted_wrt (\<lambda>a b. \<not> recvLess b a) xs \<Longrightarrow> sorted_wrt (\<lambda>a b. \<not> recvLess b a) (insertSorted e xs)"
proof (induction xs)
  case (Cons x xs)
  have "set (insertSorted e xs) = insert e (set xs)" using insertSorted_mset [of e xs] by (metis set_mset_add_mset_insert set_mset_mset)
  moreover have "\<not> recvLess y e" if "y \<in> set xs" "\<not> recvLess x e" for y
    using Cons.prems that recv_order.neg_trans [of y x e] by auto
  ultimately show ?case using Cons recv_order.asym [of x e] by auto
qed simp

lemma insertionSort_sorts: "sorts insertionSort"
proof -
  have "mset (insertionSort es) = mset es" for es :: "'a event list" unfolding insertionSort_def by (induction es) (simp_all add: insertSorted_mset)
  moreover have "sorted_wrt (\<lambda>a b. \<not> recvLess b a) (insertionSort es)" for es :: "'a event list"
    unfolding insertionSort_def by (induction es) (simp_all add: insertSorted_sorted)
  ultimately show ?thesis by (simp add: sorts_def)
qed

interpretation ins_sort: sorting insertionSort simTime for simTime
  by unfold_locales (rule insertionSort_sorts)

subsection \<open>Properties\<close>

lemma remove_first_last: "\<forall>x \<in> set xs. \<not> P x \<Longrightarrow> P y \<Longrightarrow> remove_first P (xs @ [y]) = xs"
  by (induction xs) auto

text \<open>the default event set absorbs stragglers like the multiset event set: with any sorting algorithm, rolling an object back to the
  time of a new event or earlier and inserting the event leaves the object in order, with exactly one event more; the result of the insertion
  tells whether the event is before the time of the object. No anti-message is waiting for the event.\<close>

theorem default_straggler_absorbed:
  fixes s :: "('t :: linorder) defaultEventSet" and srt :: "'t event list \<Rightarrow> 't event list"
  assumes "sorts srt" and "des_inv s" and "i = objIdOf (receiver e)" and "i < length s"
    and "in_order (mset (ec_unprocessed (s ! i))) (ec_processed (s ! i))" and "time \<le> receiveTime e"
    and "evKey e \<notin> evKey ` (set (ec_processed (s ! i)) \<union> set (ec_unprocessed (s ! i)))" and "\<not> des_awaited e s"
  shows "\<exists>s1 s2. des_rollback (receiver e) time s = Some s1 \<and> des_insert simTime e s1 = Some (s2, receiveTime e < simTime i) \<and> des_inv s2 \<and>
    in_order (mset (ec_unprocessed (s2 ! i))) (ec_processed (s2 ! i)) \<and>
    mset (ec_processed (s2 ! i)) + mset (ec_unprocessed (s2 ! i)) = add_mset e (mset (ec_processed (s ! i)) + mset (ec_unprocessed (s ! i)))"
  using sorting.absorbs [OF sorting.intro [OF assms(1)] assms(2), of e time simTime] assms(3-8) by simp

text \<open>An anti-message that overtakes its event is not lost: it finds nothing and waits, and when the event arrives both disappear; the event
  is kept only to be reclaimed, and nothing else has changed.\<close>

theorem early_antimessage:
  fixes s :: "('t :: linorder) defaultEventSet"
  assumes "i = objIdOf ob" and "i = objIdOf (receiver e)" and "i < length s" and "evKey n = evKey e"
    and "evKey e \<notin> evKey ` set (ec_unprocessed (s ! i))" and "\<not> des_awaited e s"
  shows "\<exists>s1 s2. des_handleAntiMessage False ob n s = Some (s1, False) \<and> des_insert simTime e s1 = Some (s2, receiveTime e < simTime i) \<and>
    s2 = s[i := (s ! i)\<lparr>ec_removed := ec_removed (s ! i) @ [e]\<rparr>]"
proof -
  let ?c = "s ! i"
  have k: "eventId n = eventId e" "sender n = sender e" using assms(4) by (simp_all add: evKey_def)
  have "find (\<lambda>x. eventId n = eventId x \<and> sender n = sender x) (ec_unprocessed ?c) = None"
    using assms(5) k by (auto simp: find_None_iff evKey_def image_iff)
  then have a: "des_handleAntiMessage False ob n s = Some (s[i := ?c\<lparr>ec_negative := ec_negative ?c @ [n]\<rparr>], False)"
    using assms(1,3) by (simp add: des_handleAntiMessage_def onContainer_in ec_handleAntiMessage_def Let_def)
  have w: "\<forall>x \<in> set (ec_negative ?c). \<not> (eventId e = eventId x \<and> sender e = sender x)"
    using assms(2,6) by (auto simp: des_awaited_def list_ex_iff evKey_def)
  then have "remove_first (\<lambda>x. eventId e = eventId x \<and> sender e = sender x) (ec_negative ?c @ [n]) = ec_negative ?c"
    using k by (intro remove_first_last) auto
  then have "ec_insert e (?c\<lparr>ec_negative := ec_negative ?c @ [n]\<rparr>) = ?c\<lparr>ec_removed := ec_removed ?c @ [e]\<rparr>"
    using k by (cases ?c) (simp add: ec_insert_def Let_def)
  then show ?thesis using a assms(2,3) by (simp add: des_insert_def onContainer_in Let_def)
qed

definition ex_des :: "intvtime defaultEventSet" where
  "ex_des = fst (the (Option.bind (des_insert (\<lambda>_. 0) ex_c (DefaultTimeWarpEventSet 2)) (\<lambda>(s, _). des_getEvent insertionSort (ObjectID 1 0) s)))"

lemma ex_des_eq: "ex_des = [DefaultTimeWarpEventContainer, DefaultTimeWarpEventContainer\<lparr>ec_processed := [ex_c]\<rparr>]"
  by code_simp

theorem default_straggler_absorbed_witness:
  "\<exists>s1 s2. des_rollback (ObjectID 1 0) (IntVTime 4) ex_des = Some s1 \<and>
     des_insert (\<lambda>_. IntVTime 6) (ex_event 4 1 1 1 4 7) s1 = Some (s2, True) \<and> des_inv s2"
proof -
  let ?e = "ex_event 4 1 1 1 4 7"
  have c: "receiver ?e = ObjectID 1 0" "objIdOf (ObjectID 1 0) = 1" "IntVTime 4 \<le> receiveTime ?e" "receiveTime ?e < IntVTime 6"
    "evKey ?e \<noteq> evKey ex_c" "receiveTime ex_c \<le> receiveTime ex_c" by code_simp+
  have "des_inv ex_des" by (simp add: ex_des_eq des_inv_def DefaultTimeWarpEventContainer_def)
  moreover have "in_order (mset (ec_unprocessed (ex_des ! 1))) (ec_processed (ex_des ! 1))"
    by (simp add: ex_des_eq DefaultTimeWarpEventContainer_def in_order_def)
  ultimately show ?thesis
    using default_straggler_absorbed [OF insertionSort_sorts, of ex_des 1 ?e "IntVTime 4" "\<lambda>_. IntVTime 6"] c
    by (simp add: ex_des_eq DefaultTimeWarpEventContainer_def des_awaited_def) blast
qed

theorem early_antimessage_witness:
  "\<exists>s1 s2. des_handleAntiMessage False (ObjectID 1 0) (NegativeEvent 9 ex_c) (DefaultTimeWarpEventSet 2) = Some (s1, False) \<and>
     des_insert (\<lambda>_. 0) ex_c s1 = Some (s2, receiveTime ex_c < 0)"
proof -
  have c: "receiver ex_c = ObjectID 1 0" "objIdOf (ObjectID 1 0) = 1" "evKey (NegativeEvent 9 ex_c) = evKey ex_c" by code_simp+
  have "length (DefaultTimeWarpEventSet 2 :: intvtime defaultEventSet) = 2"
    "(DefaultTimeWarpEventSet 2 :: intvtime defaultEventSet) ! 1 = DefaultTimeWarpEventContainer"
    by (simp_all add: DefaultTimeWarpEventSet_def nth_replicate)
  then show ?thesis using early_antimessage [of 1 "ObjectID 1 0" ex_c "DefaultTimeWarpEventSet 2" "NegativeEvent 9 ex_c" "\<lambda>_. 0"] c
    by (simp add: des_awaited_def DefaultTimeWarpEventContainer_def) blast
qed

end
