(* ===== verification/GVTSystem.thy ===== *)
theory GVTSystem
  imports MatternGVT
begin

text \<open>
  The simulation managers together. A manager has a list of the receive times of its
  unprocessed events; event messages and control messages are in transit in multisets, so they
  may arrive in any order. The event side is described by what it may do at all:

  \<^item> a manager sends an event message while it executes or undoes work that is not before
    its lowest pending time, and an event is received no earlier than it was sent;
  \<^item> a message that arrives adds its receive time to the pending times;
  \<^item> local work at a pending time may discard pending times and add any that are not earlier
    (execution, rollback and annihilation are instances).

  The GVT side is the code of \<open>MatternGVT\<close>, called where the kernel calls it.
\<close>

record 't eventMsg =
  em_dest :: nat
  em_info :: string
  em_send :: 't
  em_recv :: 't

record 't gvtSystem =
  mgrs :: "'t matternGVTManager list"
  pend :: "'t list list"
  net :: "'t eventMsg multiset"
  ctl :: "'t gVTMessage multiset"

definition low_of :: "('t :: {linorder, order_top}) list \<Rightarrow> 't" where
  "low_of xs = foldr min xs top"

lemma low_of_le: "x \<in> set xs \<Longrightarrow> low_of xs \<le> x"
  unfolding low_of_def by (induction xs) (auto simp: min.coboundedI2)

inductive gvt_step :: "('t :: {linorder, order_top}) gvtSystem \<Rightarrow> 't gvtSystem \<Rightarrow> bool" where
  s_send: "i < length (mgrs s) \<Longrightarrow> x \<in> set (pend s ! i) \<Longrightarrow> x \<le> t \<Longrightarrow> t \<le> r \<Longrightarrow>
     getGVTInfo t (mgrs s ! i) = Some (m, info) \<Longrightarrow>
     gvt_step s (s\<lparr>mgrs := (mgrs s)[i := m],
       net := add_mset \<lparr>em_dest = j, em_info = info, em_send = t, em_recv = r\<rparr> (net s)\<rparr>)"
| s_recv: "e \<in># net s \<Longrightarrow> em_dest e = i \<Longrightarrow> i < length (mgrs s) \<Longrightarrow>
     gvt_step s (s\<lparr>mgrs := (mgrs s)[i := updateEventRecord (em_info e) (mgrs s ! i)],
       pend := (pend s)[i := em_recv e # pend s ! i], net := net s - {#e#}\<rparr>)"
| s_local: "i < length (mgrs s) \<Longrightarrow> x \<in> set (pend s ! i) \<Longrightarrow>
     \<forall>y \<in> set ys. y \<in> set (pend s ! i) \<or> x \<le> y \<Longrightarrow>
     gvt_step s (s\<lparr>pend := (pend s)[i := ys]\<rparr>)"
| s_start: "0 < length (mgrs s) \<Longrightarrow>
     calculateGVT (low_of (pend s ! 0)) (mgrs s ! 0) = Some (m, out, fc) \<Longrightarrow>
     gvt_step s (s\<lparr>mgrs := (mgrs s)[0 := m], ctl := ctl s + mset out\<rparr>)"
| s_control: "msg \<in># ctl s \<Longrightarrow> msgDest msg = i \<Longrightarrow> i < length (mgrs s) \<Longrightarrow>
     receiveKernelMessage (low_of (pend s ! i)) msg (mgrs s ! i) = Some (m, out, fc) \<Longrightarrow>
     gvt_step s (s\<lparr>mgrs := (mgrs s)[i := m], ctl := ctl s - {#msg#} + mset out\<rparr>)"

inductive_cases gvt_stepE: "gvt_step s t"

definition initialSystem :: "u32 \<Rightarrow> ('t :: zero) list list \<Rightarrow> 't gvtSystem" where
  "initialSystem period pending =
     \<lparr>mgrs = map (\<lambda>i. MatternGVTManager i (length pending) period) [0..<length pending],
      pend = pending, net = {#}, ctl = {#}\<rparr>"

inductive gvt_reachable :: "('t :: {linorder, order_top, zero}) gvtSystem \<Rightarrow> bool" where
  gvt_init: "gvt_reachable (initialSystem period pending)"
| gvt_next: "gvt_reachable s \<Longrightarrow> gvt_step s t \<Longrightarrow> gvt_reachable t"

subsection \<open>Conservation of the white message count\<close>

abbreviation whiteCount :: "'t matternGVTManager \<Rightarrow> int" where
  "whiteCount m \<equiv> numberOfWhiteMessages (objectRecord m)"

abbreviation isRed :: "'t matternGVTManager \<Rightarrow> bool" where
  "isRed m \<equiv> color (objectRecord m) = RED"

abbreviation whiteMsg :: "'t eventMsg \<Rightarrow> bool" where
  "whiteMsg e \<equiv> atoi (em_info e) = 0"

definition tokenCount :: "'t gVTMessage \<Rightarrow> int" where
  "tokenCount msg = (case msg of MatternGVTMessage _ _ _ _ c \<Rightarrow> c | GVTUpdateMessage _ _ _ \<Rightarrow> 0)"

definition whitesInTransit :: "'t gvtSystem \<Rightarrow> nat" where
  "whitesInTransit s = size (filter_mset whiteMsg (net s))"

definition countedWhites :: "'t gvtSystem \<Rightarrow> int" where
  "countedWhites s = sum_list (map whiteCount (mgrs s)) + sum_mset (image_mset tokenCount (ctl s))"

lemma sum_list_map_update:
  "i < length xs \<Longrightarrow> sum_list (map f (xs[i := y])) = sum_list (map f xs) - f (xs ! i) + (f y :: int)"
  by (induction xs arbitrary: i) (auto split: nat.splits)

lemma getGVTInfo_count:
  assumes "getGVTInfo t m = Some (m', info)"
  shows "whiteCount m' = whiteCount m + (if atoi info = 0 then 1 else 0)"
  using assms by (auto simp: getGVTInfo_def setMinTimeStamp_def Let_def split: if_splits bind_splits)

lemma updateEventRecord_count:
  "whiteCount (updateEventRecord info m) = whiteCount m - (if atoi info = 0 then 1 else 0)"
  by (simp add: updateEventRecord_def Let_def)

lemma sendGVTUpdate_count: "sum_list (map tokenCount (sendGVTUpdate m)) = 0"
  by (simp add: sendGVTUpdate_def tokenCount_def comp_def)

lemma calculateGVT_count:
  assumes "calculateGVT low m = Some (m', out, fc)"
  shows "whiteCount m' + sum_list (map tokenCount out) = whiteCount m"
  using assms
  by (auto simp: calculateGVT_def sendGVTToken_def resetMinTimeStamp_def tokenCount_def Let_def
      split: if_splits)

lemma receiveKernelMessage_count:
  assumes "receiveKernelMessage low msg m = Some (m', out, fc)"
  shows "whiteCount m' + sum_list (map tokenCount out) = whiteCount m + tokenCount msg"
proof (cases msg)
  case (MatternGVTMessage a b l mi c)
  then show ?thesis
    using assms sendGVTUpdate_count
    by (auto simp: receiveKernelMessage_def receiveToken_def sendGVTToken_def resetMinTimeStamp_def
        tokenCount_def Let_def split: if_splits bind_splits)
next
  case (GVTUpdateMessage a b g)
  then show ?thesis
    using assms by (auto simp: receiveKernelMessage_def receiveUpdate_def tokenCount_def Let_def
        split: if_splits)
qed

lemma gvt_step_conserves:
  assumes "gvt_step s t" and "countedWhites s = int (whitesInTransit s)"
  shows "countedWhites t = int (whitesInTransit t)"
  using assms
proof (induction rule: gvt_step.induct)
  case (s_send i s x t r m info j)
  then show ?case
    using getGVTInfo_count [OF s_send(5)]
    by (simp add: countedWhites_def whitesInTransit_def sum_list_map_update)
next
  case (s_recv e s i)
  then have "whitesInTransit (s\<lparr>net := net s - {#e#}\<rparr>) + (if whiteMsg e then 1 else 0) = whitesInTransit s"
    by (auto simp: whitesInTransit_def size_Diff_singleton dest!: multi_member_split)
  then show ?case
    using s_recv by (auto simp: countedWhites_def whitesInTransit_def sum_list_map_update updateEventRecord_count)
next
  case (s_local i s x ys)
  then show ?case by (simp add: countedWhites_def whitesInTransit_def)
next
  case (s_start s m out fc)
  then show ?case
    using calculateGVT_count [OF s_start(2)]
    by (simp add: countedWhites_def whitesInTransit_def sum_list_map_update sum_mset_sum_list flip: mset_map)
next
  case (s_control msg s i m out fc)
  obtain C where C: "ctl s = add_mset msg C" using s_control(1) multi_member_split by metis
  show ?case
    using receiveKernelMessage_count [OF s_control(4)] s_control(3,5) C
    by (simp add: countedWhites_def whitesInTransit_def sum_list_map_update sum_mset_sum_list flip: mset_map)
qed

lemma initialSystem_conserves: "countedWhites (initialSystem p xs) = int (whitesInTransit (initialSystem p xs))"
proof -
  have "sum_list (map whiteCount (mgrs (initialSystem p xs))) = 0"
    by (simp add: initialSystem_def comp_def MatternGVTManager_def MatternObjectRecord_def)
  then show ?thesis by (simp add: countedWhites_def whitesInTransit_def initialSystem_def)
qed

lemma gvt_reachable_conserves: "gvt_reachable s \<Longrightarrow> countedWhites s = int (whitesInTransit s)"
  by (induction rule: gvt_reachable.induct) (auto intro: initialSystem_conserves gvt_step_conserves)

subsection \<open>One estimation\<close>

text \<open>
  Between the start of an estimation and its commit the token is the only control message.
  A manager counts as visited in the current round when the token has left it; the initiator
  is visited when a round starts. \<open>bounded\<close> says that a time is covered by the token
  or by the minimal time stamp of a manager the token has still to visit in this round.
\<close>

definition visited :: "nat \<Rightarrow> nat \<Rightarrow> bool" where
  "visited d i \<longleftrightarrow> d = 0 \<or> i < d"

definition tMin_le :: "'t matternGVTManager \<Rightarrow> ('t :: linorder) \<Rightarrow> bool" where
  "tMin_le m x \<longleftrightarrow> (case tMin (objectRecord m) of None \<Rightarrow> False | Some t \<Rightarrow> t \<le> x)"

definition bounded :: "('t :: linorder) gvtSystem \<Rightarrow> nat \<Rightarrow> 't \<Rightarrow> 't \<Rightarrow> bool" where
  "bounded s d T x \<longleftrightarrow> T \<le> x \<or> (\<exists>j < length (mgrs s). \<not> visited d j \<and> tMin_le (mgrs s ! j) x)"

definition laterRound :: "'t gvtSystem \<Rightarrow> bool" where
  "laterRound s \<longleftrightarrow> tokenIterationNumber (objectRecord (mgrs s ! 0)) \<noteq> 1"

definition shape :: "('t :: linorder) gvtSystem \<Rightarrow> bool" where
  "shape s \<longleftrightarrow> 1 < length (mgrs s) \<and> length (pend s) = length (mgrs s) \<and>
     (\<forall>i < length (mgrs s). mySimulationManagerID (mgrs s ! i) = i \<and>
        numberOfSimulationManagers (mgrs s ! i) = length (mgrs s)) \<and>
     (\<forall>e \<in># net s. em_send e \<le> em_recv e) \<and>
     countedWhites s = int (whitesInTransit s)"

definition reds_ok :: "('t :: linorder) gvtSystem \<Rightarrow> bool" where
  "reds_ok s \<longleftrightarrow>
     (\<forall>i < length (mgrs s). isRed (mgrs s ! i) \<longrightarrow>
        tMin (objectRecord (mgrs s ! i)) \<noteq> None \<and> whiteCount (mgrs s ! i) \<le> 0) \<and>
     (\<forall>e \<in># net s. \<not> whiteMsg e \<longrightarrow>
        (\<exists>j < length (mgrs s). isRed (mgrs s ! j) \<and> tMin_le (mgrs s ! j) (em_send e)))"

definition round_ok :: "('t :: linorder) gvtSystem \<Rightarrow> nat \<Rightarrow> 't \<Rightarrow> bool" where
  "round_ok s d T \<longleftrightarrow>
     (laterRound s \<and> (\<forall>i < length (mgrs s). visited d i \<longrightarrow> whiteCount (mgrs s ! i) = 0) \<longrightarrow>
       (\<forall>e \<in># net s. \<not> whiteMsg e \<longrightarrow> bounded s d T (em_send e)) \<and>
       (\<forall>i < length (mgrs s). visited d i \<longrightarrow> (\<forall>x \<in> set (pend s ! i). bounded s d T x)))"

definition quiet :: "('t :: linorder) gvtSystem \<Rightarrow> bool" where
  "quiet s \<longleftrightarrow> shape s \<and> ctl s = {#} \<and> (\<forall>e \<in># net s. whiteMsg e) \<and>
     (\<forall>i < length (mgrs s). \<not> isRed (mgrs s ! i)) \<and>
     \<not> gVTTokenPending (mgrs s ! 0) \<and> tokenIterationNumber (objectRecord (mgrs s ! 0)) = 0"

definition circulating :: "('t :: linorder) gvtSystem \<Rightarrow> nat \<Rightarrow> 't \<Rightarrow> 't \<Rightarrow> int \<Rightarrow> bool" where
  "circulating s d l mi c \<longleftrightarrow> shape s \<and> (\<exists>src. ctl s = {#MatternGVTMessage src d l mi c#}) \<and>
     d < length (mgrs s) \<and> gVTTokenPending (mgrs s ! 0) \<and>
     (\<forall>i < length (mgrs s). visited d i \<or> laterRound s \<longrightarrow> isRed (mgrs s ! i)) \<and>
     reds_ok s \<and> round_ok s d (min l mi)"

lemma shape_countedD: "shape s \<Longrightarrow> countedWhites s = int (whitesInTransit s)"
  by (simp add: shape_def)

lemma shapeD:
  assumes "shape s"
  shows "1 < length (mgrs s)" "0 < length (mgrs s)" "length (pend s) = length (mgrs s)"
    "\<And>i. i < length (mgrs s) \<Longrightarrow> mySimulationManagerID (mgrs s ! i) = i"
    "\<And>i. i < length (mgrs s) \<Longrightarrow> numberOfSimulationManagers (mgrs s ! i) = length (mgrs s)"
  using assms by (auto simp: shape_def)

text \<open>What an event operation of one manager may change.\<close>

lemma getGVTInfo_cases:
  assumes "getGVTInfo t m = Some (m', info)"
  obtains (white) "\<not> isRed m" "m' = m\<lparr>objectRecord := (objectRecord m)\<lparr>numberOfWhiteMessages := whiteCount m + 1\<rparr>\<rparr>"
      "atoi info = 0"
    | (red) "isRed m" "atoi info \<noteq> 0" "whiteCount m' = whiteCount m" "isRed m'"
      "tMin_le m' t" "\<And>x. tMin_le m x \<Longrightarrow> tMin_le m' x"
      "mySimulationManagerID m' = mySimulationManagerID m"
      "numberOfSimulationManagers m' = numberOfSimulationManagers m"
      "gVTTokenPending m' = gVTTokenPending m"
      "tokenIterationNumber (objectRecord m') = tokenIterationNumber (objectRecord m)"
      "tMin (objectRecord m') \<noteq> None"
proof (cases "color (objectRecord m)")
  case WHITE
  with assms that(1) show ?thesis by (auto simp: getGVTInfo_def Let_def)
next
  case RED
  with assms show ?thesis
    by (intro that(2)) (auto simp: getGVTInfo_def setMinTimeStamp_def tMin_le_def Let_def
        split: if_splits bind_splits option.splits)
qed

lemma updateEventRecord_fields:
  "isRed (updateEventRecord info m) = isRed m"
  "tMin (objectRecord (updateEventRecord info m)) = tMin (objectRecord m)"
  "mySimulationManagerID (updateEventRecord info m) = mySimulationManagerID m"
  "numberOfSimulationManagers (updateEventRecord info m) = numberOfSimulationManagers m"
  "gVTTokenPending (updateEventRecord info m) = gVTTokenPending m"
  "tokenIterationNumber (objectRecord (updateEventRecord info m)) = tokenIterationNumber (objectRecord m)"
  "tMin_le (updateEventRecord info m) x = tMin_le m x"
  by (simp_all add: updateEventRecord_def tMin_le_def Let_def)

lemma getGVTInfo_ids:
  assumes "getGVTInfo t m = Some (m', info)"
  shows "mySimulationManagerID m' = mySimulationManagerID m \<and>
    numberOfSimulationManagers m' = numberOfSimulationManagers m"
  using assms by (cases rule: getGVTInfo_cases) simp_all

lemma calculateGVT_ids:
  assumes "calculateGVT low m = Some (m', out, fc)"
  shows "mySimulationManagerID m' = mySimulationManagerID m \<and>
    numberOfSimulationManagers m' = numberOfSimulationManagers m"
  using assms by (auto simp: calculateGVT_def sendGVTToken_def Let_def split: if_splits)

lemma receiveKernelMessage_ids:
  assumes "receiveKernelMessage low msg m = Some (m', out, fc)"
  shows "mySimulationManagerID m' = mySimulationManagerID m \<and>
    numberOfSimulationManagers m' = numberOfSimulationManagers m"
  using assms
  by (auto simp: receiveKernelMessage_def receiveToken_def receiveUpdate_def sendGVTToken_def Let_def
      split: if_splits bind_splits gVTMessage.splits)

lemma shape_update_mgr:
  assumes "shape s" and "i < length (mgrs s)"
    and "mySimulationManagerID m = mySimulationManagerID (mgrs s ! i) \<and>
      numberOfSimulationManagers m = numberOfSimulationManagers (mgrs s ! i)"
    and "mgrs t = (mgrs s)[i := m]" and "length (pend t) = length (pend s)"
    and "\<forall>e \<in># net t. em_send e \<le> em_recv e" and "countedWhites t = int (whitesInTransit t)"
  shows "shape t"
proof -
  have "mySimulationManagerID (mgrs t ! k) = k \<and> numberOfSimulationManagers (mgrs t ! k) = length (mgrs s)"
    if "k < length (mgrs s)" for k
    using assms(1-4) that by (cases "k = i") (auto simp: shape_def)
  with assms show ?thesis by (simp add: shape_def)
qed

lemma gvt_step_shape:
  assumes "gvt_step s t" and "shape s"
  shows "shape t"
proof -
  note cons = gvt_step_conserves [OF assms(1) shape_countedD [OF assms(2)]]
  have net: "\<forall>e \<in># net s. em_send e \<le> em_recv e" using assms(2) by (simp add: shape_def)
  from assms(1) cons show ?thesis
  proof (cases rule: gvt_step.cases)
    case (s_send i x t r m info j)
    then show ?thesis
      using cons net by (intro shape_update_mgr [OF assms(2) _ getGVTInfo_ids]) auto
  next
    case (s_recv e i)
    then show ?thesis
      using cons net by (intro shape_update_mgr [OF assms(2), of i "updateEventRecord (em_info e) (mgrs s ! i)"])
        (auto simp: updateEventRecord_fields dest: in_diffD)
  next
    case (s_local i x ys)
    then show ?thesis
      using cons net by (intro shape_update_mgr [OF assms(2), of i "mgrs s ! i"]) auto
  next
    case (s_start m out fc)
    then show ?thesis
      using cons net by (intro shape_update_mgr [OF assms(2) _ calculateGVT_ids]) auto
  next
    case (s_control msg i m out fc)
    then show ?thesis
      using cons net by (intro shape_update_mgr [OF assms(2) _ receiveKernelMessage_ids]) auto
  qed
qed

lemma bounded_update:
  assumes "bounded s d T x" and "mgrs t = (mgrs s)[i := m]"
    and "\<And>x. tMin_le (mgrs s ! i) x \<Longrightarrow> tMin_le m x"
  shows "bounded t d T x"
proof (cases "T \<le> x")
  case False
  then obtain j where j: "j < length (mgrs s)" "\<not> visited d j" "tMin_le (mgrs s ! j) x"
    using assms(1) by (auto simp: bounded_def)
  then have "tMin_le (mgrs t ! j) x" using assms(2,3) by (cases "j = i") auto
  with j assms(2) show ?thesis by (auto simp: bounded_def)
qed (simp add: bounded_def)

lemma tMin_le_mono: "tMin_le m x \<Longrightarrow> x \<le> y \<Longrightarrow> tMin_le m y"
  by (auto simp: tMin_le_def split: option.splits)

lemma bounded_mono: "bounded s d T x \<Longrightarrow> x \<le> y \<Longrightarrow> bounded s d T y"
  unfolding bounded_def using tMin_le_mono order_trans by blast

text \<open>
  An event operation of one manager keeps its colour, lowers its minimal time stamp at most and, when
  red, never raises its count; what it adds is not before what was there.
\<close>

definition event_op ::
  "('t :: {linorder, order_top}) gvtSystem \<Rightarrow> 't gvtSystem \<Rightarrow> nat \<Rightarrow> 't matternGVTManager \<Rightarrow> 't list \<Rightarrow> bool" where
  "event_op s t i m ys \<longleftrightarrow>
     i < length (mgrs s) \<and> mgrs t = (mgrs s)[i := m] \<and> pend t = (pend s)[i := ys] \<and> ctl t = ctl s \<and>
     isRed m = isRed (mgrs s ! i) \<and> gVTTokenPending m = gVTTokenPending (mgrs s ! i) \<and>
     tokenIterationNumber (objectRecord m) = tokenIterationNumber (objectRecord (mgrs s ! i)) \<and>
     (isRed m \<longrightarrow> whiteCount m \<le> whiteCount (mgrs s ! i) \<and>
        (tMin (objectRecord (mgrs s ! i)) \<noteq> None \<longrightarrow> tMin (objectRecord m) \<noteq> None)) \<and>
     (\<forall>x. tMin_le (mgrs s ! i) x \<longrightarrow> tMin_le m x) \<and>
     (\<forall>e \<in># net t. \<not> whiteMsg e \<longrightarrow> e \<in># net s \<or>
        (isRed m \<and> tMin_le m (em_send e) \<and> (\<exists>x \<in> set (pend s ! i). x \<le> em_send e))) \<and>
     (\<forall>y \<in> set ys. (\<exists>x \<in> set (pend s ! i). x \<le> y) \<or>
        (\<exists>e \<in># net s. em_send e \<le> y \<and> (whiteMsg e \<longrightarrow> whiteCount m < whiteCount (mgrs s ! i))))"

lemma event_opD:
  assumes "event_op s t i m ys"
  shows "i < length (mgrs s)" "mgrs t = (mgrs s)[i := m]" "pend t = (pend s)[i := ys]" "ctl t = ctl s"
    "isRed m = isRed (mgrs s ! i)" "gVTTokenPending m = gVTTokenPending (mgrs s ! i)"
    "tokenIterationNumber (objectRecord m) = tokenIterationNumber (objectRecord (mgrs s ! i))"
    "isRed m \<Longrightarrow> whiteCount m \<le> whiteCount (mgrs s ! i)"
    "isRed m \<Longrightarrow> tMin (objectRecord (mgrs s ! i)) \<noteq> None \<Longrightarrow> tMin (objectRecord m) \<noteq> None"
    "\<And>x. tMin_le (mgrs s ! i) x \<Longrightarrow> tMin_le m x"
    "\<And>e. e \<in># net t \<Longrightarrow> \<not> whiteMsg e \<Longrightarrow> e \<in># net s \<or>
        (isRed m \<and> tMin_le m (em_send e) \<and> (\<exists>x \<in> set (pend s ! i). x \<le> em_send e))"
    "\<And>y. y \<in> set ys \<Longrightarrow> (\<exists>x \<in> set (pend s ! i). x \<le> y) \<or>
        (\<exists>e \<in># net s. em_send e \<le> y \<and> (whiteMsg e \<longrightarrow> whiteCount m < whiteCount (mgrs s ! i)))"
  using assms unfolding event_op_def by blast+

lemma event_op_nth:
  assumes "event_op s t i m ys" and "k < length (mgrs s)"
  shows "mgrs t ! k = (if k = i then m else mgrs s ! k)"
  using event_opD(2) [OF assms(1)] assms(2) by auto

lemma event_op_laterRound: "event_op s t i m ys \<Longrightarrow> laterRound t = laterRound s"
  using event_opD(1,2,7) [of s t i m ys] unfolding laterRound_def by (cases "i = 0") auto

lemma event_op_reds:
  assumes op: "event_op s t i m ys" and R: "reds_ok s"
  shows "reds_ok t"
proof -
  let ?n = "length (mgrs s)"
  note D = event_opD [OF op] and n = event_op_nth [OF op]
  have "tMin (objectRecord (mgrs t ! k)) \<noteq> None \<and> whiteCount (mgrs t ! k) \<le> 0"
    if "k < ?n" "isRed (mgrs t ! k)" for k
    using R n [OF that(1)] that D(5,8,9) by (fastforce simp: reds_ok_def split: if_splits)
  moreover have "\<exists>j < ?n. isRed (mgrs t ! j) \<and> tMin_le (mgrs t ! j) (em_send e)"
    if e: "e \<in># net t" "\<not> whiteMsg e" for e
  proof (cases "e \<in># net s")
    case True
    then obtain j where j: "j < ?n" "isRed (mgrs s ! j)" "tMin_le (mgrs s ! j) (em_send e)"
      using R e(2) by (auto simp: reds_ok_def)
    then show ?thesis using n [OF j(1)] D(5,10) by (intro exI [of _ j]) auto
  next
    case False
    then show ?thesis using D(11) [OF e] D(1) n by (intro exI [of _ i]) auto
  qed
  ultimately show ?thesis by (simp add: reds_ok_def D(2))
qed

text \<open>Within a later round, a time covered before the operation is covered after it.\<close>

lemma event_op_bounded:
  assumes op: "event_op s t i m ys" and L: "length (pend s) = length (mgrs s)"
    and B: "\<And>e. e \<in># net s \<Longrightarrow> \<not> whiteMsg e \<Longrightarrow> bounded s d T (em_send e)"
      "\<And>k x. k < length (mgrs s) \<Longrightarrow> visited d k \<Longrightarrow> x \<in> set (pend s ! k) \<Longrightarrow> bounded s d T x"
    and cnt: "visited d i \<Longrightarrow> whiteCount m = whiteCount (mgrs s ! i)"
  shows "e \<in># net t \<Longrightarrow> \<not> whiteMsg e \<Longrightarrow> bounded t d T (em_send e)"
    and "k < length (mgrs s) \<Longrightarrow> visited d k \<Longrightarrow> y \<in> set (pend t ! k) \<Longrightarrow> bounded t d T y"
proof -
  note D = event_opD [OF op]
  have up: "bounded t d T x" if "bounded s d T x" for x
    using bounded_update [OF that D(2,10)] by blast
  {
    assume e: "e \<in># net t" "\<not> whiteMsg e"
    show "bounded t d T (em_send e)"
    proof (cases "visited d i")
      case True
      then show ?thesis using D(11) [OF e] B e(2) D(1) up bounded_mono by blast
    next
      case False
      then have "bounded t d T (em_send e)" if "tMin_le m (em_send e)"
        using that D(1,2) event_op_nth [OF op D(1)] by (auto simp: bounded_def intro!: exI [of _ i])
      then show ?thesis using D(11) [OF e] B(1) e(2) up by blast
    qed
  next
    assume k: "k < length (mgrs s)" "visited d k" "y \<in> set (pend t ! k)"
    show "bounded t d T y"
    proof (cases "k = i")
      case True
      then have y: "y \<in> set ys" using k D(3) L by simp
      from D(12) [OF this] show ?thesis
        using B cnt k(1,2) True up bounded_mono by (metis less_irrefl)
    next
      case False
      then show ?thesis using B(2) k D(3) up by simp
    qed
  }
qed

lemma circulatingD:
  assumes "circulating s d l mi c"
  shows "shape s" "d < length (mgrs s)" "gVTTokenPending (mgrs s ! 0)"
    "\<And>i. i < length (mgrs s) \<Longrightarrow> visited d i \<or> laterRound s \<Longrightarrow> isRed (mgrs s ! i)"
    "reds_ok s" "round_ok s d (min l mi)" "length (pend s) = length (mgrs s)"
  using assms unfolding circulating_def shape_def by blast+

lemma circulating_event_op:
  assumes C: "circulating s d l mi c" and op: "event_op s t i m ys" and sh: "shape t"
  shows "circulating t d l mi c"
proof -
  let ?n = "length (mgrs s)" and ?T = "min l mi"
  note D = event_opD [OF op] and n = event_op_nth [OF op] and K = circulatingD [OF C]
  have len: "length (mgrs t) = ?n" using D(2) by simp
  have "round_ok t d ?T"
    unfolding round_ok_def len event_op_laterRound [OF op]
  proof (intro impI, elim conjE)
    assume L: "laterRound s" and z: "\<forall>k < ?n. visited d k \<longrightarrow> whiteCount (mgrs t ! k) = 0"
    have nonpos: "whiteCount (mgrs s ! k) \<le> 0" if "k < ?n" for k
      using K(4) [OF that] K(5) L that by (simp add: reds_ok_def)
    have cnt: "whiteCount (mgrs s ! i) = 0 \<and> whiteCount m = 0" if "visited d i"
      using z n [OF D(1)] D(1,5,8) nonpos [OF D(1)] K(4) [OF D(1)] that by force
    have "\<forall>k < ?n. visited d k \<longrightarrow> whiteCount (mgrs s ! k) = 0"
      using z n cnt by metis
    then have "\<And>e. e \<in># net s \<Longrightarrow> \<not> whiteMsg e \<Longrightarrow> bounded s d ?T (em_send e)"
      "\<And>k x. k < ?n \<Longrightarrow> visited d k \<Longrightarrow> x \<in> set (pend s ! k) \<Longrightarrow> bounded s d ?T x"
      using K(6) L by (auto simp: round_ok_def)
    from event_op_bounded [OF op K(7) this] cnt
    show "(\<forall>e \<in># net t. \<not> whiteMsg e \<longrightarrow> bounded t d ?T (em_send e)) \<and>
      (\<forall>k < ?n. visited d k \<longrightarrow> (\<forall>x \<in> set (pend t ! k). bounded t d ?T x))" by auto
  qed
  moreover have "gVTTokenPending (mgrs t ! 0)"
    using K(3) D(1,2,6) by (cases "i = 0") auto
  moreover have "isRed (mgrs t ! k)" if "k < ?n" "visited d k \<or> laterRound s" for k
    using K(4) [OF that] n [OF that(1)] D(5) by auto
  ultimately show ?thesis
    using C sh D(4) event_op_reds [OF op K(5)]
    unfolding circulating_def len event_op_laterRound [OF op] by auto
qed

lemma send_event_op:
  assumes "i < length (mgrs s)" "x \<in> set (pend s ! i)" "x \<le> t" "getGVTInfo t (mgrs s ! i) = Some (m, info)"
    and "em_info e = info" "em_send e = t"
  shows "event_op s (s\<lparr>mgrs := (mgrs s)[i := m], net := add_mset e (net s)\<rparr>) i m (pend s ! i)"
  using assms(4)
proof (cases rule: getGVTInfo_cases)
  case white
  then show ?thesis
    using assms unfolding event_op_def by (auto simp: tMin_le_def)
next
  case red
  then show ?thesis
    using assms unfolding event_op_def by auto
qed

lemma recv_event_op:
  assumes "e \<in># net s" and "em_dest e = i" and "i < length (mgrs s)" and "em_send e \<le> em_recv e"
  shows "event_op s (s\<lparr>mgrs := (mgrs s)[i := updateEventRecord (em_info e) (mgrs s ! i)],
       pend := (pend s)[i := em_recv e # pend s ! i], net := net s - {#e#}\<rparr>) i
       (updateEventRecord (em_info e) (mgrs s ! i)) (em_recv e # pend s ! i)"
proof -
  have "e' \<in># net s" if "e' \<in># net s - {#e#}" for e' using that by (rule in_diffD)
  then show ?thesis
    using assms unfolding event_op_def
    by (auto simp: updateEventRecord_fields updateEventRecord_count)
qed

lemma local_event_op:
  assumes "i < length (mgrs s)" and "x \<in> set (pend s ! i)"
    and "\<forall>y \<in> set ys. y \<in> set (pend s ! i) \<or> x \<le> y"
  shows "event_op s (s\<lparr>pend := (pend s)[i := ys]\<rparr>) i (mgrs s ! i) ys"
  using assms unfolding event_op_def by auto

subsection \<open>The token moves\<close>

lemma receiveToken_forward:
  assumes "receiveToken low l mi c m = Some (m', out, fc)"
    and "mySimulationManagerID m = 0 \<longrightarrow> isRed m \<and> gVTTokenPending m \<and> gVTTokenPending m'"
    and "isRed m \<longrightarrow> tMin (objectRecord m) \<noteq> None"
  shows "\<exists>t. isRed m' \<and> whiteCount m' = 0 \<and> tMin (objectRecord m') = Some t \<and>
    gVTTokenPending m' = gVTTokenPending m \<and>
    tokenIterationNumber (objectRecord m') = tokenIterationNumber (objectRecord m) + 1 \<and>
    (\<forall>x. isRed m \<longrightarrow> tMin_le m x \<longrightarrow> t \<le> x) \<and>
    out = [MatternGVTMessage (mySimulationManagerID m)
            (if mySimulationManagerID m \<noteq> numberOfSimulationManagers m - 1
             then mySimulationManagerID m + 1 else 0)
            (min l low) (min mi t) (whiteCount m + c)]"
proof (cases "color (objectRecord m)")
  case WHITE
  then show ?thesis
    using assms
    by (auto simp: receiveToken_def sendGVTToken_def resetMinTimeStamp_def Let_def split: if_splits)
next
  case RED
  then show ?thesis
    using assms
    by (auto simp: receiveToken_def sendGVTToken_def tMin_le_def Let_def
        split: if_splits bind_splits)
qed

text \<open>
  When the token leaves manager \<open>d\<close>, it covers the manager's pending times and red messages; the times covered by
  the managers after \<open>d\<close> stay covered.
\<close>

definition token_moves ::
  "('t :: {linorder, order_top}) gvtSystem \<Rightarrow> 't gvtSystem \<Rightarrow> nat \<Rightarrow> 't matternGVTManager \<Rightarrow> 't \<Rightarrow> bool" where
  "token_moves s t d m tm \<longleftrightarrow> d < length (mgrs s) \<and> 1 < length (mgrs s) \<and>
     mgrs t = (mgrs s)[d := m] \<and> pend t = pend s \<and> net t = net s \<and> isRed m \<and>
     whiteCount m = 0 \<and> tMin (objectRecord m) = Some tm \<and>
     gVTTokenPending m = gVTTokenPending (mgrs s ! d) \<and>
     (\<forall>x. isRed (mgrs s ! d) \<longrightarrow> tMin_le (mgrs s ! d) x \<longrightarrow> tm \<le> x)"

definition nextDest :: "'t gvtSystem \<Rightarrow> nat \<Rightarrow> nat" where
  "nextDest s d = (if d \<noteq> length (mgrs s) - 1 then d + 1 else 0)"

lemma visited_nextDest:
  "d < length (mgrs s) \<Longrightarrow> 1 < length (mgrs s) \<Longrightarrow> k < length (mgrs s) \<Longrightarrow>
   visited (nextDest s d) k \<longleftrightarrow> k \<le> d"
  unfolding nextDest_def visited_def by auto

lemma token_covers:
  assumes M: "token_moves s t d m tm" and T': "T' = min (min l (low_of (pend s ! d))) (min mi tm)"
  shows "x \<in> set (pend s ! d) \<Longrightarrow> bounded t (nextDest s d) T' x"
    and "j < length (mgrs s) \<Longrightarrow> isRed (mgrs s ! j) \<Longrightarrow> tMin_le (mgrs s ! j) x \<Longrightarrow> d \<le> j \<Longrightarrow>
      bounded t (nextDest s d) T' x"
proof -
  show "bounded t (nextDest s d) T' x" if "x \<in> set (pend s ! d)"
    using low_of_le [OF that] unfolding T' bounded_def by (simp add: min_le_iff_disj)
  assume j: "j < length (mgrs s)" "isRed (mgrs s ! j)" "tMin_le (mgrs s ! j) x" "d \<le> j"
  show "bounded t (nextDest s d) T' x"
  proof (cases "j = d")
    case True
    then have "tm \<le> x" using M j by (simp add: token_moves_def)
    then show ?thesis unfolding T' bounded_def by (simp add: min_le_iff_disj)
  next
    case False
    then show ?thesis
      using j M visited_nextDest [of d s j] by (auto simp: bounded_def token_moves_def intro!: exI [of _ j])
  qed
qed

lemma token_keeps:
  assumes C: "circulating s d l mi c" and M: "token_moves s t d m tm"
    and T': "T' = min (min l (low_of (pend s ! d))) (min mi tm)"
    and "laterRound s" and "d \<noteq> 0" and b: "bounded s d (min l mi) x"
  shows "bounded t (nextDest s d) T' x"
proof (cases "min l mi \<le> x")
  case True
  then show ?thesis unfolding T' bounded_def by (auto simp: min_le_iff_disj)
next
  case False
  then obtain j where "j < length (mgrs s)" "\<not> visited d j" "tMin_le (mgrs s ! j) x"
    using b by (auto simp: bounded_def)
  then show ?thesis
    using token_covers(2) [OF M T', of j x] circulatingD(4) [OF C, of j] assms(4) by (auto simp: visited_def)
qed

lemma token_round_ok:
  assumes C: "circulating s d l mi c" and M: "token_moves s t d m tm"
    and L: "d \<noteq> 0 \<Longrightarrow> laterRound t = laterRound s"
    and T': "T' = min (min l (low_of (pend s ! d))) (min mi tm)"
  shows "round_ok t (nextDest s d) T'"
proof (cases "d = 0")
  case True
  note K = circulatingD [OF C] and cov = token_covers [OF M T']
  have "isRed (mgrs s ! k)" if "k < length (mgrs s)" for k
    using K(4) [OF that] True by (simp add: visited_def)
  then have "bounded t (nextDest s d) T' (em_send e)" if "e \<in># net s" "\<not> whiteMsg e" for e
    using K(5) that cov(2) True by (auto simp: reds_ok_def)
  then show ?thesis
    using cov(1) visited_nextDest [of d s] True M unfolding round_ok_def token_moves_def by auto
next
  case False
  let ?n = "length (mgrs s)" and ?d' = "nextDest s d"
  have vis: "visited ?d' k \<longleftrightarrow> k \<le> d" if "k < ?n" for k
    using visited_nextDest [of d s k] M that by (simp add: token_moves_def)
  have t: "mgrs t = (mgrs s)[d := m]" "pend t = pend s" "net t = net s" using M by (simp_all add: token_moves_def)
  show ?thesis
    unfolding round_ok_def
  proof (intro impI, elim conjE)
    assume "laterRound t" and z: "\<forall>i < length (mgrs t). visited ?d' i \<longrightarrow> whiteCount (mgrs t ! i) = 0"
    then have L': "laterRound s" using L False by simp
    note keep = token_keeps [OF C M T' L' False]
    have "\<forall>i < ?n. visited d i \<longrightarrow> whiteCount (mgrs s ! i) = 0"
      using z vis False t(1) by (auto simp: visited_def)
    then have B: "\<And>e. e \<in># net s \<Longrightarrow> \<not> whiteMsg e \<Longrightarrow> bounded s d (min l mi) (em_send e)"
      "\<And>k x. k < ?n \<Longrightarrow> visited d k \<Longrightarrow> x \<in> set (pend s ! k) \<Longrightarrow> bounded s d (min l mi) x"
      using circulatingD(6) [OF C] L' by (auto simp: round_ok_def)
    have "bounded t ?d' T' x" if "k < ?n" "visited ?d' k" "x \<in> set (pend s ! k)" for k x
      using token_covers(1) [OF M T'] keep B(2) that vis by (cases "k = d") (auto simp: visited_def)
    with B(1) keep show "(\<forall>e \<in># net t. \<not> whiteMsg e \<longrightarrow> bounded t ?d' T' (em_send e)) \<and>
      (\<forall>i < length (mgrs t). visited ?d' i \<longrightarrow> (\<forall>x \<in> set (pend t ! i). bounded t ?d' T' x))"
      using t by auto
  qed
qed

lemma token_reds_ok:
  assumes R: "reds_ok s" and M: "token_moves s t d m tm"
  shows "reds_ok t"
proof -
  let ?n = "length (mgrs s)"
  have t: "mgrs t = (mgrs s)[d := m]" "net t = net s" and d: "d < ?n"
    and m: "isRed m" "whiteCount m = 0" "tMin (objectRecord m) = Some tm"
    using M by (simp_all add: token_moves_def)
  have "tMin (objectRecord (mgrs t ! k)) \<noteq> None \<and> whiteCount (mgrs t ! k) \<le> 0"
    if "k < ?n" "isRed (mgrs t ! k)" for k
    using R t(1) d m that by (cases "k = d") (auto simp: reds_ok_def)
  moreover have "\<exists>j < ?n. isRed (mgrs t ! j) \<and> tMin_le (mgrs t ! j) (em_send e)"
    if e: "e \<in># net s" "\<not> whiteMsg e" for e
  proof -
    obtain j where j: "j < ?n" "isRed (mgrs s ! j)" "tMin_le (mgrs s ! j) (em_send e)"
      using R e by (auto simp: reds_ok_def)
    have "tm \<le> em_send e" if "j = d" using M j that by (simp add: token_moves_def)
    then show ?thesis
      using j t(1) d m by (cases "j = d") (auto simp: tMin_le_def intro!: exI [of _ j])
  qed
  ultimately show ?thesis by (simp add: reds_ok_def t)
qed

lemma circulating_token_moves:
  assumes C: "circulating s d l mi c" and M: "token_moves s t d m tm" and sh: "shape t"
    and L: "tokenIterationNumber (objectRecord m) = tokenIterationNumber (objectRecord (mgrs s ! d)) + 1"
    and ctl: "ctl t = {#MatternGVTMessage d (nextDest s d) (min l (low_of (pend s ! d))) (min mi tm) c'#}"
  shows "circulating t (nextDest s d) (min l (low_of (pend s ! d))) (min mi tm) c'"
proof -
  let ?n = "length (mgrs s)" and ?d' = "nextDest s d"
  note K = circulatingD [OF C]
  have t: "mgrs t = (mgrs s)[d := m]" and m: "isRed m" "gVTTokenPending m = gVTTokenPending (mgrs s ! d)"
    and n: "1 < ?n" "length (mgrs t) = ?n"
    using M by (simp_all add: token_moves_def)
  have L0: "laterRound t = laterRound s" if "d \<noteq> 0"
    using that t unfolding laterRound_def by simp
  have "isRed (mgrs t ! k)" if "k < ?n" "visited ?d' k \<or> laterRound t" for k
  proof (cases "k = d")
    case False
    then have "visited d k \<or> laterRound s"
      using that L0 visited_nextDest [OF K(2) n(1) that(1)] by (auto simp: visited_def)
    with K(4) [OF that(1)] False t show ?thesis by simp
  qed (use K(2) t m in simp)
  moreover have "gVTTokenPending (mgrs t ! 0)"
    using K(2,3) t m n by (cases "d = 0") auto
  moreover have "?d' < ?n" using K(2) n unfolding nextDest_def by auto
  ultimately show ?thesis
    using sh ctl token_reds_ok [OF K(5) M] token_round_ok [OF C M L0 refl] n
    unfolding circulating_def by auto
qed

subsection \<open>Runs up to the commit\<close>

definition isToken :: "'t gVTMessage \<Rightarrow> bool" where
  "isToken msg = (case msg of MatternGVTMessage _ _ _ _ _ \<Rightarrow> True | GVTUpdateMessage _ _ _ \<Rightarrow> False)"

text \<open>
  An estimation runs from a quiet state (all managers white, no red message and no control message in transit) until
  the initiator sends updates.
\<close>

inductive estimating :: "('t :: {linorder, order_top}) gvtSystem \<Rightarrow> bool" where
  est_quiet: "quiet s \<Longrightarrow> estimating s"
| est_step: "estimating s \<Longrightarrow> gvt_step s t \<Longrightarrow> \<forall>msg \<in># ctl t. isToken msg \<Longrightarrow> estimating t"

lemma calculateGVT_start:
  assumes "calculateGVT low m = Some (m', out, fc)" and "\<not> gVTTokenPending m"
    and "1 < numberOfSimulationManagers m" and "mySimulationManagerID m = 0"
  shows "isRed m' \<and> whiteCount m' = 0 \<and> tMin (objectRecord m') = Some top \<and> gVTTokenPending m' \<and>
    tokenIterationNumber (objectRecord m') = tokenIterationNumber (objectRecord m) + 1 \<and>
    out = [MatternGVTMessage 0 1 low top (whiteCount m)]"
  using assms
  by (auto simp: calculateGVT_def sendGVTToken_def resetMinTimeStamp_def Let_def split: if_splits)

lemma quiet_start:
  assumes Q: "quiet s" and calc: "calculateGVT (low_of (pend s ! 0)) (mgrs s ! 0) = Some (m, out, fc)"
    and t: "t = s\<lparr>mgrs := (mgrs s)[0 := m], ctl := ctl s + mset out\<rparr>" and sh: "shape t"
  shows "\<exists>l mi c. circulating t 1 l mi c"
proof -
  have n: "1 < length (mgrs s)" and z: "numberOfSimulationManagers (mgrs s ! 0) = length (mgrs s)"
    "mySimulationManagerID (mgrs s ! 0) = 0" "\<not> gVTTokenPending (mgrs s ! 0)"
    "tokenIterationNumber (objectRecord (mgrs s ! 0)) = 0"
    and w: "\<forall>e \<in># net s. whiteMsg e" "\<forall>i < length (mgrs s). \<not> isRed (mgrs s ! i)" "ctl s = {#}"
    using Q shapeD [of s] unfolding quiet_def by auto
  note m = calculateGVT_start [OF calc z(3) _ z(2)]
  have m0: "mgrs t ! 0 = m" "length (mgrs t) = length (mgrs s)" "net t = net s"
    using t n by (auto intro: nth_list_update_eq)
  have mk: "mgrs t ! k = mgrs s ! k" if "k \<noteq> 0" for k
    using t that by simp
  have L: "\<not> laterRound t" using m z n m0(1) unfolding laterRound_def by simp
  have "reds_ok t"
    unfolding reds_ok_def
  proof (intro conjI allI ballI impI)
    fix i assume "i < length (mgrs t)" "isRed (mgrs t ! i)"
    then show "tMin (objectRecord (mgrs t ! i)) \<noteq> None" "whiteCount (mgrs t ! i) \<le> 0"
      using w(2) m m0 mk n z(1) by (cases "i = 0"; force)+
  qed (use w(1) m0 in auto)
  moreover have "isRed (mgrs t ! i)" if "visited 1 i \<or> laterRound t" for i
    using that L m m0 n z(1) by (auto simp: visited_def)
  ultimately show ?thesis
    using m n z(1) w(3) t sh L m0 unfolding circulating_def round_ok_def by fastforce
qed

lemma receiveToken_keeps_pending:
  assumes "receiveToken low l mi c m = Some (m', out, fc)" and "mySimulationManagerID m = 0"
    and "1 < numberOfSimulationManagers m" and "gVTTokenPending m" and "\<forall>msg \<in> set out. isToken msg"
  shows "gVTTokenPending m'"
proof (rule ccontr)
  assume "\<not> gVTTokenPending m'"
  then have "out = sendGVTUpdate m'" "mySimulationManagerID m' = 0"
    "numberOfSimulationManagers m' = numberOfSimulationManagers m"
    using assms(1,2,4)
    by (auto simp: receiveToken_def sendGVTToken_def Let_def split: if_splits bind_splits)
  then have "GVTUpdateMessage 0 1 (gVT m') \<in> set out"
    using assms(3) by (auto simp: sendGVTUpdate_def)
  with assms(5) show False by (auto simp: isToken_def)
qed

lemma circulating_control:
  assumes C: "circulating s d l mi c" and ctl: "ctl s = {#MatternGVTMessage src d l mi c#}"
    and r: "receiveKernelMessage (low_of (pend s ! d)) (MatternGVTMessage src d l mi c) (mgrs s ! d) = Some (m, out, fc)"
    and t: "t = s\<lparr>mgrs := (mgrs s)[d := m], ctl := mset out\<rparr>" and sh: "shape t"
    and tok: "\<forall>msg \<in> set out. isToken msg"
  shows "\<exists>d' l' mi' c'. circulating t d' l' mi' c'"
proof -
  note K = circulatingD [OF C]
  have id: "mySimulationManagerID (mgrs s ! d) = d" "numberOfSimulationManagers (mgrs s ! d) = length (mgrs s)"
    and n: "1 < length (mgrs s)"
    using K(1,2) by (auto simp: shape_def)
  have r': "receiveToken (low_of (pend s ! d)) l mi c (mgrs s ! d) = Some (m, out, fc)"
    using r by (simp add: receiveKernelMessage_def)
  have "d = 0 \<longrightarrow> isRed (mgrs s ! d) \<and> gVTTokenPending (mgrs s ! d) \<and> gVTTokenPending m"
    using receiveToken_keeps_pending [OF r'] K(2,3,4) id n tok by (auto simp: visited_def)
  moreover have "isRed (mgrs s ! d) \<longrightarrow> tMin (objectRecord (mgrs s ! d)) \<noteq> None"
    using K(2,5) by (simp add: reds_ok_def)
  ultimately obtain tm where m: "isRed m" "whiteCount m = 0" "tMin (objectRecord m) = Some tm"
      "gVTTokenPending m = gVTTokenPending (mgrs s ! d)"
      "tokenIterationNumber (objectRecord m) = tokenIterationNumber (objectRecord (mgrs s ! d)) + 1"
      "\<forall>x. isRed (mgrs s ! d) \<longrightarrow> tMin_le (mgrs s ! d) x \<longrightarrow> tm \<le> x"
    and out: "out = [MatternGVTMessage d (nextDest s d) (min l (low_of (pend s ! d))) (min mi tm)
        (whiteCount (mgrs s ! d) + c)]"
    using receiveToken_forward [OF r'] unfolding id nextDest_def by blast
  have "token_moves s t d m tm" using m K(2) n t by (simp add: token_moves_def)
  from circulating_token_moves [OF C this sh m(5)] show ?thesis using t out by auto
qed

lemma quiet_event_op:
  assumes Q: "quiet s" and op: "event_op s t i m ys" and sh: "shape t"
  shows "quiet t"
proof -
  note D = event_opD [OF op] and n = event_op_nth [OF op]
  have q: "\<forall>e \<in># net s. whiteMsg e" "\<forall>i < length (mgrs s). \<not> isRed (mgrs s ! i)" "ctl s = {#}"
    "\<not> gVTTokenPending (mgrs s ! 0)" "tokenIterationNumber (objectRecord (mgrs s ! 0)) = 0"
    using Q unfolding quiet_def by auto
  have "\<forall>e \<in># net t. whiteMsg e" using D(1,5,11) q(1,2) by auto
  moreover have "\<forall>k < length (mgrs t). \<not> isRed (mgrs t ! k)" using D(1,2,5) q(2) by (auto simp: nth_list_update)
  moreover have "\<not> gVTTokenPending (mgrs t ! 0) \<and> tokenIterationNumber (objectRecord (mgrs t ! 0)) = 0"
    using D(1,2,6,7) q(4,5) by (cases "i = 0") auto
  ultimately show ?thesis using sh q(3) D(4) by (simp add: quiet_def)
qed

lemma event_step_cases:
  assumes "gvt_step s t" and "shape s"
  obtains (event) i m ys where "event_op s t i m ys"
    | (start) m out fc where "calculateGVT (low_of (pend s ! 0)) (mgrs s ! 0) = Some (m, out, fc)"
        "t = s\<lparr>mgrs := (mgrs s)[0 := m], ctl := ctl s + mset out\<rparr>"
    | (control) msg i m out fc where "msg \<in># ctl s" "msgDest msg = i" "i < length (mgrs s)"
        "receiveKernelMessage (low_of (pend s ! i)) msg (mgrs s ! i) = Some (m, out, fc)"
        "t = s\<lparr>mgrs := (mgrs s)[i := m], ctl := ctl s - {#msg#} + mset out\<rparr>"
  using assms(1)
proof (cases rule: gvt_step.cases)
  case (s_send i x t' r m info j)
  let ?e = "\<lparr>em_dest = j, em_info = info, em_send = t', em_recv = r\<rparr>"
  show ?thesis using event send_event_op [OF s_send(2,3,4,6), of ?e] s_send(1) by simp
next
  case (s_recv e i)
  then show ?thesis using event recv_event_op [of e s i] assms(2) by (auto simp: shape_def)
next
  case (s_local i x ys)
  then show ?thesis using event local_event_op [of i s x ys] by auto
qed (use start control in blast)+

lemma estimating_inv:
  "estimating s \<Longrightarrow> quiet s \<or> (\<exists>d l mi c. circulating s d l mi c)"
proof (induction rule: estimating.induct)
  case (est_step s t)
  have sh: "shape s" using est_step.IH by (auto simp: quiet_def circulating_def)
  note sht = gvt_step_shape [OF est_step.hyps(2) sh]
  from est_step.hyps(2) sh show ?case
  proof (cases rule: event_step_cases)
    case (event i m ys)
    then show ?thesis
      using est_step.IH quiet_event_op circulating_event_op sht by metis
  next
    case (start m out fc)
    show ?thesis
      using est_step.IH
    proof (elim disjE exE)
      assume "quiet s"
      then show ?thesis using quiet_start [OF _ start sht] by blast
    next
      fix d l mi c assume C: "circulating s d l mi c"
      then have "m = mgrs s ! 0 \<and> out = []"
        using start(1) circulatingD(3) [OF C] shapeD [OF sh]
        by (auto simp: calculateGVT_def split: if_splits)
      then have "t = s" using start(2) by (simp add: list_update_id)
      with C show ?thesis by blast
    qed
  next
    case (control msg i m out fc)
    then obtain d l mi c src where C: "circulating s d l mi c"
      and ctl: "ctl s = {#MatternGVTMessage src d l mi c#}"
      using est_step.IH unfolding quiet_def circulating_def by fastforce
    have "msg = MatternGVTMessage src d l mi c" "i = d" "t = s\<lparr>mgrs := (mgrs s)[d := m], ctl := mset out\<rparr>"
      using control ctl by auto
    then show ?thesis
      using circulating_control [OF C ctl] control(4) sht est_step.hyps(3) by auto
  qed
qed simp

subsection \<open>The commit\<close>

lemma nonpos_sum_zero:
  "\<forall>x \<in> set xs. x \<le> 0 \<Longrightarrow> 0 \<le> sum_list xs \<Longrightarrow> \<forall>x \<in> set xs. x = (0 :: int)"
proof (induction xs)
  case (Cons a xs)
  have "sum_list xs \<le> 0" using Cons.prems(1) sum_list_nonpos [of xs] by simp
  with Cons show ?case by auto
qed simp

lemma all_zero_sum: "\<forall>x \<in> set xs. x = 0 \<Longrightarrow> sum_list xs = (0 :: int)"
  by (induction xs) auto

lemma commit_counts:
  assumes C: "circulating s 0 l mi c" and z: "whiteCount (mgrs s ! 0) + c = 0"
  shows "whitesInTransit s = 0" "\<forall>i < length (mgrs s). i \<noteq> 0 \<longrightarrow> whiteCount (mgrs s ! i) = 0"
proof -
  note K = circulatingD [OF C]
  obtain m ms where ms: "mgrs s = m # ms" using shapeD(2) [OF K(1)] by (cases "mgrs s") auto
  have np: "\<forall>x \<in> set (map whiteCount ms). x \<le> 0"
  proof
    fix x assume "x \<in> set (map whiteCount ms)"
    then obtain k where k: "k < length ms" "x = whiteCount (mgrs s ! Suc k)"
      by (auto simp: in_set_conv_nth ms)
    then show "x \<le> 0"
      using K(4) [of "Suc k"] K(5) by (auto simp: ms visited_def reds_ok_def)
  qed
  obtain src where "ctl s = {#MatternGVTMessage src 0 l mi c#}" using C by (auto simp: circulating_def)
  then have sum: "sum_list (map whiteCount ms) = int (whitesInTransit s)"
    using shape_countedD [OF K(1)] z by (simp add: countedWhites_def ms tokenCount_def)
  then have zero: "\<forall>x \<in> set (map whiteCount ms). x = 0" using nonpos_sum_zero [OF np] by simp
  then have "sum_list (map whiteCount ms) = 0" by (rule all_zero_sum)
  with sum show "whitesInTransit s = 0" by simp
  show "\<forall>i < length (mgrs s). i \<noteq> 0 \<longrightarrow> whiteCount (mgrs s ! i) = 0"
  proof (intro allI impI)
    fix i assume "i < length (mgrs s)" "i \<noteq> 0"
    then show "whiteCount (mgrs s ! i) = 0" using zero by (cases i) (auto simp: ms)
  qed
qed

text \<open>The initiator commits: no estimation is pending any more.\<close>

definition commits ::
  "('t :: {linorder, order_top}) gvtSystem \<Rightarrow> 't \<Rightarrow> bool" where
  "commits s g \<longleftrightarrow> (\<exists>msg m out fc. msg \<in># ctl s \<and> msgDest msg = 0 \<and> isToken msg \<and>
     receiveKernelMessage (low_of (pend s ! 0)) msg (mgrs s ! 0) = Some (m, out, fc) \<and>
     \<not> gVTTokenPending m \<and> g = gVT m)"

lemma estimating_commit:
  assumes "estimating s" and "commits s g"
  obtains l mi c where "circulating s 0 l mi c" "g = min l mi" "whiteCount (mgrs s ! 0) + c = 0"
    "laterRound s"
proof -
  obtain msg m out fc where msg: "msg \<in># ctl s" "msgDest msg = 0"
    and r: "receiveKernelMessage (low_of (pend s ! 0)) msg (mgrs s ! 0) = Some (m, out, fc)"
    and m: "\<not> gVTTokenPending m" "g = gVT m"
    using assms(2) by (auto simp: commits_def)
  obtain d l mi c src where C: "circulating s d l mi c" and ctl: "ctl s = {#MatternGVTMessage src d l mi c#}"
    using estimating_inv [OF assms(1)] msg(1) unfolding quiet_def circulating_def by fastforce
  have d: "d = 0" and msg': "msg = MatternGVTMessage src d l mi c" using msg ctl by auto
  note K = circulatingD [OF C] and S = shapeD [OF circulatingD(1) [OF C]]
  have "g = min l mi \<and> whiteCount (mgrs s ! 0) + c = 0 \<and> tokenIterationNumber (objectRecord (mgrs s ! 0)) > 1"
    using r m K(3) S(2,4) unfolding msg' d
    by (auto simp: receiveKernelMessage_def receiveToken_def sendGVTToken_def Let_def
        split: if_splits bind_splits)
  then show thesis using that C d by (auto simp: laterRound_def)
qed

subsection \<open>Executable runs\<close>

datatype 't action =
  Send nat nat 't 't | Recv "'t eventMsg" | Local nat 't "'t list" | Start | Control "'t gVTMessage"

definition gvt_exec :: "('t :: {linorder, order_top}) action \<Rightarrow> 't gvtSystem \<Rightarrow> 't gvtSystem option" where
  "gvt_exec a s =
     (case a of
        Send i j t r \<Rightarrow>
          if i < length (mgrs s) \<and> list_ex (\<lambda>x. x \<le> t) (pend s ! i) \<and> t \<le> r then do {
            (m, info) \<leftarrow> getGVTInfo t (mgrs s ! i);
            Some (s\<lparr>mgrs := (mgrs s)[i := m],
              net := add_mset \<lparr>em_dest = j, em_info = info, em_send = t, em_recv = r\<rparr> (net s)\<rparr>) }
          else None
      | Recv e \<Rightarrow>
          if e \<in># net s \<and> em_dest e < length (mgrs s) then
            Some (s\<lparr>mgrs := (mgrs s)[em_dest e := updateEventRecord (em_info e) (mgrs s ! em_dest e)],
              pend := (pend s)[em_dest e := em_recv e # pend s ! em_dest e], net := net s - {#e#}\<rparr>)
          else None
      | Local i x ys \<Rightarrow>
          if i < length (mgrs s) \<and> x \<in> set (pend s ! i) \<and>
             list_all (\<lambda>y. y \<in> set (pend s ! i) \<or> x \<le> y) ys
          then Some (s\<lparr>pend := (pend s)[i := ys]\<rparr>) else None
      | Start \<Rightarrow>
          if 0 < length (mgrs s) then do {
            (m, out, fc) \<leftarrow> calculateGVT (low_of (pend s ! 0)) (mgrs s ! 0);
            Some (s\<lparr>mgrs := (mgrs s)[0 := m], ctl := ctl s + mset out\<rparr>) }
          else None
      | Control msg \<Rightarrow>
          if msg \<in># ctl s \<and> msgDest msg < length (mgrs s) then do {
            (m, out, fc) \<leftarrow> receiveKernelMessage (low_of (pend s ! msgDest msg)) msg (mgrs s ! msgDest msg);
            Some (s\<lparr>mgrs := (mgrs s)[msgDest msg := m], ctl := ctl s - {#msg#} + mset out\<rparr>) }
          else None)"

lemma gvt_exec_step:
  assumes "gvt_exec a s = Some t"
  shows "gvt_step s t"
proof (cases a)
  case (Control msg)
  with assms obtain m out fc where c: "msg \<in># ctl s" "msgDest msg < length (mgrs s)"
    "receiveKernelMessage (low_of (pend s ! msgDest msg)) msg (mgrs s ! msgDest msg) = Some (m, out, fc)"
    and t: "t = s\<lparr>mgrs := (mgrs s)[msgDest msg := m], ctl := ctl s - {#msg#} + mset out\<rparr>"
    by (auto simp: gvt_exec_def split: if_splits bind_splits)
  show ?thesis unfolding t by (rule s_control [OF c(1) refl c(2,3)])
qed (use assms in \<open>auto simp: gvt_exec_def list_ex_iff list_all_iff intro!: gvt_step.intros
      split: if_splits bind_splits\<close>)

fun gvt_run :: "('t :: {linorder, order_top}) action list \<Rightarrow> 't gvtSystem \<Rightarrow> 't gvtSystem option" where
  "gvt_run [] s = Some s"
| "gvt_run (a # as) s = do { t \<leftarrow> gvt_exec a s; gvt_run as t }"

fun gvt_est :: "('t :: {linorder, order_top}) action list \<Rightarrow> 't gvtSystem \<Rightarrow> 't gvtSystem option" where
  "gvt_est [] s = Some s"
| "gvt_est (a # as) s = do {
     t \<leftarrow> gvt_exec a s;
     if (\<forall>msg \<in># ctl t. isToken msg) then gvt_est as t else None }"

lemma gvt_run_reachable: "gvt_run as s = Some t \<Longrightarrow> gvt_reachable s \<Longrightarrow> gvt_reachable t"
proof (induction as arbitrary: s)
  case (Cons a as)
  then show ?case using gvt_next gvt_exec_step by (fastforce split: bind_splits)
qed simp

lemma gvt_est_estimating: "gvt_est as s = Some t \<Longrightarrow> estimating s \<Longrightarrow> estimating t"
proof (induction as arbitrary: s)
  case (Cons a as)
  then obtain u where u: "gvt_exec a s = Some u" "\<forall>msg \<in># ctl u. isToken msg" "gvt_est as u = Some t"
    by (auto split: bind_splits if_splits)
  from est_step [OF Cons.prems(2) gvt_exec_step [OF u(1)] u(2)] Cons.IH [OF u(3)] show ?case by blast
qed simp

lemma initialSystem_quiet:
  assumes "1 < length pending"
  shows "quiet (initialSystem period pending)"
proof -
  let ?s = "initialSystem period pending"
  have m: "mgrs ?s ! i = MatternGVTManager i (length pending) period" if "i < length pending" for i
    using that by (simp add: initialSystem_def)
  have "length (mgrs ?s) = length pending" "pend ?s = pending" "net ?s = {#}" "ctl ?s = {#}"
    by (simp_all add: initialSystem_def)
  moreover have "mgrs ?s ! 0 = MatternGVTManager 0 (length pending) period" using assms by (intro m) auto
  ultimately show ?thesis
    using assms m initialSystem_conserves [of period pending]
    by (simp add: quiet_def shape_def MatternGVTManager_def MatternObjectRecord_def)
qed

end
