(* ===== verification/GVTProperties.thy ===== *)
theory GVTProperties
  imports GVTSystem
begin

text \<open>
  What the committed value of the token guarantees, and the case in which it guarantees nothing.
\<close>

definition noEvents :: "intvtime gvtSystem" where
  "noEvents = initialSystem 100 [[IntVTime 10], [IntVTime 4, IntVTime 100], [IntVTime 100]]"

text \<open>One message of manager 1 to manager 0, sent before the token reaches manager 1.\<close>

definition lateMsg :: "intvtime eventMsg" where
  "lateMsg = \<lparr>em_dest = 0, em_info = ''0'', em_send = IntVTime 4, em_recv = IntVTime 5\<rparr>"

definition firstRound :: "intvtime action list" where
  "firstRound = [Start, Send 1 0 (IntVTime 4) (IntVTime 5), Local 1 (IntVTime 4) [IntVTime 100],
     Control (MatternGVTMessage 0 1 (IntVTime 10) top 0),
     Control (MatternGVTMessage 1 2 (IntVTime 10) top 1)]"

definition lateRun :: "intvtime action list" where
  "lateRun = firstRound @ [Control (MatternGVTMessage 2 0 (IntVTime 10) top 1), Recv lateMsg,
     Control (MatternGVTMessage 0 1 (IntVTime 10) top 1),
     Control (MatternGVTMessage 1 2 (IntVTime 10) top 1)]"

definition goodRun :: "intvtime action list" where
  "goodRun = firstRound @ [Recv lateMsg, Control (MatternGVTMessage 2 0 (IntVTime 10) top 1),
     Control (MatternGVTMessage 0 1 (IntVTime 5) top 0),
     Control (MatternGVTMessage 1 2 (IntVTime 5) top 0)]"

lemma noEvents_quiet: "quiet noEvents"
  unfolding noEvents_def by (rule initialSystem_quiet) simp

definition goodState :: "intvtime gvtSystem" where "goodState = the (gvt_est goodRun noEvents)"
definition lateState :: "intvtime gvtSystem" where "lateState = the (gvt_est lateRun noEvents)"

lemma goodState_estimating: "estimating goodState"
proof -
  have "gvt_est goodRun noEvents \<noteq> None" by code_simp
  then have "gvt_est goodRun noEvents = Some goodState" by (auto simp: goodState_def)
  then show ?thesis using gvt_est_estimating est_quiet [OF noEvents_quiet] by blast
qed

lemma lateState_estimating: "estimating lateState"
proof -
  have "gvt_est lateRun noEvents \<noteq> None" by code_simp
  then have "gvt_est lateRun noEvents = Some lateState" by (auto simp: lateState_def)
  then show ?thesis using gvt_est_estimating est_quiet [OF noEvents_quiet] by blast
qed

lemma commitsI:
  assumes "MatternGVTMessage src 0 l mi c \<in># ctl s"
    and "map_option (\<lambda>(m, out, fc). (gVTTokenPending m, gVT m))
      (receiveKernelMessage (low_of (pend s ! 0)) (MatternGVTMessage src 0 l mi c) (mgrs s ! 0)) =
      Some (False, g)"
  shows "commits s g"
  using assms unfolding commits_def isToken_def by fastforce

lemma goodState_commits: "commits goodState (IntVTime 5)"
  by (rule commitsI [of 2 "IntVTime 5" top 0]; code_simp)

lemma lateState_commits: "commits lateState (IntVTime 10)"
  by (rule commitsI [of 2 "IntVTime 10" top 1]; code_simp)

text \<open>C32: conservation: in every state the managers can reach, whatever the order of deliveries, the white message counts of all
  managers and of the tokens in transit add up to the number of white event messages in transit.\<close>

theorem white_count_conserved:
  assumes "gvt_reachable s"
  shows "sum_list (map (\<lambda>m. numberOfWhiteMessages (objectRecord m)) (mgrs s)) +
    sum_mset (image_mset tokenCount (ctl s)) = int (size {#e \<in># net s. atoi (em_info e) = 0#})"
  using gvt_reachable_conserves [OF assms] by (simp add: countedWhites_def whitesInTransit_def)

theorem white_count_conserved_witness:
  "sum_list (map (\<lambda>m. numberOfWhiteMessages (objectRecord m)) (mgrs lateState)) +
    sum_mset (image_mset tokenCount (ctl lateState)) = 0"
proof -
  have "gvt_run lateRun noEvents = Some lateState" by code_simp
  then have "gvt_reachable lateState"
    using gvt_run_reachable gvt_init unfolding noEvents_def by blast
  moreover have "net lateState = {#}" by code_simp
  ultimately show ?thesis using white_count_conserved [of lateState] by simp
qed

text \<open>When the initiator commits a GVT value, no event message sent before the token's first visit is still in
  transit, and no other manager received one after the token left it.\<close>

theorem gvt_commit_no_white_in_transit:
  fixes s :: "('t :: {linorder, order_top}) gvtSystem"
  assumes "estimating s" and "commits s g"
  shows "(\<forall>e \<in># net s. atoi (em_info e) \<noteq> 0) \<and>
    (\<forall>i. 0 < i \<and> i < length (mgrs s) \<longrightarrow> numberOfWhiteMessages (objectRecord (mgrs s ! i)) = 0)"
proof -
  obtain l mi c where "circulating s 0 l mi c" "whiteCount (mgrs s ! 0) + c = 0"
    using estimating_commit [OF assms] by metis
  from commit_counts [OF this] show ?thesis
    by (auto simp: whitesInTransit_def filter_mset_eq_conv) 
qed

theorem gvt_commit_no_white_in_transit_witness:
  "estimating goodState \<and> numberOfWhiteMessages (objectRecord (mgrs goodState ! 1)) = 0"
proof -
  have "(1 :: nat) < length (mgrs goodState)" by code_simp
  with gvt_commit_no_white_in_transit [OF goodState_estimating goodState_commits] goodState_estimating
  show ?thesis by simp
qed



text \<open>C36: the initiator's own white messages are the exception: with three managers and a message that the token overtakes,
  the initiator commits a GVT of 10 while it holds an unprocessed event at 5. The message arrives after the
  last round started, its count is settled by the initiator, and its time is in no token.\<close>

theorem gvt_commit_overtaken_message:
  "estimating lateState \<and> commits lateState (IntVTime 10) \<and>
   IntVTime 5 \<in> set (pend lateState ! 0) \<and> IntVTime 5 < IntVTime 10 \<and>
   numberOfWhiteMessages (objectRecord (mgrs lateState ! 0)) = - 1"
proof -
  have "IntVTime 5 \<in> set (pend lateState ! 0) \<and> IntVTime 5 < IntVTime 10 \<and>
    numberOfWhiteMessages (objectRecord (mgrs lateState ! 0)) = - 1" by code_simp
  with lateState_estimating lateState_commits show ?thesis by blast
qed

text \<open>The estimation ends: in a later round, when no white message is in transit and no manager but the initiator
  received one since the token left it, the token's return to the initiator commits, provided the new
  value is not below the current GVT.\<close>

theorem gvt_commit_when_settled:
  fixes s :: "('t :: {linorder, order_top}) gvtSystem"
  assumes "estimating s" and "ctl s = {#MatternGVTMessage src 0 l mi c#}"
    and "1 < tokenIterationNumber (objectRecord (mgrs s ! 0))"
    and "\<forall>e \<in># net s. atoi (em_info e) \<noteq> 0"
    and "\<forall>i. 0 < i \<and> i < length (mgrs s) \<longrightarrow> numberOfWhiteMessages (objectRecord (mgrs s ! i)) = 0"
    and "gVT (mgrs s ! 0) \<le> min l mi"
  shows "commits s (min l mi)"
proof -
  have C: "circulating s 0 l mi c"
    using estimating_inv [OF assms(1)] assms(2) by (auto simp: quiet_def circulating_def)
  note K = circulatingD [OF C] and S = shapeD [OF circulatingD(1) [OF C]]
  obtain m ms where ms: "mgrs s = m # ms" using S(2) by (cases "mgrs s") auto
  have "whiteCount x = 0" if "x \<in> set ms" for x
    using that assms(5) by (metis Suc_less_eq in_set_conv_nth length_Cons ms nth_Cons_Suc zero_less_Suc)
  then have "sum_list (map whiteCount ms) = 0" by (intro all_zero_sum) auto
  moreover have "whitesInTransit s = 0" using assms(4) by (simp add: whitesInTransit_def filter_mset_eq_conv)
  ultimately have z: "whiteCount (mgrs s ! 0) + c = 0"
    using shape_countedD [OF K(1)] assms(2) by (simp add: countedWhites_def tokenCount_def ms)
  have "mySimulationManagerID (mgrs s ! 0) = 0" using S(2,4) by blast
  then show ?thesis
    using z assms(2,3,6) unfolding commits_def isToken_def
    by (auto simp: receiveKernelMessage_def receiveToken_def Let_def)
qed

theorem gvt_commit_when_settled_witness: "commits goodState (min (IntVTime 5) top)"
proof -
  have g: "ctl goodState = {#MatternGVTMessage 2 0 (IntVTime 5) top 0#}" "net goodState = {#}"
    "1 < tokenIterationNumber (objectRecord (mgrs goodState ! 0))" "length (mgrs goodState) = 3"
    "gVT (mgrs goodState ! 0) \<le> min (IntVTime 5) top" by code_simp+
  have "numberOfWhiteMessages (objectRecord (mgrs goodState ! 1)) = 0"
    "numberOfWhiteMessages (objectRecord (mgrs goodState ! 2)) = 0" by code_simp+
  moreover have "i = 1 \<or> i = 2" if "0 < i \<and> i < length (mgrs goodState)" for i using that g(4) by auto
  ultimately show ?thesis
    using gvt_commit_when_settled [OF goodState_estimating g(1,3) _ _ g(5)] g(2) by auto
qed

lemma checkGVTPeriods_snoc:
  "checkGVTPeriods (Suc n) m =
     (let (m1, bs) = checkGVTPeriods n m; (m2, b) = checkGVTPeriod m1 in (m2, bs @ [b]))"
proof (induction n arbitrary: m)
  case (Suc n)
  show ?case
    by (subst checkGVTPeriods.simps(2), subst Suc.IH) (simp add: Let_def split: prod.splits)
qed (simp split: prod.splits)

text \<open>With no token pending and the counter at zero, a new estimation is due exactly at the call whose
  number is the configured period, and the counter starts again at zero.\<close>

theorem checkGVTPeriod_due:
  assumes "\<not> gVTTokenPending m" and "gVTPeriodCounter m = 0" and "0 < gVTPeriod m"
  shows "checkGVTPeriods (unat (gVTPeriod m)) m = (m, replicate (unat (gVTPeriod m) - 1) False @ [True])"
proof -
  let ?p = "unat (gVTPeriod m)"
  have p: "0 < ?p" using assms(3) by (simp add: word_less_nat_alt)
  then obtain k where k: "?p = Suc k" by (cases ?p) auto
  then have "(of_nat (Suc k) :: u32) = gVTPeriod m" by (metis of_nat_unat ucast_id)
  then have "(of_nat k :: u32) + 1 = gVTPeriod m" by (simp add: add.commute)
  moreover have "checkGVTPeriods k m = (m\<lparr>gVTPeriodCounter := of_nat k\<rparr>, replicate k False)"
    using checkGVTPeriods_before [of m k] assms(1,2) k by simp
  ultimately show ?thesis
    unfolding k checkGVTPeriods_snoc using assms(1,2)
    by (simp add: checkGVTPeriod_def Let_def)
qed

theorem checkGVTPeriod_due_witness:
  "snd (checkGVTPeriods 3 (MatternGVTManager 0 2 3 :: intvtime matternGVTManager)) = [False, False, True]"
proof -
  have "checkGVTPeriods (unat (3 :: u32)) (MatternGVTManager 0 2 3) =
      (MatternGVTManager 0 2 3 :: intvtime matternGVTManager, replicate (unat (3 :: u32) - 1) False @ [True])"
    using checkGVTPeriod_due [of "MatternGVTManager 0 2 3 :: intvtime matternGVTManager"]
    by (simp only: MatternGVTManager_def matternGVTManager.simps) simp
  moreover have "unat (3 :: u32) = 3" "replicate (3 - 1) False @ [True] = [False, False, True]" by code_simp+
  ultimately show ?thesis by (simp only: snd_conv)
qed

end
