(* ===== verification/StateManager.thy ===== *)
theory StateManager
  imports Complex_Main Events
begin

text \<open>
  State saving: \<open>StateManagerImplementationBase.cpp\<close>, \<open>PeriodicStateManager.cpp\<close>,
  \<open>AdaptiveStateManagerBase.cpp\<close>, \<open>CostAdaptiveStateManager.cpp\<close> and \<open>SetObject.h\<close>. A state
  queue is the list of its entries in the order of the multiset. The states handed to
  \<open>deallocateState\<close> are returned in the order of the calls. The
  application's state is a parameter type, copied as a value.
\<close>

record ('t, 'st) setObject =
  mainTime :: 't
  element :: 'st

definition setObjectLess :: "('t :: linorder, 'st) setObject \<Rightarrow> ('t, 'st) setObject \<Rightarrow> bool" where
  "setObjectLess a rhs = (mainTime a < mainTime rhs)"

record ('t, 'st) stateManager =
  statePeriod :: u32
  myStateQueue :: "('t, 'st) setObject list list"
  objectStatePeriod :: "u32 list"
  periodCounter :: "int list"

definition StateManagerImplementationBase :: "nat \<Rightarrow> u32 \<Rightarrow> ('t, 'st) stateManager" where
  "StateManagerImplementationBase n period =
     \<lparr>statePeriod = period, myStateQueue = replicate n [], objectStatePeriod = replicate n period,
      periodCounter = replicate n (- 1)\<rparr>"

text \<open>Insertion into a multiset: after the entries that are not greater.\<close>

definition queueInsert ::
  "('t :: linorder, 'st) setObject \<Rightarrow> ('t, 'st) setObject list \<Rightarrow> ('t, 'st) setObject list" where
  "queueInsert x q = takeWhile (\<lambda>y. \<not> setObjectLess x y) q @ x # dropWhile (\<lambda>y. \<not> setObjectLess x y) q"

definition saveState ::
  "('t :: linorder) \<Rightarrow> nat \<Rightarrow> 'st \<Rightarrow> ('t, 'st) stateManager \<Rightarrow> ('t, 'st) stateManager option" where
  "saveState currentTime objId current s = do {
     counter \<leftarrow> vec_get (periodCounter s) objId;
     if counter \<le> 0 then do {
       queue \<leftarrow> vec_get (myStateQueue s) objId;
       period \<leftarrow> vec_get (objectStatePeriod s) objId;
       Some (s\<lparr>myStateQueue := (myStateQueue s)[objId :=
                 queueInsert \<lparr>mainTime = currentTime, element = current\<rparr> queue],
               periodCounter := (periodCounter s)[objId := sint period]\<rparr>) }
     else Some (s\<lparr>periodCounter := (periodCounter s)[objId := counter - 1]\<rparr>) }"

text \<open>The loop of \<open>restoreState\<close>: from the end of the queue towards its first entry.\<close>

function restoreLoop ::
  "('t :: linorder) \<Rightarrow> ('t, 'st) setObject list \<Rightarrow> ('t, 'st) setObject list \<times> 'st list" where
  "restoreLoop rollbackTime q =
     (if 1 < length q \<and> mainTime (last q) > rollbackTime
      then let (q', gone) = restoreLoop rollbackTime (butlast q) in (q', element (last q) # gone)
      else (q, []))"
  by pat_completeness auto
termination by (relation "measure (\<lambda>(r, q). length q)") auto

declare restoreLoop.simps [simp del]

text \<open>
  The result of \<open>restoreState\<close>: the manager, the time returned, the state copied into the object and the
  states deallocated. With an empty queue the kernel aborts, unless it uses
  optimistic fossil collection: then recovery starts and time zero is returned.
\<close>

definition restoreState ::
  "bool \<Rightarrow> ('t :: {linorder, zero}) \<Rightarrow> nat \<Rightarrow> ('t, 'st) stateManager \<Rightarrow>
   (('t, 'st) stateManager \<times> 't \<times> 'st option \<times> 'st list) option" where
  "restoreState usingOptFossilColl rollbackTime objId s = do {
     queue \<leftarrow> vec_get (myStateQueue s) objId;
     if queue \<noteq> [] then
       let (queue', gone) = restoreLoop rollbackTime queue
       in Some (s\<lparr>myStateQueue := (myStateQueue s)[objId := queue']\<rparr>,
                mainTime (last queue'), Some (element (last queue')), gone)
     else if usingOptFossilColl then Some (s, 0, None, [])
     else None }"

definition lowestState :: "('t :: order_top, 'st) setObject list \<Rightarrow> 't" where
  "lowestState queue = (case queue of [] \<Rightarrow> top | x # _ \<Rightarrow> mainTime x)"

definition fossilCollectStates ::
  "nat \<Rightarrow> ('t :: {linorder, order_top}) \<Rightarrow> ('t, 'st) stateManager \<Rightarrow>
   (('t, 'st) stateManager \<times> 't \<times> 'st list) option" where
  "fossilCollectStates objId fossilCollectTime s = do {
     queue \<leftarrow> vec_get (myStateQueue s) objId;
     let k = (if queue = [] then 0
              else if fossilCollectTime \<noteq> top
              then (let lower = length (takeWhile (\<lambda>x. setObjectLess x
                        \<lparr>mainTime = fossilCollectTime, element = element x\<rparr>) queue)
                    in if lower \<noteq> 0 then lower - 1 else 0)
              else length queue);
     let queue' = drop k queue;
     Some (s\<lparr>myStateQueue := (myStateQueue s)[objId := queue']\<rparr>, lowestState queue',
           map element (take k queue)) }"

definition fossilCollectStates_int ::
  "(('t :: {linorder, order_top}) \<Rightarrow> int) \<Rightarrow> nat \<Rightarrow> int \<Rightarrow> ('t, 'st) stateManager \<Rightarrow>
   (('t, 'st) stateManager \<times> 't \<times> 'st list) option" where
  "fossilCollectStates_int approx objId fossilCollectTime s = do {
     queue \<leftarrow> vec_get (myStateQueue s) objId;
     let k = (if fossilCollectTime \<noteq> approx top
              then length (takeWhile (\<lambda>x. approx (mainTime x) < fossilCollectTime) queue)
              else length queue);
     let queue' = drop k queue;
     Some (s\<lparr>myStateQueue := (myStateQueue s)[objId := queue']\<rparr>, lowestState queue',
           map element (take k queue)) }"

definition ofcPurgeStates :: "('t, 'st) stateManager \<Rightarrow> ('t, 'st) stateManager" where
  "ofcPurgeStates s = s\<lparr>myStateQueue := map (\<lambda>_. []) (myStateQueue s),
     periodCounter := map (\<lambda>_. - 1) (periodCounter s)\<rparr>"

definition ofcPurgeObject :: "nat \<Rightarrow> ('t, 'st) stateManager \<Rightarrow> ('t, 'st) stateManager option" where
  "ofcPurgeObject objId s = do {
     queue \<leftarrow> vec_get (myStateQueue s) objId;
     counter \<leftarrow> vec_get (periodCounter s) objId;
     Some (s\<lparr>myStateQueue := (myStateQueue s)[objId := []],
             periodCounter := (periodCounter s)[objId := - 1]\<rparr>) }"

subsection \<open>Cost adaptive state saving\<close>

text \<open>
  \<open>CostAdaptiveStateManager\<close> and its base class: the type \<open>'d\<close> stands for \<open>double\<close>, as an ordered
  field without rounding; \<open>elapsed\<close> is what the stop watch reports for saving the state. The two filters
  are \<open>IIRFilter<double>\<close> with the default aging factor.
\<close>

definition iir_update :: "('d :: linordered_field) \<Rightarrow> 'd \<Rightarrow> 'd" where
  "iir_update new_sample running_avg = running_avg + (4 / 10) * (new_sample - running_avg)"

record 'd costRecord =
  eventsBetweenRecalculation :: int
  forwardExecutionLength :: int
  adaptionValue :: int
  oldCostIndex :: 'd
  filteredCostIndex :: 'd
  steadyState :: bool
  StateSaveTimeWeighted :: 'd
  CoastForwardTimeWeighted :: 'd

definition maxDefaultInterval :: int where "maxDefaultInterval = 30"

definition CostAdaptiveStateManager :: "nat \<Rightarrow> ('d :: zero) costRecord list" where
  "CostAdaptiveStateManager n = replicate n \<lparr>eventsBetweenRecalculation = 100, forwardExecutionLength = 0,
     adaptionValue = 1, oldCostIndex = 0, filteredCostIndex = 0, steadyState = False,
     StateSaveTimeWeighted = 0, CoastForwardTimeWeighted = 0\<rparr>"

definition coastForwardTiming :: "('d :: linordered_field) \<Rightarrow> 'd costRecord \<Rightarrow> 'd costRecord" where
  "coastForwardTiming coastforwardtime r =
     r\<lparr>CoastForwardTimeWeighted := iir_update coastforwardtime (CoastForwardTimeWeighted r)\<rparr>"

definition calculatePeriod ::
  "int \<Rightarrow> ('d :: linordered_field) costRecord \<Rightarrow> 'd costRecord \<times> int" where
  "calculatePeriod period0 r =
     (let stateTime = StateSaveTimeWeighted r;
          coastTime = CoastForwardTimeWeighted r;
          costIndex = stateTime + coastTime;
          filtered = (4 / 10) * filteredCostIndex r + (6 / 10) * costIndex;
          r1 = r\<lparr>filteredCostIndex := filtered\<rparr>;
          (r2, period) =
            (if oldCostIndex r > 0 then
               let (ra, pa) =
                     (if oldCostIndex r > (12 / 10) * filtered
                      then (r1\<lparr>oldCostIndex := filtered\<rparr>, period0 + adaptionValue r)
                      else if oldCostIndex r < (8 / 10) * filtered
                      then (r1\<lparr>adaptionValue := - adaptionValue r, oldCostIndex := filtered\<rparr>,
                            period0 + (- adaptionValue r))
                      else (r1, period0))
               in if coastTime = 0
                  then (ra\<lparr>adaptionValue := 1, oldCostIndex := filtered\<rparr>, pa + 1)
                  else (ra, pa)
             else (r1\<lparr>oldCostIndex := filtered\<rparr>, period0 + 1));
          period' = (if period < 0 then 0 else if period > maxDefaultInterval then maxDefaultInterval
                     else period)
      in (r2\<lparr>forwardExecutionLength := 1, StateSaveTimeWeighted := 0, CoastForwardTimeWeighted := 0\<rparr>,
          period'))"

definition adaptiveSaveState ::
  "('d :: linordered_field) \<Rightarrow> ('t :: linorder) \<Rightarrow> nat \<Rightarrow> 'st \<Rightarrow> 'd costRecord \<Rightarrow> ('t, 'st) stateManager \<Rightarrow>
   ('d costRecord \<times> ('t, 'st) stateManager) option" where
  "adaptiveSaveState elapsed currentTime objId current r s = do {
     counter \<leftarrow> vec_get (periodCounter s) objId;
     s' \<leftarrow> saveState currentTime objId current s;
     Some (if counter \<le> 0 \<and> \<not> steadyState r
           then r\<lparr>StateSaveTimeWeighted := iir_update elapsed (StateSaveTimeWeighted r)\<rparr> else r, s') }"

definition costSaveState ::
  "('d :: linordered_field) \<Rightarrow> ('t :: linorder) \<Rightarrow> nat \<Rightarrow> 'st \<Rightarrow> 'd costRecord list \<Rightarrow> ('t, 'st) stateManager \<Rightarrow>
   ('d costRecord list \<times> ('t, 'st) stateManager) option" where
  "costSaveState elapsed currentTime objId current cs s = do {
     r \<leftarrow> vec_get cs objId;
     period \<leftarrow> vec_get (objectStatePeriod s) objId;
     let (r1, s1) =
       (if forwardExecutionLength r < eventsBetweenRecalculation r
        then (r\<lparr>forwardExecutionLength := forwardExecutionLength r + 1\<rparr>, s)
        else let (r', period') = calculatePeriod (sint period) r
             in (r', s\<lparr>objectStatePeriod := (objectStatePeriod s)[objId := word_of_int period']\<rparr>));
     (r2, s2) \<leftarrow> adaptiveSaveState elapsed currentTime objId current r1 s1;
     Some (cs[objId := r2], s2) }"

subsection \<open>The queue\<close>

text \<open>A queue is in order, and so is every state the manager can reach.\<close>

abbreviation queueSorted :: "('t :: linorder, 'st) setObject list \<Rightarrow> bool" where
  "queueSorted q \<equiv> sorted (map mainTime q)"

definition states_inv :: "('t :: linorder, 'st) stateManager \<Rightarrow> bool" where
  "states_inv s \<longleftrightarrow> length (objectStatePeriod s) = length (myStateQueue s) \<and>
     length (periodCounter s) = length (myStateQueue s) \<and> (\<forall>q \<in> set (myStateQueue s). queueSorted q)"

lemma queueInsert_sorted:
  assumes "queueSorted q"
  shows "queueSorted (queueInsert x q)"
proof -
  have "mainTime x < mainTime y" if "y \<in> set (dropWhile (\<lambda>y. \<not> setObjectLess x y) q)" for y
  proof -
    let ?d = "dropWhile (\<lambda>y. \<not> setObjectLess x y) q"
    have "?d \<noteq> []"
    proof
      assume "?d = []"
      with that show False by (simp only: list.set empty_iff)
    qed
    then obtain z zs where d: "?d = z # zs" by (meson list.exhaust)
    then have "setObjectLess x z" using hd_dropWhile [of "\<lambda>y. \<not> setObjectLess x y" q] by simp
    moreover have "queueSorted ?d" using assms by (metis map_append sorted_wrt_append takeWhile_dropWhile_id)
    ultimately show ?thesis using that d by (fastforce simp: setObjectLess_def)
  qed
  moreover have "mainTime y \<le> mainTime x" if "y \<in> set (takeWhile (\<lambda>y. \<not> setObjectLess x y) q)" for y
    using set_takeWhileD [OF that] by (simp add: setObjectLess_def not_less)
  moreover have "queueSorted (takeWhile (\<lambda>y. \<not> setObjectLess x y) q @ dropWhile (\<lambda>y. \<not> setObjectLess x y) q)"
    using assms by simp
  ultimately show ?thesis
    unfolding queueInsert_def by (auto simp: sorted_append less_imp_le simp del: takeWhile_dropWhile_id)
qed

text \<open>On an ordered queue the loop keeps the entries up to the rollback time, and the first one in any case.\<close>

lemma restoreLoop_eq:
  assumes "queueSorted q" and "q \<noteq> []"
  shows "restoreLoop r q =
    (hd q # filter (\<lambda>x. mainTime x \<le> r) (tl q), map element (rev (filter (\<lambda>x. \<not> mainTime x \<le> r) (tl q))))"
  using assms
proof (induction q rule: rev_induct)
  case (snoc x xs)
  show ?case
  proof (cases "xs = []")
    case True
    then show ?thesis by (simp add: restoreLoop.simps)
  next
    case False
    have all: "\<forall>y \<in> set (tl xs). mainTime y \<le> mainTime x"
      using snoc.prems(1) False by (auto simp: sorted_append dest: list.set_sel(2))
    show ?thesis
    proof (cases "mainTime x > r")
      case True
      then show ?thesis
        using snoc.IH snoc.prems(1) False by (simp add: restoreLoop.simps [of r "xs @ [x]"] sorted_append)
    next
      case F: False
      then have "\<forall>y \<in> set (tl xs). mainTime y \<le> r" using all by auto
      then have "filter (\<lambda>x. mainTime x \<le> r) (tl xs) = tl xs" "filter (\<lambda>x. \<not> mainTime x \<le> r) (tl xs) = []"
        by (simp_all add: filter_empty_conv)
      then show ?thesis
        using F False by (auto simp: restoreLoop.simps [of r "xs @ [x]"] not_less simp del: not_le)
    qed
  qed
qed simp

text \<open>\<open>fossilCollect\<close> drops what is before the newest entry that is older than the given time.\<close>

definition keptFrom :: "('t :: linorder) \<Rightarrow> ('t, 'st) setObject list \<Rightarrow> nat" where
  "keptFrom time q = length (takeWhile (\<lambda>x. mainTime x < time) q) - 1"

lemma fossilCollectStates_eq:
  assumes "i < length (myStateQueue s)" and "time \<noteq> top" and "q = myStateQueue s ! i"
  shows "fossilCollectStates i time s =
    Some (s\<lparr>myStateQueue := (myStateQueue s)[i := drop (keptFrom time q) q]\<rparr>,
          lowestState (drop (keptFrom time q) q), map element (take (keptFrom time q) q))"
  using assms by (auto simp: fossilCollectStates_def vec_simps keptFrom_def setObjectLess_def Let_def)

lemma keptFrom_split:
  assumes "queueSorted q" and "0 < keptFrom time q"
  obtains xs y ys where "q = xs @ y # ys" "length xs = keptFrom time q" "mainTime y < time"
    "\<forall>x \<in> set xs. mainTime x \<le> mainTime y"
proof -
  let ?p = "\<lambda>x. mainTime x < time" and ?k = "keptFrom time q"
  let ?t = "takeWhile ?p q"
  have k: "?k < length ?t" using assms(2) by (auto simp: keptFrom_def)
  then have len: "?k < length q" using length_takeWhile_le [of ?p q] by linarith
  have y: "mainTime (q ! ?k) < time"
    using k by (metis nth_mem set_takeWhileD takeWhile_nth)
  have q: "q = take ?k q @ q ! ?k # drop (Suc ?k) q" using len by (simp add: id_take_nth_drop)
  moreover have "\<forall>x \<in> set (take ?k q). mainTime x \<le> mainTime (q ! ?k)"
  proof -
    have "queueSorted (take ?k q @ q ! ?k # drop (Suc ?k) q)" using assms(1) q by simp
    then show ?thesis by (simp add: sorted_append del: append_take_drop_id)
  qed
  ultimately show ?thesis using that [of "take ?k q" "q ! ?k"] y len by simp
qed

text \<open>Fossil collection before a restore does not change what is restored at or after the collection time.\<close>

lemma restore_after_collect:
  assumes "queueSorted q" and "q \<noteq> []" and "time \<le> r"
  shows "last (fst (restoreLoop r (drop (keptFrom time q) q))) = last (fst (restoreLoop r q))"
    and "drop (keptFrom time q) q \<noteq> []"
proof -
  have "last (fst (restoreLoop r (drop (keptFrom time q) q))) = last (fst (restoreLoop r q)) \<and>
    drop (keptFrom time q) q \<noteq> []"
  proof (cases "keptFrom time q = 0")
    case False
    then obtain xs y ys where q: "q = xs @ y # ys" "length xs = keptFrom time q" "mainTime y < time"
      using keptFrom_split [OF assms(1)] by (metis gr0I)
    then obtain z zs where xs: "xs = z # zs" using False by (cases xs) auto
    have d: "drop (keptFrom time q) q = y # ys" using q by (metis append_eq_conv_conj)
    have srt: "queueSorted (y # ys)" using assms(1) q(1) by (simp add: sorted_append)
    have "mainTime y \<le> r" using q(3) assms(3) by auto
    then show ?thesis
      using restoreLoop_eq [OF srt, of r] restoreLoop_eq [OF assms(1,2), of r]
      unfolding d by (simp add: q(1) xs)
  qed (use assms(2) in simp)
  then show "last (fst (restoreLoop r (drop (keptFrom time q) q))) = last (fst (restoreLoop r q))"
    "drop (keptFrom time q) q \<noteq> []" by blast+
qed

lemma states_invD:
  assumes "states_inv s" and "i < length (myStateQueue s)"
  shows "i < length (objectStatePeriod s)" "i < length (periodCounter s)" "queueSorted (myStateQueue s ! i)"
  using assms by (auto simp: states_inv_def)

lemma states_inv_update:
  assumes "states_inv s" and "queueSorted q" and "length cs = length (periodCounter s)"
  shows "states_inv (s\<lparr>myStateQueue := (myStateQueue s)[i := q], periodCounter := cs\<rparr>)"
  using assms set_update_subset_insert [of "myStateQueue s" i q] by (auto simp: states_inv_def)

lemma states_inv_queue:
  assumes "states_inv s" and "queueSorted q"
  shows "states_inv (s\<lparr>myStateQueue := (myStateQueue s)[i := q]\<rparr>)"
  using states_inv_update [OF assms refl] by simp

lemma saveState_inv:
  assumes "states_inv s" and "i < length (myStateQueue s)"
  shows "\<exists>t. saveState now i st s = Some t \<and> states_inv t"
proof -
  note D = states_invD [OF assms]
  have "states_inv (s\<lparr>periodCounter := (periodCounter s)[i := c]\<rparr>)" for c
    using assms(1) by (simp add: states_inv_def)
  then show ?thesis
    using states_inv_update [OF assms(1) queueInsert_sorted [OF D(3)], of "(periodCounter s)[i := sint (objectStatePeriod s ! i)]"]
      assms(2) D by (auto simp: saveState_def vec_simps)
qed

lemma restoreLoop_sorted:
  assumes "queueSorted q" and "q \<noteq> []"
  shows "queueSorted (fst (restoreLoop r q))" "fst (restoreLoop r q) \<noteq> []"
proof -
  obtain x xs where q: "q = x # xs" using assms(2) by (cases q) auto
  have "queueSorted (filter (\<lambda>x. mainTime x \<le> r) xs)" using assms(1) q sorted_filter by auto
  then show "queueSorted (fst (restoreLoop r q))" "fst (restoreLoop r q) \<noteq> []"
    using restoreLoop_eq [OF assms, of r] assms(1) q by auto
qed

lemma restoreState_eq:
  assumes "i < length (myStateQueue s)" and "myStateQueue s ! i \<noteq> []"
    and "restoreLoop r (myStateQueue s ! i) = (q', gone)"
  shows "restoreState b r i s = Some (s\<lparr>myStateQueue := (myStateQueue s)[i := q']\<rparr>,
     mainTime (last q'), Some (element (last q')), gone)"
  using assms by (simp add: restoreState_def vec_simps)

lemma restoreState_inv:
  assumes "states_inv s" and "i < length (myStateQueue s)" and "myStateQueue s ! i \<noteq> []"
  shows "\<exists>t time x gone. restoreState b r i s = Some (t, time, x, gone) \<and> states_inv t"
proof -
  note D = states_invD [OF assms(1,2)]
  obtain q' gone where l: "restoreLoop r (myStateQueue s ! i) = (q', gone)" by fastforce
  have "queueSorted q'" using restoreLoop_sorted [OF D(3) assms(3), of r] l by simp
  with restoreState_eq [OF assms(2,3) l, of b] states_inv_queue [OF assms(1)] show ?thesis by blast
qed

lemma fossilCollectStates_inv:
  assumes "states_inv s" and "i < length (myStateQueue s)"
  shows "\<exists>t low gone. fossilCollectStates i g s = Some (t, low, gone) \<and> states_inv t"
proof -
  have "queueSorted (drop k (myStateQueue s ! i))" for k
    using states_invD(3) [OF assms] by (metis drop_map sorted_wrt_drop)
  then show ?thesis
    using assms states_inv_queue [OF assms(1)] by (simp add: fossilCollectStates_def vec_simps Let_def)
qed

subsection \<open>Properties\<close>

text \<open>no operation disorders a state queue or runs out of range: in a well-formed manager every save, every restore from a
  queue that holds a state, and every fossil collection succeeds and leaves a well-formed manager.\<close>

theorem states_inv_preserved:
  fixes s :: "('t :: {linorder, order_top, zero}, 'st) stateManager"
  assumes "states_inv s" and "i < length (myStateQueue s)"
  shows "(\<exists>t. saveState now i st s = Some t \<and> states_inv t) \<and>
    (myStateQueue s ! i = [] \<or>
      (\<exists>t time x gone. restoreState b r i s = Some (t, time, x, gone) \<and> states_inv t)) \<and>
    (\<exists>t low gone. fossilCollectStates i g s = Some (t, low, gone) \<and> states_inv t) \<and>
    states_inv (ofcPurgeStates s)"
proof (intro conjI)
  show "myStateQueue s ! i = [] \<or>
      (\<exists>t time x gone. restoreState b r i s = Some (t, time, x, gone) \<and> states_inv t)"
    using restoreState_inv [OF assms] by blast
  show "states_inv (ofcPurgeStates s)" using assms(1) by (auto simp: ofcPurgeStates_def states_inv_def)
qed (rule saveState_inv [OF assms] fossilCollectStates_inv [OF assms])+

definition ex_states :: "(intvtime, nat) stateManager" where
  "ex_states = \<lparr>statePeriod = 1, myStateQueue = [[\<lparr>mainTime = IntVTime 2, element = 20\<rparr>,
       \<lparr>mainTime = IntVTime 4, element = 40\<rparr>, \<lparr>mainTime = IntVTime 7, element = 70\<rparr>]],
     objectStatePeriod = [1], periodCounter = [0]\<rparr>"

theorem states_inv_preserved_witness:
  "\<exists>t. saveState (IntVTime 9) 0 (90 :: nat) ex_states = Some t \<and> states_inv t"
proof -
  have "states_inv ex_states" "0 < length (myStateQueue ex_states)" by code_simp+
  from states_inv_preserved [OF this, of "IntVTime 9" 90 True "IntVTime 9" "IntVTime 9"] show ?thesis by blast
qed



text \<open>C38: fossil collection is safe: collecting states at time \<open>g\<close> changes neither the time nor the state that a later rollback to any
  time at or after \<open>g\<close> restores.\<close>

theorem fossilCollect_keeps_restore:
  fixes s :: "('t :: {linorder, order_top, zero}, 'st) stateManager"
  assumes "states_inv s" and "i < length (myStateQueue s)" and "myStateQueue s ! i \<noteq> []"
    and "g \<noteq> top" and "g \<le> r"
  shows "\<exists>t low gone u u' time x ys zs. fossilCollectStates i g s = Some (t, low, gone) \<and>
    restoreState b r i s = Some (u, time, x, ys) \<and> restoreState b r i t = Some (u', time, x, zs)"
proof -
  let ?q = "myStateQueue s ! i"
  let ?q' = "drop (keptFrom g ?q) ?q"
  let ?t = "s\<lparr>myStateQueue := (myStateQueue s)[i := ?q']\<rparr>"
  note R = restore_after_collect [OF states_invD(3) [OF assms(1,2)] assms(3,5)]
  obtain p ys p' zs where l: "restoreLoop r ?q = (p, ys)" "restoreLoop r ?q' = (p', zs)" by fastforce
  have eq: "last p' = last p" using R(1) l by simp
  have "myStateQueue ?t ! i = ?q'" "i < length (myStateQueue ?t)" using assms(2) by simp_all
  then have "restoreState b r i ?t = Some (?t\<lparr>myStateQueue := (myStateQueue ?t)[i := p']\<rparr>,
      mainTime (last p'), Some (element (last p')), zs)"
    using restoreState_eq [of i ?t r p' zs b] R(2) l(2) by simp
  then show ?thesis
    using fossilCollectStates_eq [OF assms(2,4) refl] restoreState_eq [OF assms(2,3) l(1), of b] eq by auto
qed

theorem fossilCollect_keeps_restore_witness:
  "\<exists>t low gone u u' time x ys zs. fossilCollectStates 0 (IntVTime 5) ex_states = Some (t, low, gone) \<and>
    restoreState False (IntVTime 6) 0 ex_states = Some (u, time, x, ys) \<and>
    restoreState False (IntVTime 6) 0 t = Some (u', time, x, zs)"
proof -
  have "states_inv ex_states" "0 < length (myStateQueue ex_states)" "myStateQueue ex_states ! 0 \<noteq> []"
    "IntVTime 5 \<noteq> top" "IntVTime 5 \<le> IntVTime 6" by code_simp+
  from fossilCollect_keeps_restore [OF this] show ?thesis .
qed

text \<open>A sequence of calls of \<open>saveState\<close> for one object.\<close>

fun saveStates ::
  "(('t :: linorder) \<times> 'st) list \<Rightarrow> nat \<Rightarrow> ('t, 'st) stateManager \<Rightarrow> ('t, 'st) stateManager option" where
  "saveStates [] i s = Some s"
| "saveStates ((now, st) # xs) i s = do { s' \<leftarrow> saveState now i st s; saveStates xs i s' }"

lemma saveStates_skip:
  assumes "i < length (periodCounter s)" and "periodCounter s ! i = int (length xs)"
  shows "saveStates xs i s = Some (s\<lparr>periodCounter := (periodCounter s)[i := 0]\<rparr>)"
  using assms
proof (induction xs arbitrary: s)
  case Nil
  have "(periodCounter s)[i := 0] = periodCounter s" using Nil.prems list_update_id [of "periodCounter s" i] by simp
  then show ?case by simp
next
  case (Cons x xs)
  obtain now st where x: "x = (now, st)" by (cases x)
  let ?t = "s\<lparr>periodCounter := (periodCounter s)[i := int (length xs)]\<rparr>"
  have "saveState now i st s = Some ?t"
    using Cons.prems by (simp add: saveState_def vec_simps)
  then show ?case
    using Cons.IH [of ?t] Cons.prems x by simp
qed

text \<open>A state is saved at a call exactly every \<open>period + 1\<close> calls: after a save, the next \<open>period\<close> calls only count down,
  and the call after them saves again.\<close>

theorem saveState_period:
  fixes s :: "('t :: linorder, 'st) stateManager"
  assumes "states_inv s" and "i < length (myStateQueue s)" and "periodCounter s ! i \<le> 0"
    and "sint (objectStatePeriod s ! i) = int (length between)"
  shows "\<exists>s1 s2 s3. saveState t1 i x1 s = Some s1 \<and>
    myStateQueue s1 ! i = queueInsert \<lparr>mainTime = t1, element = x1\<rparr> (myStateQueue s ! i) \<and>
    saveStates between i s1 = Some s2 \<and> myStateQueue s2 = myStateQueue s1 \<and>
    saveState t2 i x2 s2 = Some s3 \<and>
    myStateQueue s3 ! i = queueInsert \<lparr>mainTime = t2, element = x2\<rparr> (myStateQueue s1 ! i)"
proof -
  note D = states_invD [OF assms(1,2)]
  let ?s1 = "s\<lparr>myStateQueue := (myStateQueue s)[i := queueInsert \<lparr>mainTime = t1, element = x1\<rparr> (myStateQueue s ! i)],
    periodCounter := (periodCounter s)[i := int (length between)]\<rparr>"
  let ?s2 = "?s1\<lparr>periodCounter := (periodCounter ?s1)[i := 0]\<rparr>"
  have "saveState t1 i x1 s = Some ?s1"
    using D assms(2-4) by (simp add: saveState_def vec_simps)
  moreover have "saveStates between i ?s1 = Some ?s2"
    by (rule saveStates_skip) (use D(2) in simp_all)
  moreover have "\<exists>s3. saveState t2 i x2 ?s2 = Some s3 \<and>
      myStateQueue s3 ! i = queueInsert \<lparr>mainTime = t2, element = x2\<rparr> (myStateQueue ?s1 ! i)"
    using D assms(2) by (simp add: saveState_def vec_simps)
  ultimately show ?thesis using assms(2) by fastforce
qed

theorem saveState_period_witness:
  "\<exists>s1 s2. saveState (IntVTime 8) 0 80 ex_states = Some s1 \<and>
     saveStates [(IntVTime 9, 90)] 0 s1 = Some s2 \<and> myStateQueue s2 = myStateQueue s1"
proof -
  have "states_inv ex_states" "0 < length (myStateQueue ex_states)" "periodCounter ex_states ! 0 \<le> 0"
    "sint (objectStatePeriod ex_states ! 0) = int (length [(IntVTime 9, 90 :: nat)])" by code_simp+
  from saveState_period [OF this, of "IntVTime 8" 80 "IntVTime 10" 100] show ?thesis by blast
qed

text \<open>cost adaptive state saving keeps every object's period between 0 and \<open>maxDefaultInterval\<close>, whatever the
  measured times are.\<close>

theorem costSaveState_period_bounded:
  fixes s :: "('t :: linorder, 'st) stateManager" and cs :: "('d :: linordered_field) costRecord list"
  assumes "\<forall>p \<in> set (objectStatePeriod s). 0 \<le> sint p \<and> sint p \<le> maxDefaultInterval"
    and "costSaveState elapsed now i st cs s = Some (cs', s')"
  shows "\<forall>p \<in> set (objectStatePeriod s'). 0 \<le> sint p \<and> sint p \<le> maxDefaultInterval"
proof -
  have calc: "0 \<le> snd (calculatePeriod p r) \<and> snd (calculatePeriod p r) \<le> maxDefaultInterval" for p and r :: "'d costRecord"
    by (simp add: calculatePeriod_def Let_def maxDefaultInterval_def split: prod.splits)
  have keep: "objectStatePeriod t' = objectStatePeriod t" if "saveState now i st t = Some t'" for t t'
    using that by (auto simp: saveState_def split: bind_splits if_splits)
  have word: "sint (word_of_int p :: u32) = p" if "0 \<le> p" "p \<le> maxDefaultInterval" for p
    using that by (intro sint_word_of_int) (simp add: int_range_def maxDefaultInterval_def)
  have upd: "\<forall>p \<in> set ((objectStatePeriod s)[i := word_of_int p0]). 0 \<le> sint p \<and> sint p \<le> maxDefaultInterval"
    if "0 \<le> p0" "p0 \<le> maxDefaultInterval" for p0
    using assms(1) that word set_update_subset_insert [of "objectStatePeriod s" i "word_of_int p0"] by fastforce
  have "objectStatePeriod s' = objectStatePeriod s \<or>
      (\<exists>p0. 0 \<le> p0 \<and> p0 \<le> maxDefaultInterval \<and> objectStatePeriod s' = (objectStatePeriod s)[i := word_of_int p0])"
    using assms(2) calc
    by (auto simp: costSaveState_def adaptiveSaveState_def Let_def dest!: keep
        split: bind_splits if_splits prod.splits) (metis snd_conv)+
  then show ?thesis using assms(1) upd by metis
qed

definition ex_cost :: "(intvtime, nat) stateManager" where
  "ex_cost = snd (the (costSaveState (1 :: rat) (IntVTime 8) 0 80 (CostAdaptiveStateManager 1) ex_states))"

theorem costSaveState_period_bounded_witness: "sint (objectStatePeriod ex_cost ! 0) \<le> maxDefaultInterval"
proof -
  let ?c = "costSaveState (1 :: rat) (IntVTime 8) 0 80 (CostAdaptiveStateManager 1) ex_states"
  have "?c \<noteq> None" by code_simp
  then obtain cs' s' where c: "?c = Some (cs', s')" by fastforce
  have "\<forall>p \<in> set (objectStatePeriod ex_states). 0 \<le> sint p \<and> sint p \<le> maxDefaultInterval" by code_simp
  from costSaveState_period_bounded [OF this c]
  have "\<forall>p \<in> set (objectStatePeriod ex_cost). sint p \<le> maxDefaultInterval"
    using c by (simp add: ex_cost_def)
  moreover have "objectStatePeriod ex_cost ! 0 \<in> set (objectStatePeriod ex_cost)" by code_simp
  ultimately show ?thesis by blast
qed

end
