(* ===== verification/OutputQueue.thy ===== *)
theory OutputQueue
  imports Events
begin

text \<open>
  Sent events and their cancellation: \<open>OutputEvents.cpp\<close>, \<open>OutputManagerImplementationBase.cpp\<close>,
  \<open>AggressiveOutputManager.cpp\<close> and \<open>LazyOutputManager.cpp\<close>.

  Vector iterators are positions: the decrement of an iterator whose element was just erased is read
  as the position before it. Events are identified by their address \<open>eventPtr\<close> where the code compares
  pointers. A call of \<open>cancelEvents\<close> is the list of the events handed to it; \<open>isLocal\<close>
  is \<open>TimeWarpSimulationManager::contains\<close>.
\<close>

subsection \<open>The events sent by one object\<close>

record 't outputEntry =
  oe_mainTime :: 't
  oe_secondaryTime :: 't
  oe_receiverID :: u32
  oe_element :: "'t event"

record 't outputEvents =
  outputEventsLocal :: "'t outputEntry list"
  outputEventsRemote :: "'t event list"
  removedEventsRemote :: "'t event list"

definition OutputEvents :: "'t outputEvents" where
  "OutputEvents = \<lparr>outputEventsLocal = [], outputEventsRemote = [], removedEventsRemote = []\<rparr>"

text \<open>
  The backward walk over the local events, on the reversed list: the events found, the entries
  left, and the recovery that optimistic fossil collection starts when an event
  was received before the last collection of its receiver (\<open>lastCollectTime\<close>).
\<close>

fun localWalk ::
  "(u32 \<Rightarrow> int) option \<Rightarrow> (('t :: linorder) \<Rightarrow> int) \<Rightarrow> 't \<Rightarrow> 't outputEntry list \<Rightarrow>
   't event list \<times> 't outputEntry list \<times> (u32 \<times> int) option" where
  "localWalk ofc approx searchTime [] = ([], [], None)"
| "localWalk ofc approx searchTime [out] =
     (if oe_mainTime out \<ge> searchTime then ([oe_element out], [], None) else ([], [out], None))"
| "localWalk ofc approx searchTime (out # prev # rest) =
     (if oe_mainTime out \<ge> searchTime then
        (if (case ofc of None \<Rightarrow> False
             | Some lastCollectTime \<Rightarrow> approx (oe_secondaryTime out) \<le> lastCollectTime (oe_receiverID out))
         then ([], out # prev # rest, Some (oe_receiverID out, approx (oe_mainTime out)))
         else let (found, left, recovery) = localWalk ofc approx searchTime (prev # rest)
              in (oe_element out # found, left, recovery))
      else ([], out # prev # rest, None))"

fun remoteWalk :: "('t :: linorder) \<Rightarrow> 't event list \<Rightarrow> 't event list \<times> 't event list" where
  "remoteWalk searchTime [] = ([], [])"
| "remoteWalk searchTime (it # rest) =
     (if sendTime it \<ge> searchTime
      then let (found, left) = remoteWalk searchTime rest in (it # found, left)
      else ([], it # rest))"

definition getEventsSentAtOrAfter ::
  "(u32 \<Rightarrow> int) option \<Rightarrow> (('t :: linorder) \<Rightarrow> int) \<Rightarrow> 't \<Rightarrow> 't outputEvents \<Rightarrow>
   't event list \<times> (u32 \<times> int) option" where
  "getEventsSentAtOrAfter ofc approx searchTime q =
     (let (found, _, recovery) = localWalk ofc approx searchTime (rev (outputEventsLocal q));
          (found', _) = remoteWalk searchTime (rev (outputEventsRemote q))
      in (found @ found', recovery))"

definition getEventsSentAtOrAfterAndRemove ::
  "(u32 \<Rightarrow> int) option \<Rightarrow> (('t :: linorder) \<Rightarrow> int) \<Rightarrow> 't \<Rightarrow> 't outputEvents \<Rightarrow>
   't outputEvents \<times> 't event list \<times> (u32 \<times> int) option" where
  "getEventsSentAtOrAfterAndRemove ofc approx searchTime q =
     (let (found, left, recovery) = localWalk ofc approx searchTime (rev (outputEventsLocal q));
          (found', left') = remoteWalk searchTime (rev (outputEventsRemote q))
      in (q\<lparr>outputEventsLocal := rev left, outputEventsRemote := rev left',
            removedEventsRemote := removedEventsRemote q @ found'\<rparr>,
          found @ found', recovery))"

definition oe_fossilCollect :: "('t :: linorder) \<Rightarrow> 't outputEvents \<Rightarrow> 't outputEvents \<times> 't event list" where
  "oe_fossilCollect gCollectTime q =
     (let gone = takeWhile (\<lambda>e. sendTime e < gCollectTime) (outputEventsRemote q);
          goneLocal = takeWhile (\<lambda>x. oe_mainTime x < gCollectTime) (outputEventsLocal q)
      in (q\<lparr>outputEventsRemote := drop (length gone) (outputEventsRemote q),
            outputEventsLocal := drop (length goneLocal) (outputEventsLocal q),
            removedEventsRemote := filter (\<lambda>e. \<not> sendTime e < gCollectTime) (removedEventsRemote q)\<rparr>,
          gone @ filter (\<lambda>e. sendTime e < gCollectTime) (removedEventsRemote q)))"

definition oe_fossilCollect_int ::
  "(('t :: linorder) \<Rightarrow> int) \<Rightarrow> int \<Rightarrow> 't outputEvents \<Rightarrow> 't outputEvents \<times> 't event list" where
  "oe_fossilCollect_int approx gCollectTime q =
     (let gone = takeWhile (\<lambda>e. approx (sendTime e) < gCollectTime) (outputEventsRemote q);
          goneLocal = takeWhile (\<lambda>x. approx (oe_mainTime x) < gCollectTime) (outputEventsLocal q)
      in (q\<lparr>outputEventsRemote := drop (length gone) (outputEventsRemote q),
            outputEventsLocal := drop (length goneLocal) (outputEventsLocal q),
            removedEventsRemote := filter (\<lambda>e. \<not> approx (sendTime e) < gCollectTime) (removedEventsRemote q)\<rparr>,
          gone @ filter (\<lambda>e. approx (sendTime e) < gCollectTime) (removedEventsRemote q)))"

definition oe_getOldestEvent :: "u32 \<Rightarrow> 't outputEvents \<Rightarrow> 't event option" where
  "oe_getOldestEvent sz q = find (\<lambda>e. eventSize e = sz) (outputEventsRemote q)"

definition oe_insert :: "(objectID \<Rightarrow> bool) \<Rightarrow> 't event \<Rightarrow> 't outputEvents \<Rightarrow> 't outputEvents" where
  "oe_insert isLocal newEvent q =
     (if isLocal (receiver newEvent)
      then q\<lparr>outputEventsLocal := outputEventsLocal q @
               [\<lparr>oe_mainTime = sendTime newEvent, oe_secondaryTime = receiveTime newEvent,
                 oe_receiverID = getSimulationObjectID (receiver newEvent), oe_element = newEvent\<rparr>]\<rparr>
      else q\<lparr>removedEventsRemote :=
               remove_first (\<lambda>e. eventPtr e = eventPtr newEvent) (removedEventsRemote q),
             outputEventsRemote := outputEventsRemote q @ [newEvent]\<rparr>)"

definition oe_fossilCollectEvent :: "'t event \<Rightarrow> 't outputEvents \<Rightarrow> 't outputEvents" where
  "oe_fossilCollectEvent toRemove q =
     q\<lparr>outputEventsLocal := remove_first (\<lambda>x. eventPtr (oe_element x) = eventPtr toRemove) (outputEventsLocal q),
       outputEventsRemote := remove_first (\<lambda>e. eventId toRemove = eventId e \<and> sender toRemove = sender e)
         (outputEventsRemote q)\<rparr>"

definition oe_remove :: "'t event \<Rightarrow> 't outputEvents \<Rightarrow> 't outputEvents option" where
  "oe_remove toRemove q =
     (if list_ex (\<lambda>x. eventPtr (oe_element x) = eventPtr toRemove) (outputEventsLocal q)
      then Some (q\<lparr>outputEventsLocal :=
             remove_first (\<lambda>x. eventPtr (oe_element x) = eventPtr toRemove) (outputEventsLocal q)\<rparr>)
      else if list_ex (\<lambda>e. eventPtr e = eventPtr toRemove) (outputEventsRemote q)
      then Some (q\<lparr>outputEventsRemote :=
             remove_first (\<lambda>e. eventPtr e = eventPtr toRemove) (outputEventsRemote q)\<rparr>)
      else None)"

fun oe_removeAll :: "'t event list \<Rightarrow> 't outputEvents \<Rightarrow> 't outputEvents option" where
  "oe_removeAll [] q = Some q"
| "oe_removeAll (e # es) q = do { q' \<leftarrow> oe_remove e q; oe_removeAll es q' }"

definition oe_ofcPurge :: "'t outputEvents \<Rightarrow> 't outputEvents" where
  "oe_ofcPurge q = OutputEvents"

subsection \<open>The output managers\<close>

type_synonym 't outputManager = "'t outputEvents list"

definition OutputManagerImplementationBase :: "nat \<Rightarrow> 't outputManager" where
  "OutputManagerImplementationBase n = replicate n OutputEvents"

definition om_insert :: "(objectID \<Rightarrow> bool) \<Rightarrow> 't event \<Rightarrow> 't outputManager \<Rightarrow> 't outputManager option" where
  "om_insert isLocal event m = do {
     q \<leftarrow> vec_get m (unat (getSimulationObjectID (sender event)));
     Some (m[unat (getSimulationObjectID (sender event)) := oe_insert isLocal event q]) }"

definition om_fossilCollect ::
  "nat \<Rightarrow> ('t :: linorder) \<Rightarrow> 't outputManager \<Rightarrow> ('t outputManager \<times> 't event list) option" where
  "om_fossilCollect objId time m = do {
     q \<leftarrow> vec_get m objId;
     let (q', gone) = oe_fossilCollect time q;
     Some (m[objId := q'], gone) }"

definition om_getOldestEvent :: "u32 \<Rightarrow> ('t :: linorder) outputManager \<Rightarrow> 't event option option" where
  "om_getOldestEvent sz m =
     (case m of [] \<Rightarrow> None
      | first # rest \<Rightarrow> Some (foldl (\<lambda>retval q. case oe_getOldestEvent sz q of
            None \<Rightarrow> retval
          | Some objOldest \<Rightarrow> (case retval of
              Some r \<Rightarrow> if sendTime objOldest < sendTime r then Some objOldest else retval
            | None \<Rightarrow> Some objOldest)) (oe_getOldestEvent sz first) rest))"

text \<open>\<open>AggressiveOutputManager::rollback\<close>: the events to cancel, if there is one.\<close>

definition aggressiveRollback ::
  "(u32 \<Rightarrow> int) option \<Rightarrow> (('t :: linorder) \<Rightarrow> int) \<Rightarrow> nat \<Rightarrow> 't \<Rightarrow> 't outputManager \<Rightarrow>
   ('t outputManager \<times> 't event list option \<times> (u32 \<times> int) option) option" where
  "aggressiveRollback ofc approx objId rollbackTime m = do {
     q \<leftarrow> vec_get m objId;
     let (q', eventsToCancel, recovery) = getEventsSentAtOrAfterAndRemove ofc approx rollbackTime q;
     Some (m[objId := q'], if length eventsToCancel > 0 then Some eventsToCancel else None, recovery) }"

subsection \<open>Lazy cancellation\<close>

record 't lazyManager =
  lm_outputs :: "'t outputManager"
  lazyQueues :: "'t event list list"
  eventsToCancel :: "'t event list list"
  compareAndInsertMode :: "bool list"
  lazyHitCount :: "u32 list"
  lazyMissCount :: "u32 list"

definition LazyOutputManager :: "nat \<Rightarrow> 't lazyManager" where
  "LazyOutputManager n = \<lparr>lm_outputs = OutputManagerImplementationBase n, lazyQueues = replicate n [],
     eventsToCancel = replicate n [], compareAndInsertMode = replicate n True,
     lazyHitCount = replicate n 0, lazyMissCount = replicate n 0\<rparr>"

text \<open>
  \<open>checkLazyCancelEvent\<close> for the sender \<open>objId\<close>; \<open>eventCompare\<close> is the application's comparison of
  events. First the events that were not regenerated in time, then the first event that matches.
\<close>

definition checkLazyCancelEvent ::
  "('t event \<Rightarrow> 't event \<Rightarrow> bool) \<Rightarrow> (objectID \<Rightarrow> bool) \<Rightarrow> ('t :: linorder) event \<Rightarrow> 't lazyManager \<Rightarrow>
   ('t lazyManager \<times> bool) option" where
  "checkLazyCancelEvent eventCompare isLocal event s = do {
     let objId = unat (getSimulationObjectID (sender event));
     queue \<leftarrow> vec_get (lazyQueues s) objId;
     toCancel \<leftarrow> vec_get (eventsToCancel s) objId;
     mode \<leftarrow> vec_get (compareAndInsertMode s) objId;
     hits \<leftarrow> vec_get (lazyHitCount s) objId;
     misses \<leftarrow> vec_get (lazyMissCount s) objId;
     let late = takeWhile (\<lambda>e. sendTime e < sendTime event) queue;
     let queue1 = drop (length late) queue;
     let s1 = s\<lparr>lazyQueues := (lazyQueues s)[objId := queue1],
                eventsToCancel := (eventsToCancel s)[objId := toCancel @ late],
                lazyMissCount := (lazyMissCount s)[objId := misses + of_nat (length late)]\<rparr>;
     if queue1 = [] then
       Some (s1\<lparr>lazyHitCount := (lazyHitCount s)[objId := 0], lazyMissCount := (lazyMissCount s)[objId := 0]\<rparr>, False)
     else case find (\<lambda>e. eventCompare e event) queue1 of
       None \<Rightarrow> Some (s1, False)
     | Some hit \<Rightarrow> do {
         outs \<leftarrow> (if mode then om_insert isLocal hit (lm_outputs s) else Some (lm_outputs s));
         let queue2 = remove_first (\<lambda>e. eventCompare e event) queue1;
         let s2 = s1\<lparr>lm_outputs := outs, lazyQueues := (lazyQueues s)[objId := queue2],
                     lazyHitCount := (lazyHitCount s)[objId := hits + 1]\<rparr>;
         Some (if queue2 = []
               then s2\<lparr>lazyHitCount := (lazyHitCount s)[objId := 0], lazyMissCount := (lazyMissCount s)[objId := 0]\<rparr>
               else s2, True) } }"

text \<open>\<open>handleCancelEvents\<close> hands the collected events to \<open>cancelEvents\<close>, one call for each object that has some.\<close>

definition handleCancelEvents_obj ::
  "nat \<Rightarrow> 't lazyManager \<Rightarrow> ('t lazyManager \<times> 't event list list) option" where
  "handleCancelEvents_obj objId s = do {
     toCancel \<leftarrow> vec_get (eventsToCancel s) objId;
     Some (if length toCancel > 0
           then (s\<lparr>eventsToCancel := (eventsToCancel s)[objId := []]\<rparr>, [toCancel]) else (s, [])) }"

definition handleCancelEvents :: "'t lazyManager \<Rightarrow> 't lazyManager \<times> 't event list list" where
  "handleCancelEvents s =
     (s\<lparr>eventsToCancel := map (\<lambda>_. []) (eventsToCancel s)\<rparr>, filter (\<lambda>es. length es > 0) (eventsToCancel s))"

definition emptyLazyQueue ::
  "nat \<Rightarrow> ('t :: linorder) \<Rightarrow> 't lazyManager \<Rightarrow> ('t lazyManager \<times> 't event list list) option" where
  "emptyLazyQueue objId time s = do {
     queue \<leftarrow> vec_get (lazyQueues s) objId;
     toCancel \<leftarrow> vec_get (eventsToCancel s) objId;
     misses \<leftarrow> vec_get (lazyMissCount s) objId;
     let late = takeWhile (\<lambda>e. sendTime e < time) queue;
     handleCancelEvents_obj objId
       (s\<lparr>lazyQueues := (lazyQueues s)[objId := drop (length late) queue],
          eventsToCancel := (eventsToCancel s)[objId := toCancel @ late],
          lazyMissCount := (lazyMissCount s)[objId := misses + of_nat (length late)]\<rparr>) }"

definition emptyLazyQueues ::
  "('t :: linorder) \<Rightarrow> 't lazyManager \<Rightarrow> 't lazyManager \<times> 't event list list" where
  "emptyLazyQueues time s =
     (let late = map (takeWhile (\<lambda>e. sendTime e < time)) (lazyQueues s)
      in handleCancelEvents
        (s\<lparr>lazyQueues := map (\<lambda>q. drop (length (takeWhile (\<lambda>e. sendTime e < time) q)) q) (lazyQueues s),
           eventsToCancel := map2 (@) (eventsToCancel s) late,
           lazyMissCount := map2 (\<lambda>n l. n + of_nat (length l)) (lazyMissCount s) late\<rparr>))"

definition getLazyQMinTime_obj :: "nat \<Rightarrow> ('t :: {linorder, order_top}) lazyManager \<Rightarrow> 't option" where
  "getLazyQMinTime_obj objId s = do {
     queue \<leftarrow> vec_get (lazyQueues s) objId;
     Some (case queue of [] \<Rightarrow> top | e # _ \<Rightarrow> receiveTime e) }"

definition getLazyQMinTime :: "('t :: {linorder, order_top}) lazyManager \<Rightarrow> 't" where
  "getLazyQMinTime s = foldl (\<lambda>minTime queue. let curTime = (case queue of [] \<Rightarrow> top | e # _ \<Rightarrow> receiveTime e)
     in if curTime < minTime then curTime else minTime) top (lazyQueues s)"

text \<open>\<open>lazyCancel\<close>: the answer and the events handed to \<open>cancelEvents\<close>.\<close>

definition lazyCancel ::
  "('t event \<Rightarrow> 't event \<Rightarrow> bool) \<Rightarrow> (objectID \<Rightarrow> bool) \<Rightarrow> ('t :: linorder) event \<Rightarrow> 't lazyManager \<Rightarrow>
   ('t lazyManager \<times> bool \<times> 't event list list) option" where
  "lazyCancel eventCompare isLocal event s = do {
     let objId = unat (getSimulationObjectID (sender event));
     (s1, retval) \<leftarrow> checkLazyCancelEvent eventCompare isLocal event s;
     mode \<leftarrow> vec_get (compareAndInsertMode s1) objId;
     s2 \<leftarrow> (if retval \<and> mode then Some s1
            else do { outs \<leftarrow> om_insert isLocal event (lm_outputs s1); Some (s1\<lparr>lm_outputs := outs\<rparr>) });
     (s3, cancelled) \<leftarrow> handleCancelEvents_obj objId s2;
     Some (s3, retval, cancelled) }"

text \<open>
  \<open>LazyOutputManager::rollback\<close>; \<open>srt\<close> is \<open>std::sort\<close> with \<open>receiveTimeLessThan\<close>, which leaves the
  order of equal elements open.
\<close>

definition sort_spec :: "(('t :: linorder) event list \<Rightarrow> 't event list) \<Rightarrow> bool" where
  "sort_spec srt \<longleftrightarrow> (\<forall>es. mset (srt es) = mset es \<and> sorted (map receiveTime (srt es)))"

definition lazyRollback ::
  "(('t :: linorder) event list \<Rightarrow> 't event list) \<Rightarrow> (u32 \<Rightarrow> int) option \<Rightarrow> ('t \<Rightarrow> int) \<Rightarrow> nat \<Rightarrow> 't \<Rightarrow> 't lazyManager \<Rightarrow>
   ('t lazyManager \<times> (u32 \<times> int) option) option" where
  "lazyRollback srt ofc approx objId rollbackTime s = do {
     q \<leftarrow> vec_get (lm_outputs s) objId;
     queue \<leftarrow> vec_get (lazyQueues s) objId;
     let (q', tempOutEvents, recovery) = getEventsSentAtOrAfterAndRemove ofc approx rollbackTime q;
     Some (s\<lparr>lm_outputs := (lm_outputs s)[objId := q'],
             lazyQueues := (lazyQueues s)[objId := srt (queue @ tempOutEvents)]\<rparr>, recovery) }"

definition lazyOfcPurge :: "'t lazyManager \<Rightarrow> 't lazyManager" where
  "lazyOfcPurge s = s\<lparr>lm_outputs := map oe_ofcPurge (lm_outputs s),
     lazyQueues := map (\<lambda>_. []) (lazyQueues s), eventsToCancel := map (\<lambda>_. []) (eventsToCancel s),
     compareAndInsertMode := map (\<lambda>_. True) (compareAndInsertMode s),
     lazyHitCount := map (\<lambda>_. 0) (lazyHitCount s), lazyMissCount := map (\<lambda>_. 0) (lazyMissCount s)\<rparr>"

subsection \<open>Lemmas\<close>

text \<open>The send times of an object's events do not decrease, and an entry carries the times of its event.\<close>

definition oe_inv :: "('t :: linorder) outputEvents \<Rightarrow> bool" where
  "oe_inv q \<longleftrightarrow> sorted (map oe_mainTime (outputEventsLocal q)) \<and>
     sorted (map sendTime (outputEventsRemote q)) \<and>
     (\<forall>x \<in> set (outputEventsLocal q). oe_mainTime x = sendTime (oe_element x))"

definition sentEvents :: "'t outputEvents \<Rightarrow> 't event multiset" where
  "sentEvents q = mset (map oe_element (outputEventsLocal q)) + mset (outputEventsRemote q)"

lemma remoteWalk_eq:
  "remoteWalk t xs = (takeWhile (\<lambda>e. sendTime e \<ge> t) xs, dropWhile (\<lambda>e. sendTime e \<ge> t) xs)"
  by (induction t xs rule: remoteWalk.induct) simp_all

lemma localWalk_eq:
  "localWalk None approx t xs =
     (map oe_element (takeWhile (\<lambda>x. oe_mainTime x \<ge> t) xs), dropWhile (\<lambda>x. oe_mainTime x \<ge> t) xs, None)"
  by (induction "None :: (u32 \<Rightarrow> int) option" approx t xs rule: localWalk.induct) simp_all

text \<open>Walking back from the end of an ordered list finds exactly the late elements.\<close>

lemma takeWhile_rev_sorted:
  assumes "sorted (map f xs)"
  shows "takeWhile (\<lambda>x. f x \<ge> t) (rev xs) = rev (filter (\<lambda>x. f x \<ge> t) xs)"
    and "rev (dropWhile (\<lambda>x. f x \<ge> t) (rev xs)) = filter (\<lambda>x. f x < t) xs"
proof -
  have "takeWhile (\<lambda>x. f x \<ge> t) (rev xs) = rev (filter (\<lambda>x. f x \<ge> t) xs) \<and>
      rev (dropWhile (\<lambda>x. f x \<ge> t) (rev xs)) = filter (\<lambda>x. f x < t) xs"
    using assms
  proof (induction xs rule: rev_induct)
    case (snoc x xs)
    have le: "\<forall>y \<in> set xs. f y \<le> f x" using snoc.prems by (auto simp: sorted_append)
    show ?case
    proof (cases "t \<le> f x")
      case True
      then show ?thesis using snoc by (simp add: sorted_append not_less)
    next
      case False
      then have "filter (\<lambda>x. t \<le> f x) xs = []" "filter (\<lambda>x. f x < t) xs = xs"
        using le by (auto simp: filter_empty_conv intro!: filter_True)
      with False show ?thesis by (simp add: not_le)
    qed
  qed simp
  then show "takeWhile (\<lambda>x. f x \<ge> t) (rev xs) = rev (filter (\<lambda>x. f x \<ge> t) xs)"
    "rev (dropWhile (\<lambda>x. f x \<ge> t) (rev xs)) = filter (\<lambda>x. f x < t) xs" by blast+
qed

lemma getAndRemove_eq:
  assumes "oe_inv q"
  shows "getEventsSentAtOrAfterAndRemove None approx t q =
    (q\<lparr>outputEventsLocal := filter (\<lambda>x. oe_mainTime x < t) (outputEventsLocal q),
       outputEventsRemote := filter (\<lambda>e. sendTime e < t) (outputEventsRemote q),
       removedEventsRemote := removedEventsRemote q @ rev (filter (\<lambda>e. sendTime e \<ge> t) (outputEventsRemote q))\<rparr>,
     map oe_element (rev (filter (\<lambda>x. oe_mainTime x \<ge> t) (outputEventsLocal q))) @
       rev (filter (\<lambda>e. sendTime e \<ge> t) (outputEventsRemote q)), None)"
  using assms
  by (simp add: getEventsSentAtOrAfterAndRemove_def remoteWalk_eq localWalk_eq oe_inv_def takeWhile_rev_sorted)

lemma map_filter_entries:
  assumes "oe_inv q"
  shows "filter P (map (\<lambda>x. sendTime (oe_element x)) (outputEventsLocal q)) =
    filter P (map oe_mainTime (outputEventsLocal q))"
    and "map oe_element (filter (\<lambda>x. Q (oe_mainTime x)) (outputEventsLocal q)) =
      filter (\<lambda>e. Q (sendTime e)) (map oe_element (outputEventsLocal q))"
proof -
  have e: "\<forall>x \<in> set (outputEventsLocal q). oe_mainTime x = sendTime (oe_element x)"
    using assms by (simp add: oe_inv_def)
  show "filter P (map (\<lambda>x. sendTime (oe_element x)) (outputEventsLocal q)) =
      filter P (map oe_mainTime (outputEventsLocal q))"
    using e by (metis (no_types, lifting) map_eq_conv)
  show "map oe_element (filter (\<lambda>x. Q (oe_mainTime x)) (outputEventsLocal q)) =
      filter (\<lambda>e. Q (sendTime e)) (map oe_element (outputEventsLocal q))"
    using e by (simp add: filter_map comp_def cong: filter_cong)
qed

lemma oe_inv_filter:
  assumes "oe_inv q"
  shows "oe_inv (q\<lparr>outputEventsLocal := filter P (outputEventsLocal q),
     outputEventsRemote := filter R (outputEventsRemote q), removedEventsRemote := rs\<rparr>)"
  using assms by (auto simp: oe_inv_def sorted_filter)

lemma oe_inv_insert:
  assumes "oe_inv q" and "\<forall>e \<in># sentEvents q. sendTime e \<le> sendTime new"
  shows "oe_inv (oe_insert isLocal new q)" "sentEvents (oe_insert isLocal new q) = add_mset new (sentEvents q)"
  using assms by (auto simp: oe_inv_def oe_insert_def sentEvents_def sorted_append)

subsection \<open>Properties\<close>

lemma removed_exact:
  fixes q :: "('t :: linorder) outputEvents"
  assumes "oe_inv q" and "getEventsSentAtOrAfterAndRemove None approx t q = (q', found, recovery)"
  shows "mset found = {#e \<in># sentEvents q. t \<le> sendTime e#} \<and>
    sentEvents q' = {#e \<in># sentEvents q. sendTime e < t#} \<and> oe_inv q' \<and>
    mset (removedEventsRemote q') =
      mset (removedEventsRemote q) + {#e \<in># mset (outputEventsRemote q). t \<le> sendTime e#} \<and>
    recovery = None"
proof -
  have eqs: "q' = q\<lparr>outputEventsLocal := filter (\<lambda>x. oe_mainTime x < t) (outputEventsLocal q),
       outputEventsRemote := filter (\<lambda>e. sendTime e < t) (outputEventsRemote q),
       removedEventsRemote := removedEventsRemote q @ rev (filter (\<lambda>e. t \<le> sendTime e) (outputEventsRemote q))\<rparr>"
    "found = map oe_element (rev (filter (\<lambda>x. t \<le> oe_mainTime x) (outputEventsLocal q))) @
       rev (filter (\<lambda>e. t \<le> sendTime e) (outputEventsRemote q))" "recovery = None"
    using getAndRemove_eq [OF assms(1), of approx t] assms(2) by simp_all
  have l: "mset (map oe_element (filter (\<lambda>x. Q (oe_mainTime x)) (outputEventsLocal q))) =
      {#e \<in># mset (map oe_element (outputEventsLocal q)). Q (sendTime e)#}" for Q
    by (simp only: map_filter_entries(2) [OF assms(1)] mset_filter)
  have "mset found = {#e \<in># sentEvents q. t \<le> sendTime e#}"
    unfolding eqs(2) sentEvents_def by (simp only: mset_append mset_rev rev_map [symmetric] l mset_filter filter_union_mset)
  moreover have "sentEvents q' = {#e \<in># sentEvents q. sendTime e < t#}"
    unfolding eqs(1) sentEvents_def using l [of "\<lambda>x. x < t"] by simp
  ultimately show ?thesis
    using oe_inv_filter [OF assms(1)] eqs(3) unfolding eqs(1) by simp
qed

text \<open>a rollback cancels exactly the work it undoes: on an ordered output queue \<open>getEventsSentAtOrAfterAndRemove\<close> returns exactly the
  events sent at or after the time, keeps exactly the earlier ones, and keeps the cancelled remote events for
  fossil collection.\<close>

theorem getEventsSentAtOrAfterAndRemove_exact:
  fixes q :: "('t :: linorder) outputEvents"
  assumes "oe_inv q" and "getEventsSentAtOrAfterAndRemove None approx t q = (q', found, recovery)"
  shows "mset found = {#e \<in># sentEvents q. t \<le> sendTime e#} \<and>
    sentEvents q' = {#e \<in># sentEvents q. sendTime e < t#} \<and> oe_inv q' \<and>
    mset (removedEventsRemote q') =
      mset (removedEventsRemote q) + {#e \<in># mset (outputEventsRemote q). t \<le> sendTime e#} \<and>
    recovery = None"
  using removed_exact [OF assms] .

definition ex_outputs :: "intvtime outputEvents" where
  "ex_outputs = oe_insert (\<lambda>r. getSimulationManagerID r = 0)
     \<lparr>eventPtr = 8, sender = ObjectID 1 0, receiver = ObjectID 2 1, sendTime = IntVTime 6,
      receiveTime = IntVTime 9, eventId = 5, eventSize = 64\<rparr>
     (oe_insert (\<lambda>r. getSimulationManagerID r = 0)
       \<lparr>eventPtr = 7, sender = ObjectID 1 0, receiver = ObjectID 0 0, sendTime = IntVTime 3,
        receiveTime = IntVTime 4, eventId = 4, eventSize = 64\<rparr> OutputEvents)"

lemma ex_outputs_inv: "oe_inv ex_outputs"
  by code_simp

theorem getEventsSentAtOrAfterAndRemove_exact_witness:
  "mset (fst (snd (getEventsSentAtOrAfterAndRemove None getApproximateIntTime (IntVTime 5) ex_outputs))) =
     {#e \<in># sentEvents ex_outputs. IntVTime 5 \<le> sendTime e#}"
proof -
  obtain q' found rec where
    g: "getEventsSentAtOrAfterAndRemove None getApproximateIntTime (IntVTime 5) ex_outputs = (q', found, rec)"
    by (metis surj_pair)
  from getEventsSentAtOrAfterAndRemove_exact [OF ex_outputs_inv g] g show ?thesis by simp
qed

text \<open>Collecting fossils of the output queue at time \<open>g\<close> reclaims exactly the remote and cancelled events sent before \<open>g\<close> and
  does not change which events a later rollback to a time at or after \<open>g\<close> cancels.\<close>

theorem output_fossil_safe:
  fixes q :: "('t :: linorder) outputEvents"
  assumes "oe_inv q" and "g \<le> t" and "oe_fossilCollect g q = (q', gone)"
  shows "set gone = {e \<in> set (outputEventsRemote q) \<union> set (removedEventsRemote q). sendTime e < g} \<and>
    fst (snd (getEventsSentAtOrAfterAndRemove None approx t q')) =
      fst (snd (getEventsSentAtOrAfterAndRemove None approx t q))"
proof -
  have srt: "sorted (map sendTime (outputEventsRemote q))" "sorted (map oe_mainTime (outputEventsLocal q))"
    using assms(1) by (simp_all add: oe_inv_def)
  have q': "outputEventsRemote q' = filter (\<lambda>e. g \<le> sendTime e) (outputEventsRemote q)"
    "outputEventsLocal q' = filter (\<lambda>x. g \<le> oe_mainTime x) (outputEventsLocal q)"
    and gone: "gone = filter (\<lambda>e. sendTime e < g) (outputEventsRemote q) @
      filter (\<lambda>e. sendTime e < g) (removedEventsRemote q)"
    using assms(3) takeWhile_eq_filter_sorted [OF srt(1), of g] dropWhile_eq_filter_sorted [OF srt(1), of g]
      dropWhile_eq_filter_sorted [OF srt(2), of g]
    by (auto simp: oe_fossilCollect_def Let_def dropWhile_eq_drop not_less)
  have inv': "oe_inv q'" using assms(1) q' by (auto simp: oe_inv_def sorted_filter)
  have "filter (\<lambda>e. t \<le> sendTime e) (outputEventsRemote q') = filter (\<lambda>e. t \<le> sendTime e) (outputEventsRemote q)"
    "filter (\<lambda>x. t \<le> oe_mainTime x) (outputEventsLocal q') = filter (\<lambda>x. t \<le> oe_mainTime x) (outputEventsLocal q)"
    unfolding q' using assms(2) by (auto intro!: filter_cong)
  then show ?thesis
    using getAndRemove_eq [OF assms(1), of approx t] getAndRemove_eq [OF inv', of approx t] gone by auto
qed

theorem output_fossil_safe_witness:
  "fst (snd (getEventsSentAtOrAfterAndRemove None getApproximateIntTime (IntVTime 5)
     (fst (oe_fossilCollect (IntVTime 4) ex_outputs)))) =
   fst (snd (getEventsSentAtOrAfterAndRemove None getApproximateIntTime (IntVTime 5) ex_outputs))"
proof -
  have "IntVTime 4 \<le> IntVTime 5" by code_simp
  moreover obtain q' gone where f: "oe_fossilCollect (IntVTime 4) ex_outputs = (q', gone)" by fastforce
  ultimately show ?thesis
    using output_fossil_safe [OF ex_outputs_inv _ f, of "IntVTime 5" getApproximateIntTime] by simp
qed

definition lm_sizes :: "'t lazyManager \<Rightarrow> bool" where
  "lm_sizes s \<longleftrightarrow> length (lazyQueues s) = length (lm_outputs s) \<and> length (eventsToCancel s) = length (lm_outputs s) \<and>
     length (compareAndInsertMode s) = length (lm_outputs s) \<and> length (lazyHitCount s) = length (lm_outputs s) \<and>
     length (lazyMissCount s) = length (lm_outputs s)"

lemma sentEvents_oe_insert: "sentEvents (oe_insert isLocal e q) = add_mset e (sentEvents q)"
  by (simp add: oe_insert_def sentEvents_def)

lemma find_dropWhile_set: "find P (dropWhile Q xs) = Some x \<Longrightarrow> x \<in> set xs \<and> P x"
  by (auto simp: find_Some_iff dest!: nth_mem set_dropWhileD)

text \<open>What \<open>checkLazyCancelEvent\<close> does to the lists of the sender; only one mode reinserts the old event.\<close>

lemma checkLazyCancelEvent_ok:
  fixes s :: "('t :: linorder) lazyManager"
  assumes sz: "lm_sizes s" and i: "i = unat (getSimulationObjectID (sender event))" "i < length (lm_outputs s)"
    and own: "\<forall>e \<in> set (lazyQueues s ! i). unat (getSimulationObjectID (sender e)) = i"
    and rest: "rest = dropWhile (\<lambda>e. sendTime e < sendTime event) (lazyQueues s ! i)"
  shows "\<exists>s'. checkLazyCancelEvent cmp isLocal event s = Some (s', list_ex (\<lambda>e. cmp e event) rest) \<and>
    eventsToCancel s' = (eventsToCancel s)[i := eventsToCancel s ! i @
      takeWhile (\<lambda>e. sendTime e < sendTime event) (lazyQueues s ! i)] \<and>
    lazyQueues s' = (lazyQueues s)[i := remove_first (\<lambda>e. cmp e event) rest] \<and>
    compareAndInsertMode s' = compareAndInsertMode s \<and> lm_sizes s' \<and>
    lm_outputs s' = (if compareAndInsertMode s ! i then case find (\<lambda>e. cmp e event) rest of None \<Rightarrow> lm_outputs s
      | Some hit \<Rightarrow> (lm_outputs s)[i := oe_insert isLocal hit (lm_outputs s ! i)] else lm_outputs s)"
proof -
  let ?late = "takeWhile (\<lambda>e. sendTime e < sendTime event) (lazyQueues s ! i)"
  have get: "vec_get (lazyQueues s) i = Some (lazyQueues s ! i)"
    "vec_get (eventsToCancel s) i = Some (eventsToCancel s ! i)"
    "vec_get (compareAndInsertMode s) i = Some (compareAndInsertMode s ! i)"
    "vec_get (lazyHitCount s) i = Some (lazyHitCount s ! i)" "vec_get (lazyMissCount s) i = Some (lazyMissCount s ! i)"
    using sz i(2) by (simp_all add: lm_sizes_def vec_simps)
  have d: "drop (length ?late) (lazyQueues s ! i) = rest" unfolding rest by (rule dropWhile_eq_drop [symmetric])
  note unfold = checkLazyCancelEvent_def Let_def i(1) [symmetric] get bind.bind_lunit d
  have nf: "find P xs = None \<Longrightarrow> \<not> list_ex P xs \<and> remove_first P xs = xs" for P and xs :: "'t event list"
    by (induction xs) (auto split: if_splits)
  have fs: "find P xs = Some h \<Longrightarrow> list_ex P xs" for P h and xs :: "'t event list"
    by (auto simp: find_Some_iff list_ex_iff)
  show ?thesis
  proof (cases "find (\<lambda>e. cmp e event) rest")
    case None
    then show ?thesis
      using nf [OF None] sz unfolding unfold by (cases "rest = []") (simp_all add: lm_sizes_def)
  next
    case (Some hit)
    then have "unat (getSimulationObjectID (sender hit)) = i"
      using own find_dropWhile_set [of "\<lambda>e. cmp e event" "\<lambda>e. sendTime e < sendTime event"] rest by simp
    then have "om_insert isLocal hit (lm_outputs s) = Some ((lm_outputs s)[i := oe_insert isLocal hit (lm_outputs s ! i)])"
      using i(2) by (simp add: om_insert_def vec_simps)
    moreover have "rest \<noteq> []" using Some by auto
    moreover have "list_ex (\<lambda>e. cmp e event) rest = True" using fs [OF Some] by simp
    ultimately show ?thesis
      using Some sz unfolding unfold
      by (cases "remove_first (\<lambda>e. cmp e event) rest = []") (simp_all add: lm_sizes_def del: list_ex_iff)
  qed
qed

text \<open>Lazy cancellation: when an object regenerates an event, the events of its lazy queue that should have been sent before are cancelled; if a
  remaining one matches, the new event is suppressed, the old one returns to the output queue and leaves the lazy queue;
  otherwise the new event is sent and recorded. No event of the queue is lost or duplicated.\<close>

theorem lazyCancel_exact:
  fixes s :: "('t :: linorder) lazyManager"
  assumes "lm_sizes s" and "i = unat (getSimulationObjectID (sender event))" and "i < length (lm_outputs s)"
    and "compareAndInsertMode s ! i" and "eventsToCancel s ! i = []"
    and "\<forall>e \<in> set (lazyQueues s ! i). unat (getSimulationObjectID (sender e)) = i"
    and "late = takeWhile (\<lambda>e. sendTime e < sendTime event) (lazyQueues s ! i)"
    and "rest = dropWhile (\<lambda>e. sendTime e < sendTime event) (lazyQueues s ! i)"
  shows "\<exists>s' cancelled. lazyCancel cmp isLocal event s = Some (s', list_ex (\<lambda>e. cmp e event) rest, cancelled) \<and>
    concat cancelled = late \<and> lazyQueues s' ! i = remove_first (\<lambda>e. cmp e event) rest \<and>
    sentEvents (lm_outputs s' ! i) = sentEvents (lm_outputs s ! i) +
      {#case find (\<lambda>e. cmp e event) rest of None \<Rightarrow> event | Some hit \<Rightarrow> hit#} \<and>
    mset (lazyQueues s ! i) = mset (concat cancelled) + mset (lazyQueues s' ! i) +
      (case find (\<lambda>e. cmp e event) rest of None \<Rightarrow> {#} | Some hit \<Rightarrow> {#hit#})"
proof -
  obtain s1 where s1: "checkLazyCancelEvent cmp isLocal event s = Some (s1, list_ex (\<lambda>e. cmp e event) rest)"
    "eventsToCancel s1 = (eventsToCancel s)[i := late]"
    "lazyQueues s1 = (lazyQueues s)[i := remove_first (\<lambda>e. cmp e event) rest]"
    "compareAndInsertMode s1 = compareAndInsertMode s" "lm_sizes s1"
    "lm_outputs s1 = (case find (\<lambda>e. cmp e event) rest of None \<Rightarrow> lm_outputs s
      | Some hit \<Rightarrow> (lm_outputs s)[i := oe_insert isLocal hit (lm_outputs s ! i)])"
    using checkLazyCancelEvent_ok [OF assms(1-3,6,8), of cmp isLocal] assms(4,5,7) by auto
  have len: "i < length (lm_outputs s1)" "i < length (eventsToCancel s1)" "i < length (compareAndInsertMode s1)"
    "i < length (lazyQueues s)" "i < length (eventsToCancel s)"
    using s1(4-6) assms(1,3) by (auto simp: lm_sizes_def split: option.splits)
  have msets: "mset (lazyQueues s ! i) = mset late + mset rest"
    unfolding assms(7,8) by (simp add: mset_takeWhile_dropWhile)
  have hco: "\<exists>s'' cs. handleCancelEvents_obj i u = Some (s'', cs) \<and> concat cs = late \<and>
      lazyQueues s'' = lazyQueues u \<and> lm_outputs s'' = lm_outputs u"
    if "eventsToCancel u = (eventsToCancel s)[i := late]" for u :: "'t lazyManager"
    using that len(5) by (simp add: handleCancelEvents_obj_def vec_simps)
  show ?thesis
  proof (cases "find (\<lambda>e. cmp e event) rest")
    case None
    then have nf: "list_ex (\<lambda>e. cmp e event) rest = False" "remove_first (\<lambda>e. cmp e event) rest = rest"
      by (auto simp: find_None_iff list_ex_iff)
    let ?u = "s1\<lparr>lm_outputs := (lm_outputs s)[i := oe_insert isLocal event (lm_outputs s ! i)]\<rparr>"
    have ins: "om_insert isLocal event (lm_outputs s1) = Some (lm_outputs ?u)"
      using s1(6) None assms(2,3) by (simp add: om_insert_def vec_simps)
    obtain s'' cs where h: "handleCancelEvents_obj i ?u = Some (s'', cs)" "concat cs = late"
      "lazyQueues s'' = lazyQueues ?u" "lm_outputs s'' = lm_outputs ?u"
      using hco [of ?u] s1(2) by auto
    have "lazyCancel cmp isLocal event s = Some (s'', False, cs)"
      using s1(1) ins h(1) len(3) nf by (simp add: lazyCancel_def vec_simps flip: assms(2))
    then show ?thesis
      using h s1(3) len assms(3) None nf msets by (auto simp: sentEvents_oe_insert)
  next
    case (Some hit)
    then have f: "list_ex (\<lambda>e. cmp e event) rest = True" by (auto simp: find_Some_iff list_ex_iff)
    obtain s'' cs where h: "handleCancelEvents_obj i s1 = Some (s'', cs)" "concat cs = late"
      "lazyQueues s'' = lazyQueues s1" "lm_outputs s'' = lm_outputs s1"
      using hco [OF s1(2)] by blast
    have "lazyCancel cmp isLocal event s = Some (s'', True, cs)"
      using s1(1,4) h(1) len(3) f assms(4) by (simp add: lazyCancel_def vec_simps flip: assms(2))
    then show ?thesis
      using h s1(3,6) len assms(3) Some f msets mset_remove_first [OF Some] by (auto simp: sentEvents_oe_insert)
  qed
qed

text \<open>A sender with two events in its lazy queue; the first event is received later than it should be matched.\<close>

definition lazyEvent :: "nat \<Rightarrow> u32 \<Rightarrow> u32 \<Rightarrow> u32 \<Rightarrow> intvtime event" where
  "lazyEvent ptr snd_t rcv eid = \<lparr>eventPtr = ptr, sender = ObjectID 0 0, receiver = ObjectID 1 0,
     sendTime = IntVTime snd_t, receiveTime = IntVTime rcv, eventId = eid, eventSize = 64\<rparr>"

definition ex_lazy :: "intvtime lazyManager" where
  "ex_lazy = (LazyOutputManager 1)\<lparr>lazyQueues := [[lazyEvent 1 2 3 1, lazyEvent 2 4 6 2]]\<rparr>"

theorem lazyCancel_exact_witness:
  "\<exists>s' cancelled. lazyCancel compareEvents (\<lambda>_. True) (lazyEvent 3 4 6 9) ex_lazy = Some (s', True, cancelled) \<and>
     concat cancelled = [lazyEvent 1 2 3 1] \<and> lazyQueues s' ! 0 = []"
proof -
  let ?e = "lazyEvent 3 4 6 9"
  have a: "lm_sizes ex_lazy" "0 = unat (getSimulationObjectID (sender ?e))" "0 < length (lm_outputs ex_lazy)"
    "compareAndInsertMode ex_lazy ! 0" "eventsToCancel ex_lazy ! 0 = []"
    "\<forall>e \<in> set (lazyQueues ex_lazy ! 0). unat (getSimulationObjectID (sender e)) = 0"
    "[lazyEvent 1 2 3 1] = takeWhile (\<lambda>e. sendTime e < sendTime ?e) (lazyQueues ex_lazy ! 0)"
    "[lazyEvent 2 4 6 2] = dropWhile (\<lambda>e. sendTime e < sendTime ?e) (lazyQueues ex_lazy ! 0)"
    by code_simp+
  have "list_ex (\<lambda>e. compareEvents e ?e) [lazyEvent 2 4 6 2] = True"
    "remove_first (\<lambda>e. compareEvents e ?e) [lazyEvent 2 4 6 2] = []" by code_simp+
  with lazyCancel_exact [OF a, of compareEvents "\<lambda>_. True"] show ?thesis by auto
qed

text \<open>After a rollback the lazy queue holds its old events and exactly the events sent at or after the rollback time, in the
  order of their receive times, and those events have left the output queue.\<close>

theorem lazyRollback_collects:
  fixes s :: "('t :: linorder) lazyManager"
  assumes "sort_spec srt" and "lm_sizes s" and "i < length (lm_outputs s)" and "oe_inv (lm_outputs s ! i)"
  shows "\<exists>s'. lazyRollback srt None approx i t s = Some (s', None) \<and>
    mset (lazyQueues s' ! i) = mset (lazyQueues s ! i) + {#e \<in># sentEvents (lm_outputs s ! i). t \<le> sendTime e#} \<and>
    sorted (map receiveTime (lazyQueues s' ! i)) \<and>
    sentEvents (lm_outputs s' ! i) = {#e \<in># sentEvents (lm_outputs s ! i). sendTime e < t#} \<and>
    oe_inv (lm_outputs s' ! i)"
proof -
  obtain q' found rec where
    g: "getEventsSentAtOrAfterAndRemove None approx t (lm_outputs s ! i) = (q', found, rec)"
    by (metis surj_pair)
  have eqs: "q' = (lm_outputs s ! i)\<lparr>outputEventsLocal := filter (\<lambda>x. oe_mainTime x < t) (outputEventsLocal (lm_outputs s ! i)),
       outputEventsRemote := filter (\<lambda>e. sendTime e < t) (outputEventsRemote (lm_outputs s ! i)),
       removedEventsRemote := removedEventsRemote (lm_outputs s ! i) @
         rev (filter (\<lambda>e. t \<le> sendTime e) (outputEventsRemote (lm_outputs s ! i)))\<rparr>"
    "rec = None"
    using getAndRemove_eq [OF assms(4), of approx t] g by simp_all
  have m: "mset found = {#e \<in># sentEvents (lm_outputs s ! i). t \<le> sendTime e#}"
    "sentEvents q' = {#e \<in># sentEvents (lm_outputs s ! i). sendTime e < t#}" "oe_inv q'"
    using removed_exact [OF assms(4) g] by auto
  have len: "i < length (lazyQueues s)" using assms(2,3) by (simp add: lm_sizes_def)
  then show ?thesis
    using assms(1,3) g m eqs(2) by (auto simp: lazyRollback_def vec_simps sort_spec_def)
qed

theorem lazyRollback_collects_witness:
  "\<exists>s'. lazyRollback (sort_key receiveTime) None getApproximateIntTime 0 (IntVTime 5)
      ((LazyOutputManager 1)\<lparr>lm_outputs := [ex_outputs]\<rparr>) = Some (s', None) \<and>
    sorted (map receiveTime (lazyQueues s' ! 0))"
proof -
  let ?s = "(LazyOutputManager 1)\<lparr>lm_outputs := [ex_outputs]\<rparr>"
  have "sort_spec (sort_key receiveTime :: intvtime event list \<Rightarrow> _)" by (simp add: sort_spec_def)
  moreover have "lm_sizes ?s" "0 < length (lm_outputs ?s)"
    by (simp_all add: lm_sizes_def LazyOutputManager_def OutputManagerImplementationBase_def)
  moreover have "oe_inv (lm_outputs ?s ! 0)" using ex_outputs_inv by simp
  ultimately show ?thesis
    using lazyRollback_collects [of "sort_key receiveTime" ?s 0 getApproximateIntTime "IntVTime 5"] by auto
qed

text \<open>The lazy queue is ordered by receive time but scanned by send time: with events sent at 4 and 2 and received at 5 and 6, emptying
  the queue up to time 3 stops at the first event and cancels nothing, although the event sent at 2 is overdue.\<close>

theorem lazy_scan_stops_early:
  "emptyLazyQueues (IntVTime 3) ((LazyOutputManager 1)\<lparr>lazyQueues := [sort_key receiveTime
     [lazyEvent 2 2 6 2, lazyEvent 1 4 5 1]]\<rparr>) =
   ((LazyOutputManager 1)\<lparr>lazyQueues := [[lazyEvent 1 4 5 1, lazyEvent 2 2 6 2]]\<rparr>, [])"
  by code_simp

end
