(* ===== verification/Serialization.thy ===== *)
theory Serialization
  imports VirtualTime
begin

text \<open>
  \<open>SerializedInstance.cpp\<close> and \<open>SerializedInstance.h\<close>: a byte vector with typed fields and an extraction position.
  The byte order of the machine is the argument \<open>big\<close>. Reading past the end of the data
  and a field of an unexpected type (which aborts) are \<open>None\<close>. A \<open>double\<close> is its 64 bit pattern.
\<close>

subsection \<open>Bytes of machine words\<close>

fun nat_bytes :: "nat \<Rightarrow> nat \<Rightarrow> char list" where
  "nat_bytes 0 n = []"
| "nat_bytes (Suc k) n = char_of n # nat_bytes k (n div 256)"

fun bytes_nat :: "char list \<Rightarrow> nat" where
  "bytes_nat [] = 0"
| "bytes_nat (c # cs) = of_char c + 256 * bytes_nat cs"

definition order_bytes :: "bool \<Rightarrow> char list \<Rightarrow> char list" where
  "order_bytes big cs = (if big then rev cs else cs)"

lemma length_nat_bytes [simp]: "length (nat_bytes k n) = k"
  by (induction k arbitrary: n) simp_all

lemma bytes_nat_bytes: "bytes_nat (nat_bytes k n) = n mod 256 ^ k"
  by (induction k arbitrary: n) (simp_all add: of_char_of mod_mult2_eq)

lemma order_bytes_twice [simp]: "order_bytes big (order_bytes big cs) = cs"
  by (simp add: order_bytes_def)

lemma length_order_bytes [simp]: "length (order_bytes big cs) = length cs"
  by (simp add: order_bytes_def)

subsection \<open>Instances\<close>

datatype dataType = CHAR_BLOB | INT_TYPE | UNSIGNED | LONGLONG | DOUBLE | SERIALIZED_INSTANCE

definition typeCode :: "dataType \<Rightarrow> u32" where
  "typeCode t = (case t of CHAR_BLOB \<Rightarrow> 0 | INT_TYPE \<Rightarrow> 1 | UNSIGNED \<Rightarrow> 2 | LONGLONG \<Rightarrow> 3 | DOUBLE \<Rightarrow> 4
     | SERIALIZED_INSTANCE \<Rightarrow> 5)"

record serializedInstance =
  bytes :: "char list"
  extractIterator :: "nat option"

definition writeBytes :: "char list \<Rightarrow> serializedInstance \<Rightarrow> serializedInstance" where
  "writeBytes toAdd s = s\<lparr>bytes := bytes s @ toAdd\<rparr>"

definition writeInt :: "bool \<Rightarrow> u32 \<Rightarrow> serializedInstance \<Rightarrow> serializedInstance" where
  "writeInt big toWrite s = writeBytes (order_bytes big (nat_bytes 4 (unat toWrite))) s"

definition writeLongLong :: "bool \<Rightarrow> u64 \<Rightarrow> serializedInstance \<Rightarrow> serializedInstance" where
  "writeLongLong big toWrite s = writeBytes (order_bytes big (nat_bytes 8 (unat toWrite))) s"

text \<open>Raw reads at a position of the data: the value and the new position.\<close>

definition readBytes :: "nat \<Rightarrow> char list \<Rightarrow> nat \<Rightarrow> (char list \<times> nat) option" where
  "readBytes numBytes cs pos =
     (if pos + numBytes \<le> length cs then Some (take numBytes (drop pos cs), pos + numBytes) else None)"

definition readInt :: "bool \<Rightarrow> char list \<Rightarrow> nat \<Rightarrow> (u32 \<times> nat) option" where
  "readInt big cs pos = do {
     (b, pos') \<leftarrow> readBytes 4 cs pos;
     Some (of_nat (bytes_nat (order_bytes big b)), pos') }"

definition readLongLong :: "bool \<Rightarrow> char list \<Rightarrow> nat \<Rightarrow> (u64 \<times> nat) option" where
  "readLongLong big cs pos = do {
     (b, pos') \<leftarrow> readBytes 8 cs pos;
     Some (of_nat (bytes_nat (order_bytes big b)), pos') }"

definition checkType :: "bool \<Rightarrow> dataType \<Rightarrow> char list \<Rightarrow> nat \<Rightarrow> nat option" where
  "checkType big expected cs pos = do {
     (t, pos') \<leftarrow> readInt big cs pos;
     if t = typeCode expected then Some pos' else None }"

definition addBytes :: "bool \<Rightarrow> char list \<Rightarrow> serializedInstance \<Rightarrow> serializedInstance" where
  "addBytes big toAdd s =
     writeBytes toAdd (writeInt big (of_nat (length toAdd)) (writeInt big (typeCode CHAR_BLOB) s))"

definition addString :: "bool \<Rightarrow> string \<Rightarrow> serializedInstance \<Rightarrow> serializedInstance" where
  "addString big toAdd s = addBytes big (toAdd @ [CHR 0x00]) s"

definition SerializedInstance :: "bool \<Rightarrow> string \<Rightarrow> serializedInstance" where
  "SerializedInstance big dataType = addString big dataType \<lparr>bytes = [], extractIterator = None\<rparr>"

definition addUnsigned :: "bool \<Rightarrow> u32 \<Rightarrow> serializedInstance \<Rightarrow> serializedInstance" where
  "addUnsigned big toAdd s = writeInt big toAdd (writeInt big (typeCode UNSIGNED) s)"

definition addInt :: "bool \<Rightarrow> u32 \<Rightarrow> serializedInstance \<Rightarrow> serializedInstance" where
  "addInt big toAdd s = writeInt big toAdd (writeInt big (typeCode INT_TYPE) s)"

definition addInt64 :: "bool \<Rightarrow> u64 \<Rightarrow> serializedInstance \<Rightarrow> serializedInstance" where
  "addInt64 big toAdd s = writeLongLong big toAdd (writeInt big (typeCode LONGLONG) s)"

definition addDouble :: "bool \<Rightarrow> u64 \<Rightarrow> serializedInstance \<Rightarrow> serializedInstance" where
  "addDouble big toAdd s = writeLongLong big toAdd (writeInt big (typeCode DOUBLE) s)"

definition addSerializedInstance :: "bool \<Rightarrow> char list \<Rightarrow> serializedInstance \<Rightarrow> serializedInstance" where
  "addSerializedInstance big toAdd s = addBytes big toAdd (writeInt big (typeCode SERIALIZED_INSTANCE) s)"

text \<open>The body of \<open>getString\<close> at a position, \<open>initExtract\<close>, which skips the data type first, and the extractors.\<close>

definition stringAt :: "bool \<Rightarrow> char list \<Rightarrow> nat \<Rightarrow> (string \<times> nat) option" where
  "stringAt big cs pos = do {
     pos1 \<leftarrow> checkType big CHAR_BLOB cs pos;
     (numChars, pos2) \<leftarrow> readInt big cs pos1;
     if unat numChars > 0
     then do { (b, pos3) \<leftarrow> readBytes (unat numChars) cs pos2; Some (butlast b, pos3) }
     else Some ([], pos2) }"

definition initExtract :: "bool \<Rightarrow> serializedInstance \<Rightarrow> (nat \<times> serializedInstance) option" where
  "initExtract big s =
     (case extractIterator s of
        Some pos \<Rightarrow> Some (pos, s)
      | None \<Rightarrow> do { (_, pos) \<leftarrow> stringAt big (bytes s) 0; Some (pos, s\<lparr>extractIterator := Some pos\<rparr>) })"

definition getString :: "bool \<Rightarrow> serializedInstance \<Rightarrow> (string \<times> serializedInstance) option" where
  "getString big s = do {
     (pos, s') \<leftarrow> initExtract big s;
     (v, pos') \<leftarrow> stringAt big (bytes s) pos;
     Some (v, s'\<lparr>extractIterator := Some pos'\<rparr>) }"

definition getDataType :: "bool \<Rightarrow> serializedInstance \<Rightarrow> string option" where
  "getDataType big s = do {
     pos1 \<leftarrow> checkType big CHAR_BLOB (bytes s) 0;
     (numChars, pos2) \<leftarrow> readInt big (bytes s) pos1;
     if unat numChars > 0
     then do { (b, _) \<leftarrow> readBytes (unat numChars - 1) (bytes s) pos2; Some b }
     else None }"

definition getUnsigned :: "bool \<Rightarrow> serializedInstance \<Rightarrow> (u32 \<times> serializedInstance) option" where
  "getUnsigned big s = do {
     (pos, s') \<leftarrow> initExtract big s;
     pos1 \<leftarrow> checkType big UNSIGNED (bytes s) pos;
     (v, pos') \<leftarrow> readInt big (bytes s) pos1;
     Some (v, s'\<lparr>extractIterator := Some pos'\<rparr>) }"

definition getInt :: "bool \<Rightarrow> serializedInstance \<Rightarrow> (u32 \<times> serializedInstance) option" where
  "getInt big s = do {
     (pos, s') \<leftarrow> initExtract big s;
     pos1 \<leftarrow> checkType big INT_TYPE (bytes s) pos;
     (v, pos') \<leftarrow> readInt big (bytes s) pos1;
     Some (v, s'\<lparr>extractIterator := Some pos'\<rparr>) }"

definition getInt64 :: "bool \<Rightarrow> serializedInstance \<Rightarrow> (u64 \<times> serializedInstance) option" where
  "getInt64 big s = do {
     (pos, s') \<leftarrow> initExtract big s;
     pos1 \<leftarrow> checkType big LONGLONG (bytes s) pos;
     (v, pos') \<leftarrow> readLongLong big (bytes s) pos1;
     Some (v, s'\<lparr>extractIterator := Some pos'\<rparr>) }"

definition getDouble :: "bool \<Rightarrow> serializedInstance \<Rightarrow> (u64 \<times> serializedInstance) option" where
  "getDouble big s = do {
     (pos, s') \<leftarrow> initExtract big s;
     pos1 \<leftarrow> checkType big DOUBLE (bytes s) pos;
     (v, pos') \<leftarrow> readLongLong big (bytes s) pos1;
     Some (v, s'\<lparr>extractIterator := Some pos'\<rparr>) }"

definition getBytes :: "bool \<Rightarrow> nat \<Rightarrow> serializedInstance \<Rightarrow> (char list \<times> serializedInstance) option" where
  "getBytes big numBytes s = do {
     (pos, s') \<leftarrow> initExtract big s;
     pos1 \<leftarrow> checkType big CHAR_BLOB (bytes s) pos;
     (n, pos2) \<leftarrow> readInt big (bytes s) pos1;
     if unat n = numBytes
     then do { (b, pos') \<leftarrow> readBytes numBytes (bytes s) pos2; Some (b, s'\<lparr>extractIterator := Some pos'\<rparr>) }
     else None }"

definition vectorCharAt :: "bool \<Rightarrow> char list \<Rightarrow> nat \<Rightarrow> (char list \<times> nat) option" where
  "vectorCharAt big cs pos = do {
     pos1 \<leftarrow> checkType big CHAR_BLOB cs pos;
     (numChars, pos2) \<leftarrow> readInt big cs pos1;
     readBytes (unat numChars) cs pos2 }"

definition getVectorChar :: "bool \<Rightarrow> serializedInstance \<Rightarrow> (char list \<times> serializedInstance) option" where
  "getVectorChar big s = do {
     (pos, s') \<leftarrow> initExtract big s;
     (b, pos') \<leftarrow> vectorCharAt big (bytes s) pos;
     Some (b, s'\<lparr>extractIterator := Some pos'\<rparr>) }"

definition getSerializedInstance ::
  "bool \<Rightarrow> serializedInstance \<Rightarrow> (serializedInstance \<times> serializedInstance) option" where
  "getSerializedInstance big s = do {
     (pos, s') \<leftarrow> initExtract big s;
     pos1 \<leftarrow> checkType big SERIALIZED_INSTANCE (bytes s) pos;
     (b, pos') \<leftarrow> vectorCharAt big (bytes s) pos1;
     Some (\<lparr>bytes = b, extractIterator = None\<rparr>, s'\<lparr>extractIterator := Some pos'\<rparr>) }"

text \<open>Several fields of one type, as the loops over a vector write and read them.\<close>

primrec putAll :: "('a \<Rightarrow> serializedInstance \<Rightarrow> serializedInstance) \<Rightarrow> 'a list \<Rightarrow> serializedInstance \<Rightarrow> serializedInstance" where
  "putAll put [] s = s"
| "putAll put (v # vs) s = putAll put vs (put v s)"

primrec getAll ::
  "(serializedInstance \<Rightarrow> ('a \<times> serializedInstance) option) \<Rightarrow> nat \<Rightarrow> serializedInstance \<Rightarrow>
   ('a list \<times> serializedInstance) option" where
  "getAll get 0 s = Some ([], s)"
| "getAll get (Suc n) s = do { (v, s1) \<leftarrow> get s; (vs, s2) \<leftarrow> getAll get n s1; Some (v # vs, s2) }"

subsection \<open>The interface of a field type\<close>

text \<open>
  A field type writes its encoding at the end of the data; its extractor, started where the encoding begins,
  returns the value and moves behind it. Before the first extraction the data type is skipped.
\<close>

definition cursor :: "char list \<Rightarrow> char list \<Rightarrow> serializedInstance" where
  "cursor pre post = \<lparr>bytes = pre @ post, extractIterator = Some (length pre)\<rparr>"

locale codec =
  fixes big :: bool
    and put :: "'a \<Rightarrow> serializedInstance \<Rightarrow> serializedInstance"
    and get :: "serializedInstance \<Rightarrow> ('a \<times> serializedInstance) option"
    and valid :: "'a \<Rightarrow> bool"
    and enc :: "'a \<Rightarrow> char list"
  assumes put_law: "put v s = s\<lparr>bytes := bytes s @ enc v\<rparr>"
    and get_law: "valid v \<Longrightarrow> bytes s = pre @ enc v @ post \<Longrightarrow> extractIterator s = Some (length pre) \<Longrightarrow>
      get s = Some (v, s\<lparr>extractIterator := Some (length pre + length (enc v))\<rparr>)"
    and init_law: "extractIterator s = None \<Longrightarrow> stringAt big (bytes s) 0 = Some (ty, pos) \<Longrightarrow>
      get s = get (s\<lparr>extractIterator := Some pos\<rparr>)"
begin

lemma get_cursor: "valid v \<Longrightarrow> get (cursor pre (enc v @ post)) = Some (v, cursor (pre @ enc v) post)"
  using get_law [of v "cursor pre (enc v @ post)" pre post] by (simp add: cursor_def)

lemma get_cursor_end: "valid v \<Longrightarrow> get (cursor pre (enc v)) = Some (v, cursor (pre @ enc v) [])"
  using get_cursor [of v pre "[]"] by simp

lemma get_fresh:
  assumes "stringAt big (ty @ rest) 0 = Some (name, length ty)"
  shows "get \<lparr>bytes = ty @ rest, extractIterator = None\<rparr> = get (cursor ty rest)"
  using init_law [of "\<lparr>bytes = ty @ rest, extractIterator = None\<rparr>"] assms by (simp add: cursor_def)

lemma put_list_law: "putAll put vs s = s\<lparr>bytes := bytes s @ concat (map enc vs)\<rparr>"
  by (induction vs arbitrary: s) (simp_all add: put_law)

lemma get_list_law:
  assumes "\<forall>v \<in> set vs. valid v" and "bytes s = pre @ concat (map enc vs) @ post"
    and "extractIterator s = Some (length pre)"
  shows "getAll get (length vs) s =
    Some (vs, s\<lparr>extractIterator := Some (length pre + length (concat (map enc vs)))\<rparr>)"
  using assms
proof (induction vs arbitrary: s pre)
  case (Cons v vs)
  let ?s1 = "s\<lparr>extractIterator := Some (length pre + length (enc v))\<rparr>"
  have "get s = Some (v, ?s1)"
    using Cons.prems by (intro get_law) auto
  moreover have "getAll get (length vs) ?s1 =
      Some (vs, ?s1\<lparr>extractIterator := Some (length (pre @ enc v) + length (concat (map enc vs)))\<rparr>)"
    using Cons.prems by (intro Cons.IH) auto
  ultimately show ?case by (simp add: add.assoc)
qed simp

lemma get_list_cursor:
  "\<forall>v \<in> set vs. valid v \<Longrightarrow> getAll get (length vs) (cursor pre (concat (map enc vs) @ post)) =
     Some (vs, cursor (pre @ concat (map enc vs)) post)"
  using get_list_law [of vs "cursor pre (concat (map enc vs) @ post)" pre post] by (simp add: cursor_def)

end

definition encInt :: "bool \<Rightarrow> u32 \<Rightarrow> char list" where
  "encInt big w = order_bytes big (nat_bytes 4 (unat w))"

definition encLong :: "bool \<Rightarrow> u64 \<Rightarrow> char list" where
  "encLong big w = order_bytes big (nat_bytes 8 (unat w))"

definition encBlob :: "bool \<Rightarrow> char list \<Rightarrow> char list" where
  "encBlob big cs = encInt big (typeCode CHAR_BLOB) @ encInt big (of_nat (length cs)) @ cs"

definition encString :: "bool \<Rightarrow> string \<Rightarrow> char list" where
  "encString big cs = encBlob big (cs @ [CHR 0x00])"

definition encInstance :: "bool \<Rightarrow> char list \<Rightarrow> char list" where
  "encInstance big cs = encInt big (typeCode SERIALIZED_INSTANCE) @ encBlob big cs"

definition encUnsigned :: "bool \<Rightarrow> u32 \<Rightarrow> char list" where
  "encUnsigned big w = encInt big (typeCode UNSIGNED) @ encInt big w"

definition encSigned :: "bool \<Rightarrow> u32 \<Rightarrow> char list" where
  "encSigned big w = encInt big (typeCode INT_TYPE) @ encInt big w"

definition encLongLong :: "bool \<Rightarrow> u64 \<Rightarrow> char list" where
  "encLongLong big w = encInt big (typeCode LONGLONG) @ encLong big w"

definition encDouble :: "bool \<Rightarrow> u64 \<Rightarrow> char list" where
  "encDouble big w = encInt big (typeCode DOUBLE) @ encLong big w"

lemma length_enc [simp]: "length (encInt big w) = 4" "length (encLong big x) = 8"
  by (simp_all add: encInt_def encLong_def)

lemma readBytes_at:
  "pos = length pre \<Longrightarrow> readBytes (length b) (pre @ b @ post) pos = Some (b, pos + length b)"
  by (simp add: readBytes_def)

lemma readInt_at:
  assumes "pos = length pre"
  shows "readInt big (pre @ encInt big w @ post) pos = Some (w, pos + 4)"
proof -
  have "readBytes 4 (pre @ encInt big w @ post) pos = Some (encInt big w, pos + 4)"
    using readBytes_at [OF assms, of "encInt big w" post] by simp
  moreover have "of_nat (bytes_nat (order_bytes big (encInt big w))) = w"
  proof -
    have "unat w < 256 ^ 4" using unsigned_less [of w, where 'a = nat] by simp
    then show ?thesis by (simp add: encInt_def bytes_nat_bytes)
  qed
  ultimately show ?thesis by (simp add: readInt_def)
qed

lemma readLongLong_at:
  assumes "pos = length pre"
  shows "readLongLong big (pre @ encLong big w @ post) pos = Some (w, pos + 8)"
proof -
  have "readBytes 8 (pre @ encLong big w @ post) pos = Some (encLong big w, pos + 8)"
    using readBytes_at [OF assms, of "encLong big w" post] by simp
  moreover have "of_nat (bytes_nat (order_bytes big (encLong big w))) = w"
  proof -
    have "unat w < 256 ^ 8" using unsigned_less [of w, where 'a = nat] by simp
    then show ?thesis by (simp add: encLong_def bytes_nat_bytes)
  qed
  ultimately show ?thesis by (simp add: readLongLong_def)
qed

lemma checkType_at:
  "pos = length pre \<Longrightarrow> checkType big t (pre @ encInt big (typeCode t) @ post) pos = Some (pos + 4)"
  by (simp add: checkType_def readInt_at)

lemma typeCode_inj: "typeCode a = typeCode b \<longleftrightarrow> a = b"
  by (cases a; cases b) (simp_all add: typeCode_def)

lemma checkType_wrong:
  "pos = length pre \<Longrightarrow> t \<noteq> t' \<Longrightarrow> checkType big t (pre @ encInt big (typeCode t') @ post) pos = None"
  by (simp add: checkType_def readInt_at typeCode_inj)

text \<open>Reads behind a field that starts with its type code.\<close>

lemma readInt_after:
  "pos = length pre + length mid \<Longrightarrow> readInt big (pre @ mid @ encInt big w @ post) pos = Some (w, pos + 4)"
  using readInt_at [of pos "pre @ mid" big w post] by simp

lemma readLongLong_after:
  "pos = length pre + length mid \<Longrightarrow> readLongLong big (pre @ mid @ encLong big w @ post) pos = Some (w, pos + 8)"
  using readLongLong_at [of pos "pre @ mid" big w post] by simp

lemma vectorCharAt_at:
  assumes "pos = length pre" and "length cs < 2 ^ 32"
  shows "vectorCharAt big (pre @ encBlob big cs @ post) pos = Some (cs, pos + length (encBlob big cs))"
proof -
  have n: "unat (of_nat (length cs) :: u32) = length cs"
    using assms(2) by (simp add: unat_of_nat)
  have "readBytes (length cs) (pre @ encBlob big cs @ post) (pos + 8) = Some (cs, pos + 8 + length cs)"
    using readBytes_at [of "pos + 8" "pre @ encInt big (typeCode CHAR_BLOB) @ encInt big (of_nat (length cs))" cs post] assms(1)
    by (simp add: encBlob_def)
  moreover have "checkType big CHAR_BLOB (pre @ encBlob big cs @ post) pos = Some (pos + 4)"
    using checkType_at [OF assms(1), of big CHAR_BLOB] by (simp add: encBlob_def)
  moreover have "readInt big (pre @ encBlob big cs @ post) (pos + 4) = Some (of_nat (length cs), pos + 8)"
    using readInt_after [of "pos + 4" pre "encInt big (typeCode CHAR_BLOB)" big "of_nat (length cs)" "cs @ post"] assms(1)
    by (simp add: encBlob_def)
  ultimately show ?thesis by (simp add: vectorCharAt_def n encBlob_def)
qed

lemma stringAt_vectorCharAt:
  "vectorCharAt big cs pos = Some (v @ [c], pos') \<Longrightarrow> stringAt big cs pos = Some (v, pos')"
  by (auto simp: vectorCharAt_def stringAt_def readBytes_def split: bind_splits if_splits)

lemma stringAt_at:
  assumes "pos = length pre" and "length v + 1 < 2 ^ 32"
  shows "stringAt big (pre @ encString big v @ post) pos = Some (v, pos + length (encString big v))"
  unfolding encString_def
  using assms by (intro stringAt_vectorCharAt [where c = "CHR 0x00"] vectorCharAt_at) auto

lemma initExtract_Some: "extractIterator s = Some pos \<Longrightarrow> initExtract big s = Some (pos, s)"
  by (simp add: initExtract_def)

lemma initExtract_None:
  "extractIterator s = None \<Longrightarrow> stringAt big (bytes s) 0 = Some (ty, pos) \<Longrightarrow>
   initExtract big s = Some (pos, s\<lparr>extractIterator := Some pos\<rparr>)"
  by (simp add: initExtract_def)

lemmas add_simps = addUnsigned_def addInt_def addInt64_def addDouble_def addBytes_def addString_def
  addSerializedInstance_def writeInt_def writeLongLong_def writeBytes_def
  encInt_def encLong_def encBlob_def encString_def encInstance_def
  encUnsigned_def encSigned_def encLongLong_def encDouble_def

interpretation uns: codec big "addUnsigned big" "getUnsigned big" "\<lambda>_. True"
  "encUnsigned big"
proof
  fix v and s :: serializedInstance and pre post
  assume "bytes s = pre @ encUnsigned big v @ post" "extractIterator s = Some (length pre)"
  then show "getUnsigned big s = Some (v, s\<lparr>extractIterator :=
      Some (length pre + length (encUnsigned big v))\<rparr>)"
    by (simp add: getUnsigned_def initExtract_Some checkType_at readInt_after encUnsigned_def)
qed (simp_all add: add_simps getUnsigned_def initExtract_None initExtract_Some)

interpretation sint: codec big "addInt big" "getInt big" "\<lambda>_. True"
  "encSigned big"
proof
  fix v and s :: serializedInstance and pre post
  assume "bytes s = pre @ encSigned big v @ post" "extractIterator s = Some (length pre)"
  then show "getInt big s = Some (v, s\<lparr>extractIterator :=
      Some (length pre + length (encSigned big v))\<rparr>)"
    by (simp add: getInt_def initExtract_Some checkType_at readInt_after encSigned_def)
qed (simp_all add: add_simps getInt_def initExtract_None initExtract_Some)

interpretation llong: codec big "addInt64 big" "getInt64 big" "\<lambda>_. True"
  "encLongLong big"
proof
  fix v and s :: serializedInstance and pre post
  assume "bytes s = pre @ encLongLong big v @ post" "extractIterator s = Some (length pre)"
  then show "getInt64 big s = Some (v, s\<lparr>extractIterator :=
      Some (length pre + length (encLongLong big v))\<rparr>)"
    by (simp add: getInt64_def initExtract_Some checkType_at readLongLong_after encLongLong_def)
qed (simp_all add: add_simps getInt64_def initExtract_None initExtract_Some)

interpretation dbl: codec big "addDouble big" "getDouble big" "\<lambda>_. True"
  "encDouble big"
proof
  fix v and s :: serializedInstance and pre post
  assume "bytes s = pre @ encDouble big v @ post" "extractIterator s = Some (length pre)"
  then show "getDouble big s = Some (v, s\<lparr>extractIterator :=
      Some (length pre + length (encDouble big v))\<rparr>)"
    by (simp add: getDouble_def initExtract_Some checkType_at readLongLong_after encDouble_def)
qed (simp_all add: add_simps getDouble_def initExtract_None initExtract_Some)

interpretation str: codec big "addString big" "getString big" "\<lambda>v. length v + 1 < 2 ^ 32" "encString big"
proof
  fix v and s :: serializedInstance and pre post
  assume "length v + 1 < 2 ^ 32" "bytes s = pre @ encString big v @ post" "extractIterator s = Some (length pre)"
  then show "getString big s = Some (v, s\<lparr>extractIterator := Some (length pre + length (encString big v))\<rparr>)"
    using stringAt_at [OF refl, of v big pre post] by (simp add: getString_def initExtract_Some)
qed (simp_all add: add_simps getString_def initExtract_None initExtract_Some)

interpretation blob: codec big "addBytes big" "getVectorChar big" "\<lambda>v. length v < 2 ^ 32" "encBlob big"
proof
  fix v and s :: serializedInstance and pre post
  assume "length v < 2 ^ 32" "bytes s = pre @ encBlob big v @ post" "extractIterator s = Some (length pre)"
  then show "getVectorChar big s = Some (v, s\<lparr>extractIterator := Some (length pre + length (encBlob big v))\<rparr>)"
    using vectorCharAt_at [OF refl, of v big pre post] by (simp add: getVectorChar_def initExtract_Some)
qed (simp_all add: add_simps getVectorChar_def initExtract_None initExtract_Some)

interpretation inst: codec big "\<lambda>x. addSerializedInstance big (bytes x)" "getSerializedInstance big"
  "\<lambda>x. length (bytes x) < 2 ^ 32 \<and> extractIterator x = None" "\<lambda>x. encInstance big (bytes x)"
proof
  fix v s :: serializedInstance and pre post
  assume v: "length (bytes v) < 2 ^ 32 \<and> extractIterator v = None"
    and s: "bytes s = pre @ encInstance big (bytes v) @ post" "extractIterator s = Some (length pre)"
  have "vectorCharAt big (bytes s) (length pre + 4) = Some (bytes v, length pre + 4 + length (encBlob big (bytes v)))"
    using vectorCharAt_at [of "length pre + 4" "pre @ encInt big (typeCode SERIALIZED_INSTANCE)" "bytes v" big post] v s
    by (simp add: encInstance_def)
  then show "getSerializedInstance big s =
      Some (v, s\<lparr>extractIterator := Some (length pre + length (encInstance big (bytes v)))\<rparr>)"
    using v s by (simp add: getSerializedInstance_def initExtract_Some checkType_at encInstance_def)
qed (simp_all add: add_simps getSerializedInstance_def initExtract_None initExtract_Some)

text \<open>A new instance starts with its data type; the first extraction skips it.\<close>

lemma fresh_type:
  assumes "length ty + 1 < 2 ^ 32"
  shows "stringAt big (encString big ty @ rest) 0 = Some (ty, length (encString big ty))"
    and "getDataType big \<lparr>bytes = encString big ty @ rest, extractIterator = None\<rparr> = Some ty"
proof -
  show "stringAt big (encString big ty @ rest) 0 = Some (ty, length (encString big ty))"
    using stringAt_at [of 0 "[]" ty big rest] assms by simp
  let ?b = "encString big ty @ rest"
  have e: "?b = encInt big (typeCode CHAR_BLOB) @ encInt big (of_nat (length ty + 1)) @ ty @ CHR 0x00 # rest"
    by (simp add: encString_def encBlob_def)
  have "checkType big CHAR_BLOB ?b 0 = Some 4" unfolding e using checkType_at [of 0 "[]" big CHAR_BLOB] by simp
  moreover have "readInt big ?b 4 = Some (of_nat (length ty + 1), 8)"
    unfolding e using readInt_after [of 4 "[]" "encInt big (typeCode CHAR_BLOB)" big "of_nat (length ty + 1)"] by simp
  moreover have "readBytes (length ty) ?b 8 = Some (ty, 8 + length ty)"
    unfolding e using readBytes_at [of 8 "encInt big (typeCode CHAR_BLOB) @ encInt big (of_nat (length ty + 1))" ty "CHR 0x00 # rest"]
    by simp
  moreover have "unat (of_nat (length ty + 1) :: u32) = length ty + 1"
    using assms by (simp only: unat_of_nat) (simp add: take_bit_nat_eq_self)
  ultimately show "getDataType big \<lparr>bytes = ?b, extractIterator = None\<rparr> = Some ty"
    by (simp add: getDataType_def)
qed

lemma SerializedInstance_eq: "SerializedInstance big ty = \<lparr>bytes = encString big ty, extractIterator = None\<rparr>"
  by (simp add: SerializedInstance_def str.put_law)

lemmas put_laws = uns.put_law sint.put_law llong.put_law dbl.put_law str.put_law blob.put_law inst.put_law

lemmas get_cursors = uns.get_cursor sint.get_cursor llong.get_cursor dbl.get_cursor str.get_cursor
  blob.get_cursor inst.get_cursor uns.get_cursor_end sint.get_cursor_end llong.get_cursor_end
  dbl.get_cursor_end str.get_cursor_end blob.get_cursor_end inst.get_cursor_end

subsection \<open>Properties\<close>

datatype field = F_Unsigned u32 | F_Int u32 | F_Int64 u64 | F_Double u64 | F_String string | F_Bytes "char list"

definition addField :: "bool \<Rightarrow> field \<Rightarrow> serializedInstance \<Rightarrow> serializedInstance" where
  "addField big f = (case f of F_Unsigned w \<Rightarrow> addUnsigned big w | F_Int w \<Rightarrow> addInt big w | F_Int64 w \<Rightarrow> addInt64 big w
     | F_Double w \<Rightarrow> addDouble big w | F_String v \<Rightarrow> addString big v | F_Bytes v \<Rightarrow> addBytes big v)"

text \<open>The extractor for a field of the same type as \<open>f\<close>.\<close>

definition getFieldLike :: "bool \<Rightarrow> field \<Rightarrow> serializedInstance \<Rightarrow> (field \<times> serializedInstance) option" where
  "getFieldLike big f s = (case f of
       F_Unsigned _ \<Rightarrow> map_option (apfst F_Unsigned) (getUnsigned big s)
     | F_Int _ \<Rightarrow> map_option (apfst F_Int) (getInt big s)
     | F_Int64 _ \<Rightarrow> map_option (apfst F_Int64) (getInt64 big s)
     | F_Double _ \<Rightarrow> map_option (apfst F_Double) (getDouble big s)
     | F_String _ \<Rightarrow> map_option (apfst F_String) (getString big s)
     | F_Bytes _ \<Rightarrow> map_option (apfst F_Bytes) (getVectorChar big s))"

fun getFieldsLike :: "bool \<Rightarrow> field list \<Rightarrow> serializedInstance \<Rightarrow> (field list \<times> serializedInstance) option" where
  "getFieldsLike big [] s = Some ([], s)"
| "getFieldsLike big (f # fs) s = do {
     (v, s1) \<leftarrow> getFieldLike big f s;
     (vs, s2) \<leftarrow> getFieldsLike big fs s1;
     Some (v # vs, s2) }"

definition encField :: "bool \<Rightarrow> field \<Rightarrow> char list" where
  "encField big f = (case f of F_Unsigned w \<Rightarrow> encUnsigned big w | F_Int w \<Rightarrow> encSigned big w | F_Int64 w \<Rightarrow> encLongLong big w
     | F_Double w \<Rightarrow> encDouble big w | F_String v \<Rightarrow> encString big v | F_Bytes v \<Rightarrow> encBlob big v)"

definition fieldFits :: "field \<Rightarrow> bool" where
  "fieldFits f = (case f of F_String v \<Rightarrow> length v + 1 < 2 ^ 32 | F_Bytes v \<Rightarrow> length v < 2 ^ 32 | _ \<Rightarrow> True)"

lemma addField_eq: "addField big f s = s\<lparr>bytes := bytes s @ encField big f\<rparr>"
  by (cases f) (simp_all add: addField_def encField_def put_laws)

lemma getFieldLike_cursor:
  "fieldFits f \<Longrightarrow> getFieldLike big f (cursor pre (encField big f @ post)) = Some (f, cursor (pre @ encField big f) post)"
  by (cases f) (simp_all add: getFieldLike_def encField_def fieldFits_def get_cursors)

lemma getFieldsLike_cursor:
  "list_all fieldFits fs \<Longrightarrow> getFieldsLike big fs (cursor pre (concat (map (encField big) fs))) =
     Some (fs, cursor (pre @ concat (map (encField big) fs)) [])"
  by (induction fs arbitrary: pre) (simp_all add: getFieldLike_cursor)

lemma fold_addField: "bytes (fold (addField big) fs s) = bytes s @ concat (map (encField big) fs)"
  "extractIterator (fold (addField big) fs s) = extractIterator s"
  by (induction fs arbitrary: s) (simp_all add: addField_eq)

lemma getFieldsLike_fresh:
  assumes "length ty + 1 < 2 ^ 32" and "list_all fieldFits fs" and "fs \<noteq> []"
  shows "map_option fst (getFieldsLike big fs \<lparr>bytes = encString big ty @ concat (map (encField big) fs), extractIterator = None\<rparr>) =
    Some fs"
proof -
  obtain f fs' where fs: "fs = f # fs'" using assms(3) by (cases fs) auto
  note T = fresh_type(1) [OF assms(1), of big "concat (map (encField big) fs)"]
  have "getFieldLike big f \<lparr>bytes = encString big ty @ concat (map (encField big) fs), extractIterator = None\<rparr> =
      getFieldLike big f (cursor (encString big ty) (concat (map (encField big) fs)))"
    by (cases f) (simp_all add: getFieldLike_def uns.get_fresh [OF T] sint.get_fresh [OF T] llong.get_fresh [OF T]
        dbl.get_fresh [OF T] str.get_fresh [OF T] blob.get_fresh [OF T])
  then have "getFieldsLike big fs \<lparr>bytes = encString big ty @ concat (map (encField big) fs), extractIterator = None\<rparr> =
      getFieldsLike big fs (cursor (encString big ty) (concat (map (encField big) fs)))"
    by (simp add: fs)
  then show ?thesis using getFieldsLike_cursor [OF assms(2), of big "encString big ty"] by simp
qed

text \<open>round trip: whatever fields are added to a new instance, in whatever order and on a machine of either byte order, extracting fields of the
  same types in the same order returns the same values, and the data type is recovered; strings and blobs
  must be shorter than \<open>2^32\<close> bytes.\<close>

theorem serialized_fields_roundtrip:
  assumes "length ty + 1 < 2 ^ 32" and "list_all fieldFits fs"
  shows "map_option fst (getFieldsLike big fs (fold (addField big) fs (SerializedInstance big ty))) = Some fs \<and>
    getDataType big (fold (addField big) fs (SerializedInstance big ty)) = Some ty"
proof -
  let ?s = "fold (addField big) fs (SerializedInstance big ty)"
  have s: "?s = \<lparr>bytes = encString big ty @ concat (map (encField big) fs), extractIterator = None\<rparr>"
    using fold_addField [of big fs "SerializedInstance big ty"] by (simp add: SerializedInstance_eq)
  show ?thesis
  proof (cases "fs = []")
    case True
    then show ?thesis using fresh_type(2) [OF assms(1), of big "[]"] by (simp add: SerializedInstance_eq)
  next
    case False
    then show ?thesis
      unfolding s using getFieldsLike_fresh [OF assms False] fresh_type(2) [OF assms(1)] by simp
  qed
qed

definition ex_fields :: "field list" where
  "ex_fields = [F_Unsigned 7, F_String ''lp'', F_Int 4294967295, F_Int64 5]"

theorem serialized_fields_roundtrip_witness:
  "map_option fst (getFieldsLike True ex_fields (fold (addField True) ex_fields (SerializedInstance True ''Ev''))) =
     Some ex_fields"
proof -
  have "list_all fieldFits ex_fields" by (simp add: ex_fields_def fieldFits_def)
  from serialized_fields_roundtrip [OF _ this, of "''Ev''" True] show ?thesis by simp
qed

text \<open>C26: extraction checks the type: extracting an integer where the next field is of another type aborts and returns no value.\<close>

theorem getUnsigned_type_checked:
  assumes "\<forall>w. f \<noteq> F_Unsigned w"
  shows "getUnsigned big (cursor pre (encField big f @ post)) = None"
proof -
  obtain t rest where e: "encField big f = encInt big (typeCode t) @ rest" and t: "t \<noteq> UNSIGNED"
    using assms by (cases f) (auto simp: encField_def encSigned_def encLongLong_def encDouble_def encString_def encBlob_def)
  show ?thesis
    using checkType_wrong [OF refl t [symmetric], of big pre "rest @ post"]
    by (simp add: getUnsigned_def cursor_def initExtract_def e)
qed

theorem getUnsigned_type_checked_witness:
  "getUnsigned False (cursor [] (encField False (F_Int 3) @ [])) = None"
  by (rule getUnsigned_type_checked) simp

end
