(* ===== verification/Messages.thy ===== *)
theory Messages
  imports Events Serialization
begin

text \<open>
  The messages of the kernel and their wire format: \<open>KernelMessage.cpp\<close>, \<open>MatternGVTMessage.cpp\<close>, \<open>GVTUpdateMessage.cpp\<close>,
  \<open>TerminateToken.cpp\<close>, \<open>RestoreCkptMessage.cpp\<close>, \<open>InitializationMessage.cpp\<close>, \<open>CirculateInitializationMessage.cpp\<close>,
  \<open>StartMessage.cpp\<close>, \<open>EventMessage.cpp\<close>, \<open>NegativeEventMessage.cpp\<close>, \<open>UsefulWorkMessage.cpp\<close>, with \<open>IntVTime\<close> as virtual time.
  An object that is deserialized under a type it does not have is a null pointer after the cast; its
  use is \<open>None\<close>. The application's events are a parameter type with their own extractor.
\<close>

subsection \<open>Objects inside messages\<close>

definition getIntVTimeDataType :: string where "getIntVTimeDataType = ''IntVTimeDataType''"

definition IntVTime_serialize :: "bool \<Rightarrow> intvtime \<Rightarrow> serializedInstance \<Rightarrow> serializedInstance" where
  "IntVTime_serialize big t serialized = addInt big (getTime t) serialized"

definition IntVTime_deserialize :: "bool \<Rightarrow> serializedInstance \<Rightarrow> intvtime option" where
  "IntVTime_deserialize big serialized = do { (time, _) \<leftarrow> getInt big serialized; Some (IntVTime time) }"

definition addVTime :: "bool \<Rightarrow> intvtime \<Rightarrow> serializedInstance \<Rightarrow> serializedInstance" where
  "addVTime big t s =
     addSerializedInstance big (bytes (IntVTime_serialize big t (SerializedInstance big getIntVTimeDataType))) s"

definition getVTime :: "bool \<Rightarrow> serializedInstance \<Rightarrow> (intvtime \<times> serializedInstance) option" where
  "getVTime big s = do {
     (x, s') \<leftarrow> getSerializedInstance big s;
     ty \<leftarrow> getDataType big x;
     if ty = getIntVTimeDataType then do { t \<leftarrow> IntVTime_deserialize big x; Some (t, s') } else None }"

text \<open>A negative event without its address: send time, receive time, sender, receiver and event id.\<close>

type_synonym negFields = "intvtime \<times> intvtime \<times> objectID \<times> objectID \<times> u32"

definition negFields :: "intvtime negativeEvent \<Rightarrow> negFields" where
  "negFields e = (sendTime e, receiveTime e, sender e, receiver e, eventId e)"

definition getNegativeEventDataType :: string where "getNegativeEventDataType = ''NegativeEvent''"

definition NegativeEvent_serialize :: "bool \<Rightarrow> negFields \<Rightarrow> serializedInstance \<Rightarrow> serializedInstance" where
  "NegativeEvent_serialize big f addTo =
     (case f of (snd_t, rcv_t, snder, rcver, eid) \<Rightarrow>
        addUnsigned big eid
          (addUnsigned big (getSimulationObjectID rcver)
            (addUnsigned big (getSimulationManagerID rcver)
              (addUnsigned big (getSimulationObjectID snder)
                (addUnsigned big (getSimulationManagerID snder)
                  (addVTime big rcv_t (addVTime big snd_t addTo)))))))"

definition NegativeEvent_deserialize :: "bool \<Rightarrow> serializedInstance \<Rightarrow> negFields option" where
  "NegativeEvent_deserialize big s0 = do {
     (sendingTime, s1) \<leftarrow> getVTime big s0;
     (recvTime, s2) \<leftarrow> getVTime big s1;
     (senderSimManID, s3) \<leftarrow> getUnsigned big s2;
     (senderSimObjID, s4) \<leftarrow> getUnsigned big s3;
     (receiverSimManID, s5) \<leftarrow> getUnsigned big s4;
     (receiverSimObjID, s6) \<leftarrow> getUnsigned big s5;
     (eid, s7) \<leftarrow> getUnsigned big s6;
     Some (sendingTime, recvTime, ObjectID senderSimObjID senderSimManID,
           ObjectID receiverSimObjID receiverSimManID, eid) }"

definition addNegativeEvent :: "bool \<Rightarrow> negFields \<Rightarrow> serializedInstance \<Rightarrow> serializedInstance" where
  "addNegativeEvent big f s = addSerializedInstance big
     (bytes (NegativeEvent_serialize big f (SerializedInstance big getNegativeEventDataType))) s"

definition getNegativeEvent :: "bool \<Rightarrow> serializedInstance \<Rightarrow> (negFields \<times> serializedInstance) option" where
  "getNegativeEvent big s = do {
     (x, s') \<leftarrow> getSerializedInstance big s;
     ty \<leftarrow> getDataType big x;
     if ty = getNegativeEventDataType then do { f \<leftarrow> NegativeEvent_deserialize big x; Some (f, s') } else None }"

text \<open>Both are field types: an instance inside the instance.\<close>

definition vtimeBytes :: "bool \<Rightarrow> intvtime \<Rightarrow> char list" where
  "vtimeBytes big t = encString big getIntVTimeDataType @ encSigned big (getTime t)"

lemma vtime_instance: "bytes (IntVTime_serialize big t (SerializedInstance big getIntVTimeDataType)) = vtimeBytes big t"
  by (simp add: IntVTime_serialize_def SerializedInstance_eq put_laws vtimeBytes_def)

lemma type_lengths: "length getIntVTimeDataType + 1 < 2 ^ 32" "length getNegativeEventDataType + 1 < 2 ^ 32"
  by (simp_all add: getIntVTimeDataType_def getNegativeEventDataType_def)

lemma length_encBlob [simp]: "length (encBlob big cs) = 8 + length cs"
  by (simp add: encBlob_def)

lemma length_encString [simp]: "length (encString big cs) = 9 + length cs"
  by (simp add: encString_def)

lemma length_enc_fields [simp]:
  "length (encUnsigned big w) = 8" "length (encSigned big w) = 8" "length (encInstance big cs) = 12 + length cs"
  by (simp_all add: encUnsigned_def encSigned_def encInstance_def)

lemma length_vtimeBytes [simp]: "length (vtimeBytes big t) = 33"
  by (simp add: vtimeBytes_def getIntVTimeDataType_def)

lemma vtime_deserialize:
  "getDataType big \<lparr>bytes = vtimeBytes big t, extractIterator = None\<rparr> = Some getIntVTimeDataType"
  "IntVTime_deserialize big \<lparr>bytes = vtimeBytes big t, extractIterator = None\<rparr> = Some t"
  unfolding vtimeBytes_def
  by (simp_all add: fresh_type(2) [OF type_lengths(1)] IntVTime_deserialize_def
      sint.get_fresh [OF fresh_type(1) [OF type_lengths(1)]] get_cursors)

interpretation vt: codec big "addVTime big" "getVTime big" "\<lambda>_. True" "\<lambda>t. encInstance big (vtimeBytes big t)"
proof
  fix t s
  show "addVTime big t s = s\<lparr>bytes := bytes s @ encInstance big (vtimeBytes big t)\<rparr>"
    using inst.put_law [of big "\<lparr>bytes = vtimeBytes big t, extractIterator = None\<rparr>" s]
    by (simp add: addVTime_def vtime_instance)
next
  fix t and s :: serializedInstance and pre post
  assume "bytes s = pre @ encInstance big (vtimeBytes big t) @ post" "extractIterator s = Some (length pre)"
  then show "getVTime big s = Some (t, s\<lparr>extractIterator := Some (length pre + length (encInstance big (vtimeBytes big t)))\<rparr>)"
    using inst.get_law [of "\<lparr>bytes = vtimeBytes big t, extractIterator = None\<rparr>" s pre big post]
    by (simp add: getVTime_def vtime_deserialize)
next
  fix s :: serializedInstance and ty pos
  assume "extractIterator s = None" "stringAt big (bytes s) 0 = Some (ty, pos)"
  then show "getVTime big s = getVTime big (s\<lparr>extractIterator := Some pos\<rparr>)"
    using inst.init_law [of s big ty pos] by (simp add: getVTime_def)
qed

definition encVTime :: "bool \<Rightarrow> intvtime \<Rightarrow> char list" where
  "encVTime big t = encInstance big (vtimeBytes big t)"

lemmas vt_cursors = vt.get_cursor [folded encVTime_def, simplified] vt.get_cursor_end [folded encVTime_def, simplified]

lemma length_encVTime [simp]: "length (encVTime big t) = 45"
  by (simp add: encVTime_def)

definition negBytes :: "bool \<Rightarrow> negFields \<Rightarrow> char list" where
  "negBytes big f =
     (case f of (snd_t, rcv_t, snder, rcver, eid) \<Rightarrow>
        encString big getNegativeEventDataType @ encVTime big snd_t @ encVTime big rcv_t @
        encUnsigned big (getSimulationManagerID snder) @ encUnsigned big (getSimulationObjectID snder) @
        encUnsigned big (getSimulationManagerID rcver) @ encUnsigned big (getSimulationObjectID rcver) @
        encUnsigned big eid)"

lemma neg_instance:
  "bytes (NegativeEvent_serialize big f (SerializedInstance big getNegativeEventDataType)) = negBytes big f"
  by (simp add: NegativeEvent_serialize_def SerializedInstance_eq put_laws vt.put_law negBytes_def encVTime_def
      split: prod.splits)

lemma length_negBytes [simp]: "length (negBytes big f) = 152"
  by (simp add: negBytes_def getNegativeEventDataType_def split: prod.splits)

lemma neg_deserialize:
  "getDataType big \<lparr>bytes = negBytes big f, extractIterator = None\<rparr> = Some getNegativeEventDataType"
  "NegativeEvent_deserialize big \<lparr>bytes = negBytes big f, extractIterator = None\<rparr> = Some f"
proof -
  obtain a b c d e where f: "f = (a, b, c, d, e)" by (cases f)
  show "getDataType big \<lparr>bytes = negBytes big f, extractIterator = None\<rparr> = Some getNegativeEventDataType"
    by (simp add: f negBytes_def fresh_type(2) [OF type_lengths(2)])
  show "NegativeEvent_deserialize big \<lparr>bytes = negBytes big f, extractIterator = None\<rparr> = Some f"
    by (simp add: f negBytes_def NegativeEvent_deserialize_def
        vt.get_fresh [OF fresh_type(1) [OF type_lengths(2)]] vt_cursors get_cursors)
qed

definition encNeg :: "bool \<Rightarrow> negFields \<Rightarrow> char list" where
  "encNeg big f = encInstance big (negBytes big f)"

interpretation ne: codec big "addNegativeEvent big" "getNegativeEvent big" "\<lambda>_. True" "encNeg big"
proof
  fix f s
  show "addNegativeEvent big f s = s\<lparr>bytes := bytes s @ encNeg big f\<rparr>"
    using inst.put_law [of big "\<lparr>bytes = negBytes big f, extractIterator = None\<rparr>" s]
    by (simp add: addNegativeEvent_def neg_instance encNeg_def)
next
  fix f and s :: serializedInstance and pre post
  assume "bytes s = pre @ encNeg big f @ post" "extractIterator s = Some (length pre)"
  then show "getNegativeEvent big s = Some (f, s\<lparr>extractIterator := Some (length pre + length (encNeg big f))\<rparr>)"
    using inst.get_law [of "\<lparr>bytes = negBytes big f, extractIterator = None\<rparr>" s pre big post]
    by (simp add: getNegativeEvent_def neg_deserialize encNeg_def)
next
  fix s :: serializedInstance and ty pos
  assume "extractIterator s = None" "stringAt big (bytes s) 0 = Some (ty, pos)"
  then show "getNegativeEvent big s = getNegativeEvent big (s\<lparr>extractIterator := Some pos\<rparr>)"
    using inst.init_law [of s big ty pos] by (simp add: getNegativeEvent_def)
qed

subsection \<open>Kernel messages\<close>

text \<open>Every message carries its source, destination and incarnation number.\<close>

record kernelHeader =
  senderSimulationManagerID :: u32
  destSimulationManagerID :: u32
  incarnationNumber :: u32

datatype tokenState = FIRST_CYCLE | SECOND_CYCLE | CANCEL_CYCLE | BECOME_TERMINATOR | SIMULATION_COMPLETE

definition tokenStateCode :: "tokenState \<Rightarrow> u32" where
  "tokenStateCode t = (case t of FIRST_CYCLE \<Rightarrow> 0 | SECOND_CYCLE \<Rightarrow> 1 | CANCEL_CYCLE \<Rightarrow> 2 | BECOME_TERMINATOR \<Rightarrow> 3
     | SIMULATION_COMPLETE \<Rightarrow> 4)"

text \<open>The conversion of an \<open>int\<close> to the enumeration; a value that names no state is \<open>None\<close>.\<close>

definition TokenState :: "u32 \<Rightarrow> tokenState option" where
  "TokenState w = find (\<lambda>t. tokenStateCode t = w)
     [FIRST_CYCLE, SECOND_CYCLE, CANCEL_CYCLE, BECOME_TERMINATOR, SIMULATION_COMPLETE]"

datatype 'e kernelMessage =
  StartMessage kernelHeader
| CirculateInitializationMessage kernelHeader
| InitializationMessage kernelHeader "string list" u32
| MatternGVTMessage kernelHeader intvtime intvtime u32
| GVTUpdateMessage kernelHeader intvtime
| TerminateToken kernelHeader u32 tokenState
| RestoreCkptMessage kernelHeader u32 u32 bool
| EventMessage kernelHeader 'e string
| NegativeEventMessage kernelHeader "negFields list" string
| UsefulWorkMessage kernelHeader u32 "u64 list" u32

definition messageType :: "'e kernelMessage \<Rightarrow> string" where
  "messageType m = (case m of
       StartMessage _ \<Rightarrow> ''StartMessage''
     | CirculateInitializationMessage _ \<Rightarrow> ''CirculateInitializationMessage''
     | InitializationMessage _ _ _ \<Rightarrow> ''InitializationMessage''
     | MatternGVTMessage _ _ _ _ \<Rightarrow> ''MatternGVTMessage''
     | GVTUpdateMessage _ _ \<Rightarrow> ''GVTUpdateMessageType''
     | TerminateToken _ _ _ \<Rightarrow> ''TerminateToken''
     | RestoreCkptMessage _ _ _ _ \<Rightarrow> ''RestoreCkptMessage''
     | EventMessage _ _ _ \<Rightarrow> ''EventMessage''
     | NegativeEventMessage _ _ _ \<Rightarrow> ''NegativeEventMessage''
     | UsefulWorkMessage _ _ _ _ \<Rightarrow> ''UsefulWorkMessage'')"

definition KernelMessage_serialize :: "bool \<Rightarrow> kernelHeader \<Rightarrow> serializedInstance \<Rightarrow> serializedInstance" where
  "KernelMessage_serialize big h addTo =
     addUnsigned big (incarnationNumber h)
       (addUnsigned big (destSimulationManagerID h)
         (addUnsigned big (senderSimulationManagerID h) addTo))"

text \<open>The three reads that start every \<open>deserialize\<close>.\<close>

definition readHeader :: "bool \<Rightarrow> serializedInstance \<Rightarrow> (kernelHeader \<times> serializedInstance) option" where
  "readHeader big s = do {
     (source, s1) \<leftarrow> getUnsigned big s;
     (dest, s2) \<leftarrow> getUnsigned big s1;
     (incNum, s3) \<leftarrow> getUnsigned big s2;
     Some (\<lparr>senderSimulationManagerID = source, destSimulationManagerID = dest, incarnationNumber = incNum\<rparr>, s3) }"

definition StartMessage_deserialize :: "bool \<Rightarrow> serializedInstance \<Rightarrow> 'e kernelMessage option" where
  "StartMessage_deserialize big s = do { (h, _) \<leftarrow> readHeader big s; Some (StartMessage h) }"

definition CirculateInitializationMessage_deserialize :: "bool \<Rightarrow> serializedInstance \<Rightarrow> 'e kernelMessage option" where
  "CirculateInitializationMessage_deserialize big s = do { (h, _) \<leftarrow> readHeader big s; Some (CirculateInitializationMessage h) }"

definition InitializationMessage_serialize ::
  "bool \<Rightarrow> kernelHeader \<Rightarrow> string list \<Rightarrow> u32 \<Rightarrow> serializedInstance \<Rightarrow> serializedInstance" where
  "InitializationMessage_serialize big h objectNames numSimulationManagers addTo =
     addUnsigned big numSimulationManagers
       (putAll (addString big) objectNames
         (addInt big (of_nat (length objectNames)) (KernelMessage_serialize big h addTo)))"

definition deserializeStringVector :: "bool \<Rightarrow> serializedInstance \<Rightarrow> (string list \<times> serializedInstance) option" where
  "deserializeStringVector big s = do {
     (numStrings, s1) \<leftarrow> getInt big s;
     getAll (getString big) (nat (sint numStrings)) s1 }"

definition InitializationMessage_deserialize :: "bool \<Rightarrow> serializedInstance \<Rightarrow> 'e kernelMessage option" where
  "InitializationMessage_deserialize big s = do {
     (h, s1) \<leftarrow> readHeader big s;
     (objectNames, s2) \<leftarrow> deserializeStringVector big s1;
     (numLPs, s3) \<leftarrow> getUnsigned big s2;
     Some (InitializationMessage h objectNames numLPs) }"

definition MatternGVTMessage_serialize ::
  "bool \<Rightarrow> kernelHeader \<Rightarrow> intvtime \<Rightarrow> intvtime \<Rightarrow> u32 \<Rightarrow> serializedInstance \<Rightarrow> serializedInstance" where
  "MatternGVTMessage_serialize big h lastScheduled minimum numMessages serialized =
     addUnsigned big numMessages
       (addVTime big minimum (addVTime big lastScheduled (KernelMessage_serialize big h serialized)))"

definition MatternGVTMessage_deserialize :: "bool \<Rightarrow> serializedInstance \<Rightarrow> 'e kernelMessage option" where
  "MatternGVTMessage_deserialize big s = do {
     (h, s1) \<leftarrow> readHeader big s;
     (lastScheduled, s2) \<leftarrow> getVTime big s1;
     (minimum, s3) \<leftarrow> getVTime big s2;
     (numMessagesInTransit, s4) \<leftarrow> getUnsigned big s3;
     Some (MatternGVTMessage h lastScheduled minimum numMessagesInTransit) }"

definition GVTUpdateMessage_serialize :: "bool \<Rightarrow> kernelHeader \<Rightarrow> intvtime \<Rightarrow> serializedInstance \<Rightarrow> serializedInstance" where
  "GVTUpdateMessage_serialize big h newGVT addTo = addVTime big newGVT (KernelMessage_serialize big h addTo)"

definition GVTUpdateMessage_deserialize :: "bool \<Rightarrow> serializedInstance \<Rightarrow> 'e kernelMessage option" where
  "GVTUpdateMessage_deserialize big s = do {
     (h, s1) \<leftarrow> readHeader big s;
     (newGVT, s2) \<leftarrow> getVTime big s1;
     Some (GVTUpdateMessage h newGVT) }"

definition TerminateToken_serialize ::
  "bool \<Rightarrow> kernelHeader \<Rightarrow> u32 \<Rightarrow> tokenState \<Rightarrow> serializedInstance \<Rightarrow> serializedInstance" where
  "TerminateToken_serialize big h terminator state addTo =
     addInt big (tokenStateCode state) (addUnsigned big terminator (KernelMessage_serialize big h addTo))"

definition TerminateToken_deserialize :: "bool \<Rightarrow> serializedInstance \<Rightarrow> 'e kernelMessage option" where
  "TerminateToken_deserialize big s = do {
     (h, s1) \<leftarrow> readHeader big s;
     (terminator, s2) \<leftarrow> getUnsigned big s1;
     (state, s3) \<leftarrow> getInt big s2;
     t \<leftarrow> TokenState state;
     Some (TerminateToken h terminator t) }"

definition RestoreCkptMessage_serialize ::
  "bool \<Rightarrow> kernelHeader \<Rightarrow> u32 \<Rightarrow> u32 \<Rightarrow> bool \<Rightarrow> serializedInstance \<Rightarrow> serializedInstance" where
  "RestoreCkptMessage_serialize big h checkpointTime state checkpointConsensus serialized =
     addInt big (if checkpointConsensus then 1 else 0)
       (addInt big state (addInt big checkpointTime (KernelMessage_serialize big h serialized)))"

definition RestoreCkptMessage_deserialize :: "bool \<Rightarrow> serializedInstance \<Rightarrow> 'e kernelMessage option" where
  "RestoreCkptMessage_deserialize big s = do {
     (h, s1) \<leftarrow> readHeader big s;
     (ckptTime, s2) \<leftarrow> getInt big s1;
     (tokSt, s3) \<leftarrow> getInt big s2;
     (ckptCon, s4) \<leftarrow> getInt big s3;
     Some (RestoreCkptMessage h ckptTime tokSt (ckptCon \<noteq> 0)) }"

definition EventMessage_serialize ::
  "bool \<Rightarrow> ('e \<Rightarrow> serializedInstance \<Rightarrow> serializedInstance) \<Rightarrow> kernelHeader \<Rightarrow> 'e \<Rightarrow> string \<Rightarrow>
   serializedInstance \<Rightarrow> serializedInstance" where
  "EventMessage_serialize big putEvent h event gVTInfo addTo =
     addString big gVTInfo (putEvent event (KernelMessage_serialize big h addTo))"

definition EventMessage_deserialize ::
  "bool \<Rightarrow> (serializedInstance \<Rightarrow> ('e \<times> serializedInstance) option) \<Rightarrow> serializedInstance \<Rightarrow> 'e kernelMessage option" where
  "EventMessage_deserialize big getEvent s = do {
     (h, s1) \<leftarrow> readHeader big s;
     (event, s2) \<leftarrow> getEvent s1;
     (gvtInfo, s3) \<leftarrow> getString big s2;
     Some (EventMessage h event gvtInfo) }"

definition NegativeEventMessage_serialize ::
  "bool \<Rightarrow> kernelHeader \<Rightarrow> negFields list \<Rightarrow> string \<Rightarrow> serializedInstance \<Rightarrow> serializedInstance" where
  "NegativeEventMessage_serialize big h myEvents gVTInfo serializeInto =
     addString big gVTInfo
       (putAll (addNegativeEvent big) myEvents
         (addUnsigned big (of_nat (length myEvents)) (KernelMessage_serialize big h serializeInto)))"

definition NegativeEventMessage_deserialize :: "bool \<Rightarrow> serializedInstance \<Rightarrow> 'e kernelMessage option" where
  "NegativeEventMessage_deserialize big s = do {
     (h, s1) \<leftarrow> readHeader big s;
     (numEvents, s2) \<leftarrow> getUnsigned big s1;
     (events, s3) \<leftarrow> getAll (getNegativeEvent big) (unat numEvents) s2;
     (gvtIn, s4) \<leftarrow> getString big s3;
     Some (NegativeEventMessage h events gvtIn) }"

definition UsefulWorkMessage_serialize ::
  "bool \<Rightarrow> kernelHeader \<Rightarrow> u32 \<Rightarrow> u64 list \<Rightarrow> u32 \<Rightarrow> serializedInstance \<Rightarrow> serializedInstance" where
  "UsefulWorkMessage_serialize big h numSimulationManagers myData myRound serialized =
     addInt big myRound
       (putAll (addDouble big) myData
         (addUnsigned big numSimulationManagers (KernelMessage_serialize big h serialized)))"

definition UsefulWorkMessage_deserialize :: "bool \<Rightarrow> serializedInstance \<Rightarrow> 'e kernelMessage option" where
  "UsefulWorkMessage_deserialize big s = do {
     (h, s1) \<leftarrow> readHeader big s;
     (nSimMgrs, s2) \<leftarrow> getUnsigned big s1;
     (d, s3) \<leftarrow> getAll (getDouble big) (unat nSimMgrs) s2;
     (round, s4) \<leftarrow> getInt big s3;
     Some (UsefulWorkMessage h nSimMgrs d round) }"

text \<open>\<open>Serializable::serialize\<close>, and \<open>SerializedInstance::deserialize\<close> with the deserializers that the kernel registers.\<close>

definition serializeMessage ::
  "bool \<Rightarrow> ('e \<Rightarrow> serializedInstance \<Rightarrow> serializedInstance) \<Rightarrow> 'e kernelMessage \<Rightarrow> serializedInstance" where
  "serializeMessage big putEvent m = (let s = SerializedInstance big (messageType m) in
     case m of
       StartMessage h \<Rightarrow> KernelMessage_serialize big h s
     | CirculateInitializationMessage h \<Rightarrow> KernelMessage_serialize big h s
     | InitializationMessage h names n \<Rightarrow> InitializationMessage_serialize big h names n s
     | MatternGVTMessage h l t n \<Rightarrow> MatternGVTMessage_serialize big h l t n s
     | GVTUpdateMessage h g \<Rightarrow> GVTUpdateMessage_serialize big h g s
     | TerminateToken h t st \<Rightarrow> TerminateToken_serialize big h t st s
     | RestoreCkptMessage h c st b \<Rightarrow> RestoreCkptMessage_serialize big h c st b s
     | EventMessage h e info \<Rightarrow> EventMessage_serialize big putEvent h e info s
     | NegativeEventMessage h es info \<Rightarrow> NegativeEventMessage_serialize big h es info s
     | UsefulWorkMessage h n d r \<Rightarrow> UsefulWorkMessage_serialize big h n d r s)"

definition deserializeMessage ::
  "bool \<Rightarrow> (serializedInstance \<Rightarrow> ('e \<times> serializedInstance) option) \<Rightarrow> serializedInstance \<Rightarrow> 'e kernelMessage option" where
  "deserializeMessage big getEvent s = do {
     ty \<leftarrow> getDataType big s;
     if ty = ''StartMessage'' then StartMessage_deserialize big s
     else if ty = ''CirculateInitializationMessage''
       then CirculateInitializationMessage_deserialize big s
     else if ty = ''InitializationMessage'' then InitializationMessage_deserialize big s
     else if ty = ''MatternGVTMessage'' then MatternGVTMessage_deserialize big s
     else if ty = ''GVTUpdateMessageType'' then GVTUpdateMessage_deserialize big s
     else if ty = ''TerminateToken'' then TerminateToken_deserialize big s
     else if ty = ''RestoreCkptMessage'' then RestoreCkptMessage_deserialize big s
     else if ty = ''EventMessage'' then EventMessage_deserialize big getEvent s
     else if ty = ''NegativeEventMessage'' then NegativeEventMessage_deserialize big s
     else if ty = ''UsefulWorkMessage'' then UsefulWorkMessage_deserialize big s
     else None }"

subsection \<open>Round trip of the messages\<close>

text \<open>
  A message fits the format when its strings are shorter than \<open>2^32\<close> bytes with their terminator, its vectors have a length
  that the counter they are sent with can hold, and a work vector has as many entries as it says. \<open>vE\<close> is the same
  condition on application events.
\<close>

definition stringFits :: "string \<Rightarrow> bool" where "stringFits v = (length v + 1 < 2 ^ 32)"

definition messageFits :: "('e \<Rightarrow> bool) \<Rightarrow> 'e kernelMessage \<Rightarrow> bool" where
  "messageFits vE m = (case m of
       InitializationMessage h names n \<Rightarrow> list_all stringFits names \<and> length names < 2 ^ 31
     | EventMessage h e info \<Rightarrow> vE e \<and> stringFits info
     | NegativeEventMessage h es info \<Rightarrow> length es < 2 ^ 32 \<and> stringFits info
     | UsefulWorkMessage h n d r \<Rightarrow> length d = unat n
     | _ \<Rightarrow> True)"

definition encHeader :: "bool \<Rightarrow> kernelHeader \<Rightarrow> char list" where
  "encHeader big h = encUnsigned big (senderSimulationManagerID h) @ encUnsigned big (destSimulationManagerID h) @
     encUnsigned big (incarnationNumber h)"

lemma KernelMessage_serialize_eq:
  "KernelMessage_serialize big h s = s\<lparr>bytes := bytes s @ encHeader big h\<rparr>"
  by (simp add: KernelMessage_serialize_def put_laws encHeader_def)

lemma type_short: "length (messageType m) + 1 < 2 ^ 32"
  by (cases m) (simp_all add: messageType_def)

lemma readHeader_fresh:
  assumes "length ty + 1 < 2 ^ 32"
  shows "readHeader big \<lparr>bytes = encString big ty @ encHeader big h @ rest, extractIterator = None\<rparr> =
    Some (h, cursor (encString big ty @ encHeader big h) rest)"
  by (simp add: readHeader_def encHeader_def uns.get_fresh [OF fresh_type(1) [OF assms]] get_cursors)

lemma readHeader_fresh_end:
  "length ty + 1 < 2 ^ 32 \<Longrightarrow> readHeader big \<lparr>bytes = encString big ty @ encHeader big h, extractIterator = None\<rparr> =
    Some (h, cursor (encString big ty @ encHeader big h) [])"
  using readHeader_fresh [of ty big h "[]"] by simp

lemma unat_length_32: "length xs < 2 ^ 32 \<Longrightarrow> unat (of_nat (length xs) :: u32) = length xs"
  by (simp only: unat_of_nat) (simp add: take_bit_nat_eq_self)

lemma sint_length_31: "length xs < 2 ^ 31 \<Longrightarrow> nat (sint (of_nat (length xs) :: u32)) = length xs"
  by (simp add: signed_of_nat signed_take_bit_int_eq_self)

lemma TokenState_code: "TokenState (tokenStateCode t) = Some t"
  by (cases t) (simp_all add: TokenState_def tokenStateCode_def)

definition messagePayload :: "bool \<Rightarrow> ('e \<Rightarrow> char list) \<Rightarrow> 'e kernelMessage \<Rightarrow> char list" where
  "messagePayload big encE m = (case m of
       StartMessage h \<Rightarrow> encHeader big h
     | CirculateInitializationMessage h \<Rightarrow> encHeader big h
     | InitializationMessage h names n \<Rightarrow> encHeader big h @ encSigned big (of_nat (length names)) @
         concat (map (encString big) names) @ encUnsigned big n
     | MatternGVTMessage h l t n \<Rightarrow> encHeader big h @ encVTime big l @ encVTime big t @ encUnsigned big n
     | GVTUpdateMessage h g \<Rightarrow> encHeader big h @ encVTime big g
     | TerminateToken h t st \<Rightarrow> encHeader big h @ encUnsigned big t @ encSigned big (tokenStateCode st)
     | RestoreCkptMessage h c st b \<Rightarrow>
         encHeader big h @ encSigned big c @ encSigned big st @ encSigned big (if b then 1 else 0)
     | EventMessage h e info \<Rightarrow> encHeader big h @ encE e @ encString big info
     | NegativeEventMessage h es info \<Rightarrow> encHeader big h @ encUnsigned big (of_nat (length es)) @
         concat (map (encNeg big) es) @ encString big info
     | UsefulWorkMessage h n d r \<Rightarrow> encHeader big h @ encUnsigned big n @ concat (map (encDouble big) d) @ encSigned big r)"

lemmas serialize_defs = InitializationMessage_serialize_def MatternGVTMessage_serialize_def GVTUpdateMessage_serialize_def
  TerminateToken_serialize_def RestoreCkptMessage_serialize_def EventMessage_serialize_def
  NegativeEventMessage_serialize_def UsefulWorkMessage_serialize_def

lemmas list_put_laws = str.put_list_law ne.put_list_law dbl.put_list_law vt.put_law [folded encVTime_def]

text \<open>What is written: the type, then the payload.\<close>

lemma serializeMessage_eq:
  assumes "\<And>e s. putEvent e s = s\<lparr>bytes := bytes s @ encE e\<rparr>"
  shows "serializeMessage big putEvent m =
    \<lparr>bytes = encString big (messageType m) @ messagePayload big encE m, extractIterator = None\<rparr>"
  by (cases m)
    (simp_all add: serializeMessage_def SerializedInstance_eq messagePayload_def KernelMessage_serialize_eq
      serialize_defs put_laws list_put_laws assms)

text \<open>What the reader of each message makes of such data.\<close>

lemma read_Initialization:
  assumes "list_all stringFits names" and "length names < 2 ^ 31" and "length ty + 1 < 2 ^ 32"
  shows "InitializationMessage_deserialize big
    \<lparr>bytes = encString big ty @ messagePayload big encE (InitializationMessage h names n), extractIterator = None\<rparr> =
    Some (InitializationMessage h names n)"
  using assms
  by (simp add: InitializationMessage_deserialize_def messagePayload_def readHeader_fresh deserializeStringVector_def
      get_cursors sint_length_31 str.get_list_cursor list_all_iff stringFits_def)

lemma read_Negative:
  assumes "length es < 2 ^ 32" and "stringFits info" and "length ty + 1 < 2 ^ 32"
  shows "NegativeEventMessage_deserialize big
    \<lparr>bytes = encString big ty @ messagePayload big encE (NegativeEventMessage h es info), extractIterator = None\<rparr> =
    Some (NegativeEventMessage h es info)"
  using assms
  by (simp add: NegativeEventMessage_deserialize_def messagePayload_def readHeader_fresh
      get_cursors unat_length_32 ne.get_list_cursor stringFits_def)

lemma read_Work:
  assumes "length d = unat n" and "length ty + 1 < 2 ^ 32"
  shows "UsefulWorkMessage_deserialize big
    \<lparr>bytes = encString big ty @ messagePayload big encE (UsefulWorkMessage h n d r), extractIterator = None\<rparr> =
    Some (UsefulWorkMessage h n d r)"
  using assms(2)
  by (simp add: UsefulWorkMessage_deserialize_def messagePayload_def readHeader_fresh
      get_cursors assms(1) [symmetric] dbl.get_list_cursor)

lemma read_Event:
  assumes "codec big putEvent getEvent vE encE" and "vE e" and "stringFits info" and "length ty + 1 < 2 ^ 32"
  shows "EventMessage_deserialize big getEvent
    \<lparr>bytes = encString big ty @ messagePayload big encE (EventMessage h e info), extractIterator = None\<rparr> =
    Some (EventMessage h e info)"
  using assms(2-)
  by (simp add: EventMessage_deserialize_def messagePayload_def readHeader_fresh
      codec.get_cursor [OF assms(1)] get_cursors stringFits_def)

lemma read_fixed:
  assumes "length ty + 1 < 2 ^ 32"
  shows "MatternGVTMessage_deserialize big \<lparr>bytes = encString big ty @
      messagePayload big encE (MatternGVTMessage h l t n), extractIterator = None\<rparr> = Some (MatternGVTMessage h l t n)"
    and "GVTUpdateMessage_deserialize big \<lparr>bytes = encString big ty @
      messagePayload big encE (GVTUpdateMessage h l), extractIterator = None\<rparr> = Some (GVTUpdateMessage h l)"
    and "TerminateToken_deserialize big \<lparr>bytes = encString big ty @
      messagePayload big encE (TerminateToken h w st), extractIterator = None\<rparr> = Some (TerminateToken h w st)"
    and "RestoreCkptMessage_deserialize big \<lparr>bytes = encString big ty @
      messagePayload big encE (RestoreCkptMessage h w v b), extractIterator = None\<rparr> = Some (RestoreCkptMessage h w v b)"
  by (simp_all add: MatternGVTMessage_deserialize_def GVTUpdateMessage_deserialize_def TerminateToken_deserialize_def
      RestoreCkptMessage_deserialize_def messagePayload_def readHeader_fresh [OF assms] vt_cursors get_cursors TokenState_code)

lemma deserializeMessage_type:
  "deserializeMessage big getEvent \<lparr>bytes = encString big (messageType m) @ p, extractIterator = None\<rparr> =
   (let s = \<lparr>bytes = encString big (messageType m) @ p, extractIterator = None\<rparr> in
    case m of
       StartMessage h \<Rightarrow> StartMessage_deserialize big s
     | CirculateInitializationMessage h \<Rightarrow> CirculateInitializationMessage_deserialize big s
     | InitializationMessage h names n \<Rightarrow> InitializationMessage_deserialize big s
     | MatternGVTMessage h l t n \<Rightarrow> MatternGVTMessage_deserialize big s
     | GVTUpdateMessage h g \<Rightarrow> GVTUpdateMessage_deserialize big s
     | TerminateToken h t st \<Rightarrow> TerminateToken_deserialize big s
     | RestoreCkptMessage h c st b \<Rightarrow> RestoreCkptMessage_deserialize big s
     | EventMessage h e info \<Rightarrow> EventMessage_deserialize big getEvent s
     | NegativeEventMessage h es info \<Rightarrow> NegativeEventMessage_deserialize big s
     | UsefulWorkMessage h n d r \<Rightarrow> UsefulWorkMessage_deserialize big s)"
  by (cases m) (simp_all add: deserializeMessage_def fresh_type(2) messageType_def)

text \<open>C40: the wire format loses nothing: whatever kernel message a manager serializes, the receiver's deserializer rebuilds exactly
  that message, of the same class and with the same fields, on machines of one byte order. The application's events come with their own serializer, of which the field contract
  is assumed; strings and vectors must fit their length fields.\<close>

theorem message_roundtrip:
  assumes "codec big putEvent getEvent vE encE" and "messageFits vE m"
  shows "deserializeMessage big getEvent (serializeMessage big putEvent m) = Some m"
proof -
  note T = type_short [of m]
  have s: "serializeMessage big putEvent m =
      \<lparr>bytes = encString big (messageType m) @ messagePayload big encE m, extractIterator = None\<rparr>"
    by (rule serializeMessage_eq) (rule codec.put_law [OF assms(1)])
  note R = read_Initialization read_Negative read_Work read_Event [OF assms(1)] read_fixed
  show ?thesis
    unfolding s deserializeMessage_type Let_def using T assms(2)
    by (cases m) (simp_all add: R messageFits_def readHeader_fresh_end StartMessage_deserialize_def
        CirculateInitializationMessage_deserialize_def messagePayload_def [of big encE "StartMessage _"]
        messagePayload_def [of big encE "CirculateInitializationMessage _"])
qed

definition ex_neg :: negFields where
  "ex_neg = (IntVTime 3, IntVTime 7, ObjectID 1 0, ObjectID 2 1, 42)"

definition ex_header :: kernelHeader where
  "ex_header = \<lparr>senderSimulationManagerID = 0, destSimulationManagerID = 1, incarnationNumber = 0\<rparr>"

theorem message_roundtrip_witness:
  "deserializeMessage True (getNegativeEvent True)
     (serializeMessage True (addNegativeEvent True) (NegativeEventMessage ex_header [ex_neg, ex_neg] ''GVT'')) =
   Some (NegativeEventMessage ex_header [ex_neg, ex_neg] ''GVT'')"
  by (rule message_roundtrip [OF ne.codec_axioms]) (simp add: messageFits_def stringFits_def)

end
