(* ===== verification/FileQueues.thy ===== *)
theory FileQueues
  imports VirtualTime
begin

text \<open>
  Files read and written by simulation objects: \<open>FileData.h\<close>, \<open>FileQueue.cpp\<close>, \<open>InFileData.h\<close>, \<open>InFileQueue.cpp\<close> and
  \<open>TimeWarpSimulationStream.cpp\<close>. A line that an object writes waits in a multiset ordered by time until fossil
  collection writes it to the file; an input file remembers read positions. Files are their contents, and
  a failing \<open>open\<close> or an input stream that leaves its good state is \<open>None\<close>.
\<close>

subsection \<open>Output files\<close>

record 't fileData =
  fd_time :: 't
  fd_line :: string

record 't fileQueue =
  fq_lines :: "'t fileData list"
  outFile :: string

definition FileQueue :: "'t fileQueue" where
  "FileQueue = \<lparr>fq_lines = [], outFile = []\<rparr>"

text \<open>Insertion into a \<open>std::multiset\<close> goes behind the equal elements.\<close>

definition fd_insert :: "('t :: linorder) fileData \<Rightarrow> 't fileData list \<Rightarrow> 't fileData list" where
  "fd_insert d ds = takeWhile (\<lambda>x. fd_time x \<le> fd_time d) ds @ d # dropWhile (\<lambda>x. fd_time x \<le> fd_time d) ds"

definition storeLine :: "('t :: linorder) \<Rightarrow> string \<Rightarrow> 't fileQueue \<Rightarrow> 't fileQueue" where
  "storeLine time line q = q\<lparr>fq_lines := fd_insert \<lparr>fd_time = time, fd_line = line\<rparr> (fq_lines q)\<rparr>"

text \<open>The loop of both \<open>fossilCollect\<close>s: \<open>old\<close> is the test on the time of the first entry.\<close>

fun commitLines :: "('t \<Rightarrow> bool) \<Rightarrow> 't fileData list \<Rightarrow> string \<Rightarrow> 't fileData list \<times> string" where
  "commitLines old [] out = ([], out)"
| "commitLines old (d # ds) out = (if old (fd_time d) then commitLines old ds (out @ fd_line d) else (d # ds, out))"

definition fq_fossilCollect :: "('t :: linorder) \<Rightarrow> 't fileQueue \<Rightarrow> 't fileQueue" where
  "fq_fossilCollect fossilCollectTime q =
     (let (ds, out) = commitLines (\<lambda>t. t < fossilCollectTime) (fq_lines q) (outFile q)
      in q\<lparr>fq_lines := ds, outFile := out\<rparr>)"

definition fq_fossilCollect_int :: "('t \<Rightarrow> int) \<Rightarrow> int \<Rightarrow> 't fileQueue \<Rightarrow> 't fileQueue" where
  "fq_fossilCollect_int approx fossilCollectTime q =
     (let (ds, out) = commitLines (\<lambda>t. approx t < fossilCollectTime) (fq_lines q) (outFile q)
      in q\<lparr>fq_lines := ds, outFile := out\<rparr>)"

text \<open>Everything from the lower bound of the time on is erased.\<close>

definition fq_rollbackTo :: "('t :: linorder) \<Rightarrow> 't fileQueue \<Rightarrow> 't fileQueue" where
  "fq_rollbackTo rollbackToTime q = q\<lparr>fq_lines := takeWhile (\<lambda>d. fd_time d < rollbackToTime) (fq_lines q)\<rparr>"

definition getEOFPosition :: "'t fileQueue \<Rightarrow> nat" where
  "getEOFPosition q = length (outFile q)"

text \<open>The copying loop of \<open>setPosAndClear\<close>: characters are moved until the read position reaches \<open>pos\<close>.\<close>

fun copyUpTo :: "nat \<Rightarrow> string \<Rightarrow> string" where
  "copyUpTo 0 cs = []"
| "copyUpTo (Suc n) [] = []"
| "copyUpTo (Suc n) (c # cs) = c # copyUpTo n cs"

definition setPosAndClear :: "nat \<Rightarrow> 't fileQueue \<Rightarrow> 't fileQueue" where
  "setPosAndClear pos q = (if pos < length (outFile q) then q\<lparr>outFile := copyUpTo pos (outFile q)\<rparr> else q)"

subsection \<open>Input files\<close>

record 't inFileData =
  ifd_time :: 't
  ifd_position :: nat

record 't inFileQueue =
  positions :: "'t inFileData list"
  inContent :: string
  tellg :: nat
  lastFossilCollPos :: nat

definition InFileQueue :: "string \<Rightarrow> 't inFileQueue" where
  "InFileQueue content = \<lparr>positions = [], inContent = content, tellg = 0, lastFossilCollPos = 0\<rparr>"

definition collectPositions :: "('t \<Rightarrow> bool) \<Rightarrow> 't inFileQueue \<Rightarrow> 't inFileQueue" where
  "collectPositions old q =
     (let ps = dropWhile (\<lambda>d. old (ifd_time d)) (positions q)
      in q\<lparr>positions := ps, lastFossilCollPos := (case ps of [] \<Rightarrow> tellg q | d # _ \<Rightarrow> ifd_position d)\<rparr>)"

definition ifq_fossilCollect :: "('t :: linorder) \<Rightarrow> 't inFileQueue \<Rightarrow> 't inFileQueue" where
  "ifq_fossilCollect fossilCollectTime q = collectPositions (\<lambda>t. t < fossilCollectTime) q"

definition ifq_fossilCollect_int :: "('t \<Rightarrow> int) \<Rightarrow> int \<Rightarrow> 't inFileQueue \<Rightarrow> 't inFileQueue" where
  "ifq_fossilCollect_int approx fossilCollectTime q =
     collectPositions (\<lambda>t. approx t < fossilCollectTime) q"

text \<open>Everything behind the upper bound of the time is erased; the file goes to the position of the last entry left.\<close>

definition ifq_rollbackTo :: "('t :: linorder) \<Rightarrow> 't inFileQueue \<Rightarrow> 't inFileQueue" where
  "ifq_rollbackTo rollbackToTime q =
     (let ps = takeWhile (\<lambda>d. ifd_time d \<le> rollbackToTime) (positions q)
      in q\<lparr>positions := ps, tellg := (if ps \<noteq> [] then ifd_position (last ps) else lastFossilCollPos q)\<rparr>)"

definition storePos :: "('t :: linorder) \<Rightarrow> 't inFileQueue \<Rightarrow> 't inFileQueue" where
  "storePos time q =
     (if find (\<lambda>d. ifd_time d = time) (positions q) = None
      then q\<lparr>positions := takeWhile (\<lambda>d. ifd_time d \<le> time) (positions q) @
               \<lparr>ifd_time = time, ifd_position = tellg q\<rparr> # dropWhile (\<lambda>d. ifd_time d \<le> time) (positions q)\<rparr>
      else q)"

definition restoreFilePosition :: "nat \<Rightarrow> 't inFileQueue \<Rightarrow> 't inFileQueue" where
  "restoreFilePosition newPos q = q\<lparr>tellg := newPos, lastFossilCollPos := newPos\<rparr>"

text \<open>\<open>getline(buff, 8192)\<close>: a line that ends within the buffer and before the end of the file.\<close>

definition getline :: "'t inFileQueue \<Rightarrow> ('t inFileQueue \<times> string) option" where
  "getline q =
     (let rest = drop (tellg q) (inContent q);
          line = takeWhile (\<lambda>c. c \<noteq> CHR 0x0A) rest
      in if length line < length rest \<and> length line \<le> 8191
         then Some (q\<lparr>tellg := tellg q + length line + 1\<rparr>, line) else None)"

subsection \<open>Streams\<close>

record 't simulationStream =
  inFileQueue :: "'t inFileQueue option"
  outFileQueue :: "'t fileQueue option"
  myOutputBuffer :: string

datatype openmode = Mode_in | Mode_out | Mode_app

definition TimeWarpSimulationStream :: "openmode \<Rightarrow> string \<Rightarrow> 't simulationStream" where
  "TimeWarpSimulationStream mode content =
     (if mode = Mode_in then \<lparr>inFileQueue = Some (InFileQueue content), outFileQueue = None, myOutputBuffer = []\<rparr>
      else \<lparr>inFileQueue = None, outFileQueue = Some FileQueue, myOutputBuffer = []\<rparr>)"

text \<open>\<open>now\<close> is the simulation time of the object that owns the stream.\<close>

definition stream_flush :: "('t :: linorder) \<Rightarrow> 't simulationStream \<Rightarrow> 't simulationStream option" where
  "stream_flush now s = do {
     q \<leftarrow> outFileQueue s;
     Some (if myOutputBuffer s \<noteq> [] then s\<lparr>outFileQueue := Some (storeLine now (myOutputBuffer s) q), myOutputBuffer := []\<rparr>
           else s) }"

definition stream_insert :: "string \<Rightarrow> 't simulationStream \<Rightarrow> 't simulationStream" where
  "stream_insert ost s = s\<lparr>myOutputBuffer := myOutputBuffer s @ ost\<rparr>"

definition readLine :: "('t :: linorder) \<Rightarrow> 't simulationStream \<Rightarrow> ('t simulationStream \<times> string) option" where
  "readLine now s = do {
     q \<leftarrow> inFileQueue s;
     (q', line) \<leftarrow> getline (storePos now q);
     Some (s\<lparr>inFileQueue := Some q'\<rparr>, line) }"

definition stream_fossilCollect :: "('t :: linorder) \<Rightarrow> 't simulationStream \<Rightarrow> 't simulationStream" where
  "stream_fossilCollect time s =
     s\<lparr>inFileQueue := map_option (ifq_fossilCollect time) (inFileQueue s),
       outFileQueue := map_option (fq_fossilCollect time) (outFileQueue s)\<rparr>"

definition stream_fossilCollect_int :: "('t \<Rightarrow> int) \<Rightarrow> int \<Rightarrow> 't simulationStream \<Rightarrow> 't simulationStream" where
  "stream_fossilCollect_int approx time s =
     s\<lparr>inFileQueue := map_option (ifq_fossilCollect_int approx time) (inFileQueue s),
       outFileQueue := map_option (fq_fossilCollect_int approx time) (outFileQueue s)\<rparr>"

definition stream_rollbackTo :: "('t :: linorder) \<Rightarrow> 't simulationStream \<Rightarrow> 't simulationStream" where
  "stream_rollbackTo time s =
     s\<lparr>inFileQueue := map_option (ifq_rollbackTo time) (inFileQueue s),
       outFileQueue := map_option (fq_rollbackTo time) (outFileQueue s)\<rparr>"

subsection \<open>Output is committed exactly once and in order\<close>

text \<open>
  The uses of an output queue, and the log that they should leave: all surviving lines in the order of their times. A rollback
  does not go before the last committed time, and neither does a new line.
\<close>

datatype 't fileOp = Store 't string | RollbackTo 't | Commit 't

fun fq_op :: "('t :: linorder) fileOp \<Rightarrow> 't fileQueue \<Rightarrow> 't fileQueue" where
  "fq_op (Store t line) q = storeLine t line q"
| "fq_op (RollbackTo t) q = fq_rollbackTo t q"
| "fq_op (Commit t) q = fq_fossilCollect t q"

fun log_op :: "('t :: linorder) fileOp \<Rightarrow> 't fileData list \<Rightarrow> 't fileData list" where
  "log_op (Store t line) ds = fd_insert \<lparr>fd_time = t, fd_line = line\<rparr> ds"
| "log_op (RollbackTo t) ds = filter (\<lambda>d. fd_time d < t) ds"
| "log_op (Commit t) ds = ds"

fun committed :: "'t \<Rightarrow> ('t :: linorder) fileOp list \<Rightarrow> 't" where
  "committed g [] = g"
| "committed g (Commit t # ops) = committed t ops"
| "committed g (_ # ops) = committed g ops"

fun disciplined :: "'t \<Rightarrow> ('t :: linorder) fileOp list \<Rightarrow> bool" where
  "disciplined g [] \<longleftrightarrow> True"
| "disciplined g (Store t line # ops) \<longleftrightarrow> g \<le> t \<and> disciplined g ops"
| "disciplined g (RollbackTo t # ops) \<longleftrightarrow> g \<le> t \<and> disciplined g ops"
| "disciplined g (Commit t # ops) \<longleftrightarrow> g \<le> t \<and> disciplined t ops"

definition text_of :: "'t fileData list \<Rightarrow> string" where
  "text_of ds = concat (map fd_line ds)"

text \<open>How a queue represents a log: the lines before the committed time are in the file, the others wait.\<close>

definition represents :: "('t :: linorder) \<Rightarrow> 't fileQueue \<Rightarrow> 't fileData list \<Rightarrow> bool" where
  "represents g q ds \<longleftrightarrow> sorted (map fd_time ds) \<and>
     (\<exists>pre. ds = pre @ fq_lines q \<and> outFile q = text_of pre \<and>
        (\<forall>d \<in> set pre. fd_time d < g) \<and> (\<forall>d \<in> set (fq_lines q). g \<le> fd_time d))"

lemma commitLines_eq:
  "commitLines old ds out = (dropWhile (\<lambda>d. old (fd_time d)) ds, out @ text_of (takeWhile (\<lambda>d. old (fd_time d)) ds))"
  by (induction ds arbitrary: out) (simp_all add: text_of_def)

lemma sorted_fd_insert: "sorted (map fd_time ds) \<Longrightarrow> sorted (map fd_time (fd_insert d ds))"
proof (induction ds)
  case (Cons a ds)
  then show ?case
    by (auto simp: fd_insert_def dest!: set_takeWhileD set_dropWhileD split: if_splits)
qed (simp add: fd_insert_def)

lemma fd_insert_append:
  "\<forall>x \<in> set pre. fd_time x \<le> fd_time d \<Longrightarrow> fd_insert d (pre @ ds) = pre @ fd_insert d ds"
  by (simp add: fd_insert_def)

lemma representsI:
  "sorted (map fd_time ds) \<Longrightarrow> ds = pre @ fq_lines q \<Longrightarrow> outFile q = text_of pre \<Longrightarrow>
   \<forall>d \<in> set pre. fd_time d < g \<Longrightarrow> \<forall>d \<in> set (fq_lines q). g \<le> fd_time d \<Longrightarrow> represents g q ds"
  by (auto simp: represents_def)

lemma representsE:
  assumes "represents g q ds"
  obtains pre where "sorted (map fd_time ds)" "ds = pre @ fq_lines q" "outFile q = text_of pre"
    "\<forall>d \<in> set pre. fd_time d < g" "\<forall>d \<in> set (fq_lines q). g \<le> fd_time d"
  using assms by (auto simp: represents_def)

lemma represents_new: "represents g FileQueue []"
  by (simp add: represents_def FileQueue_def text_of_def)

lemma represents_store:
  assumes "represents g q ds" and "g \<le> t"
  shows "represents g (storeLine t line q) (fd_insert \<lparr>fd_time = t, fd_line = line\<rparr> ds)"
  using assms(1)
proof (rule representsE)
  let ?d = "\<lparr>fd_time = t, fd_line = line\<rparr>"
  fix pre
  assume r: "sorted (map fd_time ds)" "ds = pre @ fq_lines q" "outFile q = text_of pre"
    "\<forall>d \<in> set pre. fd_time d < g" "\<forall>d \<in> set (fq_lines q). g \<le> fd_time d"
  have "fd_insert ?d ds = pre @ fd_insert ?d (fq_lines q)"
    unfolding r(2) using r(4) assms(2) by (intro fd_insert_append) fastforce
  moreover have "set (fd_insert ?d (fq_lines q)) \<subseteq> insert ?d (set (fq_lines q))"
    by (auto simp: fd_insert_def dest: set_takeWhileD set_dropWhileD)
  ultimately show ?thesis
    using sorted_fd_insert [OF r(1), of ?d] r(3-5) assms(2)
    by (intro representsI [of _ pre]) (auto simp: storeLine_def)
qed

lemma represents_rollback:
  assumes "represents g q ds" and "g \<le> t"
  shows "represents g (fq_rollbackTo t q) (filter (\<lambda>d. fd_time d < t) ds)"
  using assms(1)
proof (rule representsE)
  fix pre
  assume r: "sorted (map fd_time ds)" "ds = pre @ fq_lines q" "outFile q = text_of pre"
    "\<forall>d \<in> set pre. fd_time d < g" "\<forall>d \<in> set (fq_lines q). g \<le> fd_time d"
  have "filter (\<lambda>d. fd_time d < t) pre = pre"
    using r(4) assms(2) by (auto intro!: filter_True)
  moreover have "filter (\<lambda>d. fd_time d < t) (fq_lines q) = takeWhile (\<lambda>d. fd_time d < t) (fq_lines q)"
    using r(1,2) by (intro takeWhile_eq_filter_sorted [symmetric]) (auto simp: sorted_append)
  ultimately have e: "filter (\<lambda>d. fd_time d < t) ds = pre @ takeWhile (\<lambda>d. fd_time d < t) (fq_lines q)"
    by (simp add: r(2))
  have "sorted (map fd_time (filter (\<lambda>d. fd_time d < t) ds))" by (rule sorted_filter [OF r(1)])
  with e r(3-5) show ?thesis
    by (intro representsI [of _ pre]) (auto simp: fq_rollbackTo_def dest: set_takeWhileD)
qed

lemma represents_commit:
  assumes "represents g q ds" and "g \<le> t"
  shows "represents t (fq_fossilCollect t q) ds"
  using assms(1)
proof (rule representsE)
  fix pre
  assume r: "sorted (map fd_time ds)" "ds = pre @ fq_lines q" "outFile q = text_of pre"
    "\<forall>d \<in> set pre. fd_time d < g" "\<forall>d \<in> set (fq_lines q). g \<le> fd_time d"
  let ?old = "takeWhile (\<lambda>d. fd_time d < t) (fq_lines q)"
  have "sorted (map fd_time (fq_lines q))" using r(1,2) by (simp add: sorted_append)
  then have "set (dropWhile (\<lambda>d. fd_time d < t) (fq_lines q)) = {d \<in> set (fq_lines q). \<not> fd_time d < t}"
    by (simp add: dropWhile_eq_filter_sorted)
  moreover have "\<forall>d \<in> set (pre @ ?old). fd_time d < t"
    using r(4) assms(2) by (auto dest: set_takeWhileD)
  ultimately show ?thesis
    using r(1-3) by (intro representsI [of _ "pre @ ?old"])
      (simp_all add: fq_fossilCollect_def commitLines_eq text_of_def not_less)
qed

lemma represents_run:
  "represents g q ds \<Longrightarrow> disciplined g ops \<Longrightarrow>
   represents (committed g ops) (fold fq_op ops q) (fold log_op ops ds)"
proof (induction g ops arbitrary: q ds rule: disciplined.induct)
  case (2 g t line ops)
  then show ?case using represents_store [of g q ds t line] by simp
next
  case (3 g t ops)
  then show ?case using represents_rollback [of g q ds t] by simp
next
  case (4 g t ops)
  then show ?case using represents_commit [of g q ds t] by simp
qed simp

lemma represents_split:
  "represents g q ds \<Longrightarrow> outFile q = text_of (filter (\<lambda>d. fd_time d < g) ds) \<and>
     fq_lines q = filter (\<lambda>d. g \<le> fd_time d) ds"
  by (erule representsE) (auto simp: not_less filter_empty_conv dest: leD intro!: filter_True [symmetric] arg_cong [of _ _ text_of])

subsection \<open>Reading again after a rollback\<close>

fun readLines :: "('t :: linorder) list \<Rightarrow> 't inFileQueue \<Rightarrow> ('t inFileQueue \<times> string list) option" where
  "readLines [] q = Some (q, [])"
| "readLines (t # ts) q = do {
     (q1, line) \<leftarrow> getline (storePos t q);
     (q2, ls) \<leftarrow> readLines ts q1;
     Some (q2, line # ls) }"

lemma getline_positions: "getline q = Some (q', line) \<Longrightarrow> positions q' = positions q"
  by (auto simp: getline_def Let_def split: if_splits)

lemma storePos_keeps:
  assumes "positions q = ps @ \<lparr>ifd_time = r, ifd_position = p\<rparr> # rest" and "\<forall>d \<in> set ps. ifd_time d < r"
    and "\<forall>d \<in> set rest. r < ifd_time d" and "r \<le> t"
  shows "\<exists>rest'. positions (storePos t q) = ps @ \<lparr>ifd_time = r, ifd_position = p\<rparr> # rest' \<and>
    (\<forall>d \<in> set rest'. r < ifd_time d)"
proof (cases "find (\<lambda>d. ifd_time d = t) (positions q) = None")
  case True
  then have "r \<noteq> t" using assms(1) by (auto simp: find_None_iff)
  then have rt: "r < t" using assms(4) by simp
  have "\<forall>d \<in> set ps. ifd_time d \<le> t" using assms(2) rt by fastforce
  then show ?thesis
    using True rt assms(1,3) by (auto simp: storePos_def dest: set_takeWhileD set_dropWhileD)
qed (use assms in \<open>auto simp: storePos_def\<close>)

lemma readLines_keep:
  assumes "readLines ts q = Some (q', ls)" and "\<forall>t \<in> set ts. r \<le> t"
    and "positions q = ps @ \<lparr>ifd_time = r, ifd_position = p\<rparr> # rest" and "\<forall>d \<in> set ps. ifd_time d < r"
    and "\<forall>d \<in> set rest. r < ifd_time d"
  shows "\<exists>rest'. positions q' = ps @ \<lparr>ifd_time = r, ifd_position = p\<rparr> # rest' \<and> (\<forall>d \<in> set rest'. r < ifd_time d)"
  using assms
proof (induction ts arbitrary: q ls rest)
  case (Cons t ts)
  obtain q1 line ls1 where g: "getline (storePos t q) = Some (q1, line)" "readLines ts q1 = Some (q', ls1)"
    using Cons.prems(1) by (auto split: bind_splits)
  obtain rest1 where "positions q1 = ps @ \<lparr>ifd_time = r, ifd_position = p\<rparr> # rest1" "\<forall>d \<in> set rest1. r < ifd_time d"
    using storePos_keeps [OF Cons.prems(3-5), of t] Cons.prems(2) getline_positions [OF g(1)] by auto
  with Cons.IH [OF g(2)] Cons.prems(2,4) show ?case by simp
qed auto

subsection \<open>Properties\<close>

text \<open>C5: output is committed exactly once, in order, and only when it can no longer be rolled back: after any sequence of writes,
  rollbacks and fossil collections that never go before the last fossil collection, the file holds exactly the surviving lines with times before the
  last collection, in the order of their times, and the queue holds exactly the later ones.\<close>

theorem output_committed_exactly:
  fixes ops :: "('t :: linorder) fileOp list"
  assumes "disciplined g ops"
  shows "outFile (fold fq_op ops FileQueue) =
      concat (map fd_line (filter (\<lambda>d. fd_time d < committed g ops) (fold log_op ops []))) \<and>
    fq_lines (fold fq_op ops FileQueue) = filter (\<lambda>d. committed g ops \<le> fd_time d) (fold log_op ops []) \<and>
    sorted (map fd_time (fold log_op ops []))"
proof -
  have "represents (committed g ops) (fold fq_op ops FileQueue) (fold log_op ops [])"
    by (rule represents_run [OF represents_new assms])
  then show ?thesis
    using represents_split by (fastforce simp: text_of_def elim: representsE)
qed

definition ex_fileOps :: "intvtime fileOp list" where
  "ex_fileOps = [Store (IntVTime 2) ''a'', Store (IntVTime 5) ''x'', Store (IntVTime 7) ''y'', Commit (IntVTime 3),
     RollbackTo (IntVTime 5), Store (IntVTime 6) ''c'', Store (IntVTime 4) ''b'', Commit (IntVTime 6)]"

theorem output_committed_exactly_witness:
  "outFile (fold fq_op ex_fileOps FileQueue) = ''ab'' \<and> fq_lines (fold fq_op ex_fileOps FileQueue) = [\<lparr>fd_time = IntVTime 6, fd_line = ''c''\<rparr>]"
proof -
  have d: "disciplined 0 ex_fileOps" by code_simp
  have l: "filter (\<lambda>d. fd_time d < committed 0 ex_fileOps) (fold log_op ex_fileOps []) =
      [\<lparr>fd_time = IntVTime 2, fd_line = ''a''\<rparr>, \<lparr>fd_time = IntVTime 4, fd_line = ''b''\<rparr>]"
    "filter (\<lambda>d. committed 0 ex_fileOps \<le> fd_time d) (fold log_op ex_fileOps []) = [\<lparr>fd_time = IntVTime 6, fd_line = ''c''\<rparr>]"
    by code_simp+
  from output_committed_exactly [OF d] show ?thesis unfolding l by simp
qed

text \<open>A rollback to a time at which the object read brings the file back: if an object reads for the first time at \<open>r\<close>, then reads on
  at times not before \<open>r\<close>, a rollback to \<open>r\<close> returns to the position before the first of these reads.\<close>

theorem input_rollback_restores:
  fixes q :: "('t :: linorder) inFileQueue"
  assumes "readLines (r # ts) q = Some (q', ls)" and "\<forall>t \<in> set ts. r \<le> t" and "\<forall>d \<in> set (positions q). ifd_time d < r"
  shows "tellg (ifq_rollbackTo r q') = tellg q \<and> inContent (ifq_rollbackTo r q') = inContent q'"
proof -
  obtain q1 line ls1 where g: "getline (storePos r q) = Some (q1, line)" "readLines ts q1 = Some (q', ls1)"
    using assms(1) by (auto split: bind_splits)
  have "find (\<lambda>d. ifd_time d = r) (positions q) = None" "takeWhile (\<lambda>d. ifd_time d \<le> r) (positions q) = positions q"
    using assms(3) by (auto simp: find_None_iff takeWhile_eq_all_conv)
  then have "positions q1 = positions q @ \<lparr>ifd_time = r, ifd_position = tellg q\<rparr> # []"
    using getline_positions [OF g(1)] by (simp add: storePos_def dropWhile_eq_Nil_conv takeWhile_eq_all_conv)
  from readLines_keep [OF g(2) assms(2) this assms(3)]
  obtain rest where p: "positions q' = positions q @ \<lparr>ifd_time = r, ifd_position = tellg q\<rparr> # rest" "\<forall>d \<in> set rest. r < ifd_time d"
    by auto
  have "takeWhile (\<lambda>d. ifd_time d \<le> r) (positions q') = positions q @ [\<lparr>ifd_time = r, ifd_position = tellg q\<rparr>]"
    unfolding p(1) using assms(3) p(2) by (cases rest) (auto simp: takeWhile_append2 less_imp_le)
  then show ?thesis by (simp add: ifq_rollbackTo_def Let_def)
qed

definition ex_input :: string where "ex_input = ''a'' @ [CHR 0x0A] @ ''b'' @ [CHR 0x0A]"

theorem input_rollback_restores_witness:
  "\<exists>q'. readLines [IntVTime 2, IntVTime 7] (InFileQueue ex_input) = Some (q', [''a'', ''b'']) \<and>
     tellg (ifq_rollbackTo (IntVTime 2) q') = 0"
proof -
  let ?r = "readLines [IntVTime 2, IntVTime 7] (InFileQueue ex_input)"
  have "map_option snd ?r = Some [''a'', ''b'']" by code_simp
  then obtain q' where q: "?r = Some (q', [''a'', ''b''])" by auto
  have "tellg (ifq_rollbackTo (IntVTime 2) q') = tellg (InFileQueue ex_input :: intvtime inFileQueue)"
    using input_rollback_restores [OF q] by (simp add: InFileQueue_def less_eq_intvtime_iff)
  with q show ?thesis by (simp add: InFileQueue_def)
qed

text \<open>A rollback to a time between two reads goes back too far: with lines \<open>a\<close> and \<open>b\<close> read at times 2 and 7, after a rollback to 5 the
  read at 7 returns \<open>a\<close> again, although the read at 2 was not undone.\<close>

theorem input_rollback_rereads:
  "map_option snd (do { (q, _) \<leftarrow> readLines [IntVTime 2, IntVTime 7] (InFileQueue ex_input);
       readLines [IntVTime 7] (ifq_rollbackTo (IntVTime 5) q) }) = Some [''a''] \<and>
   map_option snd (readLines [IntVTime 2, IntVTime 7] (InFileQueue ex_input)) = Some [''a'', ''b'']"
  by code_simp

end
