(* ===== verification/Kernel.thy ===== *)
theory Kernel
  imports EventSet StateManager OutputQueue MatternGVT FileQueues
begin

text \<open>
  The simulation manager: \<open>TimeWarpSimulationManager.cpp\<close>, \<open>SimulationObject.cpp\<close> and \<open>TimeWarpMultiSetSchedulingManager.cpp\<close>, with the
  multiset event set, periodic state saving, Mattern's GVT and aggressive or lazy cancellation. The configuration is without optimistic
  fossil collection, so \<open>inRecovery\<close> stays false, and without DVFS. A message handed to the communication manager is
  appended to \<open>sent\<close>.
\<close>

subsection \<open>State\<close>

text \<open>
  What an application does in \<open>executeProcess\<close>: it reads and changes the state of its object, takes events, asks whether
  more events are due now and what time it is, and sends events, and it ends.
\<close>

datatype ('t, 'st) process =
  Done
| GetState "'st \<Rightarrow> ('t, 'st) process"
| PutState 'st "('t, 'st) process"
| GetEvent "'t event option \<Rightarrow> ('t, 'st) process"
| HaveMoreEvents "bool \<Rightarrow> ('t, 'st) process"
| GetSimulationTime "'t \<Rightarrow> ('t, 'st) process"
| ReceiveEvent "'t event" "('t, 'st) process"

datatype 't kernelMsg =
  EventMsg nat "'t event" string
| NegativeEventMsg nat "'t negativeEvent list" string
| GVTMsg "'t gVTMessage"

datatype 't outMgr = AGGRMGR "'t outputManager" | LAZYMGR "'t lazyManager"

record ('t, 'st) simMgr =
  eventSet :: "'t twMultiSet"
  stateMgr :: "('t, 'st) stateManager"
  outputMgr :: "'t outMgr"
  gvtMgr :: "'t matternGVTManager"
  localVirtualTime :: "'t list"
  myState :: "'st list"
  coastForwardTime :: "'t option list"
  inFileQueues :: "'t simulationStream list list"
  outFileQueues :: "'t simulationStream list list"
  numberOfRollbacks :: u32
  sent :: "'t kernelMsg list"
  heapTop :: nat

text \<open>
  The environment of the kernel: the application's code, its comparison of events, the configuration flag, and the freedom that the
  C++ library leaves: the order in which an \<open>unordered_map\<close> is traversed and the order of equal elements
  after \<open>std::sort\<close> by receive time and event id and by receive time.
\<close>

record ('t, 'st) kernelEnv =
  executeProcess :: "nat \<Rightarrow> ('t, 'st) process"
  eventCompare :: "'t event \<Rightarrow> 't event \<Rightarrow> bool"
  usingOneAntiMsg :: bool
  traversal :: "(objectID \<times> 't negativeEvent list) list \<Rightarrow> (objectID \<times> 't negativeEvent list) list"
  sortRecvId :: "'t event list \<Rightarrow> 't event list"
  sortRecv :: "'t event list \<Rightarrow> 't event list"

text \<open>The calls that may lead to each other: a rollback of an object, and the loop that coasts an object forward.\<close>

datatype 't kernelCall = Rollback nat 't | CoastLoop nat 't

definition contains :: "('t, 'st) simMgr \<Rightarrow> objectID \<Rightarrow> bool" where
  "contains s obj \<longleftrightarrow> unat (getSimulationManagerID obj) = mySimulationManagerID (gvtMgr s)"

text \<open>The identifier of the local object \<open>i\<close>.\<close>

definition localObject :: "('t, 'st) simMgr \<Rightarrow> nat \<Rightarrow> objectID" where
  "localObject s i = ObjectID (of_nat i) (of_nat (mySimulationManagerID (gvtMgr s)))"

definition setSimulationTime :: "nat \<Rightarrow> ('t :: {linorder, zero}) \<Rightarrow> ('t, 'st) simMgr \<Rightarrow> ('t, 'st) simMgr option" where
  "setSimulationTime i newSimulationTime s =
     (if newSimulationTime \<ge> 0 then do {
        times \<leftarrow> vec_set (localVirtualTime s) i newSimulationTime;
        Some (s\<lparr>localVirtualTime := times\<rparr>) }
      else None)"

definition sendMessage :: "'t kernelMsg \<Rightarrow> ('t, 'st) simMgr \<Rightarrow> ('t, 'st) simMgr" where
  "sendMessage msg s = s\<lparr>sent := sent s @ [msg]\<rparr>"

subsection \<open>Sending and cancelling events\<close>

definition sm_insert :: "('t :: linorder) event \<Rightarrow> ('t, 'st) simMgr \<Rightarrow> ('t, 'st) simMgr option" where
  "sm_insert event s = do { (es, _) \<leftarrow> insert_ev event (eventSet s); Some (s\<lparr>eventSet := es\<rparr>) }"

definition handleLocalEvent ::
  "('t kernelCall \<Rightarrow> ('t, 'st) simMgr \<Rightarrow> ('t, 'st) simMgr option) \<Rightarrow> ('t :: linorder) event \<Rightarrow>
   ('t, 'st) simMgr \<Rightarrow> ('t, 'st) simMgr option" where
  "handleLocalEvent call event s = do {
     let rcv = objIdOf (receiver event);
     now \<leftarrow> vec_get (localVirtualTime s) rcv;
     if receiveTime event > now then sm_insert event s
     else do { s' \<leftarrow> call (Rollback rcv (receiveTime event)) s; sm_insert event s' } }"

definition handleRemoteEvent :: "('t :: linorder) event \<Rightarrow> ('t, 'st) simMgr \<Rightarrow> ('t, 'st) simMgr option" where
  "handleRemoteEvent event s = do {
     coasting \<leftarrow> vec_get (coastForwardTime s) (objIdOf (sender event));
     if coasting = None then do {
       let destSimMgrId = unat (getSimulationManagerID (receiver event));
       (g, gVTInfo) \<leftarrow> getGVTInfo (sendTime event) (gvtMgr s);
       Some (sendMessage (EventMsg destSimMgrId event gVTInfo) (s\<lparr>gvtMgr := g\<rparr>)) }
     else Some s }"

definition handleEventReceiver ::
  "('t kernelCall \<Rightarrow> ('t, 'st) simMgr \<Rightarrow> ('t, 'st) simMgr option) \<Rightarrow> ('t :: linorder) event \<Rightarrow>
   ('t, 'st) simMgr \<Rightarrow> ('t, 'st) simMgr option" where
  "handleEventReceiver call event s =
     (if contains s (receiver event) then handleLocalEvent call event s else handleRemoteEvent event s)"

definition es_handleAntiMessage ::
  "bool \<Rightarrow> objectID \<Rightarrow> ('t :: linorder) negativeEvent \<Rightarrow> 't twMultiSet \<Rightarrow> 't twMultiSet option" where
  "es_handleAntiMessage one object event s =
     map_option fst (if one then handleAntiMessage_one object event s else handleAntiMessage object event s)"

text \<open>A state operation for each element of a list, in order.\<close>

fun for_each :: "('a \<Rightarrow> 's \<Rightarrow> 's option) \<Rightarrow> 'a list \<Rightarrow> 's \<Rightarrow> 's option" where
  "for_each f [] s = Some s"
| "for_each f (x # xs) s = do { s' \<leftarrow> f x s; for_each f xs s' }"

fun lowestReceiveTime :: "'t \<Rightarrow> ('t :: linorder) event list \<Rightarrow> 't" where
  "lowestReceiveTime lowTime [] = lowTime"
| "lowestReceiveTime lowTime (e # es) =
     lowestReceiveTime (if lowTime > receiveTime e then receiveTime e else lowTime) es"

definition cancelLocalEvents ::
  "('t, 'st) kernelEnv \<Rightarrow> ('t kernelCall \<Rightarrow> ('t, 'st) simMgr \<Rightarrow> ('t, 'st) simMgr option) \<Rightarrow>
   ('t :: linorder) negativeEvent list \<Rightarrow> ('t, 'st) simMgr \<Rightarrow> ('t, 'st) simMgr option" where
  "cancelLocalEvents env call toCancel s =
     (case toCancel of
        [] \<Rightarrow> None
      | first # _ \<Rightarrow> do {
          let lowTime = lowestReceiveTime (receiveTime first) toCancel;
          let rcv = objIdOf (receiver first);
          now \<leftarrow> vec_get (localVirtualTime s) rcv;
          s1 \<leftarrow> (if lowTime \<le> now then call (Rollback rcv lowTime) s else Some s);
          for_each (\<lambda>e s. do {
            now \<leftarrow> vec_get (localVirtualTime s) rcv;
            if receiveTime e \<ge> now then do {
              es \<leftarrow> es_handleAntiMessage (usingOneAntiMsg env) (receiver first) e (eventSet s);
              Some (s\<lparr>eventSet := es\<rparr>) }
            else None }) toCancel s1 })"

fun lowestSendTime :: "'t \<Rightarrow> ('t :: linorder) event list \<Rightarrow> 't" where
  "lowestSendTime m [] = m"
| "lowestSendTime m (e # es) = lowestSendTime (if m > sendTime e then sendTime e else m) es"

text \<open>The parts in which anti-messages are sent: at most ten each.\<close>

function chunks :: "'a list \<Rightarrow> 'a list list" where
  "chunks xs = (if xs = [] then [] else take 10 xs # chunks (drop 10 xs))"
  by pat_completeness auto
termination by (relation "measure length") auto

declare chunks.simps [simp del]

definition sendNegative :: "nat \<Rightarrow> ('t :: linorder) negativeEvent list \<Rightarrow> ('t, 'st) simMgr \<Rightarrow> ('t, 'st) simMgr option" where
  "sendNegative destId part s =
     (case part of
        [] \<Rightarrow> None
      | first # _ \<Rightarrow> do {
          (g, gVTInfo) \<leftarrow> getGVTInfo (lowestSendTime (sendTime first) part) (gvtMgr s);
          Some (sendMessage (NegativeEventMsg destId part gVTInfo) (s\<lparr>gvtMgr := g\<rparr>)) })"

definition cancelRemoteEvents :: "('t :: linorder) negativeEvent list \<Rightarrow> ('t, 'st) simMgr \<Rightarrow> ('t, 'st) simMgr option" where
  "cancelRemoteEvents toCancel s =
     (case toCancel of
        [] \<Rightarrow> None
      | first # _ \<Rightarrow>
          let destId = unat (getSimulationManagerID (receiver first))
          in if length toCancel > 10 then for_each (sendNegative destId) (chunks toCancel) s
             else sendNegative destId toCancel s)"

definition cancelEventsReceiver ::
  "('t, 'st) kernelEnv \<Rightarrow> ('t kernelCall \<Rightarrow> ('t, 'st) simMgr \<Rightarrow> ('t, 'st) simMgr option) \<Rightarrow>
   objectID \<Rightarrow> ('t :: linorder) negativeEvent list \<Rightarrow> ('t, 'st) simMgr \<Rightarrow> ('t, 'st) simMgr option" where
  "cancelEventsReceiver env call curObject cancelObjects s =
     (if contains s curObject then cancelLocalEvents env call cancelObjects s else cancelRemoteEvents cancelObjects s)"

text \<open>\<open>new NegativeEvent\<close>: the negative event of an event, at a new address.\<close>

fun newNegatives :: "nat \<Rightarrow> 't event list \<Rightarrow> 't negativeEvent list" where
  "newNegatives addr [] = []"
| "newNegatives addr (e # es) = NegativeEvent addr e # newNegatives (Suc addr) es"

text \<open>With one anti-message per receiver: the first event for each receiver.\<close>

fun firstPerReceiver :: "objectID list \<Rightarrow> 't event list \<Rightarrow> 't event list" where
  "firstPerReceiver added [] = []"
| "firstPerReceiver added (e # es) =
     (if receiver e \<in> set added then firstPerReceiver added es
      else e # firstPerReceiver (receiver e # added) es)"

text \<open>The map from receivers to their events.\<close>

fun addToGroup :: "'t event \<Rightarrow> (objectID \<times> 't event list) list \<Rightarrow> (objectID \<times> 't event list) list" where
  "addToGroup e [] = [(receiver e, [e])]"
| "addToGroup e ((r, es) # gs) = (if r = receiver e then (r, es @ [e]) # gs else (r, es) # addToGroup e gs)"

definition groupByReceiver :: "'t event list \<Rightarrow> (objectID \<times> 't event list) list" where
  "groupByReceiver es = foldl (\<lambda>gs e. addToGroup e gs) [] es"

definition cancelEvents ::
  "('t, 'st) kernelEnv \<Rightarrow> ('t kernelCall \<Rightarrow> ('t, 'st) simMgr \<Rightarrow> ('t, 'st) simMgr option) \<Rightarrow>
   ('t :: linorder) event list \<Rightarrow> ('t, 'st) simMgr \<Rightarrow> ('t, 'st) simMgr option" where
  "cancelEvents env call toCancel s =
     (if length toCancel > 0 then
        if usingOneAntiMsg env then
          let firsts = firstPerReceiver [] (sortRecvId env toCancel);
              negEvents = newNegatives (heapTop s) firsts
          in for_each (\<lambda>n. cancelEventsReceiver env call (receiver n) [n]) negEvents
               (s\<lparr>heapTop := heapTop s + length firsts\<rparr>)
        else
          let negEvents = newNegatives (heapTop s) toCancel
          in for_each (\<lambda>g. cancelEventsReceiver env call (fst g) (snd g)) (traversal env (groupByReceiver negEvents))
               (s\<lparr>heapTop := heapTop s + length toCancel\<rparr>)
      else None)"

text \<open>The events that \<open>handleCancelEvents\<close> of the lazy manager hands over, one vector per object.\<close>

definition cancelAll ::
  "('t, 'st) kernelEnv \<Rightarrow> ('t kernelCall \<Rightarrow> ('t, 'st) simMgr \<Rightarrow> ('t, 'st) simMgr option) \<Rightarrow>
   ('t :: linorder) event list list \<Rightarrow> ('t, 'st) simMgr \<Rightarrow> ('t, 'st) simMgr option" where
  "cancelAll env call cancelled s = for_each (cancelEvents env call) cancelled s"

definition handleEvent ::
  "('t, 'st) kernelEnv \<Rightarrow> ('t kernelCall \<Rightarrow> ('t, 'st) simMgr \<Rightarrow> ('t, 'st) simMgr option) \<Rightarrow>
   ('t :: linorder) event \<Rightarrow> ('t, 'st) simMgr \<Rightarrow> ('t, 'st) simMgr option" where
  "handleEvent env call event s = do {
     coasting \<leftarrow> vec_get (coastForwardTime s) (objIdOf (sender event));
     if coasting \<noteq> None then Some s
     else do {
       (s', shouldHandleEvent) \<leftarrow>
         (if contains s (sender event) then
            (case outputMgr s of
               AGGRMGR m \<Rightarrow> do {
                 m' \<leftarrow> om_insert (contains s) event m;
                 Some (s\<lparr>outputMgr := AGGRMGR m'\<rparr>, True) }
             | LAZYMGR m \<Rightarrow> do {
                 (m', hit, cancelled) \<leftarrow> lazyCancel (eventCompare env) (contains s) event m;
                 s1 \<leftarrow> cancelAll env call cancelled (s\<lparr>outputMgr := LAZYMGR m'\<rparr>);
                 Some (s1, \<not> hit) })
          else Some (s, True));
       if shouldHandleEvent then handleEventReceiver call event s' else Some s' } }"

subsection \<open>Executing an object\<close>

definition sm_getEvent :: "nat \<Rightarrow> ('t :: linorder, 'st) simMgr \<Rightarrow> (('t, 'st) simMgr \<times> 't event option) option" where
  "sm_getEvent i s = do {
     coasting \<leftarrow> vec_get (coastForwardTime s) i;
     (es, e) \<leftarrow> (case coasting of
         Some time \<Rightarrow> getEvent_before (localObject s i) time (eventSet s)
       | None \<Rightarrow> getEvent (localObject s i) (eventSet s));
     Some (s\<lparr>eventSet := es\<rparr>, e) }"

definition sm_peekEvent :: "nat \<Rightarrow> ('t :: linorder, 'st) simMgr \<Rightarrow> 't event option option" where
  "sm_peekEvent i s = do {
     coasting \<leftarrow> vec_get (coastForwardTime s) i;
     case coasting of
       Some time \<Rightarrow> peekEvent_before (Some (localObject s i)) time (eventSet s)
     | None \<Rightarrow> peekEvent (Some (localObject s i)) (eventSet s) }"

definition haveMoreEvents :: "nat \<Rightarrow> ('t :: linorder, 'st) simMgr \<Rightarrow> bool option" where
  "haveMoreEvents i s = do {
     event \<leftarrow> sm_peekEvent i s;
     case event of
       None \<Rightarrow> Some False
     | Some e \<Rightarrow> do {
         now \<leftarrow> vec_get (localVirtualTime s) i;
         Some (if receiveTime e = now then receiver e = localObject s i else False) } }"

primrec runProcess ::
  "('t, 'st) kernelEnv \<Rightarrow> ('t kernelCall \<Rightarrow> ('t, 'st) simMgr \<Rightarrow> ('t, 'st) simMgr option) \<Rightarrow> nat \<Rightarrow>
   ('t :: linorder, 'st) process \<Rightarrow> ('t, 'st) simMgr \<Rightarrow> ('t, 'st) simMgr option" where
  "runProcess env call i Done s = Some s"
| "runProcess env call i (GetState k) s = do {
     st \<leftarrow> vec_get (myState s) i;
     runProcess env call i (k st) s }"
| "runProcess env call i (PutState st p) s = do {
     states \<leftarrow> vec_set (myState s) i st;
     runProcess env call i p (s\<lparr>myState := states\<rparr>) }"
| "runProcess env call i (GetEvent k) s = do {
     (s', e) \<leftarrow> sm_getEvent i s;
     runProcess env call i (k e) s' }"
| "runProcess env call i (HaveMoreEvents k) s = do {
     b \<leftarrow> haveMoreEvents i s;
     runProcess env call i (k b) s }"
| "runProcess env call i (GetSimulationTime k) s = do {
     now \<leftarrow> vec_get (localVirtualTime s) i;
     runProcess env call i (k now) s }"
| "runProcess env call i (ReceiveEvent e p) s = do {
     s' \<leftarrow> handleEvent env call e s;
     runProcess env call i p s' }"

subsection \<open>Rollback and coasting forward\<close>

definition coastLoop ::
  "('t, 'st) kernelEnv \<Rightarrow> ('t kernelCall \<Rightarrow> ('t, 'st) simMgr \<Rightarrow> ('t, 'st) simMgr option) \<Rightarrow> nat \<Rightarrow>
   ('t :: {linorder, zero}) \<Rightarrow> ('t, 'st) simMgr \<Rightarrow> ('t, 'st) simMgr option" where
  "coastLoop env call i moveUpToTime s = do {
     findEvent \<leftarrow> peekEvent_before (Some (localObject s i)) moveUpToTime (eventSet s);
     case findEvent of
       None \<Rightarrow> Some s
     | Some e \<Rightarrow>
         if receiveTime e < moveUpToTime then do {
           s1 \<leftarrow> setSimulationTime i (receiveTime e) s;
           s2 \<leftarrow> runProcess env call i (executeProcess env i) s1;
           call (CoastLoop i moveUpToTime) s2 }
         else Some s }"

definition coastForward ::
  "('t kernelCall \<Rightarrow> ('t, 'st) simMgr \<Rightarrow> ('t, 'st) simMgr option) \<Rightarrow> ('t :: {linorder, zero}) \<Rightarrow> 't \<Rightarrow> nat \<Rightarrow>
   ('t, 'st) simMgr \<Rightarrow> ('t, 'st) simMgr option" where
  "coastForward call coastForwardFromTime moveUpToTime i s =
     (if moveUpToTime \<ge> coastForwardFromTime then do {
        before \<leftarrow> vec_get (coastForwardTime s) i;
        if before = None then do {
          s1 \<leftarrow> call (CoastLoop i moveUpToTime) (s\<lparr>coastForwardTime := (coastForwardTime s)[i := Some moveUpToTime]\<rparr>);
          after \<leftarrow> vec_get (coastForwardTime s1) i;
          if after \<noteq> None then Some (s1\<lparr>coastForwardTime := (coastForwardTime s1)[i := None]\<rparr>) else None }
        else None }
      else None)"

definition outputRollback ::
  "('t, 'st) kernelEnv \<Rightarrow> ('t kernelCall \<Rightarrow> ('t, 'st) simMgr \<Rightarrow> ('t, 'st) simMgr option) \<Rightarrow> nat \<Rightarrow>
   ('t :: linorder) \<Rightarrow> ('t, 'st) simMgr \<Rightarrow> ('t, 'st) simMgr option" where
  "outputRollback env call i rollbackTime s =
     (case outputMgr s of
        AGGRMGR m \<Rightarrow> do {
          (m', toCancel, _) \<leftarrow> aggressiveRollback None (\<lambda>_. 0) i rollbackTime m;
          (case toCancel of
             None \<Rightarrow> Some (s\<lparr>outputMgr := AGGRMGR m'\<rparr>)
           | Some es \<Rightarrow> cancelEvents env call es (s\<lparr>outputMgr := AGGRMGR m'\<rparr>)) }
      | LAZYMGR m \<Rightarrow> do {
          (m', _) \<leftarrow> lazyRollback (sortRecv env) None (\<lambda>_. 0) i rollbackTime m;
          Some (s\<lparr>outputMgr := LAZYMGR m'\<rparr>) })"

definition rollbackObject ::
  "('t, 'st) kernelEnv \<Rightarrow> ('t kernelCall \<Rightarrow> ('t, 'st) simMgr \<Rightarrow> ('t, 'st) simMgr option) \<Rightarrow> nat \<Rightarrow>
   ('t :: {linorder, zero}) \<Rightarrow> ('t, 'st) simMgr \<Rightarrow> ('t, 'st) simMgr option" where
  "rollbackObject env call i rollbackTime s =
     (if rollbackTime < gVT (gvtMgr s) then None
      else do {
        let s0 = s\<lparr>numberOfRollbacks := numberOfRollbacks s + 1\<rparr>;
        (states, restoredTime, restored, _) \<leftarrow> restoreState False rollbackTime i (stateMgr s0);
        st \<leftarrow> restored;
        objs \<leftarrow> vec_set (myState s0) i st;
        s1 \<leftarrow> setSimulationTime i restoredTime (s0\<lparr>stateMgr := states, myState := objs\<rparr>);
        if restoredTime \<le> rollbackTime then do {
          inQueues \<leftarrow> vec_get (inFileQueues s1) i;
          outQueues \<leftarrow> vec_get (outFileQueues s1) i;
          es \<leftarrow> rollback (localObject s1 i) restoredTime (eventSet s1);
          s2 \<leftarrow> outputRollback env call i rollbackTime
            (s1\<lparr>inFileQueues := (inFileQueues s1)[i := map (stream_rollbackTo restoredTime) inQueues],
                outFileQueues := (outFileQueues s1)[i := map (stream_rollbackTo restoredTime) outQueues],
                eventSet := es\<rparr>);
          coastForward call restoredTime rollbackTime i s2 }
        else None })"

definition kernelBody ::
  "('t, 'st) kernelEnv \<Rightarrow> ('t kernelCall \<Rightarrow> ('t, 'st) simMgr \<Rightarrow> ('t, 'st) simMgr option) \<Rightarrow>
   ('t :: {linorder, zero}) kernelCall \<Rightarrow> ('t, 'st) simMgr \<Rightarrow> ('t, 'st) simMgr option" where
  "kernelBody env call c s =
     (case c of Rollback i t \<Rightarrow> rollbackObject env call i t s | CoastLoop i t \<Rightarrow> coastLoop env call i t s)"

text \<open>The bodies are monotone in the recursive calls they make, so their least fixed point is a partial function.\<close>

lemma case_mono:
  "(\<And>a b. mono_option (\<lambda>f. P f a b)) \<Longrightarrow> mono_option (\<lambda>f. case p of (a, b) \<Rightarrow> P f a b)"
  "mono_option (\<lambda>f. N f) \<Longrightarrow> (\<And>x. mono_option (\<lambda>f. S f x)) \<Longrightarrow>
     mono_option (\<lambda>f. case v of None \<Rightarrow> N f | Some x \<Rightarrow> S f x)"
  "mono_option (\<lambda>f. E f) \<Longrightarrow> (\<And>x xs. mono_option (\<lambda>f. C f x xs)) \<Longrightarrow>
     mono_option (\<lambda>f. case l of [] \<Rightarrow> E f | x # xs \<Rightarrow> C f x xs)"
  "(\<And>m. mono_option (\<lambda>f. A f m)) \<Longrightarrow> (\<And>m. mono_option (\<lambda>f. L f m)) \<Longrightarrow>
     mono_option (\<lambda>f. case om of AGGRMGR m \<Rightarrow> A f m | LAZYMGR m \<Rightarrow> L f m)"
     apply (cases p, simp)
    apply (cases v, simp, simp)
   apply (cases l, simp, simp)
  apply (cases om, simp, simp)
  done

lemma for_each_mono:
  assumes "\<And>x s. mono_option (\<lambda>f. B f x s)"
  shows "mono_option (\<lambda>f. for_each (B f) xs s)"
proof (induction xs arbitrary: s)
  case (Cons x xs)
  have "mono_option (\<lambda>f. Option.bind (B f x s) (for_each (B f) xs))"
    by (rule bind_mono) (rule assms, rule Cons.IH)
  then show ?case by simp
qed (simp add: option.const_mono)

lemmas mono_intros = case_mono Partial_Function.let_mono for_each_mono bind_mono if_mono option.const_mono

lemma handleLocalEvent_mono:
  "(\<And>c s. mono_option (\<lambda>f. B f c s)) \<Longrightarrow> mono_option (\<lambda>f. handleLocalEvent (B f) e s)"
  unfolding handleLocalEvent_def by (intro mono_intros) assumption

lemma cancelEventsReceiver_mono:
  "(\<And>c s. mono_option (\<lambda>f. B f c s)) \<Longrightarrow> mono_option (\<lambda>f. cancelEventsReceiver env (B f) ob ns s)"
  unfolding cancelEventsReceiver_def cancelLocalEvents_def by (intro mono_intros) assumption

lemma cancelEvents_mono:
  "(\<And>c s. mono_option (\<lambda>f. B f c s)) \<Longrightarrow> mono_option (\<lambda>f. cancelEvents env (B f) es s)"
  unfolding cancelEvents_def by (intro mono_intros cancelEventsReceiver_mono) assumption+

lemma handleEvent_mono:
  "(\<And>c s. mono_option (\<lambda>f. B f c s)) \<Longrightarrow> mono_option (\<lambda>f. handleEvent env (B f) e s)"
  unfolding handleEvent_def handleEventReceiver_def cancelAll_def
  by (intro mono_intros handleLocalEvent_mono cancelEvents_mono) assumption+

lemma runProcess_mono:
  "(\<And>c s. mono_option (\<lambda>f. B f c s)) \<Longrightarrow> mono_option (\<lambda>f. runProcess env (B f) i p s)"
  by (induction p arbitrary: s) (simp_all, (intro mono_intros handleEvent_mono; assumption?; blast)+)

lemma kernelBody_mono [partial_function_mono]:
  "(\<And>c s. mono_option (\<lambda>f. B f c s)) \<Longrightarrow> mono_option (\<lambda>f. kernelBody env (B f) c s)"
  unfolding kernelBody_def rollbackObject_def coastLoop_def outputRollback_def coastForward_def
  by (cases c) (simp_all, (intro mono_intros runProcess_mono cancelEvents_mono; assumption)+)

partial_function (option) kernel ::
  "('t, 'st) kernelEnv \<Rightarrow> ('t :: {linorder, zero}) kernelCall \<Rightarrow> ('t, 'st) simMgr \<Rightarrow> ('t, 'st) simMgr option" where
  "kernel env c s = kernelBody env (kernel env) c s"

declare kernel.simps [simp del]

subsection \<open>Fossil collection, messages and the main loop\<close>

fun minTime :: "('t :: linorder) \<Rightarrow> 't list \<Rightarrow> 't" where
  "minTime m [] = m"
| "minTime m (t # ts) = minTime (if t < m then t else m) ts"

text \<open>The first loop of \<open>fossilCollect\<close>: states and file queues of each object; the lowest state time that is left of each.\<close>

fun collectStates ::
  "('t :: {linorder, order_top}) \<Rightarrow> nat list \<Rightarrow> ('t, 'st) simMgr \<Rightarrow> (('t, 'st) simMgr \<times> 't list) option" where
  "collectStates time [] s = Some (s, [])"
| "collectStates time (i # is) s = do {
     (states, low, _) \<leftarrow> fossilCollectStates i time (stateMgr s);
     inQueues \<leftarrow> vec_get (inFileQueues s) i;
     outQueues \<leftarrow> vec_get (outFileQueues s) i;
     (s', lows) \<leftarrow> collectStates time is
       (s\<lparr>stateMgr := states,
          inFileQueues := (inFileQueues s)[i := map (stream_fossilCollect low) inQueues],
          outFileQueues := (outFileQueues s)[i := map (stream_fossilCollect low) outQueues]\<rparr>);
     Some (s', low # lows) }"

definition collectOutputs :: "('t :: linorder) \<Rightarrow> nat \<Rightarrow> ('t, 'st) simMgr \<Rightarrow> ('t, 'st) simMgr option" where
  "collectOutputs time i s =
     (case outputMgr s of
        AGGRMGR m \<Rightarrow> do { (m', _) \<leftarrow> om_fossilCollect i time m; Some (s\<lparr>outputMgr := AGGRMGR m'\<rparr>) }
      | LAZYMGR m \<Rightarrow> do {
          (outs, _) \<leftarrow> om_fossilCollect i time (lm_outputs m);
          Some (s\<lparr>outputMgr := LAZYMGR (m\<lparr>lm_outputs := outs\<rparr>)\<rparr>) })"

definition collectEvents :: "('t :: linorder) \<Rightarrow> nat \<Rightarrow> ('t, 'st) simMgr \<Rightarrow> ('t, 'st) simMgr option" where
  "collectEvents time i s = do {
     (es, _) \<leftarrow> fossilCollect (localObject s i) time (eventSet s);
     Some (s\<lparr>eventSet := es\<rparr>) }"

definition sm_fossilCollect :: "('t :: {linorder, order_top}) \<Rightarrow> ('t, 'st) simMgr \<Rightarrow> ('t, 'st) simMgr option" where
  "sm_fossilCollect fossilCollectTime s = (let objects = [0..<length (myState s)] in
     if objects \<noteq> [] then do {
       (s1, minTimes) \<leftarrow> collectStates fossilCollectTime objects s;
       let m = minTime (hd minTimes) (tl minTimes);
       s2 \<leftarrow> for_each (collectOutputs m) objects s1;
       for_each (collectEvents m) objects s2 }
     else Some s)"

text \<open>\<open>TimeWarpMultiSetSchedulingManager\<close>.\<close>

definition peekNextEvent :: "('t :: linorder, 'st) simMgr \<Rightarrow> 't event option option" where
  "peekNextEvent s = peekEvent None (eventSet s)"

definition getLastEventScheduledTime :: "('t :: {linorder, order_top}, 'st) simMgr \<Rightarrow> 't option" where
  "getLastEventScheduledTime s = do {
     earliest \<leftarrow> peekNextEvent s;
     Some (case earliest of Some e \<Rightarrow> receiveTime e | None \<Rightarrow> top) }"

text \<open>What the GVT manager does to the kernel: it sends messages, and a new GVT starts fossil collection.\<close>

definition gvtEffects ::
  "('t :: {linorder, order_top}) matternGVTManager \<times> 't gVTMessage list \<times> 't option \<Rightarrow>
   ('t, 'st) simMgr \<Rightarrow> ('t, 'st) simMgr option" where
  "gvtEffects r s = (case r of (g, msgs, new) \<Rightarrow>
     let s' = s\<lparr>gvtMgr := g, sent := sent s @ map GVTMsg msgs\<rparr>
     in case new of None \<Rightarrow> Some s' | Some t \<Rightarrow> sm_fossilCollect t s')"

definition sm_calculateGVT :: "('t :: {linorder, order_top}, 'st) simMgr \<Rightarrow> ('t, 'st) simMgr option" where
  "sm_calculateGVT s = do {
     low \<leftarrow> getLastEventScheduledTime s;
     r \<leftarrow> calculateGVT low (gvtMgr s);
     gvtEffects r s }"

definition sm_receiveKernelMessage ::
  "('t, 'st) kernelEnv \<Rightarrow> ('t :: {linorder, order_top, zero}) kernelMsg \<Rightarrow> ('t, 'st) simMgr \<Rightarrow> ('t, 'st) simMgr option" where
  "sm_receiveKernelMessage env msg s =
     (case msg of
        EventMsg _ event info \<Rightarrow>
          handleEventReceiver (kernel env) event (s\<lparr>gvtMgr := updateEventRecord info (gvtMgr s)\<rparr>)
      | NegativeEventMsg _ events info \<Rightarrow>
          (case events of
             [] \<Rightarrow> None
           | first # _ \<Rightarrow> cancelEventsReceiver env (kernel env) (receiver first) events
               (s\<lparr>gvtMgr := updateEventRecord info (gvtMgr s)\<rparr>))
      | GVTMsg m \<Rightarrow> do {
          low \<leftarrow> getLastEventScheduledTime s;
          r \<leftarrow> receiveKernelMessage low m (gvtMgr s);
          gvtEffects r s })"

text \<open>The part of \<open>executeObjects\<close> that cancels overdue events of the lazy queues.\<close>

definition sm_emptyLazyQueues ::
  "('t, 'st) kernelEnv \<Rightarrow> ('t :: {linorder, zero}) \<Rightarrow> ('t, 'st) simMgr \<Rightarrow> ('t, 'st) simMgr option" where
  "sm_emptyLazyQueues env time s =
     (case outputMgr s of
        AGGRMGR _ \<Rightarrow> Some s
      | LAZYMGR m \<Rightarrow> (let (m', cancelled) = emptyLazyQueues time m
                      in cancelAll env (kernel env) cancelled (s\<lparr>outputMgr := LAZYMGR m'\<rparr>)))"

text \<open>One turn of the loop of \<open>executeObjects\<close> without the poll for messages; the flag tells that the end time is reached.\<close>

definition executeObject ::
  "('t, 'st) kernelEnv \<Rightarrow> ('t :: {linorder, order_top, zero}) \<Rightarrow> ('t, 'st) simMgr \<Rightarrow> (('t, 'st) simMgr \<times> bool) option" where
  "executeObject env simulateUntil s = do {
     nextEvent \<leftarrow> peekNextEvent s;
     e \<leftarrow> nextEvent;
     let i = objIdOf (receiver e);
     s1 \<leftarrow> setSimulationTime i (receiveTime e) s;
     st \<leftarrow> vec_get (myState s1) i;
     states \<leftarrow> saveState (receiveTime e) i st (stateMgr s1);
     let s2 = s1\<lparr>stateMgr := states\<rparr>;
     s3 \<leftarrow> (if mySimulationManagerID (gvtMgr s2) = 0 then
              (let (g, due) = checkGVTPeriod (gvtMgr s2)
               in if due then sm_calculateGVT (s2\<lparr>gvtMgr := g\<rparr>) else Some (s2\<lparr>gvtMgr := g\<rparr>))
            else Some s2);
     let past = (gVT (gvtMgr s3) \<ge> simulateUntil);
     s4 \<leftarrow> runProcess env (kernel env) i (executeProcess env i) s3;
     following \<leftarrow> peekNextEvent s4;
     s5 \<leftarrow> (case following of Some e' \<Rightarrow> sm_emptyLazyQueues env (receiveTime e') s4 | None \<Rightarrow> Some s4);
     Some (s5, past) }"

text \<open>\<open>initialize\<close>: every object saves its initial state at time zero.\<close>

definition initializeStates :: "('t :: {linorder, zero}, 'st) simMgr \<Rightarrow> ('t, 'st) simMgr option" where
  "initializeStates s = for_each (\<lambda>i s. do {
     st \<leftarrow> vec_get (myState s) i;
     states \<leftarrow> saveState 0 i st (stateMgr s);
     Some (s\<lparr>stateMgr := states\<rparr>) }) [0..<length (myState s)] s"

end
