(* ===== verification/KernelRollback.thy ===== *)
theory KernelRollback
  imports Kernel
begin

text \<open>
  What a rollback does: the coast-forward phase replays exactly the events between the restored state and the rollback
  time without sending anything, and the cascade of rollbacks that cancelled events cause comes to an end.
\<close>

subsection \<open>The events of one object as a list\<close>

abbreviation vals :: "nat \<Rightarrow> ('t :: linorder) twMultiSet \<Rightarrow> 't event list" where
  "vals i es \<equiv> ms_vals (unprocessedObjEvents es ! i)"

definition pendBefore :: "nat \<Rightarrow> ('t :: linorder) \<Rightarrow> 't twMultiSet \<Rightarrow> 't event list" where
  "pendBefore i t es = takeWhile (\<lambda>e. receiveTime e < t) (vals i es)"

lemma getEvent_list:
  assumes inv: "twm_inv es" and i: "i = objIdOf ob" "i < numObjects es" and v: "vals i es = e # rest"
  shows "\<exists>t m. getEvent ob es = Some (t, Some e) \<and> twm_inv t \<and> ms_vals m = rest \<and>
    unprocessedObjEvents t = (unprocessedObjEvents es)[i := m] \<and>
    processedObjEvents t = (processedObjEvents es)[i := processedObjEvents es ! i @ [e]]"
proof -
  obtain n ns where n: "nodes (unprocessedObjEvents es ! i) = n # ns" "e = snd n" "rest = map snd ns"
    using v by (auto simp: ms_vals_def)
  from getEvent_pop [OF inv i n(1)] show ?thesis
    using n(2,3) by (auto simp: ms_vals_def intro!: exI [of _ "(unprocessedObjEvents es ! i)\<lparr>nodes := ns\<rparr>"])
qed

lemma getEvent_before_list:
  assumes inv: "twm_inv es" and i: "i = objIdOf ob" "i < numObjects es"
  shows "case pendBefore i t es of
      [] \<Rightarrow> getEvent_before ob t es = Some (es, None)
    | e # _ \<Rightarrow> \<exists>t' m. getEvent_before ob t es = Some (t', Some e) \<and> twm_inv t' \<and> vals i es = e # ms_vals m \<and>
        receiveTime e < t \<and> unprocessedObjEvents t' = (unprocessedObjEvents es)[i := m] \<and>
        processedObjEvents t' = (processedObjEvents es)[i := processedObjEvents es ! i @ [e]]"
proof -
  have p: "peekEvent (Some ob) es = Some (case vals i es of [] \<Rightarrow> None | e # _ \<Rightarrow> Some e)"
    using i by (auto simp: peekEvent_def vec_simps ms_isEmpty_def ms_front_hd ms_vals_def split: list.splits)
  show ?thesis
  proof (cases "vals i es")
    case Nil
    then show ?thesis using p by (simp add: pendBefore_def getEvent_before_def peekEvent_before_def)
  next
    case (Cons e rest)
    show ?thesis
    proof (cases "receiveTime e < t")
      case True
      obtain t' m where "getEvent ob es = Some (t', Some e)" "twm_inv t'" "ms_vals m = rest"
        "unprocessedObjEvents t' = (unprocessedObjEvents es)[i := m]"
        "processedObjEvents t' = (processedObjEvents es)[i := processedObjEvents es ! i @ [e]]"
        using getEvent_list [OF inv i Cons] by blast
      then show ?thesis
        using p True Cons by (auto simp: pendBefore_def getEvent_before_def peekEvent_before_def)
    qed (use p Cons in \<open>simp add: pendBefore_def getEvent_before_def peekEvent_before_def\<close>)
  qed
qed

lemma peekEvent_before_list:
  assumes "i = objIdOf ob" and "i < numObjects es"
  shows "peekEvent_before (Some ob) t es = Some (case pendBefore i t es of [] \<Rightarrow> None | e # _ \<Rightarrow> Some e)"
proof -
  have "peekEvent (Some ob) es = Some (case vals i es of [] \<Rightarrow> None | e # _ \<Rightarrow> Some e)"
    using assms by (auto simp: peekEvent_def vec_simps ms_isEmpty_def ms_front_hd ms_vals_def split: list.splits)
  then show ?thesis by (auto simp: peekEvent_before_def pendBefore_def split: list.splits)
qed

subsection \<open>Applications\<close>

text \<open>An application sends events in its own name, and takes at least one event whenever it is executed.\<close>

primrec own_sends :: "nat \<Rightarrow> ('t, 'st) process \<Rightarrow> bool" where
  "own_sends i Done \<longleftrightarrow> True"
| "own_sends i (GetState k) \<longleftrightarrow> (\<forall>st. own_sends i (k st))"
| "own_sends i (PutState st p) \<longleftrightarrow> own_sends i p"
| "own_sends i (GetEvent k) \<longleftrightarrow> (\<forall>e. own_sends i (k e))"
| "own_sends i (HaveMoreEvents k) \<longleftrightarrow> (\<forall>b. own_sends i (k b))"
| "own_sends i (GetSimulationTime k) \<longleftrightarrow> (\<forall>t. own_sends i (k t))"
| "own_sends i (ReceiveEvent e p) \<longleftrightarrow> objIdOf (sender e) = i \<and> own_sends i p"

primrec consumes :: "('t, 'st) process \<Rightarrow> bool" where
  "consumes Done \<longleftrightarrow> False"
| "consumes (GetState k) \<longleftrightarrow> (\<forall>st. consumes (k st))"
| "consumes (PutState st p) \<longleftrightarrow> consumes p"
| "consumes (GetEvent k) \<longleftrightarrow> True"
| "consumes (HaveMoreEvents k) \<longleftrightarrow> (\<forall>b. consumes (k b))"
| "consumes (GetSimulationTime k) \<longleftrightarrow> (\<forall>t. consumes (k t))"
| "consumes (ReceiveEvent e p) \<longleftrightarrow> consumes p"

definition app_ok :: "('t, 'st) kernelEnv \<Rightarrow> nat \<Rightarrow> bool" where
  "app_ok env n \<longleftrightarrow> (\<forall>i < n. own_sends i (executeProcess env i) \<and> consumes (executeProcess env i))"

text \<open>
  The reference for coasting forward: run the application on a list of events, with no kernel around it. What it sends is
  dropped. \<open>coasts\<close> executes it again and again until the list is used up.
\<close>

primrec replay :: "'t \<Rightarrow> objectID \<Rightarrow> ('t, 'st) process \<Rightarrow> 'st \<Rightarrow> 't event list \<Rightarrow> 'st \<times> 't event list" where
  "replay now self Done st es = (st, es)"
| "replay now self (GetState k) st es = replay now self (k st) st es"
| "replay now self (PutState st' p) st es = replay now self p st' es"
| "replay now self (GetEvent k) st es =
     (case es of [] \<Rightarrow> replay now self (k None) st [] | e # es' \<Rightarrow> replay now self (k (Some e)) st es')"
| "replay now self (HaveMoreEvents k) st es =
     replay now self (k (case es of [] \<Rightarrow> False | e # _ \<Rightarrow> receiveTime e = now \<and> receiver e = self)) st es"
| "replay now self (GetSimulationTime k) st es = replay now self (k now) st es"
| "replay now self (ReceiveEvent e p) st es = replay now self p st es"

inductive coasts :: "objectID \<Rightarrow> ('t, 'st) process \<Rightarrow> 'st \<Rightarrow> 't event list \<Rightarrow> 'st \<Rightarrow> bool" where
  coasts_end: "coasts self p st [] st"
| coasts_step: "replay (receiveTime e) self p st (e # es) = (st1, es1) \<Longrightarrow> coasts self p st1 es1 st2 \<Longrightarrow>
    coasts self p st (e # es) st2"

inductive_cases coasts_ConsE: "coasts self p st (e # es) st2"
inductive_cases coasts_NilE: "coasts self p st [] st2"

lemma coasts_deterministic: "coasts self p st es a \<Longrightarrow> coasts self p st es b \<Longrightarrow> a = b"
proof (induction arbitrary: b rule: coasts.induct)
  case (coasts_step e self p st es st1 es1 st2)
  from coasts_step.prems show ?case
  proof (rule coasts_ConsE)
    fix st' es'
    assume "replay (receiveTime e) self p st (e # es) = (st', es')" "coasts self p st' es' b"
    then show ?thesis using coasts_step.hyps(1) coasts_step.IH by simp
  qed
qed (blast elim: coasts_NilE)

lemma replay_le: "length (snd (replay now self p st es)) \<le> length es"
proof (induction p arbitrary: st es)
  case (GetEvent k)
  show ?case
  proof (cases es)
    case Nil
    then show ?thesis using GetEvent [OF rangeI, of None st "[]"] by simp
  next
    case (Cons e es')
    then show ?thesis using GetEvent [OF rangeI, of "Some e" st es'] by simp
  qed
qed (auto simp: rangeI)

lemma replay_consumes: "consumes p \<Longrightarrow> es \<noteq> [] \<Longrightarrow> length (snd (replay now self p st es)) < length es"
proof (induction p arbitrary: st)
  case (GetEvent k)
  then show ?case by (auto simp: less_Suc_eq_le replay_le split: list.splits)
qed (auto simp: rangeI)

subsection \<open>Well-formed managers\<close>

definition events_wf :: "nat \<Rightarrow> ('t :: {linorder, zero}) twMultiSet \<Rightarrow> bool" where
  "events_wf n es \<longleftrightarrow> twm_inv es \<and> numObjects es = n \<and>
     (\<forall>i < n. \<forall>e \<in> set (vals i es) \<union> set (processedObjEvents es ! i). 0 \<le> receiveTime e)"

text \<open>What coasting object \<open>i\<close> up to \<open>t\<close> does to the event set: it processes a first part of the object's events before \<open>t\<close>.\<close>

definition coasted :: "nat \<Rightarrow> ('t :: linorder) \<Rightarrow> 't twMultiSet \<Rightarrow> 't twMultiSet \<Rightarrow> bool" where
  "coasted i t es es' \<longleftrightarrow> (\<exists>xs m. vals i es = xs @ ms_vals m \<and> (\<forall>x \<in> set xs. receiveTime x < t) \<and>
     unprocessedObjEvents es' = (unprocessedObjEvents es)[i := m] \<and>
     processedObjEvents es' = (processedObjEvents es)[i := processedObjEvents es ! i @ xs])"

lemma coasted_refl: "coasted i t es es"
  unfolding coasted_def by (intro exI [of _ "[]"] exI [of _ "unprocessedObjEvents es ! i"]) simp

lemma coasted_trans:
  assumes "coasted i t a b" and "coasted i t b c" and "i < numObjects a" and "i < length (processedObjEvents a)"
  shows "coasted i t a c"
proof -
  obtain xs m ys m' where c: "vals i a = xs @ ms_vals m" "\<forall>x \<in> set xs. receiveTime x < t"
    "unprocessedObjEvents b = (unprocessedObjEvents a)[i := m]"
    "processedObjEvents b = (processedObjEvents a)[i := processedObjEvents a ! i @ xs]"
    "vals i b = ys @ ms_vals m'" "\<forall>x \<in> set ys. receiveTime x < t"
    "unprocessedObjEvents c = (unprocessedObjEvents b)[i := m']"
    "processedObjEvents c = (processedObjEvents b)[i := processedObjEvents b ! i @ ys]"
    using assms(1,2) unfolding coasted_def by blast
  have "vals i a = (xs @ ys) @ ms_vals m'" using c(1,3,5) assms(3) by simp
  then show ?thesis
    unfolding coasted_def using c assms(3,4) by (intro exI [of _ "xs @ ys"] exI [of _ m']) auto
qed

lemma coasted_pend:
  assumes "coasted i t a b" and "i < numObjects a"
  shows "\<exists>xs. pendBefore i t a = xs @ pendBefore i t b"
proof -
  obtain xs m where c: "vals i a = xs @ ms_vals m" "\<forall>x \<in> set xs. receiveTime x < t"
    "unprocessedObjEvents b = (unprocessedObjEvents a)[i := m]"
    using assms(1) unfolding coasted_def by blast
  then have "pendBefore i t a = xs @ pendBefore i t b"
    using assms(2) by (simp add: pendBefore_def)
  then show ?thesis ..
qed

lemma coasted_wf:
  assumes "coasted i t a b" and "events_wf n a" and "i < n" and "twm_inv b"
  shows "events_wf n b"
proof -
  obtain xs m where c: "vals i a = xs @ ms_vals m"
    "unprocessedObjEvents b = (unprocessedObjEvents a)[i := m]"
    "processedObjEvents b = (processedObjEvents a)[i := processedObjEvents a ! i @ xs]"
    using assms(1) unfolding coasted_def by blast
  have l: "numObjects a = n" "length (processedObjEvents a) = n"
    using assms(2) twm_invD(2) by (auto simp: events_wf_def)
  have "0 \<le> receiveTime e" if "j < n" "e \<in> set (vals j b) \<union> set (processedObjEvents b ! j)" for j e
  proof -
    have "e \<in> set (vals j a) \<union> set (processedObjEvents a ! j)"
      using that c l assms(3) by (cases "j = i") auto
    then show ?thesis using assms(2) that(1) by (auto simp: events_wf_def)
  qed
  then show ?thesis using assms(4) c(2) l by (auto simp: events_wf_def)
qed

subsection \<open>Coasting forward\<close>

lemma localObject_update [simp]:
  "localObject (s\<lparr>myState := a\<rparr>) i = localObject s i" "localObject (s\<lparr>eventSet := b\<rparr>) i = localObject s i"
  "localObject (s\<lparr>localVirtualTime := c\<rparr>) i = localObject s i"
  "localObject (s\<lparr>coastForwardTime := d\<rparr>) i = localObject s i"
  by (simp_all add: localObject_def)

lemma objIdOf_localObject [simp]: "i < 2 ^ 32 \<Longrightarrow> objIdOf (localObject s i) = i"
  by (simp add: localObject_def objIdOf_def unat_of_nat take_bit_nat_eq_self)

text \<open>An object that coasts: sizes, and the time up to which it coasts.\<close>

definition coasting :: "nat \<Rightarrow> nat \<Rightarrow> ('t :: {linorder, zero}) \<Rightarrow> ('t, 'st) simMgr \<Rightarrow> bool" where
  "coasting n i t s \<longleftrightarrow> events_wf n (eventSet s) \<and> i < n \<and> n \<le> 2 ^ 32 \<and> length (myState s) = n \<and>
     length (coastForwardTime s) = n \<and> length (localVirtualTime s) = n \<and> coastForwardTime s ! i = Some t"

lemma coastingD:
  assumes "coasting n i t s"
  shows "events_wf n (eventSet s)" "i < n" "length (myState s) = n" "length (coastForwardTime s) = n"
    "length (localVirtualTime s) = n" "coastForwardTime s ! i = Some t" "objIdOf (localObject s i) = i"
    "twm_inv (eventSet s)" "numObjects (eventSet s) = n" "length (processedObjEvents (eventSet s)) = n"
  using assms twm_invD(2) [of "eventSet s"] by (auto simp: coasting_def events_wf_def)

lemma coasting_update:
  "coasting n i t s \<Longrightarrow> events_wf n es \<Longrightarrow> length sts = n \<Longrightarrow> coasting n i t (s\<lparr>eventSet := es, myState := sts\<rparr>)"
  by (simp add: coasting_def)

lemma sm_getEvent_coast:
  assumes "coasting n i t s"
  shows "\<exists>es. sm_getEvent i s = Some (s\<lparr>eventSet := es\<rparr>, case pendBefore i t (eventSet s) of [] \<Rightarrow> None | e # _ \<Rightarrow> Some e) \<and>
    coasted i t (eventSet s) es \<and> events_wf n es \<and> pendBefore i t es = tl (pendBefore i t (eventSet s))"
proof -
  note D = coastingD [OF assms]
  note G = getEvent_before_list [OF D(8) D(7) [symmetric], of t]
  show ?thesis
  proof (cases "pendBefore i t (eventSet s)")
    case Nil
    then have "sm_getEvent i s = Some (s\<lparr>eventSet := eventSet s\<rparr>, None)"
      using G D(2,4,6,9) by (simp add: sm_getEvent_def vec_simps)
    with Nil D(1) coasted_refl show ?thesis by (intro exI [of _ "eventSet s"]) simp
  next
    case (Cons e rest)
    obtain es m where g: "getEvent_before (localObject s i) t (eventSet s) = Some (es, Some e)" "twm_inv es"
      "vals i (eventSet s) = e # ms_vals m" "receiveTime e < t"
      "unprocessedObjEvents es = (unprocessedObjEvents (eventSet s))[i := m]"
      "processedObjEvents es = (processedObjEvents (eventSet s))[i := processedObjEvents (eventSet s) ! i @ [e]]"
      using G Cons D(2,9) by auto
    have c: "coasted i t (eventSet s) es"
      unfolding coasted_def using g by (intro exI [of _ "[e]"] exI [of _ m]) simp
    have "pendBefore i t es = rest"
      using g(3-5) Cons D(2,9) by (simp add: pendBefore_def)
    then show ?thesis
      using g(1) c coasted_wf [OF c D(1,2) g(2)] Cons D(2,4,6) by (auto simp: sm_getEvent_def vec_simps)
  qed
qed

lemma haveMoreEvents_coast:
  assumes "coasting n i t s"
  shows "haveMoreEvents i s = Some (case pendBefore i t (eventSet s) of [] \<Rightarrow> False
    | e # _ \<Rightarrow> receiveTime e = localVirtualTime s ! i \<and> receiver e = localObject s i)"
proof -
  note D = coastingD [OF assms]
  show ?thesis
    using peekEvent_before_list [OF D(7) [symmetric], of "eventSet s" t] D(2,4,5,6,9)
    by (auto simp: haveMoreEvents_def sm_peekEvent_def vec_simps split: list.splits)
qed

text \<open>The kernel runs an application that coasts exactly as the reference does.\<close>

lemma runProcess_coast:
  fixes s :: "('t :: {linorder, zero}, 'st) simMgr"
  assumes "coasting n i t s" and "own_sends i p"
    and "replay (localVirtualTime s ! i) (localObject s i) p (myState s ! i) (pendBefore i t (eventSet s)) = (st', pend')"
  shows "\<exists>es. runProcess env call i p s = Some (s\<lparr>eventSet := es, myState := (myState s)[i := st']\<rparr>) \<and>
    coasted i t (eventSet s) es \<and> events_wf n es \<and> pendBefore i t es = pend'"
  using assms
proof (induction p arbitrary: s)
  case Done
  then show ?case using coastingD(1) [OF Done.prems(1)] coasted_refl by (intro exI [of _ "eventSet s"]) auto
next
  case (GetState k)
  have "own_sends i (k (myState s ! i))" using GetState.prems(2) by simp
  from GetState.IH [OF rangeI GetState.prems(1) this] GetState.prems(3) coastingD(2,3) [OF GetState.prems(1)]
  show ?case by (simp add: vec_simps)
next
  case (PutState st p)
  note D = coastingD [OF PutState.prems(1)]
  let ?s = "s\<lparr>myState := (myState s)[i := st]\<rparr>"
  have "coasting n i t ?s" using PutState.prems(1) by (simp add: coasting_def)
  from PutState.IH [OF this] PutState.prems(2,3) D(2,3) show ?case by (simp add: vec_simps)
next
  case (GetEvent k)
  note D = coastingD [OF GetEvent.prems(1)]
  let ?e = "case pendBefore i t (eventSet s) of [] \<Rightarrow> None | e # _ \<Rightarrow> Some e"
  obtain es where g: "sm_getEvent i s = Some (s\<lparr>eventSet := es\<rparr>, ?e)" "coasted i t (eventSet s) es" "events_wf n es"
    "pendBefore i t es = tl (pendBefore i t (eventSet s))"
    using sm_getEvent_coast [OF GetEvent.prems(1)] by blast
  have "coasting n i t (s\<lparr>eventSet := es\<rparr>)" using GetEvent.prems(1) g(3) by (simp add: coasting_def)
  moreover have "own_sends i (k ?e)" using GetEvent.prems(2) by simp
  moreover have "replay (localVirtualTime s ! i) (localObject s i) (k ?e) (myState s ! i) (pendBefore i t es) = (st', pend')"
    using GetEvent.prems(3) g(4) by (auto split: list.splits)
  ultimately obtain es' where e: "runProcess env call i (k ?e) (s\<lparr>eventSet := es\<rparr>) =
      Some (s\<lparr>eventSet := es', myState := (myState s)[i := st']\<rparr>)" "coasted i t es es'" "events_wf n es'" "pendBefore i t es' = pend'"
    using GetEvent.IH [OF rangeI, of "s\<lparr>eventSet := es\<rparr>" ?e] by auto
  then show ?case using g(1) coasted_trans [OF g(2) e(2)] D(2,9,10) by auto
next
  case (HaveMoreEvents k)
  let ?b = "case pendBefore i t (eventSet s) of [] \<Rightarrow> False
    | e # _ \<Rightarrow> receiveTime e = localVirtualTime s ! i \<and> receiver e = localObject s i"
  have "own_sends i (k ?b)" using HaveMoreEvents.prems(2) by simp
  from HaveMoreEvents.IH [OF rangeI HaveMoreEvents.prems(1) this] HaveMoreEvents.prems(3)
  show ?case by (simp add: haveMoreEvents_coast [OF HaveMoreEvents.prems(1)])
next
  case (GetSimulationTime k)
  have "own_sends i (k (localVirtualTime s ! i))" using GetSimulationTime.prems(2) by simp
  from GetSimulationTime.IH [OF rangeI GetSimulationTime.prems(1) this] GetSimulationTime.prems(3) coastingD(2,5) [OF GetSimulationTime.prems(1)]
  show ?case by (simp add: vec_simps)
next
  case (ReceiveEvent e p)
  note D = coastingD [OF ReceiveEvent.prems(1)]
  have "handleEvent env call e s = Some s"
    using ReceiveEvent.prems(2) D(2,4,6) by (simp add: handleEvent_def vec_simps)
  with ReceiveEvent.IH [OF ReceiveEvent.prems(1)] ReceiveEvent.prems(2,3) show ?case by simp
qed

lemma coastLoop_step:
  assumes c: "coasting n i t s" and p: "pendBefore i t (eventSet s) = e # rest"
    and own: "own_sends i (executeProcess env i)"
    and r: "replay (receiveTime e) (localObject s i) (executeProcess env i) (myState s ! i) (e # rest) = (st1, pend1)"
  shows "\<exists>es. kernel env (CoastLoop i t) s = kernel env (CoastLoop i t)
      (s\<lparr>eventSet := es, myState := (myState s)[i := st1], localVirtualTime := (localVirtualTime s)[i := receiveTime e]\<rparr>) \<and>
    coasted i t (eventSet s) es \<and> events_wf n es \<and> pendBefore i t es = pend1 \<and> receiveTime e < t"
proof -
  note D = coastingD [OF c]
  let ?s1 = "s\<lparr>localVirtualTime := (localVirtualTime s)[i := receiveTime e]\<rparr>"
  have et: "receiveTime e < t" "e \<in> set (vals i (eventSet s))"
    using p set_takeWhileD [of e "\<lambda>e. receiveTime e < t" "vals i (eventSet s)"] by (auto simp: pendBefore_def)
  then have pos: "0 \<le> receiveTime e" using D(1,2) by (auto simp: events_wf_def)
  have "coasting n i t ?s1" using c by (simp add: coasting_def)
  moreover have "replay (localVirtualTime ?s1 ! i) (localObject ?s1 i) (executeProcess env i) (myState ?s1 ! i)
      (pendBefore i t (eventSet ?s1)) = (st1, pend1)"
    using r p D(2,5) by simp
  ultimately obtain es where e: "runProcess env (kernel env) i (executeProcess env i) ?s1 =
      Some (?s1\<lparr>eventSet := es, myState := (myState s)[i := st1]\<rparr>)"
    "coasted i t (eventSet s) es" "events_wf n es" "pendBefore i t es = pend1"
    using runProcess_coast [of n i t ?s1 "executeProcess env i"] own by fastforce
  have "kernel env (CoastLoop i t) s = kernel env (CoastLoop i t) (?s1\<lparr>eventSet := es, myState := (myState s)[i := st1]\<rparr>)"
    using peekEvent_before_list [OF D(7) [symmetric], of "eventSet s" t] p e(1) et(1) pos D(2,5,9)
    by (simp add: kernel.simps [of env "CoastLoop i t" s] kernelBody_def coastLoop_def setSimulationTime_def vec_simps)
  then have "kernel env (CoastLoop i t) s = kernel env (CoastLoop i t)
      (s\<lparr>eventSet := es, myState := (myState s)[i := st1], localVirtualTime := (localVirtualTime s)[i := receiveTime e]\<rparr>)"
    by (cases s) simp
  with e(2-4) et(1) show ?thesis by blast
qed

lemma kernel_coast:
  assumes "coasting n i t s" and "app_ok env n"
  shows "\<exists>es st' now. kernel env (CoastLoop i t) s =
      Some (s\<lparr>eventSet := es, myState := (myState s)[i := st'], localVirtualTime := (localVirtualTime s)[i := now]\<rparr>) \<and>
    coasted i t (eventSet s) es \<and> events_wf n es \<and> pendBefore i t es = [] \<and>
    coasts (localObject s i) (executeProcess env i) (myState s ! i) (pendBefore i t (eventSet s)) st' \<and>
    (now = localVirtualTime s ! i \<or> now < t)"
  using assms(1)
proof (induction "length (pendBefore i t (eventSet s))" arbitrary: s rule: less_induct)
  case less
  note D = coastingD [OF less.prems]
  have app: "own_sends i (executeProcess env i)" "consumes (executeProcess env i)"
    using assms(2) D(2) by (auto simp: app_ok_def)
  show ?case
  proof (cases "pendBefore i t (eventSet s)")
    case Nil
    then have "kernel env (CoastLoop i t) s = Some s"
      using peekEvent_before_list [OF D(7) [symmetric], of "eventSet s" t] D(2,9)
      by (simp add: kernel.simps [of env "CoastLoop i t" s] kernelBody_def coastLoop_def)
    then show ?thesis
      using Nil D(1)
      by (intro exI [of _ "eventSet s"] exI [of _ "myState s ! i"] exI [of _ "localVirtualTime s ! i"])
        (simp add: coasted_refl coasts_end)
  next
    case (Cons e rest)
    obtain st1 pend1 where r: "replay (receiveTime e) (localObject s i) (executeProcess env i) (myState s ! i) (e # rest) = (st1, pend1)"
      by fastforce
    obtain es where e: "kernel env (CoastLoop i t) s = kernel env (CoastLoop i t)
        (s\<lparr>eventSet := es, myState := (myState s)[i := st1], localVirtualTime := (localVirtualTime s)[i := receiveTime e]\<rparr>)"
      "coasted i t (eventSet s) es" "events_wf n es" "pendBefore i t es = pend1" "receiveTime e < t"
      using coastLoop_step [OF less.prems Cons app(1) r] by blast
    let ?s2 = "s\<lparr>eventSet := es, myState := (myState s)[i := st1], localVirtualTime := (localVirtualTime s)[i := receiveTime e]\<rparr>"
    have sh: "length (pendBefore i t (eventSet ?s2)) < length (pendBefore i t (eventSet s))"
      using replay_consumes [OF app(2), of "e # rest" "receiveTime e" "localObject s i" "myState s ! i"] r e(4) Cons by simp
    have "coasting n i t ?s2" using less.prems e(3) by (simp add: coasting_def)
    from less.hyps [OF sh this] obtain es' st' now where h: "kernel env (CoastLoop i t) ?s2 = Some (?s2\<lparr>eventSet := es',
        myState := (myState ?s2)[i := st'], localVirtualTime := (localVirtualTime ?s2)[i := now]\<rparr>)"
      "coasted i t es es'" "events_wf n es'" "pendBefore i t es' = []"
      "coasts (localObject s i) (executeProcess env i) st1 pend1 st'" "now = receiveTime e \<or> now < t"
      using e(4) D(2,3,5) by auto
    have "coasted i t (eventSet s) es'" using coasted_trans [OF e(2) h(2)] D(2,9,10) by simp
    then show ?thesis
      using e(1,5) h(1,3-6) coasts_step [OF r h(5)] Cons
      by (intro exI [of _ es'] exI [of _ st'] exI [of _ now]) auto
  qed
qed

end
