(* ===== verification/Cascade.thy ===== *)
theory Cascade
  imports KernelRollback
begin

text \<open>
  The cascade of rollbacks: cancelling the events that an object sent may roll back their receivers, which cancels more events.
  Every rollback takes events out of the output queues, none puts any in, and none goes before GVT; so the cascade ends and every
  assertion on its way holds.
\<close>

subsection \<open>Well-formed simulation managers\<close>

definition outputsOf :: "'t outMgr \<Rightarrow> 't outputManager" where
  "outputsOf om = (case om of AGGRMGR m \<Rightarrow> m | LAZYMGR m \<Rightarrow> lm_outputs m)"

abbreviation outs :: "('t, 'st) simMgr \<Rightarrow> 't outputManager" where
  "outs s \<equiv> outputsOf (outputMgr s)"

definition event_ok :: "nat \<Rightarrow> nat \<Rightarrow> ('t :: linorder) event \<Rightarrow> bool" where
  "event_ok n mid e \<longleftrightarrow> sendTime e \<le> receiveTime e \<and>
     (unat (getSimulationManagerID (receiver e)) = mid \<longrightarrow> objIdOf (receiver e) < n)"

definition outputs_wf :: "nat \<Rightarrow> nat \<Rightarrow> ('t :: linorder) outMgr \<Rightarrow> bool" where
  "outputs_wf n mid om \<longleftrightarrow> length (outputsOf om) = n \<and>
     (\<forall>i < n. oe_inv (outputsOf om ! i) \<and> (\<forall>e \<in># sentEvents (outputsOf om ! i). event_ok n mid e)) \<and>
     (case om of AGGRMGR _ \<Rightarrow> True | LAZYMGR m \<Rightarrow> lm_sizes m)"

definition states_wf :: "nat \<Rightarrow> ('t :: {linorder, zero}) \<Rightarrow> ('t, 'st) stateManager \<Rightarrow> bool" where
  "states_wf n g sm \<longleftrightarrow> states_inv sm \<and> length (myStateQueue sm) = n \<and>
     (\<forall>i < n. myStateQueue sm ! i \<noteq> [] \<and> mainTime (hd (myStateQueue sm ! i)) \<le> g \<and>
        (\<forall>x \<in> set (myStateQueue sm ! i). 0 \<le> mainTime x))"

definition gvt_wf :: "'t matternGVTManager \<Rightarrow> bool" where
  "gvt_wf g \<longleftrightarrow> (color (objectRecord g) = RED \<longrightarrow> tMin (objectRecord g) \<noteq> None)"

definition kernel_wf :: "nat \<Rightarrow> ('t :: {linorder, zero}, 'st) simMgr \<Rightarrow> bool" where
  "kernel_wf n s \<longleftrightarrow> n \<le> 2 ^ 32 \<and> length (localVirtualTime s) = n \<and> length (myState s) = n \<and>
     length (inFileQueues s) = n \<and> length (outFileQueues s) = n \<and>
     coastForwardTime s = replicate n None \<and> events_wf n (eventSet s) \<and> states_wf n (gVT (gvtMgr s)) (stateMgr s) \<and>
     outputs_wf n (mySimulationManagerID (gvtMgr s)) (outputMgr s) \<and> gvt_wf (gvtMgr s)"

text \<open>The freedom of the library is no more than that: sorting and traversing lose and invent nothing.\<close>

definition env_ok :: "('t, 'st) kernelEnv \<Rightarrow> bool" where
  "env_ok env \<longleftrightarrow> (\<forall>gs. set (traversal env gs) = set gs) \<and> (\<forall>es. mset (sortRecvId env es) = mset es)"

definition queued :: "('t, 'st) simMgr \<Rightarrow> nat" where
  "queued s = sum_list (map (\<lambda>q. size (sentEvents q)) (outs s))"

definition held :: "nat \<Rightarrow> ('t :: linorder) twMultiSet \<Rightarrow> 't event set" where
  "held k es = set (vals k es) \<union> set (processedObjEvents es ! k)"

text \<open>What cancelling may do to an object: its time and its sent events only shrink, and what it has processed afterwards it
  had processed before or lies before the time it had reached.\<close>

definition shrunk :: "nat \<Rightarrow> ('t :: linorder, 'st) simMgr \<Rightarrow> ('t, 'st) simMgr \<Rightarrow> bool" where
  "shrunk k s s' \<longleftrightarrow> held k (eventSet s') \<subseteq> held k (eventSet s) \<and> localVirtualTime s' ! k \<le> localVirtualTime s ! k \<and>
     sentEvents (outs s' ! k) \<subseteq># sentEvents (outs s ! k) \<and>
     (\<forall>e \<in> set (processedObjEvents (eventSet s') ! k).
        e \<in> set (processedObjEvents (eventSet s) ! k) \<or> receiveTime e < localVirtualTime s ! k)"

definition shrinks :: "nat \<Rightarrow> ('t :: {linorder, zero}, 'st) simMgr \<Rightarrow> ('t, 'st) simMgr \<Rightarrow> bool" where
  "shrinks n s s' \<longleftrightarrow> kernel_wf n s' \<and> gVT (gvtMgr s') = gVT (gvtMgr s) \<and>
     mySimulationManagerID (gvtMgr s') = mySimulationManagerID (gvtMgr s) \<and> (\<forall>k < n. shrunk k s s')"

text \<open>What a rollback of object \<open>i\<close> to time \<open>t\<close> leaves.\<close>

definition rolled :: "nat \<Rightarrow> nat \<Rightarrow> ('t :: {linorder, zero}) \<Rightarrow> ('t, 'st) simMgr \<Rightarrow> ('t, 'st) simMgr \<Rightarrow> bool" where
  "rolled n i t s s' \<longleftrightarrow> kernel_wf n s' \<and> gVT (gvtMgr s') = gVT (gvtMgr s) \<and>
     mySimulationManagerID (gvtMgr s') = mySimulationManagerID (gvtMgr s) \<and>
     held i (eventSet s') \<subseteq> held i (eventSet s) \<and> localVirtualTime s' ! i \<le> t \<and>
     sentEvents (outs s' ! i) \<subseteq># {#e \<in># sentEvents (outs s ! i). sendTime e < t#} \<and>
     (\<forall>e \<in> set (processedObjEvents (eventSet s') ! i). receiveTime e < t) \<and>
     (\<forall>e \<in> set (vals i (eventSet s')). t \<le> receiveTime e) \<and>
     (\<forall>k < n. k \<noteq> i \<longrightarrow> shrunk k s s')"

lemma shrunk_refl: "shrunk k s s"
  by (simp add: shrunk_def)

lemma shrunk_trans: "shrunk k a b \<Longrightarrow> shrunk k b c \<Longrightarrow> shrunk k a c"
  unfolding shrunk_def by (meson order.strict_trans2 order_trans subset_mset.order_trans)

lemma shrinks_refl: "kernel_wf n s \<Longrightarrow> shrinks n s s"
  by (simp add: shrinks_def shrunk_refl)

lemma shrinks_trans: "shrinks n a b \<Longrightarrow> shrinks n b c \<Longrightarrow> shrinks n a c"
  using shrunk_trans unfolding shrinks_def by metis

lemma rolled_shrinks:
  assumes "rolled n i t s s'" and "t \<le> localVirtualTime s ! i"
  shows "shrinks n s s'"
proof -
  have "shrunk i s s'"
    using assms unfolding rolled_def shrunk_def
    by (meson multiset_filter_subset order.strict_trans2 order_trans subset_mset.order_trans)
  then show ?thesis using assms(1) unfolding rolled_def shrinks_def by metis
qed

lemma kernel_wfD:
  assumes "kernel_wf n s"
  shows "n \<le> 2 ^ 32" "length (localVirtualTime s) = n" "length (myState s) = n" "length (inFileQueues s) = n"
    "length (outFileQueues s) = n" "coastForwardTime s = replicate n None" "events_wf n (eventSet s)"
    "states_wf n (gVT (gvtMgr s)) (stateMgr s)" "outputs_wf n (mySimulationManagerID (gvtMgr s)) (outputMgr s)"
    "gvt_wf (gvtMgr s)" "twm_inv (eventSet s)" "numObjects (eventSet s) = n" "length (outs s) = n"
  using assms by (auto simp: kernel_wf_def events_wf_def outputs_wf_def)

lemma queued_shrinks:
  assumes "shrinks n s s'" and "length (outs s) = n"
  shows "queued s' \<le> queued s"
proof -
  have l: "length (outs s') = n" using assms(1) kernel_wfD(13) by (auto simp: shrinks_def)
  have "size (sentEvents (outs s' ! k)) \<le> size (sentEvents (outs s ! k))" if "k < n" for k
    using assms(1) that by (auto simp: shrinks_def shrunk_def intro: size_mset_mono)
  then show ?thesis unfolding queued_def
    by (intro sum_list_mono2) (use l assms(2) in auto)
qed

lemma for_each_inv:
  assumes "\<And>x s. x \<in> set xs \<Longrightarrow> I s \<Longrightarrow> \<exists>s'. f x s = Some s' \<and> I s'" and "I s"
  shows "\<exists>s'. for_each f xs s = Some s' \<and> I s'"
  using assms
proof (induction xs arbitrary: s)
  case (Cons x xs)
  obtain s1 where "f x s = Some s1" "I s1" using Cons.prems(1) [of x s] Cons.prems(2) by auto
  with Cons.IH [of s1] Cons.prems(1) show ?case by auto
qed simp

lemma for_each_map: "for_each f (map g xs) = for_each (\<lambda>x. f (g x)) xs"
proof (induction xs)
  case (Cons x xs)
  show ?case by (rule ext) (simp add: Cons.IH)
qed (rule ext, simp)

subsection \<open>The pieces of a cancellation\<close>

lemma es_handleAntiMessage_ok:
  assumes "events_wf n es" and "objIdOf ob < n"
  shows "\<exists>es'. es_handleAntiMessage one ob neg es = Some es' \<and> events_wf n es' \<and>
    processedObjEvents es' = processedObjEvents es \<and> (\<forall>j. held j es' \<subseteq> held j es)"
proof -
  have inv: "twm_inv es" and n: "objIdOf ob < numObjects es" "numObjects es = n" using assms by (auto simp: events_wf_def)
  have "\<exists>es'. es_handleAntiMessage one ob neg es = Some es' \<and> twm_inv es' \<and>
      (\<forall>j. unprocessedOf j es' \<subseteq># unprocessedOf j es) \<and> processedObjEvents es' = processedObjEvents es"
  proof (cases one)
    case True
    obtain t where t: "handleAntiMessage_one ob neg es = Some (t, \<exists>e \<in># unprocessedOf (objIdOf ob) es. cancels neg e)"
      "twm_inv t" "unprocessedOf (objIdOf ob) t = filter_mset (\<lambda>e. \<not> cancels neg e) (unprocessedOf (objIdOf ob) es)"
      "\<forall>j. j \<noteq> objIdOf ob \<longrightarrow> unprocessedOf j t = unprocessedOf j es" "processedObjEvents t = processedObjEvents es"
      using handleAntiMessage_one_ok [OF inv refl n(1), of neg] by blast
    have "unprocessedOf j t \<subseteq># unprocessedOf j es" for j
      using t(3,4) by (cases "j = objIdOf ob") auto
    with True t show ?thesis by (simp add: es_handleAntiMessage_def)
  next
    case False
    show ?thesis
    proof (cases "find (\<lambda>x. evKey x = evKey neg) (vals (objIdOf ob) es)")
      case None
      then show ?thesis
        using False handleAntiMessage_ok [OF inv refl n(1), of neg] inv by (simp add: es_handleAntiMessage_def)
    next
      case (Some e)
      obtain t where t: "handleAntiMessage ob neg es = Some (t, True)" "twm_inv t"
        "unprocessedOf (objIdOf ob) es = add_mset e (unprocessedOf (objIdOf ob) t)"
        "\<forall>j. j \<noteq> objIdOf ob \<longrightarrow> unprocessedOf j t = unprocessedOf j es" "processedObjEvents t = processedObjEvents es"
        using handleAntiMessage_ok [OF inv refl n(1), of neg] Some by auto
      have "unprocessedOf j t \<subseteq># unprocessedOf j es" for j
        using t(3,4) by (cases "j = objIdOf ob") auto
      with False t show ?thesis by (simp add: es_handleAntiMessage_def)
    qed
  qed
  then obtain es' where e: "es_handleAntiMessage one ob neg es = Some es'" "twm_inv es'"
    "\<forall>j. unprocessedOf j es' \<subseteq># unprocessedOf j es" "processedObjEvents es' = processedObjEvents es" by blast
  have vs: "set (vals j es') \<subseteq> set (vals j es)" for j
    using e(3) set_mset_mono unfolding unprocessedOf_def by fastforce
  have "numObjects es' = n" using e(2,4) twm_invD(2) inv n(2) by metis
  then have "events_wf n es'"
    using vs e(2,4) assms(1) unfolding events_wf_def by (simp, blast)
  moreover have "held j es' \<subseteq> held j es" for j using vs e(4) by (auto simp: held_def)
  ultimately show ?thesis using e by blast
qed

lemma lowestReceiveTime_le:
  "lowestReceiveTime m es \<le> m" "e \<in> set es \<Longrightarrow> lowestReceiveTime m es \<le> receiveTime e"
proof -
  have "lowestReceiveTime m es \<le> m \<and> (\<forall>e \<in> set es. lowestReceiveTime m es \<le> receiveTime e)"
  proof (induction es arbitrary: m)
    case (Cons a es)
    let ?m = "if m > receiveTime a then receiveTime a else m"
    have "?m \<le> m" "?m \<le> receiveTime a" by auto
    moreover have "lowestReceiveTime ?m es \<le> ?m" "\<forall>e \<in> set es. lowestReceiveTime ?m es \<le> receiveTime e"
      using Cons.IH [of ?m] by auto
    ultimately show ?case by (metis lowestReceiveTime.simps(2) order_trans set_ConsD)
  qed simp
  then show "lowestReceiveTime m es \<le> m" "e \<in> set es \<Longrightarrow> lowestReceiveTime m es \<le> receiveTime e" by auto
qed

lemma lowestReceiveTime_ge:
  "g \<le> m \<Longrightarrow> \<forall>e \<in> set es. g \<le> receiveTime e \<Longrightarrow> g \<le> lowestReceiveTime m es"
  by (induction es arbitrary: m) auto

lemma getGVTInfo_ok:
  assumes "gvt_wf g"
  shows "\<exists>g' info. getGVTInfo t g = Some (g', info) \<and> gvt_wf g' \<and> gVT g' = gVT g \<and>
    mySimulationManagerID g' = mySimulationManagerID g"
  using assms
  by (cases "color (objectRecord g)") (auto simp: getGVTInfo_def gvt_wf_def setMinTimeStamp_def Let_def split: if_splits)

lemma kernel_wf_same:
  assumes "kernel_wf n s" and "gvt_wf g" and "gVT g = gVT (gvtMgr s)" and "mySimulationManagerID g = mySimulationManagerID (gvtMgr s)"
  shows "shrinks n s (s\<lparr>gvtMgr := g, sent := ms\<rparr>)" "shrinks n s (s\<lparr>heapTop := h\<rparr>)"
  using assms by (simp_all add: shrinks_def kernel_wf_def shrunk_def)

lemma sendNegative_ok:
  assumes "kernel_wf n s" and "part \<noteq> []"
  shows "\<exists>s'. sendNegative d part s = Some s' \<and> shrinks n s s'"
proof -
  obtain first rest where p: "part = first # rest" using assms(2) by (cases part) auto
  from getGVTInfo_ok [OF kernel_wfD(10) [OF assms(1)]] obtain g info where
    "getGVTInfo (lowestSendTime (sendTime first) part) (gvtMgr s) = Some (g, info)" "gvt_wf g"
    "gVT g = gVT (gvtMgr s)" "mySimulationManagerID g = mySimulationManagerID (gvtMgr s)" by blast
  then show ?thesis
    using kernel_wf_same(1) [OF assms(1)] by (simp add: sendNegative_def p sendMessage_def)
qed

lemma chunks_nonempty: "c \<in> set (chunks xs) \<Longrightarrow> c \<noteq> []"
proof (induction xs rule: chunks.induct)
  case (1 xs)
  then show ?case by (subst (asm) (2) chunks.simps) (auto split: if_splits)
qed

lemma chunks_concat: "concat (chunks xs) = xs"
proof (induction xs rule: chunks.induct)
  case (1 xs)
  then show ?case by (subst chunks.simps) simp
qed

lemma chunks_short: "c \<in> set (chunks xs) \<Longrightarrow> length c \<le> 10"
proof (induction xs rule: chunks.induct)
  case (1 xs)
  then show ?case by (subst (asm) (2) chunks.simps) (auto split: if_splits)
qed

lemma cancelRemoteEvents_ok:
  assumes "kernel_wf n s" and "es \<noteq> []"
  shows "\<exists>s'. cancelRemoteEvents es s = Some s' \<and> shrinks n s s'"
proof -
  obtain first rest where e: "es = first # rest" using assms(2) by (cases es) auto
  let ?d = "unat (getSimulationManagerID (receiver first))"
  have "\<exists>s'. for_each (sendNegative ?d) (chunks es) s = Some s' \<and> shrinks n s s'"
  proof (rule for_each_inv [where I = "shrinks n s"])
    fix x s1
    assume "x \<in> set (chunks es)" "shrinks n s s1"
    then show "\<exists>s'. sendNegative ?d x s1 = Some s' \<and> shrinks n s s'"
      using sendNegative_ok [of n s1 x ?d] chunks_nonempty shrinks_trans by (metis shrinks_def)
  qed (rule shrinks_refl [OF assms(1)])
  then show ?thesis
    using sendNegative_ok [OF assms(1), of "first # rest" ?d] by (auto simp: cancelRemoteEvents_def e Let_def)
qed

text \<open>The negative events of a cancellation, however they are grouped, come from the cancelled events.\<close>

lemma NegativeEvent_sel [simp]:
  "receiver (NegativeEvent a e) = receiver e" "sendTime (NegativeEvent a e) = sendTime e"
  "receiveTime (NegativeEvent a e) = receiveTime e"
  by (simp_all add: NegativeEvent_def)

lemma newNegatives_from:
  assumes "x \<in> set (newNegatives a es)"
  shows "\<exists>e \<in> set es. \<exists>b. x = NegativeEvent b e"
  using assms by (induction a es rule: newNegatives.induct) auto

lemma newNegatives_Nil [simp]: "newNegatives a es = [] \<longleftrightarrow> es = []"
  by (cases es) auto

lemma firstPerReceiver_subset: "set (firstPerReceiver added es) \<subseteq> set es"
  by (induction added es rule: firstPerReceiver.induct) (simp_all add: subset_insertI2)

definition group_ok :: "'t event set \<Rightarrow> objectID \<times> 't event list \<Rightarrow> bool" where
  "group_ok E g \<longleftrightarrow> snd g \<noteq> [] \<and> (\<forall>x \<in> set (snd g). receiver x = fst g \<and> x \<in> E)"

lemma group_ok_mono: "group_ok A g \<Longrightarrow> A \<subseteq> E \<Longrightarrow> group_ok E g"
  unfolding group_ok_def by blast

lemma addToGroup_groups: "list_all (group_ok E) gs \<Longrightarrow> e \<in> E \<Longrightarrow> list_all (group_ok E) (addToGroup e gs)"
  by (induction e gs rule: addToGroup.induct) (simp_all add: group_ok_def)

lemma foldl_addToGroup:
  "list_all (group_ok E) gs \<Longrightarrow> set es \<subseteq> E \<Longrightarrow> list_all (group_ok E) (foldl (\<lambda>gs e. addToGroup e gs) gs es)"
  by (induction es arbitrary: gs) (simp_all add: addToGroup_groups)

lemma groupByReceiver_groups: "list_all (group_ok (set es)) (groupByReceiver es)"
  by (simp add: groupByReceiver_def foldl_addToGroup)

subsection \<open>The contract of a rollback\<close>

text \<open>
  Cancelling relies on \<open>rollback\<close> alone: a call that rolls back an object to a time that is not before GVT returns, as long as fewer than
  \<open>m\<close> sent events are queued, and leaves what \<open>rolled\<close> says.
\<close>

locale rollback_call =
  fixes env :: "('t :: {linorder, zero}, 'st) kernelEnv"
    and n :: nat
    and call :: "'t kernelCall \<Rightarrow> ('t, 'st) simMgr \<Rightarrow> ('t, 'st) simMgr option"
    and m :: nat
  assumes roll: "app_ok env n \<Longrightarrow> env_ok env \<Longrightarrow> kernel_wf n s \<Longrightarrow> queued s < m \<Longrightarrow> i < n \<Longrightarrow> gVT (gvtMgr s) \<le> t \<Longrightarrow>
    \<exists>s'. call (Rollback i t) s = Some s' \<and> rolled n i t s s'"
begin

lemma cancelLocalEvents_ok:
  assumes env: "app_ok env n" "env_ok env" and wf: "kernel_wf n s" "queued s < m"
    and ns: "ns \<noteq> []" "\<forall>x \<in> set ns. objIdOf (receiver x) = rcv" "rcv < n"
    and gvt: "\<forall>x \<in> set ns. gVT (gvtMgr s) \<le> receiveTime x"
  shows "\<exists>s'. cancelLocalEvents env call ns s = Some s' \<and> shrinks n s s'"
proof -
  obtain first rest where f: "ns = first # rest" using ns(1) by (cases ns) simp_all
  let ?low = "lowestReceiveTime (receiveTime first) ns"
  let ?now = "localVirtualTime s ! rcv"
  have r: "objIdOf (receiver first) = rcv" using ns(2) f by simp
  have low: "gVT (gvtMgr s) \<le> ?low" using gvt f by (intro lowestReceiveTime_ge) simp_all
  define s1 where "s1 = (if ?low \<le> ?now then call (Rollback rcv ?low) s else Some s)"
  have "\<exists>s'. s1 = Some s' \<and> shrinks n s s' \<and> localVirtualTime s' ! rcv \<le> ?low"
  proof (cases "?low \<le> ?now")
    case True
    obtain s' where s': "call (Rollback rcv ?low) s = Some s'" "rolled n rcv ?low s s'"
      using roll [OF env wf ns(3) low] by blast
    then have "shrinks n s s'" "localVirtualTime s' ! rcv \<le> ?low"
      using rolled_shrinks [OF s'(2) True] by (simp_all add: rolled_def)
    with True s'(1) show ?thesis unfolding s1_def by simp
  next
    case False
    then show ?thesis unfolding s1_def using shrinks_refl [OF wf(1)] by simp
  qed
  then obtain s' where s': "s1 = Some s'" "shrinks n s s'" "localVirtualTime s' ! rcv \<le> ?low" by blast
  define step where "step = (\<lambda>e (s :: ('t, 'st) simMgr). do {
     now \<leftarrow> vec_get (localVirtualTime s) rcv;
     if receiveTime e \<ge> now then do {
       es \<leftarrow> es_handleAntiMessage (usingOneAntiMsg env) (receiver first) e (eventSet s);
       Some (s\<lparr>eventSet := es\<rparr>) }
     else None })"
  have "\<exists>t. for_each step ns s' = Some t \<and> (shrinks n s t \<and> localVirtualTime t ! rcv \<le> ?low)"
  proof (rule for_each_inv)
    fix x u
    assume x: "x \<in> set ns" and u: "shrinks n s u \<and> localVirtualTime u ! rcv \<le> ?low"
    note D = kernel_wfD [of n u]
    have wfu: "kernel_wf n u" using u by (simp add: shrinks_def)
    have "localVirtualTime u ! rcv \<le> receiveTime x" using u lowestReceiveTime_le(2) [OF x] order_trans by blast
    moreover obtain es where es: "es_handleAntiMessage (usingOneAntiMsg env) (receiver first) x (eventSet u) = Some es"
      "events_wf n es" "processedObjEvents es = processedObjEvents (eventSet u)" "\<forall>j. held j es \<subseteq> held j (eventSet u)"
      using es_handleAntiMessage_ok [OF D(7) [OF wfu]] r ns(3) by blast
    moreover have "shrinks n u (u\<lparr>eventSet := es\<rparr>)"
      using wfu es(2-4) by (simp add: shrinks_def kernel_wf_def shrunk_def)
    ultimately show "\<exists>t. step x u = Some t \<and> (shrinks n s t \<and> localVirtualTime t ! rcv \<le> ?low)"
      using shrinks_trans u ns(3) D(2) [OF wfu] by (simp add: step_def vec_simps) (use shrinks_trans in blast)
  qed (use s' in blast)
  then obtain t where "for_each step ns s' = Some t" "shrinks n s t" by blast
  moreover have "cancelLocalEvents env call ns s = Option.bind s1 (for_each step ns)"
    using ns(3) kernel_wfD(2) [OF wf(1)] unfolding s1_def step_def
    by (simp add: cancelLocalEvents_def f r vec_simps Let_def del: lowestReceiveTime.simps for_each.simps)
  then have "cancelLocalEvents env call ns s = for_each step ns s'" by (simp add: s'(1))
  ultimately show ?thesis by simp
qed

lemma cancelEventsReceiver_ok:
  assumes env: "app_ok env n" "env_ok env" and wf: "kernel_wf n s" "queued s < m"
    and ns: "ns \<noteq> []" "\<forall>x \<in> set ns. receiver x = ob"
    and ok: "\<forall>x \<in> set ns. event_ok n (mySimulationManagerID (gvtMgr s)) x \<and> gVT (gvtMgr s) \<le> sendTime x"
  shows "\<exists>s'. cancelEventsReceiver env call ob ns s = Some s' \<and> shrinks n s s'"
proof (cases "contains s ob")
  case True
  have "objIdOf ob < n"
    using ok ns True by (cases ns) (simp_all add: event_ok_def contains_def)
  moreover have "\<forall>x \<in> set ns. gVT (gvtMgr s) \<le> receiveTime x"
    using ok unfolding event_ok_def by (meson order_trans)
  ultimately show ?thesis
    using cancelLocalEvents_ok [OF env wf ns(1), of "objIdOf ob"] ns(2) True by (simp add: cancelEventsReceiver_def)
next
  case False
  then show ?thesis using cancelRemoteEvents_ok [OF wf(1) ns(1)] by (simp add: cancelEventsReceiver_def)
qed

text \<open>Groups of negative events, one after the other.\<close>

lemma cancelGroups_ok:
  assumes env: "app_ok env n" "env_ok env" and wf: "kernel_wf n s" "queued s < m"
    and gs: "list_all (group_ok E) gs"
    and ok: "\<forall>x \<in> E. event_ok n (mySimulationManagerID (gvtMgr s)) x \<and> gVT (gvtMgr s) \<le> sendTime x"
  shows "\<exists>s'. for_each (\<lambda>g. cancelEventsReceiver env call (fst g) (snd g)) gs s = Some s' \<and> shrinks n s s'"
proof (rule for_each_inv [where I = "shrinks n s"])
  fix g u
  assume g: "g \<in> set gs" and u: "shrinks n s u"
  have "group_ok E g" using gs g by (simp add: list_all_iff)
  then have G: "snd g \<noteq> []" "\<forall>x \<in> set (snd g). receiver x = fst g" "\<forall>x \<in> set (snd g). x \<in> E"
    by (simp_all add: group_ok_def)
  have "queued u < m" using queued_shrinks [OF u kernel_wfD(13) [OF wf(1)]] wf(2) by linarith
  moreover have "kernel_wf n u" "gVT (gvtMgr u) = gVT (gvtMgr s)"
    "mySimulationManagerID (gvtMgr u) = mySimulationManagerID (gvtMgr s)"
    using u by (simp_all add: shrinks_def)
  ultimately have "\<exists>s'. cancelEventsReceiver env call (fst g) (snd g) u = Some s' \<and> shrinks n u s'"
    using G ok by (intro cancelEventsReceiver_ok [OF env]) simp_all
  then show "\<exists>s'. cancelEventsReceiver env call (fst g) (snd g) u = Some s' \<and> shrinks n s s'"
    using shrinks_trans [OF u] by blast
qed (rule shrinks_refl [OF wf(1)])

lemma cancelEvents_ok:
  assumes env: "app_ok env n" "env_ok env" and wf: "kernel_wf n s" "queued s < m" and es: "es \<noteq> []"
    and ok: "\<forall>x \<in> set es. event_ok n (mySimulationManagerID (gvtMgr s)) x \<and> gVT (gvtMgr s) \<le> sendTime x"
  shows "\<exists>s'. cancelEvents env call es s = Some s' \<and> shrinks n s s'"
proof -
  define E where "E = {x. \<exists>e \<in> set es. \<exists>b. x = NegativeEvent b e}"
  define h where "h = (if usingOneAntiMsg env then heapTop s + length (firstPerReceiver [] (sortRecvId env es))
    else heapTop s + length es)"
  let ?s = "s\<lparr>heapTop := h\<rparr>"
  define gs where "gs = (if usingOneAntiMsg env
    then map (\<lambda>x. (receiver x, [x])) (newNegatives (heapTop s) (firstPerReceiver [] (sortRecvId env es)))
    else traversal env (groupByReceiver (newNegatives (heapTop s) es)))"
  have sh: "shrinks n s ?s" using kernel_wf_same(2) [OF wf(1) kernel_wfD(10) [OF wf(1)] refl refl] .
  then have wf': "kernel_wf n ?s" "queued ?s < m"
    using wf(2) by (simp_all add: shrinks_def queued_def)
  have E: "\<forall>x \<in> E. event_ok n (mySimulationManagerID (gvtMgr ?s)) x \<and> gVT (gvtMgr ?s) \<le> sendTime x"
    using ok by (auto simp: E_def event_ok_def)
  have sub: "set (newNegatives a xs) \<subseteq> E" if "set xs \<subseteq> set es" for a xs
    using newNegatives_from that unfolding E_def by blast
  have "set (firstPerReceiver [] (sortRecvId env es)) \<subseteq> set es"
    using firstPerReceiver_subset env(2) by (metis env_ok_def set_mset_mset)
  then have one: "list_all (group_ok E) (map (\<lambda>x. (receiver x, [x])) (newNegatives a (firstPerReceiver [] (sortRecvId env es))))" for a
    using sub by (simp add: list_all_iff group_ok_def subset_iff)
  have "list_all (group_ok E) (traversal env (groupByReceiver (newNegatives (heapTop s) es)))"
    using groupByReceiver_groups [of "newNegatives (heapTop s) es"] env(2) group_ok_mono [OF _ sub [OF order.refl]]
    unfolding env_ok_def list_all_iff by blast
  with one have "list_all (group_ok E) gs" unfolding gs_def by simp
  from cancelGroups_ok [OF env wf' this E] obtain s' where
    s': "for_each (\<lambda>g. cancelEventsReceiver env call (fst g) (snd g)) gs ?s = Some s'" "shrinks n ?s s'" by blast
  have "cancelEvents env call es s = for_each (\<lambda>g. cancelEventsReceiver env call (fst g) (snd g)) gs ?s"
    using es unfolding cancelEvents_def gs_def h_def by (simp add: Let_def for_each_map)
  then show ?thesis using s' shrinks_trans [OF sh] by simp
qed

end

subsection \<open>Rolling back one object\<close>

lemma outputsOf_simps [simp]: "outputsOf (AGGRMGR m) = m" "outputsOf (LAZYMGR l) = lm_outputs l"
  by (simp_all add: outputsOf_def)

lemma outputs_wf_update:
  assumes "outputs_wf n mid om" and "i < n" and "oe_inv q" and "sentEvents q \<subseteq># sentEvents (outputsOf om ! i)"
    and "outputsOf om' = (outputsOf om)[i := q]" and "case om' of AGGRMGR _ \<Rightarrow> True | LAZYMGR m \<Rightarrow> lm_sizes m"
  shows "outputs_wf n mid om'"
proof -
  have "oe_inv (outputsOf om' ! k) \<and> (\<forall>e \<in># sentEvents (outputsOf om' ! k). event_ok n mid e)" if "k < n" for k
    using assms that by (cases "k = i") (auto simp: outputs_wf_def dest: mset_subset_eqD)
  then show ?thesis using assms by (simp add: outputs_wf_def)
qed

text \<open>The output manager's part: what it takes out of the queue, before anything is cancelled.\<close>

definition takenOut :: "nat \<Rightarrow> ('t :: linorder) \<Rightarrow> 't outMgr \<Rightarrow> 't outMgr \<Rightarrow> bool" where
  "takenOut i t om om' \<longleftrightarrow> (\<exists>q. outputsOf om' = (outputsOf om)[i := q] \<and>
     sentEvents q = {#e \<in># sentEvents (outputsOf om ! i). sendTime e < t#})"

lemma sum_list_update_less: "i < length xs \<Longrightarrow> y < xs ! i \<Longrightarrow> sum_list (xs[i := y]) < sum_list (xs :: nat list)"
proof (induction xs arbitrary: i)
  case (Cons x xs)
  then show ?case by (cases i) simp_all
qed simp

lemma takenOut_queued:
  assumes "takenOut i t (outputMgr s) om'" and "i < length (outs s)" and "\<exists>e \<in># sentEvents (outs s ! i). t \<le> sendTime e"
  shows "queued (s\<lparr>outputMgr := om'\<rparr>) < queued s"
proof -
  obtain q where q: "outputsOf om' = (outs s)[i := q]" "sentEvents q = {#e \<in># sentEvents (outs s ! i). sendTime e < t#}"
    using assms(1) by (auto simp: takenOut_def)
  have "sentEvents q \<noteq> sentEvents (outs s ! i)"
    using assms(3) unfolding q(2) by (metis (no_types, lifting) leD mem_Collect_eq set_mset_filter)
  then have "size (sentEvents q) < size (sentEvents (outs s ! i))"
    unfolding q(2) by (intro mset_subset_size) (simp add: subset_mset.less_le)
  then show ?thesis
    using assms(2) sum_list_update_less [of i "map (\<lambda>q. size (sentEvents q)) (outs s)" "size (sentEvents q)"]
    by (simp add: queued_def q(1) map_update)
qed

lemma outputRollback_taken:
  assumes "outputs_wf n mid (outputMgr s)" and "i < n"
  shows "\<exists>om' found. outputRollback env call i t s =
      (if found = [] then Some (s\<lparr>outputMgr := om'\<rparr>) else cancelEvents env call found (s\<lparr>outputMgr := om'\<rparr>)) \<and>
    outputs_wf n mid om' \<and> takenOut i t (outputMgr s) om' \<and>
    (\<forall>e \<in> set found. e \<in># sentEvents (outs s ! i) \<and> t \<le> sendTime e)"
proof -
  have q: "oe_inv (outs s ! i)" "i < length (outs s)" using assms by (auto simp: outputs_wf_def)
  obtain q' found rec where g: "getEventsSentAtOrAfterAndRemove None (\<lambda>_. 0) t (outs s ! i) = (q', found, rec)"
    by (metis prod_cases3)
  note R = removed_exact [OF q(1) g]
  have sub: "sentEvents q' \<subseteq># sentEvents (outs s ! i)" using R by simp
  have f: "\<forall>e \<in> set found. e \<in># sentEvents (outs s ! i) \<and> t \<le> sendTime e"
    using R by (metis (no_types, lifting) mem_Collect_eq set_mset_filter set_mset_mset)
  show ?thesis
  proof (cases "outputMgr s")
    case (AGGRMGR m)
    have w: "outputs_wf n mid (AGGRMGR (m[i := q']))"
      using R sub AGGRMGR by (intro outputs_wf_update [OF assms, of q']) simp_all
    have t: "takenOut i t (outputMgr s) (AGGRMGR (m[i := q']))" using R AGGRMGR by (auto simp: takenOut_def)
    have "outputRollback env call i t s = (if found = [] then Some (s\<lparr>outputMgr := AGGRMGR (m[i := q'])\<rparr>)
        else cancelEvents env call found (s\<lparr>outputMgr := AGGRMGR (m[i := q'])\<rparr>))"
      using g q(2) AGGRMGR by (simp add: outputRollback_def aggressiveRollback_def vec_simps)
    with w t f show ?thesis by blast
  next
    case (LAZYMGR l)
    let ?l = "l\<lparr>lm_outputs := (lm_outputs l)[i := q'], lazyQueues := (lazyQueues l)[i := sortRecv env (lazyQueues l ! i @ found)]\<rparr>"
    have sz: "lm_sizes l" using assms(1) LAZYMGR by (simp add: outputs_wf_def)
    then have "outputs_wf n mid (LAZYMGR ?l)"
      using R sub LAZYMGR by (intro outputs_wf_update [OF assms, of q']) (simp_all add: lm_sizes_def)
    moreover have "takenOut i t (outputMgr s) (LAZYMGR ?l)" using R LAZYMGR by (auto simp: takenOut_def)
    moreover have "outputRollback env call i t s = Some (s\<lparr>outputMgr := LAZYMGR ?l\<rparr>)"
      using g q(2) LAZYMGR sz by (simp add: outputRollback_def lazyRollback_def vec_simps lm_sizes_def)
    ultimately show ?thesis by (intro exI [of _ "LAZYMGR ?l"] exI [of _ "[]"]) simp
  qed
qed

lemma restoreState_wf:
  assumes "states_wf n g sm" and "i < n" and "g \<le> t"
  shows "\<exists>sm' time st gone. restoreState False t i sm = Some (sm', time, Some st, gone) \<and> states_wf n g sm' \<and>
    0 \<le> time \<and> time \<le> t"
proof -
  let ?q = "myStateQueue sm ! i"
  have q: "?q \<noteq> []" "mainTime (hd ?q) \<le> g" "\<forall>x \<in> set ?q. 0 \<le> mainTime x" "i < length (myStateQueue sm)" "states_inv sm"
    using assms(1,2) by (auto simp: states_wf_def)
  have srt: "queueSorted ?q" by (rule states_invD(3) [OF q(5,4)])
  obtain q' gone where l: "restoreLoop t ?q = (q', gone)" by fastforce
  have q': "q' = hd ?q # filter (\<lambda>x. mainTime x \<le> t) (tl ?q)" using restoreLoop_eq [OF srt q(1), of t] l by simp
  have m: "\<forall>x \<in> set q'. x \<in> set ?q \<and> mainTime x \<le> t"
    using q(1,2) assms(3) unfolding q' by (auto dest: list.set_sel(2))
  have "queueSorted q'" using restoreLoop_sorted(1) [OF srt q(1), of t] l by simp
  then have "states_inv (sm\<lparr>myStateQueue := (myStateQueue sm)[i := q']\<rparr>)" by (rule states_inv_queue [OF q(5)])
  moreover have "q' \<noteq> []" "hd q' = hd ?q" unfolding q' by simp_all
  moreover have "\<forall>x \<in> set q'. 0 \<le> mainTime x" using m q(3) by blast
  ultimately have "states_wf n g (sm\<lparr>myStateQueue := (myStateQueue sm)[i := q']\<rparr>)"
    using assms(1,2) q(2) by (auto simp: states_wf_def nth_list_update)
  moreover have "last q' \<in> set q'" using \<open>q' \<noteq> []\<close> by simp
  ultimately show ?thesis
    using restoreState_eq [OF q(4,1) l, of False] m q(3) by blast
qed

lemma rollback_wf:
  assumes "events_wf n es" and "i < n" and "objIdOf ob = i"
  shows "\<exists>es'. rollback ob time es = Some es' \<and> events_wf n es' \<and> (\<forall>j < n. held j es' \<subseteq> held j es) \<and>
    processedObjEvents es' = (processedObjEvents es)[i := takeWhile (\<lambda>e. receiveTime e < time) (processedObjEvents es ! i)]"
proof -
  have inv: "twm_inv es" and n: "numObjects es = n" using assms(1) by (auto simp: events_wf_def)
  let ?p = "processedObjEvents es ! i"
  obtain es' where e: "rollback ob time es = Some es'" "twm_inv es'"
    "processedObjEvents es' = (processedObjEvents es)[i := takeWhile (\<lambda>e. receiveTime e < time) ?p]"
    "unprocessedOf i es' = unprocessedOf i es + mset (dropWhile (\<lambda>e. receiveTime e < time) ?p)"
    "\<forall>j. j \<noteq> i \<longrightarrow> unprocessedOf j es' = unprocessedOf j es"
    using rollback_ok [OF inv assms(3) [symmetric], of time] assms(2) n by blast
  have len: "length (processedObjEvents es) = n" using twm_invD(2) [OF inv] n by simp
  have v: "set (vals j es') = set_mset (unprocessedOf j es')" "set (vals j es) = set_mset (unprocessedOf j es)" for j
    by (simp_all add: unprocessedOf_def)
  have h: "held j es' \<subseteq> held j es" if "j < n" for j
  proof (cases "j = i")
    case True
    then show ?thesis unfolding held_def v e(3) using e(4) len that
      by (auto dest: set_takeWhileD set_dropWhileD)
  next
    case False
    then show ?thesis unfolding held_def v e(3) using e(5) by simp
  qed
  have "numObjects es' = n" using twm_invD(2) [OF e(2)] e(3) len by simp
  then have "events_wf n es'"
    using h assms(1) e(2) unfolding events_wf_def held_def by blast
  with h e(1,3) show ?thesis by blast
qed

lemma pendBefore_Nil:
  assumes "twm_inv es" and "i < numObjects es" and "pendBefore i t es = []" and "e \<in> set (vals i es)"
  shows "t \<le> receiveTime e"
proof (cases "vals i es")
  case (Cons x xs)
  have "ms_front (unprocessedObjEvents es ! i) = Some x" using Cons by (simp add: ms_front_hd)
  from recv_order.ms_front_minimal [OF obj_okD(1) [OF twm_invD(6) [OF assms(1,2)]] this assms(4)]
  have "receiveTime x \<le> receiveTime e" by (rule recv_order_time)
  moreover have "t \<le> receiveTime x" using assms(3) Cons by (simp add: pendBefore_def not_less split: if_splits)
  ultimately show ?thesis by simp
qed (use assms(4) in simp)

lemma coastForward_ok:
  assumes app: "app_ok env n" and wf: "kernel_wf n s" and i: "i < n" and t: "from \<le> t" "localVirtualTime s ! i \<le> t"
  shows "\<exists>es st' now. coastForward (kernel env) from t i s =
      Some (s\<lparr>eventSet := es, myState := (myState s)[i := st'], localVirtualTime := (localVirtualTime s)[i := now]\<rparr>) \<and>
    coasted i t (eventSet s) es \<and> events_wf n es \<and> pendBefore i t es = [] \<and> now \<le> t \<and>
    coasts (localObject s i) (executeProcess env i) (myState s ! i) (pendBefore i t (eventSet s)) st'"
proof -
  note D = kernel_wfD [OF wf]
  let ?s = "s\<lparr>coastForwardTime := (coastForwardTime s)[i := Some t]\<rparr>"
  have "coasting n i t ?s"
    using D(1-3,6,7) i by (simp add: coasting_def)
  from kernel_coast [OF this app] obtain es st' now where k: "kernel env (CoastLoop i t) ?s =
      Some (?s\<lparr>eventSet := es, myState := (myState s)[i := st'], localVirtualTime := (localVirtualTime s)[i := now]\<rparr>)"
    "coasted i t (eventSet s) es" "events_wf n es" "pendBefore i t es = []"
    "coasts (localObject s i) (executeProcess env i) (myState s ! i) (pendBefore i t (eventSet s)) st'"
    "now = localVirtualTime s ! i \<or> now < t" by auto
  have r: "(replicate n None)[i := Some t, i := None] = replicate n None"
    by (simp add: list_update_same_conv i)
  have "coastForward (kernel env) from t i s =
      Some (s\<lparr>eventSet := es, myState := (myState s)[i := st'], localVirtualTime := (localVirtualTime s)[i := now]\<rparr>)"
    using k(1) t(1) i D(6) r by (cases s) (simp add: coastForward_def vec_simps)
  moreover have "now \<le> t" using k(6) t(2) by auto
  ultimately show ?thesis using k(2-5) by blast
qed

context rollback_call
begin

lemma outputRollback_ok:
  assumes env: "app_ok env n" "env_ok env" and wf: "kernel_wf n s" "queued s \<le> m" and i: "i < n" and t: "gVT (gvtMgr s) \<le> t"
  shows "\<exists>s'. outputRollback env call i t s = Some s' \<and> shrinks n s s' \<and>
    sentEvents (outs s' ! i) \<subseteq># {#e \<in># sentEvents (outs s ! i). sendTime e < t#}"
proof -
  note D = kernel_wfD [OF wf(1)]
  obtain om' found where o: "outputRollback env call i t s =
      (if found = [] then Some (s\<lparr>outputMgr := om'\<rparr>) else cancelEvents env call found (s\<lparr>outputMgr := om'\<rparr>))"
    "outputs_wf n (mySimulationManagerID (gvtMgr s)) om'" "takenOut i t (outputMgr s) om'"
    "\<forall>e \<in> set found. e \<in># sentEvents (outs s ! i) \<and> t \<le> sendTime e"
    using outputRollback_taken [OF D(9) i] by blast
  let ?s = "s\<lparr>outputMgr := om'\<rparr>"
  obtain q where q: "outputsOf om' = (outs s)[i := q]" "sentEvents q = {#e \<in># sentEvents (outs s ! i). sendTime e < t#}"
    using o(3) by (auto simp: takenOut_def)
  have "shrunk k s ?s" if "k < n" for k
    using q D(13) that by (cases "k = i") (simp_all add: shrunk_def)
  then have sh: "shrinks n s ?s"
    using wf(1) o(2) by (simp add: shrinks_def kernel_wf_def)
  have qi: "sentEvents (outs ?s ! i) = {#e \<in># sentEvents (outs s ! i). sendTime e < t#}" using q D(13) i by simp
  show ?thesis
  proof (cases "found = []")
    case True
    then show ?thesis using o(1) sh qi by simp
  next
    case False
    then have "\<exists>e \<in># sentEvents (outs s ! i). t \<le> sendTime e" using o(4) by (cases found) auto
    then have "queued ?s < m" using takenOut_queued [OF o(3)] D(13) i wf(2) by fastforce
    moreover have "kernel_wf n ?s" using sh by (simp add: shrinks_def)
    moreover have "\<forall>x \<in> set found. event_ok n (mySimulationManagerID (gvtMgr ?s)) x \<and> gVT (gvtMgr ?s) \<le> sendTime x"
      using o(4) D(9) i t unfolding outputs_wf_def by (simp, meson order_trans)
    ultimately obtain s' where s': "cancelEvents env call found ?s = Some s'" "shrinks n ?s s'"
      using cancelEvents_ok [OF env _ _ False, of ?s] by blast
    have "sentEvents (outs s' ! i) \<subseteq># sentEvents (outs ?s ! i)" using s'(2) i by (simp add: shrinks_def shrunk_def)
    then show ?thesis using o(1) False s' shrinks_trans [OF sh s'(2)] unfolding qi by simp
  qed
qed

end

text \<open>A rollback up to the point where the output manager takes over.\<close>

lemma rollbackObject_prefix:
  assumes wf: "kernel_wf n s" and i: "i < n" and t: "gVT (gvtMgr s) \<le> t"
  shows "\<exists>s1 time. rollbackObject env call i t s = Option.bind (outputRollback env call i t s1) (coastForward call time t i) \<and>
    kernel_wf n s1 \<and> gvtMgr s1 = gvtMgr s \<and> outputMgr s1 = outputMgr s \<and> time \<le> t \<and>
    localVirtualTime s1 = (localVirtualTime s)[i := time] \<and> (\<forall>j < n. held j (eventSet s1) \<subseteq> held j (eventSet s)) \<and>
    processedObjEvents (eventSet s1) =
      (processedObjEvents (eventSet s))[i := takeWhile (\<lambda>e. receiveTime e < time) (processedObjEvents (eventSet s) ! i)]"
proof -
  note D = kernel_wfD [OF wf]
  obtain sm time st gone where r: "restoreState False t i (stateMgr s) = Some (sm, time, Some st, gone)"
    "states_wf n (gVT (gvtMgr s)) sm" "0 \<le> time" "time \<le> t"
    using restoreState_wf [OF D(8) i t] by blast
  have ob: "objIdOf (localObject s i) = i" using i D(1) by simp
  obtain es where e: "rollback (localObject s i) time (eventSet s) = Some es" "events_wf n es"
    "\<forall>j < n. held j es \<subseteq> held j (eventSet s)"
    "processedObjEvents es = (processedObjEvents (eventSet s))[i := takeWhile (\<lambda>e. receiveTime e < time) (processedObjEvents (eventSet s) ! i)]"
    using rollback_wf [OF D(7) i ob] by blast
  let ?s1 = "s\<lparr>numberOfRollbacks := numberOfRollbacks s + 1, stateMgr := sm, myState := (myState s)[i := st],
     localVirtualTime := (localVirtualTime s)[i := time],
     inFileQueues := (inFileQueues s)[i := map (stream_rollbackTo time) (inFileQueues s ! i)],
     outFileQueues := (outFileQueues s)[i := map (stream_rollbackTo time) (outFileQueues s ! i)], eventSet := es\<rparr>"
  have lo: "localObject (s\<lparr>numberOfRollbacks := x, stateMgr := sm, myState := y, localVirtualTime := z\<rparr>) i = localObject s i" for x y z
    by (simp add: localObject_def)
  have "rollbackObject env call i t s = Option.bind (outputRollback env call i t ?s1) (coastForward call time t i)"
    using t leD [OF t] r(1,3,4) e(1) i D(2-5) lo by (simp add: rollbackObject_def vec_simps setSimulationTime_def del: not_less)
  moreover have "kernel_wf n ?s1" using wf r(2) e(2) by (simp add: kernel_wf_def)
  ultimately show ?thesis using r(4) e(3,4) by (intro exI [of _ ?s1] exI [of _ time]) simp
qed

lemma coasted_held:
  assumes "coasted i t es es'" and "i < numObjects es" and "i < length (processedObjEvents es)"
  shows "held k es' \<subseteq> held k es"
  using assms by (cases "k = i") (auto simp: coasted_def held_def)

lemma coasted_other:
  assumes "coasted i t es es'" and "k \<noteq> i"
  shows "processedObjEvents es' ! k = processedObjEvents es ! k"
  using assms by (auto simp: coasted_def)

text \<open>Putting the two phases together: the object is where \<open>rolled\<close> says, whatever the cascade did to the others.\<close>

lemma rolled_compose:
  assumes wf: "kernel_wf n s" "kernel_wf n s1" and i: "i < n"
    and s1: "gvtMgr s1 = gvtMgr s" "outputMgr s1 = outputMgr s" "time \<le> t" "localVirtualTime s1 = (localVirtualTime s)[i := time]"
      "\<forall>j < n. held j (eventSet s1) \<subseteq> held j (eventSet s)"
      "processedObjEvents (eventSet s1) =
        (processedObjEvents (eventSet s))[i := takeWhile (\<lambda>e. receiveTime e < time) (processedObjEvents (eventSet s) ! i)]"
    and s2: "shrinks n s1 s2" "sentEvents (outs s2 ! i) \<subseteq># {#e \<in># sentEvents (outs s1 ! i). sendTime e < t#}"
    and s3: "s3 = s2\<lparr>eventSet := es, myState := (myState s2)[i := st'], localVirtualTime := (localVirtualTime s2)[i := now]\<rparr>"
      "coasted i t (eventSet s2) es" "events_wf n es" "pendBefore i t es = []" "now \<le> t"
  shows "rolled n i t s s3"
proof -
  note D = kernel_wfD [OF wf(1)]
  have wf2: "kernel_wf n s2" using s2(1) by (simp add: shrinks_def)
  note D2 = kernel_wfD [OF wf2]
  have lp: "length (processedObjEvents (eventSet s)) = n" "length (processedObjEvents (eventSet s2)) = n"
    using twm_invD(2) [OF D(11)] D(12) twm_invD(2) [OF D2(11)] D2(12) by simp_all
  have p2: "receiveTime e < t" if "e \<in> set (processedObjEvents (eventSet s2) ! i)" for e
  proof -
    have "shrunk i s1 s2" using s2(1) i by (simp add: shrinks_def)
    then have "e \<in> set (processedObjEvents (eventSet s1) ! i) \<or> receiveTime e < time"
      using that s1(4) i D(2) by (simp add: shrunk_def)
    then have "receiveTime e < time" using s1(6) lp(1) i set_takeWhileD by fastforce
    then show ?thesis using s1(3) by simp
  qed
  have p3: "receiveTime e < t" if "e \<in> set (processedObjEvents es ! i)" for e
    using s3(2) that p2 lp(2) i unfolding coasted_def by auto
  have u3: "t \<le> receiveTime e" if "e \<in> set (vals i es)" for e
    using pendBefore_Nil [OF _ _ s3(4) that] s3(3) i by (simp add: events_wf_def)
  have h: "held k (eventSet s3) \<subseteq> held k (eventSet s)" if "k < n" for k
  proof -
    have "held k (eventSet s3) \<subseteq> held k (eventSet s2)"
      using coasted_held [OF s3(2)] lp(2) D2(12) i by (simp add: s3(1))
    also have "\<dots> \<subseteq> held k (eventSet s1)" using s2(1) that by (simp add: shrinks_def shrunk_def)
    also have "\<dots> \<subseteq> held k (eventSet s)" using s1(5) that by simp
    finally show ?thesis .
  qed
  have oth: "shrunk k s s3" if "k < n" "k \<noteq> i" for k
  proof -
    have "shrunk k s1 s2" using s2(1) that(1) by (simp add: shrinks_def)
    then have "shrunk k s s2" using s1 that by (auto simp: shrunk_def)
    then show ?thesis using that h [OF that(1)] coasted_other [OF s3(2) that(2)] by (simp add: shrunk_def s3(1))
  qed
  have "kernel_wf n s3" using wf2 s3(1,3) by (simp add: kernel_wf_def)
  then show ?thesis
    unfolding rolled_def using s1(1,2) s2 s3(1,5) D2(2) i p3 u3 oth h [OF i] by (simp add: shrinks_def)
qed

lemma rollback_cascade:
  fixes s :: "('t :: {linorder, zero}, 'st) simMgr"
  assumes "app_ok env n" and "env_ok env" and "kernel_wf n s" and "i < n" and "gVT (gvtMgr s) \<le> t"
  shows "\<exists>s'. kernel env (Rollback i t) s = Some s' \<and> rolled n i t s s'"
  using assms(3-)
proof (induction "queued s" arbitrary: s i t rule: less_induct)
  case less
  have rc: "rollback_call env n (kernel env) (queued s)"
    by (rule rollback_call.intro) (rule less.hyps)
  obtain s1 time where p: "rollbackObject env (kernel env) i t s = Option.bind (outputRollback env (kernel env) i t s1) (coastForward (kernel env) time t i)"
    "kernel_wf n s1" "gvtMgr s1 = gvtMgr s" "outputMgr s1 = outputMgr s" "time \<le> t"
    "localVirtualTime s1 = (localVirtualTime s)[i := time]" "\<forall>j < n. held j (eventSet s1) \<subseteq> held j (eventSet s)"
    "processedObjEvents (eventSet s1) =
      (processedObjEvents (eventSet s))[i := takeWhile (\<lambda>e. receiveTime e < time) (processedObjEvents (eventSet s) ! i)]"
    using rollbackObject_prefix [OF less.prems] by blast
  have "queued s1 \<le> queued s" "gVT (gvtMgr s1) \<le> t" using p(3,4) less.prems(3) by (simp_all add: queued_def)
  then obtain s2 where o: "outputRollback env (kernel env) i t s1 = Some s2" "shrinks n s1 s2"
    "sentEvents (outs s2 ! i) \<subseteq># {#e \<in># sentEvents (outs s1 ! i). sendTime e < t#}"
    using rollback_call.outputRollback_ok [OF rc assms(1,2) p(2) _ less.prems(2)] by blast
  have "kernel_wf n s2" "localVirtualTime s2 ! i \<le> t"
    using o(2) p(5,6) less.prems(2) kernel_wfD(2) [OF less.prems(1)] by (auto simp: shrinks_def shrunk_def)
  from coastForward_ok [OF assms(1) this(1) less.prems(2) p(5) this(2)]
  obtain es st' now where c: "coastForward (kernel env) time t i s2 =
      Some (s2\<lparr>eventSet := es, myState := (myState s2)[i := st'], localVirtualTime := (localVirtualTime s2)[i := now]\<rparr>)"
    "coasted i t (eventSet s2) es" "events_wf n es" "pendBefore i t es = []" "now \<le> t" by blast
  from rolled_compose [OF less.prems(1) p(2) less.prems(2) p(3-8) o(2,3) refl c(2-5)]
  show ?case using p(1) o(1) c(1) by (simp add: kernel.simps [of env "Rollback i t" s] kernelBody_def)
qed

interpretation krn: rollback_call env n "kernel env" m
  by unfold_locales (rule rollback_cascade)

end
