(* ===== verification/KernelProperties.thy ===== *)
theory KernelProperties
  imports Cascade
begin

text \<open>
  What the simulation manager guarantees about rollbacks, for every application that sends events in its own name and takes an event
  whenever it is executed.
\<close>

subsection \<open>Examples\<close>






subsection \<open>Properties\<close>








subsection \<open>Annihilation\<close>






end
