(* ===== verification/Termination.thy ===== *)
theory Termination
  imports Messages
begin

text \<open>
  Termination detection: \<open>TokenPassingTerminationManager.cpp\<close>. One simulation manager is the terminator. When its manager asks
  whether to stop, it sends a token around the ring; a manager that has been active since it last saw a token sends it back and becomes the
  terminator. A token that comes back twice ends the simulation. The second part puts the managers into a ring with the tokens in transit.
\<close>

subsection \<open>The termination manager\<close>

datatype terminatorStatus = SLAVE | TERMINATOR_IDLE | TERMINATOR_PROCESSING

datatype simMgrIdleStatus = IDLE | ACTIVE

record terminateToken =
  tk_sender :: nat
  tk_receiver :: nat
  tk_terminator :: nat
  tk_state :: tokenState

record terminationManager =
  tm_id :: nat
  myPeer :: nat
  tm_status :: terminatorStatus
  simulationCompleteFlag :: bool
  mySimManagerStatus :: simMgrIdleStatus
  idleSinceLastTokenFlag :: bool

definition figureOutPeer :: "nat \<Rightarrow> nat \<Rightarrow> nat option" where
  "figureOutPeer n myId = (let peer = (if myId + 1 = n then 0 else myId + 1) in if peer \<noteq> myId then Some peer else None)"

definition getTerminatorStatus :: "nat \<Rightarrow> terminatorStatus" where
  "getTerminatorStatus myId = (if myId = 0 then TERMINATOR_IDLE else SLAVE)"

text \<open>The constructor leaves \<open>mySimManagerStatus\<close> without a value, so the value is an argument.\<close>

definition TokenPassingTerminationManager :: "nat \<Rightarrow> nat \<Rightarrow> simMgrIdleStatus \<Rightarrow> terminationManager option" where
  "TokenPassingTerminationManager n myId st = do {
     peer \<leftarrow> figureOutPeer n myId;
     Some \<lparr>tm_id = myId, myPeer = peer, tm_status = getTerminatorStatus myId, simulationCompleteFlag = False,
       mySimManagerStatus = st, idleSinceLastTokenFlag = True\<rparr> }"

definition amTerminator :: "terminationManager \<Rightarrow> bool" where
  "amTerminator m \<longleftrightarrow> tm_status m \<noteq> SLAVE"

text \<open>An operation returns the manager and the tokens that it sends.\<close>

definition sendToken :: "terminateToken \<Rightarrow> terminationManager \<Rightarrow> (terminationManager \<times> terminateToken list) option" where
  "sendToken token m = (if tk_receiver token \<noteq> tm_id m then Some (m, [token]) else None)"

definition circulateToken :: "terminateToken \<Rightarrow> terminationManager \<Rightarrow> (terminationManager \<times> terminateToken list) option" where
  "circulateToken token m = sendToken \<lparr>tk_sender = tm_id m, tk_receiver = myPeer m, tk_terminator = tk_terminator token,
     tk_state = tk_state token\<rparr> m"

definition sendTerminateToken :: "terminationManager \<Rightarrow> (terminationManager \<times> terminateToken list) option" where
  "sendTerminateToken m = (let newToken = \<lparr>tk_sender = tm_id m, tk_receiver = myPeer m, tk_terminator = tm_id m, tk_state = FIRST_CYCLE\<rparr> in
     if tm_status m = TERMINATOR_IDLE then circulateToken newToken (m\<lparr>tm_status := TERMINATOR_PROCESSING\<rparr>) else None)"

definition terminateSimulation :: "terminationManager \<Rightarrow> (terminationManager \<times> terminateToken list \<times> bool) option" where
  "terminateSimulation m =
     (if simulationCompleteFlag m then Some (m, [], True)
      else case tm_status m of
        SLAVE \<Rightarrow> Some (m, [], False)
      | TERMINATOR_PROCESSING \<Rightarrow> Some (m, [], False)
      | TERMINATOR_IDLE \<Rightarrow> do { (m', out) \<leftarrow> sendTerminateToken m; Some (m', out, False) })"

definition taintToken :: "terminateToken \<Rightarrow> terminationManager \<Rightarrow> (terminationManager \<times> terminateToken list) option" where
  "taintToken toTaint m = (let sendBackTo = tk_terminator toTaint in
     sendToken \<lparr>tk_sender = tm_id m, tk_receiver = sendBackTo, tk_terminator = sendBackTo, tk_state = CANCEL_CYCLE\<rparr> m)"

definition cancelCycle :: "terminationManager \<Rightarrow> terminationManager" where
  "cancelCycle m = m\<lparr>tm_status := TERMINATOR_IDLE\<rparr>"

definition tm_simulationComplete :: "terminationManager \<Rightarrow> (terminationManager \<times> terminateToken list) option" where
  "tm_simulationComplete m =
     sendToken \<lparr>tk_sender = tm_id m, tk_receiver = myPeer m, tk_terminator = tm_id m, tk_state = SIMULATION_COMPLETE\<rparr>
       (m\<lparr>simulationCompleteFlag := True\<rparr>)"

definition retireTerminator :: "terminateToken \<Rightarrow> terminationManager \<Rightarrow> (terminationManager \<times> terminateToken list) option" where
  "retireTerminator canceledToken m =
     (if tm_id m = tk_terminator canceledToken then
        (let newTerminator = tk_sender canceledToken in
         sendToken \<lparr>tk_sender = tm_id m, tk_receiver = newTerminator, tk_terminator = newTerminator, tk_state = BECOME_TERMINATOR\<rparr>
           (m\<lparr>tm_status := SLAVE\<rparr>))
      else None)"

definition becomeTerminator :: "terminationManager \<Rightarrow> terminationManager" where
  "becomeTerminator m = m\<lparr>tm_status := TERMINATOR_IDLE\<rparr>"

definition terminatorHandles :: "terminateToken \<Rightarrow> terminationManager \<Rightarrow> (terminationManager \<times> terminateToken list) option" where
  "terminatorHandles token m =
     (case tk_state token of
        FIRST_CYCLE \<Rightarrow>
          if idleSinceLastTokenFlag m
          then circulateToken \<lparr>tk_sender = tm_id m, tk_receiver = myPeer m, tk_terminator = tm_id m, tk_state = SECOND_CYCLE\<rparr> m
          else Some (cancelCycle m, [])
      | SECOND_CYCLE \<Rightarrow> if idleSinceLastTokenFlag m then tm_simulationComplete m else Some (cancelCycle m, [])
      | CANCEL_CYCLE \<Rightarrow> retireTerminator token m
      | SIMULATION_COMPLETE \<Rightarrow> Some (m, [])
      | BECOME_TERMINATOR \<Rightarrow> Some (m, []))"

definition slaveHandles :: "terminateToken \<Rightarrow> terminationManager \<Rightarrow> (terminationManager \<times> terminateToken list) option" where
  "slaveHandles token m =
     (case tk_state token of
        FIRST_CYCLE \<Rightarrow> if idleSinceLastTokenFlag m then circulateToken token m else taintToken token m
      | SECOND_CYCLE \<Rightarrow> if idleSinceLastTokenFlag m then circulateToken token m else taintToken token m
      | BECOME_TERMINATOR \<Rightarrow> Some (becomeTerminator m, [])
      | SIMULATION_COMPLETE \<Rightarrow> tm_simulationComplete m
      | CANCEL_CYCLE \<Rightarrow> None)"

definition handleTerminateToken :: "terminateToken \<Rightarrow> terminationManager \<Rightarrow> (terminationManager \<times> terminateToken list) option" where
  "handleTerminateToken token m = do {
     (m', out) \<leftarrow> (if amTerminator m then terminatorHandles token m else slaveHandles token m);
     Some (m'\<lparr>idleSinceLastTokenFlag := (mySimManagerStatus m' \<noteq> ACTIVE)\<rparr>, out) }"

definition setStatusActive :: "terminationManager \<Rightarrow> terminationManager" where
  "setStatusActive m = m\<lparr>mySimManagerStatus := ACTIVE, idleSinceLastTokenFlag := False\<rparr>"

definition setStatusPassive :: "terminationManager \<Rightarrow> terminationManager" where
  "setStatusPassive m = m\<lparr>mySimManagerStatus := IDLE\<rparr>"

definition tm_ofcReset :: "terminationManager \<Rightarrow> terminationManager" where
  "tm_ofcReset m = m\<lparr>mySimManagerStatus := ACTIVE, idleSinceLastTokenFlag := False, simulationCompleteFlag := False,
     tm_status := getTerminatorStatus (tm_id m)\<rparr>"

subsection \<open>The ring\<close>

text \<open>
  The simulation manager asks \<open>terminateSimulation\<close> at the head of its main loop, reports \<open>setStatusActive\<close> or
  \<open>setStatusPassive\<close> after \<open>executeObjects\<close>, and hands over the tokens that arrive, in any order.
\<close>

record terminationRing =
  ring :: "terminationManager list"
  transit :: "terminateToken list"

definition initialRing :: "simMgrIdleStatus list \<Rightarrow> terminationRing option" where
  "initialRing sts = do {
     ms \<leftarrow> those (map (\<lambda>i. TokenPassingTerminationManager (length sts) i (sts ! i)) [0..<length sts]);
     Some \<lparr>ring = ms, transit = []\<rparr> }"

datatype ringAction = Ask nat | Active nat | Passive nat | Deliver nat

fun valid :: "ringAction \<Rightarrow> terminationRing \<Rightarrow> bool" where
  "valid (Ask i) s \<longleftrightarrow> i < length (ring s)"
| "valid (Active i) s \<longleftrightarrow> i < length (ring s)"
| "valid (Passive i) s \<longleftrightarrow> i < length (ring s)"
| "valid (Deliver k) s \<longleftrightarrow> k < length (transit s)"

fun ring_do :: "ringAction \<Rightarrow> terminationRing \<Rightarrow> terminationRing option" where
  "ring_do (Ask i) s = do {
     m \<leftarrow> vec_get (ring s) i;
     (m', out, _) \<leftarrow> terminateSimulation m;
     Some (s\<lparr>ring := (ring s)[i := m'], transit := transit s @ out\<rparr>) }"
| "ring_do (Active i) s = do {
     m \<leftarrow> vec_get (ring s) i;
     Some (s\<lparr>ring := (ring s)[i := setStatusActive m]\<rparr>) }"
| "ring_do (Passive i) s = do {
     m \<leftarrow> vec_get (ring s) i;
     Some (s\<lparr>ring := (ring s)[i := setStatusPassive m]\<rparr>) }"
| "ring_do (Deliver k) s = do {
     token \<leftarrow> vec_get (transit s) k;
     m \<leftarrow> vec_get (ring s) (tk_receiver token);
     (m', out) \<leftarrow> handleTerminateToken token m;
     Some (s\<lparr>ring := (ring s)[tk_receiver token := m'], transit := take k (transit s) @ drop (Suc k) (transit s) @ out\<rparr>) }"

fun ring_run :: "ringAction list \<Rightarrow> terminationRing \<Rightarrow> terminationRing option" where
  "ring_run [] s = Some s"
| "ring_run (a # as) s = do { s' \<leftarrow> ring_do a s; ring_run as s' }"


subsection \<open>The protocol\<close>

text \<open>
  What the managers do together is one of six phases: the terminator \<open>t\<close> rests; its token is on the way to \<open>r\<close> in the first or second
  round; the token has been tainted by \<open>u\<close>; the duty is handed to \<open>u\<close>; the end is announced, on the way to \<open>r\<close>; all
  have been told.
\<close>

datatype phase =
  Resting nat
| Round tokenState nat nat
| Tainted nat nat
| Handover nat
| Ending nat nat
| Ended nat

definition peer_of :: "nat \<Rightarrow> nat \<Rightarrow> nat" where
  "peer_of n i = (if i + 1 = n then 0 else i + 1)"

text \<open>The distance from the terminator along the ring, and the managers that a token sent by \<open>t\<close> and on the way to \<open>r\<close> has visited.\<close>

definition hops :: "nat \<Rightarrow> nat \<Rightarrow> nat \<Rightarrow> nat" where
  "hops n t i = (if t < i then i - t else i + n - t)"

definition passed :: "nat \<Rightarrow> nat \<Rightarrow> nat \<Rightarrow> nat \<Rightarrow> bool" where
  "passed n t r i \<longleftrightarrow> hops n t i < hops n t r"

lemma peer_of_props: "2 \<le> n \<Longrightarrow> i < n \<Longrightarrow> peer_of n i < n \<and> peer_of n i \<noteq> i"
  by (auto simp: peer_of_def)

lemma hops_peer: "2 \<le> n \<Longrightarrow> t < n \<Longrightarrow> i < n \<Longrightarrow> hops n t (peer_of n i) = (if i = t then 1 else hops n t i + 1)"
  by (auto simp: hops_def peer_of_def)

lemma hops_bounds: "2 \<le> n \<Longrightarrow> t < n \<Longrightarrow> i < n \<Longrightarrow> 1 \<le> hops n t i \<and> hops n t i \<le> n \<and> (hops n t i = n \<longleftrightarrow> i = t)"
  by (auto simp: hops_def)

lemma hops_inj: "t < n \<Longrightarrow> i < n \<Longrightarrow> j < n \<Longrightarrow> hops n t i = hops n t j \<longleftrightarrow> i = j"
  by (auto simp: hops_def split: if_splits)

lemma passed_start: "2 \<le> n \<Longrightarrow> t < n \<Longrightarrow> i < n \<Longrightarrow> \<not> passed n t (peer_of n t) i"
  using hops_bounds [of n t i] by (simp add: passed_def hops_peer)

lemma passed_peer: "2 \<le> n \<Longrightarrow> t < n \<Longrightarrow> r < n \<Longrightarrow> i < n \<Longrightarrow> r \<noteq> t \<Longrightarrow>
    passed n t (peer_of n r) i \<longleftrightarrow> passed n t r i \<or> i = r"
  using hops_inj [of t n i r] by (auto simp: passed_def hops_peer less_Suc_eq)

lemma passed_all: "2 \<le> n \<Longrightarrow> t < n \<Longrightarrow> i < n \<Longrightarrow> passed n t t i \<longleftrightarrow> i \<noteq> t"
  using hops_bounds [of n t i] hops_bounds [of n t t] by (auto simp: passed_def)

fun next_phase :: "nat \<Rightarrow> (nat \<Rightarrow> bool) \<Rightarrow> ringAction \<Rightarrow> phase \<Rightarrow> phase" where
  "next_phase n idle (Ask i) (Resting t) = (if i = t then Round FIRST_CYCLE t (peer_of n t) else Resting t)"
| "next_phase n idle (Deliver k) (Round st t r) =
     (if r \<noteq> t then if idle r then Round st t (peer_of n r) else Tainted t r
      else if \<not> idle t then Resting t
      else if st = FIRST_CYCLE then Round SECOND_CYCLE t (peer_of n t)
      else Ending t (peer_of n t))"
| "next_phase n idle (Deliver k) (Tainted t u) = Handover u"
| "next_phase n idle (Deliver k) (Handover u) = Resting u"
| "next_phase n idle (Deliver k) (Ending t r) = (if r = t then Ended t else Ending t (peer_of n r))"
| "next_phase n idle a p = p"

definition roles :: "terminationRing \<Rightarrow> (nat \<Rightarrow> terminatorStatus) \<Rightarrow> (nat \<Rightarrow> bool) \<Rightarrow> bool" where
  "roles s st c \<longleftrightarrow> (\<forall>i < length (ring s). tm_status (ring s ! i) = st i \<and> simulationCompleteFlag (ring s ! i) = c i)"

abbreviation only :: "nat \<Rightarrow> terminatorStatus \<Rightarrow> nat \<Rightarrow> terminatorStatus" where
  "only t st \<equiv> \<lambda>i. if i = t then st else SLAVE"

fun in_phase :: "phase \<Rightarrow> terminationRing \<Rightarrow> bool" where
  "in_phase (Resting t) s \<longleftrightarrow> t < length (ring s) \<and> transit s = [] \<and> roles s (only t TERMINATOR_IDLE) (\<lambda>i. False)"
| "in_phase (Round st t r) s \<longleftrightarrow> t < length (ring s) \<and> r < length (ring s) \<and> st \<in> {FIRST_CYCLE, SECOND_CYCLE} \<and>
     (\<exists>u. transit s = [\<lparr>tk_sender = u, tk_receiver = r, tk_terminator = t, tk_state = st\<rparr>]) \<and>
     roles s (only t TERMINATOR_PROCESSING) (\<lambda>i. False)"
| "in_phase (Tainted t u) s \<longleftrightarrow> t < length (ring s) \<and> u < length (ring s) \<and> u \<noteq> t \<and>
     transit s = [\<lparr>tk_sender = u, tk_receiver = t, tk_terminator = t, tk_state = CANCEL_CYCLE\<rparr>] \<and>
     roles s (only t TERMINATOR_PROCESSING) (\<lambda>i. False)"
| "in_phase (Handover u) s \<longleftrightarrow> u < length (ring s) \<and>
     (\<exists>t. transit s = [\<lparr>tk_sender = t, tk_receiver = u, tk_terminator = u, tk_state = BECOME_TERMINATOR\<rparr>]) \<and>
     roles s (\<lambda>i. SLAVE) (\<lambda>i. False)"
| "in_phase (Ending t r) s \<longleftrightarrow> t < length (ring s) \<and> r < length (ring s) \<and>
     (\<exists>u v. transit s = [\<lparr>tk_sender = u, tk_receiver = r, tk_terminator = v, tk_state = SIMULATION_COMPLETE\<rparr>]) \<and>
     roles s (only t TERMINATOR_PROCESSING) (\<lambda>i. i = t \<or> passed (length (ring s)) t r i)"
| "in_phase (Ended t) s \<longleftrightarrow> t < length (ring s) \<and> transit s = [] \<and> roles s (only t TERMINATOR_PROCESSING) (\<lambda>i. True)"

definition ring_wf :: "nat \<Rightarrow> terminationRing \<Rightarrow> bool" where
  "ring_wf n s \<longleftrightarrow> 2 \<le> n \<and> length (ring s) = n \<and> (\<forall>i < n. tm_id (ring s ! i) = i \<and> myPeer (ring s ! i) = peer_of n i)"

abbreviation idle_flags :: "terminationRing \<Rightarrow> nat \<Rightarrow> bool" where
  "idle_flags s \<equiv> \<lambda>i. idleSinceLastTokenFlag (ring s ! i)"

lemmas token_defs = sendToken_def circulateToken_def sendTerminateToken_def taintToken_def cancelCycle_def tm_simulationComplete_def
  retireTerminator_def becomeTerminator_def terminatorHandles_def slaveHandles_def amTerminator_def Let_def

text \<open>What an action changes of the reported statuses and idle flags.\<close>

definition tracked :: "nat \<Rightarrow> ringAction \<Rightarrow> terminationRing \<Rightarrow> terminationRing \<Rightarrow> bool" where
  "tracked n a s s' \<longleftrightarrow> (\<forall>i < n. case a of
     Ask _ \<Rightarrow> idle_flags s' i = idle_flags s i \<and> mySimManagerStatus (ring s' ! i) = mySimManagerStatus (ring s ! i)
   | Active j \<Rightarrow> if i = j then \<not> idle_flags s' i
       else idle_flags s' i = idle_flags s i \<and> mySimManagerStatus (ring s' ! i) = mySimManagerStatus (ring s ! i)
   | Passive j \<Rightarrow> idle_flags s' i = idle_flags s i \<and>
       mySimManagerStatus (ring s' ! i) = (if i = j then IDLE else mySimManagerStatus (ring s ! i))
   | Deliver k \<Rightarrow> mySimManagerStatus (ring s' ! i) = mySimManagerStatus (ring s ! i) \<and>
       idle_flags s' i = (if i = tk_receiver (transit s ! k) then mySimManagerStatus (ring s ! i) \<noteq> ACTIVE else idle_flags s i))"

lemma roles_update:
  assumes "roles s st c" and "r < length (ring s)"
    and "tm_status m = st' r" "simulationCompleteFlag m = c' r" "\<forall>i < length (ring s). i \<noteq> r \<longrightarrow> st' i = st i \<and> c' i = c i"
  shows "roles (s\<lparr>ring := (ring s)[r := m], transit := out\<rparr>) st' c'"
  using assms by (auto simp: roles_def nth_list_update)

lemma ring_wf_update:
  assumes "ring_wf n s" and "r < n" and "tm_id m = r" "myPeer m = peer_of n r"
  shows "ring_wf n (s\<lparr>ring := (ring s)[r := m], transit := out\<rparr>)"
  using assms by (auto simp: ring_wf_def nth_list_update)

lemma deliver_one:
  assumes "transit s = [tok]" and "tk_receiver tok = r" "r < length (ring s)" and "handleTerminateToken tok (ring s ! r) = Some (m, out)"
  shows "ring_do (Deliver 0) s = Some (s\<lparr>ring := (ring s)[r := m], transit := out\<rparr>)"
  using assms by (simp add: vec_simps)

lemma handle_keeps:
  assumes "handleTerminateToken tok m = Some (m', out)"
  shows "tm_id m' = tm_id m" "myPeer m' = myPeer m" "mySimManagerStatus m' = mySimManagerStatus m"
    "idleSinceLastTokenFlag m' = (mySimManagerStatus m \<noteq> ACTIVE)"
  using assms
  by (auto simp: handleTerminateToken_def token_defs split: bind_splits if_splits tokenState.splits)

text \<open>A phase that the delivered token turns into another, given what its receiver does.\<close>

lemma deliver_phase:
  assumes wf: "ring_wf n s" and t: "transit s = [tok]" "tk_receiver tok = r" "r < n"
    and h: "\<exists>m out. handleTerminateToken tok (ring s ! r) = Some (m, out) \<and> in_phase p (s\<lparr>ring := (ring s)[r := m], transit := out\<rparr>)"
  shows "\<exists>s'. ring_do (Deliver 0) s = Some s' \<and> ring_wf n s' \<and> in_phase p s'"
proof -
  obtain m out where m: "handleTerminateToken tok (ring s ! r) = Some (m, out)" "in_phase p (s\<lparr>ring := (ring s)[r := m], transit := out\<rparr>)"
    using h by blast
  have "ring_do (Deliver 0) s = Some (s\<lparr>ring := (ring s)[r := m], transit := out\<rparr>)"
    using deliver_one [OF t(1,2) _ m(1)] wf t(3) by (simp add: ring_wf_def)
  moreover have "ring_wf n (s\<lparr>ring := (ring s)[r := m], transit := out\<rparr>)"
    using wf t(3) handle_keeps(1,2) [OF m(1)] by (intro ring_wf_update) (simp_all add: ring_wf_def)
  ultimately show ?thesis using m(2) by blast
qed

lemma deliver_next:
  assumes wf: "ring_wf n s" and p: "in_phase p s" and v: "valid (Deliver k) s"
  shows "\<exists>s'. ring_do (Deliver k) s = Some s' \<and> ring_wf n s' \<and> in_phase (next_phase n (idle_flags s) (Deliver k) p) s'"
proof -
  have n: "2 \<le> n" "length (ring s) = n" using wf by (simp_all add: ring_wf_def)
  have id: "tm_id (ring s ! i) = i \<and> myPeer (ring s ! i) = peer_of n i" if "i < n" for i using wf that by (simp add: ring_wf_def)
  note simps = handleTerminateToken_def token_defs roles_def nth_list_update
  have k: "k = 0" using p v by (cases p) auto
  show ?thesis
  proof (cases p)
    case (Round st t r)
    with p obtain u where u: "transit s = [\<lparr>tk_sender = u, tk_receiver = r, tk_terminator = t, tk_state = st\<rparr>]" by auto
    have "t < n" "r < n" "st = FIRST_CYCLE \<or> st = SECOND_CYCLE" using p Round n by auto
    then show ?thesis unfolding k
      apply (intro deliver_phase [OF wf u, of r])
        apply simp
       apply simp
      using p Round n id [of r] peer_of_props [OF n(1), of r] peer_of_props [OF n(1), of t] passed_start [OF n(1), of t]
      apply (auto simp: simps)
      done
  next
    case (Tainted t u)
    with p show ?thesis unfolding k
      apply (intro deliver_phase [OF wf, of _ t]) 
      using n id [of t] apply (auto simp: simps)
      done
  next
    case (Handover u)
    with p obtain t where t: "transit s = [\<lparr>tk_sender = t, tk_receiver = u, tk_terminator = u, tk_state = BECOME_TERMINATOR\<rparr>]" by auto
    with p Handover show ?thesis unfolding k
      apply (intro deliver_phase [OF wf t, of u]) 
      using n id [of u] apply (auto simp: simps)
      done
  next
    case (Ending t r)
    with p obtain u w where u: "transit s = [\<lparr>tk_sender = u, tk_receiver = r, tk_terminator = w, tk_state = SIMULATION_COMPLETE\<rparr>]" by auto
    with p Ending show ?thesis unfolding k
      apply (intro deliver_phase [OF wf u, of r]) 
      using n id [of r] peer_of_props [OF n(1), of r] passed_peer [OF n(1), of t r] passed_all [OF n(1), of t] apply (auto simp: simps)
      done
  qed (use p v in auto)
qed

lemma other_next:
  assumes wf: "ring_wf n s" and p: "in_phase p s" and v: "valid a s" and a: "\<nexists>k. a = Deliver k"
  shows "\<exists>s'. ring_do a s = Some s' \<and> ring_wf n s' \<and> in_phase (next_phase n (idle_flags s) a p) s'"
proof (cases a)
  case (Ask i)
  have n: "2 \<le> n" "length (ring s) = n" "i < n" using wf v Ask by (simp_all add: ring_wf_def)
  have id: "tm_id (ring s ! i) = i \<and> myPeer (ring s ! i) = peer_of n i" using wf n(3) by (simp add: ring_wf_def)
  show ?thesis
  proof (cases "p = Resting i")
    case True
    then show ?thesis using p n id Ask wf peer_of_props [OF n(1,3)]
      by (auto simp: terminateSimulation_def token_defs roles_def nth_list_update vec_simps ring_wf_def)
  next
    case False
    have same: "terminateSimulation (ring s ! i) = Some (ring s ! i, [], simulationCompleteFlag (ring s ! i))"
      using p False n by (cases p) (auto simp: terminateSimulation_def roles_def)
    have "next_phase n (idle_flags s) a p = p" using False Ask by (cases p) auto
    then show ?thesis using p same n wf Ask by (simp add: vec_simps)
  qed
next
  case (Active i)
  then show ?thesis using assms by (cases p) (auto simp: setStatusActive_def roles_def nth_list_update vec_simps ring_wf_def)
next
  case (Passive i)
  then show ?thesis using assms by (cases p) (auto simp: setStatusPassive_def roles_def nth_list_update vec_simps ring_wf_def)
qed (use a in blast)

lemma ring_do_next:
  assumes "ring_wf n s" and "in_phase p s" and "valid a s"
  shows "\<exists>s'. ring_do a s = Some s' \<and> ring_wf n s' \<and> in_phase (next_phase n (idle_flags s) a p) s'"
  using deliver_next other_next assms by (cases a) blast+

lemma ring_do_tracked:
  assumes wf: "ring_wf n s" and "ring_do a s = Some s'"
  shows "tracked n a s s' \<and> length (ring s') = n"
proof (cases a)
  case (Deliver k)
  then obtain m m' out where m: "k < length (transit s)" "tk_receiver (transit s ! k) < n" "ring s ! tk_receiver (transit s ! k) = m"
    "handleTerminateToken (transit s ! k) m = Some (m', out)" "ring s' = (ring s)[tk_receiver (transit s ! k) := m']"
    using assms by (auto simp: ring_wf_def vec_get_def split: bind_splits if_splits)
  then show ?thesis using handle_keeps [OF m(4)] Deliver wf by (auto simp: tracked_def nth_list_update ring_wf_def)
next
  case (Ask i)
  then obtain m m' out b where m: "i < n" "ring s ! i = m" "terminateSimulation m = Some (m', out, b)" "ring s' = (ring s)[i := m']"
    using assms by (auto simp: ring_wf_def vec_get_def split: bind_splits if_splits)
  have "idleSinceLastTokenFlag m' = idleSinceLastTokenFlag m \<and> mySimManagerStatus m' = mySimManagerStatus m"
    using m(3) by (auto simp: terminateSimulation_def token_defs split: if_splits terminatorStatus.splits bind_splits)
  then show ?thesis using m Ask wf by (auto simp: tracked_def nth_list_update ring_wf_def)
qed (use assms in \<open>auto simp: tracked_def nth_list_update ring_wf_def vec_get_def setStatusActive_def setStatusPassive_def split: bind_splits if_splits\<close>)

subsection \<open>Detection is right\<close>

text \<open>
  What is known about the managers in a phase, given the states \<open>H\<close> that the ring has gone through: in the first round a manager that the
  token has passed and that has not been active since is passive; in the second round there was a moment at which all managers that the token has
  passed, and those that have not been active since the first round, were passive at once.
\<close>

definition reportsIdle :: "terminationRing \<Rightarrow> nat \<Rightarrow> bool" where
  "reportsIdle s i \<longleftrightarrow> mySimManagerStatus (ring s ! i) = IDLE"

fun known :: "nat \<Rightarrow> terminationRing set \<Rightarrow> phase \<Rightarrow> terminationRing \<Rightarrow> bool" where
  "known n H (Round st t r) s \<longleftrightarrow>
     (if st = FIRST_CYCLE then \<forall>i < n. passed n t r i \<and> idle_flags s i \<longrightarrow> reportsIdle s i
      else \<exists>q \<in> H. \<forall>i < n. passed n t r i \<or> idle_flags s i \<longrightarrow> reportsIdle q i)"
| "known n H (Ending t r) s \<longleftrightarrow> (\<exists>q \<in> H. \<forall>i < n. reportsIdle q i)"
| "known n H (Ended t) s \<longleftrightarrow> (\<exists>q \<in> H. \<forall>i < n. reportsIdle q i)"
| "known n H p s \<longleftrightarrow> True"

lemma known_mono: "known n H p s \<Longrightarrow> H \<subseteq> K \<Longrightarrow> known n K p s"
  by (cases p) (auto split: if_splits)

lemma known_other:
  assumes "known n H p s" and "tracked n a s s'" and "\<nexists>k. a = Deliver k" and "2 \<le> n" and "in_phase p s" "length (ring s) = n"
  shows "known n (insert s' H) (next_phase n (idle_flags s) a p) s'"
proof -
  have f: "idle_flags s' i \<longrightarrow> idle_flags s i \<and> (reportsIdle s i \<longrightarrow> reportsIdle s' i)" if "i < n" for i
    using assms(2,3) that by (cases a) (auto simp: tracked_def reportsIdle_def split: if_splits)
  have "known n (insert s' H) p s'"
  proof (cases p)
    case (Round st t r)
    with assms(1) f show ?thesis by (cases "st = FIRST_CYCLE") auto
  qed (use assms(1) in auto)
  moreover have "next_phase n (idle_flags s) a p = p \<or> (\<exists>t < n. next_phase n (idle_flags s) a p = Round FIRST_CYCLE t (peer_of n t))"
    using assms(3,5,6) by (cases a; cases p) auto
  ultimately show ?thesis using passed_start [OF assms(4)] by auto
qed

lemma known_deliver:
  assumes k: "known n H p s" and "tracked n (Deliver k) s s'" and p: "in_phase p s" and "valid (Deliver k) s"
    and n: "2 \<le> n" "length (ring s) = n"
  shows "known n (insert s' H) (next_phase n (idle_flags s) (Deliver k) p) s'"
proof (cases p)
  case (Round st t r)
  have tr: "t < n" "r < n" "st = FIRST_CYCLE \<or> st = SECOND_CYCLE" "tk_receiver (transit s ! k) = r"
    using assms Round by auto
  have f: "reportsIdle s' i \<longleftrightarrow> reportsIdle s i" "idle_flags s' i \<longleftrightarrow> (if i = r then reportsIdle s i else idle_flags s i)" if "i < n" for i
    using assms(2) that tr(4) by (auto simp: tracked_def reportsIdle_def) (metis simMgrIdleStatus.exhaust)+
  note q = passed_peer [OF n(1) tr(1,2)] passed_start [OF n(1) tr(1)] passed_all [OF n(1) tr(1)]
  show ?thesis
  proof (cases "st = FIRST_CYCLE")
    case True
    then show ?thesis using Round k f q by (cases "r = t") auto
  next
    case False
    then obtain w where w: "w \<in> H" "\<forall>i < n. passed n t r i \<or> idle_flags s i \<longrightarrow> reportsIdle w i" using k Round by auto
    then show ?thesis using Round False f q tr by (cases "r = t") auto
  qed
qed (use assms in auto)

lemma ring_do_valid: "ring_do a s = Some s' \<Longrightarrow> valid a s"
  by (cases a) (auto simp: vec_get_def split: bind_splits if_splits)

declare ring_do.simps [simp del]

lemma ring_run_known:
  assumes "ring_wf n s" "in_phase p s" "known n H p s" "ring_run as s = Some s'"
  shows "\<exists>p'. ring_wf n s' \<and> in_phase p' s' \<and> known n (H \<union> {q. \<exists>k. ring_run (take k as) s = Some q}) p' s'"
  using assms
proof (induction as arbitrary: s p H)
  case Nil
  then show ?case using known_mono [OF Nil.prems(3) subset_insertI, of s] by auto
next
  case (Cons a as)
  from Cons.prems(4) obtain s1 where s1: "ring_do a s = Some s1" "ring_run as s1 = Some s'" by (auto split: bind_splits)
  let ?p = "next_phase n (idle_flags s) a p"
  have n: "2 \<le> n" "length (ring s) = n" using Cons.prems(1) by (simp_all add: ring_wf_def)
  have v: "valid a s" using ring_do_valid [OF s1(1)] .
  have t: "tracked n a s s1" using ring_do_tracked [OF Cons.prems(1) s1(1)] by simp
  have p: "ring_wf n s1" "in_phase ?p s1" using ring_do_next [OF Cons.prems(1,2) v] s1(1) by auto
  have "known n (insert s1 H) ?p s1"
    using known_other [OF Cons.prems(3) t _ n(1) Cons.prems(2) n(2)] known_deliver [OF Cons.prems(3) _ Cons.prems(2) _ n] t v
    by (cases a) auto
  from Cons.IH [OF p this s1(2)] obtain p' where p': "ring_wf n s'" "in_phase p' s'"
    "known n (insert s1 H \<union> {q. \<exists>k. ring_run (take k as) s1 = Some q}) p' s'" by blast
  have e: "ring_run (take (Suc k) (a # as)) s = ring_run (take k as) s1" for k using s1(1) by simp
  have "\<exists>k. ring_run (take k (a # as)) s = Some s1" using e [of 0] by (intro exI [of _ "Suc 0"]) simp
  moreover have "\<exists>k. ring_run (take k (a # as)) s = Some q" if "ring_run (take k as) s1 = Some q" for k q using e [of k] that by metis
  ultimately have "insert s1 H \<union> {q. \<exists>k. ring_run (take k as) s1 = Some q} \<subseteq> H \<union> {q. \<exists>k. ring_run (take k (a # as)) s = Some q}"
    by blast
  from p'(1,2) known_mono [OF p'(3) this] show ?case by blast
qed

lemma those_map: "(\<And>x. x \<in> set xs \<Longrightarrow> f x = Some (g x)) \<Longrightarrow> those (map f xs) = Some (map g xs)"
  by (induction xs) auto

lemma initialRing_ok:
  assumes "initialRing sts = Some s" and "2 \<le> length sts"
  shows "ring_wf (length sts) s" "in_phase (Resting 0) s"
proof -
  let ?n = "length sts"
  let ?m = "\<lambda>i. \<lparr>tm_id = i, myPeer = peer_of ?n i, tm_status = getTerminatorStatus i, simulationCompleteFlag = False,
       mySimManagerStatus = sts ! i, idleSinceLastTokenFlag = True\<rparr>"
  have "those (map (\<lambda>i. TokenPassingTerminationManager ?n i (sts ! i)) [0..<?n]) = Some (map ?m [0..<?n])"
    using assms(2) by (intro those_map) (auto simp: TokenPassingTerminationManager_def figureOutPeer_def peer_of_def)
  then have "s = \<lparr>ring = map ?m [0..<?n], transit = []\<rparr>" using assms(1) by (simp add: initialRing_def)
  then show "ring_wf ?n s" "in_phase (Resting 0) s"
    using assms(2) by (auto simp: ring_wf_def roles_def getTerminatorStatus_def)
qed

lemma reached_phase:
  assumes "initialRing sts = Some s0" and "2 \<le> length sts" and "ring_run acts s0 = Some s"
  shows "\<exists>p. ring_wf (length sts) s \<and> in_phase p s \<and> known (length sts) {q. \<exists>k. ring_run (take k acts) s0 = Some q} p s"
  using ring_run_known [OF initialRing_ok [OF assms(1,2)] _ assms(3), of "{}"] by simp

text \<open>C15: termination is not announced out of thin air: if, in any run of the ring, a manager is told that the simulation is complete, then at
  some moment of the run all managers were passive at once, as far as they had reported their status. The run may deliver tokens and report
  statuses in any order.\<close>

theorem termination_common_idle:
  assumes "initialRing sts = Some s0" and "2 \<le> length sts" and "ring_run acts s0 = Some s"
    and "i < length sts" and "simulationCompleteFlag (ring s ! i)"
  shows "\<exists>k q. ring_run (take k acts) s0 = Some q \<and> (\<forall>j < length sts. mySimManagerStatus (ring q ! j) = IDLE)"
proof -
  obtain p where p: "ring_wf (length sts) s" "in_phase p s" "known (length sts) {q. \<exists>k. ring_run (take k acts) s0 = Some q} p s"
    using reached_phase [OF assms(1-3)] by blast
  have "length (ring s) = length sts" using p(1) by (simp add: ring_wf_def)
  then have "\<exists>t r. p = Ending t r \<or> p = Ended t" using p(2) assms(4,5) by (cases p) (auto simp: roles_def)
  then have "\<exists>q \<in> {q. \<exists>k. ring_run (take k acts) s0 = Some q}. \<forall>i < length sts. reportsIdle q i"
    using p(3) by (elim exE disjE) (simp_all only: known.simps)
  then show ?thesis unfolding reportsIdle_def by blast
qed

text \<open>A run in which manager 1 taints the first token, becomes the terminator and detects the end.\<close>

definition ex_ring :: terminationRing where
  "ex_ring = \<lparr>ring = [
     \<lparr>tm_id = 0, myPeer = 1, tm_status = TERMINATOR_IDLE, simulationCompleteFlag = False, mySimManagerStatus = ACTIVE, idleSinceLastTokenFlag = True\<rparr>,
     \<lparr>tm_id = 1, myPeer = 0, tm_status = SLAVE, simulationCompleteFlag = False, mySimManagerStatus = ACTIVE, idleSinceLastTokenFlag = True\<rparr>],
     transit = []\<rparr>"

definition ex_actions :: "ringAction list" where
  "ex_actions = [Passive 0, Active 1, Ask 0, Deliver 0, Deliver 0, Deliver 0, Passive 1, Ask 1, Deliver 0, Deliver 0,
     Ask 1, Deliver 0, Deliver 0, Deliver 0, Deliver 0, Deliver 0, Deliver 0]"

lemma ex_ring_initial: "initialRing [ACTIVE, ACTIVE] = Some ex_ring" by code_simp

theorem termination_common_idle_witness:
  "\<exists>k q. ring_run (take k ex_actions) ex_ring = Some q \<and> (\<forall>j < 2. mySimManagerStatus (ring q ! j) = IDLE)"
proof -
  have "ring_run ex_actions ex_ring \<noteq> None \<and> simulationCompleteFlag (ring (the (ring_run ex_actions ex_ring)) ! 0)" by code_simp
  then have "ring_run ex_actions ex_ring = Some (the (ring_run ex_actions ex_ring))"
    "simulationCompleteFlag (ring (the (ring_run ex_actions ex_ring)) ! 0)" by simp_all
  from termination_common_idle [OF ex_ring_initial _ this(1) _ this(2)] show ?thesis by (simp add: numeral_2_eq_2)
qed

text \<open>C19: in every reachable state of the ring at most one token is in transit and at most one manager is the terminator; no delivery of a token and
  no call of the simulation manager fails an assertion or aborts.\<close>

theorem termination_ring_safe:
  assumes "initialRing sts = Some s0" and "2 \<le> length sts" and "ring_run acts s0 = Some s"
  shows "length (transit s) \<le> 1 \<and>
    (\<forall>i < length sts. \<forall>j < length sts. amTerminator (ring s ! i) \<and> amTerminator (ring s ! j) \<longrightarrow> i = j) \<and>
    (\<forall>a. valid a s \<longrightarrow> (\<exists>s'. ring_do a s = Some s'))"
proof -
  obtain p where p: "ring_wf (length sts) s" "in_phase p s" using reached_phase [OF assms] by blast
  have n: "length (ring s) = length sts" using p(1) by (simp add: ring_wf_def)
  have "length (transit s) \<le> 1" using p(2) by (cases p) auto
  moreover have "i = j" if "i < length sts" "j < length sts" "amTerminator (ring s ! i)" "amTerminator (ring s ! j)" for i j
    using p(2) that n by (cases p) (auto simp: amTerminator_def roles_def split: if_splits)
  moreover have "\<exists>s'. ring_do a s = Some s'" if "valid a s" for a using ring_do_next [OF p that] by blast
  ultimately show ?thesis by blast
qed

theorem termination_ring_safe_witness:
  "length (transit (the (ring_run (take 5 ex_actions) ex_ring))) \<le> 1 \<and>
   (\<exists>s'. ring_do (Deliver 0) (the (ring_run (take 5 ex_actions) ex_ring)) = Some s')"
proof -
  let ?s = "the (ring_run (take 5 ex_actions) ex_ring)"
  have "ring_run (take 5 ex_actions) ex_ring \<noteq> None \<and> valid (Deliver 0) ?s" by code_simp
  then have r: "ring_run (take 5 ex_actions) ex_ring = Some ?s" "valid (Deliver 0) ?s" by simp_all
  then show ?thesis using termination_ring_safe [OF ex_ring_initial _ r(1)] by (simp del: valid.simps)
qed

subsection \<open>Detection happens\<close>






text \<open>a manager that has not yet reported anything counts as idle: the constructor sets \<open>idleSinceLastTokenFlag\<close> and leaves
  \<open>mySimManagerStatus\<close> as it finds it. If that value is not \<open>ACTIVE\<close>, tokens that arrive while the managers are still in their
  first \<open>executeObjects\<close>, before any of them has reported, end the simulation at all of them.\<close>

theorem termination_before_first_report:
  "map_option (\<lambda>s. map simulationCompleteFlag (ring s))
     (Option.bind (initialRing [IDLE, IDLE]) (ring_run (Ask 0 # replicate 5 (Deliver 0)))) = Some [True, True]"
  by code_simp

end
