(* ===== verification/EventList.thy ===== *)
theory EventList
  imports Events
begin

text \<open>
  The interface \<open>EventSet.h\<close> of the event lists of a sequential simulation: its virtual operations, and the contract that its
  implementations keep: \<open>peekEvent\<close> shows an event with the least receive time without changing the contents, and \<open>getEvent\<close> takes out
  the event that \<open>peekEvent\<close> shows.
\<close>

record ('t, 'es) eventSetOps =
  es_insert :: "'t event \<Rightarrow> 'es \<Rightarrow> 'es option"
  es_getEvent :: "'es \<Rightarrow> ('es \<times> 't event option) option"
  es_peekEvent :: "'es \<Rightarrow> ('es \<times> 't event option) option"
  es_cleanUp :: "'es \<Rightarrow> 'es"

definition shows_first :: "('t :: linorder) event multiset \<Rightarrow> 't event option \<Rightarrow> bool" where
  "shows_first M r \<longleftrightarrow> (case r of None \<Rightarrow> M = {#} | Some e \<Rightarrow> e \<in># M \<and> (\<forall>x \<in># M. receiveTime e \<le> receiveTime x))"

locale event_list =
  fixes ops :: "('t :: linorder, 'es) eventSetOps"
    and inv :: "'es \<Rightarrow> bool"
    and contents :: "'es \<Rightarrow> 't event multiset"
    and first :: "'es \<Rightarrow> 't event option"
  assumes first: "inv q \<Longrightarrow> shows_first (contents q) (first q)"
    and insert: "inv q \<Longrightarrow> \<exists>q'. es_insert ops e q = Some q' \<and> inv q' \<and> contents q' = add_mset e (contents q)"
    and peek: "inv q \<Longrightarrow> \<exists>q'. es_peekEvent ops q = Some (q', first q) \<and> inv q' \<and> contents q' = contents q \<and> first q' = first q"
    and get: "inv q \<Longrightarrow> \<exists>q'. es_getEvent ops q = Some (q', first q) \<and> inv q' \<and>
      contents q' = (case first q of None \<Rightarrow> contents q | Some e \<Rightarrow> contents q - {#e#})"
    and clean: "inv q \<Longrightarrow> inv (es_cleanUp ops q) \<and> contents (es_cleanUp ops q) = contents q"
begin

text \<open>Successive \<open>getEvent\<close>s return the events in the order of their receive times, until nothing is left.\<close>

primrec drain :: "nat \<Rightarrow> 'es \<Rightarrow> ('es \<times> 't event list) option" where
  "drain 0 q = Some (q, [])"
| "drain (Suc n) q = Option.bind (es_getEvent ops q) (\<lambda>(q', r).
     case r of None \<Rightarrow> Some (q', []) | Some e \<Rightarrow> map_option (\<lambda>(q'', es). (q'', e # es)) (drain n q'))"

lemma drain_sorted:
  assumes "inv q" and "size (contents q) \<le> n"
  shows "\<exists>q' es. drain n q = Some (q', es) \<and> inv q' \<and> contents q' = {#} \<and> mset es = contents q \<and> sorted (map receiveTime es)"
  using assms
proof (induction n arbitrary: q)
  case (Suc n)
  obtain q' where q': "es_getEvent ops q = Some (q', first q)" "inv q'"
    "contents q' = (case first q of None \<Rightarrow> contents q | Some e \<Rightarrow> contents q - {#e#})" using get [OF Suc.prems(1)] by blast
  show ?case
  proof (cases "first q")
    case None
    then show ?thesis using q' first [OF Suc.prems(1)] by (simp add: shows_first_def)
  next
    case (Some e)
    have e: "e \<in># contents q" "\<forall>x \<in># contents q. receiveTime e \<le> receiveTime x"
      using first [OF Suc.prems(1)] Some by (simp_all add: shows_first_def)
    have "size (contents q') \<le> n" using Suc.prems(2) q'(3) Some e(1) by (simp add: size_Diff_singleton)
    then obtain q2 es where r: "drain n q' = Some (q2, es)" "inv q2" "contents q2 = {#}" "mset es = contents q'" "sorted (map receiveTime es)"
      using Suc.IH [OF q'(2)] by blast
    have "set es \<subseteq> set_mset (contents q)" using r(4) q'(3) Some by (metis in_diffD mset_subset_eqD option.simps(5) set_mset_mset subsetI)
    then show ?thesis using q'(1,3) Some e r by auto
  qed
qed simp

end

end
