(* ===== verification/SplayTree.thy ===== *)
theory SplayTree
  imports EventList
begin

text \<open>
  The event list of the sequential simulation: \<open>SplayTree.cpp\<close> with \<open>TreeElement.h\<close>. The linked nodes are a tree whose nodes
  carry their addresses; a pointer is an address, and a pointer that is followed is looked up in the tree, \<open>None\<close> if the node is not
  there. The parent of a node is the node it hangs below; the parent pointer of the root is never read. Events are not null, as \<open>insert\<close>
  asserts.
\<close>

subsection \<open>Nodes and links\<close>

datatype 't treeElement = NIL | Element (leftTree: "'t treeElement") nat (infoNode: "'t event") (rightTree: "'t treeElement")
where
  "leftTree NIL = NIL"
| "rightTree NIL = NIL"

fun address :: "'t treeElement \<Rightarrow> nat option" where
  "address NIL = None"
| "address (Element l a e r) = Some a"

fun inorder :: "'t treeElement \<Rightarrow> (nat \<times> 't event) list" where
  "inorder NIL = []"
| "inorder (Element l a e r) = inorder l @ (a, e) # inorder r"

definition addresses :: "'t treeElement \<Rightarrow> nat set" where
  "addresses t = fst ` set (inorder t)"

text \<open>The node at an address, its parent, and a change of the node at an address.\<close>

fun deref :: "nat \<Rightarrow> 't treeElement \<Rightarrow> 't treeElement" where
  "deref a NIL = NIL"
| "deref a (Element l b e r) = (if a = b then Element l b e r else if deref a l \<noteq> NIL then deref a l else deref a r)"

fun getParentElement :: "nat \<Rightarrow> 't treeElement \<Rightarrow> nat option" where
  "getParentElement a NIL = None"
| "getParentElement a (Element l b e r) =
     (if address l = Some a \<or> address r = Some a then Some b
      else case getParentElement a l of Some p \<Rightarrow> Some p | None \<Rightarrow> getParentElement a r)"

fun changeAt :: "nat \<Rightarrow> ('t treeElement \<Rightarrow> 't treeElement) \<Rightarrow> 't treeElement \<Rightarrow> 't treeElement" where
  "changeAt a f NIL = NIL"
| "changeAt a f (Element l b e r) =
     (if a = b then f (Element l b e r) else Element (changeAt a f l) b e (changeAt a f r))"

definition isLeft :: "nat \<Rightarrow> nat \<Rightarrow> 't treeElement \<Rightarrow> bool" where
  "isLeft parent node t \<longleftrightarrow> address (leftTree (deref parent t)) = Some node"

fun leftmost :: "'t treeElement \<Rightarrow> nat option" where
  "leftmost NIL = None"
| "leftmost (Element l a e r) = (if l = NIL then Some a else leftmost l)"

subsection \<open>Rotations and splaying\<close>

fun rotL :: "'t treeElement \<Rightarrow> 't treeElement" where
  "rotL (Element a x e (Element b y f c)) = Element (Element a x e b) y f c"
| "rotL t = t"

fun rotR :: "'t treeElement \<Rightarrow> 't treeElement" where
  "rotR (Element (Element a x e b) y f c) = Element a x e (Element b y f c)"
| "rotR t = t"

definition rotateLeft :: "nat \<Rightarrow> 't treeElement \<Rightarrow> 't treeElement" where
  "rotateLeft treeItem t = changeAt treeItem rotL t"

definition rotateRight :: "nat \<Rightarrow> 't treeElement \<Rightarrow> 't treeElement" where
  "rotateRight treeItem t = changeAt treeItem rotR t"

text \<open>The loop of \<open>splay\<close>; the first argument is \<open>maxSplay - nsplay\<close>.\<close>

fun splayLoop :: "nat \<Rightarrow> nat \<Rightarrow> 't treeElement \<Rightarrow> 't treeElement option" where
  "splayLoop k node t =
     (if address t = Some node then Some t
      else do {
        parent \<leftarrow> getParentElement node t;
        if address t = Some parent then
          Some (if isLeft parent node t then rotateRight parent t else rotateLeft parent t)
        else do {
          grandParent \<leftarrow> getParentElement parent t;
          let t' = (case (isLeft parent node t, isLeft grandParent parent t) of
              (True, False) \<Rightarrow> rotateLeft grandParent (rotateRight parent t)
            | (False, True) \<Rightarrow> rotateRight grandParent (rotateLeft parent t)
            | (True, True) \<Rightarrow> rotateRight parent (rotateRight grandParent t)
            | (False, False) \<Rightarrow> rotateLeft parent (rotateLeft grandParent t));
          case k of 0 \<Rightarrow> Some t' | Suc k' \<Rightarrow> splayLoop k' node t' } })"

declare splayLoop.simps [simp del]

definition splay :: "int \<Rightarrow> nat \<Rightarrow> 't treeElement \<Rightarrow> 't treeElement option" where
  "splay numberOfElements node t = splayLoop (nat (numberOfElements div 2)) node t"

subsection \<open>Operations\<close>

record 't splayTree =
  root :: "'t treeElement"
  current :: "nat option"
  processedElements :: "'t event list"
  numberOfElements :: int
  nextElement :: nat

definition SplayTree :: "'t splayTree" where
  "SplayTree = \<lparr>root = NIL, current = None, processedElements = [], numberOfElements = 0, nextElement = 0\<rparr>"

definition CompareEvent :: "('t :: linorder) event \<Rightarrow> 't event \<Rightarrow> int" where
  "CompareEvent a b =
     (if receiveTime a = receiveTime b
      then (if receiver a > receiver b then 1 else if receiver a = receiver b then 0 else - 1)
      else (if receiveTime a > receiveTime b then 1 else - 1))"

text \<open>The search of \<open>insert\<close> from the root.\<close>

fun insertBelow :: "nat \<Rightarrow> ('t :: linorder) event \<Rightarrow> 't treeElement \<Rightarrow> 't treeElement" where
  "insertBelow a newElement NIL = Element NIL a newElement NIL"
| "insertBelow a newElement (Element l b e r) =
     (if CompareEvent newElement e \<le> 0 then Element (insertBelow a newElement l) b e r
      else Element l b e (insertBelow a newElement r))"

definition setLeft :: "'t treeElement \<Rightarrow> 't treeElement \<Rightarrow> 't treeElement" where
  "setLeft l t = (case t of NIL \<Rightarrow> NIL | Element _ a e r \<Rightarrow> Element l a e r)"

definition st_insert :: "('t :: linorder) event \<Rightarrow> 't splayTree \<Rightarrow> 't splayTree option" where
  "st_insert newElement s =
     (let a = nextElement s;
          n = numberOfElements s + 1;
          s' = s\<lparr>numberOfElements := n, nextElement := a + 1\<rparr>
      in if root s = NIL then Some (s'\<lparr>root := Element NIL a newElement NIL, current := Some a\<rparr>)
         else do {
           c \<leftarrow> current s;
           if deref c (root s) = NIL then None
           else if CompareEvent newElement (infoNode (deref c (root s))) \<le> 0 then do {
             t \<leftarrow> splay n a (changeAt c (setLeft (Element NIL a newElement NIL)) (root s));
             Some (s'\<lparr>root := t, current := Some a\<rparr>) }
           else do {
             t \<leftarrow> splay n a (insertBelow a newElement (root s));
             Some (s'\<lparr>root := t\<rparr>) } })"

definition st_getEvent :: "'t splayTree \<Rightarrow> ('t splayTree \<times> 't event option) option" where
  "st_getEvent s =
     (if root s = NIL then Some (s, None)
      else do {
        node \<leftarrow> current s;
        let nd = deref node (root s);
        if nd = NIL then None
        else do {
          (t, low) \<leftarrow>
            (if address (root s) = Some node then Some (rightTree (root s), leftmost (rightTree (root s)))
             else do {
               parent \<leftarrow> getParentElement node (root s);
               let t = changeAt parent (setLeft (rightTree nd)) (root s);
               Some (t, leftmost (deref parent t)) });
          Some (s\<lparr>root := t, current := low, processedElements := processedElements s @ [infoNode nd],
                  numberOfElements := numberOfElements s - 1\<rparr>, Some (infoNode nd)) } })"

definition st_peekEvent :: "'t splayTree \<Rightarrow> ('t splayTree \<times> 't event option) option" where
  "st_peekEvent s =
     (if root s = NIL \<or> numberOfElements s = 0
      then Some (s\<lparr>root := NIL, current := None, numberOfElements := 0\<rparr>, None)
      else do {
        let c = (case current s of None \<Rightarrow> leftmost (root s) | Some c \<Rightarrow> Some c);
        node \<leftarrow> c;
        if deref node (root s) = NIL then None
        else Some (s\<lparr>current := c\<rparr>, Some (infoNode (deref node (root s)))) })"

definition st_cleanUp :: "'t splayTree \<Rightarrow> 't splayTree" where
  "st_cleanUp s = s\<lparr>processedElements := []\<rparr>"

text \<open>The search of \<open>erase\<close> from a node, and the joining of the subtrees of the root.\<close>

fun search :: "('t :: linorder) event \<Rightarrow> 't treeElement \<Rightarrow> nat option" where
  "search delEvent NIL = None"
| "search delEvent (Element l a e r) =
     (if CompareEvent delEvent e < 0 then search delEvent l
      else if CompareEvent delEvent e = 0 then Some a
      else search delEvent r)"

fun appendRight :: "'t treeElement \<Rightarrow> 't treeElement \<Rightarrow> 't treeElement" where
  "appendRight NIL right = right"
| "appendRight (Element l a e r) right = Element l a e (appendRight r right)"

definition join :: "'t treeElement \<Rightarrow> 't treeElement \<Rightarrow> 't treeElement" where
  "join left right = (if left \<noteq> NIL then (if right \<noteq> NIL then appendRight left right else left) else right)"

definition st_erase :: "('t :: linorder) event \<Rightarrow> 't splayTree \<Rightarrow> 't splayTree option" where
  "st_erase delEvent s =
     (if root s = NIL then Some (s\<lparr>current := None\<rparr>)
      else case current s of
        None \<Rightarrow> Some (s\<lparr>current := leftmost (root s)\<rparr>)
      | Some c \<Rightarrow>
          if deref c (root s) = NIL then None
          else (case search delEvent (if CompareEvent delEvent (infoNode (deref c (root s))) \<le> 0 then deref c (root s) else root s) of
              None \<Rightarrow> Some s
            | Some node \<Rightarrow> do {
                t \<leftarrow> (if address (root s) = Some node then Some (root s) else splay (numberOfElements s) node (root s));
                if address t \<noteq> Some node then Some (s\<lparr>root := t\<rparr>)
                else do {
                  let t' = join (leftTree t) (rightTree t);
                  Some (s\<lparr>root := t', numberOfElements := numberOfElements s - 1,
                          current := (if t' = NIL then current s else leftmost t')\<rparr>) } }))"

subsection \<open>A node in its context\<close>

text \<open>The way from a node up to the root: whether the node is a left or a right child, and what else hangs below the parent.\<close>

datatype 't frame = LeftOf nat "'t event" "'t treeElement" | RightOf "'t treeElement" nat "'t event"

fun plug :: "'t frame list \<Rightarrow> 't treeElement \<Rightarrow> 't treeElement" where
  "plug [] t = t"
| "plug (LeftOf a e r # c) t = plug c (Element t a e r)"
| "plug (RightOf l a e # c) t = plug c (Element l a e t)"

fun parentAddr :: "'t frame \<Rightarrow> nat" where
  "parentAddr (LeftOf a e r) = a"
| "parentAddr (RightOf l a e) = a"

definition good :: "'t treeElement \<Rightarrow> bool" where
  "good t \<longleftrightarrow> distinct (map fst (inorder t))"

lemma addresses_simps [simp]:
  "addresses NIL = {}"
  "addresses (Element l a e r) = insert a (addresses l \<union> addresses r)"
  by (auto simp: addresses_def)

lemma good_simps [simp]:
  "good NIL"
  "good (Element l a e r) \<longleftrightarrow> good l \<and> good r \<and> a \<notin> addresses l \<and> a \<notin> addresses r \<and> addresses l \<inter> addresses r = {}"
  by (auto simp: good_def addresses_def)

lemma address_in: "address t = Some a \<Longrightarrow> a \<in> addresses t"
  by (cases t) auto

lemma address_absent: "a \<notin> addresses t \<Longrightarrow> address t \<noteq> Some a"
  using address_in by blast

lemma deref_absent: "a \<notin> addresses t \<longleftrightarrow> deref a t = NIL"
  by (induction t) auto

lemma changeAt_absent [simp]: "a \<notin> addresses t \<Longrightarrow> changeAt a f t = t"
  by (induction t) auto

lemma getParentElement_absent: "a \<notin> addresses t \<Longrightarrow> getParentElement a t = None"
  by (induction t) (auto dest: address_in split: option.splits)

lemma good_plug: "good (plug c t) \<Longrightarrow> good t"
  by (induction c t rule: plug.induct) auto

lemma good_frame:
  "good (plug c (Element t b e r)) \<Longrightarrow> a \<in> addresses t \<Longrightarrow> a \<notin> addresses r \<and> a \<noteq> b"
  "good (plug c (Element l b e t)) \<Longrightarrow> a \<in> addresses t \<Longrightarrow> a \<notin> addresses l \<and> a \<noteq> b"
  using good_plug [of c "Element t b e r"] good_plug [of c "Element l b e t"] by auto

lemma plug_deref: "good (plug c t) \<Longrightarrow> a \<in> addresses t \<Longrightarrow> deref a (plug c t) = deref a t"
  by (induction c t rule: plug.induct) (use deref_absent in \<open>auto dest: good_frame\<close>)

lemma plug_changeAt: "good (plug c t) \<Longrightarrow> a \<in> addresses t \<Longrightarrow> changeAt a f (plug c t) = plug c (changeAt a f t)"
  by (induction c t rule: plug.induct) (auto dest: good_frame)

lemma plug_parent:
  "good (plug c t) \<Longrightarrow> a \<in> addresses t \<Longrightarrow> address t \<noteq> Some a \<Longrightarrow> getParentElement a (plug c t) = getParentElement a t"
proof (induction c t rule: plug.induct)
  case (2 b e r c t)
  have "a \<noteq> b" "a \<notin> addresses r" using good_frame(1) [of c t b e r a] 2(2,3) by auto
  moreover have "address r \<noteq> Some a" using address_in [of r a] calculation(2) by blast
  ultimately show ?case using 2 getParentElement_absent [of a r] by (simp split: option.splits)
next
  case (3 l b e c t)
  have "a \<noteq> b" "a \<notin> addresses l" using good_frame(2) [of c l b e t a] 3(2,3) by auto
  moreover have "address l \<noteq> Some a" using address_in [of l a] calculation(2) by blast
  ultimately show ?case using 3 getParentElement_absent [of a l] by simp
qed simp

lemma plug_exists: "a \<in> addresses t \<Longrightarrow> \<exists>c l e r. t = plug c (Element l a e r)"
proof -
  have "\<exists>c' l e r. plug c t = plug c' (Element l a e r)" if "a \<in> addresses t" for c
    using that
  proof (induction t arbitrary: c)
    case (Element l b e r)
    consider "a = b" | "a \<in> addresses l" | "a \<in> addresses r" using Element.prems by auto
    then show ?case
    proof cases
      case 2
      then show ?thesis using Element.IH(1) [of "LeftOf b e r # c"] by auto
    next
      case 3
      then show ?thesis using Element.IH(2) [of "RightOf l b e # c"] by auto
    qed blast
  qed simp
  then show "a \<in> addresses t \<Longrightarrow> \<exists>c l e r. t = plug c (Element l a e r)" using plug.simps(1) by metis
qed

text \<open>The inorder list of a tree around a node depends on the subtree only through its own inorder list.\<close>

fun leftOf :: "'t frame list \<Rightarrow> (nat \<times> 't event) list" where
  "leftOf [] = []"
| "leftOf (LeftOf a e r # c) = leftOf c"
| "leftOf (RightOf l a e # c) = leftOf c @ inorder l @ [(a, e)]"

fun rightOf :: "'t frame list \<Rightarrow> (nat \<times> 't event) list" where
  "rightOf [] = []"
| "rightOf (LeftOf a e r # c) = (a, e) # inorder r @ rightOf c"
| "rightOf (RightOf l a e # c) = rightOf c"

lemma inorder_plug: "inorder (plug c t) = leftOf c @ inorder t @ rightOf c"
  by (induction c t rule: plug.induct) auto

lemma inorder_rotL [simp]: "inorder (rotL t) = inorder t"
  by (cases t rule: rotL.cases) simp_all

lemma inorder_rotR [simp]: "inorder (rotR t) = inorder t"
  by (cases t rule: rotR.cases) simp_all

lemma length_plug: "length c < length (inorder (plug c (Element l a e r)))"
proof -
  have "length c \<le> length (leftOf c) + length (rightOf c)" by (induction c rule: leftOf.induct) auto
  then show ?thesis by (simp add: inorder_plug)
qed

lemma plug_root: "c \<noteq> [] \<Longrightarrow> address (plug c t) = Some (parentAddr (last c))"
  by (induction c t rule: plug.induct) auto

lemma frame_above: "good (plug c t) \<Longrightarrow> c \<noteq> [] \<Longrightarrow> parentAddr (last c) \<notin> addresses t"
proof (induction c t rule: plug.induct)
  case (2 a e r c t)
  then show ?case using good_plug [of c "Element t a e r"] by (cases "c = []") auto
next
  case (3 l a e c t)
  then show ?case using good_plug [of c "Element l a e t"] by (cases "c = []") auto
qed simp

text \<open>An address below the top of a context is not the root of the whole tree.\<close>

lemma not_root: "good (plug c t) \<Longrightarrow> a \<in> addresses t \<Longrightarrow> address t \<noteq> Some a \<Longrightarrow> address (plug c t) \<noteq> Some a"
  using plug_root [of c t] frame_above [of c t] by (cases "c = []") auto

text \<open>The double rotations of one turn of \<open>splay\<close>, in the subtree of the grandparent.\<close>

definition splayStep :: "nat \<Rightarrow> nat \<Rightarrow> nat \<Rightarrow> 't treeElement \<Rightarrow> 't treeElement" where
  "splayStep node parent grandParent t = (case (isLeft parent node t, isLeft grandParent parent t) of
      (True, False) \<Rightarrow> rotateLeft grandParent (rotateRight parent t)
    | (False, True) \<Rightarrow> rotateRight grandParent (rotateLeft parent t)
    | (True, True) \<Rightarrow> rotateRight parent (rotateRight grandParent t)
    | (False, False) \<Rightarrow> rotateLeft parent (rotateLeft grandParent t))"

lemma inorder_changeAt: "(\<And>u. inorder (f u) = inorder u) \<Longrightarrow> inorder (changeAt a f t) = inorder t"
  by (induction t) auto

lemma inorder_rotate [simp]: "inorder (rotateLeft a t) = inorder t" "inorder (rotateRight a t) = inorder t"
  by (simp_all add: rotateLeft_def rotateRight_def inorder_changeAt)

lemma inorder_splayStep: "inorder (splayStep x p g t) = inorder t"
  by (simp add: splayStep_def split: bool.splits)

lemma addresses_inorder: "inorder t = inorder u \<Longrightarrow> addresses t = addresses u"
  by (simp add: addresses_def)

lemma good_inorder: "inorder t = inorder u \<Longrightarrow> good t = good u"
  by (simp add: good_def)

lemma plug_rotate:
  assumes "good (plug c t)" and "a \<in> addresses t"
  shows "rotateLeft a (plug c t) = plug c (rotateLeft a t)" "rotateRight a (plug c t) = plug c (rotateRight a t)"
  using plug_changeAt [OF assms] by (simp_all add: rotateLeft_def rotateRight_def)

lemma plug_splayStep:
  assumes g: "good (plug c t)" and "p \<in> addresses t" "q \<in> addresses t"
  shows "splayStep x p q (plug c t) = plug c (splayStep x p q t)"
proof -
  have r: "good (plug c (rotateLeft a t))" "good (plug c (rotateRight a t))" "addresses (rotateLeft a t) = addresses t"
    "addresses (rotateRight a t) = addresses t" for a
    using g by (simp_all add: good_def inorder_plug addresses_def)
  have "isLeft p x (plug c t) = isLeft p x t" "isLeft q p (plug c t) = isLeft q p t"
    using plug_deref [OF g] assms(2,3) by (simp_all add: isLeft_def)
  then show ?thesis using plug_rotate [OF g] plug_rotate [OF r(1)] plug_rotate [OF r(2)] assms(2,3) r(3,4)
    by (simp add: splayStep_def split: bool.splits)
qed

lemma splayStep_top:
  assumes "good (plug [f1, f2] (Element l x e r))"
  shows "address (splayStep x (parentAddr f1) (parentAddr f2) (plug [f1, f2] (Element l x e r))) = Some x"
  using assms
  by (cases f1; cases f2)
    (auto simp: splayStep_def isLeft_def rotateLeft_def rotateRight_def address_absent deref_absent [THEN iffD1] split: bool.splits)

lemma plug_two:
  "plug (f1 # f2 # c) t = plug (f2 # c) (plug [f1] t)"
  "plug (f1 # f2 # c) t = plug c (plug [f1, f2] t)"
  "plug [f1, f2] t = plug [f2] (plug [f1] t)"
  by (cases f1; cases f2; simp)+

lemma frame_parent:
  assumes "good (plug [f] t)" and "address t = Some x"
  shows "getParentElement x (plug [f] t) = Some (parentAddr f)" "address (plug [f] t) = Some (parentAddr f)"
    "parentAddr f \<noteq> x" "x \<in> addresses (plug [f] t)"
  using assms address_in [OF assms(2)] by (cases f; auto)+

lemma splayLoop_parents:
  assumes g: "good u" and u: "u = plug (f1 # f2 # c) t" and x: "address t = Some x"
  shows "address u \<noteq> Some x" "getParentElement x u = Some (parentAddr f1)" "address u \<noteq> Some (parentAddr f1)"
    "getParentElement (parentAddr f1) u = Some (parentAddr f2)"
    "parentAddr f1 \<in> addresses (plug [f1, f2] t)" "parentAddr f2 \<in> addresses (plug [f1, f2] t)"
proof -
  define v where "v = plug [f1] t"
  define w where "w = plug [f2] v"
  have uv: "u = plug (f2 # c) v" unfolding u v_def by (rule plug_two(1))
  have uw: "u = plug c w" unfolding u w_def v_def plug_two(3) [symmetric] by (rule plug_two(2))
  have gw: "good w" using g good_plug uw by blast
  then have gv: "good v" using good_plug w_def by blast
  note P = frame_parent [OF gv [unfolded v_def] x, folded v_def]
  note Q = frame_parent [OF gw [unfolded w_def] P(2), folded w_def]
  show "getParentElement x u = Some (parentAddr f1)" using plug_parent [of "f2 # c" v x] g uv P by simp
  show "getParentElement (parentAddr f1) u = Some (parentAddr f2)" using plug_parent [of c w "parentAddr f1"] g uw Q by simp
  show "address u \<noteq> Some x" using not_root [of "f2 # c" v x] g uv P by simp
  show "address u \<noteq> Some (parentAddr f1)" using not_root [of c w "parentAddr f1"] g uw Q by simp
  show "parentAddr f1 \<in> addresses (plug [f1, f2] t)" "parentAddr f2 \<in> addresses (plug [f1, f2] t)"
    unfolding plug_two(3) using Q(4) address_in [OF Q(2)] by (simp_all add: w_def v_def)
qed

lemma splayLoop_turn:
  assumes g: "good (plug (f1 # f2 # c) t)" and x: "address t = Some x"
    and n: "n = splayStep x (parentAddr f1) (parentAddr f2) (plug [f1, f2] t)"
  shows "splayLoop k x (plug (f1 # f2 # c) t) = (case k of 0 \<Rightarrow> Some (plug c n) | Suc k' \<Rightarrow> splayLoop k' x (plug c n))"
    and "address n = Some x" and "inorder (plug c n) = inorder (plug (f1 # f2 # c) t)"
proof -
  define u where "u = plug (f1 # f2 # c) t"
  note p = splayLoop_parents [OF g refl x, folded u_def]
  have u: "u = plug c (plug [f1, f2] t)" unfolding u_def by (rule plug_two(2))
  have "splayStep x (parentAddr f1) (parentAddr f2) u = plug c n"
    unfolding n u by (rule plug_splayStep) (use g u p(5,6) in \<open>simp_all add: u_def\<close>)
  then show "splayLoop k x (plug (f1 # f2 # c) t) = (case k of 0 \<Rightarrow> Some (plug c n) | Suc k' \<Rightarrow> splayLoop k' x (plug c n))"
    unfolding u_def [symmetric] using p(1-4)
    by (simp add: splayLoop.simps [of k] Let_def splayStep_def split: nat.splits)
  obtain l e r where t: "t = Element l x e r" using x by (cases t) auto
  have "good (plug [f1, f2] t)" using g good_plug u u_def by metis
  then show "address n = Some x" unfolding n t by (rule splayStep_top)
  show "inorder (plug c n) = inorder (plug (f1 # f2 # c) t)"
    unfolding n plug_two(2) [of f1 f2 c] inorder_plug [of c] inorder_splayStep ..
qed

lemma splayLoop_single:
  assumes "good (plug [f] t)" and "address t = Some x"
  shows "\<exists>t'. splayLoop k x (plug [f] t) = Some t' \<and> address t' = Some x \<and> inorder t' = inorder (plug [f] t)"
proof -
  have "address (if isLeft (parentAddr f) x (plug [f] t) then rotateRight (parentAddr f) (plug [f] t)
        else rotateLeft (parentAddr f) (plug [f] t)) = Some x"
    using assms address_absent by (cases f; cases t) (auto simp: isLeft_def rotateLeft_def rotateRight_def)
  then show ?thesis using frame_parent [OF assms] by (simp add: splayLoop.simps)
qed

lemma splayLoop_root: "address t = Some x \<Longrightarrow> splayLoop k x t = Some t"
  by (simp add: splayLoop.simps)

text \<open>Splaying ends with the node at the root if the number of turns that is allowed covers the depth of the node.\<close>

lemma splayLoop_ok:
  assumes "good (plug c t)" and "address t = Some x" and "length c \<le> 2 * k + 2"
  shows "\<exists>t'. splayLoop k x (plug c t) = Some t' \<and> address t' = Some x \<and> inorder t' = inorder (plug c t)"
  using assms
proof (induction k arbitrary: c t)
  case 0
  consider "c = []" | f1 where "c = [f1]" | f1 f2 where "c = [f1, f2]"
    using 0(3) by (cases c; cases "tl c") auto
  then show ?case
  proof cases
    case (3 f1 f2)
    then show ?thesis using splayLoop_turn(1) [OF 0(1) [unfolded 3] 0(2) refl, of 0]
        splayLoop_turn(2,3) [OF 0(1) [unfolded 3] 0(2) refl] by simp
  qed (use 0 splayLoop_single in \<open>auto simp: splayLoop_root\<close>)
next
  case (Suc k)
  consider "c = []" | f1 where "c = [f1]" | f1 f2 c' where "c = f1 # f2 # c'" by (cases c; cases "tl c") auto
  then show ?case
  proof cases
    case (3 f1 f2 c')
    let ?n = "splayStep x (parentAddr f1) (parentAddr f2) (plug [f1, f2] t)"
    note turn = splayLoop_turn(1) [OF Suc.prems(1) [unfolded 3] Suc.prems(2) refl, of "Suc k"]
      splayLoop_turn(2,3) [OF Suc.prems(1) [unfolded 3] Suc.prems(2) refl]
    have "good (plug c' ?n)" using Suc.prems(1) turn(3) good_inorder 3 by metis
    then obtain t' where "splayLoop k x (plug c' ?n) = Some t'" "address t' = Some x" "inorder t' = inorder (plug c' ?n)"
      using Suc.IH [of c' ?n] turn(2) Suc.prems(3) 3 by auto
    then show ?thesis using turn(1,3) 3 by simp
  qed (use Suc.prems splayLoop_single in \<open>auto simp: splayLoop_root\<close>)
qed

lemma splay_ok:
  assumes "good t" and "a \<in> addresses t" and "int (length (inorder t)) \<le> n"
  shows "\<exists>t'. splay n a t = Some t' \<and> address t' = Some a \<and> inorder t' = inorder t"
proof -
  obtain c l e r where t: "t = plug c (Element l a e r)" using plug_exists [OF assms(2)] by blast
  have "length c < nat n" using length_plug [of c l a e r] assms(3) unfolding t by linarith
  then have "length c \<le> 2 * nat (n div 2) + 2" by linarith
  then show ?thesis unfolding splay_def t using splayLoop_ok [of c "Element l a e r"] assms(1) t by simp
qed

subsection \<open>The list of events\<close>

definition st_events :: "'t splayTree \<Rightarrow> 't event list" where
  "st_events s = map snd (inorder (root s))"

text \<open>The order of the tree; equal events are those with the same receive time and receiver.\<close>

abbreviation notAfter :: "('t :: linorder) event \<Rightarrow> 't event \<Rightarrow> bool" where
  "notAfter a b \<equiv> CompareEvent a b \<le> 0"

lemma CompareEvent_trans: "notAfter a b \<Longrightarrow> notAfter b c \<Longrightarrow> notAfter a c"
  by (auto simp: CompareEvent_def split: if_splits)

lemma CompareEvent_total: "\<not> notAfter a b \<Longrightarrow> notAfter b a"
  by (auto simp: CompareEvent_def split: if_splits)

lemma CompareEvent_flip: "CompareEvent b a = - CompareEvent a b"
  by (auto simp: CompareEvent_def)

lemma CompareEvent_refl [simp]: "CompareEvent a a = 0"
  by (simp add: CompareEvent_def)

definition st_inv :: "('t :: linorder) splayTree \<Rightarrow> bool" where
  "st_inv s \<longleftrightarrow> good (root s) \<and> (\<forall>a \<in> addresses (root s). a < nextElement s) \<and>
     numberOfElements s = int (length (inorder (root s))) \<and>
     (root s \<noteq> NIL \<longrightarrow> current s = leftmost (root s)) \<and> sorted_wrt notAfter (st_events s)"

text \<open>The specification of \<open>insert\<close>: before the first event that is not earlier.\<close>

definition insertFirst :: "('t :: linorder) event \<Rightarrow> 't event list \<Rightarrow> 't event list" where
  "insertFirst e xs = takeWhile (\<lambda>x. \<not> notAfter e x) xs @ e # dropWhile (\<lambda>x. \<not> notAfter e x) xs"

lemma leftmost_inorder: "leftmost t = (case inorder t of [] \<Rightarrow> None | x # _ \<Rightarrow> Some (fst x))"
proof (induction t)
  case (Element l a e r)
  then show ?case by (cases l; cases "inorder l") (auto split: list.splits)
qed simp

lemma inorder_NIL [simp]: "inorder t = [] \<longleftrightarrow> t = NIL"
  by (cases t) auto

lemma deref_event: "good t \<Longrightarrow> (a, e) \<in> set (inorder t) \<Longrightarrow> \<exists>l r. deref a t = Element l a e r"
proof (induction t)
  case (Element l b f r)
  have "a \<in> addresses u" if "(a, e) \<in> set (inorder u)" for u :: "'a treeElement" using that by (force simp: addresses_def)
  then show ?case using Element deref_absent [of a l] by (auto split: if_splits)
qed simp

lemma insertBelow_split:
  assumes "sorted_wrt notAfter (map snd (inorder t))"
  shows "\<exists>xs ys. inorder t = xs @ ys \<and> inorder (insertBelow a e t) = xs @ (a, e) # ys \<and>
    (\<forall>x \<in> set xs. \<not> notAfter e (snd x)) \<and> (\<forall>y \<in> set ys. notAfter e (snd y))"
  using assms
proof (induction t)
  case (Element l b f r)
  have s: "sorted_wrt notAfter (map snd (inorder l))" "sorted_wrt notAfter (map snd (inorder r))"
    "\<forall>x \<in> set (inorder l). notAfter (snd x) f" "\<forall>y \<in> set (inorder r). notAfter f (snd y)"
    using Element.prems by (auto simp: sorted_wrt_append)
  show ?case
  proof (cases "notAfter e f")
    case True
    obtain xs ys where "inorder l = xs @ ys" "inorder (insertBelow a e l) = xs @ (a, e) # ys"
      "\<forall>x \<in> set xs. \<not> notAfter e (snd x)" "\<forall>y \<in> set ys. notAfter e (snd y)" using Element.IH(1) [OF s(1)] by blast
    moreover have "\<forall>y \<in> set (inorder r). notAfter e (snd y)" using s(4) True CompareEvent_trans by blast
    ultimately show ?thesis using True by (intro exI [of _ xs] exI [of _ "ys @ (b, f) # inorder r"]) auto
  next
    case False
    obtain xs ys where "inorder r = xs @ ys" "inorder (insertBelow a e r) = xs @ (a, e) # ys"
      "\<forall>x \<in> set xs. \<not> notAfter e (snd x)" "\<forall>y \<in> set ys. notAfter e (snd y)" using Element.IH(2) [OF s(2)] by blast
    moreover have "\<forall>x \<in> set (inorder l). \<not> notAfter e (snd x)" using s(3) False CompareEvent_trans by blast
    ultimately show ?thesis using False by (intro exI [of _ "inorder l @ (b, f) # xs"] exI [of _ ys]) auto
  qed
qed simp

lemma insertFirst_split:
  assumes "\<forall>x \<in> set xs. \<not> notAfter e x" and "\<forall>y \<in> set ys. notAfter e y"
  shows "insertFirst e (xs @ ys) = xs @ e # ys"
  using assms by (cases ys) (auto simp: insertFirst_def takeWhile_append2 dropWhile_append2)

lemma sorted_insert:
  assumes "sorted_wrt notAfter (xs @ ys)" "\<forall>x \<in> set xs. \<not> notAfter e x" "\<forall>y \<in> set ys. notAfter e y"
  shows "sorted_wrt notAfter (xs @ e # ys)"
  using assms CompareEvent_total by (auto simp: sorted_wrt_append)

text \<open>A tree into which one element has been put, and which has then been splayed.\<close>

lemma inserted_inv:
  assumes inv: "st_inv s" and split: "inorder (root s) = xs @ ys"
    and u: "inorder u = xs @ (nextElement s, e) # ys"
    and k: "\<forall>x \<in> set xs. \<not> notAfter e (snd x)" "\<forall>y \<in> set ys. notAfter e (snd y)"
    and c: "c = (if xs = [] then Some (nextElement s) else leftmost (root s))"
  shows "\<exists>t. splay (numberOfElements s + 1) (nextElement s) u = Some t \<and>
    (let s' = s\<lparr>numberOfElements := numberOfElements s + 1, nextElement := nextElement s + 1, root := t, current := c\<rparr> in
      st_inv s' \<and> st_events s' = insertFirst e (st_events s))"
proof -
  have new: "nextElement s \<notin> addresses (root s)" using inv unfolding st_inv_def by blast
  have gu: "good u" "nextElement s \<in> addresses u" using inv new u split by (auto simp: st_inv_def good_def addresses_def)
  have "int (length (inorder u)) \<le> numberOfElements s + 1" using inv u split by (simp add: st_inv_def)
  then obtain t where t: "splay (numberOfElements s + 1) (nextElement s) u = Some t" "inorder t = inorder u"
    using splay_ok [OF gu] by blast
  have "addresses t = insert (nextElement s) (addresses (root s))" using t(2) u split by (auto simp: addresses_def)
  then have "\<forall>a \<in> addresses t. a < nextElement s + 1" using inv by (auto simp: st_inv_def)
  moreover have ev: "map snd (inorder t) = map snd xs @ e # map snd ys" using t(2) u by simp
  moreover have "sorted_wrt notAfter (map snd xs @ e # map snd ys)"
    using inv k split by (intro sorted_insert) (auto simp: st_inv_def st_events_def)
  moreover have "leftmost t = c" using c t(2) u split by (cases xs) (auto simp: leftmost_inorder)
  moreover have "good t" using gu(1) t(2) good_inorder by blast
  moreover have "insertFirst e (st_events s) = map snd xs @ e # map snd ys"
    unfolding st_events_def split map_append using k by (intro insertFirst_split) auto
  ultimately show ?thesis using t inv u split by (auto simp: st_inv_def st_events_def Let_def)
qed

lemma leftmost_in: "leftmost t = Some c \<Longrightarrow> c \<in> addresses t"
  by (induction t) (auto split: if_splits)

lemma leftmost_setLeft:
  assumes "good t" and "leftmost t = Some c"
  shows "inorder (changeAt c (setLeft (Element NIL a e NIL)) t) = (a, e) # inorder t"
  using assms
proof (induction t)
  case (Element l b f r)
  show ?case
  proof (cases "l = NIL")
    case False
    then have c: "c \<in> addresses l" "leftmost l = Some c" using Element.prems(2) leftmost_in [of l c] by simp_all
    then have "c \<notin> addresses r" using Element.prems(1) by auto
    then show ?thesis using Element c by auto
  qed (use Element.prems in \<open>simp add: setLeft_def\<close>)
qed simp

lemma st_insert_ok:
  assumes inv: "st_inv s"
  shows "\<exists>s'. st_insert e s = Some s' \<and> st_inv s' \<and> st_events s' = insertFirst e (st_events s)"
proof (cases "root s = NIL")
  case True
  then show ?thesis using inv by (auto simp: st_insert_def st_inv_def st_events_def insertFirst_def Let_def)
next
  case False
  then obtain a f xs where io: "inorder (root s) = (a, f) # xs" by (metis inorder_NIL neq_Nil_conv surj_pair)
  then have cur: "current s = Some a" "leftmost (root s) = Some a" using inv False by (simp_all add: st_inv_def leftmost_inorder)
  obtain l r where d: "deref a (root s) = Element l a f r" using deref_event [of "root s" a f] inv io by (auto simp: st_inv_def)
  have srt: "sorted_wrt notAfter (map snd (inorder (root s)))" and g: "good (root s)" using inv by (simp_all add: st_inv_def st_events_def)
  show ?thesis
  proof (cases "notAfter e f")
    case True
    have "\<forall>y \<in> set (inorder (root s)). notAfter e (snd y)" using srt True CompareEvent_trans io by fastforce
    then obtain t where "splay (numberOfElements s + 1) (nextElement s) (changeAt a (setLeft (Element NIL (nextElement s) e NIL)) (root s)) = Some t"
      "st_inv (s\<lparr>numberOfElements := numberOfElements s + 1, nextElement := nextElement s + 1, root := t, current := Some (nextElement s)\<rparr>)"
      "st_events (s\<lparr>numberOfElements := numberOfElements s + 1, nextElement := nextElement s + 1, root := t, current := Some (nextElement s)\<rparr>) =
         insertFirst e (st_events s)"
      using inserted_inv [OF inv, of "[]" "inorder (root s)" "changeAt a (setLeft (Element NIL (nextElement s) e NIL)) (root s)" e, OF _ _ _ _ refl]
        leftmost_setLeft [OF g cur(2), of "nextElement s" e] by (auto simp: Let_def)
    then show ?thesis using False True cur(1) d by (simp add: st_insert_def Let_def)
  next
    case False
    note gt = False
    obtain ys zs where z: "inorder (root s) = ys @ zs" "inorder (insertBelow (nextElement s) e (root s)) = ys @ (nextElement s, e) # zs"
      "\<forall>x \<in> set ys. \<not> notAfter e (snd x)" "\<forall>y \<in> set zs. notAfter e (snd y)" using insertBelow_split [OF srt] by blast
    then have "ys \<noteq> []" using io gt by (cases ys) auto
    moreover have "s\<lparr>numberOfElements := n, nextElement := k, root := t, current := Some a\<rparr> = s\<lparr>numberOfElements := n, nextElement := k, root := t\<rparr>"
      for n k t using cur(1) by (cases s) simp
    ultimately obtain t where "splay (numberOfElements s + 1) (nextElement s) (insertBelow (nextElement s) e (root s)) = Some t"
      "st_inv (s\<lparr>numberOfElements := numberOfElements s + 1, nextElement := nextElement s + 1, root := t\<rparr>)"
      "st_events (s\<lparr>numberOfElements := numberOfElements s + 1, nextElement := nextElement s + 1, root := t\<rparr>) = insertFirst e (st_events s)"
      using inserted_inv [OF inv z refl] cur(2) by (simp add: Let_def) metis
    then show ?thesis using gt \<open>root s \<noteq> NIL\<close> cur d by (simp add: st_insert_def Let_def)
  qed
qed

text \<open>Taking out the leftmost node when it is not the root.\<close>

lemma take_leftmost:
  assumes "good t" and "leftmost t = Some c" and "address t \<noteq> Some c"
  shows "\<exists>p. getParentElement c t = Some p \<and> p \<in> addresses t \<and> p \<noteq> c \<and>
    inorder (changeAt p (setLeft (rightTree (deref c t))) t) = tl (inorder t) \<and>
    leftmost (deref p (changeAt p (setLeft (rightTree (deref c t))) t)) = leftmost (changeAt p (setLeft (rightTree (deref c t))) t)"
  using assms
proof (induction t)
  case (Element l b f r)
  then have l: "l \<noteq> NIL" "leftmost l = Some c" by (auto split: if_splits)
  have c: "c \<in> addresses l" "c \<notin> addresses r" "c \<noteq> b" using Element.prems(1) leftmost_in [OF l(2)] by auto
  have d: "deref c (Element l b f r) = deref c l" using c deref_absent by auto
  show ?case
  proof (cases "address l = Some c")
    case True
    then obtain ll e lr where "l = Element ll c e lr" by (cases l) auto
    moreover have "ll = NIL" using l(2) leftmost_in [of ll c] calculation Element.prems(1) by (auto split: if_splits)
    ultimately show ?thesis unfolding d using c by (simp add: setLeft_def)
  next
    case False
    let ?f = "setLeft (rightTree (deref c l))"
    obtain p where p: "getParentElement c l = Some p" "p \<in> addresses l" "p \<noteq> c" "inorder (changeAt p ?f l) = tl (inorder l)"
      "leftmost (deref p (changeAt p ?f l)) = leftmost (changeAt p ?f l)"
      using Element.IH(1) [OF _ l(2) False] Element.prems(1) by auto
    have q: "p \<noteq> b" "p \<notin> addresses r" using Element.prems(1) p(2) by auto
    have "inorder l \<noteq> []" "fst (hd (inorder l)) = c" using l by (auto simp: leftmost_inorder split: list.splits)
    then have "p \<in> addresses (changeAt p ?f l)" using p(2-4) unfolding addresses_def by (cases "inorder l") auto
    then have "deref p (changeAt p ?f l) \<noteq> NIL" "changeAt p ?f l \<noteq> NIL" using deref_absent by auto
    then show ?thesis unfolding d
      using p q False address_absent [OF c(2)] c(3) \<open>inorder l \<noteq> []\<close> by auto
  qed
qed simp

lemma st_getEvent_ok:
  assumes inv: "st_inv s" and ev: "st_events s = e # es"
  shows "\<exists>s'. st_getEvent s = Some (s', Some e) \<and> st_inv s' \<and> st_events s' = es \<and> processedElements s' = processedElements s @ [e]"
proof -
  obtain c xs where io: "inorder (root s) = (c, e) # xs" "map snd xs = es" using ev by (cases "inorder (root s)") (auto simp: st_events_def)
  have g: "good (root s)" and lm: "leftmost (root s) = Some c" and n: "root s \<noteq> NIL"
    using inv io by (auto simp: st_inv_def leftmost_inorder)
  then have cur: "current s = Some c" using inv by (simp add: st_inv_def)
  obtain l r where d: "deref c (root s) = Element l c e r" using deref_event [OF g, of c e] io by auto
  have post: "st_inv (s\<lparr>root := t, current := leftmost t, processedElements := pr, numberOfElements := numberOfElements s - 1\<rparr>)"
    if "inorder t = xs" for t pr
    using inv that io ev unfolding st_inv_def st_events_def by (auto simp: good_def addresses_def)
  show ?thesis
  proof (cases "address (root s) = Some c")
    case True
    then obtain ll rr where rt: "root s = Element ll c e rr" using d by (cases "root s") auto
    then have "ll = NIL" using lm g leftmost_in [of ll c] by (auto split: if_splits)
    then have "inorder (rightTree (root s)) = xs" using rt io by simp
    with post [OF this] show ?thesis using True n cur d io by (auto simp: st_getEvent_def st_events_def)
  next
    case False
    obtain p where p: "getParentElement c (root s) = Some p"
      "inorder (changeAt p (setLeft r) (root s)) = xs"
      "leftmost (deref p (changeAt p (setLeft r) (root s))) = leftmost (changeAt p (setLeft r) (root s))"
      using take_leftmost [OF g lm False] d io by auto
    then show ?thesis using post [OF p(2)] False n cur d io by (auto simp: st_getEvent_def st_events_def Let_def)
  qed
qed

lemma st_getEvent_empty: "st_events s = [] \<Longrightarrow> st_getEvent s = Some (s, None)"
  by (simp add: st_getEvent_def st_events_def)

lemma st_peekEvent_ok:
  assumes inv: "st_inv s"
  shows "\<exists>s'. st_peekEvent s = Some (s', case st_events s of [] \<Rightarrow> None | e # _ \<Rightarrow> Some e) \<and> st_inv s' \<and> st_events s' = st_events s"
proof (cases "inorder (root s)")
  case Nil
  then show ?thesis using inv by (auto simp: st_peekEvent_def st_events_def st_inv_def)
next
  case (Cons x xs)
  then have c: "root s \<noteq> NIL" "current s = Some (fst x)" "numberOfElements s \<noteq> 0" using inv by (auto simp: st_inv_def leftmost_inorder)
  obtain l r where d: "deref (fst x) (root s) = Element l (fst x) (snd x) r"
    using deref_event [of "root s" "fst x" "snd x"] inv Cons by (auto simp: st_inv_def)
  have e: "s\<lparr>current := Some (fst x)\<rparr> = s" using c(2) by (cases s) simp
  have "st_peekEvent s = Some (s\<lparr>current := Some (fst x)\<rparr>, Some (snd x))" using c d by (simp add: st_peekEvent_def)
  then show ?thesis unfolding e using inv Cons by (simp add: st_events_def)
qed

subsection \<open>Erasing\<close>

lemma CompareEvent_strict:
  "CompareEvent a b < 0 \<Longrightarrow> notAfter b c \<Longrightarrow> CompareEvent a c < 0"
  "0 < CompareEvent a b \<Longrightarrow> notAfter c b \<Longrightarrow> 0 < CompareEvent a c"
  by (auto simp: CompareEvent_def split: if_splits)

lemma search_Some: "search e t = Some a \<Longrightarrow> \<exists>f. (a, f) \<in> set (inorder t) \<and> CompareEvent e f = 0"
  by (induction t) (auto split: if_splits)

lemma search_None:
  "sorted_wrt notAfter (map snd (inorder t)) \<Longrightarrow> search e t = None \<Longrightarrow> x \<in> set (inorder t) \<Longrightarrow> CompareEvent e (snd x) \<noteq> 0"
proof (induction t)
  case (Element l b f r)
  have s: "\<forall>x \<in> set (inorder l). notAfter (snd x) f" "\<forall>y \<in> set (inorder r). notAfter f (snd y)"
    using Element.prems(1) by (auto simp: sorted_wrt_append)
  consider "x \<in> set (inorder l)" | "x = (b, f)" | "x \<in> set (inorder r)" using Element.prems(3) by auto
  then show ?case
    using Element CompareEvent_strict [of e f "snd x"] s by cases (auto simp: sorted_wrt_append split: if_splits)
qed simp

lemma leftmost_left: "good t \<Longrightarrow> leftmost t = Some c \<Longrightarrow> leftTree (deref c t) = NIL"
proof (induction t)
  case (Element l b f r)
  show ?case
  proof (cases "l = NIL")
    case False
    then have c: "c \<in> addresses l" "leftmost l = Some c" using Element.prems(2) leftmost_in [of l c] by simp_all
    then have "c \<noteq> b" "deref c l \<noteq> NIL" using Element.prems(1) deref_absent by auto
    then show ?thesis using Element.IH(1) Element.prems(1) c(2) by simp
  qed (use Element.prems in simp)
qed simp

lemma inorder_join: "inorder (join l r) = inorder l @ inorder r"
proof -
  have "inorder (appendRight l r) = inorder l @ inorder r" by (induction l) auto
  then show ?thesis by (auto simp: join_def)
qed

text \<open>The node that \<open>erase\<close> finds.\<close>

lemma erase_search:
  assumes inv: "st_inv s" and n: "root s \<noteq> NIL" and c: "current s = Some c"
    and r: "res = search e (if notAfter e (infoNode (deref c (root s))) then deref c (root s) else root s)"
  shows "deref c (root s) \<noteq> NIL"
    and "res = Some a \<Longrightarrow> \<exists>f. (a, f) \<in> set (inorder (root s)) \<and> CompareEvent e f = 0"
    and "res = None \<Longrightarrow> \<forall>x \<in> set (st_events s). CompareEvent e x \<noteq> 0"
proof -
  have lm: "leftmost (root s) = Some c" and g: "good (root s)" and srt: "sorted_wrt notAfter (map snd (inorder (root s)))"
    using inv n c by (simp_all add: st_inv_def st_events_def)
  then obtain f xs where io: "inorder (root s) = (c, f) # xs" by (auto simp: leftmost_inorder split: list.splits)
  obtain l r where "deref c (root s) = Element l c f r" using deref_event [OF g, of c f] io by auto
  then have d: "deref c (root s) = Element NIL c f r" using leftmost_left [OF g lm] by simp
  then show "deref c (root s) \<noteq> NIL" by simp
  show "\<exists>f. (a, f) \<in> set (inorder (root s)) \<and> CompareEvent e f = 0" if "res = Some a"
    using r that d io search_Some [of e "root s" a] by (auto split: if_splits)
  show "\<forall>x \<in> set (st_events s). CompareEvent e x \<noteq> 0" if "res = None"
  proof (cases "notAfter e f")
    case True
    then have lt: "CompareEvent e f < 0" using r that d by (auto split: if_splits)
    have "\<forall>x \<in> set xs. notAfter f (snd x)" using srt io by auto
    then show ?thesis using lt CompareEvent_strict(1) [OF lt] io by (fastforce simp: st_events_def)
  next
    case False
    then show ?thesis using search_None [OF srt, of e] r that d by (auto simp: st_events_def)
  qed
qed

lemma erased_inv:
  assumes inv: "st_inv s" and t: "inorder (root s) = xs @ x # ys" "inorder t = xs @ ys"
  shows "st_inv (s\<lparr>root := t, numberOfElements := numberOfElements s - 1, current := (if t = NIL then c else leftmost t)\<rparr>)"
  using inv t by (auto simp: st_inv_def st_events_def good_def addresses_def sorted_wrt_append)

lemma st_erase_ok:
  assumes inv: "st_inv s"
  shows "\<exists>s'. st_erase e s = Some s' \<and> st_inv s' \<and>
    (if \<exists>x \<in> set (st_events s). CompareEvent e x = 0
     then \<exists>xs x ys. st_events s = xs @ x # ys \<and> CompareEvent e x = 0 \<and> st_events s' = xs @ ys
     else st_events s' = st_events s)"
proof (cases "root s = NIL")
  case True
  then show ?thesis using inv by (simp add: st_erase_def st_inv_def st_events_def)
next
  case False
  obtain c where c: "current s = Some c" using inv False by (cases "inorder (root s)") (auto simp: st_inv_def leftmost_inorder)
  define res where "res = search e (if notAfter e (infoNode (deref c (root s))) then deref c (root s) else root s)"
  note found = erase_search [OF inv False c res_def]
  show ?thesis
  proof (cases res)
    case None
    then have "st_erase e s = Some s" using False c found(1) by (simp add: st_erase_def res_def)
    then show ?thesis using inv found(3) [OF None] by simp
  next
    case (Some a)
    then obtain f where f: "(a, f) \<in> set (inorder (root s))" "CompareEvent e f = 0" using found(2) by blast
    have g: "good (root s)" and len: "int (length (inorder (root s))) \<le> numberOfElements s" using inv by (simp_all add: st_inv_def)
    have "a \<in> addresses (root s)" using f(1) by (force simp: addresses_def)
    from splay_ok [OF g this len]
    have "\<exists>t. (if address (root s) = Some a then Some (root s) else splay (numberOfElements s) a (root s)) = Some t \<and>
      address t = Some a \<and> inorder t = inorder (root s)" by (cases "address (root s) = Some a") simp_all
    then obtain t where t: "(if address (root s) = Some a then Some (root s) else splay (numberOfElements s) a (root s)) = Some t"
      "address t = Some a" "inorder t = inorder (root s)" by blast
    then obtain l f' r where e: "t = Element l a f' r" by (cases t) auto
    have "(a, f') \<in> set (inorder (root s))" using t(3) [symmetric] e by simp
    then have ff: "f' = f" using f(1) g eq_key_imp_eq_value unfolding good_def by metis
    have io: "inorder (root s) = inorder l @ (a, f) # inorder r" using t(3) e ff by simp
    let ?s = "s\<lparr>root := join l r, numberOfElements := numberOfElements s - 1,
       current := (if join l r = NIL then current s else leftmost (join l r))\<rparr>"
    have "st_erase e s = Some ?s" using False c found(1) Some t(1,2) e by (simp add: st_erase_def res_def Let_def)
    moreover have "st_inv ?s" using erased_inv [OF inv io inorder_join] .
    moreover have "st_events s = map snd (inorder l) @ f # map snd (inorder r)" "st_events ?s = map snd (inorder l) @ map snd (inorder r)"
      using io by (simp_all add: st_events_def inorder_join)
    moreover have "\<exists>x \<in> set (st_events s). CompareEvent e x = 0" using calculation(3) f(2) by auto
    ultimately show ?thesis using f(2) by (metis (no_types, lifting))
  qed
qed

subsection \<open>The event list\<close>

definition splayTreeOps :: "('t :: linorder, 't splayTree) eventSetOps" where
  "splayTreeOps = \<lparr>es_insert = st_insert, es_getEvent = st_getEvent, es_peekEvent = st_peekEvent, es_cleanUp = st_cleanUp\<rparr>"

definition st_first :: "'t splayTree \<Rightarrow> 't event option" where
  "st_first s = (case st_events s of [] \<Rightarrow> None | e # _ \<Rightarrow> Some e)"

lemma insertFirst_mset: "mset (insertFirst e xs) = add_mset e (mset xs)"
proof -
  have "mset xs = mset (takeWhile (\<lambda>x. \<not> notAfter e x) xs) + mset (dropWhile (\<lambda>x. \<not> notAfter e x) xs)"
    by (metis mset_append takeWhile_dropWhile_id)
  then show ?thesis by (simp add: insertFirst_def)
qed

lemma notAfter_time: "notAfter a b \<Longrightarrow> receiveTime a \<le> receiveTime b"
  by (auto simp: CompareEvent_def split: if_splits)

interpretation splay: event_list splayTreeOps st_inv "\<lambda>s. mset (st_events s)" st_first
proof
  fix s :: "'a splayTree" and e
  assume inv: "st_inv s"
  show "shows_first (mset (st_events s)) (st_first s)"
    using inv notAfter_time by (cases "st_events s") (auto simp: shows_first_def st_first_def st_inv_def)
  show "\<exists>q'. es_insert splayTreeOps e s = Some q' \<and> st_inv q' \<and> mset (st_events q') = add_mset e (mset (st_events s))"
    using st_insert_ok [OF inv, of e] insertFirst_mset [of e "st_events s"] by (auto simp: splayTreeOps_def)
  show "\<exists>q'. es_peekEvent splayTreeOps s = Some (q', st_first s) \<and> st_inv q' \<and> mset (st_events q') = mset (st_events s) \<and> st_first q' = st_first s"
    using st_peekEvent_ok [OF inv] by (auto simp: splayTreeOps_def st_first_def)
  show "\<exists>q'. es_getEvent splayTreeOps s = Some (q', st_first s) \<and> st_inv q' \<and>
      mset (st_events q') = (case st_first s of None \<Rightarrow> mset (st_events s) | Some e \<Rightarrow> mset (st_events s) - {#e#})"
    using st_getEvent_ok [OF inv] st_getEvent_empty [of s] inv by (cases "st_events s") (auto simp: splayTreeOps_def st_first_def)
  show "st_inv (es_cleanUp splayTreeOps s) \<and> mset (st_events (es_cleanUp splayTreeOps s)) = mset (st_events s)"
    using inv by (simp add: splayTreeOps_def st_cleanUp_def st_inv_def st_events_def)
qed

subsection \<open>Properties\<close>

datatype 't listOp = Op_insert "'t event" | Op_getEvent | Op_peekEvent | Op_cleanUp

fun st_run :: "('t :: linorder) listOp list \<Rightarrow> 't splayTree \<Rightarrow> ('t splayTree \<times> 't event option list) option" where
  "st_run [] s = Some (s, [])"
| "st_run (Op_insert e # ops) s = do { s1 \<leftarrow> st_insert e s; st_run ops s1 }"
| "st_run (Op_getEvent # ops) s = do { (s1, r) \<leftarrow> st_getEvent s; (s2, rs) \<leftarrow> st_run ops s1; Some (s2, r # rs) }"
| "st_run (Op_peekEvent # ops) s = do { (s1, r) \<leftarrow> st_peekEvent s; (s2, rs) \<leftarrow> st_run ops s1; Some (s2, r # rs) }"
| "st_run (Op_cleanUp # ops) s = st_run ops (st_cleanUp s)"

text \<open>The specification: a list in which a new event goes before the first one that is not earlier.\<close>

fun list_run :: "('t :: linorder) listOp list \<Rightarrow> 't event list \<Rightarrow> 't event list \<times> 't event option list" where
  "list_run [] xs = (xs, [])"
| "list_run (Op_insert e # ops) xs = list_run ops (insertFirst e xs)"
| "list_run (Op_getEvent # ops) xs = (let (ys, rs) = list_run ops (tl xs) in (ys, (case xs of [] \<Rightarrow> None | x # _ \<Rightarrow> Some x) # rs))"
| "list_run (Op_peekEvent # ops) xs = (let (ys, rs) = list_run ops xs in (ys, (case xs of [] \<Rightarrow> None | x # _ \<Rightarrow> Some x) # rs))"
| "list_run (Op_cleanUp # ops) xs = list_run ops xs"

lemma st_run_refines:
  "st_inv s \<Longrightarrow> \<exists>s'. st_run ops s = Some (s', snd (list_run ops (st_events s))) \<and> st_inv s' \<and> st_events s' = fst (list_run ops (st_events s))"
proof (induction ops arbitrary: s)
  case (Cons op ops)
  show ?case
  proof (cases op)
    case (Op_insert e)
    then show ?thesis using st_insert_ok [OF Cons.prems, of e] Cons.IH by force
  next
    case Op_getEvent
    then show ?thesis
      using st_getEvent_ok [OF Cons.prems] st_getEvent_empty [of s] Cons.IH Cons.prems
      by (cases "st_events s") (fastforce simp: case_prod_beta Let_def)+
  next
    case Op_peekEvent
    then show ?thesis using st_peekEvent_ok [OF Cons.prems] Cons.IH by (fastforce simp: case_prod_beta Let_def)
  next
    case Op_cleanUp
    have "st_inv (st_cleanUp s)" "st_events (st_cleanUp s) = st_events s"
      using Cons.prems by (simp_all add: st_cleanUp_def st_inv_def st_events_def)
    then show ?thesis using Op_cleanUp Cons.IH [of "st_cleanUp s"] by simp
  qed
qed simp


definition ex_ev :: "nat \<Rightarrow> u32 \<Rightarrow> int \<Rightarrow> intvtime event" where
  "ex_ev p r t = \<lparr>eventPtr = p, sender = ObjectID 0 0, receiver = ObjectID r 0, sendTime = 0, receiveTime = IntVTime (word_of_int t),
     eventId = of_nat p, eventSize = 0\<rparr>"

definition ex_tree :: "intvtime splayTree" where
  "ex_tree = fst (the (st_run (map Op_insert [ex_ev 1 1 5, ex_ev 2 2 3, ex_ev 3 1 9, ex_ev 4 1 3]) SplayTree))"

lemma ex_tree_inv: "st_inv ex_tree"
proof -
  have "st_inv (SplayTree :: intvtime splayTree)" by (simp add: SplayTree_def st_inv_def st_events_def)
  then obtain s' where "st_run (map Op_insert [ex_ev 1 1 5, ex_ev 2 2 3, ex_ev 3 1 9, ex_ev 4 1 3]) SplayTree =
      Some (s', snd (list_run (map Op_insert [ex_ev 1 1 5, ex_ev 2 2 3, ex_ev 3 1 9, ex_ev 4 1 3]) (st_events SplayTree)))" "st_inv s'"
    using st_run_refines by blast
  then show ?thesis unfolding ex_tree_def by simp
qed

text \<open>\<open>erase\<close> takes one event out of the tree if there is one that compares equal to its argument, and otherwise changes nothing; the other
  events and their order stay. Events compare equal when their receive times and receivers are equal, so with several such events it need
  not be the argument itself that is erased.\<close>

theorem erase_exact:
  assumes "st_inv s"
  shows "\<exists>s'. st_erase e s = Some s' \<and> st_inv s' \<and>
    (if \<exists>x \<in> set (st_events s). CompareEvent e x = 0
     then \<exists>xs x ys. st_events s = xs @ x # ys \<and> CompareEvent e x = 0 \<and> st_events s' = xs @ ys
     else st_events s' = st_events s)"
  by (rule st_erase_ok [OF assms])

theorem erase_exact_witness:
  "\<exists>s'. st_erase (ex_ev 1 1 5) ex_tree = Some s' \<and> st_inv s' \<and> (\<exists>xs x ys. st_events ex_tree = xs @ x # ys \<and> st_events s' = xs @ ys)"
proof -
  have "list_ex (\<lambda>x. CompareEvent (ex_ev 1 1 5) x = 0) (st_events ex_tree)" by code_simp
  then have "\<exists>x \<in> set (st_events ex_tree). CompareEvent (ex_ev 1 1 5) x = 0" by (simp add: list_ex_iff)
  then show ?thesis using erase_exact [OF ex_tree_inv, of "ex_ev 1 1 5"] by auto
qed

text \<open>Two events for the same receiver at the same time: erasing the second takes out the first.\<close>

lemma erase_other_event:
  "map_option st_events (Option.bind (st_run (map Op_insert [ex_ev 1 1 5, ex_ev 2 1 5]) SplayTree) (\<lambda>(s, _). st_erase (ex_ev 1 1 5) s)) =
     Some [ex_ev 1 1 5]"
  by code_simp

end
