(* ===== verification/Sequential.thy ===== *)
theory Sequential
  imports SplayTree KernelRollback
begin

text \<open>
  The sequential simulation: \<open>SequentialSimulationManager.cpp\<close> over any event list of \<open>EventSet.h\<close>, with the same applications as the
  parallel kernel. There is one time for all objects, and the events are executed in the order of the event list. Statistics,
  streams and the registration of objects are left out.
\<close>

subsection \<open>The manager\<close>

record ('t, 'es, 'st) seqMgr =
  sq_eventSet :: 'es
  sq_simulationTime :: 't
  sq_localVirtualTime :: "'t list"
  sq_myState :: "'st list"
  numberOfProcessedEvents :: u32

definition seq_getEvent :: "('t, 'es) eventSetOps \<Rightarrow> ('t, 'es, 'st) seqMgr \<Rightarrow> (('t, 'es, 'st) seqMgr \<times> 't event option) option" where
  "seq_getEvent ops s = do {
     (es, event) \<leftarrow> es_getEvent ops (sq_eventSet s);
     Some (s\<lparr>sq_eventSet := es, numberOfProcessedEvents := numberOfProcessedEvents s + (if event \<noteq> None then 1 else 0)\<rparr>, event) }"

definition seq_peekEvent :: "('t, 'es) eventSetOps \<Rightarrow> ('t, 'es, 'st) seqMgr \<Rightarrow> (('t, 'es, 'st) seqMgr \<times> 't event option) option" where
  "seq_peekEvent ops s = do {
     (es, event) \<leftarrow> es_peekEvent ops (sq_eventSet s);
     Some (s\<lparr>sq_eventSet := es\<rparr>, event) }"

definition seq_handleEvent :: "('t, 'es) eventSetOps \<Rightarrow> 't event \<Rightarrow> ('t, 'es, 'st) seqMgr \<Rightarrow> ('t, 'es, 'st) seqMgr option" where
  "seq_handleEvent ops event s = do {
     es \<leftarrow> es_insert ops event (sq_eventSet s);
     Some (s\<lparr>sq_eventSet := es\<rparr>) }"

definition seq_haveMoreEvents :: "('t, 'es) eventSetOps \<Rightarrow> nat \<Rightarrow> ('t, 'es, 'st) seqMgr \<Rightarrow> (('t, 'es, 'st) seqMgr \<times> bool) option" where
  "seq_haveMoreEvents ops i s = do {
     (s', event) \<leftarrow> seq_peekEvent ops s;
     case event of
       None \<Rightarrow> Some (s', False)
     | Some e \<Rightarrow> do {
         now \<leftarrow> vec_get (sq_localVirtualTime s') i;
         Some (s', if receiveTime e = now then receiver e = ObjectID (of_nat i) 0 else False) } }"

primrec seq_runProcess :: "('t, 'es) eventSetOps \<Rightarrow> nat \<Rightarrow> ('t, 'st) process \<Rightarrow> ('t, 'es, 'st) seqMgr \<Rightarrow> ('t, 'es, 'st) seqMgr option" where
  "seq_runProcess ops i Done s = Some s"
| "seq_runProcess ops i (GetState k) s = do { st \<leftarrow> vec_get (sq_myState s) i; seq_runProcess ops i (k st) s }"
| "seq_runProcess ops i (PutState st p) s = do {
     states \<leftarrow> vec_set (sq_myState s) i st;
     seq_runProcess ops i p (s\<lparr>sq_myState := states\<rparr>) }"
| "seq_runProcess ops i (GetEvent k) s = do { (s', e) \<leftarrow> seq_getEvent ops s; seq_runProcess ops i (k e) s' }"
| "seq_runProcess ops i (HaveMoreEvents k) s = do { (s', b) \<leftarrow> seq_haveMoreEvents ops i s; seq_runProcess ops i (k b) s' }"
| "seq_runProcess ops i (GetSimulationTime k) s = do { now \<leftarrow> vec_get (sq_localVirtualTime s) i; seq_runProcess ops i (k now) s }"
| "seq_runProcess ops i (ReceiveEvent e p) s = do { s' \<leftarrow> seq_handleEvent ops e s; seq_runProcess ops i p s' }"

text \<open>One turn of the loop of \<open>simulate\<close>; the flag tells whether the loop goes on.\<close>

definition seq_turn ::
  "('t :: {linorder, zero}, 'es) eventSetOps \<Rightarrow> (nat \<Rightarrow> ('t, 'st) process) \<Rightarrow> 't \<Rightarrow> ('t, 'es, 'st) seqMgr \<Rightarrow> (('t, 'es, 'st) seqMgr \<times> bool) option" where
  "seq_turn ops app simulateUntil s = do {
     (s1, nextEvent) \<leftarrow> seq_peekEvent ops s;
     case nextEvent of
       None \<Rightarrow> Some (s1, False)
     | Some e \<Rightarrow>
         if \<not> sq_simulationTime s1 < simulateUntil then Some (s1, False)
         else if receiveTime e > simulateUntil then Some (s1, False)
         else do {
           let i = objIdOf (receiver e);
           _ \<leftarrow> (if receiveTime e \<ge> 0 then Some () else None);
           times \<leftarrow> vec_set (sq_localVirtualTime s1) i (receiveTime e);
           s2 \<leftarrow> seq_runProcess ops i (app i) (s1\<lparr>sq_simulationTime := receiveTime e, sq_localVirtualTime := times\<rparr>);
           Some (s2\<lparr>sq_eventSet := es_cleanUp ops (sq_eventSet s2)\<rparr>, True) } }"

partial_function (option) seq_simulate ::
  "('t :: {linorder, zero}, 'es) eventSetOps \<Rightarrow> (nat \<Rightarrow> ('t, 'st) process) \<Rightarrow> 't \<Rightarrow> ('t, 'es, 'st) seqMgr \<Rightarrow> ('t, 'es, 'st) seqMgr option" where
  "seq_simulate ops app simulateUntil s =
     Option.bind (seq_turn ops app simulateUntil s) (\<lambda>r. if snd r then seq_simulate ops app simulateUntil (fst r) else Some (fst r))"

declare seq_simulate.simps [simp del]

fun seq_turns :: "nat \<Rightarrow> ('t :: {linorder, zero}, 'es) eventSetOps \<Rightarrow> (nat \<Rightarrow> ('t, 'st) process) \<Rightarrow> 't \<Rightarrow> ('t, 'es, 'st) seqMgr \<Rightarrow> ('t, 'es, 'st) seqMgr option" where
  "seq_turns 0 ops app simulateUntil s = Some s"
| "seq_turns (Suc k) ops app simulateUntil s = do {
     (s', go) \<leftarrow> seq_turn ops app simulateUntil s;
     if go then seq_turns k ops app simulateUntil s' else Some s' }"

subsection \<open>Causality and termination\<close>

text \<open>
  An application that sends events to existing objects and not into the past: an event that it sends stands in the relation \<open>lt\<close> to the time of
  the object, or to the receive time of the event that it took last; before it knows a time it sends nothing.
\<close>

primrec causal :: "('t \<Rightarrow> 't \<Rightarrow> bool) \<Rightarrow> nat \<Rightarrow> 't option \<Rightarrow> ('t, 'st) process \<Rightarrow> bool" where
  "causal lt n now Done \<longleftrightarrow> True"
| "causal lt n now (GetState k) \<longleftrightarrow> (\<forall>st. causal lt n now (k st))"
| "causal lt n now (PutState st p) \<longleftrightarrow> causal lt n now p"
| "causal lt n now (GetEvent k) \<longleftrightarrow> causal lt n now (k None) \<and> (\<forall>e. causal lt n (Some (receiveTime e)) (k (Some e)))"
| "causal lt n now (HaveMoreEvents k) \<longleftrightarrow> (\<forall>b. causal lt n now (k b))"
| "causal lt n now (GetSimulationTime k) \<longleftrightarrow> (\<forall>t. causal lt n (Some t) (k t))"
| "causal lt n now (ReceiveEvent e p) \<longleftrightarrow>
     (case now of None \<Rightarrow> False | Some t \<Rightarrow> lt t (receiveTime e)) \<and> objIdOf (receiver e) < n \<and> causal lt n now p"

definition later :: "(('t :: linorder) event \<times> 't event) set" where
  "later = {(a, b). receiveTime b < receiveTime a}"

text \<open>The relation of the events after and before a turn: some are taken, and those that are added are later than one that was taken.\<close>

definition replaced :: "('t :: linorder) \<Rightarrow> bool \<Rightarrow> 't event multiset \<Rightarrow> 't event multiset \<Rightarrow> bool" where
  "replaced now got M M' \<longleftrightarrow> (\<exists>R A. R \<subseteq># M \<and> M' = M - R + A \<and> (\<forall>a \<in># A. now < receiveTime a) \<and>
     (if got then \<exists>r \<in># R. receiveTime r = now else R = {#}))"

lemma replaced_refl: "replaced now False M M"
  unfolding replaced_def by (intro exI [of _ "{#}"]) simp

lemma replaced_mult:
  assumes "replaced now True M M'"
  shows "(M', M) \<in> mult later"
proof -
  obtain R A where R: "R \<subseteq># M" "M' = M - R + A" "\<forall>a \<in># A. now < receiveTime a" "\<exists>r \<in># R. receiveTime r = now"
    using assms unfolding replaced_def if_True by blast
  then have "(M - R + A, M - R + R) \<in> mult later" by (intro one_step_implies_mult) (auto simp: later_def)
  then show ?thesis using R(1,2) by (simp add: subset_mset.diff_add)
qed

lemma replaced_add:
  assumes "replaced now got M M'" and "now < receiveTime e"
  shows "replaced now got M (add_mset e M')"
proof -
  obtain R A where R: "R \<subseteq># M" "M' = M - R + A" "\<forall>a \<in># A. now < receiveTime a" "if got then \<exists>r \<in># R. receiveTime r = now else R = {#}"
    using assms(1) unfolding replaced_def by blast
  then show ?thesis unfolding replaced_def using assms(2) by (intro exI [of _ R] exI [of _ "add_mset e A"]) simp
qed

lemma replaced_take:
  assumes "replaced now got M M'" and "e \<in># M'" and "\<not> got \<Longrightarrow> receiveTime e \<le> now" and "\<forall>x \<in># M. now \<le> receiveTime x"
  shows "replaced now True M (M' - {#e#})"
proof -
  obtain R A where R: "R \<subseteq># M" "M' = M - R + A" "\<forall>a \<in># A. now < receiveTime a" "if got then \<exists>r \<in># R. receiveTime r = now else R = {#}"
    using assms(1) unfolding replaced_def by blast
  show ?thesis
  proof (cases "e \<in># A")
    case True
    then have "got" using R(3) assms(3) by fastforce
    moreover have "M' - {#e#} = M - R + (A - {#e#})" using R(2) True by simp
    ultimately show ?thesis unfolding replaced_def using R
      by (intro exI [of _ R] exI [of _ "A - {#e#}"]) (auto dest: in_diffD)
  next
    case False
    then have e: "e \<in># M - R" using R(2) assms(2) by auto
    then obtain K where K: "M - R = add_mset e K" by (metis insert_DiffM)
    then have M: "M = add_mset e R + K" using R(1) by (metis add_mset_add_single subset_mset.add_diff_inverse union_assoc union_commute)
    have "add_mset e R \<subseteq># M" unfolding M by simp
    moreover have "M' - {#e#} = M - add_mset e R + A" using R(2) K M by simp
    moreover have "got \<or> receiveTime e = now" using assms(3,4) e by (meson antisym in_diffD)
    ultimately show ?thesis unfolding replaced_def using R(3,4)
      by (intro exI [of _ "add_mset e R"] exI [of _ A]) auto
  qed
qed

text \<open>A well-formed manager of \<open>n\<close> objects: no event that is waiting lies in the past.\<close>

definition seq_wf ::
  "('es \<Rightarrow> bool) \<Rightarrow> ('es \<Rightarrow> ('t :: {linorder, zero}) event multiset) \<Rightarrow> nat \<Rightarrow> ('t, 'es, 'st) seqMgr \<Rightarrow> bool" where
  "seq_wf ok waiting n s \<longleftrightarrow> ok (sq_eventSet s) \<and> length (sq_localVirtualTime s) = n \<and> length (sq_myState s) = n \<and> 0 \<le> sq_simulationTime s \<and>
     (\<forall>e \<in># waiting (sq_eventSet s). sq_simulationTime s \<le> receiveTime e \<and> objIdOf (receiver e) < n)"

locale sequential = event_list ops inv contents first
  for ops :: "('t :: {linorder, zero}, 'es) eventSetOps" and inv contents first
begin

abbreviation wf_mgr :: "nat \<Rightarrow> ('t, 'es, 'st) seqMgr \<Rightarrow> bool" where
  "wf_mgr \<equiv> seq_wf inv contents"

text \<open>What the calls of an application do to the event list and to the rest of the manager.\<close>

definition same :: "('t, 'es, 'st) seqMgr \<Rightarrow> ('t, 'es, 'st) seqMgr \<Rightarrow> bool" where
  "same s s' \<longleftrightarrow> sq_simulationTime s' = sq_simulationTime s \<and> sq_localVirtualTime s' = sq_localVirtualTime s"

lemma seqGet_ok:
  assumes "wf_mgr n s"
  shows "\<exists>s'. seq_getEvent ops s = Some (s', first (sq_eventSet s)) \<and> wf_mgr n s' \<and> same s s' \<and>
    contents (sq_eventSet s') = (case first (sq_eventSet s) of None \<Rightarrow> contents (sq_eventSet s) | Some e \<Rightarrow> contents (sq_eventSet s) - {#e#})"
  using get [of "sq_eventSet s"] assms by (auto simp: seq_wf_def seq_getEvent_def same_def split: option.splits) (meson in_diffD)+

lemma seqPeek_ok:
  assumes "wf_mgr n s"
  shows "\<exists>s'. seq_peekEvent ops s = Some (s', first (sq_eventSet s)) \<and> wf_mgr n s' \<and> same s s' \<and>
    contents (sq_eventSet s') = contents (sq_eventSet s) \<and> first (sq_eventSet s') = first (sq_eventSet s)"
  using peek [of "sq_eventSet s"] assms by (auto simp: seq_wf_def seq_peekEvent_def same_def)

lemma seqMore_ok:
  assumes "wf_mgr n s" and "i < n"
  shows "\<exists>s' b. seq_haveMoreEvents ops i s = Some (s', b) \<and> wf_mgr n s' \<and> same s s' \<and> contents (sq_eventSet s') = contents (sq_eventSet s)"
proof -
  obtain s' where s': "seq_peekEvent ops s = Some (s', first (sq_eventSet s))" "wf_mgr n s'" "same s s'"
    "contents (sq_eventSet s') = contents (sq_eventSet s)" using seqPeek_ok [OF assms(1)] by blast
  have "i < length (sq_localVirtualTime s')" using s'(2) assms(2) by (simp add: seq_wf_def)
  then show ?thesis using s' by (cases "first (sq_eventSet s)") (auto simp: seq_haveMoreEvents_def vec_simps)
qed

lemma seqHandle_ok:
  assumes "wf_mgr n s" and "sq_simulationTime s \<le> receiveTime e" "objIdOf (receiver e) < n"
  shows "\<exists>s'. seq_handleEvent ops e s = Some s' \<and> wf_mgr n s' \<and> same s s' \<and> contents (sq_eventSet s') = add_mset e (contents (sq_eventSet s))"
  using insert [of "sq_eventSet s" e] assms by (auto simp: seq_wf_def seq_handleEvent_def same_def)

text \<open>An application runs to its end: the manager stays well-formed, and what it has taken and sent is as the application promises.\<close>

definition running :: "('t \<Rightarrow> 't \<Rightarrow> bool) \<Rightarrow> nat \<Rightarrow> nat \<Rightarrow> bool \<Rightarrow> 't event multiset \<Rightarrow> 't option \<Rightarrow> ('t, 'es, 'st) seqMgr \<Rightarrow> bool" where
  "running lt n i got M now s \<longleftrightarrow> wf_mgr n s \<and> i < n \<and> sq_localVirtualTime s ! i = sq_simulationTime s \<and>
     (\<forall>t. now = Some t \<longrightarrow> sq_simulationTime s \<le> t) \<and> (\<exists>x \<in># M. receiveTime x = sq_simulationTime s) \<and>
     (\<forall>x \<in># M. sq_simulationTime s \<le> receiveTime x) \<and>
     (lt = (<) \<longrightarrow> replaced (sq_simulationTime s) got M (contents (sq_eventSet s)))"

lemma running_get:
  assumes r: "running lt n i got M now s"
  shows "\<exists>s'. seq_getEvent ops s = Some (s', first (sq_eventSet s)) \<and> same s s' \<and>
    running lt n i True M (case first (sq_eventSet s) of None \<Rightarrow> now | Some e \<Rightarrow> Some (receiveTime e)) s'"
proof -
  let ?C = "contents (sq_eventSet s)"
  let ?t = "sq_simulationTime s"
  have wf: "wf_mgr n s" and f: "shows_first ?C (first (sq_eventSet s))" using r first by (auto simp: running_def seq_wf_def)
  obtain s' where s': "seq_getEvent ops s = Some (s', first (sq_eventSet s))" "wf_mgr n s'" "same s s'"
    "contents (sq_eventSet s') = (case first (sq_eventSet s) of None \<Rightarrow> ?C | Some e \<Rightarrow> ?C - {#e#})"
    using seqGet_ok [OF wf] by blast
  obtain x where x: "x \<in># M" "receiveTime x = ?t" using r by (auto simp: running_def)
  have M: "\<forall>y \<in># M. ?t \<le> receiveTime y" and C: "\<forall>y \<in># ?C. ?t \<le> receiveTime y" using r by (auto simp: running_def seq_wf_def)
  have waits: "x \<in># ?C" if "lt = (<)" "\<not> got"
    using r that x unfolding running_def replaced_def by auto
  show ?thesis
  proof (cases "first (sq_eventSet s)")
    case None
    then have "?C = {#}" using f by (simp add: shows_first_def)
    then have "got" if "lt = (<)" using waits [OF that] by auto
    then have "lt = (<) \<longrightarrow> replaced ?t True M ?C" using r by (auto simp: running_def)
    then show ?thesis using s' None r by (simp add: running_def same_def)
  next
    case (Some e)
    have e: "e \<in># ?C" "\<forall>y \<in># ?C. receiveTime e \<le> receiveTime y" using f Some by (simp_all add: shows_first_def)
    have "replaced ?t True M (?C - {#e#})" if "lt = (<)"
    proof (rule replaced_take [OF _ e(1) _ M])
      show "replaced ?t got M ?C" using r that by (simp add: running_def)
      show "receiveTime e \<le> ?t" if "\<not> got" using waits [OF \<open>lt = (<)\<close> that] e(2) x(2) by auto
    qed
    then show ?thesis using s' Some r C e(1) by (simp add: running_def same_def)
  qed
qed

lemma running_same:
  "running lt n i got M now s \<Longrightarrow> same s s' \<Longrightarrow> wf_mgr n s' \<Longrightarrow> contents (sq_eventSet s') = contents (sq_eventSet s) \<Longrightarrow>
    running lt n i got M now s'"
  by (simp add: running_def same_def)

lemma running_send:
  assumes r: "running lt n i got M (Some t) s" and lt: "\<And>a b. lt a b \<Longrightarrow> a \<le> b" "lt t (receiveTime e)" "objIdOf (receiver e) < n"
  shows "\<exists>s'. seq_handleEvent ops e s = Some s' \<and> same s s' \<and> running lt n i got M (Some t) s'"
proof -
  have t: "sq_simulationTime s \<le> t" "wf_mgr n s" using r by (auto simp: running_def)
  obtain s' where s': "seq_handleEvent ops e s = Some s'" "wf_mgr n s'" "same s s'"
    "contents (sq_eventSet s') = add_mset e (contents (sq_eventSet s))"
    using seqHandle_ok [OF t(2) _ lt(3)] lt(1,2) t(1) by (meson order_trans)
  have "replaced (sq_simulationTime s) got M (add_mset e (contents (sq_eventSet s)))" if "lt = (<)"
    using replaced_add [of "sq_simulationTime s" got M "contents (sq_eventSet s)" e] r lt(2) t(1) that by (auto simp: running_def)
  then show ?thesis using s' r by (simp add: running_def same_def)
qed

lemma same_trans: "same s s1 \<Longrightarrow> same s1 s2 \<Longrightarrow> same s s2"
  by (simp add: same_def)

definition ends :: "('t \<Rightarrow> 't \<Rightarrow> bool) \<Rightarrow> nat \<Rightarrow> nat \<Rightarrow> bool \<Rightarrow> 't event multiset \<Rightarrow> ('t, 'es, 'st) seqMgr \<Rightarrow> ('t, 'es, 'st) seqMgr option \<Rightarrow> bool" where
  "ends lt n i got M s r \<longleftrightarrow> (\<exists>s' now' got'. r = Some s' \<and> same s s' \<and> running lt n i got' M now' s' \<and> (got \<longrightarrow> got'))"

lemma ends_after: "same s s1 \<Longrightarrow> ends lt n i got' M s1 r \<Longrightarrow> (got \<longrightarrow> got') \<Longrightarrow> ends lt n i got M s r"
  unfolding ends_def using same_trans by blast

lemma seqRun_ok:
  assumes lt: "\<And>a b. lt a b \<Longrightarrow> a \<le> b" and "running lt n i got M now s" and "causal lt n now p"
  shows "ends lt n i (got \<or> consumes p) M s (seq_runProcess ops i p s)"
  using assms(2,3)
proof (induction p arbitrary: s now got)
  case Done
  then show ?case by (auto simp: same_def ends_def)
next
  case (GetState k)
  have "i < length (sq_myState s)" using GetState.prems(1) by (auto simp: running_def seq_wf_def)
  moreover have "same s s" by (simp add: same_def)
  ultimately show ?case using ends_after [OF _ GetState.IH [OF rangeI GetState.prems(1)]] GetState.prems(2) by (simp add: vec_simps)
next
  case (PutState st p)
  let ?s = "s\<lparr>sq_myState := (sq_myState s)[i := st]\<rparr>"
  have i: "i < length (sq_myState s)" using PutState.prems(1) by (auto simp: running_def seq_wf_def)
  have "running lt n i got M now ?s" using PutState.prems(1) by (simp add: running_def seq_wf_def)
  moreover have "same s ?s" by (simp add: same_def)
  ultimately show ?case using ends_after [OF _ PutState.IH] PutState.prems(2) i by (simp add: vec_simps)
next
  case (GetEvent k)
  let ?e = "first (sq_eventSet s)"
  obtain s' where s': "seq_getEvent ops s = Some (s', ?e)" "same s s'"
    "running lt n i True M (case ?e of None \<Rightarrow> now | Some e \<Rightarrow> Some (receiveTime e)) s'" using running_get [OF GetEvent.prems(1)] by blast
  have "causal lt n (case ?e of None \<Rightarrow> now | Some e \<Rightarrow> Some (receiveTime e)) (k ?e)"
    using GetEvent.prems(2) by (cases ?e) simp_all
  from ends_after [OF s'(2) GetEvent.IH [OF rangeI s'(3) this]] s'(1) show ?case by simp
next
  case (HaveMoreEvents k)
  have "wf_mgr n s" "i < n" using HaveMoreEvents.prems(1) by (simp_all add: running_def)
  then obtain s' b where s': "seq_haveMoreEvents ops i s = Some (s', b)" "wf_mgr n s'" "same s s'"
    "contents (sq_eventSet s') = contents (sq_eventSet s)" using seqMore_ok by blast
  have "running lt n i got M now s'" using running_same [OF HaveMoreEvents.prems(1) s'(3,2,4)] .
  from ends_after [OF s'(3) HaveMoreEvents.IH [OF rangeI this, of b]] s'(1) HaveMoreEvents.prems(2) show ?case by simp
next
  case (GetSimulationTime k)
  have "i < length (sq_localVirtualTime s)" "running lt n i got M (Some (sq_localVirtualTime s ! i)) s"
    using GetSimulationTime.prems(1) by (auto simp: running_def seq_wf_def)
  moreover have "same s s" by (simp add: same_def)
  ultimately show ?case using ends_after [OF _ GetSimulationTime.IH [OF rangeI]] GetSimulationTime.prems(2) by (simp add: vec_simps)
next
  case (ReceiveEvent e p)
  then obtain t where t: "now = Some t" "lt t (receiveTime e)" "objIdOf (receiver e) < n" by (auto split: option.splits)
  obtain s' where s': "seq_handleEvent ops e s = Some s'" "same s s'" "running lt n i got M (Some t) s'"
    using running_send [OF ReceiveEvent.prems(1) [unfolded t(1)] lt t(2,3)] by blast
  from ends_after [OF s'(2) ReceiveEvent.IH [OF s'(3)]] s'(1) ReceiveEvent.prems(2) t(1) show ?case by simp
qed

text \<open>A turn of the main loop does not abort, does not go back in time, and if it executes an event it leaves later events only in place of
  earlier ones.\<close>

lemma turn_ok:
  assumes lt: "\<And>a b. lt a b \<Longrightarrow> a \<le> b" and wf: "wf_mgr n s" and app: "\<forall>i < n. causal lt n None (app i) \<and> consumes (app i)"
  shows "\<exists>s' go. seq_turn ops app simulateUntil s = Some (s', go) \<and> wf_mgr n s' \<and> sq_simulationTime s \<le> sq_simulationTime s' \<and>
    (go \<longrightarrow> sq_simulationTime s' \<le> simulateUntil \<and> (lt = (<) \<longrightarrow> (contents (sq_eventSet s'), contents (sq_eventSet s)) \<in> mult later)) \<and>
    (\<not> go \<longrightarrow> sq_simulationTime s' < simulateUntil \<longrightarrow> (\<forall>x \<in># contents (sq_eventSet s'). simulateUntil < receiveTime x))"
proof -
  let ?C = "contents (sq_eventSet s)"
  have fst_ok: "shows_first ?C (first (sq_eventSet s))" using first wf by (simp add: seq_wf_def)
  obtain s1 where s1: "seq_peekEvent ops s = Some (s1, first (sq_eventSet s))" "wf_mgr n s1" "same s s1"
    "contents (sq_eventSet s1) = ?C" using seqPeek_ok [OF wf] by blast
  show ?thesis
  proof (cases "\<exists>e. first (sq_eventSet s) = Some e \<and> sq_simulationTime s < simulateUntil \<and> receiveTime e \<le> simulateUntil")
    case False
    then have "seq_turn ops app simulateUntil s = Some (s1, False)"
      using s1(1,3) by (auto simp: seq_turn_def same_def not_le split: option.splits)
    moreover have "simulateUntil < receiveTime x" if "sq_simulationTime s < simulateUntil" "x \<in># ?C" for x
      using False fst_ok that by (fastforce simp: shows_first_def split: option.splits)
    ultimately show ?thesis using s1(2-4) by (intro exI [of _ s1] exI [of _ False]) (simp add: same_def)
  next
    case True
    then obtain e where e: "first (sq_eventSet s) = Some e" "sq_simulationTime s < simulateUntil" "receiveTime e \<le> simulateUntil" by blast
    have f: "e \<in># ?C" "\<forall>y \<in># ?C. receiveTime e \<le> receiveTime y"
      using fst_ok e(1) by (auto simp: shows_first_def)
    define i where "i = objIdOf (receiver e)"
    have i: "i < n" "sq_simulationTime s \<le> receiveTime e" "0 \<le> sq_simulationTime s" using wf f(1) by (auto simp: seq_wf_def i_def)
    let ?s = "s1\<lparr>sq_simulationTime := receiveTime e, sq_localVirtualTime := (sq_localVirtualTime s1)[i := receiveTime e]\<rparr>"
    have "wf_mgr n ?s" using s1(2,4) f(2) i by (auto simp: seq_wf_def)
    then have "running lt n i False ?C None ?s"
      using i(1) f s1(2,4) replaced_refl [of "receiveTime e" ?C] by (auto simp: running_def seq_wf_def)
    from seqRun_ok [OF lt this, of "app i"] app i(1) obtain s2 now' where s2: "seq_runProcess ops i (app i) ?s = Some s2" "same ?s s2"
      "running lt n i True ?C now' s2" by (auto simp: ends_def)
    let ?s' = "s2\<lparr>sq_eventSet := es_cleanUp ops (sq_eventSet s2)\<rparr>"
    have "seq_turn ops app simulateUntil s = Some (?s', True)"
      using s1 e i s2(1) by (simp add: seq_turn_def same_def i_def [symmetric] vec_simps seq_wf_def order_trans [OF i(3,2)])
    moreover have "wf_mgr n ?s'" "contents (sq_eventSet ?s') = contents (sq_eventSet s2)"
      using s2(3) clean [of "sq_eventSet s2"] by (auto simp: running_def seq_wf_def)
    moreover have "lt = (<) \<longrightarrow> (contents (sq_eventSet s2), ?C) \<in> mult later" using s2(3) replaced_mult by (auto simp: running_def)
    ultimately show ?thesis using s2(2) e(3) i(2) by (intro exI [of _ ?s'] exI [of _ True]) (simp add: same_def)
  qed
qed

lemma turns_ok:
  assumes lt: "\<And>a b. lt a b \<Longrightarrow> a \<le> b" and app: "\<forall>i < n. causal lt n None (app i) \<and> consumes (app i)" and "wf_mgr n s"
  shows "\<exists>s'. seq_turns k ops app simulateUntil s = Some s' \<and> wf_mgr n s' \<and> sq_simulationTime s \<le> sq_simulationTime s'"
  using assms(3)
proof (induction k arbitrary: s)
  case (Suc k)
  obtain s1 go where s1: "seq_turn ops app simulateUntil s = Some (s1, go)" "wf_mgr n s1" "sq_simulationTime s \<le> sq_simulationTime s1"
    using turn_ok [OF lt Suc.prems app] by blast
  obtain s2 where "seq_turns k ops app simulateUntil s1 = Some s2" "wf_mgr n s2" "sq_simulationTime s1 \<le> sq_simulationTime s2"
    using Suc.IH [OF s1(2)] by blast
  then show ?case using s1 order_trans [of "sq_simulationTime s" "sq_simulationTime s1" "sq_simulationTime s2"] by (cases go) simp_all
qed simp

text \<open>If time cannot increase for ever, the simulation ends, and when it ends no event up to its end time is left.\<close>

lemma simulate_ends:
  assumes w: "wf {(a, b :: 't). b < a}" and app: "\<forall>i < n. causal (<) n None (app i) \<and> consumes (app i)" and "wf_mgr n s"
  shows "\<exists>s'. seq_simulate ops app simulateUntil s = Some s' \<and> wf_mgr n s' \<and>
    (sq_simulationTime s' < simulateUntil \<longrightarrow> (\<forall>e \<in># contents (sq_eventSet s'). simulateUntil < receiveTime e))"
proof -
  have "wf (later :: ('t event \<times> 't event) set)"
    using wf_inv_image [OF w, of receiveTime] by (simp add: later_def inv_image_def case_prod_beta)
  then have m: "wf (mult (later :: ('t event \<times> 't event) set))" by (rule wf_mult)
  show ?thesis using assms(3)
  proof (induction "contents (sq_eventSet s)" arbitrary: s rule: wf_induct_rule [OF m])
    case (1 s)
    obtain s1 go where s1: "seq_turn ops app simulateUntil s = Some (s1, go)" "wf_mgr n s1"
      "go \<longrightarrow> (contents (sq_eventSet s1), contents (sq_eventSet s)) \<in> mult later"
      "\<not> go \<longrightarrow> sq_simulationTime s1 < simulateUntil \<longrightarrow> (\<forall>x \<in># contents (sq_eventSet s1). simulateUntil < receiveTime x)"
      using turn_ok [OF less_imp_le 1(2) app, of simulateUntil] by blast
    show ?case
    proof (cases go)
      case True
      then obtain s' where "seq_simulate ops app simulateUntil s1 = Some s'" "wf_mgr n s'"
        "sq_simulationTime s' < simulateUntil \<longrightarrow> (\<forall>e \<in># contents (sq_eventSet s'). simulateUntil < receiveTime e)"
        using 1(1) [OF _ s1(2)] s1(3) by blast
      then show ?thesis using True s1(1) by (simp add: seq_simulate.simps [of ops app simulateUntil s])
    next
      case False
      then show ?thesis using s1 by (simp add: seq_simulate.simps [of ops app simulateUntil s])
    qed
  qed
qed

end

interpretation seq: sequential splayTreeOps st_inv "\<lambda>q. mset (st_events q)" st_first
  by unfold_locales

subsection \<open>Properties\<close>

abbreviation seq_ok :: "nat \<Rightarrow> ('t :: {linorder, zero}, 't splayTree, 'st) seqMgr \<Rightarrow> bool" where
  "seq_ok n \<equiv> seq_wf st_inv (\<lambda>q. mset (st_events q)) n"


text \<open>the sequential simulation respects causality: if the objects send no event into their past, then after any number of turns of the main
  loop nothing has failed, the simulation time has not gone back, and no event that is still waiting lies before it.\<close>

theorem sequential_causality:
  fixes s :: "('t :: {linorder, zero}, 't splayTree, 'st) seqMgr"
  assumes "\<forall>i < n. causal (\<le>) n None (app i) \<and> consumes (app i)" and "seq_ok n s"
  shows "\<exists>s'. seq_turns k splayTreeOps app simulateUntil s = Some s' \<and> sq_simulationTime s \<le> sq_simulationTime s' \<and>
    (\<forall>e \<in> set (st_events (sq_eventSet s')). sq_simulationTime s' \<le> receiveTime e)"
proof -
  obtain s' where "seq_turns k splayTreeOps app simulateUntil s = Some s'" "seq_ok n s'" "sq_simulationTime s \<le> sq_simulationTime s'"
    using seq.turns_ok [OF _ assms] by blast
  then show ?thesis by (auto simp: seq_wf_def)
qed


text \<open>Two objects that pass an event to each other at time 20.\<close>

definition ex_seq_app :: "nat \<Rightarrow> (intvtime, nat) process" where
  "ex_seq_app i = GetEvent (\<lambda>e. case e of None \<Rightarrow> Done | Some e \<Rightarrow> GetState (\<lambda>k. PutState (k + 1)
     (if receiveTime e < IntVTime 20 then ReceiveEvent (e\<lparr>receiver := ObjectID (if i = 0 then 1 else 0) 0, receiveTime := IntVTime 20\<rparr>) Done else Done)))"

definition ex_seq :: "(intvtime, intvtime splayTree, nat) seqMgr" where
  "ex_seq = \<lparr>sq_eventSet = ex_tree, sq_simulationTime = 0, sq_localVirtualTime = [0, 0, 0], sq_myState = [0, 0, 0], numberOfProcessedEvents = 0\<rparr>"


lemma ex_seq_ok: "seq_ok 3 ex_seq"
proof -
  have "list_all (\<lambda>e. 0 \<le> receiveTime e \<and> objIdOf (receiver e) < 3) (st_events ex_tree)" by code_simp
  then show ?thesis using ex_tree_inv by (simp add: seq_wf_def ex_seq_def list_all_iff)
qed

theorem sequential_causality_witness:
  "\<exists>s'. seq_turns 3 splayTreeOps ex_seq_app (IntVTime 30) ex_seq = Some s' \<and> 0 \<le> sq_simulationTime s'"
proof -
  have "causal (\<le>) 3 None (ex_seq_app i) \<and> consumes (ex_seq_app i)" if "i < 3" for i
    by (auto simp: ex_seq_app_def objIdOf_def split: option.splits)
  then show ?thesis using sequential_causality [OF _ ex_seq_ok, of ex_seq_app 3 "IntVTime 30"] by (auto simp: ex_seq_def)
qed


end
