(* ===== verification/DynamicOutput.thy ===== *)
theory DynamicOutput
  imports OutputQueue Complex_Main
begin

text \<open>
  The output manager that switches between aggressive and lazy cancellation, \<open>AdaptiveOutputManager.cpp\<close>. In aggressive mode the events
  taken back by a rollback are cancelled at once and kept in the lazy queue only to measure how many of them are regenerated; in lazy mode they
  are cancelled when they are not regenerated in time. The calls of \<open>cancelEvents\<close> are the lists of events that the operations return.
\<close>

subsection \<open>Data\<close>

datatype cancellationMode = AGGRESSIVE | LAZY

text \<open>
  The constructor fills the vector \<open>comparisonResults\<close> with copies of one pointer, so that all objects share the one vector that
  \<open>comparisonResults\<close> is here. The ratio is a multiple of 1/16 and exact as a \<open>float\<close>.
\<close>

record 't dynamicManager =
  dm_lazy :: "'t lazyManager"
  curCancelMode :: "cancellationMode list"
  hitCount :: "nat list"
  hitRatio :: "rat list"
  filterDepth :: nat
  comparisonResults :: "nat list"
  curMeasured :: "nat list"
  permanentlyAggressive :: "bool list"
  thirdThreshold :: bool

definition FILTER_DEPTH :: nat where "FILTER_DEPTH = 16"

definition AGGRESSIVE_TO_LAZY :: rat where "AGGRESSIVE_TO_LAZY = 1 / 2"

definition LAZY_TO_AGGRESSIVE :: rat where "LAZY_TO_AGGRESSIVE = 2 / 10"

definition THIRD_THRESHOLD :: rat where "THIRD_THRESHOLD = 1 / 10"

definition DynamicOutputManager :: "nat \<Rightarrow> bool \<Rightarrow> 't dynamicManager" where
  "DynamicOutputManager n useThirdThreshold =
     \<lparr>dm_lazy = (LazyOutputManager n)\<lparr>compareAndInsertMode := replicate n False\<rparr>, curCancelMode = replicate n AGGRESSIVE,
      hitCount = replicate n 0, hitRatio = replicate n 0, filterDepth = FILTER_DEPTH, comparisonResults = replicate FILTER_DEPTH 0,
      curMeasured = replicate n 0, permanentlyAggressive = replicate n False, thirdThreshold = useThirdThreshold\<rparr>"

subsection \<open>Operations\<close>

definition setCompareMode :: "nat \<Rightarrow> bool \<Rightarrow> 't lazyManager \<Rightarrow> 't lazyManager option" where
  "setCompareMode i mode s = do { v \<leftarrow> vec_set (compareAndInsertMode s) i mode; Some (s\<lparr>compareAndInsertMode := v\<rparr>) }"

definition dm_insert :: "(objectID \<Rightarrow> bool) \<Rightarrow> 't event \<Rightarrow> 't dynamicManager \<Rightarrow> 't dynamicManager option" where
  "dm_insert isLocal event m = do {
     outs \<leftarrow> om_insert isLocal event (lm_outputs (dm_lazy m));
     Some (m\<lparr>dm_lazy := (dm_lazy m)\<lparr>lm_outputs := outs\<rparr>\<rparr>) }"

definition dm_handleCancelEvents_obj :: "nat \<Rightarrow> 't dynamicManager \<Rightarrow> ('t dynamicManager \<times> 't event list list) option" where
  "dm_handleCancelEvents_obj i m = do { (l, cancelled) \<leftarrow> handleCancelEvents_obj i (dm_lazy m); Some (m\<lparr>dm_lazy := l\<rparr>, cancelled) }"

text \<open>One result of the comparison of regenerated events: 1 for a hit, 0 for a miss.\<close>

definition recordResult :: "nat \<Rightarrow> nat \<Rightarrow> 't dynamicManager \<Rightarrow> 't dynamicManager option" where
  "recordResult i result m = do {
     measured \<leftarrow> vec_get (curMeasured m) i;
     results \<leftarrow> vec_set (comparisonResults m) (measured mod filterDepth m) result;
     Some (m\<lparr>comparisonResults := results, curMeasured := (curMeasured m)[i := measured + 1]\<rparr>) }"

fun recordMisses :: "nat \<Rightarrow> nat \<Rightarrow> 't dynamicManager \<Rightarrow> 't dynamicManager option" where
  "recordMisses i 0 m = Some m"
| "recordMisses i (Suc n) m = do { m1 \<leftarrow> recordResult i 0 m; recordMisses i n m1 }"

text \<open>The new mode, whether it is permanent, and whether the lazy events have to be cancelled or dropped.\<close>

definition chooseMode :: "bool \<Rightarrow> cancellationMode \<Rightarrow> rat \<Rightarrow> cancellationMode \<times> bool" where
  "chooseMode third mode ratio =
     (if third \<and> ratio < THIRD_THRESHOLD then (AGGRESSIVE, True)
      else if mode = LAZY \<and> ratio < LAZY_TO_AGGRESSIVE then (AGGRESSIVE, False)
      else if mode = AGGRESSIVE \<and> ratio > AGGRESSIVE_TO_LAZY then (LAZY, False)
      else (mode, False))"

definition determineCancellationMode :: "nat \<Rightarrow> 't dynamicManager \<Rightarrow> ('t dynamicManager \<times> 't event list list) option" where
  "determineCancellationMode i m = do {
     mode \<leftarrow> vec_get (curCancelMode m) i;
     perm \<leftarrow> vec_get (permanentlyAggressive m) i;
     queue \<leftarrow> vec_get (lazyQueues (dm_lazy m)) i;
     toCancel \<leftarrow> vec_get (eventsToCancel (dm_lazy m)) i;
     hits \<leftarrow> vec_set (hitCount m) i (length (filter (\<lambda>r. r = 1) (take (filterDepth m) (comparisonResults m))));
     ratios \<leftarrow> vec_set (hitRatio m) i (of_nat (hits ! i) / of_nat (filterDepth m));
     measured \<leftarrow> vec_set (curMeasured m) i 0;
     let (newMode, permanent) = chooseMode (thirdThreshold m) mode (ratios ! i);
     l1 \<leftarrow> (if permanent \<or> newMode \<noteq> mode then setCompareMode i (newMode = LAZY) (dm_lazy m) else Some (dm_lazy m));
     let aggrToLazy = (mode = AGGRESSIVE \<and> newMode = LAZY);
     let lazyToAggr = (mode = LAZY \<and> newMode = AGGRESSIVE);
     let m1 = m\<lparr>curCancelMode := (curCancelMode m)[i := newMode], permanentlyAggressive := (permanentlyAggressive m)[i := perm \<or> permanent],
       hitCount := hits, hitRatio := ratios, curMeasured := measured\<rparr>;
     if aggrToLazy then Some (m1\<lparr>dm_lazy := l1\<lparr>lazyQueues := (lazyQueues l1)[i := []]\<rparr>\<rparr>, [])
     else if lazyToAggr then do {
       (l2, cancelled) \<leftarrow> handleCancelEvents_obj i (l1\<lparr>eventsToCancel := (eventsToCancel l1)[i := toCancel @ queue]\<rparr>);
       Some (m1\<lparr>dm_lazy := l2\<lparr>lazyQueues := (lazyQueues l2)[i := []]\<rparr>\<rparr>, cancelled) }
     else Some (m1\<lparr>dm_lazy := l1\<rparr>, []) }"

text \<open>\<open>if (curMeasured[t] >= filterDepth) { determineCancellationMode(t); curMeasured[t] = 0; }\<close>\<close>

definition checkMeasured :: "nat \<Rightarrow> 't dynamicManager \<Rightarrow> ('t dynamicManager \<times> 't event list list) option" where
  "checkMeasured i m = do {
     measured \<leftarrow> vec_get (curMeasured m) i;
     if measured \<ge> filterDepth m then do {
       (m1, cancelled) \<leftarrow> determineCancellationMode i m;
       Some (m1\<lparr>curMeasured := (curMeasured m1)[i := 0]\<rparr>, cancelled) }
     else Some (m, []) }"

definition checkDynamicCancel ::
  "('t event \<Rightarrow> 't event \<Rightarrow> bool) \<Rightarrow> (objectID \<Rightarrow> bool) \<Rightarrow> ('t :: linorder) event \<Rightarrow> 't dynamicManager \<Rightarrow>
   ('t dynamicManager \<times> bool \<times> 't event list list) option" where
  "checkDynamicCancel eventCompare isLocal event m = do {
     let objID = unat (getSimulationObjectID (sender event));
     queue \<leftarrow> vec_get (lazyQueues (dm_lazy m)) objID;
     if length queue > 0 then do {
       perm \<leftarrow> vec_get (permanentlyAggressive m) objID;
       if \<not> perm then do {
         mode \<leftarrow> vec_get (curCancelMode m) objID;
         l0 \<leftarrow> setCompareMode objID (mode = LAZY) (dm_lazy m);
         (l1, lazyCancelHit) \<leftarrow> checkLazyCancelEvent eventCompare isLocal event l0;
         toCancel \<leftarrow> vec_get (eventsToCancel l1) objID;
         (m2, cancelled) \<leftarrow>
           (if mode = LAZY then do {
              m1 \<leftarrow> (if lazyCancelHit \<and> compareAndInsertMode l1 ! objID then Some (m\<lparr>dm_lazy := l1\<rparr>)
                    else dm_insert isLocal event (m\<lparr>dm_lazy := l1\<rparr>));
              dm_handleCancelEvents_obj objID m1 }
            else do {
              m1 \<leftarrow> dm_insert isLocal event (m\<lparr>dm_lazy := l1\<lparr>eventsToCancel := (eventsToCancel l1)[objID := []]\<rparr>\<rparr>);
              Some (m1, []) });
         m3 \<leftarrow> (if lazyCancelHit then recordResult objID 1 m2 else Some m2);
         m4 \<leftarrow> recordMisses objID (length toCancel) m3;
         (m5, cancelled') \<leftarrow> checkMeasured objID m4;
         Some (m5, mode = LAZY \<and> lazyCancelHit, cancelled @ cancelled') }
       else do { m1 \<leftarrow> dm_insert isLocal event m; Some (m1, False, []) } }
     else do { m1 \<leftarrow> dm_insert isLocal event m; Some (m1, False, []) } }"

text \<open>The loop over one lazy queue; only lazy events are still to be cancelled.\<close>

definition drainLazyQueue :: "nat \<Rightarrow> ('t :: linorder) \<Rightarrow> 't dynamicManager \<Rightarrow> 't dynamicManager option" where
  "drainLazyQueue i time m = do {
     queue \<leftarrow> vec_get (lazyQueues (dm_lazy m)) i;
     toCancel \<leftarrow> vec_get (eventsToCancel (dm_lazy m)) i;
     mode \<leftarrow> vec_get (curCancelMode m) i;
     let late = takeWhile (\<lambda>e. sendTime e < time) queue;
     recordMisses i (length late)
       (m\<lparr>dm_lazy := (dm_lazy m)\<lparr>lazyQueues := (lazyQueues (dm_lazy m))[i := drop (length late) queue],
          eventsToCancel := (eventsToCancel (dm_lazy m))[i := if mode = LAZY then toCancel @ late else toCancel]\<rparr>\<rparr>) }"

definition dm_emptyLazyQueue :: "nat \<Rightarrow> ('t :: linorder) \<Rightarrow> 't dynamicManager \<Rightarrow> ('t dynamicManager \<times> 't event list list) option" where
  "dm_emptyLazyQueue i time m = do {
     m1 \<leftarrow> drainLazyQueue i time m;
     (m2, cancelled) \<leftarrow> dm_handleCancelEvents_obj i m1;
     (m3, cancelled') \<leftarrow> checkMeasured i m2;
     Some (m3, cancelled @ cancelled') }"

fun drainAll :: "nat list \<Rightarrow> ('t :: linorder) \<Rightarrow> 't dynamicManager \<Rightarrow> 't dynamicManager option" where
  "drainAll [] time m = Some m"
| "drainAll (i # is) time m = do { m1 \<leftarrow> drainLazyQueue i time m; drainAll is time m1 }"

fun checkAll :: "nat list \<Rightarrow> 't dynamicManager \<Rightarrow> ('t dynamicManager \<times> 't event list list) option" where
  "checkAll [] m = Some (m, [])"
| "checkAll (i # is) m = do {
     (m1, cancelled) \<leftarrow> checkMeasured i m;
     (m2, cancelled') \<leftarrow> checkAll is m1;
     Some (m2, cancelled @ cancelled') }"

definition dm_emptyLazyQueues :: "('t :: linorder) \<Rightarrow> 't dynamicManager \<Rightarrow> ('t dynamicManager \<times> 't event list list) option" where
  "dm_emptyLazyQueues time m = do {
     m1 \<leftarrow> drainAll [0..<length (lazyQueues (dm_lazy m))] time m;
     let (l, cancelled) = handleCancelEvents (dm_lazy m1);
     (m2, cancelled') \<leftarrow> checkAll [0..<length (curMeasured m1)] (m1\<lparr>dm_lazy := l\<rparr>);
     Some (m2, cancelled @ cancelled') }"

definition dm_rollback ::
  "(('t :: linorder) event list \<Rightarrow> 't event list) \<Rightarrow> (u32 \<Rightarrow> int) option \<Rightarrow> ('t \<Rightarrow> int) \<Rightarrow> nat \<Rightarrow> 't \<Rightarrow> 't dynamicManager \<Rightarrow>
   ('t dynamicManager \<times> 't event list list \<times> (u32 \<times> int) option) option" where
  "dm_rollback srt ofc approx i rollbackTime m = do {
     q \<leftarrow> vec_get (lm_outputs (dm_lazy m)) i;
     perm \<leftarrow> vec_get (permanentlyAggressive m) i;
     mode \<leftarrow> vec_get (curCancelMode m) i;
     queue \<leftarrow> vec_get (lazyQueues (dm_lazy m)) i;
     let (q', tempOutEvents, recovery) = getEventsSentAtOrAfterAndRemove ofc approx rollbackTime q;
     let l1 = (dm_lazy m)\<lparr>lm_outputs := (lm_outputs (dm_lazy m))[i := q']\<rparr>;
     let l2 = (if \<not> perm then l1\<lparr>lazyQueues := (lazyQueues l1)[i := srt (queue @ tempOutEvents)]\<rparr> else l1);
     Some (m\<lparr>dm_lazy := l2\<rparr>,
       if (perm \<or> mode = AGGRESSIVE) \<and> length tempOutEvents > 0 then [tempOutEvents] else [], recovery) }"

definition dm_ofcPurge :: "'t dynamicManager \<Rightarrow> 't dynamicManager" where
  "dm_ofcPurge m = m\<lparr>dm_lazy := (lazyOfcPurge (dm_lazy m))\<lparr>compareAndInsertMode := compareAndInsertMode (dm_lazy m)\<rparr>,
     hitCount := map (\<lambda>_. 0) (hitCount m), hitRatio := map (\<lambda>_. 0) (hitRatio m), curMeasured := map (\<lambda>_. 0) (curMeasured m),
     comparisonResults := map (\<lambda>_. 0) (comparisonResults m)\<rparr>"

subsection \<open>Accounting\<close>

abbreviation objects :: "'t dynamicManager \<Rightarrow> nat" where
  "objects m \<equiv> length (lm_outputs (dm_lazy m))"

definition dm_sizes :: "'t dynamicManager \<Rightarrow> bool" where
  "dm_sizes m \<longleftrightarrow> lm_sizes (dm_lazy m) \<and> length (curCancelMode m) = objects m \<and> length (hitCount m) = objects m \<and>
     length (hitRatio m) = objects m \<and> length (curMeasured m) = objects m \<and> length (permanentlyAggressive m) = objects m \<and>
     filterDepth m > 0 \<and> length (comparisonResults m) = filterDepth m"

text \<open>The output and lazy queues of an object hold events that this object sent.\<close>

definition dm_own :: "'t dynamicManager \<Rightarrow> bool" where
  "dm_own m \<longleftrightarrow> (\<forall>i < objects m. \<forall>e \<in># sentEvents (lm_outputs (dm_lazy m) ! i) + mset (lazyQueues (dm_lazy m) ! i).
     unat (getSimulationObjectID (sender e)) = i)"

definition dm_idle :: "'t dynamicManager \<Rightarrow> bool" where
  "dm_idle m \<longleftrightarrow> (\<forall>i < objects m. eventsToCancel (dm_lazy m) ! i = [])"

text \<open>The events of an object that their receivers have and that are not cancelled: those of the output queue, in lazy mode also those of the lazy
  queue, and those about to be cancelled.\<close>

definition outstanding :: "nat \<Rightarrow> 't dynamicManager \<Rightarrow> 't event multiset" where
  "outstanding i m = sentEvents (lm_outputs (dm_lazy m) ! i) +
     (if curCancelMode m ! i = LAZY then mset (lazyQueues (dm_lazy m) ! i) else {#}) + mset (eventsToCancel (dm_lazy m) ! i)"

definition allOutstanding :: "'t dynamicManager \<Rightarrow> 't event multiset" where
  "allOutstanding m = (\<Sum>i < objects m. outstanding i m)"

text \<open>An operation on object \<open>i\<close> that sends \<open>sent\<close> and cancels \<open>cancelled\<close> accounts for all events.\<close>

definition accounts :: "nat \<Rightarrow> 't event multiset \<Rightarrow> 't event list list \<Rightarrow> 't dynamicManager \<Rightarrow> 't dynamicManager \<Rightarrow> bool" where
  "accounts i sent cancelled m m' \<longleftrightarrow> dm_sizes m' \<and> dm_own m' \<and> objects m' = objects m \<and>
     (\<forall>j < objects m. j \<noteq> i \<longrightarrow> outstanding j m' = outstanding j m \<and> eventsToCancel (dm_lazy m') ! j = eventsToCancel (dm_lazy m) ! j) \<and>
     outstanding i m' + mset (concat cancelled) = outstanding i m + sent"

lemma accounts_trans:
  "accounts i s1 c1 m m1 \<Longrightarrow> accounts i s2 c2 m1 m2 \<Longrightarrow> accounts i (s1 + s2) (c1 @ c2) m m2"
  unfolding accounts_def by (auto simp: ac_simps) (metis add.assoc add.commute)

lemma accounts_total:
  assumes "accounts i sent cancelled m m'" and "i < objects m"
  shows "allOutstanding m' + mset (concat cancelled) = allOutstanding m + sent"
proof -
  have "(\<Sum>j \<in> {..<objects m} - {i}. outstanding j m') = (\<Sum>j \<in> {..<objects m} - {i}. outstanding j m)"
    using assms(1) by (intro sum.cong) (auto simp: accounts_def)
  then show ?thesis
    using assms sum.remove [of "{..<objects m}" i "\<lambda>j. outstanding j m"] sum.remove [of "{..<objects m}" i "\<lambda>j. outstanding j m'"]
    by (simp add: accounts_def allOutstanding_def ac_simps)
qed

lemma accounts_idle:
  assumes "accounts i sent cancelled m m'" and "dm_idle m" and "eventsToCancel (dm_lazy m') ! i = []"
  shows "dm_idle m'"
  using assms by (auto simp: accounts_def dm_idle_def)

text \<open>Recording a result changes nothing that the accounting looks at.\<close>

definition sameQueues :: "'t dynamicManager \<Rightarrow> 't dynamicManager \<Rightarrow> bool" where
  "sameQueues m m' \<longleftrightarrow> dm_lazy m' = dm_lazy m \<and> curCancelMode m' = curCancelMode m \<and> permanentlyAggressive m' = permanentlyAggressive m \<and> dm_sizes m'"

lemma sameQueues_accounts: "sameQueues m m' \<Longrightarrow> dm_own m \<Longrightarrow> accounts i {#} [] m m'"
  by (simp add: sameQueues_def accounts_def dm_own_def outstanding_def)

lemma recordResult_ok:
  assumes "dm_sizes m" and "i < objects m"
  shows "\<exists>m'. recordResult i r m = Some m' \<and> sameQueues m m'"
  using assms by (simp add: recordResult_def dm_sizes_def sameQueues_def vec_simps)

lemma recordMisses_ok:
  assumes "dm_sizes m" and "i < objects m"
  shows "\<exists>m'. recordMisses i n m = Some m' \<and> sameQueues m m'"
  using assms
proof (induction n arbitrary: m)
  case 0
  then show ?case by (simp add: sameQueues_def)
next
  case (Suc n)
  obtain m1 where m1: "recordResult i 0 m = Some m1" "sameQueues m m1" using recordResult_ok [OF Suc.prems] by blast
  moreover obtain m2 where "recordMisses i n m1 = Some m2" "sameQueues m1 m2" using Suc.IH [of m1] m1 Suc.prems by (auto simp: sameQueues_def)
  ultimately show ?case by (simp add: sameQueues_def)
qed

text \<open>An operation that only touches the lists of object \<open>i\<close>.\<close>

lemma accounts_at:
  assumes "dm_own m" and "dm_sizes m'" and "objects m' = objects m"
    and "\<forall>j. j \<noteq> i \<longrightarrow> lm_outputs (dm_lazy m') ! j = lm_outputs (dm_lazy m) ! j \<and> lazyQueues (dm_lazy m') ! j = lazyQueues (dm_lazy m) ! j \<and>
      eventsToCancel (dm_lazy m') ! j = eventsToCancel (dm_lazy m) ! j \<and> curCancelMode m' ! j = curCancelMode m ! j"
    and "\<forall>e \<in># sentEvents (lm_outputs (dm_lazy m') ! i) + mset (lazyQueues (dm_lazy m') ! i). unat (getSimulationObjectID (sender e)) = i"
    and "outstanding i m' + mset (concat c) = outstanding i m + sent"
  shows "accounts i sent c m m'"
proof -
  have "dm_own m'"
    unfolding dm_own_def
  proof (intro allI impI)
    fix j assume "j < objects m'"
    then show "\<forall>e \<in># sentEvents (lm_outputs (dm_lazy m') ! j) + mset (lazyQueues (dm_lazy m') ! j). unat (getSimulationObjectID (sender e)) = j"
      using assms(1,3,4,5) by (cases "j = i") (simp_all add: dm_own_def)
  qed
  then show ?thesis using assms unfolding accounts_def by (simp add: outstanding_def)
qed

lemma dm_ownD:
  "dm_own m \<Longrightarrow> i < objects m \<Longrightarrow>
   \<forall>e \<in># sentEvents (lm_outputs (dm_lazy m) ! i) + mset (lazyQueues (dm_lazy m) ! i). unat (getSimulationObjectID (sender e)) = i"
  by (simp add: dm_own_def)

lemma handleCancel_ok:
  assumes "dm_sizes m" and "dm_own m" and "i < objects m"
  shows "\<exists>m' c. dm_handleCancelEvents_obj i m = Some (m', c) \<and> accounts i {#} c m m' \<and> eventsToCancel (dm_lazy m') ! i = [] \<and>
    curCancelMode m' = curCancelMode m"
proof -
  let ?tc = "eventsToCancel (dm_lazy m)"
  let ?m = "if ?tc ! i = [] then m else m\<lparr>dm_lazy := (dm_lazy m)\<lparr>eventsToCancel := ?tc[i := []]\<rparr>\<rparr>"
  have l: "i < length ?tc" using assms by (simp add: dm_sizes_def lm_sizes_def)
  then have h: "dm_handleCancelEvents_obj i m = Some (?m, if ?tc ! i = [] then [] else [?tc ! i])"
    by (simp add: dm_handleCancelEvents_obj_def handleCancelEvents_obj_def vec_simps)
  have "dm_sizes ?m" using assms(1) by (simp add: dm_sizes_def lm_sizes_def)
  then have "accounts i {#} (if ?tc ! i = [] then [] else [?tc ! i]) m ?m"
    using dm_ownD [OF assms(2,3)] l assms(2) by (intro accounts_at) (simp_all add: outstanding_def)
  then show ?thesis using h l by simp
qed

lemma insert_ok:
  assumes "dm_sizes m" and "dm_own m" and "i < objects m" and "i = unat (getSimulationObjectID (sender e))"
  shows "\<exists>m'. dm_insert isLocal e m = Some m' \<and> accounts i {#e#} [] m m' \<and> eventsToCancel (dm_lazy m') = eventsToCancel (dm_lazy m) \<and>
    curCancelMode m' = curCancelMode m"
proof -
  let ?os = "lm_outputs (dm_lazy m)"
  let ?m = "m\<lparr>dm_lazy := (dm_lazy m)\<lparr>lm_outputs := ?os[i := oe_insert isLocal e (?os ! i)]\<rparr>\<rparr>"
  have h: "dm_insert isLocal e m = Some ?m"
    using assms(3) by (simp add: dm_insert_def om_insert_def vec_simps flip: assms(4))
  have "dm_sizes ?m" using assms(1) by (simp add: dm_sizes_def lm_sizes_def)
  then have "accounts i {#e#} [] m ?m"
    using dm_ownD [OF assms(2,3)] assms(2,3) assms(4) [symmetric] by (intro accounts_at) (simp_all add: outstanding_def sentEvents_oe_insert)
  then show ?thesis using h by simp
qed

text \<open>Moving events between the lazy queue, the events to cancel and the cancelled events.\<close>

lemma moves_account:
  assumes "dm_own m" and "i < objects m" and "dm_sizes m" and "dm_sizes m'" and "lm_outputs (dm_lazy m') = lm_outputs (dm_lazy m)"
    and "lazyQueues (dm_lazy m') = (lazyQueues (dm_lazy m))[i := q]" and "set q \<subseteq> set (lazyQueues (dm_lazy m) ! i)"
    and "eventsToCancel (dm_lazy m') = (eventsToCancel (dm_lazy m))[i := tc]" and "curCancelMode m' = (curCancelMode m)[i := mode]"
    and "(if mode = LAZY then mset q else {#}) + mset tc + mset (concat c) =
      (if curCancelMode m ! i = LAZY then mset (lazyQueues (dm_lazy m) ! i) else {#}) + mset (eventsToCancel (dm_lazy m) ! i)"
  shows "accounts i {#} c m m'"
proof (rule accounts_at [OF assms(1,4)])
  have "i < length (lazyQueues (dm_lazy m))" "i < length (eventsToCancel (dm_lazy m))" "i < length (curCancelMode m)"
    using assms(2,3) by (simp_all add: dm_sizes_def lm_sizes_def)
  note len = this
  show "\<forall>e \<in># sentEvents (lm_outputs (dm_lazy m') ! i) + mset (lazyQueues (dm_lazy m') ! i). unat (getSimulationObjectID (sender e)) = i"
    using dm_ownD [OF assms(1,2)] assms(5-7) len(1) by auto
  have "outstanding i m' + mset (concat c) = sentEvents (lm_outputs (dm_lazy m) ! i) +
      ((if mode = LAZY then mset q else {#}) + mset tc + mset (concat c))"
    using assms(5,6,8,9) len by (simp add: outstanding_def ac_simps)
  then show "outstanding i m' + mset (concat c) = outstanding i m + {#}" unfolding assms(10) by (simp add: outstanding_def)
qed (use assms(5,6,8,9) in simp_all)

text \<open>Whatever mode is chosen, the events in the lazy queue are cancelled exactly if they still have to be.\<close>

lemma determine_eq:
  assumes "dm_sizes m" and "i < objects m"
  shows "\<exists>new m1 l1. determineCancellationMode i m =
      (if curCancelMode m ! i = AGGRESSIVE \<and> new = LAZY then Some (m1\<lparr>dm_lazy := l1\<lparr>lazyQueues := (lazyQueues l1)[i := []]\<rparr>\<rparr>, [])
       else if curCancelMode m ! i = LAZY \<and> new = AGGRESSIVE then do {
         (l2, cancelled) \<leftarrow> handleCancelEvents_obj i (l1\<lparr>eventsToCancel := (eventsToCancel l1)[i := eventsToCancel (dm_lazy m) ! i @ lazyQueues (dm_lazy m) ! i]\<rparr>);
         Some (m1\<lparr>dm_lazy := l2\<lparr>lazyQueues := (lazyQueues l2)[i := []]\<rparr>\<rparr>, cancelled) }
       else Some (m1\<lparr>dm_lazy := l1\<rparr>, [])) \<and>
    lm_outputs l1 = lm_outputs (dm_lazy m) \<and> lazyQueues l1 = lazyQueues (dm_lazy m) \<and> eventsToCancel l1 = eventsToCancel (dm_lazy m) \<and> lm_sizes l1 \<and>
    (\<forall>l. curCancelMode (m1\<lparr>dm_lazy := l\<rparr>) = (curCancelMode m)[i := new]) \<and>
    (\<forall>l. lm_sizes l \<longrightarrow> lm_outputs l = lm_outputs (dm_lazy m) \<longrightarrow> dm_sizes (m1\<lparr>dm_lazy := l\<rparr>))"
proof -
  let ?l = "dm_lazy m"
  let ?mode = "curCancelMode m ! i" and ?q = "lazyQueues ?l ! i" and ?tc = "eventsToCancel ?l ! i"
  let ?hits = "(hitCount m)[i := length (filter (\<lambda>r. r = 1) (take (filterDepth m) (comparisonResults m)))]"
  let ?ratios = "(hitRatio m)[i := of_nat (?hits ! i) / of_nat (filterDepth m)]"
  obtain new perm where ch: "chooseMode (thirdThreshold m) ?mode (?ratios ! i) = (new, perm)" by fastforce
  define l1 where "l1 = (if perm \<or> new \<noteq> ?mode then ?l\<lparr>compareAndInsertMode := (compareAndInsertMode ?l)[i := new = LAZY]\<rparr> else ?l)"
  define m1 where "m1 = m\<lparr>curCancelMode := (curCancelMode m)[i := new],
    permanentlyAggressive := (permanentlyAggressive m)[i := permanentlyAggressive m ! i \<or> perm],
    hitCount := ?hits, hitRatio := ?ratios, curMeasured := (curMeasured m)[i := 0]\<rparr>"
  have len: "i < length (curCancelMode m)" "i < length (permanentlyAggressive m)" "i < length (lazyQueues ?l)" "i < length (eventsToCancel ?l)"
    "i < length (hitCount m)" "i < length (hitRatio m)" "i < length (curMeasured m)" "i < length (compareAndInsertMode ?l)"
    using assms by (simp_all add: dm_sizes_def lm_sizes_def)
  have l1: "lm_outputs l1 = lm_outputs ?l" "lazyQueues l1 = lazyQueues ?l" "eventsToCancel l1 = eventsToCancel ?l" "lm_sizes l1"
    using assms(1) by (simp_all add: l1_def dm_sizes_def lm_sizes_def)
  have set: "(if perm \<or> new \<noteq> ?mode then setCompareMode i (new = LAZY) ?l else Some ?l) = Some l1"
    using len by (simp add: l1_def setCompareMode_def vec_simps)
  have det: "determineCancellationMode i m =
      (if ?mode = AGGRESSIVE \<and> new = LAZY then Some (m1\<lparr>dm_lazy := l1\<lparr>lazyQueues := (lazyQueues l1)[i := []]\<rparr>\<rparr>, [])
       else if ?mode = LAZY \<and> new = AGGRESSIVE then do {
         (l2, cancelled) \<leftarrow> handleCancelEvents_obj i (l1\<lparr>eventsToCancel := (eventsToCancel l1)[i := ?tc @ ?q]\<rparr>);
         Some (m1\<lparr>dm_lazy := l2\<lparr>lazyQueues := (lazyQueues l2)[i := []]\<rparr>\<rparr>, cancelled) }
       else Some (m1\<lparr>dm_lazy := l1\<rparr>, []))"
    unfolding determineCancellationMode_def vec_get_in [OF len(1)] vec_get_in [OF len(2)] vec_get_in [OF len(3)] vec_get_in [OF len(4)]
      vec_set_in [OF len(5)] vec_set_in [OF len(6)] vec_set_in [OF len(7)] bind.bind_lunit ch Let_def prod.case set m1_def by simp
  have m1: "curCancelMode (m1\<lparr>dm_lazy := l\<rparr>) = (curCancelMode m)[i := new]" "dm_lazy (m1\<lparr>dm_lazy := l\<rparr>) = l" for l
    by (simp_all add: m1_def)
  have idm: "dm_sizes (m1\<lparr>dm_lazy := l\<rparr>)" if "lm_sizes l" "lm_outputs l = lm_outputs ?l" for l
    using that assms(1) by (simp add: dm_sizes_def m1_def)
  show ?thesis using det l1 m1(1) idm by (intro exI [of _ new] exI [of _ m1] exI [of _ l1]) simp
qed

lemma determine_ok:
  assumes "dm_sizes m" and "dm_own m" and "i < objects m"
  shows "\<exists>m' c. determineCancellationMode i m = Some (m', c) \<and> accounts i {#} c m m' \<and>
    (eventsToCancel (dm_lazy m) ! i = [] \<longrightarrow> eventsToCancel (dm_lazy m') ! i = [])"
proof -
  let ?l = "dm_lazy m"
  let ?mode = "curCancelMode m ! i" and ?q = "lazyQueues ?l ! i" and ?tc = "eventsToCancel ?l ! i"
  have len: "i < length (eventsToCancel ?l)" using assms(1,3) by (simp_all add: dm_sizes_def lm_sizes_def)
  obtain new m1 l1 where det: "determineCancellationMode i m =
      (if ?mode = AGGRESSIVE \<and> new = LAZY then Some (m1\<lparr>dm_lazy := l1\<lparr>lazyQueues := (lazyQueues l1)[i := []]\<rparr>\<rparr>, [])
       else if ?mode = LAZY \<and> new = AGGRESSIVE then do {
         (l2, cancelled) \<leftarrow> handleCancelEvents_obj i (l1\<lparr>eventsToCancel := (eventsToCancel l1)[i := ?tc @ ?q]\<rparr>);
         Some (m1\<lparr>dm_lazy := l2\<lparr>lazyQueues := (lazyQueues l2)[i := []]\<rparr>\<rparr>, cancelled) }
       else Some (m1\<lparr>dm_lazy := l1\<rparr>, []))"
    and l1: "lm_outputs l1 = lm_outputs ?l" "lazyQueues l1 = lazyQueues ?l" "eventsToCancel l1 = eventsToCancel ?l" "lm_sizes l1"
    and m1: "\<And>l. curCancelMode (m1\<lparr>dm_lazy := l\<rparr>) = (curCancelMode m)[i := new]"
    and idm: "\<And>l. lm_sizes l \<Longrightarrow> lm_outputs l = lm_outputs ?l \<Longrightarrow> dm_sizes (m1\<lparr>dm_lazy := l\<rparr>)"
    using determine_eq [OF assms(1,3)] by blast
  have lazy: "dm_lazy (m1\<lparr>dm_lazy := l\<rparr>) = l" for l by simp
  note mv = moves_account [OF assms(2,3,1) idm, unfolded m1 lazy, OF _ _ _ _ _ _ refl]
  consider (toLazy) "?mode = AGGRESSIVE" "new = LAZY" | (toAggr) "?mode = LAZY" "new = AGGRESSIVE" | (keep) "new = ?mode"
    by (cases ?mode; cases new) auto
  then show ?thesis
  proof cases
    case toLazy
    have "accounts i {#} [] m (m1\<lparr>dm_lazy := l1\<lparr>lazyQueues := (lazyQueues l1)[i := []]\<rparr>\<rparr>)"
      using toLazy l1 by (intro mv [where q = "[]" and tc = ?tc]) (simp_all add: lm_sizes_def)
    then show ?thesis using toLazy det l1(3) by simp
  next
    case toAggr
    let ?c = "if ?tc @ ?q = [] then [] else [?tc @ ?q]"
    let ?l2 = "l1\<lparr>eventsToCancel := (eventsToCancel l1)[i := []], lazyQueues := (lazyQueues l1)[i := []]\<rparr>"
    have "accounts i {#} ?c m (m1\<lparr>dm_lazy := ?l2\<rparr>)"
      using toAggr l1 by (intro mv [where q = "[]" and tc = "[]"]) (simp_all add: lm_sizes_def ac_simps)
    moreover have "determineCancellationMode i m = Some (m1\<lparr>dm_lazy := ?l2\<rparr>, ?c)"
      using toAggr det l1(2,3) len by (simp add: handleCancelEvents_obj_def vec_simps)
    moreover have "eventsToCancel ?l2 ! i = []" using l1(3) len by simp
    ultimately show ?thesis by (metis lazy)
  next
    case keep
    have "accounts i {#} [] m (m1\<lparr>dm_lazy := l1\<rparr>)"
      using keep l1 by (intro mv [where q = ?q and tc = ?tc]) simp_all
    moreover have "determineCancellationMode i m = Some (m1\<lparr>dm_lazy := l1\<rparr>, [])" using det keep by (cases ?mode) simp_all
    ultimately show ?thesis using l1(3) by simp
  qed
qed

lemma accounts_sizes: "accounts i sent c m m' \<Longrightarrow> dm_sizes m' \<and> dm_own m' \<and> objects m' = objects m"
  by (simp add: accounts_def)

lemma checkMeasured_ok:
  assumes "dm_sizes m" and "dm_own m" and "i < objects m"
  shows "\<exists>m' c. checkMeasured i m = Some (m', c) \<and> accounts i {#} c m m' \<and>
    (eventsToCancel (dm_lazy m) ! i = [] \<longrightarrow> eventsToCancel (dm_lazy m') ! i = [])"
proof (cases "filterDepth m \<le> curMeasured m ! i")
  case True
  obtain m1 c where m1: "determineCancellationMode i m = Some (m1, c)" "accounts i {#} c m m1"
    "eventsToCancel (dm_lazy m) ! i = [] \<longrightarrow> eventsToCancel (dm_lazy m1) ! i = []" using determine_ok [OF assms] by blast
  let ?m = "m1\<lparr>curMeasured := (curMeasured m1)[i := 0]\<rparr>"
  have "sameQueues m1 ?m" using accounts_sizes [OF m1(2)] by (simp add: sameQueues_def dm_sizes_def)
  then have "accounts i {#} [] m1 ?m" using accounts_sizes [OF m1(2)] by (simp add: sameQueues_accounts)
  then have "accounts i {#} c m ?m" using accounts_trans [OF m1(2)] by fastforce
  moreover have "checkMeasured i m = Some (?m, c)" using True m1(1) assms by (simp add: checkMeasured_def dm_sizes_def vec_simps)
  ultimately show ?thesis using m1(3) by simp
next
  case False
  have "accounts i {#} [] m m" using assms by (simp add: accounts_def)
  then show ?thesis using False assms by (simp add: checkMeasured_def dm_sizes_def vec_simps)
qed

text \<open>Recording the results of a comparison and checking the mode afterwards.\<close>

lemma measure_ok:
  assumes "dm_sizes m" and "dm_own m" and "i < objects m" and "eventsToCancel (dm_lazy m) ! i = []"
  shows "\<exists>m3 m4 m' c. (if hit then recordResult i 1 m else Some m) = Some m3 \<and> recordMisses i n m3 = Some m4 \<and>
    checkMeasured i m4 = Some (m', c) \<and> accounts i {#} c m m' \<and> eventsToCancel (dm_lazy m') ! i = []"
proof -
  obtain m3 where m3: "(if hit then recordResult i 1 m else Some m) = Some m3" "sameQueues m m3"
    using recordResult_ok [OF assms(1,3), of 1] assms(1) by (cases hit) (auto simp: sameQueues_def)
  moreover have "dm_sizes m3" "i < objects m3" using m3(2) assms(3) by (simp_all add: sameQueues_def)
  ultimately obtain m4 where m4: "recordMisses i n m3 = Some m4" "sameQueues m m4"
    using recordMisses_ok [of m3 i n] by (auto simp: sameQueues_def)
  then have "dm_own m4" using assms(2) by (simp add: sameQueues_def dm_own_def)
  then obtain m' c where m': "checkMeasured i m4 = Some (m', c)" "accounts i {#} c m4 m'" "eventsToCancel (dm_lazy m') ! i = []"
    using checkMeasured_ok [of m4 i] m4(2) assms(3,4) by (auto simp: sameQueues_def)
  have "accounts i {#} c m m'" using accounts_trans [OF sameQueues_accounts [OF m4(2) assms(2)] m'(2)] by simp
  then show ?thesis using m3 m4 m' by blast
qed

lemma drain_ok:
  assumes "dm_sizes m" and "dm_own m" and "i < objects m"
  shows "\<exists>m'. drainLazyQueue i t m = Some m' \<and> accounts i {#} [] m m'"
proof -
  let ?l = "dm_lazy m"
  let ?late = "takeWhile (\<lambda>e. sendTime e < t) (lazyQueues ?l ! i)" and ?tc = "eventsToCancel ?l ! i"
  let ?rest = "drop (length ?late) (lazyQueues ?l ! i)"
  define m1 where "m1 = m\<lparr>dm_lazy := ?l\<lparr>lazyQueues := (lazyQueues ?l)[i := ?rest],
    eventsToCancel := (eventsToCancel ?l)[i := if curCancelMode m ! i = LAZY then ?tc @ ?late else ?tc]\<rparr>\<rparr>"
  have len: "i < length (lazyQueues ?l)" "i < length (eventsToCancel ?l)" "i < length (curCancelMode m)"
    using assms(1,3) by (simp_all add: dm_sizes_def lm_sizes_def)
  have sz: "dm_sizes m1" using assms(1) by (simp add: m1_def dm_sizes_def lm_sizes_def)
  have q: "mset (lazyQueues ?l ! i) = mset ?late + mset ?rest"
    by (metis dropWhile_eq_drop mset_append takeWhile_dropWhile_id)
  have a: "accounts i {#} [] m m1"
    using len q by (intro moves_account [OF assms(2,3,1) sz, where q = ?rest and mode = "curCancelMode m ! i"
        and tc = "if curCancelMode m ! i = LAZY then ?tc @ ?late else ?tc"]) (simp_all add: m1_def set_drop_subset ac_simps)
  have "i < objects m1" using a assms(3) by (simp add: accounts_def)
  then obtain m' where m': "recordMisses i (length ?late) m1 = Some m'" "sameQueues m1 m'" using recordMisses_ok [OF sz] by blast
  have "accounts i {#} [] m m'"
    using accounts_trans [OF a sameQueues_accounts [OF m'(2)]] accounts_sizes [OF a] by simp
  moreover have "drainLazyQueue i t m = Some m'" using len m'(1) by (simp add: drainLazyQueue_def vec_simps m1_def Let_def)
  ultimately show ?thesis by blast
qed

text \<open>The comparison with the lazy queue, in both modes.\<close>

lemma lazyCheck_ok:
  assumes "dm_sizes m" and "dm_own m" and "i < objects m" and "i = unat (getSimulationObjectID (sender e))"
    and "eventsToCancel (dm_lazy m) ! i = []"
  shows "\<exists>l0 l1 hit. setCompareMode i (curCancelMode m ! i = LAZY) (dm_lazy m) = Some l0 \<and>
    checkLazyCancelEvent cmp isLocal e l0 = Some (l1, hit) \<and> compareAndInsertMode l1 ! i = (curCancelMode m ! i = LAZY) \<and>
    i < length (eventsToCancel l1) \<and>
    accounts i {#} [] m (m\<lparr>dm_lazy := if curCancelMode m ! i = LAZY then l1 else l1\<lparr>eventsToCancel := (eventsToCancel l1)[i := []]\<rparr>\<rparr>)"
proof -
  let ?l = "dm_lazy m" and ?lazy = "curCancelMode m ! i = LAZY"
  let ?rest = "dropWhile (\<lambda>x. sendTime x < sendTime e) (lazyQueues ?l ! i)"
  let ?late = "takeWhile (\<lambda>x. sendTime x < sendTime e) (lazyQueues ?l ! i)"
  define l0 where "l0 = ?l\<lparr>compareAndInsertMode := (compareAndInsertMode ?l)[i := ?lazy]\<rparr>"
  have len: "i < length (compareAndInsertMode ?l)" "i < length (lazyQueues ?l)" "i < length (eventsToCancel ?l)" "i < length (curCancelMode m)"
    using assms(1,3) by (simp_all add: dm_sizes_def lm_sizes_def)
  have sel: "lazyQueues l0 = lazyQueues ?l" "eventsToCancel l0 = eventsToCancel ?l" "lm_outputs l0 = lm_outputs ?l"
    "compareAndInsertMode l0 ! i = ?lazy" using len by (simp_all add: l0_def)
  have "lm_sizes l0" using assms(1,3) by (simp add: l0_def dm_sizes_def lm_sizes_def)
  moreover have "\<forall>x \<in> set (lazyQueues ?l ! i). unat (getSimulationObjectID (sender x)) = i" using dm_ownD [OF assms(2,3)] by simp
  ultimately obtain l1 where l1: "checkLazyCancelEvent cmp isLocal e l0 = Some (l1, list_ex (\<lambda>x. cmp x e) ?rest)"
      "eventsToCancel l1 = (eventsToCancel ?l)[i := ?late]" "lazyQueues l1 = (lazyQueues ?l)[i := remove_first (\<lambda>x. cmp x e) ?rest]"
      "compareAndInsertMode l1 = compareAndInsertMode l0" "lm_sizes l1"
      "lm_outputs l1 = (if ?lazy then case find (\<lambda>x. cmp x e) ?rest of None \<Rightarrow> lm_outputs ?l
        | Some hit \<Rightarrow> (lm_outputs ?l)[i := oe_insert isLocal hit (lm_outputs ?l ! i)] else lm_outputs ?l)"
    using checkLazyCancelEvent_ok [of l0 i e ?rest cmp isLocal, unfolded sel assms(5) append_Nil] assms(3,4) by blast
  let ?m = "m\<lparr>dm_lazy := if ?lazy then l1 else l1\<lparr>eventsToCancel := (eventsToCancel l1)[i := []]\<rparr>\<rparr>"
  have sub: "set (remove_first (\<lambda>x. cmp x e) ?rest) \<subseteq> set (lazyQueues ?l ! i)"
    using set_remove_first_subset [of "\<lambda>x. cmp x e" ?rest] set_dropWhileD by fastforce
  have obj: "length (lm_outputs l1) = objects m" using l1(6) by (auto split: option.splits)
  have sz: "dm_sizes ?m" using assms(1) l1(5) obj by (simp add: dm_sizes_def lm_sizes_def)
  have all: "mset (lazyQueues ?l ! i) = mset ?late + mset ?rest" by (simp add: mset_takeWhile_dropWhile)
  have "accounts i {#} [] m ?m"
  proof (cases "?lazy \<and> find (\<lambda>x. cmp x e) ?rest \<noteq> None")
    case False
    then have out: "lm_outputs (dm_lazy ?m) = lm_outputs ?l" using l1(6) by auto
    have "?lazy \<longrightarrow> remove_first (\<lambda>x. cmp x e) ?rest = ?rest" using False by (auto simp: find_None_iff)
    then show ?thesis
      using l1(2,3) sub all assms(5) len by (intro moves_account [OF assms(2,3,1) sz out, where q = "remove_first (\<lambda>x. cmp x e) ?rest"
        and mode = "curCancelMode m ! i" and tc = "if ?lazy then ?late else []"]) (simp_all add: ac_simps)
  next
    case True
    then obtain hit where hit: "find (\<lambda>x. cmp x e) ?rest = Some hit" by auto
    then have "hit \<in> set (lazyQueues ?l ! i)" using find_dropWhile_set [of "\<lambda>x. cmp x e"] by fastforce
    moreover have "lm_outputs (dm_lazy ?m) = (lm_outputs ?l)[i := oe_insert isLocal hit (lm_outputs ?l ! i)]"
      using l1(6) hit True by simp
    ultimately show ?thesis
      using l1(2,3) True len assms(3,5) all mset_remove_first [OF hit] dm_ownD [OF assms(2,3)] sub obj
      by (intro accounts_at [OF assms(2) sz]) (auto simp: sentEvents_oe_insert outstanding_def)
  qed
  then show ?thesis
    using l1(1,2,4) sel(4) len by (intro exI [of _ l0] exI [of _ l1] exI) (simp add: setCompareMode_def vec_simps l0_def)
qed

lemma sendChecked_ok:
  assumes "i < objects m" and "i = unat (getSimulationObjectID (sender e))" and "lazy \<longleftrightarrow> curCancelMode m ! i = LAZY"
    and "compareAndInsertMode l1 ! i = lazy" and "i < length (eventsToCancel l1)"
    and a1: "accounts i {#} [] m (m\<lparr>dm_lazy := if lazy then l1 else l1\<lparr>eventsToCancel := (eventsToCancel l1)[i := []]\<rparr>\<rparr>)"
  shows "\<exists>m2 c. (if lazy then do {
        m1 \<leftarrow> (if hit \<and> compareAndInsertMode l1 ! i then Some (m\<lparr>dm_lazy := l1\<rparr>) else dm_insert isLocal e (m\<lparr>dm_lazy := l1\<rparr>));
        dm_handleCancelEvents_obj i m1 }
      else do {
        m1 \<leftarrow> dm_insert isLocal e (m\<lparr>dm_lazy := l1\<lparr>eventsToCancel := (eventsToCancel l1)[i := []]\<rparr>\<rparr>);
        Some (m1, []) }) = Some (m2, c) \<and> accounts i (if lazy \<and> hit then {#} else {#e#}) c m m2 \<and> eventsToCancel (dm_lazy m2) ! i = []"
proof -
  let ?m1 = "m\<lparr>dm_lazy := if lazy then l1 else l1\<lparr>eventsToCancel := (eventsToCancel l1)[i := []]\<rparr>\<rparr>"
  note s1 = accounts_sizes [OF a1]
  show ?thesis
  proof (cases "lazy \<and> hit")
    case True
    then have m1: "m\<lparr>dm_lazy := l1\<rparr> = ?m1" by simp
    obtain m2 c where "dm_handleCancelEvents_obj i ?m1 = Some (m2, c)" "accounts i {#} c ?m1 m2" "eventsToCancel (dm_lazy m2) ! i = []"
      using handleCancel_ok [of ?m1 i] s1 assms(1) by metis
    then show ?thesis using True assms(4) accounts_trans [OF a1] unfolding m1 by fastforce
  next
    case False
    obtain m2 where m2: "dm_insert isLocal e ?m1 = Some m2" "accounts i {#e#} [] ?m1 m2" "eventsToCancel (dm_lazy m2) = eventsToCancel (dm_lazy ?m1)"
      using insert_ok [of ?m1 i e isLocal] s1 assms(1,2) by metis
    have a: "accounts i {#e#} [] m m2" using accounts_trans [OF a1 m2(2)] by simp
    show ?thesis
    proof (cases lazy)
      case True
      obtain m3 c where "dm_handleCancelEvents_obj i m2 = Some (m3, c)" "accounts i {#} c m2 m3" "eventsToCancel (dm_lazy m3) ! i = []"
        using handleCancel_ok [of m2 i] accounts_sizes [OF a] assms(1) by metis
      then show ?thesis using True False m2(1) accounts_trans [OF a] by fastforce
    next
      case False
      then show ?thesis using m2(1,3) a assms(5) by simp
    qed
  qed
qed

lemma checkDynamicCancel_ok:
  assumes "dm_sizes m" and "dm_own m" and "i < objects m" and "i = unat (getSimulationObjectID (sender e))"
    and "eventsToCancel (dm_lazy m) ! i = []"
  shows "\<exists>m' suppress c. checkDynamicCancel cmp isLocal e m = Some (m', suppress, c) \<and>
    accounts i (if suppress then {#} else {#e#}) c m m' \<and> eventsToCancel (dm_lazy m') ! i = []"
proof (cases "lazyQueues (dm_lazy m) ! i = [] \<or> permanentlyAggressive m ! i")
  case True
  have "i < length (lazyQueues (dm_lazy m))" "i < length (permanentlyAggressive m)" using assms(1,3) by (simp_all add: dm_sizes_def lm_sizes_def)
  moreover obtain m' where "dm_insert isLocal e m = Some m'" "accounts i {#e#} [] m m'" "eventsToCancel (dm_lazy m') ! i = []"
    using insert_ok [OF assms(1-4), of isLocal] assms(5) by auto
  ultimately show ?thesis using True by (auto simp: checkDynamicCancel_def vec_simps Let_def simp flip: assms(4))
next
  case False
  let ?lazy = "curCancelMode m ! i = LAZY"
  have len: "i < length (lazyQueues (dm_lazy m))" "i < length (permanentlyAggressive m)" "i < length (curCancelMode m)"
    using assms(1,3) by (simp_all add: dm_sizes_def lm_sizes_def)
  obtain l0 l1 hit where l: "setCompareMode i ?lazy (dm_lazy m) = Some l0" "checkLazyCancelEvent cmp isLocal e l0 = Some (l1, hit)"
      "compareAndInsertMode l1 ! i = ?lazy" "i < length (eventsToCancel l1)"
    and a1: "accounts i {#} [] m (m\<lparr>dm_lazy := if ?lazy then l1 else l1\<lparr>eventsToCancel := (eventsToCancel l1)[i := []]\<rparr>\<rparr>)"
    using lazyCheck_ok [OF assms, of cmp isLocal] by blast
  obtain m2 c where m2: "(if ?lazy then do {
        m1 \<leftarrow> (if hit \<and> compareAndInsertMode l1 ! i then Some (m\<lparr>dm_lazy := l1\<rparr>) else dm_insert isLocal e (m\<lparr>dm_lazy := l1\<rparr>));
        dm_handleCancelEvents_obj i m1 }
      else do {
        m1 \<leftarrow> dm_insert isLocal e (m\<lparr>dm_lazy := l1\<lparr>eventsToCancel := (eventsToCancel l1)[i := []]\<rparr>\<rparr>);
        Some (m1, []) }) = Some (m2, c)" and a2: "accounts i (if ?lazy \<and> hit then {#} else {#e#}) c m m2" "eventsToCancel (dm_lazy m2) ! i = []"
    using sendChecked_ok [OF assms(3,4) refl l(3,4) a1, of hit isLocal] by blast
  obtain m3 m4 m' c' where m': "(if hit then recordResult i 1 m2 else Some m2) = Some m3"
      "recordMisses i (length (eventsToCancel l1 ! i)) m3 = Some m4" "checkMeasured i m4 = Some (m', c')"
      "accounts i {#} c' m2 m'" "eventsToCancel (dm_lazy m') ! i = []"
    using measure_ok [of m2 i hit] accounts_sizes [OF a2(1)] a2(2) assms(3) by metis
  have "checkDynamicCancel cmp isLocal e m = Some (m', ?lazy \<and> hit, c @ c')"
    unfolding checkDynamicCancel_def assms(4) [symmetric] Let_def
    using False len l m2 m'(1-3) by (simp add: vec_simps)
  moreover have "accounts i (if ?lazy \<and> hit then {#} else {#e#}) (c @ c') m m'" using accounts_trans [OF a2(1) m'(4)] by simp
  ultimately show ?thesis using m'(5) by blast
qed

lemma mset_map_split: "mset (map f xs) = mset (map f (takeWhile P xs)) + mset (map f (dropWhile P xs))"
  by (metis map_append mset_append takeWhile_dropWhile_id)

lemma getAndRemove_keeps:
  assumes "getEventsSentAtOrAfterAndRemove None approx t q = (q', found, recovery)"
  shows "sentEvents q = sentEvents q' + mset found"
  using assms mset_map_split [of oe_element "rev (outputEventsLocal q)" "\<lambda>x. oe_mainTime x \<ge> t"]
    mset_map_split [of id "rev (outputEventsRemote q)" "\<lambda>e. sendTime e \<ge> t"]
  by (auto simp: getEventsSentAtOrAfterAndRemove_def localWalk_eq remoteWalk_eq sentEvents_def rev_map simp del: mset_map simp flip: rev_map)

lemma dm_rollback_ok:
  assumes "dm_sizes m" and "dm_own m" and "i < objects m" and "sort_spec srt"
  shows "\<exists>m' c r. dm_rollback srt None approx i t m = Some (m', c, r) \<and> accounts i {#} c m m' \<and>
    eventsToCancel (dm_lazy m') = eventsToCancel (dm_lazy m)"
proof -
  let ?l = "dm_lazy m" and ?perm = "permanentlyAggressive m ! i"
  obtain q' found r where g: "getEventsSentAtOrAfterAndRemove None approx t (lm_outputs ?l ! i) = (q', found, r)" by (rule prod_cases3)
  let ?l1 = "?l\<lparr>lm_outputs := (lm_outputs ?l)[i := q']\<rparr>"
  let ?l2 = "if \<not> ?perm then ?l1\<lparr>lazyQueues := (lazyQueues ?l1)[i := srt (lazyQueues ?l ! i @ found)]\<rparr> else ?l1"
  let ?c = "if (?perm \<or> curCancelMode m ! i = AGGRESSIVE) \<and> length found > 0 then [found] else []"
  have len: "i < length (lazyQueues ?l)" "i < length (permanentlyAggressive m)" "i < length (curCancelMode m)"
    using assms(1,3) by (simp_all add: dm_sizes_def lm_sizes_def)
  have d: "dm_rollback srt None approx i t m = Some (m\<lparr>dm_lazy := ?l2\<rparr>, ?c, r)"
    using len g assms(3) by (simp add: dm_rollback_def vec_simps Let_def)
  have srt: "mset (srt es) = mset es" for es using assms(4) by (simp add: sort_spec_def)
  then have st: "set (srt es) = set es" for es by (metis set_mset_mset)
  have k: "sentEvents (lm_outputs ?l ! i) = sentEvents q' + mset found" by (rule getAndRemove_keeps [OF g])
  have sz: "dm_sizes (m\<lparr>dm_lazy := ?l2\<rparr>)" using assms(1) by (simp add: dm_sizes_def lm_sizes_def)
  have "accounts i {#} ?c m (m\<lparr>dm_lazy := ?l2\<rparr>)"
  proof (rule accounts_at [OF assms(2) sz])
    show "\<forall>e \<in># sentEvents (lm_outputs (dm_lazy (m\<lparr>dm_lazy := ?l2\<rparr>)) ! i) + mset (lazyQueues (dm_lazy (m\<lparr>dm_lazy := ?l2\<rparr>)) ! i).
        unat (getSimulationObjectID (sender e)) = i"
      using dm_ownD [OF assms(2,3)] k len assms(3) by (auto simp: st)
    show "outstanding i (m\<lparr>dm_lazy := ?l2\<rparr>) + mset (concat ?c) = outstanding i m + {#}"
      using k len assms(3) by (cases "curCancelMode m ! i") (auto simp: outstanding_def srt)
  qed simp_all
  then show ?thesis using d by (intro exI conjI) (assumption | simp)+
qed

subsection \<open>Sequences of operations\<close>

definition dm_inv :: "'t dynamicManager \<Rightarrow> bool" where
  "dm_inv m \<longleftrightarrow> dm_sizes m \<and> dm_own m \<and> dm_idle m"

definition balances :: "'t event multiset \<Rightarrow> 't event list list \<Rightarrow> 't dynamicManager \<Rightarrow> 't dynamicManager \<Rightarrow> bool" where
  "balances sent cancelled m m' \<longleftrightarrow> objects m' = objects m \<and> allOutstanding m' + mset (concat cancelled) = allOutstanding m + sent"

lemma balances_trans:
  assumes "balances s1 c1 m m1" and "balances s2 c2 m1 m2"
  shows "balances (s1 + s2) (c1 @ c2) m m2"
proof -
  have "allOutstanding m2 + mset (concat c2) + mset (concat c1) = allOutstanding m + s1 + s2"
    using assms by (simp add: balances_def ac_simps)
  then show ?thesis using assms by (simp add: balances_def ac_simps)
qed

lemma accounts_balances: "accounts i sent c m m' \<Longrightarrow> i < objects m \<Longrightarrow> balances sent c m m'"
  using accounts_total [of i sent c m m'] by (simp add: balances_def accounts_def)

lemma accounts_inv: "accounts i sent c m m' \<Longrightarrow> dm_inv m \<Longrightarrow> eventsToCancel (dm_lazy m') ! i = [] \<Longrightarrow> dm_inv m'"
  using accounts_idle [of i sent c m m'] accounts_sizes [of i sent c m m'] by (simp add: dm_inv_def)

lemma emptyLazyQueue_ok:
  assumes "dm_inv m" and "i < objects m"
  shows "\<exists>m' c. dm_emptyLazyQueue i t m = Some (m', c) \<and> dm_inv m' \<and> balances {#} c m m'"
proof -
  have sz: "dm_sizes m" "dm_own m" using assms(1) by (simp_all add: dm_inv_def)
  obtain m1 where m1: "drainLazyQueue i t m = Some m1" "accounts i {#} [] m m1" using drain_ok [OF sz assms(2)] by blast
  obtain m2 c where m2: "dm_handleCancelEvents_obj i m1 = Some (m2, c)" "accounts i {#} c m1 m2" "eventsToCancel (dm_lazy m2) ! i = []"
    using handleCancel_ok [of m1 i] accounts_sizes [OF m1(2)] assms(2) by metis
  have a: "accounts i {#} c m m2" using accounts_trans [OF m1(2) m2(2)] by simp
  obtain m3 c' where m3: "checkMeasured i m2 = Some (m3, c')" "accounts i {#} c' m2 m3" "eventsToCancel (dm_lazy m3) ! i = []"
    using checkMeasured_ok [of m2 i] accounts_sizes [OF a] assms(2) m2(3) by metis
  have "accounts i {#} (c @ c') m m3" using accounts_trans [OF a m3(2)] by simp
  then show ?thesis
    using m1(1) m2(1) m3(1) accounts_balances [OF _ assms(2)] accounts_inv [OF _ assms(1) m3(3)] by (simp add: dm_emptyLazyQueue_def)
qed

lemma drainAll_ok:
  assumes "dm_sizes m" and "dm_own m" and "\<forall>i \<in> set is. i < objects m"
  shows "\<exists>m'. drainAll is t m = Some m' \<and> dm_sizes m' \<and> dm_own m' \<and> balances {#} [] m m'"
  using assms
proof (induction "is" arbitrary: m)
  case Nil
  then show ?case by (simp add: balances_def)
next
  case (Cons i "is")
  obtain m1 where m1: "drainLazyQueue i t m = Some m1" "accounts i {#} [] m m1" using drain_ok [of m i t] Cons.prems by auto
  obtain m' where "drainAll is t m1 = Some m'" "dm_sizes m'" "dm_own m'" "balances {#} [] m1 m'"
    using Cons.IH [of m1] accounts_sizes [OF m1(2)] Cons.prems(3) by auto
  then show ?case using m1(1) balances_trans [OF accounts_balances [OF m1(2)]] Cons.prems(3) by fastforce
qed

lemma checkAll_ok:
  assumes "dm_inv m" and "\<forall>i \<in> set is. i < objects m"
  shows "\<exists>m' c. checkAll is m = Some (m', c) \<and> dm_inv m' \<and> balances {#} c m m'"
  using assms
proof (induction "is" arbitrary: m)
  case Nil
  then show ?case by (simp add: balances_def)
next
  case (Cons i "is")
  have i: "i < objects m" using Cons.prems(2) by simp
  have "dm_sizes m" "dm_own m" "eventsToCancel (dm_lazy m) ! i = []" using Cons.prems(1) i by (simp_all add: dm_inv_def dm_idle_def)
  then obtain m1 c where m1: "checkMeasured i m = Some (m1, c)" "accounts i {#} c m m1" "eventsToCancel (dm_lazy m1) ! i = []"
    using checkMeasured_ok [of m i] i by auto
  obtain m' c' where "checkAll is m1 = Some (m', c')" "dm_inv m'" "balances {#} c' m1 m'"
    using Cons.IH [of m1] accounts_inv [OF m1(2) Cons.prems(1) m1(3)] accounts_sizes [OF m1(2)] Cons.prems(2) by auto
  then show ?case using m1(1) balances_trans [OF accounts_balances [OF m1(2) i]] by fastforce
qed

lemma handleCancelEvents_ok:
  assumes "dm_sizes m" and "dm_own m" and "handleCancelEvents (dm_lazy m) = (l, c)"
  shows "dm_inv (m\<lparr>dm_lazy := l\<rparr>) \<and> balances {#} c m (m\<lparr>dm_lazy := l\<rparr>)"
proof -
  let ?tc = "eventsToCancel (dm_lazy m)"
  have l: "l = (dm_lazy m)\<lparr>eventsToCancel := map (\<lambda>_. []) ?tc\<rparr>" and c: "c = filter (\<lambda>es. length es > 0) ?tc"
    using assms(3) by (simp_all add: handleCancelEvents_def)
  have len: "length ?tc = objects m" using assms(1) by (simp add: dm_sizes_def lm_sizes_def)
  have "mset (concat (filter (\<lambda>es. length es > 0) tc)) = (\<Sum>i < length tc. mset (tc ! i))" for tc :: "'a event list list"
    by (induction tc rule: rev_induct) (simp_all add: nth_append)
  then have "mset (concat c) = (\<Sum>i < objects m. mset (?tc ! i))" using c len by simp
  moreover have "outstanding i m = outstanding i (m\<lparr>dm_lazy := l\<rparr>) + mset (?tc ! i)" if "i < objects m" for i
    using that len by (simp add: outstanding_def l)
  ultimately have "allOutstanding m = allOutstanding (m\<lparr>dm_lazy := l\<rparr>) + mset (concat c)"
    by (simp add: allOutstanding_def sum.distrib [symmetric] l)
  moreover have "dm_inv (m\<lparr>dm_lazy := l\<rparr>)"
    using assms(1,2) len by (simp add: l dm_inv_def dm_sizes_def lm_sizes_def dm_own_def dm_idle_def)
  ultimately show ?thesis by (simp add: balances_def l)
qed

lemma emptyLazyQueues_ok:
  assumes "dm_inv m"
  shows "\<exists>m' c. dm_emptyLazyQueues t m = Some (m', c) \<and> dm_inv m' \<and> balances {#} c m m'"
proof -
  have sz: "dm_sizes m" "dm_own m" "length (lazyQueues (dm_lazy m)) = objects m"
    using assms by (simp_all add: dm_inv_def dm_sizes_def lm_sizes_def)
  obtain m1 where m1: "drainAll [0..<objects m] t m = Some m1" "dm_sizes m1" "dm_own m1" "balances {#} [] m m1"
    using drainAll_ok [OF sz(1,2), of "[0..<objects m]"] by auto
  obtain l c where l: "handleCancelEvents (dm_lazy m1) = (l, c)" by (rule prod.exhaust)
  note h = handleCancelEvents_ok [OF m1(2,3) l]
  have "\<forall>i \<in> set [0..<length (curMeasured m1)]. i < objects (m1\<lparr>dm_lazy := l\<rparr>)"
    using m1(2) h by (simp add: dm_sizes_def balances_def)
  then obtain m2 c' where m2: "checkAll [0..<length (curMeasured m1)] (m1\<lparr>dm_lazy := l\<rparr>) = Some (m2, c')" "dm_inv m2"
    "balances {#} c' (m1\<lparr>dm_lazy := l\<rparr>) m2" using checkAll_ok h by blast
  have "balances {#} (c @ c') m m2" using balances_trans [OF m1(4) balances_trans [OF conjunct2 [OF h] m2(3)]] by simp
  then show ?thesis using m1(1) l m2(1,2) sz(3) by (simp add: dm_emptyLazyQueues_def Let_def)
qed

datatype 't dynOp = SendEvent "'t event" | RollbackObject nat 't | EmptyQueueOf nat 't | EmptyQueues 't

text \<open>One operation: the new manager, the events sent to their receivers and the calls of \<open>cancelEvents\<close>.\<close>

definition dyn_step ::
  "(('t :: linorder) event list \<Rightarrow> 't event list) \<Rightarrow> ('t \<Rightarrow> int) \<Rightarrow> ('t event \<Rightarrow> 't event \<Rightarrow> bool) \<Rightarrow> (objectID \<Rightarrow> bool) \<Rightarrow>
   't dynOp \<Rightarrow> 't dynamicManager \<Rightarrow> ('t dynamicManager \<times> 't event list \<times> 't event list list) option" where
  "dyn_step srt approx cmp isLocal op m = (case op of
         SendEvent e \<Rightarrow> do { (m1, suppress, c) \<leftarrow> checkDynamicCancel cmp isLocal e m; Some (m1, if suppress then [] else [e], c) }
       | RollbackObject i t \<Rightarrow> do { (m1, c, _) \<leftarrow> dm_rollback srt None approx i t m; Some (m1, [], c) }
       | EmptyQueueOf i t \<Rightarrow> do { (m1, c) \<leftarrow> dm_emptyLazyQueue i t m; Some (m1, [], c) }
       | EmptyQueues t \<Rightarrow> do { (m1, c) \<leftarrow> dm_emptyLazyQueues t m; Some (m1, [], c) })"

text \<open>The manager, the events that were sent to their receivers and the events for which anti-messages were sent.\<close>

fun dyn_run ::
  "(('t :: linorder) event list \<Rightarrow> 't event list) \<Rightarrow> ('t \<Rightarrow> int) \<Rightarrow> ('t event \<Rightarrow> 't event \<Rightarrow> bool) \<Rightarrow> (objectID \<Rightarrow> bool) \<Rightarrow>
   't dynOp list \<Rightarrow> 't dynamicManager \<Rightarrow> ('t dynamicManager \<times> 't event list \<times> 't event list) option" where
  "dyn_run srt approx cmp isLocal [] m = Some (m, [], [])"
| "dyn_run srt approx cmp isLocal (op # ops) m = do {
     (m1, now, c) \<leftarrow> dyn_step srt approx cmp isLocal op m;
     (m2, sent, cancelled) \<leftarrow> dyn_run srt approx cmp isLocal ops m1;
     Some (m2, now @ sent, concat c @ cancelled) }"

fun dynOp_ok :: "nat \<Rightarrow> 't dynOp \<Rightarrow> bool" where
  "dynOp_ok n (SendEvent e) \<longleftrightarrow> unat (getSimulationObjectID (sender e)) < n"
| "dynOp_ok n (RollbackObject i t) \<longleftrightarrow> i < n"
| "dynOp_ok n (EmptyQueueOf i t) \<longleftrightarrow> i < n"
| "dynOp_ok n (EmptyQueues t) \<longleftrightarrow> True"

lemma dyn_step_ok:
  fixes m :: "('t :: linorder) dynamicManager"
  assumes "sort_spec srt" and "dm_inv m" and "dynOp_ok (objects m) op"
  shows "\<exists>m1 now c. dyn_step srt approx cmp isLocal op m = Some (m1, now, c) \<and> dm_inv m1 \<and> balances (mset now) c m m1"
proof -
  have m: "dm_sizes m" "dm_own m" "dm_idle m" using assms(2) by (simp_all add: dm_inv_def)
  show ?thesis
  proof (cases op)
    case (SendEvent e)
    let ?i = "unat (getSimulationObjectID (sender e))"
    have i: "?i < objects m" "eventsToCancel (dm_lazy m) ! ?i = []" using assms(3) m(3) SendEvent by (simp_all add: dm_idle_def)
    obtain m1 b c where "checkDynamicCancel cmp isLocal e m = Some (m1, b, c)" "accounts ?i (if b then {#} else {#e#}) c m m1"
      "eventsToCancel (dm_lazy m1) ! ?i = []" using checkDynamicCancel_ok [OF m(1,2) i(1) refl i(2)] by blast
    then show ?thesis using SendEvent accounts_inv [OF _ assms(2)] accounts_balances [OF _ i(1)] by (cases b) (auto simp: dyn_step_def)
  next
    case (RollbackObject i t)
    then have i: "i < objects m" using assms(3) by simp
    obtain m1 c r where "dm_rollback srt None approx i t m = Some (m1, c, r)" "accounts i {#} c m m1"
      "eventsToCancel (dm_lazy m1) ! i = []" using dm_rollback_ok [OF m(1,2) i assms(1), of approx t] m(3) i by (auto simp: dm_idle_def)
    then show ?thesis using RollbackObject accounts_inv [OF _ assms(2)] accounts_balances [OF _ i] by (auto simp: dyn_step_def)
  next
    case (EmptyQueueOf i t)
    then show ?thesis using emptyLazyQueue_ok [OF assms(2), of i t] assms(3) by (auto simp: dyn_step_def)
  next
    case (EmptyQueues t)
    then show ?thesis using emptyLazyQueues_ok [OF assms(2), of t] by (auto simp: dyn_step_def)
  qed
qed

lemma dyn_run_ok:
  fixes m :: "('t :: linorder) dynamicManager"
  assumes "sort_spec srt" and "dm_inv m" and "list_all (dynOp_ok (objects m)) ops"
  shows "\<exists>m' sent cancelled. dyn_run srt approx cmp isLocal ops m = Some (m', sent, cancelled) \<and> dm_inv m' \<and>
    balances (mset sent) [cancelled] m m'"
  using assms(2,3)
proof (induction ops arbitrary: m)
  case Nil
  then show ?case by (simp add: balances_def)
next
  case (Cons op ops)
  obtain m1 now c where step: "dyn_step srt approx cmp isLocal op m = Some (m1, now, c)"
    and m1: "dm_inv m1" "balances (mset now) c m m1" using dyn_step_ok [OF assms(1) Cons.prems(1), of op approx cmp isLocal] Cons.prems(2) by auto
  obtain m2 sent cancelled where m2: "dyn_run srt approx cmp isLocal ops m1 = Some (m2, sent, cancelled)" "dm_inv m2"
    "balances (mset sent) [cancelled] m1 m2" using Cons.IH [OF m1(1)] m1(2) Cons.prems(2) by (auto simp: balances_def)
  have "balances (mset (now @ sent)) [concat c @ cancelled] m m2" using balances_trans [OF m1(2) m2(3)] by (simp add: balances_def)
  then show ?case using step m2(1,2) by simp
qed

text \<open>C27: dynamic cancellation loses no event and cancels none twice: after any sequence of sends, rollbacks and emptyings of the lazy queues, and
  whatever switches between the modes they caused, the events sent are exactly the events cancelled together with those that are still
  recorded as valid, in the output queues or in the lazy queues of objects in lazy mode. No operation fails.\<close>

theorem dynamic_cancellation_balances:
  fixes ops :: "('t :: linorder) dynOp list"
  assumes "sort_spec srt" and "list_all (dynOp_ok n) ops"
  shows "\<exists>m sent cancelled. dyn_run srt approx cmp isLocal ops (DynamicOutputManager n third) = Some (m, sent, cancelled) \<and>
    mset sent = mset cancelled + (\<Sum>i < n. sentEvents (lm_outputs (dm_lazy m) ! i) +
      (if curCancelMode m ! i = LAZY then mset (lazyQueues (dm_lazy m) ! i) else {#}))"
proof -
  let ?m = "DynamicOutputManager n third :: 't dynamicManager"
  have "dm_inv ?m" "objects ?m = n" "allOutstanding ?m = {#}"
    by (simp_all add: DynamicOutputManager_def LazyOutputManager_def OutputManagerImplementationBase_def FILTER_DEPTH_def dm_inv_def dm_sizes_def
        lm_sizes_def dm_own_def dm_idle_def allOutstanding_def outstanding_def sentEvents_def OutputEvents_def)
  moreover from this obtain m sent cancelled where m: "dyn_run srt approx cmp isLocal ops ?m = Some (m, sent, cancelled)" "dm_inv m"
    "balances (mset sent) [cancelled] ?m m" using dyn_run_ok [OF assms(1), of ?m ops approx cmp isLocal] assms(2) by auto
  ultimately have "mset sent = mset cancelled + (\<Sum>i < n. outstanding i m)" "objects m = n"
    by (auto simp: balances_def allOutstanding_def ac_simps)
  moreover from this have "outstanding i m = sentEvents (lm_outputs (dm_lazy m) ! i) +
      (if curCancelMode m ! i = LAZY then mset (lazyQueues (dm_lazy m) ! i) else {#})" if "i < n" for i
    using that m(2) by (simp add: outstanding_def dm_inv_def dm_idle_def)
  ultimately show ?thesis using m(1) by (intro exI [of _ m] exI [of _ sent] exI [of _ cancelled]) simp
qed

text \<open>An event is sent, taken back by a rollback and cancelled, and sent again.\<close>

definition ex_dynOps :: "intvtime dynOp list" where
  "ex_dynOps = [SendEvent (lazyEvent 1 2 3 1), RollbackObject 0 (IntVTime 1), SendEvent (lazyEvent 2 2 3 2), EmptyQueues (IntVTime 9)]"

theorem dynamic_cancellation_balances_witness:
  "\<exists>m sent cancelled. dyn_run (sort_key receiveTime) getApproximateIntTime compareEvents (\<lambda>_. True) ex_dynOps (DynamicOutputManager 1 False) =
      Some (m, sent, cancelled) \<and>
    mset sent = mset cancelled + (\<Sum>i < 1. sentEvents (lm_outputs (dm_lazy m) ! i) +
      (if curCancelMode m ! i = LAZY then mset (lazyQueues (dm_lazy m) ! i) else {#}))"
proof -
  have "sort_spec (sort_key receiveTime :: intvtime event list \<Rightarrow> _)" by (simp add: sort_spec_def)
  moreover have "list_all (dynOp_ok 1) ex_dynOps" by code_simp
  ultimately show ?thesis by (rule dynamic_cancellation_balances)
qed

text \<open>The results of the comparisons are not kept per object: an object whose sixteen comparisons are all misses is switched to
  lazy cancellation, because another object has recorded hits in between.\<close>

theorem shared_results_wrong_mode:
  "map_option (\<lambda>(m, _). (curCancelMode m ! 1, hitCount m ! 1)) (do {
     m1 \<leftarrow> recordMisses 1 15 (DynamicOutputManager 2 False :: intvtime dynamicManager);
     m2 \<leftarrow> foldl (\<lambda>m _. Option.bind m (recordResult 0 1)) (Some m1) [0..<15];
     m3 \<leftarrow> recordMisses 1 1 m2;
     checkMeasured 1 m3 }) = Some (LAZY, 15)"
  by code_simp

end
