(* ===== verification/FossilRecovery.thy ===== *)
theory FossilRecovery
  imports Prelude
begin

text \<open>
  Optimistic fossil collection, \<open>OptFossilCollManager.cpp\<close>: checkpoints of all objects at multiples of a period, collection of histories
  without waiting for GVT, and the protocol by which all simulation managers go back to a common checkpoint after a rollback that needs
  a history already collected. A state is of type \<open>'st\<close>; \<open>'f\<close> is the contents of a checkpoint file (the file queues and output events of one object).
\<close>

subsection \<open>Data\<close>

datatype restoreToken = SEND_TO_MASTER | FIRST_CYCLE | SECOND_CYCLE | THIRD_CYCLE

text \<open>The fields of \<open>RestoreCkptMessage\<close> that the protocol reads, with the destination and the incarnation number that \<open>sendMessage\<close> puts in.\<close>

record restoreMsg =
  rm_dest :: nat
  rm_time :: int
  rm_state :: restoreToken
  rm_incarnation :: nat

text \<open>
  \<open>ckptRecovery\<close> is the flag that \<open>setRecoveringFromCheckpoint\<close> sets in the simulation manager and in the communication manager,
  \<open>numCatastrophicRollbacks\<close> the counter of the communication manager. The checkpoint files are a map from checkpoint time and object.
\<close>

record ('st, 'f) ofcManager =
  ofcId :: nat
  ofcManagers :: nat
  ofcPeer :: nat
  checkpointPeriod :: int
  nextCheckpointTime :: "int list"
  lastCheckpointTime :: "int list"
  fossilPeriod :: "int list"
  activeHistoryLength :: "int list"
  lastCollectTimes :: "int list"
  ofcRecovering :: bool
  lastRestoreTime :: int
  checkpointedStates :: "int \<Rightarrow> 'st list option"
  ckptFiles :: "int \<Rightarrow> nat \<Rightarrow> 'f option"
  ckptRecovery :: bool
  numCatastrophicRollbacks :: nat

definition firstCheckpointTime :: int where "firstCheckpointTime = 1"

definition OptFossilCollManager :: "nat \<Rightarrow> nat \<Rightarrow> nat \<Rightarrow> int \<Rightarrow> int \<Rightarrow> ('st, 'f) ofcManager" where
  "OptFossilCollManager simId managers objs checkPeriod defaultLen =
     \<lparr>ofcId = simId, ofcManagers = managers, ofcPeer = (if simId = managers - 1 then 0 else simId + 1), checkpointPeriod = checkPeriod,
      nextCheckpointTime = replicate objs (checkPeriod + 1), lastCheckpointTime = replicate objs 0, fossilPeriod = replicate objs 0,
      activeHistoryLength = replicate objs defaultLen, lastCollectTimes = replicate objs (-1), ofcRecovering = False, lastRestoreTime = -1,
      checkpointedStates = (\<lambda>_. None), ckptFiles = (\<lambda>_ _. None), ckptRecovery = False, numCatastrophicRollbacks = 0\<rparr>"

abbreviation ofcObjects :: "('st, 'f) ofcManager \<Rightarrow> nat" where
  "ofcObjects m \<equiv> length (lastCheckpointTime m)"

text \<open>What a manager does to the other components: \<open>ofcPurge\<close> of the three queues with GVT set to zero, \<open>ofcReset\<close> of the GVT and
  termination managers, the states and the file contents handed back to the objects, and collection of the history of an object.\<close>

datatype ('st, 'f) ofcEffect =
  PurgeQueues
| ResetProtocols
| RestoreObjects "'st list" "'f list"
| CollectHistory nat int

subsection \<open>Checkpoints\<close>

definition makeInitialCheckpoint :: "(nat \<Rightarrow> 'st) \<Rightarrow> (nat \<Rightarrow> int \<Rightarrow> 'f) \<Rightarrow> ('st, 'f) ofcManager \<Rightarrow> ('st, 'f) ofcManager" where
  "makeInitialCheckpoint getState contents m =
     m\<lparr>checkpointedStates := (checkpointedStates m)(firstCheckpointTime \<mapsto> map getState [0..<ofcObjects m]),
       lastCheckpointTime := map (\<lambda>_. firstCheckpointTime) (lastCheckpointTime m),
       ckptFiles := (\<lambda>t i. if t = firstCheckpointTime \<and> i < ofcObjects m then Some (contents i t) else ckptFiles m t i)\<rparr>"

definition updateCheckpointTime :: "nat \<Rightarrow> int \<Rightarrow> ('st, 'f) ofcManager \<Rightarrow> ('st, 'f) ofcManager option" where
  "updateCheckpointTime objId checkTime m = do {
     last \<leftarrow> vec_get (lastCheckpointTime m) objId;
     nxt \<leftarrow> vec_get (nextCheckpointTime m) objId;
     let last1 = last - checkpointPeriod m;
     Some (if checkTime < last then
             if last1 < firstCheckpointTime
             then m\<lparr>lastCheckpointTime := (lastCheckpointTime m)[objId := firstCheckpointTime],
                    nextCheckpointTime := (nextCheckpointTime m)[objId := checkpointPeriod m + 1]\<rparr>
             else m\<lparr>lastCheckpointTime := (lastCheckpointTime m)[objId := last1],
                    nextCheckpointTime := (nextCheckpointTime m)[objId := last]\<rparr>
           else m) }"

text \<open>One checkpoint: the first object to reach it saves all objects, the others only save themselves again.\<close>

definition checkpointOnce ::
  "(nat \<Rightarrow> 'st) \<Rightarrow> (nat \<Rightarrow> int \<Rightarrow> 'f) \<Rightarrow> nat \<Rightarrow> ('st, 'f) ofcManager \<Rightarrow> ('st, 'f) ofcManager" where
  "checkpointOnce getState contents i m =
     (let now = nextCheckpointTime m ! i in
      case checkpointedStates m now of
        Some states \<Rightarrow> m\<lparr>checkpointedStates := (checkpointedStates m)(now \<mapsto> states[i := getState i]),
          lastCheckpointTime := (lastCheckpointTime m)[i := now], nextCheckpointTime := (nextCheckpointTime m)[i := now + checkpointPeriod m],
          ckptFiles := (\<lambda>t j. if t = now \<and> j = i then Some (contents i now) else ckptFiles m t j)\<rparr>
      | None \<Rightarrow> m\<lparr>checkpointedStates := (checkpointedStates m)(now \<mapsto> map getState [0..<ofcObjects m]),
          lastCheckpointTime := nextCheckpointTime m, nextCheckpointTime := map (\<lambda>t. t + checkpointPeriod m) (nextCheckpointTime m),
          ckptFiles := (\<lambda>t j. if j < ofcObjects m \<and> t = nextCheckpointTime m ! j then Some (contents j t) else ckptFiles m t j)\<rparr>)"

lemma checkpointOnce_next:
  "i < length (nextCheckpointTime m) \<Longrightarrow>
   nextCheckpointTime (checkpointOnce st f i m) ! i = nextCheckpointTime m ! i + checkpointPeriod m \<and>
   length (nextCheckpointTime (checkpointOnce st f i m)) = length (nextCheckpointTime m)"
  by (simp add: checkpointOnce_def Let_def split: option.splits)

text \<open>The loop of \<open>checkpoint\<close>; with a period that is not positive it does not end, which is \<open>None\<close>.\<close>

function checkpointLoop ::
  "(nat \<Rightarrow> 'st) \<Rightarrow> (nat \<Rightarrow> int \<Rightarrow> 'f) \<Rightarrow> int \<Rightarrow> nat \<Rightarrow> ('st, 'f) ofcManager \<Rightarrow> ('st, 'f) ofcManager option" where
  "checkpointLoop getState contents time i m =
     (if i < length (nextCheckpointTime m) then
        if time \<ge> nextCheckpointTime m ! i
        then if checkpointPeriod m > 0 then checkpointLoop getState contents time i (checkpointOnce getState contents i m) else None
        else Some m
      else None)"
  by auto
termination
  by (relation "measure (\<lambda>(_, _, time, i, m). nat (time + 1 - nextCheckpointTime m ! i))") (auto simp: checkpointOnce_next)

declare checkpointLoop.simps [simp del]

definition checkpoint ::
  "(nat \<Rightarrow> 'st) \<Rightarrow> (nat \<Rightarrow> int \<Rightarrow> 'f) \<Rightarrow> int \<Rightarrow> nat \<Rightarrow> ('st, 'f) ofcManager \<Rightarrow> ('st, 'f) ofcManager option" where
  "checkpoint getState contents time i m = do {
     m1 \<leftarrow> updateCheckpointTime i time m;
     checkpointLoop getState contents time i m1 }"

definition restoreCheckpoint :: "int \<Rightarrow> ('st, 'f) ofcManager \<Rightarrow> (('st, 'f) ofcManager \<times> ('st, 'f) ofcEffect) option" where
  "restoreCheckpoint restoredTime m = do {
     states \<leftarrow> checkpointedStates m restoredTime;
     files \<leftarrow> those (map (\<lambda>i. ckptFiles m restoredTime i) [0..<ofcObjects m]);
     Some (m\<lparr>lastCheckpointTime := map (\<lambda>_. restoredTime) (lastCheckpointTime m),
             nextCheckpointTime := map (\<lambda>_. restoredTime + checkpointPeriod m) (nextCheckpointTime m), lastRestoreTime := restoredTime\<rparr>,
           RestoreObjects states files) }"

subsection \<open>Collection\<close>

definition ofc_fossilCollect :: "nat \<Rightarrow> int \<Rightarrow> ('st, 'f) ofcManager \<Rightarrow> (('st, 'f) ofcManager \<times> ('st, 'f) ofcEffect list) option" where
  "ofc_fossilCollect i intCurTime m = do {
     period \<leftarrow> vec_get (fossilPeriod m) i;
     history \<leftarrow> vec_get (activeHistoryLength m) i;
     lastCollect \<leftarrow> vec_get (lastCollectTimes m) i;
     let collectTime = intCurTime - history;
     if period + 1 \<ge> 10 then
       let m1 = m\<lparr>fossilPeriod := (fossilPeriod m)[i := 0]\<rparr> in
       if intCurTime > history \<and> collectTime > lastCollect
       then Some (m1\<lparr>lastCollectTimes := (lastCollectTimes m)[i := collectTime]\<rparr>, [CollectHistory i collectTime])
       else Some (m1, [])
     else Some (m\<lparr>fossilPeriod := (fossilPeriod m)[i := period + 1]\<rparr>, []) }"

text \<open>\<open>checkFault\<close>: whether a rollback that found no state is a fault; if nothing was collected since the restart, the state of the restored
  checkpoint is the right one.\<close>

definition checkFault :: "nat \<Rightarrow> ('st, 'f) ofcManager \<Rightarrow> (bool \<times> 'st option) option" where
  "checkFault i m = do {
     lastCollect \<leftarrow> vec_get (lastCollectTimes m) i;
     if lastCollect = -1 then do {
       states \<leftarrow> checkpointedStates m (lastRestoreTime m);
       st \<leftarrow> vec_get states i;
       Some (False, Some st) }
     else Some (True, None) }"

subsection \<open>The recovery protocol\<close>

text \<open>\<open>while (rollbackTime < checkpt) checkpt -= checkpointPeriod;\<close> with an unsigned rollback time: \<open>checkpt\<close> is converted to unsigned for
  the comparison. Leaving the range of \<open>int\<close> is undefined and \<open>None\<close>; so is a period that is not positive, with which the loop goes on
  until it leaves the range or forever.\<close>

function seekCheckpoint :: "int \<Rightarrow> int \<Rightarrow> int \<Rightarrow> int option" where
  "seekCheckpoint period rollbackTime checkpt =
     (if rollbackTime < checkpt mod 2 ^ 32 then
        if period > 0 \<and> checkpt - period \<ge> - (2 ^ 31) then seekCheckpoint period rollbackTime (checkpt - period) else None
      else Some checkpt)"
  by auto
termination
  by (relation "measure (\<lambda>(_, _, checkpt). nat (checkpt + 2 ^ 31))") auto

declare seekCheckpoint.simps [simp del]

definition lowestCheckpoint :: "('st, 'f) ofcManager \<Rightarrow> int option" where
  "lowestCheckpoint m = (case lastCheckpointTime m of [] \<Rightarrow> None | c # cs \<Rightarrow> Some (foldl (\<lambda>a b. if b < a then b else a) c cs))"

definition sendRestore :: "('st, 'f) ofcManager \<Rightarrow> nat \<Rightarrow> int \<Rightarrow> restoreToken \<Rightarrow> restoreMsg" where
  "sendRestore m dest time token = \<lparr>rm_dest = dest, rm_time = time, rm_state = token, rm_incarnation = numCatastrophicRollbacks m\<rparr>"

text \<open>The active history grows by a factor of 1.3, rounded down.\<close>

definition startRecovery :: "nat \<Rightarrow> int \<Rightarrow> ('st, 'f) ofcManager \<Rightarrow> (('st, 'f) ofcManager \<times> restoreMsg) option" where
  "startRecovery objId rollbackTime m = do {
     history \<leftarrow> vec_get (activeHistoryLength m) objId;
     lowest \<leftarrow> lowestCheckpoint m;
     found \<leftarrow> seekCheckpoint (checkpointPeriod m) rollbackTime lowest;
     let checkpt = (if found < firstCheckpointTime then firstCheckpointTime else found);
     let m1 = m\<lparr>activeHistoryLength := (activeHistoryLength m)[objId := history * 13 div 10], ckptRecovery := True\<rparr>;
     if ofcId m \<noteq> 0 then Some (m1, sendRestore m1 0 checkpt SEND_TO_MASTER)
     else
       let m2 = m1\<lparr>ofcRecovering := True, numCatastrophicRollbacks := numCatastrophicRollbacks m1 + 1\<rparr>
       in Some (m2, sendRestore m2 (ofcPeer m) checkpt FIRST_CYCLE) }"

text \<open>The messages that the two loops over the physical layer would route meanwhile are delivered as steps of their own.\<close>

definition enterRecovery :: "('st, 'f) ofcManager \<Rightarrow> ('st, 'f) ofcManager" where
  "enterRecovery m = m\<lparr>ckptRecovery := True, numCatastrophicRollbacks := numCatastrophicRollbacks m + 1, ofcRecovering := True\<rparr>"

definition clearCollectTimes :: "('st, 'f) ofcManager \<Rightarrow> ('st, 'f) ofcManager" where
  "clearCollectTimes m = m\<lparr>lastCollectTimes := map (\<lambda>_. -1) (lastCollectTimes m)\<rparr>"

definition leaveRecovery :: "('st, 'f) ofcManager \<Rightarrow> ('st, 'f) ofcManager" where
  "leaveRecovery m = m\<lparr>ckptRecovery := False, ofcRecovering := False\<rparr>"

type_synonym ('st, 'f) ofcResult = "(('st, 'f) ofcManager \<times> restoreMsg list \<times> ('st, 'f) ofcEffect list) option"

definition masterReceives :: "restoreMsg \<Rightarrow> ('st, 'f) ofcManager \<Rightarrow> ('st, 'f) ofcResult" where
  "masterReceives msg m =
     (case rm_state msg of
        SEND_TO_MASTER \<Rightarrow>
          if \<not> ofcRecovering m then let m1 = enterRecovery m in Some (m1, [sendRestore m1 (ofcPeer m) (rm_time msg) FIRST_CYCLE], [])
          else Some (m, [], [])
      | FIRST_CYCLE \<Rightarrow>
          if ofcRecovering m then do {
            lowest \<leftarrow> lowestCheckpoint m;
            let checkpt = (if lowest > rm_time msg then rm_time msg else lowest);
            Some (clearCollectTimes m, [sendRestore m (ofcPeer m) checkpt SECOND_CYCLE], [PurgeQueues]) }
          else Some (m, [], [])
      | SECOND_CYCLE \<Rightarrow>
          if ofcRecovering m then do {
            let sends = map (\<lambda>dest. sendRestore m dest (rm_time msg) THIRD_CYCLE) [1..<ofcManagers m];
            (m1, effect) \<leftarrow> restoreCheckpoint (rm_time msg) (leaveRecovery m);
            Some (m1, sends, [ResetProtocols, effect]) }
          else Some (m, [], [])
      | THIRD_CYCLE \<Rightarrow> Some (m, [], []))"

definition slaveReceives :: "restoreMsg \<Rightarrow> ('st, 'f) ofcManager \<Rightarrow> ('st, 'f) ofcResult" where
  "slaveReceives msg m =
     (case rm_state msg of
        SEND_TO_MASTER \<Rightarrow> Some (m, [], [])
      | FIRST_CYCLE \<Rightarrow>
          if \<not> ofcRecovering m then
            let m1 = clearCollectTimes (enterRecovery m) in Some (m1, [sendRestore m1 (ofcPeer m) (rm_time msg) FIRST_CYCLE], [PurgeQueues])
          else Some (m, [], [])
      | SECOND_CYCLE \<Rightarrow>
          if ofcRecovering m then do {
            lowest \<leftarrow> lowestCheckpoint m;
            let checkpt = (if lowest > rm_time msg then rm_time msg else lowest);
            Some (m, [sendRestore m (ofcPeer m) checkpt SECOND_CYCLE], []) }
          else Some (m, [], [])
      | THIRD_CYCLE \<Rightarrow>
          if ofcRecovering m then do {
            (m1, effect) \<leftarrow> restoreCheckpoint (rm_time msg) (leaveRecovery m);
            Some (m1, [], [ResetProtocols, effect]) }
          else Some (m, [], []))"

definition ofc_receiveKernelMessage :: "restoreMsg \<Rightarrow> ('st, 'f) ofcManager \<Rightarrow> ('st, 'f) ofcResult" where
  "ofc_receiveKernelMessage msg m = (if ofcId m = 0 then masterReceives msg m else slaveReceives msg m)"

text \<open>\<open>routeMessage\<close> of the communication manager: while recovering, messages of earlier incarnations are dropped.\<close>

definition routeRestore :: "restoreMsg \<Rightarrow> ('st, 'f) ofcManager \<Rightarrow> ('st, 'f) ofcResult" where
  "routeRestore msg m =
     (if ckptRecovery m \<and> rm_incarnation msg < numCatastrophicRollbacks m then Some (m, [], []) else ofc_receiveKernelMessage msg m)"

subsection \<open>Checkpoints can be restored\<close>

text \<open>\<open>t\<close> is a checkpoint time, and a manager can restore it for all its objects.\<close>

definition isCheckpoint :: "int \<Rightarrow> int \<Rightarrow> bool" where
  "isCheckpoint period t \<longleftrightarrow> firstCheckpointTime \<le> t \<and> period dvd t - firstCheckpointTime"

definition ofc_inv :: "('st, 'f) ofcManager \<Rightarrow> bool" where
  "ofc_inv m \<longleftrightarrow> 0 < checkpointPeriod m \<and> 0 < ofcObjects m \<and> length (nextCheckpointTime m) = ofcObjects m \<and>
     (\<forall>i < ofcObjects m. nextCheckpointTime m ! i = lastCheckpointTime m ! i + checkpointPeriod m \<and>
        isCheckpoint (checkpointPeriod m) (lastCheckpointTime m ! i) \<and>
        (\<forall>t. isCheckpoint (checkpointPeriod m) t \<and> t \<le> lastCheckpointTime m ! i \<longrightarrow> ckptFiles m t i \<noteq> None)) \<and>
     (\<exists>newest. (\<forall>t. checkpointedStates m t \<noteq> None \<longleftrightarrow> isCheckpoint (checkpointPeriod m) t \<and> t \<le> newest) \<and>
        (\<forall>i < ofcObjects m. lastCheckpointTime m ! i \<le> newest))"

definition restorable :: "int \<Rightarrow> ('st, 'f) ofcManager \<Rightarrow> bool" where
  "restorable t m \<longleftrightarrow> isCheckpoint (checkpointPeriod m) t \<and> (\<forall>i < ofcObjects m. t \<le> lastCheckpointTime m ! i)"

lemma ofc_invD:
  assumes "ofc_inv m" and "i < ofcObjects m"
  shows "nextCheckpointTime m ! i = lastCheckpointTime m ! i + checkpointPeriod m"
    and "isCheckpoint (checkpointPeriod m) (lastCheckpointTime m ! i)"
    and "isCheckpoint (checkpointPeriod m) t \<Longrightarrow> t \<le> lastCheckpointTime m ! i \<Longrightarrow> ckptFiles m t i \<noteq> None"
  using assms unfolding ofc_inv_def by blast+

lemma ofc_inv_sizes: "ofc_inv m \<Longrightarrow> 0 < checkpointPeriod m \<and> 0 < ofcObjects m \<and> length (nextCheckpointTime m) = ofcObjects m"
  by (simp add: ofc_inv_def)

lemma ofc_invI:
  assumes "0 < checkpointPeriod m" and "0 < ofcObjects m" and "length (nextCheckpointTime m) = ofcObjects m"
    and "\<And>i. i < ofcObjects m \<Longrightarrow> nextCheckpointTime m ! i = lastCheckpointTime m ! i + checkpointPeriod m"
    and "\<And>i. i < ofcObjects m \<Longrightarrow> isCheckpoint (checkpointPeriod m) (lastCheckpointTime m ! i)"
    and "\<And>i t. i < ofcObjects m \<Longrightarrow> isCheckpoint (checkpointPeriod m) t \<Longrightarrow> t \<le> lastCheckpointTime m ! i \<Longrightarrow> ckptFiles m t i \<noteq> None"
    and "\<And>t. checkpointedStates m t \<noteq> None \<longleftrightarrow> isCheckpoint (checkpointPeriod m) t \<and> t \<le> newest"
    and "\<And>i. i < ofcObjects m \<Longrightarrow> lastCheckpointTime m ! i \<le> newest"
  shows "ofc_inv m"
  unfolding ofc_inv_def using assms by blast

lemma isCheckpoint_next: "0 < p \<Longrightarrow> isCheckpoint p t \<Longrightarrow> isCheckpoint p (t + p)"
  by (simp add: isCheckpoint_def) (metis add_diff_eq add.commute dvd_add_triv_left_iff)

text \<open>Checkpoint times are a period apart.\<close>

lemma isCheckpoint_gap:
  assumes "0 < p" and "isCheckpoint p s" and "isCheckpoint p t" and "s < t"
  shows "s + p \<le> t"
proof -
  have "p dvd t - s" using assms(2,3) dvd_diff [of p "t - 1" "s - 1"] by (simp add: isCheckpoint_def firstCheckpointTime_def)
  then show ?thesis using assms(4) zdvd_imp_le [of p "t - s"] by simp
qed

lemma initial_inv:
  assumes "0 < p" and "0 < n"
  shows "ofc_inv (makeInitialCheckpoint st f (OptFossilCollManager k managers n p len))"
  using assms by (auto simp: ofc_inv_def makeInitialCheckpoint_def OptFossilCollManager_def isCheckpoint_def firstCheckpointTime_def intro!: exI [of _ 1])

text \<open>An operation that moves the last checkpoint time of one object to another checkpoint the object has saved.\<close>

lemma ofc_inv_move:
  assumes inv: "ofc_inv m" and i: "i < ofcObjects m" and t: "isCheckpoint (checkpointPeriod m) t" "t \<le> lastCheckpointTime m ! i"
  shows "ofc_inv (m\<lparr>lastCheckpointTime := (lastCheckpointTime m)[i := t], nextCheckpointTime := (nextCheckpointTime m)[i := t + checkpointPeriod m]\<rparr>)"
proof -
  obtain newest where newest: "\<forall>t. checkpointedStates m t \<noteq> None \<longleftrightarrow> isCheckpoint (checkpointPeriod m) t \<and> t \<le> newest"
    "\<forall>i < ofcObjects m. lastCheckpointTime m ! i \<le> newest" using inv unfolding ofc_inv_def by blast
  have le: "(lastCheckpointTime m)[i := t] ! j \<le> lastCheckpointTime m ! j" for j
    using t(2) i by (cases "i = j") simp_all
  have ups: "(nextCheckpointTime m)[i := t + checkpointPeriod m] ! j = (lastCheckpointTime m)[i := t] ! j + checkpointPeriod m \<and>
      isCheckpoint (checkpointPeriod m) ((lastCheckpointTime m)[i := t] ! j)" if "j < ofcObjects m" for j
    using that i t(1) ofc_invD(1,2) [OF inv that] ofc_inv_sizes [OF inv] by (cases "i = j") simp_all
  show ?thesis
    using ofc_inv_sizes [OF inv] ups order_trans [OF le] ofc_invD(3) [OF inv] newest order_trans [OF _ le]
    by (intro ofc_invI [where newest = newest]) simp_all
qed

lemma updateCheckpointTime_ok:
  assumes "ofc_inv m" and "i < ofcObjects m"
  shows "\<exists>m'. updateCheckpointTime i t m = Some m' \<and> ofc_inv m' \<and>
    m' = m\<lparr>lastCheckpointTime := lastCheckpointTime m', nextCheckpointTime := nextCheckpointTime m'\<rparr> \<and>
    ofcObjects m' = ofcObjects m"
proof -
  let ?last = "lastCheckpointTime m ! i" and ?p = "checkpointPeriod m"
  have p: "0 < ?p" "length (nextCheckpointTime m) = ofcObjects m" using ofc_inv_sizes [OF assms(1)] by simp_all
  have c: "isCheckpoint ?p ?last" by (rule ofc_invD(2) [OF assms])
  have first: "ofc_inv (m\<lparr>lastCheckpointTime := (lastCheckpointTime m)[i := firstCheckpointTime],
      nextCheckpointTime := (nextCheckpointTime m)[i := ?p + 1]\<rparr>)"
    using ofc_inv_move [OF assms, of firstCheckpointTime] c by (simp add: isCheckpoint_def firstCheckpointTime_def add.commute)
  have older: "ofc_inv (m\<lparr>lastCheckpointTime := (lastCheckpointTime m)[i := ?last - ?p], nextCheckpointTime := (nextCheckpointTime m)[i := ?last]\<rparr>)"
    if "firstCheckpointTime \<le> ?last - ?p"
  proof -
    have "?p dvd ?last - ?p - firstCheckpointTime" using c dvd_diff [of ?p "?last - firstCheckpointTime" ?p] by (simp add: isCheckpoint_def algebra_simps)
    then show ?thesis using ofc_inv_move [OF assms, of "?last - ?p"] that p(1) by (simp add: isCheckpoint_def)
  qed
  show ?thesis
    using first older assms p by (cases m) (auto simp: updateCheckpointTime_def vec_simps Let_def not_less)
qed

lemma checkpointOnce_ok:
  assumes inv: "ofc_inv m" and i: "i < ofcObjects m"
  shows "ofc_inv (checkpointOnce st f i m) \<and> ofcObjects (checkpointOnce st f i m) = ofcObjects m"
proof -
  let ?p = "checkpointPeriod m" and ?now = "nextCheckpointTime m ! i" and ?m = "checkpointOnce st f i m"
  have sz: "0 < ?p" "0 < ofcObjects m" "length (nextCheckpointTime m) = ofcObjects m" using ofc_inv_sizes [OF inv] by simp_all
  have last: "isCheckpoint ?p (lastCheckpointTime m ! j)" "nextCheckpointTime m ! j = lastCheckpointTime m ! j + ?p"
    "isCheckpoint ?p (nextCheckpointTime m ! j)" if "j < ofcObjects m" for j
    using ofc_invD(1,2) [OF inv that] isCheckpoint_next [OF sz(1)] by simp_all
  have before: "t \<le> lastCheckpointTime m ! j \<or> t = nextCheckpointTime m ! j"
    if "isCheckpoint ?p t" "t \<le> nextCheckpointTime m ! j" "j < ofcObjects m" for t j
    using isCheckpoint_gap [OF sz(1) that(1) last(3) [OF that(3)]] that(2) last(2) [OF that(3)] by fastforce
  obtain newest where new: "\<And>t. checkpointedStates m t \<noteq> None \<longleftrightarrow> isCheckpoint ?p t \<and> t \<le> newest"
    "\<And>j. j < ofcObjects m \<Longrightarrow> lastCheckpointTime m ! j \<le> newest" using inv unfolding ofc_inv_def by blast
  show ?thesis
  proof (cases "checkpointedStates m ?now")
    case None
    then have n: "newest < ?now" using new(1) [of ?now] last(3) [OF i] by auto
    have le: "nextCheckpointTime m ! j \<le> ?now" if "j < ofcObjects m" for j
      using isCheckpoint_gap [OF sz(1) last(1) [OF that] last(3) [OF i]] new(2) [OF that] n last(2) [OF that] by simp
    have fl: "ckptFiles ?m t j \<noteq> None" if "j < ofcObjects m" "isCheckpoint ?p t" "t \<le> nextCheckpointTime m ! j" for t j
      using before [OF that(2,3,1)] ofc_invD(3) [OF inv that(1,2)] that(1) None by (auto simp: checkpointOnce_def Let_def)
    have "checkpointedStates ?m t \<noteq> None \<longleftrightarrow> isCheckpoint ?p t \<and> t \<le> ?now" for t
      using None new(1) [of t] n before [of t i] last(3) [OF i] new(2) [OF i] i by (auto simp: checkpointOnce_def Let_def)
    then show ?thesis
      using None sz last le fl by (intro conjI ofc_invI [where newest = ?now]) (simp_all add: checkpointOnce_def Let_def)
  next
    case (Some states)
    have up: "(lastCheckpointTime m)[i := ?now] ! j \<le> newest" if "j < ofcObjects m" for j
      using new(1) [of ?now] Some new(2) [OF that] i by (cases "i = j") simp_all
    have nx: "(nextCheckpointTime m)[i := ?now + ?p] ! j = (lastCheckpointTime m)[i := ?now] ! j + ?p \<and> isCheckpoint ?p ((lastCheckpointTime m)[i := ?now] ! j)"
      if "j < ofcObjects m" for j using last [OF that] i sz(3) that by (cases "i = j") simp_all
    have fl: "ckptFiles ?m t j \<noteq> None" if "j < ofcObjects m" "isCheckpoint ?p t" "t \<le> (lastCheckpointTime m)[i := ?now] ! j" for t j
      using that before [OF that(2), of i] ofc_invD(3) [OF inv that(1,2)] i Some by (cases "i = j") (auto simp: checkpointOnce_def Let_def)
    have "checkpointedStates ?m t \<noteq> None \<longleftrightarrow> isCheckpoint ?p t \<and> t \<le> newest" for t
      using Some new(1) [of t] by (auto simp: checkpointOnce_def Let_def)
    then show ?thesis
      using Some sz up nx fl by (intro conjI ofc_invI [where newest = newest]) (simp_all add: checkpointOnce_def Let_def)
  qed
qed

lemma checkpointLoop_ok:
  assumes "ofc_inv m" and "i < ofcObjects m"
  shows "\<exists>m'. checkpointLoop st f time i m = Some m' \<and> ofc_inv m' \<and> ofcObjects m' = ofcObjects m \<and> time < nextCheckpointTime m' ! i"
  using assms
proof (induction st f time i m rule: checkpointLoop.induct)
  case (1 st f time i m)
  have sz: "0 < checkpointPeriod m" "i < length (nextCheckpointTime m)" using ofc_inv_sizes [OF 1(2)] 1(3) by simp_all
  show ?case
  proof (cases "time \<ge> nextCheckpointTime m ! i")
    case True
    then show ?thesis using 1(1) [OF sz(2) True sz(1)] checkpointOnce_ok [OF 1(2,3), of st f] sz 1(3) True by (subst checkpointLoop.simps) simp
  next
    case False
    then show ?thesis using 1(2) sz by (subst checkpointLoop.simps) simp
  qed
qed

lemma checkpoint_ok:
  assumes "ofc_inv m" and "i < ofcObjects m"
  shows "\<exists>m'. checkpoint st f time i m = Some m' \<and> ofc_inv m' \<and> ofcObjects m' = ofcObjects m \<and> time < nextCheckpointTime m' ! i"
proof -
  obtain m1 where m1: "updateCheckpointTime i time m = Some m1" "ofc_inv m1" "ofcObjects m1 = ofcObjects m"
    using updateCheckpointTime_ok [OF assms, of time] by blast
  then show ?thesis using checkpointLoop_ok [OF m1(2), of i st f time] assms(2) by (simp add: checkpoint_def)
qed

lemma those_Some: "(\<forall>x \<in> set xs. x \<noteq> None) \<Longrightarrow> \<exists>ys. those xs = Some ys"
  by (induction xs) auto

lemma restoreCheckpoint_ok:
  assumes inv: "ofc_inv m" and t: "restorable t m"
  shows "\<exists>m' e. restoreCheckpoint t m = Some (m', e) \<and> ofc_inv m' \<and> restorable t m' \<and> lastRestoreTime m' = t \<and>
    ofcId m' = ofcId m \<and> ofcManagers m' = ofcManagers m \<and> ofcPeer m' = ofcPeer m \<and> checkpointPeriod m' = checkpointPeriod m \<and>
    ofcRecovering m' = ofcRecovering m \<and> ckptRecovery m' = ckptRecovery m \<and>
    numCatastrophicRollbacks m' = numCatastrophicRollbacks m \<and> ofcObjects m' = ofcObjects m"
proof -
  let ?p = "checkpointPeriod m"
  have sz: "0 < ?p" "0 < ofcObjects m" "length (nextCheckpointTime m) = ofcObjects m" using ofc_inv_sizes [OF inv] by simp_all
  have c: "isCheckpoint ?p t" "\<And>i. i < ofcObjects m \<Longrightarrow> t \<le> lastCheckpointTime m ! i" using t by (simp_all add: restorable_def)
  obtain newest where new: "\<And>t. checkpointedStates m t \<noteq> None \<longleftrightarrow> isCheckpoint ?p t \<and> t \<le> newest"
    "\<And>j. j < ofcObjects m \<Longrightarrow> lastCheckpointTime m ! j \<le> newest" using inv unfolding ofc_inv_def by blast
  have tn: "t \<le> newest" using c(2) [OF sz(2)] new(2) [OF sz(2)] by simp
  then obtain states where states: "checkpointedStates m t = Some states" using new(1) c(1) by blast
  have "\<forall>x \<in> set (map (\<lambda>i. ckptFiles m t i) [0..<ofcObjects m]). x \<noteq> None" using ofc_invD(3) [OF inv _ c(1)] c(2) by auto
  then obtain files where files: "those (map (\<lambda>i. ckptFiles m t i) [0..<ofcObjects m]) = Some files" using those_Some by blast
  let ?m = "m\<lparr>lastCheckpointTime := map (\<lambda>_. t) (lastCheckpointTime m), nextCheckpointTime := map (\<lambda>_. t + ?p) (nextCheckpointTime m), lastRestoreTime := t\<rparr>"
  have "ckptFiles m u i \<noteq> None" if "i < ofcObjects m" "isCheckpoint ?p u" "u \<le> t" for u i
    using ofc_invD(3) [OF inv that(1,2)] c(2) [OF that(1)] that(3) by simp
  then have "ofc_inv ?m" using sz c(1) tn new(1) by (intro ofc_invI [where newest = newest]) simp_all
  then show ?thesis using states files c(1) by (simp add: restoreCheckpoint_def restorable_def)
qed

subsection \<open>The checkpoint to go back to\<close>

lemma foldl_lowest:
  fixes c :: int
  shows "foldl (\<lambda>a b. if b < a then b else a) c cs \<in> set (c # cs) \<and> (\<forall>x \<in> set (c # cs). foldl (\<lambda>a b. if b < a then b else a) c cs \<le> x)"
proof (induction cs arbitrary: c)
  case (Cons b cs)
  then show ?case using Cons [of "if b < c then b else c"] by (cases "b < c") fastforce+
qed simp

lemma lowestCheckpoint_ok:
  assumes "ofc_inv m"
  shows "\<exists>c. lowestCheckpoint m = Some c \<and> isCheckpoint (checkpointPeriod m) c \<and> (\<forall>i < ofcObjects m. c \<le> lastCheckpointTime m ! i) \<and>
    (\<exists>i < ofcObjects m. c = lastCheckpointTime m ! i)"
proof -
  obtain b bs where ne: "lastCheckpointTime m = b # bs" using ofc_inv_sizes [OF assms] by (cases "lastCheckpointTime m") auto
  define c where "c = foldl (\<lambda>a b. if b < a then b else a) b bs"
  have "lowestCheckpoint m = Some c" by (simp add: lowestCheckpoint_def ne c_def)
  moreover have c: "c \<in> set (lastCheckpointTime m)" "\<forall>x \<in> set (lastCheckpointTime m). c \<le> x"
    using foldl_lowest [of b bs] unfolding ne c_def by blast+
  moreover from c(1) obtain i where "i < ofcObjects m" "c = lastCheckpointTime m ! i" by (auto simp: in_set_conv_nth)
  ultimately show ?thesis using ofc_invD(2) [OF assms] nth_mem by metis
qed

lemma seekCheckpoint_dvd: "seekCheckpoint p r c = Some d \<Longrightarrow> p dvd c - d"
proof (induction p r c rule: seekCheckpoint.induct)
  case (1 p r c)
  show ?case
  proof (cases "r < c mod 2 ^ 32")
    case True
    then have "p > 0 \<and> c - p \<ge> - (2 ^ 31)" "seekCheckpoint p r (c - p) = Some d"
      using 1(2) by (simp_all add: seekCheckpoint.simps [of p r c] split: if_splits)
    then have "p dvd c - p - d" using 1(1) True by simp
    then show ?thesis by (metis diff_diff_eq2 diff_add_cancel dvd_add_triv_right_iff add.commute diff_add_eq diff_diff_add)
  next
    case False
    then show ?thesis using 1(2) by (simp add: seekCheckpoint.simps [of p r c])
  qed
qed

lemma seekCheckpoint_finds:
  assumes "0 < p" and "isCheckpoint p c" and "c < 2 ^ 31" and "firstCheckpointTime \<le> r"
  shows "\<exists>d. seekCheckpoint p r c = Some d \<and> isCheckpoint p d \<and> d \<le> r \<and> d \<le> c \<and> (\<forall>t. isCheckpoint p t \<and> t \<le> r \<and> t \<le> c \<longrightarrow> t \<le> d)"
  using assms
proof (induction p r c rule: seekCheckpoint.induct)
  case (1 p r c)
  have c: "c mod 2 ^ 32 = c" using 1(3,4) by (simp add: isCheckpoint_def firstCheckpointTime_def)
  show ?case
  proof (cases "r < c")
    case True
    have f: "isCheckpoint p firstCheckpointTime" by (simp add: isCheckpoint_def)
    have "firstCheckpointTime + p \<le> c" using isCheckpoint_gap [OF 1(2) f 1(3)] True 1(5) by simp
    moreover have "p dvd c - p - firstCheckpointTime" using 1(3) dvd_diff [of p "c - firstCheckpointTime" p] by (simp add: isCheckpoint_def algebra_simps)
    ultimately have ic: "isCheckpoint p (c - p)" "c - p \<ge> - (2 ^ 31)" by (simp_all add: isCheckpoint_def firstCheckpointTime_def)
    then obtain d where d: "seekCheckpoint p r (c - p) = Some d" "isCheckpoint p d" "d \<le> r" "d \<le> c - p"
      "\<forall>t. isCheckpoint p t \<and> t \<le> r \<and> t \<le> c - p \<longrightarrow> t \<le> d" using 1(1,2,4,5) True c by force
    have "t \<le> d" if "isCheckpoint p t" "t \<le> r" "t \<le> c" for t
      using isCheckpoint_gap [OF 1(2) that(1) 1(3)] that d(5) True by fastforce
    then show ?thesis using d True c ic(2) 1(2) by (subst seekCheckpoint.simps) auto
  next
    case False
    then show ?thesis using c 1(3) by (subst seekCheckpoint.simps) auto
  qed
qed

text \<open>A rollback before the first checkpoint: the loop passes over the first checkpoint and leaves the range of \<open>int\<close>.\<close>

lemma seekCheckpoint_zero:
  assumes "1 < p" and "p dvd c - firstCheckpointTime" and "- (2 ^ 31) \<le> c" and "c < 2 ^ 31"
  shows "seekCheckpoint p 0 c = None"
  using assms
proof (induction p "0 :: int" c rule: seekCheckpoint.induct)
  case (1 p c)
  have "c \<noteq> 0" using 1(2,3) zdvd_imp_le [of p 1] by (auto simp: firstCheckpointTime_def)
  have "c mod 2 ^ 32 \<noteq> 0"
  proof
    assume "c mod 2 ^ 32 = 0"
    then obtain k where "c = 2 ^ 32 * k" by (auto simp: mod_eq_0_iff_dvd elim: dvdE)
    then show False using 1(4,5) \<open>c \<noteq> 0\<close> by (cases "k \<ge> 1"; cases "k \<le> -1") simp_all
  qed
  then have pos: "0 < c mod 2 ^ 32" by (metis le_less pos_mod_sign zero_less_numeral zero_less_power)
  have "p dvd c - p - firstCheckpointTime" using 1(3) dvd_diff [of p "c - firstCheckpointTime" p] by (simp add: algebra_simps)
  then show ?case using 1(1) [OF pos] 1(2,5) pos by (subst seekCheckpoint.simps) simp
qed

subsection \<open>Properties\<close>

text \<open>after a catastrophic rollback to time \<open>rollbackTime\<close> a manager asks to go back to the latest checkpoint that is not after
  \<open>rollbackTime\<close> and that all its objects have reached; the checkpoint can be restored.\<close>

theorem recovery_checkpoint_chosen:
  assumes "ofc_inv m" and "i < length (activeHistoryLength m)" and "list_all (\<lambda>t. t < 2 ^ 31) (lastCheckpointTime m)" and "1 \<le> rollbackTime"
  shows "\<exists>m' msg. startRecovery i rollbackTime m = Some (m', msg) \<and> restorable (rm_time msg) m \<and> rm_time msg \<le> rollbackTime \<and>
    (\<forall>t. restorable t m \<and> t \<le> rollbackTime \<longrightarrow> t \<le> rm_time msg)"
proof -
  let ?p = "checkpointPeriod m"
  obtain c where c: "lowestCheckpoint m = Some c" "isCheckpoint ?p c" "\<forall>i < ofcObjects m. c \<le> lastCheckpointTime m ! i"
    "\<exists>i < ofcObjects m. c = lastCheckpointTime m ! i" using lowestCheckpoint_ok [OF assms(1)] by blast
  have "c < 2 ^ 31" using c(4) assms(3) by (auto simp: list_all_length)
  then obtain d where d: "seekCheckpoint ?p rollbackTime c = Some d" "isCheckpoint ?p d" "d \<le> rollbackTime" "d \<le> c"
    "\<forall>t. isCheckpoint ?p t \<and> t \<le> rollbackTime \<and> t \<le> c \<longrightarrow> t \<le> d"
    using seekCheckpoint_finds [OF _ c(2), of rollbackTime] ofc_inv_sizes [OF assms(1)] assms(4) by (auto simp: firstCheckpointTime_def)
  have "\<not> d < firstCheckpointTime" using d(2) by (simp add: isCheckpoint_def)
  then have "\<exists>m' msg. startRecovery i rollbackTime m = Some (m', msg) \<and> rm_time msg = d"
    using assms(2) c(1) d(1) by (simp add: startRecovery_def vec_simps Let_def sendRestore_def)
  moreover have "restorable d m" using d(2,4) c(3) by (auto simp: restorable_def)
  moreover have "t \<le> d" if "restorable t m" "t \<le> rollbackTime" for t
    using that d(5) c(4) by (auto simp: restorable_def)
  ultimately show ?thesis using d(3) by metis
qed

text \<open>a catastrophic rollback to time zero, before the first checkpoint, does not start a recovery: the loop that looks for the checkpoint
  compares a negative number as unsigned, passes over the first checkpoint and overflows.\<close>

theorem recovery_before_first_checkpoint:
  assumes "ofc_inv m" and "1 < checkpointPeriod m" and "list_all (\<lambda>t. t < 2 ^ 31) (lastCheckpointTime m)"
  shows "startRecovery i 0 m = None"
proof -
  obtain c where c: "lowestCheckpoint m = Some c" "isCheckpoint (checkpointPeriod m) c"
    "\<exists>i < ofcObjects m. c = lastCheckpointTime m ! i" using lowestCheckpoint_ok [OF assms(1)] by blast
  have "c < 2 ^ 31" using c(3) assms(3) by (auto simp: list_all_length)
  then have "seekCheckpoint (checkpointPeriod m) 0 c = None"
    using c(2) assms(2) by (intro seekCheckpoint_zero) (simp_all add: isCheckpoint_def firstCheckpointTime_def)
  then show ?thesis using c(1) by (cases "vec_get (activeHistoryLength m) i") (simp_all add: startRecovery_def)
qed

text \<open>Two objects, a period of ten, and the first of them has reached time 25.\<close>

definition ex_ofc :: "(nat, nat) ofcManager" where
  "ex_ofc = the (checkpoint (\<lambda>i. i) (\<lambda>i t. i) 25 0 (makeInitialCheckpoint (\<lambda>i. i) (\<lambda>i t. i) (OptFossilCollManager 1 2 2 10 100)))"

lemma ex_ofc_inv: "ofc_inv ex_ofc"
proof -
  let ?m = "makeInitialCheckpoint (\<lambda>i. i) (\<lambda>i t. i) (OptFossilCollManager 1 2 2 10 100) :: (nat, nat) ofcManager"
  have "ofc_inv ?m" by (rule initial_inv) simp_all
  moreover have "0 < ofcObjects ?m" by (simp add: makeInitialCheckpoint_def OptFossilCollManager_def)
  ultimately show ?thesis using checkpoint_ok [of ?m 0 "\<lambda>i. i" "\<lambda>i t. i" 25] by (auto simp: ex_ofc_def)
qed

lemma ex_ofc_fields: "lastCheckpointTime ex_ofc = [21, 21]" "checkpointPeriod ex_ofc = 10" "length (activeHistoryLength ex_ofc) = 2"
  by code_simp+

theorem recovery_checkpoint_chosen_witness:
  "\<exists>m' msg. startRecovery 0 18 ex_ofc = Some (m', msg) \<and> restorable (rm_time msg) ex_ofc \<and> rm_time msg \<le> 18"
  using recovery_checkpoint_chosen [OF ex_ofc_inv, of 0 18] by (auto simp: ex_ofc_fields)

theorem recovery_before_first_checkpoint_witness: "startRecovery 0 0 ex_ofc = None"
  using recovery_before_first_checkpoint [OF ex_ofc_inv, of 0] by (simp add: ex_ofc_fields)

text \<open>The first object to reach a checkpoint also moves the checkpoint times of the objects that are behind.\<close>

lemma checkpoint_of_objects_behind:
  "map_option (\<lambda>m. (lastCheckpointTime m, checkpointedStates m 11))
     (checkpoint (\<lambda>i. i) (\<lambda>i t. i) 15 0 (makeInitialCheckpoint (\<lambda>i. i) (\<lambda>i t. i) (OptFossilCollManager 0 1 2 10 100 :: (nat, nat) ofcManager))) =
   Some ([11, 11], Some [0, 1])"
  by code_simp

end
