(* ===== verification/FossilProtocol.thy ===== *)
theory FossilProtocol
  imports FossilRecovery "HOL-Library.Multiset"
begin

text \<open>
  The recovery protocol of all simulation managers together: the managers take checkpoints, collect histories and ask for recoveries, and the
  messages between them are delivered in any order. Two rounds of a token freeze the managers and find the latest checkpoint that all of them can
  restore; the master then tells it to the others.
\<close>

subsection \<open>The managers and the messages between them\<close>

record ('st, 'f) ofcRing =
  ofcs :: "('st, 'f) ofcManager list"
  flight :: "restoreMsg multiset"

definition ofc_start :: "nat \<Rightarrow> int \<Rightarrow> int \<Rightarrow> (nat \<Rightarrow> nat) \<Rightarrow> (nat \<Rightarrow> 'st) \<Rightarrow> (nat \<Rightarrow> int \<Rightarrow> 'f) \<Rightarrow> ('st, 'f) ofcRing" where
  "ofc_start n period len objs st f =
     \<lparr>ofcs = map (\<lambda>k. makeInitialCheckpoint st f (OptFossilCollManager k n (objs k) period len)) [0..<n], flight = {#}\<rparr>"

definition ofc_deliver :: "restoreMsg \<Rightarrow> ('st, 'f) ofcRing \<Rightarrow> ('st, 'f) ofcRing option" where
  "ofc_deliver msg r = do {
     m \<leftarrow> vec_get (ofcs r) (rm_dest msg);
     (m', sends, _) \<leftarrow> routeRestore msg m;
     Some (r\<lparr>ofcs := (ofcs r)[rm_dest msg := m'], flight := flight r - {#msg#} + mset sends\<rparr>) }"

text \<open>A manager that is not recovering goes on with the simulation.\<close>

inductive ofc_step :: "('st, 'f) ofcRing \<Rightarrow> ('st, 'f) ofcRing \<Rightarrow> bool" where
  ofc_checkpoint: "k < length (ofcs r) \<Longrightarrow> \<not> ckptRecovery (ofcs r ! k) \<Longrightarrow> i < ofcObjects (ofcs r ! k) \<Longrightarrow>
    checkpoint st f time i (ofcs r ! k) = Some m \<Longrightarrow> ofc_step r (r\<lparr>ofcs := (ofcs r)[k := m]\<rparr>)"
| ofc_rollback: "k < length (ofcs r) \<Longrightarrow> \<not> ckptRecovery (ofcs r ! k) \<Longrightarrow> i < ofcObjects (ofcs r ! k) \<Longrightarrow>
    updateCheckpointTime i time (ofcs r ! k) = Some m \<Longrightarrow> ofc_step r (r\<lparr>ofcs := (ofcs r)[k := m]\<rparr>)"
| ofc_collect: "k < length (ofcs r) \<Longrightarrow> \<not> ckptRecovery (ofcs r ! k) \<Longrightarrow>
    ofc_fossilCollect i time (ofcs r ! k) = Some (m, effects) \<Longrightarrow> ofc_step r (r\<lparr>ofcs := (ofcs r)[k := m]\<rparr>)"
| ofc_request: "k < length (ofcs r) \<Longrightarrow> \<not> ckptRecovery (ofcs r ! k) \<Longrightarrow>
    startRecovery i time (ofcs r ! k) = Some (m, msg) \<Longrightarrow> ofc_step r (r\<lparr>ofcs := (ofcs r)[k := m], flight := add_mset msg (flight r)\<rparr>)"
| ofc_delivery: "msg \<in># flight r \<Longrightarrow> ofc_deliver msg r = Some r' \<Longrightarrow> ofc_step r r'"

inductive ofc_reachable :: "('st, 'f) ofcRing \<Rightarrow> ('st, 'f) ofcRing \<Rightarrow> bool" for r0 where
  ofc_init: "ofc_reachable r0 r0"
| ofc_next: "ofc_reachable r0 r \<Longrightarrow> ofc_step r r' \<Longrightarrow> ofc_reachable r0 r'"

subsection \<open>The invariant\<close>

definition ckptTokens :: "('st, 'f) ofcRing \<Rightarrow> restoreMsg multiset" where
  "ckptTokens r = {#msg \<in># flight r. rm_state msg = FIRST_CYCLE \<or> rm_state msg = SECOND_CYCLE#}"

definition thirds :: "nat \<Rightarrow> ('st, 'f) ofcRing \<Rightarrow> restoreMsg multiset" where
  "thirds j r = {#msg \<in># flight r. rm_state msg = THIRD_CYCLE \<and> rm_dest msg = j#}"

text \<open>Every manager has its place, its checkpoints in order, and knows that it recovers; messages go to managers and carry checkpoint times.\<close>

definition mgr_inv :: "nat \<Rightarrow> int \<Rightarrow> nat \<Rightarrow> ('st, 'f) ofcManager \<Rightarrow> bool" where
  "mgr_inv n p k m \<longleftrightarrow> ofc_inv m \<and> ofcId m = k \<and> ofcManagers m = n \<and> ofcPeer m = (if k = n - 1 then 0 else k + 1) \<and>
     checkpointPeriod m = p \<and> (ofcRecovering m \<longrightarrow> ckptRecovery m)"

definition msg_inv :: "nat \<Rightarrow> int \<Rightarrow> restoreMsg \<Rightarrow> bool" where
  "msg_inv n p msg \<longleftrightarrow> rm_dest msg < n \<and> isCheckpoint p (rm_time msg) \<and> (rm_state msg = SEND_TO_MASTER \<longrightarrow> rm_dest msg = 0) \<and>
     (rm_state msg = THIRD_CYCLE \<longrightarrow> rm_dest msg \<noteq> 0)"

text \<open>A manager other than the master has either restored the master's checkpoint or is about to be told to restore it.\<close>

definition slave_inv :: "('st, 'f) ofcManager \<Rightarrow> ('st, 'f) ofcManager \<Rightarrow> restoreMsg multiset \<Rightarrow> bool" where
  "slave_inv master m third \<longleftrightarrow> numCatastrophicRollbacks m \<le> numCatastrophicRollbacks master \<and>
     (third = {#} \<and> lastRestoreTime m = lastRestoreTime master \<or>
      (\<exists>msg. third = {#msg#} \<and> ofcRecovering m \<and> rm_time msg = lastRestoreTime master \<and> restorable (rm_time msg) m \<and>
         numCatastrophicRollbacks m \<le> rm_incarnation msg))"

text \<open>Where the token is: nowhere, in its first round, lost, or in its second round.\<close>

datatype ofcPhase = NoToken | FirstRound restoreMsg | TokenLost | SecondRound restoreMsg

definition visited :: "nat \<Rightarrow> nat \<Rightarrow> bool" where
  "visited d j \<longleftrightarrow> d = 0 \<or> j < d"

fun phase_inv :: "nat \<Rightarrow> ('st, 'f) ofcRing \<Rightarrow> ofcPhase \<Rightarrow> bool" where
  "phase_inv n r NoToken \<longleftrightarrow> \<not> ofcRecovering (ofcs r ! 0) \<and> ckptTokens r = {#}"
| "phase_inv n r TokenLost \<longleftrightarrow> ofcRecovering (ofcs r ! 0) \<and> ckptTokens r = {#}"
| "phase_inv n r (FirstRound msg) \<longleftrightarrow> ofcRecovering (ofcs r ! 0) \<and> ckptTokens r = {#msg#} \<and> rm_state msg = FIRST_CYCLE \<and>
     (\<forall>j. 0 < j \<and> j < n \<longrightarrow> (if visited (rm_dest msg) j then ofcRecovering (ofcs r ! j) \<and> thirds j r = {#}
        else numCatastrophicRollbacks (ofcs r ! j) < numCatastrophicRollbacks (ofcs r ! 0)))"
| "phase_inv n r (SecondRound msg) \<longleftrightarrow> ofcRecovering (ofcs r ! 0) \<and> ckptTokens r = {#msg#} \<and> rm_state msg = SECOND_CYCLE \<and>
     (\<forall>j. 0 < j \<and> j < n \<longrightarrow> ofcRecovering (ofcs r ! j) \<and> thirds j r = {#}) \<and>
     (\<forall>j < n. visited (rm_dest msg) j \<longrightarrow> restorable (rm_time msg) (ofcs r ! j))"

definition ring_inv :: "nat \<Rightarrow> int \<Rightarrow> ('st, 'f) ofcRing \<Rightarrow> bool" where
  "ring_inv n p r \<longleftrightarrow> 0 < n \<and> length (ofcs r) = n \<and> (\<forall>k < n. mgr_inv n p k (ofcs r ! k)) \<and> (\<forall>msg \<in># flight r. msg_inv n p msg) \<and>
     (\<forall>j. 0 < j \<and> j < n \<longrightarrow> slave_inv (ofcs r ! 0) (ofcs r ! j) (thirds j r)) \<and> (\<exists>ph. phase_inv n r ph)"

lemmas queue_simps = ckptTokens_def thirds_def filter_union_mset

lemma ring_invD:
  assumes "ring_inv n p r"
  shows "0 < n" and "length (ofcs r) = n" and "k < n \<Longrightarrow> mgr_inv n p k (ofcs r ! k)" and "msg \<in># flight r \<Longrightarrow> msg_inv n p msg"
    and "0 < j \<Longrightarrow> j < n \<Longrightarrow> slave_inv (ofcs r ! 0) (ofcs r ! j) (thirds j r)"
  using assms by (simp_all add: ring_inv_def)

lemma ring_invI:
  assumes "ring_inv n p r" and "d < n" and "ofcs r' = (ofcs r)[d := m]" and "mgr_inv n p d m" and "\<forall>x \<in># flight r'. msg_inv n p x"
    and "\<And>j. 0 < j \<Longrightarrow> j < n \<Longrightarrow> slave_inv (ofcs r' ! 0) (ofcs r' ! j) (thirds j r')" and "phase_inv n r' ph"
  shows "ring_inv n p r'"
proof -
  have "mgr_inv n p k (ofcs r' ! k)" if "k < n" for k
    using that assms(2-4) ring_invD(2,3) [OF assms(1)] by (cases "d = k") simp_all
  then show ?thesis using assms ring_invD(1,2) [OF assms(1)] unfolding ring_inv_def by auto
qed

lemma ofc_start_inv:
  assumes "0 < n" and "0 < p" and "\<forall>k < n. 0 < objs k"
  shows "ring_inv n p (ofc_start n p len objs st f)"
proof -
  let ?m = "\<lambda>k. makeInitialCheckpoint st f (OptFossilCollManager k n (objs k) p len)"
  have c: "\<not> ofcRecovering (?m k)" "lastRestoreTime (?m k) = -1" "numCatastrophicRollbacks (?m k) = 0"
    "ofcId (?m k) = k" "ofcManagers (?m k) = n" "ofcPeer (?m k) = (if k = n - 1 then 0 else k + 1)" "checkpointPeriod (?m k) = p" for k
    by (simp_all add: makeInitialCheckpoint_def OptFossilCollManager_def)
  have "mgr_inv n p k (?m k)" if "k < n" for k
    using initial_inv [OF assms(2), of "objs k"] assms(3) that by (simp add: mgr_inv_def c)
  then show ?thesis
    using assms(1) c unfolding ring_inv_def by (auto simp: ofc_start_def slave_inv_def queue_simps intro!: exI [of _ NoToken])
qed

subsection \<open>Work of a manager that is not recovering\<close>

definition sameControl :: "('st, 'f) ofcManager \<Rightarrow> ('st, 'f) ofcManager \<Rightarrow> bool" where
  "sameControl m m' \<longleftrightarrow> ofcId m' = ofcId m \<and> ofcManagers m' = ofcManagers m \<and> ofcPeer m' = ofcPeer m \<and> checkpointPeriod m' = checkpointPeriod m \<and>
     ofcRecovering m' = ofcRecovering m \<and> ckptRecovery m' = ckptRecovery m \<and> numCatastrophicRollbacks m' = numCatastrophicRollbacks m \<and>
     lastRestoreTime m' = lastRestoreTime m"

lemma checkpointOnce_control: "sameControl m (checkpointOnce st f i m)"
  by (simp add: sameControl_def checkpointOnce_def Let_def split: option.splits)

lemma checkpointLoop_control: "checkpointLoop st f time i m = Some m' \<Longrightarrow> sameControl m m'"
proof (induction st f time i m rule: checkpointLoop.induct)
  case (1 st f time i m)
  show ?case
  proof (cases "time \<ge> nextCheckpointTime m ! i")
    case True
    then have "sameControl (checkpointOnce st f i m) m'" using 1 by (simp add: checkpointLoop.simps [of st f time i m] split: if_splits)
    then show ?thesis using checkpointOnce_control [of m st f i] by (simp add: sameControl_def)
  next
    case False
    then show ?thesis using 1(2) by (simp add: checkpointLoop.simps [of st f time i m] sameControl_def split: if_splits)
  qed
qed

lemma update_control: "updateCheckpointTime i t m = Some m' \<Longrightarrow> sameControl m m'"
  by (auto simp: updateCheckpointTime_def sameControl_def Let_def split: bind_splits if_splits)

lemma checkpoint_control: "checkpoint st f time i m = Some m' \<Longrightarrow> sameControl m m'"
  using update_control checkpointLoop_control by (fastforce simp: checkpoint_def sameControl_def split: bind_splits)

lemma collect_control:
  assumes "ofc_fossilCollect i time m = Some (m', e)"
  shows "sameControl m m' \<and> (ofc_inv m \<longrightarrow> ofc_inv m')"
  using assms by (auto simp: ofc_fossilCollect_def sameControl_def ofc_inv_def Let_def split: bind_splits if_splits)

text \<open>A manager that is not recovering changes nothing the protocol looks at.\<close>

lemma quiet_inv:
  assumes inv: "ring_inv n p r" and k: "k < n" "\<not> ofcRecovering (ofcs r ! k)" and r': "ofcs r' = (ofcs r)[k := m]"
    and th: "\<And>j. thirds j r' = thirds j r" "ckptTokens r' = ckptTokens r" and fl: "\<forall>x \<in># flight r'. msg_inv n p x" and m: "mgr_inv n p k m"
    and same: "\<not> ofcRecovering m" "lastRestoreTime m = lastRestoreTime (ofcs r ! k)"
      "numCatastrophicRollbacks m = numCatastrophicRollbacks (ofcs r ! k)"
  shows "ring_inv n p r'"
proof -
  have len: "length (ofcs r) = n" by (rule ring_invD(2) [OF inv])
  have c: "ofcRecovering (ofcs r' ! j) = ofcRecovering (ofcs r ! j)" "lastRestoreTime (ofcs r' ! j) = lastRestoreTime (ofcs r ! j)"
    "numCatastrophicRollbacks (ofcs r' ! j) = numCatastrophicRollbacks (ofcs r ! j)" if "j < n" for j
    using same k that len by (cases "k = j"; simp add: r')+
  have sl: "slave_inv (ofcs r' ! 0) (ofcs r' ! j) (thirds j r)" if "0 < j" "j < n" for j
  proof (cases "k = j")
    case True
    then show ?thesis using ring_invD(5) [OF inv that] k(2) c [of j] c [of 0] that by (auto simp: slave_inv_def)
  next
    case False
    then show ?thesis using ring_invD(5) [OF inv that] c [of 0] that by (simp add: slave_inv_def r')
  qed
  obtain ph where ph: "phase_inv n r ph" using inv by (auto simp: ring_inv_def)
  have "phase_inv n r' ph"
  proof (cases ph)
    case (SecondRound msg)
    then show ?thesis using ph k by (cases "k = 0") auto
  qed (use ph c th ring_invD(1) [OF inv] in simp_all)
  then show ?thesis using fl sl by (intro ring_invI [OF inv k(1) r' m]) (simp_all add: th)
qed

lemma work_inv:
  assumes inv: "ring_inv n p r" and k: "k < n" "\<not> ckptRecovery (ofcs r ! k)" and m: "sameControl (ofcs r ! k) m" "ofc_inv m"
  shows "ring_inv n p (r\<lparr>ofcs := (ofcs r)[k := m]\<rparr>)"
proof -
  have "mgr_inv n p k (ofcs r ! k)" by (rule ring_invD(3) [OF inv k(1)])
  then show ?thesis
    using k m ring_invD(4) [OF inv] by (intro quiet_inv [OF inv k(1), where m = m]) (auto simp: queue_simps mgr_inv_def sameControl_def)
qed

subsection \<open>Requests\<close>

lemma startRecovery_control:
  assumes "startRecovery i t m = Some (m', msg)" and inv: "ofc_inv m"
  shows "ofc_inv m' \<and> isCheckpoint (checkpointPeriod m) (rm_time msg) \<and> ofcId m' = ofcId m \<and> ofcManagers m' = ofcManagers m \<and> ofcPeer m' = ofcPeer m \<and>
    checkpointPeriod m' = checkpointPeriod m \<and> lastRestoreTime m' = lastRestoreTime m \<and> ckptRecovery m' \<and>
    (if ofcId m = 0 then rm_state msg = FIRST_CYCLE \<and> rm_dest msg = ofcPeer m \<and> ofcRecovering m' \<and>
       numCatastrophicRollbacks m' = numCatastrophicRollbacks m + 1
     else rm_state msg = SEND_TO_MASTER \<and> rm_dest msg = 0 \<and> ofcRecovering m' = ofcRecovering m \<and>
       numCatastrophicRollbacks m' = numCatastrophicRollbacks m)"
proof -
  obtain c where c: "lowestCheckpoint m = Some c" "isCheckpoint (checkpointPeriod m) c" using lowestCheckpoint_ok [OF inv] by blast
  then obtain d where d: "seekCheckpoint (checkpointPeriod m) t c = Some d" using assms(1) by (auto simp: startRecovery_def split: bind_splits)
  have "checkpointPeriod m dvd d - firstCheckpointTime"
    using seekCheckpoint_dvd [OF d] c(2) dvd_diff [of "checkpointPeriod m" "c - firstCheckpointTime" "c - d"] by (simp add: isCheckpoint_def)
  then have "isCheckpoint (checkpointPeriod m) (if d < firstCheckpointTime then firstCheckpointTime else d)" by (simp add: isCheckpoint_def)
  then show ?thesis
    using assms c(1) d unfolding startRecovery_def by (auto simp: Let_def sendRestore_def ofc_inv_def split: bind_splits if_splits)
qed

text \<open>The master starts a recovery: the token begins its first round.\<close>

lemma begin_inv:
  assumes inv: "ring_inv n p r" and nr: "\<not> ofcRecovering (ofcs r ! 0)" and r': "ofcs r' = (ofcs r)[0 := m]" and th: "\<And>j. thirds j r' = thirds j r"
    and tok: "ckptTokens r' = add_mset msg (ckptTokens r)" and fl: "\<forall>x \<in># flight r'. msg_inv n p x" and m: "mgr_inv n p 0 m"
    and msg: "rm_state msg = FIRST_CYCLE" "rm_dest msg = ofcPeer m"
    and control: "ofcRecovering m" "lastRestoreTime m = lastRestoreTime (ofcs r ! 0)"
      "numCatastrophicRollbacks m = numCatastrophicRollbacks (ofcs r ! 0) + 1"
  shows "ring_inv n p r'"
proof -
  have n: "0 < n" "length (ofcs r) = n" by (rule ring_invD [OF inv])+
  have at: "ofcs r' ! 0 = m" "\<And>j. 0 < j \<Longrightarrow> ofcs r' ! j = ofcs r ! j" using n by (simp_all add: r')
  obtain ph where "phase_inv n r ph" using inv by (auto simp: ring_inv_def)
  then have "ckptTokens r = {#}" using nr by (cases ph) simp_all
  then have t: "ckptTokens r' = {#msg#}" using tok by simp
  have sl: "slave_inv m (ofcs r ! j) (thirds j r)" if "0 < j" "j < n" for j
    using ring_invD(5) [OF inv that] control(2,3) by (auto simp: slave_inv_def)
  have "numCatastrophicRollbacks (ofcs r ! j) < numCatastrophicRollbacks m" if "0 < j" "j < n" for j
    using ring_invD(5) [OF inv that] control(3) by (auto simp: slave_inv_def)
  moreover have "\<not> visited (rm_dest msg) j" if "0 < j" "j < n" for j
    using that msg(2) m by (auto simp: visited_def mgr_inv_def split: if_splits)
  ultimately have ph: "phase_inv n r' (FirstRound msg)" using at control(1) msg(1) t by simp
  show ?thesis using sl at by (intro ring_invI [OF inv n(1) r' m fl _ ph]) (simp add: th)
qed

lemma request_inv:
  assumes inv: "ring_inv n p r" and k: "k < n" "\<not> ckptRecovery (ofcs r ! k)" and start: "startRecovery i t (ofcs r ! k) = Some (m, msg)"
  shows "ring_inv n p (r\<lparr>ofcs := (ofcs r)[k := m], flight := add_mset msg (flight r)\<rparr>)"
proof -
  let ?r = "r\<lparr>ofcs := (ofcs r)[k := m], flight := add_mset msg (flight r)\<rparr>"
  have mk: "mgr_inv n p k (ofcs r ! k)" by (rule ring_invD(3) [OF inv k(1)])
  have nr: "\<not> ofcRecovering (ofcs r ! k)" using mk k(2) by (simp add: mgr_inv_def)
  have c: "ofc_inv m" "isCheckpoint p (rm_time msg)" "ofcId m = k" "ofcManagers m = n" "ofcPeer m = (if k = n - 1 then 0 else k + 1)"
    "checkpointPeriod m = p" "lastRestoreTime m = lastRestoreTime (ofcs r ! k)" "ckptRecovery m"
    "if k = 0 then rm_state msg = FIRST_CYCLE \<and> rm_dest msg = ofcPeer m \<and> ofcRecovering m \<and>
       numCatastrophicRollbacks m = numCatastrophicRollbacks (ofcs r ! k) + 1
     else rm_state msg = SEND_TO_MASTER \<and> rm_dest msg = 0 \<and> \<not> ofcRecovering m \<and> numCatastrophicRollbacks m = numCatastrophicRollbacks (ofcs r ! k)"
    using startRecovery_control [OF start] mk nr unfolding mgr_inv_def by auto
  have m: "mgr_inv n p k m" using c by (simp add: mgr_inv_def)
  have "msg_inv n p msg" using c k(1) ring_invD(1) [OF inv] by (auto simp: msg_inv_def split: if_splits)
  then have fl: "\<forall>x \<in># flight ?r. msg_inv n p x" using ring_invD(4) [OF inv] by auto
  show ?thesis
  proof (cases "k = 0")
    case True
    then show ?thesis using c m fl nr by (intro begin_inv [OF inv, where m = m and msg = msg]) (simp_all add: queue_simps)
  next
    case False
    then show ?thesis using c m fl nr by (intro quiet_inv [OF inv k(1) nr, where m = m]) (simp_all add: queue_simps)
  qed
qed

subsection \<open>Deliveries\<close>

lemma flags_keep [simp]:
  "ofc_inv (enterRecovery m) = ofc_inv m" "ofc_inv (clearCollectTimes m) = ofc_inv m" "ofc_inv (leaveRecovery m) = ofc_inv m"
  "restorable t (enterRecovery m) = restorable t m" "restorable t (clearCollectTimes m) = restorable t m" "restorable t (leaveRecovery m) = restorable t m"
  by (simp_all add: ofc_inv_def restorable_def enterRecovery_def clearCollectTimes_def leaveRecovery_def)

lemma mgr_inv_clear [simp]: "mgr_inv n p k (clearCollectTimes m) = mgr_inv n p k m"
  unfolding mgr_inv_def flags_keep by (simp add: clearCollectTimes_def)

lemma mgr_inv_enter: "mgr_inv n p k m \<Longrightarrow> mgr_inv n p k (enterRecovery m)"
  unfolding mgr_inv_def flags_keep by (simp add: enterRecovery_def)

lemma token_phase:
  assumes "ring_inv n p r" and "msg \<in># flight r"
  shows "rm_state msg = FIRST_CYCLE \<Longrightarrow> phase_inv n r (FirstRound msg)" and "rm_state msg = SECOND_CYCLE \<Longrightarrow> phase_inv n r (SecondRound msg)"
proof -
  obtain ph where ph: "phase_inv n r ph" using assms(1) by (auto simp: ring_inv_def)
  have t: "msg \<in># ckptTokens r" if "rm_state msg = FIRST_CYCLE \<or> rm_state msg = SECOND_CYCLE" using that assms(2) by (simp add: ckptTokens_def)
  show "phase_inv n r (FirstRound msg)" if "rm_state msg = FIRST_CYCLE" using t that ph by (cases ph) auto
  show "phase_inv n r (SecondRound msg)" if "rm_state msg = SECOND_CYCLE" using t that ph by (cases ph) auto
qed

lemma queues_after:
  assumes "flight r' = flight r - {#msg#} + mset out"
  shows "ckptTokens r' = (if rm_state msg = FIRST_CYCLE \<or> rm_state msg = SECOND_CYCLE then ckptTokens r - {#msg#} else ckptTokens r) +
      {#x \<in># mset out. rm_state x = FIRST_CYCLE \<or> rm_state x = SECOND_CYCLE#}"
    and "thirds j r' = (if rm_state msg = THIRD_CYCLE \<and> rm_dest msg = j then thirds j r - {#msg#} else thirds j r) +
      {#x \<in># mset out. rm_state x = THIRD_CYCLE \<and> rm_dest x = j#}"
  by (simp_all add: assms queue_simps filter_diff_mset)

lemma flight_after:
  assumes "ring_inv n p r" and "flight r' = flight r - {#msg#} + mset out" and "\<forall>x \<in> set out. msg_inv n p x"
  shows "\<forall>x \<in># flight r'. msg_inv n p x"
  using assms(2,3) ring_invD(4) [OF assms(1)] by (auto dest: in_diffD)

lemma ignored_inv:
  assumes inv: "ring_inv n p r" and msg: "msg \<in># flight r" "rm_state msg \<noteq> THIRD_CYCLE" and r': "ofcs r' = ofcs r" "flight r' = flight r - {#msg#} + mset []"
  shows "ring_inv n p r'"
proof -
  note q = queues_after [OF r'(2)]
  have th: "thirds j r' = thirds j r" for j using q(2) msg(2) by simp
  obtain ph where ph: "phase_inv n r ph" using inv by (auto simp: ring_inv_def)
  have "\<exists>ph. phase_inv n r' ph"
  proof (cases "rm_state msg = SEND_TO_MASTER")
    case True
    then have "ckptTokens r' = ckptTokens r" using q(1) by simp
    then have "phase_inv n r' ph" using ph th r'(1) by (cases ph) simp_all
    then show ?thesis by blast
  next
    case False
    then have "rm_state msg = FIRST_CYCLE \<or> rm_state msg = SECOND_CYCLE" using msg(2) by (cases "rm_state msg") simp_all
    then have "phase_inv n r' TokenLost" using token_phase [OF inv msg(1)] q(1) r'(1) by auto
    then show ?thesis by blast
  qed
  then show ?thesis using inv r'(1) th flight_after [OF inv r'(2)] unfolding ring_inv_def by simp
qed

lemma sendToMaster_inv:
  assumes inv: "ring_inv n p r" and msg: "msg \<in># flight r" "rm_state msg = SEND_TO_MASTER" "\<not> ofcRecovering (ofcs r ! 0)"
    and m: "m = enterRecovery (ofcs r ! 0)" and r': "ofcs r' = (ofcs r)[0 := m]"
      "flight r' = flight r - {#msg#} + mset [sendRestore m (ofcPeer (ofcs r ! 0)) (rm_time msg) FIRST_CYCLE]"
  shows "ring_inv n p r'"
proof -
  have mk: "mgr_inv n p 0 (ofcs r ! 0)" using ring_invD(1,3) [OF inv] by simp
  have m0: "mgr_inv n p 0 m" using mk by (simp add: m mgr_inv_enter)
  have "msg_inv n p (sendRestore m (ofcPeer (ofcs r ! 0)) (rm_time msg) FIRST_CYCLE)"
    using mk ring_invD(4) [OF inv msg(1)] ring_invD(1) [OF inv] by (auto simp: msg_inv_def sendRestore_def mgr_inv_def)
  then have fl: "\<forall>x \<in># flight r'. msg_inv n p x" by (intro flight_after [OF inv r'(2)]) simp
  have tok: "ckptTokens r' = add_mset (sendRestore m (ofcPeer (ofcs r ! 0)) (rm_time msg) FIRST_CYCLE) (ckptTokens r)" and th: "thirds j r' = thirds j r" for j
    using queues_after [OF r'(2)] msg(2) by (simp_all add: sendRestore_def)
  show ?thesis
    by (rule begin_inv [OF inv msg(3) r'(1) th tok fl m0]) (simp_all add: sendRestore_def m enterRecovery_def)
qed

lemma restorable_min:
  assumes "ofc_inv m" and "lowestCheckpoint m = Some lowest" and "isCheckpoint (checkpointPeriod m) t"
  shows "restorable (if lowest > t then t else lowest) m"
  using lowestCheckpoint_ok [OF assms(1)] assms(2,3) by (force simp: restorable_def)

lemma restorable_le: "restorable t m \<Longrightarrow> isCheckpoint (checkpointPeriod m) u \<Longrightarrow> u \<le> t \<Longrightarrow> restorable u m"
  by (auto simp: restorable_def)

lemma firstAtMaster_inv:
  assumes inv: "ring_inv n p r" and msg: "msg \<in># flight r" "rm_state msg = FIRST_CYCLE" "rm_dest msg = 0"
    and low: "lowestCheckpoint (ofcs r ! 0) = Some lowest" and c: "c = (if lowest > rm_time msg then rm_time msg else lowest)"
    and r': "ofcs r' = (ofcs r)[0 := clearCollectTimes (ofcs r ! 0)]"
      "flight r' = flight r - {#msg#} + mset [sendRestore (ofcs r ! 0) (ofcPeer (ofcs r ! 0)) c SECOND_CYCLE]"
  shows "ring_inv n p r'"
proof -
  let ?m = "ofcs r ! 0" and ?new = "sendRestore (ofcs r ! 0) (ofcPeer (ofcs r ! 0)) c SECOND_CYCLE"
  have n: "0 < n" "length (ofcs r) = n" by (rule ring_invD [OF inv])+
  have mk: "mgr_inv n p 0 ?m" using ring_invD(3) [OF inv n(1)] .
  then have ok: "ofc_inv ?m" "checkpointPeriod ?m = p" by (simp_all add: mgr_inv_def)
  have res: "restorable c ?m" unfolding c using ring_invD(4) [OF inv msg(1)] ok low by (intro restorable_min) (simp_all add: msg_inv_def)
  have m0: "mgr_inv n p 0 (clearCollectTimes ?m)" using mk by simp
  have "msg_inv n p ?new" using mk res ok(2) n(1) by (auto simp: msg_inv_def sendRestore_def mgr_inv_def restorable_def)
  then have fl: "\<forall>x \<in># flight r'. msg_inv n p x" by (intro flight_after [OF inv r'(2)]) simp
  have ph: "phase_inv n r (FirstRound msg)" by (rule token_phase(1) [OF inv msg(1,2)])
  have th: "thirds j r' = thirds j r" for j using queues_after(2) [OF r'(2)] msg(2) by (simp add: sendRestore_def)
  have tok: "ckptTokens r' = {#?new#}" using queues_after(1) [OF r'(2)] msg(2) ph by (simp add: sendRestore_def)
  have at: "ofcs r' ! 0 = clearCollectTimes ?m" "\<And>j. 0 < j \<Longrightarrow> ofcs r' ! j = ofcs r ! j" using n by (simp_all add: r'(1))
  have "\<forall>j < n. visited (rm_dest ?new) j \<longrightarrow> j = 0" using mk by (auto simp: sendRestore_def visited_def mgr_inv_def split: if_splits)
  moreover have "restorable c (clearCollectTimes ?m)" using res by simp
  ultimately have ph': "phase_inv n r' (SecondRound ?new)"
    using ph tok th at msg(3) by (auto simp: sendRestore_def visited_def clearCollectTimes_def)
  have "slave_inv (clearCollectTimes ?m) (ofcs r ! j) (thirds j r)" if "0 < j" "j < n" for j
    using ring_invD(5) [OF inv that] by (simp add: slave_inv_def clearCollectTimes_def)
  then show ?thesis using at by (intro ring_invI [OF inv n(1) r'(1) m0 fl _ ph']) (simp add: th)
qed

lemma thirds_broadcast:
  "{#x \<in># mset (map (\<lambda>dest. sendRestore m dest t THIRD_CYCLE) [1..<n]). rm_state x = THIRD_CYCLE \<and> rm_dest x = j#} =
   (if 0 < j \<and> j < n then {#sendRestore m j t THIRD_CYCLE#} else {#})"
proof (induction n)
  case (Suc n)
  then show ?case by (cases "n = 0") (auto simp: sendRestore_def less_Suc_eq)
qed simp

lemma secondAtMaster_inv:
  assumes inv: "ring_inv n p r" and msg: "msg \<in># flight r" "rm_state msg = SECOND_CYCLE" "rm_dest msg = 0"
    and m: "restoreCheckpoint (rm_time msg) (leaveRecovery (ofcs r ! 0)) = Some (m, e)" and r': "ofcs r' = (ofcs r)[0 := m]"
      "flight r' = flight r - {#msg#} + mset (map (\<lambda>dest. sendRestore (ofcs r ! 0) dest (rm_time msg) THIRD_CYCLE) [1..<n])"
  shows "ring_inv n p r'"
proof -
  let ?m = "ofcs r ! 0" and ?t = "rm_time msg"
  have n: "0 < n" "length (ofcs r) = n" by (rule ring_invD [OF inv])+
  have mk: "mgr_inv n p 0 ?m" using ring_invD(3) [OF inv n(1)] .
  have ph: "phase_inv n r (SecondRound msg)" by (rule token_phase(2) [OF inv msg(1,2)])
  have all: "restorable ?t (ofcs r ! j)" if "j < n" for j using ph msg(3) that by (simp add: visited_def)
  have c: "ofc_inv m" "lastRestoreTime m = ?t" "ofcId m = ofcId ?m" "ofcManagers m = ofcManagers ?m" "ofcPeer m = ofcPeer ?m"
    "checkpointPeriod m = checkpointPeriod ?m" "\<not> ofcRecovering m" "numCatastrophicRollbacks m = numCatastrophicRollbacks ?m"
    using restoreCheckpoint_ok [of "leaveRecovery ?m" ?t] mk all [OF n(1)] m by (auto simp: mgr_inv_def) (simp_all add: leaveRecovery_def)
  have m0: "mgr_inv n p 0 m" using mk c by (simp add: mgr_inv_def)
  have isC: "isCheckpoint p ?t" using ring_invD(4) [OF inv msg(1)] by (simp add: msg_inv_def)
  have fl: "\<forall>x \<in># flight r'. msg_inv n p x" using isC by (intro flight_after [OF inv r'(2)]) (auto simp: msg_inv_def sendRestore_def)
  have tok: "ckptTokens r' = {#}" using queues_after(1) [OF r'(2)] msg(2) ph by (auto simp: sendRestore_def)
  have th: "thirds j r' = {#sendRestore ?m j ?t THIRD_CYCLE#}" if "0 < j" "j < n" for j
    using queues_after(2) [OF r'(2), of j] thirds_broadcast [where m = ?m and t = ?t and n = n and j = j] msg(2) ph that by simp
  have at: "ofcs r' ! 0 = m" "\<And>j. 0 < j \<Longrightarrow> ofcs r' ! j = ofcs r ! j" using n by (simp_all add: r'(1))
  have "slave_inv m (ofcs r ! j) {#sendRestore ?m j ?t THIRD_CYCLE#}" if "0 < j" "j < n" for j
    using ring_invD(5) [OF inv that] ph all [OF that(2)] that c(2,8) by (simp add: slave_inv_def sendRestore_def)
  moreover have ph': "phase_inv n r' NoToken" using at tok c(7) by simp
  ultimately show ?thesis using at by (intro ring_invI [OF inv n(1) r'(1) m0 fl _ ph']) (simp add: th)
qed

lemma visited_next: "0 < d \<Longrightarrow> d < n \<Longrightarrow> 0 < j \<Longrightarrow> j < n \<Longrightarrow> visited (if d = n - 1 then 0 else d + 1) j \<longleftrightarrow> visited d j \<or> j = d"
  by (auto simp: visited_def)

lemma firstAtSlave_inv:
  assumes inv: "ring_inv n p r" and msg: "msg \<in># flight r" "rm_state msg = FIRST_CYCLE" "d = rm_dest msg" "0 < d" "\<not> ofcRecovering (ofcs r ! d)"
    and m: "m = clearCollectTimes (enterRecovery (ofcs r ! d))" and r': "ofcs r' = (ofcs r)[d := m]"
      "flight r' = flight r - {#msg#} + mset [sendRestore m (ofcPeer (ofcs r ! d)) (rm_time msg) FIRST_CYCLE]"
  shows "ring_inv n p r'"
proof -
  let ?m = "ofcs r ! d" and ?new = "sendRestore m (ofcPeer (ofcs r ! d)) (rm_time msg) FIRST_CYCLE"
  have n: "0 < n" "length (ofcs r) = n" by (rule ring_invD [OF inv])+
  have mi: "d < n" "isCheckpoint p (rm_time msg)" using ring_invD(4) [OF inv msg(1)] msg(3) by (simp_all add: msg_inv_def)
  have mk: "mgr_inv n p d ?m" using ring_invD(3) [OF inv mi(1)] .
  have md: "mgr_inv n p d m" using mk by (simp add: m mgr_inv_enter)
  have c: "ofcRecovering m" "lastRestoreTime m = lastRestoreTime ?m" "numCatastrophicRollbacks m = numCatastrophicRollbacks ?m + 1"
    by (simp_all add: m clearCollectTimes_def enterRecovery_def)
  have "msg_inv n p ?new" using mk mi n(1) by (auto simp: msg_inv_def sendRestore_def mgr_inv_def)
  then have fl: "\<forall>x \<in># flight r'. msg_inv n p x" by (intro flight_after [OF inv r'(2)]) simp
  have ph: "phase_inv n r (FirstRound msg)" by (rule token_phase(1) [OF inv msg(1,2)])
  have th: "thirds j r' = thirds j r" for j using queues_after(2) [OF r'(2)] msg(2) by (simp add: sendRestore_def)
  have tok: "ckptTokens r' = {#?new#}" using queues_after(1) [OF r'(2)] msg(2) ph by (simp add: sendRestore_def)
  have at: "ofcs r' ! d = m" "\<And>j. j \<noteq> d \<Longrightarrow> ofcs r' ! j = ofcs r ! j" "ofcs r' ! 0 = ofcs r ! 0" using n mi(1) msg(4) by (simp_all add: r'(1))
  have sd: "slave_inv (ofcs r ! 0) ?m (thirds d r)" using ring_invD(5) [OF inv msg(4) mi(1)] .
  then have none: "thirds d r = {#}" using msg(5) by (auto simp: slave_inv_def)
  have lt: "numCatastrophicRollbacks ?m < numCatastrophicRollbacks (ofcs r ! 0)" using ph msg(3,4) mi(1) by (auto simp: visited_def)
  have "slave_inv (ofcs r' ! 0) (ofcs r' ! j) (thirds j r)" if "0 < j" "j < n" for j
    using ring_invD(5) [OF inv that] sd none lt c at by (cases "j = d") (auto simp: slave_inv_def)
  moreover have "rm_dest ?new = (if d = n - 1 then 0 else d + 1)" using mk by (simp add: sendRestore_def mgr_inv_def)
  then have v: "visited (rm_dest ?new) j \<longleftrightarrow> visited (rm_dest msg) j \<or> j = d" if "0 < j" "j < n" for j
    using visited_next [OF msg(4) mi(1) that] msg(3) by simp
  have ph': "phase_inv n r' (FirstRound ?new)"
    using ph tok none th c(1) at v by (simp add: sendRestore_def) metis
  ultimately show ?thesis by (intro ring_invI [OF inv mi(1) r'(1) md fl _ ph']) (simp add: th)
qed

lemma secondAtSlave_inv:
  assumes inv: "ring_inv n p r" and msg: "msg \<in># flight r" "rm_state msg = SECOND_CYCLE" "d = rm_dest msg" "0 < d"
    and low: "lowestCheckpoint (ofcs r ! d) = Some lowest" and c: "c = (if lowest > rm_time msg then rm_time msg else lowest)"
    and r': "ofcs r' = ofcs r" "flight r' = flight r - {#msg#} + mset [sendRestore (ofcs r ! d) (ofcPeer (ofcs r ! d)) c SECOND_CYCLE]"
  shows "ring_inv n p r'"
proof -
  let ?m = "ofcs r ! d" and ?new = "sendRestore (ofcs r ! d) (ofcPeer (ofcs r ! d)) c SECOND_CYCLE"
  have n: "0 < n" "length (ofcs r) = n" by (rule ring_invD [OF inv])+
  have mi: "d < n" "isCheckpoint p (rm_time msg)" using ring_invD(4) [OF inv msg(1)] msg(3) by (simp_all add: msg_inv_def)
  have mk: "mgr_inv n p j (ofcs r ! j)" if "j < n" for j using ring_invD(3) [OF inv that] .
  have res: "restorable c ?m" unfolding c using mk [OF mi(1)] mi(2) low by (intro restorable_min) (simp_all add: mgr_inv_def)
  then have isC: "isCheckpoint p c" using mk [OF mi(1)] by (simp add: restorable_def mgr_inv_def)
  have "msg_inv n p ?new" using mk [OF mi(1)] isC n(1) mi(1) by (auto simp: msg_inv_def sendRestore_def mgr_inv_def)
  then have fl: "\<forall>x \<in># flight r'. msg_inv n p x" by (intro flight_after [OF inv r'(2)]) simp
  have ph: "phase_inv n r (SecondRound msg)" by (rule token_phase(2) [OF inv msg(1,2)])
  have th: "thirds j r' = thirds j r" for j using queues_after(2) [OF r'(2)] msg(2) by (simp add: sendRestore_def)
  have tok: "ckptTokens r' = {#?new#}" using queues_after(1) [OF r'(2)] msg(2) ph by (simp add: sendRestore_def)
  have dest: "rm_dest ?new = (if d = n - 1 then 0 else d + 1)" using mk [OF mi(1)] by (simp add: sendRestore_def mgr_inv_def)
  have "restorable c (ofcs r ! j)" if "j < n" "visited (rm_dest ?new) j" for j
  proof (cases "j = d")
    case False
    then have "visited (rm_dest msg) j" using visited_next [OF msg(4) mi(1) _ that(1)] that(2) msg(3,4) unfolding dest by (cases "j = 0") (auto simp: visited_def)
    then have "restorable (rm_time msg) (ofcs r ! j)" using ph that(1) by simp
    moreover have "isCheckpoint (checkpointPeriod (ofcs r ! j)) c" using mk [OF that(1)] isC by (simp add: mgr_inv_def)
    ultimately show ?thesis by (rule restorable_le) (simp add: c)
  qed (use res in simp)
  then have ph': "phase_inv n r' (SecondRound ?new)" using ph tok th r'(1) by (simp add: sendRestore_def)
  have "ofcs r' = (ofcs r)[d := ofcs r ! d]" using r'(1) by simp
  then show ?thesis using ring_invD(5) [OF inv] by (intro ring_invI [OF inv mi(1) _ mk [OF mi(1)] fl _ ph']) (simp_all add: th r'(1))
qed

lemma thirdAtSlave_inv:
  assumes inv: "ring_inv n p r" and msg: "msg \<in># flight r" "rm_state msg = THIRD_CYCLE" "d = rm_dest msg"
    and m: "restoreCheckpoint (rm_time msg) (leaveRecovery (ofcs r ! d)) = Some (m, e)"
    and r': "ofcs r' = (ofcs r)[d := m]" "flight r' = flight r - {#msg#} + mset []"
  shows "ring_inv n p r'"
proof -
  let ?m = "ofcs r ! d"
  have n: "0 < n" "length (ofcs r) = n" by (rule ring_invD [OF inv])+
  have mi: "d < n" "0 < d" using ring_invD(4) [OF inv msg(1)] msg(2,3) by (simp_all add: msg_inv_def)
  have "msg \<in># thirds d r" using msg by (simp add: thirds_def)
  then have s: "thirds d r = {#msg#}" "rm_time msg = lastRestoreTime (ofcs r ! 0)" "restorable (rm_time msg) ?m"
    "numCatastrophicRollbacks ?m \<le> numCatastrophicRollbacks (ofcs r ! 0)"
    using ring_invD(5) [OF inv mi(2,1)] by (auto simp: slave_inv_def)
  have mk: "mgr_inv n p d ?m" using ring_invD(3) [OF inv mi(1)] .
  have c: "ofc_inv m" "lastRestoreTime m = rm_time msg" "ofcId m = ofcId ?m" "ofcManagers m = ofcManagers ?m" "ofcPeer m = ofcPeer ?m"
    "checkpointPeriod m = checkpointPeriod ?m" "\<not> ofcRecovering m" "numCatastrophicRollbacks m = numCatastrophicRollbacks ?m"
    using restoreCheckpoint_ok [of "leaveRecovery ?m" "rm_time msg"] mk s(3) m by (auto simp: mgr_inv_def) (simp_all add: leaveRecovery_def)
  have md: "mgr_inv n p d m" using mk c by (simp add: mgr_inv_def)
  have fl: "\<forall>x \<in># flight r'. msg_inv n p x" by (rule flight_after [OF inv r'(2)]) simp
  have tok: "ckptTokens r' = ckptTokens r" using queues_after(1) [OF r'(2)] msg(2) by simp
  have th: "thirds j r' = (if j = d then {#} else thirds j r)" for j using queues_after(2) [OF r'(2), of j] s(1) msg(2,3) by auto
  have at: "ofcs r' ! d = m" "\<And>j. j \<noteq> d \<Longrightarrow> ofcs r' ! j = ofcs r ! j" "ofcs r' ! 0 = ofcs r ! 0" using n mi by (simp_all add: r'(1))
  have sl: "slave_inv (ofcs r' ! 0) (ofcs r' ! j) (thirds j r')" if "0 < j" "j < n" for j
    using ring_invD(5) [OF inv that] s(2,4) c(2,8) at th by (cases "j = d") (simp_all add: slave_inv_def)
  obtain ph where ph: "phase_inv n r ph" using inv by (auto simp: ring_inv_def)
  have "phase_inv n r' ph"
  proof (cases ph)
    case (FirstRound x)
    then have "\<not> visited (rm_dest x) d" using ph s(1) mi by auto
    then show ?thesis using FirstRound ph tok th at c(8) by simp
  next
    case (SecondRound x)
    then show ?thesis using ph s(1) mi by auto
  qed (use ph tok at in simp_all)
  then show ?thesis using sl by (intro ring_invI [OF inv mi(1) r'(1) md fl])
qed

text \<open>A message that the master has sent to restore a checkpoint is not dropped, and the checkpoint is there.\<close>

lemma third_accepted:
  assumes inv: "ring_inv n p r" and msg: "msg \<in># flight r" "rm_state msg = THIRD_CYCLE" "d = rm_dest msg"
  shows "d < n \<and> 0 < d \<and> numCatastrophicRollbacks (ofcs r ! d) \<le> rm_incarnation msg \<and> ofcRecovering (ofcs r ! d) \<and> restorable (rm_time msg) (ofcs r ! d)"
proof -
  have mi: "d < n" "0 < d" using ring_invD(4) [OF inv msg(1)] msg(2,3) by (simp_all add: msg_inv_def)
  have "msg \<in># thirds d r" using msg by (simp add: thirds_def)
  then show ?thesis using ring_invD(5) [OF inv mi(2,1)] mi by (auto simp: slave_inv_def)
qed

abbreviation afterDelivery :: "restoreMsg \<Rightarrow> ('st, 'f) ofcManager \<Rightarrow> restoreMsg list \<Rightarrow> ('st, 'f) ofcRing \<Rightarrow> ('st, 'f) ofcRing" where
  "afterDelivery msg m out r \<equiv> r\<lparr>ofcs := (ofcs r)[rm_dest msg := m], flight := flight r - {#msg#} + mset out\<rparr>"

lemma delivered_mgr:
  assumes inv: "ring_inv n p r" and msg: "msg \<in># flight r"
  shows "rm_dest msg < n" and "ofcId (ofcs r ! rm_dest msg) = rm_dest msg" and "ofc_inv (ofcs r ! rm_dest msg)" and "ofcManagers (ofcs r ! rm_dest msg) = n"
    and "rm_state msg \<noteq> THIRD_CYCLE \<Longrightarrow> ring_inv n p (afterDelivery msg (ofcs r ! rm_dest msg) [] r)"
    and "\<exists>lowest. lowestCheckpoint (ofcs r ! rm_dest msg) = Some lowest"
proof -
  have d: "rm_dest msg < n" using ring_invD(4) [OF inv msg] by (simp add: msg_inv_def)
  then show "rm_dest msg < n" "ofcId (ofcs r ! rm_dest msg) = rm_dest msg" "ofc_inv (ofcs r ! rm_dest msg)" "ofcManagers (ofcs r ! rm_dest msg) = n"
    using ring_invD(3) [OF inv d] by (simp_all add: mgr_inv_def)
  then show "\<exists>lowest. lowestCheckpoint (ofcs r ! rm_dest msg) = Some lowest" using lowestCheckpoint_ok by blast
  show "ring_inv n p (afterDelivery msg (ofcs r ! rm_dest msg) [] r)" if "rm_state msg \<noteq> THIRD_CYCLE" using ignored_inv [OF inv msg that] by simp
qed

lemmas route_defs = routeRestore_def ofc_receiveKernelMessage_def masterReceives_def slaveReceives_def Let_def

lemma send_delivered:
  assumes inv: "ring_inv n p r" and msg: "msg \<in># flight r" "rm_state msg = SEND_TO_MASTER"
  shows "\<exists>m out e. routeRestore msg (ofcs r ! rm_dest msg) = Some (m, out, e) \<and> ring_inv n p (afterDelivery msg m out r)"
proof -
  let ?m = "ofcs r ! 0" and ?m' = "enterRecovery (ofcs r ! 0)"
  have d: "rm_dest msg = 0" using ring_invD(4) [OF inv msg(1)] msg(2) by (simp add: msg_inv_def)
  have "ring_inv n p (afterDelivery msg ?m' [sendRestore ?m' (ofcPeer ?m) (rm_time msg) FIRST_CYCLE] r)" if "\<not> ofcRecovering ?m"
    using sendToMaster_inv [OF inv msg that refl] d by simp
  then show ?thesis using delivered_mgr(2,5) [OF inv msg(1)] msg(2) d by (simp add: route_defs)
qed

lemma first_delivered:
  assumes inv: "ring_inv n p r" and msg: "msg \<in># flight r" "rm_state msg = FIRST_CYCLE"
  shows "\<exists>m out e. routeRestore msg (ofcs r ! rm_dest msg) = Some (m, out, e) \<and> ring_inv n p (afterDelivery msg m out r)"
proof (cases "rm_dest msg = 0")
  case True
  obtain lowest where low: "lowestCheckpoint (ofcs r ! 0) = Some lowest" using delivered_mgr(6) [OF inv msg(1)] True by auto
  have "ring_inv n p (afterDelivery msg (clearCollectTimes (ofcs r ! 0))
      [sendRestore (ofcs r ! 0) (ofcPeer (ofcs r ! 0)) (if lowest > rm_time msg then rm_time msg else lowest) SECOND_CYCLE] r)"
    using firstAtMaster_inv [OF inv msg True low refl] True by simp
  then show ?thesis using delivered_mgr(2,5) [OF inv msg(1)] msg(2) True low by (simp add: route_defs)
next
  case False
  let ?d = "rm_dest msg" and ?m' = "clearCollectTimes (enterRecovery (ofcs r ! rm_dest msg))"
  have "ring_inv n p (afterDelivery msg ?m' [sendRestore ?m' (ofcPeer (ofcs r ! ?d)) (rm_time msg) FIRST_CYCLE] r)" if "\<not> ofcRecovering (ofcs r ! ?d)"
    using firstAtSlave_inv [OF inv msg refl _ that refl] False by simp
  then show ?thesis using delivered_mgr(2,5) [OF inv msg(1)] msg(2) False by (simp add: route_defs)
qed

lemma second_delivered:
  assumes inv: "ring_inv n p r" and msg: "msg \<in># flight r" "rm_state msg = SECOND_CYCLE"
  shows "\<exists>m out e. routeRestore msg (ofcs r ! rm_dest msg) = Some (m, out, e) \<and> ring_inv n p (afterDelivery msg m out r)"
proof (cases "rm_dest msg = 0")
  case True
  let ?m = "ofcs r ! 0"
  have "restorable (rm_time msg) (leaveRecovery ?m)" "ofc_inv (leaveRecovery ?m)"
    using token_phase(2) [OF inv msg] ring_invD(1) [OF inv] True delivered_mgr(3) [OF inv msg(1)] by (simp_all add: visited_def)
  then obtain m e where m: "restoreCheckpoint (rm_time msg) (leaveRecovery ?m) = Some (m, e)" using restoreCheckpoint_ok by blast
  have "ring_inv n p (afterDelivery msg m (map (\<lambda>dest. sendRestore ?m dest (rm_time msg) THIRD_CYCLE) [1..<n]) r)"
    using secondAtMaster_inv [OF inv msg True m] True by simp
  then show ?thesis using delivered_mgr(2,4,5) [OF inv msg(1)] msg(2) True m by (simp add: route_defs)
next
  case False
  let ?d = "rm_dest msg"
  obtain lowest where low: "lowestCheckpoint (ofcs r ! ?d) = Some lowest" using delivered_mgr(6) [OF inv msg(1)] by auto
  have "ring_inv n p (afterDelivery msg (ofcs r ! ?d)
      [sendRestore (ofcs r ! ?d) (ofcPeer (ofcs r ! ?d)) (if lowest > rm_time msg then rm_time msg else lowest) SECOND_CYCLE] r)"
    using secondAtSlave_inv [OF inv msg refl _ low refl] False by simp
  then show ?thesis using delivered_mgr(2,5) [OF inv msg(1)] msg(2) False low by (simp add: route_defs)
qed

lemma third_delivered:
  assumes inv: "ring_inv n p r" and msg: "msg \<in># flight r" "rm_state msg = THIRD_CYCLE"
  shows "\<exists>m out e. routeRestore msg (ofcs r ! rm_dest msg) = Some (m, out, e) \<and> ring_inv n p (afterDelivery msg m out r)"
proof -
  let ?d = "rm_dest msg"
  have a: "0 < ?d" "\<not> rm_incarnation msg < numCatastrophicRollbacks (ofcs r ! ?d)" "ofcRecovering (ofcs r ! ?d)" "restorable (rm_time msg) (leaveRecovery (ofcs r ! ?d))"
    using third_accepted [OF inv msg refl] by simp_all
  moreover have "ofc_inv (leaveRecovery (ofcs r ! ?d))" using delivered_mgr(3) [OF inv msg(1)] by simp
  ultimately obtain m e where m: "restoreCheckpoint (rm_time msg) (leaveRecovery (ofcs r ! ?d)) = Some (m, e)" using restoreCheckpoint_ok by blast
  have "ring_inv n p (afterDelivery msg m [] r)" using thirdAtSlave_inv [OF inv msg refl m] by simp
  then show ?thesis using delivered_mgr(2) [OF inv msg(1)] msg(2) a m by (simp add: route_defs)
qed

lemma deliver_total:
  assumes inv: "ring_inv n p r" and msg: "msg \<in># flight r"
  shows "\<exists>r'. ofc_deliver msg r = Some r' \<and> ring_inv n p r'"
proof -
  obtain m out e where "routeRestore msg (ofcs r ! rm_dest msg) = Some (m, out, e)" "ring_inv n p (afterDelivery msg m out r)"
    using send_delivered [OF inv msg] first_delivered [OF inv msg] second_delivered [OF inv msg] third_delivered [OF inv msg]
    by (cases "rm_state msg") blast+
  then show ?thesis using delivered_mgr(1) [OF inv msg] ring_invD(2) [OF inv] by (simp add: ofc_deliver_def vec_simps)
qed

subsection \<open>Properties\<close>

lemma ofc_step_inv:
  assumes "ofc_step r r'" and "ring_inv n p r"
  shows "ring_inv n p r'"
  using assms
proof cases
  case (ofc_checkpoint k i st f time m)
  then show ?thesis
    using assms(2) checkpoint_control checkpoint_ok [of "ofcs r ! k" i st f time] ring_invD(2,3) [OF assms(2)]
    by (auto intro!: work_inv simp: mgr_inv_def)
next
  case (ofc_rollback k i time m)
  then show ?thesis
    using assms(2) update_control updateCheckpointTime_ok [of "ofcs r ! k" i time] ring_invD(2,3) [OF assms(2)]
    by (auto intro!: work_inv simp: mgr_inv_def)
next
  case (ofc_collect k i time m effects)
  then show ?thesis
    using assms(2) collect_control [OF ofc_collect(4)] ring_invD(2,3) [OF assms(2)] by (auto intro!: work_inv simp: mgr_inv_def)
next
  case (ofc_request k i time m msg)
  then show ?thesis using request_inv [OF assms(2)] ring_invD(2) [OF assms(2)] by simp
next
  case (ofc_delivery msg)
  then show ?thesis using deliver_total [OF assms(2)] by fastforce
qed

lemma ofc_reachable_inv: "ofc_reachable r0 r \<Longrightarrow> ring_inv n p r0 \<Longrightarrow> ring_inv n p r"
  by (induction rule: ofc_reachable.induct) (simp_all add: ofc_step_inv)

text \<open>C28: in every reachable state of the managers every message can be delivered: whatever the order of the messages, and however many recoveries are
  requested, a manager that is told to restore a checkpoint has the states of its objects at that time and all their files.\<close>

theorem recovery_checkpoint_found:
  assumes "0 < n" and "0 < period" and "\<forall>k < n. 0 < objs k" and "ofc_reachable (ofc_start n period len objs st f) r" and "msg \<in># flight r"
  shows "\<exists>r'. ofc_deliver msg r = Some r'"
  using deliver_total [OF ofc_reachable_inv [OF assms(4) ofc_start_inv [OF assms(1-3)]] assms(5)] by blast

text \<open>C29: when no message to restore a checkpoint is in transit, all managers have last restored the same checkpoint, or none of them has restored one.\<close>

theorem recovery_agreement:
  assumes "0 < n" and "0 < period" and "\<forall>k < n. 0 < objs k" and "ofc_reachable (ofc_start n period len objs st f) r"
    and "\<forall>msg \<in># flight r. rm_state msg \<noteq> THIRD_CYCLE" and "j < n"
  shows "lastRestoreTime (ofcs r ! j) = lastRestoreTime (ofcs r ! 0)"
proof (cases "j = 0")
  case False
  have inv: "ring_inv n period r" by (rule ofc_reachable_inv [OF assms(4) ofc_start_inv [OF assms(1-3)]])
  have "thirds j r = {#}" using assms(5) by (simp add: thirds_def filter_mset_eq_conv)
  then show ?thesis using ring_invD(5) [OF inv, of j] False assms(6) by (simp add: slave_inv_def)
qed simp

text \<open>Runs of the managers by given requests and deliveries.\<close>

datatype ofcAction = Request nat nat int | Deliver restoreMsg

fun ofc_exec :: "ofcAction list \<Rightarrow> ('st, 'f) ofcRing \<Rightarrow> ('st, 'f) ofcRing option" where
  "ofc_exec [] r = Some r"
| "ofc_exec (Request k i t # as) r = (if k < length (ofcs r) \<and> \<not> ckptRecovery (ofcs r ! k) then do {
     (m, msg) \<leftarrow> startRecovery i t (ofcs r ! k);
     ofc_exec as (r\<lparr>ofcs := (ofcs r)[k := m], flight := add_mset msg (flight r)\<rparr>) } else None)"
| "ofc_exec (Deliver msg # as) r = (if msg \<in># flight r then do { r' \<leftarrow> ofc_deliver msg r; ofc_exec as r' } else None)"

lemma ofc_reachable_step: "ofc_step r r1 \<Longrightarrow> ofc_reachable r1 r' \<Longrightarrow> ofc_reachable r r'"
  by (rotate_tac, induction rule: ofc_reachable.induct) (auto intro: ofc_reachable.intros)

lemma ofc_exec_reachable: "ofc_exec as r = Some r' \<Longrightarrow> ofc_reachable r r'"
proof (induction as r rule: ofc_exec.induct)
  case (2 k i t as r)
  then obtain m msg where "startRecovery i t (ofcs r ! k) = Some (m, msg)" "k < length (ofcs r)" "\<not> ckptRecovery (ofcs r ! k)"
    "ofc_reachable (r\<lparr>ofcs := (ofcs r)[k := m], flight := add_mset msg (flight r)\<rparr>) r'"
    by (auto split: if_splits bind_splits)
  then show ?case using ofc_reachable_step ofc_request by blast
next
  case (3 msg as r)
  then obtain r1 where "msg \<in># flight r" "ofc_deliver msg r = Some r1" "ofc_reachable r1 r'" by (auto split: if_splits bind_splits)
  then show ?case using ofc_reachable_step ofc_delivery by blast
qed (auto intro: ofc_init)

abbreviation restMsg :: "nat \<Rightarrow> restoreToken \<Rightarrow> nat \<Rightarrow> restoreMsg" where
  "restMsg d s i \<equiv> \<lparr>rm_dest = d, rm_time = 1, rm_state = s, rm_incarnation = i\<rparr>"

definition ex_ring :: "(nat, nat) ofcRing" where
  "ex_ring = ofc_start 3 10 100 (\<lambda>_. 1) (\<lambda>i. i) (\<lambda>i t. i)"

text \<open>A recovery that the second manager asks for, up to the broadcast of the master.\<close>

definition ex_recovery :: "ofcAction list" where
  "ex_recovery = [Request 1 0 5, Deliver (restMsg 0 SEND_TO_MASTER 0), Deliver (restMsg 1 FIRST_CYCLE 1), Deliver (restMsg 2 FIRST_CYCLE 1),
     Deliver (restMsg 0 FIRST_CYCLE 1), Deliver (restMsg 1 SECOND_CYCLE 1), Deliver (restMsg 2 SECOND_CYCLE 1), Deliver (restMsg 0 SECOND_CYCLE 1)]"

lemma ex_recovery_sent:
  "map_option (\<lambda>r. restMsg 1 THIRD_CYCLE 1 \<in># flight r) (ofc_exec ex_recovery ex_ring) = Some True"
  by code_simp

lemma ex_recovery_done:
  "map_option (\<lambda>r. (flight r = {#}, map lastRestoreTime (ofcs r)))
     (ofc_exec (ex_recovery @ [Deliver (restMsg 2 THIRD_CYCLE 1), Deliver (restMsg 1 THIRD_CYCLE 1)]) ex_ring) = Some (True, [1, 1, 1])"
  by code_simp

theorem recovery_checkpoint_found_witness:
  "\<exists>r r'. ofc_reachable ex_ring r \<and> restMsg 1 THIRD_CYCLE 1 \<in># flight r \<and> ofc_deliver (restMsg 1 THIRD_CYCLE 1) r = Some r'"
proof -
  obtain r where r: "ofc_exec ex_recovery ex_ring = Some r" "restMsg 1 THIRD_CYCLE 1 \<in># flight r" using ex_recovery_sent by auto
  note reach = ofc_exec_reachable [OF r(1)]
  show ?thesis
    using recovery_checkpoint_found [OF _ _ _ reach [unfolded ex_ring_def] r(2)] r(2) reach by auto
qed

theorem recovery_agreement_witness:
  "\<exists>r. ofc_reachable ex_ring r \<and> flight r = {#} \<and> lastRestoreTime (ofcs r ! 2) = lastRestoreTime (ofcs r ! 0)"
proof -
  obtain r where r: "ofc_exec (ex_recovery @ [Deliver (restMsg 2 THIRD_CYCLE 1), Deliver (restMsg 1 THIRD_CYCLE 1)]) ex_ring = Some r" "flight r = {#}"
    using ex_recovery_done by auto
  note reach = ofc_exec_reachable [OF r(1)]
  show ?thesis using recovery_agreement [OF _ _ _ reach [unfolded ex_ring_def], of 2] r(2) reach by auto
qed

text \<open>a token of a second recovery that reaches a manager before the message that ends the first one is dropped, and the master waits forever: no
  message is left, while the master and the managers that the token has passed stay in recovery.\<close>

theorem recovery_token_lost:
  "map_option (\<lambda>r. (flight r = {#}, map ofcRecovering (ofcs r)))
     (ofc_exec (ex_recovery @ [Deliver (restMsg 1 THIRD_CYCLE 1), Request 0 0 5, Deliver (restMsg 1 FIRST_CYCLE 2), Deliver (restMsg 2 FIRST_CYCLE 2),
       Deliver (restMsg 2 THIRD_CYCLE 1)]) ex_ring) = Some (True, [True, True, False])"
  by code_simp

end
