(* ===== verification/Partitioning.thy ===== *)
theory Partitioning
  imports Prelude "HOL-Library.Multiset"
begin

text \<open>
  The distribution of the simulation objects over the simulation managers: \<open>RoundRobinPartitioner.cpp\<close>, \<open>GreedyPartitioner.cpp\<close>,
  \<open>ProfileGuidedPartitioner.cpp\<close> and the choice between them in \<open>PartitionManager.cpp\<close>. The partitioning that METIS computes from the
  statistics file is an argument.
\<close>

subsection \<open>The contract of a partitioner\<close>

lemma concat_place_unique:
  "distinct (concat ps) \<Longrightarrow> i < length ps \<Longrightarrow> j < length ps \<Longrightarrow> x \<in> set (ps ! i) \<Longrightarrow> x \<in> set (ps ! j) \<Longrightarrow> i = j"
proof (induction ps arbitrary: i j)
  case (Cons p ps)
  have "x \<in> set (concat ps)" if "k < length ps" "x \<in> set (ps ! k)" for k using that nth_mem by fastforce
  then have "x \<notin> set p" if "k < length ps" "x \<in> set (ps ! k)" for k using that Cons.prems(1) by auto
  then show ?case using Cons by (cases i; cases j) auto
qed simp

text \<open>\<open>PartitionInfo.h\<close>: every object must be included in exactly one partition.\<close>

locale partitioner =
  fixes partition :: "'a list \<Rightarrow> nat \<Rightarrow> 'a list list option" and accepts :: "'a list \<Rightarrow> nat \<Rightarrow> bool"
  assumes divides: "0 < n \<Longrightarrow> accepts objects n \<Longrightarrow>
    \<exists>ps. partition objects n = Some ps \<and> length ps = n \<and> mset (concat ps) = mset objects"
begin

lemma exactly_one:
  assumes "0 < n" and "accepts objects n" and "distinct objects" and "x \<in> set objects"
  shows "\<exists>ps. partition objects n = Some ps \<and> (\<exists>!j. j < n \<and> x \<in> set (ps ! j))"
proof -
  obtain ps where ps: "partition objects n = Some ps" "length ps = n" "mset (concat ps) = mset objects" using divides [OF assms(1,2)] by blast
  have "distinct (concat ps)" using ps(3) assms(3) by (metis mset_eq_imp_distinct_iff)
  moreover have "x \<in> set (concat ps)" using ps(3) assms(4) by (metis set_mset_mset)
  then obtain j where "j < n" "x \<in> set (ps ! j)" using ps(2) by (auto simp: in_set_conv_nth [of _ ps])
  ultimately show ?thesis using ps(1,2) concat_place_unique [of ps] by blast
qed

end

subsection \<open>Round robin\<close>

fun deal :: "nat \<Rightarrow> nat \<Rightarrow> 'a list \<Rightarrow> 'a list list \<Rightarrow> 'a list list" where
  "deal numPartitions n [] partitions = partitions"
| "deal numPartitions n (object # objects) partitions =
     deal numPartitions (n + 1) objects (partitions[n mod numPartitions := partitions ! (n mod numPartitions) @ [object]])"

definition RoundRobinPartitioner_partition :: "'a list \<Rightarrow> nat \<Rightarrow> 'a list list option" where
  "RoundRobinPartitioner_partition objects numPartitions =
     (if numPartitions = 0 \<and> objects \<noteq> [] then None else Some (deal numPartitions 0 objects (replicate numPartitions [])))"

subsection \<open>Greedy\<close>

text \<open>A partition takes its objects from the end of the objects that are left.\<close>

fun takeLast :: "nat \<Rightarrow> 'a list \<Rightarrow> nat \<Rightarrow> ('a list \<times> nat) option" where
  "takeLast 0 objects numLeft = Some ([], numLeft)"
| "takeLast (Suc j) objects numLeft = (if numLeft = 0 then None else do {
     object \<leftarrow> vec_get objects (numLeft - 1);
     (partition, left) \<leftarrow> takeLast j objects (numLeft - 1);
     Some (object # partition, left) })"

fun greedyLoop :: "nat \<Rightarrow> nat \<Rightarrow> nat list \<Rightarrow> 'a list \<Rightarrow> nat \<Rightarrow> ('a list list \<times> nat) option" where
  "greedyLoop perProcessor remaining [] objects numLeft = Some ([], numLeft)"
| "greedyLoop perProcessor remaining (objectNum # nums) objects numLeft = do {
     (partition, left) \<leftarrow> takeLast (if objectNum < remaining then perProcessor + 1 else perProcessor) objects numLeft;
     (partitions, left') \<leftarrow> greedyLoop perProcessor remaining nums objects left;
     Some (partition # partitions, left') }"

definition GreedyPartitioner_partition :: "'a list \<Rightarrow> nat \<Rightarrow> 'a list list option" where
  "GreedyPartitioner_partition objects numPartitions =
     (if numPartitions = 0 then None else do {
        (partitions, numLeft) \<leftarrow> greedyLoop (length objects div numPartitions) (length objects mod numPartitions) [0..<numPartitions] objects (length objects);
        if numLeft = 0 then Some partitions else None })"

subsection \<open>Profile guided\<close>

text \<open>\<open>indexes\<close> gives the object of a vertex of the statistics file and \<open>part\<close> its partition; the objects without a vertex are dealt out.\<close>

fun addMetis :: "nat list \<Rightarrow> nat list \<Rightarrow> nat list \<Rightarrow> 'a list \<Rightarrow> 'a list list \<Rightarrow> 'a list list option" where
  "addMetis [] indexes part objects partitions = Some partitions"
| "addMetis (i # vertices) indexes part objects partitions = do {
     index \<leftarrow> vec_get indexes i;
     k \<leftarrow> vec_get part i;
     object \<leftarrow> vec_get objects index;
     partition \<leftarrow> vec_get partitions k;
     addMetis vertices indexes part objects (partitions[k := partition @ [object]]) }"

fun addRemaining :: "nat \<Rightarrow> nat list \<Rightarrow> 'a list \<Rightarrow> 'a list list \<Rightarrow> 'a list list" where
  "addRemaining numPartitions [] objects partitions = partitions"
| "addRemaining numPartitions (i # is) objects partitions =
     addRemaining numPartitions is objects (partitions[i mod numPartitions := partitions ! (i mod numPartitions) @ [objects ! i]])"

definition ProfileGuidedPartitioner_partition :: "nat \<Rightarrow> nat list \<Rightarrow> nat list \<Rightarrow> 'a list \<Rightarrow> nat \<Rightarrow> 'a list list option" where
  "ProfileGuidedPartitioner_partition nvtxs indexes part objects numPartitions =
     (if numPartitions = 1 then Some [objects]
      else if nvtxs > length objects then None
      else do {
        partitions \<leftarrow> addMetis [0..<nvtxs] indexes part objects (replicate numPartitions []);
        let remaining = filter (\<lambda>i. i \<notin> set (take nvtxs indexes)) [0..<length objects];
        if numPartitions = 0 \<and> remaining \<noteq> [] then None
        else Some (addRemaining numPartitions remaining objects partitions) })"

definition getPartitionInfo ::
  "string \<Rightarrow> nat \<times> nat list \<times> nat list \<Rightarrow> ('a list \<Rightarrow> nat \<Rightarrow> 'a list list option) \<Rightarrow> 'a list \<Rightarrow> nat \<Rightarrow> 'a list list option" where
  "getPartitionInfo partitionType metis application objects numPartitions =
     (if partitionType = ''RoundRobin'' then RoundRobinPartitioner_partition objects numPartitions
      else if partitionType = ''Greedy'' then GreedyPartitioner_partition objects numPartitions
      else if partitionType = ''ProfileGuided''
      then (case metis of (nvtxs, indexes, part) \<Rightarrow> ProfileGuidedPartitioner_partition nvtxs indexes part objects numPartitions)
      else application objects numPartitions)"

subsection \<open>Correctness\<close>

lemma mset_concat_push:
  assumes "k < length ps"
  shows "mset (concat (ps[k := ps ! k @ [x]])) = add_mset x (mset (concat ps))"
proof -
  have "ps = take k ps @ ps ! k # drop (Suc k) ps" using assms by (rule id_take_nth_drop)
  then have "concat ps = concat (take k ps) @ ps ! k @ concat (drop (Suc k) ps)" by (metis concat.simps(2) concat_append)
  then show ?thesis using assms by (simp add: upd_conv_take_nth_drop)
qed

lemma deal_ok:
  assumes "0 < n" and "length ps = n"
  shows "length (deal n k objects ps) = n \<and> mset (concat (deal n k objects ps)) = mset (concat ps) + mset objects"
  using assms(2)
proof (induction objects arbitrary: k ps)
  case (Cons x xs)
  then show ?case using assms(1) mset_concat_push [of "k mod n" ps x] by simp
qed simp

text \<open>Dealing keeps the sizes of the partitions in step with the number of objects dealt.\<close>

lemma deal_sizes:
  assumes "0 < n" and "length ps = n" and "\<forall>j < n. length (ps ! j) = (k + n - 1 - j) div n"
  shows "\<forall>j < n. length (deal n k objects ps ! j) = (k + length objects + n - 1 - j) div n"
  using assms(2,3)
proof (induction objects arbitrary: k ps)
  case (Cons x xs)
  have step: "(k + 1 + n - 1 - j) div n = (k + n - 1 - j) div n + (if j = k mod n then 1 else 0)" if "j < n" for j
  proof -
    have "k + 1 + n - 1 - j = Suc (k + n - 1 - j)" using that by simp
    moreover have "Suc (k + n - 1 - j) mod n = 0 \<longleftrightarrow> j = k mod n"
      using mod_eq_dvd_iff_nat [of j "k + n" n] that calculation by (auto simp: mod_eq_0_iff_dvd)
    ultimately show ?thesis by (simp add: div_Suc)
  qed
  let ?ps = "ps[k mod n := ps ! (k mod n) @ [x]]"
  have "\<forall>j < n. length (?ps ! j) = (k + 1 + n - 1 - j) div n"
  proof (intro allI impI)
    fix j assume "j < n"
    then show "length (?ps ! j) = (k + 1 + n - 1 - j) div n"
      using step [of j] Cons.prems assms(1) by (cases "k mod n = j") (auto simp del: One_nat_def)
  qed
  then show ?case using Cons.IH [of ?ps "k + 1"] Cons.prems(1) by (simp add: ac_simps)
qed simp

lemma roundRobin_ok:
  assumes "0 < n"
  shows "\<exists>ps. RoundRobinPartitioner_partition objects n = Some ps \<and> length ps = n \<and> mset (concat ps) = mset objects \<and>
    (\<forall>j < n. length (ps ! j) = (length objects + n - 1 - j) div n)"
proof -
  have "mset (concat (replicate n [])) = ({#} :: 'a multiset)" by (induction n) simp_all
  then show ?thesis
    using deal_ok [of n "replicate n []" 0 objects] deal_sizes [of n "replicate n []" 0 objects] assms
    by (simp add: RoundRobinPartitioner_partition_def)
qed

lemma takeLast_ok:
  "j \<le> numLeft \<Longrightarrow> numLeft \<le> length objects \<Longrightarrow>
   takeLast j objects numLeft = Some (rev (drop (numLeft - j) (take numLeft objects)), numLeft - j)"
proof (induction j objects numLeft rule: takeLast.induct)
  case (2 j objects numLeft)
  have i: "numLeft - 1 < length objects" "0 < numLeft" using 2(2,3) by simp_all
  then have "take numLeft objects = take (numLeft - 1) objects @ [objects ! (numLeft - 1)]" by (metis Suc_diff_1 take_Suc_conv_app_nth)
  moreover have "takeLast j objects (numLeft - 1) = Some (rev (drop (numLeft - 1 - j) (take (numLeft - 1) objects)), numLeft - 1 - j)"
    using 2(1) [OF _] i 2(2) by (simp add: vec_simps)
  ultimately show ?case using i 2(2) by (simp add: vec_simps)
qed simp

lemma greedyLoop_ok:
  assumes "numLeft \<le> length objects" and "share = (\<lambda>i. if i < remaining then per + 1 else per)" and "sum_list (map share nums) \<le> numLeft"
  shows "\<exists>ps. greedyLoop per remaining nums objects numLeft = Some (ps, numLeft - sum_list (map share nums)) \<and> map length ps = map share nums \<and>
    mset (concat ps) = mset (drop (numLeft - sum_list (map share nums)) (take numLeft objects))"
  using assms(1,3)
proof (induction nums arbitrary: numLeft)
  case Nil
  then show ?case by simp
next
  case (Cons i nums)
  let ?left = "numLeft - share i" and ?total = "sum_list (map share nums)"
  have t: "takeLast (if i < remaining then per + 1 else per) objects numLeft = Some (rev (drop ?left (take numLeft objects)), ?left)"
    using takeLast_ok [of "share i" numLeft objects] Cons.prems assms(2) by simp
  have s: "?left \<le> length objects" "?total \<le> ?left" using Cons.prems by simp_all
  obtain ps where ps: "greedyLoop per remaining nums objects ?left = Some (ps, ?left - ?total)" "map length ps = map share nums"
    "mset (concat ps) = mset (drop (?left - ?total) (take ?left objects))" using Cons.IH [OF s] by blast
  have "take numLeft objects = take ?left objects @ drop ?left (take numLeft objects)"
    by (metis append_take_drop_id diff_le_self min.absorb2 take_take min.commute)
  then have "drop (?left - ?total) (take numLeft objects) = drop (?left - ?total) (take ?left objects) @ drop ?left (take numLeft objects)"
    using s by (metis drop_append diff_is_0_eq drop_0 length_take min.absorb2 diff_le_self)
  moreover have "length (rev (drop ?left (take numLeft objects))) = share i" using Cons.prems by simp
  ultimately show ?case using t ps by simp
qed

lemma sum_shares: "r \<le> n \<Longrightarrow> sum_list (map (\<lambda>i. if i < r then q + 1 else q) [0..<n]) = n * q + r" for q :: nat
proof (induction n)
  case (Suc n)
  have "sum_list (map (\<lambda>i. if i < r then q + 1 else q) [0..<n]) = n * (q + 1)" if "n < r"
    using that by (subst map_cong [OF refl, of _ _ "\<lambda>_. q + 1"]) (auto simp: map_replicate_const sum_list_replicate)
  then show ?case using Suc by (cases "r = Suc n") auto
qed simp

lemma greedy_ok:
  assumes "0 < n"
  shows "\<exists>ps. GreedyPartitioner_partition objects n = Some ps \<and> length ps = n \<and> mset (concat ps) = mset objects \<and>
    (\<forall>j < n. length (ps ! j) = (if j < length objects mod n then length objects div n + 1 else length objects div n))"
proof -
  define share where "share = (\<lambda>i. if i < length objects mod n then length objects div n + 1 else length objects div n)"
  have "sum_list (map share [0..<n]) = n * (length objects div n) + length objects mod n"
    unfolding share_def using assms by (intro sum_shares) (simp add: less_imp_le)
  then have total: "sum_list (map share [0..<n]) = length objects" by simp
  obtain ps where ps: "greedyLoop (length objects div n) (length objects mod n) [0..<n] objects (length objects) = Some (ps, 0)"
    "map length ps = map share [0..<n]" "mset (concat ps) = mset objects"
    using greedyLoop_ok [OF order_refl share_def, of "[0..<n]" objects] total by auto
  have len: "length ps = n" using ps(2) by (metis diff_zero length_map length_upt)
  have "length (ps ! j) = share j" if "j < n" for j using ps(2) len that by (metis add_0 nth_map nth_upt length_map length_upt diff_zero)
  then show ?thesis using ps len assms by (simp add: GreedyPartitioner_partition_def share_def)
qed

interpretation round_robin: partitioner RoundRobinPartitioner_partition "\<lambda>_ _. True"
  using roundRobin_ok by unfold_locales blast

interpretation greedy: partitioner GreedyPartitioner_partition "\<lambda>_ _. True"
  using greedy_ok by unfold_locales blast

text \<open>What METIS returns: a partition for every vertex; and the file gives every vertex an object of its own.\<close>

definition metis_ok :: "nat \<times> nat list \<times> nat list \<Rightarrow> 'a list \<Rightarrow> nat \<Rightarrow> bool" where
  "metis_ok metis objects n \<longleftrightarrow> (case metis of (nvtxs, indexes, part) \<Rightarrow>
     nvtxs \<le> length objects \<and> nvtxs \<le> length indexes \<and> nvtxs \<le> length part \<and> distinct (take nvtxs indexes) \<and>
     list_all (\<lambda>i. i < length objects) (take nvtxs indexes) \<and> list_all (\<lambda>k. k < n) (take nvtxs part))"

lemma addMetis_ok:
  assumes "\<forall>i \<in> set vertices. i < length indexes \<and> i < length part \<and> indexes ! i < length objects \<and> part ! i < n" and "length ps = n"
  shows "\<exists>ps'. addMetis vertices indexes part objects ps = Some ps' \<and> length ps' = n \<and>
    mset (concat ps') = mset (concat ps) + mset (map (\<lambda>i. objects ! (indexes ! i)) vertices)"
  using assms
proof (induction vertices arbitrary: ps)
  case (Cons i "is")
  then show ?case
    using Cons.IH [of "ps[part ! i := ps ! (part ! i) @ [objects ! (indexes ! i)]]"] mset_concat_push [of "part ! i" ps "objects ! (indexes ! i)"]
    by (auto simp: vec_simps)
qed simp

lemma addRemaining_ok:
  assumes "0 < n" and "length ps = n"
  shows "length (addRemaining n is objects ps) = n \<and> mset (concat (addRemaining n is objects ps)) = mset (concat ps) + mset (map ((!) objects) is)"
  using assms(2)
proof (induction "is" arbitrary: ps)
  case (Cons i "is")
  then show ?case using assms(1) mset_concat_push [of "i mod n" ps "objects ! i"] by simp
qed simp

lemma profileGuided_ok:
  assumes "0 < n" and "metis_ok (nvtxs, indexes, part) objects n"
  shows "\<exists>ps. ProfileGuidedPartitioner_partition nvtxs indexes part objects n = Some ps \<and> length ps = n \<and> mset (concat ps) = mset objects"
proof (cases "n = 1")
  case False
  let ?idx = "take nvtxs indexes" and ?rest = "filter (\<lambda>i. i \<notin> set (take nvtxs indexes)) [0..<length objects]"
  have m: "nvtxs \<le> length objects" "nvtxs \<le> length indexes" "nvtxs \<le> length part" "distinct ?idx" "\<forall>i \<in> set ?idx. i < length objects"
    "\<And>i. i < nvtxs \<Longrightarrow> indexes ! i < length objects \<and> part ! i < n"
    using assms(2) by (auto simp: metis_ok_def list_all_length in_set_conv_nth)
  then have "\<forall>i \<in> set [0..<nvtxs]. i < length indexes \<and> i < length part \<and> indexes ! i < length objects \<and> part ! i < n" by auto
  then obtain ps where ps: "addMetis [0..<nvtxs] indexes part objects (replicate n []) = Some ps" "length ps = n"
    "mset (concat ps) = mset (map (\<lambda>i. objects ! (indexes ! i)) [0..<nvtxs])"
    using addMetis_ok [of "[0..<nvtxs]" indexes part objects n "replicate n []"] by auto
  have "map (\<lambda>i. objects ! (indexes ! i)) [0..<nvtxs] = map ((!) objects) ?idx" using m(2) by (intro nth_equalityI) simp_all
  moreover have "mset (?idx @ ?rest) = mset [0..<length objects]"
    using m(4,5) by (intro set_eq_iff_mset_eq_distinct [THEN iffD1]) auto
  then have "mset (map ((!) objects) (?idx @ ?rest)) = mset (map ((!) objects) [0..<length objects])" by (simp only: mset_map)
  ultimately have "mset (concat ps) + mset (map ((!) objects) ?rest) = mset (map ((!) objects) [0..<length objects])"
    using ps(3) by (simp only: map_append mset_append)
  then show ?thesis using ps addRemaining_ok [OF assms(1) ps(2)] m(1) assms(1) False by (simp add: ProfileGuidedPartitioner_partition_def map_nth Let_def)
qed (simp add: ProfileGuidedPartitioner_partition_def)

interpretation profile_guided: partitioner "ProfileGuidedPartitioner_partition nvtxs indexes part" "metis_ok (nvtxs, indexes, part)" for nvtxs indexes part
  using profileGuided_ok by unfold_locales blast

text \<open>each built-in partitioner puts every simulation object into exactly one partition, and makes as many partitions as asked for; METIS and the
  statistics file are only needed for the profile-guided one.\<close>

theorem every_object_in_one_partition:
  assumes "0 < n" and "partitionType \<in> {''RoundRobin'', ''Greedy'', ''ProfileGuided''}" and "partitionType = ''ProfileGuided'' \<longrightarrow> metis_ok metis objects n"
    and "distinct objects" and "x \<in> set objects"
  shows "\<exists>ps. getPartitionInfo partitionType metis application objects n = Some ps \<and> (\<exists>!j. j < n \<and> x \<in> set (ps ! j))"
proof -
  obtain nvtxs indexes part where metis: "metis = (nvtxs, indexes, part)" by (rule prod_cases3)
  show ?thesis
    using assms round_robin.exactly_one [OF assms(1) _ assms(4,5)] greedy.exactly_one [OF assms(1) _ assms(4,5)]
      profile_guided.exactly_one [OF assms(1) _ assms(4,5), of nvtxs indexes part]
    by (auto simp: getPartitionInfo_def metis)
qed

theorem every_object_in_one_partition_witness:
  "\<exists>ps. getPartitionInfo ''ProfileGuided'' (2, [2, 0, 0], [1, 0, 0]) (\<lambda>_ _. None) ''abc'' 2 = Some ps \<and> (\<exists>!j. j < 2 \<and> CHR ''b'' \<in> set (ps ! j))"
proof -
  have "metis_ok (2, [2, 0, 0], [1, 0, 0]) ''abc'' 2" by code_simp
  then show ?thesis using every_object_in_one_partition [of 2 "''ProfileGuided''" "(2, [2, 0, 0], [1, 0, 0])" "''abc''" "CHR ''b''" "\<lambda>_ _. None"] by simp
qed

text \<open>Round robin and greedy partitions differ in size by at most one.\<close>

lemma balanced_sizes:
  assumes "0 < n" and "partitionType = ''RoundRobin'' \<or> partitionType = ''Greedy''"
  shows "\<exists>ps. getPartitionInfo partitionType metis application objects n = Some ps \<and>
    (\<forall>j < n. length objects div n \<le> length (ps ! j) \<and> length (ps ! j) \<le> length objects div n + 1)"
proof -
  have b: "length objects div n \<le> (length objects + n - 1 - j) div n" "(length objects + n - 1 - j) div n \<le> length objects div n + 1" if "j < n" for j
    using that assms(1) div_le_mono [of "length objects" "length objects + n - 1 - j" n] div_le_mono [of "length objects + n - 1 - j" "length objects + n" n]
    by (simp_all add: div_add_self2)
  show ?thesis
  proof (cases "partitionType = ''RoundRobin''")
    case True
    obtain ps where "RoundRobinPartitioner_partition objects n = Some ps" "\<forall>j < n. length (ps ! j) = (length objects + n - 1 - j) div n"
      using roundRobin_ok [OF assms(1)] by blast
    then show ?thesis using b True by (simp add: getPartitionInfo_def)
  next
    case False
    obtain ps where "GreedyPartitioner_partition objects n = Some ps"
      "\<forall>j < n. length (ps ! j) = (if j < length objects mod n then length objects div n + 1 else length objects div n)"
      using greedy_ok [OF assms(1)] by blast
    then show ?thesis using False assms(2) by (simp add: getPartitionInfo_def)
  qed
qed

end
