(* ===== verification/LadderQueue.thy ===== *)
theory LadderQueue
  imports Events
begin

text \<open>
  The ladder queue \<open>LadderQStrict.h\<close>, the priority queue by which a thread of the kernel finds the object with the earliest event. Events wait
  unsorted in \<open>top\<close>, in the buckets of up to eight rungs, of which the lower ones split a bucket of the rung above, and sorted in \<open>bottom\<close>.
  The arrays are functions of their indices; what lies outside of the allocated buckets is \<open>None\<close> when it is touched. Numbers of type
  \<open>unsigned int\<close> are natural numbers with the wrap-around written out; the times are the 64-bit numbers of \<open>getApproximateIntTime\<close>.
\<close>

subsection \<open>The data\<close>

type_synonym lq_event = "intvtime event"

record ladder =
  lq_top :: "lq_event list"
  maxTS :: nat
  minTS :: nat
  topStart :: nat
  rung :: "nat \<Rightarrow> nat \<Rightarrow> lq_event list"
  numRung0Buckets :: nat
  nRung :: nat
  bucketWidth :: "nat \<Rightarrow> nat"
  numBucket :: "nat \<Rightarrow> nat"
  rStart :: "nat \<Rightarrow> nat"
  rCur :: "nat \<Rightarrow> nat"
  bottom :: "lq_event omset"

definition MAX_RUNG_NUM :: nat where "MAX_RUNG_NUM = 8"
definition THRESHOLD :: nat where "THRESHOLD = 50"
definition MAX_BUCKET_NUM :: nat where "MAX_BUCKET_NUM = THRESHOLD"
definition MIN_BUCKET_WIDTH :: nat where "MIN_BUCKET_WIDTH = 1"
definition INVALID :: int where "INVALID = 65535"

text \<open>
  A bucket index that a function returns is \<open>None\<close> if it is \<open>INVALID\<close>: the caller cannot tell the bucket with this number from a failure.
\<close>

definition bucketResult :: "nat \<Rightarrow> nat option" where
  "bucketResult y = (if int y = INVALID then None else Some y)"

lemmas lq_consts [simp] = MAX_RUNG_NUM_def THRESHOLD_def MAX_BUCKET_NUM_def MIN_BUCKET_WIDTH_def INVALID_def

definition LadderQueueStrict :: ladder where
  "LadderQueueStrict = \<lparr>lq_top = [], maxTS = 0, minTS = 0, topStart = 0, rung = (\<lambda>_ _. []), numRung0Buckets = 0, nRung = 0,
     bucketWidth = (\<lambda>_. 0), numBucket = (\<lambda>_. 0), rStart = (\<lambda>_. 0), rCur = (\<lambda>_. 0), bottom = ms_empty\<rparr>"

text \<open>Conversion to \<open>unsigned int\<close>, and the time of an event as the code asks for it.\<close>

definition uint32 :: "int \<Rightarrow> nat" where
  "uint32 i = nat (i mod 2 ^ 32)"

definition wrap32 :: "nat \<Rightarrow> nat" where
  "wrap32 n = nat (int n mod 2 ^ 32)"

definition approxTime :: "lq_event \<Rightarrow> int" where
  "approxTime e = getApproximateIntTime (receiveTime e)"

definition NUM_BUCKETS :: "ladder \<Rightarrow> nat \<Rightarrow> nat" where
  "NUM_BUCKETS l x = (if x = 0 then numRung0Buckets l else MAX_BUCKET_NUM)"

definition RUNG :: "ladder \<Rightarrow> nat \<Rightarrow> nat \<Rightarrow> lq_event list option" where
  "RUNG l x y = (if x < MAX_RUNG_NUM \<and> y < NUM_BUCKETS l x then Some (rung l x y) else None)"

definition setBucket :: "nat \<Rightarrow> nat \<Rightarrow> lq_event list \<Rightarrow> ladder \<Rightarrow> ladder" where
  "setBucket x y b l = l\<lparr>rung := (rung l)(x := (rung l x)(y := b))\<rparr>"

definition bucketStart :: "ladder \<Rightarrow> nat \<Rightarrow> nat \<Rightarrow> nat" where
  "bucketStart l x y = wrap32 (rStart l x + y * bucketWidth l x)"

subsection \<open>Putting events into buckets\<close>

text \<open>The bucket for a time, at most the last one. A width of zero is a division by zero.\<close>

definition bucketFor :: "ladder \<Rightarrow> nat \<Rightarrow> int \<Rightarrow> nat option" where
  "bucketFor l x t = (if bucketWidth l x = 0 then None
     else Some (min (uint32 (t - int (rStart l x)) div bucketWidth l x) (NUM_BUCKETS l x - 1)))"

definition bucketForBottom :: "ladder \<Rightarrow> nat \<Rightarrow> int \<Rightarrow> nat option" where
  "bucketForBottom l x t = (if bucketWidth l x = 0 then None
     else Some (min (uint32 ((t - int (rStart l x)) div int (bucketWidth l x))) (NUM_BUCKETS l x - 1)))"

definition pushBucket :: "nat \<Rightarrow> nat \<Rightarrow> lq_event \<Rightarrow> ladder \<Rightarrow> ladder option" where
  "pushBucket x y e l = do {
     b \<leftarrow> RUNG l x y;
     Some (setBucket x y (e # b) l) }"

definition noteBucket :: "nat \<Rightarrow> nat \<Rightarrow> ladder \<Rightarrow> ladder" where
  "noteBucket x y l = (if numBucket l x < y + 1 then l\<lparr>numBucket := (numBucket l)(x := y + 1)\<rparr> else l)"

definition lowerCur :: "nat \<Rightarrow> nat \<Rightarrow> ladder \<Rightarrow> ladder" where
  "lowerCur x y l = (if rCur l x > bucketStart l x y then l\<lparr>rCur := (rCur l)(x := bucketStart l x y)\<rparr> else l)"

text \<open>The loops that spread events over the buckets of rung \<open>x\<close>.\<close>

fun spread :: "(ladder \<Rightarrow> nat \<Rightarrow> int \<Rightarrow> nat option) \<Rightarrow> nat \<Rightarrow> lq_event list \<Rightarrow> ladder \<Rightarrow> ladder option" where
  "spread idx x [] l = Some l"
| "spread idx x (e # es) l = (if approxTime e \<ge> int (rStart l x) then do {
     y \<leftarrow> idx l x (approxTime e);
     l1 \<leftarrow> pushBucket x y e l;
     spread idx x es (noteBucket x y l1) } else None)"

subsection \<open>Rungs\<close>

definition dropRung :: "ladder \<Rightarrow> ladder" where
  "dropRung l = (let r = nRung l - 1 in
     l\<lparr>numBucket := (numBucket l)(r := 0), rStart := (rStart l)(r := 0), rCur := (rCur l)(r := 0),
       bucketWidth := (bucketWidth l)(r := 0), nRung := r\<rparr>)"

text \<open>
  \<open>create_new_rung\<close> returns whether it has created a rung and, beside the changed ladder, the flag \<open>isBucketWidthStatic\<close>.
\<close>

definition create_new_rung :: "nat \<Rightarrow> nat \<Rightarrow> ladder \<Rightarrow> ladder \<times> bool \<times> bool" where
  "create_new_rung numEvents initStartAndCurVal l =
     (if numEvents = 0 then (l, False, False)
      else if nRung l = 0 then
        if maxTS l < minTS l then (l, False, False)
        else (l\<lparr>bucketWidth := (bucketWidth l)(0 := (if minTS l = maxTS l then MIN_BUCKET_WIDTH
                  else wrap32 (maxTS l - minTS l + numEvents - 1) div numEvents)),
                topStart := maxTS l, rStart := (rStart l)(0 := minTS l), rCur := (rCur l)(0 := minTS l),
                numBucket := (numBucket l)(0 := 0), nRung := 1,
                numRung0Buckets := max (numRung0Buckets l) (2 * numEvents)\<rparr>, False, True)
      else if MIN_BUCKET_WIDTH \<ge> bucketWidth l (nRung l - 1) then (l, True, False)
      else if MAX_RUNG_NUM \<le> nRung l then (l, False, False)
      else let r = nRung l in
        (l\<lparr>nRung := r + 1,
           bucketWidth := (bucketWidth l)(r := wrap32 (bucketWidth l (r - 1) + numEvents - 1) div numEvents),
           rStart := (rStart l)(r := initStartAndCurVal), rCur := (rCur l)(r := initStartAndCurVal),
           numBucket := (numBucket l)(r := 0)\<rparr>, False, True))"

definition bottomSize :: "ladder \<Rightarrow> nat" where
  "bottomSize l = length (ms_vals (bottom l))"

definition create_rung_for_bottom_transfer :: "nat \<Rightarrow> ladder \<Rightarrow> ladder option" where
  "create_rung_for_bottom_transfer startVal l = (let r = nRung l;
       l1 = l\<lparr>nRung := r + 1, rStart := (rStart l)(r := startVal), rCur := (rCur l)(r := startVal), numBucket := (numBucket l)(r := 0)\<rparr>
     in if r \<ge> MAX_RUNG_NUM then None
     else if r = 0 then
       if topStart l \<ge> startVal \<and> bottomSize l > 0
       then Some (l1\<lparr>bucketWidth := (bucketWidth l)(0 := max ((topStart l - startVal) div bottomSize l) MIN_BUCKET_WIDTH),
              numRung0Buckets := max (numRung0Buckets l) (2 * bottomSize l)\<rparr>)
       else None
     else if rCur l (r - 1) \<ge> startVal
       then Some (l1\<lparr>bucketWidth := (bucketWidth l)(r := max ((rCur l (r - 1) - startVal) div THRESHOLD) MIN_BUCKET_WIDTH)\<rparr>)
       else None)"

text \<open>The first bucket of a rung that is not empty, or the number of buckets; \<open>rCur\<close> follows it.\<close>

function scanBuckets :: "nat \<Rightarrow> nat \<Rightarrow> ladder \<Rightarrow> ladder \<times> nat" where
  "scanBuckets x y l =
     (if y < NUM_BUCKETS l x \<and> rung l x y = []
      then scanBuckets x (y + 1) (l\<lparr>rCur := (rCur l)(x := wrap32 (rCur l x + bucketWidth l x))\<rparr>) else (l, y))"
  by pat_completeness auto
termination
  by (relation "measure (\<lambda>(x, y, l). NUM_BUCKETS l x - y)") (auto simp: NUM_BUCKETS_def)

declare scanBuckets.simps [simp del]

text \<open>The loop that finds the first and the last bucket of the old rung after one of its buckets has become a rung.\<close>

function recalcRung :: "nat \<Rightarrow> nat \<Rightarrow> bool \<Rightarrow> ladder \<Rightarrow> ladder \<times> bool" where
  "recalcRung x y isRungNotEmpty l =
     (if y < NUM_BUCKETS l x then
        if rung l x y = [] then recalcRung x (y + 1) isRungNotEmpty l
        else recalcRung x (y + 1) True
          (l\<lparr>rCur := (if isRungNotEmpty then rCur l else (rCur l)(x := bucketStart l x y)), numBucket := (numBucket l)(x := y + 1)\<rparr>)
      else (l, isRungNotEmpty))"
  by pat_completeness auto
termination
  by (relation "measure (\<lambda>(x, y, b, l). NUM_BUCKETS l x - y)") (auto simp: NUM_BUCKETS_def)

declare recalcRung.simps [simp del]

definition splitOldRung :: "nat \<Rightarrow> nat \<Rightarrow> ladder \<Rightarrow> ladder" where
  "splitOldRung x y l = (case recalcRung x (y + 1) False l of (l1, isRungNotEmpty) \<Rightarrow>
     if isRungNotEmpty then l1 else l1\<lparr>numBucket := (numBucket l1)(x := 0), rCur := (rCur l1)(x := rStart l1 x)\<rparr>)"

lemma scanBuckets_frame [simp]:
  "lq_top (fst (scanBuckets x y l)) = lq_top l" "maxTS (fst (scanBuckets x y l)) = maxTS l" "minTS (fst (scanBuckets x y l)) = minTS l"
  "topStart (fst (scanBuckets x y l)) = topStart l" "rung (fst (scanBuckets x y l)) = rung l"
  "numRung0Buckets (fst (scanBuckets x y l)) = numRung0Buckets l" "nRung (fst (scanBuckets x y l)) = nRung l"
  "bucketWidth (fst (scanBuckets x y l)) = bucketWidth l" "numBucket (fst (scanBuckets x y l)) = numBucket l"
  "rStart (fst (scanBuckets x y l)) = rStart l" "bottom (fst (scanBuckets x y l)) = bottom l"
  by (induction x y l rule: scanBuckets.induct, subst scanBuckets.simps, simp)+

lemma scanBuckets_rCur: "z \<noteq> x \<Longrightarrow> rCur (fst (scanBuckets x y l)) z = rCur l z"
  by (induction x y l rule: scanBuckets.induct, subst scanBuckets.simps, simp)

lemma scanBuckets_step:
  assumes "y < NUM_BUCKETS l x" and "rung l x y = []"
  shows "scanBuckets x y l = scanBuckets x (y + 1) (l\<lparr>rCur := (rCur l)(x := wrap32 (rCur l x + bucketWidth l x))\<rparr>)"
  using assms by (subst scanBuckets.simps) simp

lemma scanBuckets_stop: "\<not> (y < NUM_BUCKETS l x \<and> rung l x y = []) \<Longrightarrow> scanBuckets x y l = (l, y)"
  by (subst scanBuckets.simps) (simp only: if_False)

lemma NUM_BUCKETS_rCur [simp]: "NUM_BUCKETS (l\<lparr>rCur := c\<rparr>) = NUM_BUCKETS l"
  by (simp add: NUM_BUCKETS_def fun_eq_iff)

lemma scanBuckets_bounds:
  "y \<le> NUM_BUCKETS l x \<Longrightarrow> y \<le> snd (scanBuckets x y l) \<and> snd (scanBuckets x y l) \<le> NUM_BUCKETS l x"
proof (induction x y l rule: scanBuckets.induct)
  case (1 x y l)
  show ?case
  proof (cases "y < NUM_BUCKETS l x \<and> rung l x y = []")
    case True
    then show ?thesis using 1(1) [OF True] by (simp add: scanBuckets_step)
  next
    case False
    then show ?thesis using 1(2) by (simp add: scanBuckets_stop)
  qed
qed

lemma scanBuckets_skips: "y \<le> j \<Longrightarrow> j < snd (scanBuckets x y l) \<Longrightarrow> rung l x j = []"
proof (induction x y l rule: scanBuckets.induct)
  case (1 x y l)
  show ?case
  proof (cases "y < NUM_BUCKETS l x \<and> rung l x y = []")
    case True
    show ?thesis
    proof (cases "j = y")
      case False
      then show ?thesis using 1(1) [OF True] 1(2,3) True by (simp add: scanBuckets_step)
    qed (use True in simp)
  next
    case False
    then show ?thesis using 1(2,3) by (simp add: scanBuckets_stop)
  qed
qed

lemma scanBuckets_found: "snd (scanBuckets x y l) < NUM_BUCKETS l x \<Longrightarrow> rung l x (snd (scanBuckets x y l)) \<noteq> []"
proof (induction x y l rule: scanBuckets.induct)
  case (1 x y l)
  show ?case
  proof (cases "y < NUM_BUCKETS l x \<and> rung l x y = []")
    case True
    then show ?thesis using 1(1) [OF True] 1(2) by (simp add: scanBuckets_step)
  next
    case False
    then show ?thesis using 1(2) by (simp add: scanBuckets_stop)
  qed
qed

lemma recalcRung_frame [simp]:
  "lq_top (fst (recalcRung x y b l)) = lq_top l" "maxTS (fst (recalcRung x y b l)) = maxTS l" "minTS (fst (recalcRung x y b l)) = minTS l"
  "topStart (fst (recalcRung x y b l)) = topStart l" "rung (fst (recalcRung x y b l)) = rung l"
  "numRung0Buckets (fst (recalcRung x y b l)) = numRung0Buckets l" "nRung (fst (recalcRung x y b l)) = nRung l"
  "bucketWidth (fst (recalcRung x y b l)) = bucketWidth l" "rStart (fst (recalcRung x y b l)) = rStart l"
  "bottom (fst (recalcRung x y b l)) = bottom l"
  by (induction x y b l rule: recalcRung.induct, subst recalcRung.simps, simp)+

lemma recalcRung_others:
  "z \<noteq> x \<Longrightarrow> rCur (fst (recalcRung x y b l)) z = rCur l z \<and> numBucket (fst (recalcRung x y b l)) z = numBucket l z"
  by (induction x y b l rule: recalcRung.induct, subst (1 2) recalcRung.simps, simp)

lemma splitOldRung_frame [simp]:
  "lq_top (splitOldRung x y l) = lq_top l" "maxTS (splitOldRung x y l) = maxTS l" "minTS (splitOldRung x y l) = minTS l"
  "topStart (splitOldRung x y l) = topStart l" "rung (splitOldRung x y l) = rung l"
  "numRung0Buckets (splitOldRung x y l) = numRung0Buckets l" "nRung (splitOldRung x y l) = nRung l"
  "bucketWidth (splitOldRung x y l) = bucketWidth l" "rStart (splitOldRung x y l) = rStart l" "bottom (splitOldRung x y l) = bottom l"
  by (simp_all add: splitOldRung_def case_prod_beta)

lemma NUM_BUCKETS_loops [simp]:
  "NUM_BUCKETS (fst (scanBuckets x y l)) = NUM_BUCKETS l" "NUM_BUCKETS (fst (recalcRung x y b l)) = NUM_BUCKETS l"
  "NUM_BUCKETS (splitOldRung x y l) = NUM_BUCKETS l"
  by (simp_all add: NUM_BUCKETS_def fun_eq_iff)

lemma pushBucket_SomeD:
  "pushBucket x y e l = Some l' \<Longrightarrow> x < 8 \<and> y < NUM_BUCKETS l x \<and> l' = setBucket x y (e # rung l x y) l"
  by (auto simp: pushBucket_def RUNG_def bind_eq_Some_conv split: if_splits)

lemma noteBucket_frame [simp]:
  "rung (noteBucket x y l) = rung l" "nRung (noteBucket x y l) = nRung l" "numRung0Buckets (noteBucket x y l) = numRung0Buckets l"
  "bucketWidth (noteBucket x y l) = bucketWidth l" "rStart (noteBucket x y l) = rStart l" "rCur (noteBucket x y l) = rCur l"
  "lq_top (noteBucket x y l) = lq_top l" "topStart (noteBucket x y l) = topStart l" "bottom (noteBucket x y l) = bottom l"
  "maxTS (noteBucket x y l) = maxTS l" "minTS (noteBucket x y l) = minTS l"
  "numBucket (noteBucket x y l) = (numBucket l)(x := max (numBucket l x) (y + 1))"
  by (auto simp: noteBucket_def max_def fun_eq_iff)

lemma setBucket_frame [simp]:
  "nRung (setBucket x y b l) = nRung l" "numRung0Buckets (setBucket x y b l) = numRung0Buckets l"
  "bucketWidth (setBucket x y b l) = bucketWidth l" "rStart (setBucket x y b l) = rStart l" "rCur (setBucket x y b l) = rCur l"
  "lq_top (setBucket x y b l) = lq_top l" "topStart (setBucket x y b l) = topStart l" "bottom (setBucket x y b l) = bottom l"
  "maxTS (setBucket x y b l) = maxTS l" "minTS (setBucket x y b l) = minTS l" "numBucket (setBucket x y b l) = numBucket l"
  "rung (setBucket x y b l) = (rung l)(x := (rung l x)(y := b))"
  by (simp_all add: setBucket_def)

lemma NUM_BUCKETS_frame [simp]: "NUM_BUCKETS (noteBucket x y l) = NUM_BUCKETS l" "NUM_BUCKETS (setBucket x y b l) = NUM_BUCKETS l"
  by (simp_all add: NUM_BUCKETS_def fun_eq_iff)

lemma spread_ConsE:
  assumes "spread idx x (e # es) l = Some l'"
  obtains y where "int (rStart l x) \<le> approxTime e" and "idx l x (approxTime e) = Some y" and "x < 8" and "y < NUM_BUCKETS l x"
    and "spread idx x es (noteBucket x y (setBucket x y (e # rung l x y) l)) = Some l'"
proof -
  have a: "int (rStart l x) \<le> approxTime e" using assms by (simp split: if_splits)
  then obtain y where y: "idx l x (approxTime e) = Some y" using assms by (cases "idx l x (approxTime e)") simp_all
  then obtain l1 where l1: "pushBucket x y e l = Some l1" using assms a by (cases "pushBucket x y e l") simp_all
  show ?thesis using that [OF a y] pushBucket_SomeD [OF l1] assms a y l1 by simp
qed

lemma spread_frame:
  assumes "spread idx x es l = Some l'"
  shows "lq_top l' = lq_top l \<and> maxTS l' = maxTS l \<and> minTS l' = minTS l \<and> topStart l' = topStart l \<and>
    numRung0Buckets l' = numRung0Buckets l \<and> nRung l' = nRung l \<and> bucketWidth l' = bucketWidth l \<and>
    rStart l' = rStart l \<and> rCur l' = rCur l \<and> bottom l' = bottom l \<and> NUM_BUCKETS l' = NUM_BUCKETS l \<and>
    (\<forall>z. z \<noteq> x \<longrightarrow> rung l' z = rung l z \<and> numBucket l' z = numBucket l z)"
  using assms
proof (induction es arbitrary: l)
  case (Cons e es)
  from Cons.prems show ?case
  proof (rule spread_ConsE)
    fix y assume "spread idx x es (noteBucket x y (setBucket x y (e # rung l x y) l)) = Some l'"
    from Cons.IH [OF this] show ?thesis by simp
  qed
qed simp

text \<open>Spread events stay in their rung.\<close>

lemma spread_keeps: "spread idx x es l = Some l' \<Longrightarrow> rung l x y \<noteq> [] \<Longrightarrow> rung l' x y \<noteq> []"
proof (induction es arbitrary: l)
  case (Cons e es)
  from Cons.prems(1) obtain z where z: "spread idx x es (noteBucket x z (setBucket x z (e # rung l x z) l)) = Some l'"
    by (rule spread_ConsE)
  show ?case using Cons.IH [OF z] Cons.prems(2) by (cases "z = y") simp_all
qed simp

lemma spread_not_empty:
  assumes "spread idx x es l = Some l'" and "es \<noteq> []"
  shows "\<exists>y < NUM_BUCKETS l x. rung l' x y \<noteq> []"
proof -
  obtain e es' where es: "es = e # es'" using assms(2) by (cases es) simp_all
  obtain z where z: "z < NUM_BUCKETS l x" "spread idx x es' (noteBucket x z (setBucket x z (e # rung l x z) l)) = Some l'"
    using assms(1) [unfolded es] by (rule spread_ConsE)
  show ?thesis using spread_keeps [OF z(2), of z] z(1) by auto
qed

lemma dropRung_frame [simp]:
  "lq_top (dropRung l) = lq_top l" "maxTS (dropRung l) = maxTS l" "minTS (dropRung l) = minTS l" "topStart (dropRung l) = topStart l"
  "numRung0Buckets (dropRung l) = numRung0Buckets l" "nRung (dropRung l) = nRung l - 1" "rung (dropRung l) = rung l"
  "bottom (dropRung l) = bottom l" "NUM_BUCKETS (dropRung l) = NUM_BUCKETS l"
  by (simp_all add: dropRung_def Let_def NUM_BUCKETS_def fun_eq_iff)

definition findBucket :: "ladder \<Rightarrow> ladder \<times> nat" where
  "findBucket l = scanBuckets (nRung l - 1) 0 (l\<lparr>rCur := (rCur l)(nRung l - 1 := rStart l (nRung l - 1))\<rparr>)"

lemma findBucket_frame:
  assumes "findBucket l = (l1, y)"
  shows "lq_top l1 = lq_top l \<and> maxTS l1 = maxTS l \<and> minTS l1 = minTS l \<and> topStart l1 = topStart l \<and>
    numRung0Buckets l1 = numRung0Buckets l \<and> nRung l1 = nRung l \<and> bucketWidth l1 = bucketWidth l \<and> numBucket l1 = numBucket l \<and>
    rStart l1 = rStart l \<and> bottom l1 = bottom l \<and> rung l1 = rung l \<and> NUM_BUCKETS l1 = NUM_BUCKETS l \<and>
    (\<forall>z. z \<noteq> nRung l - 1 \<longrightarrow> rCur l1 z = rCur l z)"
proof -
  have "l1 = fst (findBucket l)" using assms by simp
  then show ?thesis by (simp add: findBucket_def scanBuckets_rCur)
qed

lemma findBucket_index:
  assumes "findBucket l = (l1, y)"
  shows "y \<le> NUM_BUCKETS l (nRung l - 1)" and "\<And>j. j < y \<Longrightarrow> rung l (nRung l - 1) j = []"
    and "y < NUM_BUCKETS l (nRung l - 1) \<Longrightarrow> rung l (nRung l - 1) y \<noteq> []"
proof -
  let ?l = "l\<lparr>rCur := (rCur l)(nRung l - 1 := rStart l (nRung l - 1))\<rparr>"
  have y: "y = snd (scanBuckets (nRung l - 1) 0 ?l)" using assms by (simp add: findBucket_def)
  show "y \<le> NUM_BUCKETS l (nRung l - 1)" using scanBuckets_bounds [of 0 ?l "nRung l - 1"] y by simp
  show "rung l (nRung l - 1) j = []" if "j < y" for j using scanBuckets_skips [of 0 j "nRung l - 1" ?l] y that by simp
  show "rung l (nRung l - 1) y \<noteq> []" if "y < NUM_BUCKETS l (nRung l - 1)"
    using scanBuckets_found [of "nRung l - 1" 0 ?l] y that by simp
qed

definition rungEmpty :: "ladder \<Rightarrow> nat \<Rightarrow> bool" where
  "rungEmpty l x \<longleftrightarrow> (\<forall>y < NUM_BUCKETS l x. rung l x y = [])"

text \<open>The loop of \<open>recurse_rung\<close> gives up empty rungs, then splits buckets until one is small enough.\<close>

definition splitBucket :: "nat \<Rightarrow> ladder \<Rightarrow> ladder option" where
  "splitBucket y l = do {
     l1 \<leftarrow> spread bucketFor (nRung l - 1) (rung l (nRung l - 2) y) l;
     Some (splitOldRung (nRung l - 2) y (setBucket (nRung l - 2) y [] l1)) }"

function recurse_rung :: "ladder \<Rightarrow> (ladder \<times> nat option) option" where
  "recurse_rung l =
     (if nRung l = 0 \<or> MAX_RUNG_NUM < nRung l then Some (l, None)
      else (case findBucket l of (l1, bucketIndex) \<Rightarrow>
        if NUM_BUCKETS l1 (nRung l1 - 1) = bucketIndex then recurse_rung (dropRung l1)
        else if THRESHOLD < length (rung l1 (nRung l1 - 1) bucketIndex) then
          (case create_new_rung (length (rung l1 (nRung l1 - 1) bucketIndex)) (rCur l1 (nRung l1 - 1)) l1 of
             (l2, isBucketWidthStatic, created) \<Rightarrow>
               if \<not> created then Some (l2, if isBucketWidthStatic then bucketResult bucketIndex else None)
               else (case splitBucket bucketIndex l2 of None \<Rightarrow> None | Some l3 \<Rightarrow> recurse_rung l3))
        else Some (l1, bucketResult bucketIndex)))"
  by pat_completeness auto


definition recursionRank :: "ladder \<Rightarrow> nat" where
  "recursionRank l = (if nRung l = 0 \<or> 8 < nRung l then 0 else if rungEmpty l (nRung l - 1) then 100 + nRung l else 9 - nRung l)"

lemma recursionRank_drop:
  assumes "nRung l \<noteq> 0" and "nRung l \<le> 8" and "rungEmpty l (nRung l - 1)"
  shows "recursionRank (dropRung l) < recursionRank l"
proof -
  have "recursionRank (dropRung l) \<le> 100 + (nRung l - 1)" using assms(1) by (simp add: recursionRank_def) linarith
  moreover have "recursionRank l = 100 + nRung l" using assms by (simp add: recursionRank_def)
  ultimately show ?thesis using assms(1) by linarith
qed

lemma splitBucket_SomeE:
  assumes "splitBucket y l = Some l'"
  obtains l1 where "spread bucketFor (nRung l - 1) (rung l (nRung l - 2) y) l = Some l1"
    and "l' = splitOldRung (nRung l - 2) y (setBucket (nRung l - 2) y [] l1)"
proof (cases "spread bucketFor (nRung l - 1) (rung l (nRung l - 2) y) l")
  case None
  then show ?thesis using assms by (simp add: splitBucket_def)
next
  case (Some l1)
  then show ?thesis using assms that by (simp add: splitBucket_def)
qed

lemma splitBucket_frame:
  assumes "splitBucket y l = Some l'"
  shows "nRung l' = nRung l \<and> NUM_BUCKETS l' = NUM_BUCKETS l"
  using assms
proof (rule splitBucket_SomeE)
  fix l1 assume "spread bucketFor (nRung l - 1) (rung l (nRung l - 2) y) l = Some l1"
    and "l' = splitOldRung (nRung l - 2) y (setBucket (nRung l - 2) y [] l1)"
  then show ?thesis using spread_frame by simp
qed

lemma splitBucket_not_empty:
  assumes "splitBucket y l = Some l'" and "rung l (nRung l - 2) y \<noteq> []" and "2 \<le> nRung l"
  shows "\<not> rungEmpty l' (nRung l' - 1)"
proof -
  obtain l1 where l1: "spread bucketFor (nRung l - 1) (rung l (nRung l - 2) y) l = Some l1"
    "l' = splitOldRung (nRung l - 2) y (setBucket (nRung l - 2) y [] l1)"
    using assms(1) by (rule splitBucket_SomeE)
  have "nRung l - 2 \<noteq> nRung l - 1" using assms(3) by simp
  then have "rung l' (nRung l - 1) = rung l1 (nRung l - 1)" using l1(2) by simp
  then show ?thesis using spread_not_empty [OF l1(1) assms(2)] splitBucket_frame [OF assms(1)] by (auto simp: rungEmpty_def)
qed

lemma create_new_rung_lower:
  assumes "create_new_rung n v l = (l', st, True)" and "nRung l \<noteq> 0"
  shows "nRung l' = nRung l + 1 \<and> nRung l < 8 \<and> rung l' = rung l"
  using assms by (simp add: create_new_rung_def Let_def split: if_splits) auto

lemma recursionRank_split:
  assumes "create_new_rung (length (rung l1 (nRung l1 - 1) y)) v l1 = (l2, st, True)" and "splitBucket y l2 = Some l3"
    and "rung l1 (nRung l1 - 1) y \<noteq> []" and "y < NUM_BUCKETS l1 (nRung l1 - 1)" and "nRung l1 \<noteq> 0"
  shows "recursionRank l3 < recursionRank l1"
proof -
  have n: "nRung l2 = nRung l1 + 1" "nRung l1 < 8" "rung l2 = rung l1" using create_new_rung_lower [OF assms(1,5)] by simp_all
  have "\<not> rungEmpty l3 (nRung l3 - 1)" "nRung l3 = nRung l1 + 1"
    using splitBucket_not_empty [OF assms(2)] splitBucket_frame [OF assms(2)] assms(3,5) n by simp_all
  then have "recursionRank l3 = 8 - nRung l1" using n(2) by (simp add: recursionRank_def)
  moreover have "\<not> rungEmpty l1 (nRung l1 - 1)" using assms(3,4) by (auto simp: rungEmpty_def)
  then have "recursionRank l1 = 9 - nRung l1" using n(2) assms(5) by (simp add: recursionRank_def)
  ultimately show ?thesis using n(2) by linarith
qed

lemma recursionRank_findBucket:
  assumes "findBucket l = (l1, y)"
  shows "recursionRank l1 = recursionRank l"
proof -
  have "rungEmpty l1 = rungEmpty l" using findBucket_frame [OF assms] by (simp add: rungEmpty_def fun_eq_iff)
  then show ?thesis using findBucket_frame [OF assms] by (simp add: recursionRank_def)
qed

termination recurse_rung
proof (relation "measure recursionRank", goal_cases)
  case (2 l l1 y)
  have f: "findBucket l = (l1, y)" using 2(2) by simp
  have "rungEmpty l1 (nRung l1 - 1)"
    using findBucket_index(2) [OF f] findBucket_frame [OF f] 2(3) by (simp add: rungEmpty_def)
  then have "recursionRank (dropRung l1) < recursionRank l1"
    using recursionRank_drop [of l1] findBucket_frame [OF f] 2(1) by simp
  then show ?case using recursionRank_findBucket [OF f] by simp
next
  case (3 l l1 y l2 p st created l3)
  have f: "findBucket l = (l1, y)" using 3(2) by simp
  have y: "y < NUM_BUCKETS l1 (nRung l1 - 1)" using findBucket_index(1) [OF f] findBucket_frame [OF f] 3(3) by simp
  have "rung l1 (nRung l1 - 1) y \<noteq> []" using 3(4) by auto
  moreover have "create_new_rung (length (rung l1 (nRung l1 - 1) y)) (rCur l1 (nRung l1 - 1)) l1 = (l2, st, True)" using 3(5,6,7) by simp
  moreover have "nRung l1 \<noteq> 0" using 3(1) findBucket_frame [OF f] by simp
  ultimately have "recursionRank l3 < recursionRank l1" using recursionRank_split [OF _ 3(8) _ y] by blast
  then show ?case using recursionRank_findBucket [OF f] by simp
qed simp

declare recurse_rung.simps [simp del]

subsection \<open>The queue\<close>

definition moveToBottom :: "nat \<Rightarrow> nat \<Rightarrow> ladder \<Rightarrow> ladder option" where
  "moveToBottom x y l = do {
     b \<leftarrow> RUNG l x y;
     Some (setBucket x y [] (l\<lparr>bottom := ms_insert_range receiveTimeLessThanEventIdLessThan b (bottom l)\<rparr>)) }"

text \<open>The two loops of \<open>begin\<close> after a bucket has been moved: to the next bucket with events, and to the next rung with events.\<close>

function nextBucket :: "nat \<Rightarrow> nat \<Rightarrow> ladder \<Rightarrow> nat option" where
  "nextBucket x y l =
     (if y + 1 < numBucket l x then
        (case RUNG l x (y + 1) of None \<Rightarrow> None | Some b \<Rightarrow> if b = [] then nextBucket x (y + 1) l else Some (y + 1))
      else Some (y + 1))"
  by pat_completeness auto
termination
  by (relation "measure (\<lambda>(x, y, l). numBucket l x - y)") auto

function dropRungs :: "ladder \<Rightarrow> ladder" where
  "dropRungs l = (if nRung (dropRung l) \<noteq> 0 \<and> numBucket (dropRung l) (nRung (dropRung l) - 1) = 0
     then dropRungs (dropRung l) else dropRung l)"
  by pat_completeness auto
termination
  by (relation "measure nRung") auto

declare nextBucket.simps [simp del] dropRungs.simps [simp del]

text \<open>The events of a bucket go to the bottom, when the rung was there before and when it has just been made from the top.\<close>

definition takeBucket :: "nat \<Rightarrow> ladder \<Rightarrow> (ladder \<times> lq_event option) option" where
  "takeBucket y l = (let r = nRung l - 1 in do {
     l1 \<leftarrow> moveToBottom r y l;
     if numBucket l1 r = y + 1 then (let l2 = dropRungs l1 in Some (l2, ms_front (bottom l2)))
     else do {
       z \<leftarrow> nextBucket r y l1;
       if z < numBucket l1 r then (let l2 = l1\<lparr>rCur := (rCur l1)(r := bucketStart l1 r z)\<rparr> in Some (l2, ms_front (bottom l2)))
       else Some (dropRung l1, None) } })"

definition takeBucketOfTop :: "nat \<Rightarrow> ladder \<Rightarrow> (ladder \<times> lq_event option) option" where
  "takeBucketOfTop y l = (let r = nRung l - 1 in do {
     l1 \<leftarrow> moveToBottom r y l;
     l2 \<leftarrow> (if numBucket l1 r = y + 1 then Some (dropRung l1)
       else do {
         z \<leftarrow> nextBucket r y l1;
         Some (if z < numBucket l1 r then l1\<lparr>rCur := (rCur l1)(r := bucketStart l1 r z)\<rparr> else dropRung l1) });
     Some (l2, ms_front (bottom l2)) })"

definition beginTop :: "ladder \<Rightarrow> (ladder \<times> lq_event option) option" where
  "beginTop l =
     (if lq_top l = [] then Some (l, None)
      else case create_new_rung (length (lq_top l)) (minTS l) l of (l1, _, created) \<Rightarrow>
        if \<not> created then Some (l1, None)
        else do {
          l2 \<leftarrow> spread bucketFor 0 (lq_top l1) l1;
          (l3, bucketIndex) \<leftarrow> recurse_rung (l2\<lparr>lq_top := []\<rparr>);
          (case bucketIndex of None \<Rightarrow> Some (l3, None) | Some y \<Rightarrow> takeBucketOfTop y l3) })"

definition lq_begin :: "ladder \<Rightarrow> (ladder \<times> lq_event option) option" where
  "lq_begin l =
     (if \<not> ms_isEmpty (bottom l) then Some (l, ms_front (bottom l))
      else if nRung l > 0 then do {
        (l1, bucketIndex) \<leftarrow> recurse_rung l;
        if nRung l1 > 0 then (case bucketIndex of None \<Rightarrow> Some (l1, None) | Some y \<Rightarrow> takeBucket y l1)
        else beginTop l1 }
      else beginTop l)"

definition lq_clear :: "ladder \<Rightarrow> ladder" where
  "lq_clear l = l\<lparr>maxTS := 0, minTS := 0, topStart := 0, lq_top := [],
     bucketWidth := (\<lambda>x. if x < MAX_RUNG_NUM then 0 else bucketWidth l x), rStart := (\<lambda>x. if x < MAX_RUNG_NUM then 0 else rStart l x),
     rCur := (\<lambda>x. if x < MAX_RUNG_NUM then 0 else rCur l x), numBucket := (\<lambda>x. if x < MAX_RUNG_NUM then 0 else numBucket l x),
     rung := (\<lambda>x y. if x < MAX_RUNG_NUM \<and> y < NUM_BUCKETS l x then [] else rung l x y),
     nRung := 0, bottom := ms_clear (bottom l)\<rparr>"

definition lq_dequeue :: "ladder \<Rightarrow> (ladder \<times> lq_event option) option" where
  "lq_dequeue l = do {
     (l1, retVal) \<leftarrow> lq_begin l;
     (case retVal of None \<Rightarrow> Some (l1, None)
      | Some e \<Rightarrow> do {
          b \<leftarrow> ms_erase (ms_begin (bottom l1)) (bottom l1);
          Some (l1\<lparr>bottom := b\<rparr>, Some e) }) }"

definition lq_empty :: "ladder \<Rightarrow> bool" where
  "lq_empty l \<longleftrightarrow> nRung l = 0 \<and> lq_top l = [] \<and> ms_isEmpty (bottom l)"

text \<open>The first rung, from \<open>x\<close> on, whose current time is not after the given one.\<close>

function findRung :: "nat \<Rightarrow> int \<Rightarrow> ladder \<Rightarrow> nat" where
  "findRung x t l = (if x < nRung l \<and> t < int (rCur l x) then findRung (x + 1) t l else x)"
  by pat_completeness auto
termination
  by (relation "measure (\<lambda>(x, t, l). nRung l - x)") auto

declare findRung.simps [simp del]

text \<open>The loop that lowers \<open>numBucket\<close> after the last bucket has become empty.\<close>

fun lowerNumBucket :: "nat \<Rightarrow> nat \<Rightarrow> ladder \<Rightarrow> ladder option" where
  "lowerNumBucket x 0 l = Some (l\<lparr>numBucket := (numBucket l)(x := 0), rCur := (rCur l)(x := rStart l x)\<rparr>)"
| "lowerNumBucket x (Suc y) l = do {
     b \<leftarrow> RUNG l x y;
     if b = [] then lowerNumBucket x y l
     else Some (if int y \<noteq> INVALID then l\<lparr>numBucket := (numBucket l)(x := y + 1)\<rparr> else l) }"

definition sameEvent :: "lq_event \<Rightarrow> lq_event \<Rightarrow> bool" where
  "sameEvent e x \<longleftrightarrow> eventPtr x = eventPtr e"

definition eraseFromRung :: "nat \<Rightarrow> lq_event \<Rightarrow> ladder \<Rightarrow> ladder option" where
  "eraseFromRung x delEvent l = do {
     y \<leftarrow> bucketFor l x (approxTime delEvent);
     b \<leftarrow> RUNG l x y;
     (if b = [] then Some l
      else let b' = remove_first (sameEvent delEvent) b; l1 = setBucket x y b' l in
        if b' = [] \<and> numBucket l1 x = y + 1 then lowerNumBucket x y l1 else Some l1) }"

definition bottomErase :: "lq_event \<Rightarrow> ladder \<Rightarrow> ladder" where
  "bottomErase delEvent l = l\<lparr>bottom := (bottom l)\<lparr>nodes := filter (\<lambda>n. receiveTimeLessThanEventIdLessThan (snd n) delEvent \<or>
     receiveTimeLessThanEventIdLessThan delEvent (snd n)) (nodes (bottom l))\<rparr>\<rparr>"

definition lq_erase :: "lq_event \<Rightarrow> ladder \<Rightarrow> ladder option" where
  "lq_erase delEvent l =
     (if lq_top l \<noteq> [] \<and> int (topStart l) < approxTime delEvent
      then Some (l\<lparr>lq_top := remove_first (sameEvent delEvent) (lq_top l)\<rparr>)
      else let x = findRung 0 (approxTime delEvent) l in
        if x < nRung l then eraseFromRung x delEvent l
        else Some (if \<not> ms_isEmpty (bottom l) then bottomErase delEvent l else l))"

definition insertTop :: "lq_event \<Rightarrow> ladder \<Rightarrow> ladder" where
  "insertTop newEvent l = (let t = approxTime newEvent in
     (if lq_top l = [] then l\<lparr>maxTS := uint32 t, minTS := uint32 t\<rparr>
      else l\<lparr>minTS := (if int (minTS l) > t then uint32 t else minTS l), maxTS := (if int (maxTS l) < t then uint32 t else maxTS l)\<rparr>)
     \<lparr>lq_top := newEvent # lq_top l\<rparr>)"

definition insertRung :: "(ladder \<Rightarrow> nat \<Rightarrow> int \<Rightarrow> nat option) \<Rightarrow> nat \<Rightarrow> lq_event \<Rightarrow> ladder \<Rightarrow> ladder option" where
  "insertRung idx x newEvent l =
     (if approxTime newEvent \<ge> int (rStart l x) then do {
        y \<leftarrow> idx l x (approxTime newEvent);
        pushBucket x y newEvent (lowerCur x y (noteBucket x y l)) } else None)"

definition bottomInsert :: "lq_event \<Rightarrow> ladder \<Rightarrow> ladder" where
  "bottomInsert newEvent l = l\<lparr>bottom := fst (ms_insert receiveTimeLessThanEventIdLessThan newEvent (bottom l))\<rparr>"

text \<open>A bottom that has grown too long becomes a rung.\<close>

definition bottomToRung :: "lq_event \<Rightarrow> ladder \<Rightarrow> ladder option" where
  "bottomToRung newEvent l = do {
     e \<leftarrow> ms_front (bottom l);
     let uiBucketStartVal = uint32 (approxTime e);
     let start = (if int uiBucketStartVal > approxTime newEvent then uint32 (approxTime newEvent) else uiBucketStartVal);
     l1 \<leftarrow> create_rung_for_bottom_transfer start l;
     l2 \<leftarrow> spread bucketForBottom (nRung l1 - 1) (ms_vals (bottom l1)) l1;
     insertRung bucketForBottom (nRung l2 - 1) newEvent (l2\<lparr>bottom := ms_clear (bottom l2)\<rparr>) }"

definition lq_insert :: "lq_event \<Rightarrow> ladder \<Rightarrow> ladder option" where
  "lq_insert newEvent l =
     (if approxTime newEvent > int (topStart l) then Some (insertTop newEvent l)
      else let x = findRung 0 (approxTime newEvent) l in
        if x < nRung l then insertRung bucketFor x newEvent l
        else if THRESHOLD \<le> bottomSize l then
          if nRung l \<ge> MAX_RUNG_NUM then Some (bottomInsert newEvent l) else bottomToRung newEvent l
        else Some (bottomInsert newEvent l))"

end
