(* ===== verification/LadderInvariant.thy ===== *)
theory LadderInvariant
  imports LadderQueue
begin

text \<open>
  The invariant of the ladder queue: every event lies in the bucket that its time selects, \<open>numBucket\<close> ends at the last bucket with an event and
  \<open>rCur\<close> is the start of a bucket and not after any event of its rung. The order between the rungs and the bottom is a separate predicate,
  because not every operation keeps it.
\<close>

subsection \<open>Times\<close>

definition tm :: "lq_event \<Rightarrow> nat" where
  "tm e = nat (approxTime e)"

definition timed :: "lq_event \<Rightarrow> bool" where
  "timed e \<longleftrightarrow> 0 \<le> approxTime e"

lemma approxTime_tm: "timed e \<Longrightarrow> approxTime e = int (tm e)"
  by (simp add: timed_def tm_def)

lemma tm_less: "tm e < 2 ^ 31"
  using sint_int_range [of "getTime (receiveTime e)"]
  by (simp add: tm_def approxTime_def getApproximateIntTime_def int_range_def nat_less_iff) linarith

lemma tm_receiveTime: "timed e \<Longrightarrow> timed f \<Longrightarrow> tm e \<le> tm f \<longleftrightarrow> receiveTime e \<le> receiveTime f"
  by (simp add: timed_def tm_def approxTime_def getApproximateIntTime_def less_eq_intvtime_iff nat_le_eq_zle)

lemma uint32_int [simp]: "n < 2 ^ 32 \<Longrightarrow> uint32 (int n) = n"
  by (simp add: uint32_def)

lemma wrap32_id [simp]: "n < 2 ^ 32 \<Longrightarrow> wrap32 n = n"
  by (simp add: wrap32_def)

lemma wrap32_add: "wrap32 (wrap32 a + b) = wrap32 (a + b)"
  by (simp add: wrap32_def nat_int_add flip: nat_mod_distrib zmod_int) (metis mod_add_left_eq of_nat_add)

subsection \<open>Contents\<close>

definition rungEvents :: "ladder \<Rightarrow> nat \<Rightarrow> lq_event multiset" where
  "rungEvents l x = (\<Sum>y<NUM_BUCKETS l x. mset (rung l x y))"

definition rungsEvents :: "ladder \<Rightarrow> lq_event multiset" where
  "rungsEvents l = (\<Sum>x<8. rungEvents l x)"

definition contents :: "ladder \<Rightarrow> lq_event multiset" where
  "contents l = mset (lq_top l) + rungsEvents l + mset (ms_vals (bottom l))"

lemma sum_update:
  fixes f :: "nat \<Rightarrow> 'a multiset"
  assumes "a < n"
  shows "(\<Sum>x<n. (f(a := v)) x) + f a = (\<Sum>x<n. f x) + v"
proof -
  have "(\<Sum>x<n. g x) = g a + (\<Sum>x\<in>{..<n} - {a}. g x)" for g :: "nat \<Rightarrow> 'a multiset"
    using assms by (intro sum.remove) simp_all
  moreover have "(\<Sum>x\<in>{..<n} - {a}. (f(a := v)) x) = (\<Sum>x\<in>{..<n} - {a}. f x)" by (rule sum.cong) simp_all
  ultimately show ?thesis by simp
qed

lemma mset_exchange:
  fixes a :: "'a multiset"
  assumes "a + c = b + d" and "d + m = c + n"
  shows "a + m = b + n"
proof -
  have "(a + c) + (d + m) = (b + d) + (c + n)" using assms by simp
  then show ?thesis by (simp add: ac_simps)
qed

lemma rungsEvents_setBucket:
  assumes "x < 8" and "y < NUM_BUCKETS l x"
  shows "rungsEvents (setBucket x y b l) + mset (rung l x y) = rungsEvents l + mset b"
proof -
  have r: "rungEvents (setBucket x y b l) x + mset (rung l x y) = rungEvents l x + mset b"
  proof -
    have "mset (((rung l x)(y := b)) z) = ((\<lambda>z. mset (rung l x z))(y := mset b)) z" for z by simp
    then show ?thesis using sum_update [OF assms(2), of "\<lambda>z. mset (rung l x z)" "mset b"] by (simp add: rungEvents_def)
  qed
  have "rungEvents (setBucket x y b l) = (rungEvents l)(x := rungEvents (setBucket x y b l) x)"
    by (simp add: rungEvents_def fun_eq_iff)
  then have "rungsEvents (setBucket x y b l) + rungEvents l x = rungsEvents l + rungEvents (setBucket x y b l) x"
    using sum_update [OF assms(1), of "rungEvents l" "rungEvents (setBucket x y b l) x"] by (simp add: rungsEvents_def)
  from mset_exchange [OF this r] show ?thesis .
qed

lemma rungsEvents_cong: "rung l' = rung l \<Longrightarrow> NUM_BUCKETS l' = NUM_BUCKETS l \<Longrightarrow> rungsEvents l' = rungsEvents l"
  by (simp add: rungsEvents_def rungEvents_def)

lemma rungsEvents_push:
  assumes "x < 8" and "y < NUM_BUCKETS l x"
  shows "rungsEvents (noteBucket x y (setBucket x y (e # rung l x y) l)) = add_mset e (rungsEvents l)"
proof -
  have "rungsEvents (noteBucket x y (setBucket x y (e # rung l x y) l)) = rungsEvents (setBucket x y (e # rung l x y) l)"
    by (rule rungsEvents_cong) simp_all
  then show ?thesis using rungsEvents_setBucket [OF assms, of "e # rung l x y"] by simp
qed

lemma spread_contents: "spread idx x es l = Some l' \<Longrightarrow> rungsEvents l' = rungsEvents l + mset es"
proof (induction es arbitrary: l)
  case (Cons e es)
  from Cons.prems show ?case
  proof (rule spread_ConsE)
    fix y assume "x < 8" "y < NUM_BUCKETS l x" "spread idx x es (noteBucket x y (setBucket x y (e # rung l x y) l)) = Some l'"
    then show ?thesis using Cons.IH rungsEvents_push [of x y l e] by simp
  qed
qed simp

lemma spread_new: "spread idx x es l = Some l' \<Longrightarrow> e \<in> set (rung l' x z) \<Longrightarrow> e \<in> set (rung l x z) \<or> e \<in> set es"
proof (induction es arbitrary: l)
  case (Cons f es)
  from Cons.prems(1) obtain y where "spread idx x es (noteBucket x y (setBucket x y (f # rung l x y) l)) = Some l'" by (rule spread_ConsE)
  from Cons.IH [OF this Cons.prems(2)] show ?case by (cases "z = y"; simp; blast)
qed simp

lemma rungsEvents_member:
  "e \<in># rungsEvents l \<longleftrightarrow> (\<exists>x<8. \<exists>y<NUM_BUCKETS l x. e \<in> set (rung l x y))"
  by (simp add: rungsEvents_def rungEvents_def set_mset_sum) blast

lemma rungsEvents_none: "(\<And>x y. x < 8 \<Longrightarrow> y < NUM_BUCKETS l x \<Longrightarrow> rung l x y = []) \<Longrightarrow> rungsEvents l = {#}"
  by (simp add: rungsEvents_def rungEvents_def)

lemma bucket_subset:
  assumes "x < 8" and "y < NUM_BUCKETS l x"
  shows "mset (rung l x y) \<subseteq># rungsEvents l"
proof -
  have "mset (rung l x y) \<subseteq># rungEvents l x" unfolding rungEvents_def
    using assms(2) sum.remove [of "{..<NUM_BUCKETS l x}" y "\<lambda>y. mset (rung l x y)"] by simp
  also have "\<dots> \<subseteq># rungsEvents l" unfolding rungsEvents_def
    using assms(1) sum.remove [of "{..<8}" x "rungEvents l"] by simp
  finally show ?thesis .
qed

lemma bucket_size: "x < 8 \<Longrightarrow> y < NUM_BUCKETS l x \<Longrightarrow> length (rung l x y) \<le> size (rungsEvents l)"
  using size_mset_mono [OF bucket_subset] by simp

subsection \<open>A rung\<close>

definition width :: "ladder \<Rightarrow> nat \<Rightarrow> bool" where
  "width l x \<longleftrightarrow> 0 < bucketWidth l x \<and> bucketWidth l x \<le> 2 ^ 31"

definition bucketOf :: "ladder \<Rightarrow> nat \<Rightarrow> nat \<Rightarrow> nat" where
  "bucketOf l x t = min ((t - rStart l x) div bucketWidth l x) (NUM_BUCKETS l x - 1)"

definition placed :: "ladder \<Rightarrow> nat \<Rightarrow> bool" where
  "placed l x \<longleftrightarrow> (\<forall>y. \<forall>e \<in> set (rung l x y). y < NUM_BUCKETS l x \<and> timed e \<and> rStart l x \<le> tm e \<and> y = bucketOf l x (tm e))"

definition counted :: "ladder \<Rightarrow> nat \<Rightarrow> bool" where
  "counted l x \<longleftrightarrow> (\<forall>y \<ge> numBucket l x. rung l x y = []) \<and> (0 < numBucket l x \<longrightarrow> rung l x (numBucket l x - 1) \<noteq> [])"

definition started :: "ladder \<Rightarrow> nat \<Rightarrow> bool" where
  "started l x \<longleftrightarrow> rCur l x < 2 ^ 31 \<and>
     (\<exists>k<NUM_BUCKETS l x. rCur l x = rStart l x + k * bucketWidth l x \<and> (\<forall>y<k. rung l x y = []))"

definition rung_ok :: "ladder \<Rightarrow> nat \<Rightarrow> bool" where
  "rung_ok l x \<longleftrightarrow> width l x \<and> placed l x \<and> counted l x \<and> started l x"

lemma bucketOf_frame [simp]: "bucketOf (noteBucket z y l) = bucketOf l" "bucketOf (setBucket z y b l) = bucketOf l"
  by (simp_all add: bucketOf_def fun_eq_iff)

lemmas rung_defs = width_def bucketOf_def placed_def counted_def started_def

lemma rung_ok_cong:
  assumes "rung l' x = rung l x" and "NUM_BUCKETS l' x = NUM_BUCKETS l x" and "bucketWidth l' x = bucketWidth l x"
    and "numBucket l' x = numBucket l x" and "rStart l' x = rStart l x" and "rCur l' x = rCur l x"
  shows "rung_ok l' x = rung_ok l x"
  using assms by (simp add: rung_ok_def rung_defs)

lemma placedD:
  assumes "placed l x" and "e \<in> set (rung l x y)"
  shows "y < NUM_BUCKETS l x" and "timed e" and "rStart l x \<le> tm e" and "y = bucketOf l x (tm e)"
  using assms unfolding placed_def by blast+

lemma bucketOf_start:
  assumes "width l x" and "rStart l x \<le> t"
  shows "rStart l x + bucketOf l x t * bucketWidth l x \<le> t"
proof -
  have "bucketOf l x t * bucketWidth l x \<le> (t - rStart l x) div bucketWidth l x * bucketWidth l x"
    by (rule mult_le_mono1) (simp add: bucketOf_def)
  also have "\<dots> \<le> t - rStart l x" by simp
  finally show ?thesis using assms(2) by linarith
qed

lemma bucketOf_end:
  assumes "width l x" and "bucketOf l x t < NUM_BUCKETS l x - 1"
  shows "t < rStart l x + (bucketOf l x t + 1) * bucketWidth l x"
proof -
  have "bucketOf l x t = (t - rStart l x) div bucketWidth l x" using assms(2) by (simp add: bucketOf_def)
  moreover have "t - rStart l x < ((t - rStart l x) div bucketWidth l x + 1) * bucketWidth l x"
    using assms(1) by (simp add: width_def dividend_less_div_times)
  ultimately show ?thesis by simp
qed

lemma bucketOf_mono:
  assumes "width l x" and "rStart l x + k * bucketWidth l x \<le> t" and "k < NUM_BUCKETS l x"
  shows "k \<le> bucketOf l x t"
proof -
  have "k * bucketWidth l x div bucketWidth l x \<le> (t - rStart l x) div bucketWidth l x"
    using assms(2) by (intro div_le_mono) linarith
  then have "k \<le> (t - rStart l x) div bucketWidth l x" using assms(1) by (simp add: width_def)
  then show ?thesis using assms(3) by (simp add: bucketOf_def)
qed

lemma bucketFor_event:
  assumes "width l x" and "timed e" and "rStart l x \<le> tm e"
  shows "bucketFor l x (approxTime e) = Some (bucketOf l x (tm e))" and "bucketForBottom l x (approxTime e) = Some (bucketOf l x (tm e))"
proof -
  have d: "approxTime e - int (rStart l x) = int (tm e - rStart l x)" using assms(2,3) by (simp add: approxTime_tm of_nat_diff)
  have u: "uint32 (int (tm e - rStart l x)) = tm e - rStart l x" using tm_less [of e] by (intro uint32_int) simp
  show "bucketFor l x (approxTime e) = Some (bucketOf l x (tm e))"
    using assms(1) by (simp add: bucketFor_def d u bucketOf_def width_def)
  have "(tm e - rStart l x) div bucketWidth l x \<le> tm e" using div_le_dividend [of "tm e - rStart l x" "bucketWidth l x"] by linarith
  then have "uint32 (int ((tm e - rStart l x) div bucketWidth l x)) = (tm e - rStart l x) div bucketWidth l x"
    using tm_less [of e] by (intro uint32_int) simp
  then show "bucketForBottom l x (approxTime e) = Some (bucketOf l x (tm e))"
    using assms(1) by (simp add: bucketForBottom_def d bucketOf_def width_def flip: zdiv_int)
qed

lemma rCur_le:
  assumes "rung_ok l x" and "e \<in> set (rung l x y)"
  shows "rCur l x \<le> tm e"
proof -
  obtain k where k: "rCur l x = rStart l x + k * bucketWidth l x" "\<forall>y<k. rung l x y = []"
    using assms(1) unfolding rung_ok_def started_def by blast
  have "k \<le> y" using k(2) assms(2) by (metis empty_iff linorder_not_less list.set(1))
  then have "rCur l x \<le> rStart l x + y * bucketWidth l x" using k(1) by simp
  also have "\<dots> \<le> tm e" using assms placedD [of l x e y] bucketOf_start [of l x "tm e"] by (simp add: rung_ok_def)
  finally show ?thesis .
qed

lemma bucketStart_placed:
  assumes "width l x" and "placed l x" and "rung l x y \<noteq> []"
  shows "bucketStart l x y = rStart l x + y * bucketWidth l x" and "bucketStart l x y < 2 ^ 31"
proof -
  obtain e where e: "e \<in> set (rung l x y)" using assms(3) by (cases "rung l x y") auto
  have "rStart l x + y * bucketWidth l x \<le> tm e"
    using assms(1) placedD [OF assms(2) e] bucketOf_start [of l x "tm e"] by simp
  then show "bucketStart l x y = rStart l x + y * bucketWidth l x" "bucketStart l x y < 2 ^ 31"
    using tm_less [of e] by (simp_all add: bucketStart_def)
qed

lemma bucketStart_found:
  assumes "rung_ok l x" and "rung l x y \<noteq> []"
  shows "bucketStart l x y = rStart l x + y * bucketWidth l x" and "bucketStart l x y < 2 ^ 31"
  using assms bucketStart_placed by (simp_all add: rung_ok_def)

lemma counted_not_empty: "counted l x \<Longrightarrow> rung l x y \<noteq> [] \<Longrightarrow> y < numBucket l x"
  by (meson counted_def linorder_not_less)

lemma rung_ok_push:
  assumes ok: "rung_ok l x" and e: "timed e" "rCur l x \<le> tm e" and y: "y = bucketOf l x (tm e)" and n: "0 < NUM_BUCKETS l x"
  shows "rung_ok (noteBucket x y (setBucket x y (e # rung l x y) l)) x"
proof -
  let ?l = "noteBucket x y (setBucket x y (e # rung l x y) l)"
  obtain k where k: "k < NUM_BUCKETS l x" "rCur l x = rStart l x + k * bucketWidth l x" "\<forall>y<k. rung l x y = []"
    using ok unfolding rung_ok_def started_def by blast
  have w: "width l x" using ok by (simp add: rung_ok_def)
  have ky: "k \<le> y" using bucketOf_mono [OF w _ k(1)] k(2) e(2) y by simp
  have yn: "y < NUM_BUCKETS l x" using n y by (simp add: bucketOf_def)
  have rs: "rStart l x \<le> tm e" using k(2) e(2) by linarith
  have "placed ?l x" unfolding placed_def
  proof (intro allI ballI)
    fix z f assume "f \<in> set (rung ?l x z)"
    then have "f = e \<and> z = y \<or> f \<in> set (rung l x z)" by (simp split: if_splits)
    then show "z < NUM_BUCKETS ?l x \<and> timed f \<and> rStart ?l x \<le> tm f \<and> z = bucketOf ?l x (tm f)"
      using yn rs e(1) y ok placedD [of l x f z] unfolding rung_ok_def by (simp only: bucketOf_frame NUM_BUCKETS_frame noteBucket_frame setBucket_frame) blast
  qed
  moreover have "counted ?l x"
    using ok unfolding rung_ok_def counted_def by (simp add: max_def)
  moreover have "started ?l x"
    using ok k ky unfolding rung_ok_def started_def by (auto intro!: exI [of _ k])
  ultimately show ?thesis using w by (simp add: rung_ok_def width_def)
qed


text \<open>Spreading events over a rung whose current time is not after them.\<close>

definition selects :: "(ladder \<Rightarrow> nat \<Rightarrow> int \<Rightarrow> nat option) \<Rightarrow> bool" where
  "selects idx \<longleftrightarrow> idx = bucketFor \<or> idx = bucketForBottom"

lemma selects_event:
  "selects idx \<Longrightarrow> width l x \<Longrightarrow> timed e \<Longrightarrow> rStart l x \<le> tm e \<Longrightarrow> idx l x (approxTime e) = Some (bucketOf l x (tm e))"
  using bucketFor_event by (auto simp: selects_def)

lemma rCur_rStart: "rung_ok l x \<Longrightarrow> rStart l x \<le> rCur l x"
  by (auto simp: rung_ok_def started_def)

lemma bucketOf_bound: "0 < NUM_BUCKETS l x \<Longrightarrow> bucketOf l x t < NUM_BUCKETS l x"
  by (simp add: bucketOf_def)

lemma rung_ok_buckets: "rung_ok l x \<Longrightarrow> 0 < NUM_BUCKETS l x"
  by (auto simp: rung_ok_def started_def)

lemma spread_ok:
  assumes "selects idx" and "x < 8" and "rung_ok l x" and "\<And>e. e \<in> set es \<Longrightarrow> timed e \<and> rCur l x \<le> tm e"
  shows "\<exists>l'. spread idx x es l = Some l' \<and> rung_ok l' x"
  using assms(3,4)
proof (induction es arbitrary: l)
  case (Cons e es)
  have e: "timed e" "rCur l x \<le> tm e" using Cons.prems(2) by simp_all
  have rs: "rStart l x \<le> tm e" using rCur_rStart [OF Cons.prems(1)] e(2) by simp
  let ?y = "bucketOf l x (tm e)"
  let ?l = "noteBucket x ?y (setBucket x ?y (e # rung l x ?y) l)"
  have n: "0 < NUM_BUCKETS l x" using rung_ok_buckets [OF Cons.prems(1)] .
  have "rung_ok ?l x" using rung_ok_push [OF Cons.prems(1) e refl n] .
  moreover have "timed f \<and> rCur ?l x \<le> tm f" if "f \<in> set es" for f using Cons.prems(2) that by simp
  ultimately obtain l' where l': "spread idx x es ?l = Some l'" "rung_ok l' x" using Cons.IH by blast
  have "idx l x (approxTime e) = Some ?y" using selects_event [OF assms(1) _ e(1) rs] Cons.prems(1) by (simp add: rung_ok_def)
  moreover have "pushBucket x ?y e l = Some (setBucket x ?y (e # rung l x ?y) l)"
    using assms(2) bucketOf_bound [OF n] by (simp add: pushBucket_def RUNG_def)
  moreover have "int (rStart l x) \<le> approxTime e" using rs e(1) by (simp add: approxTime_tm)
  ultimately show ?case using l' by simp
qed simp

subsection \<open>The ladder\<close>

definition top_ok :: "ladder \<Rightarrow> bool" where
  "top_ok l \<longleftrightarrow> maxTS l < 2 ^ 31 \<and> (\<forall>e \<in> set (lq_top l). timed e \<and> topStart l < tm e \<and> minTS l \<le> tm e \<and> tm e \<le> maxTS l)"

definition waiting :: "ladder \<Rightarrow> lq_event set" where
  "waiting l = (\<Union>x. \<Union>y. set (rung l x y)) \<union> set (ms_vals (bottom l))"

text \<open>The invariant with the number of rungs as a parameter, for the loops that give rungs up.\<close>

definition inv_at :: "nat \<Rightarrow> ladder \<Rightarrow> bool" where
  "inv_at n l \<longleftrightarrow> n \<le> 8 \<and> (\<forall>x<n. rung_ok l x) \<and> (\<forall>x \<ge> n. \<forall>y. rung l x y = []) \<and> ms_inv receiveTimeLessThanEventIdLessThan (bottom l) \<and>
     top_ok l \<and> topStart l < 2 ^ 31 \<and> (\<forall>e \<in> waiting l. timed e \<and> tm e \<le> topStart l) \<and> size (contents l) < 2 ^ 31"

abbreviation lq_inv :: "ladder \<Rightarrow> bool" where
  "lq_inv l \<equiv> inv_at (nRung l) l"

text \<open>What lies below a rung is before its current time, if the rung is not empty.\<close>

definition before_rung :: "ladder \<Rightarrow> nat \<Rightarrow> lq_event \<Rightarrow> bool" where
  "before_rung l x e \<longleftrightarrow> (0 < numBucket l x \<longrightarrow> tm e < rCur l x)"

definition ordered_at :: "nat \<Rightarrow> ladder \<Rightarrow> bool" where
  "ordered_at n l \<longleftrightarrow> (\<forall>x<n. (\<forall>z y. x < z \<longrightarrow> (\<forall>e \<in> set (rung l z y). before_rung l x e)) \<and> (\<forall>e \<in> set (ms_vals (bottom l)). before_rung l x e))"

abbreviation lq_ordered :: "ladder \<Rightarrow> bool" where
  "lq_ordered l \<equiv> ordered_at (nRung l) l"

text \<open>Rungs made by splitting buckets get narrow so quickly that eight are enough.\<close>

definition narrow_at :: "nat \<Rightarrow> ladder \<Rightarrow> bool" where
  "narrow_at n l \<longleftrightarrow> (\<forall>x<n. bucketWidth l x \<le> 51 ^ (6 - x))"

abbreviation lq_narrow :: "ladder \<Rightarrow> bool" where
  "lq_narrow l \<equiv> narrow_at (nRung l) l"

lemma inv_atD:
  assumes "inv_at n l"
  shows "n \<le> 8" and "\<And>x. x < n \<Longrightarrow> rung_ok l x" and "\<And>x y. n \<le> x \<Longrightarrow> rung l x y = []"
    and "ms_inv receiveTimeLessThanEventIdLessThan (bottom l)" and "top_ok l" and "topStart l < 2 ^ 31"
    and "\<And>e. e \<in> waiting l \<Longrightarrow> timed e \<and> tm e \<le> topStart l" and "size (contents l) < 2 ^ 31"
  using assms unfolding inv_at_def by blast+

lemma waiting_rung: "e \<in> set (rung l x y) \<Longrightarrow> e \<in> waiting l"
  by (auto simp: waiting_def)

lemma waiting_bottom: "e \<in> set (ms_vals (bottom l)) \<Longrightarrow> e \<in> waiting l"
  by (simp add: waiting_def)

lemma inv_at_start [simp]: "lq_inv LadderQueueStrict"
  by (simp add: inv_at_def LadderQueueStrict_def top_ok_def waiting_def contents_def rungsEvents_def rungEvents_def)


subsection \<open>Changes of the rungs only\<close>

definition same_outside :: "ladder \<Rightarrow> ladder \<Rightarrow> bool" where
  "same_outside l l' \<longleftrightarrow> lq_top l' = lq_top l \<and> maxTS l' = maxTS l \<and> minTS l' = minTS l \<and> topStart l' = topStart l \<and>
     numRung0Buckets l' = numRung0Buckets l \<and> bottom l' = bottom l"

lemma same_outside_NUM: "same_outside l l' \<Longrightarrow> NUM_BUCKETS l' = NUM_BUCKETS l"
  by (simp add: same_outside_def NUM_BUCKETS_def fun_eq_iff)

lemma same_outside_trans: "same_outside l l1 \<Longrightarrow> same_outside l1 l2 \<Longrightarrow> same_outside l l2"
  by (simp add: same_outside_def)

lemma inv_at_waiting:
  assumes "inv_at n l" and "e \<in># rungsEvents l + mset (ms_vals (bottom l))"
  shows "timed e \<and> tm e \<le> topStart l"
proof -
  have "e \<in> waiting l" using assms(2) rungsEvents_member [of e l] waiting_rung waiting_bottom by auto
  then show ?thesis by (rule inv_atD(7) [OF assms(1)])
qed

lemma inv_at_intro:
  assumes n: "n \<le> 8" and ok: "\<And>x. x < n \<Longrightarrow> rung_ok l x" and none: "\<And>x y. n \<le> x \<Longrightarrow> rung l x y = []"
    and "ms_inv receiveTimeLessThanEventIdLessThan (bottom l)" and "top_ok l" and "topStart l < 2 ^ 31"
    and w: "\<And>e. e \<in># rungsEvents l + mset (ms_vals (bottom l)) \<Longrightarrow> timed e \<and> tm e \<le> topStart l" and "size (contents l) < 2 ^ 31"
  shows "inv_at n l"
proof -
  have "timed e \<and> tm e \<le> topStart l" if e: "e \<in> waiting l" for e
  proof (cases "e \<in> set (ms_vals (bottom l))")
    case True
    then show ?thesis using w [of e] by simp
  next
    case False
    then obtain x y where xy: "e \<in> set (rung l x y)" using e unfolding waiting_def by blast
    have "x < n" using none [of x y] xy by (metis empty_iff linorder_not_less list.set(1))
    then have "x < 8" "y < NUM_BUCKETS l x" using n placedD(1) [OF _ xy] ok [of x] by (simp_all add: rung_ok_def)
    then have "e \<in># rungsEvents l" using xy rungsEvents_member [of e l] by metis
    then show ?thesis using w [of e] by simp
  qed
  then show ?thesis using assms by (simp add: inv_at_def)
qed

text \<open>Events move between the rungs and to the bottom.\<close>

lemma inv_at_moved:
  assumes inv: "inv_at n l" and "n' \<le> 8" and "\<And>x. x < n' \<Longrightarrow> rung_ok l' x" and "\<And>x y. n' \<le> x \<Longrightarrow> rung l' x y = []"
    and "ms_inv receiveTimeLessThanEventIdLessThan (bottom l')"
    and out: "lq_top l' = lq_top l" "maxTS l' = maxTS l" "minTS l' = minTS l" "topStart l' = topStart l"
    and same: "rungsEvents l' + mset (ms_vals (bottom l')) = rungsEvents l + mset (ms_vals (bottom l))"
  shows "inv_at n' l'"
proof (rule inv_at_intro [OF assms(2,3,4,5)])
  have "contents l' = contents l" using same out(1) by (simp add: contents_def add.assoc)
  then show "size (contents l') < 2 ^ 31" using inv_atD(8) [OF inv] by simp
  show "top_ok l'" "topStart l' < 2 ^ 31" using inv_atD(5,6) [OF inv] out by (simp_all add: top_ok_def)
  show "timed e \<and> tm e \<le> topStart l'" if "e \<in># rungsEvents l' + mset (ms_vals (bottom l'))" for e
    using inv_at_waiting [OF inv, of e] that unfolding same out(4) .
qed

lemma inv_at_rungs:
  assumes inv: "inv_at n l" and out: "same_outside l l'" and n': "n' \<le> 8" and ok: "\<And>x. x < n' \<Longrightarrow> rung_ok l' x"
    and none: "\<And>x y. n' \<le> x \<Longrightarrow> rung l' x y = []" and same: "rungsEvents l' = rungsEvents l"
  shows "inv_at n' l'"
  using out inv_atD(4) [OF inv] same by (intro inv_at_moved [OF inv n' ok none]) (simp_all add: same_outside_def)

lemma ordered_atD:
  assumes "ordered_at n l" and "x < n"
  shows "x < z \<Longrightarrow> e \<in> set (rung l z y) \<Longrightarrow> before_rung l x e" and "e \<in> set (ms_vals (bottom l)) \<Longrightarrow> before_rung l x e"
  using assms unfolding ordered_at_def by blast+

lemma ordered_atI:
  assumes "\<And>x z y e. x < n \<Longrightarrow> x < z \<Longrightarrow> e \<in> set (rung l z y) \<Longrightarrow> before_rung l x e"
    and "\<And>x e. x < n \<Longrightarrow> e \<in> set (ms_vals (bottom l)) \<Longrightarrow> before_rung l x e"
  shows "ordered_at n l"
  using assms unfolding ordered_at_def by blast

lemma before_rung_cong: "numBucket l' x = numBucket l x \<Longrightarrow> rCur l' x = rCur l x \<Longrightarrow> before_rung l' x e = before_rung l x e"
  by (simp add: before_rung_def)

subsection \<open>Finding a bucket\<close>

lemma scanBuckets_rCur_at:
  "rCur l x = wrap32 (s + y * bucketWidth l x) \<Longrightarrow>
     rCur (fst (scanBuckets x y l)) x = wrap32 (s + snd (scanBuckets x y l) * bucketWidth l x)"
proof (induction x y l rule: scanBuckets.induct)
  case (1 x y l)
  show ?case
  proof (cases "y < NUM_BUCKETS l x \<and> rung l x y = []")
    case True
    have "wrap32 (rCur l x + bucketWidth l x) = wrap32 (s + (y + 1) * bucketWidth l x)"
      using 1(2) wrap32_add [of "s + y * bucketWidth l x" "bucketWidth l x"] by (simp add: ac_simps)
    then show ?thesis using 1(1) [OF True] True by (simp add: scanBuckets_step)
  next
    case False
    then show ?thesis using 1(2) by (simp add: scanBuckets_stop)
  qed
qed

definition found :: "ladder \<Rightarrow> nat \<Rightarrow> bool" where
  "found l y \<longleftrightarrow> nRung l \<noteq> 0 \<and> y < NUM_BUCKETS l (nRung l - 1) \<and> rung l (nRung l - 1) y \<noteq> [] \<and>
     (\<forall>j<y. rung l (nRung l - 1) j = []) \<and> rCur l (nRung l - 1) = rStart l (nRung l - 1) + y * bucketWidth l (nRung l - 1)"

lemma findBucket_outside:
  assumes "findBucket l = (l1, y)"
  shows "same_outside l l1 \<and> rung l1 = rung l \<and> nRung l1 = nRung l"
  using findBucket_frame [OF assms] by (simp add: same_outside_def)

lemma findBucket_found:
  assumes "lq_inv l" and "nRung l \<noteq> 0" and f: "findBucket l = (l1, y)" and "y < NUM_BUCKETS l (nRung l - 1)"
  shows "found l1 y"
proof -
  let ?r = "nRung l - 1"
  let ?l = "l\<lparr>rCur := (rCur l)(?r := rStart l ?r)\<rparr>"
  have ok: "rung_ok l ?r" using inv_atD(2) [OF assms(1)] assms(2) by simp
  have "rStart l ?r < 2 ^ 32" using rCur_rStart [OF ok] ok by (simp add: rung_ok_def started_def)
  then have "rCur ?l ?r = wrap32 (rStart l ?r + 0 * bucketWidth ?l ?r)" by simp
  from scanBuckets_rCur_at [OF this] have "rCur l1 ?r = bucketStart l ?r y" using f by (simp add: findBucket_def bucketStart_def)
  then have "rCur l1 ?r = rStart l ?r + y * bucketWidth l ?r" using bucketStart_found(1) [OF ok findBucket_index(3) [OF f assms(4)]] by simp
  then show ?thesis using findBucket_frame [OF f] findBucket_index [OF f] assms(2,4) by (simp add: found_def)
qed

lemma findBucket_inv:
  assumes "lq_inv l" and "nRung l \<noteq> 0" and f: "findBucket l = (l1, y)" and "y < NUM_BUCKETS l (nRung l - 1)"
  shows "lq_inv l1"
proof -
  note fr = findBucket_frame [OF f]
  have fd: "found l1 y" using findBucket_found [OF assms] .
  have "rung_ok l1 x" if "x < nRung l" for x
  proof (cases "x = nRung l - 1")
    case False
    then show ?thesis using rung_ok_cong [of l1 x l] fr inv_atD(2) [OF assms(1) that] by simp
  next
    case True
    have ok: "rung_ok l x" using inv_atD(2) [OF assms(1) that] .
    have "rCur l1 x < 2 ^ 31" using fd True bucketStart_found [OF ok, of y] fr by (simp add: found_def)
    then have "started l1 x" using fd True fr by (auto simp: started_def found_def)
    then show ?thesis using ok fr by (simp add: rung_ok_def rung_defs)
  qed
  then have "inv_at (nRung l) l1"
    using inv_atD(1,3) [OF assms(1)] findBucket_outside [OF f] fr rungsEvents_cong [of l1 l] by (intro inv_at_rungs [OF assms(1)]) simp_all
  then show ?thesis using fr by simp
qed


subsection \<open>Giving up an empty rung\<close>

lemma dropRung_others:
  "x \<noteq> nRung l - 1 \<Longrightarrow> numBucket (dropRung l) x = numBucket l x \<and> rStart (dropRung l) x = rStart l x \<and> rCur (dropRung l) x = rCur l x \<and>
     bucketWidth (dropRung l) x = bucketWidth l x"
  by (simp add: dropRung_def Let_def)

lemma dropRung_outside: "same_outside l (dropRung l)"
  by (simp add: same_outside_def)

lemma dropRung_inv:
  assumes inv: "inv_at n l" and out: "same_outside l l1" and "rung l1 = rung l" and n: "nRung l1 = n" "n \<noteq> 0"
    and "rungEmpty l (n - 1)" and same: "\<And>x. x < n - 1 \<Longrightarrow> rung_ok l1 x"
  shows "lq_inv (dropRung l1)"
proof -
  have none: "rung l1 x y = []" if "n - 1 \<le> x" for x y
  proof (cases "x = n - 1")
    case True
    have "placed l x" using inv_atD(2) [OF inv, of x] True n(2) by (simp add: rung_ok_def)
    then show ?thesis using assms(3,6) True unfolding rungEmpty_def placed_def by (metis last_in_set)
  next
    case False
    then show ?thesis using inv_atD(3) [OF inv, of x y] that assms(3) by simp
  qed
  have "rung_ok (dropRung l1) x" if "x < n - 1" for x
    using rung_ok_cong [of "dropRung l1" x l1] dropRung_others [of x l1] same [OF that] n that by simp
  moreover have "rungsEvents (dropRung l1) = rungsEvents l"
    using rungsEvents_cong [of "dropRung l1" l] assms(3) same_outside_NUM [OF out] by simp
  ultimately have "inv_at (n - 1) (dropRung l1)"
    using inv_atD(1) [OF inv] none same_outside_trans [OF out dropRung_outside] by (intro inv_at_rungs [OF inv]) simp_all
  then show ?thesis using n by simp
qed

lemma ordered_at_less:
  assumes "ordered_at n l" and "m \<le> n" and "\<And>x. x < m \<Longrightarrow> numBucket l' x = numBucket l x \<and> rCur l' x = rCur l x"
    and "\<And>x. rung l' x = rung l x" and "bottom l' = bottom l"
  shows "ordered_at m l'"
  using assms by (intro ordered_atI) (simp_all add: before_rung_cong [of l' _ l] ordered_atD [OF assms(1)])

lemma narrow_at_less: "narrow_at n l \<Longrightarrow> m \<le> n \<Longrightarrow> (\<And>x. x < m \<Longrightarrow> bucketWidth l' x = bucketWidth l x) \<Longrightarrow> narrow_at m l'"
  by (simp add: narrow_at_def)

subsection \<open>Splitting a bucket\<close>

text \<open>What \<open>recalcRung\<close> leaves in \<open>rCur\<close> and \<open>numBucket\<close>.\<close>

lemma recalcRung_step:
  assumes "y < NUM_BUCKETS l x"
  shows "rung l x y = [] \<Longrightarrow> recalcRung x y b l = recalcRung x (y + 1) b l"
    and "rung l x y \<noteq> [] \<Longrightarrow> recalcRung x y b l = recalcRung x (y + 1) True
      (l\<lparr>rCur := (if b then rCur l else (rCur l)(x := bucketStart l x y)), numBucket := (numBucket l)(x := y + 1)\<rparr>)"
  using assms by (subst recalcRung.simps, simp)+

lemma recalcRung_stop: "\<not> y < NUM_BUCKETS l x \<Longrightarrow> recalcRung x y b l = (l, b)"
  by (subst recalcRung.simps) simp

lemma NUM_BUCKETS_upd [simp]: "NUM_BUCKETS (l\<lparr>rCur := c, numBucket := n\<rparr>) = NUM_BUCKETS l" "NUM_BUCKETS (l\<lparr>numBucket := n\<rparr>) = NUM_BUCKETS l"
  by (simp_all add: NUM_BUCKETS_def fun_eq_iff)

lemma bucketStart_upd [simp]: "bucketStart (l\<lparr>rCur := c, numBucket := n\<rparr>) = bucketStart l"
  by (simp add: bucketStart_def fun_eq_iff)

lemma recalcRung_set: "rCur (fst (recalcRung x y True l)) x = rCur l x"
proof (induction x y True l rule: recalcRung.induct)
  case (1 x y l)
  show ?case
  proof (cases "y < NUM_BUCKETS l x")
    case True
    show ?thesis
    proof (cases "rung l x y = []")
      case r: True
      show ?thesis using 1(1) [OF True r] recalcRung_step(1) [OF True r, of True] by simp
    next
      case False
      show ?thesis using 1(2) [OF True False] recalcRung_step(2) [OF True False, of True] by simp
    qed
  qed (simp add: recalcRung_stop)
qed

definition upperEmpty :: "ladder \<Rightarrow> nat \<Rightarrow> nat \<Rightarrow> bool" where
  "upperEmpty l x y \<longleftrightarrow> (\<forall>j \<ge> y. j < NUM_BUCKETS l x \<longrightarrow> rung l x j = [])"

lemma upperEmpty_step:
  assumes "rung l x y = []"
  shows "upperEmpty l x (y + 1) = upperEmpty l x y"
proof -
  have "(\<forall>j \<ge> y. P j) \<longleftrightarrow> P y \<and> (\<forall>j \<ge> y + 1. P j)" for P :: "nat \<Rightarrow> bool"
    by (metis Suc_eq_plus1 le_eq_less_or_eq less_eq_Suc_le)
  from this [of "\<lambda>j. j < NUM_BUCKETS l x \<longrightarrow> rung l x j = []"] show ?thesis using assms unfolding upperEmpty_def by simp
qed

lemma recalcRung_none: "upperEmpty l x y \<Longrightarrow> recalcRung x y b l = (l, b)"
proof (induction x y b l rule: recalcRung.induct)
  case (1 x y b l)
  show ?case
  proof (cases "y < NUM_BUCKETS l x")
    case True
    then have e: "rung l x y = []" using 1(3) unfolding upperEmpty_def by simp
    have "recalcRung x (y + 1) b l = (l, b)" using 1(1) [OF True e] 1(3) upperEmpty_step [OF e] by simp
    then show ?thesis using recalcRung_step(1) [OF True e] by simp
  qed (simp add: recalcRung_stop)
qed

lemma recalcRung_last:
  assumes "\<not> upperEmpty l x y"
  shows "snd (recalcRung x y b l) \<and> (\<exists>j \<ge> y. j < NUM_BUCKETS l x \<and> rung l x j \<noteq> [] \<and> upperEmpty l x (j + 1) \<and>
    numBucket (fst (recalcRung x y b l)) x = j + 1)"
  using assms
proof (induction x y b l rule: recalcRung.induct)
  case (1 x y b l)
  have y: "y < NUM_BUCKETS l x" using 1(3) unfolding upperEmpty_def by auto
  show ?case
  proof (cases "rung l x y = []")
    case True
    have "\<not> upperEmpty l x (y + 1)" using 1(3) upperEmpty_step [OF True] by simp
    from 1(1) [OF y True this] show ?thesis using recalcRung_step(1) [OF y True, of b] by (metis Suc_eq_plus1 Suc_leD)
  next
    case False
    let ?l = "l\<lparr>rCur := (if b then rCur l else (rCur l)(x := bucketStart l x y)), numBucket := (numBucket l)(x := y + 1)\<rparr>"
    have u: "upperEmpty ?l x z = upperEmpty l x z" for z by (simp add: upperEmpty_def)
    show ?thesis
    proof (cases "upperEmpty l x (y + 1)")
      case True
      then have "recalcRung x (y + 1) True ?l = (?l, True)" using recalcRung_none [of ?l x "y + 1"] u by simp
      then have "recalcRung x y b l = (?l, True)" using recalcRung_step(2) [OF y False, of b] by simp
      then show ?thesis using y False True by (auto intro!: exI [of _ y])
    next
      case u2: False
      then have "\<not> upperEmpty ?l x (y + 1)" using u by simp
      from 1(2) [OF y False this] obtain j where "snd (recalcRung x (y + 1) True ?l)" "j \<ge> y + 1" "j < NUM_BUCKETS l x"
        "rung l x j \<noteq> []" "upperEmpty l x (j + 1)" "numBucket (fst (recalcRung x (y + 1) True ?l)) x = j + 1" using u by auto
      then show ?thesis using recalcRung_step(2) [OF y False, of b] by (auto intro!: exI [of _ j])
    qed
  qed
qed


lemma recalcRung_first:
  assumes "\<not> upperEmpty l x y" and "\<not> b"
  shows "\<exists>j \<ge> y. j < NUM_BUCKETS l x \<and> rung l x j \<noteq> [] \<and> (\<forall>i. y \<le> i \<longrightarrow> i < j \<longrightarrow> rung l x i = []) \<and>
    rCur (fst (recalcRung x y b l)) x = bucketStart l x j"
  using assms
proof (induction x y b l rule: recalcRung.induct)
  case (1 x y b l)
  have y: "y < NUM_BUCKETS l x" using 1(3) unfolding upperEmpty_def by auto
  show ?case
  proof (cases "rung l x y = []")
    case True
    have "\<not> upperEmpty l x (y + 1)" using 1(3) upperEmpty_step [OF True] by simp
    from 1(1) [OF y True this 1(4)] obtain j where j: "j \<ge> y + 1" "j < NUM_BUCKETS l x" "rung l x j \<noteq> []"
      "\<forall>i. y + 1 \<le> i \<longrightarrow> i < j \<longrightarrow> rung l x i = []" "rCur (fst (recalcRung x (y + 1) b l)) x = bucketStart l x j" by blast
    have "rung l x i = []" if "y \<le> i" "i < j" for i using j(4) True that by (cases "i = y") simp_all
    then show ?thesis using recalcRung_step(1) [OF y True, of b] j by (intro exI [of _ j]) (simp del: Suc_eq_plus1 add: Suc_leD)
  next
    case False
    let ?l = "l\<lparr>rCur := (rCur l)(x := bucketStart l x y), numBucket := (numBucket l)(x := y + 1)\<rparr>"
    have "rCur (fst (recalcRung x (y + 1) True ?l)) x = rCur ?l x" by (rule recalcRung_set)
    then show ?thesis using recalcRung_step(2) [OF y False, of b] 1(4) y False by (intro exI [of _ y]) simp
  qed
qed


lemma upperEmpty_placed: "placed l x \<Longrightarrow> upperEmpty l x y \<Longrightarrow> j \<ge> y \<Longrightarrow> rung l x j = []"
  unfolding upperEmpty_def placed_def by (metis last_in_set)

lemma splitOldRung_others:
  "z \<noteq> x \<Longrightarrow> rCur (splitOldRung x y l) z = rCur l z \<and> numBucket (splitOldRung x y l) z = numBucket l z"
  using recalcRung_others [of z x "y + 1" False l] by (simp add: splitOldRung_def case_prod_beta)

lemma splitOldRung_ok:
  assumes w: "width l x" and p: "placed l x" and low: "\<And>j. j \<le> y \<Longrightarrow> rung l x j = []" and rs: "rStart l x < 2 ^ 31" "0 < NUM_BUCKETS l x"
  shows "rung_ok (splitOldRung x y l) x"
    and "0 < numBucket (splitOldRung x y l) x \<Longrightarrow> \<exists>j>y. j < NUM_BUCKETS l x \<and> rCur (splitOldRung x y l) x = rStart l x + j * bucketWidth l x"
proof -
  let ?l = "splitOldRung x y l"
  have wp: "width ?l x" "placed ?l x" using w p by (simp_all add: width_def placed_def bucketOf_def)
  have "counted ?l x \<and> started ?l x \<and> (0 < numBucket ?l x \<longrightarrow> (\<exists>j>y. j < NUM_BUCKETS l x \<and> rCur ?l x = rStart l x + j * bucketWidth l x))"
  proof (cases "upperEmpty l x (y + 1)")
    case True
    then have "numBucket ?l x = 0" "rCur ?l x = rStart l x" using recalcRung_none by (simp_all add: splitOldRung_def)
    moreover have "rung l x j = []" for j using low [of j] upperEmpty_placed [OF p True, of j] by linarith
    ultimately show ?thesis using rs by (auto simp: counted_def started_def)
  next
    case False
    obtain m where m: "snd (recalcRung x (y + 1) False l)" "rung l x m \<noteq> []" "upperEmpty l x (m + 1)"
      "numBucket (fst (recalcRung x (y + 1) False l)) x = m + 1" using recalcRung_last [OF False, of False] by blast
    obtain j where j: "j \<ge> y + 1" "j < NUM_BUCKETS l x" "rung l x j \<noteq> []" "\<forall>i. y + 1 \<le> i \<longrightarrow> i < j \<longrightarrow> rung l x i = []"
      "rCur (fst (recalcRung x (y + 1) False l)) x = bucketStart l x j" using recalcRung_first [OF False] by blast
    have l: "?l = fst (recalcRung x (y + 1) False l)" using m(1) by (simp add: splitOldRung_def case_prod_beta)
    have "counted ?l x" using m upperEmpty_placed [OF p m(3)] unfolding l counted_def by simp
    moreover have c: "rCur ?l x = rStart l x + j * bucketWidth l x" "rCur ?l x < 2 ^ 31"
      using bucketStart_placed [OF w p j(3)] j(5) l by simp_all
    moreover have "rung l x i = []" if "i < j" for i using low [of i] j(4) that by (cases "i \<le> y") simp_all
    then have "started ?l x" using c j(2) by (auto simp: started_def)
    moreover have "y < j" using j(1) by simp
    ultimately show ?thesis using j(2) by blast
  qed
  then show "rung_ok ?l x" "0 < numBucket ?l x \<Longrightarrow> \<exists>j>y. j < NUM_BUCKETS l x \<and> rCur ?l x = rStart l x + j * bucketWidth l x"
    using wp by (simp_all add: rung_ok_def)
qed

text \<open>A new rung below the last one.\<close>

definition splittable :: "ladder \<Rightarrow> nat \<Rightarrow> bool" where
  "splittable l y \<longleftrightarrow> lq_inv l \<and> found l y \<and> 50 < length (rung l (nRung l - 1) y)"

lemma create_new_rung_width:
  assumes "0 < w" and "w \<le> 2 ^ 31" and "0 < n" and "n < 2 ^ 31"
  shows "0 < wrap32 (w + n - 1) div n" and "wrap32 (w + n - 1) div n \<le> w" and "wrap32 (w + n - 1) = w + n - 1"
proof -
  show e: "wrap32 (w + n - 1) = w + n - 1" using assms by (intro wrap32_id) simp
  have "n \<le> w + n - 1" using assms(1) by linarith
  then show "0 < wrap32 (w + n - 1) div n" using assms(3) e by (simp add: div_greater_zero_iff)
  have "(w + n - 1) div n < w + 1"
  proof (rule less_mult_imp_div_less)
    have "w + n \<le> w * n + 1" using assms(1,3) by (cases w; cases n) simp_all
    then show "w + n - 1 < (w + 1) * n" using assms(3) by (simp add: algebra_simps)
  qed
  then show "wrap32 (w + n - 1) div n \<le> w" using e by simp
qed


lemma create_new_rung_fields:
  assumes "create_new_rung n v l = (l2, st, True)" and "nRung l \<noteq> 0"
  shows "same_outside l l2" and "rung l2 = rung l" and "nRung l2 = nRung l + 1" and "nRung l < 8" and "1 < bucketWidth l (nRung l - 1)"
    and "bucketWidth l2 = (bucketWidth l)(nRung l := wrap32 (bucketWidth l (nRung l - 1) + n - 1) div n)"
    and "rStart l2 = (rStart l)(nRung l := v)" and "rCur l2 = (rCur l)(nRung l := v)" and "numBucket l2 = (numBucket l)(nRung l := 0)"
proof -
  have c: "n \<noteq> 0 \<and> 1 < bucketWidth l (nRung l - 1) \<and> nRung l < 8"
    using assms by (simp add: create_new_rung_def Let_def split: if_splits)
  have "l2 = fst (create_new_rung n v l)" using assms(1) by simp
  also have "\<dots> = l\<lparr>nRung := nRung l + 1,
    bucketWidth := (bucketWidth l)(nRung l := wrap32 (bucketWidth l (nRung l - 1) + n - 1) div n),
    rStart := (rStart l)(nRung l := v), rCur := (rCur l)(nRung l := v), numBucket := (numBucket l)(nRung l := 0)\<rparr>"
    using c assms(2) by (simp add: create_new_rung_def Let_def)
  finally show "same_outside l l2" "rung l2 = rung l" "nRung l2 = nRung l + 1" "nRung l < 8" "1 < bucketWidth l (nRung l - 1)"
    "bucketWidth l2 = (bucketWidth l)(nRung l := wrap32 (bucketWidth l (nRung l - 1) + n - 1) div n)"
    "rStart l2 = (rStart l)(nRung l := v)" "rCur l2 = (rCur l)(nRung l := v)" "numBucket l2 = (numBucket l)(nRung l := 0)"
    using c by (simp_all add: same_outside_def)
qed

lemma splittable_bucket:
  assumes "splittable l y" and "e \<in> set (rung l (nRung l - 1) y)"
  shows "timed e" and "rCur l (nRung l - 1) \<le> tm e" and "y < NUM_BUCKETS l (nRung l - 1) - 1 \<Longrightarrow> tm e < rCur l (nRung l - 1) + bucketWidth l (nRung l - 1)"
proof -
  have n: "nRung l \<noteq> 0" and c: "rCur l (nRung l - 1) = rStart l (nRung l - 1) + y * bucketWidth l (nRung l - 1)"
    using assms(1) by (simp_all add: splittable_def found_def)
  have ok: "rung_ok l (nRung l - 1)" using assms(1) n inv_atD(2) [of "nRung l" l] by (simp add: splittable_def)
  note e = placedD [OF _ assms(2)]
  show "timed e" "rCur l (nRung l - 1) \<le> tm e" using ok e(2) rCur_le [OF ok assms(2)] by (simp_all add: rung_ok_def)
  show "tm e < rCur l (nRung l - 1) + bucketWidth l (nRung l - 1)" if "y < NUM_BUCKETS l (nRung l - 1) - 1"
    using bucketOf_end [of l "nRung l - 1" "tm e"] ok e(4) that c by (simp add: rung_ok_def)
qed

lemma splittable_new_rung:
  assumes sp: "splittable l y" and cr: "create_new_rung (length (rung l (nRung l - 1) y)) (rCur l (nRung l - 1)) l = (l2, st, True)"
  shows "rung_ok l2 (nRung l)"
proof -
  let ?r = "nRung l - 1"
  have inv: "lq_inv l" and n: "nRung l \<noteq> 0" and y: "y < NUM_BUCKETS l ?r" and len: "50 < length (rung l ?r y)"
    using sp by (simp_all add: splittable_def found_def)
  note f = create_new_rung_fields [OF cr n]
  have ok: "rung_ok l ?r" using inv_atD(2) [OF inv] n by simp
  have "length (rung l ?r y) \<le> size (rungsEvents l)" using bucket_size [OF _ y] f(4) by simp
  then have "length (rung l ?r y) \<le> size (contents l)" by (simp add: contents_def)
  then have "length (rung l ?r y) < 2 ^ 31" using inv_atD(8) [OF inv] by linarith
  moreover have w: "0 < bucketWidth l ?r" "bucketWidth l ?r \<le> 2 ^ 31" using ok by (simp_all add: rung_ok_def width_def)
  moreover have "0 < length (rung l ?r y)" using len by linarith
  ultimately have "0 < bucketWidth l2 (nRung l)" "bucketWidth l2 (nRung l) \<le> bucketWidth l ?r"
    unfolding f(6) fun_upd_same using create_new_rung_width by blast+
  then have "width l2 (nRung l)" using w(2) by (simp add: width_def)
  moreover have "rung l2 (nRung l) z = []" for z using inv_atD(3) [OF inv, of "nRung l" z] f(2) by simp
  moreover have "rCur l ?r < 2 ^ 31" using ok by (simp add: rung_ok_def started_def)
  moreover have "0 < NUM_BUCKETS l2 (nRung l)" using n by (simp add: NUM_BUCKETS_def)
  ultimately show ?thesis using f(7,8,9) by (auto simp: rung_ok_def placed_def counted_def started_def)
qed


lemma splitBucket_ok:
  assumes sp: "splittable l y" and cr: "create_new_rung (length (rung l (nRung l - 1) y)) (rCur l (nRung l - 1)) l = (l2, st, True)"
  shows "\<exists>l3. splitBucket y l2 = Some l3"
proof -
  have n: "nRung l \<noteq> 0" using sp by (simp add: splittable_def found_def)
  note f = create_new_rung_fields [OF cr n]
  have "\<exists>l'. spread bucketFor (nRung l) (rung l (nRung l - 1) y) l2 = Some l' \<and> rung_ok l' (nRung l)"
    using splittable_bucket [OF sp] f by (intro spread_ok [OF _ _ splittable_new_rung [OF sp cr]]) (simp_all add: selects_def)
  then obtain l' where "spread bucketFor (nRung l2 - 1) (rung l2 (nRung l2 - 2) y) l2 = Some l'" using f n by auto
  then show ?thesis by (simp add: splitBucket_def)
qed

text \<open>The ladder after the split, field by field.\<close>

lemma splitBucket_fields:
  assumes sp: "splittable l y" and cr: "create_new_rung (length (rung l (nRung l - 1) y)) (rCur l (nRung l - 1)) l = (l2, st, True)"
    and "splitBucket y l2 = Some l3"
  shows "same_outside l l3" and "nRung l3 = nRung l + 1" and "rung_ok l3 (nRung l)" and "rung_ok l3 (nRung l - 1)"
    and "\<And>x. x < nRung l - 1 \<Longrightarrow> rung l3 x = rung l x \<and> numBucket l3 x = numBucket l x \<and> rCur l3 x = rCur l x \<and> rStart l3 x = rStart l x"
    and "\<And>x. x < nRung l \<Longrightarrow> bucketWidth l3 x = bucketWidth l x"
    and "bucketWidth l3 (nRung l) = wrap32 (bucketWidth l (nRung l - 1) + length (rung l (nRung l - 1) y) - 1) div length (rung l (nRung l - 1) y)"
    and "rung l3 (nRung l - 1) = (rung l (nRung l - 1))(y := [])" and "\<And>x. nRung l < x \<Longrightarrow> rung l3 x = rung l x"
    and "rungsEvents l3 = rungsEvents l"
    and "0 < numBucket l3 (nRung l - 1) \<Longrightarrow> \<exists>j>y. j < NUM_BUCKETS l (nRung l - 1) \<and>
      rCur l3 (nRung l - 1) = rStart l (nRung l - 1) + j * bucketWidth l (nRung l - 1)"
proof -
  let ?r = "nRung l - 1" and ?n = "nRung l"
  have inv: "lq_inv l" and n: "?n \<noteq> 0" and y: "y < NUM_BUCKETS l ?r" and low: "\<forall>j<y. rung l ?r j = []"
    using sp by (simp_all add: splittable_def found_def)
  note f = create_new_rung_fields [OF cr n]
  have r2: "nRung l2 - 1 = ?n" "nRung l2 - 2 = ?r" using f(3) n by simp_all
  obtain l' where l': "spread bucketFor ?n (rung l ?r y) l2 = Some l'" "l3 = splitOldRung ?r y (setBucket ?r y [] l')"
    using splitBucket_SomeE [OF assms(3)] unfolding r2 f(2) by blast
  note s = spread_frame [OF l'(1)]
  have rn: "?r \<noteq> ?n" using n by simp
  have NB: "NUM_BUCKETS l' = NUM_BUCKETS l" using s same_outside_NUM [OF f(1)] by simp
  have rung': "rung l' x = rung l x" if "x \<noteq> ?n" for x using s f(2) that by simp
  show out: "same_outside l l3" using s f(1) l'(2) by (simp add: same_outside_def)
  show "nRung l3 = ?n + 1" using s f(3) l'(2) by simp
  have "\<exists>l''. spread bucketFor ?n (rung l ?r y) l2 = Some l'' \<and> rung_ok l'' ?n"
    using splittable_bucket [OF sp] f by (intro spread_ok [OF _ _ splittable_new_rung [OF sp cr]]) (simp_all add: selects_def)
  then have "rung_ok l' ?n" using l'(1) by auto
  then show "rung_ok l3 ?n"
    using rung_ok_cong [of l3 ?n l'] l'(2) rn splitOldRung_others [of ?n ?r y "setBucket ?r y [] l'"] by simp
  show "rung l3 ?r = (rung l ?r)(y := [])" using l'(2) rung' [OF rn] by simp
  show "rung l3 x = rung l x \<and> numBucket l3 x = numBucket l x \<and> rCur l3 x = rCur l x \<and> rStart l3 x = rStart l x" if x: "x < ?r" for x
  proof -
    have "x \<noteq> ?n" "x \<noteq> ?r" using x by linarith+
    then show ?thesis using l'(2) rung' [of x] splitOldRung_others [of x ?r y "setBucket ?r y [] l'"] s f(7,8,9) by simp
  qed
  show "bucketWidth l3 x = bucketWidth l x" if "x < ?n" for x using that l'(2) s f(6) by simp
  show "bucketWidth l3 ?n = wrap32 (bucketWidth l ?r + length (rung l ?r y) - 1) div length (rung l ?r y)" using l'(2) s f(6) by simp
  show "rung l3 x = rung l x" if x: "?n < x" for x
  proof -
    have "x \<noteq> ?n" "x \<noteq> ?r" using x by linarith+
    then show ?thesis using l'(2) rung' [of x] by simp
  qed
  have "rungsEvents l' = rungsEvents l2 + mset (rung l ?r y)" using spread_contents [OF l'(1)] .
  moreover have "rungsEvents l2 = rungsEvents l" using rungsEvents_cong [OF f(2)] same_outside_NUM [OF f(1)] .
  moreover have "rungsEvents (setBucket ?r y [] l') + mset (rung l' ?r y) = rungsEvents l'"
    using rungsEvents_setBucket [of ?r y l' "[]"] y NB f(4) by simp
  ultimately have "rungsEvents (setBucket ?r y [] l') = rungsEvents l" using rung' [OF rn] by simp
  then show "rungsEvents l3 = rungsEvents l" using rungsEvents_cong [of l3 "setBucket ?r y [] l'"] l'(2) by simp
  let ?l = "setBucket ?r y [] l'"
  have ok: "rung_ok l ?r" using inv_atD(2) [OF inv] n by simp
  have same: "rStart ?l ?r = rStart l ?r" "bucketWidth ?l ?r = bucketWidth l ?r" "NUM_BUCKETS ?l ?r = NUM_BUCKETS l ?r" using s f(6,7) NB rn by simp_all
  have "bucketOf ?l ?r = bucketOf l ?r" unfolding bucketOf_def same by simp
  then have "placed ?l ?r" using ok unfolding rung_ok_def placed_def using rung' [OF rn] by (simp only: same) simp
  moreover have "width ?l ?r" using ok unfolding rung_ok_def width_def by (simp only: same)
  moreover have "rung ?l ?r j = []" if "j \<le> y" for j using low that rung' [OF rn] by simp
  moreover have "rStart ?l ?r < 2 ^ 31" using rCur_rStart [OF ok] ok same by (simp add: rung_ok_def started_def)
  moreover have "0 < NUM_BUCKETS ?l ?r" using y same by simp
  ultimately show "rung_ok l3 ?r"
    "0 < numBucket l3 ?r \<Longrightarrow> \<exists>j>y. j < NUM_BUCKETS l ?r \<and> rCur l3 ?r = rStart l ?r + j * bucketWidth l ?r"
    using splitOldRung_ok [of ?l ?r y] l'(2) same by simp_all
qed


lemma split_inv:
  assumes sp: "splittable l y" and cr: "create_new_rung (length (rung l (nRung l - 1) y)) (rCur l (nRung l - 1)) l = (l2, st, True)"
    and "splitBucket y l2 = Some l3"
  shows "lq_inv l3"
proof -
  note f = splitBucket_fields [OF assms]
  have inv: "lq_inv l" and n: "nRung l \<noteq> 0" using sp by (simp_all add: splittable_def found_def)
  have n8: "nRung l < 8" using create_new_rung_fields(4) [OF cr n] .
  have "rung_ok l3 x" if x: "x < nRung l + 1" for x
  proof -
    consider "x = nRung l" | "x = nRung l - 1" | "x < nRung l - 1" using x by linarith
    then show ?thesis
    proof cases
      case 3
      then show ?thesis using rung_ok_cong [of l3 x l] f(5) [OF 3] f(6) [of x] same_outside_NUM [OF f(1)] inv_atD(2) [OF inv, of x] by simp
    qed (use f(3,4) in simp_all)
  qed
  moreover have "rung l3 x z = []" if "nRung l + 1 \<le> x" for x z using f(9) [of x] inv_atD(3) [OF inv, of x z] that by simp
  ultimately have "inv_at (nRung l + 1) l3" using n8 f(1,10) by (intro inv_at_rungs [OF inv]) simp_all
  then show ?thesis using f(2) by simp
qed

lemma split_new_events:
  assumes sp: "splittable l y" and cr: "create_new_rung (length (rung l (nRung l - 1) y)) (rCur l (nRung l - 1)) l = (l2, st, True)"
    and "splitBucket y l2 = Some l3" and "e \<in> set (rung l3 (nRung l) z)"
  shows "e \<in> set (rung l (nRung l - 1) y)"
proof -
  have n: "nRung l \<noteq> 0" using sp by (simp add: splittable_def found_def)
  note f = create_new_rung_fields [OF cr n]
  have r2: "nRung l2 - 1 = nRung l" "nRung l2 - 2 = nRung l - 1" using f(3) n by simp_all
  obtain l' where l': "spread bucketFor (nRung l) (rung l (nRung l - 1) y) l2 = Some l'"
    "l3 = splitOldRung (nRung l - 1) y (setBucket (nRung l - 1) y [] l')"
    using splitBucket_SomeE [OF assms(3)] unfolding r2 f(2) by blast
  have "nRung l \<noteq> nRung l - 1" using n by linarith
  then have "e \<in> set (rung l' (nRung l) z)" using assms(4) l'(2) by simp
  then have "e \<in> set (rung l2 (nRung l) z) \<or> e \<in> set (rung l (nRung l - 1) y)" using spread_new [OF l'(1)] by blast
  moreover have "rung l2 (nRung l) z = []" using f(2) sp inv_atD(3) [of "nRung l" l] by (simp add: splittable_def)
  ultimately show ?thesis by simp
qed

lemma split_ordered:
  assumes sp: "splittable l y" and cr: "create_new_rung (length (rung l (nRung l - 1) y)) (rCur l (nRung l - 1)) l = (l2, st, True)"
    and s: "splitBucket y l2 = Some l3" and o: "lq_ordered l" and b: "ms_vals (bottom l) = []"
  shows "lq_ordered l3"
proof -
  note f = splitBucket_fields [OF sp cr s] and new = split_new_events [OF sp cr s]
  have inv: "lq_inv l" and n: "nRung l \<noteq> 0" and c: "rCur l (nRung l - 1) = rStart l (nRung l - 1) + y * bucketWidth l (nRung l - 1)"
    using sp by (simp_all add: splittable_def found_def)
  have empty: "rung l3 z w = []" if "nRung l < z" for z w using f(9) [OF that] inv_atD(3) [OF inv, of z w] that by simp
  have zn: "z \<le> nRung l" if "e \<in> set (rung l3 z w)" for e z w
    using empty [of z w] that by (metis empty_iff linorder_not_less list.set(1))
  have low: "before_rung l x e" if x: "x < nRung l - 1" "x < z" "e \<in> set (rung l3 z w)" for x z w e
  proof -
    consider "z < nRung l - 1" | "z = nRung l - 1" | "z = nRung l" using zn [OF x(3)] by linarith
    then show ?thesis
    proof cases
      case 1
      then show ?thesis using ordered_atD(1) [OF o, of x z e w] f(5) [OF 1] x by simp
    next
      case 2
      have "e \<in> set (rung l z w)" using f(8) x(3) 2 by (simp split: if_splits)
      then show ?thesis using ordered_atD(1) [OF o, of x z e w] x by simp
    next
      case 3
      then show ?thesis using ordered_atD(1) [OF o, of x "nRung l - 1" e y] new [of e w] x by simp
    qed
  qed
  have "before_rung l3 x e" if x: "x < nRung l + 1" "x < z" "e \<in> set (rung l3 z w)" for x z w e
  proof (cases "x < nRung l - 1")
    case True
    then show ?thesis using low [OF True x(2,3)] before_rung_cong [of l3 x l] f(5) [OF True] by simp
  next
    case False
    then have z: "z = nRung l" "x = nRung l - 1" using x(2) zn [OF x(3)] by linarith+
    have "tm e < rCur l3 x" if nb: "0 < numBucket l3 x"
    proof -
      obtain j where j: "y < j" "j < NUM_BUCKETS l x" "rCur l3 x = rStart l x + j * bucketWidth l x" using f(11) nb unfolding z(2) by metis
      have "tm e < rCur l x + bucketWidth l x"
        using splittable_bucket(3) [OF sp new [of e w]] x(3) z j(1,2) by simp
      also have "\<dots> = rStart l x + (y + 1) * bucketWidth l x" using c z(2) by simp
      also have "\<dots> \<le> rStart l x + j * bucketWidth l x" using j(1) by (intro add_left_mono mult_le_mono1) simp
      finally show ?thesis using j(3) by simp
    qed
    then show ?thesis by (simp add: before_rung_def)
  qed
  moreover have "bottom l3 = bottom l" using f(1) by (simp add: same_outside_def)
  ultimately show ?thesis using b f(2) by (intro ordered_atI) simp_all
qed

lemma split_narrow:
  assumes sp: "splittable l y" and cr: "create_new_rung (length (rung l (nRung l - 1) y)) (rCur l (nRung l - 1)) l = (l2, st, True)"
    and s: "splitBucket y l2 = Some l3" and nw: "lq_narrow l"
  shows "lq_narrow l3"
proof -
  let ?r = "nRung l - 1" and ?N = "length (rung l (nRung l - 1) y)"
  note f = splitBucket_fields [OF sp cr s]
  have n: "nRung l \<noteq> 0" and N: "50 < ?N" using sp by (simp_all add: splittable_def found_def)
  have "?r < nRung l" using n by linarith
  then have w: "1 < bucketWidth l ?r" "bucketWidth l ?r \<le> 51 ^ (6 - ?r)"
    using create_new_rung_fields(5) [OF cr n] nw unfolding narrow_at_def by blast+
  then have r6: "?r < 6" by (cases "?r < 6") simp_all
  then have e: "6 - ?r = Suc (6 - nRung l)" using n by linarith
  have "bucketWidth l ?r \<le> 51 ^ (6 - nRung l) * ?N"
  proof -
    have "bucketWidth l ?r \<le> 51 ^ (6 - nRung l) * 51" using w(2) by (simp only: e power_Suc2)
    also have "\<dots> \<le> 51 ^ (6 - nRung l) * ?N" using N by (intro mult_le_mono2) simp
    finally show ?thesis .
  qed
  then have "bucketWidth l ?r + ?N - 1 < 51 ^ (6 - nRung l) * ?N + ?N" using N by linarith
  then have "bucketWidth l ?r + ?N - 1 < (51 ^ (6 - nRung l) + 1) * ?N" by (simp only: distrib_right mult_1)
  then have "(bucketWidth l ?r + ?N - 1) div ?N < 51 ^ (6 - nRung l) + 1" by (rule less_mult_imp_div_less)
  moreover have "wrap32 (bucketWidth l ?r + ?N - 1) \<le> bucketWidth l ?r + ?N - 1" by (simp add: wrap32_def nat_le_iff zmod_le_nonneg_dividend)
  then have "bucketWidth l3 (nRung l) \<le> (bucketWidth l ?r + ?N - 1) div ?N" unfolding f(7) by (rule div_le_mono)
  ultimately have "bucketWidth l3 (nRung l) \<le> 51 ^ (6 - nRung l)" by linarith
  then show ?thesis using nw f(2,6) by (auto simp: narrow_at_def less_Suc_eq)
qed

end
