(* ===== verification/LadderBegin.thy ===== *)
theory LadderBegin
  imports LadderInvariant
begin

text \<open>
  \<open>begin\<close> and \<open>dequeue\<close> of the ladder queue return in every state that satisfies the invariant, keep the invariant and the order of the rungs, and
  neither lose nor invent an event. \<open>recurse_rung\<close> finds a bucket unless the rungs are empty, too wide or too many.
\<close>

subsection \<open>The recursion through the rungs\<close>

definition keeps :: "ladder \<Rightarrow> ladder \<Rightarrow> bool" where
  "keeps l l' \<longleftrightarrow> lq_inv l' \<and> same_outside l l' \<and> rungsEvents l' = rungsEvents l \<and>
     (ms_vals (bottom l) = [] \<longrightarrow> lq_ordered l \<longrightarrow> lq_ordered l') \<and> (lq_narrow l \<longrightarrow> lq_narrow l')"

lemma keeps_trans: "keeps l l1 \<Longrightarrow> keeps l1 l2 \<Longrightarrow> keeps l l2"
  by (simp add: keeps_def same_outside_def)

lemma keeps_refl: "lq_inv l \<Longrightarrow> keeps l l"
  by (simp add: keeps_def same_outside_def)

lemma keeps_find:
  assumes inv: "lq_inv l" and n: "nRung l \<noteq> 0" and f: "findBucket l = (l1, y)" and y: "y < NUM_BUCKETS l (nRung l - 1)"
  shows "keeps l l1"
proof -
  note fr = findBucket_frame [OF f]
  have "ordered_at (nRung l) l1" if o: "lq_ordered l" and b: "ms_vals (bottom l) = []"
  proof (rule ordered_atI)
    fix x z w e assume x: "x < nRung l" "x < z" "e \<in> set (rung l1 z w)"
    have e: "e \<in> set (rung l z w)" using x(3) fr by simp
    then have "z < nRung l" using inv_atD(3) [OF inv, of z w] by (metis empty_iff linorder_not_less list.set(1))
    then have "x \<noteq> nRung l - 1" using x(2) by linarith
    then show "before_rung l1 x e" using ordered_atD(1) [OF o x(1,2) e] before_rung_cong [of l1 x l] fr by simp
  qed (use fr b in simp)
  then show ?thesis
    using findBucket_inv [OF assms] fr findBucket_outside [OF f] rungsEvents_cong [of l1 l] by (simp add: keeps_def narrow_at_def)
qed

lemma keeps_drop:
  assumes inv: "lq_inv l" and n: "nRung l \<noteq> 0" and f: "findBucket l = (l1, y)" and y: "y = NUM_BUCKETS l (nRung l - 1)"
  shows "keeps l (dropRung l1)"
proof -
  note fr = findBucket_frame [OF f]
  have same: "numBucket l1 x = numBucket l x \<and> rCur l1 x = rCur l x" if "x < nRung l - 1" for x using fr that by simp
  have "rungEmpty l (nRung l - 1)" using findBucket_index(2) [OF f] y by (simp add: rungEmpty_def)
  moreover have "rung_ok l1 x" if "x < nRung l - 1" for x
    using rung_ok_cong [of l1 x l] fr same [OF that] inv_atD(2) [OF inv, of x] that by simp
  ultimately have "lq_inv (dropRung l1)"
    using n findBucket_outside [OF f] by (intro dropRung_inv [OF inv]) simp_all
  moreover have "ordered_at (nRung l - 1) (dropRung l1)" if "lq_ordered l"
    using same fr dropRung_others [of _ l1] by (intro ordered_at_less [OF that]) simp_all
  moreover have "narrow_at (nRung l - 1) (dropRung l1)" if "lq_narrow l"
    using fr dropRung_others [of _ l1] by (intro narrow_at_less [OF that]) simp_all
  moreover have "rungsEvents (dropRung l1) = rungsEvents l" using fr by (intro rungsEvents_cong) simp_all
  ultimately show ?thesis using fr same_outside_trans [OF _ dropRung_outside] findBucket_outside [OF f] by (simp add: keeps_def)
qed

lemma keeps_split:
  assumes "splittable l y" and "create_new_rung (length (rung l (nRung l - 1) y)) (rCur l (nRung l - 1)) l = (l2, st, True)"
    and "splitBucket y l2 = Some l3"
  shows "keeps l l3"
  using split_inv [OF assms] split_ordered [OF assms] split_narrow [OF assms] splitBucket_fields(1,10) [OF assms]
  by (simp add: keeps_def)

definition gaveUp :: "ladder \<Rightarrow> bool" where
  "gaveUp l \<longleftrightarrow> nRung l = 0 \<or> \<not> lq_narrow l \<or> 65535 < numRung0Buckets l"

definition recursed :: "ladder \<Rightarrow> ladder \<Rightarrow> nat option \<Rightarrow> bool" where
  "recursed l l' r \<longleftrightarrow> keeps l l' \<and> (case r of None \<Rightarrow> gaveUp l' | Some y \<Rightarrow> found l' y)"

lemma recursed_trans: "keeps l l1 \<Longrightarrow> recursed l1 l' r \<Longrightarrow> recursed l l' r"
  using keeps_trans unfolding recursed_def by blast

lemma recursed_found:
  assumes "keeps l l'" and "found l' y"
  shows "recursed l l' (bucketResult y)"
proof (cases "bucketResult y")
  case None
  then have y: "y = 65535" by (simp add: bucketResult_def split: if_splits)
  have "y < NUM_BUCKETS l' (nRung l' - 1)" using assms(2) by (simp add: found_def)
  then have "65535 < numRung0Buckets l'" using y by (simp add: NUM_BUCKETS_def split: if_splits)
  then show ?thesis using assms(1) None by (simp add: recursed_def gaveUp_def)
next
  case (Some z)
  then show ?thesis using assms by (simp add: recursed_def bucketResult_def split: if_splits)
qed

lemma recurse_rung_drop:
  assumes "nRung l \<noteq> 0" and "nRung l \<le> 8" and "findBucket l = (l1, y)" and "NUM_BUCKETS l1 (nRung l1 - 1) = y"
  shows "recurse_rung l = recurse_rung (dropRung l1)"
  using assms by (subst recurse_rung.simps) simp

lemma recurse_rung_small:
  assumes "nRung l \<noteq> 0" and "nRung l \<le> 8" and "findBucket l = (l1, y)" and "NUM_BUCKETS l1 (nRung l1 - 1) \<noteq> y"
    and "length (rung l1 (nRung l1 - 1) y) \<le> 50"
  shows "recurse_rung l = Some (l1, bucketResult y)"
  using assms by (subst recurse_rung.simps) simp

lemma recurse_rung_split:
  assumes "nRung l \<noteq> 0" and "nRung l \<le> 8" and "findBucket l = (l1, y)" and "NUM_BUCKETS l1 (nRung l1 - 1) \<noteq> y"
    and "50 < length (rung l1 (nRung l1 - 1) y)"
    and "create_new_rung (length (rung l1 (nRung l1 - 1) y)) (rCur l1 (nRung l1 - 1)) l1 = (l2, st, created)"
  shows "\<not> created \<Longrightarrow> recurse_rung l = Some (l2, if st then bucketResult y else None)"
    and "created \<Longrightarrow> splitBucket y l2 = Some l3 \<Longrightarrow> recurse_rung l = recurse_rung l3"
  using assms by (subst recurse_rung.simps, simp)+

text \<open>A split is refused when the buckets cannot get narrower, and when there are eight rungs.\<close>

lemma create_new_rung_refused:
  assumes "create_new_rung n v l = (l2, st, False)" and "nRung l \<noteq> 0" and "n \<noteq> 0" and "nRung l \<le> 8" and "\<not> st"
  shows "l2 = l \<and> \<not> lq_narrow l"
proof -
  have e: "l2 = l" "nRung l = 8" "1 < bucketWidth l 7"
    using assms by (simp_all add: create_new_rung_def Let_def split: if_splits)
  then have "\<not> bucketWidth l 7 \<le> 51 ^ (6 - 7)" by simp
  moreover have "7 < nRung l" using e(2) by simp
  ultimately show ?thesis using e(1) unfolding narrow_at_def by blast
qed

lemma create_new_rung_static: "create_new_rung n v l = (l2, True, False) \<Longrightarrow> l2 = l"
  by (simp add: create_new_rung_def Let_def split: if_splits)

lemma recurse_split_ok:
  assumes n: "nRung l \<noteq> 0" "nRung l \<le> 8" and f: "findBucket l = (l1, y)" and ny: "NUM_BUCKETS l1 (nRung l1 - 1) \<noteq> y"
    and sp: "splittable l1 y" and k: "keeps l l1"
    and IH: "\<And>l3. recursionRank l3 < recursionRank l \<Longrightarrow> lq_inv l3 \<Longrightarrow> \<exists>l' r. recurse_rung l3 = Some (l', r) \<and> recursed l3 l' r"
  shows "\<exists>l' r. recurse_rung l = Some (l', r) \<and> recursed l l' r"
proof -
  have fd: "found l1 y" and len: "50 < length (rung l1 (nRung l1 - 1) y)" using sp by (simp_all add: splittable_def)
  have n1: "nRung l1 \<noteq> 0" "nRung l1 \<le> 8" using n findBucket_frame [OF f] by simp_all
  obtain l2 st created where c: "create_new_rung (length (rung l1 (nRung l1 - 1) y)) (rCur l1 (nRung l1 - 1)) l1 = (l2, st, created)"
    by (metis prod_cases3)
  note step = recurse_rung_split [OF n f ny len c]
  show ?thesis
  proof (cases created)
    case True
    then have ct: "create_new_rung (length (rung l1 (nRung l1 - 1) y)) (rCur l1 (nRung l1 - 1)) l1 = (l2, st, True)" using c by simp
    obtain l3 where l3: "splitBucket y l2 = Some l3" using splitBucket_ok [OF sp ct] by blast
    have k3: "keeps l1 l3" using keeps_split [OF sp ct l3] .
    have "recursionRank l3 < recursionRank l1" using recursionRank_split [OF ct l3] fd n1(1) unfolding found_def by blast
    then obtain l' r where "recurse_rung l3 = Some (l', r)" "recursed l3 l' r"
      using IH k3 recursionRank_findBucket [OF f] unfolding keeps_def by metis
    then show ?thesis using recursed_trans [OF keeps_trans [OF k k3]] step(2) [OF True l3] by auto
  next
    case False
    show ?thesis
    proof (cases st)
      case True
      then have "l2 = l1" using create_new_rung_static c False by simp
      then show ?thesis using step(1) [OF False] True recursed_found [OF k fd] by auto
    next
      case ns: False
      have "create_new_rung (length (rung l1 (nRung l1 - 1) y)) (rCur l1 (nRung l1 - 1)) l1 = (l2, st, False)" using c False by simp
      moreover have "length (rung l1 (nRung l1 - 1) y) \<noteq> 0" using len by linarith
      ultimately have "l2 = l1 \<and> \<not> lq_narrow l1" using create_new_rung_refused [OF _ n1(1) _ n1(2) ns] by blast
      then have "recurse_rung l = Some (l1, None)" "recursed l l1 None" using step(1) [OF False] ns k by (simp_all add: recursed_def gaveUp_def)
      then show ?thesis by blast
    qed
  qed
qed

lemma recurse_rung_ok: "lq_inv l \<Longrightarrow> \<exists>l' r. recurse_rung l = Some (l', r) \<and> recursed l l' r"
proof (induction "recursionRank l" arbitrary: l rule: less_induct)
  case less
  show ?case
  proof (cases "nRung l = 0")
    case True
    then show ?thesis using keeps_refl [OF less(2)] by (subst recurse_rung.simps) (simp add: recursed_def gaveUp_def)
  next
    case n: False
    have n8: "nRung l \<le> 8" using inv_atD(1) [OF less(2)] .
    obtain l1 y where f: "findBucket l = (l1, y)" by fastforce
    note fr = findBucket_frame [OF f]
    have rank: "recursionRank l1 = recursionRank l" using recursionRank_findBucket [OF f] .
    show ?thesis
    proof (cases "NUM_BUCKETS l1 (nRung l1 - 1) = y")
      case True
      have k: "keeps l (dropRung l1)" using keeps_drop [OF less(2) n f] True fr by simp
      have "rungEmpty l1 (nRung l1 - 1)" using findBucket_index(2) [OF f] fr True by (simp add: rungEmpty_def)
      then have "recursionRank (dropRung l1) < recursionRank l" using recursionRank_drop [of l1] fr n n8 rank by simp
      then obtain l' r where "recurse_rung (dropRung l1) = Some (l', r)" "recursed (dropRung l1) l' r"
        using less(1) k unfolding keeps_def by blast
      then show ?thesis using recursed_trans [OF k] recurse_rung_drop [OF n n8 f True] by auto
    next
      case ny: False
      then have y: "y < NUM_BUCKETS l (nRung l - 1)" using findBucket_index(1) [OF f] fr by simp
      have k: "keeps l l1" and fd: "found l1 y" using keeps_find [OF less(2) n f y] findBucket_found [OF less(2) n f y] .
      show ?thesis
      proof (cases "50 < length (rung l1 (nRung l1 - 1) y)")
        case False
        then show ?thesis using recurse_rung_small [OF n n8 f ny] recursed_found [OF k fd] by auto
      next
        case len: True
        then have sp: "splittable l1 y" using k fd by (simp add: splittable_def keeps_def)
        show ?thesis using less(1) by (intro recurse_split_ok [OF n n8 f ny sp k]) simp
      qed
    qed
  qed
qed


subsection \<open>Taking a bucket\<close>

lemma nextBucket_found:
  assumes "y + 1 < numBucket l x" and "rung l x (numBucket l x - 1) \<noteq> []" and "numBucket l x \<le> NUM_BUCKETS l x" and "x < 8"
  shows "\<exists>z. nextBucket x y l = Some z \<and> y < z \<and> z < numBucket l x \<and> rung l x z \<noteq> [] \<and> (\<forall>j. y < j \<longrightarrow> j < z \<longrightarrow> rung l x j = [])"
  using assms
proof (induction x y l rule: nextBucket.induct)
  case (1 x y l)
  have R: "RUNG l x (y + 1) = Some (rung l x (y + 1))" using 1(2,4,5) by (simp add: RUNG_def)
  show ?case
  proof (cases "rung l x (y + 1) = []")
    case False
    have "nextBucket x y l = Some (y + 1)" using 1(2) R False by (subst nextBucket.simps) simp
    then show ?thesis using 1(2) False by auto
  next
    case True
    have "numBucket l x - 1 \<noteq> y + 1" using 1(3) True by metis
    then have "y + 1 + 1 < numBucket l x" using 1(2) by linarith
    from 1(1) [OF 1(2) R True this 1(3,4,5)] obtain z where z: "nextBucket x (y + 1) l = Some z" "y + 1 < z" "z < numBucket l x"
      "rung l x z \<noteq> []" "\<forall>j. y + 1 < j \<longrightarrow> j < z \<longrightarrow> rung l x j = []" by blast
    have "nextBucket x y l = Some z" using 1(2) R True z(1) by (subst nextBucket.simps) simp
    moreover have "rung l x j = []" if "y < j" "j < z" for j using z(5) True that by (cases "j = y + 1") simp_all
    ultimately show ?thesis using z by (intro exI [of _ z]) simp
  qed
qed

lemma dropRungs_ok:
  assumes "inv_at (nRung l - 1) l" and "nRung l \<noteq> 0"
  shows "lq_inv (dropRungs l) \<and> same_outside l (dropRungs l) \<and> rung (dropRungs l) = rung l \<and>
    (ordered_at (nRung l - 1) l \<longrightarrow> lq_ordered (dropRungs l)) \<and> (lq_narrow l \<longrightarrow> lq_narrow (dropRungs l))"
  using assms
proof (induction l rule: dropRungs.induct)
  case (1 l)
  let ?d = "dropRung l"
  have inv: "lq_inv ?d"
  proof -
    have "rung_ok ?d x" if "x < nRung l - 1" for x
      using rung_ok_cong [of ?d x l] dropRung_others [of x l] inv_atD(2) [OF 1(2) that] that by simp
    moreover have "rungsEvents ?d = rungsEvents l" by (rule rungsEvents_cong) simp_all
    ultimately have "inv_at (nRung l - 1) ?d" using inv_atD(1,3) [OF 1(2)] by (intro inv_at_rungs [OF 1(2) dropRung_outside]) simp_all
    then show ?thesis by simp
  qed
  have ord: "lq_ordered ?d" if "ordered_at (nRung l - 1) l"
  proof -
    have "ordered_at (nRung l - 1) ?d" using dropRung_others [of _ l] by (intro ordered_at_less [OF that]) simp_all
    then show ?thesis by simp
  qed
  have nar: "lq_narrow ?d" if "lq_narrow l"
  proof -
    have "narrow_at (nRung l - 1) ?d" using dropRung_others [of _ l] by (intro narrow_at_less [OF that]) simp_all
    then show ?thesis by simp
  qed
  show ?case
  proof (cases "nRung ?d \<noteq> 0 \<and> numBucket ?d (nRung ?d - 1) = 0")
    case False
    have "dropRungs l = ?d" by (subst dropRungs.simps) (rule if_not_P [OF False])
    then show ?thesis using inv ord nar dropRung_outside [of l] by simp
  next
    case True
    have "rung ?d x y = []" if "nRung ?d - 1 \<le> x" for x y
    proof (cases "x = nRung ?d - 1")
      case x: True
      have "x < nRung ?d" using conjunct1 [OF True] unfolding x by linarith
      then have "counted ?d x" using inv_atD(2) [OF inv, of x] by (simp add: rung_ok_def)
      then show ?thesis using True x unfolding counted_def by simp
    qed (use inv_atD(3) [OF inv, of x y] that in simp)
    then have "inv_at (nRung ?d - 1) ?d" using inv_atD(1,2) [OF inv] by (intro inv_at_rungs [OF inv]) (simp_all add: same_outside_def)
    moreover have "dropRungs l = dropRungs ?d" by (subst dropRungs.simps) (rule if_P [OF True])
    moreover have "ordered_at (nRung ?d - 1) ?d" if "ordered_at (nRung l - 1) l" by (rule ordered_at_less [OF ord [OF that]]) simp_all
    ultimately show ?thesis using 1(1) [OF True] True nar same_outside_trans [OF dropRung_outside, of l] by simp
  qed
qed


definition moved :: "nat \<Rightarrow> ladder \<Rightarrow> ladder" where
  "moved y l = setBucket (nRung l - 1) y []
     (l\<lparr>bottom := ms_insert_range receiveTimeLessThanEventIdLessThan (rung l (nRung l - 1) y) (bottom l)\<rparr>)"

lemma moved_frame [simp]:
  "lq_top (moved y l) = lq_top l" "maxTS (moved y l) = maxTS l" "minTS (moved y l) = minTS l" "topStart (moved y l) = topStart l"
  "nRung (moved y l) = nRung l" "numRung0Buckets (moved y l) = numRung0Buckets l" "bucketWidth (moved y l) = bucketWidth l"
  "numBucket (moved y l) = numBucket l" "rStart (moved y l) = rStart l" "rCur (moved y l) = rCur l" "NUM_BUCKETS (moved y l) = NUM_BUCKETS l"
  "rung (moved y l) = (rung l)(nRung l - 1 := (rung l (nRung l - 1))(y := []))"
  "mset (ms_vals (bottom (moved y l))) = mset (rung l (nRung l - 1) y) + mset (ms_vals (bottom l))"
  by (simp_all add: moved_def NUM_BUCKETS_def fun_eq_iff mset_ms_insert_range)

lemma found_rung:
  assumes "lq_inv l" and "found l y"
  shows "nRung l \<noteq> 0" and "nRung l - 1 < 8" and "y < NUM_BUCKETS l (nRung l - 1)" and "rung_ok l (nRung l - 1)"
    and "\<And>x. nRung l - 1 < x \<Longrightarrow> rung l x z = []"
  using assms inv_atD(1,2,3) [OF assms(1)] by (auto simp: found_def)

lemma moveToBottom_moved:
  assumes "lq_inv l" and "found l y"
  shows "moveToBottom (nRung l - 1) y l = Some (moved y l)"
  using found_rung(2,3) [OF assms] by (simp add: moveToBottom_def RUNG_def moved_def)

lemma moved_events:
  assumes "lq_inv l" and "found l y"
  shows "rungsEvents (moved y l) + mset (ms_vals (bottom (moved y l))) = rungsEvents l + mset (ms_vals (bottom l))"
proof -
  let ?r = "nRung l - 1"
  have "rungsEvents (setBucket ?r y [] l) + mset (rung l ?r y) = rungsEvents l"
    using rungsEvents_setBucket [OF found_rung(2,3) [OF assms], of "[]"] by simp
  moreover have "rungsEvents (moved y l) = rungsEvents (setBucket ?r y [] l)" by (rule rungsEvents_cong) simp_all
  ultimately show ?thesis by (simp add: ac_simps)
qed

lemma moved_bottom: "lq_inv l \<Longrightarrow> ms_inv receiveTimeLessThanEventIdLessThan (bottom (moved y l))"
  by (simp add: moved_def recv_order.ms_inv_insert_range inv_atD(4))

text \<open>The events of the bucket are before the rest of the rung, and before the rungs above.\<close>

lemma moved_below:
  assumes inv: "lq_inv l" and fd: "found l y" and o: "lq_ordered l" and b: "ms_vals (bottom l) = []"
    and e: "e \<in> set (ms_vals (bottom (moved y l)))"
  shows "x < nRung l - 1 \<Longrightarrow> before_rung l x e"
    and "y < z \<Longrightarrow> rung l (nRung l - 1) z \<noteq> [] \<Longrightarrow> tm e < bucketStart l (nRung l - 1) z"
proof -
  let ?r = "nRung l - 1"
  have "e \<in># mset (ms_vals (bottom (moved y l)))" using e unfolding set_mset_mset .
  then have er: "e \<in> set (rung l ?r y)" unfolding moved_frame(13) using b by simp
  show "before_rung l x e" if "x < ?r" using ordered_atD(1) [OF o _ that er] that by simp
  show "tm e < bucketStart l ?r z" if z: "y < z" "rung l ?r z \<noteq> []"
  proof -
    have ok: "rung_ok l ?r" using found_rung(4) [OF inv fd] .
    then have wp: "width l ?r" "placed l ?r" by (simp_all add: rung_ok_def)
    obtain f where f: "f \<in> set (rung l ?r z)" using z(2) by (cases "rung l ?r z") auto
    have "y < NUM_BUCKETS l ?r - 1" using placedD(1) [OF wp(2) f] z(1) by linarith
    then have "tm e < rStart l ?r + (y + 1) * bucketWidth l ?r" using bucketOf_end [OF wp(1), of "tm e"] placedD(4) [OF wp(2) er] by simp
    also have "\<dots> \<le> rStart l ?r + z * bucketWidth l ?r" using z(1) by (intro add_left_mono mult_le_mono1) simp
    finally show ?thesis using bucketStart_found(1) [OF ok z(2)] by simp
  qed
qed

text \<open>The rung goes on at its next bucket.\<close>

definition nextCur :: "nat \<Rightarrow> ladder \<Rightarrow> ladder" where
  "nextCur z l = l\<lparr>rCur := (rCur l)(nRung l - 1 := bucketStart l (nRung l - 1) z)\<rparr>"

lemma take_next:
  assumes inv: "lq_inv l" and fd: "found l y" and z: "y < z" "rung l (nRung l - 1) z \<noteq> []" "\<And>j. y < j \<Longrightarrow> j < z \<Longrightarrow> rung l (nRung l - 1) j = []"
    and last: "numBucket l (nRung l - 1) \<noteq> y + 1"
  shows "lq_inv (nextCur z (moved y l))"
    and "ms_vals (bottom l) = [] \<Longrightarrow> lq_ordered l \<Longrightarrow> lq_ordered (nextCur z (moved y l))"
proof -
  let ?r = "nRung l - 1" and ?l = "nextCur z (moved y l)"
  note r = found_rung [OF inv fd]
  have low: "\<forall>j<y. rung l ?r j = []" using fd by (simp add: found_def)
  have bs: "bucketStart (moved y l) ?r z = bucketStart l ?r z" by (simp add: bucketStart_def)
  have c: "rCur ?l = (rCur l)(?r := bucketStart l ?r z)" unfolding nextCur_def using bs by simp
  have NB: "NUM_BUCKETS ?l = NUM_BUCKETS l" unfolding nextCur_def by simp
  have ok: "rung_ok ?l ?r"
  proof -
    have "width ?l ?r" "placed ?l ?r" using r(4) NB unfolding rung_ok_def rung_defs by (simp_all add: nextCur_def)
    moreover have "counted ?l ?r" using r(4) last unfolding rung_ok_def counted_def by (simp add: nextCur_def) linarith
    moreover have "z < NUM_BUCKETS l ?r" using r(4) z(2) unfolding rung_ok_def placed_def by (metis last_in_set)
    moreover have "rung ?l ?r j = []" if "j < z" for j
      using low z(3) [of j] that by (cases "j < y"; cases "j = y") (simp_all add: nextCur_def)
    then have "started ?l ?r" unfolding started_def c NB
      using bucketStart_found [OF r(4) z(2)] \<open>z < NUM_BUCKETS l ?r\<close> by (intro conjI exI [of _ z]) (simp_all add: nextCur_def)
    ultimately show ?thesis by (simp add: rung_ok_def)
  qed
  have "rung_ok ?l x" if "x < nRung l" for x
  proof (cases "x = ?r")
    case False
    then show ?thesis using rung_ok_cong [of ?l x l] inv_atD(2) [OF inv that] NB c by (simp add: nextCur_def)
  qed (use ok in simp)
  moreover have "rungsEvents ?l = rungsEvents (moved y l)" by (rule rungsEvents_cong) (simp_all add: nextCur_def)
  ultimately have "inv_at (nRung l) ?l"
    using inv_atD(1) [OF inv] r(1) inv_atD(3) [OF inv] moved_events [OF inv fd] moved_bottom [OF inv]
    by (intro inv_at_moved [OF inv]) (simp_all add: nextCur_def)
  then show "lq_inv ?l" by (simp add: nextCur_def)
  assume b: "ms_vals (bottom l) = []" and o: "lq_ordered l"
  have "ordered_at (nRung l) ?l"
  proof (rule ordered_atI)
    fix x w v e assume x: "x < nRung l" "x < w" and e: "e \<in> set (rung ?l w v)"
    have el: "e \<in> set (rung l w v)" using e by (simp add: nextCur_def split: if_splits)
    then have "w \<le> ?r" using r(5) [of w v] by (metis empty_iff linorder_not_less list.set(1))
    then have "x \<noteq> ?r" using x(2) by linarith
    then show "before_rung ?l x e" using ordered_atD(1) [OF o x el] before_rung_cong [of ?l x l] c by (simp add: nextCur_def)
  next
    fix x e assume x: "x < nRung l" and "e \<in> set (ms_vals (bottom ?l))"
    then have e: "e \<in> set (ms_vals (bottom (moved y l)))" by (simp add: nextCur_def)
    show "before_rung ?l x e"
    proof (cases "x = ?r")
      case True
      then show ?thesis using moved_below(2) [OF inv fd o b e z(1,2)] c by (simp add: before_rung_def)
    next
      case False
      then show ?thesis using moved_below(1) [OF inv fd o b e, of x] before_rung_cong [of ?l x l] c x by (simp add: nextCur_def)
    qed
  qed
  then show "lq_ordered ?l" by (simp add: nextCur_def)
qed

text \<open>The bucket was the last one of its rung.\<close>

lemma take_last:
  assumes inv: "lq_inv l" and fd: "found l y" and last: "numBucket l (nRung l - 1) = y + 1"
  shows "inv_at (nRung l - 1) (moved y l)"
    and "ms_vals (bottom l) = [] \<Longrightarrow> lq_ordered l \<Longrightarrow> ordered_at (nRung l - 1) (moved y l)"
proof -
  let ?r = "nRung l - 1"
  note r = found_rung [OF inv fd]
  have low: "\<forall>j<y. rung l ?r j = []" using fd by (simp add: found_def)
  have none: "rung (moved y l) x j = []" if "?r \<le> x" for x j
  proof (cases "x = ?r")
    case True
    have "rung l ?r j = []" if "y < j" using r(4) last that unfolding rung_ok_def counted_def by simp
    then show ?thesis using True low by (cases "j < y"; cases "j = y") simp_all
  next
    case False
    then show ?thesis using r(5) [of x j] that by simp
  qed
  have "rung_ok (moved y l) x" if "x < ?r" for x using rung_ok_cong [of "moved y l" x l] inv_atD(2) [OF inv, of x] that by simp
  then show "inv_at ?r (moved y l)"
    using inv_atD(1) [OF inv] none moved_events [OF inv fd] moved_bottom [OF inv] by (intro inv_at_moved [OF inv]) simp_all
  assume b: "ms_vals (bottom l) = []" and o: "lq_ordered l"
  show "ordered_at ?r (moved y l)"
  proof (rule ordered_atI)
    fix x w v e assume x: "x < ?r" "x < w" and e: "e \<in> set (rung (moved y l) w v)"
    have "e \<in> set (rung l w v)" using e by (simp split: if_splits)
    then show "before_rung (moved y l) x e" using ordered_atD(1) [OF o _ x(2)] x(1) before_rung_cong [of "moved y l" x l] by simp
  next
    fix x e assume "x < ?r" "e \<in> set (ms_vals (bottom (moved y l)))"
    then show "before_rung (moved y l) x e" using moved_below(1) [OF inv fd o b] before_rung_cong [of "moved y l" x l] by simp
  qed
qed


definition served :: "ladder \<Rightarrow> ladder \<Rightarrow> bool" where
  "served l l' \<longleftrightarrow> lq_inv l' \<and> contents l' = contents l \<and> lq_top l' = lq_top l \<and> numRung0Buckets l' = numRung0Buckets l \<and>
     ms_vals (bottom l') \<noteq> [] \<and> (ms_vals (bottom l) = [] \<longrightarrow> lq_ordered l \<longrightarrow> lq_ordered l') \<and> (lq_narrow l \<longrightarrow> lq_narrow l')"

lemma moved_contents: "lq_inv l \<Longrightarrow> found l y \<Longrightarrow> contents (moved y l) = contents l"
  using moved_events [of l y] by (simp add: contents_def add.assoc)

lemma moved_not_empty:
  assumes "found l y"
  shows "ms_vals (bottom (moved y l)) \<noteq> []"
proof
  assume "ms_vals (bottom (moved y l)) = []"
  then have "mset (rung l (nRung l - 1) y) + mset (ms_vals (bottom l)) = {#}" using moved_frame(13) [of y l] by simp
  then show False using assms by (simp add: found_def)
qed

lemma contents_cong:
  "lq_top l' = lq_top l \<Longrightarrow> bottom l' = bottom l \<Longrightarrow> rung l' = rung l \<Longrightarrow> NUM_BUCKETS l' = NUM_BUCKETS l \<Longrightarrow> contents l' = contents l"
  using rungsEvents_cong [of l' l] by (simp add: contents_def)

lemma served_last:
  assumes inv: "lq_inv l" and fd: "found l y" and last: "numBucket l (nRung l - 1) = y + 1"
  shows "served l (dropRung (moved y l))" and "served l (dropRungs (moved y l))"
proof -
  note t = take_last [OF assms] and n = found_rung(1) [OF inv fd]
  let ?m = "moved y l"
  have "lq_inv (dropRung ?m)"
  proof -
    have "rung_ok (dropRung ?m) x" if "x < nRung l - 1" for x
      using rung_ok_cong [of "dropRung ?m" x ?m] dropRung_others [of x ?m] inv_atD(2) [OF t(1) that] that by simp
    moreover have "rungsEvents (dropRung ?m) = rungsEvents ?m" by (rule rungsEvents_cong) simp_all
    ultimately have "inv_at (nRung l - 1) (dropRung ?m)"
      using inv_atD(1,3) [OF t(1)] by (intro inv_at_rungs [OF t(1) dropRung_outside]) simp_all
    then show ?thesis by simp
  qed
  moreover have "ordered_at (nRung l - 1) (dropRung ?m)" if "ms_vals (bottom l) = []" "lq_ordered l"
    using dropRung_others [of _ ?m] by (intro ordered_at_less [OF t(2) [OF that]]) simp_all
  moreover have "narrow_at (nRung l - 1) (dropRung ?m)" if "lq_narrow l"
    using dropRung_others [of _ ?m] by (intro narrow_at_less [OF that]) simp_all
  moreover have "contents (dropRung ?m) = contents l" using moved_contents [OF inv fd] contents_cong [of "dropRung ?m" ?m] by simp
  ultimately show "served l (dropRung ?m)" using moved_not_empty [OF fd] by (simp add: served_def)
  note d = dropRungs_ok [of ?m]
  have "contents (dropRungs ?m) = contents l"
    using moved_contents [OF inv fd] contents_cong [of "dropRungs ?m" ?m] d t(1) n same_outside_NUM [of ?m "dropRungs ?m"] by (simp add: same_outside_def)
  moreover have "lq_narrow ?m" if "lq_narrow l" using that by (simp add: narrow_at_def)
  ultimately show "served l (dropRungs ?m)" using d t n moved_not_empty [OF fd] by (simp add: served_def same_outside_def)
qed

lemma served_next:
  assumes inv: "lq_inv l" and fd: "found l y" and last: "numBucket l (nRung l - 1) \<noteq> y + 1"
  shows "\<exists>z. nextBucket (nRung l - 1) y (moved y l) = Some z \<and> z < numBucket l (nRung l - 1) \<and> served l (nextCur z (moved y l))"
proof -
  let ?r = "nRung l - 1" and ?m = "moved y l"
  note r = found_rung [OF inv fd]
  have cp: "counted l ?r" "placed l ?r" using r(4) by (simp_all add: rung_ok_def)
  have y: "y < numBucket l ?r" using counted_not_empty [OF cp(1)] fd by (simp add: found_def)
  then have nb: "y + 1 < numBucket l ?r" using last by linarith
  have ne: "rung l ?r (numBucket l ?r - 1) \<noteq> []" using cp(1) y unfolding counted_def by simp
  then have "numBucket l ?r - 1 < NUM_BUCKETS l ?r" using cp(2) unfolding placed_def by (metis last_in_set)
  then have "numBucket ?m ?r \<le> NUM_BUCKETS ?m ?r" by simp
  moreover have "rung ?m ?r (numBucket ?m ?r - 1) \<noteq> []" using ne nb by simp
  ultimately obtain z where z: "nextBucket ?r y ?m = Some z" "y < z" "z < numBucket ?m ?r" "rung ?m ?r z \<noteq> []"
    "\<forall>j. y < j \<longrightarrow> j < z \<longrightarrow> rung ?m ?r j = []" using nextBucket_found [of y ?m ?r] nb r(2) unfolding moved_frame(8) by blast
  have "contents (nextCur z ?m) = contents l"
    using moved_contents [OF inv fd] contents_cong [of "nextCur z ?m" ?m] by (simp add: nextCur_def)
  moreover have "lq_narrow (nextCur z ?m)" if "lq_narrow l" using that by (simp add: narrow_at_def nextCur_def)
  ultimately have "served l (nextCur z ?m)" 
    using take_next [OF inv fd z(2) _ _ last] z(2,4,5) moved_not_empty [OF fd] by (simp add: served_def nextCur_def)
  then show ?thesis using z by simp
qed

lemma takeBucket_ok:
  assumes "lq_inv l" and "found l y"
  shows "\<exists>l'. takeBucket y l = Some (l', ms_front (bottom l')) \<and> served l l'"
proof (cases "numBucket l (nRung l - 1) = y + 1")
  case True
  then show ?thesis using served_last(2) [OF assms True] moveToBottom_moved [OF assms] by (simp add: takeBucket_def Let_def)
next
  case False
  then show ?thesis using served_next [OF assms False] moveToBottom_moved [OF assms] by (auto simp: takeBucket_def Let_def nextCur_def)
qed

lemma takeBucketOfTop_ok:
  assumes "lq_inv l" and "found l y"
  shows "\<exists>l'. takeBucketOfTop y l = Some (l', ms_front (bottom l')) \<and> served l l'"
proof (cases "numBucket l (nRung l - 1) = y + 1")
  case True
  then show ?thesis using served_last(1) [OF assms True] moveToBottom_moved [OF assms] by (simp add: takeBucketOfTop_def Let_def)
next
  case False
  then show ?thesis using served_next [OF assms False] moveToBottom_moved [OF assms] by (auto simp: takeBucketOfTop_def Let_def nextCur_def)
qed


subsection \<open>The top becomes the first rung\<close>

lemma create_first_rung:
  assumes inv: "lq_inv l" and n: "nRung l = 0" and t: "lq_top l \<noteq> []"
  shows "\<exists>l1. create_new_rung (length (lq_top l)) (minTS l) l = (l1, False, True) \<and> lq_top l1 = lq_top l \<and> maxTS l1 = maxTS l \<and> minTS l1 = minTS l \<and>
    topStart l1 = maxTS l \<and> bottom l1 = bottom l \<and> rung l1 = rung l \<and> nRung l1 = 1 \<and>
    numRung0Buckets l1 = max (numRung0Buckets l) (2 * length (lq_top l)) \<and> rStart l1 0 = minTS l \<and> rCur l1 0 = minTS l \<and>
    numBucket l1 0 = 0 \<and> 0 < bucketWidth l1 0 \<and> bucketWidth l1 0 \<le> 2 ^ 31"
proof -
  let ?N = "length (lq_top l)"
  have N: "0 < ?N" using t by simp
  have "?N < 2 ^ 31" using inv_atD(8) [OF inv] by (simp add: contents_def)
  have m: "minTS l \<le> maxTS l" "maxTS l < 2 ^ 31" using inv_atD(5) [OF inv] t by (auto simp: top_ok_def neq_Nil_conv)
  have w: "0 < wrap32 (maxTS l - minTS l + ?N - 1) div ?N \<and> wrap32 (maxTS l - minTS l + ?N - 1) div ?N \<le> 2 ^ 31" if "minTS l \<noteq> maxTS l"
    using create_new_rung_width(1,2) [of "maxTS l - minTS l" ?N] m N \<open>?N < 2 ^ 31\<close> that by fastforce
  show ?thesis using n N m w by (auto simp: create_new_rung_def)
qed

lemma rung_ok_new:
  assumes "\<And>y. rung l x y = []" and "width l x" and "numBucket l x = 0" and "rCur l x = rStart l x" and "rStart l x < 2 ^ 31" and "0 < NUM_BUCKETS l x"
  shows "rung_ok l x"
  using assms by (auto simp: rung_ok_def placed_def counted_def started_def)

lemma first_rung_filled:
  assumes inv: "lq_inv l" and n: "nRung l = 0" and t: "lq_top l \<noteq> []" and b: "ms_vals (bottom l) = []"
    and cr: "create_new_rung (length (lq_top l)) (minTS l) l = (l1, False, True)"
  shows "\<exists>l2. spread bucketFor 0 (lq_top l1) l1 = Some l2 \<and> lq_inv (l2\<lparr>lq_top := []\<rparr>) \<and> lq_ordered (l2\<lparr>lq_top := []\<rparr>) \<and>
    lq_narrow (l2\<lparr>lq_top := []\<rparr>) \<and> rungsEvents (l2\<lparr>lq_top := []\<rparr>) = mset (lq_top l) \<and> bottom l2 = bottom l \<and>
    numRung0Buckets l2 = max (numRung0Buckets l) (2 * length (lq_top l)) \<and> nRung l2 = 1"
proof -
  have f: "lq_top l1 = lq_top l" "maxTS l1 = maxTS l" "minTS l1 = minTS l" "topStart l1 = maxTS l" "bottom l1 = bottom l" "rung l1 = rung l" "nRung l1 = 1"
    "numRung0Buckets l1 = max (numRung0Buckets l) (2 * length (lq_top l))" "rStart l1 0 = minTS l" "rCur l1 0 = minTS l"
    "numBucket l1 0 = 0" "0 < bucketWidth l1 0" "bucketWidth l1 0 \<le> 2 ^ 31"
    using create_first_rung [OF inv n t] cr by auto
  have top: "timed e \<and> minTS l \<le> tm e \<and> tm e \<le> maxTS l" if "e \<in> set (lq_top l)" for e using inv_atD(5) [OF inv] that by (simp add: top_ok_def)
  have m: "maxTS l < 2 ^ 31" "minTS l \<le> maxTS l" using inv_atD(5) [OF inv] t by (auto simp: top_ok_def neq_Nil_conv)
  have none: "rung l x y = []" for x y using inv_atD(3) [OF inv, of x y] n by simp
  have "rung_ok l1 0" using f none m t by (intro rung_ok_new) (simp_all add: width_def NUM_BUCKETS_def less_max_iff_disj)
  moreover have "timed e \<and> rCur l1 0 \<le> tm e" if "e \<in> set (lq_top l)" for e using top [OF that] f(10) by simp
  ultimately obtain l2 where l2: "spread bucketFor 0 (lq_top l) l1 = Some l2" "rung_ok l2 0"
    using spread_ok [of bucketFor 0 l1 "lq_top l"] by (auto simp: selects_def)
  let ?l = "l2\<lparr>lq_top := []\<rparr>"
  note s = spread_frame [OF l2(1)]
  have "rungsEvents l1 = {#}" using none f(6) by (intro rungsEvents_none) simp
  then have "rungsEvents l2 = mset (lq_top l)" using spread_contents [OF l2(1)] by simp
  moreover have "rungsEvents ?l = rungsEvents l2" by (rule rungsEvents_cong) (simp_all add: NUM_BUCKETS_def fun_eq_iff)
  ultimately have ev: "rungsEvents ?l = mset (lq_top l)" by simp
  have none2: "rung ?l x y = []" if "1 \<le> x" for x y using s none f(6) that by simp
  have ok: "rung_ok ?l x" if "x < 1" for x using that l2(2) rung_ok_cong [of ?l 0 l2] by (simp add: NUM_BUCKETS_def)
  have "inv_at 1 ?l"
  proof (rule inv_at_intro [OF _ ok none2])
    show "ms_inv receiveTimeLessThanEventIdLessThan (bottom ?l)" using inv_atD(4) [OF inv] s f(5) by simp
    show "top_ok ?l" "topStart ?l < 2 ^ 31" using m s f(2,4) by (simp_all add: top_ok_def)
    show "timed e \<and> tm e \<le> topStart ?l" if "e \<in># rungsEvents ?l + mset (ms_vals (bottom ?l))" for e
      using that top s f(4,5) b unfolding ev by simp
    show "size (contents ?l) < 2 ^ 31" using inv_atD(8) [OF inv] s f(5) by (simp add: contents_def ev)
  qed simp_all
  moreover have "ordered_at 1 ?l" using none2 s f(5) b by (intro ordered_atI) simp_all
  moreover have "narrow_at 1 ?l" using s f(13) by (simp add: narrow_at_def)
  ultimately show ?thesis using l2(1) s f ev by simp
qed


subsection \<open>begin\<close>

definition roomy :: "ladder \<Rightarrow> bool" where
  "roomy l \<longleftrightarrow> numRung0Buckets l \<le> 65535 \<and> 2 * size (contents l) \<le> 65535"

definition begun :: "ladder \<Rightarrow> ladder \<Rightarrow> lq_event option \<Rightarrow> bool" where
  "begun l l' r \<longleftrightarrow> lq_inv l' \<and> contents l' = contents l \<and> r = ms_front (bottom l') \<and>
     (lq_ordered l \<longrightarrow> lq_ordered l') \<and> (lq_narrow l \<longrightarrow> lq_narrow l') \<and> (roomy l \<longrightarrow> roomy l') \<and>
     (lq_narrow l \<longrightarrow> roomy l \<longrightarrow> r = None \<longrightarrow> contents l = {#})"

lemma front_none_iff: "ms_front m = None \<longleftrightarrow> ms_vals m = []"
  by (simp add: ms_front_hd split: list.splits)

lemma front_none [simp]: "ms_vals m = [] \<Longrightarrow> ms_front m = None"
  by (simp add: front_none_iff)

lemma begun_served:
  assumes "keeps l l1" and "served l1 l'" and "ms_vals (bottom l) = []"
  shows "begun l l' (ms_front (bottom l'))"
proof -
  have "contents l1 = contents l" using assms(1) by (simp add: keeps_def contents_def same_outside_def)
  then have "contents l' = contents l" using assms(2) by (simp add: served_def)
  then show ?thesis using assms by (auto simp: begun_def keeps_def served_def same_outside_def roomy_def front_none_iff)
qed

lemma size_top: "length (lq_top l) \<le> size (contents l)"
  by (simp add: contents_def)

lemma beginTop_ok:
  assumes inv: "lq_inv l" and n: "nRung l = 0" and b: "ms_vals (bottom l) = []"
  shows "\<exists>l' r. beginTop l = Some (l', r) \<and> begun l l' r"
proof (cases "lq_top l = []")
  case True
  have "rungsEvents l = {#}" using inv_atD(3) [OF inv] n by (intro rungsEvents_none) simp
  then show ?thesis using True inv b by (simp add: beginTop_def begun_def front_none_iff contents_def)
next
  case t: False
  obtain l1 where cr: "create_new_rung (length (lq_top l)) (minTS l) l = (l1, False, True)" using create_first_rung [OF inv n t] by blast
  obtain l2 where l2: "spread bucketFor 0 (lq_top l1) l1 = Some l2" "lq_inv (l2\<lparr>lq_top := []\<rparr>)" "lq_ordered (l2\<lparr>lq_top := []\<rparr>)"
    "lq_narrow (l2\<lparr>lq_top := []\<rparr>)" "rungsEvents (l2\<lparr>lq_top := []\<rparr>) = mset (lq_top l)" "bottom l2 = bottom l"
    "numRung0Buckets l2 = max (numRung0Buckets l) (2 * length (lq_top l))" "nRung l2 = 1" using first_rung_filled [OF inv n t b cr] by blast
  let ?l = "l2\<lparr>lq_top := []\<rparr>"
  obtain l3 r where l3: "recurse_rung ?l = Some (l3, r)" "recursed ?l l3 r" using recurse_rung_ok [OF l2(2)] by blast
  have "rungsEvents l = {#}" using inv_atD(3) [OF inv] n by (intro rungsEvents_none) simp
  then have c: "contents ?l = contents l" using l2(5,6) by (simp add: contents_def)
  have roomy: "roomy ?l" if "roomy l" using that size_top [of l] c l2(7) by (simp add: roomy_def)
  have k: "keeps ?l l3" using l3(2) by (simp add: recursed_def)
  then have o: "lq_inv l3" "lq_ordered l3" "lq_narrow l3" "numRung0Buckets l3 = numRung0Buckets l2" "contents l3 = contents l" "bottom l3 = bottom l"
    using l2 b c by (simp_all add: keeps_def same_outside_def contents_def)
  show ?thesis
  proof (cases r)
    case None
    have "nRung l3 \<noteq> 0"
    proof
      assume "nRung l3 = 0"
      then have "rungsEvents l3 = {#}" using inv_atD(3) [OF o(1)] by (intro rungsEvents_none) simp
      then show False using k l2(5) t by (simp add: keeps_def)
    qed
    then have "\<not> roomy l" using l3(2) None o(3,4) roomy by (auto simp: recursed_def gaveUp_def roomy_def)
    then have "begun l l3 None" using o b by (simp add: begun_def front_none_iff)
    then show ?thesis using t cr l2(1) l3(1) None by (simp add: beginTop_def)
  next
    case (Some y)
    then obtain l' where l': "takeBucketOfTop y l3 = Some (l', ms_front (bottom l'))" "served l3 l'"
      using takeBucketOfTop_ok [OF o(1)] l3(2) by (auto simp: recursed_def)
    have "begun ?l l' (ms_front (bottom l'))" using begun_served [OF k l'(2)] b l2(6) by simp
    then have "begun l l' (ms_front (bottom l'))" using l2(3,4) c roomy by (simp add: begun_def)
    then show ?thesis using t cr l2(1) l3(1) Some l'(1) by (simp add: beginTop_def)
  qed
qed

lemma lq_begin_ok:
  assumes inv: "lq_inv l"
  shows "\<exists>l' r. lq_begin l = Some (l', r) \<and> begun l l' r"
proof (cases "ms_vals (bottom l) = []")
  case False
  then show ?thesis using inv by (simp add: lq_begin_def begun_def ms_isEmpty_iff front_none_iff)
next
  case b: True
  show ?thesis
  proof (cases "nRung l = 0")
    case True
    then show ?thesis using beginTop_ok [OF inv True b] b by (simp add: lq_begin_def ms_isEmpty_iff)
  next
    case n: False
    obtain l1 r where l1: "recurse_rung l = Some (l1, r)" "recursed l l1 r" using recurse_rung_ok [OF inv] by blast
    then have k: "keeps l l1" by (simp add: recursed_def)
    then have o: "lq_inv l1" "contents l1 = contents l" "bottom l1 = bottom l" "numRung0Buckets l1 = numRung0Buckets l"
      by (simp_all add: keeps_def same_outside_def contents_def)
    have kb: "begun l l' e" if "begun l1 l' e" for l' e
      using that k o b unfolding begun_def keeps_def roomy_def by simp
    show ?thesis
    proof (cases "nRung l1 = 0")
      case True
      then show ?thesis using beginTop_ok [OF o(1) True] kb b n l1(1) o(3) by (auto simp: lq_begin_def ms_isEmpty_iff)
    next
      case n1: False
      show ?thesis
      proof (cases r)
        case None
        then have "\<not> (lq_narrow l \<and> roomy l)" using l1(2) k n1 o(4) by (auto simp: recursed_def gaveUp_def keeps_def roomy_def)
        then have "begun l l1 None" using k o b by (auto simp: begun_def keeps_def front_none_iff roomy_def)
        then show ?thesis using b n n1 l1(1) None by (simp add: lq_begin_def ms_isEmpty_iff)
      next
        case (Some y)
        then obtain l' where l': "takeBucket y l1 = Some (l', ms_front (bottom l'))" "served l1 l'"
          using takeBucket_ok [OF o(1)] l1(2) by (auto simp: recursed_def)
        then show ?thesis using begun_served [OF k l'(2) b] b n n1 l1(1) Some by (simp add: lq_begin_def ms_isEmpty_iff)
      qed
    qed
  qed
qed


subsection \<open>The first event\<close>

lemma bottom_first:
  assumes "lq_inv l" and "lq_ordered l" and "ms_front (bottom l) = Some e" and "f \<in># contents l"
  shows "receiveTime e \<le> receiveTime f"
proof -
  have eb: "e \<in> set (ms_vals (bottom l))" using assms(3) by (simp add: ms_front_hd split: list.splits)
  then have e: "timed e" "tm e \<le> topStart l" using inv_atD(7) [OF assms(1) waiting_bottom] by simp_all
  consider "f \<in> set (lq_top l)" | "f \<in># rungsEvents l" | "f \<in> set (ms_vals (bottom l))" using assms(4) by (auto simp: contents_def)
  then show ?thesis
  proof cases
    case 1
    then have "timed f" "topStart l < tm f" using inv_atD(5) [OF assms(1)] by (simp_all add: top_ok_def)
    then show ?thesis using tm_receiveTime [OF e(1), of f] e(2) by linarith
  next
    case 2
    then obtain x y where f: "f \<in> set (rung l x y)" by (auto simp: rungsEvents_member)
    then have x: "x < nRung l" using inv_atD(3) [OF assms(1), of x y] by (metis empty_iff linorder_not_less list.set(1))
    have ok: "rung_ok l x" using inv_atD(2) [OF assms(1) x] .
    have "rung l x y \<noteq> []" using f by auto
    then have "0 < numBucket l x" using ok counted_not_empty [of l x y] by (simp add: rung_ok_def)
    then have "tm e < rCur l x" using ordered_atD(2) [OF assms(2) x eb] by (simp add: before_rung_def)
    also have "\<dots> \<le> tm f" using rCur_le [OF ok f] .
    finally show ?thesis using tm_receiveTime [OF e(1), of f] placedD(2) [OF _ f] ok by (simp add: rung_ok_def)
  next
    case 3
    then show ?thesis using recv_order.ms_front_minimal [OF inv_atD(4) [OF assms(1)] assms(3)] recv_order_time by blast
  qed
qed

subsection \<open>dequeue\<close>

definition dequeued :: "ladder \<Rightarrow> ladder \<Rightarrow> lq_event option \<Rightarrow> bool" where
  "dequeued l l' r \<longleftrightarrow> lq_inv l' \<and> (case r of None \<Rightarrow> contents l' = contents l | Some e \<Rightarrow> contents l = add_mset e (contents l')) \<and>
     (lq_ordered l \<longrightarrow> lq_ordered l') \<and> (lq_narrow l \<longrightarrow> lq_narrow l') \<and> (roomy l \<longrightarrow> roomy l') \<and>
     (lq_narrow l \<longrightarrow> roomy l \<longrightarrow> r = None \<longrightarrow> contents l = {#}) \<and>
     (lq_ordered l \<longrightarrow> (\<forall>e f. r = Some e \<longrightarrow> f \<in># contents l \<longrightarrow> receiveTime e \<le> receiveTime f))"

lemma erase_front:
  assumes "ms_inv receiveTimeLessThanEventIdLessThan b" and "ms_front b = Some e"
  shows "\<exists>b'. ms_erase (ms_begin b) b = Some b' \<and> ms_inv receiveTimeLessThanEventIdLessThan b' \<and> ms_vals b = e # ms_vals b'"
proof -
  obtain n ns where n: "nodes b = n # ns" using assms(2) by (cases "nodes b") (simp_all add: ms_front_def)
  note er = ms_erase_begin [OF n]
  have "ms_vals b = e # ms_vals (b\<lparr>nodes := ns\<rparr>)" using n assms(2) by (simp add: ms_vals_def ms_front_def)
  then show ?thesis using er recv_order.ms_inv_erase [OF assms(1) er] by blast
qed

lemma bottom_shrinks:
  assumes inv: "lq_inv l" and b: "ms_inv receiveTimeLessThanEventIdLessThan b'" and sub: "mset (ms_vals b') \<subseteq># mset (ms_vals (bottom l))"
  shows "lq_inv (l\<lparr>bottom := b'\<rparr>)" and "lq_ordered l \<Longrightarrow> lq_ordered (l\<lparr>bottom := b'\<rparr>)"
proof -
  let ?l = "l\<lparr>bottom := b'\<rparr>"
  have NB: "NUM_BUCKETS ?l = NUM_BUCKETS l" by (simp add: NUM_BUCKETS_def fun_eq_iff)
  have r: "rungsEvents ?l = rungsEvents l" using NB by (intro rungsEvents_cong) simp_all
  have set: "set (ms_vals b') \<subseteq> set (ms_vals (bottom l))" using set_mset_mono [OF sub] by simp
  have "inv_at (nRung l) ?l"
  proof (rule inv_at_intro)
    show "rung_ok ?l x" if "x < nRung l" for x using rung_ok_cong [of ?l x l] NB inv_atD(2) [OF inv that] by simp
    show "timed e \<and> tm e \<le> topStart ?l" if "e \<in># rungsEvents ?l + mset (ms_vals (bottom ?l))" for e
      using inv_at_waiting [OF inv, of e] that r set by auto
    have "size (contents ?l) \<le> size (contents l)" using size_mset_mono [OF sub] r by (simp add: contents_def)
    then show "size (contents ?l) < 2 ^ 31" using inv_atD(8) [OF inv] by linarith
  qed (use inv_atD(1,3,5,6) [OF inv] b in \<open>simp_all add: top_ok_def\<close>)
  then show "lq_inv ?l" by simp
  assume o: "lq_ordered l"
  have "ordered_at (nRung l) ?l"
    using ordered_atD [OF o] set by (intro ordered_atI) (auto simp: before_rung_def)
  then show "lq_ordered ?l" by simp
qed

lemma lq_dequeue_ok:
  assumes inv: "lq_inv l"
  shows "\<exists>l' r. lq_dequeue l = Some (l', r) \<and> dequeued l l' r"
proof -
  obtain l1 r where l1: "lq_begin l = Some (l1, r)" "begun l l1 r" using lq_begin_ok [OF inv] by blast
  show ?thesis
  proof (cases r)
    case None
    then show ?thesis using l1 by (auto simp: lq_dequeue_def dequeued_def begun_def)
  next
    case (Some e)
    have inv1: "lq_inv l1" and f: "ms_front (bottom l1) = Some e" using l1(2) Some by (simp_all add: begun_def)
    obtain b' where b': "ms_erase (ms_begin (bottom l1)) (bottom l1) = Some b'" "ms_inv receiveTimeLessThanEventIdLessThan b'"
      "ms_vals (bottom l1) = e # ms_vals b'" using erase_front [OF inv_atD(4) [OF inv1] f] by blast
    let ?l = "l1\<lparr>bottom := b'\<rparr>"
    have sh: "lq_inv ?l" "lq_ordered l1 \<Longrightarrow> lq_ordered ?l" using bottom_shrinks [OF inv1 b'(2)] b'(3) by simp_all
    have "rungsEvents ?l = rungsEvents l1" by (rule rungsEvents_cong) (simp_all add: NUM_BUCKETS_def fun_eq_iff)
    then have c: "contents l = add_mset e (contents ?l)" using l1(2) b'(3) by (simp add: begun_def contents_def)
    have "receiveTime e \<le> receiveTime g" if "lq_ordered l" "g \<in># contents l" for g
      using bottom_first [OF inv1 _ f, of g] l1(2) that by (simp add: begun_def)
    moreover have "roomy ?l" if "roomy l" using l1(2) c that by (simp add: begun_def roomy_def)
    moreover have "lq_narrow ?l" if "lq_narrow l" using l1(2) that by (simp add: begun_def narrow_at_def)
    moreover have "lq_ordered ?l" if "lq_ordered l" using l1(2) sh(2) that by (simp add: begun_def)
    ultimately have "dequeued l ?l (Some e)" using sh(1) c unfolding dequeued_def by simp
    then show ?thesis using l1(1) Some b'(1) by (simp add: lq_dequeue_def)
  qed
qed

end
