(* ===== verification/LadderProperties.thy ===== *)
theory LadderProperties
  imports LadderBegin
begin

text \<open>
  Insertion into the ladder queue and erasing from it, and what the queue guarantees: no event is lost, and events leave the queue in the order of
  their times unless one is inserted into a rung that has become empty.
\<close>

subsection \<open>insert\<close>

lemma findRung_step: "x < nRung l \<Longrightarrow> t < int (rCur l x) \<Longrightarrow> findRung x t l = findRung (x + 1) t l"
  by (subst findRung.simps) simp

lemma findRung_stop: "\<not> (x < nRung l \<and> t < int (rCur l x)) \<Longrightarrow> findRung x t l = x"
  by (subst findRung.simps) (simp only: if_False)

lemma findRung_found: "findRung x t l < nRung l \<Longrightarrow> int (rCur l (findRung x t l)) \<le> t"
proof (induction x t l rule: findRung.induct)
  case (1 x t l)
  show ?case
  proof (cases "x < nRung l \<and> t < int (rCur l x)")
    case True
    then show ?thesis using 1(1) [OF True] 1(2) by (simp add: findRung_step)
  next
    case False
    then show ?thesis using 1(2) by (simp add: findRung_stop [OF False])
  qed
qed

lemma findRung_skipped: "x \<le> j \<Longrightarrow> j < findRung x t l \<Longrightarrow> t < int (rCur l j)"
proof (induction x t l rule: findRung.induct)
  case (1 x t l)
  show ?case
  proof (cases "x < nRung l \<and> t < int (rCur l x)")
    case True
    then show ?thesis using 1(1) [OF True] 1(2,3) by (cases "j = x") (simp_all add: findRung_step)
  next
    case False
    then show ?thesis using 1(2,3) by (simp add: findRung_stop [OF False])
  qed
qed

text \<open>An event goes into the bucket that its time selects, whose start is not before the current time of the rung.\<close>

definition pushed :: "nat \<Rightarrow> lq_event \<Rightarrow> ladder \<Rightarrow> ladder" where
  "pushed x e l = (let y = bucketOf l x (tm e) in noteBucket x y (setBucket x y (e # rung l x y) l))"

lemma pushed_frame [simp]:
  "lq_top (pushed x e l) = lq_top l" "maxTS (pushed x e l) = maxTS l" "minTS (pushed x e l) = minTS l" "topStart (pushed x e l) = topStart l"
  "nRung (pushed x e l) = nRung l" "numRung0Buckets (pushed x e l) = numRung0Buckets l" "bucketWidth (pushed x e l) = bucketWidth l"
  "rStart (pushed x e l) = rStart l" "rCur (pushed x e l) = rCur l" "NUM_BUCKETS (pushed x e l) = NUM_BUCKETS l" "bottom (pushed x e l) = bottom l"
  "rung (pushed x e l) = (rung l)(x := (rung l x)(bucketOf l x (tm e) := e # rung l x (bucketOf l x (tm e))))"
  "numBucket (pushed x e l) = (numBucket l)(x := max (numBucket l x) (bucketOf l x (tm e) + 1))"
  by (simp_all add: pushed_def Let_def)

lemma insertRung_ok:
  assumes "selects idx" and "x < 8" and ok: "rung_ok l x" and e: "timed e" "rCur l x \<le> tm e"
  shows "insertRung idx x e l = Some (pushed x e l)"
proof -
  let ?y = "bucketOf l x (tm e)"
  have n: "0 < NUM_BUCKETS l x" and w: "width l x" using rung_ok_buckets [OF ok] ok by (simp_all add: rung_ok_def)
  have rs: "rStart l x \<le> tm e" using rCur_rStart [OF ok] e(2) by linarith
  obtain k where k: "k < NUM_BUCKETS l x" "rCur l x = rStart l x + k * bucketWidth l x" using ok unfolding rung_ok_def started_def by blast
  have "k \<le> ?y" using bucketOf_mono [OF w _ k(1)] k(2) e(2) by simp
  then have "rCur l x \<le> rStart l x + ?y * bucketWidth l x" using k(2) by simp
  moreover have "rStart l x + ?y * bucketWidth l x < 2 ^ 32" using bucketOf_start [OF w rs] tm_less [of e] by simp
  ultimately have "\<not> bucketStart l x ?y < rCur l x" by (simp add: bucketStart_def)
  then have "lowerCur x ?y (noteBucket x ?y l) = noteBucket x ?y l" by (simp add: lowerCur_def bucketStart_def)
  moreover have "setBucket x ?y (e # rung l x ?y) (noteBucket x ?y l) = pushed x e l"
    by (simp add: pushed_def Let_def noteBucket_def setBucket_def)
  ultimately show ?thesis
    using selects_event [OF assms(1) w e(1) rs] bucketOf_bound [OF n] assms(2) rs e(1)
    by (simp add: insertRung_def pushBucket_def RUNG_def approxTime_tm)
qed

lemma pushed_events:
  assumes "x < 8" and "rung_ok l x"
  shows "rungsEvents (pushed x e l) = add_mset e (rungsEvents l)"
  using rungsEvents_push [OF assms(1) bucketOf_bound [OF rung_ok_buckets [OF assms(2)]]] by (simp add: pushed_def Let_def)

lemma pushed_ok: "rung_ok l x \<Longrightarrow> timed e \<Longrightarrow> rCur l x \<le> tm e \<Longrightarrow> rung_ok (pushed x e l) x"
  using rung_ok_push rung_ok_buckets unfolding pushed_def Let_def by blast

definition full :: "ladder \<Rightarrow> bool" where
  "full l \<longleftrightarrow> (\<forall>x<nRung l. 0 < numBucket l x)"

text \<open>The rungs after an insertion: as many as before, or a new one below them.\<close>

definition grown :: "lq_event \<Rightarrow> ladder \<Rightarrow> ladder \<Rightarrow> bool" where
  "grown e l l' \<longleftrightarrow> topStart l' = topStart l \<and>
     (nRung l' = nRung l \<and> rCur l' = rCur l \<and> numRung0Buckets l' = numRung0Buckets l \<or>
      nRung l' = nRung l + 1 \<and> (\<forall>j<nRung l. tm e < rCur l j) \<and> rCur l' (nRung l) \<le> tm e \<and> tm e \<le> topStart l \<and>
        numRung0Buckets l' \<le> max (numRung0Buckets l) (2 * bottomSize l))"

definition inserted :: "lq_event \<Rightarrow> ladder \<Rightarrow> ladder \<Rightarrow> bool" where
  "inserted e l l' \<longleftrightarrow> lq_inv l' \<and> contents l' = add_mset e (contents l) \<and> (full l \<longrightarrow> full l') \<and>
     (full l \<longrightarrow> lq_ordered l \<longrightarrow> lq_ordered l') \<and> grown e l l'"

definition insertable :: "lq_event \<Rightarrow> ladder \<Rightarrow> bool" where
  "insertable e l \<longleftrightarrow> lq_inv l \<and> timed e \<and> size (contents l) + 1 < 2 ^ 31"

lemma insertTop_inserted:
  assumes i: "insertable e l" and t: "topStart l < tm e"
  shows "inserted e l (insertTop e l)"
proof -
  let ?l = "insertTop e l"
  have inv: "lq_inv l" and e: "approxTime e = int (tm e)" "timed e" using i approxTime_tm [of e] by (simp_all add: insertable_def)
  have u: "uint32 (int (tm e)) = tm e" using tm_less [of e] by (intro uint32_int) simp
  have fr: "nRung ?l = nRung l" "rung ?l = rung l" "NUM_BUCKETS ?l = NUM_BUCKETS l" "bottom ?l = bottom l" "topStart ?l = topStart l"
    "numBucket ?l = numBucket l" "rCur ?l = rCur l" "rStart ?l = rStart l" "bucketWidth ?l = bucketWidth l" "lq_top ?l = e # lq_top l" "numRung0Buckets ?l = numRung0Buckets l"
    by (simp_all add: insertTop_def Let_def NUM_BUCKETS_def fun_eq_iff)
  have r: "rungsEvents ?l = rungsEvents l" using fr by (intro rungsEvents_cong) simp_all
  have "top_ok ?l"
    using inv_atD(5) [OF inv] t e tm_less [of e] unfolding top_ok_def
    by (cases "lq_top l = []") (auto simp: insertTop_def Let_def u)
  then have "inv_at (nRung l) ?l"
    using inv_atD(1,2,3,4,6) [OF inv] inv_at_waiting [OF inv] i fr r rung_ok_cong [of ?l _ l]
    by (intro inv_at_intro) (simp_all add: contents_def insertable_def)
  moreover have "ordered_at (nRung l) ?l" if "lq_ordered l" using fr by (intro ordered_at_less [OF that]) simp_all
  ultimately show ?thesis using fr r by (simp add: inserted_def contents_def full_def grown_def)
qed


lemma full_before:
  assumes "full l" and "lq_ordered l" and "x < nRung l"
  shows "x < z \<Longrightarrow> f \<in> set (rung l z w) \<Longrightarrow> tm f < rCur l x" and "f \<in> set (ms_vals (bottom l)) \<Longrightarrow> tm f < rCur l x"
  using ordered_atD [OF assms(2,3)] assms(1,3) by (simp_all add: full_def before_rung_def)

lemma insertRung_inserted:
  assumes i: "insertable e l" and t: "tm e \<le> topStart l" and x: "x < nRung l" "rCur l x \<le> tm e" "\<And>j. j < x \<Longrightarrow> tm e < rCur l j"
  shows "inserted e l (pushed x e l)"
proof -
  let ?l = "pushed x e l"
  have inv: "lq_inv l" and e: "timed e" using i by (simp_all add: insertable_def)
  have ok: "rung_ok l x" using inv_atD(2) [OF inv x(1)] .
  have x8: "x < 8" using inv_atD(1) [OF inv] x(1) by linarith
  note ev = pushed_events [OF x8 ok, of e]
  have "rung_ok ?l z" if "z < nRung l" for z
  proof (cases "z = x")
    case False
    then show ?thesis using rung_ok_cong [of ?l z l] inv_atD(2) [OF inv that] by simp
  qed (use pushed_ok [OF ok e x(2)] in simp)
  moreover have "rung ?l z w = []" if "nRung l \<le> z" for z w using inv_atD(3) [OF inv that] that x(1) by simp
  moreover have "top_ok ?l" using inv_atD(5) [OF inv] by (simp add: top_ok_def)
  ultimately have "inv_at (nRung l) ?l"
    using inv_atD(1,4,6) [OF inv] inv_at_waiting [OF inv] i t ev e by (intro inv_at_intro) (auto simp: contents_def insertable_def)
  moreover have "lq_ordered ?l" if f: "full l" and o: "lq_ordered l"
  proof (rule ordered_atI)
    fix w z v g assume w: "w < nRung ?l" "w < z" and g: "g \<in> set (rung ?l z v)"
    have "g = e \<and> z = x \<or> g \<in> set (rung l z v)" using g by (simp split: if_splits)
    then have "tm g < rCur l w" using full_before(1) [OF f o, of w z g v] x(3) [of w] w by fastforce
    then show "before_rung ?l w g" by (simp add: before_rung_def)
  qed (use full_before(2) [OF f o] in \<open>simp add: before_rung_def\<close>)
  moreover have "full ?l" if "full l" using that by (simp add: full_def less_max_iff_disj)
  ultimately show ?thesis using ev by (simp add: inserted_def contents_def grown_def)
qed

lemma bottomInsert_inserted:
  assumes i: "insertable e l" and t: "tm e \<le> topStart l" and x: "\<And>j. j < nRung l \<Longrightarrow> tm e < rCur l j"
  shows "inserted e l (bottomInsert e l)"
proof -
  let ?l = "bottomInsert e l"
  have inv: "lq_inv l" and e: "timed e" using i by (simp_all add: insertable_def)
  have fr: "nRung ?l = nRung l" "rung ?l = rung l" "NUM_BUCKETS ?l = NUM_BUCKETS l" "topStart ?l = topStart l" "lq_top ?l = lq_top l" "maxTS ?l = maxTS l"
    "minTS ?l = minTS l" "numBucket ?l = numBucket l" "rCur ?l = rCur l" "rStart ?l = rStart l" "bucketWidth ?l = bucketWidth l" "numRung0Buckets ?l = numRung0Buckets l"
    by (simp_all add: bottomInsert_def NUM_BUCKETS_def fun_eq_iff)
  have b: "mset (ms_vals (bottom ?l)) = add_mset e (mset (ms_vals (bottom l)))" by (simp add: bottomInsert_def mset_ms_insert)
  have r: "rungsEvents ?l = rungsEvents l" using fr by (intro rungsEvents_cong) simp_all
  have ms: "ms_inv receiveTimeLessThanEventIdLessThan (bottom ?l)"
    using recv_order.ms_inv_insert [OF inv_atD(4) [OF inv]] by (simp add: bottomInsert_def)
  have "top_ok ?l" using inv_atD(5) [OF inv] fr by (simp add: top_ok_def)
  moreover have "timed g \<and> tm g \<le> topStart ?l" if "g \<in># rungsEvents ?l + mset (ms_vals (bottom ?l))" for g
    using that inv_at_waiting [OF inv, of g] e t unfolding b r fr(4) by auto
  ultimately have "inv_at (nRung l) ?l"
    using inv_atD(1,2,3,6) [OF inv] i fr r ms rung_ok_cong [of ?l _ l] by (intro inv_at_intro) (simp_all add: contents_def insertable_def b)
  moreover have "ordered_at (nRung l) ?l" if f: "full l" and o: "lq_ordered l"
  proof (rule ordered_atI)
    fix w g assume w: "w < nRung l" and "g \<in> set (ms_vals (bottom ?l))"
    then have "g \<in># add_mset e (mset (ms_vals (bottom l)))" unfolding b [symmetric] by simp
    then have "tm g < rCur l w" using full_before(2) [OF f o w, of g] x [OF w] by auto
    then show "before_rung ?l w g" using fr by (simp add: before_rung_def)
  qed (use full_before(1) [OF f o] fr in \<open>simp add: before_rung_def\<close>)
  ultimately show ?thesis using fr r b by (simp add: inserted_def contents_def full_def grown_def)
qed


text \<open>The bottom becomes a rung.\<close>

lemma create_bottom_rung:
  assumes inv: "lq_inv l" and r: "nRung l < 8" and b: "0 < bottomSize l" and v: "v \<le> topStart l" "\<And>j. j < nRung l \<Longrightarrow> v \<le> rCur l j"
  shows "\<exists>l1. create_rung_for_bottom_transfer v l = Some l1 \<and> lq_top l1 = lq_top l \<and> maxTS l1 = maxTS l \<and> minTS l1 = minTS l \<and>
    topStart l1 = topStart l \<and> bottom l1 = bottom l \<and> rung l1 = rung l \<and> nRung l1 = nRung l + 1 \<and>
    rStart l1 = (rStart l)(nRung l := v) \<and> rCur l1 = (rCur l)(nRung l := v) \<and> numBucket l1 = (numBucket l)(nRung l := 0) \<and>
    width l1 (nRung l) \<and> (\<forall>x<nRung l. bucketWidth l1 x = bucketWidth l x) \<and> 0 < NUM_BUCKETS l1 (nRung l) \<and>
    numRung0Buckets l1 = (if nRung l = 0 then max (numRung0Buckets l) (2 * bottomSize l) else numRung0Buckets l)"
proof (cases "nRung l = 0")
  case True
  have "(topStart l - v) div bottomSize l \<le> 2 ^ 31" using inv_atD(6) [OF inv] div_le_dividend [of "topStart l - v" "bottomSize l"] by linarith
  then show ?thesis using True b v by (simp add: create_rung_for_bottom_transfer_def Let_def width_def NUM_BUCKETS_def less_max_iff_disj)
next
  case False
  have p: "nRung l - 1 < nRung l" using False by linarith
  have c: "rCur l (nRung l - 1) < 2 ^ 31" using inv_atD(2) [OF inv p] by (simp add: rung_ok_def started_def)
  have "(rCur l (nRung l - 1) - v) div 50 \<le> 2 ^ 31" using c div_le_dividend [of "rCur l (nRung l - 1) - v" 50] by linarith
  then show ?thesis using False r v(2) [OF p] by (simp add: create_rung_for_bottom_transfer_def Let_def width_def NUM_BUCKETS_def)
qed

lemma bottom_start:
  assumes inv: "lq_inv l" and e: "timed e" and f: "ms_front (bottom l) = Some f"
  shows "(if int (uint32 (approxTime f)) > approxTime e then uint32 (approxTime e) else uint32 (approxTime f)) = min (tm f) (tm e)"
    and "\<And>g. g \<in> set (ms_vals (bottom l)) \<Longrightarrow> timed g \<and> min (tm f) (tm e) \<le> tm g" and "tm f \<le> topStart l"
proof -
  have fb: "f \<in> set (ms_vals (bottom l))" using f by (simp add: ms_front_hd split: list.splits)
  have t: "timed g" "tm g \<le> topStart l" if "g \<in> set (ms_vals (bottom l))" for g using inv_atD(7) [OF inv waiting_bottom [OF that]] by simp_all
  show "tm f \<le> topStart l" using t(2) [OF fb] .
  have "uint32 (approxTime f) = tm f" "uint32 (approxTime e) = tm e"
    using approxTime_tm [OF e] approxTime_tm [OF t(1) [OF fb]] tm_less [of f] tm_less [of e] by simp_all
  then show "(if int (uint32 (approxTime f)) > approxTime e then uint32 (approxTime e) else uint32 (approxTime f)) = min (tm f) (tm e)"
    using approxTime_tm [OF e] by simp
  show "timed g \<and> min (tm f) (tm e) \<le> tm g" if g: "g \<in> set (ms_vals (bottom l))" for g
  proof -
    have "receiveTime f \<le> receiveTime g" using recv_order.ms_front_minimal [OF inv_atD(4) [OF inv] f g] recv_order_time by blast
    then show ?thesis using tm_receiveTime [OF t(1) [OF fb] t(1) [OF g]] t(1) [OF g] by simp
  qed
qed

definition bottomed :: "lq_event \<Rightarrow> ladder \<Rightarrow> ladder \<Rightarrow> bool" where
  "bottomed e l l' \<longleftrightarrow> lq_top l' = lq_top l \<and> maxTS l' = maxTS l \<and> minTS l' = minTS l \<and> topStart l' = topStart l \<and> ms_vals (bottom l') = [] \<and>
     ms_inv receiveTimeLessThanEventIdLessThan (bottom l') \<and> nRung l' = nRung l + 1 \<and> rung_ok l' (nRung l) \<and> rCur l' (nRung l) \<le> tm e \<and>
     (\<forall>x. x \<noteq> nRung l \<longrightarrow> rung l' x = rung l x) \<and> (\<forall>x<nRung l. bucketWidth l' x = bucketWidth l x \<and> rStart l' x = rStart l x \<and>
       rCur l' x = rCur l x \<and> numBucket l' x = numBucket l x) \<and>
     rungsEvents l' = rungsEvents l + mset (ms_vals (bottom l)) \<and> (\<forall>g w. g \<in> set (rung l' (nRung l) w) \<longrightarrow> g \<in> set (ms_vals (bottom l))) \<and>
     numRung0Buckets l' = (if nRung l = 0 then max (numRung0Buckets l) (2 * bottomSize l) else numRung0Buckets l)"


lemma bottomToRung_bottomed:
  assumes i: "insertable e l" and t: "tm e \<le> topStart l" and x: "\<And>j. j < nRung l \<Longrightarrow> tm e < rCur l j" and r: "nRung l < 8" and b: "0 < bottomSize l"
  shows "\<exists>l'. bottomed e l l' \<and> bottomToRung e l = insertRung bucketForBottom (nRung l) e l'"
proof -
  have inv: "lq_inv l" and e: "timed e" using i by (simp_all add: insertable_def)
  obtain f where f: "ms_front (bottom l) = Some f" using b by (cases "ms_vals (bottom l)") (simp_all add: bottomSize_def ms_front_hd)
  note st = bottom_start [OF inv e f]
  let ?v = "min (tm f) (tm e)" and ?n = "nRung l"
  have "?v \<le> rCur l j" if "j < ?n" for j using x [OF that] by linarith
  moreover have "?v \<le> topStart l" using t by linarith
  ultimately obtain l1 where l1: "create_rung_for_bottom_transfer ?v l = Some l1" "lq_top l1 = lq_top l" "maxTS l1 = maxTS l" "minTS l1 = minTS l"
    "topStart l1 = topStart l" "bottom l1 = bottom l" "rung l1 = rung l" "nRung l1 = ?n + 1" "rStart l1 = (rStart l)(?n := ?v)" "rCur l1 = (rCur l)(?n := ?v)"
    "numBucket l1 = (numBucket l)(?n := 0)" "width l1 ?n" "\<forall>x<?n. bucketWidth l1 x = bucketWidth l x" "0 < NUM_BUCKETS l1 ?n"
    "numRung0Buckets l1 = (if ?n = 0 then max (numRung0Buckets l) (2 * bottomSize l) else numRung0Buckets l)"
    using create_bottom_rung [OF inv r b, of ?v] by blast
  have none: "rung l1 ?n y = []" for y using inv_atD(3) [OF inv, of ?n y] l1(7) by simp
  have "rung_ok l1 ?n" using none l1 tm_less [of e] by (intro rung_ok_new) (simp_all add: min.strict_coboundedI2)
  then have "\<exists>l2. spread bucketForBottom ?n (ms_vals (bottom l)) l1 = Some l2 \<and> rung_ok l2 ?n"
    using st(2) r l1(10) by (intro spread_ok) (simp_all add: selects_def)
  then obtain l2 where l2: "spread bucketForBottom ?n (ms_vals (bottom l)) l1 = Some l2" "rung_ok l2 ?n" by blast
  note s = spread_frame [OF l2(1)]
  let ?l = "l2\<lparr>bottom := ms_clear (bottom l2)\<rparr>"
  have "bottomToRung e l = insertRung bucketForBottom ?n e ?l"
    using f st(1) l1(1,6,8) l2(1) s unfolding bottomToRung_def Let_def by simp
  moreover have "bottomed e l ?l" unfolding bottomed_def
  proof (intro conjI)
    have NB: "NUM_BUCKETS ?l = NUM_BUCKETS l2" by (simp add: NUM_BUCKETS_def fun_eq_iff)
    show "rung_ok ?l ?n" using rung_ok_cong [of ?l ?n l2] l2(2) NB by simp
    have "rungsEvents l1 = rungsEvents l"
    proof (cases "?n = 0")
      case True
      then show ?thesis using inv_atD(3) [OF inv] l1(7) by (simp add: rungsEvents_none)
    next
      case False
      then show ?thesis using l1(7,15) by (intro rungsEvents_cong) (simp_all add: NUM_BUCKETS_def fun_eq_iff)
    qed
    then show "rungsEvents ?l = rungsEvents l + mset (ms_vals (bottom l))"
      using spread_contents [OF l2(1)] rungsEvents_cong [of ?l l2] NB by simp
    show "\<forall>g w. g \<in> set (rung ?l ?n w) \<longrightarrow> g \<in> set (ms_vals (bottom l))" using spread_new [OF l2(1)] none by fastforce
  qed (use s l1 in simp_all)
  ultimately show ?thesis by blast
qed

lemma bottomed_inserted:
  assumes i: "insertable e l" and t: "tm e \<le> topStart l" and x: "\<And>j. j < nRung l \<Longrightarrow> tm e < rCur l j" and r: "nRung l < 8" and b: "bottomed e l l'"
  shows "inserted e l (pushed (nRung l) e l')"
proof -
  let ?n = "nRung l" and ?l = "pushed (nRung l) e l'"
  have inv: "lq_inv l" and e: "timed e" using i by (simp_all add: insertable_def)
  have f: "nRung l' = ?n + 1" "rung_ok l' ?n" "rCur l' ?n \<le> tm e" "ms_vals (bottom l') = []" "topStart l' = topStart l" "lq_top l' = lq_top l"
    using b by (simp_all add: bottomed_def)
  have ev: "rungsEvents ?l = add_mset e (rungsEvents l + mset (ms_vals (bottom l)))"
    using pushed_events [OF r f(2), of e] b by (simp add: bottomed_def)
  have "rung_ok ?l z" if "z < ?n + 1" for z
  proof (cases "z = ?n")
    case True
    then show ?thesis using pushed_ok [OF f(2) e f(3)] by simp
  next
    case False
    then have "z < ?n" using that by linarith
    moreover have "NUM_BUCKETS l' z = NUM_BUCKETS l z" using b calculation by (simp add: NUM_BUCKETS_def bottomed_def)
    ultimately show ?thesis using rung_ok_cong [of ?l z l] b inv_atD(2) [OF inv] by (simp add: bottomed_def)
  qed
  moreover have "rung ?l z w = []" if "?n + 1 \<le> z" for z w using inv_atD(3) [OF inv, of z w] that b by (simp add: bottomed_def)
  moreover have "top_ok ?l" using inv_atD(5) [OF inv] b by (simp add: top_ok_def bottomed_def)
  moreover have "timed g \<and> tm g \<le> topStart ?l" if "g \<in># rungsEvents ?l + mset (ms_vals (bottom ?l))" for g
    using that inv_at_waiting [OF inv, of g] e t f(4,5) unfolding ev by auto
  ultimately have "inv_at (?n + 1) ?l"
    using r inv_atD(6) [OF inv] i f ev b by (intro inv_at_intro) (simp_all add: contents_def insertable_def bottomed_def)
  moreover have "ordered_at (?n + 1) ?l" if fu: "full l" and o: "lq_ordered l"
  proof (rule ordered_atI)
    fix w z v g assume w: "w < ?n + 1" "w < z" and g: "g \<in> set (rung ?l z v)"
    have "z \<le> ?n" using inv_atD(3) [OF inv, of z v] g b by (cases "z \<le> ?n") (simp_all add: bottomed_def)
    then have wn: "w < ?n" using w(2) by linarith
    have "g = e \<or> z = ?n \<and> g \<in> set (rung l' z v) \<or> z \<noteq> ?n \<and> g \<in> set (rung l z v)" using g b by (auto simp: bottomed_def split: if_splits)
    then have "g = e \<or> g \<in> set (ms_vals (bottom l)) \<or> g \<in> set (rung l z v)" using b unfolding bottomed_def by blast
    then have "tm g < rCur l w" using full_before [OF fu o wn] x [OF wn] w(2) by blast
    then show "before_rung ?l w g" using b wn by (simp add: before_rung_def bottomed_def)
  qed (use f(4) in simp)
  moreover have "full ?l" if "full l" using that b by (simp add: full_def bottomed_def less_Suc_eq)
  moreover have "grown e l ?l" using b x t unfolding grown_def bottomed_def by simp
  ultimately show ?thesis using ev f(1,4,6) by (simp add: inserted_def contents_def ac_simps)
qed

lemma lq_insert_ok:
  assumes i: "insertable e l"
  shows "\<exists>l'. lq_insert e l = Some l' \<and> inserted e l l'"
proof (cases "topStart l < tm e")
  case True
  then show ?thesis using insertTop_inserted [OF i True] i by (simp add: lq_insert_def insertable_def approxTime_tm)
next
  case False
  let ?x = "findRung 0 (approxTime e) l"
  have inv: "lq_inv l" and e: "timed e" and t: "tm e \<le> topStart l" using i False by (simp_all add: insertable_def)
  have skip: "tm e < rCur l j" if "j < ?x" for j using findRung_skipped [OF _ that] approxTime_tm [OF e] by simp
  have top: "\<not> approxTime e > int (topStart l)" using t approxTime_tm [OF e] by simp
  show ?thesis
  proof (cases "?x < nRung l")
    case True
    have c: "rCur l ?x \<le> tm e" using findRung_found [OF True] approxTime_tm [OF e] by simp
    have "insertRung bucketFor ?x e l = Some (pushed ?x e l)"
      using inv_atD(1,2) [OF inv] True e c by (intro insertRung_ok) (simp_all add: selects_def)
    then show ?thesis using insertRung_inserted [OF i t True c skip] top True by (simp add: lq_insert_def)
  next
    case x: False
    have all: "tm e < rCur l j" if "j < nRung l" for j using skip [of j] that x by linarith
    show ?thesis
    proof (cases "50 \<le> bottomSize l \<and> nRung l < 8")
      case True
      then obtain l' where l': "bottomed e l l'" "bottomToRung e l = insertRung bucketForBottom (nRung l) e l'"
        using bottomToRung_bottomed [OF i t all] by auto
      have "insertRung bucketForBottom (nRung l) e l' = Some (pushed (nRung l) e l')"
        using l'(1) True e by (intro insertRung_ok) (simp_all add: selects_def bottomed_def)
      then show ?thesis using bottomed_inserted [OF i t all _ l'(1)] l'(2) True top x by (simp add: lq_insert_def)
    next
      case False
      then show ?thesis using bottomInsert_inserted [OF i t all] top x by (auto simp: lq_insert_def)
    qed
  qed
qed


subsection \<open>erase\<close>

text \<open>A rung that loses events and stays well-formed.\<close>

definition shrunk :: "nat \<Rightarrow> ladder \<Rightarrow> ladder \<Rightarrow> bool" where
  "shrunk x l l' \<longleftrightarrow> same_outside l l' \<and> nRung l' = nRung l \<and> bucketWidth l' = bucketWidth l \<and> rStart l' = rStart l \<and> rung_ok l' x \<and>
     (\<forall>z. z \<noteq> x \<longrightarrow> rung l' z = rung l z \<and> numBucket l' z = numBucket l z \<and> rCur l' z = rCur l z) \<and> (\<forall>y. set (rung l' x y) \<subseteq> set (rung l x y)) \<and>
     (0 < numBucket l' x \<longrightarrow> 0 < numBucket l x \<and> rCur l' x = rCur l x) \<and> rungsEvents l' \<subseteq># rungsEvents l"

lemma shrunk_inv:
  assumes inv: "lq_inv l" and s: "shrunk x l l'" and x: "x < nRung l"
  shows "lq_inv l'" and "contents l' \<subseteq># contents l" and "lq_ordered l \<Longrightarrow> lq_ordered l'"
proof -
  have f: "same_outside l l'" "nRung l' = nRung l" "rungsEvents l' \<subseteq># rungsEvents l" using s by (simp_all add: shrunk_def)
  have out: "lq_top l' = lq_top l" "maxTS l' = maxTS l" "minTS l' = minTS l" "topStart l' = topStart l" "bottom l' = bottom l"
    using f(1) by (simp_all add: same_outside_def)
  show c: "contents l' \<subseteq># contents l" using f(3) out by (simp add: contents_def)
  have "rung_ok l' z" if "z < nRung l" for z
    using s rung_ok_cong [of l' z l] inv_atD(2) [OF inv that] same_outside_NUM [OF f(1)] by (cases "z = x") (simp_all add: shrunk_def)
  moreover have "rung l' z y = []" if "nRung l \<le> z" for z y using s x that inv_atD(3) [OF inv that] by (simp add: shrunk_def)
  moreover have "timed e \<and> tm e \<le> topStart l'" if "e \<in># rungsEvents l' + mset (ms_vals (bottom l'))" for e
    using inv_at_waiting [OF inv, of e] that mset_subset_eqD [OF f(3), of e] out by auto
  moreover have "top_ok l'" using inv_atD(5) [OF inv] out by (simp add: top_ok_def)
  moreover have "size (contents l') < 2 ^ 31" using size_mset_mono [OF c] inv_atD(8) [OF inv] by linarith
  ultimately have "inv_at (nRung l) l'" using inv_atD(1,4,6) [OF inv] out by (intro inv_at_intro) simp_all
  then show "lq_inv l'" using f(2) by simp
  assume o: "lq_ordered l"
  have be: "before_rung l' w g" if "before_rung l w g" for w g
    using that s by (cases "w = x") (simp_all add: shrunk_def before_rung_def)
  have sub: "g \<in> set (rung l z y)" if "g \<in> set (rung l' z y)" for z y g using that s by (cases "z = x") (auto simp: shrunk_def)
  have "ordered_at (nRung l) l'" using be [OF ordered_atD(1) [OF o _ _ sub]] be [OF ordered_atD(2) [OF o]] unfolding out(5) [symmetric] by (rule ordered_atI)
  then show "lq_ordered l'" using f(2) by simp
qed

lemma lowerNumBucket_ok:
  assumes "x < 8" and "y \<le> NUM_BUCKETS l x" and "y \<le> 65535"
  shows "\<exists>l'. lowerNumBucket x y l = Some l' \<and>
    ((\<forall>j<y. rung l x j = []) \<and> l' = l\<lparr>numBucket := (numBucket l)(x := 0), rCur := (rCur l)(x := rStart l x)\<rparr> \<or>
     (\<exists>j<y. rung l x j \<noteq> [] \<and> (\<forall>i. j < i \<longrightarrow> i < y \<longrightarrow> rung l x i = []) \<and> l' = l\<lparr>numBucket := (numBucket l)(x := j + 1)\<rparr>))"
  using assms(2,3)
proof (induction y)
  case (Suc y)
  have R: "RUNG l x y = Some (rung l x y)" using Suc.prems assms(1) by (simp add: RUNG_def)
  show ?case
  proof (cases "rung l x y = []")
    case False
    have "lowerNumBucket x (Suc y) l = Some (l\<lparr>numBucket := (numBucket l)(x := y + 1)\<rparr>)" using R False Suc.prems(2) by simp
    moreover have "\<forall>i. y < i \<longrightarrow> i < Suc y \<longrightarrow> rung l x i = []" by auto
    ultimately show ?thesis using False lessI [of y] by blast
  next
    case True
    have "lowerNumBucket x (Suc y) l = lowerNumBucket x y l" using R True by simp
    then show ?thesis using Suc.IH Suc.prems True by (simp add: less_Suc_eq) blast
  qed
qed simp

lemma rungsEvents_subset:
  assumes "x < 8" and "y < NUM_BUCKETS l x" and "mset b \<subseteq># mset (rung l x y)"
  shows "rungsEvents (setBucket x y b l) \<subseteq># rungsEvents l"
proof -
  have "rungsEvents (setBucket x y b l) + mset (rung l x y) = rungsEvents l + mset b" by (rule rungsEvents_setBucket [OF assms(1,2)])
  also have "\<dots> \<subseteq># rungsEvents l + mset (rung l x y)" using assms(3) by simp
  finally show ?thesis by simp
qed

lemma counted_lowered:
  assumes "rung_ok l x" and n: "NUM_BUCKETS l' x = NUM_BUCKETS l x" "bucketWidth l' x = bucketWidth l x" "rStart l' x = rStart l x" "rCur l' x = rCur l x"
    and sub: "\<And>y. set (rung l' x y) \<subseteq> set (rung l x y)" and c: "counted l' x"
  shows "rung_ok l' x"
proof -
  have w: "width l x" "placed l x" "started l x" using assms(1) by (simp_all add: rung_ok_def)
  have "bucketOf l' x = bucketOf l x" unfolding bucketOf_def n by simp
  then have "placed l' x" using w(2) sub unfolding placed_def n by (metis subsetD)
  moreover have "rung l' x y = []" if "rung l x y = []" for y using sub [of y] that by simp
  then have "started l' x" using w(3) unfolding started_def n by blast
  ultimately show ?thesis using w(1) c n by (simp add: rung_ok_def width_def)
qed


lemma shrunk_bucket:
  assumes ok: "rung_ok l x" and x: "x < 8" and y: "y < NUM_BUCKETS l x" and b: "mset b \<subseteq># mset (rung l x y)"
    and l': "rung l' = rung (setBucket x y b l)" "same_outside l l'" "nRung l' = nRung l" "bucketWidth l' = bucketWidth l" "rStart l' = rStart l"
    and o: "\<And>z. z \<noteq> x \<Longrightarrow> numBucket l' z = numBucket l z \<and> rCur l' z = rCur l z"
    and c: "0 < numBucket l' x \<longrightarrow> 0 < numBucket l x \<and> rCur l' x = rCur l x" and r: "rung_ok l' x"
  shows "shrunk x l l' \<and> rungsEvents l' + mset (rung l x y) = rungsEvents l + mset b"
proof -
  have ev: "rungsEvents l' = rungsEvents (setBucket x y b l)" using l'(1) same_outside_NUM [OF l'(2)] by (intro rungsEvents_cong) simp_all
  have "set (rung l' x z) \<subseteq> set (rung l x z)" for z using set_mset_mono [OF b] l'(1) by simp
  then show ?thesis using l' o c r rungsEvents_subset [OF x y b] rungsEvents_setBucket [OF x y, of b] ev by (simp add: shrunk_def)
qed

lemma lowered_shrunk:
  assumes ok: "rung_ok l x" and x: "x < 8" and y: "y < NUM_BUCKETS l x" "y \<le> 65535" and nb: "numBucket l x = y + 1"
  shows "\<exists>l'. lowerNumBucket x y (setBucket x y [] l) = Some l' \<and> shrunk x l l' \<and> rungsEvents l' + mset (rung l x y) = rungsEvents l"
proof -
  let ?l = "setBucket x y [] l"
  have w: "counted l x" using ok by (simp add: rung_ok_def)
  have up: "rung ?l x i = []" if "y \<le> i" for i using w nb that unfolding counted_def by (cases "i = y") simp_all
  have sub: "\<And>z. set (rung ?l x z) \<subseteq> set (rung l x z)" by simp
  note sb = shrunk_bucket [OF ok x y(1), of "[]"]
  obtain l' where l': "lowerNumBucket x y ?l = Some l'"
    "(\<forall>j<y. rung ?l x j = []) \<and> l' = ?l\<lparr>numBucket := (numBucket ?l)(x := 0), rCur := (rCur ?l)(x := rStart ?l x)\<rparr> \<or>
     (\<exists>j<y. rung ?l x j \<noteq> [] \<and> (\<forall>i. j < i \<longrightarrow> i < y \<longrightarrow> rung ?l x i = []) \<and> l' = ?l\<lparr>numBucket := (numBucket ?l)(x := j + 1)\<rparr>)"
    using lowerNumBucket_ok [OF x, of y ?l] y by auto
  then consider (none) "\<forall>j<y. rung ?l x j = []" "l' = ?l\<lparr>numBucket := (numBucket ?l)(x := 0), rCur := (rCur ?l)(x := rStart ?l x)\<rparr>"
    | (some) j where "j < y" "rung ?l x j \<noteq> []" "\<forall>i. j < i \<longrightarrow> i < y \<longrightarrow> rung ?l x i = []" "l' = ?l\<lparr>numBucket := (numBucket ?l)(x := j + 1)\<rparr>" by blast
  then have "shrunk x l l' \<and> rungsEvents l' + mset (rung l x y) = rungsEvents l + mset []"
  proof cases
    case none
    have NB: "NUM_BUCKETS l' x = NUM_BUCKETS l x" using none(2) by (simp add: NUM_BUCKETS_def)
    have "rung ?l x i = []" for i using none(1) up [of i] by (cases "i < y") simp_all
    then have "rung_ok l' x"
      using none(2) ok y(1) NB rCur_rStart [OF ok] by (intro rung_ok_new) (simp_all add: rung_ok_def width_def started_def)
    then show ?thesis using none(2) by (intro sb) (simp_all add: same_outside_def)
  next
    case some
    have NB: "NUM_BUCKETS l' x = NUM_BUCKETS l x" using some(4) by (simp add: NUM_BUCKETS_def)
    have "rung ?l x i = []" if "j + 1 \<le> i" for i using some(3) up [of i] that by (cases "i < y") simp_all
    then have "counted l' x" using some(2,4) unfolding counted_def by simp
    then have "rung_ok l' x" using some(4) NB by (intro counted_lowered [OF ok]) simp_all
    then show ?thesis using some(4) nb by (intro sb) (simp_all add: same_outside_def)
  qed
  then show ?thesis using l'(1) by simp
qed

lemma eraseFromRung_ok:
  assumes ok: "rung_ok l x" and x: "x < 8" and e: "timed e" "rCur l x \<le> tm e" and n: "numRung0Buckets l \<le> 65535"
  defines "b \<equiv> remove_first (sameEvent e) (rung l x (bucketOf l x (tm e)))"
  shows "\<exists>l'. eraseFromRung x e l = Some l' \<and> shrunk x l l' \<and>
    rungsEvents l' + mset (rung l x (bucketOf l x (tm e))) = rungsEvents l + mset b"
proof -
  let ?y = "bucketOf l x (tm e)"
  have w: "width l x" "counted l x" "placed l x" using ok by (simp_all add: rung_ok_def)
  have rs: "rStart l x \<le> tm e" using rCur_rStart [OF ok] e(2) by linarith
  have y: "?y < NUM_BUCKETS l x" using bucketOf_bound [OF rung_ok_buckets [OF ok]] .
  have y2: "?y \<le> 65535" using y n by (simp add: NUM_BUCKETS_def split: if_splits)
  have sub: "mset b \<subseteq># mset (rung l x ?y)" unfolding b_def by (rule remove_first_submset)
  let ?l = "setBucket x ?y b l"
  have er: "eraseFromRung x e l = (if rung l x ?y = [] then Some l else if b = [] \<and> numBucket l x = ?y + 1 then lowerNumBucket x ?y ?l else Some ?l)"
    using selects_event [of bucketFor, OF _ w(1) e(1) rs] y x by (simp add: eraseFromRung_def RUNG_def b_def Let_def selects_def)
  have frame: "NUM_BUCKETS ?l x = NUM_BUCKETS l x" "\<And>z. set (rung ?l x z) \<subseteq> set (rung l x z)" using set_mset_mono [OF sub] by simp_all
  show ?thesis
  proof (cases "rung l x ?y = []")
    case True
    have "shrunk x l l" using ok by (simp add: shrunk_def same_outside_def)
    then show ?thesis using er True by (simp add: b_def)
  next
    case ne: False
    show ?thesis
    proof (cases "b = [] \<and> numBucket l x = ?y + 1")
      case False
      have "counted ?l x" using w(2) False counted_not_empty [OF w(2) ne] unfolding counted_def by (cases "numBucket l x = ?y + 1") auto
      then have "rung_ok ?l x" using counted_lowered [OF ok frame(1) _ _ _ frame(2)] by simp
      then have "shrunk x l ?l \<and> rungsEvents ?l + mset (rung l x ?y) = rungsEvents l + mset b"
        using counted_not_empty [OF w(2) ne] by (intro shrunk_bucket [OF ok x y sub]) (simp_all add: same_outside_def)
      moreover have "eraseFromRung x e l = Some ?l" using er ne False by (simp only: if_False)
      ultimately show ?thesis by blast
    next
      case True
      then have "eraseFromRung x e l = lowerNumBucket x ?y (setBucket x ?y [] l)" "b = []" using er ne by (simp_all only: if_False if_True simp_thms)
      then show ?thesis using lowered_shrunk [OF ok x y y2] True by simp
    qed
  qed
qed


lemma bottomErase_ok:
  assumes inv: "lq_inv l"
  shows "lq_inv (bottomErase e l)" and "lq_ordered l \<Longrightarrow> lq_ordered (bottomErase e l)"
    and "contents l = contents (bottomErase e l) + mset (filter (\<lambda>f. receiveTime f = receiveTime e \<and> event_eq f e) (ms_vals (bottom l)))"
proof -
  let ?keep = "\<lambda>f. receiveTimeLessThanEventIdLessThan f e \<or> receiveTimeLessThanEventIdLessThan e f"
  let ?b = "(bottom l)\<lparr>nodes := filter (\<lambda>n. ?keep (snd n)) (nodes (bottom l))\<rparr>"
  have b: "bottomErase e l = l\<lparr>bottom := ?b\<rparr>" by (simp add: bottomErase_def)
  have v: "ms_vals ?b = filter ?keep (ms_vals (bottom l))" by (simp add: ms_vals_def filter_map comp_def)
  have "ms_ids_ok (bottom l)" "ms_sorted receiveTimeLessThanEventIdLessThan (bottom l)" using inv_atD(4) [OF inv] by (simp_all add: ms_inv_def)
  then have "ms_inv receiveTimeLessThanEventIdLessThan ?b"
    unfolding ms_inv_def ms_sorted_def v by (simp add: ms_ids_ok_def ms_ids_def sorted_wrt_filter distinct_map_filter)
  moreover have sub: "mset (ms_vals ?b) \<subseteq># mset (ms_vals (bottom l))" unfolding v by (simp add: multiset_filter_subset)
  ultimately show "lq_inv (bottomErase e l)" "lq_ordered l \<Longrightarrow> lq_ordered (bottomErase e l)" unfolding b by (rule bottom_shrinks [OF inv])+
  have eq: "\<not> ?keep f \<longleftrightarrow> receiveTime f = receiveTime e \<and> event_eq f e" for f
  proof
    show "receiveTime f = receiveTime e \<and> event_eq f e" if "\<not> ?keep f" using recv_order_total [of f e] that by blast
    show "\<not> ?keep f" if "receiveTime f = receiveTime e \<and> event_eq f e" using that by (simp add: receiveTimeLessThanEventIdLessThan_def event_eq_def)
  qed
  have "mset (ms_vals (bottom l)) = mset (ms_vals ?b) + mset (filter (\<lambda>f. receiveTime f = receiveTime e \<and> event_eq f e) (ms_vals (bottom l)))"
    unfolding v mset_filter eq [symmetric] by (rule multiset_partition)
  moreover have "rungsEvents (bottomErase e l) = rungsEvents l" by (rule rungsEvents_cong) (simp_all add: b NUM_BUCKETS_def fun_eq_iff)
  ultimately show "contents l = contents (bottomErase e l) + mset (filter (\<lambda>f. receiveTime f = receiveTime e \<and> event_eq f e) (ms_vals (bottom l)))"
    unfolding contents_def b by (simp add: add.assoc)
qed

lemma topErase_ok:
  assumes inv: "lq_inv l" and t: "mset t \<subseteq># mset (lq_top l)"
  shows "lq_inv (l\<lparr>lq_top := t\<rparr>)" and "lq_ordered l \<Longrightarrow> lq_ordered (l\<lparr>lq_top := t\<rparr>)" and "contents (l\<lparr>lq_top := t\<rparr>) + mset (lq_top l) = contents l + mset t"
proof -
  let ?l = "l\<lparr>lq_top := t\<rparr>"
  have NB: "NUM_BUCKETS ?l = NUM_BUCKETS l" by (simp add: NUM_BUCKETS_def fun_eq_iff)
  have r: "rungsEvents ?l = rungsEvents l" using NB by (intro rungsEvents_cong) simp_all
  have "size (contents ?l) \<le> size (contents l)" using size_mset_mono [OF t] r by (simp add: contents_def)
  then have "size (contents ?l) < 2 ^ 31" using inv_atD(8) [OF inv] by linarith
  moreover have "top_ok ?l" using inv_atD(5) [OF inv] set_mset_mono [OF t] by (simp add: top_ok_def subset_iff)
  ultimately have "inv_at (nRung l) ?l"
    using inv_atD(1,2,3,4,6) [OF inv] inv_at_waiting [OF inv] r NB rung_ok_cong [of ?l _ l] by (intro inv_at_intro) simp_all
  then show "lq_inv ?l" by simp
  show "contents ?l + mset (lq_top l) = contents l + mset t" using r by (simp add: contents_def ac_simps)
  assume o: "lq_ordered l"
  have "ordered_at (nRung l) ?l" by (rule ordered_at_less [OF o]) simp_all
  then show "lq_ordered ?l" by simp
qed

lemma remove_first_same:
  assumes "e \<in> set xs" and "\<And>f. f \<in> set xs \<Longrightarrow> eventPtr f = eventPtr e \<Longrightarrow> f = e"
  shows "mset xs = add_mset e (mset (remove_first (sameEvent e) xs))"
proof -
  obtain f where f: "find (sameEvent e) xs = Some f" using assms(1) by (cases "find (sameEvent e) xs") (auto simp: find_None_iff sameEvent_def)
  then have "f = e" using assms(2) [of f] by (auto simp: find_Some_iff sameEvent_def)
  then show ?thesis using mset_remove_first [OF f] by simp
qed


lemma findRung_unique:
  assumes "x \<le> nRung l" and "\<And>j. j < x \<Longrightarrow> t < int (rCur l j)" and "x < nRung l \<Longrightarrow> int (rCur l x) \<le> t"
  shows "\<not> findRung 0 t l < x" and "x < nRung l \<Longrightarrow> findRung 0 t l = x"
proof -
  show a: "\<not> findRung 0 t l < x"
  proof
    assume f: "findRung 0 t l < x"
    then have "findRung 0 t l < nRung l" using assms(1) by linarith
    from findRung_found [OF this] show False using assms(2) [OF f] by linarith
  qed
  assume x: "x < nRung l"
  have "\<not> x < findRung 0 t l" using findRung_skipped [of 0 x t l] assms(3) [OF x] by linarith
  then show "findRung 0 t l = x" using a by linarith
qed

definition erasable :: "lq_event \<Rightarrow> ladder \<Rightarrow> bool" where
  "erasable e l \<longleftrightarrow> lq_inv l \<and> lq_ordered l \<and> full l \<and> numRung0Buckets l \<le> 65535 \<and> count (contents l) e = 1 \<and>
     (\<forall>f \<in># contents l. eventPtr f = eventPtr e \<or> event_eq f e \<longrightarrow> f = e)"

definition erased :: "lq_event \<Rightarrow> ladder \<Rightarrow> ladder \<Rightarrow> bool" where
  "erased e l l' \<longleftrightarrow> lq_inv l' \<and> lq_ordered l' \<and> contents l' = contents l - {#e#}"

lemma erased_count:
  assumes "erasable e l" and "e \<in># M" and "M \<subseteq># contents l"
  shows "count M e = 1" and "\<And>f. f \<in># M \<Longrightarrow> eventPtr f = eventPtr e \<or> event_eq f e \<Longrightarrow> f = e"
proof -
  have "count M e \<le> 1" using assms(1) mset_subset_eq_count [OF assms(3), of e] by (simp add: erasable_def)
  moreover have "0 < count M e" using assms(2) by simp
  ultimately show "count M e = 1" by linarith
  show "f = e" if "f \<in># M" "eventPtr f = eventPtr e \<or> event_eq f e" for f
    using assms(1) mset_subset_eqD [OF assms(3) that(1)] that(2) unfolding erasable_def by blast
qed

lemma erase_in_top:
  assumes er: "erasable e l" and e: "e \<in> set (lq_top l)"
  shows "\<exists>l'. lq_erase e l = Some l' \<and> erased e l l'"
proof -
  have inv: "lq_inv l" "lq_ordered l" using er by (simp_all add: erasable_def)
  have t: "timed e" "topStart l < tm e" using inv_atD(5) [OF inv(1)] e by (simp_all add: top_ok_def)
  let ?t = "remove_first (sameEvent e) (lq_top l)"
  have sub: "mset (lq_top l) \<subseteq># contents l" by (simp add: contents_def)
  have m: "mset (lq_top l) = add_mset e (mset ?t)" using remove_first_same [OF e] erased_count(2) [OF er _ sub] e by simp
  note o = topErase_ok [OF inv(1) remove_first_submset, of "sameEvent e"]
  have "contents l = add_mset e (contents (l\<lparr>lq_top := ?t\<rparr>))" using o(3) m by simp
  then have "erased e l (l\<lparr>lq_top := ?t\<rparr>)" using o(1) o(2) [OF inv(2)] by (simp add: erased_def)
  moreover have "lq_erase e l = Some (l\<lparr>lq_top := ?t\<rparr>)" using t e by (auto simp: lq_erase_def approxTime_tm)
  ultimately show ?thesis by blast
qed

lemma erase_in_rung:
  assumes er: "erasable e l" and e: "e \<in> set (rung l x y)"
  shows "\<exists>l'. lq_erase e l = Some l' \<and> erased e l l'"
proof -
  have inv: "lq_inv l" and o: "lq_ordered l" and f: "full l" and n: "numRung0Buckets l \<le> 65535" using er by (simp_all add: erasable_def)
  have x: "x < nRung l" using inv_atD(3) [OF inv, of x y] e by (metis empty_iff linorder_not_less list.set(1))
  have x8: "x < 8" using inv_atD(1) [OF inv] x by linarith
  have ok: "rung_ok l x" using inv_atD(2) [OF inv x] .
  have p: "y < NUM_BUCKETS l x" "timed e" "y = bucketOf l x (tm e)" using placedD [of l x e y] ok e by (simp_all add: rung_ok_def)
  have t: "tm e \<le> topStart l" using inv_atD(7) [OF inv waiting_rung [OF e]] by simp
  have c: "rCur l x \<le> tm e" using rCur_le [OF ok e] .
  have "tm e < rCur l j" if "j < x" for j using full_before(1) [OF f o _ that e] that x by simp
  then have fr: "findRung 0 (approxTime e) l = x" using findRung_unique(2) [of x l "approxTime e"] x c approxTime_tm [OF p(2)] by simp
  obtain l' where l': "eraseFromRung x e l = Some l'" "shrunk x l l'"
    "rungsEvents l' + mset (rung l x y) = rungsEvents l + mset (remove_first (sameEvent e) (rung l x y))"
    using eraseFromRung_ok [OF ok x8 p(2) c n] p(3) by auto
  have "mset (rung l x y) \<subseteq># rungsEvents l" using bucket_subset [OF x8 p(1)] .
  then have "mset (rung l x y) \<subseteq># contents l" by (simp add: contents_def subset_mset.add_increasing subset_mset.add_increasing2)
  from erased_count(2) [OF er _ this] have "mset (rung l x y) = add_mset e (mset (remove_first (sameEvent e) (rung l x y)))"
    using remove_first_same [OF e] e by simp
  then have "rungsEvents l = add_mset e (rungsEvents l')" using l'(3) by simp
  then have "contents l = add_mset e (contents l')" using l'(2) by (simp add: contents_def shrunk_def same_outside_def)
  then have "erased e l l'" using shrunk_inv [OF inv l'(2) x] o by (simp add: erased_def)
  moreover have "lq_erase e l = Some l'" using t fr x l'(1) approxTime_tm [OF p(2)] by (simp add: lq_erase_def)
  ultimately show ?thesis by blast
qed

lemma erase_in_bottom:
  assumes er: "erasable e l" and e: "e \<in> set (ms_vals (bottom l))"
  shows "\<exists>l'. lq_erase e l = Some l' \<and> erased e l l'"
proof -
  have inv: "lq_inv l" and o: "lq_ordered l" and f: "full l" using er by (simp_all add: erasable_def)
  have t: "timed e" "tm e \<le> topStart l" using inv_atD(7) [OF inv waiting_bottom [OF e]] by simp_all
  have "tm e < rCur l j" if "j < nRung l" for j using full_before(2) [OF f o that e] .
  then have fr: "\<not> findRung 0 (approxTime e) l < nRung l" using findRung_unique(1) [of "nRung l" l "approxTime e"] approxTime_tm [OF t(1)] by simp
  have sub: "mset (ms_vals (bottom l)) \<subseteq># contents l" by (simp add: contents_def)
  note u = erased_count [OF er _ sub]
  have "filter (\<lambda>g. receiveTime g = receiveTime e \<and> event_eq g e) (ms_vals (bottom l)) = filter (\<lambda>g. g = e) (ms_vals (bottom l))"
    using u(2) e by (intro filter_cong) (simp_all, metis event_eq_refl)
  moreover have "mset (filter (\<lambda>g. g = e) (ms_vals (bottom l))) = {#e#}" using u(1) e by (simp add: filter_eq_replicate_mset)
  ultimately have "contents l = add_mset e (contents (bottomErase e l))" using bottomErase_ok(3) [OF inv, of e] by simp
  then have "erased e l (bottomErase e l)" using bottomErase_ok(1,2) [OF inv, of e] o by (simp add: erased_def)
  moreover have "lq_erase e l = Some (bottomErase e l)" using t fr e approxTime_tm [OF t(1)] by (auto simp: lq_erase_def ms_isEmpty_iff)
  ultimately show ?thesis by blast
qed

lemma lq_erase_exact:
  assumes "erasable e l"
  shows "\<exists>l'. lq_erase e l = Some l' \<and> erased e l l'"
proof -
  have "e \<in># contents l" using assms by (metis count_eq_zero_iff erasable_def zero_neq_one)
  then consider "e \<in> set (lq_top l)" | "e \<in># rungsEvents l" | "e \<in> set (ms_vals (bottom l))" by (auto simp: contents_def)
  then show ?thesis
  proof cases
    case 2
    then obtain x y where "e \<in> set (rung l x y)" by (auto simp: rungsEvents_member)
    then show ?thesis by (rule erase_in_rung [OF assms])
  qed (use erase_in_top [OF assms] erase_in_bottom [OF assms] in blast)+
qed


subsection \<open>Sequences of operations\<close>

datatype lq_op = Insert lq_event | Dequeue

text \<open>A run returns the ladder and the events that it has handed out.\<close>

fun lq_run :: "lq_op list \<Rightarrow> ladder \<Rightarrow> (ladder \<times> lq_event list) option" where
  "lq_run [] l = Some (l, [])"
| "lq_run (Insert e # ops) l = do {
     l1 \<leftarrow> lq_insert e l;
     lq_run ops l1 }"
| "lq_run (Dequeue # ops) l = do {
     (l1, r) \<leftarrow> lq_dequeue l;
     (l2, es) \<leftarrow> lq_run ops l1;
     Some (l2, (case r of None \<Rightarrow> es | Some e \<Rightarrow> e # es)) }"

fun insertions :: "lq_op list \<Rightarrow> lq_event list" where
  "insertions [] = []"
| "insertions (Insert e # ops) = e # insertions ops"
| "insertions (Dequeue # ops) = insertions ops"

lemma lq_run_keeps:
  assumes "lq_inv l" and "\<forall>e \<in> set (insertions ops). timed e" and "size (contents l) + length ops < 2 ^ 31"
  shows "\<exists>l' es. lq_run ops l = Some (l', es) \<and> mset es + contents l' = mset (insertions ops) + contents l"
  using assms
proof (induction ops arbitrary: l)
  case (Cons op ops)
  show ?case
  proof (cases op)
    case (Insert e)
    have "insertable e l" using Cons.prems Insert by (simp add: insertable_def)
    then obtain l1 where l1: "lq_insert e l = Some l1" "inserted e l l1" using lq_insert_ok by blast
    then have "\<exists>l' es. lq_run ops l1 = Some (l', es) \<and> mset es + contents l' = mset (insertions ops) + contents l1"
      using Cons.prems Insert by (intro Cons.IH) (simp_all add: inserted_def)
    then show ?thesis using l1 Insert by (auto simp: inserted_def)
  next
    case Dequeue
    obtain l1 r where l1: "lq_dequeue l = Some (l1, r)" "dequeued l l1 r" using lq_dequeue_ok [OF Cons.prems(1)] by blast
    have c: "contents l = (case r of None \<Rightarrow> {#} | Some e \<Rightarrow> {#e#}) + contents l1" and inv: "lq_inv l1"
      using l1(2) by (simp_all add: dequeued_def split: option.splits)
    then have "size (contents l1) + length ops < 2 ^ 31" using Cons.prems(3) by (simp split: option.splits)
    then obtain l' es where r': "lq_run ops l1 = Some (l', es)" "mset es + contents l' = mset (insertions ops) + contents l1"
      using Cons.IH [OF inv] Cons.prems(2) Dequeue by auto
    then show ?thesis using l1(1) Dequeue c by (cases r) simp_all
  qed
qed simp

text \<open>C23: The ladder queue loses nothing: whatever insertions and dequeues are made, every operation returns, and the events handed out together with those
  that are left are exactly the events inserted, as long as times are not negative and there are fewer than \<open>2 ^ 31\<close> operations.
\<close>

theorem ladder_loses_nothing:
  assumes "\<forall>e \<in> set (insertions ops). 0 \<le> approxTime e" and "length ops < 2 ^ 31"
  shows "\<exists>l' es. lq_run ops LadderQueueStrict = Some (l', es) \<and> mset es + contents l' = mset (insertions ops)"
proof -
  have c: "contents LadderQueueStrict = {#}" by (simp add: LadderQueueStrict_def contents_def rungsEvents_def rungEvents_def)
  show ?thesis using lq_run_keeps [OF inv_at_start, of ops] assms c by (simp add: timed_def)
qed

text \<open>\<open>clear\<close> gives an empty queue that is ready for use again.\<close>

lemma lq_clear_ok:
  assumes "lq_inv l"
  shows "lq_inv (lq_clear l)" and "contents (lq_clear l) = {#}" and "lq_empty (lq_clear l)"
proof -
  let ?l = "lq_clear l"
  have none: "rung ?l x y = []" for x y
  proof (cases "x < nRung l")
    case True
    then have "rung l x y = []" if "\<not> y < NUM_BUCKETS l x"
      using inv_atD(2) [OF assms True] that unfolding rung_ok_def placed_def by (metis last_in_set)
    then show ?thesis using inv_atD(1) [OF assms] True by (simp add: lq_clear_def)
  qed (use inv_atD(3) [OF assms] in \<open>simp add: lq_clear_def\<close>)
  then have r: "rungsEvents ?l = {#}" by (rule rungsEvents_none)
  then show c: "contents ?l = {#}" by (simp add: contents_def lq_clear_def)
  have "inv_at 0 ?l" using none r c by (intro inv_at_intro) (simp_all add: lq_clear_def top_ok_def)
  then show "lq_inv ?l" by (simp add: lq_clear_def)
  show "lq_empty ?l" by (simp add: lq_empty_def lq_clear_def ms_isEmpty_iff)
qed

definition ladder_event :: "nat \<Rightarrow> u32 \<Rightarrow> lq_event" where
  "ladder_event i t = \<lparr>eventPtr = i, sender = ObjectID 0 0, receiver = ObjectID 0 0, sendTime = IntVTime 0, receiveTime = IntVTime t,
     eventId = of_nat i, eventSize = 0\<rparr>"

theorem ladder_loses_nothing_witness:
  "\<exists>l' es. lq_run [Insert (ladder_event 1 4), Insert (ladder_event 2 3), Dequeue] LadderQueueStrict = Some (l', es) \<and>
     mset es + contents l' = {#ladder_event 1 4, ladder_event 2 3#}"
proof -
  have "0 \<le> approxTime (ladder_event 1 4)" "0 \<le> approxTime (ladder_event 2 3)" by code_simp+
  then show ?thesis using ladder_loses_nothing [of "[Insert (ladder_event 1 4), Insert (ladder_event 2 3), Dequeue]"] by simp
qed

subsection \<open>Filling and emptying\<close>

text \<open>Before the first \<open>begin\<close> there is at most one rung, which starts at time 0.\<close>

definition filling :: "ladder \<Rightarrow> bool" where
  "filling l \<longleftrightarrow> lq_inv l \<and> lq_ordered l \<and> full l \<and> topStart l = 0 \<and> nRung l \<le> 1 \<and> (nRung l = 1 \<longrightarrow> rCur l 0 = 0) \<and>
     numRung0Buckets l \<le> 2 * size (contents l)"


lemma filling_start: "filling LadderQueueStrict"
  using inv_at_start by (simp add: filling_def LadderQueueStrict_def ordered_at_def full_def)

lemma filling_insert:
  assumes f: "filling l" and e: "timed e" and s: "size (contents l) + 1 < 2 ^ 31"
  shows "\<exists>l'. lq_insert e l = Some l' \<and> filling l' \<and> contents l' = add_mset e (contents l)"
proof -
  have "insertable e l" using assms by (simp add: insertable_def filling_def)
  then obtain l' where l': "lq_insert e l = Some l'" "inserted e l l'" using lq_insert_ok by blast
  have c: "contents l' = add_mset e (contents l)" and g: "grown e l l'" using l'(2) by (simp_all add: inserted_def)
  have b: "bottomSize l \<le> size (contents l)" by (simp add: bottomSize_def contents_def)
  have "nRung l' \<le> 1 \<and> (nRung l' = 1 \<longrightarrow> rCur l' 0 = 0) \<and> numRung0Buckets l' \<le> 2 * size (contents l') \<and> topStart l' = 0"
  proof (cases "nRung l' = nRung l \<and> rCur l' = rCur l \<and> numRung0Buckets l' = numRung0Buckets l")
    case True
    then show ?thesis using f g c by (simp add: filling_def grown_def)
  next
    case False
    then have n: "nRung l' = nRung l + 1" "\<forall>j<nRung l. tm e < rCur l j" "rCur l' (nRung l) \<le> tm e" "tm e \<le> topStart l"
      "numRung0Buckets l' \<le> max (numRung0Buckets l) (2 * bottomSize l)" "topStart l' = topStart l" using g unfolding grown_def by blast+
    have "nRung l = 0"
    proof (rule ccontr)
      assume "nRung l \<noteq> 0"
      moreover have "nRung l \<le> 1" using f by (simp add: filling_def)
      ultimately have "nRung l = 1" by linarith
      then have "rCur l 0 = 0" "tm e < rCur l 0" using f n(2) [rule_format, of 0] by (simp_all add: filling_def)
      then show False by simp
    qed
    moreover have "numRung0Buckets l \<le> 2 * size (contents l)" using f by (simp add: filling_def)
    then have "max (numRung0Buckets l) (2 * bottomSize l) \<le> 2 * size (contents l')" using b c by simp
    then have "numRung0Buckets l' \<le> 2 * size (contents l')" using n(5) by linarith
    ultimately show ?thesis using f n by (simp add: filling_def)
  qed
  then have "filling l'" using f l'(2) by (simp add: filling_def inserted_def)
  then show ?thesis using l'(1) c by blast
qed

lemma filling_narrow: "filling l \<Longrightarrow> lq_narrow l"
proof -
  assume f: "filling l"
  have "bucketWidth l 0 \<le> 51 ^ 6" if "0 < nRung l"
  proof -
    have "bucketWidth l 0 \<le> 2 ^ 31" using f that inv_atD(2) [of "nRung l" l 0] by (simp add: filling_def rung_ok_def width_def)
    then show ?thesis by simp
  qed
  then show ?thesis using f by (auto simp: narrow_at_def filling_def le_Suc_eq)
qed

fun dequeueAll :: "nat \<Rightarrow> ladder \<Rightarrow> (ladder \<times> lq_event list) option" where
  "dequeueAll 0 l = Some (l, [])"
| "dequeueAll (Suc n) l = do {
     (l1, r) \<leftarrow> lq_dequeue l;
     e \<leftarrow> r;
     (l2, es) \<leftarrow> dequeueAll n l1;
     Some (l2, e # es) }"

fun insertAll :: "lq_event list \<Rightarrow> ladder \<Rightarrow> ladder option" where
  "insertAll [] l = Some l"
| "insertAll (e # es) l = do {
     l1 \<leftarrow> lq_insert e l;
     insertAll es l1 }"

lemma insertAll_fills:
  assumes "filling l" and "\<forall>e \<in> set es. timed e" and "size (contents l) + length es < 2 ^ 31"
  shows "\<exists>l'. insertAll es l = Some l' \<and> filling l' \<and> contents l' = mset es + contents l"
  using assms
proof (induction es arbitrary: l)
  case (Cons e es)
  obtain l1 where l1: "lq_insert e l = Some l1" "filling l1" "contents l1 = add_mset e (contents l)"
    using filling_insert [OF Cons.prems(1), of e] Cons.prems(2,3) by auto
  then have "\<exists>l'. insertAll es l1 = Some l' \<and> filling l' \<and> contents l' = mset es + contents l1" using Cons.prems by (intro Cons.IH) simp_all
  then show ?case using l1 by auto
qed simp

lemma dequeueAll_sorts:
  assumes "lq_inv l" and "lq_ordered l" and "lq_narrow l" and "roomy l" and "size (contents l) = n"
  shows "\<exists>l' es. dequeueAll n l = Some (l', es) \<and> mset es = contents l \<and> sorted (map receiveTime es)"
  using assms
proof (induction n arbitrary: l)
  case (Suc n)
  obtain l1 r where l1: "lq_dequeue l = Some (l1, r)" "dequeued l l1 r" using lq_dequeue_ok [OF Suc.prems(1)] by blast
  have "contents l \<noteq> {#}" using Suc.prems(5) by auto
  then obtain e where e: "r = Some e" using l1(2) Suc.prems by (cases r) (simp_all add: dequeued_def)
  have d: "contents l = add_mset e (contents l1)" "lq_inv l1" "lq_ordered l1" "lq_narrow l1" "roomy l1"
    and m: "\<And>f. f \<in># contents l \<Longrightarrow> receiveTime e \<le> receiveTime f" using l1(2) Suc.prems e unfolding dequeued_def by simp_all
  then obtain l' es where r': "dequeueAll n l1 = Some (l', es)" "mset es = contents l1" "sorted (map receiveTime es)"
    using Suc.IH [of l1] Suc.prems(5) by auto
  have "receiveTime e \<le> receiveTime f" if "f \<in> set es" for f using m [of f] d(1) r'(2) that by (metis insert_iff set_mset_add_mset_insert set_mset_mset)
  then show ?case using l1(1) e r' d(1) by simp
qed simp

text \<open>C22: The ladder queue sorts: up to 32767 events inserted into a new queue, in any order, come out by \<open>dequeue\<close> in the order of their receive times. No
  operation aborts, and none gives up on the way.
\<close>

theorem ladder_sorts:
  assumes "\<forall>e \<in> set es. 0 \<le> approxTime e" and "length es \<le> 32767"
  shows "\<exists>l l' es'. insertAll es LadderQueueStrict = Some l \<and> dequeueAll (length es) l = Some (l', es') \<and> mset es' = mset es \<and> sorted (map receiveTime es')"
proof -
  have "contents LadderQueueStrict = {#}" by (simp add: LadderQueueStrict_def contents_def rungsEvents_def rungEvents_def)
  then obtain l where l: "insertAll es LadderQueueStrict = Some l" "filling l" "contents l = mset es"
    using insertAll_fills [OF filling_start, of es] assms by (auto simp: timed_def)
  have "roomy l" "lq_inv l" "lq_ordered l" using l(2,3) assms(2) by (simp_all add: roomy_def filling_def)
  then show ?thesis using dequeueAll_sorts [OF _ _ filling_narrow [OF l(2)], of "length es"] l by auto
qed

theorem ladder_sorts_witness:
  "\<exists>l l' es'. insertAll [ladder_event 1 4, ladder_event 2 3, ladder_event 3 0] LadderQueueStrict = Some l \<and> dequeueAll 3 l = Some (l', es') \<and>
     mset es' = {#ladder_event 1 4, ladder_event 2 3, ladder_event 3 0#} \<and> sorted (map receiveTime es')"
proof -
  have "0 \<le> approxTime (ladder_event 1 4)" "0 \<le> approxTime (ladder_event 2 3)" "0 \<le> approxTime (ladder_event 3 0)" by code_simp+
  then show ?thesis using ladder_sorts [of "[ladder_event 1 4, ladder_event 2 3, ladder_event 3 0]"] by (simp add: numeral_3_eq_3)
qed


subsection \<open>What is not in order\<close>


text \<open>The ladder queue says that it is not empty when it is: after the insertion of two events, one dequeue and the erasure of the other event, \<open>empty\<close> is
  false because a rung is left, and \<open>begin\<close> returns the null pointer, which the caller dereferences.
\<close>

theorem ladder_empty_not_reported:
  "map_option (\<lambda>l. (lq_empty l, map_option snd (lq_begin l))) (do {
     l1 \<leftarrow> insertAll [ladder_event 1 1, ladder_event 2 5] LadderQueueStrict;
     (l2, _) \<leftarrow> lq_dequeue l1;
     lq_erase (ladder_event 2 5) l2 }) = Some (False, Some None)"
  by code_simp

end
