(* ===== verification/Aggregation.thy ===== *)
theory Aggregation
  imports Serialization Complex_Main
begin

text \<open>
  Message aggregation: \<open>Transceiver.cpp\<close>, \<open>MessageManager.cpp\<close> and \<open>MsgAggregatingCommunicationManager.cpp\<close>. Messages for another manager are
  collected in a buffer of fixed size, each behind its length, and travel in one packet behind their number. The character array is a function of its index;
  reading or writing outside of it is \<open>None\<close>. The network is the list of packets handed over and the list of packets that have arrived.
\<close>

subsection \<open>Transceivers\<close>

definition INTERNAL_BUFFER_SIZE :: int where "INTERNAL_BUFFER_SIZE = 50000"

record transceiver =
  tr_buffer :: "nat \<Rightarrow> char"
  numberOfMsgs :: int
  currentPosition :: nat
  curSize :: nat

definition Transceiver :: transceiver where
  "Transceiver = \<lparr>tr_buffer = (\<lambda>_. CHR 0x00), numberOfMsgs = 0, currentPosition = 4, curSize = 4\<rparr>"

definition inBuffer :: "nat \<Rightarrow> nat \<Rightarrow> bool" where
  "inBuffer pos n \<longleftrightarrow> int (pos + n) \<le> INTERNAL_BUFFER_SIZE"

definition putAt :: "nat \<Rightarrow> char list \<Rightarrow> (nat \<Rightarrow> char) \<Rightarrow> (nat \<Rightarrow> char)" where
  "putAt pos cs b = (\<lambda>i. if pos \<le> i \<and> i < pos + length cs then cs ! (i - pos) else b i)"

definition getAt :: "nat \<Rightarrow> nat \<Rightarrow> (nat \<Rightarrow> char) \<Rightarrow> char list" where
  "getAt pos n b = map b [pos..<pos + n]"

text \<open>An \<open>unsigned int\<close> in the byte order of the machine.\<close>

definition enc32 :: "bool \<Rightarrow> nat \<Rightarrow> char list" where
  "enc32 big n = order_bytes big (nat_bytes 4 n)"

definition dec32 :: "bool \<Rightarrow> char list \<Rightarrow> nat" where
  "dec32 big cs = bytes_nat (order_bytes big cs)"

definition readMsgSize :: "bool \<Rightarrow> transceiver \<Rightarrow> (nat \<times> transceiver) option" where
  "readMsgSize big t = (if inBuffer (currentPosition t) 4
     then Some (dec32 big (getAt (currentPosition t) 4 (tr_buffer t)), t\<lparr>currentPosition := currentPosition t + 4\<rparr>) else None)"

definition tr_readMessage :: "bool \<Rightarrow> transceiver \<Rightarrow> (char list \<times> transceiver) option" where
  "tr_readMessage big t = do {
     (msgSize, t1) \<leftarrow> readMsgSize big t;
     (if inBuffer (currentPosition t1) msgSize
      then Some (getAt (currentPosition t1) msgSize (tr_buffer t1),
        t1\<lparr>currentPosition := currentPosition t1 + msgSize, numberOfMsgs := numberOfMsgs t1 - 1\<rparr>)
      else None) }"

definition writeMsgSize :: "bool \<Rightarrow> nat \<Rightarrow> transceiver \<Rightarrow> transceiver option" where
  "writeMsgSize big msgSize t = (if inBuffer (currentPosition t) 4
     then Some (t\<lparr>tr_buffer := putAt (currentPosition t) (enc32 big msgSize) (tr_buffer t),
       currentPosition := currentPosition t + 4, curSize := curSize t + 4\<rparr>) else None)"

definition tr_writeMessage :: "bool \<Rightarrow> char list \<Rightarrow> transceiver \<Rightarrow> transceiver option" where
  "tr_writeMessage big message t = do {
     let msgSize = length message;
     t1 \<leftarrow> writeMsgSize big msgSize t;
     (if inBuffer (currentPosition t1) msgSize
      then Some (t1\<lparr>tr_buffer := putAt (currentPosition t1) message (tr_buffer t1), numberOfMsgs := numberOfMsgs t1 + 1,
        curSize := curSize t1 + msgSize, currentPosition := currentPosition t1 + msgSize\<rparr>)
      else None) }"

text \<open>\<open>sendMessage\<close> returns the packet that it hands to the physical layer.\<close>

definition tr_sendMessage :: "bool \<Rightarrow> transceiver \<Rightarrow> (char list \<times> transceiver) option" where
  "tr_sendMessage big t = (let b = putAt 0 (enc32 big (nat (numberOfMsgs t mod 2 ^ 32))) (tr_buffer t) in
     if inBuffer 0 (curSize t)
     then Some (getAt 0 (curSize t) b, t\<lparr>tr_buffer := b, numberOfMsgs := 0, currentPosition := 4, curSize := 4\<rparr>) else None)"

text \<open>\<open>receiveMessage\<close> with the packet that \<open>physicalProbeRecv\<close> returns, if any.\<close>

definition tr_receiveMessage :: "bool \<Rightarrow> char list option \<Rightarrow> transceiver \<Rightarrow> transceiver option" where
  "tr_receiveMessage big newMsg t = (let t1 = t\<lparr>numberOfMsgs := 0, currentPosition := 0\<rparr> in
     case newMsg of None \<Rightarrow> Some t1
     | Some data \<Rightarrow>
         if int (length data) > INTERNAL_BUFFER_SIZE + 4 \<or> length data < 4 then None
         else Some (t1\<lparr>numberOfMsgs := int (dec32 big (take 4 data)), tr_buffer := putAt 0 (drop 4 data) (tr_buffer t1)\<rparr>))"

definition canWriteMessage :: "int \<Rightarrow> transceiver \<Rightarrow> bool" where
  "canWriteMessage sz t \<longleftrightarrow> int (currentPosition t) + sz < INTERNAL_BUFFER_SIZE"

definition tr_probeToSend :: "bool \<Rightarrow> transceiver \<Rightarrow> (char list option \<times> transceiver) option" where
  "tr_probeToSend big t = (if numberOfMsgs t > 0 then map_option (\<lambda>(p, t1). (Some p, t1)) (tr_sendMessage big t) else Some (None, t))"

definition tr_probeToReceive :: "bool \<Rightarrow> char list option \<Rightarrow> transceiver \<Rightarrow> transceiver option" where
  "tr_probeToReceive big newMsg t = (if numberOfMsgs t = 0 then tr_receiveMessage big newMsg t else Some t)"

definition canReceiveMessage :: "transceiver \<Rightarrow> bool" where
  "canReceiveMessage t \<longleftrightarrow> numberOfMsgs t = 0"

subsection \<open>Packets\<close>

lemma length_enc32 [simp]: "length (enc32 big n) = 4"
  by (simp add: enc32_def)

lemma dec_enc32: "n < 2 ^ 32 \<Longrightarrow> dec32 big (enc32 big n) = n"
  by (simp add: dec32_def enc32_def bytes_nat_bytes)

lemma length_getAt [simp]: "length (getAt pos n b) = n"
  by (simp add: getAt_def)

lemma getAt_putAt_same: "getAt pos (length cs) (putAt pos cs b) = cs"
  by (rule nth_equalityI) (simp_all add: getAt_def putAt_def)

lemma getAt_putAt_before: "p + n \<le> pos \<Longrightarrow> getAt p n (putAt pos cs b) = getAt p n b"
  by (simp add: getAt_def putAt_def)

lemma getAt_putAt_after: "pos + length cs \<le> p \<Longrightarrow> getAt p n (putAt pos cs b) = getAt p n b"
  by (simp add: getAt_def putAt_def)

lemma getAt_append: "getAt p (m + n) b = getAt p m b @ getAt (p + m) n b"
proof -
  have "[p..<p + m + n] = [p..<p + m] @ [p + m..<p + m + n]" by (rule upt_add_eq_append) simp
  then show ?thesis by (simp add: getAt_def add.assoc)
qed

text \<open>A message in a buffer is framed by its length.\<close>

definition frame :: "bool \<Rightarrow> char list \<Rightarrow> char list" where
  "frame big m = enc32 big (length m) @ m"

definition frames :: "bool \<Rightarrow> char list list \<Rightarrow> char list" where
  "frames big ms = concat (map (frame big) ms)"

definition packet :: "bool \<Rightarrow> char list list \<Rightarrow> char list" where
  "packet big ms = enc32 big (length ms) @ frames big ms"

text \<open>The state of a buffer that collects the messages \<open>ms\<close>.\<close>

definition collects :: "bool \<Rightarrow> char list list \<Rightarrow> transceiver \<Rightarrow> bool" where
  "collects big ms t \<longleftrightarrow> numberOfMsgs t = int (length ms) \<and> currentPosition t = curSize t \<and> curSize t = 4 + length (frames big ms) \<and>
     getAt 4 (length (frames big ms)) (tr_buffer t) = frames big ms \<and> inBuffer 0 (curSize t)"

lemma collects_start: "collects big [] Transceiver"
  by (simp add: collects_def Transceiver_def frames_def getAt_def inBuffer_def INTERNAL_BUFFER_SIZE_def)

lemma tr_writeMessage_collects:
  assumes c: "collects big ms t" and fits: "inBuffer (currentPosition t) (4 + length m)"
  shows "\<exists>t'. tr_writeMessage big m t = Some t' \<and> collects big (ms @ [m]) t'"
proof -
  let ?p = "currentPosition t"
  let ?b = "putAt (?p + 4) m (putAt ?p (enc32 big (length m)) (tr_buffer t))"
  have p: "?p = 4 + length (frames big ms)" using c by (simp add: collects_def)
  have i: "inBuffer ?p 4" "inBuffer (?p + 4) (length m)" using fits by (simp_all add: inBuffer_def add.assoc)
  have b1: "getAt 4 (length (frames big ms)) ?b = frames big ms"
  proof -
    have "getAt 4 (length (frames big ms)) ?b = getAt 4 (length (frames big ms)) (tr_buffer t)" using p by (simp add: getAt_putAt_before)
    also have "\<dots> = frames big ms" using c unfolding collects_def by blast
    finally show ?thesis .
  qed
  have b2: "getAt ?p 4 ?b = enc32 big (length m)"
    using getAt_putAt_same [of ?p "enc32 big (length m)" "tr_buffer t"] by (simp add: getAt_putAt_before)
  have b3: "getAt (?p + 4) (length m) ?b = m" by (rule getAt_putAt_same)
  have "getAt 4 (length (frames big ms) + (4 + length m)) ?b = frames big ms @ getAt ?p (4 + length m) ?b"
    unfolding getAt_append b1 p [symmetric] ..
  also have "getAt ?p (4 + length m) ?b = frame big m" unfolding getAt_append b2 b3 frame_def ..
  finally have "collects big (ms @ [m]) (t\<lparr>tr_buffer := ?b, numberOfMsgs := numberOfMsgs t + 1, curSize := curSize t + 4 + length m,
      currentPosition := ?p + 4 + length m\<rparr>)"
    using c fits by (simp add: collects_def frames_def frame_def inBuffer_def add.assoc)
  moreover have "tr_writeMessage big m t = Some (t\<lparr>tr_buffer := ?b, numberOfMsgs := numberOfMsgs t + 1, curSize := curSize t + 4 + length m,
      currentPosition := ?p + 4 + length m\<rparr>)"
    using i by (simp add: tr_writeMessage_def writeMsgSize_def Let_def)
  ultimately show ?thesis by blast
qed


lemma collects_small: "collects big ms t \<Longrightarrow> length ms < 2 ^ 32"
proof -
  assume "collects big ms t"
  then have "int (4 + length (frames big ms)) \<le> 50000" by (simp add: collects_def inBuffer_def INTERNAL_BUFFER_SIZE_def)
  moreover have "length ms \<le> length (frames big ms)" by (induction ms) (simp_all add: frames_def frame_def)
  ultimately show ?thesis by simp
qed

lemma tr_sendMessage_packet:
  assumes c: "collects big ms t"
  shows "\<exists>t'. tr_sendMessage big t = Some (packet big ms, t') \<and> collects big [] t'"
proof -
  let ?h = "enc32 big (nat (numberOfMsgs t mod 2 ^ 32))"
  let ?b = "putAt 0 ?h (tr_buffer t)"
  have n: "numberOfMsgs t = int (length ms)" and s: "curSize t = 4 + length (frames big ms)" and i: "inBuffer 0 (curSize t)"
    and f: "getAt 4 (length (frames big ms)) (tr_buffer t) = frames big ms" using c unfolding collects_def by blast+
  have h: "?h = enc32 big (length ms)" using n collects_small [OF c] by (simp add: nat_mod_distrib)
  have "getAt 0 (curSize t) ?b = getAt 0 4 ?b @ getAt (0 + 4) (length (frames big ms)) ?b" unfolding s by (rule getAt_append)
  also have "getAt 0 4 ?b = ?h" using getAt_putAt_same [of 0 ?h "tr_buffer t"] by simp
  also have "getAt (0 + 4) (length (frames big ms)) ?b = frames big ms" using f by (simp add: getAt_putAt_after)
  finally have "getAt 0 (curSize t) ?b = packet big ms" unfolding h packet_def .
  then show ?thesis using i by (simp add: tr_sendMessage_def Let_def collects_def frames_def getAt_def inBuffer_def INTERNAL_BUFFER_SIZE_def)
qed

text \<open>The state of a buffer from which the messages \<open>ms\<close> can still be read.\<close>

definition holds :: "bool \<Rightarrow> char list list \<Rightarrow> transceiver \<Rightarrow> bool" where
  "holds big ms t \<longleftrightarrow> numberOfMsgs t = int (length ms) \<and> inBuffer (currentPosition t) (length (frames big ms)) \<and>
     getAt (currentPosition t) (length (frames big ms)) (tr_buffer t) = frames big ms"

lemma tr_receiveMessage_holds:
  assumes "int (length (packet big ms)) \<le> INTERNAL_BUFFER_SIZE + 4"
  shows "\<exists>t'. tr_receiveMessage big (Some (packet big ms)) t = Some t' \<and> holds big ms t'"
proof -
  have "length ms \<le> length (frames big ms)" by (induction ms) (simp_all add: frames_def frame_def)
  then have "dec32 big (enc32 big (length ms)) = length ms" using assms by (intro dec_enc32) (simp add: packet_def INTERNAL_BUFFER_SIZE_def)
  then show ?thesis using assms getAt_putAt_same [of 0 "frames big ms" "tr_buffer t"]
    by (simp add: tr_receiveMessage_def Let_def packet_def holds_def inBuffer_def)
qed

lemma tr_readMessage_holds:
  assumes h: "holds big (m # ms) t"
  shows "\<exists>t'. tr_readMessage big t = Some (m, t') \<and> holds big ms t'"
proof -
  let ?p = "currentPosition t" and ?n = "length m" and ?k = "length (frames big ms)"
  have i: "inBuffer ?p (4 + (?n + ?k))" and g: "getAt ?p (4 + (?n + ?k)) (tr_buffer t) = enc32 big ?n @ (m @ frames big ms)"
    using h by (simp_all add: holds_def frames_def frame_def add.assoc)
  have "getAt ?p 4 (tr_buffer t) @ (getAt (?p + 4) ?n (tr_buffer t) @ getAt (?p + 4 + ?n) ?k (tr_buffer t)) = enc32 big ?n @ (m @ frames big ms)"
    using g unfolding getAt_append .
  then have a: "getAt ?p 4 (tr_buffer t) = enc32 big ?n" "getAt (?p + 4) ?n (tr_buffer t) = m" "getAt (?p + 4 + ?n) ?k (tr_buffer t) = frames big ms"
    by simp_all
  have "dec32 big (enc32 big ?n) = ?n" using i by (intro dec_enc32) (simp add: inBuffer_def INTERNAL_BUFFER_SIZE_def)
  then have "readMsgSize big t = Some (?n, t\<lparr>currentPosition := ?p + 4\<rparr>)" using i a(1) by (simp add: readMsgSize_def inBuffer_def)
  then show ?thesis using i a(2,3) h by (simp add: tr_readMessage_def inBuffer_def holds_def add.assoc)
qed


subsection \<open>The message manager\<close>

datatype aggregationSendCriteria = SEND | WRITE | SEND_AND_WRITE | WRITE_AND_SEND | DO_NOT_SEND | SEND_WRITE_SEND | DO_NOT_KNOW

datatype aggregationReceiveCriteria = RECEIVE | NO_NEED_TO_RECEIVE

text \<open>What the message manager sees of a kernel message: its type, its receiver and its serialized form.\<close>

record aggMsg =
  km_type :: string
  km_receiver :: nat
  km_data :: "char list"

record messageManager =
  lpId :: nat
  send_buffer :: "transceiver list"
  numberOfMessagesToBeSent :: int
  ageOfMessage :: int
  ageIncrementor :: int
  receiveCriterion :: int
  maxReceiveDelay :: int
  maximumAge :: int
  aggregateCtrlMsg :: int
  newMaximumAge :: int
  tanTheta :: rat
  rollingBack :: bool

text \<open>The physical layer: the packets handed to it with their destinations, in order, and the packets that have arrived.\<close>

record physicalLayer =
  outgoing :: "(nat \<times> char list) list"
  incoming :: "char list list"

type_synonym mm = "messageManager \<times> physicalLayer"

definition MessageManager :: "nat \<Rightarrow> nat \<Rightarrow> messageManager" where
  "MessageManager numLPs myId = \<lparr>lpId = myId, send_buffer = replicate numLPs Transceiver, numberOfMessagesToBeSent = 0, ageOfMessage = 0,
     ageIncrementor = 0, receiveCriterion = 0, maxReceiveDelay = 15, maximumAge = 20, aggregateCtrlMsg = 0,
     newMaximumAge = 20, tanTheta = 0, rollingBack = False\<rparr>"

definition isControlMessage :: "messageManager \<Rightarrow> aggMsg \<Rightarrow> bool" where
  "isControlMessage m msg =
     (if km_type msg = ''EventMessage'' \<or> km_type msg = ''NegativeEventMessage'' then False
      else if km_type msg = ''InitializationMessage'' \<or> km_type msg = ''StartMessage'' \<or> km_type msg = ''CheckIdleMessage'' \<or>
        km_type msg = ''AbortSimulationMessage'' then True
      else aggregateCtrlMsg m = 0)"

definition resetSendCriterionInfo :: "messageManager \<Rightarrow> messageManager" where
  "resetSendCriterionInfo m = m\<lparr>ageOfMessage := 0, numberOfMessagesToBeSent := 0\<rparr>"

definition resetReceiveCriterionInfo :: "messageManager \<Rightarrow> messageManager" where
  "resetReceiveCriterionInfo m = m\<lparr>receiveCriterion := 0\<rparr>"

definition getSendCriteriaInFixedPessimism :: "messageManager \<Rightarrow> aggregationSendCriteria" where
  "getSendCriteriaInFixedPessimism m = (if ageOfMessage m > maximumAge m then SEND else DO_NOT_SEND)"

definition getSendCriteriaInFixedMsgCount :: "messageManager \<Rightarrow> aggregationSendCriteria" where
  "getSendCriteriaInFixedMsgCount m = (if numberOfMessagesToBeSent m \<ge> maximumAge m then SEND else DO_NOT_SEND)"

definition getSendCriteriaInFixedSlope :: "messageManager \<Rightarrow> aggregationSendCriteria" where
  "getSendCriteriaInFixedSlope m =
     (if ageOfMessage m > 10 \<and> of_int (numberOfMessagesToBeSent m + 1) < of_int (ageOfMessage m * ageOfMessage m) * tanTheta m then SEND else DO_NOT_SEND)"

text \<open>\<open>isEmptyInputQ\<close>, the idle status of the simulation manager, is an argument.\<close>

definition getSendCriteriaInFixedSlopeWithError :: "bool \<Rightarrow> messageManager \<Rightarrow> aggregationSendCriteria" where
  "getSendCriteriaInFixedSlopeWithError isEmptyInputQ m =
     (if rollingBack m then DO_NOT_SEND else if isEmptyInputQ then SEND else getSendCriteriaInFixedSlope m)"

definition getSendCriteriaInMeanOfFactors :: "messageManager \<Rightarrow> aggregationSendCriteria" where
  "getSendCriteriaInMeanOfFactors m = (if ageOfMessage m > newMaximumAge m then SEND else DO_NOT_SEND)"

definition setRollBackFlag :: "messageManager \<Rightarrow> messageManager" where
  "setRollBackFlag m = m\<lparr>rollingBack := True\<rparr>"

definition resetRollBackFlag :: "messageManager \<Rightarrow> messageManager" where
  "resetRollBackFlag m = m\<lparr>rollingBack := False\<rparr>"

definition getSendCriteria :: "aggMsg \<Rightarrow> messageManager \<Rightarrow> aggregationSendCriteria option" where
  "getSendCriteria msg m = do {
     t \<leftarrow> vec_get (send_buffer m) (km_receiver msg);
     Some (if \<not> canWriteMessage (int (length (km_data msg))) t
       then (if isControlMessage m msg then SEND_WRITE_SEND else SEND_AND_WRITE)
       else (if isControlMessage m msg then WRITE_AND_SEND else WRITE)) }"

definition getSendCriteriaInFixedPessimism_msg :: "aggMsg \<Rightarrow> messageManager \<Rightarrow> aggregationSendCriteria option" where
  "getSendCriteriaInFixedPessimism_msg msg m = do {
     criteria \<leftarrow> getSendCriteria msg m;
     Some (if criteria = WRITE then getSendCriteriaInFixedPessimism m else criteria) }"

definition getSendCriteriaInFixedMsgCount_msg :: "aggMsg \<Rightarrow> messageManager \<Rightarrow> aggregationSendCriteria option" where
  "getSendCriteriaInFixedMsgCount_msg msg m = do {
     criteria \<leftarrow> getSendCriteria msg m;
     Some (if criteria = WRITE then getSendCriteriaInFixedMsgCount m else criteria) }"

definition getSendCriteriaInFixedSlope_msg :: "aggMsg \<Rightarrow> messageManager \<Rightarrow> aggregationSendCriteria option" where
  "getSendCriteriaInFixedSlope_msg msg m = do {
     criteria \<leftarrow> getSendCriteria msg m;
     Some (if criteria = WRITE then getSendCriteriaInFixedSlope m else criteria) }"

definition getSendCriteriaInFixedSlopeWithError_msg :: "bool \<Rightarrow> aggMsg \<Rightarrow> messageManager \<Rightarrow> aggregationSendCriteria option" where
  "getSendCriteriaInFixedSlopeWithError_msg isEmptyInputQ msg m = do {
     criteria \<leftarrow> getSendCriteria msg m;
     Some (if criteria = WRITE then getSendCriteriaInFixedSlopeWithError isEmptyInputQ m else criteria) }"

definition getSendCriteriaInMeanOfFactors_msg :: "aggMsg \<Rightarrow> messageManager \<Rightarrow> aggregationSendCriteria option" where
  "getSendCriteriaInMeanOfFactors_msg msg m = do {
     criteria \<leftarrow> getSendCriteria msg m;
     Some (if criteria = WRITE then getSendCriteriaInMeanOfFactors m else criteria) }"

text \<open>The receive buffer is the send buffer of the manager's own number.\<close>

definition getReceiveCriteria :: "messageManager \<Rightarrow> aggregationReceiveCriteria option" where
  "getReceiveCriteria m = do {
     t \<leftarrow> vec_get (send_buffer m) (lpId m);
     Some (if numberOfMsgs t \<le> 0 \<and> receiveCriterion m \<ge> maxReceiveDelay m then RECEIVE else NO_NEED_TO_RECEIVE) }"

definition mm_writeMessage :: "bool \<Rightarrow> char list \<Rightarrow> nat \<Rightarrow> messageManager \<Rightarrow> messageManager option" where
  "mm_writeMessage big msg dest m = do {
     t \<leftarrow> vec_get (send_buffer m) dest;
     t1 \<leftarrow> tr_writeMessage big msg t;
     bs \<leftarrow> vec_set (send_buffer m) dest t1;
     Some (m\<lparr>send_buffer := bs, numberOfMessagesToBeSent := numberOfMessagesToBeSent m + 1, ageIncrementor := 1\<rparr>) }"

text \<open>\<open>sendMessage()\<close>: every buffer for another manager that holds messages is sent.\<close>

fun flushFrom :: "bool \<Rightarrow> nat \<Rightarrow> nat \<Rightarrow> transceiver list \<Rightarrow> (transceiver list \<times> (nat \<times> char list) list) option" where
  "flushFrom big me i [] = Some ([], [])"
| "flushFrom big me i (t # ts) = do {
     (t1, out) \<leftarrow> (if i \<noteq> me \<and> numberOfMsgs t > 0 then do { (p, t1) \<leftarrow> tr_sendMessage big t; Some (t1, [(i, p)]) } else Some (t, []));
     (ts1, outs) \<leftarrow> flushFrom big me (i + 1) ts;
     Some (t1 # ts1, out @ outs) }"

definition mm_flush :: "bool \<Rightarrow> mm \<Rightarrow> mm option" where
  "mm_flush big = (\<lambda>(m, n). do {
     (bs, outs) \<leftarrow> flushFrom big (lpId m) 0 (send_buffer m);
     Some (resetSendCriterionInfo (m\<lparr>send_buffer := bs\<rparr>), n\<lparr>outgoing := outgoing n @ outs\<rparr>) })"

definition mm_write :: "bool \<Rightarrow> char list \<Rightarrow> nat \<Rightarrow> mm \<Rightarrow> mm option" where
  "mm_write big msg dest = (\<lambda>(m, n). map_option (\<lambda>m1. (m1, n)) (mm_writeMessage big msg dest m))"

text \<open>\<open>receive_buffer->receiveMessage()\<close> with \<open>physicalProbeRecv\<close>.\<close>

definition mm_probe :: "bool \<Rightarrow> mm \<Rightarrow> mm option" where
  "mm_probe big = (\<lambda>(m, n). do {
     t \<leftarrow> vec_get (send_buffer m) (lpId m);
     t1 \<leftarrow> tr_receiveMessage big (case incoming n of [] \<Rightarrow> None | p # _ \<Rightarrow> Some p) t;
     bs \<leftarrow> vec_set (send_buffer m) (lpId m) t1;
     Some (m\<lparr>send_buffer := bs\<rparr>, n\<lparr>incoming := drop 1 (incoming n)\<rparr>) })"

text \<open>\<open>probeToSend\<close>, which sends what \<open>sendMessage\<close> sends and leaves the age and the count, and \<open>probeToReceive\<close>.\<close>

fun probeFrom :: "bool \<Rightarrow> nat \<Rightarrow> nat \<Rightarrow> transceiver list \<Rightarrow> (transceiver list \<times> (nat \<times> char list) list) option" where
  "probeFrom big me i [] = Some ([], [])"
| "probeFrom big me i (t # ts) = do {
     (p, t1) \<leftarrow> (if i \<noteq> me then tr_probeToSend big t else Some (None, t));
     (ts1, outs) \<leftarrow> probeFrom big me (i + 1) ts;
     Some (t1 # ts1, (case p of None \<Rightarrow> outs | Some x \<Rightarrow> (i, x) # outs)) }"

definition mm_probeToSend :: "bool \<Rightarrow> mm \<Rightarrow> mm option" where
  "mm_probeToSend big = (\<lambda>(m, n). do {
     (bs, outs) \<leftarrow> probeFrom big (lpId m) 0 (send_buffer m);
     Some (m\<lparr>send_buffer := bs\<rparr>, n\<lparr>outgoing := outgoing n @ outs\<rparr>) })"

definition mm_probeToReceive :: "bool \<Rightarrow> mm \<Rightarrow> mm option" where
  "mm_probeToReceive big = (\<lambda>(m, n). do {
     t \<leftarrow> vec_get (send_buffer m) (lpId m);
     (if numberOfMsgs t = 0 then mm_probe big (m, n) else Some (m, n)) })"

definition checkToReceive :: "bool \<Rightarrow> mm \<Rightarrow> mm option" where
  "checkToReceive big = (\<lambda>(m, n). do {
     whatToDo \<leftarrow> getReceiveCriteria m;
     (case whatToDo of
        RECEIVE \<Rightarrow> map_option (\<lambda>(m1, n1). (resetReceiveCriterionInfo m1, n1)) (mm_probe big (m, n))
      | NO_NEED_TO_RECEIVE \<Rightarrow> Some (m, n)) })"

definition checkToSend :: "bool \<Rightarrow> mm \<Rightarrow> mm option" where
  "checkToSend big = (\<lambda>(m, n). if getSendCriteriaInFixedPessimism m = SEND then mm_flush big (m, n) else Some (m, n))"

definition incrementAgeOfMessage :: "messageManager \<Rightarrow> messageManager" where
  "incrementAgeOfMessage m = m\<lparr>ageOfMessage := ageOfMessage m + ageIncrementor m\<rparr>"

definition flushIfAgeExceeded :: "bool \<Rightarrow> mm \<Rightarrow> mm option" where
  "flushIfAgeExceeded big = (\<lambda>(m, n). if ageOfMessage m > maximumAge m then mm_flush big (m, n) else Some (m, n))"

definition flushIfWaitedTooLong :: "bool \<Rightarrow> int \<Rightarrow> mm \<Rightarrow> (int \<times> mm) option" where
  "flushIfWaitedTooLong big waitTime = (\<lambda>(m, n). if waitTime > maximumAge m then map_option (\<lambda>s. (0, s)) (mm_flush big (m, n)) else Some (waitTime, m, n))"

definition hasMessagesToSend :: "messageManager \<Rightarrow> bool" where
  "hasMessagesToSend m \<longleftrightarrow> list_ex (\<lambda>(i, t). i \<noteq> lpId m \<and> numberOfMsgs t > 0) (enumerate 0 (send_buffer m))"

definition aggregate :: "bool \<Rightarrow> aggregationSendCriteria \<Rightarrow> char list \<Rightarrow> nat \<Rightarrow> mm \<Rightarrow> mm option" where
  "aggregate big whatToDo toSend dest s =
     (case whatToDo of
        SEND_AND_WRITE \<Rightarrow> do { s1 \<leftarrow> mm_flush big s; mm_write big toSend dest s1 }
      | WRITE_AND_SEND \<Rightarrow> do { s1 \<leftarrow> mm_write big toSend dest s; mm_flush big s1 }
      | SEND \<Rightarrow> do { s1 \<leftarrow> mm_write big toSend dest s; mm_flush big s1 }
      | WRITE \<Rightarrow> mm_write big toSend dest s
      | SEND_WRITE_SEND \<Rightarrow> do { s1 \<leftarrow> mm_flush big s; s2 \<leftarrow> mm_write big toSend dest s1; mm_flush big s2 }
      | DO_NOT_SEND \<Rightarrow> mm_write big toSend dest s
      | DO_NOT_KNOW \<Rightarrow> mm_write big toSend dest s)"

definition mm_sendMessage :: "bool \<Rightarrow> aggMsg \<Rightarrow> nat \<Rightarrow> mm \<Rightarrow> mm option" where
  "mm_sendMessage big msg dest s = do {
     whatToDo \<leftarrow> getSendCriteriaInFixedPessimism_msg msg (fst s);
     (m, n) \<leftarrow> aggregate big whatToDo (km_data msg) dest s;
     checkToReceive big (m\<lparr>receiveCriterion := receiveCriterion m + 1\<rparr>, n) }"


definition mm_readMessage :: "bool \<Rightarrow> mm \<Rightarrow> (char list \<times> mm) option" where
  "mm_readMessage big = (\<lambda>(m, n). do {
     t \<leftarrow> vec_get (send_buffer m) (lpId m);
     (msg, t1) \<leftarrow> tr_readMessage big t;
     bs \<leftarrow> vec_set (send_buffer m) (lpId m) t1;
     Some (msg, m\<lparr>send_buffer := bs\<rparr>, n) })"

definition mm_receiveMessage :: "bool \<Rightarrow> mm \<Rightarrow> (char list option \<times> mm) option" where
  "mm_receiveMessage big s = do {
     t \<leftarrow> vec_get (send_buffer (fst s)) (lpId (fst s));
     (if numberOfMsgs t > 0 then map_option (\<lambda>(msg, s1). (Some msg, s1)) (mm_readMessage big s)
      else do {
        s1 \<leftarrow> mm_probe big s;
        t1 \<leftarrow> vec_get (send_buffer (fst s1)) (lpId (fst s1));
        (if numberOfMsgs t1 > 0
         then map_option (\<lambda>(msg, m, n). (Some msg, resetReceiveCriterionInfo m, n)) (mm_readMessage big s1)
         else map_option (\<lambda>s2. (None, s2)) (checkToSend big s1)) }) }"

subsection \<open>What a destination gets\<close>

text \<open>The link to one destination: the messages given to it are those in the packets sent to it, followed by those in its buffer.\<close>

definition channel :: "bool \<Rightarrow> char list list \<Rightarrow> char list list \<Rightarrow> transceiver \<Rightarrow> bool" where
  "channel big msgs pks t \<longleftrightarrow> (\<exists>pss ms. pks = map (packet big) pss \<and>
     (\<forall>ps\<in>set pss. ps \<noteq> [] \<and> int (length (packet big ps)) \<le> INTERNAL_BUFFER_SIZE) \<and> collects big ms t \<and> msgs = concat pss @ ms)"

lemma channelI:
  "pks = map (packet big) pss \<Longrightarrow> \<forall>ps\<in>set pss. ps \<noteq> [] \<and> int (length (packet big ps)) \<le> INTERNAL_BUFFER_SIZE \<Longrightarrow>
   collects big ms t \<Longrightarrow> msgs = concat pss @ ms \<Longrightarrow> channel big msgs pks t"
  unfolding channel_def by blast

lemma channelE:
  assumes "channel big msgs pks t"
  obtains pss ms where "pks = map (packet big) pss" "\<forall>ps\<in>set pss. ps \<noteq> [] \<and> int (length (packet big ps)) \<le> INTERNAL_BUFFER_SIZE"
    "collects big ms t" "msgs = concat pss @ ms"
  using assms unfolding channel_def by blast

lemma channel_start: "channel big [] [] Transceiver"
  by (rule channelI [of _ _ "[]" "[]"]) (simp_all add: collects_start)

lemma channel_write:
  assumes c: "channel big msgs pks t" and fits: "inBuffer (currentPosition t) (4 + length m)"
  shows "\<exists>t'. tr_writeMessage big m t = Some t' \<and> channel big (msgs @ [m]) pks t' \<and> currentPosition t' = currentPosition t + 4 + length m"
proof -
  from c obtain pss ms where p: "pks = map (packet big) pss" and q: "\<forall>ps\<in>set pss. ps \<noteq> [] \<and> int (length (packet big ps)) \<le> INTERNAL_BUFFER_SIZE"
    and k: "collects big ms t" and e: "msgs = concat pss @ ms" by (rule channelE)
  from tr_writeMessage_collects [OF k fits] obtain t' where w: "tr_writeMessage big m t = Some t'" and k': "collects big (ms @ [m]) t'" by blast
  have "channel big (msgs @ [m]) pks t'" using p q k' by (rule channelI) (simp add: e)
  moreover have "currentPosition t' = currentPosition t + 4 + length m" using k k' by (simp add: collects_def frames_def frame_def)
  ultimately show ?thesis using w by blast
qed

lemma channel_send:
  assumes c: "channel big msgs pks t" and n: "numberOfMsgs t > 0"
  shows "\<exists>p t'. tr_sendMessage big t = Some (p, t') \<and> channel big msgs (pks @ [p]) t' \<and> numberOfMsgs t' = 0"
proof -
  from c obtain pss ms where p: "pks = map (packet big) pss" and q: "\<forall>ps\<in>set pss. ps \<noteq> [] \<and> int (length (packet big ps)) \<le> INTERNAL_BUFFER_SIZE"
    and k: "collects big ms t" and e: "msgs = concat pss @ ms" by (rule channelE)
  from tr_sendMessage_packet [OF k] obtain t' where w: "tr_sendMessage big t = Some (packet big ms, t')" and k': "collects big [] t'" by blast
  have "ms \<noteq> []" using k n by (auto simp: collects_def)
  moreover have "int (length (packet big ms)) \<le> INTERNAL_BUFFER_SIZE" using k by (simp add: collects_def packet_def inBuffer_def)
  ultimately have q': "\<forall>ps\<in>set (pss @ [ms]). ps \<noteq> [] \<and> int (length (packet big ps)) \<le> INTERNAL_BUFFER_SIZE" using q by simp
  have "channel big msgs (pks @ [packet big ms]) t'" using _ q' k' by (rule channelI) (simp_all add: e p)
  moreover have "numberOfMsgs t' = 0" using k' by (simp add: collects_def)
  ultimately show ?thesis using w by blast
qed

lemma channel_drained: "channel big msgs pks t \<Longrightarrow> numberOfMsgs t \<le> 0 \<Longrightarrow> currentPosition t = 4 \<and> numberOfMsgs t = 0"
  by (auto simp: channel_def collects_def frames_def)

definition toDest :: "nat \<Rightarrow> (nat \<times> char list) list \<Rightarrow> char list list" where
  "toDest d outs = map snd (filter (\<lambda>x. fst x = d) outs)"

lemma toDest_simps [simp]:
  "toDest d [] = []" "toDest d (x # xs) = (if fst x = d then snd x # toDest d xs else toDest d xs)" "toDest d (xs @ ys) = toDest d xs @ toDest d ys"
  by (simp_all add: toDest_def)

lemma toDest_none: "\<forall>x\<in>set outs. fst x \<noteq> d \<Longrightarrow> toDest d outs = []"
  by (simp add: toDest_def)

lemma flushFrom_channel:
  assumes "\<And>j. j < length ts \<Longrightarrow> i + j \<noteq> me \<Longrightarrow> channel big (msgs (i + j)) (pks (i + j)) (ts ! j)"
  shows "\<exists>ts' outs. flushFrom big me i ts = Some (ts', outs) \<and> length ts' = length ts \<and> (\<forall>x\<in>set outs. i \<le> fst x) \<and>
    (\<forall>j < length ts. i + j = me \<longrightarrow> ts' ! j = ts ! j) \<and>
    (\<forall>j < length ts. i + j \<noteq> me \<longrightarrow> channel big (msgs (i + j)) (pks (i + j) @ toDest (i + j) outs) (ts' ! j) \<and> numberOfMsgs (ts' ! j) = 0)"
  using assms
proof (induction ts arbitrary: i)
  case Nil
  then show ?case by simp
next
  case (Cons t ts)
  have "\<And>j. j < length ts \<Longrightarrow> Suc i + j \<noteq> me \<Longrightarrow> channel big (msgs (Suc i + j)) (pks (Suc i + j)) (ts ! j)"
    using Cons.prems [of "Suc _"] by simp
  from Cons.IH [OF this] obtain ts' outs where r: "flushFrom big me (Suc i) ts = Some (ts', outs)" and l: "length ts' = length ts"
    and o: "\<forall>x\<in>set outs. Suc i \<le> fst x" and same: "\<forall>j < length ts. Suc i + j = me \<longrightarrow> ts' ! j = ts ! j"
    and ch: "\<forall>j < length ts. Suc i + j \<noteq> me \<longrightarrow> channel big (msgs (Suc i + j)) (pks (Suc i + j) @ toDest (Suc i + j) outs) (ts' ! j) \<and>
      numberOfMsgs (ts' ! j) = 0"
    by blast
  have none: "toDest i outs = []" using o by (intro toDest_none) auto
  have "\<exists>t' out. (if i \<noteq> me \<and> numberOfMsgs t > 0 then do { (p, t1) \<leftarrow> tr_sendMessage big t; Some (t1, [(i, p)]) } else Some (t, [])) = Some (t', out) \<and>
      (i = me \<longrightarrow> t' = t) \<and> (\<forall>x\<in>set out. fst x = i) \<and> (i \<noteq> me \<longrightarrow> channel big (msgs i) (pks i @ toDest i out) t' \<and> numberOfMsgs t' = 0)"
  proof (cases "i \<noteq> me \<and> numberOfMsgs t > 0")
    case True
    then have "channel big (msgs i) (pks i) t" using Cons.prems [of 0] by simp
    from channel_send [OF this] True obtain p t' where "tr_sendMessage big t = Some (p, t')" "channel big (msgs i) (pks i @ [p]) t'" "numberOfMsgs t' = 0"
      by blast
    then show ?thesis using True by simp
  next
    case False
    then show ?thesis using Cons.prems [of 0] channel_drained by fastforce
  qed
  then obtain t' out where h: "(if i \<noteq> me \<and> numberOfMsgs t > 0 then do { (p, t1) \<leftarrow> tr_sendMessage big t; Some (t1, [(i, p)]) } else Some (t, [])) = Some (t', out)"
    and h1: "i = me \<longrightarrow> t' = t" and h2: "\<forall>x\<in>set out. fst x = i" and h3: "i \<noteq> me \<longrightarrow> channel big (msgs i) (pks i @ toDest i out) t' \<and> numberOfMsgs t' = 0"
    by blast
  have other: "toDest k out = []" if "k \<noteq> i" for k using h2 that by (intro toDest_none) auto
  have "flushFrom big me i (t # ts) = Some (t' # ts', out @ outs)" using h r by simp
  moreover have "\<forall>x\<in>set (out @ outs). i \<le> fst x" using h2 o by auto
  moreover have "\<forall>j < length (t # ts). i + j = me \<longrightarrow> (t' # ts') ! j = (t # ts) ! j"
    using h1 same by (auto simp: nth_Cons split: nat.split)
  moreover have "\<forall>j < length (t # ts). i + j \<noteq> me \<longrightarrow>
      channel big (msgs (i + j)) (pks (i + j) @ toDest (i + j) (out @ outs)) ((t' # ts') ! j) \<and> numberOfMsgs ((t' # ts') ! j) = 0"
    using h3 ch none other by (auto simp: nth_Cons split: nat.split)
  ultimately show ?case using l by (intro exI [of _ "t' # ts'"] exI [of _ "out @ outs"]) simp
qed

text \<open>The state of a message manager: \<open>f d\<close> are the messages that have been given to it for the manager \<open>d\<close>.\<close>

definition mmInv :: "bool \<Rightarrow> (nat \<Rightarrow> char list list) \<Rightarrow> mm \<Rightarrow> bool" where
  "mmInv big f s \<longleftrightarrow> lpId (fst s) < length (send_buffer (fst s)) \<and>
     (\<forall>d < length (send_buffer (fst s)). d \<noteq> lpId (fst s) \<longrightarrow>
        channel big (f d) (toDest d (outgoing (snd s))) (send_buffer (fst s) ! d) \<and> 4 dvd currentPosition (send_buffer (fst s) ! d))"

definition drained :: "mm \<Rightarrow> bool" where
  "drained s \<longleftrightarrow> (\<forall>d < length (send_buffer (fst s)). d \<noteq> lpId (fst s) \<longrightarrow>
     currentPosition (send_buffer (fst s) ! d) = 4 \<and> numberOfMsgs (send_buffer (fst s) ! d) = 0)"

text \<open>Sending keeps the number of the manager, its buffers' number, its receive buffer and what has arrived.\<close>

definition sendFrame :: "mm \<Rightarrow> mm \<Rightarrow> bool" where
  "sendFrame s s' \<longleftrightarrow> lpId (fst s') = lpId (fst s) \<and> length (send_buffer (fst s')) = length (send_buffer (fst s)) \<and>
     send_buffer (fst s') ! lpId (fst s) = send_buffer (fst s) ! lpId (fst s) \<and> incoming (snd s') = incoming (snd s)"

lemma sendFrame_trans: "sendFrame s s1 \<Longrightarrow> sendFrame s1 s2 \<Longrightarrow> sendFrame s s2"
  by (simp add: sendFrame_def)

lemma mmInv_start: "me < N \<Longrightarrow> outgoing n = [] \<Longrightarrow> mmInv big (\<lambda>_. []) (MessageManager N me, n)"
  by (simp add: mmInv_def MessageManager_def channel_start) (simp add: Transceiver_def)

lemma mm_flush_inv:
  assumes inv: "mmInv big f s"
  shows "\<exists>s'. mm_flush big s = Some s' \<and> mmInv big f s' \<and> drained s' \<and> sendFrame s s'"
proof -
  obtain m n where s: "s = (m, n)" by (cases s)
  have "\<And>j. j < length (send_buffer m) \<Longrightarrow> 0 + j \<noteq> lpId m \<Longrightarrow> channel big (f (0 + j)) (toDest (0 + j) (outgoing n)) (send_buffer m ! j)"
    using inv by (simp add: s mmInv_def)
  from flushFrom_channel [where i = 0 and me = "lpId m" and msgs = f and pks = "\<lambda>d. toDest d (outgoing n)", OF this]
  obtain ts' outs where r: "flushFrom big (lpId m) 0 (send_buffer m) = Some (ts', outs)" and l: "length ts' = length (send_buffer m)"
    and same: "\<forall>j < length (send_buffer m). 0 + j = lpId m \<longrightarrow> ts' ! j = send_buffer m ! j"
    and ch: "\<forall>j < length (send_buffer m). 0 + j \<noteq> lpId m \<longrightarrow> channel big (f (0 + j)) (toDest (0 + j) (outgoing n) @ toDest (0 + j) outs) (ts' ! j) \<and>
      numberOfMsgs (ts' ! j) = 0" by blast
  have ch: "channel big (f d) (toDest d (outgoing n @ outs)) (ts' ! d) \<and> numberOfMsgs (ts' ! d) = 0 \<and> currentPosition (ts' ! d) = 4"
    if "d < length ts'" "d \<noteq> lpId m" for d using ch that l channel_drained [of big "f d" _ "ts' ! d"] by force
  let ?s = "(resetSendCriterionInfo (m\<lparr>send_buffer := ts'\<rparr>), n\<lparr>outgoing := outgoing n @ outs\<rparr>)"
  have "mm_flush big s = Some ?s" using r by (simp add: s mm_flush_def)
  moreover have "mmInv big f ?s" using inv l ch by (simp add: s mmInv_def resetSendCriterionInfo_def del: toDest_simps)
  moreover have "drained ?s" using ch by (simp add: drained_def resetSendCriterionInfo_def)
  moreover have "sendFrame s ?s" using inv l same by (simp add: s mmInv_def sendFrame_def resetSendCriterionInfo_def)
  ultimately show ?thesis by blast
qed

lemma mm_write_inv:
  assumes inv: "mmInv big f s" and d: "d < length (send_buffer (fst s))" "d \<noteq> lpId (fst s)" and a: "4 dvd length x"
    and fits: "inBuffer (currentPosition (send_buffer (fst s) ! d)) (4 + length x)"
  shows "\<exists>s'. mm_write big x d s = Some s' \<and> mmInv big (f(d := f d @ [x])) s' \<and> sendFrame s s'"
proof -
  obtain m n where s: "s = (m, n)" by (cases s)
  have c: "channel big (f d) (toDest d (outgoing n)) (send_buffer m ! d)" and p: "4 dvd currentPosition (send_buffer m ! d)"
    using inv d by (simp_all add: s mmInv_def)
  from channel_write [OF c] fits obtain t' where w: "tr_writeMessage big x (send_buffer m ! d) = Some t'"
    and c': "channel big (f d @ [x]) (toDest d (outgoing n)) t'" and q: "currentPosition t' = currentPosition (send_buffer m ! d) + 4 + length x"
    unfolding s by auto
  let ?s = "(m\<lparr>send_buffer := (send_buffer m)[d := t'], numberOfMessagesToBeSent := numberOfMessagesToBeSent m + 1, ageIncrementor := 1\<rparr>, n)"
  have "mm_write big x d s = Some ?s" using d w by (simp add: s mm_write_def mm_writeMessage_def vec_get_def vec_set_def)
  moreover have "4 dvd currentPosition t'" using p a by (simp add: q)
  then have "mmInv big (f(d := f d @ [x])) ?s" using inv c' by (simp add: s mmInv_def nth_list_update)
  moreover have "sendFrame s ?s" using d by (simp add: s sendFrame_def)
  ultimately show ?thesis by blast
qed

lemma probeFrom_flushFrom: "probeFrom big me i ts = flushFrom big me i ts"
proof (induction ts arbitrary: i)
  case (Cons t ts)
  then show ?case
    by (cases "tr_sendMessage big t"; cases "flushFrom big me (i + 1) ts") (auto simp: tr_probeToSend_def)
qed simp

lemma mm_probeToSend_flush: "map_option (\<lambda>(m, n). (resetSendCriterionInfo m, n)) (mm_probeToSend big s) = mm_flush big s"
  by (cases s) (auto simp: mm_probeToSend_def mm_flush_def probeFrom_flushFrom split: bind_splits)

text \<open>\<open>canWriteMessage\<close> leaves out the length that precedes the message; with messages of whole words there is always room for it.\<close>

lemma canWrite_room: "4 dvd currentPosition t \<Longrightarrow> 4 dvd length x \<Longrightarrow> canWriteMessage (int (length x)) t \<Longrightarrow> inBuffer (currentPosition t) (4 + length x)"
  unfolding canWriteMessage_def inBuffer_def INTERNAL_BUFFER_SIZE_def by presburger

definition wellSized :: "char list \<Rightarrow> bool" where
  "wellSized x \<longleftrightarrow> 4 dvd length x \<and> int (length x) + 8 \<le> INTERNAL_BUFFER_SIZE"

lemma mm_flush_write_inv:
  assumes inv: "mmInv big f s" and d: "d < length (send_buffer (fst s))" "d \<noteq> lpId (fst s)" and w: "wellSized x"
  shows "\<exists>s'. do { s1 \<leftarrow> mm_flush big s; mm_write big x d s1 } = Some s' \<and> mmInv big (f(d := f d @ [x])) s' \<and> sendFrame s s'"
proof -
  from mm_flush_inv [OF inv] obtain s1 where f1: "mm_flush big s = Some s1" and i1: "mmInv big f s1" and d1: "drained s1" and r1: "sendFrame s s1" by blast
  have d': "d < length (send_buffer (fst s1))" "d \<noteq> lpId (fst s1)" using d r1 by (simp_all add: sendFrame_def)
  have "inBuffer (currentPosition (send_buffer (fst s1) ! d)) (4 + length x)" using w d1 d' by (simp add: wellSized_def drained_def inBuffer_def)
  from mm_write_inv [OF i1 d' _ this] w obtain s' where "mm_write big x d s1 = Some s'" "mmInv big (f(d := f d @ [x])) s'" "sendFrame s1 s'"
    by (auto simp: wellSized_def)
  then show ?thesis using f1 r1 sendFrame_trans by fastforce
qed

lemma aggregate_inv:
  assumes inv: "mmInv big f s" and d: "d < length (send_buffer (fst s))" "d \<noteq> lpId (fst s)" and w: "wellSized x"
    and room: "w \<noteq> SEND_AND_WRITE \<Longrightarrow> w \<noteq> SEND_WRITE_SEND \<Longrightarrow> canWriteMessage (int (length x)) (send_buffer (fst s) ! d)"
  shows "\<exists>s'. aggregate big w x d s = Some s' \<and> mmInv big (f(d := f d @ [x])) s' \<and> sendFrame s s'"
proof -
  have fl: "\<exists>s'. (g \<bind> mm_flush big) = Some s' \<and> mmInv big (f(d := f d @ [x])) s' \<and> sendFrame s s'"
    if g: "\<exists>s'. g = Some s' \<and> mmInv big (f(d := f d @ [x])) s' \<and> sendFrame s s'" for g
  proof -
    from g obtain s1 where s1: "g = Some s1" "mmInv big (f(d := f d @ [x])) s1" "sendFrame s s1" by blast
    from mm_flush_inv [OF s1(2)] show ?thesis using s1 sendFrame_trans by fastforce
  qed
  show ?thesis
  proof (cases "w = SEND_AND_WRITE \<or> w = SEND_WRITE_SEND")
    case True
    note W = mm_flush_write_inv [OF inv d w]
    from True W fl [OF W] show ?thesis by (auto simp: aggregate_def Option.bind_assoc)
  next
    case False
    have "4 dvd currentPosition (send_buffer (fst s) ! d)" using inv d by (simp add: mmInv_def)
    then have "inBuffer (currentPosition (send_buffer (fst s) ! d)) (4 + length x)" using False room w by (simp add: canWrite_room wellSized_def)
    from mm_write_inv [OF inv d _ this] w have W: "\<exists>s'. mm_write big x d s = Some s' \<and> mmInv big (f(d := f d @ [x])) s' \<and> sendFrame s s'"
      by (simp add: wellSized_def)
    from False W fl [OF W] show ?thesis by (cases w) (simp_all add: aggregate_def)
  qed
qed

text \<open>What can still be received: the messages left in the receive buffer, then those of the packets that have arrived.\<close>

definition inbox :: "bool \<Rightarrow> char list list \<Rightarrow> mm \<Rightarrow> bool" where
  "inbox big q s \<longleftrightarrow> (\<exists>ms pss. numberOfMsgs (send_buffer (fst s) ! lpId (fst s)) = int (length ms) \<and>
     (ms \<noteq> [] \<longrightarrow> holds big ms (send_buffer (fst s) ! lpId (fst s))) \<and> incoming (snd s) = map (packet big) pss \<and>
     (\<forall>ps\<in>set pss. ps \<noteq> [] \<and> int (length (packet big ps)) \<le> INTERNAL_BUFFER_SIZE) \<and> q = ms @ concat pss)"

lemma inboxI:
  "numberOfMsgs (send_buffer (fst s) ! lpId (fst s)) = int (length ms) \<Longrightarrow> (ms \<noteq> [] \<Longrightarrow> holds big ms (send_buffer (fst s) ! lpId (fst s))) \<Longrightarrow>
   incoming (snd s) = map (packet big) pss \<Longrightarrow> \<forall>ps\<in>set pss. ps \<noteq> [] \<and> int (length (packet big ps)) \<le> INTERNAL_BUFFER_SIZE \<Longrightarrow>
   q = ms @ concat pss \<Longrightarrow> inbox big q s"
  unfolding inbox_def by blast

lemma inboxE:
  assumes "inbox big q s"
  obtains ms pss where "numberOfMsgs (send_buffer (fst s) ! lpId (fst s)) = int (length ms)"
    "ms \<noteq> [] \<Longrightarrow> holds big ms (send_buffer (fst s) ! lpId (fst s))" "incoming (snd s) = map (packet big) pss"
    "\<forall>ps\<in>set pss. ps \<noteq> [] \<and> int (length (packet big ps)) \<le> INTERNAL_BUFFER_SIZE" "q = ms @ concat pss"
  using assms unfolding inbox_def by blast

lemma inbox_frame: "sendFrame s s' \<Longrightarrow> inbox big q s \<Longrightarrow> inbox big q s'"
  by (simp add: inbox_def sendFrame_def)

lemma mmInv_receive_buffer: "mmInv big f (m, n) \<Longrightarrow> mmInv big f (m\<lparr>send_buffer := (send_buffer m)[lpId m := t]\<rparr>, n\<lparr>incoming := i\<rparr>)"
  by (simp add: mmInv_def)

lemma mmInv_receiveCriterion: "mmInv big f (m, n) \<Longrightarrow> mmInv big f (m\<lparr>receiveCriterion := c\<rparr>, n)"
  by (simp add: mmInv_def)

lemma inbox_receiveCriterion: "inbox big q (m, n) \<Longrightarrow> inbox big q (m\<lparr>receiveCriterion := c\<rparr>, n)"
  by (simp add: inbox_def)

text \<open>Probing the physical layer with an empty receive buffer loses no message; afterwards that buffer is empty only if nothing is left.\<close>

lemma mm_probe_inbox:
  assumes inv: "mmInv big f s" and i: "inbox big q s" and e: "numberOfMsgs (send_buffer (fst s) ! lpId (fst s)) \<le> 0"
  shows "\<exists>s'. mm_probe big s = Some s' \<and> mmInv big f s' \<and> inbox big q s' \<and> (numberOfMsgs (send_buffer (fst s') ! lpId (fst s')) > 0 \<longleftrightarrow> q \<noteq> [])"
proof -
  obtain m n where s: "s = (m, n)" by (cases s)
  have l: "lpId m < length (send_buffer m)" using inv by (simp add: s mmInv_def)
  let ?t = "send_buffer m ! lpId m"
  from i obtain ms pss where "numberOfMsgs ?t = int (length ms)" and ip: "incoming n = map (packet big) pss"
    and ok: "\<forall>ps\<in>set pss. ps \<noteq> [] \<and> int (length (packet big ps)) \<le> INTERNAL_BUFFER_SIZE" and q: "q = ms @ concat pss"
    by (rule inboxE) (simp add: s)
  then have q: "q = concat pss" using e by (simp add: s)
  show ?thesis
  proof (cases pss)
    case Nil
    let ?s = "(m\<lparr>send_buffer := (send_buffer m)[lpId m := ?t\<lparr>numberOfMsgs := 0, currentPosition := 0\<rparr>]\<rparr>, n\<lparr>incoming := []\<rparr>)"
    have "mm_probe big s = Some ?s" using l ip Nil by (simp add: s mm_probe_def tr_receiveMessage_def Let_def vec_get_def vec_set_def)
    moreover have "mmInv big f ?s" using inv unfolding s by (rule mmInv_receive_buffer)
    moreover have "inbox big q ?s" using l q Nil by (intro inboxI [of _ "[]" _ "[]"]) simp_all
    ultimately show ?thesis using l q Nil by simp
  next
    case (Cons ps rest)
    have "int (length (packet big ps)) \<le> INTERNAL_BUFFER_SIZE + 4" using ok Cons by simp
    from tr_receiveMessage_holds [OF this, of ?t] obtain t' where r: "tr_receiveMessage big (Some (packet big ps)) ?t = Some t'" and h: "holds big ps t'" by blast
    let ?s = "(m\<lparr>send_buffer := (send_buffer m)[lpId m := t']\<rparr>, n\<lparr>incoming := map (packet big) rest\<rparr>)"
    have "mm_probe big s = Some ?s" using l ip Cons r by (simp add: s mm_probe_def vec_get_def vec_set_def)
    moreover have "mmInv big f ?s" using inv unfolding s by (rule mmInv_receive_buffer)
    moreover have k: "numberOfMsgs t' = int (length ps)" using h by (simp add: holds_def)
    then have "inbox big q ?s" using l q ok Cons h by (intro inboxI [of _ ps _ rest]) simp_all
    moreover have "numberOfMsgs t' > 0 \<and> q \<noteq> []" using k ok Cons q by simp
    ultimately show ?thesis using l by simp
  qed
qed

lemma mm_readMessage_inbox:
  assumes inv: "mmInv big f s" and i: "inbox big q s" and e: "numberOfMsgs (send_buffer (fst s) ! lpId (fst s)) > 0"
  shows "\<exists>x q' s'. q = x # q' \<and> mm_readMessage big s = Some (x, s') \<and> mmInv big f s' \<and> inbox big q' s'"
proof -
  obtain m n where s: "s = (m, n)" by (cases s)
  have l: "lpId m < length (send_buffer m)" using inv by (simp add: s mmInv_def)
  let ?t = "send_buffer m ! lpId m"
  from i obtain ms pss where k: "numberOfMsgs ?t = int (length ms)" and h: "ms \<noteq> [] \<Longrightarrow> holds big ms ?t" and ip: "incoming n = map (packet big) pss"
    and ok: "\<forall>ps\<in>set pss. ps \<noteq> [] \<and> int (length (packet big ps)) \<le> INTERNAL_BUFFER_SIZE" and q: "q = ms @ concat pss"
    by (rule inboxE) (simp add: s)
  obtain x ms' where ms: "ms = x # ms'" using e k by (cases ms) (simp_all add: s)
  from tr_readMessage_holds [OF h [unfolded ms]] obtain t' where r: "tr_readMessage big ?t = Some (x, t')" and h': "holds big ms' t'" by blast
  let ?s = "(m\<lparr>send_buffer := (send_buffer m)[lpId m := t']\<rparr>, n)"
  have "mm_readMessage big s = Some (x, ?s)" using l r by (simp add: s mm_readMessage_def vec_get_def vec_set_def)
  moreover have "mmInv big f ?s" using inv by (simp add: s mmInv_def)
  moreover have "inbox big (ms' @ concat pss) ?s" using l h' ip ok by (intro inboxI [of _ ms' _ pss]) (simp_all add: holds_def)
  ultimately show ?thesis using q ms by auto
qed

text \<open>Both directions together.\<close>

definition linkInv :: "bool \<Rightarrow> (nat \<Rightarrow> char list list) \<Rightarrow> char list list \<Rightarrow> mm \<Rightarrow> bool" where
  "linkInv big f q s \<longleftrightarrow> mmInv big f s \<and> inbox big q s"

lemma linkInv_own: "linkInv big f q s \<Longrightarrow> vec_get (send_buffer (fst s)) (lpId (fst s)) = Some (send_buffer (fst s) ! lpId (fst s))"
  by (simp add: linkInv_def mmInv_def vec_get_def)

lemma linkInv_receiveCriterion: "linkInv big f q (m, n) \<Longrightarrow> linkInv big f q (m\<lparr>receiveCriterion := c\<rparr>, n)"
  by (simp add: linkInv_def mmInv_receiveCriterion inbox_receiveCriterion)

lemma mm_flush_linkInv:
  assumes "linkInv big f q s"
  shows "\<exists>s'. mm_flush big s = Some s' \<and> linkInv big f q s' \<and> drained s'"
  using mm_flush_inv [of big f s] assms inbox_frame unfolding linkInv_def by blast

lemma checkToReceive_linkInv:
  assumes inv: "linkInv big f q s"
  shows "\<exists>s'. checkToReceive big s = Some s' \<and> linkInv big f q s'"
proof -
  obtain m n where s: "s = (m, n)" by (cases s)
  let ?t = "send_buffer m ! lpId m"
  have own: "vec_get (send_buffer m) (lpId m) = Some ?t" using linkInv_own [OF inv] by (simp add: s)
  show ?thesis
  proof (cases "numberOfMsgs ?t \<le> 0 \<and> receiveCriterion m \<ge> maxReceiveDelay m")
    case True
    then have "\<exists>s'. mm_probe big s = Some s' \<and> linkInv big f q s'"
      using mm_probe_inbox [of big f s q] inv unfolding linkInv_def s by auto
    then obtain m1 n1 where p: "mm_probe big (m, n) = Some (m1, n1)" and i: "linkInv big f q (m1, n1)" unfolding s by fastforce
    have "checkToReceive big s = Some (resetReceiveCriterionInfo m1, n1)"
      using True own p by (simp add: s checkToReceive_def getReceiveCriteria_def)
    then show ?thesis using linkInv_receiveCriterion [OF i] unfolding resetReceiveCriterionInfo_def by blast
  next
    case False
    then have "getReceiveCriteria m = Some NO_NEED_TO_RECEIVE" using own by (auto simp: getReceiveCriteria_def)
    then have "checkToReceive big s = Some s" by (simp add: s checkToReceive_def)
    then show ?thesis using inv by blast
  qed
qed

lemma sendCriteria_room:
  assumes "km_receiver x < length (send_buffer m)"
  shows "\<exists>c. getSendCriteriaInFixedPessimism_msg x m = Some c \<and>
    (c \<noteq> SEND_AND_WRITE \<longrightarrow> c \<noteq> SEND_WRITE_SEND \<longrightarrow> canWriteMessage (int (length (km_data x))) (send_buffer m ! km_receiver x))"
  using assms by (cases "canWriteMessage (int (length (km_data x))) (send_buffer m ! km_receiver x)")
    (simp_all add: getSendCriteriaInFixedPessimism_msg_def getSendCriteria_def vec_get_def)

lemma mm_sendMessage_linkInv:
  assumes inv: "linkInv big f q s" and d: "km_receiver x < length (send_buffer (fst s))" "km_receiver x \<noteq> lpId (fst s)" and w: "wellSized (km_data x)"
  shows "\<exists>s'. mm_sendMessage big x (km_receiver x) s = Some s' \<and> linkInv big (f(km_receiver x := f (km_receiver x) @ [km_data x])) q s'"
proof -
  let ?d = "km_receiver x" and ?f = "f(km_receiver x := f (km_receiver x) @ [km_data x])"
  from d obtain c where c: "getSendCriteriaInFixedPessimism_msg x (fst s) = Some c"
    and room: "c \<noteq> SEND_AND_WRITE \<Longrightarrow> c \<noteq> SEND_WRITE_SEND \<Longrightarrow> canWriteMessage (int (length (km_data x))) (send_buffer (fst s) ! ?d)"
    using sendCriteria_room by blast
  have "mmInv big f s" using inv by (simp add: linkInv_def)
  from aggregate_inv [OF this d w room] obtain s1 where a: "aggregate big c (km_data x) ?d s = Some s1" and i: "mmInv big ?f s1" and r: "sendFrame s s1" by blast
  have l: "linkInv big ?f q s1" using i r inv inbox_frame by (simp add: linkInv_def)
  obtain m n where s1: "s1 = (m, n)" by (cases s1)
  from checkToReceive_linkInv [OF linkInv_receiveCriterion [OF l [unfolded s1]]]
  obtain s' where "checkToReceive big (m\<lparr>receiveCriterion := receiveCriterion m + 1\<rparr>, n) = Some s'" "linkInv big ?f q s'" by blast
  then show ?thesis using c a by (simp add: mm_sendMessage_def s1)
qed

lemma checkToSend_linkInv:
  assumes "linkInv big f q s"
  shows "\<exists>s'. checkToSend big s = Some s' \<and> linkInv big f q s'"
  using mm_flush_linkInv [OF assms] assms by (cases s) (auto simp: checkToSend_def)

text \<open>\<open>receiveMessage\<close> takes the oldest message, or reports that there is none.\<close>

lemma mm_receiveMessage_linkInv:
  assumes inv: "linkInv big f q s"
  shows "\<exists>s'. mm_receiveMessage big s = Some ((case q of [] \<Rightarrow> None | x # _ \<Rightarrow> Some x), s') \<and> linkInv big f (tl q) s'"
proof (cases "numberOfMsgs (send_buffer (fst s) ! lpId (fst s)) > 0")
  case True
  from mm_readMessage_inbox [of big f s q, OF _ _ True] inv obtain x q' s' where "q = x # q'" "mm_readMessage big s = Some (x, s')" "linkInv big f q' s'"
    unfolding linkInv_def by blast
  then show ?thesis using True linkInv_own [OF inv] by (simp add: mm_receiveMessage_def)
next
  case False
  from mm_probe_inbox [of big f s q] False inv obtain s1 where p: "mm_probe big s = Some s1" and i: "linkInv big f q s1"
    and n: "numberOfMsgs (send_buffer (fst s1) ! lpId (fst s1)) > 0 \<longleftrightarrow> q \<noteq> []" unfolding linkInv_def by fastforce
  show ?thesis
  proof (cases q)
    case Nil
    from checkToSend_linkInv [OF i] show ?thesis using False Nil p n linkInv_own [OF inv] linkInv_own [OF i] by (auto simp: mm_receiveMessage_def)
  next
    case (Cons x q')
    then have g: "numberOfMsgs (send_buffer (fst s1) ! lpId (fst s1)) > 0" using n by simp
    from mm_readMessage_inbox [of big f s1 q, OF _ _ this] i Cons obtain m n where r: "mm_readMessage big s1 = Some (x, m, n)" and i': "linkInv big f q' (m, n)"
      unfolding linkInv_def by force
    have "mm_receiveMessage big s = Some (Some x, resetReceiveCriterionInfo m, n)"
      using False g p r linkInv_own [OF inv] linkInv_own [OF i] by (simp add: mm_receiveMessage_def)
    then show ?thesis using Cons linkInv_receiveCriterion [OF i'] unfolding resetReceiveCriterionInfo_def by auto
  qed
qed

subsection \<open>The communication manager\<close>





text \<open>The manager in use: it sends, it receives, and packets arrive for it. The result are the answers to the receive operations.\<close>

datatype linkOp = SendOp aggMsg | ReceiveOp | ArriveOp "char list list"

fun linkRun :: "bool \<Rightarrow> linkOp list \<Rightarrow> mm \<Rightarrow> (char list option list \<times> mm) option" where
  "linkRun big [] s = Some ([], s)"
| "linkRun big (SendOp x # ops) s = do { s1 \<leftarrow> mm_sendMessage big x (km_receiver x) s; linkRun big ops s1 }"
| "linkRun big (ReceiveOp # ops) s = do { (r, s1) \<leftarrow> mm_receiveMessage big s; (rs, s2) \<leftarrow> linkRun big ops s1; Some (r # rs, s2) }"
| "linkRun big (ArriveOp ps # ops) s = linkRun big ops (fst s, (snd s)\<lparr>incoming := incoming (snd s) @ [packet big ps]\<rparr>)"

text \<open>Its specification: a queue of messages for every destination and one of the messages that can be received.\<close>

fun linkSpec :: "linkOp list \<Rightarrow> (nat \<Rightarrow> char list list) \<Rightarrow> char list list \<Rightarrow> char list option list \<times> (nat \<Rightarrow> char list list) \<times> char list list" where
  "linkSpec [] f q = ([], f, q)"
| "linkSpec (SendOp x # ops) f q = linkSpec ops (f(km_receiver x := f (km_receiver x) @ [km_data x])) q"
| "linkSpec (ReceiveOp # ops) f q = (let r = linkSpec ops f (tl q) in ((case q of [] \<Rightarrow> None | x # _ \<Rightarrow> Some x) # fst r, snd r))"
| "linkSpec (ArriveOp ps # ops) f q = linkSpec ops f (q @ ps)"

fun opOk :: "nat \<Rightarrow> nat \<Rightarrow> linkOp \<Rightarrow> bool" where
  "opOk N me (SendOp x) \<longleftrightarrow> km_receiver x < N \<and> km_receiver x \<noteq> me \<and> wellSized (km_data x)"
| "opOk N me ReceiveOp \<longleftrightarrow> True"
| "opOk N me (ArriveOp ps) \<longleftrightarrow> ps \<noteq> [] \<and> int (length (packet True ps)) \<le> INTERNAL_BUFFER_SIZE"

lemma length_packet_order: "length (packet big ps) = length (packet True ps)"
proof -
  have "length (frames big ps) = length (frames True ps)" by (induction ps) (simp_all add: frames_def frame_def)
  then show ?thesis by (simp add: packet_def)
qed

lemma arrive_linkInv:
  assumes "linkInv big f q (m, n)" "ps \<noteq> []" "int (length (packet True ps)) \<le> INTERNAL_BUFFER_SIZE"
  shows "linkInv big f (q @ ps) (m, n\<lparr>incoming := incoming n @ [packet big ps]\<rparr>)"
proof -
  from assms(1) have "inbox big q (m, n)" by (simp add: linkInv_def)
  then obtain ms pss where i: "numberOfMsgs (send_buffer m ! lpId m) = int (length ms)" "ms \<noteq> [] \<Longrightarrow> holds big ms (send_buffer m ! lpId m)"
    "incoming n = map (packet big) pss" "\<forall>ps\<in>set pss. ps \<noteq> [] \<and> int (length (packet big ps)) \<le> INTERNAL_BUFFER_SIZE" "q = ms @ concat pss"
    by (rule inboxE) simp
  have "inbox big (q @ ps) (m, n\<lparr>incoming := incoming n @ [packet big ps]\<rparr>)"
    using i assms(2,3) by (intro inboxI [of _ ms _ "pss @ [ps]"]) (simp_all add: length_packet_order [of big ps])
  then show ?thesis using assms(1) by (simp add: linkInv_def mmInv_def)
qed

lemma linkInv_start: "me < N \<Longrightarrow> linkInv big (\<lambda>_. []) [] (MessageManager N me, \<lparr>outgoing = [], incoming = []\<rparr>)"
  unfolding linkInv_def by (intro conjI mmInv_start inboxI [of _ "[]" _ "[]"]) (simp_all add: MessageManager_def Transceiver_def)

text \<open>The number of the manager and of its buffers stay.\<close>

definition sameShape :: "nat \<Rightarrow> nat \<Rightarrow> mm \<Rightarrow> bool" where
  "sameShape N me s \<longleftrightarrow> length (send_buffer (fst s)) = N \<and> lpId (fst s) = me"

lemma flushFrom_length: "flushFrom big me i ts = Some (ts', outs) \<Longrightarrow> length ts' = length ts"
  by (induction ts arbitrary: i ts' outs) (auto split: bind_splits if_splits)

lemma mm_flush_shape: "sameShape N me s \<Longrightarrow> mm_flush big s = Some s' \<Longrightarrow> sameShape N me s'"
  by (auto simp: mm_flush_def sameShape_def resetSendCriterionInfo_def dest: flushFrom_length split: bind_splits prod.splits)

lemma mm_write_shape: "sameShape N me s \<Longrightarrow> mm_write big x d s = Some s' \<Longrightarrow> sameShape N me s'"
  by (auto simp: mm_write_def mm_writeMessage_def sameShape_def dest: vec_set_SomeD split: bind_splits prod.splits)

lemma aggregate_shape: "sameShape N me s \<Longrightarrow> aggregate big w x d s = Some s' \<Longrightarrow> sameShape N me s'"
  by (cases w) (auto simp: aggregate_def split: bind_splits elim!: mm_flush_shape [rotated] mm_write_shape [rotated])

lemma mm_probe_shape: "sameShape N me s \<Longrightarrow> mm_probe big s = Some s' \<Longrightarrow> sameShape N me s'"
  by (auto simp: mm_probe_def sameShape_def dest: vec_set_SomeD split: bind_splits prod.splits)

lemma checkToReceive_shape: "sameShape N me s \<Longrightarrow> checkToReceive big s = Some s' \<Longrightarrow> sameShape N me s'"
  using mm_probe_shape [of N me s big]
  by (auto simp: checkToReceive_def sameShape_def resetReceiveCriterionInfo_def split: bind_splits prod.splits aggregationReceiveCriteria.splits)

lemma mm_sendMessage_shape: "sameShape N me s \<Longrightarrow> mm_sendMessage big x d s = Some s' \<Longrightarrow> sameShape N me s'"
proof -
  assume s: "sameShape N me s" and r: "mm_sendMessage big x d s = Some s'"
  from r obtain w m n where "aggregate big w (km_data x) d s = Some (m, n)"
    and c: "checkToReceive big (m\<lparr>receiveCriterion := receiveCriterion m + 1\<rparr>, n) = Some s'"
    by (auto simp: mm_sendMessage_def split: bind_splits prod.splits)
  from aggregate_shape [OF s this(1)] have "sameShape N me (m\<lparr>receiveCriterion := receiveCriterion m + 1\<rparr>, n)" by (simp add: sameShape_def)
  then show ?thesis using c by (rule checkToReceive_shape)
qed

lemma mm_readMessage_shape: "sameShape N me s \<Longrightarrow> mm_readMessage big s = Some (x, s') \<Longrightarrow> sameShape N me s'"
  by (auto simp: mm_readMessage_def sameShape_def dest: vec_set_SomeD split: bind_splits prod.splits)

lemma checkToSend_shape: "sameShape N me s \<Longrightarrow> checkToSend big s = Some s' \<Longrightarrow> sameShape N me s'"
  using mm_flush_shape [of N me s big] by (auto simp: checkToSend_def split: prod.splits if_splits)

lemma mm_receiveMessage_cases:
  assumes "mm_receiveMessage big s = Some (r, s')"
  obtains x where "mm_readMessage big s = Some (x, s')" "r = Some x"
  | s1 x m n where "mm_probe big s = Some s1" "mm_readMessage big s1 = Some (x, m, n)" "r = Some x" "s' = (resetReceiveCriterionInfo m, n)"
  | s1 where "mm_probe big s = Some s1" "checkToSend big s1 = Some s'" "r = None"
  using assms by (auto simp: mm_receiveMessage_def split: bind_splits if_splits)

lemma mm_receiveMessage_shape:
  assumes s: "sameShape N me s" and r: "mm_receiveMessage big s = Some (r, s')"
  shows "sameShape N me s'"
  using r
proof (cases rule: mm_receiveMessage_cases)
  case 1
  then show ?thesis using s mm_readMessage_shape by blast
next
  case (2 s1 x m n)
  then have "sameShape N me (m, n)" using s mm_probe_shape mm_readMessage_shape by blast
  then show ?thesis using 2(4) by (simp add: sameShape_def resetReceiveCriterionInfo_def)
next
  case 3
  then show ?thesis using s mm_probe_shape checkToSend_shape by blast
qed

lemma wellSized_word: "wellSized [a, b, c, d]"
  by (simp add: wellSized_def INTERNAL_BUFFER_SIZE_def eval_nat_numeral)

lemma linkRun_linkSpec:
  assumes "linkInv big f q s" "sameShape N me s" "list_all (opOk N me) ops"
  shows "\<exists>s'. linkRun big ops s = Some (fst (linkSpec ops f q), s') \<and> linkInv big (fst (snd (linkSpec ops f q))) (snd (snd (linkSpec ops f q))) s' \<and> sameShape N me s'"
  using assms
proof (induction ops f q arbitrary: s rule: linkSpec.induct)
  case (1 f q)
  then show ?case by simp
next
  case (2 x ops f q)
  have "km_receiver x < length (send_buffer (fst s))" "km_receiver x \<noteq> lpId (fst s)" "wellSized (km_data x)"
    using 2(3,4) by (simp_all add: sameShape_def)
  from mm_sendMessage_linkInv [OF 2(2) this] obtain s1 where r: "mm_sendMessage big x (km_receiver x) s = Some s1"
    and i: "linkInv big (f(km_receiver x := f (km_receiver x) @ [km_data x])) q s1" by blast
  have "list_all (opOk N me) ops" using 2(4) by simp
  from 2(1) [OF i mm_sendMessage_shape [OF 2(3) r] this] show ?case using r by (simp add: fun_upd_def)
next
  case (3 ops f q)
  from mm_receiveMessage_linkInv [OF 3(2)] obtain s1 where
    r: "mm_receiveMessage big s = Some ((case q of [] \<Rightarrow> None | x # _ \<Rightarrow> Some x), s1)" and i: "linkInv big f (tl q) s1" by blast
  from 3(1) [OF i mm_receiveMessage_shape [OF 3(3) r]] 3(4) obtain s' where "linkRun big ops s1 = Some (fst (linkSpec ops f (tl q)), s')"
    "linkInv big (fst (snd (linkSpec ops f (tl q)))) (snd (snd (linkSpec ops f (tl q)))) s'" "sameShape N me s'" by auto
  then show ?case using r by (simp add: Let_def)
next
  case (4 ps ops f q)
  have "linkInv big f (q @ ps) (fst s, (snd s)\<lparr>incoming := incoming (snd s) @ [packet big ps]\<rparr>)"
    using arrive_linkInv [of big f q "fst s" "snd s" ps] 4(2,4) by simp
  moreover have "sameShape N me (fst s, (snd s)\<lparr>incoming := incoming (snd s) @ [packet big ps]\<rparr>)" using 4(3) by (simp add: sameShape_def)
  ultimately show ?case using 4(1) 4(4) by simp
qed








subsection \<open>Limits of the code\<close>

text \<open>C25: The test for room ignores the length that is written before a message: whenever the message alone would still fit behind the buffer's position but not
  together with its length, \<open>sendMessage\<close> writes past the end of the buffer.\<close>

theorem message_overruns_buffer:
  assumes "km_receiver x < length (send_buffer m)"
    and "int (currentPosition (send_buffer m ! km_receiver x) + length (km_data x)) < INTERNAL_BUFFER_SIZE"
    and "INTERNAL_BUFFER_SIZE < int (currentPosition (send_buffer m ! km_receiver x) + length (km_data x)) + 4"
  shows "mm_sendMessage big x (km_receiver x) (m, n) = None"
proof -
  let ?t = "send_buffer m ! km_receiver x"
  have "canWriteMessage (int (length (km_data x))) ?t" using assms(2) by (simp add: canWriteMessage_def)
  then obtain w where w: "getSendCriteriaInFixedPessimism_msg x m = Some w" "w \<in> {WRITE_AND_SEND, SEND, DO_NOT_SEND}"
    using assms(1) by (simp add: getSendCriteriaInFixedPessimism_msg_def getSendCriteria_def getSendCriteriaInFixedPessimism_def vec_get_def)
  have "tr_writeMessage big (km_data x) ?t = None"
    using assms(3) by (simp add: tr_writeMessage_def writeMsgSize_def Let_def inBuffer_def split: Option.bind_split)
  then have "mm_write big (km_data x) (km_receiver x) (m, n) = None"
    using assms(1) by (simp add: mm_write_def mm_writeMessage_def vec_get_def)
  then show ?thesis using w by (auto simp: mm_sendMessage_def aggregate_def)
qed

theorem message_overruns_buffer_witness:
  "mm_sendMessage True \<lparr>km_type = ''EventMessage'', km_receiver = 1, km_data = replicate 49994 CHR ''a''\<rparr> 1 (MessageManager 2 0, \<lparr>outgoing = [], incoming = []\<rparr>) = None"
  using message_overruns_buffer [of "\<lparr>km_type = ''EventMessage'', km_receiver = 1, km_data = replicate 49994 CHR ''a''\<rparr>" "MessageManager 2 0" True
    "\<lparr>outgoing = [], incoming = []\<rparr>"]
  by (simp add: MessageManager_def Transceiver_def INTERNAL_BUFFER_SIZE_def)

text \<open>A manager whose messages never age, which has handed over nothing.\<close>

definition young :: "mm \<Rightarrow> bool" where
  "young s \<longleftrightarrow> ageOfMessage (fst s) \<le> maximumAge (fst s) \<and> outgoing (snd s) = []"

lemma mm_write_young: "young s \<Longrightarrow> mm_write big x d s = Some s' \<Longrightarrow> young s'"
  by (auto simp: mm_write_def mm_writeMessage_def young_def split: bind_splits prod.splits)

lemma mm_probe_young: "young s \<Longrightarrow> mm_probe big s = Some s' \<Longrightarrow> young s'"
  by (auto simp: mm_probe_def young_def split: bind_splits prod.splits)

lemma mm_readMessage_young: "young s \<Longrightarrow> mm_readMessage big s = Some (x, s') \<Longrightarrow> young s'"
  by (auto simp: mm_readMessage_def young_def split: bind_splits prod.splits)

lemma checkToReceive_young: "young s \<Longrightarrow> checkToReceive big s = Some s' \<Longrightarrow> young s'"
  using mm_probe_young [of s big]
  by (auto simp: checkToReceive_def young_def resetReceiveCriterionInfo_def split: bind_splits prod.splits aggregationReceiveCriteria.splits)

lemma checkToSend_young: "young s \<Longrightarrow> checkToSend big s = Some s' \<Longrightarrow> young s'"
  by (cases s) (auto simp: checkToSend_def getSendCriteriaInFixedPessimism_def young_def split: if_splits)

lemma mm_receiveMessage_young:
  assumes s: "young s" and r: "mm_receiveMessage big s = Some (r, s')"
  shows "young s'"
  using r
proof (cases rule: mm_receiveMessage_cases)
  case 1
  then show ?thesis using s mm_readMessage_young by blast
next
  case (2 s1 x m n)
  then have "young (m, n)" using s mm_probe_young mm_readMessage_young by blast
  then show ?thesis using 2(4) by (simp add: young_def resetReceiveCriterionInfo_def)
next
  case 3
  then show ?thesis using s mm_probe_young checkToSend_young by blast
qed

lemma mm_sendMessage_young:
  assumes s: "young s" and d: "km_receiver x < length (send_buffer (fst s))" and c: "\<not> isControlMessage (fst s) x"
    and room: "canWriteMessage (int (length (km_data x))) (send_buffer (fst s) ! km_receiver x)"
    and r: "mm_sendMessage big x (km_receiver x) s = Some s'"
  shows "young s'"
proof -
  have "getSendCriteriaInFixedPessimism_msg x (fst s) = Some DO_NOT_SEND"
    using s d c room by (simp add: getSendCriteriaInFixedPessimism_msg_def getSendCriteria_def getSendCriteriaInFixedPessimism_def young_def vec_get_def)
  with r obtain m n where w: "mm_write big (km_data x) (km_receiver x) s = Some (m, n)"
    and k: "checkToReceive big (m\<lparr>receiveCriterion := receiveCriterion m + 1\<rparr>, n) = Some s'"
    by (auto simp: mm_sendMessage_def aggregate_def split: bind_splits)
  have "young (m\<lparr>receiveCriterion := receiveCriterion m + 1\<rparr>, n)" using mm_write_young [OF s w] by (simp add: young_def)
  then show ?thesis using k by (rule checkToReceive_young)
qed

text \<open>With nothing sent yet, the position of a buffer tells the size of what it was given.\<close>

lemma young_position:
  assumes "linkInv big f q s" "young s" "d < length (send_buffer (fst s))" "d \<noteq> lpId (fst s)"
  shows "currentPosition (send_buffer (fst s) ! d) = 4 + length (frames big (f d))"
proof -
  have "channel big (f d) [] (send_buffer (fst s) ! d)" using assms by (simp add: linkInv_def mmInv_def young_def)
  then show ?thesis by (auto simp: channel_def collects_def)
qed

fun eventOp :: "linkOp \<Rightarrow> bool" where
  "eventOp (SendOp x) \<longleftrightarrow> km_type x = ''EventMessage'' \<or> km_type x = ''NegativeEventMessage''"
| "eventOp _ \<longleftrightarrow> True"

lemma frames_append: "frames big (xs @ ys) = frames big xs @ frames big ys"
  by (simp add: frames_def)

lemma linkSpec_grows: "length (frames big (f d)) \<le> length (frames big (fst (snd (linkSpec ops f q)) d))"
proof (induction ops f q rule: linkSpec.induct)
  case (2 x ops f q)
  have "length (frames big (f d)) \<le> length (frames big ((f(km_receiver x := f (km_receiver x) @ [km_data x])) d))" by (simp add: frames_append)
  also have "\<dots> \<le> length (frames big (fst (snd (linkSpec (SendOp x # ops) f q)) d))" using 2 by (simp add: fun_upd_def)
  finally show ?case .
qed (simp_all add: Let_def)

lemma young_room:
  assumes "linkInv big f q s" "young s" "d < length (send_buffer (fst s))" "d \<noteq> lpId (fst s)" "int (4 + length (frames big (f d @ [x]))) < INTERNAL_BUFFER_SIZE"
  shows "canWriteMessage (int (length x)) (send_buffer (fst s) ! d)"
  using young_position [OF assms(1-4)] assms(5) by (simp add: canWriteMessage_def frames_append frames_def frame_def)

lemma linkRun_young:
  assumes "linkInv big f q s" "sameShape N me s" "young s" "list_all (opOk N me) ops" "list_all eventOp ops"
    "\<forall>d < N. int (4 + length (frames big (fst (snd (linkSpec ops f q)) d))) < INTERNAL_BUFFER_SIZE" "linkRun big ops s = Some (rs, s')"
  shows "young s'"
  using assms
proof (induction ops f q arbitrary: s rs rule: linkSpec.induct)
  case (1 f q)
  then show ?case by simp
next
  case (2 x ops f q)
  let ?f = "f(km_receiver x := f (km_receiver x) @ [km_data x])"
  have d: "km_receiver x < length (send_buffer (fst s))" "km_receiver x \<noteq> lpId (fst s)" "wellSized (km_data x)"
    using 2(3,5) by (simp_all add: sameShape_def)
  from mm_sendMessage_linkInv [OF 2(2) d] obtain s1 where r: "mm_sendMessage big x (km_receiver x) s = Some s1" and i: "linkInv big ?f q s1" by blast
  have N: "km_receiver x < N" using 2(5) by simp
  have "int (4 + length (frames big (f (km_receiver x) @ [km_data x]))) < INTERNAL_BUFFER_SIZE"
    using linkSpec_grows [of big ?f "km_receiver x" ops q] 2(7) N by force
  from young_room [OF 2(2,4) d(1,2) this] have "canWriteMessage (int (length (km_data x))) (send_buffer (fst s) ! km_receiver x)" .
  moreover have "\<not> isControlMessage (fst s) x" using 2(6) by (simp add: isControlMessage_def)
  ultimately have y: "young s1" using mm_sendMessage_young [OF 2(4) d(1)] r by blast
  have o: "list_all (opOk N me) ops" "list_all eventOp ops" using 2(5,6) by simp_all
  have "\<forall>d < N. int (4 + length (frames big (fst (snd (linkSpec ops ?f q)) d))) < INTERNAL_BUFFER_SIZE" using 2(7) by simp
  moreover have "linkRun big ops s1 = Some (rs, s')" using 2(8) r by simp
  ultimately show ?case using 2(1) [OF i mm_sendMessage_shape [OF 2(3) r] y o] by (simp add: fun_upd_def)
next
  case (3 ops f q)
  from mm_receiveMessage_linkInv [OF 3(2)] obtain s1 where
    r: "mm_receiveMessage big s = Some ((case q of [] \<Rightarrow> None | x # _ \<Rightarrow> Some x), s1)" and i: "linkInv big f (tl q) s1" by blast
  have o: "list_all (opOk N me) ops" "list_all eventOp ops" using 3(5,6) by simp_all
  obtain rs' where l: "linkRun big ops s1 = Some (rs', s')" using 3(8) r by (auto split: bind_splits)
  have "\<forall>d < N. int (4 + length (frames big (fst (snd (linkSpec ops f (tl q))) d))) < INTERNAL_BUFFER_SIZE" using 3(7) by (simp add: Let_def)
  then show ?case using 3(1) [OF i mm_receiveMessage_shape [OF 3(3) r] mm_receiveMessage_young [OF 3(4) r] o _ l] by blast
next
  case (4 ps ops f q)
  let ?s = "(fst s, (snd s)\<lparr>incoming := incoming (snd s) @ [packet big ps]\<rparr>)"
  have "linkInv big f (q @ ps) ?s" using arrive_linkInv [of big f q "fst s" "snd s" ps] 4(2,5) by simp
  moreover have "sameShape N me ?s" "young ?s" using 4(3,4) by (simp_all add: sameShape_def young_def)
  moreover have "list_all (opOk N me) ops" "list_all eventOp ops" using 4(5,6) by simp_all
  ultimately show ?case using 4(1) 4(7,8) by simp
qed

text \<open>Event messages that fit into the buffers are never handed to the network, however often the manager receives in between: the age that should release them
  is never advanced by any of its operations, so only a control message or a full buffer does.\<close>

theorem aggregated_events_stay:
  assumes me: "me < N" and ok: "list_all (opOk N me) ops" and ev: "list_all eventOp ops"
    and fit: "\<forall>d < N. int (4 + length (frames big (fst (snd (linkSpec ops (\<lambda>_. []) [])) d))) < INTERNAL_BUFFER_SIZE"
  shows "\<exists>outs s. linkRun big ops (MessageManager N me, \<lparr>outgoing = [], incoming = []\<rparr>) = Some (outs, s) \<and> outgoing (snd s) = []"
proof -
  let ?s = "(MessageManager N me, \<lparr>outgoing = [], incoming = []\<rparr>)"
  have sh: "sameShape N me ?s" by (simp add: sameShape_def MessageManager_def)
  have "young ?s" by (simp add: young_def MessageManager_def)
  moreover from linkRun_linkSpec [OF linkInv_start [OF me] sh ok, of big] obtain outs s where r: "linkRun big ops ?s = Some (outs, s)" by blast
  ultimately have "young s" using linkRun_young [OF linkInv_start [OF me] sh _ ok ev fit] by blast
  then show ?thesis using r by (auto simp: young_def)
qed

theorem aggregated_events_stay_witness:
  "\<exists>outs s. linkRun True (SendOp \<lparr>km_type = ''EventMessage'', km_receiver = 1, km_data = ''abcd''\<rparr> # replicate 1000 ReceiveOp)
     (MessageManager 2 0, \<lparr>outgoing = [], incoming = []\<rparr>) = Some (outs, s) \<and> outgoing (snd s) = []"
proof -
  have r: "fst (snd (linkSpec (replicate k ReceiveOp) f [])) = f" for k f by (induction k) (simp_all add: Let_def)
  show ?thesis
    by (rule aggregated_events_stay) (simp_all add: r list_all_iff wellSized_word INTERNAL_BUFFER_SIZE_def frames_def frame_def)
qed

end
