(* ===== verification/Startup.thy ===== *)
theory Startup
  imports Prelude
begin

text \<open>
  Start-up of the simulation managers: \<open>waitForInitialization\<close>, \<open>sendStartMessage\<close> and \<open>waitForStart\<close> of
  \<open>CommunicationManagerImplementationBase.cpp\<close> with the registration of objects and the calls in \<open>TimeWarpSimulationManager.cpp\<close>.
  Every manager tells the others the names of its objects, a message goes round the ring, and manager 0 starts the simulation.
  The second part puts the managers beside the messages in transit, which may arrive in any order.
\<close>

subsection \<open>Registration of objects\<close>

datatype startPhase = Configuring | WaitInit | WaitCirculate | Initializing | WaitStart | Simulating

datatype startMsg =
  InitMsg nat "string list"
| CirculateMsg
| StartMsg
| EventMsg

record startManager =
  startPhase :: startPhase
  numReceived :: nat
  circulate :: bool
  globalArrayOfSimObjIDs :: "string list list"
  globalArrayOfSimObjPtrs :: "string \<rightharpoonup> nat \<times> nat"

text \<open>\<open>globalArrayOfSimObjPtrs.insert\<close> for the objects of one manager; an entry that is there stays.\<close>

fun insertNames :: "nat \<Rightarrow> nat \<Rightarrow> string list \<Rightarrow> (string \<rightharpoonup> nat \<times> nat) \<Rightarrow> (string \<rightharpoonup> nat \<times> nat)" where
  "insertNames mgr pos [] ptrs = ptrs"
| "insertNames mgr pos (x # xs) ptrs = insertNames mgr (pos + 1) xs (if ptrs x = None then ptrs(x \<mapsto> (mgr, pos)) else ptrs)"

definition newManager :: startManager where
  "newManager = \<lparr>startPhase = Configuring, numReceived = 0, circulate = False, globalArrayOfSimObjIDs = [], globalArrayOfSimObjPtrs = Map.empty\<rparr>"

definition registerSimulationObjects :: "nat \<Rightarrow> nat \<Rightarrow> string list \<Rightarrow> startManager \<Rightarrow> startManager option" where
  "registerSimulationObjects numberOfSimulationManagers myId keys m = do {
     let ids = take numberOfSimulationManagers (globalArrayOfSimObjIDs m) @ replicate (numberOfSimulationManagers - length (globalArrayOfSimObjIDs m)) [];
     ids1 \<leftarrow> vec_set ids myId keys;
     Some (m\<lparr>globalArrayOfSimObjIDs := ids1, globalArrayOfSimObjPtrs := insertNames myId 0 keys (globalArrayOfSimObjPtrs m)\<rparr>) }"

definition registerSimulationObjectProxies :: "string list \<Rightarrow> nat \<Rightarrow> startManager \<Rightarrow> startManager option" where
  "registerSimulationObjectProxies arrayOfObjectProxies destSimulationManagerID m = do {
     ids \<leftarrow> vec_set (globalArrayOfSimObjIDs m) destSimulationManagerID arrayOfObjectProxies;
     Some (m\<lparr>globalArrayOfSimObjIDs := ids,
       globalArrayOfSimObjPtrs := insertNames destSimulationManagerID 0 arrayOfObjectProxies (globalArrayOfSimObjPtrs m)\<rparr>) }"

subsection \<open>The communication manager\<close>

text \<open>A message to everybody except ourselves, with its destination.\<close>

definition sendOthers :: "nat \<Rightarrow> nat \<Rightarrow> startMsg \<Rightarrow> (nat \<times> startMsg) list" where
  "sendOthers numSimMgrs myId msg = map (\<lambda>pos. (pos, msg)) (filter (\<lambda>pos. myId \<noteq> pos) [0..<numSimMgrs])"

text \<open>
  \<open>routeMessage\<close> and what \<open>receiveKernelMessage\<close> of the simulation manager does with the message. Events are handled by the kernel, which is
  modelled elsewhere. No one registers for \<open>CirculateInitializationMessage\<close>, so routing one dereferences the end iterator.
\<close>

fun routeMessage :: "startMsg \<Rightarrow> startManager \<Rightarrow> startManager option" where
  "routeMessage (InitMsg sender names) m = registerSimulationObjectProxies names sender m"
| "routeMessage CirculateMsg m = None"
| "routeMessage StartMsg m = Some m"
| "routeMessage EventMsg m = Some m"

text \<open>The test of the first loop of \<open>waitForInitialization\<close>, and what follows when it fails.\<close>

definition waitingForOthers :: "nat \<Rightarrow> nat \<Rightarrow> startManager \<Rightarrow> bool" where
  "waitingForOthers n myId m \<longleftrightarrow> numReceived m \<noteq> n - 1 \<or> (myId \<noteq> 0 \<and> \<not> circulate m)"

definition initLoopTest :: "nat \<Rightarrow> nat \<Rightarrow> startManager \<Rightarrow> startManager \<times> (nat \<times> startMsg) list" where
  "initLoopTest n myId m =
     (if waitingForOthers n myId m then (m, [])
      else (m\<lparr>startPhase := if circulate m then Initializing else WaitCirculate\<rparr>, [((myId + 1) mod n, CirculateMsg)]))"

text \<open>The end of \<open>configure\<close>: the objects are registered and \<open>waitForInitialization\<close> is called, up to its first loop.\<close>

definition waitForInitialization :: "nat \<Rightarrow> nat \<Rightarrow> string list \<Rightarrow> startManager \<Rightarrow> (startManager \<times> (nat \<times> startMsg) list) option" where
  "waitForInitialization n myId objectNames m = do {
     m1 \<leftarrow> registerSimulationObjects n myId objectNames m;
     let (m2, out) = initLoopTest n myId (m1\<lparr>startPhase := WaitInit, numReceived := 0, circulate := (n - 1 = 0)\<rparr>);
     Some (m2, sendOthers n myId (InitMsg myId objectNames) @ out) }"

text \<open>One message taken from the physical layer in the loop that the manager is in. In \<open>Simulating\<close> it is the loop of \<open>checkPhysicalLayerForMessages\<close>.\<close>

definition initLoopBody :: "nat \<Rightarrow> nat \<Rightarrow> startMsg \<Rightarrow> startManager \<Rightarrow> (startManager \<times> (nat \<times> startMsg) list) option" where
  "initLoopBody n myId msg m = do {
     m1 \<leftarrow> (case msg of InitMsg _ _ \<Rightarrow> routeMessage msg (m\<lparr>numReceived := numReceived m + 1\<rparr>)
            | CirculateMsg \<Rightarrow> Some (m\<lparr>circulate := True\<rparr>)
            | _ \<Rightarrow> routeMessage msg m);
     Some (initLoopTest n myId m1) }"

definition circulateLoopBody :: "startMsg \<Rightarrow> startManager \<Rightarrow> startManager option" where
  "circulateLoopBody msg m =
     (if msg = CirculateMsg then Some (m\<lparr>circulate := True, startPhase := Initializing\<rparr>) else routeMessage msg m)"

definition waitForStart :: "startMsg \<Rightarrow> startManager \<Rightarrow> startManager option" where
  "waitForStart msg m = routeMessage msg (if msg = StartMsg then m\<lparr>startPhase := Simulating\<rparr> else m)"

definition pollMessage :: "nat \<Rightarrow> nat \<Rightarrow> startMsg \<Rightarrow> startManager \<Rightarrow> (startManager \<times> (nat \<times> startMsg) list) option" where
  "pollMessage n myId msg m =
     (case startPhase m of
        WaitInit \<Rightarrow> initLoopBody n myId msg m
      | WaitCirculate \<Rightarrow> map_option (\<lambda>m1. (m1, [])) (circulateLoopBody msg m)
      | WaitStart \<Rightarrow> map_option (\<lambda>m1. (m1, [])) (waitForStart msg m)
      | _ \<Rightarrow> map_option (\<lambda>m1. (m1, [])) (routeMessage msg m))"

text \<open>The end of \<open>initialize\<close>: manager 0 sends the start messages, the others wait for theirs.\<close>

definition startSimulation :: "nat \<Rightarrow> nat \<Rightarrow> startManager \<Rightarrow> startManager \<times> (nat \<times> startMsg) list" where
  "startSimulation n myId m =
     (if myId = 0 then (m\<lparr>startPhase := Simulating\<rparr>, sendOthers n myId StartMsg) else (m\<lparr>startPhase := WaitStart\<rparr>, []))"

subsection \<open>The managers together\<close>

type_synonym startSystem = "(nat \<Rightarrow> startManager) \<times> (nat \<times> startMsg) list"

datatype startAction = Configure nat | PollAt nat | Initialize nat | SendEvent nat nat

definition startup0 :: startSystem where
  "startup0 = (\<lambda>_. newManager, [])"

text \<open>A manager polls in all its loops, so not before it is configured and not while its objects are initialized; those may send events.\<close>

fun startEnabled :: "nat \<Rightarrow> startAction \<Rightarrow> startSystem \<Rightarrow> bool" where
  "startEnabled n (Configure i) (mg, net) \<longleftrightarrow> i < n \<and> startPhase (mg i) = Configuring"
| "startEnabled n (PollAt k) (mg, net) \<longleftrightarrow> k < length net \<and> startPhase (mg (fst (net ! k))) \<notin> {Configuring, Initializing}"
| "startEnabled n (Initialize i) (mg, net) \<longleftrightarrow> i < n \<and> startPhase (mg i) = Initializing"
| "startEnabled n (SendEvent i d) (mg, net) \<longleftrightarrow> i < n \<and> d < n \<and> startPhase (mg i) \<in> {Initializing, Simulating}"

definition withoutAt :: "nat \<Rightarrow> 'a list \<Rightarrow> 'a list" where
  "withoutAt k xs = take k xs @ drop (k + 1) xs"

fun startPerform :: "nat \<Rightarrow> (nat \<Rightarrow> string list) \<Rightarrow> startAction \<Rightarrow> startSystem \<Rightarrow> startSystem option" where
  "startPerform n names (Configure i) (mg, net) = do { (m, out) \<leftarrow> waitForInitialization n i (names i) (mg i); Some (mg(i := m), net @ out) }"
| "startPerform n names (PollAt k) (mg, net) = do {
     let (i, msg) = net ! k;
     (m, out) \<leftarrow> pollMessage n i msg (mg i);
     Some (mg(i := m), withoutAt k net @ out) }"
| "startPerform n names (Initialize i) (mg, net) = (let (m, out) = startSimulation n i (mg i) in Some (mg(i := m), net @ out))"
| "startPerform n names (SendEvent i d) (mg, net) = Some (mg, net @ [(d, EventMsg)])"

inductive startReach :: "nat \<Rightarrow> (nat \<Rightarrow> string list) \<Rightarrow> startSystem \<Rightarrow> bool" for n names where
  start: "startReach n names startup0"
| step: "startReach n names s \<Longrightarrow> startEnabled n a s \<Longrightarrow> startPerform n names a s = Some s' \<Longrightarrow> startReach n names s'"

subsection \<open>Messages in transit\<close>

definition msgsTo :: "(startMsg \<Rightarrow> bool) \<Rightarrow> nat \<Rightarrow> (nat \<times> startMsg) list \<Rightarrow> nat" where
  "msgsTo P i net = length (filter (\<lambda>x. fst x = i \<and> P (snd x)) net)"

fun isInit :: "startMsg \<Rightarrow> bool" where
  "isInit (InitMsg _ _) \<longleftrightarrow> True"
| "isInit _ \<longleftrightarrow> False"

lemma msgsTo_append [simp]: "msgsTo P i (xs @ ys) = msgsTo P i xs + msgsTo P i ys"
  by (simp add: msgsTo_def)

lemma msgsTo_Cons [simp]: "msgsTo P i (x # xs) = (if fst x = i \<and> P (snd x) then 1 else 0) + msgsTo P i xs"
  by (simp add: msgsTo_def)

lemma msgsTo_Nil [simp]: "msgsTo P i [] = 0"
  by (simp add: msgsTo_def)

lemma withoutAt_split: "k < length xs \<Longrightarrow> xs = take k xs @ xs ! k # drop (k + 1) xs"
  by (simp add: id_take_nth_drop)

lemma msgsTo_withoutAt: "k < length net \<Longrightarrow> msgsTo P i net = msgsTo P i (withoutAt k net) + (if fst (net ! k) = i \<and> P (snd (net ! k)) then 1 else 0)"
  using arg_cong [OF withoutAt_split, of k net "msgsTo P i"] by (simp add: withoutAt_def)

lemma set_withoutAt: "k < length net \<Longrightarrow> set net = insert (net ! k) (set (withoutAt k net))"
  using arg_cong [OF withoutAt_split, of k net set] by (simp add: withoutAt_def)

lemma length_withoutAt: "k < length net \<Longrightarrow> length net = length (withoutAt k net) + 1"
  by (simp add: withoutAt_def)

lemma msgsTo_sendOthers: "msgsTo P i (sendOthers n me msg) = (if i < n \<and> i \<noteq> me \<and> P msg then 1 else 0)"
proof (induction n)
  case (Suc n)
  then show ?case by (auto simp: sendOthers_def)
qed (simp add: sendOthers_def)

lemma set_sendOthers: "set (sendOthers n me msg) = {(d, msg) | d. d < n \<and> d \<noteq> me}"
  by (auto simp: sendOthers_def)

lemma length_sendOthers: "length (sendOthers n me msg) \<le> n"
  by (simp add: sendOthers_def length_filter_le [THEN le_trans])

subsection \<open>The invariant\<close>

definition entered :: "startManager \<Rightarrow> bool" where
  "entered m \<longleftrightarrow> startPhase m \<noteq> Configuring"

definition pastInit :: "startManager \<Rightarrow> bool" where
  "pastInit m \<longleftrightarrow> startPhase m \<notin> {Configuring, WaitInit}"

definition leftInit :: "startManager \<Rightarrow> bool" where
  "leftInit m \<longleftrightarrow> startPhase m \<in> {Initializing, WaitStart, Simulating}"

definition simulating :: "startManager \<Rightarrow> bool" where
  "simulating m \<longleftrightarrow> startPhase m = Simulating"

text \<open>Every manager that has entered has sent its names to all others, once; what was sent is either in transit or registered.\<close>

definition initInv :: "nat \<Rightarrow> (nat \<Rightarrow> string list) \<Rightarrow> (nat \<Rightarrow> startManager) \<Rightarrow> (nat \<times> startMsg) list \<Rightarrow> bool" where
  "initInv n names mg net \<longleftrightarrow>
     (\<forall>i<n. numReceived (mg i) + msgsTo isInit i net = card {j. j < n \<and> j \<noteq> i \<and> entered (mg j)}) \<and>
     (\<forall>i<n. entered (mg i) \<longrightarrow> length (globalArrayOfSimObjIDs (mg i)) = n \<and> globalArrayOfSimObjIDs (mg i) ! i = names i) \<and>
     (\<forall>i<n. \<forall>j<n. j \<noteq> i \<longrightarrow> entered (mg j) \<longrightarrow>
        (i, InitMsg j (names j)) \<in> set net \<or> (entered (mg i) \<and> globalArrayOfSimObjIDs (mg i) ! j = names j)) \<and>
     (\<forall>x\<in>set net. fst x < n \<and> (\<forall>j ns. snd x = InitMsg j ns \<longrightarrow> j < n \<and> j \<noteq> fst x \<and> ns = names j)) \<and>
     (\<forall>i<n. \<not> entered (mg i) \<longrightarrow> mg i = newManager)"

lemma initInvI:
  assumes "\<And>i. i < n \<Longrightarrow> numReceived (mg i) + msgsTo isInit i net = card {j. j < n \<and> j \<noteq> i \<and> entered (mg j)}"
    and "\<And>i. i < n \<Longrightarrow> entered (mg i) \<Longrightarrow> length (globalArrayOfSimObjIDs (mg i)) = n \<and> globalArrayOfSimObjIDs (mg i) ! i = names i"
    and "\<And>i j. i < n \<Longrightarrow> j < n \<Longrightarrow> j \<noteq> i \<Longrightarrow> entered (mg j) \<Longrightarrow>
      (i, InitMsg j (names j)) \<in> set net \<or> (entered (mg i) \<and> globalArrayOfSimObjIDs (mg i) ! j = names j)"
    and "\<And>x. x \<in> set net \<Longrightarrow> fst x < n"
    and "\<And>x j ns. x \<in> set net \<Longrightarrow> snd x = InitMsg j ns \<Longrightarrow> j < n \<and> j \<noteq> fst x \<and> ns = names j"
    and "\<And>i. i < n \<Longrightarrow> \<not> entered (mg i) \<Longrightarrow> mg i = newManager"
  shows "initInv n names mg net"
  unfolding initInv_def using assms by blast

lemma initInv_net:
  assumes "initInv n names mg net"
  shows "x \<in> set net \<Longrightarrow> fst x < n" "x \<in> set net \<Longrightarrow> snd x = InitMsg j ns \<Longrightarrow> j < n \<and> j \<noteq> fst x \<and> ns = names j"
  using assms by (auto simp: initInv_def)

text \<open>The message that goes round the ring has been sent by exactly those that have heard from all others and from their predecessor.\<close>

definition predIn :: "nat \<Rightarrow> nat \<Rightarrow> nat" where
  "predIn n i = (if i = 0 then n - 1 else i - 1)"

definition circInv :: "nat \<Rightarrow> (nat \<Rightarrow> startManager) \<Rightarrow> (nat \<times> startMsg) list \<Rightarrow> bool" where
  "circInv n mg net \<longleftrightarrow>
     (\<forall>i<n. msgsTo (\<lambda>m. m = CirculateMsg) i net + of_bool (circulate (mg i)) = (of_bool (pastInit (mg (predIn n i))) :: nat)) \<and>
     (\<forall>i<n. pastInit (mg i) \<longrightarrow> numReceived (mg i) = n - 1) \<and>
     (\<forall>i<n. pastInit (mg i) \<longrightarrow> leftInit (mg i) = circulate (mg i)) \<and>
     (\<forall>i<n. pastInit (mg i) \<longrightarrow> i \<noteq> 0 \<longrightarrow> leftInit (mg i)) \<and>
     startPhase (mg 0) \<noteq> WaitStart"

lemma circInvI:
  assumes "\<And>i. i < n \<Longrightarrow> msgsTo (\<lambda>m. m = CirculateMsg) i net + of_bool (circulate (mg i)) = (of_bool (pastInit (mg (predIn n i))) :: nat)"
    and "\<And>i. i < n \<Longrightarrow> pastInit (mg i) \<Longrightarrow> numReceived (mg i) = n - 1"
    and "\<And>i. i < n \<Longrightarrow> pastInit (mg i) \<Longrightarrow> leftInit (mg i) = circulate (mg i)"
    and "\<And>i. i < n \<Longrightarrow> pastInit (mg i) \<Longrightarrow> i \<noteq> 0 \<Longrightarrow> leftInit (mg i)"
    and "startPhase (mg 0) \<noteq> WaitStart"
  shows "circInv n mg net"
  unfolding circInv_def using assms by blast

lemma circInvD:
  assumes "circInv n mg net"
  shows "i < n \<Longrightarrow> msgsTo (\<lambda>m. m = CirculateMsg) i net + of_bool (circulate (mg i)) = (of_bool (pastInit (mg (predIn n i))) :: nat)"
    "i < n \<Longrightarrow> pastInit (mg i) \<Longrightarrow> numReceived (mg i) = n - 1"
    "i < n \<Longrightarrow> pastInit (mg i) \<Longrightarrow> leftInit (mg i) = circulate (mg i)"
    "i < n \<Longrightarrow> pastInit (mg i) \<Longrightarrow> i \<noteq> 0 \<Longrightarrow> leftInit (mg i)"
    "startPhase (mg 0) \<noteq> WaitStart"
  using assms unfolding circInv_def by blast+

text \<open>Start messages are sent by manager 0, to every other manager once.\<close>

definition startInv :: "nat \<Rightarrow> (nat \<Rightarrow> startManager) \<Rightarrow> (nat \<times> startMsg) list \<Rightarrow> bool" where
  "startInv n mg net \<longleftrightarrow>
     (\<forall>i<n. msgsTo (\<lambda>m. m = StartMsg) i net + of_bool (i \<noteq> 0 \<and> simulating (mg i)) = (of_bool (i \<noteq> 0 \<and> simulating (mg 0)) :: nat))"

definition loopInv :: "nat \<Rightarrow> nat \<Rightarrow> startManager \<Rightarrow> bool" where
  "loopInv n i m \<longleftrightarrow> (startPhase m = WaitInit \<longrightarrow> waitingForOthers n i m)"

text \<open>Steps that change nothing of what an invariant looks at.\<close>

lemma initInv_other:
  assumes inv: "initInv n names mg net" and e: "entered (mg i)" "entered m" and m: "numReceived m = numReceived (mg i)"
    "globalArrayOfSimObjIDs m = globalArrayOfSimObjIDs (mg i)"
    and c: "\<And>j. msgsTo isInit j net' = msgsTo isInit j net" and s: "\<And>x. isInit (snd x) \<Longrightarrow> x \<in> set net' \<longleftrightarrow> x \<in> set net"
    and d: "\<And>x. x \<in> set net' \<Longrightarrow> fst x < n"
  shows "initInv n names (mg(i := m)) net'"
proof -
  have en: "entered ((mg(i := m)) j) = entered (mg j)" for j using e by simp
  have nr: "numReceived ((mg(i := m)) j) = numReceived (mg j)" "globalArrayOfSimObjIDs ((mg(i := m)) j) = globalArrayOfSimObjIDs (mg j)" for j
    using m by simp_all
  have i: "(a, InitMsg j ns) \<in> set net' \<longleftrightarrow> (a, InitMsg j ns) \<in> set net" for a j ns using s [of "(a, InitMsg j ns)"] by simp
  show ?thesis
  proof (rule initInvI, unfold en nr c i)
    fix x j ns assume "x \<in> set net'" "snd x = InitMsg j ns"
    then show "j < n \<and> j \<noteq> fst x \<and> ns = names j" using s [of x] initInv_net(2) [OF inv] by simp
  next
    fix j assume "j < n" "\<not> entered (mg j)"
    then show "(mg(i := m)) j = newManager" using e inv by (auto simp: initInv_def)
  qed (use inv d in \<open>simp_all add: initInv_def\<close>)
qed

lemma circInv_other:
  assumes inv: "circInv n mg net" and m: "pastInit m = pastInit (mg i)" "leftInit m = leftInit (mg i)" "circulate m = circulate (mg i)"
    "startPhase m \<noteq> WaitStart \<or> i \<noteq> 0" and r: "pastInit (mg i) \<Longrightarrow> numReceived m = numReceived (mg i)"
    and c: "\<And>j. msgsTo (\<lambda>m. m = CirculateMsg) j net' = msgsTo (\<lambda>m. m = CirculateMsg) j net"
  shows "circInv n (mg(i := m)) net'"
proof -
  have p: "pastInit ((mg(i := m)) j) = pastInit (mg j)" "leftInit ((mg(i := m)) j) = leftInit (mg j)" "circulate ((mg(i := m)) j) = circulate (mg j)" for j
    using m by simp_all
  have n: "pastInit (mg j) \<Longrightarrow> numReceived ((mg(i := m)) j) = numReceived (mg j)" for j using r by (cases "j = i") simp_all
  show ?thesis
  proof (rule circInvI, unfold p c)
    fix j assume "j < n" "pastInit (mg j)"
    then show "numReceived ((mg(i := m)) j) = n - 1" using n circInvD(2) [OF inv] by metis
  next
    show "startPhase ((mg(i := m)) 0) \<noteq> WaitStart" using m(4) circInvD(5) [OF inv] by auto
  qed (use circInvD [OF inv] in blast)+
qed

lemma startInv_other:
  assumes inv: "startInv n mg net" and m: "simulating m = simulating (mg i)"
    and c: "\<And>j. msgsTo (\<lambda>m. m = StartMsg) j net' = msgsTo (\<lambda>m. m = StartMsg) j net"
  shows "startInv n (mg(i := m)) net'"
proof -
  have "simulating ((mg(i := m)) j) = simulating (mg j)" for j using m by simp
  then show ?thesis using inv unfolding startInv_def c by presburger
qed

text \<open>A manager enters.\<close>

lemma registerSimulationObjects_new:
  assumes "i < n"
  shows "\<exists>ptrs. registerSimulationObjects n i ks newManager =
    Some (newManager\<lparr>globalArrayOfSimObjIDs := (replicate n [])[i := ks], globalArrayOfSimObjPtrs := ptrs\<rparr>)"
  using assms by (auto simp: registerSimulationObjects_def newManager_def vec_set_def)

lemma card_entered_insert:
  fixes n :: nat
  assumes "i < n" "\<not> entered (mg i)" "entered m"
  shows "card {k. k < n \<and> k \<noteq> j \<and> entered ((mg(i := m)) k)} = card {k. k < n \<and> k \<noteq> j \<and> entered (mg k)} + (if j = i then 0 else 1)"
proof (cases "j = i")
  case True
  then have "{k. k < n \<and> k \<noteq> j \<and> entered ((mg(i := m)) k)} = {k. k < n \<and> k \<noteq> j \<and> entered (mg k)}" by auto
  then show ?thesis using True by simp
next
  case False
  let ?S = "{k. k < n \<and> k \<noteq> j \<and> entered (mg k)}"
  have "{k. k < n \<and> k \<noteq> j \<and> entered ((mg(i := m)) k)} = insert i ?S" using False assms by auto
  moreover have "card (insert i ?S) = Suc (card ?S)" by (intro card_insert_disjoint finite_subset [of ?S "{..<n}"]) (use assms in auto)
  ultimately show ?thesis using False by simp
qed

lemma initInv_enter:
  assumes inv: "initInv n names mg net" and i: "i < n" "\<not> entered (mg i)" and e: "entered m" and m: "numReceived m = 0"
    "globalArrayOfSimObjIDs m = (replicate n [])[i := names i]"
  shows "initInv n names (mg(i := m)) (net @ sendOthers n i (InitMsg i (names i)))"
proof (rule initInvI)
  fix j assume j: "j < n"
  have "mg i = newManager" using inv i by (simp add: initInv_def)
  then have z: "numReceived ((mg(i := m)) j) = numReceived (mg j)" using m by (simp add: newManager_def)
  have "numReceived (mg j) + msgsTo isInit j net = card {k. k < n \<and> k \<noteq> j \<and> entered (mg k)}" using inv j by (simp add: initInv_def)
  then show "numReceived ((mg(i := m)) j) + msgsTo isInit j (net @ sendOthers n i (InitMsg i (names i))) =
      card {k. k < n \<and> k \<noteq> j \<and> entered ((mg(i := m)) k)}"
    unfolding z card_entered_insert [of i n mg m, OF i e] using j by (cases "j = i") (simp_all add: msgsTo_sendOthers)
next
  fix j assume "j < n" "entered ((mg(i := m)) j)"
  then show "length (globalArrayOfSimObjIDs ((mg(i := m)) j)) = n \<and> globalArrayOfSimObjIDs ((mg(i := m)) j) ! j = names j"
    using inv m by (cases "j = i") (simp_all add: initInv_def)
next
  fix j k assume jk: "j < n" "k < n" "k \<noteq> j" and en: "entered ((mg(i := m)) k)"
  show "(j, InitMsg k (names k)) \<in> set (net @ sendOthers n i (InitMsg i (names i))) \<or>
      (entered ((mg(i := m)) j) \<and> globalArrayOfSimObjIDs ((mg(i := m)) j) ! k = names k)"
  proof (cases "k = i")
    case True
    then show ?thesis using jk by (simp add: set_sendOthers)
  next
    case False
    then have "(j, InitMsg k (names k)) \<in> set net \<or> (entered (mg j) \<and> globalArrayOfSimObjIDs (mg j) ! k = names k)"
      using inv jk en by (simp add: initInv_def)
    then show ?thesis using i by (cases "j = i") auto
  qed
next
  fix x j ns assume "x \<in> set (net @ sendOthers n i (InitMsg i (names i)))" "snd x = InitMsg j ns"
  then show "j < n \<and> j \<noteq> fst x \<and> ns = names j" using initInv_net(2) [OF inv, of x j ns] i by (auto simp: set_sendOthers)
next
  fix x assume "x \<in> set (net @ sendOthers n i (InitMsg i (names i)))"
  then show "fst x < n" using initInv_net(1) [OF inv, of x] by (auto simp: set_sendOthers)
next
  fix j assume "j < n" "\<not> entered ((mg(i := m)) j)"
  then show "(mg(i := m)) j = newManager" using inv e by (cases "j = i") (simp_all add: initInv_def)
qed

text \<open>A manager in the first loop takes the names of another manager.\<close>

lemma initInv_takeInit:
  assumes inv: "initInv n names mg net" and k: "k < length net" "net ! k = (i, InitMsg j ns)" and e: "entered (mg i)" "entered m"
    and m: "numReceived m = numReceived (mg i) + 1" "globalArrayOfSimObjIDs m = (globalArrayOfSimObjIDs (mg i))[j := ns]"
  shows "initInv n names (mg(i := m)) (withoutAt k net)"
proof -
  have en: "entered ((mg(i := m)) a) = entered (mg a)" for a using e by simp
  have x: "(i, InitMsg j ns) \<in> set net" using k nth_mem by metis
  have j: "i < n" "j < n" "j \<noteq> i" "ns = names j" using initInv_net [OF inv x] by simp_all
  have S: "set net = insert (i, InitMsg j ns) (set (withoutAt k net))" using set_withoutAt [OF k(1)] k(2) by simp
  show ?thesis
  proof (rule initInvI, unfold en)
    fix a assume "a < n"
    then have "numReceived (mg a) + msgsTo isInit a net = card {b. b < n \<and> b \<noteq> a \<and> entered (mg b)}" using inv by (simp add: initInv_def)
    then show "numReceived ((mg(i := m)) a) + msgsTo isInit a (withoutAt k net) = card {b. b < n \<and> b \<noteq> a \<and> entered (mg b)}"
      using msgsTo_withoutAt [OF k(1), of isInit a] k(2) m(1) by (simp split: if_splits)
  next
    fix a assume "a < n" "entered (mg a)"
    then show "length (globalArrayOfSimObjIDs ((mg(i := m)) a)) = n \<and> globalArrayOfSimObjIDs ((mg(i := m)) a) ! a = names a"
      using inv m(2) j by (cases "a = i") (simp_all add: initInv_def)
  next
    fix a b assume ab: "a < n" "b < n" "b \<noteq> a" "entered (mg b)"
    have len: "length (globalArrayOfSimObjIDs (mg i)) = n" using inv e j by (simp add: initInv_def)
    have "(a, InitMsg b (names b)) \<in> set net \<or> (entered (mg a) \<and> globalArrayOfSimObjIDs (mg a) ! b = names b)"
      using inv ab by (simp add: initInv_def)
    then show "(a, InitMsg b (names b)) \<in> set (withoutAt k net) \<or> (entered (mg a) \<and> globalArrayOfSimObjIDs ((mg(i := m)) a) ! b = names b)"
      using S m(2) e j len by (auto simp: nth_list_update)
  next
    fix x c cs assume "x \<in> set (withoutAt k net)" "snd x = InitMsg c cs"
    then show "c < n \<and> c \<noteq> fst x \<and> cs = names c" using S by (intro initInv_net(2) [OF inv]) simp_all
  next
    fix x assume "x \<in> set (withoutAt k net)"
    then show "fst x < n" using S by (intro initInv_net(1) [OF inv]) simp
  next
    fix a assume "a < n" "\<not> entered (mg a)"
    then show "(mg(i := m)) a = newManager" using inv e by (cases "a = i") (simp_all add: initInv_def)
  qed
qed

text \<open>The message that goes round is taken and passed on.\<close>

lemma predIn_next: "i < n \<Longrightarrow> predIn n ((i + 1) mod n) = i"
  by (cases "i + 1 = n") (auto simp: predIn_def)

lemma predIn_inj: "i < n \<Longrightarrow> j < n \<Longrightarrow> predIn n j = i \<longleftrightarrow> j = (i + 1) mod n"
  by (cases "i + 1 = n") (auto simp: predIn_def)

lemma circ_in_transit:
  assumes inv: "circInv n mg net" and k: "k < length net" "net ! k = (i, CirculateMsg)" "i < n"
  shows "\<not> circulate (mg i)" "\<not> leftInit (mg i)"
proof -
  have "msgsTo (\<lambda>m. m = CirculateMsg) i net \<ge> 1" using msgsTo_withoutAt [OF k(1), of "\<lambda>m. m = CirculateMsg" i] k(2) by simp
  then show a: "\<not> circulate (mg i)" using circInvD(1) [OF inv k(3)] by (cases "circulate (mg i)") (simp_all add: of_bool_def split: if_splits)
  show "\<not> leftInit (mg i)" using a circInvD(3) [OF inv k(3)] by (auto simp: pastInit_def leftInit_def)
qed

lemma circInv_takeCirc:
  assumes inv: "circInv n mg net" and k: "k < length net" "net ! k = (i, CirculateMsg)" "i < n"
    and m: "circulate m" "pastInit m = pastInit (mg i)" "numReceived m = numReceived (mg i)" "pastInit m \<Longrightarrow> leftInit m" "startPhase m \<noteq> WaitStart"
  shows "circInv n (mg(i := m)) (withoutAt k net)"
proof (rule circInvI)
  have p: "pastInit ((mg(i := m)) j) = pastInit (mg j)" for j using m(2) by simp
  fix j assume j: "j < n"
  note W = msgsTo_withoutAt [OF k(1), of "\<lambda>m. m = CirculateMsg" j, unfolded k(2)]
  show "msgsTo (\<lambda>m. m = CirculateMsg) j (withoutAt k net) + of_bool (circulate ((mg(i := m)) j)) = (of_bool (pastInit ((mg(i := m)) (predIn n j))) :: nat)"
    unfolding p circInvD(1) [OF inv j, symmetric] using W circ_in_transit(1) [OF inv k] m(1) by (cases "j = i") simp_all
next
  fix j assume "j < n" "pastInit ((mg(i := m)) j)"
  then show "numReceived ((mg(i := m)) j) = n - 1" using m(2,3) circInvD(2) [OF inv, of j] by (cases "j = i") simp_all
next
  fix j assume "j < n" "pastInit ((mg(i := m)) j)"
  then show "leftInit ((mg(i := m)) j) = circulate ((mg(i := m)) j)" using m circInvD(3) [OF inv, of j] by (cases "j = i") simp_all
next
  fix j assume "j < n" "pastInit ((mg(i := m)) j)" "j \<noteq> 0"
  then show "leftInit ((mg(i := m)) j)" using m circInvD(4) [OF inv, of j] by (cases "j = i") simp_all
next
  show "startPhase ((mg(i := m)) 0) \<noteq> WaitStart" using m(5) circInvD(5) [OF inv] by simp
qed

lemma circInv_pass:
  assumes inv: "circInv n mg net" and i: "i < n" "\<not> pastInit (mg i)" and r: "numReceived (mg i) = n - 1" "i \<noteq> 0 \<Longrightarrow> circulate (mg i)"
    and m: "pastInit m" "leftInit m = circulate (mg i)" "circulate m = circulate (mg i)" "numReceived m = numReceived (mg i)" "startPhase m \<noteq> WaitStart"
  shows "circInv n (mg(i := m)) (net @ [((i + 1) mod n, CirculateMsg)])"
proof (rule circInvI)
  fix j assume j: "j < n"
  have F: "msgsTo (\<lambda>m. m = CirculateMsg) j net + of_bool (circulate (mg j)) = (of_bool (pastInit (mg (predIn n j))) :: nat)" by (rule circInvD(1) [OF inv j])
  have c: "circulate ((mg(i := m)) j) = circulate (mg j)" using m(3) by simp
  show "msgsTo (\<lambda>m. m = CirculateMsg) j (net @ [((i + 1) mod n, CirculateMsg)]) + of_bool (circulate ((mg(i := m)) j)) =
      (of_bool (pastInit ((mg(i := m)) (predIn n j))) :: nat)"
    unfolding c using F m(1) i predIn_inj [OF i(1) j] by (cases "predIn n j = i") auto
next
  fix j assume "j < n" "pastInit ((mg(i := m)) j)"
  then show "numReceived ((mg(i := m)) j) = n - 1" using m r circInvD(2) [OF inv, of j] by (cases "j = i") simp_all
next
  fix j assume "j < n" "pastInit ((mg(i := m)) j)"
  then show "leftInit ((mg(i := m)) j) = circulate ((mg(i := m)) j)" using m circInvD(3) [OF inv, of j] by (cases "j = i") simp_all
next
  fix j assume "j < n" "pastInit ((mg(i := m)) j)" "j \<noteq> 0"
  then show "leftInit ((mg(i := m)) j)" using m r circInvD(4) [OF inv, of j] by (cases "j = i") simp_all
next
  show "startPhase ((mg(i := m)) 0) \<noteq> WaitStart" using m(5) circInvD(5) [OF inv] by simp
qed

text \<open>When the message has come back to manager 0, every manager has heard from all others.\<close>

lemma ring_closed:
  assumes inv: "circInv n mg net" and z: "circulate (mg 0)" "0 < n" and i: "i < n"
  shows "pastInit (mg i)"
proof -
  have step: "pastInit (mg (predIn n j))" if "j < n" "circulate (mg j)" for j
    using circInvD(1) [OF inv that(1)] that(2) by (cases "pastInit (mg (predIn n j))") simp_all
  have "pastInit (mg (n - 1 - d))" if "d < n" for d
    using that
  proof (induction d)
    case 0
    then show ?case using step [OF z(2,1)] by (simp add: predIn_def)
  next
    case (Suc d)
    let ?j = "n - 1 - d"
    have j: "?j < n" "?j \<noteq> 0" using Suc.prems by simp_all
    have "pastInit (mg ?j)" using Suc by simp
    then have "circulate (mg ?j)" using circInvD(3,4) [OF inv j(1)] j(2) by blast
    then show ?case using step [OF j(1)] j(2) by (simp add: predIn_def)
  qed
  from this [of "n - 1 - i"] i show ?thesis by simp
qed

text \<open>Manager 0 sends the start messages, and another manager takes its own.\<close>

lemma startInv_sent:
  assumes inv: "startInv n mg net" and z: "\<not> simulating (mg 0)" "0 < n" and m: "simulating m"
  shows "startInv n (mg(0 := m)) (net @ sendOthers n 0 StartMsg)"
  unfolding startInv_def
proof (intro allI impI)
  fix i assume i: "i < n"
  have "msgsTo (\<lambda>m. m = StartMsg) i net + of_bool (i \<noteq> 0 \<and> simulating (mg i)) = (0 :: nat)" using inv i z(1) by (simp add: startInv_def)
  then show "msgsTo (\<lambda>m. m = StartMsg) i (net @ sendOthers n 0 StartMsg) + of_bool (i \<noteq> 0 \<and> simulating ((mg(0 := m)) i)) =
      (of_bool (i \<noteq> 0 \<and> simulating ((mg(0 := m)) 0)) :: nat)"
    using i m by (cases "i = 0") (simp_all add: msgsTo_sendOthers)
qed

lemma start_in_transit:
  assumes inv: "startInv n mg net" and k: "k < length net" "net ! k = (i, StartMsg)" "i < n"
  shows "i \<noteq> 0 \<and> simulating (mg 0) \<and> \<not> simulating (mg i)"
proof -
  have "msgsTo (\<lambda>m. m = StartMsg) i net \<ge> 1" using msgsTo_withoutAt [OF k(1), of "\<lambda>m. m = StartMsg" i] k(2) by simp
  moreover have "msgsTo (\<lambda>m. m = StartMsg) i net + of_bool (i \<noteq> 0 \<and> simulating (mg i)) = (of_bool (i \<noteq> 0 \<and> simulating (mg 0)) :: nat)"
    using inv k(3) unfolding startInv_def by blast
  ultimately show ?thesis by (cases "i = 0"; cases "simulating (mg 0)"; cases "simulating (mg i)") simp_all
qed

lemma startInv_takeStart:
  assumes inv: "startInv n mg net" and k: "k < length net" "net ! k = (i, StartMsg)" "i < n" and m: "simulating m"
  shows "startInv n (mg(i := m)) (withoutAt k net)"
  unfolding startInv_def
proof (intro allI impI)
  fix j assume j: "j < n"
  note T = start_in_transit [OF inv k]
  have J: "msgsTo (\<lambda>m. m = StartMsg) j net + of_bool (j \<noteq> 0 \<and> simulating (mg j)) = (of_bool (j \<noteq> 0 \<and> simulating (mg 0)) :: nat)"
    using inv j unfolding startInv_def by blast
  have z: "(mg(i := m)) 0 = mg 0" using T by simp
  show "msgsTo (\<lambda>m. m = StartMsg) j (withoutAt k net) + of_bool (j \<noteq> 0 \<and> simulating ((mg(i := m)) j)) = (of_bool (j \<noteq> 0 \<and> simulating ((mg(i := m)) 0)) :: nat)"
    unfolding z J [symmetric] using msgsTo_withoutAt [OF k(1), of "\<lambda>m. m = StartMsg" j, unfolded k(2)] T m by (cases "j = i") simp_all
qed

subsection \<open>Every step keeps the invariant\<close>

definition ringInv :: "nat \<Rightarrow> (nat \<Rightarrow> string list) \<Rightarrow> (nat \<Rightarrow> startManager) \<Rightarrow> (nat \<times> startMsg) list \<Rightarrow> bool" where
  "ringInv n names mg net \<longleftrightarrow> initInv n names mg net \<and> circInv n mg net \<and> startInv n mg net"

definition startupInv :: "nat \<Rightarrow> (nat \<Rightarrow> string list) \<Rightarrow> startSystem \<Rightarrow> bool" where
  "startupInv n names s \<longleftrightarrow> ringInv n names (fst s) (snd s) \<and> (\<forall>i<n. loopInv n i (fst s i))"

lemmas phase_defs = entered_def pastInit_def leftInit_def simulating_def

lemma startupInv_start: "0 < n \<Longrightarrow> startupInv n names startup0"
  by (auto simp: startupInv_def ringInv_def startup0_def newManager_def initInv_def circInv_def startInv_def loopInv_def phase_defs)

lemma initLoopTest_inv:
  assumes inv: "ringInv n names mg net" and i: "i < n" "startPhase (mg i) = WaitInit" and t: "initLoopTest n i (mg i) = (m, out)"
  shows "ringInv n names (mg(i := m)) (net @ out) \<and> loopInv n i m"
proof (cases "waitingForOthers n i (mg i)")
  case True
  then have "m = mg i" "out = []" using t by (simp_all add: initLoopTest_def)
  then show ?thesis using inv True by (simp add: loopInv_def)
next
  case False
  then have w: "numReceived (mg i) = n - 1" "i \<noteq> 0 \<Longrightarrow> circulate (mg i)" by (auto simp: waitingForOthers_def)
  have m: "m = (mg i)\<lparr>startPhase := if circulate (mg i) then Initializing else WaitCirculate\<rparr>" and o: "out = [((i + 1) mod n, CirculateMsg)]"
    using t False by (auto simp: initLoopTest_def)
  have "initInv n names (mg(i := m)) (net @ out)"
    using inv i initInv_net(1) [of n names mg net] unfolding ringInv_def m o by (intro initInv_other [of n names mg net]) (auto simp: phase_defs)
  moreover have "circInv n (mg(i := m)) (net @ out)"
    using inv i w unfolding ringInv_def o by (intro circInv_pass) (simp_all add: m phase_defs)
  moreover have "startInv n (mg(i := m)) (net @ out)"
    using inv i unfolding ringInv_def o by (intro startInv_other [of n mg net]) (simp_all add: m phase_defs)
  ultimately show ?thesis by (simp add: ringInv_def loopInv_def m)
qed

lemma configure_inv:
  assumes inv: "ringInv n names mg net" and i: "i < n" "startPhase (mg i) = Configuring" and n: "2 \<le> n"
  shows "\<exists>m out. waitForInitialization n i (names i) (mg i) = Some (m, out) \<and> ringInv n names (mg(i := m)) (net @ out) \<and> loopInv n i m"
proof -
  have new: "mg i = newManager" using inv i by (simp add: ringInv_def initInv_def entered_def)
  obtain ptrs where r: "registerSimulationObjects n i (names i) (mg i) =
      Some (newManager\<lparr>globalArrayOfSimObjIDs := (replicate n [])[i := names i], globalArrayOfSimObjPtrs := ptrs\<rparr>)"
    using registerSimulationObjects_new [OF i(1)] unfolding new by blast
  define m1 where "m1 = newManager\<lparr>globalArrayOfSimObjIDs := (replicate n [])[i := names i], globalArrayOfSimObjPtrs := ptrs,
    startPhase := WaitInit, numReceived := 0, circulate := (n - 1 = 0)\<rparr>"
  let ?net = "net @ sendOthers n i (InitMsg i (names i))"
  have "initInv n names (mg(i := m1)) ?net"
    using inv i unfolding ringInv_def by (intro initInv_enter) (simp_all add: m1_def entered_def)
  moreover have "circInv n (mg(i := m1)) ?net"
    using inv n unfolding ringInv_def
    by (intro circInv_other [of n mg net]) (simp_all add: m1_def new newManager_def phase_defs msgsTo_sendOthers)
  moreover have "startInv n (mg(i := m1)) ?net"
    using inv unfolding ringInv_def by (intro startInv_other [of n mg net]) (simp_all add: m1_def new newManager_def phase_defs msgsTo_sendOthers)
  ultimately have R: "ringInv n names (mg(i := m1)) ?net" by (simp add: ringInv_def)
  obtain m out where t: "initLoopTest n i m1 = (m, out)" by (cases "initLoopTest n i m1")
  from initLoopTest_inv [OF R i(1), of m out] t have "ringInv n names (mg(i := m)) (?net @ out) \<and> loopInv n i m" by (simp add: m1_def)
  moreover have "waitForInitialization n i (names i) (mg i) = Some (m, sendOthers n i (InitMsg i (names i)) @ out)"
    using t unfolding waitForInitialization_def r m1_def by simp
  ultimately show ?thesis by auto
qed

text \<open>Which message can be there for a manager in which loop.\<close>

lemma init_in_transit:
  assumes inv: "ringInv n names mg net" and k: "k < length net" "net ! k = (i, InitMsg j ns)"
  shows "i < n" "j < n" "\<not> pastInit (mg i)"
proof -
  have x: "(i, InitMsg j ns) \<in> set net" using k nth_mem by metis
  show i: "i < n" and "j < n" using initInv_net [of n names mg net, OF _ x] inv by (simp_all add: ringInv_def)
  have "msgsTo isInit i net \<ge> 1" using msgsTo_withoutAt [OF k(1), of isInit i] k(2) by simp
  moreover have "numReceived (mg i) + msgsTo isInit i net = card {j. j < n \<and> j \<noteq> i \<and> entered (mg j)}"
    using inv i by (simp add: ringInv_def initInv_def)
  moreover have "card {j. j < n \<and> j \<noteq> i \<and> entered (mg j)} \<le> card ({..<n} - {i})" by (rule card_mono) auto
  moreover have "card ({..<n} - {i}) = n - 1" using i by simp
  ultimately have "numReceived (mg i) \<noteq> n - 1" by linarith
  then show "\<not> pastInit (mg i)" using inv circInvD(2) [of n mg net i] i unfolding ringInv_def by blast
qed

lemma start_in_transit_phase:
  assumes inv: "ringInv n names mg net" and k: "k < length net" "net ! k = (i, StartMsg)" "i < n"
  shows "startPhase (mg i) \<in> {Initializing, WaitStart}"
proof -
  have c: "circInv n mg net" and T: "i \<noteq> 0 \<and> simulating (mg 0) \<and> \<not> simulating (mg i)"
    using inv start_in_transit [of n mg net, OF _ k] by (simp_all add: ringInv_def)
  have n: "0 < n" using k(3) by simp
  have "circulate (mg 0)" using T circInvD(3) [OF c n] by (simp add: phase_defs)
  from ring_closed [OF c this n k(3)] T circInvD(4) [OF c k(3)] show ?thesis by (auto simp: phase_defs)
qed

text \<open>Taking a message that only goes to the simulation manager, or an event, changes nothing.\<close>

lemma ringInv_drop:
  assumes inv: "ringInv n names mg net" and k: "k < length net" "net ! k = (i, EventMsg)"
  shows "ringInv n names (mg(i := mg i)) (withoutAt k net)"
proof -
  have S: "set net = insert (i, EventMsg) (set (withoutAt k net))" using set_withoutAt [OF k(1)] k(2) by simp
  have c: "msgsTo P j (withoutAt k net) = msgsTo P j net" if "\<not> P EventMsg" for P j using msgsTo_withoutAt [OF k(1), of P j, unfolded k(2)] that by simp
  show ?thesis
    using inv unfolding ringInv_def initInv_def circInv_def startInv_def
    by (auto simp: c S)
qed

text \<open>What every poll has to start from.\<close>

lemma poll_facts:
  assumes inv: "ringInv n names mg net" and k: "k < length net" "net ! k = (i, msg)"
  shows "i < n" "initInv n names mg net" "circInv n mg net" "startInv n mg net" "\<And>a. a \<in> set (withoutAt k net) \<Longrightarrow> fst a < n"
    "\<And>a. \<not> isInit msg \<Longrightarrow> isInit (snd a) \<Longrightarrow> a \<in> set (withoutAt k net) \<longleftrightarrow> a \<in> set net"
    "\<And>P j. msgsTo P j net = msgsTo P j (withoutAt k net) + (if i = j \<and> P msg then 1 else 0)"
proof -
  show I: "initInv n names mg net" and "circInv n mg net" "startInv n mg net" using inv by (simp_all add: ringInv_def)
  show "i < n" using initInv_net(1) [OF I nth_mem [OF k(1)]] k(2) by simp
  show "a \<in> set (withoutAt k net) \<Longrightarrow> fst a < n" for a using set_withoutAt [OF k(1)] initInv_net(1) [OF I] by blast
  show "\<not> isInit msg \<Longrightarrow> isInit (snd a) \<Longrightarrow> a \<in> set (withoutAt k net) \<longleftrightarrow> a \<in> set net" for a
    using set_withoutAt [OF k(1), unfolded k(2)] by auto
  show "msgsTo P j net = msgsTo P j (withoutAt k net) + (if i = j \<and> P msg then 1 else 0)" for P j
    using msgsTo_withoutAt [OF k(1), of P j] k(2) by simp
qed

lemma poll_init:
  assumes inv: "ringInv n names mg net" and k: "k < length net" "net ! k = (i, InitMsg j ns)"
    and ph: "startPhase (mg i) \<notin> {Configuring, Initializing}"
  shows "\<exists>m out. pollMessage n i (InitMsg j ns) (mg i) = Some (m, out) \<and> ringInv n names (mg(i := m)) (withoutAt k net @ out) \<and> loopInv n i m"
proof -
  note F = poll_facts [OF inv k] and T = init_in_transit [OF inv k]
  have wi: "startPhase (mg i) = WaitInit" using T(3) ph by (cases "startPhase (mg i)") (simp_all add: phase_defs)
  have len: "length (globalArrayOfSimObjIDs (mg i)) = n" using F(1,2) wi by (simp add: initInv_def entered_def)
  obtain m1 where r: "routeMessage (InitMsg j ns) ((mg i)\<lparr>numReceived := numReceived (mg i) + 1\<rparr>) = Some m1"
    and m1: "startPhase m1 = WaitInit" "numReceived m1 = numReceived (mg i) + 1" "circulate m1 = circulate (mg i)"
      "globalArrayOfSimObjIDs m1 = (globalArrayOfSimObjIDs (mg i))[j := ns]"
    using len T wi by (simp add: registerSimulationObjectProxies_def vec_set_def)
  have "initInv n names (mg(i := m1)) (withoutAt k net)" using initInv_takeInit [OF F(2) k, of m1] wi m1 by (simp add: entered_def)
  moreover have "circInv n (mg(i := m1)) (withoutAt k net)" using wi m1 by (intro circInv_other [OF F(3)]) (simp_all add: phase_defs F(7))
  moreover have "startInv n (mg(i := m1)) (withoutAt k net)" using wi m1 by (intro startInv_other [OF F(4)]) (simp_all add: phase_defs F(7))
  ultimately have R: "ringInv n names (mg(i := m1)) (withoutAt k net)" by (simp add: ringInv_def)
  obtain m out where t: "initLoopTest n i m1 = (m, out)" by (cases "initLoopTest n i m1")
  from initLoopTest_inv [OF R F(1), of m out] t m1(1) have "ringInv n names (mg(i := m)) (withoutAt k net @ out) \<and> loopInv n i m" by simp
  moreover have "pollMessage n i (InitMsg j ns) (mg i) = Some (m, out)" using r t by (simp add: pollMessage_def wi initLoopBody_def)
  ultimately show ?thesis by blast
qed

lemma poll_circulate:
  assumes inv: "ringInv n names mg net" and k: "k < length net" "net ! k = (i, CirculateMsg)"
    and ph: "startPhase (mg i) \<notin> {Configuring, Initializing}"
  shows "\<exists>m out. pollMessage n i CirculateMsg (mg i) = Some (m, out) \<and> ringInv n names (mg(i := m)) (withoutAt k net @ out) \<and> loopInv n i m"
proof -
  note F = poll_facts [OF inv k]
  note T = circ_in_transit [OF F(3) k F(1)]
  define m1 where "m1 = (mg i)\<lparr>circulate := True, startPhase := if startPhase (mg i) = WaitInit then WaitInit else Initializing\<rparr>"
  have wi: "startPhase (mg i) = WaitInit \<or> startPhase (mg i) = WaitCirculate" using T(2) ph by (cases "startPhase (mg i)") (simp_all add: phase_defs)
  have "initInv n names (mg(i := m1)) (withoutAt k net)" using wi F(5,6) by (intro initInv_other [OF F(2)]) (auto simp: phase_defs F(7) m1_def)
  moreover have "circInv n (mg(i := m1)) (withoutAt k net)" using wi by (intro circInv_takeCirc [OF F(3) k F(1)]) (auto simp: phase_defs m1_def)
  moreover have "startInv n (mg(i := m1)) (withoutAt k net)" using wi by (intro startInv_other [OF F(4)]) (auto simp: phase_defs F(7) m1_def)
  ultimately have R: "ringInv n names (mg(i := m1)) (withoutAt k net)" by (simp add: ringInv_def)
  show ?thesis
  proof (cases "startPhase (mg i) = WaitInit")
    case True
    obtain m out where t: "initLoopTest n i m1 = (m, out)" by (cases "initLoopTest n i m1")
    have e: "(mg i)\<lparr>circulate := True\<rparr> = m1" using True by (simp add: m1_def)
    from initLoopTest_inv [OF R F(1), of m out] t True have "ringInv n names (mg(i := m)) (withoutAt k net @ out) \<and> loopInv n i m" by (simp add: m1_def)
    moreover have "pollMessage n i CirculateMsg (mg i) = Some (m, out)" using t e by (simp add: pollMessage_def True initLoopBody_def)
    ultimately show ?thesis by blast
  next
    case False
    then have "pollMessage n i CirculateMsg (mg i) = Some (m1, [])" using wi by (simp add: pollMessage_def circulateLoopBody_def m1_def)
    then show ?thesis using R False wi by (auto simp: loopInv_def m1_def)
  qed
qed

lemma poll_start:
  assumes inv: "ringInv n names mg net" and k: "k < length net" "net ! k = (i, StartMsg)"
    and ph: "startPhase (mg i) \<notin> {Configuring, Initializing}"
  shows "\<exists>m out. pollMessage n i StartMsg (mg i) = Some (m, out) \<and> ringInv n names (mg(i := m)) (withoutAt k net @ out) \<and> loopInv n i m"
proof -
  note F = poll_facts [OF inv k]
  define m1 where "m1 = (mg i)\<lparr>startPhase := Simulating\<rparr>"
  have ws: "startPhase (mg i) = WaitStart" using start_in_transit_phase [OF inv k F(1)] ph by simp
  have "initInv n names (mg(i := m1)) (withoutAt k net)" using ws F(5,6) by (intro initInv_other [OF F(2)]) (auto simp: phase_defs F(7) m1_def)
  moreover have "circInv n (mg(i := m1)) (withoutAt k net)" using ws by (intro circInv_other [OF F(3)]) (auto simp: phase_defs F(7) m1_def)
  moreover have "startInv n (mg(i := m1)) (withoutAt k net)" by (intro startInv_takeStart [OF F(4) k F(1)]) (simp add: m1_def phase_defs)
  moreover have "pollMessage n i StartMsg (mg i) = Some (m1, [])" using ws by (simp add: pollMessage_def waitForStart_def m1_def)
  ultimately show ?thesis by (auto simp: ringInv_def loopInv_def m1_def)
qed

lemma poll_event:
  assumes inv: "ringInv n names mg net" and k: "k < length net" "net ! k = (i, EventMsg)" and L: "loopInv n i (mg i)"
    and ph: "startPhase (mg i) \<notin> {Configuring, Initializing}"
  shows "\<exists>m out. pollMessage n i EventMsg (mg i) = Some (m, out) \<and> ringInv n names (mg(i := m)) (withoutAt k net @ out) \<and> loopInv n i m"
proof -
  have "ringInv n names (mg(i := mg i)) (withoutAt k net)" using inv k by (rule ringInv_drop)
  moreover have "pollMessage n i EventMsg (mg i) = Some (mg i, [])"
    using L by (cases "startPhase (mg i)")
      (simp_all add: pollMessage_def initLoopBody_def initLoopTest_def circulateLoopBody_def waitForStart_def loopInv_def)
  ultimately show ?thesis using L by auto
qed

lemma pollMessage_inv:
  assumes inv: "ringInv n names mg net" and L: "\<forall>j<n. loopInv n j (mg j)" and k: "k < length net" "net ! k = (i, msg)"
    and ph: "startPhase (mg i) \<notin> {Configuring, Initializing}"
  shows "\<exists>m out. pollMessage n i msg (mg i) = Some (m, out) \<and> ringInv n names (mg(i := m)) (withoutAt k net @ out) \<and> loopInv n i m"
proof (cases msg)
  case (InitMsg j ns)
  show ?thesis using poll_init [OF inv k(1) k(2) [unfolded InitMsg] ph] InitMsg by simp
next
  case CirculateMsg
  show ?thesis using poll_circulate [OF inv k(1) k(2) [unfolded CirculateMsg] ph] CirculateMsg by simp
next
  case StartMsg
  show ?thesis using poll_start [OF inv k(1) k(2) [unfolded StartMsg] ph] StartMsg by simp
next
  case EventMsg
  have "loopInv n i (mg i)" using L poll_facts(1) [OF inv k] by blast
  then show ?thesis using poll_event [OF inv k(1) k(2) [unfolded EventMsg] _ ph] EventMsg by simp
qed

lemma initialize_inv:
  assumes inv: "ringInv n names mg net" and i: "i < n" "startPhase (mg i) = Initializing" and t: "startSimulation n i (mg i) = (m, out)"
  shows "ringInv n names (mg(i := m)) (net @ out) \<and> loopInv n i m"
proof -
  have I: "initInv n names mg net" and C: "circInv n mg net" and S: "startInv n mg net" using inv by (simp_all add: ringInv_def)
  have m: "m = (mg i)\<lparr>startPhase := if i = 0 then Simulating else WaitStart\<rparr>" and o: "out = (if i = 0 then sendOthers n 0 StartMsg else [])"
    using t by (auto simp: startSimulation_def split: if_splits)
  have "initInv n names (mg(i := m)) (net @ out)"
    using i initInv_net(1) [OF I] by (intro initInv_other [OF I]) (auto simp: m o phase_defs msgsTo_sendOthers set_sendOthers)
  moreover have "circInv n (mg(i := m)) (net @ out)"
    using i by (intro circInv_other [OF C]) (auto simp: m o phase_defs msgsTo_sendOthers)
  moreover have "startInv n (mg(i := m)) (net @ out)"
  proof (cases "i = 0")
    case True
    then show ?thesis using startInv_sent [OF S, of m] i by (simp add: m o phase_defs)
  next
    case False
    then show ?thesis using i by (intro startInv_other [OF S]) (simp_all add: m o phase_defs)
  qed
  ultimately show ?thesis by (simp add: ringInv_def loopInv_def m)
qed

lemma sendEvent_inv: "ringInv n names mg net \<Longrightarrow> d < n \<Longrightarrow> ringInv n names mg (net @ [(d, EventMsg)])"
  unfolding ringInv_def initInv_def circInv_def startInv_def by auto

lemma startPerform_inv:
  assumes inv: "startupInv n names s" and n: "2 \<le> n" and e: "startEnabled n a s"
  shows "\<exists>s'. startPerform n names a s = Some s' \<and> startupInv n names s'"
proof -
  obtain mg net where s: "s = (mg, net)" by (cases s)
  have R: "ringInv n names mg net" and L: "\<forall>j<n. loopInv n j (mg j)" using inv by (simp_all add: s startupInv_def)
  have one: "startupInv n names (mg(i := m), net')" if "ringInv n names (mg(i := m)) net' \<and> loopInv n i m" for i m net'
    using that L by (simp add: startupInv_def)
  show ?thesis
  proof (cases a)
    case (Configure i)
    then show ?thesis using configure_inv [OF R _ _ n, of i] e one by (force simp: s)
  next
    case (PollAt k)
    obtain i msg where x: "net ! k = (i, msg)" by (cases "net ! k")
    show ?thesis using pollMessage_inv [OF R L _ x] e one PollAt x by (force simp: s)
  next
    case (Initialize i)
    obtain m out where t: "startSimulation n i (mg i) = (m, out)" by (cases "startSimulation n i (mg i)")
    then show ?thesis using initialize_inv [OF R _ _ t] e one Initialize by (force simp: s)
  next
    case (SendEvent i d)
    then show ?thesis using sendEvent_inv [OF R, of d] L e by (simp add: s startupInv_def)
  qed
qed

lemma startReach_inv: "startReach n names s \<Longrightarrow> 2 \<le> n \<Longrightarrow> startupInv n names s"
proof (induction rule: startReach.induct)
  case start
  then show ?case by (simp add: startupInv_start)
next
  case (step s a s')
  then show ?case using startPerform_inv by fastforce
qed

subsection \<open>Properties\<close>

lemma all_heard:
  assumes inv: "ringInv n names mg net" and j: "j < n" and r: "numReceived (mg j) = n - 1"
  shows "k < n \<Longrightarrow> k \<noteq> j \<Longrightarrow> entered (mg k)" "msgsTo isInit j net = 0"
proof -
  let ?S = "{k. k < n \<and> k \<noteq> j \<and> entered (mg k)}"
  have sub: "?S \<subseteq> {..<n} - {j}" by auto
  have c: "card ({..<n} - {j}) = n - 1" using j by simp
  have e: "n - 1 + msgsTo isInit j net = card ?S" using inv j unfolding r [symmetric] ringInv_def initInv_def by blast
  have le: "card ?S \<le> n - 1" using card_mono [OF _ sub] c by simp
  then show "msgsTo isInit j net = 0" using e by simp
  have "?S = {..<n} - {j}" using card_subset_eq [OF _ sub] c e le by simp
  then show "k < n \<Longrightarrow> k \<noteq> j \<Longrightarrow> entered (mg k)" by auto
qed

lemma msgsTo_zero: "msgsTo P i net = 0 \<Longrightarrow> (i, msg) \<in> set net \<Longrightarrow> \<not> P msg"
  by (auto simp: msgsTo_def filter_empty_conv)

lemma all_registered:
  assumes inv: "ringInv n names mg net" and j: "j < n" and r: "numReceived (mg j) = n - 1" and e: "entered (mg j)" and k: "k < n"
  shows "globalArrayOfSimObjIDs (mg j) ! k = names k"
proof (cases "k = j")
  case True
  then show ?thesis using inv j e by (simp add: ringInv_def initInv_def)
next
  case False
  have "(j, InitMsg k (names k)) \<notin> set net" using msgsTo_zero [OF all_heard(2) [OF inv j r], of "InitMsg k (names k)"] by auto
  then show ?thesis using inv j k False all_heard(1) [OF inv j r k False] unfolding ringInv_def initInv_def by blast
qed

lemma simulating_pastInit:
  assumes inv: "ringInv n names mg net" and i: "i < n" "simulating (mg i)" and j: "j < n"
  shows "pastInit (mg j)"
proof -
  have c: "circInv n mg net" and s: "startInv n mg net" using inv by (simp_all add: ringInv_def)
  have n: "0 < n" using i by simp
  have "msgsTo (\<lambda>m. m = StartMsg) i net + of_bool (i \<noteq> 0 \<and> simulating (mg i)) = (of_bool (i \<noteq> 0 \<and> simulating (mg 0)) :: nat)"
    using s i(1) unfolding startInv_def by blast
  then have "simulating (mg 0)" using i(2) by (cases "i = 0"; cases "simulating (mg 0)") simp_all
  then have "circulate (mg 0)" using circInvD(3) [OF c n] by (simp add: phase_defs)
  from ring_closed [OF c this n j] show ?thesis .
qed

text \<open>A schedule is run action by action; an action that is not possible there, or that aborts, ends it.\<close>

fun startRun :: "nat \<Rightarrow> (nat \<Rightarrow> string list) \<Rightarrow> startAction list \<Rightarrow> startSystem \<Rightarrow> startSystem option" where
  "startRun n names [] s = Some s"
| "startRun n names (a # as) s = (if startEnabled n a s then do { s1 \<leftarrow> startPerform n names a s; startRun n names as s1 } else None)"

lemma startRun_reach: "startReach n names s \<Longrightarrow> startRun n names as s = Some s' \<Longrightarrow> startReach n names s'"
  by (induction as arbitrary: s) (auto split: if_splits bind_splits intro: startReach.step)

text \<open>A complete start-up of two managers with one object each.\<close>

definition twoNames :: "nat \<Rightarrow> string list" where
  "twoNames i = (if i = 0 then [''source''] else [''sink''])"

definition twoRun :: "startAction list" where
  "twoRun = [Configure 0, Configure 1, PollAt 0, PollAt 0, PollAt 0, PollAt 0, Initialize 0, Initialize 1, PollAt 0]"

lemma twoRun_result: "map_option (\<lambda>s. (startPhase (fst s 0), startPhase (fst s 1))) (startRun 2 twoNames twoRun startup0) = Some (Simulating, Simulating)"
  by code_simp

text \<open>C17: No manager starts to simulate before every manager has registered the objects of all managers: as soon as one manager simulates, each knows
  the objects of each other under the numbers that their own manager has given them, whatever the order in which messages arrive.\<close>

theorem startup_objects_known:
  assumes "2 \<le> n" and "startReach n names (mg, net)" and "i < n" "startPhase (mg i) = Simulating" and "j < n" "k < n"
  shows "globalArrayOfSimObjIDs (mg j) ! k = names k"
proof -
  have inv: "ringInv n names mg net" using startReach_inv [OF assms(2,1)] by (simp add: startupInv_def)
  have p: "pastInit (mg j)" using simulating_pastInit [OF inv assms(3) _ assms(5)] assms(4) by (simp add: simulating_def)
  have "numReceived (mg j) = n - 1" using inv circInvD(2) [of n mg net j, OF _ assms(5) p] by (simp add: ringInv_def)
  moreover have "entered (mg j)" using p by (simp add: phase_defs)
  ultimately show ?thesis using all_registered [OF inv assms(5) _ _ assms(6)] by blast
qed

theorem startup_objects_known_witness:
  "\<exists>mg net. startRun 2 twoNames twoRun startup0 = Some (mg, net) \<and> globalArrayOfSimObjIDs (mg 1) ! 0 = [''source'']"
proof -
  obtain mg net where r: "startRun 2 twoNames twoRun startup0 = Some (mg, net)" and p: "startPhase (mg 0) = Simulating" using twoRun_result by auto
  have "globalArrayOfSimObjIDs (mg 1) ! 0 = twoNames 0"
    by (rule startup_objects_known [of 2 twoNames mg net 0]) (use startRun_reach [OF startReach.start r] p in simp_all)
  then show ?thesis using r by (simp add: twoNames_def)
qed

definition isSendEvent :: "startAction \<Rightarrow> bool" where
  "isSendEvent a \<longleftrightarrow> (case a of SendEvent _ _ \<Rightarrow> True | _ \<Rightarrow> False)"

lemma stuck_all_simulate:
  assumes inv: "startupInv n names (mg, net)" and stuck: "\<And>a. \<not> isSendEvent a \<Longrightarrow> \<not> startEnabled n a (mg, net)" and i: "i < n"
  shows "startPhase (mg i) = Simulating"
proof -
  have R: "ringInv n names mg net" and L: "\<And>j. j < n \<Longrightarrow> loopInv n j (mg j)" using inv by (simp_all add: startupInv_def)
  have C: "circInv n mg net" and S: "startInv n mg net" and I: "initInv n names mg net" using R by (simp_all add: ringInv_def)
  have ph: "startPhase (mg j) \<notin> {Configuring, Initializing}" if "j < n" for j
    using stuck [of "Configure j"] stuck [of "Initialize j"] that by (auto simp: isSendEvent_def)
  have net: "net = []"
  proof (rule ccontr)
    assume "net \<noteq> []"
    then have "fst (net ! 0) < n" using initInv_net(1) [OF I, of "net ! 0"] by simp
    from ph [OF this] show False using stuck [of "PollAt 0"] \<open>net \<noteq> []\<close> by (simp add: isSendEvent_def)
  qed
  have nr: "numReceived (mg j) = n - 1" if "j < n" for j
  proof -
    have "{k. k < n \<and> k \<noteq> j \<and> entered (mg k)} = {..<n} - {j}" using ph by (auto simp: entered_def)
    then have "card {k. k < n \<and> k \<noteq> j \<and> entered (mg k)} = n - 1" using that by simp
    then show ?thesis using I that net by (simp add: initInv_def)
  qed
  have past: "pastInit (mg j)" if "j < n" "j = 0 \<or> circulate (mg j)" for j
    using L [OF that(1)] nr [OF that(1)] ph [OF that(1)] that(2) by (auto simp: loopInv_def waitingForOthers_def pastInit_def)
  have circ: "circulate (mg j) = pastInit (mg (predIn n j))" if "j < n" for j 
    using circInvD(1) [OF C that] net by (cases "circulate (mg j)"; cases "pastInit (mg (predIn n j))") simp_all
  have all: "pastInit (mg j)" if "j < n" for j using that
  proof (induction j)
    case (Suc j)
    then show ?case using past [of "Suc j"] circ [of "Suc j"] by (simp add: predIn_def)
  qed (use past in simp)
  have "circulate (mg 0)" using circ [of 0] all [of "n - 1"] i by (simp add: predIn_def)
  then have "leftInit (mg 0)" using circInvD(3) [OF C, of 0] all [of 0] i by simp
  then have z: "simulating (mg 0)" using ph [of 0] i circInvD(5) [OF C] by (auto simp: phase_defs)
  have "of_bool (i \<noteq> 0 \<and> simulating (mg i)) = (of_bool (i \<noteq> 0 \<and> simulating (mg 0)) :: nat)" using S i net by (simp add: startInv_def)
  then show ?thesis using z by (cases "i = 0"; cases "simulating (mg i)") (simp_all add: simulating_def)
qed

text \<open>C18: The start-up cannot get stuck: as long as not every manager simulates, one of them can be configured, take a message or initialize its objects, and that
  step does not abort. In particular nobody waits for a message that is never sent.\<close>

theorem startup_progress:
  assumes "2 \<le> n" and "startReach n names s" and "i < n" "startPhase (fst s i) \<noteq> Simulating"
  shows "\<exists>a s'. \<not> isSendEvent a \<and> startEnabled n a s \<and> startPerform n names a s = Some s'"
proof (rule ccontr)
  obtain mg net where s: "s = (mg, net)" by (cases s)
  have inv: "startupInv n names s" using startReach_inv [OF assms(2,1)] .
  assume "\<not> ?thesis"
  then have "\<not> startEnabled n a s" if "\<not> isSendEvent a" for a using startPerform_inv [OF inv assms(1), of a] that by blast
  then show False using stuck_all_simulate [OF inv [unfolded s] _ assms(3)] assms(4) by (simp add: s)
qed

theorem startup_progress_witness:
  "\<exists>a s'. \<not> isSendEvent a \<and> startEnabled 2 a startup0 \<and> startPerform 2 twoNames a startup0 = Some s'"
  by (rule startup_progress [where i = 0], rule order_refl, rule startReach.start) (simp_all add: startup0_def newManager_def)

text \<open>How much of the start-up is still to do: the steps left to a manager, with the messages that they send, and the messages in transit.\<close>

fun phaseRank :: "nat \<Rightarrow> startPhase \<Rightarrow> nat" where
  "phaseRank n Configuring = 2 * n + 6"
| "phaseRank n WaitInit = n + 4"
| "phaseRank n WaitCirculate = n + 2"
| "phaseRank n Initializing = n + 1"
| "phaseRank n WaitStart = 1"
| "phaseRank n Simulating = 0"

definition startMeasure :: "nat \<Rightarrow> startSystem \<Rightarrow> nat" where
  "startMeasure n s = (\<Sum>i<n. phaseRank n (startPhase (fst s i))) + length (snd s)"

lemma startMeasure_upd:
  assumes "i < n"
  shows "startMeasure n (mg(i := m), net') + phaseRank n (startPhase (mg i)) + length net = startMeasure n (mg, net) + phaseRank n (startPhase m) + length net'"
proof -
  let ?r = "\<lambda>f j. phaseRank n (startPhase (f j))"
  have "(\<Sum>j<n. ?r (mg(i := m)) j) = phaseRank n (startPhase m) + (\<Sum>j\<in>{..<n} - {i}. ?r (mg(i := m)) j)" using assms by (subst sum.remove [of _ i]) simp_all
  also have "(\<Sum>j\<in>{..<n} - {i}. ?r (mg(i := m)) j) = (\<Sum>j\<in>{..<n} - {i}. ?r mg j)" by (rule sum.cong) simp_all
  finally have a: "(\<Sum>j<n. ?r (mg(i := m)) j) = phaseRank n (startPhase m) + (\<Sum>j\<in>{..<n} - {i}. ?r mg j)" .
  have b: "(\<Sum>j<n. ?r mg j) = ?r mg i + (\<Sum>j\<in>{..<n} - {i}. ?r mg j)" using assms by (subst sum.remove [of _ i]) simp_all
  show ?thesis unfolding startMeasure_def fst_conv snd_conv a b by simp
qed

lemma initLoopTest_rank:
  assumes "initLoopTest n i m = (m', out)" "startPhase m = WaitInit"
  shows "phaseRank n (startPhase m') + length out \<le> n + 4"
  using assms by (auto simp: initLoopTest_def split: if_splits)

lemma registerSimulationObjectProxies_phase: "registerSimulationObjectProxies ns j m = Some m' \<Longrightarrow> startPhase m' = startPhase m"
  by (auto simp: registerSimulationObjectProxies_def split: bind_splits)

lemma routeMessage_phase: "routeMessage msg m = Some m' \<Longrightarrow> startPhase m' = startPhase m"
  by (cases msg) (auto dest: registerSimulationObjectProxies_phase)

lemma waitForInitialization_rank:
  assumes "waitForInitialization n i ks m = Some (m', out)"
  shows "phaseRank n (startPhase m') + length out < 2 * n + 6"
proof -
  from assms obtain m1 out1 where t: "initLoopTest n i (m1\<lparr>startPhase := WaitInit, numReceived := 0, circulate := (n - 1 = 0)\<rparr>) = (m', out1)"
    and o: "out = sendOthers n i (InitMsg i ks) @ out1"
    by (auto simp: waitForInitialization_def Let_def split: bind_splits prod.splits)
  show ?thesis using initLoopTest_rank [OF t] length_sendOthers [of n i "InitMsg i ks"] by (simp add: o)
qed

lemma pollMessage_rank:
  assumes "pollMessage n i msg m = Some (m', out)"
  shows "phaseRank n (startPhase m') + length out \<le> phaseRank n (startPhase m)"
proof (cases "startPhase m = WaitInit")
  case True
  with assms obtain m1 where r: "(case msg of InitMsg _ _ \<Rightarrow> routeMessage msg (m\<lparr>numReceived := numReceived m + 1\<rparr>)
        | CirculateMsg \<Rightarrow> Some (m\<lparr>circulate := True\<rparr>) | _ \<Rightarrow> routeMessage msg m) = Some m1"
    and t: "initLoopTest n i m1 = (m', out)" by (auto simp: pollMessage_def initLoopBody_def split: bind_splits)
  have "startPhase m1 = WaitInit" using r True by (auto dest: routeMessage_phase registerSimulationObjectProxies_phase split: startMsg.splits)
  from initLoopTest_rank [OF t this] show ?thesis using True by simp
next
  case False
  with assms have o: "out = []" and r: "startPhase m' = startPhase m \<or> startPhase m = WaitCirculate \<and> startPhase m' = Initializing \<or> startPhase m = WaitStart \<and> startPhase m' = Simulating"
    by (auto simp: pollMessage_def circulateLoopBody_def waitForStart_def dest!: routeMessage_phase split: startPhase.splits if_splits)
  from r show ?thesis unfolding o by (elim disjE conjE) simp_all
qed

lemma startPerform_measure:
  assumes inv: "startupInv n names s" and e: "startEnabled n a s" and p: "startPerform n names a s = Some s'" and n: "2 \<le> n"
  shows "startMeasure n s' + (if isSendEvent a then 0 else 1) \<le> startMeasure n s + (if isSendEvent a then 1 else 0)"
proof -
  obtain mg net where s: "s = (mg, net)" by (cases s)
  show ?thesis
  proof (cases a)
    case (Configure i)
    then obtain m out where w: "waitForInitialization n i (names i) (mg i) = Some (m, out)" and s': "s' = (mg(i := m), net @ out)"
      using p by (auto simp: s split: bind_splits)
    have "i < n" "startPhase (mg i) = Configuring" using e Configure by (simp_all add: s)
    then show ?thesis using startMeasure_upd [of i n mg m "net @ out" net] waitForInitialization_rank [OF w] Configure by (simp add: s s' isSendEvent_def)
  next
    case (PollAt k)
    obtain i msg where x: "net ! k = (i, msg)" by (cases "net ! k")
    have k: "k < length net" using e PollAt by (simp add: s)
    obtain m out where w: "pollMessage n i msg (mg i) = Some (m, out)" and s': "s' = (mg(i := m), withoutAt k net @ out)"
      using p PollAt x by (auto simp: s split: bind_splits)
    have "ringInv n names mg net" using inv by (simp add: s startupInv_def)
    from poll_facts(1) [OF this k x] show ?thesis
      using startMeasure_upd [of i n mg m "withoutAt k net @ out" net] pollMessage_rank [OF w] length_withoutAt [OF k] PollAt by (simp add: s s' isSendEvent_def)
  next
    case (Initialize i)
    obtain m out where t: "startSimulation n i (mg i) = (m, out)" by (cases "startSimulation n i (mg i)")
    have i: "i < n" "startPhase (mg i) = Initializing" and s': "s' = (mg(i := m), net @ out)" using e p t Initialize by (simp_all add: s)
    have "phaseRank n (startPhase m) + length out \<le> n" using t n length_sendOthers [of n 0 StartMsg] by (auto simp: startSimulation_def split: if_splits)
    then show ?thesis using startMeasure_upd [of i n mg m "net @ out" net] i Initialize by (simp add: s s' isSendEvent_def)
  next
    case (SendEvent i d)
    then show ?thesis using p by (auto simp: s isSendEvent_def startMeasure_def)
  qed
qed

lemma startRun_measure:
  assumes "startupInv n names s" "startRun n names as s = Some s'" "2 \<le> n"
  shows "startMeasure n s' + length (filter (\<lambda>a. \<not> isSendEvent a) as) \<le> startMeasure n s + length (filter isSendEvent as)"
  using assms
proof (induction as arbitrary: s)
  case (Cons a as)
  then obtain s1 where e: "startEnabled n a s" and p: "startPerform n names a s = Some s1" and r: "startRun n names as s1 = Some s'"
    by (auto split: if_splits bind_splits)
  have "startupInv n names s1" using startPerform_inv [OF Cons.prems(1,3) e] p by simp
  from Cons.IH [OF this r Cons.prems(3)] startPerform_measure [OF Cons.prems(1) e p Cons.prems(3)] show ?case by (simp split: if_splits)
qed simp

text \<open>The start-up ends: in every run the managers take at most a fixed number of steps, plus one for every event message that is sent meanwhile. Together with progress, all
  managers simulate after so many steps at the latest.\<close>

theorem startup_bounded:
  assumes "2 \<le> n" and "startRun n names as startup0 = Some s"
  shows "length (filter (\<lambda>a. \<not> isSendEvent a) as) \<le> n * (2 * n + 6) + length (filter isSendEvent as)"
proof -
  have "startMeasure n startup0 = n * (2 * n + 6)" by (simp add: startMeasure_def startup0_def newManager_def)
  then show ?thesis using startRun_measure [OF startupInv_start assms(2,1)] assms(1) by simp
qed

theorem startup_bounded_witness:
  "length (filter (\<lambda>a. \<not> isSendEvent a) twoRun) \<le> 2 * (2 * 2 + 6) + length (filter isSendEvent twoRun)"
proof -
  obtain s where "startRun 2 twoNames twoRun startup0 = Some s" using twoRun_result by auto
  then show ?thesis by (rule startup_bounded [OF order_refl])
qed

end
