(* ===== verification/FrequencyScaling.thy ===== *)
theory FrequencyScaling
  imports Prelude Complex_Main "HOL-Library.Multiset"
begin

text \<open>
  Frequency scaling: \<open>FIRFilter.h\<close>, \<open>DVFSManagerImplementationBase.cpp\<close>, \<open>DistributedDVFSManager.cpp\<close>, \<open>SharedDVFSManager.cpp\<close>. A moving average of the useful work
  of every manager is kept by manager 0, which moves the managers' frequencies, as indices into the list of available frequencies (0 is the fastest), towards
  each other. Numbers of type double are rational numbers. Reading the clock and the files of the operating system are arguments or effects.
\<close>

subsection \<open>The moving average\<close>

record firFilter =
  fir_size :: nat
  num_valid :: nat
  fir_index :: nat
  current_sum :: rat
  fir_array :: "rat list"

definition FIRFilter :: "nat \<Rightarrow> firFilter" where
  "FIRFilter n = \<lparr>fir_size = n, num_valid = 0, fir_index = 0, current_sum = 0, fir_array = replicate n 0\<rparr>"

definition fir_reset :: "firFilter \<Rightarrow> firFilter" where
  "fir_reset f = f\<lparr>num_valid := 0, fir_array := replicate (fir_size f) 0\<rparr>"

definition fir_getData :: "firFilter \<Rightarrow> rat" where
  "fir_getData f =
     (if num_valid f < fir_size f then (if num_valid f \<noteq> 0 then current_sum f / of_nat (num_valid f) else 0)
      else current_sum f / of_nat (fir_size f))"

definition fir_update :: "rat \<Rightarrow> firFilter \<Rightarrow> firFilter option" where
  "fir_update new_element f = do {
     old \<leftarrow> vec_get (fir_array f) (fir_index f);
     arr \<leftarrow> vec_set (fir_array f) (fir_index f) new_element;
     let index = fir_index f + 1;
     Some (f\<lparr>current_sum := current_sum f + new_element - old, fir_array := arr,
       num_valid := (if num_valid f < fir_size f then num_valid f + 1 else num_valid f),
       fir_index := (if index = fir_size f then 0 else index)\<rparr>) }"

fun fir_updates :: "rat list \<Rightarrow> firFilter \<Rightarrow> firFilter option" where
  "fir_updates [] f = Some f"
| "fir_updates (x # xs) f = do { f1 \<leftarrow> fir_update x f; fir_updates xs f1 }"

text \<open>The window: the last \<open>n\<close> values, preceded by zeros while there are fewer.\<close>

definition window :: "nat \<Rightarrow> rat list \<Rightarrow> rat list" where
  "window n xs = drop (length xs) (replicate n 0 @ xs)"

definition firInv :: "nat \<Rightarrow> rat list \<Rightarrow> firFilter \<Rightarrow> bool" where
  "firInv n xs f \<longleftrightarrow> fir_size f = n \<and> num_valid f = min (length xs) n \<and> fir_index f < n \<and> length (fir_array f) = n \<and>
     rotate (fir_index f) (fir_array f) = window n xs \<and> current_sum f = sum_list (fir_array f)"

lemma drop_Suc_snoc: "k < length ys \<Longrightarrow> drop (Suc k) (ys @ [x]) = tl (drop k ys) @ [x]"
  by (simp add: drop_Suc tl_drop)

lemma window_snoc:
  assumes "0 < n"
  shows "window n (xs @ [x]) = tl (window n xs) @ [x]"
proof -
  have "length xs < length (replicate n (0 :: rat) @ xs)" using assms by simp
  from drop_Suc_snoc [OF this, of x] show ?thesis unfolding window_def by simp
qed

lemma rotate_update:
  assumes "i < length a"
  shows "rotate (Suc i) (a[i := x]) = tl (rotate i a) @ [x]"
proof -
  have "drop i (a[i := x]) = x # drop (Suc i) a" using assms Cons_nth_drop_Suc [of i "a[i := x]"] by (simp add: drop_update_cancel)
  then have "rotate i (a[i := x]) = x # drop (Suc i) a @ take i a" using assms by (simp add: rotate_drop_take take_update_cancel)
  moreover have "tl (rotate i a) = drop (Suc i) a @ take i a" using assms Cons_nth_drop_Suc [of i a, symmetric] by (simp add: rotate_drop_take)
  ultimately show ?thesis by simp
qed

lemma rotate_wrap: "i < n \<Longrightarrow> length a = n \<Longrightarrow> rotate (if Suc i = n then 0 else Suc i) a = rotate (Suc i) a"
  by (cases "Suc i = n") (simp_all add: rotate_id del: rotate_Suc)

lemma sum_list_rotate: "sum_list (rotate k (a :: rat list)) = sum_list a"
proof -
  let ?m = "k mod length a"
  have "sum_list a = sum_list (take ?m a @ drop ?m a)" by simp
  then show ?thesis unfolding rotate_drop_take sum_list_append by simp
qed

lemma sum_list_set: "i < length a \<Longrightarrow> sum_list (a[i := x]) = sum_list a + x - (a ! i :: 'a :: ab_group_add)"
  by (induction a arbitrary: i) (auto simp: nth_Cons split: nat.splits)

lemma fir_update_inv:
  assumes inv: "firInv n xs f"
  shows "\<exists>f'. fir_update x f = Some f' \<and> firInv n (xs @ [x]) f'"
proof -
  let ?i = "fir_index f" and ?a = "fir_array f"
  have i: "?i < n" "length ?a = n" "fir_size f = n" "num_valid f = min (length xs) n" "current_sum f = sum_list ?a" "rotate ?i ?a = window n xs"
    using inv by (simp_all add: firInv_def)
  have r: "rotate (if Suc ?i = n then 0 else Suc ?i) (?a[?i := x]) = window n (xs @ [x])"
    using i rotate_update [of ?i ?a x] window_snoc [of n xs x] by (simp add: rotate_wrap del: rotate_Suc)
  have "fir_update x f = Some (f\<lparr>current_sum := current_sum f + x - ?a ! ?i, fir_array := ?a[?i := x],
      num_valid := (if num_valid f < fir_size f then num_valid f + 1 else num_valid f), fir_index := (if Suc ?i = n then 0 else Suc ?i)\<rparr>)"
    using i by (simp add: fir_update_def vec_get_def vec_set_def Let_def)
  then show ?thesis using i r sum_list_set [of ?i ?a x] by (auto simp: firInv_def)
qed

lemma fir_updates_inv: "firInv n ys f \<Longrightarrow> \<exists>f'. fir_updates xs f = Some f' \<and> firInv n (ys @ xs) f'"
proof (induction xs arbitrary: ys f)
  case (Cons x xs)
  from fir_update_inv [OF Cons.prems, of x] obtain f1 where f1: "fir_update x f = Some f1" "firInv n (ys @ [x]) f1" by blast
  from Cons.IH [OF f1(2)] show ?case using f1(1) by simp
qed simp

lemma sum_window: "sum_list (window n xs) = sum_list (drop (length xs - n) xs)"
  by (simp add: window_def sum_list_replicate)

text \<open>The filter computes the moving average: after any values it answers with the mean of the last ones, as many as its size, or of all while there are fewer.\<close>

theorem fir_moving_average:
  assumes "0 < n" and "xs \<noteq> []"
  shows "\<exists>f. fir_updates xs (FIRFilter n) = Some f \<and> fir_getData f = sum_list (drop (length xs - n) xs) / of_nat (min (length xs) n)"
proof -
  have "firInv n [] (FIRFilter n)" using assms by (simp add: firInv_def FIRFilter_def window_def sum_list_replicate)
  from fir_updates_inv [OF this, of xs] obtain f where u: "fir_updates xs (FIRFilter n) = Some f" and i: "firInv n xs f" by auto
  have "current_sum f = sum_list (drop (length xs - n) xs)"
    using i sum_list_rotate [of "fir_index f" "fir_array f"] by (simp add: firInv_def sum_window)
  then have "fir_getData f = sum_list (drop (length xs - n) xs) / of_nat (min (length xs) n)"
    using i assms(2) by (auto simp: fir_getData_def firInv_def min_def)
  then show ?thesis using u by blast
qed

theorem fir_moving_average_witness: "\<exists>f. fir_updates [1, 2, 3] (FIRFilter 2) = Some f \<and> fir_getData f = 5 / 2"
  using fir_moving_average [of 2 "[1, 2, 3]"] by simp

subsection \<open>The managers\<close>

datatype usefulWorkMetric = ROLLBACKS | ROLLBACK_FRACTION | EFFECTIVE_UTILIZATION

datatype dvfsAlgorithm = FIXED | PERFORMANCE | POWER | HYBRID

datatype messageRound = COLLECT | SETFREQ | CIRCULATECPU

record dvfsManager =
  mySimulationManagerID :: nat
  myNumSimulationManagers :: nat
  myAlg :: dvfsAlgorithm
  myUWM :: usefulWorkMetric
  myThreshold :: rat
  myUtilFilters :: "firFilter list"
  myAvailableFreqs :: "int list"
  myFrequencyIdxs :: "int list"
  myMaxFreqIdx :: int
  myLastRollbacks :: int
  myLastEventsRolledBack :: int
  myLastEventsExecuted :: int
  myWaitingForMessage :: bool
  myCPU :: int
  myCPUs :: "int list"

text \<open>The counters of the simulation manager: rollbacks, events rolled back, events executed.\<close>

record workCounters =
  getRollbacks :: int
  getNumEventsRolledBack :: int
  getNumEventsExecuted :: int

definition isMaster :: "dvfsManager \<Rightarrow> bool" where
  "isMaster d \<longleftrightarrow> mySimulationManagerID d = 0"

definition isDummy :: "dvfsManager \<Rightarrow> bool" where
  "isDummy d \<longleftrightarrow> myAlg d = FIXED"

definition initializeFrequencyIdxs :: "int \<Rightarrow> dvfsManager \<Rightarrow> dvfsManager" where
  "initializeFrequencyIdxs maxidx d =
     d\<lparr>myMaxFreqIdx := maxidx, myFrequencyIdxs := myFrequencyIdxs d @ replicate (myNumSimulationManagers d) (maxidx div 2)\<rparr>"

definition getRollbacksForPeriod :: "workCounters \<Rightarrow> dvfsManager \<Rightarrow> rat \<times> dvfsManager" where
  "getRollbacksForPeriod w d = (of_int (getRollbacks w - myLastRollbacks d), d\<lparr>myLastRollbacks := getRollbacks w\<rparr>)"

definition getRollbackFractionForPeriod :: "workCounters \<Rightarrow> dvfsManager \<Rightarrow> rat \<times> dvfsManager" where
  "getRollbackFractionForPeriod w d =
     (let newEventsRolledBack = getNumEventsRolledBack w - myLastEventsRolledBack d;
          newEventsExecuted = getNumEventsExecuted w - myLastEventsExecuted d;
          efficiency = (if newEventsExecuted = 0 then 0 else 1 - of_int newEventsRolledBack / of_int newEventsExecuted :: rat)
      in (if efficiency < 0 then 0 else efficiency,
        d\<lparr>myLastEventsRolledBack := getNumEventsRolledBack w, myLastEventsExecuted := getNumEventsExecuted w\<rparr>))"

definition fillUsefulWork :: "workCounters \<Rightarrow> rat list \<Rightarrow> dvfsManager \<Rightarrow> (rat list \<times> dvfsManager) option" where
  "fillUsefulWork w v d = (let (x, d1) = (case myUWM d of ROLLBACKS \<Rightarrow> getRollbacksForPeriod w d
       | ROLLBACK_FRACTION \<Rightarrow> getRollbackFractionForPeriod w d | EFFECTIVE_UTILIZATION \<Rightarrow> (0, d))
     in map_option (\<lambda>v1. (v1, d1)) (vec_set v (mySimulationManagerID d) x))"

text \<open>The nodes with their useful work, and the loop that finds the last one below and the first one above the average.\<close>

type_synonym utilization = "nat \<times> rat"

fun scanUtils :: "(rat \<Rightarrow> bool) \<Rightarrow> (rat \<Rightarrow> bool) \<Rightarrow> int \<Rightarrow> int \<Rightarrow> utilization list \<Rightarrow> int \<times> int" where
  "scanUtils isLow isHigh i low [] = (low, i)"
| "scanUtils isLow isHigh i low (u # us) =
     (if isLow (snd u) then scanUtils isLow isHigh (i + 1) i us
      else if isHigh (snd u) then (low, i) else scanUtils isLow isHigh (i + 1) low us)"

text \<open>The loop that moves pairs of nodes towards each other.\<close>

function pairLoop :: "dvfsAlgorithm \<Rightarrow> int \<Rightarrow> utilization list \<Rightarrow> int \<Rightarrow> int \<Rightarrow> int \<Rightarrow> int \<Rightarrow> int list \<Rightarrow> bool \<Rightarrow> (int \<times> int list \<times> bool) option" where
  "pairLoop alg maxIdx utils low high l h idxs changed =
     (if l \<le> low \<and> h \<ge> high then do {
        ul \<leftarrow> vec_get utils (nat l);
        fl \<leftarrow> vec_get idxs (fst ul);
        (if fl = maxIdx then pairLoop alg maxIdx utils low high (l + 1) h idxs changed
         else do {
           uh \<leftarrow> vec_get utils (nat h);
           fh \<leftarrow> vec_get idxs (fst uh);
           (if fh = 0 then pairLoop alg maxIdx utils low high l (h - 1) idxs changed
            else do {
              idxs1 \<leftarrow> vec_set idxs (fst ul) (fl + 1);
              fh1 \<leftarrow> vec_get idxs1 (fst uh);
              idxs2 \<leftarrow> (if alg \<noteq> POWER then vec_set idxs1 (fst uh) (fh1 - 1) else Some idxs1);
              pairLoop alg maxIdx utils low high (l + 1) (h - 1) idxs2 True }) }) }
      else Some (l, idxs, changed))"
  by pat_completeness auto
termination by (relation "measure (\<lambda>(alg, maxIdx, utils, low, high, l, h, idxs, changed). nat (low + 1 - l) + nat (h + 1 - high))") auto

declare pairLoop.simps [simp del]

function slowLoop :: "int \<Rightarrow> utilization list \<Rightarrow> int \<Rightarrow> int \<Rightarrow> int list \<Rightarrow> bool \<Rightarrow> (int list \<times> bool) option" where
  "slowLoop maxIdx utils low l idxs changed =
     (if l \<le> low then do {
        ul \<leftarrow> vec_get utils (nat l);
        fl \<leftarrow> vec_get idxs (fst ul);
        (if fl \<noteq> maxIdx then do { idxs1 \<leftarrow> vec_set idxs (fst ul) (fl + 1); slowLoop maxIdx utils low (l + 1) idxs1 True }
         else slowLoop maxIdx utils low (l + 1) idxs changed) }
      else Some (idxs, changed))"
  by pat_completeness auto
termination by (relation "measure (\<lambda>(maxIdx, utils, low, l, idxs, changed). nat (low + 1 - l))") auto

declare slowLoop.simps [simp del]

definition utilsOf :: "dvfsManager \<Rightarrow> utilization list" where
  "utilsOf d = map (\<lambda>i. (i, fir_getData (myUtilFilters d ! i))) [0..<length (myUtilFilters d)]"

definition averageWork :: "dvfsManager \<Rightarrow> rat" where
  "averageWork d = sum_list (map snd (utilsOf d)) / of_nat (length (myUtilFilters d))"

definition workThreshold :: "dvfsManager \<Rightarrow> rat" where
  "workThreshold d = (if myUWM d = ROLLBACKS then averageWork d * myThreshold d else myThreshold d)"

definition belowAverage :: "dvfsManager \<Rightarrow> rat \<Rightarrow> bool" where
  "belowAverage d u \<longleftrightarrow> (if myUWM d = ROLLBACKS then u > averageWork d + workThreshold d else u < averageWork d - workThreshold d)"

definition aboveAverage :: "dvfsManager \<Rightarrow> rat \<Rightarrow> bool" where
  "aboveAverage d u \<longleftrightarrow> (if myUWM d = ROLLBACKS then u < averageWork d - workThreshold d else u > averageWork d + workThreshold d)"

text \<open>\<open>std::sort\<close> by the useful work is the parameter \<open>srt\<close>; sorting the reversed range reverses before and after.\<close>

definition sortedUtils :: "(utilization list \<Rightarrow> utilization list) \<Rightarrow> dvfsManager \<Rightarrow> utilization list" where
  "sortedUtils srt d = (if myUWM d = ROLLBACKS then rev (srt (rev (utilsOf d))) else srt (utilsOf d))"

definition updateFrequencyIdxs :: "(utilization list \<Rightarrow> utilization list) \<Rightarrow> dvfsManager \<Rightarrow> (bool \<times> dvfsManager) option" where
  "updateFrequencyIdxs srt d = do {
     let utils = sortedUtils srt d;
     let (low, high) = scanUtils (belowAverage d) (aboveAverage d) 0 (- 1) utils;
     (l, idxs, changed) \<leftarrow> pairLoop (myAlg d) (myMaxFreqIdx d) utils low high 0 (int (length utils) - 1) (myFrequencyIdxs d) False;
     (idxs1, changed1) \<leftarrow> (if myAlg d \<noteq> PERFORMANCE then slowLoop (myMaxFreqIdx d) utils low l idxs changed else Some (idxs, changed));
     Some (changed1, d\<lparr>myFrequencyIdxs := idxs1\<rparr>) }"

subsection \<open>Where the frequencies go\<close>

definition idxsOk :: "nat \<Rightarrow> int \<Rightarrow> int list \<Rightarrow> bool" where
  "idxsOk n maxIdx idxs \<longleftrightarrow> length idxs = n \<and> (\<forall>k < n. 0 \<le> idxs ! k \<and> idxs ! k \<le> maxIdx)"

definition utilsOk :: "nat \<Rightarrow> utilization list \<Rightarrow> bool" where
  "utilsOk n utils \<longleftrightarrow> length utils = n \<and> distinct (map fst utils) \<and> (\<forall>i < n. fst (utils ! i) < n)"

text \<open>Only the nodes \<open>A\<close> become slower, only the nodes \<open>B\<close> faster, and under the power algorithm none does.\<close>

definition goodMove :: "dvfsAlgorithm \<Rightarrow> nat set \<Rightarrow> nat set \<Rightarrow> int list \<Rightarrow> int list \<Rightarrow> bool" where
  "goodMove alg A B idxs idxs' \<longleftrightarrow> (\<forall>k < length idxs. (idxs ! k < idxs' ! k \<longrightarrow> k \<in> A) \<and> (idxs' ! k < idxs ! k \<longrightarrow> k \<in> B \<and> alg \<noteq> POWER))"

lemma goodMove_refl [simp]: "goodMove alg A B idxs idxs"
  by (simp add: goodMove_def)

lemma goodMove_trans:
  assumes "goodMove alg A B xs ys" "goodMove alg A B ys zs" "length ys = length xs"
  shows "goodMove alg A B xs zs"
  unfolding goodMove_def
proof (intro allI impI)
  fix k assume "k < length xs"
  then have "(xs ! k < ys ! k \<longrightarrow> k \<in> A) \<and> (ys ! k < xs ! k \<longrightarrow> k \<in> B \<and> alg \<noteq> POWER)" "(ys ! k < zs ! k \<longrightarrow> k \<in> A) \<and> (zs ! k < ys ! k \<longrightarrow> k \<in> B \<and> alg \<noteq> POWER)"
    using assms by (simp_all add: goodMove_def)
  then show "(xs ! k < zs ! k \<longrightarrow> k \<in> A) \<and> (zs ! k < xs ! k \<longrightarrow> k \<in> B \<and> alg \<noteq> POWER)" by linarith
qed

definition lowNodes :: "utilization list \<Rightarrow> int \<Rightarrow> nat set" where
  "lowNodes utils low = {fst (utils ! nat i) | i. 0 \<le> i \<and> i \<le> low}"

definition highNodes :: "utilization list \<Rightarrow> int \<Rightarrow> nat set" where
  "highNodes utils high = {fst (utils ! nat i) | i. high \<le> i \<and> i < int (length utils)}"

lemma idxsOk_slower: "idxsOk n m xs \<Longrightarrow> k < n \<Longrightarrow> xs ! k \<noteq> m \<Longrightarrow> idxsOk n m (xs[k := xs ! k + 1])"
  by (fastforce simp: idxsOk_def nth_list_update)

lemma idxsOk_faster: "idxsOk n m xs \<Longrightarrow> k < n \<Longrightarrow> xs ! k \<noteq> 0 \<Longrightarrow> idxsOk n m (xs[k := xs ! k - 1])"
  by (fastforce simp: idxsOk_def nth_list_update)

lemma nth_update_cases: "j < length xs \<Longrightarrow> xs[k := v] ! j = (if j = k then v else xs ! j)"
  by (cases "j = k") simp_all

lemma goodMove_slower: "k \<in> A \<Longrightarrow> goodMove alg A B xs (xs[k := xs ! k + 1])"
  by (simp add: goodMove_def nth_update_cases)

lemma goodMove_faster: "k \<in> B \<Longrightarrow> alg \<noteq> POWER \<Longrightarrow> goodMove alg A B xs (xs[k := xs ! k - 1])"
  by (simp add: goodMove_def nth_update_cases)

text \<open>What a pair of nodes does to the indices.\<close>

definition movePair :: "dvfsAlgorithm \<Rightarrow> nat \<Rightarrow> nat \<Rightarrow> int list \<Rightarrow> int list" where
  "movePair alg a b xs = (let ys = xs[a := xs ! a + 1] in if alg \<noteq> POWER then ys[b := ys ! b - 1] else ys)"

lemma movePair_ok:
  assumes "idxsOk n m xs" "a < n" "b < n" "a \<noteq> b" "xs ! a \<noteq> m" "xs ! b \<noteq> 0" "a \<in> A" "b \<in> B"
  shows "idxsOk n m (movePair alg a b xs)" "goodMove alg A B xs (movePair alg a b xs)"
    "alg \<noteq> POWER \<Longrightarrow> sum_list (movePair alg a b xs) = sum_list xs"
proof -
  let ?ys = "xs[a := xs ! a + 1]"
  have ys: "idxsOk n m ?ys" "?ys ! b = xs ! b" "length xs = n" using assms by (simp_all add: idxsOk_slower) (simp add: idxsOk_def)
  show "idxsOk n m (movePair alg a b xs)" using ys assms idxsOk_faster [of n m ?ys b] by (simp add: movePair_def Let_def)
  have "goodMove alg A B xs ?ys" using assms(7) by (rule goodMove_slower)
  moreover have "alg \<noteq> POWER \<Longrightarrow> goodMove alg A B ?ys (?ys[b := ?ys ! b - 1])" using assms(8) by (rule goodMove_faster)
  ultimately show "goodMove alg A B xs (movePair alg a b xs)" using goodMove_trans [of alg A B xs ?ys] unfolding movePair_def Let_def by force
  show "alg \<noteq> POWER \<Longrightarrow> sum_list (movePair alg a b xs) = sum_list xs"
    using ys assms by (simp add: movePair_def sum_list_set)
qed

text \<open>The two nodes of a pair are different nodes, one of the low and one of the high ones.\<close>

lemma pair_nodes:
  assumes us: "utilsOk n utils" and ok: "idxsOk n m idxs" and lh: "l \<le> low \<and> h \<ge> high" and bounds: "0 \<le> l" "h < int n" "low < high"
  defines "a \<equiv> fst (utils ! nat l)" and "b \<equiv> fst (utils ! nat h)"
  shows "a < n" "b < n" "a \<noteq> b" "a \<in> lowNodes utils low" "b \<in> highNodes utils high"
    "vec_get utils (nat l) = Some (utils ! nat l)" "vec_get idxs a = Some (idxs ! a)"
    "vec_get utils (nat h) = Some (utils ! nat h)" "vec_get idxs b = Some (idxs ! b)"
proof -
  have len: "length utils = n" "length idxs = n" using us ok by (simp_all add: utilsOk_def idxsOk_def)
  have r: "nat l < n" "nat h < n" "nat l \<noteq> nat h" using lh bounds by (linarith, linarith, linarith)
  show ab: "a < n" "b < n" using us r by (simp_all add: utilsOk_def a_def b_def)
  show "a \<noteq> b" using us r nth_eq_iff_index_eq [of "map fst utils" "nat l" "nat h"] by (simp add: utilsOk_def a_def b_def)
  show "a \<in> lowNodes utils low" using lh bounds unfolding lowNodes_def a_def by blast
  show "b \<in> highNodes utils high" using lh bounds len unfolding highNodes_def b_def by blast
  show "vec_get utils (nat l) = Some (utils ! nat l)" "vec_get idxs a = Some (idxs ! a)"
    "vec_get utils (nat h) = Some (utils ! nat h)" "vec_get idxs b = Some (idxs ! b)" using r ab len by (simp_all add: vec_get_def)
qed

lemma pairLoop_ok:
  assumes "utilsOk n utils" "idxsOk n m idxs" "0 \<le> l" "h < int n" "low < high"
  shows "\<exists>l' idxs' c. pairLoop alg m utils low high l h idxs ch = Some (l', idxs', c) \<and> l \<le> l' \<and> idxsOk n m idxs' \<and>
    goodMove alg (lowNodes utils low) (highNodes utils high) idxs idxs' \<and> (alg \<noteq> POWER \<longrightarrow> sum_list idxs' = sum_list idxs)"
  using assms
proof (induction alg m utils low high l h idxs ch rule: pairLoop.induct)
  case (1 alg m utils low high l h idxs ch)
  note us = 1(4) and ok = 1(5) and bounds = 1(6-8)
  show ?case
  proof (cases "l \<le> low \<and> h \<ge> high")
    case False
    then have "pairLoop alg m utils low high l h idxs ch = Some (l, idxs, ch)" by (subst pairLoop.simps) (simp only: False if_False)
    then show ?thesis using ok by auto
  next
    case True
    let ?a = "fst (utils ! nat l)" and ?b = "fst (utils ! nat h)"
    have len: "length idxs = n" using ok by (simp add: idxsOk_def)
    note P = pair_nodes [OF us ok True bounds]
    note ab = P(1,2) and ne = P(3) and A = P(4) and B = P(5) and g = P(6-9)
    show ?thesis
    proof (cases "idxs ! ?a = m")
      case False
      show ?thesis
      proof (cases "idxs ! ?b = 0")
        case True
        have p: "pairLoop alg m utils low high l h idxs ch = pairLoop alg m utils low high l (h - 1) idxs ch"
          using \<open>l \<le> low \<and> h \<ge> high\<close> g False True by (subst pairLoop.simps) simp
        show ?thesis unfolding p using 1(2) [OF \<open>l \<le> low \<and> h \<ge> high\<close> g(1,2) False g(3,4) True us ok] bounds by simp
      next
        case B0: False
        let ?ys = "idxs[?a := idxs ! ?a + 1]" and ?zs = "movePair alg ?a ?b idxs"
        note M = movePair_ok [OF ok ab ne False B0 A B, of alg]
        have st: "vec_set idxs ?a (idxs ! ?a + 1) = Some ?ys" "vec_get ?ys ?b = Some (?ys ! ?b)"
          "(if alg \<noteq> POWER then vec_set ?ys ?b (?ys ! ?b - 1) else Some ?ys) = Some ?zs"
          using ab len by (simp_all add: vec_set_def vec_get_def movePair_def Let_def)
        have p: "pairLoop alg m utils low high l h idxs ch = pairLoop alg m utils low high (l + 1) (h - 1) ?zs True"
          using \<open>l \<le> low \<and> h \<ge> high\<close> g False B0 st by (subst pairLoop.simps) simp
        from 1(3) [OF \<open>l \<le> low \<and> h \<ge> high\<close> g(1,2) False g(3,4) B0 st us M(1)] bounds obtain l' idxs' c where
          r: "pairLoop alg m utils low high (l + 1) (h - 1) ?zs True = Some (l', idxs', c)" "l + 1 \<le> l'" "idxsOk n m idxs'"
            "goodMove alg (lowNodes utils low) (highNodes utils high) ?zs idxs'" "alg \<noteq> POWER \<longrightarrow> sum_list idxs' = sum_list ?zs" by auto
        have "goodMove alg (lowNodes utils low) (highNodes utils high) idxs idxs'"
          using goodMove_trans [OF M(2) r(4)] M(1) len by (simp add: idxsOk_def)
        then show ?thesis unfolding p using r M(3) by auto
      qed
    next
      case True
      have p: "pairLoop alg m utils low high l h idxs ch = pairLoop alg m utils low high (l + 1) h idxs ch"
        using \<open>l \<le> low \<and> h \<ge> high\<close> g True by (subst pairLoop.simps) simp
      show ?thesis unfolding p using 1(1) [OF \<open>l \<le> low \<and> h \<ge> high\<close> g(1,2) True us ok] bounds by fastforce
    qed
  qed
qed

lemma slowLoop_ok:
  assumes "utilsOk n utils" "idxsOk n m idxs" "0 \<le> l" "low < int n"
  shows "\<exists>idxs' c. slowLoop m utils low l idxs ch = Some (idxs', c) \<and> idxsOk n m idxs' \<and> goodMove alg (lowNodes utils low) B idxs idxs'"
  using assms
proof (induction m utils low l idxs ch rule: slowLoop.induct)
  case (1 m utils low l idxs ch)
  note us = 1(3) and ok = 1(4) and bounds = 1(5,6)
  show ?case
  proof (cases "l \<le> low")
    case False
    then show ?thesis using ok by (subst slowLoop.simps) simp
  next
    case True
    let ?a = "fst (utils ! nat l)" and ?ys = "idxs[fst (utils ! nat l) := idxs ! fst (utils ! nat l) + 1]"
    have r: "nat l < n" using True bounds by linarith
    have len: "length utils = n" "length idxs = n" and a: "?a < n" using us ok r by (simp_all add: utilsOk_def idxsOk_def)
    have A: "?a \<in> lowNodes utils low" using True bounds unfolding lowNodes_def by blast
    have g: "vec_get utils (nat l) = Some (utils ! nat l)" "vec_get idxs ?a = Some (idxs ! ?a)" "vec_set idxs ?a (idxs ! ?a + 1) = Some ?ys"
      using r a len by (simp_all add: vec_get_def vec_set_def)
    have l1: "0 \<le> l + 1" using bounds by simp
    show ?thesis
    proof (cases "idxs ! ?a = m")
      case m: True
      have "slowLoop m utils low l idxs ch = slowLoop m utils low (l + 1) idxs ch" using True g m by (subst slowLoop.simps) simp
      then show ?thesis using 1(2) [OF True g(1,2) _ us ok l1 bounds(2)] m by simp
    next
      case m: False
      have p: "slowLoop m utils low l idxs ch = slowLoop m utils low (l + 1) ?ys True" using True g m by (subst slowLoop.simps) simp
      have y: "idxsOk n m ?ys" using idxsOk_slower [OF ok a m] .
      from 1(1) [OF True g(1,2) m g(3) us y l1 bounds(2)] obtain idxs' c where
        r: "slowLoop m utils low (l + 1) ?ys True = Some (idxs', c)" "idxsOk n m idxs'" "goodMove alg (lowNodes utils low) B ?ys idxs'" by blast
      have "goodMove alg (lowNodes utils low) B idxs idxs'" by (rule goodMove_trans [OF goodMove_slower [OF A] r(3)]) simp
      then show ?thesis unfolding p using r by blast
    qed
  qed
qed

lemma scanUtils_bounds:
  assumes "scanUtils isLow isHigh i low us = (low', high)" "low < i"
  shows "low' < high \<and> low \<le> low' \<and> i \<le> high \<and> high \<le> i + int (length us)"
  using assms by (induction isLow isHigh i low us rule: scanUtils.induct) (auto split: if_splits)

text \<open>What the development relies on about \<open>std::sort\<close>: it rearranges.\<close>

definition rearranges :: "(utilization list \<Rightarrow> utilization list) \<Rightarrow> bool" where
  "rearranges srt \<longleftrightarrow> (\<forall>us. mset (srt us) = mset us)"

lemma sortedUtils_ok:
  assumes "rearranges srt"
  shows "utilsOk (length (myUtilFilters d)) (sortedUtils srt d)"
proof -
  let ?n = "length (myUtilFilters d)"
  have m: "mset (sortedUtils srt d) = mset (utilsOf d)" using assms by (simp add: sortedUtils_def rearranges_def)
  have l: "length (sortedUtils srt d) = ?n" using mset_eq_length [OF m] by (simp add: utilsOf_def)
  have "map fst (utilsOf d) = [0..<?n]" by (simp add: utilsOf_def comp_def)
  then have f: "mset (map fst (sortedUtils srt d)) = mset [0..<?n]" using arg_cong [OF m, of "image_mset fst"] by (metis mset_map)
  have "distinct (map fst (sortedUtils srt d))" using mset_eq_imp_distinct_iff [OF f] by simp
  moreover have "set (map fst (sortedUtils srt d)) = {0..<?n}" using mset_eq_setD [OF f] by simp
  then have "fst (sortedUtils srt d ! i) < ?n" if "i < ?n" for i using that l nth_mem [of i "map fst (sortedUtils srt d)"] by auto
  ultimately show ?thesis using l by (simp add: utilsOk_def)
qed

definition dvfsOk :: "dvfsManager \<Rightarrow> bool" where
  "dvfsOk d \<longleftrightarrow> idxsOk (length (myUtilFilters d)) (myMaxFreqIdx d) (myFrequencyIdxs d)"

lemma updateFrequencyIdxs_ok:
  assumes srt: "rearranges srt" and ok: "dvfsOk d"
  shows "\<exists>c idxs low high. updateFrequencyIdxs srt d = Some (c, d\<lparr>myFrequencyIdxs := idxs\<rparr>) \<and>
    scanUtils (belowAverage d) (aboveAverage d) 0 (- 1) (sortedUtils srt d) = (low, high) \<and>
    idxsOk (length (myUtilFilters d)) (myMaxFreqIdx d) idxs \<and>
    goodMove (myAlg d) (lowNodes (sortedUtils srt d) low) (highNodes (sortedUtils srt d) high) (myFrequencyIdxs d) idxs \<and>
    (myAlg d = PERFORMANCE \<longrightarrow> sum_list idxs = sum_list (myFrequencyIdxs d))"
proof -
  let ?us = "sortedUtils srt d" and ?n = "length (myUtilFilters d)" and ?m = "myMaxFreqIdx d"
  obtain low high where sc: "scanUtils (belowAverage d) (aboveAverage d) 0 (- 1) ?us = (low, high)" by (cases "scanUtils (belowAverage d) (aboveAverage d) 0 (- 1) ?us")
  have us: "utilsOk ?n ?us" using srt by (rule sortedUtils_ok)
  then have len: "length ?us = ?n" by (simp add: utilsOk_def)
  have b: "low < high" "low < int ?n" using scanUtils_bounds [OF sc] len by simp_all
  have h: "int ?n - 1 < int ?n" by simp
  from pairLoop_ok [OF us ok [unfolded dvfsOk_def] order_refl h b(1), of "myAlg d" False] obtain l idxs c where
    p: "pairLoop (myAlg d) ?m ?us low high 0 (int ?n - 1) (myFrequencyIdxs d) False = Some (l, idxs, c)" "0 \<le> l" "idxsOk ?n ?m idxs"
      "goodMove (myAlg d) (lowNodes ?us low) (highNodes ?us high) (myFrequencyIdxs d) idxs" "myAlg d \<noteq> POWER \<longrightarrow> sum_list idxs = sum_list (myFrequencyIdxs d)" by auto
  show ?thesis
  proof (cases "myAlg d = PERFORMANCE")
    case True
    then show ?thesis using p sc len by (auto simp: updateFrequencyIdxs_def Let_def)
  next
    case False
    from slowLoop_ok [OF us p(3,2) b(2), where ch = c and alg = "myAlg d" and B = "highNodes ?us high"] obtain idxs1 c1 where
      q: "slowLoop ?m ?us low l idxs c = Some (idxs1, c1)" "idxsOk ?n ?m idxs1" "goodMove (myAlg d) (lowNodes ?us low) (highNodes ?us high) idxs idxs1" by blast
    have "length idxs = length (myFrequencyIdxs d)" using p(3) ok by (simp add: idxsOk_def dvfsOk_def)
    from goodMove_trans [OF p(4) q(3) this] show ?thesis using False p(1) q sc len by (auto simp: updateFrequencyIdxs_def Let_def)
  qed
qed

subsection \<open>Properties\<close>

text \<open>C39: Adjusting the frequencies never reads or writes outside of the vectors and keeps every index between the fastest and the slowest frequency, for every algorithm, metric
  and threshold and whatever order sorting gives to nodes with equal work.\<close>

theorem frequencies_in_range:
  assumes "rearranges srt" and "dvfsOk d"
  shows "\<exists>changed d'. updateFrequencyIdxs srt d = Some (changed, d') \<and> length (myFrequencyIdxs d') = length (myFrequencyIdxs d) \<and>
    (\<forall>k < length (myFrequencyIdxs d'). 0 \<le> myFrequencyIdxs d' ! k \<and> myFrequencyIdxs d' ! k \<le> myMaxFreqIdx d')"
  using updateFrequencyIdxs_ok [OF assms] assms(2) by (force simp: dvfsOk_def idxsOk_def)

definition sampleManager :: "dvfsAlgorithm \<Rightarrow> dvfsManager" where
  "sampleManager alg = \<lparr>mySimulationManagerID = 0, myNumSimulationManagers = 2, myAlg = alg, myUWM = ROLLBACK_FRACTION, myThreshold = 1 / 10,
     myUtilFilters = [\<lparr>fir_size = 2, num_valid = 1, fir_index = 1, current_sum = 0, fir_array = [0, 0]\<rparr>,
       \<lparr>fir_size = 2, num_valid = 1, fir_index = 1, current_sum = 1, fir_array = [1, 0]\<rparr>],
     myAvailableFreqs = [2000, 1500, 1000], myFrequencyIdxs = [1, 1], myMaxFreqIdx = 2, myLastRollbacks = 0, myLastEventsRolledBack = 0,
     myLastEventsExecuted = 0, myWaitingForMessage = False, myCPU = 0, myCPUs = [0, 1]\<rparr>"

lemma sampleManager_ok: "dvfsOk (sampleManager alg)"
  by (simp add: dvfsOk_def idxsOk_def sampleManager_def less_Suc_eq numeral_2_eq_2)

lemma sort_key_rearranges: "rearranges (sort_key snd)"
  by (simp add: rearranges_def)

theorem frequencies_in_range_witness:
  "\<exists>changed d'. updateFrequencyIdxs (sort_key snd) (sampleManager HYBRID) = Some (changed, d') \<and>
    length (myFrequencyIdxs d') = length (myFrequencyIdxs (sampleManager HYBRID)) \<and>
    (\<forall>k < length (myFrequencyIdxs d'). 0 \<le> myFrequencyIdxs d' ! k \<and> myFrequencyIdxs d' ! k \<le> myMaxFreqIdx d')"
  by (rule frequencies_in_range [OF sort_key_rearranges sampleManager_ok])

text \<open>The performance algorithm only trades: whenever it slows a node by one step it speeds another one up by one, so the sum of the indices stays.\<close>

theorem performance_trades:
  assumes "rearranges srt" and "dvfsOk d" and "myAlg d = PERFORMANCE" and "updateFrequencyIdxs srt d = Some (changed, d')"
  shows "sum_list (myFrequencyIdxs d') = sum_list (myFrequencyIdxs d)"
  using updateFrequencyIdxs_ok [OF assms(1,2)] assms(3,4) by force

theorem performance_trades_witness:
  "map_option (\<lambda>r. sum_list (myFrequencyIdxs (snd r))) (updateFrequencyIdxs (sort_key snd) (sampleManager PERFORMANCE)) = Some 2"
proof -
  obtain c d' where u: "updateFrequencyIdxs (sort_key snd) (sampleManager PERFORMANCE) = Some (c, d')"
    using updateFrequencyIdxs_ok [OF sort_key_rearranges sampleManager_ok, of PERFORMANCE] by blast
  have "sum_list (myFrequencyIdxs d') = sum_list (myFrequencyIdxs (sampleManager PERFORMANCE))"
    by (rule performance_trades [OF sort_key_rearranges sampleManager_ok _ u]) (simp add: sampleManager_def)
  then show ?thesis using u by (simp add: sampleManager_def)
qed

text \<open>The power algorithm never speeds a node up.\<close>

lemma power_only_slows:
  assumes "rearranges srt" and "dvfsOk d" and "myAlg d = POWER" and "updateFrequencyIdxs srt d = Some (changed, d')" and "k < length (myFrequencyIdxs d)"
  shows "myFrequencyIdxs d ! k \<le> myFrequencyIdxs d' ! k"
  using updateFrequencyIdxs_ok [OF assms(1,2)] assms(3-5) by (force simp: goodMove_def)

text \<open>With a sort that sorts, the nodes that move are the ones that should.\<close>

definition sortsByWork :: "(utilization list \<Rightarrow> utilization list) \<Rightarrow> bool" where
  "sortsByWork srt \<longleftrightarrow> rearranges srt \<and> (\<forall>us. sorted (map snd (srt us)))"

lemma scanUtils_hits:
  assumes "scanUtils isLow isHigh i low us = (low', high)" "low < i"
  shows "(low' = low \<or> i \<le> low' \<and> low' < i + int (length us) \<and> isLow (snd (us ! nat (low' - i)))) \<and>
    (high = i + int (length us) \<or> high < i + int (length us) \<and> isHigh (snd (us ! nat (high - i))))"
  using assms
proof (induction isLow isHigh i low us arbitrary: low' high rule: scanUtils.induct)
  case (2 isLow isHigh i low u us)
  note B = scanUtils_bounds [OF 2(3,4)]
  have shift: "(u # us) ! nat (j - i) = us ! nat (j - (i + 1))" if "i + 1 \<le> j" for j
  proof -
    have "nat (j - i) = Suc (nat (j - (i + 1)))" using that by linarith
    then show ?thesis by simp
  qed
  show ?case
  proof (cases "isLow (snd u)")
    case True
    then have s: "scanUtils isLow isHigh (i + 1) i us = (low', high)" using 2(3) by simp
    from 2(1) [OF True s] scanUtils_bounds [OF s] show ?thesis using True shift [of low'] shift [of high] by auto
  next
    case False
    show ?thesis
    proof (cases "isHigh (snd u)")
      case True
      then show ?thesis using False 2(3) by auto
    next
      case nh: False
      then have s: "scanUtils isLow isHigh (i + 1) low us = (low', high)" using False 2(3) by simp
      have "low < i + 1" using 2(4) by simp
      from 2(2) [OF False nh s this] scanUtils_bounds [OF s this] show ?thesis using shift [of low'] shift [of high] by auto
    qed
  qed
qed simp

lemma sortedUtils_sorted:
  assumes "sortsByWork srt"
  shows "if myUWM d = ROLLBACKS then sorted (rev (map snd (sortedUtils srt d))) else sorted (map snd (sortedUtils srt d))"
  using assms by (simp add: sortsByWork_def sortedUtils_def rev_map)

lemma sorted_rev_nth_mono: "sorted (rev xs) \<Longrightarrow> i \<le> j \<Longrightarrow> j < length xs \<Longrightarrow> xs ! j \<le> xs ! i"
  using sorted_rev_iff_nth_mono by blast

text \<open>Up to the last low node all are low, and from the first high node on all are high.\<close>

lemma lowNodes_below:
  assumes srt: "sortsByWork srt" and sc: "scanUtils (belowAverage d) (aboveAverage d) 0 (- 1) (sortedUtils srt d) = (low, high)"
    and k: "k \<in> lowNodes (sortedUtils srt d) low"
  shows "\<exists>u. (k, u) \<in> set (sortedUtils srt d) \<and> belowAverage d u"
proof -
  let ?us = "sortedUtils srt d"
  from k obtain i where i: "0 \<le> i" "i \<le> low" "k = fst (?us ! nat i)" by (auto simp: lowNodes_def)
  from scanUtils_hits [OF sc] i have l: "low < int (length ?us)" "belowAverage d (snd (?us ! nat low))" by auto
  have r: "nat i \<le> nat low" "nat low < length ?us" using i l by linarith+
  have "belowAverage d (snd (?us ! nat i))"
    using l(2) r sortedUtils_sorted [OF srt, of d] sorted_nth_mono [of "map snd ?us" "nat i" "nat low"] sorted_rev_nth_mono [of "map snd ?us" "nat i" "nat low"]
    by (auto simp: belowAverage_def split: if_splits)
  moreover have "(k, snd (?us ! nat i)) \<in> set ?us" using i r nth_mem [of "nat i" ?us] by simp
  ultimately show ?thesis by blast
qed

lemma highNodes_above:
  assumes srt: "sortsByWork srt" and sc: "scanUtils (belowAverage d) (aboveAverage d) 0 (- 1) (sortedUtils srt d) = (low, high)"
    and k: "k \<in> highNodes (sortedUtils srt d) high"
  shows "\<exists>u. (k, u) \<in> set (sortedUtils srt d) \<and> aboveAverage d u"
proof -
  let ?us = "sortedUtils srt d"
  from k obtain i where i: "high \<le> i" "i < int (length ?us)" "k = fst (?us ! nat i)" by (auto simp: highNodes_def)
  from scanUtils_hits [OF sc] scanUtils_bounds [OF sc] i have l: "0 \<le> high" "aboveAverage d (snd (?us ! nat high))" by auto
  have r: "nat high \<le> nat i" "nat i < length ?us" using i l by linarith+
  have "aboveAverage d (snd (?us ! nat i))"
    using l(2) r sortedUtils_sorted [OF srt, of d] sorted_nth_mono [of "map snd ?us" "nat high" "nat i"] sorted_rev_nth_mono [of "map snd ?us" "nat high" "nat i"]
    by (auto simp: aboveAverage_def split: if_splits)
  moreover have "(k, snd (?us ! nat i)) \<in> set ?us" using i r nth_mem [of "nat i" ?us] by simp
  ultimately show ?thesis by blast
qed

lemma sortedUtils_work: "rearranges srt \<Longrightarrow> (k, u) \<in> set (sortedUtils srt d) \<Longrightarrow> u = fir_getData (myUtilFilters d ! k)"
proof -
  assume srt: "rearranges srt" and m: "(k, u) \<in> set (sortedUtils srt d)"
  have "mset (sortedUtils srt d) = mset (utilsOf d)" using srt by (simp add: sortedUtils_def rearranges_def)
  then have "set (sortedUtils srt d) = set (utilsOf d)" by (rule mset_eq_setD)
  then show ?thesis using m by (auto simp: utilsOf_def)
qed

text \<open>Only nodes whose average useful work lies below the mean by more than the threshold become slower, and only nodes above it by more than the threshold become faster.\<close>

theorem frequencies_follow_work:
  assumes srt: "sortsByWork srt" and ok: "dvfsOk d" and u: "updateFrequencyIdxs srt d = Some (changed, d')" and k: "k < length (myFrequencyIdxs d)"
  shows "(myFrequencyIdxs d ! k < myFrequencyIdxs d' ! k \<longrightarrow> belowAverage d (fir_getData (myUtilFilters d ! k))) \<and>
    (myFrequencyIdxs d' ! k < myFrequencyIdxs d ! k \<longrightarrow> aboveAverage d (fir_getData (myUtilFilters d ! k)))"
proof -
  have r: "rearranges srt" using srt by (simp add: sortsByWork_def)
  from updateFrequencyIdxs_ok [OF r ok] u obtain low high where
    sc: "scanUtils (belowAverage d) (aboveAverage d) 0 (- 1) (sortedUtils srt d) = (low, high)"
    and g: "goodMove (myAlg d) (lowNodes (sortedUtils srt d) low) (highNodes (sortedUtils srt d) high) (myFrequencyIdxs d) (myFrequencyIdxs d')" by auto
  show ?thesis using g k lowNodes_below [OF srt sc, of k] highNodes_above [OF srt sc, of k] sortedUtils_work [OF r]
    unfolding goodMove_def by metis
qed

lemma sort_key_sorts: "sortsByWork (sort_key snd)"
  by (simp add: sortsByWork_def rearranges_def)

lemma sampleManager_result: "map_option (\<lambda>r. myFrequencyIdxs (snd r)) (updateFrequencyIdxs (sort_key snd) (sampleManager HYBRID)) = Some [2, 0]"
  by code_simp

theorem frequencies_follow_work_witness:
  "map_option (\<lambda>r. myFrequencyIdxs (snd r)) (updateFrequencyIdxs (sort_key snd) (sampleManager HYBRID)) = Some [2, 0] \<and> belowAverage (sampleManager HYBRID) 0"
proof -
  obtain c d' where u: "updateFrequencyIdxs (sort_key snd) (sampleManager HYBRID) = Some (c, d')" and i: "myFrequencyIdxs d' = [2, 0]"
    using sampleManager_result by auto
  have "0 < length (myFrequencyIdxs (sampleManager HYBRID))" by (simp add: sampleManager_def)
  from frequencies_follow_work [OF sort_key_sorts sampleManager_ok u this] i have "belowAverage (sampleManager HYBRID) 0"
    by (simp add: sampleManager_def fir_getData_def)
  then show ?thesis using sampleManager_result by blast
qed

subsection \<open>Messages between the managers\<close>

text \<open>A message carries the vector of useful work or of frequency indices. The effects are the frequencies set, by processor.\<close>

record usefulWorkMessage =
  uw_round :: messageRound
  uw_data :: "rat list"

type_synonym dvfsResult = "dvfsManager \<times> (nat \<times> usefulWorkMessage) option \<times> (int \<times> int) list"

definition nextManager :: "dvfsManager \<Rightarrow> nat" where
  "nextManager d = (mySimulationManagerID d + 1) mod myNumSimulationManagers d"

definition setFrequencies :: "int \<Rightarrow> dvfsManager \<Rightarrow> (int \<times> int) list option" where
  "setFrequencies idx d = (if idx < 0 then None else map_option (\<lambda>f. map (\<lambda>i. (int i, f)) [0..<8]) (vec_get (myAvailableFreqs d) (nat idx)))"

text \<open>\<open>poll\<close>, with whether the measurement period has elapsed.\<close>

definition distributedPoll :: "bool \<Rightarrow> dvfsManager \<Rightarrow> dvfsManager \<times> (nat \<times> usefulWorkMessage) option" where
  "distributedPoll elapsed d =
     (if isMaster d \<and> elapsed \<and> \<not> myWaitingForMessage d
      then (d\<lparr>myWaitingForMessage := True\<rparr>, Some (nextManager d, \<lparr>uw_round = COLLECT, uw_data = replicate (myNumSimulationManagers d) 0\<rparr>))
      else (d, None))"

definition sharedPoll :: "bool \<Rightarrow> dvfsManager \<Rightarrow> (nat \<times> usefulWorkMessage) option" where
  "sharedPoll elapsed d =
     (if isMaster d \<and> elapsed then Some (nextManager d, \<lparr>uw_round = COLLECT, uw_data = replicate (myNumSimulationManagers d) 0\<rparr>) else None)"

fun updateFilters :: "rat list \<Rightarrow> firFilter list \<Rightarrow> firFilter list option" where
  "updateFilters [] fs = Some fs"
| "updateFilters (x # xs) [] = None"
| "updateFilters (x # xs) (f # fs) = do { f1 \<leftarrow> fir_update x f; fs1 \<leftarrow> updateFilters xs fs; Some (f1 # fs1) }"

definition masterCollect :: "(utilization list \<Rightarrow> utilization list) \<Rightarrow> rat list \<Rightarrow> dvfsManager \<Rightarrow> (bool \<times> dvfsManager) option" where
  "masterCollect srt dat d = do {
     fs \<leftarrow> updateFilters dat (myUtilFilters d);
     let d1 = d\<lparr>myUtilFilters := fs\<rparr>;
     (if isDummy d1 then Some (False, d1) else updateFrequencyIdxs srt d1) }"

text \<open>The indices are written over the first entries of the data.\<close>

definition overwrite :: "rat list \<Rightarrow> rat list \<Rightarrow> rat list option" where
  "overwrite idxs dat = (if length idxs \<le> length dat then Some (idxs @ drop (length idxs) dat) else None)"

definition distributedReceive :: "(utilization list \<Rightarrow> utilization list) \<Rightarrow> workCounters \<Rightarrow> usefulWorkMessage \<Rightarrow> dvfsManager \<Rightarrow> dvfsResult option" where
  "distributedReceive srt w msg d = do {
     (dat, idxsChanged, d1, freqs) \<leftarrow> (case uw_round msg of
         COLLECT \<Rightarrow> do {
           (dat, d1) \<leftarrow> fillUsefulWork w (uw_data msg) d;
           (if isMaster d1 then do { (changed, d2) \<leftarrow> masterCollect srt dat d1; Some (dat, changed, d2, []) } else Some (dat, False, d1, [])) }
       | SETFREQ \<Rightarrow> (if isDummy d then Some (uw_data msg, False, d, [])
           else do { x \<leftarrow> vec_get (uw_data msg) (mySimulationManagerID d); freqs \<leftarrow> setFrequencies \<lfloor>x\<rfloor> d; Some (uw_data msg, False, d, freqs) })
       | CIRCULATECPU \<Rightarrow> Some (uw_data msg, False, d, []));
     (if \<not> (isMaster d1 \<and> (uw_round msg = SETFREQ \<or> \<not> idxsChanged)) then do {
        dat1 \<leftarrow> (if isMaster d1 then overwrite (map of_int (myFrequencyIdxs d1)) dat else Some dat);
        Some (d1, Some (nextManager d1, \<lparr>uw_round = (if isMaster d1 then SETFREQ else uw_round msg), uw_data = dat1\<rparr>), freqs) }
      else Some (d1\<lparr>myWaitingForMessage := False\<rparr>, None, freqs)) }"

fun indexFrequencies :: "int list \<Rightarrow> int list \<Rightarrow> int list \<Rightarrow> (int \<times> int) list option" where
  "indexFrequencies avail [] cpus = Some []"
| "indexFrequencies avail (i # is') [] = None"
| "indexFrequencies avail (i # is') (c # cpus) = do {
     f \<leftarrow> (if i < 0 then None else vec_get avail (nat i));
     rest \<leftarrow> indexFrequencies avail is' cpus;
     Some ((c, f) # rest) }"

definition sharedReceive :: "(utilization list \<Rightarrow> utilization list) \<Rightarrow> workCounters \<Rightarrow> usefulWorkMessage \<Rightarrow> dvfsManager \<Rightarrow> dvfsResult option" where
  "sharedReceive srt w msg d =
     (if uw_round msg = CIRCULATECPU then
        (if isMaster d
         then (if length (myCPUs d) \<le> length (uw_data msg)
               then Some (d\<lparr>myCPUs := take 1 (myCPUs d) @ map floor (drop 1 (take (length (myCPUs d)) (uw_data msg)))\<rparr>, None, []) else None)
         else do {
           dat \<leftarrow> vec_set (uw_data msg) (mySimulationManagerID d) (of_int (myCPU d));
           Some (d, Some (nextManager d, \<lparr>uw_round = CIRCULATECPU, uw_data = dat\<rparr>), []) })
      else do {
        (dat, d1) \<leftarrow> fillUsefulWork w (uw_data msg) d;
        (if isMaster d1 then do {
           (changed, d2) \<leftarrow> masterCollect srt dat d1;
           freqs \<leftarrow> (if changed then indexFrequencies (myAvailableFreqs d2) (myFrequencyIdxs d2) (myCPUs d2) else Some []);
           Some (d2, None, freqs) }
         else Some (d1, Some (nextManager d1, \<lparr>uw_round = COLLECT, uw_data = dat\<rparr>), [])) })"

text \<open>A node other than the master sets the frequency that the master has chosen for it, and passes the message on unchanged.\<close>

lemma distributedReceive_setfreq:
  assumes "uw_round msg = SETFREQ" "\<not> isMaster d" "\<not> isDummy d" "mySimulationManagerID d < length idxs" "uw_data msg = map of_int idxs"
    "0 \<le> idxs ! mySimulationManagerID d" "idxs ! mySimulationManagerID d < int (length (myAvailableFreqs d))"
  shows "distributedReceive srt w msg d = Some (d, Some (nextManager d, msg),
    map (\<lambda>i. (int i, myAvailableFreqs d ! nat (idxs ! mySimulationManagerID d))) [0..<8])"
  using assms by (simp add: distributedReceive_def vec_get_def setFrequencies_def nat_less_iff)

lemma updateFilters_length: "updateFilters xs fs = Some fs' \<Longrightarrow> length fs' = length fs"
  by (induction xs fs arbitrary: fs' rule: updateFilters.induct) (auto split: bind_splits)

text \<open>What the master sends on, and that it keeps its indices in range.\<close>

lemma masterCollect_ok:
  assumes "rearranges srt" "dvfsOk d" "masterCollect srt dat d = Some (changed, d')"
  shows "dvfsOk d'"
proof -
  from assms(3) obtain fs where f: "updateFilters dat (myUtilFilters d) = Some fs"
    and r: "(if isDummy (d\<lparr>myUtilFilters := fs\<rparr>) then Some (False, d\<lparr>myUtilFilters := fs\<rparr>) else updateFrequencyIdxs srt (d\<lparr>myUtilFilters := fs\<rparr>)) = Some (changed, d')"
    by (auto simp: masterCollect_def Let_def split: bind_splits)
  have "dvfsOk (d\<lparr>myUtilFilters := fs\<rparr>)" using assms(2) updateFilters_length [OF f] by (simp add: dvfsOk_def)
  from updateFrequencyIdxs_ok [OF assms(1) this] this r show ?thesis by (auto simp: dvfsOk_def split: if_splits)
qed

end
