(* ===== verification/ThreadedEventSet.thy ===== *)
theory ThreadedEventSet
  imports EventSet
begin

text \<open>
  The event set that the threads of one simulation manager share: \<open>LockState.h\<close>,
  \<open>ThreadedTimeWarpMultiSetLTSF.cpp\<close> (the schedule queue as a multiset) and
  \<open>ThreadedTimeWarpMultiSet.cpp\<close>, with the part of \<open>ThreadedTimeWarpSimulationManager.cpp\<close>
  that calls them. An object has a multiset of unprocessed events under a lock of its own; a
  schedule queue holds the first event of every object that no thread works on; the status
  lock of an object belongs to the thread that works on it.

  A thread is a state machine. One step runs from one lock operation to the next: a step that
  takes a lock is possible only while the lock is free or already its own, and a critical
  section that takes no further lock is one step. The locks of the processed and of the removed
  events are taken and released inside one section, so they need no state.
\<close>

subsection \<open>Locks\<close>

text \<open>The owner of a lock; \<open>None\<close> is \<open>NOONE\<close>. A thread that takes its own lock again goes on.\<close>

type_synonym lockState = "nat option"

definition setLock :: "nat \<Rightarrow> lockState \<Rightarrow> lockState option" where
  "setLock threadNumber lockOwner =
     (if lockOwner = None \<or> lockOwner = Some threadNumber then Some (Some threadNumber) else None)"

definition releaseLock :: "nat \<Rightarrow> lockState \<Rightarrow> lockState" where
  "releaseLock threadNumber lockOwner = (if lockOwner = Some threadNumber then None else lockOwner)"

definition isLocked :: "lockState \<Rightarrow> bool" where
  "isLocked lockOwner \<longleftrightarrow> lockOwner \<noteq> None"

lemma setLock_Some: "setLock t l = Some l' \<longleftrightarrow> (l = None \<or> l = Some t) \<and> l' = Some t"
  by (auto simp: setLock_def)

lemma releaseLock_own [simp]: "releaseLock t (Some t) = None"
  by (simp add: releaseLock_def)

lemma releaseLock_other: "t \<noteq> t' \<Longrightarrow> releaseLock t l = Some t' \<longleftrightarrow> l = Some t'"
  by (simp add: releaseLock_def)

subsection \<open>Queue elements\<close>

text \<open>
  An element of a queue: an event, or a \<open>StragglerEvent\<close> with the negative events it carries,
  which answers the questions of the queue from the event it wraps.
\<close>

datatype 't qevent =
    PositiveEvent "'t event"
  | StragglerEvent "'t negativeEvent" "'t negativeEvent list"

fun wrapped :: "'t qevent \<Rightarrow> 't event" where
  "wrapped (PositiveEvent e) = e"
| "wrapped (StragglerEvent e _) = e"

fun isStraggler :: "'t qevent \<Rightarrow> bool" where
  "isStraggler (PositiveEvent _) = False"
| "isStraggler (StragglerEvent _ _) = True"

definition qTime :: "'t qevent \<Rightarrow> 't" where
  "qTime x = receiveTime (wrapped x)"

definition qObj :: "'t qevent \<Rightarrow> nat" where
  "qObj x = objIdOf (receiver (wrapped x))"

definition qLess :: "('t :: linorder) qevent \<Rightarrow> 't qevent \<Rightarrow> bool" where
  "qLess a b = recvLess (wrapped a) (wrapped b)"

interpretation q_order: strict_weak_order "qLess :: ('t :: linorder) qevent \<Rightarrow> 't qevent \<Rightarrow> bool"
  using recv_order.irrefl recv_order.trans recv_order.neg_trans
  by unfold_locales (unfold qLess_def, blast+)

text \<open>
  \<open>cancelLocalEvents\<close>: one straggler for all the negative events of one object, at the lowest
  of their receive times; \<open>addr\<close> is the address of the copy.
\<close>

definition lowTime :: "('t :: linorder) negativeEvent list \<Rightarrow> 't" where
  "lowTime eventsToCancel =
     foldl (\<lambda>low e. if low > receiveTime e then receiveTime e else low) (receiveTime (hd eventsToCancel)) eventsToCancel"

definition cancelLocalStraggler :: "nat \<Rightarrow> ('t :: linorder) negativeEvent list \<Rightarrow> 't qevent" where
  "cancelLocalStraggler addr eventsToCancel =
     StragglerEvent ((NegativeEvent addr (hd eventsToCancel))\<lparr>receiveTime := lowTime eventsToCancel\<rparr>) eventsToCancel"

text \<open>\<open>handleAntiMessageFromStraggler\<close> looks for the events in the queue of the receiver of the first.\<close>

definition cancelTarget :: "'t negativeEvent list \<Rightarrow> nat" where
  "cancelTarget eventsToCancel = objIdOf (receiver (hd eventsToCancel))"

fun q_ok :: "'t qevent \<Rightarrow> bool" where
  "q_ok (PositiveEvent _) = True"
| "q_ok (StragglerEvent e ns) \<longleftrightarrow> ns \<noteq> [] \<and> receiver (hd ns) = receiver e"

lemma cancelLocalStraggler_ok: "ns \<noteq> [] \<Longrightarrow> q_ok (cancelLocalStraggler addr ns)"
  by (simp add: cancelLocalStraggler_def NegativeEvent_def)

lemma q_ok_target: "q_ok (StragglerEvent e ns) \<Longrightarrow> cancelTarget ns = qObj (StragglerEvent e ns)"
  by (simp add: cancelTarget_def qObj_def)

subsection \<open>A schedule queue\<close>

text \<open>\<open>ThreadedTimeWarpMultiSetLTSF\<close>; the two vectors are indexed by the place of an object in this queue.\<close>

record 't ltsf =
  scheduleQueue :: "'t qevent omset"
  lowestObjectPosition :: "nat \<Rightarrow> iter"
  objectStatusLock :: "nat \<Rightarrow> lockState"
  scheduleQueueLock :: lockState

definition ThreadedTimeWarpMultiSetLTSF :: "'t ltsf" where
  "ThreadedTimeWarpMultiSetLTSF = \<lparr>scheduleQueue = ms_empty, lowestObjectPosition = (\<lambda>_. None),
     objectStatusLock = (\<lambda>_. None), scheduleQueueLock = None\<rparr>"

definition getScheduleQueueLock :: "nat \<Rightarrow> 't ltsf \<Rightarrow> 't ltsf option" where
  "getScheduleQueueLock threadId L = do {
     l \<leftarrow> setLock threadId (scheduleQueueLock L);
     Some (L\<lparr>scheduleQueueLock := l\<rparr>) }"

definition releaseScheduleQueueLock :: "nat \<Rightarrow> 't ltsf \<Rightarrow> 't ltsf" where
  "releaseScheduleQueueLock threadId L = L\<lparr>scheduleQueueLock := releaseLock threadId (scheduleQueueLock L)\<rparr>"

definition insertEvent :: "nat \<Rightarrow> ('t :: linorder) qevent \<Rightarrow> 't ltsf \<Rightarrow> 't ltsf" where
  "insertEvent objId newEvent L = (let (m, it) = ms_insert qLess newEvent (scheduleQueue L) in
     L\<lparr>scheduleQueue := m, lowestObjectPosition := (lowestObjectPosition L)(objId := it)\<rparr>)"

definition insertEmptyEvent :: "nat \<Rightarrow> 't ltsf \<Rightarrow> 't ltsf" where
  "insertEmptyEvent objId L = L\<lparr>lowestObjectPosition := (lowestObjectPosition L)(objId := None)\<rparr>"

definition eraseSkipFirst :: "nat \<Rightarrow> 't ltsf \<Rightarrow> 't ltsf option" where
  "eraseSkipFirst objId L =
     (if lowestObjectPosition L objId \<noteq> None then do {
        m \<leftarrow> ms_erase (lowestObjectPosition L objId) (scheduleQueue L);
        Some (L\<lparr>scheduleQueue := m\<rparr>) }
      else Some L)"

definition getObjectLock :: "nat \<Rightarrow> nat \<Rightarrow> 't ltsf \<Rightarrow> 't ltsf option" where
  "getObjectLock threadId objId L = do {
     l \<leftarrow> setLock threadId (objectStatusLock L objId);
     Some (L\<lparr>objectStatusLock := (objectStatusLock L)(objId := l)\<rparr>) }"

definition releaseObjectLock :: "nat \<Rightarrow> nat \<Rightarrow> 't ltsf \<Rightarrow> 't ltsf" where
  "releaseObjectLock threadId objId L =
     L\<lparr>objectStatusLock := (objectStatusLock L)(objId := releaseLock threadId (objectStatusLock L objId))\<rparr>"

definition isObjectScheduled :: "nat \<Rightarrow> 't ltsf \<Rightarrow> bool" where
  "isObjectScheduled objId L = isLocked (objectStatusLock L objId)"

text \<open>
  \<open>peek\<close> between the two operations on the lock of the queue; \<open>mapped\<close> is \<open>LTSFObjId[.][0]\<close>.
  The first event leaves the queue and its object is locked. Without a result the thread waits
  for the lock of the object, with the queue locked.
\<close>

definition peek :: "(nat \<Rightarrow> nat) \<Rightarrow> nat \<Rightarrow> 't ltsf \<Rightarrow> ('t ltsf \<times> 't qevent option) option" where
  "peek mapped threadId L =
     (case ms_front (scheduleQueue L) of
        None \<Rightarrow> Some (L, None)
      | Some ret \<Rightarrow> do {
          let objId = mapped (qObj ret);
          L1 \<leftarrow> getObjectLock threadId objId L;
          m \<leftarrow> ms_erase (ms_begin (scheduleQueue L1)) (scheduleQueue L1);
          Some (L1\<lparr>scheduleQueue := m, lowestObjectPosition := (lowestObjectPosition L1)(objId := None)\<rparr>, Some ret) })"

definition isScheduleQueueEmpty :: "'t ltsf \<Rightarrow> bool" where
  "isScheduleQueueEmpty L = ms_isEmpty (scheduleQueue L)"

definition ltsf_nextEventTime :: "'t ltsf \<Rightarrow> 't option" where
  "ltsf_nextEventTime L = map_option qTime (ms_front (scheduleQueue L))"

subsection \<open>The shared event set and the threads\<close>

text \<open>
  Where a worker stands in \<open>executeObjects\<close>. The object it works on is the first argument; the
  second of \<open>Negatives\<close> is the object whose events are cancelled.
  \<open>Undefined\<close> is a thread that dereferenced \<open>begin()\<close> of an empty queue.
\<close>

datatype 't control =
    Idle
  | PeekLocked
  | PeekReturns "nat option"
  | Chosen nat
  | Rollback nat "'t qevent"
  | Coasting nat "'t qevent"
  | CoastExecuting nat "'t qevent"
  | CoastGetting nat "'t qevent"
  | Negatives nat nat "'t negativeEvent list"
  | Ready nat
  | Executing nat
  | Update nat
  | UpdateLocked nat
  | UpdateScheduling nat
  | UpdateReturning nat
  | UpdateEnding nat
  | Undefined nat

text \<open>Where a thread stands in \<open>insert\<close>.\<close>

datatype 't inserting =
    NotInserting
  | InsertCalled "'t qevent"
  | InsertLocked "'t qevent"
  | InsertFirst "'t qevent"
  | InsertScheduling "'t qevent"
  | InsertScheduled "'t qevent"
  | InsertEnding "'t qevent"

record 't tset =
  LTSFCount :: nat
  unProcessedQueue :: "nat \<Rightarrow> 't qevent omset"
  processedQueue :: "nat \<Rightarrow> 't qevent list"
  removedEventQueue :: "nat \<Rightarrow> 't qevent list"
  unprocessedQueueLockState :: "nat \<Rightarrow> lockState"
  LTSF :: "nat \<Rightarrow> 't ltsf"
  committedEventsByObj :: "nat \<Rightarrow> u32"
  committedEventsByLTSF :: "nat \<Rightarrow> u32"
  rolledBackEventsByObj :: "nat \<Rightarrow> u32"
  rolledBackEventsByLTSF :: "nat \<Rightarrow> u32"
  simulationTime :: "nat \<Rightarrow> 't"
  control_of :: "nat \<Rightarrow> 't control"
  inserting_of :: "nat \<Rightarrow> 't inserting"

definition ThreadedTimeWarpMultiSet :: "nat \<Rightarrow> 't \<Rightarrow> 't tset" where
  "ThreadedTimeWarpMultiSet ltsfCount zeroTime =
     \<lparr>LTSFCount = ltsfCount, unProcessedQueue = (\<lambda>_. ms_empty), processedQueue = (\<lambda>_. []),
      removedEventQueue = (\<lambda>_. []), unprocessedQueueLockState = (\<lambda>_. None),
      LTSF = (\<lambda>_. ThreadedTimeWarpMultiSetLTSF), committedEventsByObj = (\<lambda>_. 0),
      committedEventsByLTSF = (\<lambda>_. 0), rolledBackEventsByObj = (\<lambda>_. 0), rolledBackEventsByLTSF = (\<lambda>_. 0),
      simulationTime = (\<lambda>_. zeroTime), control_of = (\<lambda>_. Idle), inserting_of = (\<lambda>_. NotInserting)\<rparr>"

text \<open>\<open>LTSFObjId\<close>: the place of an object in its schedule queue, and the queue.\<close>

definition LTSFObjId :: "'t tset \<Rightarrow> nat \<Rightarrow> nat" where
  "LTSFObjId s i = i div LTSFCount s"

definition LTSFOwner :: "'t tset \<Rightarrow> nat \<Rightarrow> nat" where
  "LTSFOwner s i = i mod LTSFCount s"

definition LTSFByThread :: "'t tset \<Rightarrow> nat \<Rightarrow> nat" where
  "LTSFByThread s i = i mod LTSFCount s"

definition onLTSF :: "nat \<Rightarrow> ('t ltsf \<Rightarrow> 't ltsf) \<Rightarrow> 't tset \<Rightarrow> 't tset" where
  "onLTSF q f s = s\<lparr>LTSF := (LTSF s)(q := f (LTSF s q))\<rparr>"

definition goto :: "nat \<Rightarrow> 't control \<Rightarrow> 't tset \<Rightarrow> 't tset" where
  "goto t c s = s\<lparr>control_of := (control_of s)(t := c)\<rparr>"

definition insertGoto :: "nat \<Rightarrow> 't inserting \<Rightarrow> 't tset \<Rightarrow> 't tset" where
  "insertGoto t c s = s\<lparr>inserting_of := (inserting_of s)(t := c)\<rparr>"

definition getunProcessedLock :: "nat \<Rightarrow> nat \<Rightarrow> 't tset \<Rightarrow> 't tset option" where
  "getunProcessedLock t objId s = do {
     l \<leftarrow> setLock t (unprocessedQueueLockState s objId);
     Some (s\<lparr>unprocessedQueueLockState := (unprocessedQueueLockState s)(objId := l)\<rparr>) }"

definition releaseunProcessedLock :: "nat \<Rightarrow> nat \<Rightarrow> 't tset \<Rightarrow> 't tset" where
  "releaseunProcessedLock t objId s = s\<lparr>unprocessedQueueLockState :=
     (unprocessedQueueLockState s)(objId := releaseLock t (unprocessedQueueLockState s objId))\<rparr>"

definition popUnprocessed :: "nat \<Rightarrow> 't tset \<Rightarrow> 't tset option" where
  "popUnprocessed objId s = do {
     m \<leftarrow> ms_erase (ms_begin (unProcessedQueue s objId)) (unProcessedQueue s objId);
     Some (s\<lparr>unProcessedQueue := (unProcessedQueue s)(objId := m)\<rparr>) }"

definition pushProcessed :: "nat \<Rightarrow> 't qevent \<Rightarrow> 't tset \<Rightarrow> 't tset" where
  "pushProcessed objId ret s = s\<lparr>processedQueue := (processedQueue s)(objId := processedQueue s objId @ [ret])\<rparr>"

definition tt_setSimulationTime :: "nat \<Rightarrow> 't \<Rightarrow> 't tset \<Rightarrow> 't tset" where
  "tt_setSimulationTime objId time s = s\<lparr>simulationTime := (simulationTime s)(objId := time)\<rparr>"

subsection \<open>The operations of the thread that works on an object\<close>

text \<open>
  Each returns the new state and what the method returns; without a result the thread waits for
  the lock of the unprocessed events. \<open>getEventIfStraggler\<close> and \<open>peekEventLockUnprocessed\<close>
  return with the lock taken on some of their branches.
\<close>

definition getEventIfStraggler ::
  "nat \<Rightarrow> nat \<Rightarrow> ('t :: linorder) tset \<Rightarrow> ('t tset \<times> 't qevent option) option" where
  "getEventIfStraggler t objId s = do {
     s1 \<leftarrow> getunProcessedLock t objId s;
     case ms_front (unProcessedQueue s1 objId) of
       None \<Rightarrow> Some (releaseunProcessedLock t objId s1, None)
     | Some ret \<Rightarrow>
         if isStraggler ret then do { s2 \<leftarrow> popUnprocessed objId s1; Some (s2, Some ret) }
         else if qTime ret \<ge> simulationTime s1 objId then Some (releaseunProcessedLock t objId s1, None)
         else Some (s1, Some ret) }"

definition peekEventLockUnprocessed ::
  "nat \<Rightarrow> nat \<Rightarrow> ('t :: linorder) tset \<Rightarrow> ('t tset \<times> 't qevent option) option" where
  "peekEventLockUnprocessed t objId s = do {
     s1 \<leftarrow> getunProcessedLock t objId s;
     case ms_front (unProcessedQueue s1 objId) of
       None \<Rightarrow> Some (s1, None)
     | Some ret \<Rightarrow>
         if isStraggler ret \<or> qTime ret < simulationTime s1 objId
         then Some (releaseunProcessedLock t objId s1, None)
         else Some (s1, Some ret) }"

definition tt_getEvent ::
  "nat \<Rightarrow> nat \<Rightarrow> ('t :: linorder) tset \<Rightarrow> ('t tset \<times> 't qevent option) option" where
  "tt_getEvent t objId s = do {
     s1 \<leftarrow> getunProcessedLock t objId s;
     case ms_front (unProcessedQueue s1 objId) of
       None \<Rightarrow> Some (releaseunProcessedLock t objId s1, None)
     | Some ret \<Rightarrow>
         if isStraggler ret \<or> qTime ret < simulationTime s1 objId
         then Some (releaseunProcessedLock t objId s1, None)
         else do {
           s2 \<leftarrow> popUnprocessed objId s1;
           Some (pushProcessed objId ret (releaseunProcessedLock t objId s2), Some ret) } }"

definition getEventWhileRollback ::
  "nat \<Rightarrow> nat \<Rightarrow> ('t :: linorder) tset \<Rightarrow> ('t tset \<times> 't qevent option) option" where
  "getEventWhileRollback t objId s =
     (case ms_front (unProcessedQueue s objId) of
        None \<Rightarrow> Some (s, None)
      | Some ret \<Rightarrow>
          if isStraggler ret \<or> qTime ret < simulationTime s objId
          then Some (releaseunProcessedLock t objId s, None)
          else do { s2 \<leftarrow> popUnprocessed objId s; Some (pushProcessed objId ret s2, Some ret) })"

text \<open>
  \<open>peekEvent\<close> of an object. It takes the lock unless the thread has it, and gives back what it
  took. The inner \<open>None\<close> is \<open>*begin()\<close> of an empty queue.
\<close>

definition tt_peekEvent ::
  "nat \<Rightarrow> nat \<Rightarrow> ('t :: linorder) tset \<Rightarrow> ('t qevent option) option option" where
  "tt_peekEvent t objId s = do {
     s1 \<leftarrow> getunProcessedLock t objId s;
     Some (case ms_front (unProcessedQueue s1 objId) of
             None \<Rightarrow> None
           | Some ret \<Rightarrow> Some (if isStraggler ret then None else Some ret)) }"

definition tt_peekEvent_before ::
  "nat \<Rightarrow> nat \<Rightarrow> 't \<Rightarrow> ('t :: linorder) tset \<Rightarrow> ('t qevent option) option option" where
  "tt_peekEvent_before t objId minimumTime s = do {
     r \<leftarrow> tt_peekEvent t objId s;
     Some (map_option (\<lambda>retval. case retval of
        Some x \<Rightarrow> if \<not> qTime x < minimumTime then None else Some x | None \<Rightarrow> None) r) }"

text \<open>\<open>handleAntiMessage\<close>: the first event of the queue that the negative event cancels, if any, moves to the removed events.\<close>

definition cancels :: "'t negativeEvent \<Rightarrow> 't qevent \<Rightarrow> bool" where
  "cancels n x \<longleftrightarrow> sender (wrapped x) = sender n \<and> eventId (wrapped x) = eventId n \<and> \<not> isStraggler x"

definition tt_handleAntiMessage ::
  "nat \<Rightarrow> nat \<Rightarrow> 't negativeEvent \<Rightarrow> 't tset \<Rightarrow> ('t tset \<times> bool) option" where
  "tt_handleAntiMessage t objId negativeEvent s = do {
     s1 \<leftarrow> getunProcessedLock t objId s;
     case find (\<lambda>x. cancels negativeEvent (snd x)) (nodes (unProcessedQueue s1 objId)) of
       None \<Rightarrow> Some (releaseunProcessedLock t objId s1, False)
     | Some (it, eventToRemove) \<Rightarrow> do {
         m \<leftarrow> ms_erase (Some it) (unProcessedQueue s1 objId);
         Some (releaseunProcessedLock t objId
           (s1\<lparr>unProcessedQueue := (unProcessedQueue s1)(objId := m),
               removedEventQueue := (removedEventQueue s1)(objId := removedEventQueue s1 objId @ [eventToRemove])\<rparr>), True) } }"

text \<open>
  \<open>rollback\<close>: \<open>approx\<close> is \<open>getApproximateIntTime\<close>; the event number and the sender are those the
  state manager saved with the restored state. The events from the first match on go back.
\<close>

definition undoneEvents :: "('t \<Rightarrow> int) \<Rightarrow> 't \<Rightarrow> u32 \<Rightarrow> u32 \<Rightarrow> ('t :: linorder) qevent list \<Rightarrow> 't qevent list" where
  "undoneEvents approx rollbackTime eventIdRollback senderObjectId processed =
     (if approx rollbackTime = 0 then processed
      else dropWhile (\<lambda>x. eventId (wrapped x) \<noteq> eventIdRollback
                          \<or> getSimulationObjectID (sender (wrapped x)) \<noteq> senderObjectId)
             (dropWhile (\<lambda>x. qTime x < rollbackTime) processed))"

definition tt_rollback ::
  "('t \<Rightarrow> int) \<Rightarrow> nat \<Rightarrow> 't \<Rightarrow> u32 \<Rightarrow> u32 \<Rightarrow> ('t :: linorder) tset \<Rightarrow> 't tset" where
  "tt_rollback approx objId rollbackTime eventIdRollback senderObjectId s =
     (let processed = processedQueue s objId;
          undone = undoneEvents approx rollbackTime eventIdRollback senderObjectId processed in
      s\<lparr>unProcessedQueue := (unProcessedQueue s)(objId := ms_insert_range qLess undone (unProcessedQueue s objId)),
        processedQueue := (processedQueue s)(objId := take (length processed - length undone) processed),
        rolledBackEventsByObj := (rolledBackEventsByObj s)(objId := rolledBackEventsByObj s objId + of_nat (length undone)),
        rolledBackEventsByLTSF := (rolledBackEventsByLTSF s)(LTSFOwner s objId :=
          rolledBackEventsByLTSF s (LTSFOwner s objId) + of_nat (length undone))\<rparr>)"

definition tt_fossilCollect :: "nat \<Rightarrow> ('t :: linorder) \<Rightarrow> 't tset \<Rightarrow> 't tset" where
  "tt_fossilCollect objId fossilCollectTime s =
     s\<lparr>processedQueue := (processedQueue s)(objId := dropWhile (\<lambda>x. qTime x < fossilCollectTime) (processedQueue s objId)),
       removedEventQueue := (removedEventQueue s)(objId := filter (\<lambda>x. \<not> qTime x < fossilCollectTime) (removedEventQueue s objId))\<rparr>"

definition tt_fossilCollect_int :: "('t \<Rightarrow> int) \<Rightarrow> nat \<Rightarrow> int \<Rightarrow> 't tset \<Rightarrow> 't tset" where
  "tt_fossilCollect_int approx objId fossilCollectTime s =
     s\<lparr>processedQueue := (processedQueue s)(objId := dropWhile (\<lambda>x. approx (qTime x) < fossilCollectTime) (processedQueue s objId)),
       removedEventQueue := (removedEventQueue s)(objId := filter (\<lambda>x. \<not> approx (qTime x) < fossilCollectTime) (removedEventQueue s objId))\<rparr>"

definition tt_fossilCollect_event :: "'t event \<Rightarrow> 't tset \<Rightarrow> 't tset" where
  "tt_fossilCollect_event toRemove s =
     (let objId = objIdOf (receiver toRemove);
          same = (\<lambda>x. eventId (wrapped x) = eventId toRemove \<and> sender (wrapped x) = sender toRemove) in
      if list_ex same (processedQueue s objId)
      then s\<lparr>processedQueue := (processedQueue s)(objId := remove_first same (processedQueue s objId))\<rparr>
      else s\<lparr>removedEventQueue := (removedEventQueue s)(objId := remove_first same (removedEventQueue s objId))\<rparr>)"

text \<open>The questions of the GVT manager and of the scheduler; the argument \<open>lvt\<close> is what \<open>getLVT\<close> returns.\<close>

definition tt_nextEventToBeScheduledTime :: "('t :: linorder) tset \<Rightarrow> 't option" where
  "tt_nextEventToBeScheduledTime s =
     foldl (\<lambda>minimum i. let temp = ltsf_nextEventTime (LTSF s i) in
         case minimum of None \<Rightarrow> temp
         | Some m \<Rightarrow> (case temp of Some v \<Rightarrow> if v < m then temp else minimum | None \<Rightarrow> minimum))
       None [0 ..< LTSFCount s]"

definition getMinEventTime :: "nat \<Rightarrow> 't tset \<Rightarrow> 't option" where
  "getMinEventTime objId s = map_option qTime (ms_front (unProcessedQueue s objId))"

definition tt_getLastEventScheduledTime :: "('t :: linorder) \<Rightarrow> 't tset \<Rightarrow> 't" where
  "tt_getLastEventScheduledTime lvt s =
     (case tt_nextEventToBeScheduledTime s of
        Some nextEventTime \<Rightarrow> if lvt > nextEventTime then nextEventTime else lvt
      | None \<Rightarrow> lvt)"

subsection \<open>The steps of a worker\<close>

text \<open>\<open>peekNextEvent\<close>: lock the schedule queue of the thread, take the first event, unlock.\<close>

definition peekLock :: "nat \<Rightarrow> 't tset \<Rightarrow> 't tset option" where
  "peekLock t s = do {
     let q = LTSFByThread s (t - 1);
     L \<leftarrow> getScheduleQueueLock t (LTSF s q);
     Some (goto t PeekLocked (onLTSF q (\<lambda>_. L) s)) }"

definition peekSection :: "nat \<Rightarrow> 't tset \<Rightarrow> 't tset option" where
  "peekSection t s = do {
     let q = LTSFByThread s (t - 1);
     (L, ret) \<leftarrow> peek (LTSFObjId s) t (LTSF s q);
     Some (goto t (PeekReturns (map_option qObj ret)) (onLTSF q (\<lambda>_. L) s)) }"

definition peekUnlock :: "nat \<Rightarrow> nat option \<Rightarrow> 't tset \<Rightarrow> 't tset" where
  "peekUnlock t obj s =
     goto t (case obj of None \<Rightarrow> Idle | Some objId \<Rightarrow> Chosen objId)
       (onLTSF (LTSFByThread s (t - 1)) (releaseScheduleQueueLock t) s)"

text \<open>The body of \<open>executeObjects\<close>, from the choice of the object to \<open>updateScheduleQueueAfterExecute\<close>.\<close>

definition checkStraggler :: "nat \<Rightarrow> nat \<Rightarrow> ('t :: linorder) tset \<Rightarrow> 't tset option" where
  "checkStraggler t objId s = do {
     (s1, straggler) \<leftarrow> getEventIfStraggler t objId s;
     Some (goto t (case straggler of
         None \<Rightarrow> Ready objId
       | Some (PositiveEvent e) \<Rightarrow> Rollback objId (PositiveEvent e)
       | Some (StragglerEvent e ns) \<Rightarrow>
           if receiveTime e < simulationTime s1 objId then Rollback objId (StragglerEvent e ns)
           else Negatives objId (cancelTarget ns) ns) s1) }"

text \<open>\<open>rollback\<close> of the simulation manager, up to the cancel messages; the state manager restores \<open>restoredTime\<close>,
  which must not be later than the straggler.\<close>

definition restore ::
  "('t \<Rightarrow> int) \<Rightarrow> nat \<Rightarrow> nat \<Rightarrow> 't qevent \<Rightarrow> 't \<Rightarrow> u32 \<Rightarrow> u32 \<Rightarrow> ('t :: linorder) tset \<Rightarrow> 't tset" where
  "restore approx t objId straggler restoredTime eventIdRollback senderObjectId s =
     goto t (Coasting objId straggler)
       (tt_rollback approx objId restoredTime eventIdRollback senderObjectId (tt_setSimulationTime objId restoredTime s))"

text \<open>One test of the loop of \<open>coastForward\<close>, and what follows the loop.\<close>

definition afterRollback :: "nat \<Rightarrow> 't qevent \<Rightarrow> 't control" where
  "afterRollback objId straggler =
     (case straggler of PositiveEvent _ \<Rightarrow> Update objId | StragglerEvent _ ns \<Rightarrow> Negatives objId (cancelTarget ns) ns)"

definition coastPeek :: "nat \<Rightarrow> nat \<Rightarrow> 't qevent \<Rightarrow> ('t :: linorder) tset \<Rightarrow> 't tset option" where
  "coastPeek t objId straggler s = do {
     r \<leftarrow> tt_peekEvent_before t objId (qTime straggler) s;
     Some (case r of
         None \<Rightarrow> goto t (Undefined objId) s
       | Some None \<Rightarrow> goto t (afterRollback objId straggler) (releaseunProcessedLock t objId s)
       | Some (Some findEvent) \<Rightarrow>
           goto t (CoastExecuting objId straggler) (tt_setSimulationTime objId (qTime findEvent) s)) }"

text \<open>
  \<open>getEvent\<close> of an object that coasts forward: \<open>peekEvent\<close>, which gives back a lock it had to
  take, and then \<open>getEventWhileRollback\<close>, which takes none. The time argument of \<open>getEvent\<close>
  is not used.
\<close>

definition coastGet :: "nat \<Rightarrow> nat \<Rightarrow> 't qevent \<Rightarrow> ('t :: linorder) tset \<Rightarrow> 't tset option" where
  "coastGet t objId straggler s = do {
     peeked \<leftarrow> tt_peekEvent t objId s;
     Some (case peeked of
         None \<Rightarrow> goto t (Undefined objId) s
       | Some None \<Rightarrow> s
       | Some (Some _) \<Rightarrow> goto t (CoastGetting objId straggler) s) }"

definition coastPop :: "nat \<Rightarrow> nat \<Rightarrow> 't qevent \<Rightarrow> ('t :: linorder) tset \<Rightarrow> 't tset option" where
  "coastPop t objId straggler s =
     map_option (\<lambda>(s1, _). goto t (CoastExecuting objId straggler) s1) (getEventWhileRollback t objId s)"

definition executeNext :: "nat \<Rightarrow> nat \<Rightarrow> ('t :: linorder) tset \<Rightarrow> 't tset option" where
  "executeNext t objId s = do {
     (s1, nextEvent) \<leftarrow> peekEventLockUnprocessed t objId s;
     Some (case nextEvent of
         None \<Rightarrow> goto t (Update objId) s1
       | Some x \<Rightarrow> goto t (Executing objId) (tt_setSimulationTime objId (qTime x) s1)) }"

definition executeGet :: "nat \<Rightarrow> nat \<Rightarrow> ('t :: linorder) tset \<Rightarrow> 't tset option" where
  "executeGet t objId s = map_option fst (tt_getEvent t objId s)"

text \<open>One round of \<open>handleAntiMessageFromStraggler\<close>; a failed assertion stops the thread.\<close>

definition cancelNext :: "nat \<Rightarrow> nat \<Rightarrow> nat \<Rightarrow> ('t :: linorder) negativeEvent list \<Rightarrow> 't tset \<Rightarrow> 't tset option" where
  "cancelNext t objId target eventsToCancel s =
     (case eventsToCancel of
        [] \<Rightarrow> Some (goto t (Update objId) s)
      | n # ns \<Rightarrow> if receiveTime n < simulationTime s target then None else do {
          (s1, _) \<leftarrow> tt_handleAntiMessage t target n s;
          Some (goto t (Negatives objId target ns) s1) })"

text \<open>\<open>updateScheduleQueueAfterExecute\<close>: the object returns to its schedule queue with its first event.\<close>

definition updateLockUnprocessed :: "nat \<Rightarrow> nat \<Rightarrow> 't tset \<Rightarrow> 't tset option" where
  "updateLockUnprocessed t objId s = do {
     s1 \<leftarrow> getunProcessedLock t objId s;
     Some (goto t (UpdateLocked objId)
       (s1\<lparr>committedEventsByObj := (committedEventsByObj s1)(objId := committedEventsByObj s1 objId + 1),
           committedEventsByLTSF := (committedEventsByLTSF s1)(LTSFOwner s1 objId :=
             committedEventsByLTSF s1 (LTSFOwner s1 objId) + 1)\<rparr>)) }"

definition updateLockSchedule :: "nat \<Rightarrow> nat \<Rightarrow> 't tset \<Rightarrow> 't tset option" where
  "updateLockSchedule t objId s = do {
     L \<leftarrow> getScheduleQueueLock t (LTSF s (LTSFOwner s objId));
     Some (goto t (UpdateScheduling objId) (onLTSF (LTSFOwner s objId) (\<lambda>_. L) s)) }"

definition updateSection :: "nat \<Rightarrow> nat \<Rightarrow> ('t :: linorder) tset \<Rightarrow> 't tset" where
  "updateSection t objId s =
     goto t (UpdateReturning objId)
       (onLTSF (LTSFOwner s objId)
          (\<lambda>L. releaseObjectLock t (LTSFObjId s objId)
             (case ms_front (unProcessedQueue s objId) of
                Some firstEvent \<Rightarrow> insertEvent (LTSFObjId s objId) firstEvent L
              | None \<Rightarrow> insertEmptyEvent (LTSFObjId s objId) L)) s)"

definition updateUnlockSchedule :: "nat \<Rightarrow> nat \<Rightarrow> 't tset \<Rightarrow> 't tset" where
  "updateUnlockSchedule t objId s =
     goto t (UpdateEnding objId) (onLTSF (LTSFOwner s objId) (releaseScheduleQueueLock t) s)"

definition updateUnlockUnprocessed :: "nat \<Rightarrow> nat \<Rightarrow> 't tset \<Rightarrow> 't tset" where
  "updateUnlockUnprocessed t objId s = goto t Idle (releaseunProcessedLock t objId s)"

subsection \<open>The steps of \<open>insert\<close>\<close>

text \<open>
  \<open>insert\<close> compares the pointer of the event with that of the first one; two events are equal here, with their addresses, only if
  they are the same object.
\<close>

definition insertLock :: "nat \<Rightarrow> 't qevent \<Rightarrow> 't tset \<Rightarrow> 't tset option" where
  "insertLock t receivedEvent s =
     map_option (insertGoto t (InsertLocked receivedEvent)) (getunProcessedLock t (qObj receivedEvent) s)"

definition insertQueue :: "nat \<Rightarrow> ('t :: linorder) qevent \<Rightarrow> 't tset \<Rightarrow> 't tset" where
  "insertQueue t receivedEvent s =
     (let objId = qObj receivedEvent;
          m = fst (ms_insert qLess receivedEvent (unProcessedQueue s objId)) in
      insertGoto t (if ms_front m = Some receivedEvent then InsertFirst receivedEvent else InsertEnding receivedEvent)
        (s\<lparr>unProcessedQueue := (unProcessedQueue s)(objId := m)\<rparr>))"

definition insertLockSchedule :: "nat \<Rightarrow> 't qevent \<Rightarrow> 't tset \<Rightarrow> 't tset option" where
  "insertLockSchedule t receivedEvent s = do {
     let q = LTSFOwner s (qObj receivedEvent);
     L \<leftarrow> getScheduleQueueLock t (LTSF s q);
     Some (insertGoto t (InsertScheduling receivedEvent) (onLTSF q (\<lambda>_. L) s)) }"

definition insertSection :: "nat \<Rightarrow> ('t :: linorder) qevent \<Rightarrow> 't tset \<Rightarrow> 't tset option" where
  "insertSection t receivedEvent s = do {
     let q = LTSFOwner s (qObj receivedEvent);
     let objId = LTSFObjId s (qObj receivedEvent);
     L \<leftarrow> (if \<not> isObjectScheduled objId (LTSF s q)
           then map_option (insertEvent objId receivedEvent) (eraseSkipFirst objId (LTSF s q))
           else Some (LTSF s q));
     Some (insertGoto t (InsertScheduled receivedEvent) (onLTSF q (\<lambda>_. L) s)) }"

definition insertUnlockSchedule :: "nat \<Rightarrow> 't qevent \<Rightarrow> 't tset \<Rightarrow> 't tset" where
  "insertUnlockSchedule t receivedEvent s =
     insertGoto t (InsertEnding receivedEvent)
       (onLTSF (LTSFOwner s (qObj receivedEvent)) (releaseScheduleQueueLock t) s)"

definition insertUnlock :: "nat \<Rightarrow> 't qevent \<Rightarrow> 't tset \<Rightarrow> 't tset" where
  "insertUnlock t receivedEvent s =
     insertGoto t NotInserting (releaseunProcessedLock t (qObj receivedEvent) s)"

text \<open>
  The steps of thread \<open>t\<close>. The manager, thread 0, inserts what arrives from outside and
  reclaims old events; a worker inserts what its object sends, and the cancellations of a
  rollback. What the state manager restores and which events are sent are arguments.
\<close>

datatype 't choice =
    Proceed
  | CallInsert "'t qevent"
  | RestoreState 't u32 u32
  | GetNextEvent
  | CallFossilCollect nat 't

fun maySend :: "nat \<Rightarrow> 't control \<Rightarrow> bool" where
  "maySend t Idle = (t = 0)"
| "maySend t (Coasting _ _) = True"
| "maySend t (CoastExecuting _ _) = True"
| "maySend t (Executing _) = True"
| "maySend t _ = False"

fun insertStep :: "nat \<Rightarrow> 't inserting \<Rightarrow> ('t :: linorder) tset \<Rightarrow> 't tset option" where
  "insertStep t NotInserting s = None"
| "insertStep t (InsertCalled x) s = insertLock t x s"
| "insertStep t (InsertLocked x) s = Some (insertQueue t x s)"
| "insertStep t (InsertFirst x) s = insertLockSchedule t x s"
| "insertStep t (InsertScheduling x) s = insertSection t x s"
| "insertStep t (InsertScheduled x) s = Some (insertUnlockSchedule t x s)"
| "insertStep t (InsertEnding x) s = Some (insertUnlock t x s)"

fun workerStep :: "nat \<Rightarrow> 't control \<Rightarrow> ('t :: linorder) tset \<Rightarrow> 't tset option" where
  "workerStep t Idle s = (if t = 0 then None else peekLock t s)"
| "workerStep t PeekLocked s = peekSection t s"
| "workerStep t (PeekReturns obj) s = Some (peekUnlock t obj s)"
| "workerStep t (Chosen i) s = checkStraggler t i s"
| "workerStep t (Rollback i x) s = None"
| "workerStep t (Coasting i x) s = coastPeek t i x s"
| "workerStep t (CoastExecuting i x) s = Some (goto t (Coasting i x) s)"
| "workerStep t (CoastGetting i x) s = coastPop t i x s"
| "workerStep t (Negatives i r ns) s = cancelNext t i r ns s"
| "workerStep t (Ready i) s = executeNext t i s"
| "workerStep t (Executing i) s = Some (goto t (Update i) s)"
| "workerStep t (Update i) s = updateLockUnprocessed t i s"
| "workerStep t (UpdateLocked i) s = updateLockSchedule t i s"
| "workerStep t (UpdateScheduling i) s = Some (updateSection t i s)"
| "workerStep t (UpdateReturning i) s = Some (updateUnlockSchedule t i s)"
| "workerStep t (UpdateEnding i) s = Some (updateUnlockUnprocessed t i s)"
| "workerStep t (Undefined i) s = None"

fun restoreStep ::
  "('t \<Rightarrow> int) \<Rightarrow> nat \<Rightarrow> 't \<Rightarrow> u32 \<Rightarrow> u32 \<Rightarrow> 't control \<Rightarrow> ('t :: linorder) tset \<Rightarrow> 't tset option" where
  "restoreStep approx t r eid sid (Rollback i x) s =
     (if r \<le> qTime x then Some (restore approx t i x r eid sid s) else None)"
| "restoreStep approx t r eid sid _ s = None"

fun getStep :: "nat \<Rightarrow> 't control \<Rightarrow> ('t :: linorder) tset \<Rightarrow> 't tset option" where
  "getStep t (Executing i) s = executeGet t i s"
| "getStep t (CoastExecuting i x) s = coastGet t i x s"
| "getStep t _ s = None"

definition isInserting :: "'t inserting \<Rightarrow> bool" where
  "isInserting p \<longleftrightarrow> (case p of NotInserting \<Rightarrow> False | _ \<Rightarrow> True)"

fun threadStep :: "('t \<Rightarrow> int) \<Rightarrow> nat \<Rightarrow> 't choice \<Rightarrow> ('t :: linorder) tset \<Rightarrow> 't tset option" where
  "threadStep approx t Proceed s =
     (if isInserting (inserting_of s t) then insertStep t (inserting_of s t) s else workerStep t (control_of s t) s)"
| "threadStep approx t (CallInsert x) s =
     (if \<not> isInserting (inserting_of s t) \<and> maySend t (control_of s t) \<and> q_ok x
      then Some (insertGoto t (InsertCalled x) s) else None)"
| "threadStep approx t (RestoreState r eid sid) s =
     (if \<not> isInserting (inserting_of s t) then restoreStep approx t r eid sid (control_of s t) s else None)"
| "threadStep approx t GetNextEvent s =
     (if \<not> isInserting (inserting_of s t) then getStep t (control_of s t) s else None)"
| "threadStep approx t (CallFossilCollect i gvt) s = (if t = 0 then Some (tt_fossilCollect i gvt s) else None)"

inductive threadsReachable :: "('t \<Rightarrow> int) \<Rightarrow> nat \<Rightarrow> ('t :: linorder) tset \<Rightarrow> bool"
  for approx :: "'t \<Rightarrow> int" and n :: nat where
  reach_start: "n > 0 \<Longrightarrow> threadsReachable approx n (ThreadedTimeWarpMultiSet n zeroTime)"
| reach_step: "threadsReachable approx n s \<Longrightarrow> threadStep approx t c s = Some s' \<Longrightarrow> threadsReachable approx n s'"

end
