(* ===== verification/ThreadedSchedule.thy ===== *)
theory ThreadedSchedule
  imports ThreadedEventSet
begin

text \<open>
  What the threads keep true of the shared event set, whatever the order of their steps: a
  lock belongs to the thread that stands where the lock is held, an object is in
  its schedule queue only while no thread works on it, and the event found there is the
  first of its unprocessed events.
\<close>

subsection \<open>What the threads hold\<close>

text \<open>The object a thread has locked, the schedule queue it is inside, the unprocessed events it must have locked.\<close>

fun objHeld :: "'t control \<Rightarrow> nat option" where
  "objHeld Idle = None"
| "objHeld PeekLocked = None"
| "objHeld (PeekReturns r) = r"
| "objHeld (Chosen i) = Some i"
| "objHeld (Rollback i _) = Some i"
| "objHeld (Coasting i _) = Some i"
| "objHeld (CoastExecuting i _) = Some i"
| "objHeld (CoastGetting i _) = Some i"
| "objHeld (Negatives i _ _) = Some i"
| "objHeld (Ready i) = Some i"
| "objHeld (Executing i) = Some i"
| "objHeld (Update i) = Some i"
| "objHeld (UpdateLocked i) = Some i"
| "objHeld (UpdateScheduling i) = Some i"
| "objHeld (UpdateReturning i) = None"
| "objHeld (UpdateEnding i) = None"
| "objHeld (Undefined i) = Some i"

fun controlQueue :: "nat \<Rightarrow> nat \<Rightarrow> 't control \<Rightarrow> nat option" where
  "controlQueue n t PeekLocked = Some ((t - 1) mod n)"
| "controlQueue n t (PeekReturns _) = Some ((t - 1) mod n)"
| "controlQueue n t (UpdateScheduling i) = Some (i mod n)"
| "controlQueue n t (UpdateReturning i) = Some (i mod n)"
| "controlQueue n t _ = None"

fun queueHeld :: "nat \<Rightarrow> nat \<Rightarrow> 't control \<Rightarrow> 't inserting \<Rightarrow> nat option" where
  "queueHeld n t c (InsertScheduling x) = Some (qObj x mod n)"
| "queueHeld n t c (InsertScheduled x) = Some (qObj x mod n)"
| "queueHeld n t c _ = controlQueue n t c"

fun controlUnprocessed :: "'t control \<Rightarrow> nat option" where
  "controlUnprocessed (UpdateLocked i) = Some i"
| "controlUnprocessed (UpdateScheduling i) = Some i"
| "controlUnprocessed (UpdateReturning i) = Some i"
| "controlUnprocessed (UpdateEnding i) = Some i"
| "controlUnprocessed _ = None"

fun insertUnprocessed :: "'t inserting \<Rightarrow> nat option" where
  "insertUnprocessed NotInserting = None"
| "insertUnprocessed (InsertCalled x) = None"
| "insertUnprocessed (InsertLocked x) = Some (qObj x)"
| "insertUnprocessed (InsertFirst x) = Some (qObj x)"
| "insertUnprocessed (InsertScheduling x) = Some (qObj x)"
| "insertUnprocessed (InsertScheduled x) = Some (qObj x)"
| "insertUnprocessed (InsertEnding x) = Some (qObj x)"

text \<open>An event that is first in its queue and on its way to the schedule queue.\<close>

fun arriving :: "'t inserting \<Rightarrow> 't qevent option" where
  "arriving (InsertFirst x) = Some x"
| "arriving (InsertScheduling x) = Some x"
| "arriving _ = None"

fun insertEvent_of :: "'t inserting \<Rightarrow> 't qevent option" where
  "insertEvent_of NotInserting = None"
| "insertEvent_of (InsertCalled x) = Some x"
| "insertEvent_of (InsertLocked x) = Some x"
| "insertEvent_of (InsertFirst x) = Some x"
| "insertEvent_of (InsertScheduling x) = Some x"
| "insertEvent_of (InsertScheduled x) = Some x"
| "insertEvent_of (InsertEnding x) = Some x"

fun control_ok :: "'t control \<Rightarrow> bool" where
  "control_ok (Rollback i x) \<longleftrightarrow> q_ok x \<and> qObj x = i"
| "control_ok (Coasting i x) \<longleftrightarrow> q_ok x \<and> qObj x = i"
| "control_ok (CoastExecuting i x) \<longleftrightarrow> q_ok x \<and> qObj x = i"
| "control_ok (CoastGetting i x) \<longleftrightarrow> q_ok x \<and> qObj x = i"
| "control_ok (Negatives i r ns) \<longleftrightarrow> r = i"
| "control_ok _ = True"

definition thread_ok :: "nat \<Rightarrow> 't control \<Rightarrow> 't inserting \<Rightarrow> bool" where
  "thread_ok t c p \<longleftrightarrow> control_ok c \<and> (\<forall>x. insertEvent_of p = Some x \<longrightarrow> q_ok x \<and> maySend t c)"

text \<open>The locks agree with where the threads stand.\<close>

definition locks_ok ::
  "nat \<Rightarrow> (nat \<Rightarrow> 't control) \<Rightarrow> (nat \<Rightarrow> 't inserting) \<Rightarrow> (nat \<Rightarrow> lockState) \<Rightarrow> (nat \<Rightarrow> lockState) \<Rightarrow> (nat \<Rightarrow> lockState) \<Rightarrow> bool" where
  "locks_ok n C P uL sL stat \<longleftrightarrow>
     (\<forall>t. thread_ok t (C t) (P t)) \<and>
     (\<forall>q t. sL q = Some t \<longleftrightarrow> queueHeld n t (C t) (P t) = Some q) \<and>
     (\<forall>i t. stat i = Some t \<longleftrightarrow> objHeld (C t) = Some i) \<and>
     (\<forall>i t. controlUnprocessed (C t) = Some i \<or> insertUnprocessed (P t) = Some i \<longrightarrow> uL i = Some t)"

lemma locks_okD:
  assumes "locks_ok n C P uL sL stat"
  shows "thread_ok t (C t) (P t)"
    and "sL q = Some t \<longleftrightarrow> queueHeld n t (C t) (P t) = Some q"
    and "stat i = Some t \<longleftrightarrow> objHeld (C t) = Some i"
    and "controlUnprocessed (C t) = Some i \<Longrightarrow> uL i = Some t"
    and "insertUnprocessed (P t) = Some i \<Longrightarrow> uL i = Some t"
  using assms unfolding locks_ok_def by blast+

text \<open>One thread moves: the locks of the others stay, its own locks follow it.\<close>

lemma locks_ok_move:
  assumes inv: "locks_ok n C P uL sL stat"
    and "\<And>q t'. t' \<noteq> t \<Longrightarrow> sL' q = Some t' \<longleftrightarrow> sL q = Some t'"
    and "\<And>q. sL' q = Some t \<longleftrightarrow> queueHeld n t c p = Some q"
    and "\<And>i t'. t' \<noteq> t \<Longrightarrow> stat' i = Some t' \<longleftrightarrow> stat i = Some t'"
    and "\<And>i. stat' i = Some t \<longleftrightarrow> objHeld c = Some i"
    and "\<And>i t'. t' \<noteq> t \<Longrightarrow> uL i = Some t' \<Longrightarrow> uL' i = Some t'"
    and "\<And>i. controlUnprocessed c = Some i \<or> insertUnprocessed p = Some i \<Longrightarrow> uL' i = Some t"
    and "thread_ok t c p"
  shows "locks_ok n (C(t := c)) (P(t := p)) uL' sL' stat'"
  unfolding locks_ok_def
proof (intro conjI allI)
  fix t' q i
  show "thread_ok t' ((C(t := c)) t') ((P(t := p)) t')"
    using locks_okD(1) [OF inv] assms(8) by simp
  show "sL' q = Some t' \<longleftrightarrow> queueHeld n t' ((C(t := c)) t') ((P(t := p)) t') = Some q"
    using locks_okD(2) [OF inv] assms(2,3) by (cases "t' = t") simp_all
  show "stat' i = Some t' \<longleftrightarrow> objHeld ((C(t := c)) t') = Some i"
    using locks_okD(3) [OF inv] assms(4,5) by (cases "t' = t") simp_all
  show "controlUnprocessed ((C(t := c)) t') = Some i \<or> insertUnprocessed ((P(t := p)) t') = Some i \<longrightarrow> uL' i = Some t'"
    using locks_okD(4,5) [OF inv] assms(6,7) by (cases "t' = t") auto
qed

subsection \<open>The schedule queues\<close>

definition sched_ok ::
  "nat \<Rightarrow> (nat \<Rightarrow> lockState) \<Rightarrow> (nat \<Rightarrow> iter) \<Rightarrow> (nat \<Rightarrow> ('t :: linorder) qevent omset) \<Rightarrow> bool" where
  "sched_ok n stat pos sq \<longleftrightarrow>
     (\<forall>q. ms_inv qLess (sq q)) \<and>
     (\<forall>q k x. ms_deref (sq q) (Some k) = Some x \<longrightarrow> qObj x mod n = q \<and> pos (qObj x) = Some k) \<and>
     (\<forall>i k. pos i = Some k \<longrightarrow> stat i = None \<and> (\<exists>x. ms_deref (sq (i mod n)) (Some k) = Some x \<and> qObj x = i))"

lemma sched_okD:
  assumes "sched_ok n stat pos sq"
  shows "ms_inv qLess (sq q)" and "ms_ids_ok (sq q)"
    and "ms_deref (sq q) (Some k) = Some x \<Longrightarrow> qObj x mod n = q"
    and "ms_deref (sq q) (Some k) = Some x \<Longrightarrow> pos (qObj x) = Some k"
    and "pos i = Some k \<Longrightarrow> stat i = None"
    and "pos i = Some k \<Longrightarrow> \<exists>x. ms_deref (sq (i mod n)) (Some k) = Some x \<and> qObj x = i"
  using assms unfolding sched_ok_def ms_inv_def by blast+

text \<open>Two objects never share a place of a queue.\<close>

lemma sched_ok_distinct:
  assumes ok: "sched_ok n stat pos sq" and "pos i = Some k" and "pos j = Some k" and "i mod n = j mod n"
  shows "i = j"
proof -
  obtain x where "ms_deref (sq (i mod n)) (Some k) = Some x" and "qObj x = i"
    using sched_okD(6) [OF ok assms(2)] by blast
  moreover obtain y where "ms_deref (sq (j mod n)) (Some k) = Some y" and "qObj y = j"
    using sched_okD(6) [OF ok assms(3)] by blast
  ultimately show ?thesis using assms(4) by simp
qed

definition others_same ::
  "nat \<Rightarrow> nat \<Rightarrow> (nat \<Rightarrow> iter) \<Rightarrow> (nat \<Rightarrow> 'a omset) \<Rightarrow> (nat \<Rightarrow> iter) \<Rightarrow> (nat \<Rightarrow> 'a omset) \<Rightarrow> bool" where
  "others_same n i pos sq pos' sq' \<longleftrightarrow>
     (\<forall>j. j \<noteq> i \<longrightarrow> ms_deref (sq' (j mod n)) (pos' j) = ms_deref (sq (j mod n)) (pos j))"

lemma sched_vacate:
  assumes ok: "sched_ok n stat pos sq" and at: "pos i = Some k"
    and er: "ms_erase (Some k) (sq (i mod n)) = Some m"
  shows "sched_ok n stat (pos(i := None)) (sq(i mod n := m))" (is ?ok)
    and "others_same n i pos sq (pos(i := None)) (sq(i mod n := m))" (is ?same)
proof -
  note d = ms_deref_erase [OF er sched_okD(2) [OF ok]]
  show ?same
    unfolding others_same_def
  proof (intro allI impI)
    fix j assume "j \<noteq> i"
    then have "pos j = Some k' \<Longrightarrow> j mod n = i mod n \<Longrightarrow> k' \<noteq> k" for k'
      using sched_ok_distinct [OF ok _ at] by blast
    then show "ms_deref ((sq(i mod n := m)) (j mod n)) ((pos(i := None)) j) = ms_deref (sq (j mod n)) (pos j)"
      using \<open>j \<noteq> i\<close> by (cases "pos j") (simp_all add: d)
  qed
  have inv: "ms_inv qLess m"
    by (rule q_order.ms_inv_erase [OF sched_okD(1) [OF ok] er])
  show ?ok
    unfolding sched_ok_def
  proof (intro conjI allI impI)
    fix q
    show "ms_inv qLess ((sq(i mod n := m)) q)" using inv sched_okD(1) [OF ok] by simp
  next
    fix q k' x
    assume a: "ms_deref ((sq(i mod n := m)) q) (Some k') = Some x"
    then have b: "ms_deref (sq q) (Some k') = Some x" and c: "q = i mod n \<Longrightarrow> k' \<noteq> k"
      by (simp_all add: d split: if_splits)
    show "qObj x mod n = q" by (rule sched_okD(3) [OF ok b])
    have "pos (qObj x) = Some k'" by (rule sched_okD(4) [OF ok b])
    then show "(pos(i := None)) (qObj x) = Some k'"
      using c at sched_okD(3) [OF ok b] by auto
  next
    fix j k'
    assume a: "(pos(i := None)) j = Some k'"
    then have j: "j \<noteq> i" and p: "pos j = Some k'" by (simp_all split: if_splits)
    show "stat j = None" by (rule sched_okD(5) [OF ok p])
    show "\<exists>x. ms_deref ((sq(i mod n := m)) (j mod n)) (Some k') = Some x \<and> qObj x = j"
      using sched_okD(6) [OF ok p] \<open>?same\<close> [unfolded others_same_def, rule_format, OF j] j p by simp
  qed
qed

lemma put_facts:
  assumes ok: "sched_ok n stat pos sq" and ins: "ms_insert qLess x (sq q) = (m, it)"
  shows "it = Some (nextNode (sq q))" and "ms_inv qLess m"
    and "ms_deref m (Some k) = (if k = nextNode (sq q) then Some x else ms_deref (sq q) (Some k))"
    and "ms_deref (sq q) (Some (nextNode (sq q))) = None"
proof -
  have m: "m = fst (ms_insert_at (upper_pos qLess x (sq q)) x (sq q))"
    using ins by (simp add: ms_insert_def ms_insert_at_def split: prod.splits)
  show "it = Some (nextNode (sq q))"
    using ins by (simp add: ms_insert_def ms_insert_at_def split: prod.splits)
  show "ms_deref m (Some k) = (if k = nextNode (sq q) then Some x else ms_deref (sq q) (Some k))"
    unfolding m by (rule ms_deref_insert_at [OF sched_okD(2) [OF ok]])
  show "ms_deref (sq q) (Some (nextNode (sq q))) = None"
    using ms_deref_ids [of "sq q" "nextNode (sq q)"] sched_okD(2) [OF ok, of q]
    by (cases "ms_deref (sq q) (Some (nextNode (sq q)))") (auto simp: ms_ids_ok_def)
  show "ms_inv qLess m"
    using q_order.ms_inv_insert [OF sched_okD(1) [OF ok], of x q] ins by simp
qed

lemma sched_put:
  assumes ok: "sched_ok n stat pos sq" and at: "pos i = None" and st: "stat i = None" and x: "qObj x = i"
    and ins: "ms_insert qLess x (sq (i mod n)) = (m, it)"
  shows "sched_ok n stat (pos(i := it)) (sq(i mod n := m))" (is ?ok)
    and "others_same n i pos sq (pos(i := it)) (sq(i mod n := m))" (is ?same)
    and "ms_deref m it = Some x"
proof -
  let ?q = "i mod n"
  note it = put_facts(1) [OF ok ins] and inv = put_facts(2) [OF ok ins] and d = put_facts(3) [OF ok ins]
    and fresh = put_facts(4) [OF ok ins]
  show "ms_deref m it = Some x" by (simp add: it d)
  have old: "pos j = Some k \<Longrightarrow> j mod n = ?q \<Longrightarrow> k \<noteq> nextNode (sq ?q)" for j k
    using sched_okD(6) [OF ok, of j k] fresh by auto
  show ?same
    unfolding others_same_def
  proof (intro allI impI)
    fix j assume "j \<noteq> i"
    then show "ms_deref ((sq(?q := m)) (j mod n)) ((pos(i := it)) j) = ms_deref (sq (j mod n)) (pos j)"
      using old by (cases "pos j") (simp_all add: d)
  qed
  show ?ok
    unfolding sched_ok_def
  proof (intro conjI allI impI)
    fix q
    show "ms_inv qLess ((sq(?q := m)) q)" using inv sched_okD(1) [OF ok] by simp
  next
    fix q k y
    assume a: "ms_deref ((sq(?q := m)) q) (Some k) = Some y"
    then have c: "(q = ?q \<and> k = nextNode (sq ?q) \<and> y = x) \<or> ms_deref (sq q) (Some k) = Some y"
      by (auto simp: d split: if_splits)
    then show "qObj y mod n = q" using x sched_okD(3) [OF ok] by blast
    show "(pos(i := it)) (qObj y) = Some k"
      using c x at it sched_okD(4) [OF ok, of q k y] by auto
  next
    fix j k
    assume a: "(pos(i := it)) j = Some k"
    show "stat j = None" using a st sched_okD(5) [OF ok] by (auto split: if_splits)
    show "\<exists>y. ms_deref ((sq(?q := m)) (j mod n)) (Some k) = Some y \<and> qObj y = j"
    proof (cases "j = i")
      case True
      with a it x show ?thesis by (simp add: d)
    next
      case False
      with a have p: "pos j = Some k" by simp
      from sched_okD(6) [OF ok p] \<open>?same\<close> [unfolded others_same_def, rule_format, OF False] False p
      show ?thesis by simp
    qed
  qed
qed

lemma sched_ok_stat: "sched_ok n stat pos sq \<Longrightarrow> pos i = None \<Longrightarrow> sched_ok n (stat(i := v)) pos sq"
  unfolding sched_ok_def by auto

lemma others_same_trans:
  "others_same n i pos sq pos' sq' \<Longrightarrow> others_same n i pos' sq' pos'' sq'' \<Longrightarrow> others_same n i pos sq pos'' sq''"
  by (simp add: others_same_def)

text \<open>The iterator of \<open>begin()\<close> belongs to the object of the first event.\<close>

lemma sched_front:
  assumes ok: "sched_ok n stat pos sq" and "ms_front (sq q) = Some x"
  shows "pos (qObj x) = ms_begin (sq q)" and "qObj x mod n = q" and "stat (qObj x) = None"
    and "\<exists>k. ms_begin (sq q) = Some k"
proof -
  obtain k where k: "ms_begin (sq q) = Some k"
    using assms(2) by (cases "ms_begin (sq q)") (auto simp: ms_begin_def ms_front_def split: list.splits)
  have d: "ms_deref (sq q) (Some k) = Some x"
    using assms(2) k ms_deref_begin [of "sq q"] by simp
  show "pos (qObj x) = ms_begin (sq q)" using sched_okD(4) [OF ok d] k by simp
  show "qObj x mod n = q" by (rule sched_okD(3) [OF ok d])
  show "stat (qObj x) = None" by (rule sched_okD(5) [OF ok sched_okD(4) [OF ok d]])
  show "\<exists>k. ms_begin (sq q) = Some k" using k by blast
qed

subsection \<open>The first events are scheduled\<close>

definition link_ok ::
  "nat \<Rightarrow> (nat \<Rightarrow> 't inserting) \<Rightarrow> (nat \<Rightarrow> ('t :: linorder) qevent omset) \<Rightarrow> (nat \<Rightarrow> lockState) \<Rightarrow> (nat \<Rightarrow> iter) \<Rightarrow>
   (nat \<Rightarrow> 't qevent omset) \<Rightarrow> bool" where
  "link_ok n P uq stat pos sq \<longleftrightarrow>
     (\<forall>i. stat i = None \<longrightarrow> (\<forall>t x. arriving (P t) = Some x \<longrightarrow> qObj x \<noteq> i) \<longrightarrow>
        ms_front (uq i) = ms_deref (sq (i mod n)) (pos i)) \<and>
     (\<forall>t x. arriving (P t) = Some x \<longrightarrow> stat (qObj x) = None \<longrightarrow> ms_front (uq (qObj x)) = Some x)"

lemma link_okD:
  assumes "link_ok n P uq stat pos sq"
  shows "stat i = None \<Longrightarrow> (\<And>t x. arriving (P t) = Some x \<Longrightarrow> qObj x \<noteq> i) \<Longrightarrow>
           ms_front (uq i) = ms_deref (sq (i mod n)) (pos i)"
    and "arriving (P t) = Some x \<Longrightarrow> stat (qObj x) = None \<Longrightarrow> ms_front (uq (qObj x)) = Some x"
  using assms unfolding link_ok_def by blast+

text \<open>A step that changes the queues of locked objects only, and lets no event arrive.\<close>

lemma link_ok_frame:
  assumes "link_ok n P uq stat pos sq" and "\<And>i. stat i = None \<Longrightarrow> uq' i = uq i"
    and "arriving p = arriving (P t)"
  shows "link_ok n (P(t := p)) uq' stat pos sq"
proof -
  have "arriving ((P(t := p)) t') = arriving (P t')" for t' using assms(3) by simp
  then show ?thesis using assms(1,2) unfolding link_ok_def by simp
qed

text \<open>The object \<open>i\<close> changes in the schedule: the others keep what they had.\<close>

lemma link_ok_change:
  assumes link: "link_ok n P uq stat pos sq" and same: "others_same n i pos sq pos' sq'"
    and i: "stat' i = None \<Longrightarrow> ms_front (uq i) = ms_deref (sq' (i mod n)) (pos' i)"
    and st: "\<And>j. j \<noteq> i \<Longrightarrow> stat' j = stat j"
    and arr: "\<And>t x. arriving (P' t) = Some x \<Longrightarrow> arriving (P t) = Some x"
    and kept: "\<And>t x. arriving (P t) = Some x \<Longrightarrow> qObj x \<noteq> i \<Longrightarrow> arriving (P' t) = Some x"
    and none: "stat' i = None \<Longrightarrow> (\<And>t x. arriving (P' t) = Some x \<Longrightarrow> qObj x \<noteq> i)"
  shows "link_ok n P' uq stat' pos' sq'"
  unfolding link_ok_def
proof (intro conjI allI impI)
  fix j
  assume s: "stat' j = None" and a: "\<forall>t x. arriving (P' t) = Some x \<longrightarrow> qObj x \<noteq> j"
  show "ms_front (uq j) = ms_deref (sq' (j mod n)) (pos' j)"
  proof (cases "j = i")
    case True
    with i s show ?thesis by simp
  next
    case False
    have "arriving (P t) = Some x \<Longrightarrow> qObj x \<noteq> j" for t x
      using a kept False by blast
    with link_okD(1) [OF link] same st False s show ?thesis
      unfolding others_same_def by metis
  qed
next
  fix t x
  assume a: "arriving (P' t) = Some x" and s: "stat' (qObj x) = None"
  with none have "qObj x \<noteq> i" by blast
  with st s have "stat (qObj x) = None" by simp
  with link_okD(2) [OF link arr [OF a]] show "ms_front (uq (qObj x)) = Some x" by simp
qed

text \<open>The queues of the objects.\<close>

definition queues_ok :: "(nat \<Rightarrow> ('t :: linorder) qevent omset) \<Rightarrow> (nat \<Rightarrow> 't qevent list) \<Rightarrow> bool" where
  "queues_ok uq pq \<longleftrightarrow>
     (\<forall>i. ms_inv qLess (uq i) \<and> (\<forall>x \<in> set (ms_vals (uq i)) \<union> set (pq i). q_ok x \<and> qObj x = i))"

lemma queues_ok_change:
  assumes "queues_ok uq pq" and "ms_inv qLess m"
    and "set (ms_vals m) \<union> set ps \<subseteq> set (ms_vals (uq i)) \<union> set (pq i)"
  shows "queues_ok (uq(i := m)) (pq(i := ps))"
  using assms unfolding queues_ok_def by (simp add: subset_iff) blast

lemma queues_ok_front:
  "queues_ok uq pq \<Longrightarrow> ms_front (uq i) = Some x \<Longrightarrow> q_ok x \<and> qObj x = i"
  unfolding queues_ok_def ms_deref_begin [symmetric] by (blast dest: ms_deref_in_vals)

subsection \<open>The invariant of the shared event set\<close>

definition schedules :: "'t tset \<Rightarrow> nat \<Rightarrow> 't qevent omset" where
  "schedules s q = scheduleQueue (LTSF s q)"

definition scheduleLocks :: "'t tset \<Rightarrow> nat \<Rightarrow> lockState" where
  "scheduleLocks s q = scheduleQueueLock (LTSF s q)"

definition positions :: "'t tset \<Rightarrow> nat \<Rightarrow> iter" where
  "positions s i = lowestObjectPosition (LTSF s (LTSFOwner s i)) (LTSFObjId s i)"

definition statusLocks :: "'t tset \<Rightarrow> nat \<Rightarrow> lockState" where
  "statusLocks s i = objectStatusLock (LTSF s (LTSFOwner s i)) (LTSFObjId s i)"

definition tset_inv :: "('t :: linorder) tset \<Rightarrow> bool" where
  "tset_inv s \<longleftrightarrow> LTSFCount s > 0 \<and>
     locks_ok (LTSFCount s) (control_of s) (inserting_of s) (unprocessedQueueLockState s) (scheduleLocks s) (statusLocks s) \<and>
     sched_ok (LTSFCount s) (statusLocks s) (positions s) (schedules s) \<and>
     link_ok (LTSFCount s) (inserting_of s) (unProcessedQueue s) (statusLocks s) (positions s) (schedules s) \<and>
     queues_ok (unProcessedQueue s) (processedQueue s)"

lemma tset_invD:
  assumes "tset_inv s"
  shows "LTSFCount s > 0"
    and "locks_ok (LTSFCount s) (control_of s) (inserting_of s) (unprocessedQueueLockState s) (scheduleLocks s) (statusLocks s)"
    and "sched_ok (LTSFCount s) (statusLocks s) (positions s) (schedules s)"
    and "link_ok (LTSFCount s) (inserting_of s) (unProcessedQueue s) (statusLocks s) (positions s) (schedules s)"
    and "queues_ok (unProcessedQueue s) (processedQueue s)"
  using assms by (simp_all add: tset_inv_def)

lemmas views = schedules_def scheduleLocks_def positions_def statusLocks_def LTSFOwner_def LTSFObjId_def

lemma views_cong:
  assumes "LTSFCount s' = LTSFCount s" and "LTSF s' = LTSF s"
  shows "schedules s' = schedules s" "scheduleLocks s' = scheduleLocks s" "positions s' = positions s"
    "statusLocks s' = statusLocks s"
  using assms by (simp_all add: fun_eq_iff views)

lemma tset_inv_init: "n > 0 \<Longrightarrow> tset_inv (ThreadedTimeWarpMultiSet n (z :: 't :: linorder))"
  by (simp add: tset_inv_def ThreadedTimeWarpMultiSet_def ThreadedTimeWarpMultiSetLTSF_def views locks_ok_def thread_ok_def
      sched_ok_def link_ok_def queues_ok_def ms_deref_Some ms_front_hd) (simp add: ms_empty_def)

lemma goto_simps [simp]:
  "LTSFCount (goto t c s) = LTSFCount s" "LTSF (goto t c s) = LTSF s"
  "control_of (goto t c s) = (control_of s)(t := c)" "inserting_of (goto t c s) = inserting_of s"
  "unProcessedQueue (goto t c s) = unProcessedQueue s" "processedQueue (goto t c s) = processedQueue s"
  "unprocessedQueueLockState (goto t c s) = unprocessedQueueLockState s"
  by (simp_all add: goto_def)

lemma insertGoto_simps [simp]:
  "LTSFCount (insertGoto t p s) = LTSFCount s" "LTSF (insertGoto t p s) = LTSF s"
  "control_of (insertGoto t p s) = control_of s" "inserting_of (insertGoto t p s) = (inserting_of s)(t := p)"
  "unProcessedQueue (insertGoto t p s) = unProcessedQueue s" "processedQueue (insertGoto t p s) = processedQueue s"
  "unprocessedQueueLockState (insertGoto t p s) = unprocessedQueueLockState s"
  by (simp_all add: insertGoto_def)

lemma onLTSF_simps [simp]:
  "LTSFCount (onLTSF q f s) = LTSFCount s" "LTSF (onLTSF q f s) = (LTSF s)(q := f (LTSF s q))"
  "control_of (onLTSF q f s) = control_of s" "inserting_of (onLTSF q f s) = inserting_of s"
  "unProcessedQueue (onLTSF q f s) = unProcessedQueue s" "processedQueue (onLTSF q f s) = processedQueue s"
  "unprocessedQueueLockState (onLTSF q f s) = unprocessedQueueLockState s"
  by (simp_all add: onLTSF_def)

text \<open>A step of thread \<open>t\<close> outside the schedule queues.\<close>

lemma step_outside:
  assumes inv: "tset_inv s" and n: "LTSFCount s' = LTSFCount s" and L: "LTSF s' = LTSF s"
    and C: "control_of s' = (control_of s)(t := c)" and P: "inserting_of s' = (inserting_of s)(t := p)"
    and o: "objHeld c = objHeld (control_of s t)"
    and q: "queueHeld (LTSFCount s) t c p = queueHeld (LTSFCount s) t (control_of s t) (inserting_of s t)"
    and a: "arriving p = arriving (inserting_of s t)" and ok: "thread_ok t c p"
    and u: "\<And>i t'. t' \<noteq> t \<Longrightarrow> unprocessedQueueLockState s i = Some t' \<Longrightarrow> unprocessedQueueLockState s' i = Some t'"
    and own: "\<And>i. controlUnprocessed c = Some i \<or> insertUnprocessed p = Some i \<Longrightarrow> unprocessedQueueLockState s' i = Some t"
    and uq: "\<And>i. objHeld (control_of s t) \<noteq> Some i \<Longrightarrow> unProcessedQueue s' i = unProcessedQueue s i"
    and queues: "queues_ok (unProcessedQueue s') (processedQueue s')"
  shows "tset_inv s'"
proof -
  note D = tset_invD [OF inv]
  have free: "statusLocks s i = None \<Longrightarrow> unProcessedQueue s' i = unProcessedQueue s i" for i
    using locks_okD(3) [OF D(2), of i t] uq by (metis option.distinct(1))
  have "locks_ok (LTSFCount s) ((control_of s)(t := c)) ((inserting_of s)(t := p)) (unprocessedQueueLockState s')
          (scheduleLocks s) (statusLocks s)"
    using locks_okD(2,3) [OF D(2)] o q u own ok by (intro locks_ok_move [OF D(2)]) simp_all
  moreover have "link_ok (LTSFCount s) ((inserting_of s)(t := p)) (unProcessedQueue s') (statusLocks s) (positions s) (schedules s)"
    by (rule link_ok_frame [OF D(4) free a])
  ultimately show ?thesis
    using D(1,3) queues by (simp add: tset_inv_def n C P views_cong [OF n L])
qed

subsection \<open>What the owner of an object changes\<close>

definition own_change :: "nat \<Rightarrow> nat \<Rightarrow> ('t :: linorder) tset \<Rightarrow> 't tset \<Rightarrow> bool" where
  "own_change t i s s' \<longleftrightarrow>
     LTSFCount s' = LTSFCount s \<and> LTSF s' = LTSF s \<and> control_of s' = control_of s \<and> inserting_of s' = inserting_of s \<and>
     (\<forall>j. j \<noteq> i \<longrightarrow> unProcessedQueue s' j = unProcessedQueue s j) \<and>
     (\<forall>j t'. t' \<noteq> t \<longrightarrow> unprocessedQueueLockState s j = Some t' \<longrightarrow> unprocessedQueueLockState s' j = Some t') \<and>
     (queues_ok (unProcessedQueue s) (processedQueue s) \<longrightarrow> queues_ok (unProcessedQueue s') (processedQueue s'))"

lemma own_change_refl: "own_change t i s s"
  by (simp add: own_change_def)

lemma own_change_trans: "own_change t i s s1 \<Longrightarrow> own_change t i s1 s2 \<Longrightarrow> own_change t i s s2"
  unfolding own_change_def by simp

lemma own_get: "getunProcessedLock t i s = Some s1 \<Longrightarrow> own_change t i s s1"
  by (auto simp: getunProcessedLock_def own_change_def setLock_Some split: bind_splits)

lemma getunProcessedLock_own: "getunProcessedLock t i s = Some s1 \<Longrightarrow> unprocessedQueueLockState s1 i = Some t"
  by (auto simp: getunProcessedLock_def setLock_Some split: bind_splits)

lemma own_release: "own_change t i s (releaseunProcessedLock t i s)"
  by (auto simp: releaseunProcessedLock_def own_change_def releaseLock_other)

lemma own_time: "own_change t i s (tt_setSimulationTime j v s)"
  by (simp add: tt_setSimulationTime_def own_change_def)

lemma popUnprocessed_erase:
  "popUnprocessed i s = Some s1 \<Longrightarrow> \<exists>m. ms_erase (ms_begin (unProcessedQueue s i)) (unProcessedQueue s i) = Some m
     \<and> s1 = s\<lparr>unProcessedQueue := (unProcessedQueue s)(i := m)\<rparr>"
  by (auto simp: popUnprocessed_def split: bind_splits)

lemma ms_erase_subset: "ms_erase it m = Some m' \<Longrightarrow> set (ms_vals m') \<subseteq> set (ms_vals m)"
  using set_remove_first_subset [of "\<lambda>x. fst x = the it" "nodes m"]
  by (cases it) (auto simp: ms_vals_def ms_erase_def split: if_splits)

lemma queues_ok_erase:
  assumes ok: "queues_ok uq pq" and er: "ms_erase it (uq i) = Some m" and "set ps \<subseteq> set (ms_vals (uq i)) \<union> set (pq i)"
  shows "queues_ok (uq(i := m)) (pq(i := ps))"
proof (rule queues_ok_change [OF ok])
  show "ms_inv qLess m"
    using ok by (intro q_order.ms_inv_erase [OF _ er]) (simp add: queues_ok_def)
  show "set (ms_vals m) \<union> set ps \<subseteq> set (ms_vals (uq i)) \<union> set (pq i)"
    using ms_erase_subset [OF er] assms(3) by blast
qed

lemma own_pop: "popUnprocessed i s = Some s1 \<Longrightarrow> own_change t i s s1"
  using queues_ok_erase [of "unProcessedQueue s" "processedQueue s" _ i _ "processedQueue s i"]
  by (auto simp: own_change_def dest!: popUnprocessed_erase)

lemma own_pop_push:
  assumes "popUnprocessed i s = Some s1" and "ms_front (unProcessedQueue s i) = Some x"
  shows "own_change t i s (pushProcessed i x s1)"
proof -
  have "x \<in> set (ms_vals (unProcessedQueue s i))"
    using assms(2) ms_deref_in_vals [of "unProcessedQueue s i" "ms_begin (unProcessedQueue s i)"] by simp
  then show ?thesis
    using assms(1) queues_ok_erase [of "unProcessedQueue s" "processedQueue s" _ i _ "processedQueue s i @ [x]"]
    by (auto simp: own_change_def pushProcessed_def dest!: popUnprocessed_erase)
qed

lemma push_release: "pushProcessed i x (releaseunProcessedLock t i s) = releaseunProcessedLock t i (pushProcessed i x s)"
  by (simp add: pushProcessed_def releaseunProcessedLock_def)

lemmas own_intros = own_change_refl own_release own_time own_get own_pop own_pop_push

lemma own_getEventIfStraggler:
  "getEventIfStraggler t i s = Some (s', r) \<Longrightarrow> own_change t i s s'"
  unfolding getEventIfStraggler_def
  by (auto split: bind_splits option.splits if_splits intro: own_intros own_change_trans [OF own_get])

lemma own_peekEventLockUnprocessed:
  "peekEventLockUnprocessed t i s = Some (s', r) \<Longrightarrow> own_change t i s s'"
  unfolding peekEventLockUnprocessed_def
  by (auto split: bind_splits option.splits if_splits intro: own_intros own_change_trans [OF own_get])

lemma own_getEvent: "tt_getEvent t i s = Some (s', r) \<Longrightarrow> own_change t i s s'"
  unfolding tt_getEvent_def push_release
  by (auto split: bind_splits option.splits if_splits dest: sym
      intro: own_intros own_change_trans [OF own_get]
        own_change_trans [OF own_get own_change_trans [OF own_pop_push own_release]])

lemma own_getEventWhileRollback: "getEventWhileRollback t i s = Some (s', r) \<Longrightarrow> own_change t i s s'"
  unfolding getEventWhileRollback_def
  by (auto split: bind_splits option.splits if_splits intro: own_intros)

lemma own_handleAntiMessage: "tt_handleAntiMessage t i ne s = Some (s', r) \<Longrightarrow> own_change t i s s'"
proof -
  have "own_change t i s1 (s1\<lparr>unProcessedQueue := (unProcessedQueue s1)(i := m), removedEventQueue := rq\<rparr>)"
    if "ms_erase (Some it) (unProcessedQueue s1 i) = Some m" for s1 it m rq
    using that queues_ok_erase [of "unProcessedQueue s1" "processedQueue s1" _ i _ "processedQueue s1 i"]
    by (auto simp: own_change_def)
  note rm = this
  assume "tt_handleAntiMessage t i ne s = Some (s', r)"
  then show ?thesis
    unfolding tt_handleAntiMessage_def
    by (auto split: bind_splits option.splits prod.splits
        intro: own_change_trans [OF own_get own_release] own_change_trans [OF own_get own_change_trans [OF rm own_release]])
qed

lemma own_rollback: "own_change t i s (tt_rollback approx i r eid sid s)"
proof -
  let ?u = "undoneEvents approx r eid sid (processedQueue s i)"
  have u: "set ?u \<subseteq> set (processedQueue s i)"
    by (auto simp: undoneEvents_def dest!: set_dropWhileD)
  have v: "set (ms_vals (ms_insert_range qLess ?u (unProcessedQueue s i))) = set ?u \<union> set (ms_vals (unProcessedQueue s i))"
    by (metis mset_ms_insert_range set_mset_mset set_mset_union)
  have "queues_ok (unProcessedQueue s) (processedQueue s) \<Longrightarrow>
     queues_ok ((unProcessedQueue s)(i := ms_insert_range qLess ?u (unProcessedQueue s i)))
       ((processedQueue s)(i := take (length (processedQueue s i) - length ?u) (processedQueue s i)))"
    using u by (intro queues_ok_change)
      (auto simp: v queues_ok_def q_order.ms_inv_insert_range dest: in_set_takeD)
  then show ?thesis
    by (auto simp: own_change_def tt_rollback_def Let_def)
qed

subsection \<open>The steps keep the invariant\<close>

lemma isInserting_iff: "\<not> isInserting p \<longleftrightarrow> p = NotInserting"
  by (cases p) (simp_all add: isInserting_def)

lemma thread_ok_outside: "thread_ok t c NotInserting \<longleftrightarrow> control_ok c"
  by (simp add: thread_ok_def)

lemma step_own:
  assumes inv: "tset_inv s" and own: "own_change t i s s1" and idle: "\<not> isInserting (inserting_of s t)"
    and held: "objHeld (control_of s t) = Some i" "objHeld c = Some i"
    and out: "controlQueue (LTSFCount s) t (control_of s t) = None" "controlQueue (LTSFCount s) t c = None"
    and c: "control_ok c" "\<And>j. controlUnprocessed c = Some j \<Longrightarrow> unprocessedQueueLockState s1 j = Some t"
  shows "tset_inv (goto t c s1)"
proof -
  have p: "inserting_of s t = NotInserting" using idle by (simp add: isInserting_iff)
  have P: "inserting_of (goto t c s1) = (inserting_of s)(t := NotInserting)"
    using own p by (simp add: own_change_def fun_upd_idem)
  show ?thesis
  proof (rule step_outside [OF inv _ _ _ P])
    show "queues_ok (unProcessedQueue (goto t c s1)) (processedQueue (goto t c s1))"
      using own tset_invD(5) [OF inv] by (simp add: own_change_def)
  qed (use own held out c p in \<open>simp_all add: own_change_def thread_ok_outside\<close>)
qed

definition at_work :: "nat \<Rightarrow> 't control \<Rightarrow> bool" where
  "at_work i c \<longleftrightarrow> objHeld c = Some i \<and> (\<forall>n t. controlQueue n t c = None) \<and> control_ok c \<and> controlUnprocessed c = None"

lemma step_work:
  assumes "tset_inv s" and "\<not> isInserting (inserting_of s t)" and "own_change t i s s1"
    and "at_work i (control_of s t)" and "at_work i c"
  shows "tset_inv (goto t c s1)"
  using assms(4,5) by (intro step_own [OF assms(1,3,2)]) (simp_all add: at_work_def)

lemma at_work_intros:
  "at_work i (Chosen i)" "at_work i (Ready i)" "at_work i (Executing i)" "at_work i (Update i)" "at_work i (Undefined i)"
  "at_work i (Negatives i i ns)"
  "q_ok x \<Longrightarrow> qObj x = i \<Longrightarrow> at_work i (Rollback i x)" "q_ok x \<Longrightarrow> qObj x = i \<Longrightarrow> at_work i (Coasting i x)"
  "q_ok x \<Longrightarrow> qObj x = i \<Longrightarrow> at_work i (CoastExecuting i x)"
  "q_ok x \<Longrightarrow> qObj x = i \<Longrightarrow> at_work i (CoastGetting i x)"
  by (simp_all add: at_work_def)

lemma control_ok_at: "tset_inv s \<Longrightarrow> control_ok (control_of s t)"
  using locks_okD(1) [OF tset_invD(2), of s t] by (simp add: thread_ok_def)

lemma step_work_stay:
  assumes "tset_inv s" and "\<not> isInserting (inserting_of s t)" and "own_change t i s s1" and "at_work i (control_of s t)"
  shows "tset_inv s1"
proof -
  have "goto t (control_of s t) s1 = s1"
    using assms(3) by (simp add: goto_def own_change_def fun_upd_idem)
  then show ?thesis using step_work [OF assms assms(4)] by simp
qed

lemma at_work_control:
  assumes "tset_inv s"
  shows "control_of s t = Rollback i x \<Longrightarrow> at_work i (control_of s t)"
    and "control_of s t = Coasting i x \<Longrightarrow> at_work i (control_of s t)"
    and "control_of s t = CoastExecuting i x \<Longrightarrow> at_work i (control_of s t)"
    and "control_of s t = CoastGetting i x \<Longrightarrow> at_work i (control_of s t)"
    and "control_of s t = Negatives i r ns \<Longrightarrow> at_work i (control_of s t)"
  using control_ok_at [OF assms, of t] by (auto simp: at_work_def)

lemma getEventIfStraggler_front:
  "getEventIfStraggler t i s = Some (s', Some x) \<Longrightarrow> ms_front (unProcessedQueue s i) = Some x"
  unfolding getEventIfStraggler_def
  by (auto simp: getunProcessedLock_def split: bind_splits option.splits if_splits)

lemma inv_checkStraggler:
  assumes inv: "tset_inv s" and idle: "\<not> isInserting (inserting_of s t)" and c: "control_of s t = Chosen i"
    and step: "checkStraggler t i s = Some s'"
  shows "tset_inv s'"
proof -
  obtain s1 r where g: "getEventIfStraggler t i s = Some (s1, r)"
    using step by (auto simp: checkStraggler_def split: bind_splits)
  have ok: "q_ok x" "qObj x = i" if "r = Some x" for x
    using queues_ok_front [OF tset_invD(5) [OF inv] getEventIfStraggler_front] g that by blast+
  have "at_work i (control_of s t)" by (simp add: c at_work_intros)
  note go = step_work [OF inv idle own_getEventIfStraggler [OF g] this]
  show ?thesis
  proof (cases r)
    case None
    then show ?thesis using step g go [OF at_work_intros(2)] by (simp add: checkStraggler_def)
  next
    case (Some x)
    show ?thesis
    proof (cases x)
      case (PositiveEvent e)
      then show ?thesis
        using step g Some go [OF at_work_intros(7) [OF ok [OF Some]]] by (simp add: checkStraggler_def)
    next
      case (StragglerEvent e ns)
      then have "cancelTarget ns = i" using ok [OF Some] q_ok_target by blast
      with StragglerEvent show ?thesis
        using step g Some go [OF at_work_intros(7) [OF ok [OF Some]]] go [OF at_work_intros(6), of ns]
        by (simp add: checkStraggler_def split: if_splits)
    qed
  qed
qed

lemma inv_restore:
  assumes inv: "tset_inv s" and "\<not> isInserting (inserting_of s t)" and c: "control_of s t = Rollback i x"
  shows "tset_inv (restore approx t i x r eid sid s)"
  unfolding restore_def
  using control_ok_at [OF inv, of t] c
  by (intro step_work [OF assms(1,2) own_change_trans [OF own_time own_rollback]] at_work_control(1) [OF inv c] at_work_intros)
    simp_all

lemma inv_coastPeek:
  assumes inv: "tset_inv s" and "\<not> isInserting (inserting_of s t)" and c: "control_of s t = Coasting i x"
    and step: "coastPeek t i x s = Some s'"
  shows "tset_inv s'"
proof -
  have ok: "q_ok x" "qObj x = i" using control_ok_at [OF inv, of t] c by simp_all
  have after: "at_work i (afterRollback i x)"
    using ok q_ok_target by (cases x) (auto simp: afterRollback_def at_work_def)
  note go = step_work [OF assms(1,2) _ at_work_control(2) [OF inv c]]
  obtain r where "tt_peekEvent_before t i (qTime x) s = Some r"
    using step by (auto simp: coastPeek_def split: bind_splits)
  then show ?thesis
    using step go [OF own_change_refl at_work_intros(5)] go [OF own_release after]
      go [OF own_time at_work_intros(9) [OF ok]]
    by (auto simp: coastPeek_def split: option.splits)
qed

lemma inv_coastGet:
  assumes inv: "tset_inv s" and "\<not> isInserting (inserting_of s t)" and c: "control_of s t = CoastExecuting i x"
    and step: "coastGet t i x s = Some s'"
  shows "tset_inv s'"
proof -
  have ok: "q_ok x" "qObj x = i" using control_ok_at [OF inv, of t] c by simp_all
  note go = step_work [OF assms(1,2) own_change_refl at_work_control(3) [OF inv c]]
  show ?thesis
    using step inv go [OF at_work_intros(5)] go [OF at_work_intros(10) [OF ok]]
    by (auto simp: coastGet_def split: bind_splits option.splits)
qed

lemma inv_coastPop:
  assumes inv: "tset_inv s" and "\<not> isInserting (inserting_of s t)" and c: "control_of s t = CoastGetting i x"
    and step: "coastPop t i x s = Some s'"
  shows "tset_inv s'"
proof -
  have ok: "q_ok x" "qObj x = i" using control_ok_at [OF inv, of t] c by simp_all
  obtain s1 r where g: "getEventWhileRollback t i s = Some (s1, r)" and s': "s' = goto t (CoastExecuting i x) s1"
    using step by (auto simp: coastPop_def)
  show ?thesis
    unfolding s'
    by (rule step_work [OF assms(1,2) own_getEventWhileRollback [OF g] at_work_control(4) [OF inv c] at_work_intros(9) [OF ok]])
qed

lemma inv_executeNext:
  assumes inv: "tset_inv s" and "\<not> isInserting (inserting_of s t)" and c: "control_of s t = Ready i"
    and step: "executeNext t i s = Some s'"
  shows "tset_inv s'"
proof -
  obtain s1 r where g: "peekEventLockUnprocessed t i s = Some (s1, r)"
    using step by (auto simp: executeNext_def split: bind_splits)
  note own = own_peekEventLockUnprocessed [OF g]
  have w: "at_work i (control_of s t)" by (simp add: c at_work_intros)
  show ?thesis
    using step g step_work [OF assms(1,2) own w at_work_intros(4)]
      step_work [OF assms(1,2) own_change_trans [OF own own_time] w at_work_intros(3)]
    by (auto simp: executeNext_def split: option.splits)
qed

lemma inv_executeGet:
  assumes inv: "tset_inv s" and "\<not> isInserting (inserting_of s t)" and c: "control_of s t = Executing i"
    and step: "executeGet t i s = Some s'"
  shows "tset_inv s'"
proof -
  obtain r where "tt_getEvent t i s = Some (s', r)"
    using step by (auto simp: executeGet_def)
  from step_work_stay [OF assms(1,2) own_getEvent [OF this]] show ?thesis by (simp add: c at_work_intros)
qed

lemma inv_cancelNext:
  assumes inv: "tset_inv s" and "\<not> isInserting (inserting_of s t)" and c: "control_of s t = Negatives i r ns"
    and step: "cancelNext t i r ns s = Some s'"
  shows "tset_inv s'"
proof (cases ns)
  case Nil
  then show ?thesis
    using step step_work [OF assms(1,2) own_change_refl at_work_control(5) [OF inv c] at_work_intros(4)]
    by (simp add: cancelNext_def)
next
  case (Cons a as)
  have r: "r = i" using control_ok_at [OF inv, of t] c by simp
  obtain s1 b where g: "tt_handleAntiMessage t i a s = Some (s1, b)" "s' = goto t (Negatives i i as) s1"
    using step Cons r by (auto simp: cancelNext_def split: bind_splits if_splits)
  show ?thesis
    unfolding g(2)
    by (rule step_work [OF assms(1,2) own_handleAntiMessage [OF g(1)] at_work_control(5) [OF inv c] at_work_intros(6)])
qed

lemma inv_updateLockUnprocessed:
  assumes inv: "tset_inv s" and "\<not> isInserting (inserting_of s t)" and c: "control_of s t = Update i"
    and step: "updateLockUnprocessed t i s = Some s'"
  shows "tset_inv s'"
proof -
  obtain s1 where g: "getunProcessedLock t i s = Some s1"
    using step by (auto simp: updateLockUnprocessed_def split: bind_splits)
  have count: "own_change t i s1 (s1\<lparr>committedEventsByObj := a, committedEventsByLTSF := b\<rparr>)" for a b
    by (simp add: own_change_def)
  have "tset_inv (goto t (UpdateLocked i) (s1\<lparr>committedEventsByObj := a, committedEventsByLTSF := b\<rparr>))" for a b
    using getunProcessedLock_own [OF g]
    by (intro step_own [OF inv own_change_trans [OF own_get [OF g] count] assms(2)]) (simp_all add: c)
  with step g show ?thesis by (auto simp: updateLockUnprocessed_def)
qed

text \<open>The steps of \<open>insert\<close> and the ends of the loops, outside the schedule queues.\<close>

lemma thread_ok_at: "tset_inv s \<Longrightarrow> thread_ok t (control_of s t) (inserting_of s t)"
  using locks_okD(1) [OF tset_invD(2), of s t] by simp

text \<open>A thread that inserts has no lock of its own besides those of \<open>insert\<close>.\<close>

lemma maySend_outside: "maySend t c \<Longrightarrow> controlQueue n t c = None \<and> controlUnprocessed c = None"
  by (cases c) auto

lemma inv_callInsert:
  assumes inv: "tset_inv s" and idle: "\<not> isInserting (inserting_of s t)" and m: "maySend t (control_of s t)" and x: "q_ok x"
  shows "tset_inv (insertGoto t (InsertCalled x) s)"
proof -
  have p: "inserting_of s t = NotInserting" using idle by (simp add: isInserting_iff)
  show ?thesis
    using tset_invD(5) [OF inv] thread_ok_at [OF inv, of t] maySend_outside [OF m] m p x
    by (intro step_outside [OF inv, where t = t and c = "control_of s t" and p = "InsertCalled x"])
      (simp_all add: thread_ok_def)
qed

lemma inv_insertLock:
  assumes inv: "tset_inv s" and c: "inserting_of s t = InsertCalled x" and step: "insertLock t x s = Some s'"
  shows "tset_inv s'"
proof -
  obtain s1 where g: "getunProcessedLock t (qObj x) s = Some s1" and s': "s' = insertGoto t (InsertLocked x) s1"
    using step by (auto simp: insertLock_def)
  have ok: "thread_ok t (control_of s t) (InsertLocked x)" and m: "maySend t (control_of s t)"
    using thread_ok_at [OF inv, of t] c by (simp_all add: thread_ok_def)
  show ?thesis
  proof (rule step_outside [OF inv, where t = t and c = "control_of s t" and p = "InsertLocked x"])
    show "queues_ok (unProcessedQueue s') (processedQueue s')"
      using g s' tset_invD(5) [OF inv] by (auto simp: getunProcessedLock_def split: bind_splits)
  qed (use g s' c ok maySend_outside [OF m] in
      \<open>auto simp: getunProcessedLock_def setLock_Some split: bind_splits\<close>)
qed

lemma inv_insertUnlock:
  assumes inv: "tset_inv s" and c: "inserting_of s t = InsertEnding x"
  shows "tset_inv (insertUnlock t x s)"
proof -
  have ok: "thread_ok t (control_of s t) NotInserting" and m: "maySend t (control_of s t)"
    using thread_ok_at [OF inv, of t] c by (simp_all add: thread_ok_def)
  show ?thesis
    unfolding insertUnlock_def
    using tset_invD(5) [OF inv] ok maySend_outside [OF m] c
    by (intro step_outside [OF inv, where t = t and c = "control_of s t" and p = NotInserting])
      (auto simp: releaseunProcessedLock_def releaseLock_other)
qed

lemma inv_updateUnlockUnprocessed:
  assumes inv: "tset_inv s" and "\<not> isInserting (inserting_of s t)" and c: "control_of s t = UpdateEnding i"
  shows "tset_inv (updateUnlockUnprocessed t i s)"
proof -
  have p: "inserting_of s t = NotInserting" using assms(2) by (simp add: isInserting_iff)
  show ?thesis
    unfolding updateUnlockUnprocessed_def
    using tset_invD(5) [OF inv] c p
    by (intro step_outside [OF inv, where t = t and c = Idle and p = NotInserting])
      (auto simp: releaseunProcessedLock_def releaseLock_other thread_ok_def fun_upd_idem)
qed

text \<open>Reclaiming events only shortens the lists of processed and removed events.\<close>

lemma inv_processed:
  assumes inv: "tset_inv s" and sub: "set ps \<subseteq> set (processedQueue s i)"
  shows "tset_inv (s\<lparr>processedQueue := (processedQueue s)(i := ps), removedEventQueue := rs\<rparr>)" (is "tset_inv ?s'")
proof -
  have "queues_ok (unProcessedQueue s) ((processedQueue s)(i := ps))"
    using tset_invD(5) [OF inv] sub by (auto simp: queues_ok_def)
  then show ?thesis
    using inv views_cong [of ?s' s] by (simp add: tset_inv_def)
qed

lemma inv_fossilCollect:
  assumes "tset_inv s"
  shows "tset_inv (tt_fossilCollect i gvt s)" and "tset_inv (tt_fossilCollect_int approx i g s)"
  unfolding tt_fossilCollect_def tt_fossilCollect_int_def
  by (intro inv_processed [OF assms]; auto dest: set_dropWhileD)+

lemma inv_fossilCollect_event:
  assumes "tset_inv s"
  shows "tset_inv (tt_fossilCollect_event e s)"
proof -
  have keep: "s\<lparr>processedQueue := q, removedEventQueue := removedEventQueue s\<rparr> = s\<lparr>processedQueue := q\<rparr>" for q by simp
  have "tset_inv (s\<lparr>processedQueue := (processedQueue s)(i := remove_first P (processedQueue s i))\<rparr>)" for i P
    using inv_processed [OF assms set_remove_first_subset [of P "processedQueue s i"], where rs = "removedEventQueue s"]
    by (simp only: keep)
  then show ?thesis
    using inv_processed [OF assms subset_refl] by (simp add: tt_fossilCollect_event_def Let_def)
qed

subsection \<open>Entering and leaving a schedule queue\<close>

lemma views_lock:
  assumes "LTSFCount s' = LTSFCount s" and "LTSF s' = (LTSF s)(q := (LTSF s q)\<lparr>scheduleQueueLock := l\<rparr>)"
  shows "schedules s' = schedules s" "scheduleLocks s' = (scheduleLocks s)(q := l)" "positions s' = positions s"
    "statusLocks s' = statusLocks s"
  using assms by (simp_all add: fun_eq_iff views)

lemma step_lock:
  assumes inv: "tset_inv s" and n: "LTSFCount s' = LTSFCount s"
    and L: "LTSF s' = (LTSF s)(q := (LTSF s q)\<lparr>scheduleQueueLock := l\<rparr>)"
    and C: "control_of s' = (control_of s)(t := c)" and P: "inserting_of s' = (inserting_of s)(t := p)"
    and U: "unprocessedQueueLockState s' = unprocessedQueueLockState s"
    and Q: "unProcessedQueue s' = unProcessedQueue s" "processedQueue s' = processedQueue s"
    and o: "objHeld c = objHeld (control_of s t)" and a: "arriving p = arriving (inserting_of s t)" and ok: "thread_ok t c p"
    and own: "\<And>i. controlUnprocessed c = Some i \<or> insertUnprocessed p = Some i \<Longrightarrow> unprocessedQueueLockState s i = Some t"
    and q: "\<And>q'. ((scheduleLocks s)(q := l)) q' = Some t \<longleftrightarrow> queueHeld (LTSFCount s) t c p = Some q'"
    and l: "\<And>t'. t' \<noteq> t \<Longrightarrow> l = Some t' \<longleftrightarrow> scheduleLocks s q = Some t'"
  shows "tset_inv s'"
proof -
  note D = tset_invD [OF inv]
  have "locks_ok (LTSFCount s) ((control_of s)(t := c)) ((inserting_of s)(t := p)) (unprocessedQueueLockState s)
          ((scheduleLocks s)(q := l)) (statusLocks s)"
    using locks_okD(3) [OF D(2)] o own ok q l by (intro locks_ok_move [OF D(2)]) simp_all
  moreover have "link_ok (LTSFCount s) ((inserting_of s)(t := p)) (unProcessedQueue s) (statusLocks s) (positions s) (schedules s)"
    by (rule link_ok_frame [OF D(4) refl a])
  ultimately show ?thesis
    using D(1,3,5) by (simp add: tset_inv_def n C P U Q views_lock [OF n L])
qed

lemma getScheduleQueueLock_Some:
  "getScheduleQueueLock t L = Some L' \<Longrightarrow>
     L' = L\<lparr>scheduleQueueLock := Some t\<rparr> \<and> (scheduleQueueLock L = None \<or> scheduleQueueLock L = Some t)"
  by (auto simp: getScheduleQueueLock_def setLock_Some split: bind_splits)

text \<open>A thread outside the schedule queues that enters queue \<open>q\<close>, and a thread that leaves the queue it is in.\<close>

lemma lock_enter:
  assumes inv: "tset_inv s" and out: "queueHeld (LTSFCount s) t (control_of s t) (inserting_of s t) = None"
    and g: "getScheduleQueueLock t (LTSF s q) = Some L"
  shows "((scheduleLocks s)(q := Some t)) q' = Some t \<longleftrightarrow> q = q'"
    and "t' \<noteq> t \<Longrightarrow> Some t = Some t' \<longleftrightarrow> scheduleLocks s q = Some t'"
  using getScheduleQueueLock_Some [OF g] locks_okD(2) [OF tset_invD(2) [OF inv], of _ t] out
  by (auto simp: scheduleLocks_def)

lemma lock_leave:
  assumes inv: "tset_inv s" and ins: "queueHeld (LTSFCount s) t (control_of s t) (inserting_of s t) = Some q"
  shows "((scheduleLocks s)(q := releaseLock t (scheduleLocks s q))) q' = Some t \<longleftrightarrow> False"
    and "t' \<noteq> t \<Longrightarrow> releaseLock t (scheduleLocks s q) = Some t' \<longleftrightarrow> scheduleLocks s q = Some t'"
proof -
  have at: "scheduleLocks s r = Some t \<longleftrightarrow> q = r" for r
    using locks_okD(2) [OF tset_invD(2) [OF inv], of r t] ins by simp
  then have own: "scheduleLocks s q = Some t" by simp
  show "((scheduleLocks s)(q := releaseLock t (scheduleLocks s q))) q' = Some t \<longleftrightarrow> False"
    using at by (simp add: own)
  show "t' \<noteq> t \<Longrightarrow> releaseLock t (scheduleLocks s q) = Some t' \<longleftrightarrow> scheduleLocks s q = Some t'"
    by (simp add: own)
qed

lemma inv_peekLock:
  assumes inv: "tset_inv s" and idle: "\<not> isInserting (inserting_of s t)" and c: "control_of s t = Idle"
    and step: "peekLock t s = Some s'"
  shows "tset_inv s'"
proof -
  let ?q = "(t - 1) mod LTSFCount s"
  have p: "inserting_of s t = NotInserting" using idle by (simp add: isInserting_iff)
  obtain L where g: "getScheduleQueueLock t (LTSF s ?q) = Some L" and s': "s' = goto t PeekLocked (onLTSF ?q (\<lambda>_. L) s)"
    using step by (auto simp: peekLock_def LTSFByThread_def Let_def split: bind_splits)
  note e = lock_enter [OF inv _ g]
  show ?thesis
    using getScheduleQueueLock_Some [OF g] c p e
    by (intro step_lock [OF inv, where q = ?q and l = "Some t" and t = t and c = PeekLocked and p = NotInserting])
      (simp_all add: s' fun_upd_idem thread_ok_def)
qed

lemma inv_peekUnlock:
  assumes inv: "tset_inv s" and idle: "\<not> isInserting (inserting_of s t)" and c: "control_of s t = PeekReturns r"
  shows "tset_inv (peekUnlock t r s)"
proof -
  let ?q = "(t - 1) mod LTSFCount s"
  have p: "inserting_of s t = NotInserting" using idle by (simp add: isInserting_iff)
  obtain k where k: "peekUnlock t r s = goto t k (onLTSF ?q (releaseScheduleQueueLock t) s)"
    and kr: "k = (case r of None \<Rightarrow> Idle | Some i \<Rightarrow> Chosen i)"
    by (simp add: peekUnlock_def LTSFByThread_def)
  have c': "objHeld k = r" "controlQueue n t k = None" "control_ok k" "controlUnprocessed k = None" for n
    by (simp_all add: kr split: option.split)
  have e: "((scheduleLocks s)(?q := releaseLock t (scheduleLocks s ?q))) q' = Some t \<longleftrightarrow> False"
    "t' \<noteq> t \<Longrightarrow> releaseLock t (scheduleLocks s ?q) = Some t' \<longleftrightarrow> scheduleLocks s ?q = Some t'" for q' t'
    using lock_leave [OF inv, of t ?q] c p by simp_all
  show ?thesis
    unfolding k
    using c p c' e
    by (intro step_lock [OF inv, where q = ?q and l = "releaseLock t (scheduleLocks s ?q)" and t = t and c = k and p = NotInserting])
      (simp_all add: fun_upd_idem thread_ok_def releaseScheduleQueueLock_def scheduleLocks_def)
qed

lemma inv_updateLockSchedule:
  assumes inv: "tset_inv s" and idle: "\<not> isInserting (inserting_of s t)" and c: "control_of s t = UpdateLocked i"
    and step: "updateLockSchedule t i s = Some s'"
  shows "tset_inv s'"
proof -
  let ?q = "i mod LTSFCount s"
  have p: "inserting_of s t = NotInserting" using idle by (simp add: isInserting_iff)
  obtain L where g: "getScheduleQueueLock t (LTSF s ?q) = Some L"
    and s': "s' = goto t (UpdateScheduling i) (onLTSF ?q (\<lambda>_. L) s)"
    using step by (auto simp: updateLockSchedule_def LTSFOwner_def split: bind_splits)
  have own: "unprocessedQueueLockState s i = Some t"
    using locks_okD(4) [OF tset_invD(2) [OF inv], of t i] c by simp
  note e = lock_enter [OF inv _ g]
  show ?thesis
    using getScheduleQueueLock_Some [OF g] c p e own
    by (intro step_lock [OF inv, where q = ?q and l = "Some t" and t = t and c = "UpdateScheduling i" and p = NotInserting])
      (auto simp add: s' fun_upd_idem thread_ok_def)
qed

lemma inv_updateUnlockSchedule:
  assumes inv: "tset_inv s" and idle: "\<not> isInserting (inserting_of s t)" and c: "control_of s t = UpdateReturning i"
  shows "tset_inv (updateUnlockSchedule t i s)"
proof -
  let ?q = "i mod LTSFCount s"
  have p: "inserting_of s t = NotInserting" using idle by (simp add: isInserting_iff)
  have own: "unprocessedQueueLockState s i = Some t"
    using locks_okD(4) [OF tset_invD(2) [OF inv], of t i] c by simp
  have e: "((scheduleLocks s)(?q := releaseLock t (scheduleLocks s ?q))) q' = Some t \<longleftrightarrow> False"
    "t' \<noteq> t \<Longrightarrow> releaseLock t (scheduleLocks s ?q) = Some t' \<longleftrightarrow> scheduleLocks s ?q = Some t'" for q' t'
    using lock_leave [OF inv, of t ?q] c p by simp_all
  show ?thesis
    unfolding updateUnlockSchedule_def LTSFOwner_def
    using c p e own
    by (intro step_lock [OF inv, where q = ?q and l = "releaseLock t (scheduleLocks s ?q)" and t = t
          and c = "UpdateEnding i" and p = NotInserting])
      (auto simp add: fun_upd_idem thread_ok_def releaseScheduleQueueLock_def scheduleLocks_def)
qed

lemma inv_insertLockSchedule:
  assumes inv: "tset_inv s" and c: "inserting_of s t = InsertFirst x" and step: "insertLockSchedule t x s = Some s'"
  shows "tset_inv s'"
proof -
  let ?q = "qObj x mod LTSFCount s"
  have m: "thread_ok t (control_of s t) (InsertFirst x)" "maySend t (control_of s t)"
    using thread_ok_at [OF inv, of t] c by (simp_all add: thread_ok_def)
  note out = maySend_outside [OF m(2)]
  obtain L where g: "getScheduleQueueLock t (LTSF s ?q) = Some L"
    and s': "s' = insertGoto t (InsertScheduling x) (onLTSF ?q (\<lambda>_. L) s)"
    using step by (auto simp: insertLockSchedule_def LTSFOwner_def Let_def split: bind_splits)
  have own: "unprocessedQueueLockState s (qObj x) = Some t"
    using locks_okD(5) [OF tset_invD(2) [OF inv], of t "qObj x"] c by simp
  note e = lock_enter [OF inv _ g]
  show ?thesis
    using getScheduleQueueLock_Some [OF g] c e own m out
    by (intro step_lock [OF inv, where q = ?q and l = "Some t" and t = t and c = "control_of s t" and p = "InsertScheduling x"])
      (auto simp add: s' thread_ok_def)
qed

lemma inv_insertUnlockSchedule:
  assumes inv: "tset_inv s" and c: "inserting_of s t = InsertScheduled x"
  shows "tset_inv (insertUnlockSchedule t x s)"
proof -
  let ?q = "qObj x mod LTSFCount s"
  have m: "thread_ok t (control_of s t) (InsertScheduled x)" "maySend t (control_of s t)"
    using thread_ok_at [OF inv, of t] c by (simp_all add: thread_ok_def)
  note out = maySend_outside [OF m(2)]
  have own: "unprocessedQueueLockState s (qObj x) = Some t"
    using locks_okD(5) [OF tset_invD(2) [OF inv], of t "qObj x"] c by simp
  have e: "((scheduleLocks s)(?q := releaseLock t (scheduleLocks s ?q))) q' = Some t \<longleftrightarrow> False"
    "t' \<noteq> t \<Longrightarrow> releaseLock t (scheduleLocks s ?q) = Some t' \<longleftrightarrow> scheduleLocks s ?q = Some t'" for q' t'
    using lock_leave [OF inv, of t ?q] c by simp_all
  show ?thesis
    unfolding insertUnlockSchedule_def LTSFOwner_def
    using c e own m out
    by (intro step_lock [OF inv, where q = ?q and l = "releaseLock t (scheduleLocks s ?q)" and t = t
          and c = "control_of s t" and p = "InsertEnding x"])
      (auto simp add: thread_ok_def releaseScheduleQueueLock_def scheduleLocks_def)
qed

subsection \<open>Inside a schedule queue\<close>

lemma place_eq:
  assumes "n > (0 :: nat)" and "i mod n = j mod n" and "i div n = j div n"
  shows "i = j"
  using assms(2,3) by (metis div_mult_mod_eq)

text \<open>The place of object \<open>i\<close> changes, with its queue.\<close>

lemma views_place:
  assumes n0: "LTSFCount s > 0" and n: "LTSFCount s' = LTSFCount s"
    and L: "LTSF s' = (LTSF s)(i mod LTSFCount s := L)"
    and Lq: "scheduleQueue L = m" and Lp: "lowestObjectPosition L = (lowestObjectPosition (LTSF s (i mod LTSFCount s)))(i div LTSFCount s := it)"
    and Ls: "objectStatusLock L = (objectStatusLock (LTSF s (i mod LTSFCount s)))(i div LTSFCount s := v)"
    and Ll: "scheduleQueueLock L = scheduleQueueLock (LTSF s (i mod LTSFCount s))"
  shows "schedules s' = (schedules s)(i mod LTSFCount s := m)" "scheduleLocks s' = scheduleLocks s"
    "positions s' = (positions s)(i := it)" "statusLocks s' = (statusLocks s)(i := v)"
proof -
  note [dest] = place_eq [OF n0]
  show "schedules s' = (schedules s)(i mod LTSFCount s := m)" "scheduleLocks s' = scheduleLocks s"
    by (simp_all add: fun_eq_iff schedules_def scheduleLocks_def L Lq Ll)
  show "positions s' = (positions s)(i := it)" "statusLocks s' = (statusLocks s)(i := v)"
    by (auto simp: fun_eq_iff positions_def statusLocks_def LTSFOwner_def LTSFObjId_def n L Lp Ls)
qed

text \<open>At most one thread inserts for an object at a time, and not while its owner returns it.\<close>

lemma inserting_unique:
  assumes inv: "tset_inv s" and "arriving (inserting_of s t') = Some y" and "qObj y = i"
    and "unprocessedQueueLockState s i = Some t"
  shows "t' = t"
proof -
  have "insertUnprocessed (inserting_of s t') = Some i"
    using assms(2,3) by (cases "inserting_of s t'") auto
  from locks_okD(5) [OF tset_invD(2) [OF inv] this] show ?thesis using assms(4) by simp
qed

lemma others_same_refl: "others_same n i pos sq pos sq"
  by (simp add: others_same_def)

lemma inv_peekSection:
  assumes inv: "tset_inv s" and idle: "\<not> isInserting (inserting_of s t)" and c: "control_of s t = PeekLocked"
    and step: "peekSection t s = Some s'"
  shows "tset_inv s'"
proof -
  let ?n = "LTSFCount s" and ?q = "(t - 1) mod LTSFCount s"
  note D = tset_invD [OF inv]
  have p: "inserting_of s t = NotInserting" using idle by (simp add: isInserting_iff)
  obtain L ret where g: "peek (LTSFObjId s) t (LTSF s ?q) = Some (L, ret)"
    and s': "s' = goto t (PeekReturns (map_option qObj ret)) (onLTSF ?q (\<lambda>_. L) s)"
    using step by (auto simp: peekSection_def LTSFByThread_def Let_def split: bind_splits)
  show ?thesis
  proof (cases ret)
    case None
    with g have L: "L = LTSF s ?q" by (auto simp: peek_def Let_def split: option.splits bind_splits)
    show ?thesis
      using D(5) c p
      by (intro step_outside [OF inv, where t = t and c = "PeekReturns None" and p = NotInserting])
        (simp_all add: s' L None thread_ok_def fun_upd_idem)
  next
    case (Some x)
    then have f: "ms_front (schedules s ?q) = Some x"
      using g by (auto simp: peek_def schedules_def Let_def split: option.splits bind_splits)
    note F = sched_front [OF D(3) f]
    let ?i = "qObj x"
    obtain k where k: "ms_begin (schedules s ?q) = Some k" using F(4) by blast
    obtain m where m: "ms_erase (Some k) (schedules s ?q) = Some m"
      and L: "L = (LTSF s ?q)\<lparr>objectStatusLock := (objectStatusLock (LTSF s ?q))(?i div ?n := Some t),
        scheduleQueue := m, lowestObjectPosition := (lowestObjectPosition (LTSF s ?q))(?i div ?n := None)\<rparr>"
      using g f Some k by (auto simp: peek_def getObjectLock_def setLock_Some schedules_def LTSFObjId_def Let_def split: bind_splits)
    have V: "schedules s' = (schedules s)(?i mod ?n := m)" "scheduleLocks s' = scheduleLocks s"
      "positions s' = (positions s)(?i := None)" "statusLocks s' = (statusLocks s)(?i := Some t)"
      using F(2) views_place [OF D(1), where s' = s' and i = ?i and L = L and m = m and it = None and v = "Some t"]
      by (simp_all add: s' L)
    note vac = sched_vacate [OF D(3), of ?i k m]
    have ok: "sched_ok ?n (statusLocks s) ((positions s)(?i := None)) ((schedules s)(?i mod ?n := m))"
      and same: "others_same ?n ?i (positions s) (schedules s) ((positions s)(?i := None)) ((schedules s)(?i mod ?n := m))"
      using vac F k m by simp_all
    have "locks_ok ?n ((control_of s)(t := PeekReturns (Some ?i))) ((inserting_of s)(t := NotInserting))
        (unprocessedQueueLockState s) (scheduleLocks s) ((statusLocks s)(?i := Some t))"
      using locks_okD(2,3) [OF D(2), of _ t] F(3) c p by (intro locks_ok_move [OF D(2)]) (auto simp: thread_ok_def)
    moreover have "link_ok ?n (inserting_of s) (unProcessedQueue s) ((statusLocks s)(?i := Some t)) ((positions s)(?i := None))
        ((schedules s)(?i mod ?n := m))"
      by (rule link_ok_change [OF D(4) same]) simp_all
    moreover have "sched_ok ?n ((statusLocks s)(?i := Some t)) ((positions s)(?i := None)) ((schedules s)(?i mod ?n := m))"
      by (rule sched_ok_stat [OF ok]) simp
    ultimately show ?thesis
      using D(1,5) p by (simp add: tset_inv_def V) (simp add: s' Some fun_upd_idem)
  qed
qed

text \<open>What the schedule section of \<open>updateScheduleQueueAfterExecute\<close> does to the queue of its object.\<close>

lemma updateSection_effect:
  assumes inv: "tset_inv s" and st: "statusLocks s i = Some t"
  shows "\<exists>m it. schedules (updateSection t i s) = (schedules s)(i mod LTSFCount s := m) \<and>
     positions (updateSection t i s) = (positions s)(i := it) \<and>
     statusLocks (updateSection t i s) = (statusLocks s)(i := None) \<and> scheduleLocks (updateSection t i s) = scheduleLocks s \<and>
     sched_ok (LTSFCount s) ((statusLocks s)(i := None)) ((positions s)(i := it)) ((schedules s)(i mod LTSFCount s := m)) \<and>
     others_same (LTSFCount s) i (positions s) (schedules s) ((positions s)(i := it)) ((schedules s)(i mod LTSFCount s := m)) \<and>
     ms_front (unProcessedQueue s i) = ms_deref m it"
proof -
  let ?n = "LTSFCount s" and ?q = "i mod LTSFCount s" and ?s' = "updateSection t i s"
  note D = tset_invD [OF inv]
  have pos: "positions s i = None"
    using sched_okD(5) [OF D(3), of i] st by (cases "positions s i") simp_all
  have ok0: "sched_ok ?n ((statusLocks s)(i := None)) (positions s) (schedules s)"
    by (rule sched_ok_stat [OF D(3) pos])
  have rel: "releaseLock t (objectStatusLock (LTSF s ?q) (i div ?n)) = None"
    using st by (simp add: statusLocks_def LTSFOwner_def LTSFObjId_def)
  show ?thesis
  proof (cases "ms_front (unProcessedQueue s i)")
    case None
    have same: "(schedules s)(?q := schedules s ?q) = schedules s" "(positions s)(i := None) = positions s"
      using pos by (simp_all add: fun_upd_idem)
    have "schedules ?s' = (schedules s)(?q := schedules s ?q)" "positions ?s' = (positions s)(i := None)"
      "statusLocks ?s' = (statusLocks s)(i := None)" "scheduleLocks ?s' = scheduleLocks s"
      using views_place [OF D(1), where s' = ?s' and i = i and m = "schedules s ?q" and it = None and v = None
          and L = "releaseObjectLock t (i div ?n) (insertEmptyEvent (i div ?n) (LTSF s ?q))"] None rel
      by (simp_all add: updateSection_def LTSFOwner_def LTSFObjId_def releaseObjectLock_def insertEmptyEvent_def schedules_def)
    with ok0 None same show ?thesis
      by (intro exI [of _ "schedules s ?q"] exI [of _ None]) (simp add: others_same_refl)
  next
    case (Some x)
    have x: "qObj x = i" using queues_ok_front [OF D(5) Some] by simp
    obtain m it where ins: "ms_insert qLess x (schedules s ?q) = (m, it)" by fastforce
    have "schedules ?s' = (schedules s)(?q := m)" "positions ?s' = (positions s)(i := it)"
      "statusLocks ?s' = (statusLocks s)(i := None)" "scheduleLocks ?s' = scheduleLocks s"
      using views_place [OF D(1), where s' = ?s' and i = i and m = m and it = it and v = None
          and L = "releaseObjectLock t (i div ?n) (insertEvent (i div ?n) x (LTSF s ?q))"] Some rel ins
      by (simp_all add: updateSection_def LTSFOwner_def LTSFObjId_def releaseObjectLock_def insertEvent_def schedules_def)
    with sched_put [OF ok0 pos _ x ins] Some show ?thesis
      by (intro exI [of _ m] exI [of _ it]) simp
  qed
qed

lemma inv_updateSection:
  assumes inv: "tset_inv s" and idle: "\<not> isInserting (inserting_of s t)" and c: "control_of s t = UpdateScheduling i"
  shows "tset_inv (updateSection t i s)" (is "tset_inv ?s'")
proof -
  let ?n = "LTSFCount s" and ?q = "i mod LTSFCount s"
  note D = tset_invD [OF inv]
  have p: "inserting_of s t = NotInserting" using idle by (simp add: isInserting_iff)
  have st: "statusLocks s i = Some t" using locks_okD(3) [OF D(2)] c by simp
  have uL: "unprocessedQueueLockState s i = Some t" using locks_okD(4) [OF D(2), of t i] c by simp
  have free: "qObj y \<noteq> i" if "arriving (inserting_of s t') = Some y" for t' y
    using inserting_unique [OF inv that _ uL] that p by auto
  have locks: "locks_ok ?n ((control_of s)(t := UpdateReturning i)) ((inserting_of s)(t := NotInserting))
        (unprocessedQueueLockState s) (scheduleLocks s) ((statusLocks s)(i := None))"
    using locks_okD(2,3) [OF D(2), of _ t] uL c p by (intro locks_ok_move [OF D(2)]) (auto simp: thread_ok_def st)
  obtain m it where V: "schedules ?s' = (schedules s)(?q := m)" "positions ?s' = (positions s)(i := it)"
      "statusLocks ?s' = (statusLocks s)(i := None)" "scheduleLocks ?s' = scheduleLocks s"
    and ok: "sched_ok ?n ((statusLocks s)(i := None)) ((positions s)(i := it)) ((schedules s)(?q := m))"
    and same: "others_same ?n i (positions s) (schedules s) ((positions s)(i := it)) ((schedules s)(?q := m))"
    and fr: "ms_front (unProcessedQueue s i) = ms_deref m it"
    using updateSection_effect [OF inv st] by blast
  have "link_ok ?n (inserting_of s) (unProcessedQueue s) ((statusLocks s)(i := None)) ((positions s)(i := it)) ((schedules s)(?q := m))"
    using fr free by (intro link_ok_change [OF D(4) same]) simp_all
  with locks ok D(1,5) p show ?thesis
    by (simp add: tset_inv_def V) (simp add: updateSection_def fun_upd_idem)
qed

lemma ms_front_insert:
  "ms_front (fst (ms_insert lt x m)) = Some x \<or> ms_front (fst (ms_insert lt x m)) = ms_front m"
proof (cases "upper_pos lt x m = 0 \<or> ms_vals m = []")
  case True
  then show ?thesis by (auto simp: ms_front_hd ms_insert_def ms_vals_insert_at)
next
  case False
  then obtain a as p where "ms_vals m = a # as" and "upper_pos lt x m = Suc p"
    by (metis list.exhaust nat.exhaust)
  then show ?thesis by (simp add: ms_front_hd ms_insert_def ms_vals_insert_at)
qed

lemma insertQueue_link:
  assumes link: "link_ok n P uq stat pos sq" and now: "arriving (P t) = None"
    and free: "\<And>t' y. arriving (P t') = Some y \<Longrightarrow> qObj y \<noteq> qObj x"
  shows "link_ok n (P(t := if ms_front (fst (ms_insert qLess x (uq (qObj x)))) = Some x then InsertFirst x else InsertEnding x))
    (uq(qObj x := fst (ms_insert qLess x (uq (qObj x))))) stat pos sq" (is "link_ok n ?P ?uq stat pos sq")
  unfolding link_ok_def
proof (intro conjI allI impI)
  fix j assume st: "stat j = None" and none: "\<forall>t' y. arriving (?P t') = Some y \<longrightarrow> qObj y \<noteq> j"
  have a: "qObj y \<noteq> j" if "arriving (P t') = Some y" for t' y
    using none [rule_format, of t' y] that now by (cases "t' = t") auto
  have "j = qObj x \<Longrightarrow> ms_front (fst (ms_insert qLess x (uq (qObj x)))) \<noteq> Some x"
    using none [rule_format, of t x] by auto
  then have "ms_front (?uq j) = ms_front (uq j)"
    using ms_front_insert [of qLess x "uq (qObj x)"] by auto
  with link_okD(1) [OF link st a] show "ms_front (?uq j) = ms_deref (sq (j mod n)) (pos j)" by simp
next
  fix t' y assume y: "arriving (?P t') = Some y" and st: "stat (qObj y) = None"
  show "ms_front (?uq (qObj y)) = Some y"
  proof (cases "t' = t")
    case True
    with y show ?thesis by (simp split: if_splits)
  next
    case False
    with y have "arriving (P t') = Some y" by simp
    from free [OF this] link_okD(2) [OF link this st] show ?thesis by simp
  qed
qed

lemma inv_insertQueue:
  assumes inv: "tset_inv s" and c: "inserting_of s t = InsertLocked x"
  shows "tset_inv (insertQueue t x s)"
proof -
  let ?n = "LTSFCount s" and ?i = "qObj x"
  note D = tset_invD [OF inv]
  obtain m where m: "m = fst (ms_insert qLess x (unProcessedQueue s ?i))" by blast
  obtain p where p: "p = (if ms_front m = Some x then InsertFirst x else InsertEnding x)" by blast
  let ?uq = "(unProcessedQueue s)(?i := m)" and ?P = "(inserting_of s)(t := p)"
  have T: "thread_ok t (control_of s t) p" and q: "q_ok x" and may: "maySend t (control_of s t)"
    using thread_ok_at [OF inv, of t] c by (simp_all add: thread_ok_def p)
  have held: "queueHeld n t (control_of s t) p = queueHeld n t (control_of s t) (inserting_of s t)" for n
    using c by (simp add: p)
  have uL: "unprocessedQueueLockState s ?i = Some t" using locks_okD(5) [OF D(2), of t ?i] c by simp
  have free: "qObj y \<noteq> ?i" if "arriving (inserting_of s t') = Some y" for t' y
    using inserting_unique [OF inv that _ uL] that c by auto
  have "locks_ok ?n ((control_of s)(t := control_of s t)) ?P (unprocessedQueueLockState s) (scheduleLocks s) (statusLocks s)"
    using locks_okD(2,3) [OF D(2)] held T uL maySend_outside [OF may]
    by (intro locks_ok_move [OF D(2)]) (auto simp: p split: if_splits)
  moreover have "link_ok ?n ?P ?uq (statusLocks s) (positions s) (schedules s)"
    unfolding m p by (rule insertQueue_link [OF D(4) _ free]) (simp add: c)
  moreover have "queues_ok ?uq (processedQueue s)"
  proof -
    have "ms_inv qLess m" using D(5) by (simp add: m queues_ok_def q_order.ms_inv_insert)
    moreover have "set (ms_vals m) = insert x (set (ms_vals (unProcessedQueue s ?i)))"
      by (metis m mset_ms_insert set_mset_add_mset_insert set_mset_mset)
    ultimately show ?thesis using D(5) q by (simp add: queues_ok_def)
  qed
  moreover have s': "insertQueue t x s = insertGoto t p (s\<lparr>unProcessedQueue := ?uq\<rparr>)"
    by (simp add: insertQueue_def Let_def m p)
  ultimately show ?thesis
    using D(1,3) views_cong [of "insertQueue t x s" s] by (simp add: tset_inv_def s')
qed

text \<open>What the schedule section of \<open>insert\<close> does to the queue of its object.\<close>

lemma insertSection_effect:
  assumes inv: "tset_inv s" and free: "statusLocks s i = None" and i: "qObj x = i"
    and er: "eraseSkipFirst (LTSFObjId s i) (LTSF s (LTSFOwner s i)) = Some L1"
    and L: "LTSF s' = (LTSF s)(LTSFOwner s i := insertEvent (LTSFObjId s i) x L1)" and n: "LTSFCount s' = LTSFCount s"
  shows "\<exists>m it. schedules s' = (schedules s)(i mod LTSFCount s := m) \<and> positions s' = (positions s)(i := it) \<and>
     statusLocks s' = statusLocks s \<and> scheduleLocks s' = scheduleLocks s \<and> ms_deref m it = Some x \<and>
     sched_ok (LTSFCount s) (statusLocks s) ((positions s)(i := it)) ((schedules s)(i mod LTSFCount s := m)) \<and>
     others_same (LTSFCount s) i (positions s) (schedules s) ((positions s)(i := it)) ((schedules s)(i mod LTSFCount s := m))"
proof -
  let ?n = "LTSFCount s" and ?q = "i mod LTSFCount s"
  note D = tset_invD [OF inv]
  have "\<exists>m1. L1 = (LTSF s ?q)\<lparr>scheduleQueue := m1\<rparr> \<and>
      sched_ok ?n (statusLocks s) ((positions s)(i := None)) ((schedules s)(?q := m1)) \<and>
      others_same ?n i (positions s) (schedules s) ((positions s)(i := None)) ((schedules s)(?q := m1))"
  proof (cases "positions s i")
    case None
    then have "L1 = (LTSF s ?q)\<lparr>scheduleQueue := schedules s ?q\<rparr>" "(positions s)(i := None) = positions s"
      using er by (simp_all add: eraseSkipFirst_def views fun_upd_idem)
    with D(3) show ?thesis by (intro exI [of _ "schedules s ?q"]) (simp add: others_same_refl)
  next
    case (Some k)
    then obtain m1 where m1: "ms_erase (Some k) (schedules s ?q) = Some m1" "L1 = (LTSF s ?q)\<lparr>scheduleQueue := m1\<rparr>"
      using er by (auto simp: eraseSkipFirst_def views split: bind_splits)
    with sched_vacate [OF D(3) Some m1(1)] show ?thesis by blast
  qed
  then obtain m1 where L1: "L1 = (LTSF s ?q)\<lparr>scheduleQueue := m1\<rparr>"
    and ok1: "sched_ok ?n (statusLocks s) ((positions s)(i := None)) ((schedules s)(?q := m1))"
    and same1: "others_same ?n i (positions s) (schedules s) ((positions s)(i := None)) ((schedules s)(?q := m1))" by blast
  obtain m it where ins: "ms_insert qLess x m1 = (m, it)" by fastforce
  have ins': "ms_insert qLess x (((schedules s)(?q := m1)) ?q) = (m, it)" using ins by simp
  have put: "sched_ok ?n (statusLocks s) ((positions s)(i := it)) ((schedules s)(?q := m))"
    "others_same ?n i ((positions s)(i := None)) ((schedules s)(?q := m1)) ((positions s)(i := it)) ((schedules s)(?q := m))"
    "ms_deref m it = Some x"
    using sched_put [OF ok1 _ free i ins'] by (simp_all only: fun_upd_upd fun_upd_same)
  have "objectStatusLock (LTSF s ?q) = (objectStatusLock (LTSF s ?q))(i div ?n := None)"
    using free by (simp add: views fun_upd_idem)
  then have V: "schedules s' = (schedules s)(?q := m)" "positions s' = (positions s)(i := it)"
    "statusLocks s' = (statusLocks s)(i := None)" "scheduleLocks s' = scheduleLocks s"
    using views_place [OF D(1) n, where i = i and m = m and it = it and v = None and L = "insertEvent (i div ?n) x L1"] ins L
    by (simp_all add: insertEvent_def L1 LTSFOwner_def LTSFObjId_def)
  have "(statusLocks s)(i := None) = statusLocks s" using free by (simp add: fun_upd_idem)
  with V put others_same_trans [OF same1 put(2)] show ?thesis
    by (intro exI [of _ m] exI [of _ it]) simp
qed

lemma inv_insertSection:
  assumes inv: "tset_inv s" and c: "inserting_of s t = InsertScheduling x" and step: "insertSection t x s = Some s'"
  shows "tset_inv s'"
proof -
  let ?n = "LTSFCount s" and ?i = "qObj x" and ?P = "(inserting_of s)(t := InsertScheduled x)"
  note D = tset_invD [OF inv]
  have T: "thread_ok t (control_of s t) (InsertScheduled x)" and may: "maySend t (control_of s t)"
    using thread_ok_at [OF inv, of t] c by (simp_all add: thread_ok_def)
  have uL: "unprocessedQueueLockState s ?i = Some t" using locks_okD(5) [OF D(2), of t ?i] c by simp
  have locks: "locks_ok ?n (control_of s) ?P (unprocessedQueueLockState s) (scheduleLocks s) (statusLocks s)"
    using locks_ok_move [OF D(2), where t = t and c = "control_of s t" and p = "InsertScheduled x"]
      locks_okD(2,3) [OF D(2), of _ t] T uL maySend_outside [OF may] c by simp
  have arr: "arriving (inserting_of s t') = Some y" if "arriving (?P t') = Some y" for t' y
    using that by (cases "t' = t") simp_all
  have kept: "arriving (?P t') = Some y" if "arriving (inserting_of s t') = Some y" "qObj y \<noteq> ?i" for t' y
    using that c by (cases "t' = t") auto
  have none: "qObj y \<noteq> ?i" if "arriving (?P t') = Some y" for t' y
    using inserting_unique [OF inv arr [OF that] _ uL] that by auto
  show ?thesis
  proof (cases "statusLocks s ?i")
    case None
    then obtain L1 where er: "eraseSkipFirst (LTSFObjId s ?i) (LTSF s (LTSFOwner s ?i)) = Some L1"
      and s': "s' = insertGoto t (InsertScheduled x)
        (onLTSF (LTSFOwner s ?i) (\<lambda>_. insertEvent (LTSFObjId s ?i) x L1) s)"
      using step by (auto simp: insertSection_def isObjectScheduled_def isLocked_def statusLocks_def Let_def split: bind_splits)
    obtain m it where V: "schedules s' = (schedules s)(?i mod ?n := m)" "positions s' = (positions s)(?i := it)"
        "statusLocks s' = statusLocks s" "scheduleLocks s' = scheduleLocks s" and d: "ms_deref m it = Some x"
      and ok: "sched_ok ?n (statusLocks s) ((positions s)(?i := it)) ((schedules s)(?i mod ?n := m))"
      and same: "others_same ?n ?i (positions s) (schedules s) ((positions s)(?i := it)) ((schedules s)(?i mod ?n := m))"
      using insertSection_effect [OF inv None refl er, of s'] s' by auto
    have "link_ok ?n ?P (unProcessedQueue s) (statusLocks s) ((positions s)(?i := it)) ((schedules s)(?i mod ?n := m))"
      using link_okD(2) [OF D(4), of t x] None c d
      by (intro link_ok_change [OF D(4) same _ _ arr kept none]) simp_all
    with locks ok D(1,5) show ?thesis by (simp add: tset_inv_def V) (simp add: s')
  next
    case (Some t')
    then have s': "s' = insertGoto t (InsertScheduled x) (onLTSF (LTSFOwner s ?i) (\<lambda>L. L) s)"
      using step by (simp add: insertSection_def isObjectScheduled_def isLocked_def statusLocks_def Let_def onLTSF_def)
    have V: "LTSF s' = LTSF s" "LTSFCount s' = LTSFCount s" by (simp_all add: s')
    have "link_ok ?n ?P (unProcessedQueue s) (statusLocks s) (positions s) (schedules s)"
      by (intro link_ok_change [OF D(4) others_same_refl _ _ arr kept]) (auto simp: Some)
    with locks D(1,3,5) show ?thesis by (simp add: tset_inv_def views_cong [OF V(2,1)]) (simp add: s')
  qed
qed

lemma tset_inv_step:
  assumes inv: "tset_inv s" and step: "threadStep approx t c s = Some s'"
  shows "tset_inv s'"
proof (cases c)
  case Proceed
  show ?thesis
  proof (cases "isInserting (inserting_of s t)")
    case True
    with step Proceed have "insertStep t (inserting_of s t) s = Some s'" by simp
    then show ?thesis
      using inv inv_insertLock inv_insertQueue inv_insertLockSchedule inv_insertSection inv_insertUnlockSchedule inv_insertUnlock
      by (cases "inserting_of s t") auto
  next
    case False
    with step Proceed have w: "workerStep t (control_of s t) s = Some s'" by simp
    note rest = inv_peekLock [OF inv False] inv_peekSection [OF inv False] inv_peekUnlock [OF inv False]
      inv_checkStraggler [OF inv False] inv_coastPeek [OF inv False] inv_cancelNext [OF inv False] inv_coastPop [OF inv False]
      inv_executeNext [OF inv False] inv_updateLockUnprocessed [OF inv False] inv_updateLockSchedule [OF inv False]
      inv_updateSection [OF inv False] inv_updateUnlockSchedule [OF inv False] inv_updateUnlockUnprocessed [OF inv False]
    have "tset_inv (goto t (Coasting i x) s)" if "control_of s t = CoastExecuting i x" for i x
      using control_ok_at [OF inv, of t] that
      by (intro step_work [OF inv False own_change_refl at_work_control(3) [OF inv that]] at_work_intros) simp_all
    moreover have "tset_inv (goto t (Update i) s)" if "control_of s t = Executing i" for i
      by (rule step_work [OF inv False own_change_refl, of i]) (simp_all add: that at_work_intros)
    ultimately show ?thesis
      using w rest by (cases "control_of s t") (auto split: if_splits)
  qed
next
  case (CallInsert x)
  with step inv_callInsert [OF inv] show ?thesis by (auto split: if_splits)
next
  case (RestoreState r eid sid)
  with step inv_restore [OF inv] show ?thesis by (cases "control_of s t") (auto split: if_splits)
next
  case GetNextEvent
  with step inv_executeGet [OF inv] inv_coastGet [OF inv] show ?thesis by (cases "control_of s t") (auto split: if_splits)
next
  case (CallFossilCollect i gvt)
  with step inv_fossilCollect [OF inv] show ?thesis by (auto split: if_splits)
qed

lemma tset_inv_reachable: "threadsReachable approx n s \<Longrightarrow> tset_inv s"
  by (induction rule: threadsReachable.induct) (blast intro: tset_inv_init tset_inv_step)+

end
