(* ===== verification/ThreadedProperties.thy ===== *)
theory ThreadedProperties
  imports ThreadedSchedule
begin

text \<open>
  Properties of the shared event set in every reachable state: what waits in a schedule queue,
  what \<open>peek\<close> finds there, when the simulation may stop, and two ways in which the locks of
  the unprocessed events fail.
\<close>

subsection \<open>Runs\<close>

fun runThreads :: "('t \<Rightarrow> int) \<Rightarrow> (nat \<times> 't choice) list \<Rightarrow> ('t :: linorder) tset \<Rightarrow> 't tset option" where
  "runThreads approx [] s = Some s"
| "runThreads approx ((t, c) # cs) s = Option.bind (threadStep approx t c s) (runThreads approx cs)"

lemma runThreads_reachable:
  "threadsReachable approx n s \<Longrightarrow> runThreads approx cs s = Some s' \<Longrightarrow> threadsReachable approx n s'"
proof (induction cs arbitrary: s)
  case (Cons c cs)
  then show ?case
    by (cases c) (auto split: bind_splits intro: reach_step)
qed simp

definition intTime :: "intvtime \<Rightarrow> int" where
  "intTime v = sint (getTime v)"

definition posEvent :: "nat \<Rightarrow> u32 \<Rightarrow> u32 \<Rightarrow> u32 \<Rightarrow> intvtime qevent" where
  "posEvent addr from to time = PositiveEvent (ex_event addr from to 0 time (of_nat addr))"

definition cancelOf :: "nat \<Rightarrow> intvtime qevent \<Rightarrow> intvtime qevent" where
  "cancelOf addr x = cancelLocalStraggler addr [NegativeEvent (addr + 1) (wrapped x)]"

text \<open>\<open>insert\<close> of an event that becomes the first of its object, and of one that does not; one turn of a worker.\<close>

definition insertFront :: "nat \<Rightarrow> 't qevent \<Rightarrow> (nat \<times> 't choice) list" where
  "insertFront t x = (t, CallInsert x) # [(t, Proceed), (t, Proceed), (t, Proceed), (t, Proceed), (t, Proceed), (t, Proceed)]"

definition insertBehind :: "nat \<Rightarrow> 't qevent \<Rightarrow> (nat \<times> 't choice) list" where
  "insertBehind t x = (t, CallInsert x) # [(t, Proceed), (t, Proceed), (t, Proceed)]"

definition chooseObject :: "nat \<Rightarrow> (nat \<times> 't choice) list" where
  "chooseObject t = [(t, Proceed), (t, Proceed), (t, Proceed), (t, Proceed)]"

definition executeSending :: "nat \<Rightarrow> (nat \<times> 't choice) list \<Rightarrow> (nat \<times> 't choice) list" where
  "executeSending t sends = chooseObject t @ [(t, Proceed), (t, GetNextEvent)] @ sends @ [(t, Proceed), (t, Proceed), (t, Proceed), (t, Proceed), (t, Proceed), (t, Proceed)]"

text \<open>
  Objects 0 and 1 execute an event at time 10 and send each other an event for time 30; then an
  event for time 5 arrives for each of them, two workers roll the objects back and cancel the
  events for time 30.
\<close>

definition crossRun :: "(nat \<times> intvtime choice) list" where
  "crossRun =
     insertFront 0 (posEvent 1 5 0 10) @ insertFront 0 (posEvent 2 5 1 10) @
     executeSending 1 (insertBehind 1 (posEvent 3 0 1 30)) @ executeSending 2 (insertFront 2 (posEvent 4 1 0 30)) @
     insertFront 0 (posEvent 5 5 0 5) @ insertFront 0 (posEvent 6 5 1 5) @
     chooseObject 1 @ chooseObject 2 @
     [(1, RestoreState (IntVTime 0) 0 0), (2, RestoreState (IntVTime 0) 0 0),
      (1, CallInsert (cancelOf 10 (posEvent 3 0 1 30))), (2, CallInsert (cancelOf 12 (posEvent 4 1 0 30)))]"

lemmas run_defs = insertFront_def insertBehind_def executeSending_def chooseObject_def
  isInserting_def setLock_def releaseLock_def isLocked_def Let_def
  qTime_def qObj_def qLess_def cancels_def onLTSF_def goto_def insertGoto_def
  LTSFObjId_def LTSFOwner_def LTSFByThread_def
  getScheduleQueueLock_def releaseScheduleQueueLock_def insertEvent_def insertEmptyEvent_def eraseSkipFirst_def
  getObjectLock_def releaseObjectLock_def isObjectScheduled_def peek_def
  getunProcessedLock_def releaseunProcessedLock_def popUnprocessed_def pushProcessed_def tt_setSimulationTime_def
  getEventIfStraggler_def peekEventLockUnprocessed_def tt_getEvent_def getEventWhileRollback_def tt_peekEvent_def
  tt_peekEvent_before_def tt_rollback_def undoneEvents_def
  peekLock_def peekSection_def peekUnlock_def checkStraggler_def restore_def afterRollback_def coastPeek_def coastGet_def
  coastPop_def executeNext_def executeGet_def updateLockUnprocessed_def updateLockSchedule_def updateSection_def
  updateUnlockSchedule_def updateUnlockUnprocessed_def insertLock_def insertQueue_def insertLockSchedule_def
  insertSection_def insertUnlockSchedule_def insertUnlock_def
  ms_insert_def ms_insert_at_def ms_insert_range_def ms_erase_def ms_front_def ms_begin_def upper_pos_def ms_vals_def ms_ids_def
  ms_empty_def
  receiveTimeLessThanEventIdLessThan_def posEvent_def ex_event_def intTime_def less_intvtime_iff less_eq_intvtime_iff
  ThreadedTimeWarpMultiSet_def ThreadedTimeWarpMultiSetLTSF_def objIdOf_def less_objectID_iff

lemma crossRun_result:
  "map_option (\<lambda>s. (inserting_of s 1, inserting_of s 2, unprocessedQueueLockState s 0, unprocessedQueueLockState s 1))
     (runThreads intTime crossRun (ThreadedTimeWarpMultiSet 1 (IntVTime 0))) =
   Some (InsertCalled (cancelOf 10 (posEvent 3 0 1 30)), InsertCalled (cancelOf 12 (posEvent 4 1 0 30)), Some 1, Some 2)"
  by (simp add: crossRun_def run_defs cancelOf_def cancelLocalStraggler_def NegativeEvent_def)
definition queuedAt :: "nat \<Rightarrow> 't tset \<Rightarrow> 't qevent list" where
  "queuedAt i s = ms_vals (unProcessedQueue s i)"

subsection \<open>The schedule queues\<close>

text \<open>The state after one event has arrived: the data of the witnesses.\<close>

definition arrivedRun :: "(nat \<times> intvtime choice) list" where
  "arrivedRun = insertFront 0 (posEvent 1 5 0 10)"

lemma arrived_state:
  obtains s where "threadsReachable intTime 1 s" and "\<forall>t. control_of s t = Idle" and "\<forall>t. inserting_of s t = NotInserting"
    and "queuedAt 0 s = [posEvent 1 5 0 10]" and "LTSFCount s = 1"
    and "scheduleQueue (LTSF s 0) = \<lparr>nodes = [(0, posEvent 1 5 0 10)], nextNode = 1\<rparr>"
    and "\<forall>i. objectStatusLock (LTSF s 0) i = None" and "scheduleQueueLock (LTSF s 0) = None"
proof -
  have "map_option (\<lambda>s. (control_of s, inserting_of s, queuedAt 0 s, LTSFCount s, scheduleQueue (LTSF s 0),
      objectStatusLock (LTSF s 0), scheduleQueueLock (LTSF s 0)))
     (runThreads intTime arrivedRun (ThreadedTimeWarpMultiSet 1 (IntVTime 0))) =
   Some (\<lambda>_. Idle, (\<lambda>_. NotInserting)(0 := NotInserting), [posEvent 1 5 0 10], 1,
     \<lparr>nodes = [(0, posEvent 1 5 0 10)], nextNode = 1\<rparr>, \<lambda>_. None, None)"
    by (simp add: arrivedRun_def run_defs queuedAt_def)
  then obtain s where r: "runThreads intTime arrivedRun (ThreadedTimeWarpMultiSet 1 (IntVTime 0)) = Some s"
    and "control_of s = (\<lambda>_. Idle)" "inserting_of s = (\<lambda>_. NotInserting)(0 := NotInserting)"
      "queuedAt 0 s = [posEvent 1 5 0 10]" "LTSFCount s = 1"
      "scheduleQueue (LTSF s 0) = \<lparr>nodes = [(0, posEvent 1 5 0 10)], nextNode = 1\<rparr>"
      "objectStatusLock (LTSF s 0) = (\<lambda>_. None)" "scheduleQueueLock (LTSF s 0) = None"
    by auto
  moreover have "threadsReachable intTime 1 s"
    by (rule runThreads_reachable [OF reach_start r]) simp
  ultimately show ?thesis by (intro that) simp_all
qed

lemma ms_erase_defined: "ms_deref m (Some k) = Some v \<Longrightarrow> \<exists>m'. ms_erase (Some k) m = Some m'"
  using ms_deref_ids [of m k] ms_erase_Some_iff [of "Some k" m] by auto

text \<open>A free object with no first event on its way: its first event is where its position points.\<close>

lemma front_is_scheduled:
  assumes inv: "tset_inv s" and free: "\<not> isObjectScheduled (LTSFObjId s i) (LTSF s (LTSFOwner s i))"
    and none: "\<And>t x. inserting_of s t = InsertFirst x \<or> inserting_of s t = InsertScheduling x \<Longrightarrow> qObj x \<noteq> i"
  shows "ms_front (unProcessedQueue s i) =
     ms_deref (scheduleQueue (LTSF s (LTSFOwner s i))) (lowestObjectPosition (LTSF s (LTSFOwner s i)) (LTSFObjId s i))"
proof -
  have "qObj x \<noteq> i" if "arriving (inserting_of s t) = Some x" for t x
    using that none [of t x] by (cases "inserting_of s t") auto
  from link_okD(1) [OF tset_invD(4) [OF inv] _ this] free show ?thesis
    by (simp add: isObjectScheduled_def isLocked_def views)
qed

text \<open>C6: no object with events is forgotten. The first event of every object is in its schedule queue, at the
  position kept for the object, unless a thread works on the object or the event is just being inserted.\<close>

theorem first_event_scheduled:
  assumes "threadsReachable approx n s" and "ms_front (unProcessedQueue s i) = Some x"
  shows "isObjectScheduled (LTSFObjId s i) (LTSF s (LTSFOwner s i))
     \<or> (\<exists>t. inserting_of s t = InsertFirst x \<or> inserting_of s t = InsertScheduling x)
     \<or> ms_deref (scheduleQueue (LTSF s (LTSFOwner s i))) (lowestObjectPosition (LTSF s (LTSFOwner s i)) (LTSFObjId s i)) = Some x"
proof (cases "isObjectScheduled (LTSFObjId s i) (LTSF s (LTSFOwner s i))")
  case False
  note inv = tset_inv_reachable [OF assms(1)]
  show ?thesis
  proof (cases "\<exists>t y. (inserting_of s t = InsertFirst y \<or> inserting_of s t = InsertScheduling y) \<and> qObj y = i")
    case True
    then obtain t y where y: "inserting_of s t = InsertFirst y \<or> inserting_of s t = InsertScheduling y" and i: "qObj y = i" by blast
    then have "arriving (inserting_of s t) = Some y" by auto
    from link_okD(2) [OF tset_invD(4) [OF inv] this] False i have "ms_front (unProcessedQueue s i) = Some y"
      by (simp add: isObjectScheduled_def isLocked_def views)
    with y assms(2) show ?thesis by auto
  next
    case no: False
    then have "qObj y \<noteq> i" if "inserting_of s t = InsertFirst y \<or> inserting_of s t = InsertScheduling y" for t y
      using that by blast
    from front_is_scheduled [OF inv False this] assms(2) show ?thesis by simp
  qed
qed simp

theorem first_event_scheduled_witness:
  "\<exists>s :: intvtime tset. ms_deref (scheduleQueue (LTSF s 0)) (lowestObjectPosition (LTSF s 0) 0) = Some (posEvent 1 5 0 10)"
proof -
  obtain s where "threadsReachable intTime 1 s" and "\<forall>t. inserting_of s t = NotInserting"
    and "queuedAt 0 s = [posEvent 1 5 0 10]" and "LTSFCount s = 1" and "\<forall>i. objectStatusLock (LTSF s 0) i = None"
    by (rule arrived_state)
  then have "ms_deref (scheduleQueue (LTSF s 0)) (lowestObjectPosition (LTSF s 0) 0) = Some (posEvent 1 5 0 10)"
    using first_event_scheduled [of intTime 1 s 0 "posEvent 1 5 0 10"]
    by (simp add: isObjectScheduled_def isLocked_def LTSFOwner_def LTSFObjId_def queuedAt_def ms_front_hd)
  then show ?thesis by (rule exI [of _ s])
qed

text \<open>C8: \<open>peek\<close> takes the lowest event. No unprocessed event of any object of the queue that is free, and for which
  no first event is just being inserted, comes before the event that \<open>peek\<close> returns.\<close>

theorem peek_takes_lowest:
  assumes "threadsReachable approx n s" and "peek (LTSFObjId s) t (LTSF s q) = Some (L, Some x)"
    and "LTSFOwner s j = q" and "\<not> isObjectScheduled (LTSFObjId s j) (LTSF s q)"
    and "\<forall>t y. inserting_of s t = InsertFirst y \<or> inserting_of s t = InsertScheduling y \<longrightarrow> qObj y \<noteq> j"
    and "y \<in> set (ms_vals (unProcessedQueue s j))"
  shows "\<not> qLess y x"
proof -
  note inv = tset_inv_reachable [OF assms(1)]
  have x: "ms_front (schedules s q) = Some x"
    using assms(2) by (auto simp: peek_def schedules_def Let_def split: option.splits bind_splits)
  obtain z where z: "ms_front (unProcessedQueue s j) = Some z"
    using assms(6) by (cases "ms_vals (unProcessedQueue s j)") (auto simp: ms_front_hd)
  have "ms_inv qLess (unProcessedQueue s j)" using tset_invD(5) [OF inv] by (simp add: queues_ok_def)
  then have "\<not> qLess y z" by (rule q_order.ms_front_minimal [OF _ z assms(6)])
  moreover have "z \<in> set (ms_vals (schedules s q))"
    using front_is_scheduled [OF inv, of j] assms(3-5) z by (auto simp: schedules_def intro: ms_deref_in_vals)
  then have "\<not> qLess z x"
    by (rule q_order.ms_front_minimal [OF sched_okD(1) [OF tset_invD(3) [OF inv]] x])
  ultimately show ?thesis by (rule q_order.neg_trans)
qed

theorem peek_takes_lowest_witness:
  "\<exists>s L x. threadsReachable intTime 1 s \<and> peek (LTSFObjId s) 1 (LTSF s 0) = Some (L, Some x) \<and> \<not> qLess (posEvent 1 5 0 10) x"
proof -
  obtain s where s: "threadsReachable intTime 1 s" "\<forall>t. inserting_of s t = NotInserting" "queuedAt 0 s = [posEvent 1 5 0 10]"
      "LTSFCount s = 1" "\<forall>i. objectStatusLock (LTSF s 0) i = None"
    and q: "scheduleQueue (LTSF s 0) = \<lparr>nodes = [(0, posEvent 1 5 0 10)], nextNode = 1\<rparr>"
    by (rule arrived_state)
  obtain L where p: "peek (LTSFObjId s) 1 (LTSF s 0) = Some (L, Some (posEvent 1 5 0 10))"
    using s q by (simp add: peek_def getObjectLock_def setLock_def ms_front_def ms_begin_def ms_erase_def ms_ids_def Let_def)
  have "\<not> qLess (posEvent 1 5 0 10) (posEvent 1 5 0 10)"
    by (rule peek_takes_lowest [OF s(1) p, of 0])
      (use s in \<open>simp_all add: LTSFOwner_def isObjectScheduled_def isLocked_def queuedAt_def\<close>)
  with s(1) p show ?thesis by blast
qed

text \<open>C7: a thread that has locked a schedule queue never waits there: the lock of the object that \<open>peek\<close> takes
  is free, the iterator that \<open>insert\<close> erases is valid, and the thread can always make its next step.\<close>

theorem schedule_lock_never_waits:
  assumes "threadsReachable approx n s" and "scheduleQueueLock (LTSF s q) = Some t"
  shows "\<exists>s'. threadStep approx t Proceed s = Some s'"
proof -
  note inv = tset_inv_reachable [OF assms(1)]
  note D = tset_invD [OF inv]
  have q: "queueHeld (LTSFCount s) t (control_of s t) (inserting_of s t) = Some q"
    using locks_okD(2) [OF D(2), of q t] assms(2) by (simp add: scheduleLocks_def)
  have ins: "\<exists>s'. insertSection t x s = Some s'" if "inserting_of s t = InsertScheduling x" for x
  proof (cases "positions s (qObj x)")
    case (Some k)
    then obtain y where "ms_deref (schedules s (qObj x mod LTSFCount s)) (Some k) = Some y"
      using sched_okD(6) [OF D(3)] by blast
    then have "\<exists>m. ms_erase (Some k) (schedules s (qObj x mod LTSFCount s)) = Some m"
      by (rule ms_erase_defined)
    with Some show ?thesis by (auto simp: insertSection_def eraseSkipFirst_def views Let_def)
  qed (simp add: insertSection_def eraseSkipFirst_def views Let_def)
  have "\<exists>s'. peekSection t s = Some s'" if p: "control_of s t = PeekLocked"
  proof (cases "ms_front (schedules s ((t - 1) mod LTSFCount s))")
    case None
    then show ?thesis by (simp add: peekSection_def peek_def LTSFByThread_def schedules_def Let_def)
  next
    case (Some x)
    note F = sched_front [OF D(3) Some]
    obtain k where k: "ms_begin (schedules s ((t - 1) mod LTSFCount s)) = Some k" using F(4) by blast
    have "ms_deref (schedules s ((t - 1) mod LTSFCount s)) (Some k) = Some x" using Some k by (metis ms_deref_begin)
    then obtain m where m: "ms_erase (Some k) (schedules s ((t - 1) mod LTSFCount s)) = Some m"
      by (rule ms_erase_defined [THEN exE])
    from Some k m F(2,3) show ?thesis
      by (simp add: peekSection_def peek_def LTSFByThread_def getObjectLock_def setLock_def views Let_def)
  qed
  moreover have "inserting_of s t = NotInserting" if "controlQueue (LTSFCount s) t (control_of s t) \<noteq> None"
    using thread_ok_at [OF inv, of t] maySend_outside [of t "control_of s t" "LTSFCount s"] that
    by (cases "inserting_of s t") (auto simp: thread_ok_def)
  ultimately show ?thesis
  proof (cases "inserting_of s t")
    case NotInserting
    then have "controlQueue (LTSFCount s) t (control_of s t) = Some q" using q by simp
    then show ?thesis
      using NotInserting \<open>control_of s t = PeekLocked \<Longrightarrow> \<exists>s'. peekSection t s = Some s'\<close>
      by (cases "control_of s t") (simp_all add: isInserting_def)
  qed (use q ins in \<open>simp_all add: isInserting_def\<close>)
qed

text \<open>The manager has entered the schedule queue of the event that arrives.\<close>

definition enteredRun :: "(nat \<times> intvtime choice) list" where
  "enteredRun = [(0, CallInsert (posEvent 1 5 0 10)), (0, Proceed), (0, Proceed), (0, Proceed)]"

theorem schedule_lock_never_waits_witness:
  "\<exists>s s'. scheduleQueueLock (LTSF s 0) = Some 0 \<and> threadStep intTime 0 Proceed s = Some s'"
proof -
  have "map_option (\<lambda>s. scheduleQueueLock (LTSF s 0)) (runThreads intTime enteredRun (ThreadedTimeWarpMultiSet 1 (IntVTime 0))) =
     Some (Some 0)"
    by (simp add: enteredRun_def run_defs)
  then obtain s where r: "runThreads intTime enteredRun (ThreadedTimeWarpMultiSet 1 (IntVTime 0)) = Some s"
    and l: "scheduleQueueLock (LTSF s 0) = Some 0" by auto
  have "threadsReachable intTime 1 s"
    by (rule runThreads_reachable [OF reach_start r]) simp
  from schedule_lock_never_waits [OF this l] l show ?thesis by blast
qed

text \<open>One thread works on an object at a time: the thread that has chosen an object, and has not yet returned it,
  has its status lock, and the object is not in the schedule queue.\<close>

lemma works_alone:
  assumes "threadsReachable approx n s" and "objHeld (control_of s t) = Some i"
  shows "objectStatusLock (LTSF s (LTSFOwner s i)) (LTSFObjId s i) = Some t \<and>
    lowestObjectPosition (LTSF s (LTSFOwner s i)) (LTSFObjId s i) = None \<and>
    i \<notin> qObj ` set (ms_vals (scheduleQueue (LTSF s q)))"
proof -
  note D = tset_invD [OF tset_inv_reachable [OF assms(1)]]
  have st: "statusLocks s i = Some t" using locks_okD(3) [OF D(2)] assms(2) by simp
  have pos: "positions s i = None" using sched_okD(5) [OF D(3), of i] st by (cases "positions s i") simp_all
  have "qObj x \<noteq> i" if "x \<in> set (ms_vals (scheduleQueue (LTSF s q)))" for x
  proof -
    have "distinct (map fst (nodes (schedules s q)))"
      using sched_okD(2) [OF D(3), of q] by (simp add: ms_ids_ok_def ms_ids_def)
    with that obtain k where "ms_deref (schedules s q) (Some k) = Some x"
      by (auto simp: ms_vals_def ms_deref_Some schedules_def)
    from sched_okD(4) [OF D(3) this] pos show ?thesis by auto
  qed
  with st pos show ?thesis by (auto simp: statusLocks_def positions_def)
qed

lemma works_alone_witness:
  "\<exists>s :: intvtime tset. objHeld (control_of s 1) = Some 0 \<and> objectStatusLock (LTSF s 0) 0 = Some 1"
proof -
  have "map_option (\<lambda>s. (LTSFCount s, objHeld (control_of s 1)))
     (runThreads intTime (arrivedRun @ chooseObject 1) (ThreadedTimeWarpMultiSet 1 (IntVTime 0))) = Some (1, Some 0)"
    by (simp add: arrivedRun_def run_defs)
  then obtain s where r: "runThreads intTime (arrivedRun @ chooseObject 1) (ThreadedTimeWarpMultiSet 1 (IntVTime 0)) = Some s"
    and h: "objHeld (control_of s 1) = Some 0" and n: "LTSFCount s = 1" by auto
  have "threadsReachable intTime 1 s"
    by (rule runThreads_reachable [OF reach_start r]) simp
  from works_alone [OF this h, of 0] n h have "objHeld (control_of s 1) = Some 0 \<and> objectStatusLock (LTSF s 0) 0 = Some 1"
    by (simp add: LTSFOwner_def LTSFObjId_def)
  then show ?thesis by blast
qed

text \<open>\<open>isScheduleQueueEmpty\<close>, for one queue or, at \<open>LTSFCount\<close>, for all of them, as \<open>checkTermination\<close> asks.\<close>

definition tt_isScheduleQueueEmpty :: "nat \<Rightarrow> 't tset \<Rightarrow> bool option" where
  "tt_isScheduleQueueEmpty ltsfIndex s =
     (if ltsfIndex < LTSFCount s then Some (isScheduleQueueEmpty (LTSF s ltsfIndex))
      else if ltsfIndex = LTSFCount s then Some (list_all (\<lambda>q. isScheduleQueueEmpty (LTSF s q)) [0 ..< LTSFCount s])
      else None)"

definition checkTermination :: "'t tset \<Rightarrow> bool option" where
  "checkTermination s = tt_isScheduleQueueEmpty (LTSFCount s) s"

text \<open>C9: the test that ends the simulation is right. When the workers are idle and nothing is being inserted, the
  schedule queues are all empty exactly if no object has an unprocessed event.\<close>

theorem termination_check_exact:
  assumes "threadsReachable approx n s" and "\<forall>t. control_of s t = Idle" and "\<forall>t. inserting_of s t = NotInserting"
  shows "checkTermination s = Some (\<forall>i. ms_isEmpty (unProcessedQueue s i))"
proof -
  note inv = tset_inv_reachable [OF assms(1)]
  note D = tset_invD [OF inv]
  have free: "statusLocks s i = None" for i
    using locks_okD(3) [OF D(2), of i] assms(2) by (cases "statusLocks s i") auto
  have front: "ms_front (unProcessedQueue s i) = ms_deref (schedules s (i mod LTSFCount s)) (positions s i)" for i
    using link_okD(1) [OF D(4) free] assms(3) by simp
  have "isScheduleQueueEmpty (LTSF s q)" if e: "\<forall>i. ms_isEmpty (unProcessedQueue s i)" for q
  proof (rule ccontr)
    assume "\<not> isScheduleQueueEmpty (LTSF s q)"
    then obtain x where x: "ms_front (schedules s q) = Some x"
      by (auto simp: isScheduleQueueEmpty_def ms_isEmpty_def ms_front_def schedules_def split: list.splits)
    note F = sched_front [OF D(3) x]
    have "ms_front (unProcessedQueue s (qObj x)) = Some x"
      using front [of "qObj x"] F(1,2) x by simp
    with e show False by (simp add: ms_isEmpty_iff ms_front_hd)
  qed
  moreover have "ms_isEmpty (unProcessedQueue s i)" if e: "list_all (\<lambda>q. isScheduleQueueEmpty (LTSF s q)) [0 ..< LTSFCount s]" for i
  proof -
    have "ms_isEmpty (schedules s (i mod LTSFCount s))"
      using e D(1) by (simp add: list_all_iff isScheduleQueueEmpty_def schedules_def)
    then have "ms_front (unProcessedQueue s i) = None"
      using front [of i] by (cases "positions s i") (auto simp: ms_isEmpty_iff ms_vals_def ms_deref_Some)
    then show ?thesis by (simp add: ms_isEmpty_iff ms_front_None_iff)
  qed
  ultimately show ?thesis
    by (auto simp: checkTermination_def tt_isScheduleQueueEmpty_def list_all_iff)
qed

theorem termination_check_exact_witness:
  "\<exists>s. threadsReachable intTime 1 s \<and> queuedAt 0 s = [posEvent 1 5 0 10] \<and> checkTermination s = Some False"
proof -
  obtain s where s: "threadsReachable intTime 1 s" "\<forall>t. control_of s t = Idle" "\<forall>t. inserting_of s t = NotInserting"
    and q: "queuedAt 0 s = [posEvent 1 5 0 10]" by (rule arrived_state)
  have "\<not> (\<forall>i. ms_isEmpty (unProcessedQueue s i))"
    using q by (auto simp: ms_isEmpty_iff queuedAt_def intro!: exI [of _ 0])
  with termination_check_exact [OF s] s(1) q show ?thesis by auto
qed

subsection \<open>The times the GVT manager asks for\<close>

lemma least_of_options:
  fixes f :: "nat \<Rightarrow> ('t :: linorder) option"
  defines "g \<equiv> \<lambda>minimum i. case minimum of None \<Rightarrow> f i
         | Some m \<Rightarrow> (case f i of Some v \<Rightarrow> if v < m then f i else minimum | None \<Rightarrow> minimum)"
  shows "(\<forall>v. low = Some v \<longrightarrow> (\<exists>m. foldl g low is = Some m \<and> m \<le> v)) \<and>
    (\<forall>i \<in> set is. \<forall>v. f i = Some v \<longrightarrow> (\<exists>m. foldl g low is = Some m \<and> m \<le> v))"
proof (induction "is" arbitrary: low)
  case (Cons i "is")
  have "\<exists>m. foldl g (g low i) is = Some m \<and> m \<le> v" if lf: "low = Some v \<or> f i = Some v" for v
  proof -
    have "\<exists>m1. g low i = Some m1 \<and> m1 \<le> v"
      using lf unfolding g_def by (cases low; cases "f i") auto
    then obtain m1 where m1: "g low i = Some m1" "m1 \<le> v" by blast
    then obtain m where "foldl g (g low i) is = Some m" "m \<le> m1"
      using Cons.IH [of "g low i"] by blast
    with m1(2) show ?thesis by (blast intro: order_trans)
  qed
  moreover have "\<forall>j \<in> set is. \<forall>v. f j = Some v \<longrightarrow> (\<exists>m. foldl g (g low i) is = Some m \<and> m \<le> v)"
    using Cons.IH [of "g low i"] by blast
  ultimately show ?case
    by (simp only: foldl.simps list.set ball_simps) blast
qed simp

text \<open>The time that goes into the GVT estimate is no later than any event of an object that no thread works on.\<close>

lemma next_time_is_low:
  assumes "threadsReachable approx n s" and "\<not> isObjectScheduled (LTSFObjId s j) (LTSF s (LTSFOwner s j))"
    and "\<forall>t y. inserting_of s t = InsertFirst y \<or> inserting_of s t = InsertScheduling y \<longrightarrow> qObj y \<noteq> j"
    and "y \<in> set (ms_vals (unProcessedQueue s j))"
  shows "tt_getLastEventScheduledTime lvt s \<le> min lvt (qTime y)"
proof -
  note inv = tset_inv_reachable [OF assms(1)]
  let ?q = "LTSFOwner s j"
  obtain z where z: "ms_front (unProcessedQueue s j) = Some z"
    using assms(4) by (cases "ms_vals (unProcessedQueue s j)") (auto simp: ms_front_hd)
  have "ms_inv qLess (unProcessedQueue s j)" using tset_invD(5) [OF inv] by (simp add: queues_ok_def)
  then have zy: "\<not> qLess y z" by (rule q_order.ms_front_minimal [OF _ z assms(4)])
  have m: "z \<in> set (ms_vals (schedules s ?q))"
    using front_is_scheduled [OF inv assms(2)] assms(3) z by (auto simp: schedules_def intro: ms_deref_in_vals)
  then obtain x where x: "ms_front (schedules s ?q) = Some x"
    by (cases "ms_vals (schedules s ?q)") (auto simp: ms_front_hd)
  have "\<not> qLess z x"
    by (rule q_order.ms_front_minimal [OF sched_okD(1) [OF tset_invD(3) [OF inv]] x m])
  with zy have "qTime x \<le> qTime y"
    using recv_order_time [of "wrapped y" "wrapped x"] q_order.neg_trans [of y z x] by (simp add: qLess_def qTime_def)
  moreover have "?q \<in> set [0 ..< LTSFCount s]" using tset_invD(1) [OF inv] by (simp add: LTSFOwner_def)
  then have "\<exists>m. tt_nextEventToBeScheduledTime s = Some m \<and> m \<le> qTime x"
    unfolding tt_nextEventToBeScheduledTime_def Let_def
    by (rule least_of_options [THEN conjunct2, rule_format]) (use x in \<open>simp add: ltsf_nextEventTime_def schedules_def\<close>)
  ultimately show ?thesis by (auto simp: tt_getLastEventScheduledTime_def)
qed

text \<open>\<open>getMinEventTime\<close> bounds every unprocessed event of its object.\<close>

lemma min_event_time_low:
  assumes "threadsReachable approx n s" and "y \<in> set (ms_vals (unProcessedQueue s i))"
  shows "\<exists>v. getMinEventTime i s = Some v \<and> v \<le> qTime y"
proof -
  obtain z where z: "ms_front (unProcessedQueue s i) = Some z"
    using assms(2) by (cases "ms_vals (unProcessedQueue s i)") (auto simp: ms_front_hd)
  have "ms_inv qLess (unProcessedQueue s i)"
    using tset_invD(5) [OF tset_inv_reachable [OF assms(1)]] by (simp add: queues_ok_def)
  then have "\<not> qLess y z" by (rule q_order.ms_front_minimal [OF _ z assms(2)])
  with z show ?thesis
    using recv_order_time [of "wrapped y" "wrapped z"] by (simp add: getMinEventTime_def qLess_def qTime_def)
qed

subsection \<open>What a step leaves to the other threads\<close>

definition leaves_others :: "nat \<Rightarrow> ('t :: linorder) tset \<Rightarrow> 't tset \<Rightarrow> bool" where
  "leaves_others t s s' \<longleftrightarrow> (\<forall>t'. t' \<noteq> t \<longrightarrow> inserting_of s' t' = inserting_of s t' \<and>
     (\<forall>i. unprocessedQueueLockState s i = Some t' \<longrightarrow> unprocessedQueueLockState s' i = Some t'))"

lemma leaves_own: "own_change t i s s' \<Longrightarrow> leaves_others t s s'"
  by (simp add: leaves_others_def own_change_def)

lemma leaves_goto [simp]: "leaves_others t s (goto t c s') \<longleftrightarrow> leaves_others t s s'"
  by (simp add: leaves_others_def)

lemma leaves_insertGoto [simp]: "leaves_others t s (insertGoto t p s') \<longleftrightarrow> leaves_others t s s'"
  by (simp add: leaves_others_def)

lemma leaves_onLTSF [simp]: "leaves_others t s (onLTSF q f s') \<longleftrightarrow> leaves_others t s s'"
  by (simp add: leaves_others_def)

lemma leaves_refl [simp]: "leaves_others t s s"
  by (simp add: leaves_others_def)

lemma leaves_update [simp]:
  "leaves_others t s (s'\<lparr>committedEventsByObj := a, committedEventsByLTSF := b\<rparr>) \<longleftrightarrow> leaves_others t s s'"
  "leaves_others t s (s\<lparr>unProcessedQueue := u\<rparr>)" "leaves_others t s (tt_fossilCollect i gvt s)"
  by (simp_all add: leaves_others_def tt_fossilCollect_def)

lemmas leaves_intros = leaves_own [OF own_get] leaves_own [OF own_release] leaves_own [OF own_time]
  leaves_own [OF own_getEventIfStraggler] leaves_own [OF own_peekEventLockUnprocessed] leaves_own [OF own_getEvent]
  leaves_own [OF own_getEventWhileRollback] leaves_own [OF own_handleAntiMessage]
  leaves_own [OF own_change_trans [OF own_time own_rollback]]
  leaves_own [OF own_change_trans [OF own_peekEventLockUnprocessed own_time]]

lemma leaves_insertStep: "insertStep t p s = Some s' \<Longrightarrow> leaves_others t s s'"
  by (cases p) (auto simp: insertLock_def insertQueue_def insertLockSchedule_def insertSection_def insertUnlockSchedule_def
      insertUnlock_def Let_def split: bind_splits if_splits intro: leaves_intros)

lemma leaves_workerStep: "workerStep t c s = Some s' \<Longrightarrow> leaves_others t s s'"
  by (cases c) (auto simp: peekLock_def peekSection_def peekUnlock_def checkStraggler_def coastPeek_def coastPop_def
      cancelNext_def executeNext_def updateLockUnprocessed_def updateLockSchedule_def updateSection_def
      updateUnlockSchedule_def updateUnlockUnprocessed_def Let_def
      split: bind_splits if_splits option.splits list.splits intro: leaves_intros)

lemma leaves_threadStep: "threadStep approx t c s = Some s' \<Longrightarrow> leaves_others t s s'"
proof (cases c)
  case GetNextEvent
  moreover assume "threadStep approx t c s = Some s'"
  ultimately show ?thesis
    by (cases "control_of s t") (auto simp: executeGet_def coastGet_def split: if_splits bind_splits option.splits intro: leaves_intros)
next
  case (RestoreState r eid sid)
  moreover assume "threadStep approx t c s = Some s'"
  ultimately show ?thesis
    by (cases "control_of s t") (auto simp: restore_def split: if_splits intro: leaves_intros)
qed (auto split: if_splits intro: leaves_insertStep leaves_workerStep)

subsection \<open>Threads that wait for each other\<close>

inductive threadsRun :: "('t \<Rightarrow> int) \<Rightarrow> ('t :: linorder) tset \<Rightarrow> 't tset \<Rightarrow> bool" for approx :: "'t \<Rightarrow> int" where
  run_refl: "threadsRun approx s s"
| run_step: "threadsRun approx s s1 \<Longrightarrow> threadStep approx t c s1 = Some s' \<Longrightarrow> threadsRun approx s s'"

definition stuckForever :: "('t \<Rightarrow> int) \<Rightarrow> nat \<Rightarrow> ('t :: linorder) tset \<Rightarrow> bool" where
  "stuckForever approx t s \<longleftrightarrow> (\<forall>s' c. threadsRun approx s s' \<longrightarrow> threadStep approx t c s' = None)"

text \<open>Each of two workers has the unprocessed events locked that the other is about to insert into.\<close>

definition crossed :: "nat \<Rightarrow> nat \<Rightarrow> 't qevent \<Rightarrow> 't qevent \<Rightarrow> 't tset \<Rightarrow> bool" where
  "crossed t t' x x' s \<longleftrightarrow> t \<noteq> 0 \<and> t' \<noteq> 0 \<and> t \<noteq> t' \<and>
     inserting_of s t = InsertCalled x \<and> inserting_of s t' = InsertCalled x' \<and>
     unprocessedQueueLockState s (qObj x) = Some t' \<and> unprocessedQueueLockState s (qObj x') = Some t"

lemma crossed_blocks: "crossed t t' x x' s \<Longrightarrow> threadStep approx t c s = None \<and> threadStep approx t' c s = None"
  by (cases c) (auto simp: crossed_def isInserting_def insertLock_def getunProcessedLock_def setLock_def)

lemma crossed_step:
  assumes "crossed t t' x x' s" and step: "threadStep approx u c s = Some s'"
  shows "crossed t t' x x' s'"
proof -
  have "u \<noteq> t" "u \<noteq> t'" using crossed_blocks [OF assms(1), of approx c] step by auto
  with leaves_threadStep [OF step] assms(1) show ?thesis
    by (simp add: crossed_def leaves_others_def)
qed

lemma crossed_forever:
  assumes "crossed t t' x x' s"
  shows "stuckForever approx t s \<and> stuckForever approx t' s"
proof -
  have "crossed t t' x x' s1" if "threadsRun approx s s1" for s1
    using that assms by (induction rule: threadsRun.induct) (blast intro: crossed_step)+
  then show ?thesis unfolding stuckForever_def using crossed_blocks by blast
qed

text \<open>C10: two workers can wait for each other for ever. \<open>getEventIfStraggler\<close> returns a
  straggler with the unprocessed events of the object locked, and \<open>rollback\<close> keeps them locked while the cancel messages are
  inserted: when two objects that have sent each other an event are rolled back at the same time, each worker
  waits in \<open>insert\<close> for the lock the other holds, whatever any thread does afterwards.\<close>

theorem rollbacks_deadlock:
  "\<exists>s. threadsReachable intTime 1 s \<and> stuckForever intTime 1 s \<and> stuckForever intTime 2 s"
proof -
  obtain s where r: "runThreads intTime crossRun (ThreadedTimeWarpMultiSet 1 (IntVTime 0)) = Some s"
    and c: "inserting_of s 1 = InsertCalled (cancelOf 10 (posEvent 3 0 1 30))"
      "inserting_of s 2 = InsertCalled (cancelOf 12 (posEvent 4 1 0 30))"
      "unprocessedQueueLockState s 0 = Some 1" "unprocessedQueueLockState s 1 = Some 2"
    using crossRun_result by auto
  have "threadsReachable intTime 1 s"
    by (rule runThreads_reachable [OF reach_start r]) simp
  moreover have "qObj (cancelOf 10 (posEvent 3 0 1 30)) = 1" "qObj (cancelOf 12 (posEvent 4 1 0 30)) = 0"
    by code_simp+
  with c have "crossed 1 2 (cancelOf 10 (posEvent 3 0 1 30)) (cancelOf 12 (posEvent 4 1 0 30)) s"
    by (simp add: crossed_def)
  ultimately show ?thesis using crossed_forever by blast
qed

text \<open>
  Object 0 executes events at times 3 and 10, the second sends it an event for time 30; an event
  for time 5 arrives and the object is rolled back to time 0. The cancellation of its own event goes through \<open>insert\<close>.
\<close>

definition raceRun :: "(nat \<times> intvtime choice) list" where
  "raceRun =
     insertFront 0 (posEvent 1 5 0 3) @ executeSending 1 [] @
     insertFront 0 (posEvent 2 5 0 10) @ executeSending 1 (insertFront 1 (posEvent 3 0 0 30)) @
     insertFront 0 (posEvent 4 5 0 5) @ chooseObject 1 @
     [(1, RestoreState (IntVTime 0) 0 0)] @ insertBehind 1 (cancelOf 10 (posEvent 3 0 0 30)) @
     [(1, Proceed), (1, GetNextEvent), (0, CallInsert (posEvent 5 5 0 40)), (0, Proceed)]"

lemma raceRun_result:
  "map_option (\<lambda>s. (control_of s 1, inserting_of s 0, unprocessedQueueLockState s 0, length (queuedAt 0 s),
       map_option (\<lambda>s'. length (queuedAt 0 s')) (threadStep intTime 1 Proceed s),
       map_option (\<lambda>s'. length (queuedAt 0 s')) (threadStep intTime 0 Proceed s)))
     (runThreads intTime raceRun (ThreadedTimeWarpMultiSet 1 (IntVTime 0))) =
   Some (CoastGetting 0 (posEvent 4 5 0 5), InsertLocked (posEvent 5 5 0 40), Some 0, 5, Some 4, Some 6)"
  by (simp add: raceRun_def run_defs cancelOf_def cancelLocalStraggler_def NegativeEvent_def queuedAt_def lowTime_def)

text \<open>C11: the multiset of an object can be changed by two threads at once. Locks are taken again by their owner but
  released only once, so when a rolled back object cancels an event it sent to itself, \<open>insert\<close> releases the lock
  that \<open>rollback\<close> relies on. \<open>getEventWhileRollback\<close> then erases from the multiset while another thread holds
  the lock and is about to insert into it.\<close>

theorem coast_forward_unlocked:
  "\<exists>s s1 s2 x y. threadsReachable intTime 1 s \<and> control_of s 1 = CoastGetting 0 x \<and>
     inserting_of s 0 = InsertLocked y \<and> unprocessedQueueLockState s 0 = Some 0 \<and>
     threadStep intTime 1 Proceed s = Some s1 \<and> unProcessedQueue s1 0 \<noteq> unProcessedQueue s 0 \<and>
     threadStep intTime 0 Proceed s = Some s2 \<and> unProcessedQueue s2 0 \<noteq> unProcessedQueue s 0"
proof -
  obtain s s1 s2 where r: "runThreads intTime raceRun (ThreadedTimeWarpMultiSet 1 (IntVTime 0)) = Some s"
    and c: "control_of s 1 = CoastGetting 0 (posEvent 4 5 0 5)" "inserting_of s 0 = InsertLocked (posEvent 5 5 0 40)"
      "unprocessedQueueLockState s 0 = Some 0" "threadStep intTime 1 Proceed s = Some s1" "threadStep intTime 0 Proceed s = Some s2"
    and l: "length (queuedAt 0 s) = 5" "length (queuedAt 0 s1) = 4" "length (queuedAt 0 s2) = 6"
    using raceRun_result by auto
  have "unProcessedQueue s1 0 \<noteq> unProcessedQueue s 0" "unProcessedQueue s2 0 \<noteq> unProcessedQueue s 0"
    using l by (auto simp: queuedAt_def)
  moreover have "threadsReachable intTime 1 s"
    by (rule runThreads_reachable [OF reach_start r]) simp
  ultimately show ?thesis using c by blast
qed

end
