(* ===== verification/ThreadedLVT.thy ===== *)
theory ThreadedLVT
  imports VirtualTime
begin

text \<open>
  How the threads of a simulation manager find its local virtual time, in
  \<open>ThreadedTimeWarpSimulationManager.cpp\<close>: \<open>updateSendMinTime\<close>, the two \<open>updateLVTArray\<close>,
  \<open>decrementLVTFlag\<close>, \<open>initiateLocalGVT\<close>, \<open>updateLVTfromArray\<close> and the status flags. The manager
  collects three rounds; in each, every worker reports once and counts \<open>LVTFlag\<close> down. A worker
  runs \<open>updateLVTArray\<close> in four steps, because only the countdown is under a lock.
  The time of an object's next event is an argument; a reclaimed \<open>VTime\<close> keeps its value here.
\<close>

subsection \<open>State and operations\<close>

datatype reporting = NotReporting | Reported | Counted | Cleared

record 't lvtState =
  numberOfWorkerThreads :: nat
  LVT :: 't
  LVTFlag :: u32
  lvtCount :: int
  LVTArray :: "nat \<Rightarrow> 't option"
  sendMinTimeArray :: "nat \<Rightarrow> 't option"
  computeLVTStatus :: "nat \<Rightarrow> bool"
  reporting_of :: "nat \<Rightarrow> reporting"

definition lvtInit :: "nat \<Rightarrow> 't \<Rightarrow> 't lvtState" where
  "lvtInit n zeroTime = \<lparr>numberOfWorkerThreads = n, LVT = zeroTime, LVTFlag = 0, lvtCount = 0, LVTArray = (\<lambda>_. None),
     sendMinTimeArray = (\<lambda>_. None), computeLVTStatus = (\<lambda>_. True), reporting_of = (\<lambda>_. NotReporting)\<rparr>"

text \<open>A later time is compared (\<open>==\<close>) with the saved one where it should be assigned: the first one stays.\<close>

definition updateSendMinTime :: "nat \<Rightarrow> 't \<Rightarrow> 't lvtState \<Rightarrow> 't lvtState" where
  "updateSendMinTime threadId sendTime s =
     (if \<not> computeLVTStatus s threadId
      then (case sendMinTimeArray s threadId of
              None \<Rightarrow> s\<lparr>sendMinTimeArray := (sendMinTimeArray s)(threadId := Some sendTime)\<rparr>
            | Some _ \<Rightarrow> s)
      else s)"

definition reportLVT :: "nat \<Rightarrow> ('t :: linorder) option \<Rightarrow> 't lvtState \<Rightarrow> 't lvtState" where
  "reportLVT threadId nextEventTime s =
     (if \<not> computeLVTStatus s threadId
      then (case (sendMinTimeArray s threadId, nextEventTime) of
              (Some sendMin, Some next) \<Rightarrow>
                s\<lparr>LVTArray := (LVTArray s)(threadId := Some (if next > sendMin then sendMin else next)),
                  reporting_of := (reporting_of s)(threadId := Reported)\<rparr>
            | _ \<Rightarrow> s)
      else s)"

definition decrementLVTFlag :: "nat \<Rightarrow> 't lvtState \<Rightarrow> 't lvtState" where
  "decrementLVTFlag threadId s = s\<lparr>LVTFlag := LVTFlag s - 1, reporting_of := (reporting_of s)(threadId := Counted)\<rparr>"

definition clearSendMinTime :: "nat \<Rightarrow> 't lvtState \<Rightarrow> 't lvtState" where
  "clearSendMinTime threadId s = s\<lparr>sendMinTimeArray := (sendMinTimeArray s)(threadId := None),
     reporting_of := (reporting_of s)(threadId := Cleared)\<rparr>"

definition setStatus :: "nat \<Rightarrow> 't lvtState \<Rightarrow> 't lvtState" where
  "setStatus threadId s = s\<lparr>computeLVTStatus := (computeLVTStatus s)(threadId := True),
     reporting_of := (reporting_of s)(threadId := NotReporting)\<rparr>"

definition resetComputeLVTStatus :: "'t lvtState \<Rightarrow> 't lvtState" where
  "resetComputeLVTStatus s = s\<lparr>computeLVTStatus :=
     (\<lambda>i. if 1 \<le> i \<and> i < numberOfWorkerThreads s then False else computeLVTStatus s i)\<rparr>"

definition initiateLocalGVT :: "'t lvtState \<Rightarrow> 't lvtState \<times> bool" where
  "initiateLocalGVT s =
     (if LVTFlag s = 0 then ((resetComputeLVTStatus s)\<lparr>LVTFlag := of_nat (numberOfWorkerThreads s - 1)\<rparr>, True) else (s, False))"

text \<open>The minimum of one round.\<close>

definition roundMinimum :: "('t :: {linorder, order_top}) lvtState \<Rightarrow> 't" where
  "roundMinimum s = foldl (\<lambda>minimum i. case LVTArray s i of
       Some v \<Rightarrow> if v < minimum then v else minimum | None \<Rightarrow> minimum) top [1 ..< numberOfWorkerThreads s]"

definition updateLVTfromArray :: "('t :: {linorder, order_top}) lvtState \<Rightarrow> 't lvtState \<times> bool" where
  "updateLVTfromArray s =
     (if LVTFlag s = 0
      then (let s1 = s\<lparr>lvtCount := lvtCount s + 1\<rparr>; minimum = roundMinimum s;
                lower = (if LVT s > minimum then minimum else LVT s) in
            if lvtCount s1 = 1
            then (resetComputeLVTStatus (s1\<lparr>LVT := minimum, LVTFlag := of_nat (numberOfWorkerThreads s - 1)\<rparr>), False)
            else if lvtCount s1 = 2
            then (resetComputeLVTStatus (s1\<lparr>LVT := lower, LVTFlag := of_nat (numberOfWorkerThreads s - 1)\<rparr>), False)
            else if lvtCount s1 = 3 then (s1\<lparr>LVT := lower, lvtCount := 0\<rparr>, True)
            else (s1, False))
      else (s, False))"

text \<open>The steps of the workers and of the manager.\<close>

datatype 't lvtStep =
    Sends nat 't
  | Reports nat "'t option"
  | Continues nat
  | Initiates
  | Collects

fun continueReport :: "nat \<Rightarrow> reporting \<Rightarrow> 't lvtState \<Rightarrow> 't lvtState option" where
  "continueReport t NotReporting s = None"
| "continueReport t Reported s = Some (decrementLVTFlag t s)"
| "continueReport t Counted s = Some (clearSendMinTime t s)"
| "continueReport t Cleared s = Some (setStatus t s)"

definition isWorker :: "nat \<Rightarrow> 't lvtState \<Rightarrow> bool" where
  "isWorker t s \<longleftrightarrow> 1 \<le> t \<and> t < numberOfWorkerThreads s"

fun lvt_step :: "'t lvtStep \<Rightarrow> ('t :: {linorder, order_top}) lvtState \<Rightarrow> 't lvtState option" where
  "lvt_step (Sends t time) s =
     (if isWorker t s \<and> reporting_of s t = NotReporting then Some (updateSendMinTime t time s) else None)"
| "lvt_step (Reports t next) s =
     (if isWorker t s \<and> reporting_of s t = NotReporting then Some (reportLVT t next s) else None)"
| "lvt_step (Continues t) s = (if isWorker t s then continueReport t (reporting_of s t) s else None)"
| "lvt_step Initiates s = Some (fst (initiateLocalGVT s))"
| "lvt_step Collects s = Some (fst (updateLVTfromArray s))"

inductive lvtReachable :: "nat \<Rightarrow> ('t :: {linorder, order_top}) lvtState \<Rightarrow> bool" for n :: nat where
  lvt_start: "0 < n \<Longrightarrow> n \<le> 2 ^ 32 \<Longrightarrow> lvtReachable n (lvtInit n z)"
| lvt_next: "lvtReachable n s \<Longrightarrow> lvt_step c s = Some s' \<Longrightarrow> lvtReachable n s'"

fun lvt_run :: "'t lvtStep list \<Rightarrow> ('t :: {linorder, order_top}) lvtState \<Rightarrow> 't lvtState option" where
  "lvt_run [] s = Some s"
| "lvt_run (c # cs) s = Option.bind (lvt_step c s) (lvt_run cs)"

lemma lvt_run_reachable: "lvtReachable n s \<Longrightarrow> lvt_run cs s = Some s' \<Longrightarrow> lvtReachable n s'"
proof (induction cs arbitrary: s)
  case (Cons c cs)
  then show ?case by (auto split: bind_splits intro: lvt_next)
qed simp

subsection \<open>The countdown\<close>

text \<open>The workers that may still count \<open>LVTFlag\<close> down in this round.\<close>

definition pendingWorkers :: "'t lvtState \<Rightarrow> nat set" where
  "pendingWorkers s = {t. isWorker t s \<and>
     (reporting_of s t = Reported \<or> reporting_of s t = NotReporting \<and> \<not> computeLVTStatus s t)}"

definition lvt_inv :: "nat \<Rightarrow> 't lvtState \<Rightarrow> bool" where
  "lvt_inv n s \<longleftrightarrow> numberOfWorkerThreads s = n \<and> 0 < n \<and> n \<le> 2 ^ 32 \<and> card (pendingWorkers s) \<le> unat (LVTFlag s)"

lemma finite_pending [simp]: "finite (pendingWorkers s)"
  by (rule finite_subset [of _ "{..< numberOfWorkerThreads s}"]) (auto simp: pendingWorkers_def isWorker_def)

lemma card_pending: "numberOfWorkerThreads s = n \<Longrightarrow> card (pendingWorkers s) \<le> n - 1"
  by (rule order_trans [OF card_mono [of "{1 ..< n}"]]) (auto simp: pendingWorkers_def isWorker_def)

lemma unat_workers: "0 < n \<Longrightarrow> n \<le> 2 ^ 32 \<Longrightarrow> unat (of_nat (n - 1) :: u32) = n - 1"
  by (simp only: unat_of_nat) (rule mod_less, simp)

lemma lvt_inv_mono:
  assumes "lvt_inv n s" and "numberOfWorkerThreads s' = numberOfWorkerThreads s" and "LVTFlag s' = LVTFlag s"
    and "pendingWorkers s' \<subseteq> pendingWorkers s"
  shows "lvt_inv n s'"
  using assms card_mono [OF finite_pending assms(4)] by (simp add: lvt_inv_def)

lemma lvt_inv_full:
  assumes "lvt_inv n s" and "numberOfWorkerThreads s' = n" and "LVTFlag s' = of_nat (n - 1)"
  shows "lvt_inv n s'"
proof -
  have n: "0 < n" "n \<le> 2 ^ 32" using assms(1) by (simp_all add: lvt_inv_def)
  have "unat (LVTFlag s') = n - 1" by (simp only: assms(3) unat_workers [OF n])
  with card_pending [OF assms(2)] n assms(2) show ?thesis by (simp add: lvt_inv_def)
qed

lemma lvt_inv_continue:
  assumes inv: "lvt_inv n s" and w: "isWorker t s" and step: "continueReport t (reporting_of s t) s = Some s'"
  shows "lvt_inv n s'"
proof (cases "reporting_of s t")
  case Reported
  then have s': "s' = decrementLVTFlag t s" using step by simp
  have p: "pendingWorkers s' = pendingWorkers s - {t}"
    by (auto simp: s' decrementLVTFlag_def pendingWorkers_def isWorker_def)
  have t: "t \<in> pendingWorkers s" using Reported w by (simp add: pendingWorkers_def)
  have "card (pendingWorkers s) > 0" using t by (auto simp: card_gt_0_iff)
  then have "0 < unat (LVTFlag s)" using inv by (simp add: lvt_inv_def)
  then have "unat (LVTFlag s - 1) = unat (LVTFlag s) - 1"
    by (metis unat_eq_zero neq0_conv unat_minus_one)
  with inv p t show ?thesis
    by (simp add: lvt_inv_def s' decrementLVTFlag_def card_Diff_singleton diff_le_mono)
next
  case Counted
  then show ?thesis using step
    by (intro lvt_inv_mono [OF inv]) (auto simp: clearSendMinTime_def pendingWorkers_def isWorker_def split: if_splits)
next
  case Cleared
  then show ?thesis using step
    by (intro lvt_inv_mono [OF inv]) (auto simp: setStatus_def pendingWorkers_def isWorker_def split: if_splits)
qed (use step in simp)

lemma lvt_inv_collect:
  assumes inv: "lvt_inv n s"
  shows "lvt_inv n (fst (updateLVTfromArray s))"
proof -
  have n: "numberOfWorkerThreads s = n" using inv by (simp add: lvt_inv_def)
  show ?thesis
  proof (cases "LVTFlag s = 0 \<and> (lvtCount s = 0 \<or> lvtCount s = 1)")
    case True
    then have "numberOfWorkerThreads (fst (updateLVTfromArray s)) = n" "LVTFlag (fst (updateLVTfromArray s)) = of_nat (n - 1)"
      by (auto simp: updateLVTfromArray_def Let_def resetComputeLVTStatus_def n)
    then show ?thesis by (rule lvt_inv_full [OF inv])
  next
    case False
    then show ?thesis
      by (intro lvt_inv_mono [OF inv]) (auto simp: updateLVTfromArray_def Let_def pendingWorkers_def isWorker_def)
  qed
qed

lemma lvt_inv_initiate:
  assumes inv: "lvt_inv n s"
  shows "lvt_inv n (fst (initiateLocalGVT s))"
proof (cases "LVTFlag s = 0")
  case True
  have n: "numberOfWorkerThreads s = n" using inv by (simp add: lvt_inv_def)
  from True have "numberOfWorkerThreads (fst (initiateLocalGVT s)) = n" "LVTFlag (fst (initiateLocalGVT s)) = of_nat (n - 1)"
    by (simp_all add: initiateLocalGVT_def resetComputeLVTStatus_def n)
  then show ?thesis by (rule lvt_inv_full [OF inv])
qed (use inv in \<open>simp add: initiateLocalGVT_def\<close>)

lemma lvt_inv_reachable: "lvtReachable n s \<Longrightarrow> lvt_inv n s"
proof (induction rule: lvtReachable.induct)
  case (lvt_start z)
  then show ?case by (simp add: lvt_inv_def lvtInit_def pendingWorkers_def)
next
  case (lvt_next s c s')
  note inv = lvt_next.IH
  show ?case
  proof (cases c)
    case (Sends t v)
    with lvt_next show ?thesis
      by (intro lvt_inv_mono [OF inv]) (auto simp: updateSendMinTime_def pendingWorkers_def isWorker_def split: if_splits option.splits)
  next
    case (Reports t v)
    with lvt_next show ?thesis
      by (intro lvt_inv_mono [OF inv]) (auto simp: reportLVT_def pendingWorkers_def isWorker_def split: if_splits option.splits)
  next
    case (Continues t)
    with lvt_next show ?thesis by (auto split: if_splits intro: lvt_inv_continue)
  next
    case Initiates
    with lvt_next show ?thesis by (auto intro: lvt_inv_initiate)
  next
    case Collects
    with lvt_next show ?thesis by (auto intro: lvt_inv_collect)
  qed
qed

text \<open>C35: the countdown never wraps. A worker counts \<open>LVTFlag\<close>, an \<open>unsigned int\<close>, down only while it is positive,
  so the assertion in \<open>decrementLVTFlag\<close>, which an unsigned number cannot fail, holds for the reason it was written.\<close>

theorem countdown_never_wraps:
  assumes "lvtReachable n s" and "isWorker t s" and "reporting_of s t = Reported"
  shows "unat (LVTFlag (decrementLVTFlag t s)) + 1 = unat (LVTFlag s)"
proof -
  have "t \<in> pendingWorkers s" using assms(2,3) by (simp add: pendingWorkers_def)
  then have "card (pendingWorkers s) > 0" by (auto simp: card_gt_0_iff)
  with lvt_inv_reachable [OF assms(1)] have p: "0 < unat (LVTFlag s)" by (simp add: lvt_inv_def)
  then have "unat (LVTFlag s - 1) = unat (LVTFlag s) - 1"
    by (metis unat_eq_zero neq0_conv unat_minus_one)
  with p show ?thesis by (simp add: decrementLVTFlag_def)
qed

text \<open>One worker and the manager; the worker has sent two events when it reports.\<close>

definition oneWorkerRun :: "intvtime lvtStep list" where
  "oneWorkerRun = [Initiates, Sends 1 (IntVTime 20), Sends 1 (IntVTime 15), Reports 1 (Some (IntVTime 30))]"

lemma lvt_run_start:
  assumes "map_option f (lvt_run cs (lvtInit n z)) = Some v" and "0 < n" and "n \<le> 2 ^ 32"
  obtains s where "lvt_run cs (lvtInit n z) = Some s" and "lvtReachable n s" and "f s = v"
proof -
  obtain s where r: "lvt_run cs (lvtInit n z) = Some s" and v: "f s = v" using assms(1) by auto
  from r lvt_run_reachable [OF lvt_start [OF assms(2,3)] r] v show ?thesis by (rule that)
qed

theorem countdown_never_wraps_witness:
  "\<exists>s. lvtReachable 2 s \<and> LVTArray s 1 = Some (IntVTime 20) \<and> unat (LVTFlag (decrementLVTFlag 1 s)) + 1 = unat (LVTFlag s)"
proof -
  have "map_option (\<lambda>s. (isWorker 1 s, reporting_of s 1, LVTArray s 1)) (lvt_run oneWorkerRun (lvtInit 2 (IntVTime 0))) =
      Some (True, Reported, Some (IntVTime 20))"
    by code_simp
  then obtain s where "lvtReachable 2 s" and "isWorker 1 s" and "reporting_of s 1 = Reported" and "LVTArray s 1 = Some (IntVTime 20)"
    by (rule lvt_run_start) auto
  with countdown_never_wraps [of 2 s 1] show ?thesis by blast
qed

subsection \<open>What a round reports\<close>

lemma roundMinimum_fold:
  fixes low :: "'t :: linorder"
  defines "f \<equiv> \<lambda>A minimum i. case A i of Some v \<Rightarrow> if v < minimum then v else minimum | None \<Rightarrow> minimum"
  shows "foldl (f A) low is \<le> low \<and> (\<forall>i \<in> set is. \<forall>v. A i = Some v \<longrightarrow> foldl (f A) low is \<le> v)
     \<and> (foldl (f A) low is = low \<or> (\<exists>i \<in> set is. A i = Some (foldl (f A) low is)))"
proof (induction "is" arbitrary: low)
  case (Cons i "is")
  have "f A low i \<le> low \<and> (\<forall>v. A i = Some v \<longrightarrow> f A low i \<le> v) \<and> (f A low i = low \<or> A i = Some (f A low i))"
    by (auto simp: f_def split: option.splits)
  with Cons.IH [of "f A low i"] show ?case
    by (auto intro: order_trans)
qed simp

lemma roundMinimum_le: "isWorker i s \<Longrightarrow> LVTArray s i = Some v \<Longrightarrow> roundMinimum s \<le> v"
  using roundMinimum_fold [of "LVTArray s" top "[1 ..< numberOfWorkerThreads s]"]
  by (simp add: roundMinimum_def isWorker_def)

lemma roundMinimum_reported:
  "roundMinimum s = top \<or> (\<exists>i. isWorker i s \<and> LVTArray s i = Some (roundMinimum s))"
  using roundMinimum_fold [of "LVTArray s" top "[1 ..< numberOfWorkerThreads s]"]
  by (auto simp: roundMinimum_def isWorker_def)











text \<open>Only the first time a worker sends is kept. Of the receive times of the events that a worker sends in a round,
  \<open>updateSendMinTime\<close> keeps the first one, not the least, so the time reported to the manager can be greater than that of
  an event that is already on its way.\<close>

lemma send_minimum_is_first:
  assumes "\<not> computeLVTStatus s t" and "sendMinTimeArray s t = None"
  shows "sendMinTimeArray (foldl (\<lambda>s time. updateSendMinTime t time s) s (time # later)) t = Some time"
proof -
  have "sendMinTimeArray (foldl (\<lambda>s time. updateSendMinTime t time s) s' later) t = Some time"
    if "sendMinTimeArray s' t = Some time" for s'
    using that by (induction later arbitrary: s') (simp_all add: updateSendMinTime_def)
  then show ?thesis using assms by (simp add: updateSendMinTime_def)
qed

lemma send_minimum_is_first_witness:
  "sendMinTimeArray (foldl (\<lambda>s time. updateSendMinTime 1 time s) (fst (initiateLocalGVT (lvtInit 2 (IntVTime 0))))
     [IntVTime 20, IntVTime 15]) 1 = Some (IntVTime 20)"
  by (rule send_minimum_is_first) code_simp+

text \<open>C34: the computation of the local virtual time can stop for ever. The worker raises its status flag after it has
  counted \<open>LVTFlag\<close> down, outside the lock; when the manager starts the next round in between, the flag of the worker is
  lost, the countdown never reaches zero, and no step of any thread changes the state again.\<close>

definition lostStatusRun :: "intvtime lvtStep list" where
  "lostStatusRun = [Initiates, Sends 1 (IntVTime 20), Reports 1 (Some (IntVTime 30)), Continues 1, Collects, Continues 1, Continues 1]"

theorem lvt_rounds_stall:
  "\<exists>s :: intvtime lvtState. lvtReachable 2 s \<and> LVTFlag s \<noteq> 0 \<and> (\<forall>c. lvt_step c s = None \<or> lvt_step c s = Some s)"
proof -
  have "map_option (\<lambda>s. (LVTFlag s, computeLVTStatus s 1, reporting_of s 1)) (lvt_run lostStatusRun (lvtInit 2 (IntVTime 0))) =
      Some (1, True, NotReporting)"
    by code_simp
  then obtain s :: "intvtime lvtState" where s: "lvtReachable 2 s" "LVTFlag s = 1" "computeLVTStatus s 1" "reporting_of s 1 = NotReporting"
    by (rule lvt_run_start) auto
  have n: "numberOfWorkerThreads s = 2" using lvt_inv_reachable [OF s(1)] by (simp add: lvt_inv_def)
  have t: "t = 1" if "isWorker t s" for t using that n by (simp add: isWorker_def)
  have "lvt_step c s = None \<or> lvt_step c s = Some s" for c
    using s(2-4) t by (cases c) (auto simp: updateSendMinTime_def reportLVT_def initiateLocalGVT_def updateLVTfromArray_def)
  then have "\<forall>c. lvt_step c s = None \<or> lvt_step c s = Some s" by blast
  moreover have "LVTFlag s \<noteq> 0" by (simp add: s(2))
  ultimately show ?thesis using s(1) by blast
qed

end
