(* ===== verification/Spec2Isabelle.thy ===== *)
theory Spec2Isabelle
  imports EventSetProperties DefaultEventSet GVTProperties StateManager OutputQueue Messages FileQueues KernelProperties Termination Sequential DynamicOutput FossilProtocol Partitioning LadderProperties Aggregation Startup FrequencyScaling ThreadedProperties ThreadedLVT
begin

text \<open>
  WARPED is a parallel discrete event simulation kernel. A simulation is a set of objects that exchange events with receive times. In the
  Time Warp configuration the objects are distributed over simulation managers, and each object processes its events optimistically: an event
  that arrives in the object's past (a straggler) or an anti-message rolls the object back to an earlier saved state, the events it has sent since
  are cancelled, and global virtual time (GVT) tells what can no longer be rolled back and may be reclaimed. In the sequential
  configuration one manager executes all events in the order of their times. The sources are under \<open>src/src/\<close>.

  \<^bold>\<open>Conventions.\<close> Data structures are records and datatypes with the names of the code. A stateful operation takes the state and returns
  it changed; \<open>None\<close> stands for an abort, a failed assertion, an access outside of a vector, or the use of an iterator or pointer that
  is not valid, and for a loop that does not end. Times are of any linearly ordered type where the code uses the abstract class \<open>VTime\<close>, and
  32-bit words read as signed numbers where it uses \<open>IntVTime\<close>. Objects on the heap have addresses where identity matters (events, tree nodes,
  multiset nodes). What the code leaves to others is an argument: the application, \<open>std::sort\<close> on equal elements, the order of a
  hash map, METIS. Destructors, statistics and debug output are left out.

  \<^bold>\<open>The theories.\<close>

  \<^item> \<open>Prelude\<close>: machine integers, vectors, lists. \<open>OrderedMultiset\<close>: \<open>std::multiset\<close> with iterators that know when their node is gone.
  \<^item> \<open>VirtualTime\<close> (\<open>IntVTime.cpp\<close>), \<open>Events\<close> (\<open>Event.cpp\<close>, \<open>ObjectID.h\<close>, \<open>EventFunctors.h\<close>): order of times and events; the functors that order
    the queues are strict weak orders.
  \<^item> \<open>EventSet\<close>, \<open>EventSetProperties\<close> (\<open>TimeWarpMultiSet.cpp\<close>): the event set of the kernel. The invariant of its four groups of queues and
    iterators, that no operation uses a dead iterator in a reachable state, and what rollback, anti-messages, peeking and fossil collection do
    exactly. \<open>DefaultEventSet\<close> (\<open>DefaultTimeWarpEventSet.cpp\<close>): the other event set. Both interpret the locale \<open>event_set\<close>, in which it is
    proved once that stragglers are absorbed.
  \<^item> \<open>StateManager\<close> (\<open>StateManagerImplementationBase.cpp\<close>, periodic and adaptive saving): restore gives the newest usable state, and
    collecting fossils does not change what is restored.
  \<^item> \<open>OutputQueue\<close> (\<open>OutputEvents.cpp\<close>, aggressive and lazy cancellation), \<open>DynamicOutput\<close> (\<open>AdaptiveOutputManager.cpp\<close>): a rollback takes
    exactly the events sent since; with any switching between the modes every event sent is valid or cancelled exactly once.
  \<^item> \<open>MatternGVT\<close>, \<open>GVTSystem\<close>, \<open>GVTProperties\<close> (\<open>MatternGVTManager.cpp\<close>): the token ring as a step relation with messages in any order.
    The white message count is conserved, a committed value is a lower bound under a stated condition, and a run in which it is not.
  \<^item> \<open>FileQueues\<close> (\<open>FileQueue.cpp\<close>, \<open>InFileQueue.cpp\<close>): the output that is committed is the output not rolled back.
  \<^item> \<open>Kernel\<close>, \<open>KernelRollback\<close>, \<open>Cascade\<close>, \<open>KernelProperties\<close> (\<open>TimeWarpSimulationManager.cpp\<close>, \<open>SimulationObject.cpp\<close>): the composition. The
    manager's functions call each other through the application, so the kernel is one recursive function on a datatype of calls whose value is \<open>None\<close>
    when it does not return. Rollbacks, coasting forward, stragglers and anti-messages are shown to return and to do their work.
  \<^item> \<open>Termination\<close> (\<open>TokenPassingTerminationManager.cpp\<close>): the ring that detects the end of the simulation: safety, detection, and a false
    detection before the first report of a status.
  \<^item> \<open>FossilRecovery\<close>, \<open>FossilProtocol\<close> (\<open>OptFossilCollManager.cpp\<close>): checkpoints, and the protocol that takes all managers back to a
    common one. Every checkpoint that is asked for can be restored and all managers restore the same one, for any order of the messages.
  \<^item> \<open>EventList\<close>, \<open>SplayTree\<close>, \<open>Sequential\<close> (\<open>EventSet.h\<close>, \<open>SplayTree.cpp\<close>, \<open>SequentialSimulationManager.cpp\<close>): the splay tree refines a sorted list
    and interprets the locale \<open>event_list\<close>; over any such list the sequential simulation respects causality and ends.
  \<^item> \<open>LadderQueue\<close>, \<open>LadderInvariant\<close>, \<open>LadderBegin\<close>, \<open>LadderProperties\<close> (\<open>LadderQStrict.h\<close>): the ladder queue by which the threads of the threaded kernel
    find the next object, as the sequential object that its lock makes it. No operation aborts or loses an event, a queue that is filled and then emptied
    sorts, and two runs in which the queue fails: an event that comes out too late, and an empty queue that does not say so.
  \<^item> \<open>Serialization\<close>, \<open>Messages\<close> (\<open>SerializedInstance.cpp\<close> and the kernel messages): encodings and their round trips.
  \<^item> \<open>Aggregation\<close> (\<open>Transceiver.cpp\<close>, \<open>MessageManager.cpp\<close>, \<open>MsgAggregatingCommunicationManager.cpp\<close>): messages collected into packets, byte by byte.
    The manager refines a queue per destination; what is sent arrives once and in order. Two limits of the code: a message that overruns its buffer, and
    event messages that are never sent because they do not age.
  \<^item> \<open>Startup\<close> (\<open>CommunicationManagerImplementationBase.cpp\<close>, \<open>TimeWarpSimulationManager.cpp\<close>): how the managers tell each other their objects and start together.
    It cannot get stuck, ends after a bounded number of steps, and nobody simulates before everybody knows all objects.
  \<^item> \<open>FrequencyScaling\<close> (\<open>FIRFilter.h\<close>, \<open>DVFSManagerImplementationBase.cpp\<close> and the two managers derived from it): the moving average of the useful work,
    and how the frequencies of the nodes follow it: always in range, slower only below the mean and faster only above it.
  \<^item> \<open>ThreadedEventSet\<close>, \<open>ThreadedSchedule\<close>, \<open>ThreadedProperties\<close> (\<open>ThreadedTimeWarpMultiSet.cpp\<close>, \<open>ThreadedTimeWarpMultiSetLTSF.cpp\<close>, \<open>LockState.h\<close>,
    \<open>ThreadedTimeWarpSimulationManager.cpp\<close>): the event set that worker threads share, as threads that interleave at the operations on locks. In every
    reachable state each object is with one worker or in its schedule queue with its first event, a schedule queue is never held by a thread that waits, its first
    event is the lowest, and the test for termination is exact. Two runs in which the locks of the unprocessed events fail: a deadlock, and an
    unprotected erasure.
  \<^item> \<open>ThreadedLVT\<close> (same manager): the rounds in which the workers report their local virtual time. Three rounds give the minimum of what was reported;
    only the first time sent is remembered; a run after which no round ends.
  \<^item> \<open>Partitioning\<close>: the partitioners put every object into exactly one partition.

  \<^bold>\<open>Bounds and fuel.\<close> Loops are recursive functions with termination proofs. The kernel itself may recurse without end for an arbitrary
  application and is a \<open>partial_function\<close> into options; that it returns is what the properties about it prove. Counters keep their width
  where wrap-around or a signed reading can be seen, and are natural numbers where they count elements in memory.

  \<^bold>\<open>Not modelled.\<close> Of the threaded kernel: the schedule queue without a lock (its correctness is about the memory model), moving objects between
  schedule queues, the copies of the other managers with a thread number, catastrophic rollbacks, and the suspension of idle workers (the threads of the model take steps in any order, and
  memory is sequentially consistent). Further the physical layers (sockets and MPI), reading the configuration and the factories that choose the managers, the Chebyshev estimate of the history length (floating point statistics), statistics and memory management. The kernel is modelled without optimistic fossil
  collection, whose manager is modelled by itself.
\<close>

end
